(* ===== verification/Prelude.thy ===== *)
theory Prelude
  imports
    Main
    "HOL-Library.Monad_Syntax"
    "HOL-Library.Mapping"
    "HOL-Library.AList_Mapping"
    "HOL-Library.Word"
begin

unbundle bit_operations_syntax

text \<open>
  Shared vocabulary of the development.

  \<^item> The integer types of the C++ sources: \<open>llama_pos\<close>, \<open>llama_seq_id\<close> and
    \<open>llama_token\<close> are \<open>int32_t\<close>; they are modelled by \<open>int\<close> and every addition
    or subtraction that the language leaves undefined on overflow goes through
    \<open>i32_add\<close> / \<open>i32_sub\<close>, which have no result out of range.  \<open>uint32_t\<close> values
    are \<open>nat\<close>, with the wrap-around written \<open>u32\<close> where an operation can wrap.
  \<^item> Aborting code: a computation of type \<open>'a option\<close> is \<open>None\<close> when an
    \<open>assert\<close> / \<open>GGML_ASSERT\<close> fails, an index is out of range or the behaviour is
    undefined; \<open>ggml_assert\<close> is the check and \<open>at\<close> the checked vector access.
  \<^item> Loops: \<open>for_each\<close> is the C++ \<open>for\<close> loop over a list of indices with a state
    that is threaded through, and \<open>for_each_rule\<close>, \<open>for_upto_rule\<close> are its total
    correctness rules (the loop does not abort, and the loop invariant holds at the end).
\<close>

section \<open>Collections of rewrite rules\<close>

named_theorems loop_simps \<open>unfolding of the loop combinators\<close>
named_theorems cells_simps \<open>field projections of the operations on cells\<close>

section \<open>Machine integers\<close>

type_synonym llama_pos = int
type_synonym llama_seq_id = int
type_synonym llama_token = int

definition LLAMA_MAX_SEQ :: int where
  "LLAMA_MAX_SEQ = 256"

definition INT32_MAX :: int where
  "INT32_MAX = 2147483647"

definition i32_ok :: "int \<Rightarrow> bool" where
  "i32_ok x \<longleftrightarrow> - 2147483648 \<le> x \<and> x \<le> 2147483647"

definition i32_add :: "int \<Rightarrow> int \<Rightarrow> int option" where
  "i32_add a b = (if i32_ok (a + b) then Some (a + b) else None)"

definition i32_sub :: "int \<Rightarrow> int \<Rightarrow> int option" where
  "i32_sub a b = (if i32_ok (a - b) then Some (a - b) else None)"

text \<open>C++ division truncates towards zero; division by zero and overflow are undefined.\<close>

definition i32_div :: "int \<Rightarrow> int \<Rightarrow> int option" where
  "i32_div a b =
     (if b = 0 then None
      else let q = sgn a * sgn b * (\<bar>a\<bar> div \<bar>b\<bar>) in if i32_ok q then Some q else None)"

definition u32 :: "nat \<Rightarrow> nat" where
  "u32 n = n mod 4294967296"

lemma i32_add_Some [simp]: "i32_add a b = Some c \<longleftrightarrow> i32_ok (a + b) \<and> c = a + b"
  by (auto simp: i32_add_def)

lemma i32_sub_Some [simp]: "i32_sub a b = Some c \<longleftrightarrow> i32_ok (a - b) \<and> c = a - b"
  by (auto simp: i32_sub_def)

lemma i32_ok_between: "i32_ok a \<Longrightarrow> i32_ok b \<Longrightarrow> a \<le> c \<Longrightarrow> c \<le> b \<Longrightarrow> i32_ok c"
  by (auto simp: i32_ok_def)

lemma i32_ok_minus_one [simp]: "i32_ok (- 1)" and i32_ok_zero [simp]: "i32_ok 0"
  by (auto simp: i32_ok_def)

lemma i32_div_pos:
  assumes "0 \<le> a" and "i32_ok a" and "0 < b"
  shows "i32_div a b = Some (a div b)"
proof -
  have "sgn a * (a div b) = a div b"
    using assms by (cases "a = 0") auto
  moreover have "0 \<le> a div b" and "a div b \<le> a"
    using assms by (auto simp: pos_imp_zdiv_nonneg_iff intro: zdiv_mono2 [where b' = 1, simplified])
  ultimately show ?thesis
    using assms by (auto simp: i32_div_def i32_ok_def Let_def)
qed

lemma u32_id [simp]: "n < 4294967296 \<Longrightarrow> u32 n = n"
  by (simp add: u32_def)

lemma u32_bound: "u32 n < 4294967296"
  by (simp add: u32_def)

section \<open>Aborting computations\<close>

definition ggml_assert :: "bool \<Rightarrow> unit option" where
  "ggml_assert b = (if b then Some () else None)"

definition at :: "'a list \<Rightarrow> nat \<Rightarrow> 'a option" where
  "at xs i = (if i < length xs then Some (xs ! i) else None)"

lemma ggml_assert_simps [simp]: "ggml_assert True = Some ()" "ggml_assert False = None"
  by (simp_all add: ggml_assert_def)

lemma ggml_assert_Some [simp]: "ggml_assert b = Some u \<longleftrightarrow> b"
  by (simp add: ggml_assert_def)

lemma at_Some [simp]: "at xs i = Some x \<longleftrightarrow> i < length xs \<and> x = xs ! i"
  by (auto simp: at_def)

lemma at_in [simp]: "i < length xs \<Longrightarrow> at xs i = Some (xs ! i)"
  by (simp add: at_def)

lemma bind_assert [simp]: "Option.bind (ggml_assert b) f = (if b then f () else None)"
  by (simp add: ggml_assert_def)

section \<open>Loops\<close>

fun for_each :: "('a \<Rightarrow> 's \<Rightarrow> 's option) \<Rightarrow> 'a list \<Rightarrow> 's \<Rightarrow> 's option" where
  "for_each f [] s = Some s"
| "for_each f (x # xs) s = do { s' \<leftarrow> f x s; for_each f xs s' }"

lemma for_each_append:
  "for_each f (xs @ ys) s = do { s' \<leftarrow> for_each f xs s; for_each f ys s' }"
  by (induction xs arbitrary: s) (auto split: Option.bind_splits)

lemma for_each_total: "for_each (\<lambda>x s. Some (g x s)) xs s = Some (fold g xs s)"
  by (induction xs arbitrary: s) auto

lemma for_each_cong [fundef_cong]:
  "xs = ys \<Longrightarrow> s = t \<Longrightarrow> (\<And>x s. x \<in> set ys \<Longrightarrow> f x s = g x s) \<Longrightarrow>
   for_each f xs s = for_each g ys t"
proof (induction xs arbitrary: s t ys)
  case Nil
  then show ?case by simp
next
  case (Cons x xs)
  then show ?case
    by (cases "g x t") auto
qed

text \<open>
  The total rule: an invariant over the elements done so far.  The loop returns, and the
  invariant holds for the whole list.
\<close>

lemma for_each_rule:
  assumes "I [] s"
    and "\<And>ys x zs t. xs = ys @ x # zs \<Longrightarrow> I ys t \<Longrightarrow> \<exists>t'. f x t = Some t' \<and> I (ys @ [x]) t'"
  shows "\<exists>t. for_each f xs s = Some t \<and> I xs t"
proof -
  have "\<exists>t. for_each f ys s = Some t \<and> I ys t" if "xs = ys @ zs" for ys zs
    using that
  proof (induction ys arbitrary: zs rule: rev_induct)
    case Nil
    then show ?case using assms(1) by simp
  next
    case (snoc y ys)
    then obtain t where "for_each f ys s = Some t" "I ys t" by auto
    moreover from this snoc.prems assms(2) [of ys y zs t]
    obtain t' where "f y t = Some t'" "I (ys @ [y]) t'" by auto
    ultimately show ?case by (auto simp: for_each_append)
  qed
  from this [of xs "[]"] show ?thesis by simp
qed

lemma for_upto_rule:
  assumes "I 0 s"
    and "\<And>i t. i < n \<Longrightarrow> I i t \<Longrightarrow> \<exists>t'. f i t = Some t' \<and> I (Suc i) t'"
  shows "\<exists>t. for_each f [0..<n] s = Some t \<and> I n t"
proof -
  have "\<exists>t. for_each f [0..<m] s = Some t \<and> I m t" if "m \<le> n" for m
    using that
  proof (induction m)
    case 0
    then show ?case using assms(1) by simp
  next
    case (Suc m)
    then obtain t where "for_each f [0..<m] s = Some t" "I m t" by auto
    moreover from this Suc.prems assms(2) [of m t]
    obtain t' where "f m t = Some t'" "I (Suc m) t'" by auto
    ultimately show ?case by (auto simp: for_each_append)
  qed
  then show ?thesis by simp
qed

text \<open>The partial rule: whatever the loop returns satisfies the invariant.\<close>

lemma for_each_preserves:
  assumes "for_each f xs s = Some t" and "P s"
    and "\<And>x s t. x \<in> set xs \<Longrightarrow> P s \<Longrightarrow> f x s = Some t \<Longrightarrow> P t"
  shows "P t"
  using assms
proof (induction xs arbitrary: s)
  case Nil
  then show ?case by simp
next
  case (Cons x xs)
  then obtain s' where "f x s = Some s'" "for_each f xs s' = Some t"
    by (auto split: Option.bind_splits)
  moreover from this Cons.prems have "P s'" by auto
  ultimately show ?case using Cons by auto
qed

lemma for_upto_partial:
  assumes "for_each f [0..<n] s = Some t" and "I 0 s"
    and "\<And>i s t. i < n \<Longrightarrow> I i s \<Longrightarrow> f i s = Some t \<Longrightarrow> I (Suc i) t"
  shows "I n t"
proof -
  have "for_each f [0..<m] s = Some u \<Longrightarrow> I m u" if "m \<le> n" for m u
    using that
  proof (induction m arbitrary: u)
    case 0
    then show ?case using assms(2) by simp
  next
    case (Suc m)
    from Suc.prems(1) obtain v where "for_each f [0..<m] s = Some v" "f m v = Some u"
      by (auto simp: for_each_append split: Option.bind_splits)
    with Suc assms(3) [of m v u] show ?case by simp
  qed
  with assms(1) show ?thesis by simp
qed

section \<open>Lists\<close>

lemma find_eq: "x \<in> set xs \<Longrightarrow> List.find (\<lambda>y. y = x) xs = Some x"
  by (induction xs) auto

section \<open>Padding\<close>

text \<open>
  \<open>GGML_PAD(x, n)\<close> is \<open>((x) + (n) - 1) & ~((n) - 1)\<close> on \<open>uint32_t\<close>.  For a power of two
  \<open>n\<close> it is the least multiple of \<open>n\<close> that is at least \<open>x\<close>.
\<close>

definition GGML_PAD :: "nat \<Rightarrow> nat \<Rightarrow> nat" where
  "GGML_PAD x n = unat ((of_nat x + of_nat n - 1 :: 32 word) AND NOT (of_nat n - 1))"

lemma and_not_mask_word: "w AND NOT (mask k) = push_bit k (drop_bit k (w :: 'a::len word))"
  by (rule bit_word_eqI) (auto simp: bit_simps)

lemma unat_and_not_mask:
  "unat ((w :: 'a::len word) AND NOT (mask k)) = unat w div 2 ^ k * 2 ^ k"
proof -
  have d: "drop_bit k w = of_nat (unat w div 2 ^ k)"
    by (rule word_unat_eq_iff [THEN iffD2])
      (simp add: unat_drop_bit_eq unat_of_nat drop_bit_eq_div [where 'a = nat] le_less_trans [OF div_le_dividend unsigned_less] take_bit_nat_eq_self)
  have "w AND NOT (mask k) = of_nat (unat w div 2 ^ k * 2 ^ k)"
    by (simp add: and_not_mask_word push_bit_eq_mult d)
  moreover have "unat w div 2 ^ k * 2 ^ k < 2 ^ LENGTH('a)"
    by (rule le_less_trans [OF _ unsigned_less [of w]]) (simp add: div_times_less_eq_dividend)
  ultimately show ?thesis
    by (simp add: unat_of_nat take_bit_nat_eq_self del: of_nat_mult of_nat_power)
qed

lemma GGML_PAD_eq:
  assumes "n = 2 ^ k" and "x + n < 4294967296"
  shows "GGML_PAD x n = (x + n - 1) div n * n"
proof -
  have m: "(of_nat n - 1 :: 32 word) = mask k"
    by (simp add: assms(1) mask_eq_exp_minus_1)
  have "(of_nat x + of_nat n - 1 :: 32 word) = of_nat (x + n - 1)"
    using assms(1) by (subst of_nat_diff) (auto simp: trans_le_add2)
  then have "unat (of_nat x + of_nat n - 1 :: 32 word) = x + n - 1"
    using assms(2) by (simp add: unat_of_nat take_bit_eq_mod)
  then show ?thesis
    unfolding GGML_PAD_def m unat_and_not_mask by (simp add: assms(1))
qed
lemma pad_ge:
  assumes "0 < n"
  shows "x \<le> (x + n - 1) div n * (n::nat)"
proof -
  have "(x + n - 1) div n * n + (x + n - 1) mod n = x + n - 1" by simp
  moreover have "(x + n - 1) mod n < n" using assms by simp
  ultimately show ?thesis by linarith
qed

end
