(* ===== verification/Hparams.thy ===== *)
theory Hparams
  imports Prelude
begin

text \<open>
  Model hyper-parameters: \<open>struct llama_hparams\<close> of \<open>src/src/llama-hparams.h\<close> and the
  derived quantities of \<open>src/src/llama-hparams.cpp\<close>: which layers use sliding-window
  attention, which have a KV cache, the widths of the K and V rows, the sizes of the recurrent
  states, and the sliding-window mask \<open>is_masked_swa\<close>.

  Only the fields that these functions read are kept.  \<open>uint32_t\<close> arithmetic wraps
  (\<open>u32\<close>); reading a layer out of range is \<open>GGML_ABORT\<close>, that is \<open>None\<close>.
\<close>

section \<open>Data\<close>

datatype llama_swa_type =
  LLAMA_SWA_TYPE_NONE | LLAMA_SWA_TYPE_STANDARD | LLAMA_SWA_TYPE_CHUNKED | LLAMA_SWA_TYPE_SYMMETRIC

datatype llama_rope_type =
  LLAMA_ROPE_TYPE_NONE | LLAMA_ROPE_TYPE_NORM | LLAMA_ROPE_TYPE_NEOX | LLAMA_ROPE_TYPE_MROPE
| LLAMA_ROPE_TYPE_IMROPE | LLAMA_ROPE_TYPE_VISION

definition LLAMA_MAX_LAYERS :: nat where
  "LLAMA_MAX_LAYERS = 512"

record llama_hparams =
  hp_n_embd :: nat
  hp_n_layer :: nat
  hp_n_layer_kv_from_start :: int
  hp_n_embd_head_k :: nat
  hp_n_embd_head_v :: nat
  hp_n_embd_head_k_mla_impl :: nat
  hp_n_embd_head_v_mla_impl :: nat
  hp_n_shortconv_l_cache :: nat
  hp_n_head_arr :: "nat list"
  hp_n_head_kv_arr :: "nat list"
  hp_n_ff_arr :: "nat list"
  hp_wkv_head_size :: nat
  hp_token_shift_count :: nat
  hp_rope_sections :: "int list"
  hp_swa_layers :: "nat list"
  hp_ssm_d_conv :: nat
  hp_ssm_d_inner :: nat
  hp_ssm_d_state :: nat
  hp_ssm_n_group :: nat
  hp_n_embd_head_kda :: nat
  hp_recurrent_layer_arr :: "bool list"
  hp_n_embd_out_impl :: nat
  hp_n_deepstack_layers :: nat
  hp_rope_type :: llama_rope_type
  hp_use_alibi :: bool
  hp_n_rel_attn_bkts :: nat

section \<open>Sliding-window layers\<close>

text \<open>\<open>swa_layers[il] = b\<close>; the array has \<open>LLAMA_MAX_LAYERS\<close> entries.\<close>

definition set_swa_layer :: "nat \<Rightarrow> bool \<Rightarrow> llama_hparams \<Rightarrow> llama_hparams option" where
  "set_swa_layer il b hp =
     (if il < length (hp_swa_layers hp)
      then Some (hp\<lparr>hp_swa_layers := (hp_swa_layers hp)[il := if b then 1 else 0]\<rparr>) else None)"

definition set_swa_pattern :: "nat \<Rightarrow> bool \<Rightarrow> llama_hparams \<Rightarrow> llama_hparams option" where
  "set_swa_pattern n_pattern dense_first hp =
     (if dense_first then
        for_each (\<lambda>il. set_swa_layer il (n_pattern = 0 \<or> il mod n_pattern \<noteq> 0)) [0..<hp_n_layer hp] hp
      else
        for_each (\<lambda>il. set_swa_layer il (n_pattern = 0 \<or> il mod n_pattern < n_pattern - 1))
          [0..<hp_n_layer hp] hp)"

definition is_swa_any :: "llama_hparams \<Rightarrow> bool" where
  "is_swa_any hp \<longleftrightarrow> (\<exists>il\<in>set [0..<hp_n_layer hp]. hp_swa_layers hp ! il \<noteq> 0)"

definition is_swa :: "nat \<Rightarrow> llama_hparams \<Rightarrow> bool option" where
  "is_swa il hp = (if il < hp_n_layer hp then map_option (\<lambda>x. x \<noteq> 0) (at (hp_swa_layers hp) il) else None)"

section \<open>Heads and embedding widths\<close>

definition n_head :: "nat \<Rightarrow> llama_hparams \<Rightarrow> nat option" where
  "n_head il hp = (if il < hp_n_layer hp then at (hp_n_head_arr hp) il else None)"

definition n_head_kv :: "nat \<Rightarrow> llama_hparams \<Rightarrow> nat option" where
  "n_head_kv il hp = (if il < hp_n_layer hp then at (hp_n_head_kv_arr hp) il else None)"

definition n_ff :: "nat \<Rightarrow> llama_hparams \<Rightarrow> nat option" where
  "n_ff il hp = (if il < hp_n_layer hp then at (hp_n_ff_arr hp) il else None)"

definition n_gqa :: "nat \<Rightarrow> llama_hparams \<Rightarrow> nat option" where
  "n_gqa il hp = do {
     h \<leftarrow> n_head il hp;
     hkv \<leftarrow> n_head_kv il hp;
     Some (if hkv = 0 then 0 else h div hkv) }"

definition n_embd_inp :: "llama_hparams \<Rightarrow> nat" where
  "n_embd_inp hp =
     (if hp_n_deepstack_layers hp > 0
      then u32 (hp_n_embd hp + u32 (hp_n_embd hp * hp_n_deepstack_layers hp)) else hp_n_embd hp)"

definition n_embd_out :: "llama_hparams \<Rightarrow> nat" where
  "n_embd_out hp = (if hp_n_embd_out_impl hp > 0 then hp_n_embd_out_impl hp else hp_n_embd hp)"

definition n_embd_k_gqa :: "nat \<Rightarrow> llama_hparams \<Rightarrow> nat option" where
  "n_embd_k_gqa il hp = do { h \<leftarrow> n_head_kv il hp; Some (u32 (hp_n_embd_head_k hp * h)) }"

definition n_embd_v_gqa :: "nat \<Rightarrow> llama_hparams \<Rightarrow> nat option" where
  "n_embd_v_gqa il hp = do { h \<leftarrow> n_head_kv il hp; Some (u32 (hp_n_embd_head_v hp * h)) }"

text \<open>The loops over the layers: the first layer that differs ends the loop.\<close>

fun any_differs :: "(nat \<Rightarrow> nat option) \<Rightarrow> nat \<Rightarrow> nat list \<Rightarrow> bool option" where
  "any_differs f v [] = Some False"
| "any_differs f v (il # ils) = do { w \<leftarrow> f il; if v \<noteq> w then Some True else any_differs f v ils }"

definition is_n_embd_k_gqa_variable :: "llama_hparams \<Rightarrow> bool option" where
  "is_n_embd_k_gqa_variable hp = do {
     v \<leftarrow> n_embd_k_gqa 0 hp;
     any_differs (\<lambda>il. n_embd_k_gqa il hp) v [0..<hp_n_layer hp] }"

definition is_n_embd_v_gqa_variable :: "llama_hparams \<Rightarrow> bool option" where
  "is_n_embd_v_gqa_variable hp = do {
     v \<leftarrow> n_embd_v_gqa 0 hp;
     any_differs (\<lambda>il. n_embd_v_gqa il hp) v [0..<hp_n_layer hp] }"

definition n_embd_k_gqa_max :: "llama_hparams \<Rightarrow> nat option" where
  "n_embd_k_gqa_max hp = do {
     v \<leftarrow> n_embd_k_gqa 0 hp;
     for_each (\<lambda>il v. do { w \<leftarrow> n_embd_k_gqa il hp; Some (max v w) }) [0..<hp_n_layer hp] v }"

definition n_embd_v_gqa_max :: "llama_hparams \<Rightarrow> nat option" where
  "n_embd_v_gqa_max hp = do {
     v \<leftarrow> n_embd_v_gqa 0 hp;
     for_each (\<lambda>il v. do { w \<leftarrow> n_embd_v_gqa il hp; Some (max v w) }) [0..<hp_n_layer hp] v }"

section \<open>Recurrent states\<close>

definition n_embd_r :: "llama_hparams \<Rightarrow> nat option" where
  "n_embd_r hp =
     (if hp_wkv_head_size hp \<noteq> 0 then Some (u32 (hp_token_shift_count hp * hp_n_embd hp))
      else if hp_n_shortconv_l_cache hp \<noteq> 0
      then Some (u32 (hp_n_embd hp * (hp_n_shortconv_l_cache hp - 1)))
      else if hp_n_embd_head_kda hp \<noteq> 0
      then do {
        h \<leftarrow> n_head 0 hp;
        let d_inner = u32 (h * hp_n_embd_head_kda hp);
        Some (u32 (3 * (if hp_ssm_d_conv hp > 0 then hp_ssm_d_conv hp - 1 else 3) * d_inner)) }
      else Some (u32 ((if hp_ssm_d_conv hp > 0 then hp_ssm_d_conv hp - 1 else 0) *
             u32 (hp_ssm_d_inner hp + 2 * hp_ssm_n_group hp * hp_ssm_d_state hp))))"

definition n_embd_s :: "llama_hparams \<Rightarrow> nat option" where
  "n_embd_s hp =
     (if hp_wkv_head_size hp \<noteq> 0 then Some (u32 (hp_n_embd hp * hp_wkv_head_size hp))
      else if hp_n_embd_head_kda hp \<noteq> 0
      then do { h \<leftarrow> n_head 0 hp; Some (u32 (hp_n_embd_head_kda hp * hp_n_embd_head_kda hp * h)) }
      else Some (u32 (hp_ssm_d_state hp * hp_ssm_d_inner hp)))"

definition is_recurrent :: "nat \<Rightarrow> llama_hparams \<Rightarrow> bool option" where
  "is_recurrent il hp = (if il < hp_n_layer hp then at (hp_recurrent_layer_arr hp) il else None)"

section \<open>Positions, MLA, KV layers\<close>

definition n_pos_per_embd :: "llama_hparams \<Rightarrow> nat" where
  "n_pos_per_embd hp =
     (if hp_rope_type hp = LLAMA_ROPE_TYPE_MROPE \<or> hp_rope_type hp = LLAMA_ROPE_TYPE_IMROPE then 4 else 1)"

definition is_mla :: "llama_hparams \<Rightarrow> bool option" where
  "is_mla hp = do {
     ggml_assert ((hp_n_embd_head_k_mla_impl hp = 0 \<and> hp_n_embd_head_v_mla_impl hp = 0) \<or>
                  (hp_n_embd_head_k_mla_impl hp \<noteq> 0 \<and> hp_n_embd_head_v_mla_impl hp \<noteq> 0));
     Some (hp_n_embd_head_k_mla_impl hp \<noteq> 0 \<and> hp_n_embd_head_v_mla_impl hp \<noteq> 0) }"

definition n_embd_head_k_mla :: "llama_hparams \<Rightarrow> nat option" where
  "n_embd_head_k_mla hp = do {
     b \<leftarrow> is_mla hp; Some (if b then hp_n_embd_head_k_mla_impl hp else hp_n_embd_head_k hp) }"

definition n_embd_head_v_mla :: "llama_hparams \<Rightarrow> nat option" where
  "n_embd_head_v_mla hp = do {
     b \<leftarrow> is_mla hp; Some (if b then hp_n_embd_head_v_mla_impl hp else hp_n_embd_head_v hp) }"

definition has_kv :: "nat \<Rightarrow> llama_hparams \<Rightarrow> bool" where
  "has_kv il hp =
     (if hp_n_layer_kv_from_start hp \<ge> 0 then il < nat (hp_n_layer_kv_from_start hp) else True)"

definition n_layer_kv :: "llama_hparams \<Rightarrow> nat" where
  "n_layer_kv hp = fold (\<lambda>il res. if has_kv il hp then res + 1 else res) [0..<hp_n_layer hp] 0"

definition use_mrope :: "llama_hparams \<Rightarrow> bool" where
  "use_mrope hp \<longleftrightarrow> hp_rope_sections hp ! 0 > 0 \<and> hp_rope_sections hp ! 1 > 0"

section \<open>The sliding-window mask\<close>

text \<open>\<open>(int32_t) x\<close> of a \<open>uint32_t\<close>: two's complement.\<close>

definition to_i32 :: "nat \<Rightarrow> int" where
  "to_i32 x = (if x < 2147483648 then int x else int x - 4294967296)"

definition is_masked_swa :: "nat \<Rightarrow> llama_swa_type \<Rightarrow> llama_pos \<Rightarrow> llama_pos \<Rightarrow> bool option" where
  "is_masked_swa n_swa swa_type p0 p1 = do {
     ggml_assert (p0 \<ge> 0 \<and> p1 \<ge> 0);
     case swa_type of
       LLAMA_SWA_TYPE_NONE \<Rightarrow> Some False
     | LLAMA_SWA_TYPE_STANDARD \<Rightarrow> Some (p1 - p0 \<ge> to_i32 n_swa)
     | LLAMA_SWA_TYPE_CHUNKED \<Rightarrow>
         if n_swa = 0 then None
         else let pos_chunk_start = (p1 div int n_swa) * int n_swa in Some (p0 < pos_chunk_start)
     | LLAMA_SWA_TYPE_SYMMETRIC \<Rightarrow> do {
         half_n_swa \<leftarrow> i32_div (to_i32 n_swa) 2;
         let pos_diff = p1 - p0;
         Some (pos_diff < - half_n_swa \<or> pos_diff > half_n_swa) } }"

section \<open>Properties\<close>

lemma set_swa_layers_loop:
  assumes "n \<le> length (hp_swa_layers hp)"
  shows "\<exists>hp'. for_each (\<lambda>il. set_swa_layer il (P il)) [0..<n] hp = Some hp' \<and>
    hp' = hp\<lparr>hp_swa_layers := hp_swa_layers hp'\<rparr> \<and> length (hp_swa_layers hp') = length (hp_swa_layers hp) \<and>
    (\<forall>il<n. hp_swa_layers hp' ! il = (if P il then 1 else 0))"
proof -
  let ?I = "\<lambda>i hp'. hp' = hp\<lparr>hp_swa_layers := hp_swa_layers hp'\<rparr> \<and>
    length (hp_swa_layers hp') = length (hp_swa_layers hp) \<and>
    (\<forall>il<i. hp_swa_layers hp' ! il = (if P il then 1 else 0))"
  have "\<exists>hp'. for_each (\<lambda>il. set_swa_layer il (P il)) [0..<n] hp = Some hp' \<and> ?I n hp'"
  proof (rule for_upto_rule)
    show "?I 0 hp" by simp
    fix i t
    assume i: "i < n" and I: "?I i t"
    let ?t' = "t\<lparr>hp_swa_layers := (hp_swa_layers t)[i := if P i then 1 else 0]\<rparr>"
    have "set_swa_layer i (P i) t = Some ?t'"
      using i I assms by (simp add: set_swa_layer_def)
    moreover have "?t' = hp\<lparr>hp_swa_layers := hp_swa_layers ?t'\<rparr>"
      by (subst conjunct1 [OF I]) simp
    ultimately show "\<exists>t'. set_swa_layer i (P i) t = Some t' \<and> ?I (Suc i) t'"
      using i I assms by (auto simp: nth_list_update less_Suc_eq)
  qed
  then show ?thesis by auto
qed

lemma n_layer_kv_count: "n_layer_kv hp = length (filter (\<lambda>il. has_kv il hp) [0..<hp_n_layer hp])"
proof -
  have "fold (\<lambda>il res. if has_kv il hp then res + 1 else res) xs r = r + length (filter (\<lambda>il. has_kv il hp) xs)"
    for xs r by (induction xs arbitrary: r) auto
  then show ?thesis by (simp add: n_layer_kv_def)
qed

lemma length_filter_less: "length (filter (\<lambda>i. i < k) [0..<n]) = min n k"
  by (induction n) auto

lemma for_each_max:
  assumes "for_each (\<lambda>il v. do { w \<leftarrow> f il; Some (max v w) }) xs v = Some (r :: nat)"
  shows "v \<le> r \<and> (\<forall>il\<in>set xs. \<exists>w. f il = Some w \<and> w \<le> r) \<and> (r = v \<or> (\<exists>il\<in>set xs. f il = Some r))"
  using assms
proof (induction xs arbitrary: v)
  case Nil
  then show ?case by simp
next
  case (Cons il xs)
  then obtain w where w: "f il = Some w"
    and r: "for_each (\<lambda>il v. do { w \<leftarrow> f il; Some (max v w) }) xs (max v w) = Some r"
    by (auto split: Option.bind_splits)
  from Cons.IH [OF r] w show ?case by (auto simp: max_def split: if_splits)
qed

lemma any_differs_False:
  "any_differs f v xs = Some False \<longleftrightarrow> (\<forall>il\<in>set xs. f il = Some v)"
  by (induction xs) (auto split: Option.bind_splits)

text \<open>A later query position never unmasks a cell, and an older cell is masked with a younger one.\<close>

lemma is_masked_swa_mono_p1:
  assumes "is_masked_swa n_swa t p0 p1 = Some True" and "p1 \<le> p1'" and "p0 \<le> p1"
  shows "is_masked_swa n_swa t p0 p1' = Some True"
proof (cases t)
  case LLAMA_SWA_TYPE_CHUNKED
  with assms(1) have n: "n_swa \<noteq> 0" "0 \<le> p0" "0 \<le> p1" "p0 < (p1 div int n_swa) * int n_swa"
    by (auto simp: is_masked_swa_def Let_def split: if_splits)
  have "(p1 div int n_swa) * int n_swa \<le> (p1' div int n_swa) * int n_swa"
    using n(1) assms(2) by (intro mult_right_mono zdiv_mono1) auto
  with n(4) have "p0 < (p1' div int n_swa) * int n_swa" by (rule less_le_trans)
  with LLAMA_SWA_TYPE_CHUNKED n assms(2) show ?thesis
    by (simp add: is_masked_swa_def Let_def)
next
  case LLAMA_SWA_TYPE_SYMMETRIC
  with assms show ?thesis
    by (cases "i32_div (to_i32 n_swa) 2") (auto simp: is_masked_swa_def Let_def split: if_splits)
qed (use assms in \<open>auto simp: is_masked_swa_def split: if_splits\<close>)

lemma is_masked_swa_mono_p0:
  assumes "is_masked_swa n_swa t p0 p1 = Some True" and "0 \<le> p0'" and "p0' \<le> p0" and "p0 \<le> p1"
  shows "is_masked_swa n_swa t p0' p1 = Some True"
proof (cases t)
  case LLAMA_SWA_TYPE_SYMMETRIC
  with assms show ?thesis
    by (cases "i32_div (to_i32 n_swa) 2") (auto simp: is_masked_swa_def Let_def split: if_splits)
qed (use assms in \<open>auto simp: is_masked_swa_def Let_def split: if_splits\<close>)

end
