(* ===== verification/Batch.thy ===== *)
theory Batch
  imports Prelude "HOL-Library.Multiset"
begin

text \<open>
  Batches: \<open>class llama_batch_allocr\<close> of \<open>src/src/llama-batch.h\<close> and
  \<open>src/src/llama-batch.cpp\<close>.  \<open>init\<close> sanitises an input batch (validation, generation
  of missing fields, statistics, consistency checks against the memory), and the three
  \<open>split_*\<close> functions cut it into ubatches.

  Pointers that may be null are options of lists; a pointer that \<open>init\<close> redirects to a
  vector of the object is that vector's content.  A float is its bit pattern (the code only
  copies embeddings).  \<open>None\<close> is a failed assertion or an access out of range; the
  \<open>bool\<close> of the result of \<open>init\<close> is the value the C++ function returns.  The memory module is a
  parameter: the two virtual queries \<open>seq_pos_min\<close> and \<open>seq_pos_max\<close>.
\<close>

section \<open>Data\<close>

type_synonym f32 = "32 word"
type_synonym seq_set_t = "llama_seq_id set"

record llama_batch =
  b_n_tokens :: int
  b_token :: "llama_token list option"
  b_embd :: "f32 list option"
  b_pos :: "llama_pos list option"
  b_n_seq_id :: "int list option"
  b_seq_id :: "llama_seq_id list list option"
  b_logits :: "int list option"

record llama_ubatch =
  ub_b_equal_seqs :: bool
  ub_n_tokens :: nat
  ub_n_seq_tokens :: nat
  ub_n_seqs :: nat
  ub_n_seqs_unq :: nat
  ub_n_pos :: nat
  ub_token :: "llama_token list option"
  ub_embd :: "f32 list option"
  ub_pos :: "llama_pos list"
  ub_n_seq_id :: "int list"
  ub_seq_id :: "llama_seq_id list list"
  ub_seq_id_unq :: "llama_seq_id list"
  ub_seq_idx :: "int list"
  ub_output :: "int list"

record llama_batch_allocr =
  ba_n_pos_per_embd :: nat
  ba_batch :: llama_batch
  ba_n_embd :: nat
  ba_n_seq_max :: nat
  ba_n_outputs :: nat
  ba_seq_id_unq :: "llama_seq_id list"
  ba_seq_idx :: "int list"
  ba_has_cpl :: bool
  ba_seq_pos :: "llama_seq_id \<Rightarrow> llama_pos set"
  ba_seq_cpl :: "llama_seq_id \<Rightarrow> llama_seq_id \<Rightarrow> bool"
  ba_seq_set :: "seq_set_t list"
  ba_seq_set_map :: "(seq_set_t, nat list) mapping"
  ba_out_ids :: "nat list"
  ba_n_used :: nat
  ba_used :: "bool list"

record llama_memory =
  mem_seq_pos_min :: "llama_seq_id \<Rightarrow> llama_pos"
  mem_seq_pos_max :: "llama_seq_id \<Rightarrow> llama_pos"

definition is_pos_2d :: "llama_ubatch \<Rightarrow> bool" where
  "is_pos_2d ub \<longleftrightarrow> ub_n_pos ub \<ge> 3"

definition null_batch :: llama_batch where
  "null_batch = \<lparr>b_n_tokens = 0, b_token = None, b_embd = None, b_pos = None, b_n_seq_id = None,
     b_seq_id = None, b_logits = None\<rparr>"

definition null_ubatch :: llama_ubatch where
  "null_ubatch = \<lparr>ub_b_equal_seqs = False, ub_n_tokens = 0, ub_n_seq_tokens = 0, ub_n_seqs = 0,
     ub_n_seqs_unq = 0, ub_n_pos = 0, ub_token = None, ub_embd = None, ub_pos = [], ub_n_seq_id = [],
     ub_seq_id = [], ub_seq_id_unq = [], ub_seq_idx = [], ub_output = []\<rparr>"

definition max_seq :: nat where
  "max_seq = nat LLAMA_MAX_SEQ"

text \<open>The interface function \<open>llama_batch_get_one\<close>.\<close>

definition llama_batch_get_one :: "llama_token list \<Rightarrow> int \<Rightarrow> llama_batch" where
  "llama_batch_get_one tokens n_tokens = null_batch\<lparr>b_n_tokens := n_tokens, b_token := Some tokens\<rparr>"

section \<open>Construction and reset\<close>

definition batch_allocr_new :: "nat \<Rightarrow> llama_batch_allocr" where
  "batch_allocr_new n_pos_per_embd =
     \<lparr>ba_n_pos_per_embd = n_pos_per_embd, ba_batch = null_batch, ba_n_embd = 0, ba_n_seq_max = 0,
      ba_n_outputs = 0, ba_seq_id_unq = [], ba_seq_idx = replicate max_seq (- 1), ba_has_cpl = False,
      ba_seq_pos = (\<lambda>_. {}), ba_seq_cpl = (\<lambda>_ _. False), ba_seq_set = [],
      ba_seq_set_map = Mapping.empty, ba_out_ids = [], ba_n_used = 0, ba_used = []\<rparr>"

definition ba_clear :: "llama_batch_allocr \<Rightarrow> llama_batch_allocr" where
  "ba_clear ba = ba\<lparr>ba_n_outputs := 0, ba_batch := null_batch, ba_seq_id_unq := [],
     ba_seq_pos := (\<lambda>_. {}), ba_seq_cpl := (\<lambda>_ _. False), ba_seq_set := [],
     ba_seq_set_map := Mapping.empty, ba_seq_idx := replicate (length (ba_seq_idx ba)) (- 1)\<rparr>"

definition get_n_tokens :: "llama_batch_allocr \<Rightarrow> nat" where
  "get_n_tokens ba = nat (b_n_tokens (ba_batch ba))"

definition ba_seq_pos_min :: "llama_seq_id \<Rightarrow> llama_batch_allocr \<Rightarrow> llama_pos" where
  "ba_seq_pos_min s ba = (if ba_seq_pos ba s = {} then - 1 else Min (ba_seq_pos ba s))"

definition ba_seq_pos_max :: "llama_seq_id \<Rightarrow> llama_batch_allocr \<Rightarrow> llama_pos" where
  "ba_seq_pos_max s ba = (if ba_seq_pos ba s = {} then - 1 else Max (ba_seq_pos ba s))"

definition split_reset :: "llama_batch_allocr \<Rightarrow> llama_batch_allocr" where
  "split_reset ba = ba\<lparr>ba_out_ids := [], ba_n_used := 0, ba_used := replicate (get_n_tokens ba) False\<rparr>"

section \<open>init: validation\<close>

text \<open>The sequence ids of token \<open>i\<close>: \<open>seq_id[i][s]\<close> for \<open>0 \<le> s < n_seq_id[i]\<close>.\<close>

definition tok_seq_ids :: "nat \<Rightarrow> llama_batch \<Rightarrow> llama_seq_id list option" where
  "tok_seq_ids i b = do {
     ns \<leftarrow> b_n_seq_id b;
     n \<leftarrow> at ns i;
     ss \<leftarrow> b_seq_id b;
     ids \<leftarrow> at ss i;
     if nat n \<le> length ids then Some (take (nat n) ids) else None }"

text \<open>\<open>seq_id[i][0]\<close>\<close>

definition tok_seq_id0 :: "nat \<Rightarrow> llama_batch \<Rightarrow> llama_seq_id option" where
  "tok_seq_id0 i b = do { ss \<leftarrow> b_seq_id b; ids \<leftarrow> at ss i; at ids 0 }"

fun all_ok :: "('a \<Rightarrow> bool option) \<Rightarrow> 'a list \<Rightarrow> bool option" where
  "all_ok f [] = Some True"
| "all_ok f (x # xs) = do { b \<leftarrow> f x; if b then all_ok f xs else Some False }"

definition validate_tokens :: "nat \<Rightarrow> llama_batch \<Rightarrow> bool option" where
  "validate_tokens n_vocab b =
     (case b_token b of
        None \<Rightarrow> Some True
      | Some toks \<Rightarrow>
          all_ok (\<lambda>i. do { t \<leftarrow> at toks i; Some (\<not> (t < 0 \<or> nat t \<ge> n_vocab)) }) [0..<nat (b_n_tokens b)])"

definition validate_seq_ids :: "nat \<Rightarrow> llama_batch \<Rightarrow> bool option" where
  "validate_seq_ids n_seq_max b =
     (case b_seq_id b of
        None \<Rightarrow> Some True
      | Some _ \<Rightarrow>
          all_ok (\<lambda>i. do {
              ids \<leftarrow> tok_seq_ids i b;
              Some (\<forall>s\<in>set ids. \<not> (s < 0 \<or> s \<ge> int n_seq_max)) }) [0..<nat (b_n_tokens b)])"

section \<open>init: missing fields\<close>

definition gen_seq_ids :: "llama_batch \<Rightarrow> llama_batch" where
  "gen_seq_ids b =
     (let n = nat (b_n_tokens b);
          b = (case b_n_seq_id b of None \<Rightarrow> b\<lparr>b_n_seq_id := Some (replicate n 1)\<rparr> | Some _ \<Rightarrow> b)
      in case b_seq_id b of None \<Rightarrow> b\<lparr>b_seq_id := Some (replicate n [0])\<rparr> | Some _ \<Rightarrow> b)"

text \<open>
  Positions: \<open>p0[s]\<close> starts at the position after the last one in the memory; entries at and
  above \<open>n_seq_max\<close> are not initialised.
\<close>

definition start_pos :: "nat \<Rightarrow> llama_memory option \<Rightarrow> llama_seq_id \<Rightarrow> llama_pos option" where
  "start_pos n_seq_max mem s =
     (if 0 \<le> s \<and> s < int n_seq_max
      then (case mem of None \<Rightarrow> Some 0 | Some m \<Rightarrow> i32_add (mem_seq_pos_max m s) 1) else None)"

definition gen_pos_step :: "llama_batch \<Rightarrow> nat \<Rightarrow> llama_pos list \<times> (llama_seq_id \<Rightarrow> llama_pos option) \<Rightarrow>
    (llama_pos list \<times> (llama_seq_id \<Rightarrow> llama_pos option)) option" where
  "gen_pos_step b i = (\<lambda>(pos, p0). do {
     s0 \<leftarrow> tok_seq_id0 i b;
     p \<leftarrow> p0 s0;
     ids \<leftarrow> tok_seq_ids i b;
     p' \<leftarrow> i32_add p 1;
     Some (pos @ [p], fold (\<lambda>s p0. p0(s := Some p')) ids p0) })"

definition gen_pos :: "nat \<Rightarrow> llama_memory option \<Rightarrow> llama_batch \<Rightarrow> llama_batch option" where
  "gen_pos n_seq_max mem b =
     (case b_pos b of
        Some _ \<Rightarrow> Some b
      | None \<Rightarrow> do {
          (pos, _) \<leftarrow> for_each (gen_pos_step b) [0..<nat (b_n_tokens b)] ([], start_pos n_seq_max mem);
          Some (b\<lparr>b_pos := Some pos\<rparr>) })"

definition gen_logits :: "bool \<Rightarrow> llama_batch \<Rightarrow> llama_batch option" where
  "gen_logits output_all b =
     (let n = nat (b_n_tokens b) in
      case b_logits b of
        None \<Rightarrow>
          if output_all then Some (b\<lparr>b_logits := Some (replicate n 1)\<rparr>)
          else Some (b\<lparr>b_logits := Some ((replicate n 0)[n - 1 := 1])\<rparr>)
      | Some l \<Rightarrow>
          if output_all then
            (if n \<le> length l then
               Some (if \<exists>i\<in>set [0..<n]. l ! i = 0 then b\<lparr>b_logits := Some (replicate n 1)\<rparr> else b)
             else None)
          else Some b)"

section \<open>init: statistics\<close>

definition count_outputs :: "llama_batch_allocr \<Rightarrow> llama_batch_allocr option" where
  "count_outputs ba = do {
     l \<leftarrow> b_logits (ba_batch ba);
     for_each (\<lambda>i ba. do { x \<leftarrow> at l i; Some (ba\<lparr>ba_n_outputs := ba_n_outputs ba + (if x \<noteq> 0 then 1 else 0)\<rparr>) })
       [0..<get_n_tokens ba] ba }"

text \<open>Token \<open>i\<close> at position \<open>p\<close>: every sequence of it after the first is coupled to the first.\<close>

definition couple_token :: "llama_seq_id \<Rightarrow> llama_pos \<Rightarrow> llama_seq_id list \<Rightarrow> llama_batch_allocr \<Rightarrow> llama_batch_allocr" where
  "couple_token s0 p ids ba =
     fold (\<lambda>k ba.
         let s1 = ids ! k;
             ba = ba\<lparr>ba_seq_pos := (ba_seq_pos ba)(s1 := insert p (ba_seq_pos ba s1))\<rparr>
         in if k > 0 then ba\<lparr>ba_seq_cpl := (ba_seq_cpl ba)(s1 := (ba_seq_cpl ba s1)(s0 := True)), ba_has_cpl := True\<rparr>
            else ba)
       [0..<length ids] ba"

definition collect_coupled :: "llama_batch_allocr \<Rightarrow> llama_batch_allocr option" where
  "collect_coupled ba =
     for_each (\<lambda>i ba. do {
         s0 \<leftarrow> tok_seq_id0 i (ba_batch ba);
         ids \<leftarrow> tok_seq_ids i (ba_batch ba);
         ps \<leftarrow> b_pos (ba_batch ba);
         p \<leftarrow> at ps i;
         Some (couple_token s0 p ids ba) })
       [0..<get_n_tokens ba] (ba\<lparr>ba_has_cpl := False\<rparr>)"

definition collect_seq_sets :: "llama_batch_allocr \<Rightarrow> llama_batch_allocr option" where
  "collect_seq_sets ba = do {
     (ba, unq) \<leftarrow> for_each (\<lambda>i (ba, unq). do {
         ids \<leftarrow> tok_seq_ids i (ba_batch ba);
         let cur = set ids;
         let l = (case Mapping.lookup (ba_seq_set_map ba) cur of None \<Rightarrow> [] | Some l \<Rightarrow> l);
         Some (ba\<lparr>ba_seq_set := ba_seq_set ba @ [cur],
                  ba_seq_set_map := Mapping.update cur (l @ [i]) (ba_seq_set_map ba)\<rparr>, unq \<union> cur) })
       [0..<get_n_tokens ba] (ba, {});
     Some (fold (\<lambda>s ba. if int s \<in> unq
         then ba\<lparr>ba_seq_idx := (ba_seq_idx ba)[s := int (length (ba_seq_id_unq ba))],
                 ba_seq_id_unq := ba_seq_id_unq ba @ [int s]\<rparr> else ba)
       [0..<ba_n_seq_max ba] ba) }"

section \<open>init: consistency checks\<close>

definition check_positions :: "llama_memory option \<Rightarrow> llama_batch_allocr \<Rightarrow> bool" where
  "check_positions mem ba =
     (if ba_n_pos_per_embd ba > 1 then
        (\<forall>s\<in>set [0..<ba_n_seq_max ba].
           ba_seq_pos ba (int s) = {} \<or>
           (let p0 = (case mem of None \<Rightarrow> - 1 | Some m \<Rightarrow> mem_seq_pos_max m (int s)) in
            if b_token (ba_batch ba) \<noteq> None
            then \<not> (p0 \<ge> 0 \<and> p0 \<ge> ba_seq_pos_min (int s) ba)
            else \<not> (p0 \<ge> 0 \<and> p0 > ba_seq_pos_min (int s) ba)))
      else
        (\<forall>s\<in>set [0..<ba_n_seq_max ba].
           ba_seq_pos ba (int s) = {} \<or>
           (let p0 = (case mem of None \<Rightarrow> - 1 | Some m \<Rightarrow> mem_seq_pos_max m (int s)) in
            (p0 \<ge> 0 \<longrightarrow> ba_seq_pos_min (int s) ba = p0 + 1) \<and>
            \<not> (ba_seq_pos_max (int s) ba - ba_seq_pos_min (int s) ba + 1 > int (card (ba_seq_pos ba (int s)))))))"

definition check_coupled :: "llama_memory option \<Rightarrow> llama_batch_allocr \<Rightarrow> bool" where
  "check_coupled mem ba =
     (case mem of
        None \<Rightarrow> True
      | Some m \<Rightarrow>
          (\<forall>s0\<in>set [0..<ba_n_seq_max ba]. \<forall>s1\<in>set [0..<ba_n_seq_max ba].
             ba_seq_cpl ba (int s0) (int s1) \<longrightarrow>
             mem_seq_pos_min m (int s0) = mem_seq_pos_min m (int s1) \<and>
             mem_seq_pos_max m (int s0) = mem_seq_pos_max m (int s1)))"

text \<open>
  The loop keeps \<open>cur_seq_set[s]\<close>, the intersection of the sequence sets of the tokens of \<open>s\<close>
  so far, and \<open>cur_seq_pos[s]\<close>, which the code initialises to \<open>-1\<close> and never assigns again.
\<close>

fun check_token_seqs :: "seq_set_t \<Rightarrow> llama_pos \<Rightarrow> (llama_seq_id \<Rightarrow> llama_pos) \<Rightarrow> llama_seq_id list \<Rightarrow>
    (llama_seq_id \<Rightarrow> seq_set_t) \<Rightarrow> (llama_seq_id \<Rightarrow> seq_set_t) option" where
  "check_token_seqs S p cur_pos [] cur = Some cur"
| "check_token_seqs S p cur_pos (s # ids) cur =
     (let cur = cur(s := cur s \<inter> S) in
      if cur s = {} then None else if p < cur_pos s then None
      else check_token_seqs S p cur_pos ids cur)"

text \<open>\<open>None\<close> is an abort; \<open>Some None\<close> the early \<open>return false\<close>.\<close>

definition check_subsets :: "llama_batch_allocr \<Rightarrow> bool option" where
  "check_subsets ba =
     map_option (\<lambda>r. r \<noteq> None)
       (for_each (\<lambda>i r. case r of
            None \<Rightarrow> Some None
          | Some cur \<Rightarrow> do {
              ps \<leftarrow> b_pos (ba_batch ba);
              p \<leftarrow> at ps i;
              ids \<leftarrow> tok_seq_ids i (ba_batch ba);
              S \<leftarrow> at (ba_seq_set ba) i;
              Some (check_token_seqs S p (\<lambda>_. - 1) ids cur) })
         [0..<get_n_tokens ba] (Some (\<lambda>_. {0..<LLAMA_MAX_SEQ})))"

definition ba_init :: "llama_batch \<Rightarrow> nat \<Rightarrow> llama_memory option \<Rightarrow> nat \<Rightarrow> nat \<Rightarrow> bool \<Rightarrow>
    llama_batch_allocr \<Rightarrow> (bool \<times> llama_batch_allocr) option" where
  "ba_init batch_inp n_vocab mem n_embd n_seq_max output_all ba0 = do {
     let ba = (ba_clear ba0)\<lparr>ba_batch := batch_inp\<rparr>;
     ggml_assert (b_n_tokens (ba_batch ba) > 0);
     if n_seq_max > max_seq then Some (False, ba)
     else do {
       v1 \<leftarrow> validate_tokens n_vocab (ba_batch ba);
       if \<not> v1 then Some (False, ba)
       else do {
         v2 \<leftarrow> validate_seq_ids n_seq_max (ba_batch ba);
         if \<not> v2 then Some (False, ba)
         else do {
           let ba = ba\<lparr>ba_batch := gen_seq_ids (ba_batch ba)\<rparr>;
           b \<leftarrow> gen_pos n_seq_max mem (ba_batch ba);
           b \<leftarrow> gen_logits output_all b;
           let ba = ba\<lparr>ba_batch := b, ba_n_embd := n_embd, ba_n_seq_max := n_seq_max\<rparr>;
           ba \<leftarrow> count_outputs ba;
           ba \<leftarrow> collect_coupled ba;
           ba \<leftarrow> collect_seq_sets ba;
           if \<not> check_positions mem ba then Some (False, ba)
           else if \<not> check_coupled mem ba then Some (False, ba)
           else do {
             v3 \<leftarrow> check_subsets ba;
             if \<not> v3 then Some (False, ba)
             else Some (True, split_reset ba) } } } } }"

section \<open>Ubatches\<close>

definition ubatch_reserve :: "nat \<Rightarrow> nat \<Rightarrow> llama_batch_allocr \<Rightarrow> (llama_ubatch \<times> llama_batch_allocr) option" where
  "ubatch_reserve n_seq_tokens n_seqs ba =
     (let n_tokens = u32 (n_seq_tokens * n_seqs);
          ba = split_reset (ba_clear ba) in
      if n_seqs \<le> max_seq then
        Some (\<lparr>ub_b_equal_seqs = True, ub_n_tokens = n_tokens, ub_n_seq_tokens = n_seq_tokens, ub_n_seqs = n_seqs,
           ub_n_seqs_unq = n_seqs, ub_n_pos = ba_n_pos_per_embd ba, ub_token = Some (replicate n_tokens 0),
           ub_embd = None, ub_pos = replicate n_tokens 0, ub_n_seq_id = replicate n_tokens 0,
           ub_seq_id = replicate n_tokens [], ub_seq_id_unq = map int [0..<n_seqs],
           ub_seq_idx = map int [0..<n_seqs] @ replicate (max_seq - n_seqs) (- 1),
           ub_output = replicate n_tokens 0\<rparr>, ba)
      else None)"

text \<open>The position of component \<open>j\<close> of the token at batch index \<open>idx\<close>.\<close>

definition ubatch_pos :: "llama_batch \<Rightarrow> nat \<Rightarrow> nat \<Rightarrow> llama_pos option" where
  "ubatch_pos b j idx = do {
     ps \<leftarrow> b_pos b;
     let src_off = (if b_token b \<noteq> None then 0 else j * nat (b_n_tokens b));
     at ps (src_off + idx) }"

fun map_opt :: "('a \<Rightarrow> 'b option) \<Rightarrow> 'a list \<Rightarrow> 'b list option" where
  "map_opt f [] = Some []"
| "map_opt f (x # xs) = do { y \<leftarrow> f x; ys \<leftarrow> map_opt f xs; Some (y # ys) }"

definition ubatch_add :: "nat list \<Rightarrow> nat \<Rightarrow> bool \<Rightarrow> llama_batch_allocr \<Rightarrow> (llama_ubatch \<times> llama_batch_allocr) option" where
  "ubatch_add idxs n_seqs equal_seqs ba = do {
     let b = ba_batch ba;
     let n_tokens = length idxs;
     ggml_assert (n_seqs \<noteq> 0 \<and> n_tokens mod n_seqs = 0);
     token \<leftarrow> (case b_token b of None \<Rightarrow> Some None | Some t \<Rightarrow> map_option Some (map_opt (at t) idxs));
     embd \<leftarrow> (case b_embd b of
         None \<Rightarrow> Some None
       | Some e \<Rightarrow> map_option (\<lambda>rows. Some (concat rows))
           (map_opt (\<lambda>idx. map_opt (\<lambda>k. at e (idx * ba_n_embd ba + k)) [0..<ba_n_embd ba]) idxs));
     pos \<leftarrow> map_opt (\<lambda>j. map_opt (ubatch_pos b j) idxs) [0..<ba_n_pos_per_embd ba];
     ns \<leftarrow> b_n_seq_id b;
     n_seq_id \<leftarrow> map_opt (at ns) idxs;
     ls \<leftarrow> b_logits b;
     output \<leftarrow> map_opt (at ls) idxs;
     seq_id \<leftarrow> map_opt (\<lambda>idx. tok_seq_ids idx b) idxs;
     let unq = filter (\<lambda>s. \<exists>ids\<in>set seq_id. int s \<in> set ids) [0..<ba_n_seq_max ba];
     let seq_idx = fold (\<lambda>k xs. xs[unq ! k := int k]) [0..<length unq] (replicate max_seq (- 1));
     let out = map fst (filter (\<lambda>(idx, x). x \<noteq> 0) (zip idxs output));
     Some (\<lparr>ub_b_equal_seqs = equal_seqs, ub_n_tokens = n_tokens, ub_n_seq_tokens = n_tokens div n_seqs,
        ub_n_seqs = n_seqs, ub_n_seqs_unq = length unq, ub_n_pos = ba_n_pos_per_embd ba, ub_token = token,
        ub_embd = embd, ub_pos = concat pos, ub_n_seq_id = n_seq_id, ub_seq_id = seq_id,
        ub_seq_id_unq = map int unq, ub_seq_idx = seq_idx, ub_output = output\<rparr>,
      ba\<lparr>ba_out_ids := ba_out_ids ba @ out\<rparr>) }"

section \<open>Splitting\<close>

definition mark_used :: "nat \<Rightarrow> llama_batch_allocr \<Rightarrow> llama_batch_allocr" where
  "mark_used i ba = ba\<lparr>ba_used := (ba_used ba)[i := True], ba_n_used := ba_n_used ba + 1\<rparr>"

definition first_unused :: "llama_batch_allocr \<Rightarrow> nat" where
  "first_unused ba = length (takeWhile (\<lambda>u. u) (ba_used ba))"

function simple_loop :: "nat \<Rightarrow> nat \<Rightarrow> nat list \<Rightarrow> llama_batch_allocr \<Rightarrow> nat list \<times> llama_batch_allocr" where
  "simple_loop n_ubatch cur_idx idxs ba =
     (let idxs = idxs @ [cur_idx]; ba = mark_used cur_idx ba; cur_idx = cur_idx + 1 in
      if cur_idx \<ge> length (ba_used ba) then (idxs, ba)
      else if length idxs \<ge> n_ubatch then (idxs, ba)
      else simple_loop n_ubatch cur_idx idxs ba)"
  by pat_completeness auto
termination
  by (relation "measure (\<lambda>(n_ubatch, cur_idx, idxs, ba). length (ba_used ba) - cur_idx)")
    (auto simp: mark_used_def)

definition split_simple :: "nat \<Rightarrow> llama_batch_allocr \<Rightarrow> (llama_ubatch \<times> llama_batch_allocr) option" where
  "split_simple n_ubatch ba =
     (let cur_idx = first_unused ba in
      if cur_idx \<ge> length (ba_used ba) then Some (null_ubatch, ba)
      else let (idxs, ba) = simple_loop n_ubatch cur_idx [] ba in ubatch_add idxs (length idxs) False ba)"

text \<open>\<open>split_equal\<close>: the non-overlapping sequence sets that take part.\<close>

fun equal_sets_loop :: "nat \<Rightarrow> bool \<Rightarrow> llama_batch_allocr \<Rightarrow> nat list \<Rightarrow> seq_set_t list \<Rightarrow> llama_seq_id \<Rightarrow>
    seq_set_t list option" where
  "equal_sets_loop n_ubatch sequential ba [] cur last_seq_id = Some cur"
| "equal_sets_loop n_ubatch sequential ba (i # is) cur last_seq_id = do {
     u \<leftarrow> at (ba_used ba) i;
     if u then equal_sets_loop n_ubatch sequential ba is cur last_seq_id
     else do {
       S \<leftarrow> at (ba_seq_set ba) i;
       if \<not> (\<forall>T\<in>set cur. T \<inter> S = {}) then equal_sets_loop n_ubatch sequential ba is cur last_seq_id
       else do {
         s0 \<leftarrow> tok_seq_id0 i (ba_batch ba);
         if sequential \<and> \<not> (cur = [] \<or> s0 = last_seq_id + 1)
         then equal_sets_loop n_ubatch sequential ba is cur last_seq_id
         else if length (cur @ [S]) > n_ubatch then Some (cur @ [S])
         else equal_sets_loop n_ubatch sequential ba is (cur @ [S]) s0 } } }"

text \<open>The batch indices of a sequence set from its first unused one on.\<close>

definition set_idxs :: "llama_batch_allocr \<Rightarrow> seq_set_t \<Rightarrow> nat list" where
  "set_idxs ba S = (case Mapping.lookup (ba_seq_set_map ba) S of None \<Rightarrow> [] | Some l \<Rightarrow> l)"

definition skip_used :: "llama_batch_allocr \<Rightarrow> seq_set_t \<Rightarrow> nat list" where
  "skip_used ba S = dropWhile (\<lambda>i. ba_used ba ! i) (set_idxs ba S)"

text \<open>
  The expansion loop.  \<open>rest\<close> holds, for each set, the indices from \<open>cur_idx[s]\<close> on; each
  round takes one index of every set.
\<close>

function equal_expand :: "nat \<Rightarrow> nat list list \<Rightarrow> nat list list \<Rightarrow> llama_batch_allocr \<Rightarrow> nat list list \<times> llama_batch_allocr" where
  "equal_expand n_ubatch rest acc ba =
     (if rest = [] \<or> [] \<in> set rest then (acc, ba)
      else let acc = map2 (\<lambda>a r. a @ [hd r]) acc rest;
               ba = fold mark_used (map hd rest) ba in
           if (length (hd acc) + 1) * length rest > n_ubatch then (acc, ba)
           else equal_expand n_ubatch (map tl rest) acc ba)"
  by pat_completeness auto
termination
  by (relation "measure (\<lambda>(n_ubatch, rest, acc, ba). length (hd rest))")
    (auto simp: neq_Nil_conv hd_map)

definition split_equal :: "nat \<Rightarrow> bool \<Rightarrow> llama_batch_allocr \<Rightarrow> (llama_ubatch \<times> llama_batch_allocr) option" where
  "split_equal n_ubatch sequential ba =
     (if sequential \<and> ba_has_cpl ba then Some (null_ubatch, ba)
      else do {
        cur_seq_set \<leftarrow> equal_sets_loop n_ubatch sequential ba [0..<get_n_tokens ba] [] (- 1);
        let n_seqs = length cur_seq_set;
        if n_seqs = 0 then Some (null_ubatch, ba)
        else do {
          let rest = map (skip_used ba) cur_seq_set;
          ggml_assert ([] \<notin> set rest);
          let (idxs_per_seq, ba) = equal_expand n_ubatch rest (replicate n_seqs []) ba;
          ubatch_add (concat idxs_per_seq) n_seqs True ba } })"

text \<open>\<open>split_seq\<close>: the next unused token whose set is contained in the current one.\<close>

definition next_in_set :: "llama_batch_allocr \<Rightarrow> seq_set_t \<Rightarrow> nat \<Rightarrow> nat option" where
  "next_in_set ba S cur_idx =
     List.find (\<lambda>i. \<not> (ba_used ba ! i \<or> S \<inter> ba_seq_set ba ! i \<noteq> ba_seq_set ba ! i))
       [cur_idx + 1..<get_n_tokens ba]"

lemma next_in_set_Some:
  "next_in_set ba S i = Some j \<Longrightarrow> i < j \<and> j < get_n_tokens ba \<and> \<not> ba_used ba ! j \<and> ba_seq_set ba ! j \<subseteq> S"
  by (auto simp: next_in_set_def find_Some_iff)

function seq_loop :: "nat \<Rightarrow> seq_set_t \<Rightarrow> nat \<Rightarrow> nat list \<Rightarrow> llama_batch_allocr \<Rightarrow> nat list \<times> llama_batch_allocr" where
  "seq_loop n_ubatch S cur_idx idxs ba =
     (let idxs = idxs @ [cur_idx]; ba = mark_used cur_idx ba in
      if length idxs \<ge> n_ubatch then (idxs, ba)
      else case next_in_set ba S cur_idx of
             None \<Rightarrow> (idxs, ba)
           | Some j \<Rightarrow> seq_loop n_ubatch (ba_seq_set ba ! j) j idxs ba)"
  by pat_completeness auto
termination
  by (relation "measure (\<lambda>(n_ubatch, S, cur_idx, idxs, ba). get_n_tokens ba - cur_idx)")
    (auto dest!: next_in_set_Some simp: mark_used_def get_n_tokens_def)

definition split_seq :: "nat \<Rightarrow> llama_batch_allocr \<Rightarrow> (llama_ubatch \<times> llama_batch_allocr) option" where
  "split_seq n_ubatch ba =
     (let cur_idx = first_unused ba in
      if cur_idx \<ge> length (ba_used ba) then Some (null_ubatch, ba)
      else let (idxs, ba) = seq_loop n_ubatch (ba_seq_set ba ! cur_idx) cur_idx [] ba
           in ubatch_add idxs 1 True ba)"

declare simple_loop.simps [simp del] equal_expand.simps [simp del] seq_loop.simps [simp del]

section \<open>Well-formed batches\<close>

text \<open>Every array that a split reads is there and long enough, and every token has a sequence.\<close>

definition batch_wf :: "llama_batch_allocr \<Rightarrow> bool" where
  "batch_wf ba \<longleftrightarrow> (let b = ba_batch ba; n = get_n_tokens ba in
     (\<forall>t. b_token b = Some t \<longrightarrow> n \<le> length t) \<and>
     (\<forall>e. b_embd b = Some e \<longrightarrow> n * ba_n_embd ba \<le> length e) \<and>
     (\<exists>ps. b_pos b = Some ps \<and> n \<le> length ps \<and> (b_token b = None \<longrightarrow> ba_n_pos_per_embd ba * n \<le> length ps)) \<and>
     (\<exists>ls. b_logits b = Some ls \<and> n \<le> length ls) \<and>
     (\<exists>ns. b_n_seq_id b = Some ns \<and> n \<le> length ns) \<and>
     (\<forall>i<n. \<exists>s ids. tok_seq_ids i b = Some (s # ids)))"

lemma map_opt_Some:
  "(\<And>x. x \<in> set xs \<Longrightarrow> f x = Some (g x)) \<Longrightarrow> map_opt f xs = Some (map g xs)"
  by (induction xs) auto

lemma map_opt_SomeD:
  "map_opt f xs = Some ys \<Longrightarrow> length ys = length xs \<and> (\<forall>i<length xs. f (xs ! i) = Some (ys ! i))"
proof (induction xs arbitrary: ys)
  case Nil
  then show ?case by simp
next
  case (Cons x xs)
  then obtain z zs where "ys = z # zs" "f x = Some z" "map_opt f xs = Some zs"
    by (auto split: Option.bind_splits)
  with Cons.IH [of zs] show ?case by (auto simp: nth_Cons' less_Suc_eq_0_disj)
qed

lemma map_opt_total:
  "(\<And>x. x \<in> set xs \<Longrightarrow> f x \<noteq> None) \<Longrightarrow> map_opt f xs = Some (map (\<lambda>x. the (f x)) xs)"
  by (rule map_opt_Some) auto

definition tok_ids :: "llama_batch \<Rightarrow> nat \<Rightarrow> llama_seq_id list" where
  "tok_ids b i = the (tok_seq_ids i b)"

definition outputs_of :: "llama_batch \<Rightarrow> nat list \<Rightarrow> nat list" where
  "outputs_of b idxs = filter (\<lambda>i. the (b_logits b) ! i \<noteq> 0) idxs"

lemma zip_map_filter: "map fst (filter (\<lambda>(i, x). P x) (zip xs (map f xs))) = filter (\<lambda>i. P (f i)) xs"
  by (induction xs) auto

lemma tok_seq_id0_of:
  assumes "tok_seq_ids i b = Some (s # ids)"
  shows "tok_seq_id0 i b = Some s"
proof -
  from assms obtain ss n where "b_seq_id b = Some ss" "i < length ss" "take n (ss ! i) = s # ids"
    by (auto simp: tok_seq_ids_def split: Option.bind_splits if_splits)
  then show ?thesis
    by (cases "ss ! i"; cases n) (auto simp: tok_seq_id0_def at_def)
qed

text \<open>The ubatch of the tokens at the given batch indices: every field is that of these tokens, in order.\<close>

definition ubatch_of :: "llama_batch_allocr \<Rightarrow> nat list \<Rightarrow> llama_ubatch \<Rightarrow> bool" where
  "ubatch_of ba idxs ub \<longleftrightarrow> (let b = ba_batch ba;
       unq = filter (\<lambda>s. \<exists>i\<in>set idxs. int s \<in> set (tok_ids b i)) [0..<ba_n_seq_max ba] in
     ub_n_tokens ub = length idxs \<and> ub_n_pos ub = ba_n_pos_per_embd ba \<and>
     ub_token ub = map_option (\<lambda>t. map ((!) t) idxs) (b_token b) \<and>
     ub_seq_id ub = map (tok_ids b) idxs \<and>
     ub_n_seq_id ub = map ((!) (the (b_n_seq_id b))) idxs \<and>
     ub_output ub = map ((!) (the (b_logits b))) idxs \<and>
     ub_seq_id_unq ub = map int unq \<and> ub_n_seqs_unq ub = length unq \<and>
     ub_pos ub = concat (map (\<lambda>j. map (\<lambda>i. the (b_pos b) !
       ((if b_token b \<noteq> None then 0 else j * get_n_tokens ba) + i)) idxs) [0..<ba_n_pos_per_embd ba]))"

text \<open>
  \<open>ubatch_add\<close> never aborts on indices of the batch, copies the fields of the tokens in the
  order of the indices and records the output tokens.
\<close>

lemma ubatch_add_spec:
  assumes wf: "batch_wf ba" and idxs: "\<forall>i\<in>set idxs. i < get_n_tokens ba"
    and n: "n_seqs \<noteq> 0" "length idxs mod n_seqs = 0"
  shows "\<exists>ub. ubatch_add idxs n_seqs eq ba = Some (ub, ba\<lparr>ba_out_ids := ba_out_ids ba @ outputs_of (ba_batch ba) idxs\<rparr>) \<and>
    ubatch_of ba idxs ub \<and> ub_n_seqs ub = n_seqs \<and> ub_n_seq_tokens ub = length idxs div n_seqs \<and> ub_b_equal_seqs ub = eq"
proof -
  let ?b = "ba_batch ba" and ?n = "get_n_tokens ba"
  obtain ps ls ns where ps: "b_pos ?b = Some ps" "?n \<le> length ps" "b_token ?b = None \<longrightarrow> ba_n_pos_per_embd ba * ?n \<le> length ps"
    and ls: "b_logits ?b = Some ls" "?n \<le> length ls" and ns: "b_n_seq_id ?b = Some ns" "?n \<le> length ns"
    and tk: "\<forall>t. b_token ?b = Some t \<longrightarrow> ?n \<le> length t" and em: "\<forall>e. b_embd ?b = Some e \<longrightarrow> ?n * ba_n_embd ba \<le> length e"
    and sq: "\<forall>i<?n. tok_seq_ids i ?b \<noteq> None"
    using wf by (fastforce simp: batch_wf_def Let_def)
  have token: "(case b_token ?b of None \<Rightarrow> Some None | Some t \<Rightarrow> map_option Some (map_opt (at t) idxs)) =
      Some (map_option (\<lambda>t. map ((!) t) idxs) (b_token ?b))"
    using tk idxs by (cases "b_token ?b") (auto intro!: map_opt_Some)
  have embd: "\<exists>r. (case b_embd ?b of None \<Rightarrow> Some None
       | Some e \<Rightarrow> map_option (\<lambda>rows. Some (concat rows))
           (map_opt (\<lambda>idx. map_opt (\<lambda>k. at e (idx * ba_n_embd ba + k)) [0..<ba_n_embd ba]) idxs)) = Some r"
  proof (cases "b_embd ?b")
    case (Some e)
    have "map_opt (\<lambda>k. at e (i * ba_n_embd ba + k)) [0..<ba_n_embd ba] \<noteq> None" if "i \<in> set idxs" for i
    proof -
      have "i * ba_n_embd ba + k < length e" if "k < ba_n_embd ba" for k
      proof -
        have "Suc i * ba_n_embd ba \<le> ?n * ba_n_embd ba"
          using idxs \<open>i \<in> set idxs\<close> by (intro mult_le_mono1) auto
        with em Some that show ?thesis by fastforce
      qed
      then show ?thesis by (subst map_opt_total) (auto simp: at_def)
    qed
    then show ?thesis by (simp add: Some map_opt_total)
  qed simp
  have pos_in: "(if b_token ?b \<noteq> None then 0 else j * ?n) + i < length ps" if "j < ba_n_pos_per_embd ba" "i < ?n" for i j
  proof (cases "b_token ?b")
    case None
    have "Suc j * ?n \<le> ba_n_pos_per_embd ba * ?n" using that by (intro mult_le_mono1) auto
    with None ps that show ?thesis by auto
  qed (use ps that in auto)
  have pos: "map_opt (\<lambda>j. map_opt (ubatch_pos ?b j) idxs) [0..<ba_n_pos_per_embd ba] =
      Some (map (\<lambda>j. map (\<lambda>i. ps ! ((if b_token ?b \<noteq> None then 0 else j * ?n) + i)) idxs) [0..<ba_n_pos_per_embd ba])"
    using idxs pos_in by (intro map_opt_Some) (auto simp: ubatch_pos_def ps get_n_tokens_def Let_def at_def)
  have sid: "map_opt (\<lambda>idx. tok_seq_ids idx ?b) idxs = Some (map (tok_ids ?b) idxs)"
    using idxs sq by (intro map_opt_Some) (auto simp: tok_ids_def)
  have n_seq: "map_opt (at ns) idxs = Some (map ((!) ns) idxs)" and logit: "map_opt (at ls) idxs = Some (map ((!) ls) idxs)"
    using idxs ns ls by (auto intro!: map_opt_Some)
  from embd obtain r where r: "(case b_embd ?b of None \<Rightarrow> Some None
       | Some e \<Rightarrow> map_option (\<lambda>rows. Some (concat rows))
           (map_opt (\<lambda>idx. map_opt (\<lambda>k. at e (idx * ba_n_embd ba + k)) [0..<ba_n_embd ba]) idxs)) = Some r" by auto
  have out: "map fst (filter (\<lambda>(idx, x). x \<noteq> 0) (zip idxs (map ((!) ls) idxs))) = outputs_of ?b idxs"
    by (simp add: outputs_of_def ls zip_map_filter [where f = "(!) ls" and P = "\<lambda>x. x \<noteq> 0"])
  show ?thesis
    using n by (simp add: ubatch_add_def ubatch_of_def Let_def token r pos sid n_seq logit ns ls ps out)
qed

section \<open>Marking tokens\<close>

definition mark_all :: "nat list \<Rightarrow> llama_batch_allocr \<Rightarrow> llama_batch_allocr" where
  "mark_all idxs ba = fold mark_used idxs ba"

lemma mark_all_simps [simp]:
  "mark_all [] ba = ba" "mark_all (i # is) ba = mark_all is (mark_used i ba)"
  "mark_all (is @ js) ba = mark_all js (mark_all is ba)"
  by (simp_all add: mark_all_def)

lemma mark_used_fields [simp]:
  "ba_batch (mark_used i ba) = ba_batch ba" "ba_seq_set (mark_used i ba) = ba_seq_set ba"
  "ba_seq_set_map (mark_used i ba) = ba_seq_set_map ba" "ba_has_cpl (mark_used i ba) = ba_has_cpl ba"
  "get_n_tokens (mark_used i ba) = get_n_tokens ba" "ba_n_used (mark_used i ba) = ba_n_used ba + 1"
  "ba_used (mark_used i ba) = (ba_used ba)[i := True]" "batch_wf (mark_used i ba) = batch_wf ba"
  by (simp_all add: mark_used_def get_n_tokens_def batch_wf_def)

lemma mark_all_fields [simp]:
  "ba_batch (mark_all is ba) = ba_batch ba" "ba_seq_set (mark_all is ba) = ba_seq_set ba"
  "ba_seq_set_map (mark_all is ba) = ba_seq_set_map ba" "ba_has_cpl (mark_all is ba) = ba_has_cpl ba"
  "get_n_tokens (mark_all is ba) = get_n_tokens ba" "ba_n_used (mark_all is ba) = ba_n_used ba + length is"
  "length (ba_used (mark_all is ba)) = length (ba_used ba)" "batch_wf (mark_all is ba) = batch_wf ba"
  by (induction "is" arbitrary: ba) auto

lemma nth_update_True: "j < length xs \<Longrightarrow> xs[a := True] ! j \<longleftrightarrow> j = a \<or> xs ! j"
  by (cases "a = j") auto

lemma nth_mark_all [simp]:
  "j < length (ba_used ba) \<Longrightarrow> ba_used (mark_all is ba) ! j \<longleftrightarrow> j \<in> set is \<or> ba_used ba ! j"
  by (induction "is" arbitrary: ba) (auto simp: nth_update_True)

lemma mark_used_out: "mark_used i (b\<lparr>ba_out_ids := x\<rparr>) = (mark_used i b)\<lparr>ba_out_ids := x\<rparr>"
  by (simp add: mark_used_def)

lemma mark_all_out: "mark_all is (b\<lparr>ba_out_ids := x\<rparr>) = (mark_all is b)\<lparr>ba_out_ids := x\<rparr>"
  by (induction "is" arbitrary: b) (auto simp: mark_used_out)

definition unused :: "llama_batch_allocr \<Rightarrow> nat set" where
  "unused ba = {i. i < length (ba_used ba) \<and> \<not> ba_used ba ! i}"

lemma finite_unused [simp]: "finite (unused ba)"
  by (simp add: unused_def)

lemma unused_mark_all: "unused (mark_all is ba) = unused ba - set is"
  by (auto simp: unused_def)

lemma first_unused_less:
  assumes "first_unused ba < length (ba_used ba)"
  shows "first_unused ba \<in> unused ba" and "j < first_unused ba \<Longrightarrow> ba_used ba ! j"
  using assms nth_length_takeWhile [of "\<lambda>u. u" "ba_used ba"] takeWhile_nth [of j "\<lambda>u. u" "ba_used ba"]
  by (auto simp: first_unused_def unused_def dest: nth_mem set_takeWhileD)

lemma first_unused_all:
  assumes "\<not> first_unused ba < length (ba_used ba)"
  shows "unused ba = {}"
proof -
  have "takeWhile (\<lambda>u. u) (ba_used ba) = ba_used ba"
    using assms by (metis first_unused_def length_takeWhile_le le_neq_implies_less takeWhile_eq_take take_all_iff order_refl)
  then have "\<forall>u\<in>set (ba_used ba). u" by (simp add: takeWhile_eq_all_conv)
  then show ?thesis by (auto simp: unused_def)
qed

lemma mark_used_config [simp]:
  "ba_n_pos_per_embd (mark_used i ba) = ba_n_pos_per_embd ba" "ba_n_seq_max (mark_used i ba) = ba_n_seq_max ba"
  by (simp_all add: mark_used_def)

lemma mark_all_config [simp]:
  "ba_n_pos_per_embd (mark_all is ba) = ba_n_pos_per_embd ba" "ba_n_seq_max (mark_all is ba) = ba_n_seq_max ba"
  by (induction "is" arbitrary: ba) auto

lemma ubatch_of_mark_all [simp]:
  "ubatch_of (mark_all js ba) idxs ub = ubatch_of ba idxs ub" "ubatch_of (ba\<lparr>ba_out_ids := x\<rparr>) idxs ub = ubatch_of ba idxs ub"
  by (simp_all add: ubatch_of_def get_n_tokens_def Let_def cong: if_cong)

section \<open>The contract of a split function\<close>

text \<open>
  A split function takes unused tokens, each once, marks them and returns the ubatch of exactly
  these tokens.  \<open>split_result\<close> states this for the indices \<open>idxs\<close> that were taken.
\<close>

definition split_result :: "llama_batch_allocr \<Rightarrow> nat list \<Rightarrow> llama_ubatch \<Rightarrow> llama_batch_allocr \<Rightarrow> bool" where
  "split_result ba idxs ub ba' \<longleftrightarrow>
     distinct idxs \<and> set idxs \<subseteq> unused ba \<and>
     ba' = (mark_all idxs ba)\<lparr>ba_out_ids := ba_out_ids ba @ outputs_of (ba_batch ba) idxs\<rparr> \<and>
     ub_n_tokens ub = length idxs \<and>
     (idxs \<noteq> [] \<longrightarrow> ubatch_of ba idxs ub)"

text \<open>The loop of \<open>init_batch\<close> around a split function, with fuel for its iterations.\<close>

fun collect_ubatches :: "nat \<Rightarrow> (llama_batch_allocr \<Rightarrow> (llama_ubatch \<times> llama_batch_allocr) option) \<Rightarrow>
    llama_batch_allocr \<Rightarrow> (llama_ubatch list \<times> llama_batch_allocr) option" where
  "collect_ubatches 0 split ba = None"
| "collect_ubatches (Suc fuel) split ba = do {
     (ub, ba) \<leftarrow> split ba;
     if ub_n_tokens ub = 0 then Some ([], ba)
     else do {
       (ubs, ba) \<leftarrow> collect_ubatches fuel split ba;
       Some (ub # ubs, ba) } }"

locale splitter =
  fixes split :: "llama_batch_allocr \<Rightarrow> (llama_ubatch \<times> llama_batch_allocr) option"
    and ok :: "llama_batch_allocr \<Rightarrow> bool"
  assumes split_step: "ok ba \<Longrightarrow> \<exists>idxs ub ba'. split ba = Some (ub, ba') \<and> split_result ba idxs ub ba' \<and> ok ba'"
begin

lemma collect_spec:
  assumes "ok ba" and "card (unused ba) < fuel"
  shows "\<exists>idxss ubs ba'. collect_ubatches fuel split ba = Some (ubs, ba') \<and> ok ba' \<and>
    length idxss = length ubs \<and> (\<forall>k<length ubs. ub_n_tokens (ubs ! k) = length (idxss ! k) \<and> idxss ! k \<noteq> [] \<and>
      ubatch_of ba (idxss ! k) (ubs ! k)) \<and>
    distinct (concat idxss) \<and> set (concat idxss) \<subseteq> unused ba \<and>
    ba' = (mark_all (concat idxss) ba)\<lparr>ba_out_ids := ba_out_ids ba @ outputs_of (ba_batch ba) (concat idxss)\<rparr> \<and>
    (\<exists>ub ba''. split ba' = Some (ub, ba'') \<and> ub_n_tokens ub = 0)"
  using assms
proof (induction fuel arbitrary: ba)
  case 0
  then show ?case by simp
next
  case (Suc fuel)
  obtain idxs ub ba1 where st: "split ba = Some (ub, ba1)" and res: "split_result ba idxs ub ba1" and ok1: "ok ba1"
    using split_step [OF Suc.prems(1)] by auto
  show ?case
  proof (cases "idxs = []")
    case True
    with res have "ba1 = ba" "ub_n_tokens ub = 0" by (auto simp: split_result_def outputs_of_def)
    with st Suc.prems(1) show ?thesis
      by (intro exI [of _ "[]"] exI [of _ ba]) (auto simp: outputs_of_def)
  next
    case False
    have u1: "unused ba1 = unused ba - set idxs" and b1: "ba_batch ba1 = ba_batch ba"
      using res unused_mark_all [of idxs ba] by (auto simp: split_result_def unused_def)
    obtain x where "x \<in> set idxs" "x \<in> unused ba"
      using False res by (cases idxs) (auto simp: split_result_def)
    then have "unused ba - set idxs \<subset> unused ba" by auto
    then have "card (unused ba1) < card (unused ba)"
      unfolding u1 by (intro psubset_card_mono) simp
    with Suc.prems have "card (unused ba1) < fuel" by simp
    from Suc.IH [OF ok1 this] obtain idxss ubs ba' where
      rec: "collect_ubatches fuel split ba1 = Some (ubs, ba')" "ok ba'" "length idxss = length ubs"
        "\<forall>k<length ubs. ub_n_tokens (ubs ! k) = length (idxss ! k) \<and> idxss ! k \<noteq> [] \<and>
           ubatch_of ba1 (idxss ! k) (ubs ! k)"
        "distinct (concat idxss)" "set (concat idxss) \<subseteq> unused ba1"
        "ba' = (mark_all (concat idxss) ba1)\<lparr>ba_out_ids := ba_out_ids ba1 @ outputs_of (ba_batch ba1) (concat idxss)\<rparr>"
        "\<exists>ub ba''. split ba' = Some (ub, ba'') \<and> ub_n_tokens ub = 0"
      by auto
    have nz: "ub_n_tokens ub \<noteq> 0" using res False by (auto simp: split_result_def)
    have "ba' = (mark_all (concat (idxs # idxss)) ba)\<lparr>ba_out_ids := ba_out_ids ba @ outputs_of (ba_batch ba) (concat (idxs # idxss))\<rparr>"
      using rec(7) res by (simp add: split_result_def mark_all_out outputs_of_def)
    moreover have "\<forall>k<length (ub # ubs). ub_n_tokens ((ub # ubs) ! k) = length ((idxs # idxss) ! k) \<and> (idxs # idxss) ! k \<noteq> [] \<and>
        ubatch_of ba ((idxs # idxss) ! k) ((ub # ubs) ! k)"
      using rec(4) res False by (auto simp: nth_Cons' split_result_def)
    moreover have "distinct (concat (idxs # idxss))" "set (concat (idxs # idxss)) \<subseteq> unused ba"
      using rec(5,6) res by (auto simp: split_result_def u1)
    ultimately show ?thesis
      using st rec nz by (intro exI [of _ "idxs # idxss"] exI [of _ "ub # ubs"] exI [of _ ba']) auto
  qed
qed

end

text \<open>A split function that returns the empty ubatch only when every token is used.\<close>

locale complete_splitter = splitter +
  assumes split_done: "ok ba \<Longrightarrow> split ba = Some (ub, ba') \<Longrightarrow> ub_n_tokens ub = 0 \<Longrightarrow> unused ba = {}"
begin

lemma collect_all:
  assumes "ok ba" and "card (unused ba) < fuel"
  shows "\<exists>idxss ubs ba'. collect_ubatches fuel split ba = Some (ubs, ba') \<and>
    length idxss = length ubs \<and> (\<forall>k<length ubs. ub_n_tokens (ubs ! k) = length (idxss ! k) \<and> idxss ! k \<noteq> [] \<and>
      ubatch_of ba (idxss ! k) (ubs ! k)) \<and>
    distinct (concat idxss) \<and> set (concat idxss) = unused ba \<and> unused ba' = {} \<and>
    ba_n_used ba' = ba_n_used ba + card (unused ba) \<and>
    ba_out_ids ba' = ba_out_ids ba @ outputs_of (ba_batch ba) (concat idxss) \<and> get_n_tokens ba' = get_n_tokens ba"
proof -
  from collect_spec [OF assms] obtain idxss ubs ba' where
    r: "collect_ubatches fuel split ba = Some (ubs, ba')" "ok ba'" "length idxss = length ubs"
      "\<forall>k<length ubs. ub_n_tokens (ubs ! k) = length (idxss ! k) \<and> idxss ! k \<noteq> [] \<and>
         ubatch_of ba (idxss ! k) (ubs ! k)"
      "distinct (concat idxss)" "set (concat idxss) \<subseteq> unused ba"
      "ba' = (mark_all (concat idxss) ba)\<lparr>ba_out_ids := ba_out_ids ba @ outputs_of (ba_batch ba) (concat idxss)\<rparr>"
      "\<exists>ub ba''. split ba' = Some (ub, ba'') \<and> ub_n_tokens ub = 0"
    by auto
  have fin: "unused ba' = {}" using split_done r(2,8) by auto
  have "unused ba' = unused (mark_all (concat idxss) ba)" by (simp add: r(7) unused_def)
  with fin r(6) have all: "set (concat idxss) = unused ba" by (auto simp: unused_mark_all)
  have "length (concat idxss) = card (unused ba)"
    using distinct_card [OF r(5)] all by simp
  moreover have "get_n_tokens ba' = get_n_tokens ba" by (simp add: r(7) get_n_tokens_def)
  ultimately show ?thesis using r all fin
    by (intro exI [of _ idxss] exI [of _ ubs] exI [of _ ba']) auto
qed

end

section \<open>split_simple\<close>

lemma simple_loop_spec:
  assumes "cur < length (ba_used ba)"
  shows "\<exists>e. cur < e \<and> e \<le> length (ba_used ba) \<and>
    simple_loop n_ubatch cur idxs ba = (idxs @ [cur..<e], mark_all [cur..<e] ba) \<and>
    length idxs + (e - cur) \<le> max n_ubatch (Suc (length idxs))"
  using assms
proof (induction n_ubatch cur idxs ba rule: simple_loop.induct)
  case (1 n_ubatch cur idxs ba)
  let ?stop = "cur + 1 \<ge> length (ba_used ba) \<or> Suc (length idxs) \<ge> n_ubatch"
  show ?case
  proof (cases ?stop)
    case True
    then have "simple_loop n_ubatch cur idxs ba = (idxs @ [cur], mark_used cur ba)"
      by (subst simple_loop.simps) (auto simp: Let_def)
    with "1.prems" show ?thesis by (intro exI [of _ "Suc cur"]) auto
  next
    case False
    then have eq: "simple_loop n_ubatch cur idxs ba = simple_loop n_ubatch (cur + 1) (idxs @ [cur]) (mark_used cur ba)"
      by (subst simple_loop.simps) (auto simp: Let_def)
    from False "1.IH" [OF refl refl refl] obtain e where
      e: "cur + 1 < e" "e \<le> length (ba_used ba)"
        "simple_loop n_ubatch (cur + 1) (idxs @ [cur]) (mark_used cur ba) =
           ((idxs @ [cur]) @ [cur + 1..<e], mark_all [cur + 1..<e] (mark_used cur ba))"
        "length (idxs @ [cur]) + (e - (cur + 1)) \<le> max n_ubatch (Suc (length (idxs @ [cur])))"
      by auto
    have "[cur..<e] = cur # [cur + 1..<e]" using e(1) by (simp add: upt_conv_Cons)
    with e False eq show ?thesis by (intro exI [of _ e]) auto
  qed
qed

definition simple_ok :: "llama_batch_allocr \<Rightarrow> bool" where
  "simple_ok ba \<longleftrightarrow> batch_wf ba \<and> length (ba_used ba) = get_n_tokens ba \<and>
     (\<forall>j<length (ba_used ba). ba_used ba ! j \<longrightarrow> (\<forall>i<j. ba_used ba ! i))"

lemma batch_wf_out [simp]: "batch_wf (ba\<lparr>ba_out_ids := x\<rparr>) = batch_wf ba"
  and get_n_tokens_out [simp]: "get_n_tokens (ba\<lparr>ba_out_ids := x\<rparr>) = get_n_tokens ba"
  and unused_out [simp]: "unused (ba\<lparr>ba_out_ids := x\<rparr>) = unused ba"
  by (simp_all add: batch_wf_def get_n_tokens_def unused_def)

lemma split_simple_spec:
  assumes ok: "simple_ok ba"
  shows "\<exists>idxs ub ba'. split_simple n_ubatch ba = Some (ub, ba') \<and> split_result ba idxs ub ba' \<and> simple_ok ba' \<and>
    length idxs \<le> max 1 n_ubatch \<and> (idxs = [] \<longrightarrow> unused ba = {}) \<and>
    (\<exists>e. idxs = [first_unused ba..<e])"
proof (cases "first_unused ba < length (ba_used ba)")
  case False
  with first_unused_all [OF False] ok show ?thesis
    by (intro exI [of _ "[]"] exI [of _ null_ubatch] exI [of _ ba])
      (auto simp: split_simple_def Let_def split_result_def null_ubatch_def outputs_of_def intro!: exI [of _ 0])
next
  case True
  let ?f = "first_unused ba"
  from simple_loop_spec [OF True, of n_ubatch "[]"] obtain e where
    e: "?f < e" "e \<le> length (ba_used ba)" "simple_loop n_ubatch ?f [] ba = ([?f..<e], mark_all [?f..<e] ba)"
      "e - ?f \<le> max n_ubatch 1"
    by auto
  let ?idxs = "[?f..<e]" and ?ba = "mark_all [?f..<e] ba"
  have in_range: "\<forall>i\<in>set ?idxs. i < get_n_tokens ?ba"
    using e ok by (auto simp: simple_ok_def)
  have "batch_wf ?ba" using ok by (simp add: simple_ok_def)
  from ubatch_add_spec [OF this in_range, of "length ?idxs" False] e(1) obtain ub where
    ub: "ubatch_add ?idxs (length ?idxs) False ?ba =
        Some (ub, ?ba\<lparr>ba_out_ids := ba_out_ids ?ba @ outputs_of (ba_batch ?ba) ?idxs\<rparr>)"
      "ubatch_of ba ?idxs ub"
    by auto
  have out: "ba_out_ids (mark_all js ba) = ba_out_ids ba" for js
    by (induction js arbitrary: ba) (auto simp: mark_used_def)
  let ?ba' = "?ba\<lparr>ba_out_ids := ba_out_ids ?ba @ outputs_of (ba_batch ?ba) ?idxs\<rparr>"
  have unused_from: "\<not> ba_used ba ! j" if "?f \<le> j" "j < length (ba_used ba)" for j
    using first_unused_less(1) [OF True] ok that by (auto simp: simple_ok_def unused_def order_class.le_less)
  have "split_simple n_ubatch ba = Some (ub, ?ba')"
    using True e(3) ub(1) by (simp add: split_simple_def Let_def)
  moreover have "split_result ba ?idxs ub ?ba'"
    using ub(2) e unused_from by (auto simp: split_result_def unused_def out ubatch_of_def [of _ _ ub] Let_def)
  moreover have "simple_ok ?ba'"
    using ok e first_unused_less(2) [OF True] unfolding simple_ok_def
    by (auto simp: linorder_not_le [symmetric])
  ultimately show ?thesis using e
    by (intro exI [of _ ?idxs] exI [of _ ub] exI [of _ ?ba']) auto
qed

interpretation simple: complete_splitter "split_simple n_ubatch" simple_ok for n_ubatch
proof
  fix ba
  assume "simple_ok ba"
  from split_simple_spec [OF this, of n_ubatch]
  show "\<exists>idxs ub ba'. split_simple n_ubatch ba = Some (ub, ba') \<and> split_result ba idxs ub ba' \<and> simple_ok ba'"
    by blast
next
  fix ba ub ba'
  assume "simple_ok ba" and "split_simple n_ubatch ba = Some (ub, ba')" and "ub_n_tokens ub = 0"
  with split_simple_spec [of ba n_ubatch] show "unused ba = {}"
    by (auto simp: split_result_def)
qed

lemma split_reset_unused: "unused (split_reset ba) = {..<get_n_tokens ba}"
  and split_reset_fields [simp]: "ba_batch (split_reset ba) = ba_batch ba" "get_n_tokens (split_reset ba) = get_n_tokens ba"
    "ba_n_used (split_reset ba) = 0" "ba_out_ids (split_reset ba) = []" "batch_wf (split_reset ba) = batch_wf ba"
    "ba_seq_set (split_reset ba) = ba_seq_set ba" "ba_seq_set_map (split_reset ba) = ba_seq_set_map ba"
    "ba_used (split_reset ba) = replicate (get_n_tokens ba) False"
  by (auto simp: split_reset_def unused_def get_n_tokens_def batch_wf_def)

section \<open>split_seq\<close>

lemma out_ids_mark_all [simp]: "ba_out_ids (mark_all js ba) = ba_out_ids ba"
  by (induction js arbitrary: ba) (auto simp: mark_used_def)

text \<open>The final step shared by the splits: the indices are marked, then \<open>ubatch_add\<close> builds the ubatch.\<close>

lemma ubatch_add_result:
  assumes wf: "batch_wf ba" "length (ba_used ba) = get_n_tokens ba"
    and idxs: "distinct idxs" "set idxs \<subseteq> unused ba" "idxs \<noteq> []"
    and n: "n_seqs \<noteq> 0" "length idxs mod n_seqs = 0"
  shows "\<exists>ub ba'. ubatch_add idxs n_seqs eq (mark_all idxs ba) = Some (ub, ba') \<and> split_result ba idxs ub ba' \<and>
    batch_wf ba' \<and> length (ba_used ba') = get_n_tokens ba' \<and> ba_seq_set ba' = ba_seq_set ba \<and>
    ba_seq_set_map ba' = ba_seq_set_map ba \<and> ub_n_seqs ub = n_seqs"
proof -
  have "\<forall>i\<in>set idxs. i < get_n_tokens (mark_all idxs ba)"
    using idxs(2) wf(2) by (auto simp: unused_def)
  from ubatch_add_spec [OF _ this n, of eq] wf idxs n obtain ub where
    ub: "ubatch_add idxs n_seqs eq (mark_all idxs ba) =
        Some (ub, (mark_all idxs ba)\<lparr>ba_out_ids := ba_out_ids ba @ outputs_of (ba_batch ba) idxs\<rparr>)"
      "ubatch_of ba idxs ub" "ub_n_seqs ub = n_seqs"
    by auto
  moreover have "ub_n_tokens ub = length idxs" using ub(2) by (simp add: ubatch_of_def Let_def)
  ultimately show ?thesis using wf idxs by (simp add: split_result_def)
qed

lemma seq_loop_spec:
  assumes "cur \<in> unused ba" and "length (ba_used ba) = get_n_tokens ba"
  shows "\<exists>js. seq_loop n_ubatch S cur idxs ba = (idxs @ js, mark_all js ba) \<and> js \<noteq> [] \<and> hd js = cur \<and>
    sorted_wrt (<) js \<and> set js \<subseteq> unused ba \<and> length idxs + length js \<le> max n_ubatch (Suc (length idxs))"
  using assms
proof (induction n_ubatch S cur idxs ba rule: seq_loop.induct)
  case (1 n_ubatch S cur idxs ba)
  let ?ba = "mark_used cur ba"
  show ?case
  proof (cases "Suc (length idxs) \<ge> n_ubatch \<or> next_in_set ?ba S cur = None")
    case True
    then have "seq_loop n_ubatch S cur idxs ba = (idxs @ [cur], ?ba)"
      by (subst seq_loop.simps) (auto simp: Let_def)
    with "1.prems" show ?thesis by (intro exI [of _ "[cur]"]) auto
  next
    case False
    then obtain j where j: "next_in_set ?ba S cur = Some j" and lt: "\<not> Suc (length idxs) \<ge> n_ubatch" by auto
    have jj: "cur < j" "j < length (ba_used ba)" "\<not> ba_used ba ! j"
      using next_in_set_Some [OF j] "1.prems" by (auto simp: nth_list_update split: if_splits)
    have eq: "seq_loop n_ubatch S cur idxs ba = seq_loop n_ubatch (ba_seq_set ?ba ! j) j (idxs @ [cur]) ?ba"
      using lt j by (subst seq_loop.simps) (auto simp: Let_def)
    have "j \<in> unused ?ba" "length (ba_used ?ba) = get_n_tokens ?ba"
      using jj "1.prems" by (auto simp: unused_def nth_list_update)
    with "1.IH" [OF refl refl _ j] lt obtain js where
      js: "seq_loop n_ubatch (ba_seq_set ?ba ! j) j (idxs @ [cur]) ?ba = ((idxs @ [cur]) @ js, mark_all js ?ba)"
        "js \<noteq> []" "hd js = j" "sorted_wrt (<) js" "set js \<subseteq> unused ?ba"
        "length (idxs @ [cur]) + length js \<le> max n_ubatch (Suc (length (idxs @ [cur])))"
      by auto
    have "set js \<subseteq> unused ba"
      using js(5) unused_mark_all [of "[cur]" ba] by auto
    moreover have "\<forall>x\<in>set js. cur < x"
      using js(2,3,4) jj(1) by (cases js) auto
    ultimately show ?thesis
      using js eq "1.prems" lt by (intro exI [of _ "cur # js"]) auto
  qed
qed

definition seq_ok :: "llama_batch_allocr \<Rightarrow> bool" where
  "seq_ok ba \<longleftrightarrow> batch_wf ba \<and> length (ba_used ba) = get_n_tokens ba"

lemma split_null:
  assumes "unused ba = {}"
  shows "split_result ba [] null_ubatch ba"
  by (simp add: split_result_def null_ubatch_def outputs_of_def)

lemma split_seq_spec:
  assumes ok: "seq_ok ba"
  shows "\<exists>idxs ub ba'. split_seq n_ubatch ba = Some (ub, ba') \<and> split_result ba idxs ub ba' \<and> seq_ok ba' \<and>
    length idxs \<le> max 1 n_ubatch \<and> (idxs = [] \<longrightarrow> unused ba = {}) \<and> sorted_wrt (<) idxs"
proof (cases "first_unused ba < length (ba_used ba)")
  case False
  with first_unused_all [OF False] ok split_null show ?thesis
    by (intro exI [of _ "[]"] exI [of _ null_ubatch] exI [of _ ba]) (auto simp: split_seq_def Let_def)
next
  case True
  obtain js where js: "seq_loop n_ubatch (ba_seq_set ba ! first_unused ba) (first_unused ba) [] ba = (js, mark_all js ba)"
      "js \<noteq> []" "sorted_wrt (<) js" "set js \<subseteq> unused ba" "length js \<le> max n_ubatch 1"
    using seq_loop_spec [OF first_unused_less(1) [OF True], of n_ubatch "ba_seq_set ba ! first_unused ba" "[]"] ok
    by (auto simp: seq_ok_def)
  have "distinct js" using js(3) by (simp add: strict_sorted_iff)
  from ubatch_add_result [OF _ _ this js(4,2), of 1 True] ok js True show ?thesis
    by (fastforce simp: split_seq_def Let_def seq_ok_def)
qed

interpretation seq: complete_splitter "split_seq n_ubatch" seq_ok for n_ubatch
proof
  fix ba
  assume "seq_ok ba"
  from split_seq_spec [OF this, of n_ubatch]
  show "\<exists>idxs ub ba'. split_seq n_ubatch ba = Some (ub, ba') \<and> split_result ba idxs ub ba' \<and> seq_ok ba'"
    by blast
next
  fix ba ub ba'
  assume "seq_ok ba" and "split_seq n_ubatch ba = Some (ub, ba')" and "ub_n_tokens ub = 0"
  with split_seq_spec [of ba n_ubatch] show "unused ba = {}"
    by (auto simp: split_result_def)
qed

section \<open>split_equal\<close>

text \<open>
  The index of sequence sets lists the tokens of each set in order, and the tokens of a set are
  used in order.
\<close>

definition equal_ok :: "llama_batch_allocr \<Rightarrow> bool" where
  "equal_ok ba \<longleftrightarrow> batch_wf ba \<and> length (ba_used ba) = get_n_tokens ba \<and>
     ba_seq_set ba = map (\<lambda>i. set (tok_ids (ba_batch ba) i)) [0..<get_n_tokens ba] \<and>
     (\<forall>S. set_idxs ba S = filter (\<lambda>i. ba_seq_set ba ! i = S) [0..<get_n_tokens ba]) \<and>
     (\<forall>j<get_n_tokens ba. \<forall>i<j. ba_used ba ! j \<longrightarrow> ba_seq_set ba ! i = ba_seq_set ba ! j \<longrightarrow> ba_used ba ! i)"

definition good_sets :: "llama_batch_allocr \<Rightarrow> seq_set_t list \<Rightarrow> bool" where
  "good_sets ba cur \<longleftrightarrow> (\<forall>T\<in>set cur. \<exists>i\<in>unused ba. ba_seq_set ba ! i = T) \<and> distinct cur"

lemma equal_ok_set_nonempty:
  assumes "equal_ok ba" and "i < get_n_tokens ba"
  shows "ba_seq_set ba ! i \<noteq> {}"
proof -
  obtain s ids where "tok_seq_ids i (ba_batch ba) = Some (s # ids)"
    using assms by (auto simp: equal_ok_def batch_wf_def Let_def)
  then show ?thesis using assms by (auto simp: equal_ok_def tok_ids_def)
qed

lemma equal_ok_seq_id0:
  assumes "equal_ok ba" and "i < get_n_tokens ba"
  shows "\<exists>s. tok_seq_id0 i (ba_batch ba) = Some s"
  using assms by (fastforce simp: equal_ok_def batch_wf_def Let_def dest: tok_seq_id0_of)

lemma equal_sets_loop_spec:
  assumes "equal_ok ba" and "set is \<subseteq> {..<get_n_tokens ba}" and "good_sets ba cur" and "length cur \<le> n_ubatch"
  shows "\<exists>cur'. equal_sets_loop n_ubatch sequential ba is cur l = Some cur' \<and> good_sets ba cur' \<and>
    length cur' \<le> Suc n_ubatch \<and> (cur' = [] \<longrightarrow> cur = [] \<and> set is \<inter> unused ba = {})"
  using assms(2-4)
proof (induction "is" arbitrary: cur l)
  case Nil
  then show ?case by auto
next
  case (Cons i "is")
  have i: "i < get_n_tokens ba" "i < length (ba_used ba)" "i < length (ba_seq_set ba)"
    using Cons.prems(1) assms(1) by (auto simp: equal_ok_def)
  obtain s0 where s0: "tok_seq_id0 i (ba_batch ba) = Some s0"
    using equal_ok_seq_id0 [OF assms(1) i(1)] by auto
  let ?S = "ba_seq_set ba ! i"
  consider (used) "ba_used ba ! i" | (overlap) "\<not> ba_used ba ! i" "\<exists>T\<in>set cur. T \<inter> ?S \<noteq> {}"
    | (new) "\<not> ba_used ba ! i" "\<forall>T\<in>set cur. T \<inter> ?S = {}" by auto
  then show ?case
  proof cases
    case used
    with Cons.IH [of cur l] Cons.prems i show ?thesis by (auto simp: at_def unused_def)
  next
    case overlap
    then have "cur \<noteq> []" by auto
    with overlap Cons.IH [of cur l] Cons.prems i show ?thesis by (auto simp: at_def)
  next
    case new
    have "?S \<notin> set cur" using new(2) equal_ok_set_nonempty [OF assms(1) i(1)] by auto
    then have good: "good_sets ba (cur @ [?S])"
      using Cons.prems(2) new(1) i by (auto simp: good_sets_def unused_def)
    show ?thesis
    proof (cases "sequential \<and> \<not> (cur = [] \<or> s0 = l + 1)")
      case True
      with new Cons.IH [of cur l] Cons.prems i s0 show ?thesis by (auto simp: at_def)
    next
      case False
      then show ?thesis
        using new Cons.IH [of "cur @ [?S]" s0] Cons.prems i s0 good
        by (cases "length (cur @ [?S]) > n_ubatch") (auto simp: at_def)
    qed
  qed
qed

text \<open>Marking does not depend on the order.\<close>

lemma mark_all_mset:
  assumes "mset is = mset js"
  shows "mark_all is ba = mark_all js ba"
proof -
  have comm: "mark_used x \<circ> mark_used y = mark_used y \<circ> mark_used x" for x y
    by (rule ext) (simp add: mark_used_def list_update_swap, cases "x = y", simp_all add: list_update_swap)
  have "fold mark_used is = fold mark_used js"
    by (rule fold_multiset_equiv [OF comm assms])
  then show ?thesis by (simp add: mark_all_def)
qed

lemma dropWhile_prefix:
  "sorted_wrt (\<lambda>x y. Q y \<longrightarrow> Q x) xs \<Longrightarrow> dropWhile Q xs = filter (\<lambda>x. \<not> Q x) xs"
  by (induction xs) (auto simp: filter_id_conv)

lemma skip_used_filter:
  assumes "equal_ok ba"
  shows "skip_used ba S = filter (\<lambda>i. ba_seq_set ba ! i = S \<and> \<not> ba_used ba ! i) [0..<get_n_tokens ba]"
proof -
  have idxs: "set_idxs ba S = filter (\<lambda>i. ba_seq_set ba ! i = S) [0..<get_n_tokens ba]"
    using assms unfolding equal_ok_def by blast
  have "sorted_wrt (\<lambda>x y. ba_used ba ! y \<longrightarrow> ba_used ba ! x) (set_idxs ba S)"
  proof (rule sorted_wrt_mono_rel [where P = "(<)"])
    fix x y
    assume "x \<in> set (set_idxs ba S)" "y \<in> set (set_idxs ba S)" "x < y"
    with idxs assms show "ba_used ba ! y \<longrightarrow> ba_used ba ! x"
      unfolding equal_ok_def by auto
  qed (simp add: idxs sorted_wrt_filter)
  then have "skip_used ba S = filter (\<lambda>i. \<not> ba_used ba ! i) (set_idxs ba S)"
    by (simp add: skip_used_def dropWhile_prefix)
  then show ?thesis by (simp add: idxs conj_commute)
qed

lemma take_rounds:
  "[] \<notin> set rest \<Longrightarrow>
   mset (concat (map (take (Suc m)) rest)) = mset (map hd rest) + mset (concat (map (take m) (map tl rest)))"
  by (induction rest) (auto simp: neq_Nil_conv take_Suc)

lemma take_rounds_acc:
  "length acc = length rest \<Longrightarrow> [] \<notin> set rest \<Longrightarrow>
   map2 (\<lambda>a r. a @ take m r) (map2 (\<lambda>a r. a @ [hd r]) acc rest) (map tl rest) =
   map2 (\<lambda>a r. a @ take (Suc m) r) acc rest"
  by (induction acc rest rule: list_induct2) (auto simp: take_Suc)

text \<open>The expansion takes the same number of indices of every set.\<close>

lemma equal_expand_spec:
  assumes "rest \<noteq> []" and "[] \<notin> set rest" and "length acc = length rest" and "length (hd acc) = k"
  shows "\<exists>m js. m \<ge> 1 \<and> (\<forall>r\<in>set rest. m \<le> length r) \<and>
    equal_expand n_ubatch rest acc ba = (map2 (\<lambda>a r. a @ take m r) acc rest, mark_all js ba) \<and>
    mset js = mset (concat (map (take m) rest)) \<and> (m = 1 \<or> (k + m) * length rest \<le> n_ubatch)"
  using assms
proof (induction n_ubatch rest acc ba arbitrary: k rule: equal_expand.induct)
  case (1 n_ubatch rest acc ba)
  let ?acc = "map2 (\<lambda>a r. a @ [hd r]) acc rest" and ?ba = "fold mark_used (map hd rest) ba"
  have hd_acc: "length (hd ?acc) = Suc k"
    using "1.prems" by (cases acc; cases rest) auto
  have one: "?acc = map2 (\<lambda>a r. a @ take 1 r) acc rest"
    using "1.prems"(2) by (intro map_cong refl) (auto dest!: set_zip_rightD, metis hd_Cons_tl take0 take_Suc_Cons)
  have ms: "mset (map hd rest) = mset (concat (map (take 1) rest))"
    using take_rounds [OF "1.prems"(2), of 0] by simp
  have len1: "\<forall>r\<in>set rest. 1 \<le> length r"
    using "1.prems"(2) by (auto simp: Suc_le_eq)
  show ?case
  proof (cases "(Suc k + 1) * length rest > n_ubatch \<or> [] \<in> set (map tl rest)")
    case True
    then have "equal_expand n_ubatch rest acc ba = (?acc, ?ba)"
      using "1.prems" hd_acc by (auto simp: equal_expand.simps [of _ rest] equal_expand.simps [of _ "map tl rest"] Let_def)
    with ms one len1 show ?thesis
      by (intro exI [of _ 1] exI [of _ "map hd rest"]) (simp add: mark_all_def)
  next
    case False
    then have eq: "equal_expand n_ubatch rest acc ba = equal_expand n_ubatch (map tl rest) ?acc ?ba"
      using "1.prems" hd_acc by (auto simp: equal_expand.simps [of _ rest] Let_def)
    have c: "\<not> (rest = [] \<or> [] \<in> set rest)" "\<not> n_ubatch < (length (hd ?acc) + 1) * length rest"
      "map tl rest \<noteq> []" "[] \<notin> set (map tl rest)" "length ?acc = length (map tl rest)"
      using "1.prems" False hd_acc by auto
    obtain m js where m: "m \<ge> 1" "\<forall>r\<in>set (map tl rest). m \<le> length r"
        "equal_expand n_ubatch (map tl rest) ?acc ?ba = (map2 (\<lambda>a r. a @ take m r) ?acc (map tl rest), mark_all js ?ba)"
        "mset js = mset (concat (map (take m) (map tl rest)))" "m = 1 \<or> (Suc k + m) * length (map tl rest) \<le> n_ubatch"
      using "1.IH" [OF c(1) refl refl c(2-5) hd_acc] by (elim exE conjE) (rule that)
    have "\<forall>r\<in>set rest. Suc m \<le> length r"
    proof
      fix r
      assume "r \<in> set rest"
      then have "m \<le> length r - 1" "1 \<le> length r" using m(2) len1 by auto
      then show "Suc m \<le> length r" by simp
    qed
    moreover have "equal_expand n_ubatch rest acc ba =
        (map2 (\<lambda>a r. a @ take (Suc m) r) acc rest, mark_all (map hd rest @ js) ba)"
      using eq m(3) take_rounds_acc [OF "1.prems"(3,2), of m] by (simp add: mark_all_def)
    moreover have "mset (map hd rest @ js) = mset (concat (map (take (Suc m)) rest))"
      using take_rounds [OF "1.prems"(2), of m] m(4) by simp
    moreover have "(k + Suc m) * length rest \<le> n_ubatch"
      using m(5) False by auto
    ultimately show ?thesis
      by (intro exI [of _ "Suc m"] exI [of _ "map hd rest @ js"]) auto
  qed
qed

lemma map2_replicate_Nil: "map2 (\<lambda>a r. a @ f r) (replicate (length rest) []) rest = map f rest"
  by (induction rest) auto

lemma distinct_takes:
  assumes "distinct cur" and "\<And>S. S \<in> set cur \<Longrightarrow> distinct (g S) \<and> (\<forall>i\<in>set (g S). c i = S)"
  shows "distinct (concat (map (\<lambda>S. take m (g S)) cur))"
  using assms
proof (induction cur)
  case (Cons S cur)
  have "set (take m (g S)) \<inter> set (take m (g T)) = {}" if "T \<in> set cur" for T
  proof -
    have "S \<noteq> T" using Cons.prems(1) that by auto
    moreover have "\<forall>i\<in>set (g S). c i = S" "\<forall>i\<in>set (g T). c i = T"
      using Cons.prems(2) that by simp_all
    ultimately have "set (g S) \<inter> set (g T) = {}" by auto
    then show ?thesis using set_take_subset [of m "g S"] set_take_subset [of m "g T"] by blast
  qed
  with Cons.IH Cons.prems show ?case by (auto simp: distinct_take)
qed simp

lemma prefix_closed_take:
  assumes "j \<in> set (take m (filter P [0..<n]))" and "i < j" and "P i"
  shows "i \<in> set (take m (filter P [0..<n]))"
proof -
  let ?xs = "filter P [0..<n]"
  obtain a where a: "a < m" "a < length ?xs" "?xs ! a = j"
    using assms(1) by (auto simp: in_set_conv_nth)
  have "j < n" using a nth_mem [OF a(2)] by auto
  then have "i \<in> set ?xs" using assms by auto
  then obtain b where b: "b < length ?xs" "?xs ! b = i"
    by (auto simp: in_set_conv_nth simp del: set_filter)
  have "sorted_wrt (<) ?xs" by (simp add: sorted_wrt_filter)
  then have "b < a"
    using a b assms(2) by (metis linorder_cases order_less_asym sorted_wrt_nth_less)
  with a b show ?thesis by (auto simp: in_set_conv_nth intro!: exI [of _ b])
qed

lemma equal_ok_step:
  assumes ok: "equal_ok ba" and "distinct cur" and idxs: "idxs = concat (map (\<lambda>S. take m (skip_used ba S)) cur)"
  shows "distinct idxs" and "set idxs \<subseteq> unused ba" and "equal_ok (mark_all idxs ba)"
proof -
  let ?n = "get_n_tokens ba"
  have sk: "skip_used ba S = filter (\<lambda>i. ba_seq_set ba ! i = S \<and> \<not> ba_used ba ! i) [0..<?n]" for S
    by (rule skip_used_filter [OF ok])
  show "distinct idxs"
    unfolding idxs by (rule distinct_takes [OF assms(2), where c = "(!) (ba_seq_set ba)"]) (simp add: sk)
  have len: "length (ba_used ba) = ?n" using ok by (simp add: equal_ok_def)
  show "set idxs \<subseteq> unused ba"
    using len by (auto simp: idxs sk unused_def dest!: in_set_takeD)
  have prefix_ok: "i \<in> set idxs \<or> ba_used ba ! i"
    if "j \<in> set idxs" "i < j" "ba_seq_set ba ! i = ba_seq_set ba ! j" for i j
  proof -
    from that(1) obtain S where S: "S \<in> set cur" "j \<in> set (take m (skip_used ba S))" by (auto simp: idxs)
    then have "ba_seq_set ba ! j = S" by (auto simp: sk dest!: in_set_takeD)
    with S(2) that show ?thesis
      using prefix_closed_take [of j m "\<lambda>i. ba_seq_set ba ! i = S \<and> \<not> ba_used ba ! i" ?n i] S(1)
      by (auto simp: idxs sk)
  qed
  have old: "\<forall>j<?n. \<forall>i<j. ba_used ba ! j \<longrightarrow> ba_seq_set ba ! i = ba_seq_set ba ! j \<longrightarrow> ba_used ba ! i"
    using ok unfolding equal_ok_def by blast
  have "\<forall>j<?n. \<forall>i<j. ba_used (mark_all idxs ba) ! j \<longrightarrow> ba_seq_set ba ! i = ba_seq_set ba ! j \<longrightarrow>
      ba_used (mark_all idxs ba) ! i"
    using prefix_ok old by (simp add: len)
  with ok show "equal_ok (mark_all idxs ba)"
    by (simp add: equal_ok_def set_idxs_def)
qed

lemma equal_ok_out [simp]: "equal_ok (ba\<lparr>ba_out_ids := x\<rparr>) = equal_ok ba"
  by (simp add: equal_ok_def set_idxs_def)

lemma split_equal_spec:
  assumes ok: "equal_ok ba" and cpl: "\<not> (sequential \<and> ba_has_cpl ba)"
  shows "\<exists>idxs ub ba' m cur. split_equal n_ubatch sequential ba = Some (ub, ba') \<and> split_result ba idxs ub ba' \<and> equal_ok ba' \<and>
    length idxs \<le> Suc n_ubatch \<and> (idxs = [] \<longrightarrow> unused ba = {}) \<and> distinct cur \<and>
    idxs = concat (map (\<lambda>S. take m (skip_used ba S)) cur) \<and> (\<forall>S\<in>set cur. m \<le> length (skip_used ba S)) \<and>
    ub_n_seqs ub = length cur \<and> length idxs = m * length cur"
proof -
  have good0: "good_sets ba []" by (simp add: good_sets_def)
  obtain cur where cur: "equal_sets_loop n_ubatch sequential ba [0..<get_n_tokens ba] [] (- 1) = Some cur"
      "good_sets ba cur" "length cur \<le> Suc n_ubatch" "cur = [] \<longrightarrow> {..<get_n_tokens ba} \<inter> unused ba = {}"
    using equal_sets_loop_spec [OF ok _ good0, of "[0..<get_n_tokens ba]" n_ubatch sequential "- 1"]
    by (auto simp: atLeast0LessThan)
  have len: "length (ba_used ba) = get_n_tokens ba" and wf: "batch_wf ba" using ok by (auto simp: equal_ok_def)
  show ?thesis
  proof (cases "cur = []")
    case True
    then have "unused ba = {}" using cur(4) len by (auto simp: unused_def)
    with True cur(1) cpl ok split_null [of ba] show ?thesis
      by (intro exI [of _ "[]"] exI [of _ null_ubatch] exI [of _ ba] exI [of _ 0])
        (auto simp: split_equal_def null_ubatch_def)
  next
    case False
    let ?rest = "map (skip_used ba) cur"
    have "skip_used ba S \<noteq> []" if "S \<in> set cur" for S
      using cur(2) len that by (auto simp: good_sets_def skip_used_filter [OF ok] unused_def filter_empty_conv atLeast0LessThan Bex_def)
    then have ne: "[] \<notin> set ?rest" by force
    from equal_expand_spec [OF _ ne, of "replicate (length cur) []" 0 n_ubatch ba] False obtain m js where
      m: "m \<ge> 1" "\<forall>r\<in>set ?rest. m \<le> length r"
        "equal_expand n_ubatch ?rest (replicate (length cur) []) ba =
           (map (take m) ?rest, mark_all js ba)"
        "mset js = mset (concat (map (take m) ?rest))" "m = 1 \<or> m * length cur \<le> n_ubatch"
      using map2_replicate_Nil [of _ ?rest] by (cases cur) fastforce+
    let ?idxs = "concat (map (\<lambda>S. take m (skip_used ba S)) cur)"
    have js: "mark_all js ba = mark_all ?idxs ba"
      using mark_all_mset [OF m(4)] by (simp add: comp_def)
    have "distinct cur" using cur(2) by (simp add: good_sets_def)
    note st = equal_ok_step [OF ok this refl, of m]
    have lens: "length ?idxs = m * length cur"
      using m(2) by (simp add: length_concat comp_def sum_list_triv cong: map_cong)
    with False m(1) have "?idxs \<noteq> []" by fastforce
    with ubatch_add_result [OF wf len st(1,2), of "length cur" True] False lens obtain ub ba' where
      ub: "ubatch_add ?idxs (length cur) True (mark_all ?idxs ba) = Some (ub, ba')" "split_result ba ?idxs ub ba'"
        "ub_n_seqs ub = length cur" by auto
    have "equal_ok ba'" using ub(2) st(3) by (simp add: split_result_def)
    moreover have "split_equal n_ubatch sequential ba = Some (ub, ba')"
      using cpl cur(1) False ne m(3) js ub(1) by (auto simp: split_equal_def Let_def comp_def)
    moreover have "length ?idxs \<le> Suc n_ubatch"
      using lens m(5) cur(3) by auto
    ultimately show ?thesis
      using ub(2,3) \<open>?idxs \<noteq> []\<close> \<open>distinct cur\<close> m(2) lens
      by (intro exI [of _ ?idxs] exI [of _ ub] exI [of _ ba'] exI [of _ m] exI [of _ cur]) auto
  qed
qed

text \<open>\<open>split_equal\<close> with the non-sequential or uncoupled setting takes every token.\<close>

definition equal_seq_ok :: "bool \<Rightarrow> llama_batch_allocr \<Rightarrow> bool" where
  "equal_seq_ok sequential ba \<longleftrightarrow> equal_ok ba \<and> \<not> (sequential \<and> ba_has_cpl ba)"

interpretation equal: complete_splitter "split_equal n_ubatch sequential" "equal_seq_ok sequential" for n_ubatch sequential
proof
  fix ba
  assume ok: "equal_seq_ok sequential ba"
  then obtain idxs ub ba' where r: "split_equal n_ubatch sequential ba = Some (ub, ba')" "split_result ba idxs ub ba'" "equal_ok ba'"
    using split_equal_spec [of ba sequential n_ubatch] by (auto simp: equal_seq_ok_def)
  then have "ba_has_cpl ba' = ba_has_cpl ba" by (simp add: split_result_def)
  with r ok show "\<exists>idxs ub ba'. split_equal n_ubatch sequential ba = Some (ub, ba') \<and> split_result ba idxs ub ba' \<and>
      equal_seq_ok sequential ba'"
    by (auto simp: equal_seq_ok_def)
next
  fix ba ub ba'
  assume "equal_seq_ok sequential ba" and "split_equal n_ubatch sequential ba = Some (ub, ba')" and "ub_n_tokens ub = 0"
  with split_equal_spec [of ba sequential n_ubatch] show "unused ba = {}"
    by (auto simp: split_result_def equal_seq_ok_def)
qed

section \<open>What init establishes\<close>

lemma all_ok_True: "all_ok f xs = Some True \<longleftrightarrow> (\<forall>x\<in>set xs. f x = Some True)"
  by (induction xs) (auto split: Option.bind_splits if_splits)

lemma couple_token_prefix:
  fixes s0 :: llama_seq_id and p :: llama_pos and ids :: "llama_seq_id list" and ba :: llama_batch_allocr
  assumes "k \<le> length ids"
  defines "f \<equiv> \<lambda>k ba. let s1 = ids ! k;
             ba = ba\<lparr>ba_seq_pos := (ba_seq_pos ba)(s1 := insert p (ba_seq_pos ba s1))\<rparr>
         in if k > 0 then ba\<lparr>ba_seq_cpl := (ba_seq_cpl ba)(s1 := (ba_seq_cpl ba s1)(s0 := True)), ba_has_cpl := True\<rparr>
            else ba"
  shows "fold f [0..<k] ba = ba\<lparr>
      ba_seq_pos := (\<lambda>s. if s \<in> set (take k ids) then insert p (ba_seq_pos ba s) else ba_seq_pos ba s),
      ba_seq_cpl := (\<lambda>s t. ba_seq_cpl ba s t \<or> t = s0 \<and> s \<in> set (take (k - 1) (tl ids))),
      ba_has_cpl := (ba_has_cpl ba \<or> k > 1)\<rparr>"
  using assms(1)
proof (induction k)
  case 0
  then show ?case by simp
next
  case (Suc k)
  have nth_tl': "k > 0 \<Longrightarrow> take k (tl ids) = take (k - 1) (tl ids) @ [ids ! k]"
    using Suc.prems by (cases k; cases ids) (auto simp: take_Suc_conv_app_nth)
  have "take (Suc k) ids = take k ids @ [ids ! k]"
    using Suc.prems by (simp add: take_Suc_conv_app_nth)
  with Suc nth_tl' show ?case
    by (intro llama_batch_allocr.equality) (auto simp: f_def Let_def fun_eq_iff)
qed

lemma couple_token_eq:
  "couple_token s0 p ids ba = ba\<lparr>
      ba_seq_pos := (\<lambda>s. if s \<in> set ids then insert p (ba_seq_pos ba s) else ba_seq_pos ba s),
      ba_seq_cpl := (\<lambda>s t. ba_seq_cpl ba s t \<or> t = s0 \<and> s \<in> set (tl ids)),
      ba_has_cpl := (ba_has_cpl ba \<or> length ids > 1)\<rparr>"
proof -
  have "take (length ids - 1) (tl ids) = tl ids" by simp
  with couple_token_prefix [of "length ids" ids p s0 ba] show ?thesis
    by (simp add: couple_token_def)
qed

text \<open>The positions and the coupling are those of the tokens of the batch.\<close>

lemma collect_coupled_spec:
  assumes "collect_coupled ba = Some ba'"
  defines "b \<equiv> ba_batch ba"
  shows "\<exists>P C H. ba' = ba\<lparr>ba_seq_pos := P, ba_seq_cpl := C, ba_has_cpl := H\<rparr> \<and>
    (\<forall>i<get_n_tokens ba. tok_seq_ids i b \<noteq> None \<and> tok_seq_id0 i b \<noteq> None \<and>
       (\<exists>ps. b_pos b = Some ps \<and> i < length ps)) \<and>
    (\<forall>s. P s = ba_seq_pos ba s \<union> {the (b_pos b) ! i |i. i < get_n_tokens ba \<and> s \<in> set (tok_ids b i)}) \<and>
    (\<forall>s t. C s t \<longleftrightarrow> ba_seq_cpl ba s t \<or>
       (\<exists>i<get_n_tokens ba. Some t = tok_seq_id0 i b \<and> s \<in> set (tl (tok_ids b i)))) \<and>
    (H \<longleftrightarrow> (\<exists>i<get_n_tokens ba. length (tok_ids b i) > 1))"
proof -
  let ?I = "\<lambda>k t. \<exists>P C H. t = ba\<lparr>ba_seq_pos := P, ba_seq_cpl := C, ba_has_cpl := H\<rparr> \<and>
    (\<forall>i<k. tok_seq_ids i b \<noteq> None \<and> tok_seq_id0 i b \<noteq> None \<and> (\<exists>ps. b_pos b = Some ps \<and> i < length ps)) \<and>
    (\<forall>s. P s = ba_seq_pos ba s \<union> {the (b_pos b) ! i |i. i < k \<and> s \<in> set (tok_ids b i)}) \<and>
    (\<forall>s t. C s t \<longleftrightarrow> ba_seq_cpl ba s t \<or> (\<exists>i<k. Some t = tok_seq_id0 i b \<and> s \<in> set (tl (tok_ids b i)))) \<and>
    (H \<longleftrightarrow> (\<exists>i<k. length (tok_ids b i) > 1))"
  show ?thesis
  proof (rule for_upto_partial [where I = ?I, OF assms(1) [unfolded collect_coupled_def]])
    show "?I 0 (ba\<lparr>ba_has_cpl := False\<rparr>)"
      by (intro exI [of _ "ba_seq_pos ba"] exI [of _ "ba_seq_cpl ba"] exI [of _ False]) simp
  next
    fix k s t
    assume "?I k s"
    then obtain P C H where s: "s = ba\<lparr>ba_seq_pos := P, ba_seq_cpl := C, ba_has_cpl := H\<rparr>"
      and r: "\<forall>i<k. tok_seq_ids i b \<noteq> None \<and> tok_seq_id0 i b \<noteq> None \<and> (\<exists>ps. b_pos b = Some ps \<and> i < length ps)"
      and P: "\<forall>s. P s = ba_seq_pos ba s \<union> {the (b_pos b) ! i |i. i < k \<and> s \<in> set (tok_ids b i)}"
      and C: "\<forall>s t. C s t \<longleftrightarrow> ba_seq_cpl ba s t \<or> (\<exists>i<k. Some t = tok_seq_id0 i b \<and> s \<in> set (tl (tok_ids b i)))"
      and H: "H \<longleftrightarrow> (\<exists>i<k. length (tok_ids b i) > 1)" by blast
    assume "do {
         s0 \<leftarrow> tok_seq_id0 k (ba_batch s); ids \<leftarrow> tok_seq_ids k (ba_batch s); ps \<leftarrow> b_pos (ba_batch s);
         p \<leftarrow> at ps k; Some (couple_token s0 p ids s) } = Some t"
    then obtain s0 ids ps where k: "tok_seq_id0 k b = Some s0" "tok_seq_ids k b = Some ids" "b_pos b = Some ps"
        "k < length ps" and t: "t = couple_token s0 (ps ! k) ids s"
      by (auto simp: s b_def split: Option.bind_splits)
    have ids: "tok_ids b k = ids" by (simp add: tok_ids_def k)
    show "?I (Suc k) t"
    proof (intro exI conjI)
      show "t = ba\<lparr>ba_seq_pos := (\<lambda>x. if x \<in> set ids then insert (ps ! k) (P x) else P x),
          ba_seq_cpl := (\<lambda>x y. C x y \<or> y = s0 \<and> x \<in> set (tl ids)), ba_has_cpl := (H \<or> length ids > 1)\<rparr>"
        by (intro llama_batch_allocr.equality) (auto simp: t s couple_token_eq fun_eq_iff)
    qed (use r k ids P C H in \<open>auto simp: less_Suc_eq\<close>)
  qed
qed

lemma count_outputs_spec:
  assumes "count_outputs ba = Some ba'"
  shows "\<exists>ls. b_logits (ba_batch ba) = Some ls \<and> get_n_tokens ba \<le> length ls \<and>
    ba' = ba\<lparr>ba_n_outputs := ba_n_outputs ba + card {i. i < get_n_tokens ba \<and> ls ! i \<noteq> 0}\<rparr>"
proof -
  from assms obtain ls where ls: "b_logits (ba_batch ba) = Some ls"
    and loop: "for_each (\<lambda>i ba. do { x \<leftarrow> at ls i; Some (ba\<lparr>ba_n_outputs := ba_n_outputs ba + (if x \<noteq> 0 then 1 else 0)\<rparr>) })
       [0..<get_n_tokens ba] ba = Some ba'"
    by (auto simp: count_outputs_def split: Option.bind_splits)
  let ?I = "\<lambda>k t. k \<le> length ls \<and> t = ba\<lparr>ba_n_outputs := ba_n_outputs ba + card {i. i < k \<and> ls ! i \<noteq> 0}\<rparr>"
  have "?I (get_n_tokens ba) ba'"
  proof (rule for_upto_partial [where I = ?I, OF loop])
    fix k s t
    assume I: "?I k s" and "do { x \<leftarrow> at ls k; Some (s\<lparr>ba_n_outputs := ba_n_outputs s + (if x \<noteq> 0 then 1 else 0)\<rparr>) } = Some t"
    then have t: "k < length ls" "t = s\<lparr>ba_n_outputs := ba_n_outputs s + (if ls ! k \<noteq> 0 then 1 else 0)\<rparr>"
      by (auto split: Option.bind_splits)
    have "{i. i < Suc k \<and> ls ! i \<noteq> 0} = (if ls ! k \<noteq> 0 then insert k else id) {i. i < k \<and> ls ! i \<noteq> 0}"
      by (auto simp: less_Suc_eq)
    then show "?I (Suc k) t" using I t by simp
  qed simp
  with ls show ?thesis by blast
qed

lemma set_idxs_update:
  "set_idxs (ba\<lparr>ba_seq_set := x, ba_seq_set_map := Mapping.update S l (ba_seq_set_map ba)\<rparr>) T =
   (if T = S then l else set_idxs ba T)"
  by (simp add: set_idxs_def Mapping.lookup_update')

text \<open>The order of the sequence ids and their index.\<close>

lemma seq_idx_fold:
  fixes unq :: "llama_seq_id set"
  shows "\<exists>X. fold (\<lambda>s ba. if int s \<in> unq
         then ba\<lparr>ba_seq_idx := (ba_seq_idx ba)[s := int (length (ba_seq_id_unq ba))],
                 ba_seq_id_unq := ba_seq_id_unq ba @ [int s]\<rparr> else ba) xs ba =
    ba\<lparr>ba_seq_idx := X, ba_seq_id_unq := ba_seq_id_unq ba @ map int (filter (\<lambda>s. int s \<in> unq) xs)\<rparr>"
proof (induction xs arbitrary: ba)
  case Nil
  then show ?case by (intro exI [of _ "ba_seq_idx ba"]) simp
next
  case (Cons a xs)
  from Cons.IH [of "if int a \<in> unq then ba\<lparr>ba_seq_idx := (ba_seq_idx ba)[a := int (length (ba_seq_id_unq ba))],
       ba_seq_id_unq := ba_seq_id_unq ba @ [int a]\<rparr> else ba"]
  show ?case by (auto split: if_splits)
qed

lemma collect_seq_sets_spec:
  assumes "collect_seq_sets ba = Some ba'" and "ba_seq_set ba = []" and "ba_seq_set_map ba = Mapping.empty"
  defines "b \<equiv> ba_batch ba" and "n \<equiv> get_n_tokens ba"
  shows "\<exists>M X. ba' = ba\<lparr>ba_seq_set := map (\<lambda>i. set (tok_ids b i)) [0..<n], ba_seq_set_map := M, ba_seq_idx := X,
      ba_seq_id_unq := ba_seq_id_unq ba @ map int (filter (\<lambda>s. \<exists>i<n. int s \<in> set (tok_ids b i)) [0..<ba_n_seq_max ba])\<rparr> \<and>
    (\<forall>S. set_idxs ba' S = filter (\<lambda>i. set (tok_ids b i) = S) [0..<n])"
proof -
  let ?body = "\<lambda>i (ba, unq). do {
         ids \<leftarrow> tok_seq_ids i (ba_batch ba);
         let cur = set ids;
         let l = (case Mapping.lookup (ba_seq_set_map ba) cur of None \<Rightarrow> [] | Some l \<Rightarrow> l);
         Some (ba\<lparr>ba_seq_set := ba_seq_set ba @ [cur],
                  ba_seq_set_map := Mapping.update cur (l @ [i]) (ba_seq_set_map ba)\<rparr>, unq \<union> cur) }"
  from assms(1) obtain t unq where loop: "for_each ?body [0..<get_n_tokens ba] (ba, {}) = Some (t, unq)"
    and ba': "ba' = fold (\<lambda>s ba. if int s \<in> unq
         then ba\<lparr>ba_seq_idx := (ba_seq_idx ba)[s := int (length (ba_seq_id_unq ba))],
                 ba_seq_id_unq := ba_seq_id_unq ba @ [int s]\<rparr> else ba) [0..<ba_n_seq_max t] t"
    by (auto simp: collect_seq_sets_def split: Option.bind_splits)
  let ?I = "\<lambda>k (t, unq). (\<exists>M. t = ba\<lparr>ba_seq_set := map (\<lambda>i. set (tok_ids b i)) [0..<k], ba_seq_set_map := M\<rparr>) \<and>
      (\<forall>S. set_idxs t S = filter (\<lambda>i. set (tok_ids b i) = S) [0..<k]) \<and> unq = (\<Union>i<k. set (tok_ids b i))"
  have "?I n (t, unq)"
  proof (rule for_upto_partial [where I = ?I, OF loop [folded n_def]])
    show "?I 0 (ba, {})" using assms(2,3) by (auto simp: set_idxs_def intro!: exI [of _ "ba_seq_set_map ba"])
  next
    fix k s s'
    assume I: "?I k s" and step: "?body k s = Some s'"
    obtain t unq where s: "s = (t, unq)" by force
    from I obtain M where t: "t = ba\<lparr>ba_seq_set := map (\<lambda>i. set (tok_ids b i)) [0..<k], ba_seq_set_map := M\<rparr>"
      and idx: "\<forall>S. set_idxs t S = filter (\<lambda>i. set (tok_ids b i) = S) [0..<k]" and unq: "unq = (\<Union>i<k. set (tok_ids b i))"
      by (auto simp: s)
    from t have bt: "ba_batch t = b" by (simp add: b_def)
    from step have s': "s' = (t\<lparr>ba_seq_set := ba_seq_set t @ [set (tok_ids b k)],
                  ba_seq_set_map := Mapping.update (set (tok_ids b k)) (set_idxs t (set (tok_ids b k)) @ [k]) (ba_seq_set_map t)\<rparr>,
                unq \<union> set (tok_ids b k))"
      by (auto simp: s bt tok_ids_def set_idxs_def Let_def split: Option.bind_splits)
    show "?I (Suc k) s'"
    proof -
      have "fst s' = ba\<lparr>ba_seq_set := map (\<lambda>i. set (tok_ids b i)) [0..<Suc k],
          ba_seq_set_map := ba_seq_set_map (fst s')\<rparr>"
        by (simp add: s' t)
      moreover have "\<forall>S. set_idxs (fst s') S = filter (\<lambda>i. set (tok_ids b i) = S) [0..<Suc k]"
        using idx by (simp add: s' set_idxs_update)
      moreover have "snd s' = (\<Union>i<Suc k. set (tok_ids b i))"
        by (simp add: s' unq lessThan_Suc Un_commute)
      ultimately show ?thesis by (cases s') auto
    qed
  qed
  then obtain M where t: "t = ba\<lparr>ba_seq_set := map (\<lambda>i. set (tok_ids b i)) [0..<n], ba_seq_set_map := M\<rparr>"
    and idx: "\<forall>S. set_idxs t S = filter (\<lambda>i. set (tok_ids b i) = S) [0..<n]" and unq: "unq = (\<Union>i<n. set (tok_ids b i))"
    by auto
  obtain X where "ba' = t\<lparr>ba_seq_idx := X,
      ba_seq_id_unq := ba_seq_id_unq t @ map int (filter (\<lambda>s. int s \<in> unq) [0..<ba_n_seq_max t])\<rparr>"
    unfolding ba' using seq_idx_fold by blast
  then have eq: "ba' = ba\<lparr>ba_seq_set := map (\<lambda>i. set (tok_ids b i)) [0..<n], ba_seq_set_map := M, ba_seq_idx := X,
      ba_seq_id_unq := ba_seq_id_unq ba @ map int (filter (\<lambda>s. \<exists>i<n. int s \<in> set (tok_ids b i)) [0..<ba_n_seq_max ba])\<rparr>"
    by (simp add: t unq Bex_def)
  moreover have "set_idxs ba' S = set_idxs t S" for S
    by (subst eq) (simp add: t set_idxs_def)
  ultimately show ?thesis using idx by auto
qed

lemma gen_pos_shape:
  assumes "gen_pos n_seq_max mem b = Some b'"
  shows "\<exists>ps. b' = b\<lparr>b_pos := Some ps\<rparr> \<and> (b_pos b \<noteq> None \<longrightarrow> b_pos b = Some ps) \<and>
    (b_pos b = None \<longrightarrow> length ps = nat (b_n_tokens b))"
proof (cases "b_pos b")
  case (Some ps)
  with assms show ?thesis by (intro exI [of _ ps]) (simp add: gen_pos_def)
next
  case None
  with assms obtain ps p0 where loop: "for_each (gen_pos_step b) [0..<nat (b_n_tokens b)] ([], start_pos n_seq_max mem) = Some (ps, p0)"
    and b': "b' = b\<lparr>b_pos := Some ps\<rparr>"
    by (auto simp: gen_pos_def split: Option.bind_splits)
  have "length (fst (ps, p0)) = nat (b_n_tokens b)"
    by (rule for_upto_partial [where I = "\<lambda>k t. length (fst t) = k", OF loop])
      (auto simp: gen_pos_step_def split: Option.bind_splits)
  with None b' show ?thesis by auto
qed

lemma gen_logits_shape:
  assumes "gen_logits output_all b = Some b'"
  shows "\<exists>ls. b' = b\<lparr>b_logits := Some ls\<rparr>"
proof -
  have "(b' = b \<and> b_logits b \<noteq> None) \<or> (\<exists>ls. b' = b\<lparr>b_logits := Some ls\<rparr>)"
    using assms by (cases "b_logits b") (auto simp: gen_logits_def Let_def split: if_splits)
  moreover have "b = b\<lparr>b_logits := b_logits b\<rparr>" by simp
  ultimately show ?thesis by (metis option.exhaust)
qed

lemma check_split_reset [simp]:
  "check_positions mem (split_reset ba) = check_positions mem ba"
  "check_coupled mem (split_reset ba) = check_coupled mem ba"
  unfolding check_positions_def check_coupled_def ba_seq_pos_min_def ba_seq_pos_max_def
  by (simp_all add: split_reset_def cong: if_cong option.case_cong)

lemma gen_seq_ids_fields:
  "b_n_tokens (gen_seq_ids b) = b_n_tokens b" "b_token (gen_seq_ids b) = b_token b" "b_embd (gen_seq_ids b) = b_embd b"
  "b_pos (gen_seq_ids b) = b_pos b" "b_logits (gen_seq_ids b) = b_logits b"
  "b_seq_id (gen_seq_ids b) = Some (case b_seq_id b of None \<Rightarrow> replicate (nat (b_n_tokens b)) [0] | Some x \<Rightarrow> x)"
  "b_n_seq_id (gen_seq_ids b) = Some (case b_n_seq_id b of None \<Rightarrow> replicate (nat (b_n_tokens b)) 1 | Some x \<Rightarrow> x)"
  by (auto simp: gen_seq_ids_def Let_def split: option.splits)

lemma tok_seq_ids_fields [simp]:
  "tok_seq_ids i (b\<lparr>b_pos := x\<rparr>) = tok_seq_ids i b" "tok_seq_ids i (b\<lparr>b_logits := y\<rparr>) = tok_seq_ids i b"
  "tok_seq_id0 i (b\<lparr>b_pos := x\<rparr>) = tok_seq_id0 i b" "tok_seq_id0 i (b\<lparr>b_logits := y\<rparr>) = tok_seq_id0 i b"
  by (simp_all add: tok_seq_ids_def tok_seq_id0_def)

text \<open>The steps of a successful \<open>init\<close>.\<close>

lemma ba_init_steps:
  assumes "ba_init batch n_vocab mem n_embd n_seq_max output_all ba0 = Some (True, ba)"
  obtains b1 b2 ba1 ba2 ba3 where
    "b_n_tokens batch > 0" "n_seq_max \<le> max_seq" "validate_tokens n_vocab batch = Some True"
    "validate_seq_ids n_seq_max batch = Some True" "gen_pos n_seq_max mem (gen_seq_ids batch) = Some b1"
    "gen_logits output_all b1 = Some b2"
    "count_outputs ((ba_clear ba0)\<lparr>ba_batch := b2, ba_n_embd := n_embd, ba_n_seq_max := n_seq_max\<rparr>) = Some ba1"
    "collect_coupled ba1 = Some ba2" "collect_seq_sets ba2 = Some ba3" "check_positions mem ba3"
    "check_coupled mem ba3" "check_subsets ba3 = Some True" "ba = split_reset ba3"
proof -
  from assms show thesis
    unfolding ba_init_def Let_def
    by (auto split: Option.bind_splits if_splits intro!: that)
qed

text \<open>
  What the caller of \<open>init\<close> provides: embeddings for every token, the positions of every
  component when the batch has embeddings, and at least one sequence per token.
\<close>

definition input_ok :: "llama_batch \<Rightarrow> nat \<Rightarrow> nat \<Rightarrow> bool" where
  "input_ok b n_embd n_pos \<longleftrightarrow>
     (case b_embd b of None \<Rightarrow> True | Some e \<Rightarrow> nat (b_n_tokens b) * n_embd \<le> length e) \<and>
     (b_token b \<noteq> None \<or> n_pos \<le> 1 \<or>
      (case b_pos b of None \<Rightarrow> False | Some ps \<Rightarrow> n_pos * nat (b_n_tokens b) \<le> length ps)) \<and>
     (case b_n_seq_id b of None \<Rightarrow> True | Some ns \<Rightarrow> (\<forall>n\<in>set (take (nat (b_n_tokens b)) ns). 1 \<le> n))"

lemma ba_clear_fields [simp]:
  "ba_n_pos_per_embd (ba_clear ba) = ba_n_pos_per_embd ba" "ba_seq_pos (ba_clear ba) = (\<lambda>_. {})"
  "ba_seq_cpl (ba_clear ba) = (\<lambda>_ _. False)" "ba_seq_set (ba_clear ba) = []" "ba_seq_set_map (ba_clear ba) = Mapping.empty"
  "ba_seq_id_unq (ba_clear ba) = []" "ba_n_outputs (ba_clear ba) = 0"
  by (simp_all add: ba_clear_def)

text \<open>The state after a successful \<open>init\<close>, in terms of the completed batch.\<close>

lemma ba_init_result:
  assumes "ba_init batch n_vocab mem n_embd n_seq_max output_all ba0 = Some (True, ba)"
  defines "b \<equiv> ba_batch ba" and "n \<equiv> nat (b_n_tokens batch)"
  shows "b_n_tokens b = b_n_tokens batch" and "get_n_tokens ba = n" and "0 < n" and "n_seq_max \<le> max_seq"
    and "b_token b = b_token batch" and "b_embd b = b_embd batch"
    and "b_seq_id b = Some (case b_seq_id batch of None \<Rightarrow> replicate n [0] | Some x \<Rightarrow> x)"
    and "b_n_seq_id b = Some (case b_n_seq_id batch of None \<Rightarrow> replicate n 1 | Some x \<Rightarrow> x)"
    and "\<exists>ps. b_pos b = Some ps \<and> n \<le> length ps \<and> (b_pos batch \<noteq> None \<longrightarrow> b_pos batch = Some ps)"
    and "\<exists>ls. b_logits b = Some ls \<and> n \<le> length ls \<and> ba_n_outputs ba = card {i. i < n \<and> ls ! i \<noteq> 0}"
    and "\<forall>i<n. tok_seq_ids i b \<noteq> None"
    and "\<forall>s. ba_seq_pos ba s = {the (b_pos b) ! i |i. i < n \<and> s \<in> set (tok_ids b i)}"
    and "ba_seq_set ba = map (\<lambda>i. set (tok_ids b i)) [0..<n]"
    and "\<forall>S. set_idxs ba S = filter (\<lambda>i. set (tok_ids b i) = S) [0..<n]"
    and "ba_seq_id_unq ba = map int (filter (\<lambda>s. \<exists>i<n. int s \<in> set (tok_ids b i)) [0..<n_seq_max])"
    and "ba_has_cpl ba \<longleftrightarrow> (\<exists>i<n. length (tok_ids b i) > 1)"
    and "ba_n_seq_max ba = n_seq_max" and "ba_n_embd ba = n_embd" and "ba_n_pos_per_embd ba = ba_n_pos_per_embd ba0"
    and "check_positions mem ba" and "check_coupled mem ba"
    and "ba_used ba = replicate n False" and "ba_n_used ba = 0" and "ba_out_ids ba = []"
    and "\<forall>s t. ba_seq_cpl ba s t \<longleftrightarrow> (\<exists>i<n. Some t = tok_seq_id0 i b \<and> s \<in> set (tl (tok_ids b i)))"
proof -
  from assms(1) obtain b1 b2 ba1 ba2 ba3 where st:
    "b_n_tokens batch > 0" "n_seq_max \<le> max_seq" "validate_tokens n_vocab batch = Some True"
    "validate_seq_ids n_seq_max batch = Some True" "gen_pos n_seq_max mem (gen_seq_ids batch) = Some b1"
    "gen_logits output_all b1 = Some b2"
    "count_outputs ((ba_clear ba0)\<lparr>ba_batch := b2, ba_n_embd := n_embd, ba_n_seq_max := n_seq_max\<rparr>) = Some ba1"
    "collect_coupled ba1 = Some ba2" "collect_seq_sets ba2 = Some ba3" "check_positions mem ba3"
    "check_coupled mem ba3" "check_subsets ba3 = Some True" and ba: "ba = split_reset ba3"
    by (rule ba_init_steps)
  obtain ps where ps: "b1 = (gen_seq_ids batch)\<lparr>b_pos := Some ps\<rparr>" "b_pos batch \<noteq> None \<longrightarrow> b_pos batch = Some ps"
      "b_pos batch = None \<longrightarrow> length ps = n"
    using gen_pos_shape [OF st(5)] by (auto simp: gen_seq_ids_fields n_def)
  obtain ls where ls: "b2 = b1\<lparr>b_logits := Some ls\<rparr>" using gen_logits_shape [OF st(6)] by auto
  let ?ba0 = "(ba_clear ba0)\<lparr>ba_batch := b2, ba_n_embd := n_embd, ba_n_seq_max := n_seq_max\<rparr>"
  have n0: "get_n_tokens ?ba0 = n"
    by (simp add: get_n_tokens_def ls ps gen_seq_ids_fields n_def)
  obtain ba1': "ba1 = ?ba0\<lparr>ba_n_outputs := card {i. i < n \<and> ls ! i \<noteq> 0}\<rparr>" and lls: "n \<le> length ls"
    using count_outputs_spec [OF st(7)] n0 by (auto simp: ls)
  have n1: "get_n_tokens ba1 = n" "ba_batch ba1 = b2" using n0 by (auto simp: ba1' get_n_tokens_def)
  obtain P C H where ba2': "ba2 = ba1\<lparr>ba_seq_pos := P, ba_seq_cpl := C, ba_has_cpl := H\<rparr>"
    and r: "\<forall>i<n. tok_seq_ids i b2 \<noteq> None \<and> tok_seq_id0 i b2 \<noteq> None \<and> i < length ps"
    and P: "\<forall>s. P s = {the (b_pos b2) ! i |i. i < n \<and> s \<in> set (tok_ids b2 i)}"
    and C: "\<forall>s t. C s t \<longleftrightarrow> (\<exists>i<n. Some t = tok_seq_id0 i b2 \<and> s \<in> set (tl (tok_ids b2 i)))"
    and H: "H \<longleftrightarrow> (\<exists>i<n. length (tok_ids b2 i) > 1)"
    using collect_coupled_spec [OF st(8)] n1 by (auto simp: ba1' ls ps)
  have n2: "get_n_tokens ba2 = n" "ba_batch ba2 = b2" using n1 by (auto simp: ba2' get_n_tokens_def)
  obtain M X where ba3': "ba3 = ba2\<lparr>ba_seq_set := map (\<lambda>i. set (tok_ids b2 i)) [0..<n], ba_seq_set_map := M, ba_seq_idx := X,
      ba_seq_id_unq := map int (filter (\<lambda>s. \<exists>i<n. int s \<in> set (tok_ids b2 i)) [0..<n_seq_max])\<rparr>"
    and idx: "\<forall>S. set_idxs ba3 S = filter (\<lambda>i. set (tok_ids b2 i) = S) [0..<n]"
    using collect_seq_sets_spec [OF st(9)] n2 by (auto simp: ba2' ba1')
  have n3: "get_n_tokens ba3 = n" "ba_batch ba3 = b2" using n2 by (auto simp: ba3' get_n_tokens_def)
  have b: "b = b2" by (simp add: b_def ba n3)
  note flds = ba ba3' ba2' ba1' split_reset_def
  show "b_n_tokens b = b_n_tokens batch" "b_token b = b_token batch" "b_embd b = b_embd batch"
    "b_seq_id b = Some (case b_seq_id batch of None \<Rightarrow> replicate n [0] | Some x \<Rightarrow> x)"
    "b_n_seq_id b = Some (case b_n_seq_id batch of None \<Rightarrow> replicate n 1 | Some x \<Rightarrow> x)"
    by (simp_all add: b ls ps gen_seq_ids_fields n_def split: option.split)
  show "get_n_tokens ba = n" using n3 by (simp add: ba)
  show "0 < n" "n_seq_max \<le> max_seq" using st by (auto simp: n_def)
  show "\<exists>ps. b_pos b = Some ps \<and> n \<le> length ps \<and> (b_pos batch \<noteq> None \<longrightarrow> b_pos batch = Some ps)"
    using ps r \<open>0 < n\<close> by (auto simp: b ls Suc_le_eq dest: spec [where x = "n - 1"])
  show "\<exists>ls. b_logits b = Some ls \<and> n \<le> length ls \<and> ba_n_outputs ba = card {i. i < n \<and> ls ! i \<noteq> 0}"
    using lls by (simp add: flds b ls)
  show "\<forall>i<n. tok_seq_ids i b \<noteq> None" using r by (auto simp: b)
  show "\<forall>s. ba_seq_pos ba s = {the (b_pos b) ! i |i. i < n \<and> s \<in> set (tok_ids b i)}" using P by (simp add: flds b)
  show "ba_seq_set ba = map (\<lambda>i. set (tok_ids b i)) [0..<n]" by (simp add: flds b)
  show "\<forall>S. set_idxs ba S = filter (\<lambda>i. set (tok_ids b i) = S) [0..<n]"
    using idx by (simp add: ba split_reset_def set_idxs_def b)
  show "ba_seq_id_unq ba = map int (filter (\<lambda>s. \<exists>i<n. int s \<in> set (tok_ids b i)) [0..<n_seq_max])"
    "ba_n_seq_max ba = n_seq_max" "ba_n_embd ba = n_embd" "ba_n_pos_per_embd ba = ba_n_pos_per_embd ba0"
    "ba_n_used ba = 0" "ba_out_ids ba = []"
    by (simp_all add: flds b)
  show "ba_has_cpl ba \<longleftrightarrow> (\<exists>i<n. length (tok_ids b i) > 1)" using H by (simp add: flds b)
  show "\<forall>s t. ba_seq_cpl ba s t \<longleftrightarrow> (\<exists>i<n. Some t = tok_seq_id0 i b \<and> s \<in> set (tl (tok_ids b i)))"
    using C by (simp add: flds b)
  show "check_positions mem ba" "check_coupled mem ba"
    using st by (simp_all add: ba)
  show "ba_used ba = replicate n False" using n3 by (simp add: ba)
qed

lemma tok_seq_ids_nonempty:
  assumes "tok_seq_ids i b = Some ids" and "b_n_seq_id b = Some ns" and "i < length ns \<Longrightarrow> 1 \<le> ns ! i"
  shows "\<exists>s ids'. ids = s # ids'"
proof -
  from assms obtain ss where "i < length ns" "nat (ns ! i) \<le> length ss" "ids = take (nat (ns ! i)) ss"
    by (auto simp: tok_seq_ids_def split: Option.bind_splits if_splits)
  with assms(3) have "ids \<noteq> []" by (cases ss) auto
  then show ?thesis by (simp add: neq_Nil_conv)
qed

lemma init_ready:
  assumes init: "ba_init batch n_vocab mem n_embd n_seq_max output_all ba0 = Some (True, ba)"
    and inp: "input_ok batch n_embd (ba_n_pos_per_embd ba0)"
  shows "batch_wf ba" and "simple_ok ba" and "seq_ok ba" and "equal_ok ba" and "unused ba = {..<nat (b_n_tokens batch)}"
proof -
  note R = ba_init_result [OF init]
  let ?n = "nat (b_n_tokens batch)" and ?b = "ba_batch ba"
  have toks: "?n \<le> length t" if "b_token batch = Some t" for t
  proof -
    have "validate_tokens n_vocab batch = Some True" using init by (rule ba_init_steps)
    with that R(3) have "?n - 1 < length t"
      by (auto simp: validate_tokens_def all_ok_True split: Option.bind_splits dest!: bspec [where x = "?n - 1"])
    with R(3) show ?thesis by simp
  qed
  have ne: "\<exists>s ids. tok_seq_ids i ?b = Some (s # ids)" if "i < ?n" for i
  proof -
    obtain ids where ids: "tok_seq_ids i ?b = Some ids" using R(11) \<open>i < ?n\<close> by blast
    let ?ns = "case b_n_seq_id batch of None \<Rightarrow> replicate ?n 1 | Some x \<Rightarrow> x"
    have "i < length ?ns \<Longrightarrow> 1 \<le> ?ns ! i"
      using inp that by (auto simp: input_ok_def set_conv_nth split: option.splits)
    with tok_seq_ids_nonempty [OF ids R(8)] ids show ?thesis by auto
  qed
  have ns: "?n \<le> length (case b_n_seq_id batch of None \<Rightarrow> replicate ?n 1 | Some x \<Rightarrow> x)"
    using ne [of "?n - 1"] R(3,8) by (auto simp: tok_seq_ids_def split: Option.bind_splits)
  obtain ps where ps: "b_pos ?b = Some ps" "?n \<le> length ps" "b_pos batch \<noteq> None \<longrightarrow> b_pos batch = Some ps"
    using R(9) by blast
  have "b_token ?b = None \<longrightarrow> ba_n_pos_per_embd ba * ?n \<le> length ps"
  proof
    assume "b_token ?b = None"
    then have tn: "b_token batch = None" by (simp add: R(5))
    show "ba_n_pos_per_embd ba * ?n \<le> length ps"
    proof (cases "ba_n_pos_per_embd ba \<le> 1")
      case True
      then show ?thesis using ps(2) by (cases "ba_n_pos_per_embd ba") auto
    next
      case False
      with inp tn ps(3) show ?thesis by (auto simp: input_ok_def R(19) split: option.splits)
    qed
  qed
  moreover obtain ls where "b_logits ?b = Some ls" "?n \<le> length ls" using R(10) by blast
  moreover have "\<forall>e. b_embd ?b = Some e \<longrightarrow> ?n * ba_n_embd ba \<le> length e"
    using inp by (auto simp: input_ok_def R(6,18))
  ultimately show wf: "batch_wf ba"
    using ps toks ne ns by (simp add: batch_wf_def R(2,5,8))
  have used: "length (ba_used ba) = get_n_tokens ba" "\<forall>j<?n. \<not> ba_used ba ! j" by (simp_all add: R(2,22))
  show "simple_ok ba" "seq_ok ba" using wf used by (simp_all add: simple_ok_def seq_ok_def R(2))
  have "filter (\<lambda>i. ba_seq_set ba ! i = S) [0..<?n] = filter (\<lambda>i. set (tok_ids ?b i) = S) [0..<?n]" for S
    by (rule filter_cong) (simp_all add: R(13))
  then show "equal_ok ba" using wf used R(13,14) by (simp add: equal_ok_def R(2))
  show "unused ba = {..<?n}" using R(22) by (auto simp: unused_def)
qed

text \<open>The range of the tokens and sequence ids of an accepted batch.\<close>

lemma tok_ids_range:
  assumes init: "ba_init batch n_vocab mem n_embd n_seq_max output_all ba0 = Some (True, ba)"
    and "0 < n_seq_max" and i: "i < nat (b_n_tokens batch)" and s: "s \<in> set (tok_ids (ba_batch ba) i)"
  shows "0 \<le> s \<and> s < int n_seq_max"
proof -
  note R = ba_init_result [OF init]
  obtain ids where ids: "tok_seq_ids i (ba_batch ba) = Some ids" using R(11) i by blast
  show ?thesis
  proof (cases "b_seq_id batch")
    case None
    then have "set ids \<subseteq> {0}"
      using ids i by (auto simp: tok_seq_ids_def R(7) split: Option.bind_splits if_splits dest!: in_set_takeD)
    with s assms(2) ids show ?thesis by (auto simp: tok_ids_def)
  next
    case (Some ss)
    have "validate_seq_ids n_seq_max batch = Some True" using init by (rule ba_init_steps)
    with Some i obtain ids' where ids': "tok_seq_ids i batch = Some ids'" "\<forall>s\<in>set ids'. 0 \<le> s \<and> s < int n_seq_max"
      by (force simp: validate_seq_ids_def all_ok_True split: Option.bind_splits)
    then have "tok_seq_ids i (ba_batch ba) = Some ids'"
      using Some by (auto simp: tok_seq_ids_def R(7,8) split: Option.bind_splits if_splits)
    with s ids'(2) show ?thesis by (simp add: tok_ids_def)
  qed
qed

lemma interval_of_card:
  fixes S :: "int set"
  assumes "finite S" and "S \<noteq> {}" and "\<not> Max S - Min S + 1 > int (card S)"
  shows "S = {Min S..Max S}"
proof (rule card_subset_eq)
  show "S \<subseteq> {Min S..Max S}" using assms(1) by auto
  have "Min S \<le> Max S" using assms(1,2) by (meson Max_in Min_le)
  with assms(3) have "card {Min S..Max S} \<le> card S" by simp
  moreover have "card S \<le> card {Min S..Max S}" using assms(1) by (intro card_mono) auto
  ultimately show "card S = card {Min S..Max S}" by simp
qed simp

lemma init_contiguous:
  assumes init: "ba_init batch n_vocab mem n_embd n_seq_max output_all ba0 = Some (True, ba)"
    and one: "ba_n_pos_per_embd ba0 \<le> 1" and s: "0 \<le> s" "s < int n_seq_max" and ne: "ba_seq_pos ba s \<noteq> {}"
  shows "ba_seq_pos ba s = {ba_seq_pos_min s ba..ba_seq_pos_max s ba}"
    and "mem = Some m \<Longrightarrow> 0 \<le> mem_seq_pos_max m s \<Longrightarrow> ba_seq_pos_min s ba = mem_seq_pos_max m s + 1"
proof -
  note R = ba_init_result [OF init]
  have fin: "finite (ba_seq_pos ba s)" by (simp add: R(12))
  obtain k where k: "s = int k" "k < n_seq_max" using s by (metis nonneg_int_cases of_nat_less_iff)
  let ?p0 = "case mem of None \<Rightarrow> - 1 | Some m \<Rightarrow> mem_seq_pos_max m s"
  have "(?p0 \<ge> 0 \<longrightarrow> ba_seq_pos_min s ba = ?p0 + 1) \<and>
      \<not> (ba_seq_pos_max s ba - ba_seq_pos_min s ba + 1 > int (card (ba_seq_pos ba s)))"
    using R(20) one ne k unfolding check_positions_def R(17,19) by (auto simp: Let_def)
  then show "ba_seq_pos ba s = {ba_seq_pos_min s ba..ba_seq_pos_max s ba}"
    and "mem = Some m \<Longrightarrow> 0 \<le> mem_seq_pos_max m s \<Longrightarrow> ba_seq_pos_min s ba = mem_seq_pos_max m s + 1"
    using interval_of_card [OF fin ne] ne by (auto simp: ba_seq_pos_min_def ba_seq_pos_max_def)
qed

section \<open>Batches without positions\<close>

text \<open>The statistics never abort on complete arrays.\<close>

lemma count_outputs_total:
  assumes "b_logits (ba_batch ba) = Some ls" and "get_n_tokens ba \<le> length ls"
  shows "\<exists>ba'. count_outputs ba = Some ba'"
proof -
  have "\<exists>t. for_each (\<lambda>i ba. do { x \<leftarrow> at ls i; Some (ba\<lparr>ba_n_outputs := ba_n_outputs ba + (if x \<noteq> 0 then 1 else 0)\<rparr>) })
       [0..<get_n_tokens ba] ba = Some t \<and> True"
    using assms(2) by (intro for_upto_rule [where I = "\<lambda>_ _. True"]) (auto simp: at_def)
  with assms(1) show ?thesis by (auto simp: count_outputs_def)
qed

lemma couple_token_batch [simp]: "ba_batch (couple_token s0 p ids ba) = ba_batch ba"
  by (simp add: couple_token_eq)

lemma collect_coupled_total:
  assumes "b_pos (ba_batch ba) = Some ps" and "get_n_tokens ba \<le> length ps"
    and "\<forall>i<get_n_tokens ba. \<exists>s ids. tok_seq_ids i (ba_batch ba) = Some (s # ids)"
  shows "\<exists>ba'. collect_coupled ba = Some ba'"
proof -
  have "\<exists>t. collect_coupled ba = Some t \<and> ba_batch t = ba_batch ba"
    unfolding collect_coupled_def
  proof (rule for_upto_rule [where I = "\<lambda>_ t. ba_batch t = ba_batch ba"])
    fix i :: nat and t :: llama_batch_allocr
    assume i: "i < get_n_tokens ba" and t: "ba_batch t = ba_batch ba"
    with assms(3) obtain s ids where "tok_seq_ids i (ba_batch t) = Some (s # ids)" by auto
    moreover from tok_seq_id0_of [OF this] have "tok_seq_id0 i (ba_batch t) = Some s" .
    ultimately show "\<exists>t'. do { s0 \<leftarrow> tok_seq_id0 i (ba_batch t); ids \<leftarrow> tok_seq_ids i (ba_batch t);
         ps \<leftarrow> b_pos (ba_batch t); p \<leftarrow> at ps i; Some (couple_token s0 p ids t) } = Some t' \<and> ba_batch t' = ba_batch ba"
      using assms(1,2) i t by (auto simp: at_def)
  qed simp
  then show ?thesis by auto
qed

lemma collect_seq_sets_total:
  assumes "\<forall>i<get_n_tokens ba. tok_seq_ids i (ba_batch ba) \<noteq> None"
  shows "\<exists>ba'. collect_seq_sets ba = Some ba'"
proof -
  have "\<exists>t. for_each (\<lambda>i (ba, unq). do {
         ids \<leftarrow> tok_seq_ids i (ba_batch ba);
         let cur = set ids;
         let l = (case Mapping.lookup (ba_seq_set_map ba) cur of None \<Rightarrow> [] | Some l \<Rightarrow> l);
         Some (ba\<lparr>ba_seq_set := ba_seq_set ba @ [cur],
                  ba_seq_set_map := Mapping.update cur (l @ [i]) (ba_seq_set_map ba)\<rparr>, unq \<union> cur) })
       [0..<get_n_tokens ba] (ba, {}) = Some t \<and> ba_batch (fst t) = ba_batch ba"
  proof (rule for_upto_rule [where I = "\<lambda>_ t. ba_batch (fst t) = ba_batch ba"])
    fix i :: nat and t :: "llama_batch_allocr \<times> seq_set_t"
    assume "i < get_n_tokens ba" and "ba_batch (fst t) = ba_batch ba"
    with assms show "\<exists>t'. (case t of (ba, unq) \<Rightarrow> do {
         ids \<leftarrow> tok_seq_ids i (ba_batch ba);
         let cur = set ids;
         let l = (case Mapping.lookup (ba_seq_set_map ba) cur of None \<Rightarrow> [] | Some l \<Rightarrow> l);
         Some (ba\<lparr>ba_seq_set := ba_seq_set ba @ [cur],
                  ba_seq_set_map := Mapping.update cur (l @ [i]) (ba_seq_set_map ba)\<rparr>, unq \<union> cur) }) = Some t' \<and>
         ba_batch (fst t') = ba_batch ba"
      by (cases t) (auto simp: Let_def)
  qed simp
  then show ?thesis by (auto simp: collect_seq_sets_def)
qed

text \<open>The positions that \<open>init\<close> generates for a batch of the single sequence 0.\<close>

lemma gen_pos_one:
  assumes b: "b_pos b = None" "b_seq_id b = Some (replicate n [0])" "b_n_seq_id b = Some (replicate n 1)" "nat (b_n_tokens b) = n"
    and p: "start_pos n_seq_max mem 0 = Some p" "0 \<le> p" "i32_ok (p + int n)"
  shows "gen_pos n_seq_max mem b = Some (b\<lparr>b_pos := Some (map (\<lambda>i. p + int i) [0..<n])\<rparr>)"
proof -
  have "\<exists>t. for_each (gen_pos_step b) [0..<n] ([], start_pos n_seq_max mem) = Some t \<and>
      fst t = map (\<lambda>i. p + int i) [0..<n] \<and> snd t 0 = Some (p + int n)"
  proof (rule for_upto_rule [where I = "\<lambda>k t. fst t = map (\<lambda>i. p + int i) [0..<k] \<and> snd t 0 = Some (p + int k)"])
    fix i :: nat and t :: "llama_pos list \<times> (llama_seq_id \<Rightarrow> llama_pos option)"
    assume i: "i < n" and I: "fst t = map (\<lambda>i. p + int i) [0..<i] \<and> snd t 0 = Some (p + int i)"
    have "i32_ok (p + int i + 1)" using p i by (auto simp: i32_ok_def)
    moreover have "tok_seq_id0 i b = Some 0" "tok_seq_ids i b = Some [0]"
      using b i by (auto simp: tok_seq_id0_def tok_seq_ids_def at_def)
    ultimately show "\<exists>t'. gen_pos_step b i t = Some t' \<and> fst t' = map (\<lambda>i. p + int i) [0..<Suc i] \<and> snd t' 0 = Some (p + int (Suc i))"
      using I by (cases t) (auto simp: gen_pos_step_def i32_add_def)
  qed (use p in simp)
  then show ?thesis using b by (auto simp: gen_pos_def)
qed

lemma check_subsets_one:
  assumes "get_n_tokens ba = n" and "ba_seq_set ba = replicate n {0}"
    and "b_pos (ba_batch ba) = Some ps" "length ps = n" "\<forall>p\<in>set ps. 0 \<le> p"
    and "\<forall>i<n. tok_seq_ids i (ba_batch ba) = Some [0]"
  shows "check_subsets ba = Some True"
proof -
  let ?f = "\<lambda>i r. case r of None \<Rightarrow> Some None
          | Some cur \<Rightarrow> do {
              ps \<leftarrow> b_pos (ba_batch ba); p \<leftarrow> at ps i; ids \<leftarrow> tok_seq_ids i (ba_batch ba); S \<leftarrow> at (ba_seq_set ba) i;
              Some (check_token_seqs S p (\<lambda>_. - 1) ids cur) }"
  have "\<exists>t. for_each ?f [0..<n] (Some (\<lambda>_. {0..<LLAMA_MAX_SEQ})) = Some t \<and> (\<exists>cur. t = Some cur \<and> 0 \<in> cur 0)"
  proof (rule for_upto_rule [where I = "\<lambda>_ t. \<exists>cur. t = Some cur \<and> 0 \<in> cur 0"])
    fix i t
    assume i: "i < n" and "\<exists>cur. t = Some cur \<and> (0::int) \<in> cur (0::int)"
    moreover have "0 \<le> ps ! i" using assms(4,5) i by (meson nth_mem)
    ultimately show "\<exists>t'. ?f i t = Some t' \<and> (\<exists>cur. t' = Some cur \<and> 0 \<in> cur 0)"
      using assms(1-4,6) i by (auto simp: at_def)
  qed (simp add: LLAMA_MAX_SEQ_def)
  then show ?thesis using assms(1) by (auto simp: check_subsets_def)
qed

lemma no_coupling:
  assumes "\<forall>i<n. T i = [x]" and "\<forall>s t. C s t \<longleftrightarrow> (\<exists>i<n. Some t = Z i \<and> s \<in> set (tl (T i)))"
  shows "\<not> C s t"
  using assms by auto

lemma batch_get_one_init:
  fixes toks :: "llama_token list" and mem :: "llama_memory option"
  assumes n: "toks \<noteq> []" "\<forall>t\<in>set toks. 0 \<le> t \<and> t < int n_vocab" "0 < n_seq_max" "n_seq_max \<le> max_seq"
    and p: "start_pos n_seq_max mem 0 = Some p" "0 \<le> p" "i32_ok (p + int (length toks))"
  shows "\<exists>ba. ba_init (llama_batch_get_one toks (int (length toks))) n_vocab mem n_embd n_seq_max False (batch_allocr_new 1)
      = Some (True, ba) \<and>
    b_pos (ba_batch ba) = Some (map (\<lambda>i. p + int i) [0..<length toks])"
proof -
  let ?n = "length toks" and ?inp = "llama_batch_get_one toks (int (length toks))" and ?new = "batch_allocr_new 1"
  let ?ps = "map (\<lambda>i. p + int i) [0..<?n]" and ?ls = "(replicate ?n 0)[?n - 1 := 1] :: int list"
  let ?bp = "(gen_seq_ids ?inp)\<lparr>b_pos := Some ?ps\<rparr>"
  define b where "b = ?bp\<lparr>b_logits := Some ?ls\<rparr>"
  let ?ba = "(ba_clear ?new)\<lparr>ba_batch := b, ba_n_embd := n_embd, ba_n_seq_max := n_seq_max\<rparr>"
  have b0: "b_n_tokens ?inp = int ?n" "b_token ?inp = Some toks" "b_pos ?inp = None" "b_seq_id ?inp = None" "b_n_seq_id ?inp = None" "b_logits ?inp = None"
    by (simp_all add: llama_batch_get_one_def null_batch_def)
  have vt: "validate_tokens n_vocab ?inp = Some True"
    using n(2) unfolding all_set_conv_all_nth by (force simp: validate_tokens_def b0 all_ok_True at_def)
  have vs: "validate_seq_ids n_seq_max ?inp = Some True" by (simp add: validate_seq_ids_def b0)
  have gp: "gen_pos n_seq_max mem (gen_seq_ids ?inp) = Some ?bp"
    by (rule gen_pos_one [OF _ _ _ _ p]) (simp_all add: gen_seq_ids_fields b0)
  have gl: "gen_logits False ?bp = Some b" by (simp add: gen_logits_def gen_seq_ids_fields b0 Let_def b_def)
  have bf: "b_n_tokens b = int ?n" "b_pos b = Some ?ps" "b_logits b = Some ?ls"
    by (simp_all add: b_def gen_seq_ids_fields b0)
  have nt: "get_n_tokens ?ba = ?n" by (simp add: get_n_tokens_def bf)
  have ids: "\<forall>i<?n. tok_seq_ids i b = Some [0]"
    by (auto simp: b_def tok_seq_ids_def gen_seq_ids_fields b0 at_def)
  obtain ba1 where co: "count_outputs ?ba = Some ba1" using count_outputs_total [of ?ba ?ls] nt bf by auto
  from count_outputs_spec [OF co] obtain k where ba1: "ba1 = ?ba\<lparr>ba_n_outputs := k\<rparr>" by auto
  have nt1: "get_n_tokens ba1 = ?n" "ba_batch ba1 = b" using nt by (simp_all add: ba1 get_n_tokens_def)
  obtain ba2 where cc: "collect_coupled ba1 = Some ba2"
    using collect_coupled_total [of ba1 ?ps] nt1 ids bf by auto
  from collect_coupled_spec [OF cc] nt1 obtain P C H where ba2: "ba2 = ba1\<lparr>ba_seq_pos := P, ba_seq_cpl := C, ba_has_cpl := H\<rparr>"
    and P: "\<forall>s. P s = {?ps ! i |i. i < ?n \<and> s \<in> set (tok_ids b i)}"
    and C: "\<forall>s t. C s t \<longleftrightarrow> (\<exists>i<?n. Some t = tok_seq_id0 i b \<and> s \<in> set (tl (tok_ids b i)))"
    by (auto simp: ba1 bf)
  have nt2: "get_n_tokens ba2 = ?n" "ba_batch ba2 = b" using nt1 by (simp_all add: ba2 get_n_tokens_def)
  obtain ba3 where cs: "collect_seq_sets ba2 = Some ba3" using collect_seq_sets_total [of ba2] nt2 ids by auto
  from collect_seq_sets_spec [OF cs] nt2 obtain M X U where
    ba3: "ba3 = ba2\<lparr>ba_seq_set := map (\<lambda>i. set (tok_ids b i)) [0..<?n], ba_seq_set_map := M, ba_seq_idx := X, ba_seq_id_unq := U\<rparr>"
    by (auto simp: ba2 ba1)
  have tk: "tok_ids b i = [0]" if "i < ?n" for i using ids that by (simp add: tok_ids_def)
  have P': "P s = (if s = 0 then {p..<p + int ?n} else {})" for s
  proof -
    have "{?ps ! i |i. i < ?n} = {p..<p + int ?n}"
    proof safe
      fix x assume "x \<in> {p..<p + int ?n}"
      then show "\<exists>i. x = ?ps ! i \<and> i < ?n" by (intro exI [of _ "nat (x - p)"]) auto
    qed auto
    moreover have "P s = {?ps ! i |i. i < ?n \<and> s = 0}"
      by (simp only: P [rule_format]) (use tk in auto)
    ultimately show ?thesis by auto
  qed
  have "p + 1 \<le> p + int ?n" using n(1) by (cases toks) auto
  then have mm: "Min {p..<p + int ?n} = p" "Max {p..<p + int ?n} = p + int ?n - 1"
    by (auto intro!: Min_eqI Max_eqI)
  have p0: "p = (case mem of None \<Rightarrow> 0 | Some m \<Rightarrow> mem_seq_pos_max m 0 + 1)"
    using p(1) n(3) by (auto simp: start_pos_def split: option.splits)
  have "check_positions mem ba3"
    using n(1) p(2) mm p0 by (auto simp: check_positions_def ba3 ba2 ba1 P' ba_seq_pos_min_def ba_seq_pos_max_def
        batch_allocr_new_def Let_def split: option.splits)
  moreover have "check_coupled mem ba3"
  proof -
    have "\<not> C s t" for s t by (rule no_coupling [OF _ C]) (intro allI impI, erule tk)
    then show ?thesis by (simp add: check_coupled_def ba3 ba2 split: option.splits)
  qed
  moreover have "check_subsets ba3 = Some True"
  proof (rule check_subsets_one [of _ ?n ?ps])
    show "get_n_tokens ba3 = ?n" using nt2 by (simp add: ba3 get_n_tokens_def)
    show "ba_seq_set ba3 = replicate ?n {0}" 
      by (simp add: ba3) (rule nth_equalityI, simp, simp add: tk)
  qed (use ids p(2) nt2 bf in \<open>auto simp: ba3\<close>)
  ultimately have "ba_init ?inp n_vocab mem n_embd n_seq_max False ?new = Some (True, split_reset ba3)"
    using n(1,4) vt vs gp gl co cc cs by (simp add: ba_init_def Let_def b0)
  then show ?thesis by (simp add: ba3 nt2 bf)
qed

section \<open>A concrete batch\<close>

text \<open>Three tokens of the sequences 0 and 1 on top of a memory that holds the positions 0 to 3 of sequence 0.\<close>

definition ex_mem :: llama_memory where
  "ex_mem = \<lparr>mem_seq_pos_min = (\<lambda>s. if s = 0 then 0 else - 1), mem_seq_pos_max = (\<lambda>s. if s = 0 then 3 else - 1)\<rparr>"

definition ex_batch :: llama_batch where
  "ex_batch = null_batch\<lparr>b_n_tokens := 3, b_token := Some [5, 6, 7], b_n_seq_id := Some [1, 1, 1],
     b_seq_id := Some [[0], [0], [1]]\<rparr>"

definition ex_ba :: llama_batch_allocr where
  "ex_ba = snd (the (ba_init ex_batch 10 (Some ex_mem) 4 2 False (batch_allocr_new 1)))"

lemma ex_init: "ba_init ex_batch 10 (Some ex_mem) 4 2 False (batch_allocr_new 1) = Some (True, ex_ba)"
proof -
  have "map_option fst (ba_init ex_batch 10 (Some ex_mem) 4 2 False (batch_allocr_new 1)) = Some True"
    by code_simp
  then show ?thesis by (auto simp: ex_ba_def)
qed

lemma ex_input_ok: "input_ok ex_batch 4 (ba_n_pos_per_embd (batch_allocr_new 1))"
  by code_simp

section \<open>Properties\<close>



text \<open>
  C2: Splitting is complete: after an accepted \<open>init\<close> the loop around any of the three split
  functions ends after at most one round per token and yields non-empty ubatches that hold every
  token of the batch exactly once, with the token's own fields (token id, positions, sequence
  ids, output flag); the output rows are exactly the tokens with a set logits flag.
\<close>

theorem splits_partition_batch:
  assumes init: "ba_init batch n_vocab mem n_embd n_seq_max output_all ba0 = Some (True, ba)"
    and inp: "input_ok batch n_embd (ba_n_pos_per_embd ba0)"
    and split: "split = split_simple n_ubatch \<or> split = split_seq n_ubatch \<or>
      split = split_equal n_ubatch sequential \<and> \<not> (sequential \<and> ba_has_cpl ba)"
  shows "\<exists>idxss ubs ba'. collect_ubatches (Suc (nat (b_n_tokens batch))) split ba = Some (ubs, ba') \<and>
    length idxss = length ubs \<and>
    (\<forall>k<length ubs. ub_n_tokens (ubs ! k) = length (idxss ! k) \<and> idxss ! k \<noteq> [] \<and>
       ubatch_of ba (idxss ! k) (ubs ! k)) \<and>
    distinct (concat idxss) \<and> set (concat idxss) = {..<nat (b_n_tokens batch)} \<and>
    ba_n_used ba' = nat (b_n_tokens batch) \<and>
    set (ba_out_ids ba') = {i. i < nat (b_n_tokens batch) \<and> the (b_logits (ba_batch ba)) ! i \<noteq> 0}"
proof -
  note R = init_ready [OF init inp] and I = ba_init_result [OF init]
  let ?n = "nat (b_n_tokens batch)"
  have c: "card (unused ba) < Suc ?n" by (simp add: R(5))
  have "\<exists>idxss ubs ba'. collect_ubatches (Suc ?n) split ba = Some (ubs, ba') \<and>
    length idxss = length ubs \<and> (\<forall>k<length ubs. ub_n_tokens (ubs ! k) = length (idxss ! k) \<and> idxss ! k \<noteq> [] \<and>
      ubatch_of ba (idxss ! k) (ubs ! k)) \<and>
    distinct (concat idxss) \<and> set (concat idxss) = unused ba \<and> unused ba' = {} \<and>
    ba_n_used ba' = ba_n_used ba + card (unused ba) \<and>
    ba_out_ids ba' = ba_out_ids ba @ outputs_of (ba_batch ba) (concat idxss) \<and> get_n_tokens ba' = get_n_tokens ba"
    using split simple.collect_all [OF R(2) c] seq.collect_all [OF R(3) c]
      equal.collect_all [of sequential ba, OF _ c] R(4)
    by (auto simp: equal_seq_ok_def)
  then show ?thesis
    by (elim exE) (rule exI, rule exI, rule exI, auto simp: R(5) I(23,24) outputs_of_def)
qed

theorem splits_partition_batch_witness:
  "\<exists>idxss ubs ba'. collect_ubatches (Suc (nat (b_n_tokens ex_batch))) (split_equal 2 True) ex_ba = Some (ubs, ba') \<and>
    length idxss = length ubs \<and>
    (\<forall>k<length ubs. ub_n_tokens (ubs ! k) = length (idxss ! k) \<and> idxss ! k \<noteq> [] \<and>
       ubatch_of ex_ba (idxss ! k) (ubs ! k)) \<and>
    distinct (concat idxss) \<and> set (concat idxss) = {..<nat (b_n_tokens ex_batch)} \<and>
    ba_n_used ba' = nat (b_n_tokens ex_batch) \<and>
    set (ba_out_ids ba') = {i. i < nat (b_n_tokens ex_batch) \<and> the (b_logits (ba_batch ex_ba)) ! i \<noteq> 0}"
proof (rule splits_partition_batch [OF ex_init ex_input_ok])
  have "\<not> ba_has_cpl ex_ba" by code_simp
  then show "split_equal 2 True = split_simple 2 \<or> split_equal 2 True = split_seq 2 \<or>
      split_equal 2 True = split_equal 2 True \<and> \<not> (True \<and> ba_has_cpl ex_ba)"
    by simp
qed

text \<open>
  C27: The sizes of ubatches: \<open>split_simple\<close> and \<open>split_seq\<close> take at most \<open>n_ubatch\<close> tokens
  (and at least one), \<open>split_simple\<close> a block of consecutive tokens and \<open>split_seq\<close> tokens in
  increasing order; \<open>split_equal\<close> takes the same number of tokens of every participating
  sequence set and at most one token more than \<open>n_ubatch\<close>.
\<close>

theorem split_sizes:
  assumes "simple_ok ba" and "equal_ok ba" and "1 \<le> n_ubatch" and "unused ba \<noteq> {}"
  shows "\<exists>i1 u1 b1 i2 u2 b2 i3 u3 b3 cur m.
    split_simple n_ubatch ba = Some (u1, b1) \<and> split_result ba i1 u1 b1 \<and> i1 \<noteq> [] \<and> length i1 \<le> n_ubatch \<and>
      (\<exists>e. i1 = [first_unused ba..<e]) \<and>
    split_seq n_ubatch ba = Some (u2, b2) \<and> split_result ba i2 u2 b2 \<and> i2 \<noteq> [] \<and> length i2 \<le> n_ubatch \<and>
      sorted_wrt (<) i2 \<and>
    split_equal n_ubatch False ba = Some (u3, b3) \<and> split_result ba i3 u3 b3 \<and> i3 \<noteq> [] \<and> length i3 \<le> n_ubatch + 1 \<and>
      i3 = concat (map (\<lambda>S. take m (skip_used ba S)) cur) \<and> (\<forall>S\<in>set cur. m \<le> length (skip_used ba S)) \<and> distinct cur \<and>
      ub_n_seqs u3 = length cur"
proof -
  have "seq_ok ba" using assms(1) by (simp add: simple_ok_def seq_ok_def)
  moreover have m1: "max 1 n_ubatch = n_ubatch" using assms(3) by simp
  ultimately show ?thesis
    using split_simple_spec [OF assms(1), of n_ubatch] split_seq_spec [of ba n_ubatch]
      split_equal_spec [OF assms(2), of False n_ubatch] assms(4)
    unfolding m1 by (elim exE) (simp, blast)
qed

theorem split_sizes_witness:
  "\<exists>i1 u1 b1 i2 u2 b2 i3 u3 b3 cur m.
    split_simple 2 ex_ba = Some (u1, b1) \<and> split_result ex_ba i1 u1 b1 \<and> i1 \<noteq> [] \<and> length i1 \<le> 2 \<and>
      (\<exists>e. i1 = [first_unused ex_ba..<e]) \<and>
    split_seq 2 ex_ba = Some (u2, b2) \<and> split_result ex_ba i2 u2 b2 \<and> i2 \<noteq> [] \<and> length i2 \<le> 2 \<and>
      sorted_wrt (<) i2 \<and>
    split_equal 2 False ex_ba = Some (u3, b3) \<and> split_result ex_ba i3 u3 b3 \<and> i3 \<noteq> [] \<and> length i3 \<le> 2 + 1 \<and>
      i3 = concat (map (\<lambda>S. take m (skip_used ex_ba S)) cur) \<and> (\<forall>S\<in>set cur. m \<le> length (skip_used ex_ba S)) \<and> distinct cur \<and>
      ub_n_seqs u3 = length cur"
proof (rule split_sizes)
  show "unused ex_ba \<noteq> {}"
    using init_ready(5) [OF ex_init ex_input_ok] by (simp add: ex_batch_def lessThan_empty_iff)
qed (use init_ready [OF ex_init ex_input_ok] in simp_all)

text \<open>
  C28: Plain token batches (\<open>llama_batch_get_one\<close>) are accepted: \<open>init\<close> neither aborts nor
  rejects them, and the generated positions continue the sequence 0 of the memory without gap.
\<close>

theorem get_one_accepted:
  assumes "toks \<noteq> []" and "\<forall>t\<in>set toks. 0 \<le> t \<and> t < int n_vocab" and "0 < n_seq_max" and "n_seq_max \<le> max_seq"
    and "- 1 \<le> mem_seq_pos_max m 0" and "i32_ok (mem_seq_pos_max m 0 + 1 + int (length toks))"
  shows "\<exists>ba. ba_init (llama_batch_get_one toks (int (length toks))) n_vocab (Some m) n_embd n_seq_max False (batch_allocr_new 1)
      = Some (True, ba) \<and>
    b_pos (ba_batch ba) = Some (map (\<lambda>i. mem_seq_pos_max m 0 + 1 + int i) [0..<length toks])"
proof -
  have "i32_ok (mem_seq_pos_max m 0 + 1)" using assms(5,6) by (auto simp: i32_ok_def)
  then have "start_pos n_seq_max (Some m) 0 = Some (mem_seq_pos_max m 0 + 1)"
    using assms(3) by (simp add: start_pos_def)
  from batch_get_one_init [OF assms(1-4) this _ assms(6)] assms(5) show ?thesis by simp
qed

theorem get_one_accepted_witness:
  "\<exists>ba. ba_init (llama_batch_get_one [5, 6] (int (length [5::int, 6]))) 10 (Some ex_mem) 4 2 False (batch_allocr_new 1)
      = Some (True, ba) \<and>
    b_pos (ba_batch ba) = Some (map (\<lambda>i. mem_seq_pos_max ex_mem 0 + 1 + int i) [0..<length [5::int, 6]])"
  by (rule get_one_accepted) (simp_all add: max_seq_def LLAMA_MAX_SEQ_def ex_mem_def i32_ok_def)


text \<open>
  \<open>split_equal\<close> can return more than \<open>n_ubatch\<close> tokens: the test \<open>cur_seq_set.size() >
  n_ubatch\<close> stops one set too late, and a batch of two sequences with \<open>n_ubatch = 1\<close> gives a
  ubatch of two tokens.
\<close>

theorem split_equal_exceeds_n_ubatch:
  "map_option (ub_n_tokens \<circ> fst) (Option.bind
     (ba_init (null_batch\<lparr>b_n_tokens := 2, b_token := Some [5, 6], b_n_seq_id := Some [1, 1], b_seq_id := Some [[0], [1]]\<rparr>)
        10 None 4 2 False (batch_allocr_new 1))
     (\<lambda>(ok, ba). split_equal 1 False ba)) = Some 2"
  by code_simp

end
