(* ===== verification/KV_Cells.thy ===== *)
theory KV_Cells
  imports Prelude
begin

text \<open>
  The meta data of the KV cells: \<open>class llama_kv_cells\<close> of \<open>src/src/llama-kv-cells.h\<close>.

  A cell has a position (\<open>-1\<close> when it is empty), an extra 2D position, an accumulated
  shift and the set of sequences that occupy it.  Beside these vectors the class keeps two
  redundant indices: \<open>used\<close>, the set of non-empty cells, and \<open>seq_pos\<close>, for each
  sequence an ordered map that counts how often a position occurs.  The queries that the
  rest of the engine relies on (\<open>seq_pos_min\<close>, \<open>seq_pos_max\<close>, \<open>used_max_p1\<close>) read
  the indices only.

  The invariant \<open>kv_cells_inv\<close> says that both indices agree with the vectors; every
  operation keeps it, no \<open>assert\<close> of an operation fails under the operation's documented
  precondition, and the queries return what they promise about the vectors.
\<close>

section \<open>Data\<close>

record llama_kv_cell_ext =
  ext_x :: llama_pos
  ext_y :: llama_pos

definition is_2d_gt :: "llama_kv_cell_ext \<Rightarrow> llama_pos \<Rightarrow> llama_pos \<Rightarrow> bool" where
  "is_2d_gt e ox oy \<longleftrightarrow> ext_y e > oy \<or> (ext_y e = oy \<and> ext_x e > ox)"

definition ext_reset :: llama_kv_cell_ext where
  "ext_reset = \<lparr>ext_x = 0, ext_y = 0\<rparr>"

record llama_kv_cells =
  kc_has_shift :: bool
  kc_used :: "nat set"
  kc_pos :: "llama_pos list"
  kc_ext :: "llama_kv_cell_ext list"
  kc_shift :: "llama_pos list"
  kc_seq :: "llama_seq_id set list"
  kc_seq_pos :: "llama_seq_id \<Rightarrow> (llama_pos, int) mapping"

section \<open>Operations\<close>

text \<open>
  \<open>std::bitset<LLAMA_MAX_SEQ>\<close>: \<open>test\<close>, \<open>set\<close> and \<open>reset\<close> throw
  \<open>std::out_of_range\<close> when the index is not below the size (a negative index converts to a
  huge unsigned one).
\<close>

definition bitset_idx :: "llama_seq_id \<Rightarrow> bool" where
  "bitset_idx s \<longleftrightarrow> 0 \<le> s \<and> s < LLAMA_MAX_SEQ"

definition bitset_test :: "llama_seq_id set \<Rightarrow> llama_seq_id \<Rightarrow> bool option" where
  "bitset_test b s = (if bitset_idx s then Some (s \<in> b) else None)"

definition kv_cells_empty :: llama_kv_cells where
  "kv_cells_empty =
     \<lparr>kc_has_shift = False, kc_used = {}, kc_pos = [], kc_ext = [], kc_shift = [], kc_seq = [],
      kc_seq_pos = (\<lambda>_. Mapping.empty)\<rparr>"

definition kc_reset :: "llama_kv_cells \<Rightarrow> llama_kv_cells" where
  "kc_reset c =
     (let n = length (kc_pos c) in
      c\<lparr>kc_pos := replicate n (- 1), kc_ext := replicate n ext_reset,
        kc_shift := replicate n 0, kc_seq := replicate n {},
        kc_has_shift := False, kc_used := {}, kc_seq_pos := (\<lambda>_. Mapping.empty)\<rparr>)"

definition kc_reset_shift :: "llama_kv_cells \<Rightarrow> llama_kv_cells" where
  "kc_reset_shift c = c\<lparr>kc_has_shift := False, kc_shift := replicate (length (kc_shift c)) 0\<rparr>"

definition kc_size :: "llama_kv_cells \<Rightarrow> nat" where
  "kc_size c = length (kc_pos c)"

text \<open>\<open>std::vector::resize\<close>: truncate, or append default elements.\<close>

definition vec_resize :: "nat \<Rightarrow> 'a \<Rightarrow> 'a list \<Rightarrow> 'a list" where
  "vec_resize n d xs = take n xs @ replicate (n - length xs) d"

definition kc_resize :: "nat \<Rightarrow> llama_kv_cells \<Rightarrow> llama_kv_cells" where
  "kc_resize n c =
     kc_reset (c\<lparr>kc_pos := vec_resize n 0 (kc_pos c), kc_ext := vec_resize n ext_reset (kc_ext c),
                 kc_shift := vec_resize n 0 (kc_shift c), kc_seq := vec_resize n {} (kc_seq c)\<rparr>)"

definition kc_is_empty :: "nat \<Rightarrow> llama_kv_cells \<Rightarrow> bool option" where
  "kc_is_empty i c = do {
     ggml_assert (i < length (kc_pos c));
     ggml_assert ((kc_pos c ! i < 0 \<and> kc_pos c ! i = - 1) \<or> kc_pos c ! i \<ge> 0);
     Some (kc_pos c ! i = - 1) }"

definition kc_get_used :: "llama_kv_cells \<Rightarrow> nat" where
  "kc_get_used c = card (kc_used c)"

definition kc_used_min :: "llama_kv_cells \<Rightarrow> nat" where
  "kc_used_min c = (if kc_used c = {} then 0 else Min (kc_used c))"

definition kc_used_max_p1 :: "llama_kv_cells \<Rightarrow> nat" where
  "kc_used_max_p1 c = (if kc_used c = {} then 0 else Max (kc_used c) + 1)"

subsection \<open>The index of positions per sequence\<close>

definition kc_seq_pos_dec :: "llama_seq_id \<Rightarrow> llama_pos \<Rightarrow> llama_kv_cells \<Rightarrow> llama_kv_cells option" where
  "kc_seq_pos_dec s p c =
     (let m = kc_seq_pos c s in
      case Mapping.lookup m p of
        None \<Rightarrow> None
      | Some k \<Rightarrow>
          Some (c\<lparr>kc_seq_pos := (kc_seq_pos c)
            (s := if k - 1 = 0 then Mapping.delete p m else Mapping.update p (k - 1) m)\<rparr>))"

definition kc_seq_pos_inc :: "llama_seq_id \<Rightarrow> llama_pos \<Rightarrow> llama_kv_cells \<Rightarrow> llama_kv_cells" where
  "kc_seq_pos_inc s p c =
     (let m = kc_seq_pos c s in
      c\<lparr>kc_seq_pos := (kc_seq_pos c)
         (s := Mapping.update p ((case Mapping.lookup m p of None \<Rightarrow> 0 | Some k \<Rightarrow> k) + 1) m)\<rparr>)"

definition all_seq_ids :: "llama_seq_id list" where
  "all_seq_ids = [0..LLAMA_MAX_SEQ - 1]"

definition kc_seq_pos_rm :: "nat \<Rightarrow> llama_kv_cells \<Rightarrow> llama_kv_cells option" where
  "kc_seq_pos_rm i c =
     for_each (\<lambda>s c. if s \<in> kc_seq c ! i then kc_seq_pos_dec s (kc_pos c ! i) c else Some c)
       all_seq_ids c"

definition kc_seq_pos_add :: "nat \<Rightarrow> llama_kv_cells \<Rightarrow> llama_kv_cells" where
  "kc_seq_pos_add i c =
     fold (\<lambda>s c. if s \<in> kc_seq c ! i then kc_seq_pos_inc s (kc_pos c ! i) c else c) all_seq_ids c"

subsection \<open>Save and restore\<close>

definition kc_cp_idxs :: "nat list \<Rightarrow> llama_kv_cells \<Rightarrow> llama_kv_cells option" where
  "kc_cp_idxs idxs c =
     for_each (\<lambda>j res. do {
         let idx = idxs ! j;
         ggml_assert (idx < length (kc_pos c));
         ggml_assert (kc_shift c ! idx = 0);
         Some (res\<lparr>kc_pos := (kc_pos res)[j := kc_pos c ! idx],
                   kc_ext := (kc_ext res)[j := kc_ext c ! idx],
                   kc_seq := (kc_seq res)[j := kc_seq c ! idx]\<rparr>) })
       [0..<length idxs] (kc_resize (length idxs) kv_cells_empty)"

definition kc_cp :: "nat \<Rightarrow> nat \<Rightarrow> llama_kv_cells \<Rightarrow> llama_kv_cells option" where
  "kc_cp i n c = do {
     ggml_assert (i + n \<le> length (kc_pos c));
     for_each (\<lambda>j res. do {
         let idx = i + j;
         ggml_assert (kc_shift c ! idx = 0);
         Some (res\<lparr>kc_pos := (kc_pos res)[j := kc_pos c ! idx],
                   kc_ext := (kc_ext res)[j := kc_ext c ! idx],
                   kc_seq := (kc_seq res)[j := kc_seq c ! idx]\<rparr>) })
       [0..<n] (kc_resize n kv_cells_empty) }"

text \<open>
  One iteration of the loop of \<open>set\<close>: cell \<open>idx\<close> takes the state of cell \<open>j\<close> of \<open>other\<close>.
  \<open>kc_set_used\<close> is its first part, the update of \<open>used\<close> when the cell changes between empty
  and non-empty (\<open>p\<close> is \<open>other.pos[j]\<close>).
\<close>

definition kc_set_used :: "nat \<Rightarrow> llama_pos \<Rightarrow> llama_kv_cells \<Rightarrow> llama_kv_cells" where
  "kc_set_used idx p c =
     (let c = (if kc_pos c ! idx = - 1 \<and> p \<noteq> - 1 then c\<lparr>kc_used := insert idx (kc_used c)\<rparr> else c)
      in if kc_pos c ! idx \<noteq> - 1 \<and> p = - 1 then c\<lparr>kc_used := kc_used c - {idx}\<rparr> else c)"

definition kc_set_cell :: "nat \<Rightarrow> nat \<Rightarrow> llama_kv_cells \<Rightarrow> llama_kv_cells \<Rightarrow> llama_kv_cells option" where
  "kc_set_cell idx j other c = do {
     ggml_assert (idx < length (kc_pos c));
     let c = kc_set_used idx (kc_pos other ! j) c;
     c \<leftarrow> (if kc_pos c ! idx \<noteq> - 1 then kc_seq_pos_rm idx c else Some c);
     let c = c\<lparr>kc_pos := (kc_pos c)[idx := kc_pos other ! j],
               kc_ext := (kc_ext c)[idx := kc_ext other ! j],
               kc_seq := (kc_seq c)[idx := kc_seq other ! j]\<rparr>;
     let c = (if kc_pos c ! idx \<noteq> - 1 then kc_seq_pos_add idx c else c);
     ggml_assert (kc_shift c ! idx = 0);
     Some c }"

definition kc_set :: "nat \<Rightarrow> llama_kv_cells \<Rightarrow> llama_kv_cells \<Rightarrow> llama_kv_cells option" where
  "kc_set i other c = do {
     ggml_assert (i + length (kc_pos other) \<le> length (kc_pos c));
     for_each (\<lambda>j c. kc_set_cell (i + j) j other c) [0..<length (kc_pos other)] c }"

definition kc_set_idxs :: "nat list \<Rightarrow> llama_kv_cells \<Rightarrow> llama_kv_cells \<Rightarrow> llama_kv_cells option" where
  "kc_set_idxs idxs other c = do {
     ggml_assert (length idxs = length (kc_pos other));
     for_each (\<lambda>j c. kc_set_cell (idxs ! j) j other c) [0..<length (kc_pos other)] c }"

subsection \<open>Updates of one cell\<close>

definition kc_rm :: "nat \<Rightarrow> llama_kv_cells \<Rightarrow> llama_kv_cells option" where
  "kc_rm i c = do {
     ggml_assert (i < length (kc_pos c));
     ggml_assert (kc_pos c ! i \<noteq> - 1);
     c \<leftarrow> kc_seq_pos_rm i c;
     Some (c\<lparr>kc_seq := (kc_seq c)[i := {}], kc_pos := (kc_pos c)[i := - 1],
             kc_ext := (kc_ext c)[i := ext_reset], kc_shift := (kc_shift c)[i := 0],
             kc_used := kc_used c - {i}\<rparr>) }"

definition kc_seq_rm :: "nat \<Rightarrow> llama_seq_id \<Rightarrow> llama_kv_cells \<Rightarrow> (bool \<times> llama_kv_cells) option" where
  "kc_seq_rm i s c = do {
     ggml_assert (i < length (kc_pos c));
     has \<leftarrow> bitset_test (kc_seq c ! i) s;
     ggml_assert has;
     ggml_assert (kc_pos c ! i \<noteq> - 1);
     ggml_assert (s \<ge> 0);
     let c = c\<lparr>kc_seq := (kc_seq c)[i := kc_seq c ! i - {s}]\<rparr>;
     c \<leftarrow> kc_seq_pos_dec s (kc_pos c ! i) c;
     if kc_seq c ! i = {} then
       Some (True, c\<lparr>kc_pos := (kc_pos c)[i := - 1], kc_ext := (kc_ext c)[i := ext_reset],
                     kc_shift := (kc_shift c)[i := 0], kc_used := kc_used c - {i}\<rparr>)
     else Some (False, c) }"

definition kc_seq_keep :: "nat \<Rightarrow> llama_seq_id \<Rightarrow> llama_kv_cells \<Rightarrow> (bool \<times> llama_kv_cells) option" where
  "kc_seq_keep i s c = do {
     ggml_assert (i < length (kc_pos c));
     has \<leftarrow> bitset_test (kc_seq c ! i) s;
     if has then do {
       c \<leftarrow> kc_seq_pos_rm i c;
       let c = c\<lparr>kc_seq := (kc_seq c)[i := {}]\<rparr>;
       let c = c\<lparr>kc_seq := (kc_seq c)[i := insert s (kc_seq c ! i)]\<rparr>;
       Some (False, kc_seq_pos_inc s (kc_pos c ! i) c) }
     else if kc_seq c ! i \<noteq> {} then do {
       c \<leftarrow> kc_seq_pos_rm i c;
       Some (True, c\<lparr>kc_seq := (kc_seq c)[i := {}], kc_pos := (kc_pos c)[i := - 1],
                     kc_ext := (kc_ext c)[i := ext_reset], kc_shift := (kc_shift c)[i := 0],
                     kc_used := kc_used c - {i}\<rparr>) }
     else do {
       ggml_assert (kc_pos c ! i = - 1);
       Some (False, c) } }"

definition kc_seq_count :: "nat \<Rightarrow> llama_kv_cells \<Rightarrow> nat option" where
  "kc_seq_count i c = do {
     ggml_assert (i < length (kc_pos c));
     ggml_assert (kc_pos c ! i \<noteq> - 1);
     Some (card (kc_seq c ! i)) }"

definition kc_seq_has :: "nat \<Rightarrow> llama_seq_id \<Rightarrow> llama_kv_cells \<Rightarrow> bool option" where
  "kc_seq_has i s c = do {
     ggml_assert (i < length (kc_pos c));
     ggml_assert (s \<ge> 0);
     bitset_test (kc_seq c ! i) s }"

definition kc_seq_add :: "nat \<Rightarrow> llama_seq_id \<Rightarrow> llama_kv_cells \<Rightarrow> llama_kv_cells option" where
  "kc_seq_add i s c = do {
     ggml_assert (i < length (kc_pos c));
     ggml_assert (kc_pos c ! i \<noteq> - 1);
     has \<leftarrow> bitset_test (kc_seq c ! i) s;
     ggml_assert (\<not> has);
     let c = c\<lparr>kc_seq := (kc_seq c)[i := insert s (kc_seq c ! i)]\<rparr>;
     Some (kc_seq_pos_inc s (kc_pos c ! i) c) }"

definition kc_seq_get :: "nat \<Rightarrow> llama_kv_cells \<Rightarrow> llama_seq_id option" where
  "kc_seq_get i c = do {
     ggml_assert (i < length (kc_seq c));
     ggml_assert (card (kc_seq c ! i) = 1);
     Some (case List.find (\<lambda>s. s \<in> kc_seq c ! i) all_seq_ids of None \<Rightarrow> - 1 | Some s \<Rightarrow> s) }"

definition kc_seq_pos_min :: "llama_seq_id \<Rightarrow> llama_kv_cells \<Rightarrow> llama_pos option" where
  "kc_seq_pos_min s c = do {
     ggml_assert (s \<ge> 0);
     ggml_assert (s < LLAMA_MAX_SEQ);
     let m = kc_seq_pos c s;
     if Mapping.keys m = {} then Some (- 1)
     else do {
       let p = Min (Mapping.keys m);
       k \<leftarrow> Mapping.lookup m p;
       ggml_assert (k > 0);
       Some p } }"

definition kc_seq_pos_max :: "llama_seq_id \<Rightarrow> llama_kv_cells \<Rightarrow> llama_pos option" where
  "kc_seq_pos_max s c = do {
     ggml_assert (s \<ge> 0);
     ggml_assert (s < LLAMA_MAX_SEQ);
     let m = kc_seq_pos c s;
     if Mapping.keys m = {} then Some (- 1)
     else do {
       let p = Max (Mapping.keys m);
       k \<leftarrow> Mapping.lookup m p;
       ggml_assert (k > 0);
       Some p } }"

definition kc_pos_get :: "nat \<Rightarrow> llama_kv_cells \<Rightarrow> llama_pos option" where
  "kc_pos_get i c = do {
     ggml_assert (i < length (kc_pos c));
     ggml_assert (kc_pos c ! i \<noteq> - 1);
     Some (kc_pos c ! i) }"

definition kc_ext_get :: "nat \<Rightarrow> llama_kv_cells \<Rightarrow> llama_kv_cell_ext option" where
  "kc_ext_get i c = do {
     ggml_assert (i < length (kc_pos c));
     ggml_assert (kc_pos c ! i \<noteq> - 1);
     Some (kc_ext c ! i) }"

definition kc_get_shift :: "nat \<Rightarrow> llama_kv_cells \<Rightarrow> llama_pos option" where
  "kc_get_shift i c = do {
     ggml_assert (i < length (kc_pos c));
     ggml_assert (kc_pos c ! i \<noteq> - 1);
     Some (kc_shift c ! i) }"

definition kc_pos_in :: "nat \<Rightarrow> llama_pos \<Rightarrow> llama_pos \<Rightarrow> llama_kv_cells \<Rightarrow> bool option" where
  "kc_pos_in i p0 p1 c = do {
     ggml_assert (i < length (kc_pos c));
     Some (kc_pos c ! i \<ge> p0 \<and> kc_pos c ! i < p1) }"

definition kc_pos_set :: "nat \<Rightarrow> llama_pos \<Rightarrow> llama_kv_cells \<Rightarrow> llama_kv_cells option" where
  "kc_pos_set i p c = do {
     ggml_assert (i < length (kc_pos c));
     ggml_assert (kc_pos c ! i = - 1);
     ggml_assert (kc_seq c ! i = {});
     Some (c\<lparr>kc_pos := (kc_pos c)[i := p], kc_used := insert i (kc_used c)\<rparr>) }"

definition kc_ext_set :: "nat \<Rightarrow> llama_kv_cell_ext \<Rightarrow> llama_kv_cells \<Rightarrow> llama_kv_cells option" where
  "kc_ext_set i e c = do {
     ggml_assert (i < length (kc_ext c));
     Some (c\<lparr>kc_ext := (kc_ext c)[i := e]\<rparr>) }"

definition kc_pos_add :: "nat \<Rightarrow> llama_pos \<Rightarrow> llama_kv_cells \<Rightarrow> (bool \<times> llama_kv_cells) option" where
  "kc_pos_add i d c = do {
     ggml_assert (i < length (kc_pos c));
     ggml_assert (kc_pos c ! i \<noteq> - 1);
     c \<leftarrow> kc_seq_pos_rm i c;
     p \<leftarrow> i32_add (kc_pos c ! i) d;
     sh \<leftarrow> i32_add (kc_shift c ! i) d;
     let c = c\<lparr>kc_pos := (kc_pos c)[i := p], kc_shift := (kc_shift c)[i := sh],
               kc_has_shift := True\<rparr>;
     if kc_pos c ! i < 0 then
       Some (True, c\<lparr>kc_seq := (kc_seq c)[i := {}], kc_pos := (kc_pos c)[i := - 1],
                     kc_shift := (kc_shift c)[i := 0], kc_used := kc_used c - {i}\<rparr>)
     else Some (False, kc_seq_pos_add i c) }"

definition kc_pos_div :: "nat \<Rightarrow> int \<Rightarrow> llama_kv_cells \<Rightarrow> llama_kv_cells option" where
  "kc_pos_div i d c = do {
     ggml_assert (i < length (kc_pos c));
     ggml_assert (kc_pos c ! i \<noteq> - 1);
     let p_old = kc_pos c ! i;
     c \<leftarrow> kc_seq_pos_rm i c;
     p \<leftarrow> i32_div (kc_pos c ! i) d;
     let c = c\<lparr>kc_pos := (kc_pos c)[i := p]\<rparr>;
     df \<leftarrow> i32_sub p_old (kc_pos c ! i);
     sh \<leftarrow> i32_add (kc_shift c ! i) df;
     let c = c\<lparr>kc_shift := (kc_shift c)[i := sh]\<rparr>;
     let c = kc_seq_pos_add i c;
     Some (c\<lparr>kc_has_shift := True\<rparr>) }"

section \<open>Abstract cells and the invariant\<close>

text \<open>
  The abstract state is the list of cells, without the two indices.
\<close>

record cell =
  cl_pos :: llama_pos
  cl_ext :: llama_kv_cell_ext
  cl_shift :: llama_pos
  cl_seq :: "llama_seq_id set"

definition cells_of :: "llama_kv_cells \<Rightarrow> cell list" where
  "cells_of c =
     map (\<lambda>i. \<lparr>cl_pos = kc_pos c ! i, cl_ext = kc_ext c ! i, cl_shift = kc_shift c ! i,
               cl_seq = kc_seq c ! i\<rparr>) [0..<length (kc_pos c)]"

definition empty_cell :: cell where
  "empty_cell = \<lparr>cl_pos = - 1, cl_ext = ext_reset, cl_shift = 0, cl_seq = {}\<rparr>"

definition cell_wf :: "cell \<Rightarrow> bool" where
  "cell_wf x \<longleftrightarrow> - 1 \<le> cl_pos x \<and> i32_ok (cl_pos x) \<and> (cl_pos x = - 1 \<longrightarrow> cl_seq x = {}) \<and>
     cl_seq x \<subseteq> {0..<LLAMA_MAX_SEQ}"

text \<open>How often position \<open>p\<close> of sequence \<open>s\<close> occurs in a list of cells.\<close>

definition occ :: "cell \<Rightarrow> llama_seq_id \<Rightarrow> llama_pos \<Rightarrow> int" where
  "occ x s p = (if s \<in> cl_seq x \<and> cl_pos x = p then 1 else 0)"

definition count_pos :: "cell list \<Rightarrow> llama_seq_id \<Rightarrow> llama_pos \<Rightarrow> int" where
  "count_pos xs s p = sum_list (map (\<lambda>x. occ x s p) xs)"

definition seq_pos_rep :: "(llama_seq_id \<Rightarrow> (llama_pos, int) mapping) \<Rightarrow> (llama_seq_id \<Rightarrow> llama_pos \<Rightarrow> int) \<Rightarrow> bool" where
  "seq_pos_rep sp f \<longleftrightarrow>
     (\<forall>s\<in>{0..<LLAMA_MAX_SEQ}. \<forall>p. 0 \<le> f s p \<and>
        Mapping.lookup (sp s) p = (if f s p = 0 then None else Some (f s p)))"

definition lengths_ok :: "llama_kv_cells \<Rightarrow> bool" where
  "lengths_ok c \<longleftrightarrow> length (kc_ext c) = length (kc_pos c) \<and> length (kc_shift c) = length (kc_pos c) \<and>
     length (kc_seq c) = length (kc_pos c)"

definition kv_cells_inv :: "llama_kv_cells \<Rightarrow> bool" where
  "kv_cells_inv c \<longleftrightarrow> lengths_ok c \<and>
     kc_used c = {i. i < length (kc_pos c) \<and> kc_pos c ! i \<noteq> - 1} \<and>
     (\<forall>x\<in>set (cells_of c). cell_wf x) \<and>
     seq_pos_rep (kc_seq_pos c) (count_pos (cells_of c))"

section \<open>Counting\<close>

lemma length_cells_of [simp]: "length (cells_of c) = length (kc_pos c)"
  by (simp add: cells_of_def)

lemma nth_cells_of:
  "i < length (kc_pos c) \<Longrightarrow>
   cells_of c ! i = \<lparr>cl_pos = kc_pos c ! i, cl_ext = kc_ext c ! i, cl_shift = kc_shift c ! i, cl_seq = kc_seq c ! i\<rparr>"
  by (simp add: cells_of_def)

lemma cell_fields [simp]:
  assumes "i < length (kc_pos c)"
  shows "cl_pos (cells_of c ! i) = kc_pos c ! i" and "cl_ext (cells_of c ! i) = kc_ext c ! i"
    and "cl_shift (cells_of c ! i) = kc_shift c ! i" and "cl_seq (cells_of c ! i) = kc_seq c ! i"
    and "cells_of c ! i \<in> set (cells_of c)"
  using assms by (simp_all add: nth_cells_of) (metis length_cells_of nth_cells_of nth_mem)

lemma occ_nonneg [simp]: "0 \<le> occ x s p"
  by (simp add: occ_def)

lemma count_pos_simps [simp]:
  "count_pos [] s p = 0" "count_pos (x # xs) s p = occ x s p + count_pos xs s p"
  by (simp_all add: count_pos_def)

lemma count_pos_nonneg [simp]: "0 \<le> count_pos xs s p"
  by (induction xs) auto

lemma occ_le_count_pos: "x \<in> set xs \<Longrightarrow> occ x s p \<le> count_pos xs s p"
  by (induction xs) (auto simp: add_increasing)

lemma count_pos_zero_iff: "count_pos xs s p = 0 \<longleftrightarrow> (\<forall>x\<in>set xs. \<not> (s \<in> cl_seq x \<and> cl_pos x = p))"
  by (induction xs) (auto simp: add_nonneg_eq_0_iff occ_def)

lemma count_pos_update:
  "i < length xs \<Longrightarrow> count_pos (xs[i := x]) s p = count_pos xs s p - occ (xs ! i) s p + occ x s p"
  by (induction xs arbitrary: i) (auto simp: nth_Cons' split: nat.split)

section \<open>The index of positions\<close>

lemma lookup_delete': "Mapping.lookup (Mapping.delete k m) k' = (if k = k' then None else Mapping.lookup m k')"
  by simp

lemma seq_pos_rep_dec:
  assumes "seq_pos_rep (kc_seq_pos c) f" and "bitset_idx s" and "1 \<le> f s p"
  shows "\<exists>sp. kc_seq_pos_dec s p c = Some (c\<lparr>kc_seq_pos := sp\<rparr>) \<and>
           seq_pos_rep sp (f(s := (f s)(p := f s p - 1)))"
proof -
  have "Mapping.lookup (kc_seq_pos c s) p = Some (f s p)"
    using assms by (auto simp: seq_pos_rep_def bitset_idx_def)
  with assms show ?thesis
    by (auto simp: kc_seq_pos_dec_def Let_def seq_pos_rep_def lookup_update' lookup_delete')
qed

lemma seq_pos_rep_inc:
  assumes "seq_pos_rep (kc_seq_pos c) f" and "bitset_idx s"
  shows "\<exists>sp. kc_seq_pos_inc s p c = c\<lparr>kc_seq_pos := sp\<rparr> \<and>
           seq_pos_rep sp (f(s := (f s)(p := f s p + 1)))"
proof -
  have "0 \<le> f s p" and "Mapping.lookup (kc_seq_pos c s) p = (if f s p = 0 then None else Some (f s p))"
    using assms by (auto simp: seq_pos_rep_def bitset_idx_def)
  with assms show ?thesis
    by (auto simp: kc_seq_pos_inc_def Let_def seq_pos_rep_def lookup_update')
qed

lemma set_all_seq_ids: "set all_seq_ids = {0..<LLAMA_MAX_SEQ}" and distinct_all_seq_ids: "distinct all_seq_ids"
  by (auto simp: all_seq_ids_def)

lemma all_seq_ids_split:
  assumes "all_seq_ids = ys @ s # zs"
  shows "s \<notin> set ys" and "bitset_idx s"
proof -
  have "distinct (ys @ s # zs)" and "set (ys @ s # zs) = {0..<LLAMA_MAX_SEQ}"
    using assms set_all_seq_ids distinct_all_seq_ids by simp_all
  then show "s \<notin> set ys" and "bitset_idx s" by (auto simp: bitset_idx_def)
qed

lemma seq_pos_rep_cong:
  "seq_pos_rep sp f \<Longrightarrow> (\<And>s p. bitset_idx s \<Longrightarrow> f s p = g s p) \<Longrightarrow> seq_pos_rep sp g"
  by (auto simp: seq_pos_rep_def bitset_idx_def)

text \<open>\<open>seq_pos_rm(i)\<close> takes the occurrences of cell \<open>i\<close> out of the index; no \<open>assert\<close> fails.\<close>

lemma kc_seq_pos_rm_rep:
  assumes rep: "seq_pos_rep (kc_seq_pos c) f"
    and x: "cl_seq x = kc_seq c ! i" "cl_pos x = kc_pos c ! i"
    and pos: "\<And>s. s \<in> kc_seq c ! i \<Longrightarrow> bitset_idx s \<Longrightarrow> 1 \<le> f s (kc_pos c ! i)"
  shows "\<exists>sp. kc_seq_pos_rm i c = Some (c\<lparr>kc_seq_pos := sp\<rparr>) \<and> seq_pos_rep sp (\<lambda>s p. f s p - occ x s p)"
proof -
  let ?g = "\<lambda>ys s p. f s p - (if s \<in> set ys then occ x s p else 0)"
  let ?I = "\<lambda>ys t. \<exists>sp. t = c\<lparr>kc_seq_pos := sp\<rparr> \<and> seq_pos_rep sp (?g ys)"
  have "\<exists>t. kc_seq_pos_rm i c = Some t \<and> ?I all_seq_ids t"
    unfolding kc_seq_pos_rm_def
  proof (rule for_each_rule)
    show "?I [] c"
      using rep by (intro exI [of _ "kc_seq_pos c"]) simp
  next
    fix ys s zs t
    assume split: "all_seq_ids = ys @ s # zs" and "?I ys t"
    then obtain sp where t: "t = c\<lparr>kc_seq_pos := sp\<rparr>" and sp: "seq_pos_rep sp (?g ys)" by auto
    have s: "s \<notin> set ys" "bitset_idx s"
      using all_seq_ids_split [OF split] by auto
    show "\<exists>t'. (if s \<in> kc_seq t ! i then kc_seq_pos_dec s (kc_pos t ! i) t else Some t) = Some t' \<and> ?I (ys @ [s]) t'"
    proof (cases "s \<in> kc_seq c ! i")
      case True
      with s pos have "1 \<le> ?g ys s (kc_pos c ! i)" by auto
      with seq_pos_rep_dec [of t "?g ys" s "kc_pos c ! i"] sp s t obtain sp' where
        "kc_seq_pos_dec s (kc_pos c ! i) t = Some (c\<lparr>kc_seq_pos := sp'\<rparr>)" and
        r: "seq_pos_rep sp' ((?g ys)(s := (?g ys s)(kc_pos c ! i := ?g ys s (kc_pos c ! i) - 1)))"
        by auto
      moreover have "seq_pos_rep sp' (?g (ys @ [s]))"
        using s True by (intro seq_pos_rep_cong [OF r]) (auto simp: occ_def x)
      ultimately show ?thesis using True t by auto
    next
      case False
      then have "seq_pos_rep sp (?g (ys @ [s]))"
        by (intro seq_pos_rep_cong [OF sp]) (auto simp: occ_def x)
      with False t show ?thesis by auto
    qed
  qed
  moreover have "seq_pos_rep sp (\<lambda>s p. f s p - occ x s p)" if "seq_pos_rep sp (?g all_seq_ids)" for sp
    using that by (rule seq_pos_rep_cong) (auto simp: set_all_seq_ids bitset_idx_def)
  ultimately show ?thesis by auto
qed

lemma kc_seq_pos_add_rep:
  assumes rep: "seq_pos_rep (kc_seq_pos c) f"
    and x: "cl_seq x = kc_seq c ! i" "cl_pos x = kc_pos c ! i"
  shows "\<exists>sp. kc_seq_pos_add i c = c\<lparr>kc_seq_pos := sp\<rparr> \<and> seq_pos_rep sp (\<lambda>s p. f s p + occ x s p)"
proof -
  let ?g = "\<lambda>ys s p. f s p + (if s \<in> set ys then occ x s p else 0)"
  let ?I = "\<lambda>ys t. \<exists>sp. t = c\<lparr>kc_seq_pos := sp\<rparr> \<and> seq_pos_rep sp (?g ys)"
  let ?h = "\<lambda>s c. if s \<in> kc_seq c ! i then kc_seq_pos_inc s (kc_pos c ! i) c else c"
  have "\<exists>t. for_each (\<lambda>s c. Some (?h s c)) all_seq_ids c = Some t \<and> ?I all_seq_ids t"
  proof (rule for_each_rule)
    show "?I [] c"
      using rep by (intro exI [of _ "kc_seq_pos c"]) simp
  next
    fix ys s zs t
    assume split: "all_seq_ids = ys @ s # zs" and "?I ys t"
    then obtain sp where t: "t = c\<lparr>kc_seq_pos := sp\<rparr>" and sp: "seq_pos_rep sp (?g ys)" by auto
    have s: "s \<notin> set ys" "bitset_idx s"
      using all_seq_ids_split [OF split] by auto
    show "\<exists>t'. Some (?h s t) = Some t' \<and> ?I (ys @ [s]) t'"
    proof (cases "s \<in> kc_seq c ! i")
      case True
      with seq_pos_rep_inc [of t "?g ys" s "kc_pos c ! i"] sp s t obtain sp' where
        "kc_seq_pos_inc s (kc_pos c ! i) t = c\<lparr>kc_seq_pos := sp'\<rparr>" and
        r: "seq_pos_rep sp' ((?g ys)(s := (?g ys s)(kc_pos c ! i := ?g ys s (kc_pos c ! i) + 1)))"
        by auto
      moreover have "seq_pos_rep sp' (?g (ys @ [s]))"
        using s True by (intro seq_pos_rep_cong [OF r]) (auto simp: occ_def x)
      ultimately show ?thesis using True t by auto
    next
      case False
      then have "seq_pos_rep sp (?g (ys @ [s]))"
        by (intro seq_pos_rep_cong [OF sp]) (auto simp: occ_def x)
      with False t show ?thesis by auto
    qed
  qed
  moreover have "seq_pos_rep sp (\<lambda>s p. f s p + occ x s p)" if "seq_pos_rep sp (?g all_seq_ids)" for sp
    using that by (rule seq_pos_rep_cong) (auto simp: set_all_seq_ids bitset_idx_def)
  ultimately show ?thesis
    unfolding kc_seq_pos_add_def for_each_total by auto
qed

section \<open>Operations keep the invariant\<close>

text \<open>
  The shared argument: an operation that replaces one cell and adjusts the two indices by
  the difference between the old and the new cell keeps the invariant.
\<close>

lemma kv_cells_inv_update:
  assumes inv: "kv_cells_inv c" and i: "i < length (kc_pos c)"
    and len: "lengths_ok c'"
    and cells: "cells_of c' = (cells_of c)[i := x]"
    and wf: "cell_wf x"
    and used: "kc_used c' = (if cl_pos x = - 1 then kc_used c - {i} else insert i (kc_used c))"
    and rep: "seq_pos_rep (kc_seq_pos c') (\<lambda>s p. count_pos (cells_of c) s p - occ (cells_of c ! i) s p + occ x s p)"
  shows "kv_cells_inv c'"
proof -
  have n: "length (kc_pos c') = length (kc_pos c)"
    using cells by (metis length_cells_of length_list_update)
  have p: "kc_pos c' ! j = (if j = i then cl_pos x else kc_pos c ! j)" if "j < length (kc_pos c)" for j
  proof -
    have "cl_pos (cells_of c' ! j) = cl_pos ((cells_of c)[i := x] ! j)" by (simp add: cells)
    with that n i show ?thesis by (auto simp: nth_list_update split: if_splits)
  qed
  have "kc_used c' = {j. j < length (kc_pos c') \<and> kc_pos c' ! j \<noteq> - 1}"
    using inv i by (auto simp: used n p kv_cells_inv_def split: if_splits)
  moreover have "\<forall>y\<in>set (cells_of c'). cell_wf y"
    using inv wf by (auto simp: cells kv_cells_inv_def dest: set_update_subset_insert [THEN subsetD])
  moreover have "seq_pos_rep (kc_seq_pos c') (count_pos (cells_of c'))"
    using i by (intro seq_pos_rep_cong [OF rep]) (simp add: cells count_pos_update)
  ultimately show ?thesis using len by (simp add: kv_cells_inv_def)
qed

lemma cells_of_update:
  assumes "lengths_ok c" and "i < length (kc_pos c)"
    and "kc_pos c' = (kc_pos c)[i := cl_pos x]" and "kc_ext c' = (kc_ext c)[i := cl_ext x]"
    and "kc_shift c' = (kc_shift c)[i := cl_shift x]" and "kc_seq c' = (kc_seq c)[i := cl_seq x]"
  shows "cells_of c' = (cells_of c)[i := x]" and "lengths_ok c'"
  using assms by (auto simp: lengths_ok_def nth_list_update nth_cells_of intro!: nth_equalityI)

lemma inv_seq_pos_rm:
  assumes "kv_cells_inv c" and "i < length (kc_pos c)"
  shows "\<exists>sp. kc_seq_pos_rm i c = Some (c\<lparr>kc_seq_pos := sp\<rparr>) \<and>
           seq_pos_rep sp (\<lambda>s p. count_pos (cells_of c) s p - occ (cells_of c ! i) s p)"
proof (rule kc_seq_pos_rm_rep)
  show "seq_pos_rep (kc_seq_pos c) (count_pos (cells_of c))"
    using assms by (simp add: kv_cells_inv_def)
  fix s
  assume "s \<in> kc_seq c ! i"
  then have "occ (cells_of c ! i) s (kc_pos c ! i) = 1"
    using assms by (simp add: occ_def)
  then show "1 \<le> count_pos (cells_of c) s (kc_pos c ! i)"
    using occ_le_count_pos [of "cells_of c ! i" "cells_of c" s "kc_pos c ! i"] assms by auto
qed (use assms in auto)

lemma kv_cells_inv_cell:
  assumes "kv_cells_inv c" and "i < length (kc_pos c)"
  shows "- 1 \<le> kc_pos c ! i" and "i32_ok (kc_pos c ! i)"
    and "kc_pos c ! i = - 1 \<Longrightarrow> kc_seq c ! i = {}" and "kc_seq c ! i \<subseteq> {0..<LLAMA_MAX_SEQ}"
proof -
  have "cell_wf (cells_of c ! i)"
    using assms by (auto simp: kv_cells_inv_def)
  with assms show "- 1 \<le> kc_pos c ! i" and "i32_ok (kc_pos c ! i)"
    and "kc_pos c ! i = - 1 \<Longrightarrow> kc_seq c ! i = {}" and "kc_seq c ! i \<subseteq> {0..<LLAMA_MAX_SEQ}"
    by (auto simp: cell_wf_def)
qed

lemma kv_cells_inv_wf: "kv_cells_inv c \<Longrightarrow> i < length (kc_pos c) \<Longrightarrow> cell_wf (cells_of c ! i)"
  by (simp add: kv_cells_inv_def)

lemma kv_cells_inv_lengths:
  "kv_cells_inv c \<Longrightarrow> length (kc_ext c) = length (kc_pos c)"
  "kv_cells_inv c \<Longrightarrow> length (kc_shift c) = length (kc_pos c)"
  "kv_cells_inv c \<Longrightarrow> length (kc_seq c) = length (kc_pos c)"
  "kv_cells_inv c \<Longrightarrow> lengths_ok c"
  by (auto simp: kv_cells_inv_def lengths_ok_def)

lemma kv_cells_inv_rep:
  "kv_cells_inv c \<Longrightarrow> seq_pos_rep (kc_seq_pos c) (count_pos (cells_of c))"
  by (simp add: kv_cells_inv_def)

lemma kv_cells_inv_used:
  "kv_cells_inv c \<Longrightarrow> kc_used c = {i. i < length (kc_pos c) \<and> kc_pos c ! i \<noteq> - 1}"
  by (simp add: kv_cells_inv_def)

subsection \<open>Whole-store operations\<close>

lemma cells_of_reset: "cells_of (kc_reset c) = replicate (length (kc_pos c)) empty_cell"
  by (auto simp: kc_reset_def Let_def empty_cell_def nth_cells_of intro!: nth_equalityI)

lemma count_pos_empty_cells: "count_pos (replicate n empty_cell) s p = 0"
  by (simp add: count_pos_zero_iff empty_cell_def)

lemma kc_reset_inv: "kv_cells_inv (kc_reset c)"
  by (auto simp: kv_cells_inv_def cells_of_reset count_pos_empty_cells seq_pos_rep_def cell_wf_def
      empty_cell_def count_pos_empty_cells [unfolded empty_cell_def])
    (auto simp: kc_reset_def Let_def lengths_ok_def lookup_empty)

lemma kc_reset_shift_cells:
  "lengths_ok c \<Longrightarrow> cells_of (kc_reset_shift c) = map (\<lambda>x. x\<lparr>cl_shift := 0\<rparr>) (cells_of c)"
  by (auto simp: kc_reset_shift_def lengths_ok_def nth_cells_of intro!: nth_equalityI)

lemma count_pos_map_shift: "count_pos (map (\<lambda>x. x\<lparr>cl_shift := 0\<rparr>) xs) s p = count_pos xs s p"
  by (induction xs) (auto simp: occ_def)

lemma kc_reset_shift_inv: "kv_cells_inv c \<Longrightarrow> kv_cells_inv (kc_reset_shift c)"
proof -
  assume inv: "kv_cells_inv c"
  then have "cells_of (kc_reset_shift c) = map (\<lambda>x. x\<lparr>cl_shift := 0\<rparr>) (cells_of c)"
    by (simp add: kc_reset_shift_cells kv_cells_inv_lengths)
  with inv show ?thesis
    by (auto simp: kv_cells_inv_def count_pos_map_shift [abs_def] cell_wf_def)
      (auto simp: kc_reset_shift_def lengths_ok_def)
qed

lemma length_vec_resize [simp]: "length (vec_resize n d xs) = n"
  by (simp add: vec_resize_def)

lemma kc_resize_inv: "kv_cells_inv (kc_resize n c)"
  and kc_resize_cells: "cells_of (kc_resize n c) = replicate n empty_cell"
  by (simp_all add: kc_resize_def kc_reset_inv cells_of_reset)

lemma kc_resize_size [simp]: "length (kc_pos (kc_resize n c)) = n"
  by (simp add: kc_resize_def kc_reset_def Let_def)

subsection \<open>Operations on one cell\<close>

lemma kc_rm_spec:
  assumes inv: "kv_cells_inv c" and i: "i < length (kc_pos c)" and ne: "kc_pos c ! i \<noteq> - 1"
  shows "\<exists>c'. kc_rm i c = Some c' \<and> kv_cells_inv c' \<and> cells_of c' = (cells_of c)[i := empty_cell] \<and>
           kc_has_shift c' = kc_has_shift c"
proof -
  obtain sp where rm: "kc_seq_pos_rm i c = Some (c\<lparr>kc_seq_pos := sp\<rparr>)"
    and sp: "seq_pos_rep sp (\<lambda>s p. count_pos (cells_of c) s p - occ (cells_of c ! i) s p)"
    using inv_seq_pos_rm [OF inv i] by auto
  let ?c' = "c\<lparr>kc_seq_pos := sp, kc_seq := (kc_seq c)[i := {}], kc_pos := (kc_pos c)[i := - 1],
     kc_ext := (kc_ext c)[i := ext_reset], kc_shift := (kc_shift c)[i := 0], kc_used := kc_used c - {i}\<rparr>"
  have "kc_rm i c = Some ?c'"
    using i ne by (simp add: kc_rm_def rm)
  moreover note cells = cells_of_update [of c i ?c' empty_cell, OF kv_cells_inv_lengths(4) [OF inv] i]
  have "kv_cells_inv ?c'"
    by (rule kv_cells_inv_update [OF inv i cells(2) cells(1)])
      (auto simp: empty_cell_def cell_wf_def intro: seq_pos_rep_cong [OF sp] simp: occ_def)
  ultimately show ?thesis using cells(1) by (auto simp: empty_cell_def)
qed

lemma inv_count_pos_ge:
  assumes "kv_cells_inv c" and "i < length (kc_pos c)" and "s \<in> kc_seq c ! i"
  shows "1 \<le> count_pos (cells_of c) s (kc_pos c ! i)" and "kc_pos c ! i \<noteq> - 1" and "bitset_idx s"
proof -
  have "occ (cells_of c ! i) s (kc_pos c ! i) = 1"
    using assms by (simp add: occ_def)
  then show "1 \<le> count_pos (cells_of c) s (kc_pos c ! i)"
    using occ_le_count_pos [of "cells_of c ! i" "cells_of c" s "kc_pos c ! i"] assms by auto
  show "kc_pos c ! i \<noteq> - 1" and "bitset_idx s"
    using kv_cells_inv_cell [OF assms(1,2)] assms(3) by (auto simp: bitset_idx_def)
qed

lemma kc_seq_rm_spec:
  assumes inv: "kv_cells_inv c" and i: "i < length (kc_pos c)" and s: "s \<in> kc_seq c ! i"
  shows "\<exists>c'. kc_seq_rm i s c = Some (kc_seq c ! i = {s}, c') \<and> kv_cells_inv c' \<and>
           cells_of c' = (cells_of c)[i := if kc_seq c ! i = {s} then empty_cell
                                           else (cells_of c ! i)\<lparr>cl_seq := kc_seq c ! i - {s}\<rparr>] \<and>
           kc_has_shift c' = kc_has_shift c"
proof -
  note pos = inv_count_pos_ge [OF inv i s] and len = kv_cells_inv_lengths [OF inv]
  have s0: "0 \<le> s" using pos(3) by (simp add: bitset_idx_def)
  let ?f = "count_pos (cells_of c)"
  let ?c1 = "c\<lparr>kc_seq := (kc_seq c)[i := kc_seq c ! i - {s}]\<rparr>"
  obtain sp where dec: "kc_seq_pos_dec s (kc_pos c ! i) ?c1 = Some (?c1\<lparr>kc_seq_pos := sp\<rparr>)"
    and sp: "seq_pos_rep sp (?f(s := (?f s)(kc_pos c ! i := ?f s (kc_pos c ! i) - 1)))"
    using seq_pos_rep_dec [of ?c1 ?f s "kc_pos c ! i"] kv_cells_inv_rep [OF inv] pos by auto
  show ?thesis
  proof (cases "kc_seq c ! i = {s}")
    case True
    let ?c' = "?c1\<lparr>kc_seq_pos := sp, kc_pos := (kc_pos c)[i := - 1], kc_ext := (kc_ext c)[i := ext_reset],
       kc_shift := (kc_shift c)[i := 0], kc_used := kc_used c - {i}\<rparr>"
    note cells = cells_of_update [of c i ?c' empty_cell, OF len(4) i]
    have "kc_seq_rm i s c = Some (True, ?c')"
      using i pos s s0 len dec True by (simp add: kc_seq_rm_def bitset_test_def)
    moreover have "kv_cells_inv ?c'"
      by (rule kv_cells_inv_update [OF inv i cells(2) cells(1)])
        (use True i in \<open>auto simp: empty_cell_def cell_wf_def occ_def intro!: seq_pos_rep_cong [OF sp]\<close>)
    ultimately show ?thesis using cells(1) True by (auto simp: empty_cell_def)
  next
    case False
    let ?c' = "?c1\<lparr>kc_seq_pos := sp\<rparr>" and ?x = "(cells_of c ! i)\<lparr>cl_seq := kc_seq c ! i - {s}\<rparr>"
    note cells = cells_of_update [of c i ?c' ?x, OF len(4) i]
    have ne: "kc_seq c ! i - {s} \<noteq> {}" using False s by auto
    have "kc_seq_rm i s c = Some (False, ?c')"
      using i pos s s0 len ne dec by (simp add: kc_seq_rm_def bitset_test_def)
    moreover have "kv_cells_inv ?c'"
      by (rule kv_cells_inv_update [OF inv i cells(2) cells(1)])
        (use i s pos kv_cells_inv_cell [OF inv i] in
          \<open>auto simp: kv_cells_inv_used [OF inv] cell_wf_def occ_def intro!: seq_pos_rep_cong [OF sp]\<close>)
    ultimately show ?thesis using cells(1) False i by auto
  qed
qed

lemma kc_seq_add_spec:
  assumes inv: "kv_cells_inv c" and i: "i < length (kc_pos c)" and ne: "kc_pos c ! i \<noteq> - 1"
    and s: "bitset_idx s" "s \<notin> kc_seq c ! i"
  shows "\<exists>c'. kc_seq_add i s c = Some c' \<and> kv_cells_inv c' \<and>
           cells_of c' = (cells_of c)[i := (cells_of c ! i)\<lparr>cl_seq := insert s (kc_seq c ! i)\<rparr>] \<and>
           kc_has_shift c' = kc_has_shift c"
proof -
  note len = kv_cells_inv_lengths [OF inv]
  let ?f = "count_pos (cells_of c)"
  let ?c1 = "c\<lparr>kc_seq := (kc_seq c)[i := insert s (kc_seq c ! i)]\<rparr>"
  obtain sp where inc: "kc_seq_pos_inc s (kc_pos c ! i) ?c1 = ?c1\<lparr>kc_seq_pos := sp\<rparr>"
    and sp: "seq_pos_rep sp (?f(s := (?f s)(kc_pos c ! i := ?f s (kc_pos c ! i) + 1)))"
    using seq_pos_rep_inc [of ?c1 ?f s "kc_pos c ! i"] kv_cells_inv_rep [OF inv] s by auto
  let ?c' = "?c1\<lparr>kc_seq_pos := sp\<rparr>" and ?x = "(cells_of c ! i)\<lparr>cl_seq := insert s (kc_seq c ! i)\<rparr>"
  note cells = cells_of_update [of c i ?c' ?x, OF len(4) i]
  have "kc_seq_add i s c = Some ?c'"
    using i ne s inc by (simp add: kc_seq_add_def bitset_test_def)
  moreover have "kv_cells_inv ?c'"
    by (rule kv_cells_inv_update [OF inv i cells(2) cells(1)])
      (use i s ne kv_cells_inv_cell [OF inv i] in
        \<open>auto simp: kv_cells_inv_used [OF inv] cell_wf_def occ_def bitset_idx_def intro!: seq_pos_rep_cong [OF sp]\<close>)
  ultimately show ?thesis using cells(1) i by auto
qed

lemma kc_seq_keep_spec:
  assumes inv: "kv_cells_inv c" and i: "i < length (kc_pos c)" and s: "bitset_idx s"
    and ne: "kc_seq c ! i = {} \<Longrightarrow> kc_pos c ! i = - 1"
  shows "\<exists>c'. kc_seq_keep i s c = Some (s \<notin> kc_seq c ! i \<and> kc_seq c ! i \<noteq> {}, c') \<and> kv_cells_inv c' \<and>
           cells_of c' = (cells_of c)[i := if s \<in> kc_seq c ! i then (cells_of c ! i)\<lparr>cl_seq := {s}\<rparr>
                                           else if kc_seq c ! i \<noteq> {} then empty_cell else cells_of c ! i] \<and>
           kc_has_shift c' = kc_has_shift c"
proof -
  note len = kv_cells_inv_lengths [OF inv]
  let ?f = "\<lambda>s p. count_pos (cells_of c) s p - occ (cells_of c ! i) s p"
  obtain sp where rm: "kc_seq_pos_rm i c = Some (c\<lparr>kc_seq_pos := sp\<rparr>)" and sp: "seq_pos_rep sp ?f"
    using inv_seq_pos_rm [OF inv i] by auto
  consider (keep) "s \<in> kc_seq c ! i" | (drop) "s \<notin> kc_seq c ! i" "kc_seq c ! i \<noteq> {}" | (none) "kc_seq c ! i = {}"
    by auto
  then show ?thesis
  proof cases
    case keep
    let ?c1 = "c\<lparr>kc_seq_pos := sp, kc_seq := (kc_seq c)[i := {s}]\<rparr>" and ?x = "(cells_of c ! i)\<lparr>cl_seq := {s}\<rparr>"
    obtain sp' where inc: "kc_seq_pos_inc s (kc_pos c ! i) ?c1 = ?c1\<lparr>kc_seq_pos := sp'\<rparr>"
      and sp': "seq_pos_rep sp' (?f(s := (?f s)(kc_pos c ! i := ?f s (kc_pos c ! i) + 1)))"
      using seq_pos_rep_inc [of ?c1 ?f s "kc_pos c ! i"] sp s by auto
    note cells = cells_of_update [of c i "?c1\<lparr>kc_seq_pos := sp'\<rparr>" ?x, OF len(4) i]
    have "kc_seq_keep i s c = Some (False, ?c1\<lparr>kc_seq_pos := sp'\<rparr>)"
      using i keep s len rm inc by (simp add: kc_seq_keep_def bitset_test_def)
    moreover have "kv_cells_inv (?c1\<lparr>kc_seq_pos := sp'\<rparr>)"
      by (rule kv_cells_inv_update [OF inv i cells(2) cells(1)])
        (use i s keep inv_count_pos_ge [OF inv i keep] kv_cells_inv_cell [OF inv i] in
          \<open>auto simp: kv_cells_inv_used [OF inv] cell_wf_def occ_def bitset_idx_def intro!: seq_pos_rep_cong [OF sp']\<close>)
    ultimately show ?thesis using cells(1) keep i by auto
  next
    case drop
    let ?c' = "c\<lparr>kc_seq_pos := sp, kc_seq := (kc_seq c)[i := {}], kc_pos := (kc_pos c)[i := - 1],
      kc_ext := (kc_ext c)[i := ext_reset], kc_shift := (kc_shift c)[i := 0], kc_used := kc_used c - {i}\<rparr>"
    note cells = cells_of_update [of c i ?c' empty_cell, OF len(4) i]
    have "kc_seq_keep i s c = Some (True, ?c')"
      using i drop s rm by (simp add: kc_seq_keep_def bitset_test_def)
    moreover have "kv_cells_inv ?c'"
      by (rule kv_cells_inv_update [OF inv i cells(2) cells(1)])
        (auto simp: empty_cell_def cell_wf_def occ_def intro!: seq_pos_rep_cong [OF sp])
    ultimately show ?thesis using cells(1) drop by (auto simp: empty_cell_def)
  next
    case none
    then show ?thesis using inv i s ne
      by (auto simp: kc_seq_keep_def bitset_test_def)
  qed
qed

lemma kc_pos_set_spec:
  assumes inv: "kv_cells_inv c" and i: "i < length (kc_pos c)" and e: "kc_pos c ! i = - 1"
    and p: "0 \<le> p" "i32_ok p"
  shows "\<exists>c'. kc_pos_set i p c = Some c' \<and> kv_cells_inv c' \<and>
           cells_of c' = (cells_of c)[i := (cells_of c ! i)\<lparr>cl_pos := p\<rparr>] \<and> kc_has_shift c' = kc_has_shift c"
proof -
  note cell = kv_cells_inv_cell [OF inv i] and len = kv_cells_inv_lengths [OF inv]
  have seq: "(kc_seq c)[i := {}] = kc_seq c"
    using cell(3) e by (metis list_update_id)
  let ?c' = "c\<lparr>kc_pos := (kc_pos c)[i := p], kc_used := insert i (kc_used c)\<rparr>"
  note cells = cells_of_update [of c i ?c' "(cells_of c ! i)\<lparr>cl_pos := p\<rparr>", OF len(4) i]
  have "kc_pos_set i p c = Some ?c'"
    using i e cell by (simp add: kc_pos_set_def)
  moreover have "kv_cells_inv ?c'"
    by (rule kv_cells_inv_update [OF inv i cells(2) cells(1)])
      (use i e p cell seq in \<open>auto simp: cell_wf_def occ_def intro!: seq_pos_rep_cong [OF kv_cells_inv_rep [OF inv]]\<close>)
  ultimately show ?thesis using cells(1) i e cell seq by auto
qed

lemma kc_ext_set_spec:
  assumes inv: "kv_cells_inv c" and i: "i < length (kc_pos c)"
  shows "\<exists>c'. kc_ext_set i e c = Some c' \<and> kv_cells_inv c' \<and>
           cells_of c' = (cells_of c)[i := (cells_of c ! i)\<lparr>cl_ext := e\<rparr>] \<and> kc_has_shift c' = kc_has_shift c"
proof -
  note cell = kv_cells_inv_cell [OF inv i] and len = kv_cells_inv_lengths [OF inv]
  let ?c' = "c\<lparr>kc_ext := (kc_ext c)[i := e]\<rparr>"
  note cells = cells_of_update [of c i ?c' "(cells_of c ! i)\<lparr>cl_ext := e\<rparr>", OF len(4) i]
  have "kc_ext_set i e c = Some ?c'"
    using i len by (simp add: kc_ext_set_def)
  moreover have "kv_cells_inv ?c'"
    by (rule kv_cells_inv_update [OF inv i cells(2) cells(1)])
      (use i cell in \<open>auto simp: kv_cells_inv_used [OF inv] cell_wf_def occ_def
        intro!: seq_pos_rep_cong [OF kv_cells_inv_rep [OF inv]]\<close>)
  ultimately show ?thesis using cells(1) i by auto
qed

lemma kc_pos_add_spec:
  assumes inv: "kv_cells_inv c" and i: "i < length (kc_pos c)" and ne: "kc_pos c ! i \<noteq> - 1"
    and ok: "i32_ok (kc_pos c ! i + d)" "i32_ok (kc_shift c ! i + d)"
  shows "\<exists>c'. kc_pos_add i d c = Some (kc_pos c ! i + d < 0, c') \<and> kv_cells_inv c' \<and>
           cells_of c' = (cells_of c)[i :=
             if kc_pos c ! i + d < 0 then (cells_of c ! i)\<lparr>cl_seq := {}, cl_pos := - 1, cl_shift := 0\<rparr>
             else (cells_of c ! i)\<lparr>cl_pos := kc_pos c ! i + d, cl_shift := kc_shift c ! i + d\<rparr>] \<and>
           kc_has_shift c'"
proof -
  note cell = kv_cells_inv_cell [OF inv i] and len = kv_cells_inv_lengths [OF inv]
  let ?f = "\<lambda>s p. count_pos (cells_of c) s p - occ (cells_of c ! i) s p"
  obtain sp where rm: "kc_seq_pos_rm i c = Some (c\<lparr>kc_seq_pos := sp\<rparr>)" and sp: "seq_pos_rep sp ?f"
    using inv_seq_pos_rm [OF inv i] by auto
  let ?p = "kc_pos c ! i + d" and ?sh = "kc_shift c ! i + d"
  have bnd: "i32_add (kc_pos c ! i) d = Some ?p" "i32_add (kc_shift c ! i) d = Some ?sh"
    using ok by simp_all
  show ?thesis
  proof (cases "?p < 0")
    case True
    let ?x = "(cells_of c ! i)\<lparr>cl_seq := {}, cl_pos := - 1, cl_shift := 0\<rparr>"
    let ?c' = "c\<lparr>kc_seq_pos := sp, kc_pos := (kc_pos c)[i := - 1], kc_shift := (kc_shift c)[i := 0],
      kc_has_shift := True, kc_seq := (kc_seq c)[i := {}], kc_used := kc_used c - {i}\<rparr>"
    note cells = cells_of_update [of c i ?c' ?x, OF len(4) i]
    have "kc_pos_add i d c = Some (True, ?c')"
      using i ne True len by (simp add: kc_pos_add_def rm bnd del: i32_add_Some)
    moreover have "kv_cells_inv ?c'"
      by (rule kv_cells_inv_update [OF inv i cells(2) cells(1)])
        (use i in \<open>auto simp: cell_wf_def occ_def intro!: seq_pos_rep_cong [OF sp]\<close>)
    ultimately show ?thesis using cells(1) True i by auto
  next
    case False
    let ?x = "(cells_of c ! i)\<lparr>cl_pos := ?p, cl_shift := ?sh\<rparr>"
    let ?c1 = "c\<lparr>kc_seq_pos := sp, kc_pos := (kc_pos c)[i := ?p], kc_shift := (kc_shift c)[i := ?sh], kc_has_shift := True\<rparr>"
    obtain sp' where add: "kc_seq_pos_add i ?c1 = ?c1\<lparr>kc_seq_pos := sp'\<rparr>"
      and sp': "seq_pos_rep sp' (\<lambda>s p. ?f s p + occ ?x s p)"
      using kc_seq_pos_add_rep [of ?c1 ?f ?x i] sp i by auto
    note cells = cells_of_update [of c i "?c1\<lparr>kc_seq_pos := sp'\<rparr>" ?x, OF len(4) i]
    have "kc_pos_add i d c = Some (False, ?c1\<lparr>kc_seq_pos := sp'\<rparr>)"
      using i ne False len add by (simp add: kc_pos_add_def rm bnd del: i32_add_Some)
    moreover have "kv_cells_inv (?c1\<lparr>kc_seq_pos := sp'\<rparr>)"
      by (rule kv_cells_inv_update [OF inv i cells(2) cells(1)])
        (use i ok False ne cell in \<open>auto simp: kv_cells_inv_used [OF inv] cell_wf_def intro!: seq_pos_rep_cong [OF sp']\<close>)
    ultimately show ?thesis using cells(1) False i by auto
  qed
qed

lemma kc_pos_div_spec:
  assumes inv: "kv_cells_inv c" and i: "i < length (kc_pos c)" and ne: "kc_pos c ! i \<noteq> - 1"
    and d: "0 < d" and ok: "i32_ok (kc_shift c ! i + (kc_pos c ! i - kc_pos c ! i div d))"
  shows "\<exists>c'. kc_pos_div i d c = Some c' \<and> kv_cells_inv c' \<and>
           cells_of c' = (cells_of c)[i := (cells_of c ! i)\<lparr>cl_pos := kc_pos c ! i div d,
             cl_shift := kc_shift c ! i + (kc_pos c ! i - kc_pos c ! i div d)\<rparr>] \<and> kc_has_shift c'"
proof -
  note cell = kv_cells_inv_cell [OF inv i] and len = kv_cells_inv_lengths [OF inv]
  let ?f = "\<lambda>s p. count_pos (cells_of c) s p - occ (cells_of c ! i) s p"
  obtain sp where rm: "kc_seq_pos_rm i c = Some (c\<lparr>kc_seq_pos := sp\<rparr>)" and sp: "seq_pos_rep sp ?f"
    using inv_seq_pos_rm [OF inv i] by auto
  let ?p = "kc_pos c ! i div d" and ?sh = "kc_shift c ! i + (kc_pos c ! i - kc_pos c ! i div d)"
  have nn: "0 \<le> kc_pos c ! i" using cell(1) ne by simp
  have p: "0 \<le> ?p" "?p \<le> kc_pos c ! i"
    using nn d by (auto simp: pos_imp_zdiv_nonneg_iff intro: zdiv_mono2 [where b' = 1, simplified])
  have pok: "i32_ok ?p" "i32_ok (kc_pos c ! i - ?p)"
    using p nn cell(2) by (auto simp: i32_ok_def)
  have bnd: "i32_div (kc_pos c ! i) d = Some ?p" "i32_sub (kc_pos c ! i) ?p = Some (kc_pos c ! i - ?p)"
      "i32_add (kc_shift c ! i) (kc_pos c ! i - ?p) = Some ?sh"
    using i32_div_pos [OF nn cell(2) d] pok ok by simp_all
  let ?x = "(cells_of c ! i)\<lparr>cl_pos := ?p, cl_shift := ?sh\<rparr>"
  let ?c1 = "c\<lparr>kc_seq_pos := sp, kc_pos := (kc_pos c)[i := ?p], kc_shift := (kc_shift c)[i := ?sh]\<rparr>"
  obtain sp' where add: "kc_seq_pos_add i ?c1 = ?c1\<lparr>kc_seq_pos := sp'\<rparr>"
    and sp': "seq_pos_rep sp' (\<lambda>s p. ?f s p + occ ?x s p)"
    using kc_seq_pos_add_rep [of ?c1 ?f ?x i] sp i by auto
  let ?c' = "?c1\<lparr>kc_seq_pos := sp', kc_has_shift := True\<rparr>"
  note cells = cells_of_update [of c i ?c' ?x, OF len(4) i]
  have "kc_pos_div i d c = Some ?c'"
    using i ne len add by (simp add: kc_pos_div_def rm bnd del: i32_add_Some i32_sub_Some)
  moreover have "kv_cells_inv ?c'"
    by (rule kv_cells_inv_update [OF inv i cells(2) cells(1)])
      (use i p pok ne cell in \<open>auto simp: kv_cells_inv_used [OF inv] cell_wf_def intro!: seq_pos_rep_cong [OF sp']\<close>)
  ultimately show ?thesis using cells(1) i by auto
qed

lemma kc_set_cell_spec:
  assumes inv: "kv_cells_inv c" and i: "i < length (kc_pos c)" and sh: "kc_shift c ! i = 0"
    and j: "j < length (kc_pos other)" and wf: "cell_wf (cells_of other ! j)"
  shows "\<exists>c'. kc_set_cell i j other c = Some c' \<and> kv_cells_inv c' \<and>
           cells_of c' = (cells_of c)[i := (cells_of other ! j)\<lparr>cl_shift := 0\<rparr>] \<and>
           kc_has_shift c' = kc_has_shift c"
proof -
  note cell = kv_cells_inv_cell [OF inv i] and len = kv_cells_inv_lengths [OF inv]
  let ?f = "\<lambda>s p. count_pos (cells_of c) s p - occ (cells_of c ! i) s p"
  let ?x = "(cells_of other ! j)\<lparr>cl_shift := 0\<rparr>"
  define u where "u = (if kc_pos other ! j = - 1 then kc_used c - {i} else insert i (kc_used c))"
  define c0 where "c0 = c\<lparr>kc_used := u\<rparr>"
  have f0: "kc_pos c0 = kc_pos c" "kc_ext c0 = kc_ext c" "kc_seq c0 = kc_seq c" "kc_shift c0 = kc_shift c"
    by (simp_all add: c0_def)
  have c0: "kc_set_used i (kc_pos other ! j) c = c0"
    using i by (auto simp: kc_set_used_def c0_def u_def kv_cells_inv_used [OF inv] insert_absorb)
  have "\<exists>sp. (if kc_pos c ! i \<noteq> - 1 then kc_seq_pos_rm i c0 else Some c0) = Some (c0\<lparr>kc_seq_pos := sp\<rparr>) \<and> seq_pos_rep sp ?f"
  proof (cases "kc_pos c ! i = - 1")
    case True
    with cell kv_cells_inv_rep [OF inv] i show ?thesis
      by (intro exI [of _ "kc_seq_pos c"]) (auto simp: c0_def occ_def)
  next
    case False
    with kc_seq_pos_rm_rep [of c0 "count_pos (cells_of c)" "cells_of c ! i" i] inv_count_pos_ge(1) [OF inv i]
      kv_cells_inv_rep [OF inv] i
    show ?thesis by (auto simp: c0_def)
  qed
  then obtain sp where rm: "(if kc_pos c ! i \<noteq> - 1 then kc_seq_pos_rm i c0 else Some c0) = Some (c0\<lparr>kc_seq_pos := sp\<rparr>)"
    and sp: "seq_pos_rep sp ?f" by auto
  let ?c1 = "c0\<lparr>kc_seq_pos := sp, kc_pos := (kc_pos c)[i := kc_pos other ! j],
     kc_ext := (kc_ext c)[i := kc_ext other ! j], kc_seq := (kc_seq c)[i := kc_seq other ! j]\<rparr>"
  have "\<exists>sp. (if kc_pos other ! j \<noteq> - 1 then kc_seq_pos_add i ?c1 else ?c1) = ?c1\<lparr>kc_seq_pos := sp\<rparr> \<and>
      seq_pos_rep sp (\<lambda>s p. ?f s p + occ ?x s p)"
  proof (cases "kc_pos other ! j = - 1")
    case True
    with wf j have "kc_seq other ! j = {}" by (auto simp: cell_wf_def)
    with True j sp show ?thesis by (intro exI [of _ sp]) (auto simp: occ_def)
  next
    case False
    with kc_seq_pos_add_rep [of ?c1 ?f ?x i] sp i j len show ?thesis by (auto simp: c0_def)
  qed
  then obtain sp' where add: "(if kc_pos other ! j \<noteq> - 1 then kc_seq_pos_add i ?c1 else ?c1) = ?c1\<lparr>kc_seq_pos := sp'\<rparr>"
    and sp': "seq_pos_rep sp' (\<lambda>s p. ?f s p + occ ?x s p)" by auto
  let ?c' = "?c1\<lparr>kc_seq_pos := sp'\<rparr>"
  have z: "(kc_shift c)[i := 0] = kc_shift c" using sh by (metis list_update_id)
  note cells = cells_of_update [of c i ?c' ?x, OF len(4) i]
  have "kc_set_cell i j other c = Some ?c'"
    using i sh by (simp add: kc_set_cell_def c0 f0 rm add split del: if_split)
  moreover have "kv_cells_inv ?c'"
    by (rule kv_cells_inv_update [OF inv i cells(2) cells(1)])
      (use i j wf z in \<open>auto simp: c0_def u_def cell_wf_def intro!: seq_pos_rep_cong [OF sp']\<close>)
  moreover have "cells_of ?c' = (cells_of c)[i := ?x]"
    using i j z by (intro cells(1)) (auto simp: c0_def)
  ultimately show ?thesis by (auto simp: c0_def)
qed

subsection \<open>Save and restore\<close>

definition saved_cell :: "cell \<Rightarrow> cell" where
  "saved_cell x = x\<lparr>cl_shift := 0\<rparr>"

lemma cell_wf_saved [simp]: "cell_wf (saved_cell x) = cell_wf x"
  by (simp add: cell_wf_def saved_cell_def)

lemma kc_cp_step:
  assumes "lengths_ok res" and "j < length (kc_pos res)" and "kc_shift res ! j = 0" and "idx < length (kc_pos c)"
  defines "res' \<equiv> res\<lparr>kc_pos := (kc_pos res)[j := kc_pos c ! idx], kc_ext := (kc_ext res)[j := kc_ext c ! idx],
                    kc_seq := (kc_seq res)[j := kc_seq c ! idx]\<rparr>"
  shows "cells_of res' = (cells_of res)[j := saved_cell (cells_of c ! idx)]" and "lengths_ok res'"
    and "kc_shift res' = kc_shift res"
proof -
  have "(kc_shift res)[j := 0] = kc_shift res" using assms(3) by (metis list_update_id)
  then show "cells_of res' = (cells_of res)[j := saved_cell (cells_of c ! idx)]" and "lengths_ok res'"
    and "kc_shift res' = kc_shift res"
    using cells_of_update [OF assms(1,2), of res' "saved_cell (cells_of c ! idx)"] assms(4)
    by (auto simp: res'_def saved_cell_def)
qed

lemma kc_cp_idxs_spec:
  assumes "\<forall>idx\<in>set idxs. idx < length (kc_pos c) \<and> kc_shift c ! idx = 0"
  shows "\<exists>r. kc_cp_idxs idxs c = Some r \<and> lengths_ok r \<and>
           cells_of r = map (\<lambda>idx. saved_cell (cells_of c ! idx)) idxs"
proof -
  let ?n = "length idxs" and ?g = "\<lambda>idx. saved_cell (cells_of c ! idx)"
  let ?I = "\<lambda>j r. lengths_ok r \<and> kc_shift r = replicate ?n 0 \<and>
     cells_of r = map ?g (take j idxs) @ replicate (?n - j) empty_cell"
  have "\<exists>r. kc_cp_idxs idxs c = Some r \<and> ?I ?n r"
    unfolding kc_cp_idxs_def
  proof (rule for_upto_rule [where I = ?I])
    show "?I 0 (kc_resize ?n kv_cells_empty)"
      by (simp add: kc_resize_cells kv_cells_inv_lengths [OF kc_resize_inv])
        (simp add: kc_resize_def kc_reset_def Let_def)
  next
    fix j r
    assume j: "j < ?n" and I: "?I j r"
    have "length (cells_of r) = ?n"
      using I j by simp
    then have len: "length (kc_pos r) = ?n" by simp
    have idx: "idxs ! j < length (kc_pos c)" "kc_shift c ! (idxs ! j) = 0"
      using assms j by auto
    note step = kc_cp_step [of r j "idxs ! j" c]
    have "(map ?g (take j idxs) @ replicate (?n - j) empty_cell)[j := ?g (idxs ! j)] =
       map ?g (take (Suc j) idxs) @ replicate (?n - Suc j) empty_cell"
      using j by (auto simp: take_Suc_conv_app_nth list_update_append min_def Suc_diff_Suc [symmetric])
    with step I j idx len show "\<exists>r'. (do {
         let idx = idxs ! j;
         ggml_assert (idx < length (kc_pos c));
         ggml_assert (kc_shift c ! idx = 0);
         Some (r\<lparr>kc_pos := (kc_pos r)[j := kc_pos c ! idx],
                   kc_ext := (kc_ext r)[j := kc_ext c ! idx],
                   kc_seq := (kc_seq r)[j := kc_seq c ! idx]\<rparr>) }) = Some r' \<and> ?I (Suc j) r'"
      by (auto simp: Let_def)
  qed
  then show ?thesis by auto
qed

lemma kc_set_idxs_spec:
  assumes inv: "kv_cells_inv c" and len: "length idxs = length (kc_pos other)"
    and idxs: "\<forall>idx\<in>set idxs. idx < length (kc_pos c) \<and> kc_shift c ! idx = 0"
    and wf: "\<forall>x\<in>set (cells_of other). cell_wf x"
  shows "\<exists>c'. kc_set_idxs idxs other c = Some c' \<and> kv_cells_inv c' \<and>
           cells_of c' = fold (\<lambda>j xs. xs[idxs ! j := saved_cell (cells_of other ! j)]) [0..<length idxs] (cells_of c) \<and>
           kc_has_shift c' = kc_has_shift c"
proof -
  let ?I = "\<lambda>j t. kv_cells_inv t \<and> length (kc_pos t) = length (kc_pos c) \<and>
     (\<forall>idx\<in>set idxs. kc_shift t ! idx = 0) \<and>
     cells_of t = fold (\<lambda>j xs. xs[idxs ! j := saved_cell (cells_of other ! j)]) [0..<j] (cells_of c) \<and>
     kc_has_shift t = kc_has_shift c"
  have "\<exists>c'. for_each (\<lambda>j c. kc_set_cell (idxs ! j) j other c) [0..<length (kc_pos other)] c = Some c' \<and>
      ?I (length (kc_pos other)) c'"
  proof (rule for_upto_rule)
    show "?I 0 c" using inv idxs by auto
  next
    fix j t
    assume j: "j < length (kc_pos other)" and I: "?I j t"
    have idx: "idxs ! j < length (kc_pos t)" "kc_shift t ! (idxs ! j) = 0"
      using idxs j len I by auto
    obtain t' where t': "kc_set_cell (idxs ! j) j other t = Some t'" "kv_cells_inv t'"
        "cells_of t' = (cells_of t)[idxs ! j := saved_cell (cells_of other ! j)]" "kc_has_shift t' = kc_has_shift t"
      using kc_set_cell_spec [of t "idxs ! j" j other] idx j wf I by (auto simp: saved_cell_def)
    have n: "length (kc_pos t') = length (kc_pos t)"
      using t'(3) by (metis length_cells_of length_list_update)
    have "kc_shift t' ! i = 0" if "i \<in> set idxs" for i
    proof -
      have i: "i < length (kc_pos t)" and sh: "kc_shift t ! i = 0" using idxs that I by auto
      have "cl_shift (cells_of t' ! i) = cl_shift ((cells_of t)[idxs ! j := saved_cell (cells_of other ! j)] ! i)"
        by (simp add: t'(3))
      with i n sh idx(1) show ?thesis
        by (cases "i = idxs ! j") (auto simp: saved_cell_def)
    qed
    with t' n I show "\<exists>t'. kc_set_cell (idxs ! j) j other t = Some t' \<and> ?I (Suc j) t'"
      by auto
  qed
  with len show ?thesis by (auto simp: kc_set_idxs_def)
qed

text \<open>The cells determine the indices: two consistent stores with equal cells are equal.\<close>

lemma kv_cells_inv_unique:
  assumes "kv_cells_inv c" and "kv_cells_inv d" and "cells_of c = cells_of d"
  shows "kc_used c = kc_used d" and "bitset_idx s \<Longrightarrow> kc_seq_pos c s = kc_seq_pos d s"
    and "kc_pos c = kc_pos d" and "kc_ext c = kc_ext d" and "kc_shift c = kc_shift d" and "kc_seq c = kc_seq d"
proof -
  have n: "length (kc_pos c) = length (kc_pos d)"
    using assms(3) by (metis length_cells_of)
  have f: "kc_pos c ! i = kc_pos d ! i \<and> kc_ext c ! i = kc_ext d ! i \<and> kc_shift c ! i = kc_shift d ! i \<and> kc_seq c ! i = kc_seq d ! i"
    if "i < length (kc_pos d)" for i
    using assms(3) that n by (metis cell_fields(1,2,3,4))
  note l = kv_cells_inv_lengths [OF assms(1)] kv_cells_inv_lengths [OF assms(2)]
  show "kc_pos c = kc_pos d" and "kc_ext c = kc_ext d" and "kc_shift c = kc_shift d" and "kc_seq c = kc_seq d"
    using f n l by (auto intro!: nth_equalityI)
  then show "kc_used c = kc_used d"
    by (simp add: kv_cells_inv_used [OF assms(1)] kv_cells_inv_used [OF assms(2)])
  show "kc_seq_pos c s = kc_seq_pos d s" if "bitset_idx s"
    using kv_cells_inv_rep [OF assms(1)] kv_cells_inv_rep [OF assms(2)] that assms(3)
    by (intro mapping_eqI) (auto simp: seq_pos_rep_def bitset_idx_def)
qed

text \<open>The range versions of \<open>cp\<close> and \<open>set\<close> are the indexed versions on consecutive indices.\<close>

lemma kc_cp_range: "i + n \<le> length (kc_pos c) \<Longrightarrow> kc_cp i n c = kc_cp_idxs [i..<i + n] c"
  by (auto simp: kc_cp_def kc_cp_idxs_def Let_def intro!: for_each_cong)

lemma kc_set_range:
  "i + length (kc_pos other) \<le> length (kc_pos c) \<Longrightarrow>
   kc_set i other c = kc_set_idxs [i..<i + length (kc_pos other)] other c"
  by (auto simp: kc_set_def kc_set_idxs_def intro!: for_each_cong)

lemma fold_update_outside:
  "\<forall>j\<in>set js. f j \<noteq> i \<Longrightarrow> fold (\<lambda>j xs. xs[f j := g j]) js xs ! i = xs ! i"
  by (induction js arbitrary: xs) auto

lemma length_fold_update [simp]: "length (fold (\<lambda>j xs. xs[f j := g j]) js xs) = length xs"
  by (induction js arbitrary: xs) auto

lemma fold_update_same:
  assumes "\<forall>j\<in>set js. f j < length xs" and "\<And>i. i < length xs \<Longrightarrow> i \<notin> f ` set js \<Longrightarrow> xs ! i = ys ! i"
    and "\<forall>j\<in>set js. g j = ys ! f j" and "length ys = length xs"
  shows "fold (\<lambda>j xs. xs[f j := g j]) js xs = ys"
  using assms
proof (induction js arbitrary: xs)
  case Nil
  then show ?case by (auto intro: nth_equalityI)
next
  case (Cons j js)
  have "fold (\<lambda>j xs. xs[f j := g j]) js (xs[f j := g j]) = ys"
  proof (rule Cons.IH)
    fix i
    assume i: "i < length (xs[f j := g j])" "i \<notin> f ` set js"
    show "xs[f j := g j] ! i = ys ! i"
      using Cons.prems i by (cases "i = f j") auto
  qed (use Cons.prems in auto)
  then show ?case by simp
qed

text \<open>
  Save and restore: after \<open>cp(idxs)\<close>, any change of the saved cells is undone by \<open>set(idxs, saved)\<close>.
\<close>

lemma kc_cp_set_restore:
  assumes inv: "kv_cells_inv c" and inv2: "kv_cells_inv d"
    and idxs: "\<forall>idx\<in>set idxs. idx < length (kc_pos c) \<and> kc_shift c ! idx = 0 \<and> kc_shift d ! idx = 0"
    and same: "length (kc_pos d) = length (kc_pos c)"
      "\<And>i. i < length (kc_pos c) \<Longrightarrow> i \<notin> set idxs \<Longrightarrow> cells_of d ! i = cells_of c ! i"
    and cp: "kc_cp_idxs idxs c = Some saved"
  shows "\<exists>d'. kc_set_idxs idxs saved d = Some d' \<and> kv_cells_inv d' \<and> cells_of d' = cells_of c \<and>
           kc_has_shift d' = kc_has_shift d"
proof -
  let ?g = "\<lambda>idx. saved_cell (cells_of c ! idx)"
  have saved: "cells_of saved = map ?g idxs" "length (kc_pos saved) = length idxs"
    using kc_cp_idxs_spec [of idxs c] cp idxs by (auto dest: arg_cong [where f = length])
  have wf: "\<forall>x\<in>set (cells_of saved). cell_wf x"
    using idxs by (auto simp: saved kv_cells_inv_wf [OF inv])
  obtain d' where d': "kc_set_idxs idxs saved d = Some d'" "kv_cells_inv d'" "kc_has_shift d' = kc_has_shift d"
    "cells_of d' = fold (\<lambda>j xs. xs[idxs ! j := saved_cell (cells_of saved ! j)]) [0..<length idxs] (cells_of d)"
    using kc_set_idxs_spec [of d idxs saved] inv2 saved(2) idxs wf same(1) by auto
  have "saved_cell (cells_of saved ! j) = cells_of c ! (idxs ! j)" if "j < length idxs" for j
    using idxs that by (auto simp: saved(1) saved_cell_def nth_cells_of)
  moreover have "(\<lambda>j. idxs ! j) ` set [0..<length idxs] = set idxs"
    by (auto simp: in_set_conv_nth)
  ultimately have "cells_of d' = cells_of c"
    unfolding d'(4) using idxs same by (intro fold_update_same) auto
  with d' show ?thesis by auto
qed

section \<open>Queries\<close>

definition seq_positions :: "cell list \<Rightarrow> llama_seq_id \<Rightarrow> llama_pos set" where
  "seq_positions xs s = {cl_pos x | x. x \<in> set xs \<and> s \<in> cl_seq x}"

lemma finite_seq_positions [simp]: "finite (seq_positions xs s)"
proof -
  have "seq_positions xs s = cl_pos ` {x \<in> set xs. s \<in> cl_seq x}"
    by (auto simp: seq_positions_def)
  then show ?thesis by simp
qed

lemma keys_kc_seq_pos:
  assumes "kv_cells_inv c" and "bitset_idx s"
  shows "Mapping.keys (kc_seq_pos c s) = seq_positions (cells_of c) s"
proof -
  have "p \<in> Mapping.keys (kc_seq_pos c s) \<longleftrightarrow> count_pos (cells_of c) s p \<noteq> 0" for p
    using kv_cells_inv_rep [OF assms(1)] assms(2)
    by (auto simp: keys_is_none_rep seq_pos_rep_def bitset_idx_def)
  then show ?thesis
    by (auto simp: count_pos_zero_iff seq_positions_def)
qed

lemma lookup_kc_seq_pos:
  assumes "kv_cells_inv c" and "bitset_idx s" and "p \<in> seq_positions (cells_of c) s"
  shows "Mapping.lookup (kc_seq_pos c s) p = Some (count_pos (cells_of c) s p)"
    and "0 < count_pos (cells_of c) s p"
proof -
  have "count_pos (cells_of c) s p \<noteq> 0"
    using assms(3) by (auto simp: count_pos_zero_iff seq_positions_def)
  then show "Mapping.lookup (kc_seq_pos c s) p = Some (count_pos (cells_of c) s p)"
    and "0 < count_pos (cells_of c) s p"
    using kv_cells_inv_rep [OF assms(1)] assms(2) count_pos_nonneg [of "cells_of c" s p]
    by (auto simp: seq_pos_rep_def bitset_idx_def order_less_le)
qed

lemma kc_seq_pos_min_spec:
  assumes "kv_cells_inv c" and "bitset_idx s"
  shows "kc_seq_pos_min s c =
    Some (if seq_positions (cells_of c) s = {} then - 1 else Min (seq_positions (cells_of c) s))"
  using assms lookup_kc_seq_pos [OF assms, of "Min (seq_positions (cells_of c) s)"]
  by (auto simp: kc_seq_pos_min_def keys_kc_seq_pos Let_def bitset_idx_def)

lemma kc_seq_pos_max_spec:
  assumes "kv_cells_inv c" and "bitset_idx s"
  shows "kc_seq_pos_max s c =
    Some (if seq_positions (cells_of c) s = {} then - 1 else Max (seq_positions (cells_of c) s))"
  using assms lookup_kc_seq_pos [OF assms, of "Max (seq_positions (cells_of c) s)"]
  by (auto simp: kc_seq_pos_max_def keys_kc_seq_pos Let_def bitset_idx_def)

lemma finite_kc_used: "kv_cells_inv c \<Longrightarrow> finite (kc_used c)"
  by (simp add: kv_cells_inv_used)

lemma kc_used_max_p1_spec:
  assumes "kv_cells_inv c"
  shows "kc_used_max_p1 c \<le> length (kc_pos c)"
    and "kc_used_max_p1 c \<le> i \<Longrightarrow> i < length (kc_pos c) \<Longrightarrow> kc_pos c ! i = - 1"
proof -
  note u = kv_cells_inv_used [OF assms] and fin = finite_kc_used [OF assms]
  show "kc_used_max_p1 c \<le> length (kc_pos c)"
  proof (cases "kc_used c = {}")
    case False
    then have "Max (kc_used c) < length (kc_pos c)"
      using Max_in [OF fin] u by blast
    with False show ?thesis by (simp add: kc_used_max_p1_def)
  qed (simp add: kc_used_max_p1_def)
  assume i: "kc_used_max_p1 c \<le> i" "i < length (kc_pos c)"
  show "kc_pos c ! i = - 1"
  proof (rule ccontr)
    assume "kc_pos c ! i \<noteq> - 1"
    then have mem: "i \<in> kc_used c" using i by (simp add: u)
    with Max_ge [OF fin mem] i(1) show False by (auto simp: kc_used_max_p1_def split: if_splits)
  qed
qed

lemma kc_get_used_spec:
  assumes "kv_cells_inv c"
  shows "kc_get_used c = length (filter (\<lambda>x. cl_pos x \<noteq> - 1) (cells_of c))"
  unfolding kc_get_used_def kv_cells_inv_used [OF assms]
  by (auto simp: length_filter_conv_card intro!: arg_cong [where f = card])

lemma kc_seq_get_spec:
  assumes "kv_cells_inv c" and "i < length (kc_pos c)" and "kc_seq c ! i = {s}"
  shows "kc_seq_get i c = Some s"
proof -
  have "bitset_idx s" using inv_count_pos_ge(3) [OF assms(1,2)] assms(3) by simp
  then have "s \<in> set all_seq_ids" by (auto simp: set_all_seq_ids bitset_idx_def)
  then have "List.find (\<lambda>s'. s' = s) all_seq_ids = Some s" by (rule find_eq)
  with assms show ?thesis
    by (simp add: kc_seq_get_def kv_cells_inv_lengths)
qed

section \<open>Sweeps over all cells\<close>

text \<open>
  The operations of the cache on whole sequences are loops over all cells whose body touches
  cell \<open>i\<close> only.  \<open>cell_sweep\<close> is the interface between such a body and the loop: the
  body never aborts on an acceptable cell, keeps the invariant, replaces cell \<open>i\<close> by
  \<open>upd\<close> of it and reports whether the cell was freed.  What a whole sweep does is proved
  once, for any body.
\<close>

definition sweep_step :: "(nat \<Rightarrow> llama_kv_cells \<Rightarrow> (bool \<times> llama_kv_cells) option) \<Rightarrow> nat \<Rightarrow>
    llama_kv_cells \<times> nat \<Rightarrow> (llama_kv_cells \<times> nat) option" where
  "sweep_step body i = (\<lambda>(c, new_head). do {
     (freed, c) \<leftarrow> body i c;
     Some (c, if freed \<and> new_head = length (kc_pos c) then i else new_head) })"

definition sweep :: "(nat \<Rightarrow> llama_kv_cells \<Rightarrow> (bool \<times> llama_kv_cells) option) \<Rightarrow>
    llama_kv_cells \<Rightarrow> (llama_kv_cells \<times> nat) option" where
  "sweep body c = for_each (sweep_step body) [0..<length (kc_pos c)] (c, length (kc_pos c))"

text \<open>The index of the first element that satisfies a predicate, the length when there is none.\<close>

definition first_index :: "('a \<Rightarrow> bool) \<Rightarrow> 'a list \<Rightarrow> nat" where
  "first_index P xs = length (takeWhile (\<lambda>x. \<not> P x) xs)"

lemma first_index_le: "first_index P xs \<le> length xs"
  by (simp add: first_index_def length_takeWhile_le)

lemma first_index_take_Suc:
  assumes "i < length xs"
  shows "first_index P (take (Suc i) xs) =
    (if first_index P (take i xs) < i then first_index P (take i xs) else if P (xs ! i) then i else Suc i)"
proof -
  have "first_index P (take i xs) < i \<or> first_index P (take i xs) = i"
    using first_index_le [of P "take i xs"] assms by auto
  then show ?thesis
  proof
    assume less: "first_index P (take i xs) < i"
    then have "\<exists>x\<in>set (take i xs). P x"
      using assms unfolding first_index_def
      by (metis length_take min.absorb4 nat_neq_iff takeWhile_eq_all_conv)
    with less assms show ?thesis
      by (auto simp: first_index_def take_Suc_conv_app_nth)
  next
    assume eq: "first_index P (take i xs) = i"
    then have tw: "takeWhile (\<lambda>x. \<not> P x) (take i xs) = take i xs"
      using assms unfolding first_index_def
      by (metis length_take min.absorb4 takeWhile_eq_take take_all_iff order_refl)
    then have "\<forall>x\<in>set (take i xs). \<not> P x" by (simp add: takeWhile_eq_all_conv)
    with assms show ?thesis
      by (simp add: first_index_def take_Suc_conv_app_nth takeWhile_append tw)
  qed
qed

locale cell_sweep =
  fixes body :: "nat \<Rightarrow> llama_kv_cells \<Rightarrow> (bool \<times> llama_kv_cells) option"
    and ok :: "cell \<Rightarrow> bool"
    and freed :: "cell \<Rightarrow> bool"
    and upd :: "cell \<Rightarrow> cell"
  assumes body_spec:
    "kv_cells_inv c \<Longrightarrow> i < length (kc_pos c) \<Longrightarrow> ok (cells_of c ! i) \<Longrightarrow>
     \<exists>c'. body i c = Some (freed (cells_of c ! i), c') \<and> kv_cells_inv c' \<and>
       cells_of c' = (cells_of c)[i := upd (cells_of c ! i)]"
begin

lemma sweep_spec:
  assumes inv: "kv_cells_inv c" and ok: "\<forall>x\<in>set (cells_of c). ok x"
  shows "\<exists>c'. sweep body c = Some (c', first_index freed (cells_of c)) \<and> kv_cells_inv c' \<and>
           cells_of c' = map upd (cells_of c)"
proof -
  let ?xs = "cells_of c" and ?n = "length (kc_pos c)"
  let ?nh = "\<lambda>i. if first_index freed (take i ?xs) < i then first_index freed (take i ?xs) else ?n"
  let ?I = "\<lambda>i st. case st of (t, nh) \<Rightarrow> kv_cells_inv t \<and> cells_of t = map upd (take i ?xs) @ drop i ?xs \<and> nh = ?nh i"
  have "\<exists>st. sweep body c = Some st \<and> ?I ?n st"
    unfolding sweep_def
  proof (rule for_upto_rule [where I = ?I])
    show "?I 0 (c, ?n)" using inv by simp
  next
    fix i st
    assume i: "i < ?n" and I: "?I i st"
    obtain t nh where st: "st = (t, nh)" by fastforce
    have inv_t: "kv_cells_inv t" and cells: "cells_of t = map upd (take i ?xs) @ drop i ?xs" and nh: "nh = ?nh i"
      using I by (simp_all add: st)
    have "length (cells_of t) = ?n" using i by (simp add: cells)
    then have n: "length (kc_pos t) = ?n" by simp
    have xi: "cells_of t ! i = ?xs ! i" using i by (simp add: cells nth_append)
    obtain t' where t': "body i t = Some (freed (?xs ! i), t')" "kv_cells_inv t'"
        "cells_of t' = (cells_of t)[i := upd (?xs ! i)]"
      using body_spec [OF inv_t, of i] i n xi ok by auto
    have "length (cells_of t') = ?n" by (simp add: t'(3) n)
    then have n': "length (kc_pos t') = ?n" by simp
    have "cells_of t' = map upd (take (Suc i) ?xs) @ drop (Suc i) ?xs"
      using i by (simp add: t'(3) cells list_update_append take_Suc_conv_app_nth min_def Cons_nth_drop_Suc [symmetric])
    moreover have "(if freed (?xs ! i) \<and> nh = ?n then i else nh) = ?nh (Suc i)"
      using i first_index_le [of freed "take i ?xs"] by (auto simp: nh first_index_take_Suc)
    ultimately show "\<exists>st'. sweep_step body i st = Some st' \<and> ?I (Suc i) st'"
      using t'(1,2) n' by (simp add: sweep_step_def st)
  qed
  moreover have "?nh ?n = first_index freed ?xs"
    using first_index_le [of freed ?xs] by (auto simp: order_class.le_less)
  ultimately show ?thesis by auto
qed

end

section \<open>Checking the invariant\<close>

text \<open>The invariant as an executable test: only the positions that occur have to be looked at.\<close>

definition kv_cells_check :: "llama_kv_cells \<Rightarrow> bool" where
  "kv_cells_check c \<longleftrightarrow> lengths_ok c \<and>
     kc_used c = set (filter (\<lambda>i. kc_pos c ! i \<noteq> - 1) [0..<length (kc_pos c)]) \<and>
     list_all cell_wf (cells_of c) \<and>
     list_all (\<lambda>s. \<forall>p\<in>set (kc_pos c) \<union> Mapping.keys (kc_seq_pos c s).
        Mapping.lookup (kc_seq_pos c s) p =
          (if count_pos (cells_of c) s p = 0 then None else Some (count_pos (cells_of c) s p))) all_seq_ids"

lemma kv_cells_check_inv:
  assumes "kv_cells_check c"
  shows "kv_cells_inv c"
proof -
  have "Mapping.lookup (kc_seq_pos c s) p = (if count_pos (cells_of c) s p = 0 then None else Some (count_pos (cells_of c) s p))"
    if s: "s \<in> {0..<LLAMA_MAX_SEQ}" for s p
  proof (cases "p \<in> set (kc_pos c) \<union> Mapping.keys (kc_seq_pos c s)")
    case True
    with assms s show ?thesis by (auto simp: kv_cells_check_def list_all_iff set_all_seq_ids)
  next
    case False
    then have "\<forall>x\<in>set (cells_of c). cl_pos x \<noteq> p" by (auto simp: cells_of_def)
    then have "count_pos (cells_of c) s p = 0" by (auto simp: count_pos_zero_iff)
    moreover have "Mapping.lookup (kc_seq_pos c s) p = None"
      using False by (auto simp: keys_dom_lookup)
    ultimately show ?thesis by simp
  qed
  with assms show ?thesis
    by (auto simp: kv_cells_inv_def kv_cells_check_def seq_pos_rep_def list_all_iff)
qed

end
