(* ===== verification/KV_Cache.thy ===== *)
theory KV_Cache
  imports KV_Cells Hparams
begin

text \<open>
  The unified KV cache, \<open>class llama_kv_cache\<close> of \<open>src/src/llama-kv-cache.cpp\<close>: the
  constructor, \<open>clear\<close> and the operations on sequences.  The state is the record
  \<open>llama_kv_cache\<close>; the tensors of the cache are represented by their shapes (\<open>kv_layer\<close>),
  the cells by the model of \<open>KV_Cells\<close>.  The loops over the cells are instances of
  \<open>sweep\<close>; the locale \<open>kv_sweep\<close> lifts the interface \<open>cell_sweep\<close> from one array of
  cells to the cache.
\<close>

section \<open>State\<close>

record kv_layer =
  kl_il :: nat
  kl_n_embd_k :: nat
  kl_n_embd_v :: nat
  kl_has_v :: bool

record llama_kv_cache =
  kv_hparams :: llama_hparams
  kv_arch_step35 :: bool
  kv_v_trans :: bool
  kv_n_seq_max :: nat
  kv_n_stream :: nat
  kv_n_pad :: nat
  kv_n_swa :: nat
  kv_swa_type :: llama_swa_type
  kv_v_heads :: "nat list"
  kv_v_cells :: "llama_kv_cells list"
  kv_seq_to_stream :: "nat list"
  kv_sc_ssrc :: "nat list"
  kv_sc_sdst :: "nat list"
  kv_layers :: "kv_layer list"
  kv_map_layer_ids :: "nat \<Rightarrow> nat option"

section \<open>Construction\<close>

definition kv_init_streams :: "nat \<Rightarrow> nat \<Rightarrow> nat list \<times> llama_kv_cells list \<times> nat list" where
  "kv_init_streams n_stream kv_size =
     (let seq_to_stream = replicate (nat LLAMA_MAX_SEQ) 0 in
      (replicate n_stream 0, replicate n_stream (kc_resize kv_size kv_cells_empty),
       if n_stream > 1 then [0..<n_stream] else seq_to_stream))"

definition kv_add_layer :: "llama_hparams \<Rightarrow> bool \<Rightarrow> (nat \<Rightarrow> bool) option \<Rightarrow> nat \<Rightarrow>
    kv_layer list \<times> (nat \<Rightarrow> nat option) \<Rightarrow> (kv_layer list \<times> (nat \<Rightarrow> nat option)) option" where
  "kv_add_layer hp v_trans filt il = (\<lambda>(layers, ids).
     if \<not> has_kv il hp then Some (layers, ids)
     else if (case filt of None \<Rightarrow> False | Some f \<Rightarrow> \<not> f il) then Some (layers, ids)
     else do {
       mla \<leftarrow> is_mla hp;
       k \<leftarrow> n_embd_k_gqa il hp;
       v \<leftarrow> (if \<not> v_trans then n_embd_v_gqa il hp else n_embd_v_gqa_max hp);
       Some (layers @ [\<lparr>kl_il = il, kl_n_embd_k = k, kl_n_embd_v = v, kl_has_v = \<not> mla\<rparr>],
             ids(il \<mapsto> length layers)) })"

definition kv_reuse_layer :: "(nat \<Rightarrow> bool) option \<Rightarrow> (nat \<Rightarrow> int) \<Rightarrow> nat \<Rightarrow> (nat \<Rightarrow> nat option) \<Rightarrow> (nat \<Rightarrow> nat option) option" where
  "kv_reuse_layer filt reuse il ids =
     (if reuse il < 0 then Some ids
      else if (case filt of None \<Rightarrow> False | Some f \<Rightarrow> \<not> f il) then Some ids
      else do { ggml_assert (ids (nat (reuse il)) \<noteq> None); Some (ids(il := ids (nat (reuse il)))) })"

definition kv_cache_new :: "llama_hparams \<Rightarrow> bool \<Rightarrow> bool \<Rightarrow> bool \<Rightarrow> nat \<Rightarrow> nat \<Rightarrow> nat \<Rightarrow> nat \<Rightarrow> llama_swa_type \<Rightarrow>
    (nat \<Rightarrow> bool) option \<Rightarrow> (nat \<Rightarrow> int) option \<Rightarrow> llama_kv_cache option" where
  "kv_cache_new hp arch_step35 v_trans unified kv_size n_seq_max n_pad n_swa swa_type filt reuse = do {
     let n_stream = (if unified then 1 else n_seq_max);
     ggml_assert (n_pad \<noteq> 0 \<and> kv_size mod n_pad = 0);
     ggml_assert (n_stream = 1 \<or> n_stream = n_seq_max);
     let (heads, cells, s2s) = kv_init_streams n_stream kv_size;
     _ \<leftarrow> is_mla hp;
     (layers, ids) \<leftarrow> for_each (kv_add_layer hp v_trans filt) [0..<hp_n_layer hp] ([], \<lambda>_. None);
     ids \<leftarrow> (case reuse of
         None \<Rightarrow> Some ids
       | Some r \<Rightarrow> for_each (kv_reuse_layer filt r) [0..<hp_n_layer hp] ids);
     Some \<lparr>kv_hparams = hp, kv_arch_step35 = arch_step35, kv_v_trans = v_trans, kv_n_seq_max = n_seq_max,
       kv_n_stream = n_stream, kv_n_pad = n_pad, kv_n_swa = n_swa, kv_swa_type = swa_type,
       kv_v_heads = heads, kv_v_cells = cells, kv_seq_to_stream = s2s, kv_sc_ssrc = [], kv_sc_sdst = [],
       kv_layers = layers, kv_map_layer_ids = ids\<rparr> }"

definition kv_clear :: "llama_kv_cache \<Rightarrow> llama_kv_cache option" where
  "kv_clear kv =
     for_each (\<lambda>s kv. do {
         c \<leftarrow> at (kv_v_cells kv) s;
         _ \<leftarrow> at (kv_v_heads kv) s;
         Some (kv\<lparr>kv_v_cells := (kv_v_cells kv)[s := kc_reset c], kv_v_heads := (kv_v_heads kv)[s := 0]\<rparr>) })
       [0..<kv_n_stream kv] kv"

section \<open>Operations on sequences\<close>

text \<open>The stream of a sequence, behind the assertion that every operation starts with.\<close>

definition kv_stream_of :: "llama_seq_id \<Rightarrow> llama_kv_cache \<Rightarrow> nat option" where
  "kv_stream_of s kv = do {
     ggml_assert (s \<ge> 0 \<and> nat s < length (kv_seq_to_stream kv));
     at (kv_seq_to_stream kv) (nat s) }"

definition range_p0 :: "llama_pos \<Rightarrow> llama_pos" where
  "range_p0 p0 = (if p0 < 0 then 0 else p0)"

definition range_p1 :: "llama_pos \<Rightarrow> llama_pos" where
  "range_p1 p1 = (if p1 < 0 then INT32_MAX else p1)"

text \<open>One loop over the cells of stream \<open>st\<close>, which moves the head to the first freed cell.\<close>

definition kv_stream_sweep :: "(nat \<Rightarrow> llama_kv_cells \<Rightarrow> (bool \<times> llama_kv_cells) option) \<Rightarrow> nat \<Rightarrow> llama_kv_cache \<Rightarrow>
    llama_kv_cache option" where
  "kv_stream_sweep body st kv = do {
     c \<leftarrow> at (kv_v_cells kv) st;
     hd0 \<leftarrow> at (kv_v_heads kv) st;
     (c, new_head) \<leftarrow> sweep body c;
     Some (kv\<lparr>kv_v_cells := (kv_v_cells kv)[st := c],
              kv_v_heads := (if new_head \<noteq> kc_size c \<and> new_head < hd0
                             then (kv_v_heads kv)[st := new_head] else kv_v_heads kv)\<rparr>) }"

definition rm_body :: "llama_seq_id \<Rightarrow> llama_pos \<Rightarrow> llama_pos \<Rightarrow> nat \<Rightarrow> llama_kv_cells \<Rightarrow> (bool \<times> llama_kv_cells) option" where
  "rm_body s p0 p1 i c = do {
     r \<leftarrow> kc_pos_in i p0 p1 c;
     if \<not> r then Some (False, c)
     else do {
       h \<leftarrow> kc_seq_has i s c;
       if h then kc_seq_rm i s c else Some (False, c) } }"

definition rm_any_body :: "llama_pos \<Rightarrow> llama_pos \<Rightarrow> nat \<Rightarrow> llama_kv_cells \<Rightarrow> (bool \<times> llama_kv_cells) option" where
  "rm_any_body p0 p1 i c = do {
     r \<leftarrow> kc_pos_in i p0 p1 c;
     if \<not> r then Some (False, c)
     else do { c \<leftarrow> kc_rm i c; Some (True, c) } }"

definition kv_seq_rm :: "llama_seq_id \<Rightarrow> llama_pos \<Rightarrow> llama_pos \<Rightarrow> llama_kv_cache \<Rightarrow> (bool \<times> llama_kv_cache) option" where
  "kv_seq_rm s p0 p1 kv = do {
     ggml_assert (s = - 1 \<or> (s \<ge> 0 \<and> nat s < length (kv_seq_to_stream kv)));
     let p0 = range_p0 p0;
     let p1 = range_p1 p1;
     if s \<ge> 0 then do {
       st \<leftarrow> at (kv_seq_to_stream kv) (nat s);
       kv \<leftarrow> kv_stream_sweep (rm_body s p0 p1) st kv;
       Some (True, kv) }
     else do {
       kv \<leftarrow> for_each (kv_stream_sweep (rm_any_body p0 p1)) [0..<kv_n_stream kv] kv;
       Some (True, kv) } }"

definition cp_body :: "llama_seq_id \<Rightarrow> llama_seq_id \<Rightarrow> llama_pos \<Rightarrow> llama_pos \<Rightarrow> nat \<Rightarrow> llama_kv_cells \<Rightarrow>
    (bool \<times> llama_kv_cells) option" where
  "cp_body src dst p0 p1 i c = do {
     r \<leftarrow> kc_pos_in i p0 p1 c;
     if \<not> r then Some (False, c)
     else do {
       h \<leftarrow> kc_seq_has i src c;
       if h then do { c \<leftarrow> kc_seq_add i dst c; Some (False, c) } else Some (False, c) } }"

definition kv_get_size :: "llama_kv_cache \<Rightarrow> nat option" where
  "kv_get_size kv = do {
     st \<leftarrow> at (kv_seq_to_stream kv) 0;
     c \<leftarrow> at (kv_v_cells kv) st;
     Some (kc_size c) }"

text \<open>The copy of cell \<open>i\<close> of the source stream into the (reset) destination stream.\<close>

definition cp_cell :: "llama_seq_id \<Rightarrow> llama_seq_id \<Rightarrow> llama_kv_cells \<Rightarrow> nat \<Rightarrow> llama_kv_cells \<Rightarrow> llama_kv_cells option" where
  "cp_cell src dst c0 i c1 = do {
     h \<leftarrow> kc_seq_has i src c0;
     if \<not> h then Some c1
     else do {
       p \<leftarrow> kc_pos_get i c0;
       shift \<leftarrow> kc_get_shift i c0;
       ext \<leftarrow> kc_ext_get i c0;
       p \<leftarrow> (if shift \<noteq> 0 then do { q \<leftarrow> i32_sub p shift; ggml_assert (q \<ge> 0); Some q } else Some p);
       c1 \<leftarrow> kc_pos_set i p c1;
       c1 \<leftarrow> kc_seq_add i dst c1;
       c1 \<leftarrow> (if shift \<noteq> 0 then do { (_, c1) \<leftarrow> kc_pos_add i shift c1; Some c1 } else Some c1);
       kc_ext_set i ext c1 } }"

definition kv_seq_cp :: "llama_seq_id \<Rightarrow> llama_seq_id \<Rightarrow> llama_pos \<Rightarrow> llama_pos \<Rightarrow> llama_kv_cache \<Rightarrow> llama_kv_cache option" where
  "kv_seq_cp src dst p0 p1 kv = do {
     s0 \<leftarrow> kv_stream_of src kv;
     s1 \<leftarrow> kv_stream_of dst kv;
     if s0 = s1 then
       (if src = dst then Some kv
        else do {
          c \<leftarrow> at (kv_v_cells kv) s0;
          (c, _) \<leftarrow> sweep (cp_body src dst (range_p0 p0) (range_p1 p1)) c;
          Some (kv\<lparr>kv_v_cells := (kv_v_cells kv)[s0 := c]\<rparr>) })
     else do {
       n \<leftarrow> kv_get_size kv;
       lo \<leftarrow> (if p0 > 0 then do { q \<leftarrow> i32_add p0 1; Some (q < int n) } else Some False);
       hi \<leftarrow> (if p1 > 0 then do { q \<leftarrow> i32_add p1 1; Some (q < int n) } else Some False);
       let is_full = (\<not> lo \<and> \<not> hi);
       ggml_assert is_full;
       let kv = kv\<lparr>kv_sc_ssrc := kv_sc_ssrc kv @ [s0], kv_sc_sdst := kv_sc_sdst kv @ [s1]\<rparr>;
       c1 \<leftarrow> at (kv_v_cells kv) s1;
       c0 \<leftarrow> at (kv_v_cells kv) s0;
       c1 \<leftarrow> for_each (cp_cell src dst c0) [0..<kc_size c0] (kc_reset c1);
       h0 \<leftarrow> at (kv_v_heads kv) s0;
       Some (kv\<lparr>kv_v_cells := (kv_v_cells kv)[s1 := c1], kv_v_heads := (kv_v_heads kv)[s1 := h0]\<rparr>) } }"

definition kv_seq_keep :: "llama_seq_id \<Rightarrow> llama_kv_cache \<Rightarrow> llama_kv_cache option" where
  "kv_seq_keep s kv = do { st \<leftarrow> kv_stream_of s kv; kv_stream_sweep (\<lambda>i. kc_seq_keep i s) st kv }"

definition add_body :: "llama_seq_id \<Rightarrow> llama_pos \<Rightarrow> llama_pos \<Rightarrow> llama_pos \<Rightarrow> nat \<Rightarrow> llama_kv_cells \<Rightarrow>
    (bool \<times> llama_kv_cells) option" where
  "add_body s p0 p1 shift i c = do {
     r \<leftarrow> kc_pos_in i p0 p1 c;
     if \<not> r then Some (False, c)
     else do {
       h \<leftarrow> kc_seq_has i s c;
       if h then kc_pos_add i shift c else Some (False, c) } }"

definition kv_seq_add :: "llama_seq_id \<Rightarrow> llama_pos \<Rightarrow> llama_pos \<Rightarrow> llama_pos \<Rightarrow> llama_kv_cache \<Rightarrow> llama_kv_cache option" where
  "kv_seq_add s p0 p1 shift kv = do {
     st \<leftarrow> kv_stream_of s kv;
     ggml_assert (n_pos_per_embd (kv_hparams kv) = 1);
     if shift = 0 then Some kv
     else if range_p0 p0 = range_p1 p1 then Some kv
     else do {
       c \<leftarrow> at (kv_v_cells kv) st;
       _ \<leftarrow> at (kv_v_heads kv) st;
       (c, new_head) \<leftarrow> sweep (add_body s (range_p0 p0) (range_p1 p1) shift) c;
       Some (kv\<lparr>kv_v_cells := (kv_v_cells kv)[st := c],
                kv_v_heads := (kv_v_heads kv)[st := if new_head \<noteq> kc_size c then new_head else 0]\<rparr>) } }"

definition div_body :: "llama_seq_id \<Rightarrow> llama_pos \<Rightarrow> llama_pos \<Rightarrow> int \<Rightarrow> nat \<Rightarrow> llama_kv_cells \<Rightarrow>
    (bool \<times> llama_kv_cells) option" where
  "div_body s p0 p1 d i c = do {
     r \<leftarrow> kc_pos_in i p0 p1 c;
     if \<not> r then Some (False, c)
     else do {
       h \<leftarrow> kc_seq_has i s c;
       if h then do { c \<leftarrow> kc_pos_div i d c; Some (False, c) } else Some (False, c) } }"

definition kv_seq_div :: "llama_seq_id \<Rightarrow> llama_pos \<Rightarrow> llama_pos \<Rightarrow> int \<Rightarrow> llama_kv_cache \<Rightarrow> llama_kv_cache option" where
  "kv_seq_div s p0 p1 d kv = do {
     st \<leftarrow> kv_stream_of s kv;
     ggml_assert (n_pos_per_embd (kv_hparams kv) = 1);
     if d = 1 then Some kv
     else if range_p0 p0 = range_p1 p1 then Some kv
     else do {
       c \<leftarrow> at (kv_v_cells kv) st;
       (c, _) \<leftarrow> sweep (div_body s (range_p0 p0) (range_p1 p1) d) c;
       Some (kv\<lparr>kv_v_cells := (kv_v_cells kv)[st := c]\<rparr>) } }"

definition kv_seq_pos_min :: "llama_seq_id \<Rightarrow> llama_kv_cache \<Rightarrow> llama_pos option" where
  "kv_seq_pos_min s kv = do { st \<leftarrow> kv_stream_of s kv; c \<leftarrow> at (kv_v_cells kv) st; kc_seq_pos_min s c }"

definition kv_seq_pos_max :: "llama_seq_id \<Rightarrow> llama_kv_cache \<Rightarrow> llama_pos option" where
  "kv_seq_pos_max s kv = do { st \<leftarrow> kv_stream_of s kv; c \<leftarrow> at (kv_v_cells kv) st; kc_seq_pos_max s c }"

definition kv_get_can_shift :: "llama_kv_cache \<Rightarrow> bool" where
  "kv_get_can_shift kv = (if kv_arch_step35 kv then False else True)"

definition kv_get_n_stream :: "llama_kv_cache \<Rightarrow> nat" where
  "kv_get_n_stream kv = kv_n_stream kv"

definition kv_get_has_shift :: "llama_kv_cache \<Rightarrow> bool option" where
  "kv_get_has_shift kv =
     for_each (\<lambda>s r. do { c \<leftarrow> at (kv_v_cells kv) s; Some (r \<or> kc_has_shift c) }) [0..<kv_n_stream kv] False"

section \<open>The invariant of the cache\<close>

text \<open>Every occupied cell belongs to a sequence, and an empty one has no pending shift.\<close>

definition occupied_ok :: "cell \<Rightarrow> bool" where
  "occupied_ok x \<longleftrightarrow> (cl_pos x = - 1 \<longleftrightarrow> cl_seq x = {}) \<and> (cl_pos x = - 1 \<longrightarrow> cl_shift x = 0)"

definition stream_ok :: "nat \<Rightarrow> llama_kv_cells \<Rightarrow> nat \<Rightarrow> bool" where
  "stream_ok n c h \<longleftrightarrow> kv_cells_inv c \<and> length (kc_pos c) = n \<and> h \<le> n \<and> (\<forall>x\<in>set (cells_of c). occupied_ok x)"

definition kv_inv :: "llama_kv_cache \<Rightarrow> bool" where
  "kv_inv kv \<longleftrightarrow>
     0 < kv_n_stream kv \<and> kv_n_stream kv \<le> nat LLAMA_MAX_SEQ \<and>
     length (kv_v_cells kv) = kv_n_stream kv \<and> length (kv_v_heads kv) = kv_n_stream kv \<and>
     kv_seq_to_stream kv = (if kv_n_stream kv > 1 then [0..<kv_n_stream kv] else replicate (nat LLAMA_MAX_SEQ) 0) \<and>
     (\<forall>st<kv_n_stream kv. stream_ok (length (kc_pos (kv_v_cells kv ! 0))) (kv_v_cells kv ! st) (kv_v_heads kv ! st))"

text \<open>The abstract view: the cells of a stream.\<close>

abbreviation stream_cells :: "llama_kv_cache \<Rightarrow> nat \<Rightarrow> cell list" where
  "stream_cells kv st \<equiv> cells_of (kv_v_cells kv ! st)"

definition same_config :: "llama_kv_cache \<Rightarrow> llama_kv_cache \<Rightarrow> bool" where
  "same_config kv kv' \<longleftrightarrow>
     kv_hparams kv' = kv_hparams kv \<and> kv_arch_step35 kv' = kv_arch_step35 kv \<and> kv_v_trans kv' = kv_v_trans kv \<and>
     kv_n_seq_max kv' = kv_n_seq_max kv \<and> kv_n_stream kv' = kv_n_stream kv \<and> kv_n_pad kv' = kv_n_pad kv \<and>
     kv_n_swa kv' = kv_n_swa kv \<and> kv_swa_type kv' = kv_swa_type kv \<and> kv_seq_to_stream kv' = kv_seq_to_stream kv \<and>
     kv_layers kv' = kv_layers kv \<and> kv_map_layer_ids kv' = kv_map_layer_ids kv"

lemma same_config_refl [simp]: "same_config kv kv"
  by (simp add: same_config_def)

lemma same_config_trans: "same_config a b \<Longrightarrow> same_config b c \<Longrightarrow> same_config a c"
  by (simp add: same_config_def)

lemma kv_invD:
  assumes "kv_inv kv" and "st < kv_n_stream kv"
  shows "kv_cells_inv (kv_v_cells kv ! st)" "st < length (kv_v_cells kv)" "st < length (kv_v_heads kv)"
    "length (kc_pos (kv_v_cells kv ! st)) = length (kc_pos (kv_v_cells kv ! 0))"
    "kv_v_heads kv ! st \<le> length (kc_pos (kv_v_cells kv ! st))"
    "\<forall>x\<in>set (stream_cells kv st). occupied_ok x"
proof -
  have "stream_ok (length (kc_pos (kv_v_cells kv ! 0))) (kv_v_cells kv ! st) (kv_v_heads kv ! st)"
    using assms unfolding kv_inv_def by blast
  then show "kv_cells_inv (kv_v_cells kv ! st)" "length (kc_pos (kv_v_cells kv ! st)) = length (kc_pos (kv_v_cells kv ! 0))"
    "kv_v_heads kv ! st \<le> length (kc_pos (kv_v_cells kv ! st))" "\<forall>x\<in>set (stream_cells kv st). occupied_ok x"
    unfolding stream_ok_def by simp_all
  show "st < length (kv_v_cells kv)" "st < length (kv_v_heads kv)" using assms by (simp_all add: kv_inv_def)
qed

lemma kv_stream_of_spec:
  assumes "kv_inv kv" and "0 \<le> s" and "nat s < length (kv_seq_to_stream kv)"
  shows "\<exists>st. kv_stream_of s kv = Some st \<and> at (kv_seq_to_stream kv) (nat s) = Some st \<and> st < kv_n_stream kv \<and>
    st = kv_seq_to_stream kv ! nat s \<and> bitset_idx s"
proof -
  have "kv_seq_to_stream kv ! nat s < kv_n_stream kv \<and> length (kv_seq_to_stream kv) \<le> nat LLAMA_MAX_SEQ"
    using assms(1,3) unfolding kv_inv_def by (cases "kv_n_stream kv > 1") auto
  with assms(2,3) show ?thesis by (auto simp: kv_stream_of_def at_def bitset_idx_def)
qed

text \<open>Replacing the cells and the head of one stream.\<close>

lemma kv_inv_update:
  assumes inv: "kv_inv kv" and st: "st < kv_n_stream kv"
    and c: "kv_cells_inv c" "length (kc_pos c) = length (kc_pos (kv_v_cells kv ! st))"
      "\<forall>x\<in>set (cells_of c). occupied_ok x"
    and h: "length hs = length (kv_v_heads kv)" "hs ! st \<le> length (kc_pos c)"
      "\<And>t. t < kv_n_stream kv \<Longrightarrow> t \<noteq> st \<Longrightarrow> hs ! t = kv_v_heads kv ! t"
  shows "kv_inv (kv\<lparr>kv_v_cells := (kv_v_cells kv)[st := c], kv_v_heads := hs\<rparr>)"
proof -
  note D = kv_invD [OF inv]
  have len: "length (kv_v_cells kv) = kv_n_stream kv" using inv by (simp add: kv_inv_def)
  have pos: "0 < kv_n_stream kv" using inv by (simp add: kv_inv_def)
  let ?cs = "(kv_v_cells kv)[st := c]"
  have z: "length (kc_pos (?cs ! 0)) = length (kc_pos (kv_v_cells kv ! 0))"
    using c(2) len st D(4) [OF st] by (cases "st = 0") simp_all
  have "stream_ok (length (kc_pos (?cs ! 0))) (?cs ! t) (hs ! t)" if t: "t < kv_n_stream kv" for t
  proof (cases "t = st")
    case True
    then show ?thesis using c h(2) len st z D(4) [OF st] by (simp add: stream_ok_def)
  next
    case False
    then show ?thesis using D(1,4,5,6) [OF t] z h(3) [OF t] by (simp add: stream_ok_def)
  qed
  with inv h(1) show ?thesis by (simp add: kv_inv_def)
qed

section \<open>What a loop does to one cell\<close>

definition in_range :: "llama_pos \<Rightarrow> llama_pos \<Rightarrow> cell \<Rightarrow> bool" where
  "in_range p0 p1 x \<longleftrightarrow> p0 \<le> cl_pos x \<and> cl_pos x < p1"

definition rm_upd :: "llama_seq_id \<Rightarrow> llama_pos \<Rightarrow> llama_pos \<Rightarrow> cell \<Rightarrow> cell" where
  "rm_upd s p0 p1 x =
     (if in_range p0 p1 x \<and> s \<in> cl_seq x
      then (if cl_seq x = {s} then empty_cell else x\<lparr>cl_seq := cl_seq x - {s}\<rparr>) else x)"

definition rm_any_upd :: "llama_pos \<Rightarrow> llama_pos \<Rightarrow> cell \<Rightarrow> cell" where
  "rm_any_upd p0 p1 x = (if in_range p0 p1 x then empty_cell else x)"

definition cp_upd :: "llama_seq_id \<Rightarrow> llama_seq_id \<Rightarrow> llama_pos \<Rightarrow> llama_pos \<Rightarrow> cell \<Rightarrow> cell" where
  "cp_upd src dst p0 p1 x =
     (if in_range p0 p1 x \<and> src \<in> cl_seq x then x\<lparr>cl_seq := insert dst (cl_seq x)\<rparr> else x)"

definition keep_upd :: "llama_seq_id \<Rightarrow> cell \<Rightarrow> cell" where
  "keep_upd s x =
     (if s \<in> cl_seq x then x\<lparr>cl_seq := {s}\<rparr> else if cl_seq x \<noteq> {} then empty_cell else x)"

definition add_upd :: "llama_seq_id \<Rightarrow> llama_pos \<Rightarrow> llama_pos \<Rightarrow> llama_pos \<Rightarrow> cell \<Rightarrow> cell" where
  "add_upd s p0 p1 d x =
     (if in_range p0 p1 x \<and> s \<in> cl_seq x
      then (if cl_pos x + d < 0 then x\<lparr>cl_seq := {}, cl_pos := - 1, cl_shift := 0\<rparr>
            else x\<lparr>cl_pos := cl_pos x + d, cl_shift := cl_shift x + d\<rparr>) else x)"

definition div_upd :: "llama_seq_id \<Rightarrow> llama_pos \<Rightarrow> llama_pos \<Rightarrow> int \<Rightarrow> cell \<Rightarrow> cell" where
  "div_upd s p0 p1 d x =
     (if in_range p0 p1 x \<and> s \<in> cl_seq x
      then x\<lparr>cl_pos := cl_pos x div d, cl_shift := cl_shift x + (cl_pos x - cl_pos x div d)\<rparr> else x)"

lemmas upd_defs = in_range_def rm_upd_def rm_any_upd_def cp_upd_def keep_upd_def add_upd_def div_upd_def

lemma kc_seq_has_in:
  assumes "i < length (kc_pos c)" and "bitset_idx s"
  shows "kc_seq_has i s c = Some (s \<in> kc_seq c ! i)"
  using assms by (auto simp: kc_seq_has_def bitset_test_def bitset_idx_def)

lemma kc_pos_in_at: "i < length (kc_pos c) \<Longrightarrow> kc_pos_in i p0 p1 c = Some (in_range p0 p1 (cells_of c ! i))"
  by (simp add: kc_pos_in_def in_range_def)

lemma cell_pos_ne:
  assumes "kv_cells_inv c" "i < length (kc_pos c)" "s \<in> kc_seq c ! i"
  shows "kc_pos c ! i \<noteq> - 1"
  using kv_cells_inv_wf [OF assms(1,2)] assms(2,3) by (auto simp: cell_wf_def)

lemma cells_update_self: "i < length (kc_pos c) \<Longrightarrow> cells_of c = (cells_of c)[i := cells_of c ! i]"
  by simp

interpretation rm_sw: cell_sweep "rm_body s p0 p1" "\<lambda>x. bitset_idx s"
    "\<lambda>x. in_range p0 p1 x \<and> cl_seq x = {s}" "rm_upd s p0 p1" for s p0 p1
proof
  fix c i
  assume a: "kv_cells_inv c" "i < length (kc_pos c)" "bitset_idx s"
  show "\<exists>c'. rm_body s p0 p1 i c = Some (in_range p0 p1 (cells_of c ! i) \<and> cl_seq (cells_of c ! i) = {s}, c') \<and>
      kv_cells_inv c' \<and> cells_of c' = (cells_of c)[i := rm_upd s p0 p1 (cells_of c ! i)]"
  proof (cases "in_range p0 p1 (cells_of c ! i) \<and> s \<in> kc_seq c ! i")
    case True
    with kc_seq_rm_spec [OF a(1,2), of s] a show ?thesis
      by (cases "kc_seq c ! i = {s}") (auto simp: rm_body_def kc_pos_in_at kc_seq_has_in rm_upd_def)
  next
    case False
    with a show ?thesis by (auto simp: rm_body_def kc_pos_in_at kc_seq_has_in rm_upd_def)
  qed
qed

interpretation rm_any_sw: cell_sweep "rm_any_body p0 p1" "\<lambda>x. 0 \<le> p0" "in_range p0 p1" "rm_any_upd p0 p1" for p0 p1
proof
  fix c i
  assume a: "kv_cells_inv c" "i < length (kc_pos c)" "0 \<le> p0"
  have "in_range p0 p1 (cells_of c ! i) \<Longrightarrow> kc_pos c ! i \<noteq> - 1" using a by (simp add: in_range_def)
  with kc_rm_spec [OF a(1,2)] a(2)
  show "\<exists>c'. rm_any_body p0 p1 i c = Some (in_range p0 p1 (cells_of c ! i), c') \<and> kv_cells_inv c' \<and>
      cells_of c' = (cells_of c)[i := rm_any_upd p0 p1 (cells_of c ! i)]"
    using a(1) by (cases "in_range p0 p1 (cells_of c ! i)") (auto simp: rm_any_body_def kc_pos_in_at rm_any_upd_def)
qed

definition cp_ok :: "llama_seq_id \<Rightarrow> llama_seq_id \<Rightarrow> llama_pos \<Rightarrow> llama_pos \<Rightarrow> cell \<Rightarrow> bool" where
  "cp_ok src dst p0 p1 x \<longleftrightarrow> bitset_idx src \<and> bitset_idx dst \<and> (in_range p0 p1 x \<and> src \<in> cl_seq x \<longrightarrow> dst \<notin> cl_seq x)"

interpretation cp_sw: cell_sweep "cp_body src dst p0 p1" "cp_ok src dst p0 p1" "\<lambda>x. False" "cp_upd src dst p0 p1" for src dst p0 p1
proof
  fix c i
  assume a: "kv_cells_inv c" "i < length (kc_pos c)" "cp_ok src dst p0 p1 (cells_of c ! i)"
  show "\<exists>c'. cp_body src dst p0 p1 i c = Some (False, c') \<and>
      kv_cells_inv c' \<and> cells_of c' = (cells_of c)[i := cp_upd src dst p0 p1 (cells_of c ! i)]"
  proof (cases "in_range p0 p1 (cells_of c ! i) \<and> src \<in> kc_seq c ! i")
    case True
    with kc_seq_add_spec [OF a(1,2), of dst] a cell_pos_ne [OF a(1,2), of src] show ?thesis
      by (auto simp: cp_body_def kc_pos_in_at kc_seq_has_in cp_upd_def cp_ok_def)
  next
    case False
    with a show ?thesis by (auto simp: cp_body_def kc_pos_in_at kc_seq_has_in cp_upd_def cp_ok_def)
  qed
qed

interpretation keep_sw: cell_sweep "\<lambda>i. kc_seq_keep i s" "\<lambda>x. bitset_idx s \<and> occupied_ok x"
    "\<lambda>x. s \<notin> cl_seq x \<and> cl_seq x \<noteq> {}" "keep_upd s" for s
proof
  fix c i
  assume a: "kv_cells_inv c" "i < length (kc_pos c)" "bitset_idx s \<and> occupied_ok (cells_of c ! i)"
  then show "\<exists>c'. kc_seq_keep i s c = Some (s \<notin> cl_seq (cells_of c ! i) \<and> cl_seq (cells_of c ! i) \<noteq> {}, c') \<and>
      kv_cells_inv c' \<and> cells_of c' = (cells_of c)[i := keep_upd s (cells_of c ! i)]"
    using kc_seq_keep_spec [OF a(1,2), of s] by (auto simp: keep_upd_def occupied_ok_def)
qed

definition add_ok :: "llama_seq_id \<Rightarrow> llama_pos \<Rightarrow> llama_pos \<Rightarrow> llama_pos \<Rightarrow> cell \<Rightarrow> bool" where
  "add_ok s p0 p1 d x \<longleftrightarrow> bitset_idx s \<and>
     (in_range p0 p1 x \<and> s \<in> cl_seq x \<longrightarrow> i32_ok (cl_pos x + d) \<and> i32_ok (cl_shift x + d))"

interpretation add_sw: cell_sweep "add_body s p0 p1 d" "add_ok s p0 p1 d"
    "\<lambda>x. in_range p0 p1 x \<and> s \<in> cl_seq x \<and> cl_pos x + d < 0" "add_upd s p0 p1 d" for s p0 p1 d
proof
  fix c i
  assume a: "kv_cells_inv c" "i < length (kc_pos c)" "add_ok s p0 p1 d (cells_of c ! i)"
  show "\<exists>c'. add_body s p0 p1 d i c = Some (in_range p0 p1 (cells_of c ! i) \<and> s \<in> cl_seq (cells_of c ! i) \<and>
        cl_pos (cells_of c ! i) + d < 0, c') \<and>
      kv_cells_inv c' \<and> cells_of c' = (cells_of c)[i := add_upd s p0 p1 d (cells_of c ! i)]"
  proof (cases "in_range p0 p1 (cells_of c ! i) \<and> s \<in> kc_seq c ! i")
    case True
    with kc_pos_add_spec [OF a(1,2), of d] a cell_pos_ne [OF a(1,2), of s] show ?thesis
      by (auto simp: add_body_def kc_pos_in_at kc_seq_has_in add_upd_def add_ok_def)
  next
    case False
    with a show ?thesis by (auto simp: add_body_def kc_pos_in_at kc_seq_has_in add_upd_def add_ok_def)
  qed
qed

definition div_ok :: "llama_seq_id \<Rightarrow> llama_pos \<Rightarrow> llama_pos \<Rightarrow> int \<Rightarrow> cell \<Rightarrow> bool" where
  "div_ok s p0 p1 d x \<longleftrightarrow> bitset_idx s \<and> 0 < d \<and>
     (in_range p0 p1 x \<and> s \<in> cl_seq x \<longrightarrow> i32_ok (cl_shift x + (cl_pos x - cl_pos x div d)))"

interpretation div_sw: cell_sweep "div_body s p0 p1 d" "div_ok s p0 p1 d" "\<lambda>x. False" "div_upd s p0 p1 d" for s p0 p1 d
proof
  fix c i
  assume a: "kv_cells_inv c" "i < length (kc_pos c)" "div_ok s p0 p1 d (cells_of c ! i)"
  show "\<exists>c'. div_body s p0 p1 d i c = Some (False, c') \<and>
      kv_cells_inv c' \<and> cells_of c' = (cells_of c)[i := div_upd s p0 p1 d (cells_of c ! i)]"
  proof (cases "in_range p0 p1 (cells_of c ! i) \<and> s \<in> kc_seq c ! i")
    case True
    with kc_pos_div_spec [OF a(1,2), of d] a cell_pos_ne [OF a(1,2), of s] show ?thesis
      by (auto simp: div_body_def kc_pos_in_at kc_seq_has_in div_upd_def div_ok_def)
  next
    case False
    with a show ?thesis by (auto simp: div_body_def kc_pos_in_at kc_seq_has_in div_upd_def div_ok_def)
  qed
qed

section \<open>Loops over a stream of the cache\<close>

text \<open>A loop whose body also keeps every occupied cell in a sequence keeps the invariant of the cache.\<close>

locale kv_sweep = cell_sweep +
  assumes upd_occ: "cell_wf x \<Longrightarrow> ok x \<Longrightarrow> occupied_ok x \<Longrightarrow> occupied_ok (upd x)"
begin

lemma sweep_stream:
  assumes inv: "kv_inv kv" and st: "st < kv_n_stream kv" and ok: "\<forall>x\<in>set (stream_cells kv st). ok x"
  shows "\<exists>c. sweep body (kv_v_cells kv ! st) = Some (c, first_index freed (stream_cells kv st)) \<and> kv_cells_inv c \<and>
    length (kc_pos c) = length (kc_pos (kv_v_cells kv ! st)) \<and> cells_of c = map upd (stream_cells kv st) \<and>
    (\<forall>x\<in>set (cells_of c). occupied_ok x)"
proof -
  note D = kv_invD [OF inv st]
  obtain c where c: "sweep body (kv_v_cells kv ! st) = Some (c, first_index freed (stream_cells kv st))" "kv_cells_inv c"
      "cells_of c = map upd (stream_cells kv st)"
    using sweep_spec [OF D(1) ok] by auto
  have "length (kc_pos c) = length (kc_pos (kv_v_cells kv ! st))"
    using arg_cong [OF c(3), of length] by simp
  moreover have "\<forall>x\<in>set (cells_of c). occupied_ok x"
    using D(1,6) ok upd_occ by (auto simp: c(3) kv_cells_inv_def)
  ultimately show ?thesis using c by auto
qed

lemma stream_sweep_spec:
  assumes inv: "kv_inv kv" and st: "st < kv_n_stream kv" and ok: "\<forall>x\<in>set (stream_cells kv st). ok x"
  shows "\<exists>kv'. kv_stream_sweep body st kv = Some kv' \<and> kv_inv kv' \<and> same_config kv kv' \<and>
    stream_cells kv' st = map upd (stream_cells kv st) \<and>
    (\<forall>t. t \<noteq> st \<longrightarrow> kv_v_cells kv' ! t = kv_v_cells kv ! t \<and> kv_v_heads kv' ! t = kv_v_heads kv ! t) \<and>
    kv_v_heads kv' ! st = min (kv_v_heads kv ! st) (first_index freed (stream_cells kv st)) \<and>
    kv_sc_ssrc kv' = kv_sc_ssrc kv \<and> kv_sc_sdst kv' = kv_sc_sdst kv"
proof -
  note D = kv_invD [OF inv st]
  let ?f = "first_index freed (stream_cells kv st)"
  obtain c where c: "sweep body (kv_v_cells kv ! st) = Some (c, ?f)" "kv_cells_inv c"
      "length (kc_pos c) = length (kc_pos (kv_v_cells kv ! st))"
      "cells_of c = map upd (stream_cells kv st)" "\<forall>x\<in>set (cells_of c). occupied_ok x"
    using sweep_stream [OF assms] by auto
  let ?hs = "if ?f \<noteq> kc_size c \<and> ?f < kv_v_heads kv ! st then (kv_v_heads kv)[st := ?f] else kv_v_heads kv"
  let ?kv = "kv\<lparr>kv_v_cells := (kv_v_cells kv)[st := c], kv_v_heads := ?hs\<rparr>"
  have "kv_stream_sweep body st kv = Some ?kv"
    using D(2,3) c(1) by (simp add: kv_stream_sweep_def at_def)
  moreover have hs: "?hs ! st = min (kv_v_heads kv ! st) ?f"
    using D(3,5) c(3) by (auto simp: kc_size_def min_def)
  moreover have "kv_inv ?kv"
  proof (rule kv_inv_update [OF inv st c(2,3,5)])
    show "?hs ! st \<le> length (kc_pos c)" unfolding hs using D(5) c(3) by simp
  qed (use st in auto)
  ultimately show ?thesis
    using c(4) D(2) by (intro exI [of _ ?kv]) (auto simp: same_config_def)
qed

end

text \<open>The loops of the cache satisfy the interface.\<close>

interpretation rm_kv: kv_sweep "rm_body s p0 p1" "\<lambda>x. bitset_idx s"
    "\<lambda>x. in_range p0 p1 x \<and> cl_seq x = {s}" "rm_upd s p0 p1" for s p0 p1
  by unfold_locales (auto simp: occupied_ok_def rm_upd_def empty_cell_def)

interpretation rm_any_kv: kv_sweep "rm_any_body p0 p1" "\<lambda>x. 0 \<le> p0" "in_range p0 p1" "rm_any_upd p0 p1" for p0 p1
  by unfold_locales (auto simp: occupied_ok_def rm_any_upd_def empty_cell_def)

interpretation cp_kv: kv_sweep "cp_body src dst p0 p1" "cp_ok src dst p0 p1" "\<lambda>x. False" "cp_upd src dst p0 p1"
    for src dst p0 p1
  by unfold_locales (auto simp: occupied_ok_def cp_upd_def)

interpretation keep_kv: kv_sweep "\<lambda>i. kc_seq_keep i s" "\<lambda>x. bitset_idx s \<and> occupied_ok x"
    "\<lambda>x. s \<notin> cl_seq x \<and> cl_seq x \<noteq> {}" "keep_upd s" for s
  by unfold_locales (auto simp: occupied_ok_def keep_upd_def empty_cell_def)

interpretation add_kv: kv_sweep "add_body s p0 p1 d" "add_ok s p0 p1 d"
    "\<lambda>x. in_range p0 p1 x \<and> s \<in> cl_seq x \<and> cl_pos x + d < 0" "add_upd s p0 p1 d" for s p0 p1 d
  by unfold_locales (auto simp: occupied_ok_def add_upd_def)

interpretation div_kv: kv_sweep "div_body s p0 p1 d" "div_ok s p0 p1 d" "\<lambda>x. False" "div_upd s p0 p1 d" for s p0 p1 d
proof unfold_locales
  fix x
  assume "cell_wf x" "div_ok s p0 p1 d x" "occupied_ok x"
  moreover from this have "0 \<le> cl_pos x \<Longrightarrow> 0 \<le> cl_pos x div d"
    by (simp add: div_ok_def pos_imp_zdiv_nonneg_iff)
  ultimately show "occupied_ok (div_upd s p0 p1 d x)"
    by (auto simp: occupied_ok_def div_upd_def cell_wf_def)
qed

section \<open>The abstract view of a sequence\<close>

text \<open>The cells of a sequence and their positions.\<close>

definition cells_view :: "cell list \<Rightarrow> llama_seq_id \<Rightarrow> (nat \<times> llama_pos) set" where
  "cells_view xs s = {(i, p). i < length xs \<and> s \<in> cl_seq (xs ! i) \<and> p = cl_pos (xs ! i)}"

definition seq_view :: "llama_kv_cache \<Rightarrow> llama_seq_id \<Rightarrow> (nat \<times> llama_pos) set" where
  "seq_view kv s = cells_view (stream_cells kv (kv_seq_to_stream kv ! nat s)) s"

definition valid_seq :: "llama_kv_cache \<Rightarrow> llama_seq_id \<Rightarrow> bool" where
  "valid_seq kv s \<longleftrightarrow> 0 \<le> s \<and> nat s < length (kv_seq_to_stream kv)"

lemma cells_view_map:
  "cells_view (map f xs) s = {(i, p). i < length xs \<and> s \<in> cl_seq (f (xs ! i)) \<and> p = cl_pos (f (xs ! i))}"
  by (auto simp: cells_view_def)

lemma view_rm_same:
  "cells_view (map (rm_upd s p0 p1) xs) s = {(i, p). (i, p) \<in> cells_view xs s \<and> \<not> (p0 \<le> p \<and> p < p1)}"
  by (auto simp: cells_view_map cells_view_def rm_upd_def in_range_def empty_cell_def split: if_splits)

lemma view_rm_other: "t \<noteq> s \<Longrightarrow> cells_view (map (rm_upd s p0 p1) xs) t = cells_view xs t"
  by (auto simp: cells_view_map cells_view_def rm_upd_def in_range_def empty_cell_def split: if_splits)

lemma view_rm_any:
  "cells_view (map (rm_any_upd p0 p1) xs) s = {(i, p). (i, p) \<in> cells_view xs s \<and> \<not> (p0 \<le> p \<and> p < p1)}"
  by (auto simp: cells_view_map cells_view_def rm_any_upd_def in_range_def empty_cell_def split: if_splits)

lemma view_cp_dst:
  "cells_view (map (cp_upd src dst p0 p1) xs) dst =
   cells_view xs dst \<union> {(i, p). (i, p) \<in> cells_view xs src \<and> p0 \<le> p \<and> p < p1}"
  by (auto simp: cells_view_map cells_view_def cp_upd_def in_range_def split: if_splits)

lemma view_cp_other: "t \<noteq> dst \<Longrightarrow> cells_view (map (cp_upd src dst p0 p1) xs) t = cells_view xs t"
  by (auto simp: cells_view_map cells_view_def cp_upd_def in_range_def split: if_splits)

lemma view_keep: "cells_view (map (keep_upd s) xs) t = (if t = s then cells_view xs s else {})"
  by (auto simp: cells_view_map cells_view_def keep_upd_def empty_cell_def split: if_splits)

lemma view_add:
  "cells_view (map (add_upd s p0 p1 d) xs) t =
   {(i, q). \<exists>p. (i, p) \<in> cells_view xs t \<and>
      (if (i, p) \<in> cells_view xs s \<and> p0 \<le> p \<and> p < p1 then 0 \<le> p + d \<and> q = p + d else q = p)}"
  by (auto simp: cells_view_map cells_view_def add_upd_def in_range_def split: if_splits)

lemma view_div:
  "cells_view (map (div_upd s p0 p1 d) xs) t =
   {(i, q). \<exists>p. (i, p) \<in> cells_view xs t \<and>
      q = (if (i, p) \<in> cells_view xs s \<and> p0 \<le> p \<and> p < p1 then p div d else p)}"
  by (auto simp: cells_view_map cells_view_def div_upd_def in_range_def split: if_splits)

lemma valid_seq_stream:
  assumes "kv_inv kv" and "valid_seq kv s"
  shows "kv_stream_of s kv = Some (kv_seq_to_stream kv ! nat s)" "kv_seq_to_stream kv ! nat s < kv_n_stream kv"
    "bitset_idx s" "at (kv_seq_to_stream kv) (nat s) = Some (kv_seq_to_stream kv ! nat s)"
  using kv_stream_of_spec [OF assms(1), of s] assms(2) by (auto simp: valid_seq_def)

text \<open>With several streams, different sequences have different streams.\<close>

lemma seq_to_stream_eq:
  assumes "kv_inv kv" "valid_seq kv s" "valid_seq kv t"
  shows "kv_seq_to_stream kv ! nat s = kv_seq_to_stream kv ! nat t \<longleftrightarrow> kv_n_stream kv = 1 \<or> s = t"
proof (cases "kv_n_stream kv > 1")
  case True
  with assms show ?thesis by (auto simp: kv_inv_def valid_seq_def)
next
  case False
  with assms show ?thesis by (auto simp: kv_inv_def valid_seq_def)
qed

text \<open>The view of a sequence whose stream an operation did not touch.\<close>

lemma seq_view_other:
  assumes "same_config kv kv'" and "\<forall>t. t \<noteq> st \<longrightarrow> kv_v_cells kv' ! t = kv_v_cells kv ! t"
    and "kv_seq_to_stream kv ! nat s \<noteq> st"
  shows "seq_view kv' s = seq_view kv s"
  using assms by (simp add: seq_view_def same_config_def)

lemma seq_view_same:
  assumes "same_config kv kv'" and "stream_cells kv' (kv_seq_to_stream kv ! nat s) = xs"
  shows "seq_view kv' s = cells_view xs s"
  using assms by (simp add: seq_view_def same_config_def)

lemma finite_cells_view [simp]: "finite (cells_view xs s)"
  by (rule finite_subset [of _ "(\<lambda>i. (i, cl_pos (xs ! i))) ` {..<length xs}"]) (auto simp: cells_view_def)

lemma seq_positions_view: "seq_positions xs s = snd ` cells_view xs s"
  by (auto simp: seq_positions_def cells_view_def image_iff in_set_conv_nth)

lemma kv_seq_pos_spec:
  assumes inv: "kv_inv kv" and s: "valid_seq kv s"
  shows "kv_seq_pos_min s kv = Some (if seq_view kv s = {} then - 1 else Min (snd ` seq_view kv s))"
    and "kv_seq_pos_max s kv = Some (if seq_view kv s = {} then - 1 else Max (snd ` seq_view kv s))"
  using valid_seq_stream [OF assms] kv_invD [OF inv valid_seq_stream(2) [OF assms]]
  by (simp_all add: kv_seq_pos_min_def kv_seq_pos_max_def at_def kc_seq_pos_min_spec kc_seq_pos_max_spec
      seq_positions_view seq_view_def)

section \<open>The operations\<close>

lemma kv_seq_rm_spec:
  assumes inv: "kv_inv kv" and s: "valid_seq kv s"
  shows "\<exists>kv'. kv_seq_rm s p0 p1 kv = Some (True, kv') \<and> kv_inv kv' \<and> same_config kv kv' \<and>
    stream_cells kv' (kv_seq_to_stream kv ! nat s) =
      map (rm_upd s (range_p0 p0) (range_p1 p1)) (stream_cells kv (kv_seq_to_stream kv ! nat s)) \<and>
    (\<forall>t. t \<noteq> kv_seq_to_stream kv ! nat s \<longrightarrow> kv_v_cells kv' ! t = kv_v_cells kv ! t \<and> kv_v_heads kv' ! t = kv_v_heads kv ! t) \<and>
    kv_v_heads kv' ! (kv_seq_to_stream kv ! nat s) \<le> kv_v_heads kv ! (kv_seq_to_stream kv ! nat s)"
proof -
  note S = valid_seq_stream [OF assms]
  have "s \<ge> 0" "nat s < length (kv_seq_to_stream kv)" using s by (auto simp: valid_seq_def)
  with rm_kv.stream_sweep_spec [OF inv S(2), of s "range_p0 p0" "range_p1 p1"] S show ?thesis
    by (auto simp: kv_seq_rm_def at_def)
qed

lemma kv_seq_rm_any_spec:
  assumes inv: "kv_inv kv"
  shows "\<exists>kv'. kv_seq_rm (- 1) p0 p1 kv = Some (True, kv') \<and> kv_inv kv' \<and> same_config kv kv' \<and>
    (\<forall>st<kv_n_stream kv. stream_cells kv' st = map (rm_any_upd (range_p0 p0) (range_p1 p1)) (stream_cells kv st))"
proof -
  let ?n = "kv_n_stream kv" and ?u = "rm_any_upd (range_p0 p0) (range_p1 p1)"
  let ?I = "\<lambda>k t. kv_inv t \<and> same_config kv t \<and>
    (\<forall>st<?n. stream_cells t st = (if st < k then map ?u (stream_cells kv st) else stream_cells kv st))"
  have "\<exists>t. for_each (kv_stream_sweep (rm_any_body (range_p0 p0) (range_p1 p1))) [0..<?n] kv = Some t \<and> ?I ?n t"
  proof (rule for_upto_rule [where I = ?I])
    fix i t
    assume i: "i < ?n" and I: "?I i t"
    then have "i < kv_n_stream t" by (simp add: same_config_def)
    moreover have "\<forall>x\<in>set (stream_cells t i). 0 \<le> range_p0 p0" by (simp add: range_p0_def)
    ultimately obtain t' where t': "kv_stream_sweep (rm_any_body (range_p0 p0) (range_p1 p1)) i t = Some t'" "kv_inv t'"
        "same_config t t'" "stream_cells t' i = map ?u (stream_cells t i)"
        "\<forall>u. u \<noteq> i \<longrightarrow> kv_v_cells t' ! u = kv_v_cells t ! u"
      using rm_any_kv.stream_sweep_spec [of t i "range_p0 p0" "range_p1 p1"] I by auto
    have "stream_cells t' st = (if st < Suc i then map ?u (stream_cells kv st) else stream_cells kv st)" if "st < ?n" for st
      using I t'(4,5) that i by (cases "st = i") (auto simp: less_Suc_eq)
    with t' I show "\<exists>t'. kv_stream_sweep (rm_any_body (range_p0 p0) (range_p1 p1)) i t = Some t' \<and> ?I (Suc i) t'"
      using same_config_trans by blast
  qed (use inv in simp)
  then show ?thesis by (auto simp: kv_seq_rm_def)
qed

lemma kv_seq_keep_spec:
  assumes inv: "kv_inv kv" and s: "valid_seq kv s"
  shows "\<exists>kv'. kv_seq_keep s kv = Some kv' \<and> kv_inv kv' \<and> same_config kv kv' \<and>
    stream_cells kv' (kv_seq_to_stream kv ! nat s) = map (keep_upd s) (stream_cells kv (kv_seq_to_stream kv ! nat s)) \<and>
    (\<forall>t. t \<noteq> kv_seq_to_stream kv ! nat s \<longrightarrow> kv_v_cells kv' ! t = kv_v_cells kv ! t)"
  using keep_kv.stream_sweep_spec [OF inv valid_seq_stream(2) [OF assms], of s] valid_seq_stream [OF assms]
    kv_invD(6) [OF inv valid_seq_stream(2) [OF assms]]
  by (auto simp: kv_seq_keep_def)

text \<open>Replacing one stream of cells and leaving the head alone.\<close>

lemma kv_inv_update_cells:
  assumes inv: "kv_inv kv" and st: "st < kv_n_stream kv"
    and c: "kv_cells_inv c" "length (kc_pos c) = length (kc_pos (kv_v_cells kv ! st))"
      "\<forall>x\<in>set (cells_of c). occupied_ok x"
  shows "kv_inv (kv\<lparr>kv_v_cells := (kv_v_cells kv)[st := c]\<rparr>)"
proof -
  have "kv\<lparr>kv_v_cells := (kv_v_cells kv)[st := c]\<rparr> =
      kv\<lparr>kv_v_cells := (kv_v_cells kv)[st := c], kv_v_heads := kv_v_heads kv\<rparr>" by simp
  then show ?thesis
    using kv_inv_update [OF inv st c refl] kv_invD(5) [OF inv st] c(2) by simp
qed

lemma kv_seq_cp_same_spec:
  assumes inv: "kv_inv kv" and src: "valid_seq kv src" and dst: "valid_seq kv dst" and ne: "src \<noteq> dst"
    and one: "kv_n_stream kv = 1"
    and fresh: "\<forall>x\<in>set (stream_cells kv 0). in_range (range_p0 p0) (range_p1 p1) x \<and> src \<in> cl_seq x \<longrightarrow> dst \<notin> cl_seq x"
  shows "\<exists>kv'. kv_seq_cp src dst p0 p1 kv = Some kv' \<and> kv_inv kv' \<and> same_config kv kv' \<and>
    stream_cells kv' 0 = map (cp_upd src dst (range_p0 p0) (range_p1 p1)) (stream_cells kv 0) \<and>
    kv_v_heads kv' = kv_v_heads kv"
proof -
  note S = valid_seq_stream [OF inv src] and T = valid_seq_stream [OF inv dst]
  have st: "kv_seq_to_stream kv ! nat src = 0" "kv_seq_to_stream kv ! nat dst = 0" "0 < kv_n_stream kv"
    using S(2) T(2) one by auto
  obtain c where c: "sweep (cp_body src dst (range_p0 p0) (range_p1 p1)) (kv_v_cells kv ! 0) =
        Some (c, first_index (\<lambda>x. False) (stream_cells kv 0))" "kv_cells_inv c"
      "length (kc_pos c) = length (kc_pos (kv_v_cells kv ! 0))"
      "cells_of c = map (cp_upd src dst (range_p0 p0) (range_p1 p1)) (stream_cells kv 0)" "\<forall>x\<in>set (cells_of c). occupied_ok x"
    using cp_kv.sweep_stream [OF inv st(3), of src dst "range_p0 p0" "range_p1 p1"] fresh S(3) T(3) by (auto simp: cp_ok_def)
  from kv_inv_update_cells [OF inv st(3) c(2,3,5)] c kv_invD(2) [OF inv st(3)] S T st ne show ?thesis
    by (auto simp: kv_seq_cp_def at_def same_config_def)
qed

text \<open>The copy to another stream.\<close>

definition cross_cell :: "llama_seq_id \<Rightarrow> llama_seq_id \<Rightarrow> cell \<Rightarrow> cell" where
  "cross_cell src dst x = (if src \<in> cl_seq x then x\<lparr>cl_seq := {dst}\<rparr> else empty_cell)"

lemma cp_cell_spec:
  assumes inv: "kv_cells_inv c0" "kv_cells_inv c1" and len: "length (kc_pos c1) = length (kc_pos c0)"
    and i: "i < length (kc_pos c0)" and e: "cells_of c1 ! i = empty_cell"
    and b: "bitset_idx src" "bitset_idx dst"
    and sh: "src \<in> kc_seq c0 ! i \<Longrightarrow> kc_shift c0 ! i \<noteq> 0 \<Longrightarrow>
      0 \<le> kc_pos c0 ! i - kc_shift c0 ! i \<and> i32_ok (kc_pos c0 ! i - kc_shift c0 ! i) \<and> i32_ok (kc_shift c0 ! i)"
  shows "\<exists>c. cp_cell src dst c0 i c1 = Some c \<and> kv_cells_inv c \<and>
    cells_of c = (cells_of c1)[i := cross_cell src dst (cells_of c0 ! i)]"
proof (cases "src \<in> kc_seq c0 ! i")
  case False
  have "(cells_of c1)[i := cross_cell src dst (cells_of c0 ! i)] = cells_of c1"
    using False e i len by (simp add: cross_cell_def list_update_same_conv)
  with False i b inv show ?thesis by (auto simp: cp_cell_def kc_seq_has_in)
next
  case True
  let ?p = "kc_pos c0 ! i" and ?s = "kc_shift c0 ! i" and ?x = "cells_of c0 ! i"
  have i1: "i < length (kc_pos c1)" using i len by simp
  have wf: "cell_wf ?x" using kv_cells_inv_wf [OF inv(1) i] .
  have p: "0 \<le> ?p" "i32_ok ?p" "?p \<noteq> - 1" using wf cell_pos_ne [OF inv(1) i True] i by (auto simp: cell_wf_def)
  have e1: "kc_pos c1 ! i = - 1" "kc_seq c1 ! i = {}" "kc_shift c1 ! i = 0"
    using e i1 cell_fields [OF i1] by (simp_all add: empty_cell_def)
  define q where "q = (if ?s \<noteq> 0 then ?p - ?s else ?p)"
  have q: "0 \<le> q" "i32_ok q" using sh [OF True] p by (auto simp: q_def)
  obtain c2 where c2: "kc_pos_set i q c1 = Some c2" "kv_cells_inv c2" "cells_of c2 = (cells_of c1)[i := (cells_of c1 ! i)\<lparr>cl_pos := q\<rparr>]"
    using kc_pos_set_spec [OF inv(2) i1 e1(1) q] by auto
  have i2: "i < length (kc_pos c2)" using arg_cong [OF c2(3), of length] i1 by simp
  have f2: "kc_pos c2 ! i = q" "kc_seq c2 ! i = {}"
    using cell_fields [OF i2] e by (simp_all add: c2(3) i1 empty_cell_def)
  obtain c3 where c3: "kc_seq_add i dst c2 = Some c3" "kv_cells_inv c3"
      "cells_of c3 = (cells_of c2)[i := (cells_of c2 ! i)\<lparr>cl_seq := {dst}\<rparr>]"
    using kc_seq_add_spec [OF c2(2) i2 _ b(2)] f2 q by auto
  have i3: "i < length (kc_pos c3)" using arg_cong [OF c3(3), of length] i2 by simp
  have f3: "kc_pos c3 ! i = q" "kc_shift c3 ! i = 0"
    using cell_fields [OF i3] e by (simp_all add: c3(3) c2(3) i1 i2 empty_cell_def)
  obtain c4 where c4: "(if ?s \<noteq> 0 then do { (_, c1) \<leftarrow> kc_pos_add i ?s c3; Some c1 } else Some c3) = Some c4"
      "kv_cells_inv c4" "cells_of c4 = (cells_of c3)[i := (cells_of c3 ! i)\<lparr>cl_pos := ?p, cl_shift := ?s\<rparr>]"
  proof (cases "?s = 0")
    case True
    have "(cells_of c3)[i := (cells_of c3 ! i)\<lparr>cl_pos := ?p, cl_shift := ?s\<rparr>] = cells_of c3"
      using True i3 f3 cell_fields [OF i3] by (simp add: list_update_same_conv q_def)
    with True c3(2) show ?thesis by (intro that [of c3]) simp_all
  next
    case False
    have "i32_ok (kc_pos c3 ! i + ?s)" "i32_ok (kc_shift c3 ! i + ?s)" "\<not> kc_pos c3 ! i + ?s < 0" "kc_pos c3 ! i \<noteq> - 1"
      using f3 False p q sh [OF \<open>src \<in> _\<close>] by (auto simp: q_def)
    with kc_pos_add_spec [OF c3(2) i3, of ?s] f3 False show ?thesis
      by (auto simp: q_def intro!: that)
  qed
  have i4: "i < length (kc_pos c4)" using arg_cong [OF c4(3), of length] i3 by simp
  obtain c5 where c5: "kc_ext_set i (kc_ext c0 ! i) c4 = Some c5" "kv_cells_inv c5"
      "cells_of c5 = (cells_of c4)[i := (cells_of c4 ! i)\<lparr>cl_ext := kc_ext c0 ! i\<rparr>]"
    using kc_ext_set_spec [OF c4(2) i4] by auto
  have "cells_of c5 = (cells_of c1)[i := cross_cell src dst ?x]"
    using i1 i2 i3 i4 i True
    by (simp add: c5(3) c4(3) c3(3) c2(3) cross_cell_def e empty_cell_def nth_cells_of)
  moreover have "cp_cell src dst c0 i c1 = Some c5"
    using True i b(1) p c2(1) c3(1) c4(1) c5(1) sh [OF True]
    by (cases "?s = 0"; cases "kc_pos_add i ?s c3")
      (auto simp: cp_cell_def kc_seq_has_in kc_pos_get_def kc_get_shift_def kc_ext_get_def q_def i32_sub_def)
  ultimately show ?thesis using c5(2) by blast
qed

lemma kv_seq_cp_cross_spec:
  assumes inv: "kv_inv kv" and src: "valid_seq kv src" and dst: "valid_seq kv dst" and ne: "src \<noteq> dst"
    and many: "kv_n_stream kv \<noteq> 1"
    and full: "p0 \<le> 0 \<or> i32_ok (p0 + 1) \<and> int (length (kc_pos (kv_v_cells kv ! 0))) \<le> p0 + 1"
      "p1 \<le> 0 \<or> i32_ok (p1 + 1) \<and> int (length (kc_pos (kv_v_cells kv ! 0))) \<le> p1 + 1"
    and sh: "\<forall>x\<in>set (stream_cells kv (nat src)). src \<in> cl_seq x \<and> cl_shift x \<noteq> 0 \<longrightarrow>
      0 \<le> cl_pos x - cl_shift x \<and> i32_ok (cl_pos x - cl_shift x) \<and> i32_ok (cl_shift x)"
  shows "\<exists>kv'. kv_seq_cp src dst p0 p1 kv = Some kv' \<and> kv_inv kv' \<and> same_config kv kv' \<and>
    stream_cells kv' (nat dst) = map (cross_cell src dst) (stream_cells kv (nat src)) \<and>
    (\<forall>t. t \<noteq> nat dst \<longrightarrow> kv_v_cells kv' ! t = kv_v_cells kv ! t) \<and>
    kv_sc_ssrc kv' = kv_sc_ssrc kv @ [nat src] \<and> kv_sc_sdst kv' = kv_sc_sdst kv @ [nat dst]"
proof -
  note S = valid_seq_stream [OF inv src] and T = valid_seq_stream [OF inv dst]
  have pos: "0 < kv_n_stream kv" and s2s: "kv_seq_to_stream kv = [0..<kv_n_stream kv]"
    using inv many by (auto simp: kv_inv_def)
  have st: "kv_seq_to_stream kv ! nat src = nat src" "kv_seq_to_stream kv ! nat dst = nat dst" "nat src \<noteq> nat dst"
    "nat src < kv_n_stream kv" "nat dst < kv_n_stream kv"
    using src dst ne by (auto simp: valid_seq_def s2s)
  note D0 = kv_invD [OF inv st(4)] and D1 = kv_invD [OF inv st(5)]
  let ?c0 = "kv_v_cells kv ! nat src" and ?c1 = "kv_v_cells kv ! nat dst" and ?xs = "stream_cells kv (nat src)"
  let ?n = "length (kc_pos ?c0)"
  have len1: "length (kc_pos ?c1) = ?n" using D0(4) D1(4) by simp
  let ?I = "\<lambda>k t. kv_cells_inv t \<and> cells_of t = map (cross_cell src dst) (take k ?xs) @ replicate (?n - k) empty_cell"
  have "\<exists>t. for_each (cp_cell src dst ?c0) [0..<?n] (kc_reset ?c1) = Some t \<and> ?I ?n t"
  proof (rule for_upto_rule [where I = ?I])
    show "?I 0 (kc_reset ?c1)" using kc_reset_inv len1 by (simp add: cells_of_reset)
  next
    fix i t
    assume i: "i < ?n" and I: "?I i t"
    have len: "length (kc_pos t) = ?n" using arg_cong [OF conjunct2 [OF I], of length] i by simp
    have e: "cells_of t ! i = empty_cell" using I i by (simp add: nth_append)
    have "\<exists>c. cp_cell src dst ?c0 i t = Some c \<and> kv_cells_inv c \<and>
        cells_of c = (cells_of t)[i := cross_cell src dst (?xs ! i)]"
    proof (rule cp_cell_spec [OF D0(1) conjunct1 [OF I] len i e S(3) T(3)])
      assume "src \<in> kc_seq ?c0 ! i" "kc_shift ?c0 ! i \<noteq> 0"
      with sh [rule_format, of "?xs ! i"] i
      show "0 \<le> kc_pos ?c0 ! i - kc_shift ?c0 ! i \<and> i32_ok (kc_pos ?c0 ! i - kc_shift ?c0 ! i) \<and> i32_ok (kc_shift ?c0 ! i)"
        by simp
    qed
    moreover have "(cells_of t)[i := cross_cell src dst (?xs ! i)] =
        map (cross_cell src dst) (take (Suc i) ?xs) @ replicate (?n - Suc i) empty_cell"
      using I i by (simp add: list_update_append take_Suc_conv_app_nth Suc_diff_Suc [symmetric])
    ultimately show "\<exists>t'. cp_cell src dst ?c0 i t = Some t' \<and> ?I (Suc i) t'" by auto
  qed
  then obtain c where c: "for_each (cp_cell src dst ?c0) [0..<?n] (kc_reset ?c1) = Some c" "kv_cells_inv c"
      "cells_of c = map (cross_cell src dst) ?xs" by auto
  have lenc: "length (kc_pos c) = length (kc_pos ?c1)" using arg_cong [OF c(3), of length] len1 by simp
  have occ: "\<forall>x\<in>set (cells_of c). occupied_ok x"
    using D0(6) by (auto simp: c(3) cross_cell_def occupied_ok_def empty_cell_def)
  let ?hs = "(kv_v_heads kv)[nat dst := kv_v_heads kv ! nat src]"
  let ?kv = "kv\<lparr>kv_v_cells := (kv_v_cells kv)[nat dst := c], kv_v_heads := ?hs\<rparr>"
  have "kv_inv ?kv"
    by (rule kv_inv_update [OF inv st(5) c(2) lenc occ]) (use D0(3,5) D1(3) lenc len1 in auto)
  let ?kv' = "kv\<lparr>kv_sc_ssrc := kv_sc_ssrc kv @ [nat src], kv_sc_sdst := kv_sc_sdst kv @ [nat dst],
      kv_v_cells := (kv_v_cells kv)[nat dst := c], kv_v_heads := ?hs\<rparr>"
  have inv': "kv_inv ?kv'" using \<open>kv_inv ?kv\<close> by (simp add: kv_inv_def)
  have gs: "kv_get_size kv = Some (length (kc_pos (kv_v_cells kv ! 0)))"
    using pos inv by (simp add: kv_get_size_def s2s at_def kv_inv_def kc_size_def)
  have lo: "(if p0 > 0 then do { q \<leftarrow> i32_add p0 1; Some (q < int (length (kc_pos (kv_v_cells kv ! 0)))) } else Some False) = Some False"
    using full(1) by (auto simp: i32_add_def)
  have hi: "(if p1 > 0 then do { q \<leftarrow> i32_add p1 1; Some (q < int (length (kc_pos (kv_v_cells kv ! 0)))) } else Some False) = Some False"
    using full(2) by (auto simp: i32_add_def)
  have "kv_seq_cp src dst p0 p1 kv = Some ?kv'"
    unfolding kv_seq_cp_def using S(1) T(1) st(1-3) D0(2,3) D1(2) lo hi c(1)
    by (simp add: gs kc_size_def at_def)
  moreover have "same_config kv ?kv'" by (simp add: same_config_def)
  ultimately show ?thesis using inv' c(3) D1(2)
    by (intro exI [of _ ?kv']) simp
qed

lemma kv_seq_add_spec:
  assumes inv: "kv_inv kv" and s: "valid_seq kv s" and one: "n_pos_per_embd (kv_hparams kv) = 1"
    and ok: "\<forall>x\<in>set (stream_cells kv (kv_seq_to_stream kv ! nat s)).
      in_range (range_p0 p0) (range_p1 p1) x \<and> s \<in> cl_seq x \<longrightarrow> i32_ok (cl_pos x + d) \<and> i32_ok (cl_shift x + d)"
  shows "\<exists>kv'. kv_seq_add s p0 p1 d kv = Some kv' \<and> kv_inv kv' \<and> same_config kv kv' \<and>
    stream_cells kv' (kv_seq_to_stream kv ! nat s) =
      (if d = 0 \<or> range_p0 p0 = range_p1 p1 then stream_cells kv (kv_seq_to_stream kv ! nat s)
       else map (add_upd s (range_p0 p0) (range_p1 p1) d) (stream_cells kv (kv_seq_to_stream kv ! nat s))) \<and>
    (\<forall>t. t \<noteq> kv_seq_to_stream kv ! nat s \<longrightarrow> kv_v_cells kv' ! t = kv_v_cells kv ! t)"
proof (cases "d = 0 \<or> range_p0 p0 = range_p1 p1")
  case True
  with valid_seq_stream [OF inv s] inv one show ?thesis by (auto simp: kv_seq_add_def)
next
  case False
  note S = valid_seq_stream [OF inv s]
  let ?st = "kv_seq_to_stream kv ! nat s"
  note D = kv_invD [OF inv S(2)]
  obtain c h where c: "sweep (add_body s (range_p0 p0) (range_p1 p1) d) (kv_v_cells kv ! ?st) = Some (c, h)" "kv_cells_inv c"
      "length (kc_pos c) = length (kc_pos (kv_v_cells kv ! ?st))"
      "cells_of c = map (add_upd s (range_p0 p0) (range_p1 p1) d) (stream_cells kv ?st)" "\<forall>x\<in>set (cells_of c). occupied_ok x"
    and h: "h = first_index (\<lambda>x. in_range (range_p0 p0) (range_p1 p1) x \<and> s \<in> cl_seq x \<and> cl_pos x + d < 0) (stream_cells kv ?st)"
    using add_kv.sweep_stream [OF inv S(2), of s "range_p0 p0" "range_p1 p1" d] ok S(3) by (auto simp: add_ok_def)
  let ?hs = "(kv_v_heads kv)[?st := if h \<noteq> kc_size c then h else 0]"
  have "h \<le> length (stream_cells kv ?st)" unfolding h by (rule first_index_le)
  then have "kv_inv (kv\<lparr>kv_v_cells := (kv_v_cells kv)[?st := c], kv_v_heads := ?hs\<rparr>)"
    by (intro kv_inv_update [OF inv S(2) c(2,3,5)]) (use D(3) c(3) in auto)
  with c S(1) D(2,3) False one show ?thesis
    by (auto simp: kv_seq_add_def at_def same_config_def)
qed

lemma kv_seq_div_spec:
  assumes inv: "kv_inv kv" and s: "valid_seq kv s" and one: "n_pos_per_embd (kv_hparams kv) = 1" and d: "0 < d"
    and ok: "\<forall>x\<in>set (stream_cells kv (kv_seq_to_stream kv ! nat s)).
      in_range (range_p0 p0) (range_p1 p1) x \<and> s \<in> cl_seq x \<longrightarrow> i32_ok (cl_shift x + (cl_pos x - cl_pos x div d))"
  shows "\<exists>kv'. kv_seq_div s p0 p1 d kv = Some kv' \<and> kv_inv kv' \<and> same_config kv kv' \<and>
    stream_cells kv' (kv_seq_to_stream kv ! nat s) =
      (if d = 1 \<or> range_p0 p0 = range_p1 p1 then stream_cells kv (kv_seq_to_stream kv ! nat s)
       else map (div_upd s (range_p0 p0) (range_p1 p1) d) (stream_cells kv (kv_seq_to_stream kv ! nat s))) \<and>
    (\<forall>t. t \<noteq> kv_seq_to_stream kv ! nat s \<longrightarrow> kv_v_cells kv' ! t = kv_v_cells kv ! t)"
proof (cases "d = 1 \<or> range_p0 p0 = range_p1 p1")
  case True
  with valid_seq_stream [OF inv s] inv one show ?thesis by (auto simp: kv_seq_div_def)
next
  case False
  note S = valid_seq_stream [OF inv s]
  let ?st = "kv_seq_to_stream kv ! nat s"
  note D = kv_invD [OF inv S(2)]
  obtain c h where c: "sweep (div_body s (range_p0 p0) (range_p1 p1) d) (kv_v_cells kv ! ?st) = Some (c, h)" "kv_cells_inv c"
      "length (kc_pos c) = length (kc_pos (kv_v_cells kv ! ?st))"
      "cells_of c = map (div_upd s (range_p0 p0) (range_p1 p1) d) (stream_cells kv ?st)" "\<forall>x\<in>set (cells_of c). occupied_ok x"
    using div_kv.sweep_stream [OF inv S(2), of s "range_p0 p0" "range_p1 p1" d] ok S(3) d by (auto simp: div_ok_def)
  from kv_inv_update_cells [OF inv S(2) c(2,3,5)] c S(1) D(2) False one show ?thesis
    by (auto simp: kv_seq_div_def at_def same_config_def)
qed

lemma kv_clear_spec:
  assumes inv: "kv_inv kv"
  shows "\<exists>kv'. kv_clear kv = Some kv' \<and> kv_inv kv' \<and> same_config kv kv' \<and>
    (\<forall>st<kv_n_stream kv. stream_cells kv' st = replicate (length (kc_pos (kv_v_cells kv ! 0))) empty_cell \<and> kv_v_heads kv' ! st = 0)"
proof -
  let ?n = "kv_n_stream kv" and ?m = "length (kc_pos (kv_v_cells kv ! 0))"
  let ?f = "\<lambda>s kv. do { c \<leftarrow> at (kv_v_cells kv) s; _ \<leftarrow> at (kv_v_heads kv) s;
         Some (kv\<lparr>kv_v_cells := (kv_v_cells kv)[s := kc_reset c], kv_v_heads := (kv_v_heads kv)[s := 0]\<rparr>) }"
  let ?I = "\<lambda>k t. kv_inv t \<and> same_config kv t \<and> length (kc_pos (kv_v_cells t ! 0)) = ?m \<and>
    (\<forall>st<k. stream_cells t st = replicate ?m empty_cell \<and> kv_v_heads t ! st = 0)"
  have "\<exists>t. for_each ?f [0..<?n] kv = Some t \<and> ?I ?n t"
  proof (rule for_upto_rule [where I = ?I])
    fix i t
    assume i: "i < ?n" and I: "?I i t"
    then have i': "i < kv_n_stream t" by (simp add: same_config_def)
    note D = kv_invD [OF conjunct1 [OF I] i']
    let ?c = "kc_reset (kv_v_cells t ! i)"
    let ?t = "t\<lparr>kv_v_cells := (kv_v_cells t)[i := ?c], kv_v_heads := (kv_v_heads t)[i := 0]\<rparr>"
    have len: "length (kc_pos ?c) = length (kc_pos (kv_v_cells t ! i))" by (simp add: kc_reset_def Let_def)
    have cells: "cells_of ?c = replicate ?m empty_cell"
      using D(4) I by (simp add: cells_of_reset)
    have "kv_inv ?t"
      by (rule kv_inv_update [OF conjunct1 [OF I] i' kc_reset_inv len])
        (use cells D(3) in \<open>auto simp: occupied_ok_def empty_cell_def\<close>)
    moreover have "length (kc_pos (kv_v_cells ?t ! 0)) = ?m"
      using I D(2,4) len by (cases "i = 0") auto
    moreover have "\<forall>st<Suc i. stream_cells ?t st = replicate ?m empty_cell \<and> kv_v_heads ?t ! st = 0"
      using I cells D(2,3) by (auto simp: less_Suc_eq)
    moreover have "same_config kv ?t" using I by (simp add: same_config_def)
    moreover have "?f i t = Some ?t" using D(2,3) by (simp add: at_def)
    ultimately show "\<exists>t'. ?f i t = Some t' \<and> ?I (Suc i) t'" by blast
  qed (use inv in simp)
  then show ?thesis by (auto simp: kv_clear_def)
qed

lemma kv_init_streams_cells:
  "cells_of (kc_resize n kv_cells_empty) = replicate n empty_cell" "length (kc_pos (kc_resize n kv_cells_empty)) = n"
proof -
  show len: "length (kc_pos (kc_resize n kv_cells_empty)) = n" by simp
  show "cells_of (kc_resize n kv_cells_empty) = replicate n empty_cell"
    by (simp add: kc_resize_def cells_of_reset)
qed

lemma kv_cache_new_inv:
  assumes "kv_cache_new hp arch v_trans unified kv_size n_seq_max n_pad n_swa swa_type filt reuse = Some kv"
    and "0 < n_seq_max" and "n_seq_max \<le> nat LLAMA_MAX_SEQ"
  shows "kv_inv kv" and "\<forall>st<kv_n_stream kv. stream_cells kv st = replicate kv_size empty_cell"
    and "kv_n_stream kv = (if unified then 1 else n_seq_max)" and "kv_hparams kv = hp"
proof -
  let ?n = "if unified then 1 else n_seq_max"
  have f: "kv_v_cells kv = replicate ?n (kc_resize kv_size kv_cells_empty)" "kv_v_heads kv = replicate ?n 0"
    "kv_n_stream kv = ?n" "kv_seq_to_stream kv = (if ?n > 1 then [0..<?n] else replicate (nat LLAMA_MAX_SEQ) 0)" "kv_hparams kv = hp"
    using assms(1) by (auto simp: kv_cache_new_def kv_init_streams_def Let_def split: Option.bind_splits if_splits)
  show "kv_n_stream kv = ?n" "kv_hparams kv = hp" by (fact f)+
  show cells: "\<forall>st<kv_n_stream kv. stream_cells kv st = replicate kv_size empty_cell"
    by (simp add: f kv_init_streams_cells)
  have "stream_ok kv_size (kc_resize kv_size kv_cells_empty) 0"
    by (simp add: stream_ok_def kc_resize_inv kv_init_streams_cells occupied_ok_def empty_cell_def)
  then show "kv_inv kv"
    using assms(2,3) by (simp add: kv_inv_def f LLAMA_MAX_SEQ_def)
qed

section \<open>A concrete cache\<close>

text \<open>
  A unified cache of four cells: sequence 0 holds positions 0 and 1 in the cells 0 and 1, and
  shares cell 1 with sequence 1; and a cache with one stream per sequence.
\<close>

definition ex_hp :: llama_hparams where
  "ex_hp = \<lparr>hp_n_embd = 4, hp_n_layer = 1, hp_n_layer_kv_from_start = - 1, hp_n_embd_head_k = 2, hp_n_embd_head_v = 2,
     hp_n_embd_head_k_mla_impl = 0, hp_n_embd_head_v_mla_impl = 0, hp_n_shortconv_l_cache = 0,
     hp_n_head_arr = [2], hp_n_head_kv_arr = [2], hp_n_ff_arr = [8], hp_wkv_head_size = 0, hp_token_shift_count = 2,
     hp_rope_sections = [0, 0, 0, 0], hp_swa_layers = [0], hp_ssm_d_conv = 0, hp_ssm_d_inner = 0, hp_ssm_d_state = 0,
     hp_ssm_n_group = 0, hp_n_embd_head_kda = 0, hp_recurrent_layer_arr = [False], hp_n_embd_out_impl = 0,
     hp_n_deepstack_layers = 0, hp_rope_type = LLAMA_ROPE_TYPE_NORM, hp_use_alibi = False, hp_n_rel_attn_bkts = 0\<rparr>"

definition ex_cells :: llama_kv_cells where
  "ex_cells = the (do {
     c \<leftarrow> kc_pos_set 0 0 (kc_resize 4 kv_cells_empty);
     c \<leftarrow> kc_seq_add 0 0 c;
     c \<leftarrow> kc_pos_set 1 1 c;
     c \<leftarrow> kc_seq_add 1 0 c;
     kc_seq_add 1 1 c })"

definition ex_cells2 :: llama_kv_cells where
  "ex_cells2 = the (do { c \<leftarrow> kc_pos_set 2 0 (kc_resize 4 kv_cells_empty); kc_seq_add 2 0 c })"

definition ex_kv_new :: "bool \<Rightarrow> llama_kv_cache" where
  "ex_kv_new unified = the (kv_cache_new ex_hp False False unified 4 2 1 0 LLAMA_SWA_TYPE_NONE None None)"

definition ex_kv :: llama_kv_cache where
  "ex_kv = (ex_kv_new True)\<lparr>kv_v_cells := (kv_v_cells (ex_kv_new True))[0 := ex_cells]\<rparr>"

definition ex_kv2 :: llama_kv_cache where
  "ex_kv2 = (ex_kv_new False)\<lparr>kv_v_cells :=
     (kv_v_cells (ex_kv_new False))[0 := ex_cells2]\<rparr>"

lemma ex_kv_new_Some:
  "kv_cache_new ex_hp False False u 4 2 1 0 LLAMA_SWA_TYPE_NONE None None = Some (ex_kv_new u)"
proof -
  have "is_mla ex_hp = Some False" "has_kv 0 ex_hp" "n_embd_k_gqa 0 ex_hp = Some 4" "n_embd_v_gqa 0 ex_hp = Some 4" "hp_n_layer ex_hp = 1"
    by (simp_all add: is_mla_def has_kv_def n_embd_k_gqa_def n_embd_v_gqa_def n_head_kv_def ex_hp_def u32_def)
  then show ?thesis
    by (simp add: ex_kv_new_def kv_cache_new_def kv_add_layer_def Let_def split: prod.splits)
qed

lemma ex_kv_new_inv:
  "kv_inv (ex_kv_new u)" "kv_n_stream (ex_kv_new u) = (if u then 1 else 2)" "kv_hparams (ex_kv_new u) = ex_hp"
  "length (kc_pos (kv_v_cells (ex_kv_new u) ! 0)) = 4"
  "\<forall>st<kv_n_stream (ex_kv_new u). stream_cells (ex_kv_new u) st = replicate 4 empty_cell"
proof -
  note c = kv_cache_new_inv [OF ex_kv_new_Some [of u], unfolded LLAMA_MAX_SEQ_def, simplified]
  then show "kv_inv (ex_kv_new u)" "kv_n_stream (ex_kv_new u) = (if u then 1 else 2)" "kv_hparams (ex_kv_new u) = ex_hp"
    "\<forall>st<kv_n_stream (ex_kv_new u). stream_cells (ex_kv_new u) st = replicate 4 empty_cell"
    by simp_all
  then have "length (stream_cells (ex_kv_new u) 0) = 4" by simp
  then show "length (kc_pos (kv_v_cells (ex_kv_new u) ! 0)) = 4" by simp
qed

lemma ex_cells_eval:
  "kv_cells_check ex_cells" "length (kc_pos ex_cells) = 4"
  "cells_of ex_cells = [\<lparr>cl_pos = 0, cl_ext = ext_reset, cl_shift = 0, cl_seq = {0}\<rparr>, \<lparr>cl_pos = 1, cl_ext = ext_reset, cl_shift = 0, cl_seq = {0, 1}\<rparr>,
     empty_cell, empty_cell]"
  by code_simp+

lemma ex_kv_inv: "kv_inv ex_kv" "kv_n_stream ex_kv = 1" "kv_hparams ex_kv = ex_hp" "stream_cells ex_kv 0 = cells_of ex_cells"
proof -
  show "kv_inv ex_kv"
    unfolding ex_kv_def
    by (rule kv_inv_update_cells)
      (simp_all add: ex_kv_new_inv ex_cells_eval kv_cells_check_inv occupied_ok_def empty_cell_def)
  show "stream_cells ex_kv 0 = cells_of ex_cells"
    using kv_invD [OF ex_kv_new_inv(1) [of True]] by (simp add: ex_kv_def ex_kv_new_inv)
qed (simp_all add: ex_kv_def ex_kv_new_inv)

lemma ex_cells2_eval:
  "kv_cells_check ex_cells2" "length (kc_pos ex_cells2) = 4"
  "cells_of ex_cells2 = [empty_cell, empty_cell, \<lparr>cl_pos = 0, cl_ext = ext_reset, cl_shift = 0, cl_seq = {0}\<rparr>, empty_cell]"
  by code_simp+

lemma ex_kv2_inv: "kv_inv ex_kv2" "kv_n_stream ex_kv2 = 2" "stream_cells ex_kv2 0 = cells_of ex_cells2"
  "length (kc_pos (kv_v_cells ex_kv2 ! 0)) = 4"
proof -
  show "kv_inv ex_kv2"
    unfolding ex_kv2_def
    by (rule kv_inv_update_cells)
      (simp_all add: ex_kv_new_inv ex_cells2_eval kv_cells_check_inv occupied_ok_def empty_cell_def)
  show "stream_cells ex_kv2 0 = cells_of ex_cells2" "length (kc_pos (kv_v_cells ex_kv2 ! 0)) = 4"
    using kv_invD(2) [OF ex_kv_new_inv(1) [of False], of 0] by (simp_all add: ex_kv2_def ex_kv_new_inv ex_cells2_eval)
qed (simp add: ex_kv2_def ex_kv_new_inv)

lemma ex_valid:
  "valid_seq ex_kv s \<longleftrightarrow> 0 \<le> s \<and> s < 256" "valid_seq ex_kv2 s \<longleftrightarrow> 0 \<le> s \<and> s < 2"
  using ex_kv_inv(1) ex_kv2_inv(1)
  by (auto simp: valid_seq_def kv_inv_def ex_kv_inv(2) ex_kv2_inv(2) LLAMA_MAX_SEQ_def nat_less_iff)

lemma ex_view: "seq_view ex_kv 0 = {(0, 0), (1, 1)}" "seq_view ex_kv 1 = {(1, 1)}" "seq_view ex_kv 2 = {}"
  "seq_view ex_kv2 0 = {(2, 0)}"
proof -
  have st: "kv_seq_to_stream ex_kv ! nat s = 0" if "0 \<le> s" "s < 256" for s
    using ex_kv_inv(1) that by (simp add: kv_inv_def ex_kv_inv(2) LLAMA_MAX_SEQ_def nat_less_iff)
  have 2: "kv_seq_to_stream ex_kv2 ! nat 0 = 0"
    using ex_kv2_inv(1) by (simp add: kv_inv_def ex_kv2_inv(2))
  have e: "cells_view (cells_of ex_cells) s = {(i, p). (i = 0 \<and> p = 0 \<and> s = 0) \<or> (i = 1 \<and> p = 1 \<and> s \<in> {0, 1})}" for s
    by (auto simp: cells_view_def ex_cells_eval empty_cell_def less_Suc_eq numeral_nat split: if_splits)
  show "seq_view ex_kv 0 = {(0, 0), (1, 1)}" "seq_view ex_kv 1 = {(1, 1)}" "seq_view ex_kv 2 = {}"
    using st [of 0] st [of 1] st [of 2] by (auto simp: seq_view_def ex_kv_inv(4) e)
  show "seq_view ex_kv2 0 = {(2, 0)}"
    using 2 by (auto simp: seq_view_def ex_kv2_inv(3) cells_view_def ex_cells2_eval empty_cell_def less_Suc_eq numeral_nat)
qed

lemma ex_stream: "kv_seq_to_stream ex_kv ! 0 = 0"
  using ex_kv_inv(1) by (simp add: kv_inv_def ex_kv_inv(2) LLAMA_MAX_SEQ_def)

lemma ex_view_step:
  "{(i, q). \<exists>p. (i, p) \<in> seq_view ex_kv 0 \<and> P i p q} = {(0, q) |q. P 0 0 q} \<union> {(1, q) |q. P 1 1 q}"
  unfolding ex_view by auto

lemma ex_n_pos: "n_pos_per_embd ex_hp = 1"
  by (simp add: n_pos_per_embd_def ex_hp_def)

lemmas ex_facts = ex_stream ex_kv_inv ex_kv2_inv ex_valid ex_view ex_n_pos range_p0_def range_p1_def

section \<open>Properties\<close>

text \<open>
  C5: \<open>seq_rm\<close> never aborts on a valid sequence, keeps the invariant of the cache (both
  indices of every stream included), removes exactly the cells of the sequence whose position
  is in the range, and leaves every other sequence as it was.
\<close>

theorem seq_rm_refines:
  assumes "kv_inv kv" and "valid_seq kv s"
  shows "\<exists>kv'. kv_seq_rm s p0 p1 kv = Some (True, kv') \<and> kv_inv kv' \<and> same_config kv kv' \<and>
    seq_view kv' s = {(i, p). (i, p) \<in> seq_view kv s \<and> \<not> (range_p0 p0 \<le> p \<and> p < range_p1 p1)} \<and>
    (\<forall>t. valid_seq kv t \<and> t \<noteq> s \<longrightarrow> seq_view kv' t = seq_view kv t)"
proof -
  let ?st = "kv_seq_to_stream kv ! nat s"
  obtain kv' where r: "kv_seq_rm s p0 p1 kv = Some (True, kv')" "kv_inv kv'" "same_config kv kv'"
      "stream_cells kv' ?st = map (rm_upd s (range_p0 p0) (range_p1 p1)) (stream_cells kv ?st)"
      "\<forall>t. t \<noteq> ?st \<longrightarrow> kv_v_cells kv' ! t = kv_v_cells kv ! t"
    using kv_seq_rm_spec [OF assms] by blast
  have "seq_view kv' t = seq_view kv t" if "t \<noteq> s" for t
  proof (cases "kv_seq_to_stream kv ! nat t = ?st")
    case True
    with seq_view_same [OF r(3), of t] r(4) that show ?thesis by (simp add: view_rm_other seq_view_def)
  qed (rule seq_view_other [OF r(3,5)])
  with r(1-3) seq_view_same [OF r(3,4)] show ?thesis by (auto simp: view_rm_same seq_view_def)
qed

theorem seq_rm_refines_witness:
  "\<exists>kv'. kv_seq_rm 0 0 1 ex_kv = Some (True, kv') \<and> kv_inv kv' \<and> seq_view kv' 0 = {(1, 1)} \<and> seq_view kv' 1 = {(1, 1)}"
  using seq_rm_refines [of ex_kv 0 0 1] by (auto simp: ex_facts)

text \<open>
  \<open>seq_rm\<close> with sequence -1 removes the positions of the range from every sequence of
  every stream.
\<close>

theorem seq_rm_any_refines:
  assumes "kv_inv kv"
  shows "\<exists>kv'. kv_seq_rm (- 1) p0 p1 kv = Some (True, kv') \<and> kv_inv kv' \<and> same_config kv kv' \<and>
    (\<forall>s. valid_seq kv s \<longrightarrow>
       seq_view kv' s = {(i, p). (i, p) \<in> seq_view kv s \<and> \<not> (range_p0 p0 \<le> p \<and> p < range_p1 p1)})"
proof -
  obtain kv' where r: "kv_seq_rm (- 1) p0 p1 kv = Some (True, kv')" "kv_inv kv'" "same_config kv kv'"
      "\<forall>st<kv_n_stream kv. stream_cells kv' st = map (rm_any_upd (range_p0 p0) (range_p1 p1)) (stream_cells kv st)"
    using kv_seq_rm_any_spec [OF assms] by blast
  have "seq_view kv' s = {(i, p). (i, p) \<in> seq_view kv s \<and> \<not> (range_p0 p0 \<le> p \<and> p < range_p1 p1)}"
    if "valid_seq kv s" for s
    using seq_view_same [OF r(3), of s] r(4) valid_seq_stream(2) [OF assms that] by (simp add: view_rm_any seq_view_def)
  with r(1-3) show ?thesis by blast
qed

theorem seq_rm_any_refines_witness:
  "\<exists>kv'. kv_seq_rm (- 1) 1 (- 1) ex_kv = Some (True, kv') \<and> kv_inv kv' \<and> seq_view kv' 0 = {(0, 0)} \<and> seq_view kv' 1 = {}"
  using seq_rm_any_refines [of ex_kv 1 "- 1"] by (auto simp: ex_facts INT32_MAX_def)

text \<open>
  \<open>seq_cp\<close> within a stream adds the destination sequence to the cells of the source in the
  range and changes no other sequence, provided the destination does not hold these cells yet.
\<close>

theorem seq_cp_same_stream_refines:
  assumes "kv_inv kv" and "valid_seq kv src" and "valid_seq kv dst" and "src \<noteq> dst" and "kv_n_stream kv = 1"
    and "\<forall>i p. (i, p) \<in> seq_view kv src \<and> range_p0 p0 \<le> p \<and> p < range_p1 p1 \<longrightarrow> (i, p) \<notin> seq_view kv dst"
  shows "\<exists>kv'. kv_seq_cp src dst p0 p1 kv = Some kv' \<and> kv_inv kv' \<and> same_config kv kv' \<and>
    seq_view kv' dst = seq_view kv dst \<union> {(i, p). (i, p) \<in> seq_view kv src \<and> range_p0 p0 \<le> p \<and> p < range_p1 p1} \<and>
    (\<forall>t. valid_seq kv t \<and> t \<noteq> dst \<longrightarrow> seq_view kv' t = seq_view kv t)"
proof -
  have st0: "kv_seq_to_stream kv ! nat t = 0" if "valid_seq kv t" for t
    using valid_seq_stream(2) [OF assms(1) that] assms(5) by simp
  have "\<forall>x\<in>set (stream_cells kv 0). in_range (range_p0 p0) (range_p1 p1) x \<and> src \<in> cl_seq x \<longrightarrow> dst \<notin> cl_seq x"
    using assms(6) st0 [OF assms(2)] st0 [OF assms(3)]
    by (auto simp: seq_view_def cells_view_def in_range_def in_set_conv_nth)
  from kv_seq_cp_same_spec [OF assms(1-5) this] obtain kv' where
    r: "kv_seq_cp src dst p0 p1 kv = Some kv'" "kv_inv kv'" "same_config kv kv'"
      "stream_cells kv' 0 = map (cp_upd src dst (range_p0 p0) (range_p1 p1)) (stream_cells kv 0)"
    by blast
  have v: "seq_view kv' t = cells_view (map (cp_upd src dst (range_p0 p0) (range_p1 p1)) (stream_cells kv 0)) t" if "valid_seq kv t" for t
    using seq_view_same [OF r(3), of t] st0 [OF that] r(4) by simp
  show ?thesis
    using r(1-3) v [OF assms(3)] v st0 [OF assms(2)] st0 [OF assms(3)] st0
    by (auto simp: view_cp_dst view_cp_other seq_view_def)
qed

theorem seq_cp_same_stream_refines_witness:
  "\<exists>kv'. kv_seq_cp 0 2 (- 1) (- 1) ex_kv = Some kv' \<and> kv_inv kv' \<and> seq_view kv' 2 = {(0, 0), (1, 1)} \<and> seq_view kv' 1 = {(1, 1)}"
  using seq_cp_same_stream_refines [of ex_kv 0 2 "- 1" "- 1"] by (auto simp: ex_facts INT32_MAX_def)

text \<open>
  C24: \<open>seq_cp\<close> between streams replaces the content of the destination stream by a copy of the
  source sequence, cell by cell, leaves the other streams alone and queues the copy of the
  buffers.
\<close>

theorem seq_cp_cross_stream_refines:
  assumes "kv_inv kv" and "valid_seq kv src" and "valid_seq kv dst" and "src \<noteq> dst" and "kv_n_stream kv \<noteq> 1"
    and "p0 \<le> 0 \<or> i32_ok (p0 + 1) \<and> int (length (kc_pos (kv_v_cells kv ! 0))) \<le> p0 + 1"
    and "p1 \<le> 0 \<or> i32_ok (p1 + 1) \<and> int (length (kc_pos (kv_v_cells kv ! 0))) \<le> p1 + 1"
    and "\<forall>x\<in>set (stream_cells kv (nat src)). src \<in> cl_seq x \<and> cl_shift x \<noteq> 0 \<longrightarrow>
      0 \<le> cl_pos x - cl_shift x \<and> i32_ok (cl_pos x - cl_shift x) \<and> i32_ok (cl_shift x)"
  shows "\<exists>kv'. kv_seq_cp src dst p0 p1 kv = Some kv' \<and> kv_inv kv' \<and> same_config kv kv' \<and>
    seq_view kv' dst = seq_view kv src \<and>
    (\<forall>t. valid_seq kv t \<and> t \<noteq> dst \<longrightarrow> seq_view kv' t = seq_view kv t) \<and>
    kv_sc_ssrc kv' = kv_sc_ssrc kv @ [nat src] \<and> kv_sc_sdst kv' = kv_sc_sdst kv @ [nat dst]"
proof -
  obtain kv' where r: "kv_seq_cp src dst p0 p1 kv = Some kv'" "kv_inv kv'" "same_config kv kv'"
      "stream_cells kv' (nat dst) = map (cross_cell src dst) (stream_cells kv (nat src))"
      "\<forall>t. t \<noteq> nat dst \<longrightarrow> kv_v_cells kv' ! t = kv_v_cells kv ! t"
      "kv_sc_ssrc kv' = kv_sc_ssrc kv @ [nat src]" "kv_sc_sdst kv' = kv_sc_sdst kv @ [nat dst]"
    using kv_seq_cp_cross_spec [OF assms] by blast
  have st: "kv_seq_to_stream kv ! nat t = nat t" if "valid_seq kv t" for t
    using assms(1,5) that by (auto simp: kv_inv_def valid_seq_def)
  have "seq_view kv' dst = seq_view kv src"
    using seq_view_same [OF r(3), of dst] r(4) st [OF assms(2)] st [OF assms(3)]
    by (auto simp: seq_view_def cells_view_map cross_cell_def cells_view_def empty_cell_def split: if_splits)
  moreover have "seq_view kv' t = seq_view kv t" if "valid_seq kv t" "t \<noteq> dst" for t
    using seq_view_other [OF r(3,5), of t] st [OF that(1)] that assms(3) by (auto simp: valid_seq_def)
  ultimately show ?thesis using r by blast
qed

theorem seq_cp_cross_stream_refines_witness:
  "\<exists>kv'. kv_seq_cp 0 1 (- 1) (- 1) ex_kv2 = Some kv' \<and> kv_inv kv' \<and> seq_view kv' 1 = {(2, 0)} \<and> seq_view kv' 0 = {(2, 0)}"
  using seq_cp_cross_stream_refines [of ex_kv2 0 1 "- 1" "- 1"] by (auto simp: ex_facts ex_cells2_eval empty_cell_def)

text \<open>
  \<open>seq_keep\<close> keeps the sequence unchanged and removes every other sequence of its stream;
  the other streams are untouched.
\<close>

theorem seq_keep_refines:
  assumes "kv_inv kv" and "valid_seq kv s"
  shows "\<exists>kv'. kv_seq_keep s kv = Some kv' \<and> kv_inv kv' \<and> same_config kv kv' \<and> seq_view kv' s = seq_view kv s \<and>
    (\<forall>t. valid_seq kv t \<and> t \<noteq> s \<longrightarrow> seq_view kv' t = (if kv_n_stream kv = 1 then {} else seq_view kv t))"
proof -
  let ?st = "kv_seq_to_stream kv ! nat s"
  obtain kv' where r: "kv_seq_keep s kv = Some kv'" "kv_inv kv'" "same_config kv kv'"
      "stream_cells kv' ?st = map (keep_upd s) (stream_cells kv ?st)"
      "\<forall>t. t \<noteq> ?st \<longrightarrow> kv_v_cells kv' ! t = kv_v_cells kv ! t"
    using kv_seq_keep_spec [OF assms] by blast
  have "seq_view kv' t = (if kv_n_stream kv = 1 then {} else seq_view kv t)" if "valid_seq kv t" "t \<noteq> s" for t
  proof (cases "kv_n_stream kv = 1")
    case True
    then have "kv_seq_to_stream kv ! nat t = ?st" using seq_to_stream_eq [OF assms(1) that(1) assms(2)] by simp
    with True seq_view_same [OF r(3), of t] r(4) that show ?thesis by (simp add: view_keep)
  next
    case False
    then have "kv_seq_to_stream kv ! nat t \<noteq> ?st" using seq_to_stream_eq [OF assms(1) that(1) assms(2)] that by simp
    with False seq_view_other [OF r(3,5)] show ?thesis by simp
  qed
  with r(1-3) seq_view_same [OF r(3,4)] show ?thesis by (auto simp: view_keep seq_view_def)
qed

theorem seq_keep_refines_witness:
  "\<exists>kv'. kv_seq_keep 0 ex_kv = Some kv' \<and> kv_inv kv' \<and> seq_view kv' 0 = {(0, 0), (1, 1)} \<and> seq_view kv' 1 = {}"
  using seq_keep_refines [of ex_kv 0] by (auto simp: ex_facts)

text \<open>
  C25: \<open>seq_add\<close> shifts the positions of the cells of the sequence in the range by the given
  amount; a cell whose position becomes negative leaves every sequence, and other cells keep
  their positions.  A cell that the sequence shares is shifted for the sharing sequences too.
\<close>

theorem seq_add_refines:
  assumes "kv_inv kv" and "valid_seq kv s" and "n_pos_per_embd (kv_hparams kv) = 1"
    and "d \<noteq> 0" and "range_p0 p0 \<noteq> range_p1 p1"
    and "\<forall>x\<in>set (stream_cells kv (kv_seq_to_stream kv ! nat s)).
      in_range (range_p0 p0) (range_p1 p1) x \<and> s \<in> cl_seq x \<longrightarrow> i32_ok (cl_pos x + d) \<and> i32_ok (cl_shift x + d)"
    and "valid_seq kv t" and "kv_n_stream kv = 1 \<or> t = s"
  shows "\<exists>kv'. kv_seq_add s p0 p1 d kv = Some kv' \<and> kv_inv kv' \<and> same_config kv kv' \<and>
    seq_view kv' t = {(i, q). \<exists>p. (i, p) \<in> seq_view kv t \<and>
      (if (i, p) \<in> seq_view kv s \<and> range_p0 p0 \<le> p \<and> p < range_p1 p1 then 0 \<le> p + d \<and> q = p + d else q = p)}"
proof -
  let ?st = "kv_seq_to_stream kv ! nat s"
  have st: "kv_seq_to_stream kv ! nat t = ?st" using seq_to_stream_eq [OF assms(1,7,2)] assms(8) by simp
  obtain kv' where r: "kv_seq_add s p0 p1 d kv = Some kv'" "kv_inv kv'" "same_config kv kv'"
      "stream_cells kv' ?st = map (add_upd s (range_p0 p0) (range_p1 p1) d) (stream_cells kv ?st)"
    using kv_seq_add_spec [OF assms(1-3,6)] assms(4,5) by auto
  from seq_view_same [OF r(3), of t] r(4) st
  have "seq_view kv' t = cells_view (map (add_upd s (range_p0 p0) (range_p1 p1) d) (stream_cells kv ?st)) t" by simp
  then show ?thesis using r(1-3) st by (simp add: view_add seq_view_def)
qed

theorem seq_add_refines_witness:
  "\<exists>kv'. kv_seq_add 0 0 (- 1) (- 1) ex_kv = Some kv' \<and> kv_inv kv' \<and> seq_view kv' 0 = {(1, 0)}"
proof -
  have "\<exists>kv'. kv_seq_add 0 0 (- 1) (- 1) ex_kv = Some kv' \<and> kv_inv kv' \<and> same_config ex_kv kv' \<and>
    seq_view kv' 0 = {(i, q). \<exists>p. (i, p) \<in> seq_view ex_kv 0 \<and>
      (if (i, p) \<in> seq_view ex_kv 0 \<and> range_p0 0 \<le> p \<and> p < range_p1 (- 1) then 0 \<le> p + - 1 \<and> q = p + - 1 else q = p)}"
    by (rule seq_add_refines) (simp_all add: ex_facts ex_cells_eval empty_cell_def INT32_MAX_def i32_ok_def in_range_def)
  then show ?thesis by (simp add: ex_view_step) (simp add: ex_facts INT32_MAX_def, blast)
qed

text \<open>
  \<open>seq_div\<close> divides the positions of the cells of the sequence in the range, keeps all
  cells in their sequences, and never aborts for a positive divisor.
\<close>

theorem seq_div_refines:
  assumes "kv_inv kv" and "valid_seq kv s" and "n_pos_per_embd (kv_hparams kv) = 1" and "1 < d"
    and "range_p0 p0 \<noteq> range_p1 p1"
    and "\<forall>x\<in>set (stream_cells kv (kv_seq_to_stream kv ! nat s)).
      in_range (range_p0 p0) (range_p1 p1) x \<and> s \<in> cl_seq x \<longrightarrow> i32_ok (cl_shift x + (cl_pos x - cl_pos x div d))"
    and "valid_seq kv t" and "kv_n_stream kv = 1 \<or> t = s"
  shows "\<exists>kv'. kv_seq_div s p0 p1 d kv = Some kv' \<and> kv_inv kv' \<and> same_config kv kv' \<and>
    seq_view kv' t = {(i, q). \<exists>p. (i, p) \<in> seq_view kv t \<and>
      q = (if (i, p) \<in> seq_view kv s \<and> range_p0 p0 \<le> p \<and> p < range_p1 p1 then p div d else p)}"
proof -
  let ?st = "kv_seq_to_stream kv ! nat s"
  have st: "kv_seq_to_stream kv ! nat t = ?st" using seq_to_stream_eq [OF assms(1,7,2)] assms(8) by simp
  have "0 < d" using assms(4) by simp
  obtain kv' where r: "kv_seq_div s p0 p1 d kv = Some kv'" "kv_inv kv'" "same_config kv kv'"
      "stream_cells kv' ?st = map (div_upd s (range_p0 p0) (range_p1 p1) d) (stream_cells kv ?st)"
    using kv_seq_div_spec [OF assms(1-3) \<open>0 < d\<close> assms(6)] assms(4,5) by auto
  from seq_view_same [OF r(3), of t] r(4) st
  have "seq_view kv' t = cells_view (map (div_upd s (range_p0 p0) (range_p1 p1) d) (stream_cells kv ?st)) t" by simp
  then show ?thesis using r(1-3) st by (simp add: view_div seq_view_def)
qed

theorem seq_div_refines_witness:
  "\<exists>kv'. kv_seq_div 0 1 (- 1) 2 ex_kv = Some kv' \<and> kv_inv kv' \<and> seq_view kv' 0 = {(0, 0), (1, 0)}"
proof -
  have "\<exists>kv'. kv_seq_div 0 1 (- 1) 2 ex_kv = Some kv' \<and> kv_inv kv' \<and> same_config ex_kv kv' \<and>
    seq_view kv' 0 = {(i, q). \<exists>p. (i, p) \<in> seq_view ex_kv 0 \<and>
      q = (if (i, p) \<in> seq_view ex_kv 0 \<and> range_p0 1 \<le> p \<and> p < range_p1 (- 1) then p div 2 else p)}"
    by (rule seq_div_refines) (simp_all add: ex_facts ex_cells_eval empty_cell_def INT32_MAX_def i32_ok_def in_range_def)
  then show ?thesis by (simp add: ex_view_step) (simp add: ex_facts INT32_MAX_def insert_commute, blast)
qed

text \<open>
  \<open>seq_pos_min\<close> and \<open>seq_pos_max\<close>, which read the incremental index, return the least and
  the greatest position of the sequence's cells, and -1 for a sequence without cells.
\<close>

theorem seq_pos_min_max_correct:
  assumes "kv_inv kv" and "valid_seq kv s"
  shows "kv_seq_pos_min s kv = Some (if seq_view kv s = {} then - 1 else Min (snd ` seq_view kv s)) \<and>
    kv_seq_pos_max s kv = Some (if seq_view kv s = {} then - 1 else Max (snd ` seq_view kv s))"
  using kv_seq_pos_spec [OF assms] by blast

theorem seq_pos_min_max_correct_witness:
  "kv_seq_pos_min 0 ex_kv = Some 0 \<and> kv_seq_pos_max 0 ex_kv = Some 1"
  using seq_pos_min_max_correct [of ex_kv 0] by (simp add: ex_facts)

end
