(* ===== verification/KV_Slots.thy ===== *)
theory KV_Slots
  imports KV_Cache Batch
begin

text \<open>
  Placing batches in the cache, \<open>src/src/llama-kv-cache.cpp\<close>: \<open>slot_info\<close>, \<open>find_slot\<close>,
  \<open>apply_ubatch\<close>, \<open>prepare\<close>, \<open>init_batch\<close>, \<open>update\<close>, the indices of the K and V rows, and
  the contexts \<open>llama_kv_cache_context\<close>; the memory status of \<open>src/src/llama-memory.cpp\<close>.

  The search loop of \<open>find_slot\<close> is a terminating function.  The computation of the shift
  graph belongs to ggml: the results of its two fallible calls are arguments of \<open>kv_update\<close>,
  and the tensor copies that \<open>update\<close> issues are returned as a list.
\<close>

section \<open>Memory status\<close>

datatype llama_memory_status =
  LLAMA_MEMORY_STATUS_SUCCESS | LLAMA_MEMORY_STATUS_NO_UPDATE
| LLAMA_MEMORY_STATUS_FAILED_PREPARE | LLAMA_MEMORY_STATUS_FAILED_COMPUTE

definition llama_memory_status_is_fail :: "llama_memory_status \<Rightarrow> bool" where
  "llama_memory_status_is_fail st =
     (case st of
        LLAMA_MEMORY_STATUS_SUCCESS \<Rightarrow> False
      | LLAMA_MEMORY_STATUS_NO_UPDATE \<Rightarrow> False
      | LLAMA_MEMORY_STATUS_FAILED_PREPARE \<Rightarrow> True
      | LLAMA_MEMORY_STATUS_FAILED_COMPUTE \<Rightarrow> True)"

definition llama_memory_status_combine :: "llama_memory_status \<Rightarrow> llama_memory_status \<Rightarrow> llama_memory_status" where
  "llama_memory_status_combine s0 s1 =
     (if s0 = LLAMA_MEMORY_STATUS_FAILED_PREPARE \<or> s0 = LLAMA_MEMORY_STATUS_FAILED_COMPUTE then s0
      else if s1 = LLAMA_MEMORY_STATUS_FAILED_PREPARE \<or> s1 = LLAMA_MEMORY_STATUS_FAILED_COMPUTE then s1
      else let has_update = (s0 = LLAMA_MEMORY_STATUS_SUCCESS \<or> s1 = LLAMA_MEMORY_STATUS_SUCCESS) in
        if has_update then LLAMA_MEMORY_STATUS_SUCCESS else LLAMA_MEMORY_STATUS_NO_UPDATE)"

section \<open>Slots\<close>

record slot_info =
  si_s0 :: nat
  si_s1 :: nat
  si_strm :: "nat list"
  si_idxs :: "nat list list"

definition si_none :: slot_info where
  "si_none = \<lparr>si_s0 = 0, si_s1 = 0, si_strm = [], si_idxs = []\<rparr>"

definition si_head :: "slot_info \<Rightarrow> nat option" where
  "si_head si = do {
     ggml_assert (length (si_idxs si) = 1);
     ggml_assert (si_idxs si ! 0 \<noteq> []);
     Some (si_idxs si ! 0 ! 0) }"

definition si_size :: "slot_info \<Rightarrow> nat option" where
  "si_size si = do {
     ggml_assert (length (si_idxs si) = length (si_strm si));
     ggml_assert (si_idxs si \<noteq> []);
     Some (length (si_idxs si ! 0)) }"

definition si_n_stream :: "slot_info \<Rightarrow> nat" where
  "si_n_stream si = length (si_strm si)"

definition si_empty :: "slot_info \<Rightarrow> bool" where
  "si_empty si \<longleftrightarrow> si_idxs si = []"

definition si_is_contiguous :: "slot_info \<Rightarrow> bool" where
  "si_is_contiguous si =
     (if si_idxs si = [] \<or> si_idxs si ! 0 = [] then True
      else if length (si_idxs si) > 1 then False
      else let h = si_idxs si ! 0 ! 0 in
        \<forall>i\<in>set [0..<length (si_idxs si ! 0)]. si_idxs si ! 0 ! i = h + i)"

text \<open>Whether the cell can be used: it is empty, or held by one sequence and masked by the sliding window.\<close>

definition cell_can_use :: "nat \<Rightarrow> llama_swa_type \<Rightarrow> llama_kv_cells \<Rightarrow> nat \<Rightarrow> bool option" where
  "cell_can_use n_swa swa_type c idx = do {
     e \<leftarrow> kc_is_empty idx c;
     if e then Some True
     else do {
       n \<leftarrow> kc_seq_count idx c;
       if n = 1 then do {
         pos_cell \<leftarrow> kc_pos_get idx c;
         seq_id_cell \<leftarrow> kc_seq_get idx c;
         m \<leftarrow> kc_seq_pos_max seq_id_cell c;
         m1 \<leftarrow> i32_add m 1;
         is_masked_swa n_swa swa_type pos_cell m1 }
       else Some False } }"

text \<open>The inner \<open>for\<close> loop: test \<open>n\<close> cells from \<open>head_cur\<close> on; with \<open>cont\<close> the first unusable one ends it.\<close>

fun test_cells :: "(nat \<Rightarrow> bool option) \<Rightarrow> bool \<Rightarrow> nat \<Rightarrow> nat \<Rightarrow> nat \<Rightarrow> nat list \<Rightarrow> (nat \<times> nat \<times> nat list) option" where
  "test_cells can cont 0 head_cur n_tested idxs = Some (head_cur, n_tested, idxs)"
| "test_cells can cont (Suc n) head_cur n_tested idxs = do {
     u \<leftarrow> can head_cur;
     if u then test_cells can cont n (head_cur + 1) (n_tested + 1) (idxs @ [head_cur])
     else if cont then Some (head_cur + 1, n_tested + 1, idxs)
     else test_cells can cont n (head_cur + 1) (n_tested + 1) idxs }"

lemma test_cells_tested:
  "test_cells can cont n h t idxs = Some (h', t', idxs') \<Longrightarrow> t \<le> t' \<and> (0 < n \<longrightarrow> t < t')"
proof (induction n arbitrary: h t idxs)
  case (Suc n)
  then obtain u where "can h = Some u" by (cases "can h") auto
  with Suc.prems Suc.IH [of "h + 1" "t + 1" "if u then idxs @ [h] else idxs"] show ?case
    by (cases u; cases cont) auto
qed simp

text \<open>
  The \<open>while (true)\<close> loop.  \<open>None\<close> is an aborted access or a loop that never ends (a slot
  larger than the cache, which the caller excludes); \<open>Some None\<close> is \<open>return { }\<close>.
\<close>

function slot_loop :: "(nat \<Rightarrow> bool option) \<Rightarrow> bool \<Rightarrow> nat \<Rightarrow> nat \<Rightarrow> nat \<Rightarrow> nat \<Rightarrow> nat list \<Rightarrow> nat list option option" where
  "slot_loop can cont n_cells n_tokens head_cur n_tested idxs =
     (let n_test = (if cont then n_tokens else 1) in
      if head_cur + n_test > n_cells then
        (if n_test > n_cells then None
         else slot_loop can cont n_cells n_tokens 0 (n_tested + (n_cells - head_cur)) idxs)
      else case test_cells can cont n_test head_cur n_tested idxs of
          None \<Rightarrow> None
        | Some (head_cur', n_tested', idxs') \<Rightarrow>
            if length idxs' = n_tokens then Some (Some idxs')
            else if n_tested' \<ge> n_cells then Some None
            else slot_loop can cont n_cells n_tokens head_cur' n_tested' (if cont then [] else idxs'))"
  by pat_completeness auto
termination
proof (relation "measures [\<lambda>(can, cont, n_cells, n_tokens, h, t, idxs). n_cells - t,
    \<lambda>(can, cont, n_cells, n_tokens, h, t, idxs). if h + (if cont then n_tokens else 1) > n_cells then 1 else 0,
    \<lambda>(can, cont, n_cells, n_tokens, h, t, idxs). length idxs]", goal_cases)
  case 1
  show ?case by simp
next
  case (2 can cont n_cells n_tokens h t idxs)
  then show ?case by (cases "h < n_cells"; cases "t < n_cells") auto
next
  case (3 can cont n_cells n_tokens h t idxs n_test r h' q t' idxs')
  then have "t \<le> t'" "0 < n_test \<longrightarrow> t < t'"
    using test_cells_tested [of can cont n_test h t idxs h' t' idxs'] by auto
  with 3 show ?case by (cases "cont \<and> n_tokens = 0") auto
qed

definition find_slot_seq :: "llama_kv_cache \<Rightarrow> llama_ubatch \<Rightarrow> bool \<Rightarrow> nat \<Rightarrow> nat \<Rightarrow> slot_info \<Rightarrow> slot_info option option" where
  "find_slot_seq kv ub cont n_tokens s res = do {
     seq_id \<leftarrow> at (ub_seq_id_unq ub) s;
     _ \<leftarrow> (if kv_n_stream kv > 1 then do {
         n \<leftarrow> at (ub_n_seq_id ub) (s * n_tokens);
         ggml_assert (n = 1);
         ids \<leftarrow> at (ub_seq_id ub) (s * n_tokens);
         s0 \<leftarrow> at ids 0;
         ggml_assert (s0 = seq_id);
         Some () }
       else Some ());
     st \<leftarrow> (if seq_id < 0 then None else at (kv_seq_to_stream kv) (nat seq_id));
     let res = res\<lparr>si_s0 := min (si_s0 res) st, si_s1 := max (si_s1 res) st, si_strm := (si_strm res)[s := st]\<rparr>;
     c \<leftarrow> at (kv_v_cells kv) st;
     head0 \<leftarrow> at (kv_v_heads kv) st;
     let head_cur = (if head0 > u32 (kc_get_used c + 2 * n_tokens) then 0 else head0);
     if n_tokens > kc_size c then Some None
     else do {
       r \<leftarrow> slot_loop (cell_can_use (kv_n_swa kv) (kv_swa_type kv) c) cont (kc_size c) n_tokens head_cur 0 [];
       case r of
         None \<Rightarrow> Some None
       | Some idxs \<Rightarrow>
           if length idxs < n_tokens then Some None
           else Some (Some (res\<lparr>si_idxs := (si_idxs res)[s := idxs]\<rparr>)) } }"

definition find_slot :: "llama_kv_cache \<Rightarrow> llama_ubatch \<Rightarrow> bool \<Rightarrow> slot_info option" where
  "find_slot kv ub cont = do {
     _ \<leftarrow> (if kv_n_stream kv > 1
          then ggml_assert (ub_n_seqs_unq ub \<noteq> 0 \<and> ub_n_tokens ub mod ub_n_seqs_unq ub = 0) else Some ());
     let n_seqs = (if kv_n_stream kv > 1 then ub_n_seqs_unq ub else 1);
     let n_tokens = ub_n_tokens ub div n_seqs;
     r \<leftarrow> for_each (\<lambda>s r. case r of None \<Rightarrow> Some None | Some res \<Rightarrow> find_slot_seq kv ub cont n_tokens s res)
       [0..<n_seqs]
       (Some \<lparr>si_s0 = nat LLAMA_MAX_SEQ, si_s1 = 0, si_strm = replicate n_seqs 0, si_idxs = replicate n_seqs []\<rparr>);
     case r of
       None \<Rightarrow> Some si_none
     | Some res \<Rightarrow> do { ggml_assert (si_s1 res \<ge> si_s0 res); Some res } }"

section \<open>Emplacing a ubatch\<close>

definition apply_token :: "slot_info \<Rightarrow> llama_ubatch \<Rightarrow> nat \<times> nat \<Rightarrow> llama_kv_cache \<times> (llama_seq_id \<Rightarrow> llama_pos) \<Rightarrow>
    (llama_kv_cache \<times> (llama_seq_id \<Rightarrow> llama_pos)) option" where
  "apply_token si ub = (\<lambda>(s, ii) (kv, rm). do {
     n \<leftarrow> si_size si;
     let i = s * n + ii;
     st \<leftarrow> at (si_strm si) s;
     c \<leftarrow> at (kv_v_cells kv) st;
     idxs \<leftarrow> at (si_idxs si) s;
     idx \<leftarrow> at idxs ii;
     e \<leftarrow> kc_is_empty idx c;
     (c, rm) \<leftarrow> (if \<not> e then do {
         k \<leftarrow> kc_seq_count idx c;
         ggml_assert (k = 1);
         seq_id \<leftarrow> kc_seq_get idx c;
         p \<leftarrow> kc_pos_get idx c;
         c \<leftarrow> kc_rm idx c;
         Some (c, rm(seq_id := max (rm seq_id) p)) }
       else Some (c, rm));
     p \<leftarrow> at (ub_pos ub) i;
     c \<leftarrow> kc_pos_set idx p c;
     c \<leftarrow> (if is_pos_2d ub then do {
         x \<leftarrow> at (ub_pos ub) (i + ub_n_tokens ub * 2);
         y \<leftarrow> at (ub_pos ub) (i + ub_n_tokens ub);
         kc_ext_set idx \<lparr>ext_x = x, ext_y = y\<rparr> c }
       else Some c);
     k \<leftarrow> at (ub_n_seq_id ub) i;
     ids \<leftarrow> at (ub_seq_id ub) i;
     ggml_assert (nat k \<le> length ids);
     c \<leftarrow> for_each (kc_seq_add idx) (take (nat k) ids) c;
     Some (kv\<lparr>kv_v_cells := (kv_v_cells kv)[st := c]\<rparr>, rm) })"

text \<open>The purge of the positions below an overwritten one.\<close>

definition purge_seq :: "(llama_seq_id \<Rightarrow> llama_pos) \<Rightarrow> llama_seq_id \<Rightarrow> llama_kv_cache \<Rightarrow> llama_kv_cache option" where
  "purge_seq rm s kv =
     (if rm s = - 1 then Some kv
      else do {
        ggml_assert (nat s < length (kv_seq_to_stream kv));
        st \<leftarrow> at (kv_seq_to_stream kv) (nat s);
        c \<leftarrow> at (kv_v_cells kv) st;
        m \<leftarrow> kc_seq_pos_min s c;
        if m \<le> rm s then do {
          p1 \<leftarrow> i32_add (rm s) 1;
          (_, kv) \<leftarrow> kv_seq_rm s m p1 kv;
          Some kv }
        else Some kv })"

definition move_head :: "slot_info \<Rightarrow> nat \<Rightarrow> llama_kv_cache \<Rightarrow> llama_kv_cache option" where
  "move_head si s kv = do {
     st \<leftarrow> at (si_strm si) s;
     idxs \<leftarrow> at (si_idxs si) s;
     ggml_assert (idxs \<noteq> []);
     _ \<leftarrow> at (kv_v_heads kv) st;
     Some (kv\<lparr>kv_v_heads := (kv_v_heads kv)[st := last idxs + 1]\<rparr>) }"

definition apply_ubatch :: "slot_info \<Rightarrow> llama_ubatch \<Rightarrow> llama_kv_cache \<Rightarrow> llama_kv_cache option" where
  "apply_ubatch si ub kv = do {
     n \<leftarrow> si_size si;
     ggml_assert (ub_n_tokens ub = si_n_stream si * n);
     (kv, rm) \<leftarrow> for_each (apply_token si ub) [(s, ii). s \<leftarrow> [0..<si_n_stream si], ii \<leftarrow> [0..<n]] (kv, \<lambda>_. - 1);
     kv \<leftarrow> for_each (purge_seq rm) all_seq_ids kv;
     for_each (move_head si) [0..<si_n_stream si] kv }"

section \<open>prepare and init_batch\<close>

type_synonym saved_state = "slot_info \<times> nat list \<times> llama_kv_cells list"

definition save_state :: "slot_info \<Rightarrow> llama_kv_cache \<Rightarrow> saved_state option" where
  "save_state si kv = do {
     saved \<leftarrow> map_opt (\<lambda>s. do {
         st \<leftarrow> at (si_strm si) s;
         c \<leftarrow> at (kv_v_cells kv) st;
         idxs \<leftarrow> at (si_idxs si) s;
         kc_cp_idxs idxs c }) [0..<si_n_stream si];
     Some (si, kv_v_heads kv, saved) }"

text \<open>
  The first loop of \<open>prepare\<close>: the slots found so far, the stack of saved states and whether all
  ubatches were placed.
\<close>

fun prepare_loop :: "llama_ubatch list \<Rightarrow> llama_kv_cache \<Rightarrow> slot_info list \<Rightarrow> saved_state list \<Rightarrow>
    (bool \<times> llama_kv_cache \<times> slot_info list \<times> saved_state list) option" where
  "prepare_loop [] kv res states = Some (True, kv, res, states)"
| "prepare_loop (ub # ubs) kv res states = do {
     si \<leftarrow> find_slot kv ub False;
     if si_empty si then Some (False, kv, res, states)
     else do {
       state \<leftarrow> save_state si kv;
       kv \<leftarrow> apply_ubatch si ub kv;
       prepare_loop ubs kv (res @ [si]) (states @ [state]) } }"

definition restore_state :: "saved_state \<Rightarrow> llama_kv_cache \<Rightarrow> llama_kv_cache option" where
  "restore_state = (\<lambda>(si, heads_old, saved) kv.
     for_each (\<lambda>s kv. do {
         st \<leftarrow> at (si_strm si) s;
         c \<leftarrow> at (kv_v_cells kv) st;
         idxs \<leftarrow> at (si_idxs si) s;
         sv \<leftarrow> at saved s;
         c \<leftarrow> kc_set_idxs idxs sv c;
         h \<leftarrow> at heads_old s;
         Some (kv\<lparr>kv_v_cells := (kv_v_cells kv)[st := c], kv_v_heads := (kv_v_heads kv)[st := h]\<rparr>) })
       [0..<si_n_stream si] kv)"

definition prepare :: "llama_ubatch list \<Rightarrow> llama_kv_cache \<Rightarrow> (slot_info list \<times> llama_kv_cache) option" where
  "prepare ubs kv = do {
     (success, kv, res, states) \<leftarrow> prepare_loop ubs kv [] [];
     ggml_assert (states \<noteq> [] \<or> \<not> success);
     kv \<leftarrow> for_each restore_state (rev states) kv;
     if \<not> success then Some ([], kv) else Some (res, kv) }"

record llama_kv_cache_context =
  cx_status :: llama_memory_status
  cx_do_shift :: bool
  cx_sc_ssrc :: "nat list"
  cx_sc_sdst :: "nat list"
  cx_i_cur :: nat
  cx_sinfos :: "slot_info list"
  cx_ubatches :: "llama_ubatch list"
  cx_n_kv :: nat

definition context_fail :: "llama_memory_status \<Rightarrow> llama_kv_cache_context" where
  "context_fail st = \<lparr>cx_status = st, cx_do_shift = False, cx_sc_ssrc = [], cx_sc_sdst = [], cx_i_cur = 0,
     cx_sinfos = [], cx_ubatches = [], cx_n_kv = 0\<rparr>"

definition init_batch :: "nat \<Rightarrow> llama_batch_allocr \<Rightarrow> llama_kv_cache \<Rightarrow>
    (llama_kv_cache_context \<times> llama_batch_allocr \<times> llama_kv_cache) option" where
  "init_batch n_ubatch ba kv = do {
     let ba = split_reset ba;
     let split = (if kv_n_stream kv = 1 then split_simple n_ubatch else split_equal n_ubatch True);
     (ubs, ba) \<leftarrow> collect_ubatches (Suc (get_n_tokens ba)) split ba;
     if ba_n_used ba < get_n_tokens ba then Some (context_fail LLAMA_MEMORY_STATUS_FAILED_PREPARE, ba, kv)
     else do {
       (sinfos, kv) \<leftarrow> prepare ubs kv;
       if sinfos = [] then Some (context_fail LLAMA_MEMORY_STATUS_FAILED_PREPARE, ba, kv)
       else Some ((context_fail LLAMA_MEMORY_STATUS_SUCCESS)\<lparr>cx_sinfos := sinfos, cx_ubatches := ubs\<rparr>, ba, kv) } }"

definition init_full :: "llama_kv_cache \<Rightarrow> llama_kv_cache_context option" where
  "init_full kv = do {
     n_kv \<leftarrow> kv_get_size kv;
     let n_stream = kv_get_n_stream kv;
     Some ((context_fail LLAMA_MEMORY_STATUS_SUCCESS)\<lparr>
       cx_sinfos := [\<lparr>si_s0 = 0, si_s1 = n_stream - 1, si_strm = [0..<n_stream], si_idxs = replicate n_stream [0]\<rparr>],
       cx_n_kv := n_kv\<rparr>) }"

definition init_update :: "llama_kv_cache \<Rightarrow> (llama_kv_cache_context \<times> llama_kv_cache) option" where
  "init_update kv = do {
     do_shift \<leftarrow> kv_get_has_shift kv;
     let st = (if \<not> do_shift \<and> kv_sc_ssrc kv = [] then LLAMA_MEMORY_STATUS_NO_UPDATE else LLAMA_MEMORY_STATUS_SUCCESS);
     Some ((context_fail st)\<lparr>cx_do_shift := do_shift, cx_sc_ssrc := kv_sc_ssrc kv, cx_sc_sdst := kv_sc_sdst kv\<rparr>,
           kv\<lparr>kv_sc_ssrc := [], kv_sc_sdst := []\<rparr>) }"

section \<open>update\<close>

text \<open>A tensor copy: the layer, whether it is the V tensor, the source and the destination stream.\<close>

type_synonym tensor_copy = "nat \<times> bool \<times> nat \<times> nat"

definition stream_copies :: "llama_kv_cache \<Rightarrow> nat \<Rightarrow> nat \<Rightarrow> tensor_copy list option" where
  "stream_copies kv ssrc sdst = do {
     ggml_assert (ssrc < kv_n_stream kv);
     ggml_assert (sdst < kv_n_stream kv);
     ggml_assert (ssrc \<noteq> sdst);
     Some (concat (map (\<lambda>il. (il, False, ssrc, sdst) #
         (if kl_has_v (kv_layers kv ! il) then [(il, True, ssrc, sdst)] else [])) [0..<length (kv_layers kv)])) }"

definition reset_shifts :: "llama_kv_cache \<Rightarrow> llama_kv_cache option" where
  "reset_shifts kv =
     for_each (\<lambda>s kv. do {
         c \<leftarrow> at (kv_v_cells kv) s;
         Some (kv\<lparr>kv_v_cells := (kv_v_cells kv)[s := kc_reset_shift c]\<rparr>) }) [0..<kv_n_stream kv] kv"

definition kv_update :: "bool \<Rightarrow> bool \<Rightarrow> bool \<Rightarrow> nat list \<Rightarrow> nat list \<Rightarrow> llama_kv_cache \<Rightarrow>
    (bool \<times> tensor_copy list \<times> llama_kv_cache) option" where
  "kv_update alloc_ok compute_ok do_shift ssrc sdst kv = do {
     copies \<leftarrow> (if ssrc \<noteq> [] then do {
         ggml_assert (kv_n_stream kv > 1);
         cs \<leftarrow> map_opt (\<lambda>i. do { a \<leftarrow> at ssrc i; b \<leftarrow> at sdst i; stream_copies kv a b }) [0..<length ssrc];
         Some (concat cs) }
       else Some []);
     if \<not> do_shift then Some (False, copies, kv)
     else do {
       ggml_assert (kv_get_can_shift kv);
       if hp_rope_type (kv_hparams kv) \<noteq> LLAMA_ROPE_TYPE_NONE then
         (if \<not> alloc_ok then Some (False, copies, kv)
          else if \<not> compute_ok then Some (False, copies, kv)
          else do { kv \<leftarrow> reset_shifts kv; Some (True, copies, kv) })
       else do { kv \<leftarrow> reset_shifts kv; Some (False, copies, kv) } } }"

section \<open>Inputs of the graph\<close>

definition kv_get_n_kv :: "slot_info \<Rightarrow> llama_kv_cache \<Rightarrow> nat option" where
  "kv_get_n_kv si kv = do {
     let n_pad_cur = max (kv_n_pad kv) 256;
     for_each (\<lambda>s result. do {
         st \<leftarrow> at (si_strm si) s;
         c \<leftarrow> at (kv_v_cells kv) st;
         Some (max (min (kc_size c) (max n_pad_cur (GGML_PAD (kc_used_max_p1 c) n_pad_cur))) result) })
       [0..<si_n_stream si] 0 }"

definition set_input_k_idxs :: "llama_ubatch \<Rightarrow> slot_info \<Rightarrow> llama_kv_cache \<Rightarrow> nat list option" where
  "set_input_k_idxs ub si kv = do {
     n \<leftarrow> si_size si;
     ggml_assert (ub_n_tokens ub = n * si_n_stream si);
     kv_size \<leftarrow> kv_get_size kv;
     rows \<leftarrow> map_opt (\<lambda>s. do {
         st \<leftarrow> at (si_strm si) s;
         let offs = st * kv_size;
         idxs \<leftarrow> at (si_idxs si) s;
         map_opt (\<lambda>i. do { idx \<leftarrow> at idxs i; Some (offs + idx) }) [0..<n] }) [0..<si_n_stream si];
     Some (concat rows) }"

definition set_input_v_idxs :: "llama_ubatch \<Rightarrow> slot_info \<Rightarrow> llama_kv_cache \<Rightarrow> nat list option" where
  "set_input_v_idxs ub si kv =
     (if \<not> kv_v_trans kv then set_input_k_idxs ub si kv
      else do {
        n \<leftarrow> si_size si;
        ggml_assert (ub_n_tokens ub = n * si_n_stream si);
        kv_size \<leftarrow> kv_get_size kv;
        n_embd_v_gqa \<leftarrow> n_embd_v_gqa_max (kv_hparams kv);
        rows \<leftarrow> map_opt (\<lambda>s. do {
            st \<leftarrow> at (si_strm si) s;
            let offs = st * kv_size * n_embd_v_gqa;
            idxs \<leftarrow> at (si_idxs si) s;
            cols \<leftarrow> map_opt (\<lambda>i. do { idx \<leftarrow> at idxs i; Some (map (\<lambda>j. offs + j * kv_size + idx) [0..<n_embd_v_gqa]) }) [0..<n];
            Some (concat cols) }) [0..<si_n_stream si];
        Some (concat rows) })"

definition set_input_k_shift :: "llama_kv_cache \<Rightarrow> int list option" where
  "set_input_k_shift kv = do {
     rows \<leftarrow> map_opt (\<lambda>s. do {
         c \<leftarrow> at (kv_v_cells kv) s;
         map_opt (\<lambda>i. do { e \<leftarrow> kc_is_empty i c; if e then Some 0 else kc_get_shift i c }) [0..<kc_size c] })
       [0..<kv_n_stream kv];
     Some (concat rows) }"

section \<open>Contexts\<close>

definition context_next :: "llama_kv_cache_context \<Rightarrow> (bool \<times> llama_kv_cache_context) option" where
  "context_next cx = do {
     ggml_assert (cx_status cx = LLAMA_MEMORY_STATUS_SUCCESS);
     let cx = cx\<lparr>cx_i_cur := cx_i_cur cx + 1\<rparr>;
     if cx_i_cur cx \<ge> length (cx_ubatches cx) then Some (False, cx) else Some (True, cx) }"

definition context_apply :: "bool \<Rightarrow> bool \<Rightarrow> llama_kv_cache_context \<Rightarrow> llama_kv_cache \<Rightarrow>
    (bool \<times> llama_kv_cache_context \<times> tensor_copy list \<times> llama_kv_cache) option" where
  "context_apply alloc_ok compute_ok cx kv = do {
     ggml_assert (\<not> llama_memory_status_is_fail (cx_status cx));
     if cx_ubatches cx = [] then do {
       (_, copies, kv) \<leftarrow> kv_update alloc_ok compute_ok (cx_do_shift cx) (cx_sc_ssrc cx) (cx_sc_sdst cx) kv;
       Some (True, cx, copies, kv) }
     else do {
       si \<leftarrow> at (cx_sinfos cx) (cx_i_cur cx);
       ub \<leftarrow> at (cx_ubatches cx) (cx_i_cur cx);
       kv \<leftarrow> apply_ubatch si ub kv;
       n_kv \<leftarrow> kv_get_n_kv si kv;
       Some (True, cx\<lparr>cx_n_kv := n_kv\<rparr>, [], kv) } }"

definition context_get_ubatch :: "llama_kv_cache_context \<Rightarrow> llama_ubatch option" where
  "context_get_ubatch cx = do {
     ggml_assert (cx_status cx = LLAMA_MEMORY_STATUS_SUCCESS);
     at (cx_ubatches cx) (cx_i_cur cx) }"

declare slot_loop.simps [simp del]

section \<open>The search for a slot\<close>

text \<open>The cells in the order in which the loop visits them, from \<open>h0\<close> on and cyclically.\<close>

definition visited :: "nat \<Rightarrow> nat \<Rightarrow> nat \<Rightarrow> nat list" where
  "visited n h0 t = map (\<lambda>k. (h0 + k) mod n) [0..<t]"

lemma visited_Suc: "visited n h0 (Suc t) = visited n h0 t @ [(h0 + t) mod n]"
  by (simp add: visited_def)

lemma mod_add_inj:
  assumes "(h + a) mod n = (h + b) mod n" and "a < n" and "b < (n::nat)"
  shows "a = b"
proof -
  have "(int h + int a) mod int n = (int h + int b) mod int n"
    using arg_cong [OF assms(1), of int] by (simp add: of_nat_mod)
  then have "int n dvd (int a - int b)"
    by (simp add: mod_eq_dvd_iff)
  moreover have "\<bar>int a - int b\<bar> < int n" using assms(2,3) by auto
  ultimately have "int a - int b = 0" using zdvd_not_zless [of "\<bar>int a - int b\<bar>" "int n"] by auto
  then show ?thesis by simp
qed

lemma distinct_visited: "t \<le> n \<Longrightarrow> distinct (visited n h0 t)"
  by (auto simp: visited_def distinct_map inj_on_def dest: mod_add_inj)

lemma set_visited_sub: "0 < n \<Longrightarrow> set (visited n h0 t) \<subseteq> {..<n}"
  by (auto simp: visited_def)

lemma set_visited_all:
  assumes "0 < n"
  shows "set (visited n h0 n) = {..<n}"
proof (rule card_subset_eq)
  show "card (set (visited n h0 n)) = card {..<n}"
    using distinct_card [OF distinct_visited [of n n h0]] by (simp add: visited_def)
qed (use set_visited_sub [OF assms] in simp_all)

text \<open>Without \<open>cont\<close>: the first \<open>n_tokens\<close> usable cells, or a proof that there are fewer.\<close>

lemma slot_loop_single:
  assumes can: "\<And>i. i < n \<Longrightarrow> can i = Some (P i)"
    and "h \<le> n" and "t < n" and "h mod n = (h0 + t) mod n"
    and "idxs = filter P (visited n h0 t)" and "length idxs < n_tokens"
  shows "\<exists>r. slot_loop can False n n_tokens h t idxs = Some r \<and>
    (case r of None \<Rightarrow> length (filter P (visited n h0 n)) < n_tokens
     | Some js \<Rightarrow> length js = n_tokens \<and> (\<exists>t'\<le>n. js = filter P (visited n h0 t')))"
  using assms(2-6)
proof (induction "(n - t) * 2 + (if h = n then 1 else 0)" arbitrary: h t idxs rule: less_induct)
  case less
  show ?case
  proof (cases "h = n")
    case True
    then have eq: "slot_loop can False n n_tokens h t idxs = slot_loop can False n n_tokens 0 t idxs"
      using less.prems by (subst slot_loop.simps) (simp add: Let_def)
    have "0 mod n = (h0 + t) mod n" using less.prems(3) True by simp
    then show ?thesis unfolding eq using less.prems True by (intro less.hyps) auto
  next
    case False
    then have h: "h < n" "h = (h0 + t) mod n" using less.prems by auto
    let ?idxs = "if P h then idxs @ [h] else idxs"
    have idxs': "?idxs = filter P (visited n h0 (Suc t))"
      using less.prems(4) h(2) by (simp add: visited_Suc)
    have eq: "slot_loop can False n n_tokens h t idxs =
        (if length ?idxs = n_tokens then Some (Some ?idxs) else if Suc t \<ge> n then Some None
         else slot_loop can False n n_tokens (h + 1) (Suc t) ?idxs)"
      using h(1) can [OF h(1)] by (subst slot_loop.simps) (simp add: Let_def)
    consider "length ?idxs = n_tokens" | "length ?idxs \<noteq> n_tokens" "Suc t \<ge> n" | "length ?idxs \<noteq> n_tokens" "Suc t < n"
      by linarith
    then show ?thesis
    proof cases
      case 1
      with eq idxs' less.prems(2) show ?thesis by (intro exI [of _ "Some ?idxs"]) (auto intro!: exI [of _ "Suc t"])
    next
      case 2
      then have "Suc t = n" using less.prems(2) by simp
      moreover have "length ?idxs < n_tokens" using 2 less.prems(5) by (auto split: if_splits)
      ultimately show ?thesis using eq 2 idxs' by auto
    next
      case 3
      have "slot_loop can False n n_tokens h t idxs = slot_loop can False n n_tokens (h + 1) (Suc t) ?idxs"
        using eq 3 by simp
      moreover have "(h + 1) mod n = (h0 + Suc t) mod n" using less.prems(3) by (metis Suc_eq_plus1 add_Suc_right mod_Suc_eq)
      moreover have "length ?idxs < n_tokens" using 3 less.prems(5) by (auto split: if_splits)
      ultimately show ?thesis
        using 3 h(1) idxs' by (simp only:) (rule less.hyps, auto)
    qed
  qed
qed

text \<open>With \<open>cont\<close>: a block of consecutive usable cells.\<close>

lemma test_cells_cont:
  assumes "\<And>i. i < n \<Longrightarrow> can i = Some (P i)" and "h + m \<le> n"
  shows "\<exists>j h' t'. test_cells can True m h t idxs = Some (h', t', idxs @ [h..<h + j]) \<and> j \<le> m \<and> h' \<le> n \<and>
    (\<forall>i\<in>{h..<h + j}. P i)"
  using assms(2)
proof (induction m arbitrary: h t idxs)
  case 0
  then show ?case by (intro exI [of _ 0] exI [of _ h] exI [of _ t]) simp
next
  case (Suc m)
  have can_h: "can h = Some (P h)" using assms(1) Suc.prems by simp
  show ?case
  proof (cases "P h")
    case True
    from Suc.IH [of "h + 1" "t + 1" "idxs @ [h]"] Suc.prems obtain j h' t' where
      j: "test_cells can True m (h + 1) (t + 1) (idxs @ [h]) = Some (h', t', (idxs @ [h]) @ [h + 1..<h + 1 + j])"
        "j \<le> m" "h' \<le> n" "\<forall>i\<in>{h + 1..<h + 1 + j}. P i" by auto
    have "[h..<h + Suc j] = h # [h + 1..<h + 1 + j]" by (simp add: upt_conv_Cons)
    with j True can_h show ?thesis
      by (intro exI [of _ "Suc j"] exI [of _ h'] exI [of _ t']) (auto simp: Suc_le_eq order_class.le_less)
  next
    case False
    with can_h Suc.prems show ?thesis by (intro exI [of _ 0] exI [of _ "h + 1"] exI [of _ "t + 1"]) simp
  qed
qed

lemma slot_loop_cont:
  assumes can: "\<And>i. i < n \<Longrightarrow> can i = Some (P i)" and "n_tokens \<le> n" and "h \<le> n"
  shows "\<exists>r. slot_loop can True n n_tokens h t [] = Some r \<and>
    (\<forall>js. r = Some js \<longrightarrow> (\<exists>a. js = [a..<a + n_tokens] \<and> a + n_tokens \<le> n \<and> (\<forall>i\<in>set js. P i)))"
  using assms(3)
proof (induction "(n - t) * 2 + (if h + n_tokens > n then 1 else 0)" arbitrary: h t rule: less_induct)
  case less
  show ?case
  proof (cases "h + n_tokens > n")
    case True
    then have eq: "slot_loop can True n n_tokens h t [] = slot_loop can True n n_tokens 0 (t + (n - h)) []"
      using assms(2) by (subst slot_loop.simps) (simp add: Let_def)
    show ?thesis unfolding eq using True assms(2) by (intro less.hyps) auto
  next
    case False
    obtain j h' t' where j: "test_cells can True n_tokens h t [] = Some (h', t', [h..<h + j])" "j \<le> n_tokens" "h' \<le> n"
        "\<forall>i\<in>{h..<h + j}. P i"
      using test_cells_cont [where can = can and P = P and n = n and h = h and m = n_tokens and idxs = "[]" and t = t, OF can] False
      by auto
    have eq: "slot_loop can True n n_tokens h t [] =
        (if j = n_tokens then Some (Some [h..<h + j]) else if t' \<ge> n then Some None
         else slot_loop can True n n_tokens h' t' [])"
      using False j(1) by (subst slot_loop.simps) (simp add: Let_def)
    consider "j = n_tokens" | "j \<noteq> n_tokens" "t' \<ge> n" | "j < n_tokens" "t' < n" using j(2) by linarith
    then show ?thesis
    proof cases
      case 1
      with eq j(4) False show ?thesis by (intro exI [of _ "Some [h..<h + j]"]) auto
    next
      case 2
      with eq show ?thesis by (intro exI [of _ None]) simp
    next
      case 3
      then have "slot_loop can True n n_tokens h t [] = slot_loop can True n n_tokens h' t' []" using eq by simp
      moreover have "t < t'" using test_cells_tested [OF j(1)] 3 by simp
      ultimately show ?thesis using 3 j(3) by (simp only:) (rule less.hyps, auto)
    qed
  qed
qed

section \<open>What find_slot returns\<close>

definition usable :: "llama_kv_cache \<Rightarrow> cell list \<Rightarrow> cell \<Rightarrow> bool" where
  "usable kv xs x \<longleftrightarrow> cl_pos x = - 1 \<or>
     (card (cl_seq x) = 1 \<and>
      is_masked_swa (kv_n_swa kv) (kv_swa_type kv) (cl_pos x) (Max (seq_positions xs (the_elem (cl_seq x))) + 1) = Some True)"

text \<open>Positions stay below the largest \<open>int32_t\<close>, and a chunked window is not empty.\<close>

definition kv_pos_ok :: "llama_kv_cache \<Rightarrow> bool" where
  "kv_pos_ok kv \<longleftrightarrow> kv_n_swa kv < 4294967296 \<and> (kv_swa_type kv = LLAMA_SWA_TYPE_CHUNKED \<longrightarrow> kv_n_swa kv \<noteq> 0) \<and>
     (\<forall>st<kv_n_stream kv. \<forall>x\<in>set (stream_cells kv st). cl_pos x < INT32_MAX)"

lemma is_masked_swa_total:
  assumes "0 \<le> p0" "0 \<le> p1" "t = LLAMA_SWA_TYPE_CHUNKED \<longrightarrow> n \<noteq> 0" "n < 4294967296"
  shows "\<exists>b. is_masked_swa n t p0 p1 = Some b"
proof -
  have "i32_div (to_i32 n) 2 \<noteq> None \<or> t \<noteq> LLAMA_SWA_TYPE_SYMMETRIC \<or> n \<ge> 4294967296"
    by (auto simp: i32_div_def to_i32_def i32_ok_def Let_def sgn_if abs_if)
  then show ?thesis using assms
    by (cases t) (auto simp: is_masked_swa_def Let_def)
qed

lemma kc_is_empty_spec:
  assumes "kv_cells_inv c" and "i < length (kc_pos c)"
  shows "kc_is_empty i c = Some (kc_pos c ! i = - 1)"
  using kv_cells_inv_wf [OF assms] assms(2) by (auto simp: kc_is_empty_def cell_wf_def)

lemma cell_can_use_spec:
  assumes inv: "kv_cells_inv c" and i: "i < length (kc_pos c)"
    and ok: "kv_n_swa kv < 4294967296" "kv_swa_type kv = LLAMA_SWA_TYPE_CHUNKED \<longrightarrow> kv_n_swa kv \<noteq> 0"
      "\<forall>x\<in>set (cells_of c). cl_pos x < INT32_MAX"
  shows "cell_can_use (kv_n_swa kv) (kv_swa_type kv) c i = Some (usable kv (cells_of c) (cells_of c ! i))"
proof (cases "kc_pos c ! i = - 1")
  case True
  then show ?thesis using i by (simp add: cell_can_use_def kc_is_empty_def usable_def)
next
  case False
  have e: "kc_is_empty i c = Some False" using kc_is_empty_spec [OF inv i] False by simp
  show ?thesis
  proof (cases "card (kc_seq c ! i) = 1")
    case True
    then obtain s where s: "kc_seq c ! i = {s}" by (auto simp: card_1_singleton_iff)
    have wf: "cell_wf (cells_of c ! i)" by (rule kv_cells_inv_wf [OF inv i])
    then have bs: "bitset_idx s" using s i by (auto simp: cell_wf_def bitset_idx_def)
    let ?ps = "seq_positions (cells_of c) s"
    have "cells_of c ! i \<in> set (cells_of c)" using i by simp
    then have mem: "kc_pos c ! i \<in> ?ps" using i s by (auto simp: seq_positions_def intro!: exI [of _ "cells_of c ! i"])
    then have ne: "?ps \<noteq> {}" by auto
    have "Max ?ps \<in> ?ps" using ne by simp
    then obtain x where "x \<in> set (cells_of c)" "Max ?ps = cl_pos x" by (auto simp: seq_positions_def)
    then have M: "Max ?ps < INT32_MAX" using ok(3) by auto
    have p: "0 \<le> kc_pos c ! i" using wf i False by (auto simp: cell_wf_def)
    also have "\<dots> \<le> Max ?ps" using mem by simp
    finally have M0: "0 \<le> Max ?ps" .
    then have "i32_ok (Max ?ps + 1)" using M by (auto simp: i32_ok_def INT32_MAX_def)
    moreover obtain b where "is_masked_swa (kv_n_swa kv) (kv_swa_type kv) (kc_pos c ! i) (Max ?ps + 1) = Some b"
      using is_masked_swa_total [OF p _ ok(2,1), of "Max ?ps + 1"] M0 by auto
    ultimately show ?thesis
      using e False i s ne kc_seq_get_spec [OF inv i s] kc_seq_pos_max_spec [OF inv bs]
      by (auto simp: cell_can_use_def kc_seq_count_def kc_pos_get_def usable_def i32_add_def)
  next
    case card: False
    then show ?thesis using e i False by (auto simp: cell_can_use_def kc_seq_count_def usable_def)
  qed
qed

definition slots_of :: "llama_kv_cache \<Rightarrow> nat \<Rightarrow> nat set" where
  "slots_of kv st = {i. i < length (stream_cells kv st) \<and> usable kv (stream_cells kv st) (stream_cells kv st ! i)}"

lemma finite_slots_of [simp]: "finite (slots_of kv st)"
  by (simp add: slots_of_def)

text \<open>The ubatch fits the streams: what the assertions of \<open>find_slot\<close> ask for.\<close>

definition ub_seqs :: "llama_kv_cache \<Rightarrow> llama_ubatch \<Rightarrow> nat" where
  "ub_seqs kv ub = (if kv_n_stream kv > 1 then ub_n_seqs_unq ub else 1)"

definition ub_per_seq :: "llama_kv_cache \<Rightarrow> llama_ubatch \<Rightarrow> nat" where
  "ub_per_seq kv ub = ub_n_tokens ub div ub_seqs kv ub"

definition ub_stream :: "llama_kv_cache \<Rightarrow> llama_ubatch \<Rightarrow> nat \<Rightarrow> nat" where
  "ub_stream kv ub s = kv_seq_to_stream kv ! nat (ub_seq_id_unq ub ! s)"

definition ubatch_fits :: "llama_kv_cache \<Rightarrow> llama_ubatch \<Rightarrow> bool" where
  "ubatch_fits kv ub \<longleftrightarrow>
     0 < ub_per_seq kv ub \<and> ub_n_tokens ub = ub_seqs kv ub * ub_per_seq kv ub \<and>
     (\<forall>s<ub_seqs kv ub. s < length (ub_seq_id_unq ub) \<and> valid_seq kv (ub_seq_id_unq ub ! s)) \<and>
     (kv_n_stream kv > 1 \<longrightarrow> (\<forall>s<ub_seqs kv ub.
        s * ub_per_seq kv ub < length (ub_n_seq_id ub) \<and> ub_n_seq_id ub ! (s * ub_per_seq kv ub) = 1 \<and>
        s * ub_per_seq kv ub < length (ub_seq_id ub) \<and>
        at (ub_seq_id ub ! (s * ub_per_seq kv ub)) 0 = Some (ub_seq_id_unq ub ! s)))"

lemma find_slot_seq_spec:
  assumes inv: "kv_inv kv" and pos: "kv_pos_ok kv" and fits: "ubatch_fits kv ub" and s: "s < ub_seqs kv ub"
  defines "n \<equiv> ub_per_seq kv ub" and "st \<equiv> ub_stream kv ub s"
  shows "\<exists>r. find_slot_seq kv ub cont n s res = Some r \<and>
    (case r of
       None \<Rightarrow> cont \<or> card (slots_of kv st) < n
     | Some res' \<Rightarrow> \<exists>js. res' = res\<lparr>si_s0 := min (si_s0 res) st, si_s1 := max (si_s1 res) st, si_strm := (si_strm res)[s := st],
           si_idxs := (si_idxs res)[s := js]\<rparr> \<and> length js = n \<and> distinct js \<and> set js \<subseteq> slots_of kv st)"
proof -
  let ?id = "ub_seq_id_unq ub ! s" and ?c = "kv_v_cells kv ! st"
  have id: "s < length (ub_seq_id_unq ub)" "valid_seq kv ?id" and n0: "0 < n"
    using fits s by (auto simp: ubatch_fits_def n_def)
  note S = valid_seq_stream [OF inv id(2)]
  have st: "nat ?id < length (kv_seq_to_stream kv)" "st < kv_n_stream kv" "0 \<le> ?id" "kv_seq_to_stream kv ! nat ?id = st"
    using S id(2) by (auto simp: st_def ub_stream_def valid_seq_def)
  note D = kv_invD [OF inv st(2)]
  let ?N = "length (kc_pos ?c)" and ?P = "\<lambda>i. usable kv (cells_of ?c) (cells_of ?c ! i)"
  let ?can = "cell_can_use (kv_n_swa kv) (kv_swa_type kv) ?c"
  have can: "?can i = Some (?P i)" if "i < ?N" for i
    using cell_can_use_spec [OF D(1) that, of kv] pos st(2) by (auto simp: kv_pos_ok_def)
  have chk: "(if kv_n_stream kv > 1 then do {
         k \<leftarrow> at (ub_n_seq_id ub) (s * n); ggml_assert (k = 1); ids \<leftarrow> at (ub_seq_id ub) (s * n);
         s0 \<leftarrow> at ids 0; ggml_assert (s0 = ?id); Some () } else Some ()) = Some ()"
    using fits s by (auto simp: ubatch_fits_def n_def at_def)
  define h where "h = (if kv_v_heads kv ! st > u32 (kc_get_used ?c + 2 * n) then 0 else kv_v_heads kv ! st)"
  have h: "h \<le> ?N" using D(5) by (simp add: h_def)
  let ?res = "res\<lparr>si_s0 := min (si_s0 res) st, si_s1 := max (si_s1 res) st, si_strm := (si_strm res)[s := st]\<rparr>"
  have eq: "find_slot_seq kv ub cont n s res =
      (if n > ?N then Some None else do {
         r \<leftarrow> slot_loop ?can cont ?N n h 0 [];
         case r of None \<Rightarrow> Some None
         | Some idxs \<Rightarrow> if length idxs < n then Some None else Some (Some (?res\<lparr>si_idxs := (si_idxs ?res)[s := idxs]\<rparr>)) })"
    unfolding find_slot_seq_def using id(1) st(1,3,4) D(2,3) chk
    by (simp add: kc_size_def h_def Let_def)
  have slots: "slots_of kv st = {i. i < ?N \<and> ?P i}" by (simp add: slots_of_def)
  show ?thesis
  proof (cases "n > ?N")
    case True
    have "card (slots_of kv st) \<le> card {..<?N}" unfolding slots by (intro card_mono) auto
    with True eq show ?thesis by (intro exI [of _ None]) simp
  next
    case False
    show ?thesis
    proof (cases cont)
      case True
      obtain r where r: "slot_loop ?can cont ?N n h 0 [] = Some r"
          "\<forall>js. r = Some js \<longrightarrow> (\<exists>a. js = [a..<a + n] \<and> a + n \<le> ?N \<and> (\<forall>i\<in>set js. ?P i))"
        using slot_loop_cont [where can = ?can and P = ?P and n = ?N and n_tokens = n and h = h and t = 0, OF can] False h True by auto
      show ?thesis
      proof (cases r)
        case None
        with r(1) eq False True show ?thesis by auto
      next
        case (Some js)
        with r(2) obtain a where "js = [a..<a + n]" "a + n \<le> ?N" "\<forall>i\<in>set js. ?P i" by auto
        with Some r(1) eq False show ?thesis by (auto simp: slots)
      qed
    next
      case cont: False
      have N0: "0 < ?N" using False n0 by linarith
      obtain r where r: "slot_loop ?can False ?N n h 0 [] = Some r"
          "case r of None \<Rightarrow> length (filter ?P (visited ?N h ?N)) < n
           | Some js \<Rightarrow> length js = n \<and> (\<exists>t'\<le>?N. js = filter ?P (visited ?N h t'))"
        using slot_loop_single [where can = ?can and P = ?P and n = ?N and n_tokens = n and h = h and h0 = h and t = 0 and idxs = "[]", OF can]
          h n0 N0 by (auto simp: visited_def)
      show ?thesis
      proof (cases r)
        case None
        have "set (filter ?P (visited ?N h ?N)) = slots_of kv st"
          using set_visited_all [OF N0, of h] by (auto simp: slots)
        then have "card (slots_of kv st) \<le> length (filter ?P (visited ?N h ?N))" by (metis card_length)
        with None r eq False cont show ?thesis by (intro exI [of _ None]) simp
      next
        case (Some js)
        with r(2) obtain t where t: "length js = n" "t \<le> ?N" "js = filter ?P (visited ?N h t)" by auto
        then have "distinct js" "set js \<subseteq> slots_of kv st"
          using distinct_visited [OF t(2), of h] set_visited_sub [OF N0, of h t] by (auto simp: slots)
        with Some r(1) eq False cont t(1) show ?thesis by auto
      qed
    qed
  qed
qed

definition slot_ok :: "llama_kv_cache \<Rightarrow> llama_ubatch \<Rightarrow> slot_info \<Rightarrow> bool" where
  "slot_ok kv ub si \<longleftrightarrow>
     length (si_strm si) = ub_seqs kv ub \<and> length (si_idxs si) = ub_seqs kv ub \<and>
     (\<forall>s<ub_seqs kv ub. si_strm si ! s = ub_stream kv ub s \<and> length (si_idxs si ! s) = ub_per_seq kv ub \<and>
        distinct (si_idxs si ! s) \<and> set (si_idxs si ! s) \<subseteq> slots_of kv (ub_stream kv ub s))"

lemma ubatch_fits_seqs: "ubatch_fits kv ub \<Longrightarrow> 0 < ub_seqs kv ub"
  by (cases "ub_seqs kv ub = 0") (auto simp: ubatch_fits_def ub_per_seq_def)

lemma find_slot_spec:
  assumes inv: "kv_inv kv" and pos: "kv_pos_ok kv" and fits: "ubatch_fits kv ub"
  shows "\<exists>si. find_slot kv ub cont = Some si \<and>
    (if si_empty si then cont \<or> (\<exists>s<ub_seqs kv ub. card (slots_of kv (ub_stream kv ub s)) < ub_per_seq kv ub)
     else slot_ok kv ub si)"
proof -
  let ?N = "ub_seqs kv ub" and ?n = "ub_per_seq kv ub" and ?st = "ub_stream kv ub"
  let ?f = "\<lambda>s r. case r of None \<Rightarrow> Some None | Some res \<Rightarrow> find_slot_seq kv ub cont ?n s res"
  let ?I = "\<lambda>k r. case r of None \<Rightarrow> cont \<or> (\<exists>s<?N. card (slots_of kv (?st s)) < ?n)
    | Some res \<Rightarrow> length (si_strm res) = ?N \<and> length (si_idxs res) = ?N \<and> (k > 0 \<longrightarrow> si_s0 res \<le> si_s1 res) \<and>
       (\<forall>s<k. si_strm res ! s = ?st s \<and> length (si_idxs res ! s) = ?n \<and> distinct (si_idxs res ! s) \<and>
          set (si_idxs res ! s) \<subseteq> slots_of kv (?st s))"
  let ?r0 = "Some \<lparr>si_s0 = nat LLAMA_MAX_SEQ, si_s1 = 0, si_strm = replicate ?N 0, si_idxs = replicate ?N []\<rparr>"
  have "\<exists>r. for_each ?f [0..<?N] ?r0 = Some r \<and> ?I ?N r"
  proof (rule for_upto_rule [where I = ?I])
    fix k :: nat and r :: "slot_info option"
    assume k: "k < ?N" and I: "?I k r"
    show "\<exists>r'. ?f k r = Some r' \<and> ?I (Suc k) r'"
    proof (cases r)
      case None
      with I show ?thesis by auto
    next
      case (Some res)
      from find_slot_seq_spec [OF inv pos fits k, of cont res] obtain r' where
        r': "find_slot_seq kv ub cont ?n k res = Some r'"
          "case r' of None \<Rightarrow> cont \<or> card (slots_of kv (?st k)) < ?n
           | Some res' \<Rightarrow> \<exists>js. res' = res\<lparr>si_s0 := min (si_s0 res) (?st k), si_s1 := max (si_s1 res) (?st k),
               si_strm := (si_strm res)[k := ?st k], si_idxs := (si_idxs res)[k := js]\<rparr> \<and> length js = ?n \<and> distinct js \<and>
               set js \<subseteq> slots_of kv (?st k)"
        by blast
      have "?I (Suc k) r'"
      proof (cases r')
        case None
        with r'(2) k show ?thesis by auto
      next
        case (Some res')
        with r'(2) obtain js where js: "res' = res\<lparr>si_s0 := min (si_s0 res) (?st k), si_s1 := max (si_s1 res) (?st k),
               si_strm := (si_strm res)[k := ?st k], si_idxs := (si_idxs res)[k := js]\<rparr>" "length js = ?n" "distinct js"
               "set js \<subseteq> slots_of kv (?st k)" by auto
        with I \<open>r = Some res\<close> k Some show ?thesis by (auto simp: nth_list_update less_Suc_eq)
      qed
      with Some r'(1) show ?thesis by auto
    qed
  qed simp
  then obtain r where r: "for_each ?f [0..<?N] ?r0 = Some r" "?I ?N r" by blast
  have N0: "0 < ?N" by (rule ubatch_fits_seqs [OF fits])
  have chk: "(if kv_n_stream kv > 1
          then ggml_assert (ub_n_seqs_unq ub \<noteq> 0 \<and> ub_n_tokens ub mod ub_n_seqs_unq ub = 0) else Some ()) = Some ()"
    using fits N0 by (auto simp: ubatch_fits_def ub_seqs_def ggml_assert_def)
  have eq: "find_slot kv ub cont = (case r of None \<Rightarrow> Some si_none | Some res \<Rightarrow> do { ggml_assert (si_s1 res \<ge> si_s0 res); Some res })"
    unfolding find_slot_def chk Let_def ub_seqs_def [symmetric] ub_per_seq_def [symmetric]
    by (simp only: Option.bind.simps r(1))
  show ?thesis
  proof (cases r)
    case None
    with eq r(2) show ?thesis by (auto simp: si_empty_def si_none_def)
  next
    case (Some res)
    with r(2) N0 have "slot_ok kv ub res" "si_s0 res \<le> si_s1 res" "\<not> si_empty res"
      by (auto simp: slot_ok_def si_empty_def)
    with Some eq show ?thesis by auto
  qed
qed

end
