(* ===== verification/KV_Prepare.thy ===== *)
theory KV_Prepare
  imports KV_Slots
begin

text \<open>
  Correctness of placing ubatches: what \<open>apply_ubatch\<close> does to the cells, and that \<open>prepare\<close>
  puts the cells undo as they were.
\<close>

section \<open>One token\<close>

definition tok_seqs :: "llama_ubatch \<Rightarrow> nat \<Rightarrow> llama_seq_id list" where
  "tok_seqs ub i = take (nat (ub_n_seq_id ub ! i)) (ub_seq_id ub ! i)"

text \<open>The content of a cell after token \<open>i\<close> is placed in it; an occupied cell is emptied first.\<close>

definition placed :: "llama_ubatch \<Rightarrow> nat \<Rightarrow> cell \<Rightarrow> cell" where
  "placed ub i x =
     (let x = (if cl_pos x = - 1 then x else empty_cell) in
      x\<lparr>cl_pos := ub_pos ub ! i,
        cl_ext := (if is_pos_2d ub then \<lparr>ext_x = ub_pos ub ! (i + ub_n_tokens ub * 2), ext_y = ub_pos ub ! (i + ub_n_tokens ub)\<rparr>
                   else cl_ext x),
        cl_seq := set (tok_seqs ub i)\<rparr>)"

definition ub_wf :: "llama_ubatch \<Rightarrow> bool" where
  "ub_wf ub \<longleftrightarrow> (is_pos_2d ub \<longrightarrow> ub_n_tokens ub * 3 \<le> length (ub_pos ub)) \<and>
     (\<forall>i<ub_n_tokens ub. i < length (ub_pos ub) \<and> 0 \<le> ub_pos ub ! i \<and> ub_pos ub ! i < INT32_MAX \<and>
        i < length (ub_n_seq_id ub) \<and> i < length (ub_seq_id ub) \<and> 1 \<le> ub_n_seq_id ub ! i \<and>
        nat (ub_n_seq_id ub ! i) \<le> length (ub_seq_id ub ! i) \<and> distinct (tok_seqs ub i) \<and>
        (\<forall>s\<in>set (tok_seqs ub i). bitset_idx s))"

lemma ub_wf_seqs: "ub_wf ub \<Longrightarrow> i < ub_n_tokens ub \<Longrightarrow> tok_seqs ub i \<noteq> []"
  by (auto simp: ub_wf_def tok_seqs_def)

lemma placed_ok:
  assumes "ub_wf ub" and "i < ub_n_tokens ub"
  shows "occupied_ok (placed ub i x)"
  using assms ub_wf_seqs [OF assms] by (auto simp: placed_def occupied_ok_def Let_def ub_wf_def)

text \<open>Adding several sequences to one cell.\<close>

lemma kc_seq_adds:
  assumes "kv_cells_inv c" and "i < length (kc_pos c)" and "kc_pos c ! i \<noteq> - 1"
    and "distinct ids" and "\<forall>s\<in>set ids. bitset_idx s \<and> s \<notin> kc_seq c ! i"
  shows "\<exists>c'. for_each (kc_seq_add i) ids c = Some c' \<and> kv_cells_inv c' \<and>
    cells_of c' = (cells_of c)[i := (cells_of c ! i)\<lparr>cl_seq := kc_seq c ! i \<union> set ids\<rparr>] \<and> kc_has_shift c' = kc_has_shift c"
  using assms
proof (induction ids arbitrary: c)
  case Nil
  have "(cells_of c)[i := (cells_of c ! i)\<lparr>cl_seq := kc_seq c ! i\<rparr>] = cells_of c"
    using Nil.prems(2) by (simp add: list_update_same_conv nth_cells_of)
  with Nil.prems show ?case by simp
next
  case (Cons s ids)
  obtain c1 where c1: "kc_seq_add i s c = Some c1" "kv_cells_inv c1"
      "cells_of c1 = (cells_of c)[i := (cells_of c ! i)\<lparr>cl_seq := insert s (kc_seq c ! i)\<rparr>]" "kc_has_shift c1 = kc_has_shift c"
    using kc_seq_add_spec [OF Cons.prems(1-3), of s] Cons.prems(5) by auto
  have i1: "i < length (kc_pos c1)" using arg_cong [OF c1(3), of length] Cons.prems(2) by simp
  have f: "kc_pos c1 ! i = kc_pos c ! i" "kc_seq c1 ! i = insert s (kc_seq c ! i)"
    using cell_fields [OF i1] Cons.prems(2) by (simp_all add: c1(3))
  from Cons.IH [OF c1(2) i1] Cons.prems f obtain c' where
    "for_each (kc_seq_add i) ids c1 = Some c'" "kv_cells_inv c'"
    "cells_of c' = (cells_of c1)[i := (cells_of c1 ! i)\<lparr>cl_seq := kc_seq c1 ! i \<union> set ids\<rparr>]" "kc_has_shift c' = kc_has_shift c1"
    by auto
  with c1 f Cons.prems(2) show ?case by auto
qed

text \<open>The cell is emptied when it is occupied.\<close>

lemma evict_cell:
  assumes inv: "kv_cells_inv c" and i: "i < length (kc_pos c)" and one: "kc_pos c ! i \<noteq> - 1 \<Longrightarrow> card (kc_seq c ! i) = 1"
  shows "\<exists>c' rm'. (if kc_pos c ! i \<noteq> - 1 then do {
         k \<leftarrow> kc_seq_count i c; ggml_assert (k = 1); seq_id \<leftarrow> kc_seq_get i c; p \<leftarrow> kc_pos_get i c;
         c \<leftarrow> kc_rm i c; Some (c, rm(seq_id := max (rm seq_id) p)) } else Some (c, rm)) = Some (c', rm') \<and>
    kv_cells_inv c' \<and> cells_of c' = (cells_of c)[i := if kc_pos c ! i = - 1 then cells_of c ! i else empty_cell] \<and>
    rm' = (if kc_pos c ! i = - 1 then rm else rm(the_elem (kc_seq c ! i) := max (rm (the_elem (kc_seq c ! i))) (kc_pos c ! i))) \<and>
    kc_has_shift c' = kc_has_shift c"
proof (cases "kc_pos c ! i = - 1")
  case True
  with inv i show ?thesis by auto
next
  case False
  then obtain s where s: "kc_seq c ! i = {s}" using one by (auto simp: card_1_singleton_iff)
  from kc_rm_spec [OF inv i False] obtain c' where c': "kc_rm i c = Some c'" "kv_cells_inv c'"
      "cells_of c' = (cells_of c)[i := empty_cell]" "kc_has_shift c' = kc_has_shift c" by auto
  with False i s kc_seq_get_spec [OF inv i s] show ?thesis
    by (simp add: kc_seq_count_def kc_pos_get_def)
qed

lemma apply_cell:
  assumes inv: "kv_cells_inv c" and i: "i < length (kc_pos c)" and occ: "occupied_ok (cells_of c ! i)"
    and one: "kc_pos c ! i \<noteq> - 1 \<Longrightarrow> card (kc_seq c ! i) = 1"
    and ub: "ub_wf ub" and j: "j < ub_n_tokens ub"
  shows "\<exists>c1 rm' c2 c3 c4.
    (if kc_pos c ! i \<noteq> - 1 then do {
         k \<leftarrow> kc_seq_count i c; ggml_assert (k = 1); seq_id \<leftarrow> kc_seq_get i c; p \<leftarrow> kc_pos_get i c;
         c \<leftarrow> kc_rm i c; Some (c, rm(seq_id := max (rm seq_id) p)) } else Some (c, rm)) = Some (c1, rm') \<and>
    kc_pos_set i (ub_pos ub ! j) c1 = Some c2 \<and>
    (if is_pos_2d ub then kc_ext_set i \<lparr>ext_x = ub_pos ub ! (j + ub_n_tokens ub * 2), ext_y = ub_pos ub ! (j + ub_n_tokens ub)\<rparr> c2
     else Some c2) = Some c3 \<and>
    for_each (kc_seq_add i) (tok_seqs ub j) c3 = Some c4 \<and>
    kv_cells_inv c4 \<and> cells_of c4 = (cells_of c)[i := placed ub j (cells_of c ! i)] \<and> kc_has_shift c4 = kc_has_shift c \<and>
    rm' = (if kc_pos c ! i = - 1 then rm else rm(the_elem (kc_seq c ! i) := max (rm (the_elem (kc_seq c ! i))) (kc_pos c ! i)))"
proof -
  obtain c1 rm' where c1: "(if kc_pos c ! i \<noteq> - 1 then do {
         k \<leftarrow> kc_seq_count i c; ggml_assert (k = 1); seq_id \<leftarrow> kc_seq_get i c; p \<leftarrow> kc_pos_get i c;
         c \<leftarrow> kc_rm i c; Some (c, rm(seq_id := max (rm seq_id) p)) } else Some (c, rm)) = Some (c1, rm')"
      "kv_cells_inv c1" "cells_of c1 = (cells_of c)[i := if kc_pos c ! i = - 1 then cells_of c ! i else empty_cell]"
      "rm' = (if kc_pos c ! i = - 1 then rm else rm(the_elem (kc_seq c ! i) := max (rm (the_elem (kc_seq c ! i))) (kc_pos c ! i)))"
      "kc_has_shift c1 = kc_has_shift c"
    using evict_cell [OF inv i one, where rm = rm] by blast
  define x where "x = (if kc_pos c ! i = - 1 then cells_of c ! i else empty_cell)"
  have i1: "i < length (kc_pos c1)" using arg_cong [OF c1(3), of length] i by simp
  have x1: "cells_of c1 ! i = x" using i by (simp add: c1(3) x_def)
  have xe: "cl_pos x = - 1" "cl_seq x = {}" using occ i by (auto simp: x_def occupied_ok_def empty_cell_def)
  have tok: "0 \<le> ub_pos ub ! j" "i32_ok (ub_pos ub ! j)" "distinct (tok_seqs ub j)" "\<forall>s\<in>set (tok_seqs ub j). bitset_idx s"
    using ub j by (auto simp: ub_wf_def i32_ok_def INT32_MAX_def)
  obtain c2 where c2: "kc_pos_set i (ub_pos ub ! j) c1 = Some c2" "kv_cells_inv c2"
      "cells_of c2 = (cells_of c1)[i := x\<lparr>cl_pos := ub_pos ub ! j\<rparr>]" "kc_has_shift c2 = kc_has_shift c1"
    using kc_pos_set_spec [OF c1(2) i1 _ tok(1,2)] x1 xe cell_fields [OF i1] by auto
  have i2: "i < length (kc_pos c2)" using arg_cong [OF c2(3), of length] i1 by simp
  define e where "e = (if is_pos_2d ub then \<lparr>ext_x = ub_pos ub ! (j + ub_n_tokens ub * 2), ext_y = ub_pos ub ! (j + ub_n_tokens ub)\<rparr> else cl_ext x)"
  obtain c3 where c3: "(if is_pos_2d ub then kc_ext_set i \<lparr>ext_x = ub_pos ub ! (j + ub_n_tokens ub * 2), ext_y = ub_pos ub ! (j + ub_n_tokens ub)\<rparr> c2
     else Some c2) = Some c3" "kv_cells_inv c3" "cells_of c3 = (cells_of c1)[i := x\<lparr>cl_pos := ub_pos ub ! j, cl_ext := e\<rparr>]"
     "kc_has_shift c3 = kc_has_shift c2"
    using kc_ext_set_spec [OF c2(2) i2] c2(2,3) i1 by (cases "is_pos_2d ub") (auto simp: e_def)
  have i3: "i < length (kc_pos c3)" using arg_cong [OF c3(3), of length] i1 by simp
  have f3: "kc_pos c3 ! i = ub_pos ub ! j" "kc_seq c3 ! i = {}"
    using cell_fields [OF i3] xe i1 by (simp_all add: c3(3))
  obtain c4 where c4: "for_each (kc_seq_add i) (tok_seqs ub j) c3 = Some c4" "kv_cells_inv c4"
      "cells_of c4 = (cells_of c3)[i := (cells_of c3 ! i)\<lparr>cl_seq := set (tok_seqs ub j)\<rparr>]" "kc_has_shift c4 = kc_has_shift c3"
    using kc_seq_adds [OF c3(2) i3 _ tok(3)] f3 tok by auto
  have cells: "cells_of c4 = (cells_of c)[i := placed ub j (cells_of c ! i)]"
    using i i1 by (simp add: c4(3) c3(3) c1(3) placed_def Let_def e_def x_def)
  have hs: "kc_has_shift c4 = kc_has_shift c" using c1(5) c2(4) c3(4) c4(4) by simp
  show ?thesis
    by (intro exI [of _ c1] exI [of _ rm'] exI [of _ c2] exI [of _ c3] exI [of _ c4] conjI)
      (fact c1(1) c2(1) c3(1) c4(1) c4(2) cells hs c1(4))+
qed

section \<open>All tokens\<close>

text \<open>The loop order, and the cell (stream and index) of each token.\<close>

definition tok_pairs :: "nat \<Rightarrow> nat \<Rightarrow> (nat \<times> nat) list" where
  "tok_pairs ns n = [(s, ii). s \<leftarrow> [0..<ns], ii \<leftarrow> [0..<n]]"

definition target :: "slot_info \<Rightarrow> nat \<times> nat \<Rightarrow> nat \<times> nat" where
  "target si = (\<lambda>(s, ii). (si_strm si ! s, si_idxs si ! s ! ii))"

lemma set_tok_pairs: "set (tok_pairs ns n) = {(s, ii). s < ns \<and> ii < n}"
  by (auto simp: tok_pairs_def)

lemma distinct_tok_pairs: "distinct (tok_pairs ns n)"
proof -
  have "tok_pairs ns n = List.product [0..<ns] [0..<n]"
    by (simp add: tok_pairs_def product_concat_map)
  then show ?thesis by (simp add: distinct_product)
qed

text \<open>A slot for the ubatch: valid streams, usable cells in range, no cell twice.\<close>

definition slot_wf :: "llama_kv_cache \<Rightarrow> slot_info \<Rightarrow> nat \<Rightarrow> bool" where
  "slot_wf kv si n \<longleftrightarrow> 0 < n \<and> si_strm si \<noteq> [] \<and> length (si_idxs si) = length (si_strm si) \<and> distinct (si_strm si) \<and>
     (\<forall>s<length (si_strm si). si_strm si ! s < kv_n_stream kv \<and> length (si_idxs si ! s) = n \<and> distinct (si_idxs si ! s) \<and>
        (\<forall>i\<in>set (si_idxs si ! s). i < length (stream_cells kv (si_strm si ! s))))"

definition slot_free :: "llama_kv_cache \<Rightarrow> slot_info \<Rightarrow> bool" where
  "slot_free kv si \<longleftrightarrow> (\<forall>s<length (si_strm si). \<forall>i\<in>set (si_idxs si ! s).
     cl_pos (stream_cells kv (si_strm si ! s) ! i) = - 1 \<or> card (cl_seq (stream_cells kv (si_strm si ! s) ! i)) = 1)"

lemma target_inj:
  assumes wf: "slot_wf kv si n" and p: "p \<in> set (tok_pairs (si_n_stream si) n)" and q: "q \<in> set (tok_pairs (si_n_stream si) n)"
    and eq: "target si p = target si q"
  shows "p = q"
proof -
  obtain s ii t jj where pq: "p = (s, ii)" "q = (t, jj)" by fastforce
  have b: "s < length (si_strm si)" "ii < n" "t < length (si_strm si)" "jj < n"
    using p q by (auto simp: pq set_tok_pairs si_n_stream_def)
  have st: "si_strm si ! s = si_strm si ! t" "si_idxs si ! s ! ii = si_idxs si ! t ! jj"
    using eq by (auto simp: pq target_def)
  then have "s = t" using wf b by (simp add: slot_wf_def nth_eq_iff_index_eq)
  moreover have "ii = jj"
    using st(2) wf b \<open>s = t\<close> by (auto simp: slot_wf_def nth_eq_iff_index_eq)
  ultimately show ?thesis by (simp add: pq)
qed

text \<open>The cells of the cache after the tokens of \<open>done\<close>.\<close>

definition placed_cell :: "slot_info \<Rightarrow> llama_ubatch \<Rightarrow> nat \<Rightarrow> (nat \<times> nat) set \<Rightarrow> nat \<Rightarrow> nat \<Rightarrow> cell \<Rightarrow> cell" where
  "placed_cell si ub n ps st i x =
     (if \<exists>p\<in>ps. target si p = (st, i)
      then (let (s, ii) = (THE p. p \<in> ps \<and> target si p = (st, i)) in placed ub (s * n + ii) x) else x)"

lemma placed_cell_at:
  assumes wf: "slot_wf kv si n" and ps: "ps \<subseteq> set (tok_pairs (si_n_stream si) n)" and p: "(s, ii) \<in> ps"
  shows "placed_cell si ub n ps (si_strm si ! s) (si_idxs si ! s ! ii) x = placed ub (s * n + ii) x"
proof -
  have "(THE p. p \<in> ps \<and> target si p = (si_strm si ! s, si_idxs si ! s ! ii)) = (s, ii)"
  proof (rule the_equality)
    fix q
    assume "q \<in> ps \<and> target si q = (si_strm si ! s, si_idxs si ! s ! ii)"
    then show "q = (s, ii)"
      using target_inj [OF wf, of q "(s, ii)"] ps p by (auto simp: target_def)
  qed (use p in \<open>simp add: target_def\<close>)
  moreover have "\<exists>p\<in>ps. target si p = (si_strm si ! s, si_idxs si ! s ! ii)"
    using p by (intro bexI [of _ "(s, ii)"]) (simp_all add: target_def)
  ultimately show ?thesis by (simp add: placed_cell_def)
qed

lemma placed_cell_insert_other:
  assumes "target si p \<noteq> (st, i)"
  shows "placed_cell si ub n (insert p ps) st i x = placed_cell si ub n ps st i x"
proof -
  have "(q \<in> insert p ps \<and> target si q = (st, i)) = (q \<in> ps \<and> target si q = (st, i))" for q
    using assms by auto
  then show ?thesis using assms by (simp add: placed_cell_def)
qed

text \<open>Every sequence of a cell belongs to the stream of the cell.\<close>

definition homed :: "llama_kv_cache \<Rightarrow> bool" where
  "homed kv \<longleftrightarrow> (\<forall>st<kv_n_stream kv. \<forall>x\<in>set (stream_cells kv st). \<forall>s\<in>cl_seq x. valid_seq kv s)"

lemma homed_unified:
  assumes "kv_inv kv" and "kv_n_stream kv = 1"
  shows "homed kv"
  unfolding homed_def
proof (intro allI impI ballI)
  fix st x s
  assume st: "st < kv_n_stream kv" and x: "x \<in> set (stream_cells kv st)" and s: "s \<in> cl_seq x"
  have "cell_wf x" using kv_invD(1) [OF assms(1) st] x by (simp add: kv_cells_inv_def)
  with s assms show "valid_seq kv s" by (auto simp: cell_wf_def valid_seq_def kv_inv_def)
qed

definition rm_ok :: "llama_kv_cache \<Rightarrow> (llama_seq_id \<Rightarrow> llama_pos) \<Rightarrow> bool" where
  "rm_ok kv rm \<longleftrightarrow> (\<forall>s. rm s = - 1 \<or> valid_seq kv s \<and> 0 \<le> rm s \<and> rm s < INT32_MAX)"

text \<open>The state of the loop after the tokens of \<open>ps\<close>.\<close>

definition placed_state :: "llama_kv_cache \<Rightarrow> slot_info \<Rightarrow> llama_ubatch \<Rightarrow> nat \<Rightarrow> (nat \<times> nat) set \<Rightarrow>
    llama_kv_cache \<times> (llama_seq_id \<Rightarrow> llama_pos) \<Rightarrow> bool" where
  "placed_state kv si ub n ps = (\<lambda>(kv', rm). kv_inv kv' \<and> same_config kv kv' \<and> kv_v_heads kv' = kv_v_heads kv \<and>
     (\<forall>st<kv_n_stream kv. length (stream_cells kv' st) = length (stream_cells kv st) \<and>
        kc_has_shift (kv_v_cells kv' ! st) = kc_has_shift (kv_v_cells kv ! st) \<and>
        (\<forall>i<length (stream_cells kv st). stream_cells kv' st ! i = placed_cell si ub n ps st i (stream_cells kv st ! i))) \<and>
     rm_ok kv rm \<and>
     ((\<forall>(s, ii)\<in>ps. cl_pos (stream_cells kv (si_strm si ! s) ! (si_idxs si ! s ! ii)) = - 1) \<longrightarrow> rm = (\<lambda>_. - 1)))"

lemma tok_index_less:
  assumes "s < ns" and "ii < (n::nat)"
  shows "s * n + ii < ns * n"
proof -
  have "s * n + ii < Suc s * n" using assms(2) by simp
  also have "\<dots> \<le> ns * n" using assms(1) by (intro mult_le_mono1) simp
  finally show ?thesis .
qed

lemma apply_token_step:
  assumes inv: "kv_inv kv" and wf: "slot_wf kv si n" and free: "slot_free kv si" and ub: "ub_wf ub"
    and nt: "ub_n_tokens ub = si_n_stream si * n" and home: "homed kv" and pos: "kv_pos_ok kv"
    and ps: "insert p ps \<subseteq> set (tok_pairs (si_n_stream si) n)" "p \<notin> ps" and st: "placed_state kv si ub n ps t"
  shows "\<exists>t'. apply_token si ub p t = Some t' \<and> placed_state kv si ub n (insert p ps) t'"
proof -
  obtain s ii where p: "p = (s, ii)" by fastforce
  obtain kv1 rm where t: "t = (kv1, rm)" by fastforce
  have b: "s < length (si_strm si)" "ii < n" using ps(1) by (auto simp: p set_tok_pairs si_n_stream_def)
  define S where "S = si_strm si ! s" define i where "i = si_idxs si ! s ! ii" define j where "j = s * n + ii"
  have S: "S < kv_n_stream kv" "length (si_idxs si ! s) = n" "i < length (stream_cells kv S)"
    "length (si_idxs si) = length (si_strm si)" "si_idxs si \<noteq> []" "length (si_idxs si ! 0) = n"
    using wf b by (auto simp: slot_wf_def S_def i_def)
  have size: "si_size si = Some n" using S by (simp add: si_size_def)
  have j: "j < ub_n_tokens ub" using b nt tok_index_less by (simp add: j_def si_n_stream_def)
  have I: "kv_inv kv1" "same_config kv kv1" "kv_v_heads kv1 = kv_v_heads kv" "rm_ok kv rm"
    "\<forall>st<kv_n_stream kv. length (stream_cells kv1 st) = length (stream_cells kv st) \<and>
        kc_has_shift (kv_v_cells kv1 ! st) = kc_has_shift (kv_v_cells kv ! st) \<and>
        (\<forall>i<length (stream_cells kv st). stream_cells kv1 st ! i = placed_cell si ub n ps st i (stream_cells kv st ! i))"
    "(\<forall>(s, ii)\<in>ps. cl_pos (stream_cells kv (si_strm si ! s) ! (si_idxs si ! s ! ii)) = - 1) \<longrightarrow> rm = (\<lambda>_. - 1)"
    using st by (auto simp: placed_state_def t)
  have S1: "S < kv_n_stream kv1" using I(2) S(1) by (simp add: same_config_def)
  note D1 = kv_invD [OF I(1) S1]
  let ?c = "kv_v_cells kv1 ! S"
  have i1: "i < length (kc_pos ?c)" using I(5) S(1,3) by simp
  have fresh: "\<not> (\<exists>q\<in>ps. target si q = (S, i))"
  proof
    assume "\<exists>q\<in>ps. target si q = (S, i)"
    then obtain q where "q \<in> ps" "target si q = target si p" by (auto simp: p target_def S_def i_def)
    with target_inj [OF wf, of q p] ps show False by auto
  qed
  have x: "cells_of ?c ! i = stream_cells kv S ! i" using I(5) S(1,3) fresh by (simp add: placed_cell_def)
  let ?x = "stream_cells kv S ! i"
  have fx: "kc_pos ?c ! i = cl_pos ?x" "kc_seq ?c ! i = cl_seq ?x" using cell_fields [OF i1] x by simp_all
  have "i \<in> set (si_idxs si ! s)" using b S(2) by (simp add: i_def)
  then have one: "kc_pos ?c ! i \<noteq> - 1 \<Longrightarrow> card (kc_seq ?c ! i) = 1" using free b(1) fx by (auto simp: slot_free_def S_def)
  have occ: "occupied_ok (cells_of ?c ! i)" using D1(6) i1 by simp
  obtain c1 rm' c2 c3 c4 where c: "(if kc_pos ?c ! i \<noteq> - 1 then do {
         k \<leftarrow> kc_seq_count i ?c; ggml_assert (k = 1); seq_id \<leftarrow> kc_seq_get i ?c; p \<leftarrow> kc_pos_get i ?c;
         c \<leftarrow> kc_rm i ?c; Some (c, rm(seq_id := max (rm seq_id) p)) } else Some (?c, rm)) = Some (c1, rm')"
    "kc_pos_set i (ub_pos ub ! j) c1 = Some c2"
    "(if is_pos_2d ub then kc_ext_set i \<lparr>ext_x = ub_pos ub ! (j + ub_n_tokens ub * 2), ext_y = ub_pos ub ! (j + ub_n_tokens ub)\<rparr> c2
     else Some c2) = Some c3"
    "for_each (kc_seq_add i) (tok_seqs ub j) c3 = Some c4"
    "kv_cells_inv c4" "cells_of c4 = (cells_of ?c)[i := placed ub j ?x]" "kc_has_shift c4 = kc_has_shift ?c"
    "rm' = (if cl_pos ?x = - 1 then rm else rm(the_elem (cl_seq ?x) := max (rm (the_elem (cl_seq ?x))) (cl_pos ?x)))"
    using apply_cell [OF D1(1) i1 occ one ub j, where rm = rm] unfolding x fx by blast
  let ?kv = "kv1\<lparr>kv_v_cells := (kv_v_cells kv1)[S := c4]\<rparr>"
  have uj: "j < length (ub_pos ub)" "j < length (ub_n_seq_id ub)" "j < length (ub_seq_id ub)" "nat (ub_n_seq_id ub ! j) \<le> length (ub_seq_id ub ! j)"
    "is_pos_2d ub \<Longrightarrow> j + ub_n_tokens ub * 2 < length (ub_pos ub) \<and> j + ub_n_tokens ub < length (ub_pos ub)"
    using ub j by (auto simp: ub_wf_def)
  have ev: "kc_is_empty i ?c = Some (kc_pos ?c ! i = - 1)" by (rule kc_is_empty_spec [OF D1(1) i1])
  have run: "apply_token si ub p t = Some (?kv, rm')"
    using size b S D1(2) uj c(1-4)
    by (simp add: apply_token_def p t S_def [symmetric] i_def [symmetric] j_def [symmetric] ev tok_seqs_def Let_def
        cong: if_cong)
  have len4: "length (kc_pos c4) = length (kc_pos ?c)" using arg_cong [OF c(6), of length] by simp
  have "\<forall>x\<in>set (cells_of c4). occupied_ok x"
    using D1(6) placed_ok [OF ub j] by (auto simp: c(6) dest!: subsetD [OF set_update_subset_insert])
  from kv_inv_update_cells [OF I(1) S1 c(5) len4 this] have inv': "kv_inv ?kv" .
  have pc: "placed_cell si ub n (insert p ps) S i x = placed ub j x" for x
    using placed_cell_at [OF wf ps(1), of s ii] by (simp add: p S_def i_def j_def)
  have cells': "\<forall>st<kv_n_stream kv. length (stream_cells ?kv st) = length (stream_cells kv st) \<and>
        kc_has_shift (kv_v_cells ?kv ! st) = kc_has_shift (kv_v_cells kv ! st) \<and>
        (\<forall>k<length (stream_cells kv st). stream_cells ?kv st ! k = placed_cell si ub n (insert p ps) st k (stream_cells kv st ! k))"
  proof (intro allI impI)
    fix T
    assume T: "T < kv_n_stream kv"
    have tp: "target si p = (S, i)" by (simp add: p target_def S_def i_def)
    show "length (stream_cells ?kv T) = length (stream_cells kv T) \<and>
        kc_has_shift (kv_v_cells ?kv ! T) = kc_has_shift (kv_v_cells kv ! T) \<and>
        (\<forall>k<length (stream_cells kv T). stream_cells ?kv T ! k = placed_cell si ub n (insert p ps) T k (stream_cells kv T ! k))"
    proof (cases "T = S")
      case True
      have "stream_cells ?kv S ! k = placed_cell si ub n (insert p ps) S k (stream_cells kv S ! k)" if "k < length (stream_cells kv S)" for k
        using that I(5) S(1) D1(2) c(6) pc tp i1 placed_cell_insert_other [of si p S k ub n ps]
        by (cases "k = i") simp_all
      with True I(5) S(1) D1(2) len4 c(7) show ?thesis by simp
    next
      case False
      with I(5) T tp placed_cell_insert_other [of si p T _ ub n ps] show ?thesis by simp
    qed
  qed
  have rm': "rm_ok kv rm'"
  proof (cases "cl_pos ?x = - 1")
    case True
    with I(4) c(8) show ?thesis by simp
  next
    case False
    have xin: "?x \<in> set (stream_cells kv S)" using S(3) by simp
    obtain a where a: "cl_seq ?x = {a}" using one False fx by (auto simp: card_1_singleton_iff)
    have "valid_seq kv a" using home S(1) xin a by (auto simp: homed_def)
    moreover have "0 \<le> cl_pos ?x" "cl_pos ?x < INT32_MAX"
      using False kv_invD(1) [OF inv S(1)] xin pos S(1) by (auto simp: kv_cells_inv_def cell_wf_def kv_pos_ok_def)
    moreover have "rm a < INT32_MAX"
      using I(4) [unfolded rm_ok_def, rule_format, of a] by (auto simp: INT32_MAX_def)
    ultimately show ?thesis using I(4) False c(8) a by (auto simp: rm_ok_def max_def)
  qed
  have "placed_state kv si ub n (insert p ps) (?kv, rm')"
    unfolding placed_state_def prod.case
  proof (intro conjI)
    show "same_config kv ?kv" using I(2) by (simp add: same_config_def)
    show "(\<forall>(s, ii)\<in>insert p ps. cl_pos (stream_cells kv (si_strm si ! s) ! (si_idxs si ! s ! ii)) = - 1) \<longrightarrow> rm' = (\<lambda>_. - 1)"
      using I(6) c(8) by (auto simp: p S_def i_def)
  qed (use inv' I(3) cells' rm' in simp_all)
  with run show ?thesis by blast
qed

lemma apply_tokens_spec:
  assumes "kv_inv kv" and wf: "slot_wf kv si n" and "slot_free kv si" and "ub_wf ub"
    and "ub_n_tokens ub = si_n_stream si * n" and "homed kv" and "kv_pos_ok kv"
  shows "\<exists>t. for_each (apply_token si ub) (tok_pairs (si_n_stream si) n) (kv, \<lambda>_. - 1) = Some t \<and>
    placed_state kv si ub n (set (tok_pairs (si_n_stream si) n)) t"
proof (rule for_each_rule [where I = "\<lambda>ys. placed_state kv si ub n (set ys)"])
  show "placed_state kv si ub n (set []) (kv, \<lambda>_. - 1)"
    using assms(1) by (simp add: placed_state_def placed_cell_def rm_ok_def)
next
  fix ys x zs t
  assume split: "tok_pairs (si_n_stream si) n = ys @ x # zs" and I: "placed_state kv si ub n (set ys) t"
  have "x \<notin> set ys" using distinct_tok_pairs [of "si_n_stream si" n] split by auto
  with apply_token_step [OF assms _ _ I, of x] split
  show "\<exists>t'. apply_token si ub x t = Some t' \<and> placed_state kv si ub n (set (ys @ [x])) t'"
    by auto
qed

text \<open>The purge keeps the invariant; without overwritten cells it does nothing.\<close>

lemma purge_spec:
  assumes inv: "kv_inv kv" and rm: "rm_ok kv rm"
  shows "\<exists>kv'. for_each (purge_seq rm) xs kv = Some kv' \<and> kv_inv kv' \<and> same_config kv kv' \<and>
    (\<forall>st. length (stream_cells kv' st) = length (stream_cells kv st))"
proof -
  let ?I = "\<lambda>_ t. kv_inv t \<and> same_config kv t \<and> (\<forall>st. length (stream_cells t st) = length (stream_cells kv st))"
  have "\<exists>t. for_each (purge_seq rm) xs kv = Some t \<and> ?I xs t"
  proof (rule for_each_rule [where I = ?I])
    fix s t
    assume I: "?I ys t" for ys :: "int list"
    show "\<exists>t'. purge_seq rm s t = Some t' \<and> ?I zs t'" for zs :: "int list"
    proof (cases "rm s = - 1")
      case True
      with I show ?thesis by (simp add: purge_seq_def)
    next
      case False
      have v: "valid_seq t s" and b: "0 \<le> rm s" "rm s < INT32_MAX"
        using rm [unfolded rm_ok_def, rule_format, of s] False I by (auto simp: valid_seq_def same_config_def)
      have inv_t: "kv_inv t" using I by simp
      note S = valid_seq_stream [OF inv_t v] and D = kv_invD [OF inv_t valid_seq_stream(2) [OF inv_t v]]
      let ?st = "kv_seq_to_stream t ! nat s"
      have len: "nat s < length (kv_seq_to_stream t)" using v by (simp add: valid_seq_def)
      obtain m where m: "kc_seq_pos_min s (kv_v_cells t ! ?st) = Some m"
        using kc_seq_pos_min_spec [OF D(1) S(3)] by auto
      obtain t' where t': "kv_seq_rm s m (rm s + 1) t = Some (True, t')" "kv_inv t'" "same_config t t'"
          "stream_cells t' ?st = map (rm_upd s (range_p0 m) (range_p1 (rm s + 1))) (stream_cells t ?st)"
          "\<forall>u. u \<noteq> ?st \<longrightarrow> kv_v_cells t' ! u = kv_v_cells t ! u"
        using kv_seq_rm_spec [OF inv_t v] by blast
      have lenu: "length (stream_cells t' u) = length (stream_cells t u)" for u
        using t'(5) arg_cong [OF t'(4), of length] by (cases "u = ?st") simp_all
      have "i32_add (rm s) 1 = Some (rm s + 1)" using b by (auto simp: i32_ok_def INT32_MAX_def)
      then have "purge_seq rm s t = Some (if m \<le> rm s then t' else t)"
        using False len D(2) m t'(1) by (simp add: purge_seq_def del: i32_add_Some)
      with t'(2,3) I same_config_trans lenu show ?thesis by auto
    qed
  qed (use inv in simp)
  then show ?thesis by blast
qed

lemma purge_none: "for_each (purge_seq (\<lambda>_. - 1)) xs kv = Some kv"
  by (induction xs) (simp_all add: purge_seq_def)

text \<open>Moving the heads behind the slots.\<close>

lemma move_heads_spec:
  assumes inv: "kv_inv kv" and wf: "slot_wf kv si n"
  shows "\<exists>kv'. for_each (move_head si) [0..<si_n_stream si] kv = Some kv' \<and> kv_inv kv' \<and> same_config kv kv' \<and>
    kv_v_cells kv' = kv_v_cells kv"
proof -
  let ?I = "\<lambda>_ t. kv_inv t \<and> same_config kv t \<and> kv_v_cells t = kv_v_cells kv"
  have "\<exists>t. for_each (move_head si) [0..<si_n_stream si] kv = Some t \<and> ?I (si_n_stream si) t"
  proof (rule for_upto_rule [where I = ?I])
    fix s t
    assume s: "s < si_n_stream si" and I: "?I s t"
    let ?st = "si_strm si ! s" and ?js = "si_idxs si ! s"
    have w: "s < length (si_strm si)" "s < length (si_idxs si)" "?st < kv_n_stream kv" "?js \<noteq> []"
      "\<forall>i\<in>set ?js. i < length (stream_cells kv ?st)"
      using wf s by (auto simp: slot_wf_def si_n_stream_def)
    have st: "?st < kv_n_stream t" using I w(3) by (simp add: same_config_def)
    note D = kv_invD [OF conjunct1 [OF I] st]
    let ?hs = "(kv_v_heads t)[?st := last ?js + 1]"
    have "last ?js + 1 \<le> length (kc_pos (kv_v_cells t ! ?st))" using w(4,5) I by (simp add: Suc_le_eq)
    then have "kv_inv (t\<lparr>kv_v_cells := (kv_v_cells t)[?st := kv_v_cells t ! ?st], kv_v_heads := ?hs\<rparr>)"
      by (intro kv_inv_update [OF conjunct1 [OF I] st D(1) refl D(6)]) (use D(3) in auto)
    then have "kv_inv (t\<lparr>kv_v_heads := ?hs\<rparr>)" by simp
    with w D(3) I show "\<exists>t'. move_head si s t = Some t' \<and> ?I (Suc s) t'"
      by (auto simp: move_head_def same_config_def)
  qed (use inv in simp)
  then show ?thesis by blast
qed

text \<open>\<open>apply_ubatch\<close> succeeds on a usable slot; on a slot of empty cells it changes exactly those cells.\<close>

lemma si_size_wf: "slot_wf kv si n \<Longrightarrow> si_size si = Some n"
  by (auto simp: slot_wf_def si_size_def)

lemma slot_wf_config: "same_config kv kv' \<Longrightarrow> (\<And>st. st < kv_n_stream kv \<Longrightarrow> length (stream_cells kv' st) = length (stream_cells kv st)) \<Longrightarrow>
   slot_wf kv si n \<Longrightarrow> slot_wf kv' si n"
  by (simp add: slot_wf_def same_config_def)

lemma apply_ubatch_spec:
  assumes inv: "kv_inv kv" and wf: "slot_wf kv si n" and free: "slot_free kv si" and ub: "ub_wf ub"
    and nt: "ub_n_tokens ub = si_n_stream si * n" and home: "homed kv" and pos: "kv_pos_ok kv"
  shows "\<exists>kv'. apply_ubatch si ub kv = Some kv' \<and> kv_inv kv' \<and> same_config kv kv' \<and>
    ((\<forall>s<length (si_strm si). \<forall>i\<in>set (si_idxs si ! s). cl_pos (stream_cells kv (si_strm si ! s) ! i) = - 1) \<longrightarrow>
     (\<forall>st<kv_n_stream kv. length (stream_cells kv' st) = length (stream_cells kv st) \<and>
        kc_has_shift (kv_v_cells kv' ! st) = kc_has_shift (kv_v_cells kv ! st) \<and>
        (\<forall>i<length (stream_cells kv st). stream_cells kv' st ! i =
           placed_cell si ub n (set (tok_pairs (si_n_stream si) n)) st i (stream_cells kv st ! i))))"
proof -
  let ?ps = "set (tok_pairs (si_n_stream si) n)"
  obtain kv1 rm where run: "for_each (apply_token si ub) (tok_pairs (si_n_stream si) n) (kv, \<lambda>_. - 1) = Some (kv1, rm)"
    and P: "placed_state kv si ub n ?ps (kv1, rm)"
    using apply_tokens_spec [OF assms] by (metis surj_pair)
  have I: "kv_inv kv1" "same_config kv kv1" "rm_ok kv rm"
    "\<forall>st<kv_n_stream kv. length (stream_cells kv1 st) = length (stream_cells kv st)"
    using P by (auto simp: placed_state_def)
  have "rm_ok kv1 rm" using I(2,3) by (simp add: rm_ok_def valid_seq_def same_config_def)
  from purge_spec [OF I(1) this, of all_seq_ids] obtain kv2 where
    p2: "for_each (purge_seq rm) all_seq_ids kv1 = Some kv2" "kv_inv kv2" "same_config kv1 kv2"
      "\<forall>st. length (stream_cells kv2 st) = length (stream_cells kv1 st)" by blast
  have wf2: "slot_wf kv2 si n"
    by (rule slot_wf_config [OF same_config_trans [OF I(2) p2(3)] _ wf]) (use I(4) p2(4) in simp)
  obtain kv3 where p3: "for_each (move_head si) [0..<si_n_stream si] kv2 = Some kv3" "kv_inv kv3" "same_config kv2 kv3"
      "kv_v_cells kv3 = kv_v_cells kv2"
    using move_heads_spec [OF p2(2) wf2] by blast
  have run': "apply_ubatch si ub kv = Some kv3"
    using si_size_wf [OF wf] nt run p2(1) p3(1)
    by (simp add: apply_ubatch_def tok_pairs_def del: map_concat)
  have exact: "\<forall>st<kv_n_stream kv. length (stream_cells kv3 st) = length (stream_cells kv st) \<and>
        kc_has_shift (kv_v_cells kv3 ! st) = kc_has_shift (kv_v_cells kv ! st) \<and>
        (\<forall>i<length (stream_cells kv st). stream_cells kv3 st ! i = placed_cell si ub n ?ps st i (stream_cells kv st ! i))"
    if e: "\<forall>s<length (si_strm si). \<forall>i\<in>set (si_idxs si ! s). cl_pos (stream_cells kv (si_strm si ! s) ! i) = - 1"
  proof -
    have "\<forall>(s, ii)\<in>?ps. cl_pos (stream_cells kv (si_strm si ! s) ! (si_idxs si ! s ! ii)) = - 1"
      using e wf by (auto simp: set_tok_pairs si_n_stream_def slot_wf_def)
    then have "rm = (\<lambda>_. - 1)" using P by (simp add: placed_state_def)
    then have "kv2 = kv1" using p2(1) purge_none by simp
    then have "kv_v_cells kv3 = kv_v_cells kv1" using p3(4) by simp
    with P show ?thesis by (simp add: placed_state_def)
  qed
  with run' p3(2) same_config_trans [OF I(2) same_config_trans [OF p2(3) p3(3)]] show ?thesis by blast
qed

section \<open>Restoring\<close>

lemma slot_streams_bound:
  assumes "slot_wf kv si n"
  shows "length (si_strm si) \<le> kv_n_stream kv"
proof -
  have "set (si_strm si) \<subseteq> {..<kv_n_stream kv}" "distinct (si_strm si)"
    using assms by (auto simp: slot_wf_def in_set_conv_nth)
  then show ?thesis by (metis card_lessThan card_mono distinct_card finite_lessThan)
qed

text \<open>Two states of the cache that differ at most in the cells of a slot, none of which has a shift.\<close>

definition differ_in :: "slot_info \<Rightarrow> llama_kv_cache \<Rightarrow> llama_kv_cache \<Rightarrow> bool" where
  "differ_in si kv kx \<longleftrightarrow> same_config kv kx \<and>
     (\<forall>st<kv_n_stream kv. length (stream_cells kx st) = length (stream_cells kv st) \<and>
        (\<forall>i<length (stream_cells kv st).
           (\<forall>s<length (si_strm si). si_strm si ! s = st \<longrightarrow> i \<notin> set (si_idxs si ! s)) \<longrightarrow>
           stream_cells kx st ! i = stream_cells kv st ! i)) \<and>
     (\<forall>s<length (si_strm si). \<forall>i\<in>set (si_idxs si ! s).
        cl_shift (stream_cells kv (si_strm si ! s) ! i) = 0 \<and> cl_shift (stream_cells kx (si_strm si ! s) ! i) = 0)"

lemma save_state_spec:
  assumes inv: "kv_inv kv" and wf: "slot_wf kv si n"
    and sh: "\<forall>s<length (si_strm si). \<forall>i\<in>set (si_idxs si ! s). cl_shift (stream_cells kv (si_strm si ! s) ! i) = 0"
  shows "\<exists>saved. save_state si kv = Some (si, kv_v_heads kv, saved) \<and> length saved = length (si_strm si) \<and>
    (\<forall>s<length (si_strm si). kc_cp_idxs (si_idxs si ! s) (kv_v_cells kv ! (si_strm si ! s)) = Some (saved ! s))"
proof -
  let ?f = "\<lambda>s. do { st \<leftarrow> at (si_strm si) s; c \<leftarrow> at (kv_v_cells kv) st; idxs \<leftarrow> at (si_idxs si) s; kc_cp_idxs idxs c }"
  have f: "?f s = kc_cp_idxs (si_idxs si ! s) (kv_v_cells kv ! (si_strm si ! s)) \<and> ?f s \<noteq> None" if "s < length (si_strm si)" for s
  proof -
    have st: "si_strm si ! s < kv_n_stream kv" "s < length (si_idxs si)" using wf that by (auto simp: slot_wf_def)
    have "\<forall>i\<in>set (si_idxs si ! s). i < length (kc_pos (kv_v_cells kv ! (si_strm si ! s))) \<and> kc_shift (kv_v_cells kv ! (si_strm si ! s)) ! i = 0"
      using wf sh that by (auto simp: slot_wf_def)
    from kc_cp_idxs_spec [OF this] st that kv_invD(2) [OF inv st(1)] show ?thesis by auto
  qed
  obtain saved where sv: "map_opt ?f [0..<si_n_stream si] = Some saved"
  proof -
    have "?f s \<noteq> None" if "s \<in> set [0..<si_n_stream si]" for s
    proof -
      have "s < length (si_strm si)" using that by (simp add: si_n_stream_def)
      from conjunct2 [OF f [OF this]] show ?thesis .
    qed
    from map_opt_total [OF this] show ?thesis by (rule that)
  qed
  from map_opt_SomeD [OF sv] f sv show ?thesis by (simp add: save_state_def si_n_stream_def)
qed

lemma restore_state_spec:
  assumes inv: "kv_inv kv" "kv_inv kx" and wf: "slot_wf kv si n" and diff: "differ_in si kv kx"
    and len: "length saved = length (si_strm si)"
    and saved: "\<forall>s<length (si_strm si). kc_cp_idxs (si_idxs si ! s) (kv_v_cells kv ! (si_strm si ! s)) = Some (saved ! s)"
  shows "\<exists>ky. restore_state (si, kv_v_heads kv, saved) kx = Some ky \<and> kv_inv ky \<and> same_config kv ky \<and>
    (\<forall>st<kv_n_stream kv. stream_cells ky st = stream_cells kv st \<and>
       kc_has_shift (kv_v_cells ky ! st) = kc_has_shift (kv_v_cells kx ! st)) \<and>
    (kv_n_stream kv = 1 \<longrightarrow> kv_v_heads ky = kv_v_heads kv)"
proof -
  let ?ns = "si_n_stream si"
  let ?f = "\<lambda>s kv1. do { st \<leftarrow> at (si_strm si) s; c \<leftarrow> at (kv_v_cells kv1) st; idxs \<leftarrow> at (si_idxs si) s;
         sv \<leftarrow> at saved s; c \<leftarrow> kc_set_idxs idxs sv c; h \<leftarrow> at (kv_v_heads kv) s;
         Some (kv1\<lparr>kv_v_cells := (kv_v_cells kv1)[st := c], kv_v_heads := (kv_v_heads kv1)[st := h]\<rparr>) }"
  let ?I = "\<lambda>k t. kv_inv t \<and> same_config kv t \<and>
    (\<forall>st<kv_n_stream kv. kc_has_shift (kv_v_cells t ! st) = kc_has_shift (kv_v_cells kx ! st) \<and>
       stream_cells t st = (if \<exists>s<k. si_strm si ! s = st then stream_cells kv st else stream_cells kx st)) \<and>
    (\<forall>s<k. kv_v_heads t ! (si_strm si ! s) = kv_v_heads kv ! s)"
  have dis: "distinct (si_strm si)" using wf by (simp add: slot_wf_def)
  have "\<exists>t. for_each ?f [0..<?ns] kx = Some t \<and> ?I ?ns t"
  proof (rule for_upto_rule [where I = ?I])
    show "?I 0 kx" using inv(2) diff by (simp add: differ_in_def)
  next
    fix s t
    assume s: "s < ?ns" and I: "?I s t"
    let ?st = "si_strm si ! s" and ?js = "si_idxs si ! s"
    have b: "s < length (si_strm si)" "s < length (si_idxs si)" "s < length saved" "?st < kv_n_stream kv" "s < kv_n_stream kv"
      using s wf len slot_streams_bound [OF wf] by (auto simp: slot_wf_def si_n_stream_def)
    have t: "kv_inv t" "same_config kv t" "(?st::nat) < kv_n_stream t" using I b(4) by (auto simp: same_config_def)
    note D = kv_invD [OF inv(1) b(4)] and T = kv_invD [OF t(1,3)]
    have notyet: "\<not> (\<exists>q. q < s \<and> si_strm si ! q = ?st)" using dis b(1) by (auto simp: nth_eq_iff_index_eq)
    have eqx: "stream_cells t ?st = stream_cells kx ?st" using I b(4) notyet by auto
    have lent: "length (kc_pos (kv_v_cells t ! ?st)) = length (kc_pos (kv_v_cells kv ! ?st))"
      using arg_cong [OF eqx, of length] diff b(4) by (simp add: differ_in_def)
    have idx: "\<forall>i\<in>set ?js. i < length (kc_pos (kv_v_cells kv ! ?st)) \<and> kc_shift (kv_v_cells kv ! ?st) ! i = 0 \<and>
        kc_shift (kv_v_cells t ! ?st) ! i = 0"
    proof
      fix i
      assume i: "i \<in> set ?js"
      then have il: "i < length (kc_pos (kv_v_cells kv ! ?st))" using wf b(1) by (auto simp: slot_wf_def)
      have "cl_shift (stream_cells kv ?st ! i) = 0" "cl_shift (stream_cells t ?st ! i) = 0"
        unfolding eqx using diff b(1) i by (auto simp: differ_in_def)
      then show "i < length (kc_pos (kv_v_cells kv ! ?st)) \<and> kc_shift (kv_v_cells kv ! ?st) ! i = 0 \<and>
        kc_shift (kv_v_cells t ! ?st) ! i = 0"
        using il lent by simp
    qed
    have same: "stream_cells t ?st ! i = stream_cells kv ?st ! i" if "i < length (kc_pos (kv_v_cells kv ! ?st))" "i \<notin> set ?js" for i
    proof -
      have "i \<notin> set (si_idxs si ! q)" if "q < length (si_strm si)" "si_strm si ! q = ?st" for q
        using dis b(1) that \<open>i \<notin> set ?js\<close> by (simp add: nth_eq_iff_index_eq)
      with diff b(4) that(1) show ?thesis unfolding eqx differ_in_def by simp
    qed
    obtain c where c: "kc_set_idxs ?js (saved ! s) (kv_v_cells t ! ?st) = Some c" "kv_cells_inv c" "cells_of c = stream_cells kv ?st"
        "kc_has_shift c = kc_has_shift (kv_v_cells t ! ?st)"
      using kc_cp_set_restore [OF D(1) T(1) idx lent same] saved b(1) by blast
    have lenc: "length (kc_pos c) = length (kc_pos (kv_v_cells t ! ?st))" using arg_cong [OF c(3), of length] lent by simp
    have occ: "\<forall>x\<in>set (cells_of c). occupied_ok x" using D(6) c(3) by simp
    let ?t = "t\<lparr>kv_v_cells := (kv_v_cells t)[?st := c], kv_v_heads := (kv_v_heads t)[?st := kv_v_heads kv ! s]\<rparr>"
    have hb: "kv_v_heads kv ! s \<le> length (kc_pos c)"
      using kv_invD(4,5) [OF inv(1) b(5)] D(4) lenc lent by simp
    have inv': "kv_inv ?t" by (rule kv_inv_update [OF t(1,3) c(2) lenc occ]) (use hb T(3) in auto)
    have run: "?f s t = Some ?t"
      using b T(2) c(1) kv_invD(3) [OF inv(1) b(5)] by simp
    have "?I (Suc s) ?t"
    proof (intro conjI allI impI)
      fix st
      assume st: "st < kv_n_stream kv"
      show "kc_has_shift (kv_v_cells ?t ! st) = kc_has_shift (kv_v_cells kx ! st)"
        using I st c(4) T(2) by (cases "st = ?st") auto
      show "stream_cells ?t st = (if \<exists>q < Suc s. si_strm si ! q = st then stream_cells kv st else stream_cells kx st)"
        using I st c(3) T(2) by (cases "st = ?st") (auto simp: less_Suc_eq)
    next
      fix q
      assume q: "q < Suc s"
      show "kv_v_heads ?t ! (si_strm si ! q) = kv_v_heads kv ! q"
      proof (cases "q = s")
        case False
        then have "si_strm si ! q \<noteq> ?st" "q < s" using q notyet by auto
        with I show ?thesis by simp
      qed (use T(3) in simp)
    qed (use inv' t(2) in \<open>simp_all add: same_config_def\<close>)
    with run show "\<exists>t'. ?f s t = Some t' \<and> ?I (Suc s) t'" by blast
  qed
  then obtain ky where ky: "for_each ?f [0..<?ns] kx = Some ky" "?I ?ns ky" by blast
  have cells: "stream_cells ky st = stream_cells kv st" if st: "st < kv_n_stream kv" for st
  proof (cases "\<exists>s<?ns. si_strm si ! s = st")
    case False
    then have "\<forall>s<length (si_strm si). si_strm si ! s = st \<longrightarrow> i \<notin> set (si_idxs si ! s)" for i
      by (auto simp: si_n_stream_def)
    with diff st have "stream_cells kx st = stream_cells kv st"
      unfolding differ_in_def by (intro nth_equalityI) auto
    with ky(2) st False show ?thesis by simp
  qed (use ky(2) st in simp)
  have heads: "kv_v_heads ky = kv_v_heads kv" if one: "kv_n_stream kv = 1"
  proof (rule nth_equalityI)
    show "length (kv_v_heads ky) = length (kv_v_heads kv)"
      using ky(2) inv(1) by (simp add: kv_inv_def same_config_def)
    fix q
    assume "q < length (kv_v_heads ky)"
    then have "q = 0" using ky(2) one by (simp add: kv_inv_def same_config_def)
    moreover have "si_strm si ! 0 = 0" "0 < ?ns" using wf one by (auto simp: slot_wf_def si_n_stream_def)
    ultimately show "kv_v_heads ky ! q = kv_v_heads kv ! q" using ky(2) by auto
  qed
  show ?thesis using ky cells heads by (auto simp: restore_state_def)
qed

section \<open>prepare\<close>

definition placeable :: "llama_kv_cache \<Rightarrow> llama_ubatch \<Rightarrow> bool" where
  "placeable kv ub \<longleftrightarrow> ubatch_fits kv ub \<and> ub_wf ub \<and> distinct (map (ub_stream kv ub) [0..<ub_seqs kv ub]) \<and>
     (\<forall>i<ub_n_tokens ub. \<forall>s\<in>set (tok_seqs ub i). valid_seq kv s)"

lemma placeable_config: "same_config kv kv' \<Longrightarrow> placeable kv' ub = placeable kv ub"
proof -
  assume c: "same_config kv kv'"
  then have "ub_stream kv' ub = ub_stream kv ub" "valid_seq kv' = valid_seq kv" "ub_seqs kv' ub = ub_seqs kv ub"
    "kv_n_stream kv' = kv_n_stream kv"
    by (auto simp: fun_eq_iff ub_stream_def valid_seq_def ub_seqs_def same_config_def)
  then show ?thesis by (simp add: placeable_def ubatch_fits_def ub_per_seq_def)
qed

definition cells_eq :: "llama_kv_cache \<Rightarrow> llama_kv_cache \<Rightarrow> bool" where
  "cells_eq kv kx \<longleftrightarrow> same_config kv kx \<and>
     (\<forall>st<kv_n_stream kv. stream_cells kx st = stream_cells kv st \<and> kc_has_shift (kv_v_cells kx ! st) = kc_has_shift (kv_v_cells kv ! st))"

lemma cells_eq_refl [simp]: "cells_eq kv kv"
  by (simp add: cells_eq_def)

lemma cells_eq_trans: "cells_eq a b \<Longrightarrow> cells_eq b c \<Longrightarrow> cells_eq a c"
  by (simp add: cells_eq_def same_config_def)

lemma cells_eq_facts:
  assumes "cells_eq kv kx" and "kv_inv kv"
  shows "homed kx = homed kv" "kv_pos_ok kx = kv_pos_ok kv" "slot_wf kx si n = slot_wf kv si n" "slot_wf kv si n \<Longrightarrow> slot_free kx si = slot_free kv si"
proof -
  have e: "same_config kv kx" "\<And>st. st < kv_n_stream kv \<Longrightarrow> stream_cells kx st = stream_cells kv st"
    using assms(1) by (auto simp: cells_eq_def)
  then show "homed kx = homed kv" "kv_pos_ok kx = kv_pos_ok kv"
    by (simp_all add: homed_def kv_pos_ok_def same_config_def valid_seq_def)
  show "slot_wf kx si n = slot_wf kv si n"
    using e by (simp add: slot_wf_def same_config_def cong: conj_cong)
  show "slot_free kx si = slot_free kv si" if "slot_wf kv si n"
    using e that by (simp add: slot_free_def slot_wf_def)
qed

text \<open>The slots that \<open>find_slot\<close> returns without a sliding window consist of empty cells.\<close>

lemma find_slot_empty_cells:
  assumes inv: "kv_inv kv" and none: "kv_swa_type kv = LLAMA_SWA_TYPE_NONE" and pl: "placeable kv ub" and ok: "slot_ok kv ub si"
  shows "slot_wf kv si (ub_per_seq kv ub)" "slot_free kv si" "ub_n_tokens ub = si_n_stream si * ub_per_seq kv ub"
    "\<forall>s<length (si_strm si). \<forall>i\<in>set (si_idxs si ! s). cl_pos (stream_cells kv (si_strm si ! s) ! i) = - 1 \<and>
       cl_shift (stream_cells kv (si_strm si ! s) ! i) = 0"
proof -
  have fits: "ubatch_fits kv ub" using pl by (simp add: placeable_def)
  have st: "ub_stream kv ub s < kv_n_stream kv" if "s < ub_seqs kv ub" for s
    using valid_seq_stream(2) [OF inv] fits that by (auto simp: ubatch_fits_def ub_stream_def)
  have strm: "si_strm si = map (ub_stream kv ub) [0..<ub_seqs kv ub]"
    using ok by (auto simp: slot_ok_def list_eq_iff_nth_eq)
  show "slot_wf kv si (ub_per_seq kv ub)"
    using ok fits st pl ubatch_fits_seqs [OF fits]
    unfolding slot_wf_def slot_ok_def placeable_def ubatch_fits_def strm by (auto simp: slots_of_def)
  show "ub_n_tokens ub = si_n_stream si * ub_per_seq kv ub"
    using fits by (simp add: ubatch_fits_def si_n_stream_def strm)
  have e: "cl_pos (stream_cells kv (si_strm si ! s) ! i) = - 1" "i < length (stream_cells kv (si_strm si ! s))"
    if "s < length (si_strm si)" "i \<in> set (si_idxs si ! s)" for s i
  proof -
    have "i \<in> slots_of kv (si_strm si ! s)" using ok that by (auto simp: slot_ok_def)
    then show "cl_pos (stream_cells kv (si_strm si ! s) ! i) = - 1" "i < length (stream_cells kv (si_strm si ! s))"
      using none by (auto simp: slots_of_def usable_def is_masked_swa_def split: if_splits)
  qed
  then show "slot_free kv si" by (simp add: slot_free_def)
  show "\<forall>s<length (si_strm si). \<forall>i\<in>set (si_idxs si ! s). cl_pos (stream_cells kv (si_strm si ! s) ! i) = - 1 \<and>
       cl_shift (stream_cells kv (si_strm si ! s) ! i) = 0"
  proof (intro allI impI ballI)
    fix s i
    assume si: "s < length (si_strm si)" "i \<in> set (si_idxs si ! s)"
    have "si_strm si ! s < kv_n_stream kv" using st si(1) by (simp add: strm)
    from kv_invD(6) [OF inv this] e(2) [OF si] have "occupied_ok (stream_cells kv (si_strm si ! s) ! i)" by simp
    with e(1) [OF si] show "cl_pos (stream_cells kv (si_strm si ! s) ! i) = - 1 \<and> cl_shift (stream_cells kv (si_strm si ! s) ! i) = 0"
      by (simp add: occupied_ok_def)
  qed
qed

lemma placed_cell_cases:
  assumes "slot_wf kv si n" and "ps = set (tok_pairs (si_n_stream si) n)"
  shows "placed_cell si ub n ps st i x = x \<and> (\<forall>s<length (si_strm si). si_strm si ! s = st \<longrightarrow> i \<notin> set (si_idxs si ! s)) \<or>
    (\<exists>s ii. s < length (si_strm si) \<and> ii < n \<and> si_strm si ! s = st \<and> si_idxs si ! s ! ii = i \<and>
       placed_cell si ub n ps st i x = placed ub (s * n + ii) x)"
proof (cases "\<exists>p\<in>ps. target si p = (st, i)")
  case True
  then obtain s ii where p: "(s, ii) \<in> ps" "target si (s, ii) = (st, i)" by auto
  then have "s < length (si_strm si)" "ii < n" "si_strm si ! s = st" "si_idxs si ! s ! ii = i"
    using assms(2) by (auto simp: set_tok_pairs si_n_stream_def target_def)
  with placed_cell_at [OF assms(1) _ p(1), of ub x] assms(2) show ?thesis by auto
next
  case False
  have "i \<notin> set (si_idxs si ! s)" if s: "s < length (si_strm si)" "si_strm si ! s = st" for s
  proof
    assume "i \<in> set (si_idxs si ! s)"
    then obtain ii where "ii < n" "si_idxs si ! s ! ii = i" using assms(1) s(1) by (auto simp: in_set_conv_nth slot_wf_def)
    with s False assms(2) show False by (auto simp: set_tok_pairs si_n_stream_def target_def)
  qed
  with False show ?thesis by (simp add: placed_cell_def)
qed

text \<open>One step: the ubatch is applied to a slot of empty cells.\<close>

lemma apply_empty_slot:
  assumes inv: "kv_inv kv" and wf: "slot_wf kv si n" and free: "slot_free kv si" and ub: "ub_wf ub"
    and nt: "ub_n_tokens ub = si_n_stream si * n" and home: "homed kv" and pos: "kv_pos_ok kv"
    and ids: "\<forall>i<ub_n_tokens ub. \<forall>s\<in>set (tok_seqs ub i). valid_seq kv s"
    and e: "\<forall>s<length (si_strm si). \<forall>i\<in>set (si_idxs si ! s). cl_pos (stream_cells kv (si_strm si ! s) ! i) = - 1 \<and>
       cl_shift (stream_cells kv (si_strm si ! s) ! i) = 0"
  shows "\<exists>kv'. apply_ubatch si ub kv = Some kv' \<and> kv_inv kv' \<and> same_config kv kv' \<and> homed kv' \<and> kv_pos_ok kv' \<and>
    differ_in si kv kv' \<and>
    (\<forall>st<kv_n_stream kv. length (stream_cells kv' st) = length (stream_cells kv st) \<and>
        kc_has_shift (kv_v_cells kv' ! st) = kc_has_shift (kv_v_cells kv ! st) \<and>
        (\<forall>i<length (stream_cells kv st). stream_cells kv' st ! i =
           placed_cell si ub n (set (tok_pairs (si_n_stream si) n)) st i (stream_cells kv st ! i)))"
proof -
  let ?ps = "set (tok_pairs (si_n_stream si) n)"
  obtain kv' where k: "apply_ubatch si ub kv = Some kv'" "kv_inv kv'" and cfg: "same_config kv kv'"
    and cells: "\<forall>st<kv_n_stream kv. length (stream_cells kv' st) = length (stream_cells kv st) \<and>
        kc_has_shift (kv_v_cells kv' ! st) = kc_has_shift (kv_v_cells kv ! st) \<and>
        (\<forall>i<length (stream_cells kv st). stream_cells kv' st ! i = placed_cell si ub n ?ps st i (stream_cells kv st ! i))"
    using apply_ubatch_spec [OF inv wf free ub nt home pos] e by blast
  note cases = placed_cell_cases [OF wf refl, of ub]
  have tok: "s * n + ii < ub_n_tokens ub" if "s < length (si_strm si)" "ii < n" for s ii
    using tok_index_less [OF that] nt by (simp add: si_n_stream_def)
  have new: "(\<exists>j<ub_n_tokens ub. x = placed ub j y) \<or> x = y"
    if "st < kv_n_stream kv" "i < length (stream_cells kv st)" "x = stream_cells kv' st ! i" "y = stream_cells kv st ! i" for st i x y
  proof -
    have "x = placed_cell si ub n ?ps st i y" using cells that by simp
    then show ?thesis using cases [of st i y] tok by metis
  qed
  have inset: "\<exists>i<length (stream_cells kv st). x = stream_cells kv' st ! i" if "st < kv_n_stream kv" "x \<in> set (stream_cells kv' st)" for st x
    using cells that by (auto simp: in_set_conv_nth)
  have "homed kv'"
    unfolding homed_def
  proof (intro allI impI ballI)
    fix st x s
    assume a: "st < kv_n_stream kv'" "x \<in> set (stream_cells kv' st)" "s \<in> cl_seq x"
    then have st: "st < kv_n_stream kv" using cfg by (simp add: same_config_def)
    obtain i where i: "i < length (stream_cells kv st)" "x = stream_cells kv' st ! i" using inset [OF st a(2)] by blast
    have "stream_cells kv st ! i \<in> set (stream_cells kv st)" using i(1) by simp
    then have old: "\<forall>s\<in>cl_seq (stream_cells kv st ! i). valid_seq kv s" using home st unfolding homed_def by blast
    have "cl_seq (placed ub j y) = set (tok_seqs ub j)" for j y by (simp add: placed_def Let_def)
    with new [OF st i refl] a(3) ids old have "valid_seq kv s" by metis
    then show "valid_seq kv' s" using cfg by (simp add: valid_seq_def same_config_def)
  qed
  moreover have "kv_pos_ok kv'"
  proof -
    have "cl_pos x < INT32_MAX" if a: "st < kv_n_stream kv" "x \<in> set (stream_cells kv' st)" for st x
    proof -
      obtain i where i: "i < length (stream_cells kv st)" "x = stream_cells kv' st ! i" using inset [OF a] by blast
      have "stream_cells kv st ! i \<in> set (stream_cells kv st)" using i(1) by simp
      then have old: "cl_pos (stream_cells kv st ! i) < INT32_MAX" using pos a(1) unfolding kv_pos_ok_def by blast
      have "cl_pos (placed ub j y) = ub_pos ub ! j" for j y by (simp add: placed_def Let_def)
      with new [OF a(1) i refl] ub old show ?thesis unfolding ub_wf_def by metis
    qed
    then show ?thesis using pos cfg by (simp add: kv_pos_ok_def same_config_def)
  qed
  moreover have "differ_in si kv kv'"
    unfolding differ_in_def
  proof (intro conjI allI impI ballI)
    fix st i
    assume a: "st < kv_n_stream kv" "i < length (stream_cells kv st)"
      "\<forall>s<length (si_strm si). si_strm si ! s = st \<longrightarrow> i \<notin> set (si_idxs si ! s)"
    have "placed_cell si ub n ?ps st i (stream_cells kv st ! i) = stream_cells kv st ! i"
      using cases [of st i "stream_cells kv st ! i"] a(3) wf by (auto simp: slot_wf_def)
    then show "stream_cells kv' st ! i = stream_cells kv st ! i" using cells a by simp
  next
    fix s i
    assume a: "s < length (si_strm si)" "i \<in> set (si_idxs si ! s)"
    show "cl_shift (stream_cells kv (si_strm si ! s) ! i) = 0" using e a by simp
    have st: "si_strm si ! s < kv_n_stream kv" "i < length (stream_cells kv (si_strm si ! s))" using wf a by (auto simp: slot_wf_def)
    show "cl_shift (stream_cells kv' (si_strm si ! s) ! i) = 0"
      using new [OF st refl refl] e a by (auto simp: placed_def Let_def)
  qed (use cfg cells in simp_all)
  ultimately show ?thesis using k cfg cells by blast
qed

text \<open>Without a sliding window, the free cells of the unified cache go down by the number of tokens placed.\<close>

lemma unified_ubatch:
  assumes "kv_inv kv" and "kv_n_stream kv = 1" and "placeable kv ub"
  shows "ub_seqs kv ub = 1" "ub_per_seq kv ub = ub_n_tokens ub" "ub_stream kv ub 0 = 0"
proof -
  show "ub_seqs kv ub = 1" "ub_per_seq kv ub = ub_n_tokens ub" using assms(2) by (simp_all add: ub_seqs_def ub_per_seq_def)
  then have "valid_seq kv (ub_seq_id_unq ub ! 0)" using assms(3) by (simp add: placeable_def ubatch_fits_def)
  from valid_seq_stream(2) [OF assms(1) this] assms(2) show "ub_stream kv ub 0 = 0" by (simp add: ub_stream_def)
qed

lemma slots_after_apply:
  assumes inv: "kv_inv kv" "kv_n_stream kv = 1" and none: "kv_swa_type kv = LLAMA_SWA_TYPE_NONE" and pl: "placeable kv ub"
    and ok: "slot_ok kv ub si" and diff: "differ_in si kv kv1"
  shows "card (slots_of kv 0) \<le> card (slots_of kv1 0) + ub_n_tokens ub"
proof -
  note U = unified_ubatch [OF inv pl]
  let ?js = "si_idxs si ! 0"
  have strm: "length (si_strm si) = 1" "si_strm si ! 0 = 0" "length ?js = ub_n_tokens ub" using ok U by (auto simp: slot_ok_def)
  have sub: "slots_of kv 0 - set ?js \<subseteq> slots_of kv1 0"
  proof
    fix i
    assume i: "i \<in> slots_of kv 0 - set ?js"
    then have e: "i < length (stream_cells kv 0)" "cl_pos (stream_cells kv 0 ! i) = - 1"
      using none by (auto simp: slots_of_def usable_def is_masked_swa_def split: if_splits)
    have "stream_cells kv1 0 ! i = stream_cells kv 0 ! i" "length (stream_cells kv1 0) = length (stream_cells kv 0)"
      using diff i e(1) strm inv(2) unfolding differ_in_def by auto
    with e show "i \<in> slots_of kv1 0" unfolding slots_of_def usable_def by simp
  qed
  have "card (slots_of kv 0) \<le> card (slots_of kv 0 - set ?js) + card (set ?js)"
    by (metis card_mono card_Un_le finite_Un finite_slots_of List.finite_set finite_Diff Un_Diff_cancel2 Un_upper1 order_trans)
  also have "\<dots> \<le> card (slots_of kv1 0) + ub_n_tokens ub"
    using card_mono [OF finite_slots_of sub] card_length [of ?js] strm(3) by simp
  finally show ?thesis .
qed

text \<open>Applying the ubatches one after the other, as the context does.\<close>

fun apply_all :: "slot_info list \<Rightarrow> llama_ubatch list \<Rightarrow> llama_kv_cache \<Rightarrow> llama_kv_cache option" where
  "apply_all (si # sis) (ub # ubs) kv = do { kv \<leftarrow> apply_ubatch si ub kv; apply_all sis ubs kv }"
| "apply_all _ _ kv = Some kv"

lemma prepare_loop_spec:
  assumes "kv_inv kv" and "kv_pos_ok kv" and "homed kv" and "kv_swa_type kv = LLAMA_SWA_TYPE_NONE" and "\<forall>ub\<in>set ubs. placeable kv ub"
  shows "\<exists>ok kv' sis sts. prepare_loop ubs kv res states = Some (ok, kv', res @ sis, states @ sts) \<and> kv_inv kv' \<and> same_config kv kv' \<and>
    length sts = length sis \<and> (ok \<longrightarrow> length sis = length ubs) \<and>
    (\<forall>kx. kv_inv kx \<and> cells_eq kv' kx \<longrightarrow>
       (\<exists>ky. for_each restore_state (rev sts) kx = Some ky \<and> kv_inv ky \<and> cells_eq kv ky \<and>
          (sts \<noteq> [] \<and> kv_n_stream kv = 1 \<longrightarrow> kv_v_heads ky = kv_v_heads kv))) \<and>
    (\<forall>kx. kv_inv kx \<and> cells_eq kv kx \<longrightarrow> (\<exists>ky. apply_all sis ubs kx = Some ky \<and> kv_inv ky \<and> cells_eq kv' ky)) \<and>
    (kv_n_stream kv = 1 \<and> sum_list (map ub_n_tokens ubs) \<le> card (slots_of kv 0) \<longrightarrow> ok)"
  using assms
proof (induction ubs arbitrary: kv res states)
  case Nil
  then show ?case by (intro exI [of _ True] exI [of _ kv] exI [of _ "[]"]) auto
next
  case (Cons ub ubs)
  note inv = Cons.prems(1) and pos = Cons.prems(2) and home = Cons.prems(3) and none = Cons.prems(4)
  have pl: "placeable kv ub" using Cons.prems(5) by simp
  then have fits: "ubatch_fits kv ub" and ubwf: "ub_wf ub" and ids: "\<forall>i<ub_n_tokens ub. \<forall>s\<in>set (tok_seqs ub i). valid_seq kv s"
    by (auto simp: placeable_def)
  obtain si where fs: "find_slot kv ub False = Some si" "\<not> si_empty si \<Longrightarrow> slot_ok kv ub si"
      "si_empty si \<Longrightarrow> \<exists>s<ub_seqs kv ub. card (slots_of kv (ub_stream kv ub s)) < ub_per_seq kv ub"
  proof -
    obtain si where "find_slot kv ub False = Some si" "if si_empty si then False \<or> (\<exists>s<ub_seqs kv ub. card (slots_of kv (ub_stream kv ub s)) < ub_per_seq kv ub)
        else slot_ok kv ub si"
      using find_slot_spec [OF inv pos fits, of False] by blast
    then show ?thesis by (intro that [of si]) simp_all
  qed
  show ?case
  proof (cases "si_empty si")
    case True
    have "\<not> (kv_n_stream kv = 1 \<and> sum_list (map ub_n_tokens (ub # ubs)) \<le> card (slots_of kv 0))"
      using fs(3) [OF True] unified_ubatch [OF inv _ pl] by fastforce
    with True fs(1) inv show ?thesis by (intro exI [of _ False] exI [of _ kv] exI [of _ "[]"]) auto
  next
    case False
    let ?n = "ub_per_seq kv ub"
    note E = find_slot_empty_cells [OF inv none pl fs(2) [OF False]]
    obtain saved where sv: "save_state si kv = Some (si, kv_v_heads kv, saved)" "length saved = length (si_strm si)"
        "\<forall>s<length (si_strm si). kc_cp_idxs (si_idxs si ! s) (kv_v_cells kv ! (si_strm si ! s)) = Some (saved ! s)"
      using save_state_spec [OF inv E(1)] E(4) by blast
    obtain kv1 where k1: "apply_ubatch si ub kv = Some kv1" "kv_inv kv1" "same_config kv kv1" "homed kv1" "kv_pos_ok kv1" "differ_in si kv kv1"
      and c1: "\<forall>st<kv_n_stream kv. length (stream_cells kv1 st) = length (stream_cells kv st) \<and>
        kc_has_shift (kv_v_cells kv1 ! st) = kc_has_shift (kv_v_cells kv ! st) \<and>
        (\<forall>i<length (stream_cells kv st). stream_cells kv1 st ! i =
           placed_cell si ub ?n (set (tok_pairs (si_n_stream si) ?n)) st i (stream_cells kv st ! i))"
      using apply_empty_slot [OF inv E(1,2) ubwf E(3) home pos ids E(4)] by blast
    have none1: "kv_swa_type kv1 = LLAMA_SWA_TYPE_NONE" using k1(3) none by (simp add: same_config_def)
    have pl1: "\<forall>ub\<in>set ubs. placeable kv1 ub" using Cons.prems(5) placeable_config [OF k1(3)] by simp
    from Cons.IH [OF k1(2,5,4) none1 pl1, of "res @ [si]" "states @ [(si, kv_v_heads kv, saved)]"] obtain ok kv' sis sts where
      r: "prepare_loop ubs kv1 (res @ [si]) (states @ [(si, kv_v_heads kv, saved)]) =
            Some (ok, kv', (res @ [si]) @ sis, (states @ [(si, kv_v_heads kv, saved)]) @ sts)"
        "kv_inv kv'" "same_config kv1 kv'" "length sts = length sis" "ok \<longrightarrow> length sis = length ubs"
      and undo: "\<forall>kx. kv_inv kx \<and> cells_eq kv' kx \<longrightarrow> (\<exists>ky. for_each restore_state (rev sts) kx = Some ky \<and> kv_inv ky \<and> cells_eq kv1 ky)"
      and redo: "\<forall>kx. kv_inv kx \<and> cells_eq kv1 kx \<longrightarrow> (\<exists>ky. apply_all sis ubs kx = Some ky \<and> kv_inv ky \<and> cells_eq kv' ky)"
      and live: "kv_n_stream kv1 = 1 \<and> sum_list (map ub_n_tokens ubs) \<le> card (slots_of kv1 0) \<longrightarrow> ok"
      by blast
    have live': "kv_n_stream kv = 1 \<and> sum_list (map ub_n_tokens (ub # ubs)) \<le> card (slots_of kv 0) \<longrightarrow> ok"
      using live slots_after_apply [OF inv _ none pl fs(2) [OF False] k1(6)] k1(3) by (auto simp: same_config_def)
    have undo': "\<exists>ky. for_each restore_state (rev ((si, kv_v_heads kv, saved) # sts)) kx = Some ky \<and> kv_inv ky \<and> cells_eq kv ky \<and>
        (kv_n_stream kv = 1 \<longrightarrow> kv_v_heads ky = kv_v_heads kv)"
      if kx: "kv_inv kx" "cells_eq kv' kx" for kx
    proof -
      obtain k2 where k2: "for_each restore_state (rev sts) kx = Some k2" "kv_inv k2" "cells_eq kv1 k2" using undo kx by blast
      have "differ_in si kv k2"
        using k1(6) k2(3) E(1) by (auto simp: differ_in_def cells_eq_def same_config_def slot_wf_def)
      from restore_state_spec [OF inv k2(2) E(1) this sv(2,3)] k2(1,3) c1 k1(3) show ?thesis
        by (auto simp: for_each_append cells_eq_def same_config_def)
    qed
    have redo': "\<exists>ky. apply_all (si # sis) (ub # ubs) kx = Some ky \<and> kv_inv ky \<and> cells_eq kv' ky"
      if kx: "kv_inv kx" "cells_eq kv kx" for kx
    proof -
      have cfg: "same_config kv kx" "\<And>st. st < kv_n_stream kv \<Longrightarrow> stream_cells kx st = stream_cells kv st" using kx(2) by (auto simp: cells_eq_def)
      note F = cells_eq_facts [OF kx(2) inv]
      have ids': "\<forall>i<ub_n_tokens ub. \<forall>s\<in>set (tok_seqs ub i). valid_seq kx s"
        using ids cfg(1) by (simp add: valid_seq_def same_config_def)
      have E4: "\<forall>s<length (si_strm si). \<forall>i\<in>set (si_idxs si ! s). cl_pos (stream_cells kx (si_strm si ! s) ! i) = - 1 \<and>
         cl_shift (stream_cells kx (si_strm si ! s) ! i) = 0"
        using E(1,4) cfg(2) by (simp add: slot_wf_def)
      obtain kx1 where x1: "apply_ubatch si ub kx = Some kx1" "kv_inv kx1" "same_config kx kx1"
          "\<forall>st<kv_n_stream kx. length (stream_cells kx1 st) = length (stream_cells kx st) \<and>
        kc_has_shift (kv_v_cells kx1 ! st) = kc_has_shift (kv_v_cells kx ! st) \<and>
        (\<forall>i<length (stream_cells kx st). stream_cells kx1 st ! i =
           placed_cell si ub ?n (set (tok_pairs (si_n_stream si) ?n)) st i (stream_cells kx st ! i))"
        using apply_empty_slot [OF kx(1) _ _ ubwf E(3) _ _ ids' E4] E(1,2) F home pos by blast
      have "stream_cells kx1 st = stream_cells kv1 st" if "st < kv_n_stream kv" for st
      proof -
        have "length (kc_pos (kv_v_cells kx ! st)) = length (kc_pos (kv_v_cells kv ! st))"
          using arg_cong [OF cfg(2) [OF that], of length] unfolding length_cells_of .
        then show ?thesis
          using x1(3,4) c1 cfg that by (intro nth_equalityI) (simp_all add: same_config_def)
      qed
      then have "cells_eq kv1 kx1"
        using x1(3,4) c1 kx(2) k1(3) by (simp add: cells_eq_def same_config_def)
      with redo x1(1,2) show ?thesis by auto
    qed
    have "prepare_loop (ub # ubs) kv res states = Some (ok, kv', res @ (si # sis), states @ ((si, kv_v_heads kv, saved) # sts))"
      using fs(1) False sv(1) k1(1) r(1) by simp
    then show ?thesis
      using r(2-5) same_config_trans [OF k1(3) r(3)] undo' redo' live'
      by (intro exI [of _ ok] exI [of _ kv'] exI [of _ "si # sis"] exI [of _ "(si, kv_v_heads kv, saved) # sts"]) simp
  qed
qed

lemma prepare_spec:
  assumes "kv_inv kv" and "kv_pos_ok kv" and "homed kv" and "kv_swa_type kv = LLAMA_SWA_TYPE_NONE" and "\<forall>ub\<in>set ubs. placeable kv ub"
    and ne: "ubs \<noteq> []"
  shows "\<exists>sis kv'. prepare ubs kv = Some (sis, kv') \<and> kv_inv kv' \<and> cells_eq kv kv' \<and>
    (sis \<noteq> [] \<and> kv_n_stream kv = 1 \<longrightarrow> kv_v_heads kv' = kv_v_heads kv) \<and>
    (sis \<noteq> [] \<longrightarrow> length sis = length ubs \<and> (\<exists>ky. apply_all sis ubs kv' = Some ky \<and> kv_inv ky)) \<and>
    (kv_n_stream kv = 1 \<and> sum_list (map ub_n_tokens ubs) \<le> card (slots_of kv 0) \<longrightarrow> sis \<noteq> [])"
proof -
  from prepare_loop_spec [OF assms(1-5), of "[]" "[]"] obtain ok k1 sis sts where
    r: "prepare_loop ubs kv [] [] = Some (ok, k1, sis, sts)" "kv_inv k1" "same_config kv k1" "length sts = length sis" "ok \<longrightarrow> length sis = length ubs"
    and undo: "\<forall>kx. kv_inv kx \<and> cells_eq k1 kx \<longrightarrow> (\<exists>ky. for_each restore_state (rev sts) kx = Some ky \<and> kv_inv ky \<and> cells_eq kv ky \<and>
          (sts \<noteq> [] \<and> kv_n_stream kv = 1 \<longrightarrow> kv_v_heads ky = kv_v_heads kv))"
    and redo: "\<forall>kx. kv_inv kx \<and> cells_eq kv kx \<longrightarrow> (\<exists>ky. apply_all sis ubs kx = Some ky \<and> kv_inv ky \<and> cells_eq k1 ky)"
    and live: "kv_n_stream kv = 1 \<and> sum_list (map ub_n_tokens ubs) \<le> card (slots_of kv 0) \<longrightarrow> ok"
    by auto
  have "cells_eq k1 k1" by simp
  with undo r(2) obtain ky where ky: "for_each restore_state (rev sts) k1 = Some ky" "kv_inv ky" "cells_eq kv ky"
      "sts \<noteq> [] \<and> kv_n_stream kv = 1 \<longrightarrow> kv_v_heads ky = kv_v_heads kv"
    by blast
  have st: "ok \<Longrightarrow> sts \<noteq> [] \<and> sis \<noteq> []" using r(4,5) ne by auto
  have run: "prepare ubs kv = Some (if ok then (sis, ky) else ([], ky))"
    using r(1) ky(1) st by (simp add: prepare_def)
  obtain kz where "apply_all sis ubs ky = Some kz" "kv_inv kz" using redo ky(2,3) by blast
  then show ?thesis using run ky r(5) st live by (cases ok) auto
qed

section \<open>A concrete ubatch\<close>

text \<open>One token of sequence 0 at position 2, and the slot that puts it into cell 2 of \<^const>\<open>ex_kv\<close>.\<close>

definition ex_ub :: llama_ubatch where
  "ex_ub = \<lparr>ub_b_equal_seqs = False, ub_n_tokens = 1, ub_n_seq_tokens = 1, ub_n_seqs = 1, ub_n_seqs_unq = 1, ub_n_pos = 1,
     ub_token = Some [7], ub_embd = None, ub_pos = [2], ub_n_seq_id = [1], ub_seq_id = [[0]], ub_seq_id_unq = [0],
     ub_seq_idx = [0], ub_output = [1]\<rparr>"

definition ex_si :: slot_info where
  "ex_si = \<lparr>si_s0 = 0, si_s1 = 0, si_strm = [0], si_idxs = [[2]]\<rparr>"

lemma ex_kv_swa: "kv_swa_type ex_kv = LLAMA_SWA_TYPE_NONE" "kv_n_swa ex_kv = 0"
proof -
  have "kv_swa_type (ex_kv_new True) = LLAMA_SWA_TYPE_NONE \<and> kv_n_swa (ex_kv_new True) = 0"
    using ex_kv_new_Some [of True] by (auto simp: kv_cache_new_def Let_def split: Option.bind_splits prod.splits
        dest!: sym [of _ "ex_kv_new True"])
  then show "kv_swa_type ex_kv = LLAMA_SWA_TYPE_NONE" "kv_n_swa ex_kv = 0" by (simp_all add: ex_kv_def)
qed

lemma ex_pos_ok: "kv_pos_ok ex_kv" "homed ex_kv"
  by (simp_all add: kv_pos_ok_def ex_kv_swa ex_facts ex_cells_eval empty_cell_def INT32_MAX_def homed_unified)

lemma ex_tok_seqs: "tok_seqs ex_ub 0 = [0]"
  by (simp add: tok_seqs_def ex_ub_def)

lemma ex_ub_wf: "ub_wf ex_ub"
  using ex_tok_seqs by (simp add: ub_wf_def ex_ub_def INT32_MAX_def is_pos_2d_def bitset_idx_def LLAMA_MAX_SEQ_def)

lemma ex_fits: "ubatch_fits ex_kv ex_ub"
  by (simp add: ubatch_fits_def ub_seqs_def ub_per_seq_def ex_facts) (simp add: ex_ub_def ex_valid)

lemma ex_placeable: "placeable ex_kv ex_ub"
proof -
  have "valid_seq ex_kv s" if "i < ub_n_tokens ex_ub" "s \<in> set (tok_seqs ex_ub i)" for i s
  proof -
    from that(1) have "i = 0" by (simp add: ex_ub_def)
    with that(2) show ?thesis by (simp add: ex_tok_seqs ex_valid)
  qed
  then show ?thesis by (simp add: placeable_def ex_fits ex_ub_wf ub_seqs_def ex_facts)
qed

lemma ex_slots: "slots_of ex_kv 0 = {2, 3}"
proof -
  have m: "is_masked_swa 0 LLAMA_SWA_TYPE_NONE p q \<noteq> Some True" for p q
    by (auto simp: is_masked_swa_def)
  show ?thesis
    by (auto simp: slots_of_def usable_def ex_facts ex_kv_swa ex_cells_eval empty_cell_def less_Suc_eq numeral_nat m)
qed

section \<open>Properties\<close>

text \<open>
  C23: \<open>find_slot\<close> always returns.  A slot it returns has one usable cell per token and
  sequence, all different and inside the cache, in the stream of the sequence; without the
  \<open>cont\<close> flag it fails only when some stream has fewer usable cells than tokens.
\<close>

theorem find_slot_correct:
  assumes "kv_inv kv" and "kv_pos_ok kv" and "ubatch_fits kv ub"
  shows "\<exists>si. find_slot kv ub cont = Some si \<and>
    (if si_empty si then cont \<or> (\<exists>s<ub_seqs kv ub. card (slots_of kv (ub_stream kv ub s)) < ub_per_seq kv ub)
     else slot_ok kv ub si)"
  by (rule find_slot_spec [OF assms])

theorem find_slot_correct_witness:
  "\<exists>si. find_slot ex_kv ex_ub False = Some si \<and> slot_ok ex_kv ex_ub si"
proof -
  have "card (slots_of ex_kv (ub_stream ex_kv ex_ub 0)) = 2"
    by (simp add: ub_stream_def ex_ub_def ex_stream ex_slots)
  then have "\<not> (\<exists>s<ub_seqs ex_kv ex_ub. card (slots_of ex_kv (ub_stream ex_kv ex_ub s)) < ub_per_seq ex_kv ex_ub)"
    by (simp add: ub_seqs_def ub_per_seq_def ex_facts) (simp add: ex_ub_def)
  then show ?thesis
    using find_slot_correct [OF ex_kv_inv(1) ex_pos_ok(1) ex_fits, of False] by (metis (full_types))
qed

text \<open>
  C22: \<open>apply_ubatch\<close> on a slot whose cells are empty or held by a single sequence runs to its
  end, purge included, and keeps the invariant of the cache; when the cells are empty, exactly
  the cells of the slot change, and each then holds its token.
\<close>

theorem apply_ubatch_correct:
  assumes "kv_inv kv" and "slot_wf kv si n" and "slot_free kv si" and "ub_wf ub"
    and "ub_n_tokens ub = si_n_stream si * n" and "homed kv" and "kv_pos_ok kv"
  shows "\<exists>kv'. apply_ubatch si ub kv = Some kv' \<and> kv_inv kv' \<and> same_config kv kv' \<and>
    ((\<forall>s<length (si_strm si). \<forall>i\<in>set (si_idxs si ! s). cl_pos (stream_cells kv (si_strm si ! s) ! i) = - 1) \<longrightarrow>
     (\<forall>st<kv_n_stream kv. length (stream_cells kv' st) = length (stream_cells kv st) \<and>
        kc_has_shift (kv_v_cells kv' ! st) = kc_has_shift (kv_v_cells kv ! st) \<and>
        (\<forall>i<length (stream_cells kv st). stream_cells kv' st ! i =
           placed_cell si ub n (set (tok_pairs (si_n_stream si) n)) st i (stream_cells kv st ! i))))"
  by (rule apply_ubatch_spec [OF assms])

theorem apply_ubatch_correct_witness:
  "\<exists>kv'. apply_ubatch ex_si ex_ub ex_kv = Some kv' \<and> kv_inv kv' \<and> stream_cells kv' 0 ! 2 = placed ex_ub 0 empty_cell \<and>
     stream_cells kv' 0 ! 3 = empty_cell"
proof -
  have wf: "slot_wf ex_kv ex_si 1" "slot_free ex_kv ex_si"
    by (simp_all add: slot_wf_def slot_free_def ex_si_def ex_facts ex_cells_eval empty_cell_def)
  have n: "ub_n_tokens ex_ub = si_n_stream ex_si * 1" by (simp add: ex_ub_def si_n_stream_def ex_si_def)
  have e: "\<forall>s<length (si_strm ex_si). \<forall>i\<in>set (si_idxs ex_si ! s). cl_pos (stream_cells ex_kv (si_strm ex_si ! s) ! i) = - 1"
    by (simp add: ex_si_def ex_facts ex_cells_eval empty_cell_def)
  from apply_ubatch_correct [OF ex_kv_inv(1) wf ex_ub_wf n ex_pos_ok(2,1)] e obtain kv' where
    r: "apply_ubatch ex_si ex_ub ex_kv = Some kv'" "kv_inv kv'"
      "\<forall>i<length (stream_cells ex_kv 0). stream_cells kv' 0 ! i =
         placed_cell ex_si ex_ub 1 (set (tok_pairs (si_n_stream ex_si) 1)) 0 i (stream_cells ex_kv 0 ! i)"
    by (auto simp: ex_facts)
  have "(0, 0) \<in> set (tok_pairs (si_n_stream ex_si) 1)" by (simp add: set_tok_pairs si_n_stream_def ex_si_def)
  from placed_cell_at [OF wf(1) subset_refl this]
  have pc: "placed_cell ex_si ex_ub 1 (set (tok_pairs (si_n_stream ex_si) 1)) 0 2 x = placed ex_ub 0 x" for x
    by (simp add: ex_si_def)
  have pc3: "placed_cell ex_si ex_ub 1 (set (tok_pairs (si_n_stream ex_si) 1)) 0 3 x = x" for x
    by (simp add: placed_cell_def set_tok_pairs target_def si_n_stream_def ex_si_def)
  from r(3) have "stream_cells kv' 0 ! 2 = placed ex_ub 0 empty_cell" "stream_cells kv' 0 ! 3 = empty_cell"
    by (simp_all add: pc [simplified] pc3 [simplified] ex_facts ex_cells_eval)
  with r show ?thesis by blast
qed

text \<open>
  C1: \<open>prepare\<close> (without a sliding window) has no lasting effect on the cells: it returns, every
  cell and shift flag is as before, in the unified cache the head too; the slots it returns can
  then be applied one after the other; and in the unified cache it succeeds whenever there are
  at least as many empty cells as tokens.
\<close>

theorem prepare_correct:
  assumes "kv_inv kv" and "kv_pos_ok kv" and "homed kv" and "kv_swa_type kv = LLAMA_SWA_TYPE_NONE"
    and "\<forall>ub\<in>set ubs. placeable kv ub" and "ubs \<noteq> []"
  shows "\<exists>sis kv'. prepare ubs kv = Some (sis, kv') \<and> kv_inv kv' \<and> cells_eq kv kv' \<and>
    (sis \<noteq> [] \<and> kv_n_stream kv = 1 \<longrightarrow> kv_v_heads kv' = kv_v_heads kv) \<and>
    (sis \<noteq> [] \<longrightarrow> length sis = length ubs \<and> (\<exists>ky. apply_all sis ubs kv' = Some ky \<and> kv_inv ky)) \<and>
    (kv_n_stream kv = 1 \<and> sum_list (map ub_n_tokens ubs) \<le> card (slots_of kv 0) \<longrightarrow> sis \<noteq> [])"
  by (rule prepare_spec [OF assms])

theorem prepare_correct_witness:
  "\<exists>sis kv'. prepare [ex_ub] ex_kv = Some (sis, kv') \<and> kv_inv kv' \<and> cells_eq ex_kv kv' \<and> length sis = 1 \<and>
     kv_v_heads kv' = kv_v_heads ex_kv \<and> (\<exists>ky. apply_all sis [ex_ub] kv' = Some ky \<and> kv_inv ky)"
proof -
  have "sum_list (map ub_n_tokens [ex_ub]) \<le> card (slots_of ex_kv 0)" by (simp add: ex_slots) (simp add: ex_ub_def)
  with prepare_correct [OF ex_kv_inv(1) ex_pos_ok ex_kv_swa(1), of "[ex_ub]"] show ?thesis
    by (auto simp: ex_placeable ex_kv_inv(2))
qed

end
