(* ===== verification/KV_Mask.thy ===== *)
theory KV_Mask
  imports KV_Prepare
begin

text \<open>
  The attention mask of the KV cache: \<open>set_input_kq_mask\<close> of \<open>src/src/llama-kv-cache.cpp\<close>.

  The mask has one row of \<open>n_kv\<close> entries per token of the ubatch.  The code fills the row of
  the first token of a sequence by visiting all cells and records the cells whose entry could
  differ for a later token of the same sequence; for such a later token it copies the first row
  and recomputes the recorded cells only.  The model keeps this bookkeeping, and
  \<open>kq_mask_correct\<close> shows that the result is the mask that visits every cell for every
  token.

  An entry is \<open>NegInf\<close> (\<open>-INFINITY\<close>) or \<open>Num v\<close>, the float that the integer \<open>v\<close> converts
  to.  The buffer of the destination tensor is the list \<open>data\<close>; its dimensions \<open>n_kv\<close> and
  \<open>n_stream\<close> are arguments.
\<close>

section \<open>Operations\<close>

datatype mask_val = NegInf | Num int

record kq_args =
  ka_ubatch :: llama_ubatch
  ka_v_cells :: "llama_kv_cells list"
  ka_seq_to_stream :: "nat list"
  ka_n_swa :: nat
  ka_swa_type :: llama_swa_type
  ka_n_kv :: nat
  ka_n_stream :: nat
  ka_n_tps :: nat

text \<open>The minimum position in the batch for each sequence (the first sequence id of every token).\<close>

definition kq_seq_pos_min :: "llama_ubatch \<Rightarrow> (llama_seq_id \<Rightarrow> llama_pos) option" where
  "kq_seq_pos_min ub =
     for_each (\<lambda>i m. do {
         ids \<leftarrow> at (ub_seq_id ub) i;
         seq_id \<leftarrow> at ids 0;
         ggml_assert (bitset_idx seq_id);
         p \<leftarrow> at (ub_pos ub) i;
         Some (m(seq_id := min (m seq_id) p)) })
       [0..<ub_n_tokens ub] (\<lambda>_. INT32_MAX)"

text \<open>The causal part of the mask, with the M-RoPE rule for equal positions.\<close>

definition kq_masked_causal :: "bool \<Rightarrow> llama_kv_cells \<Rightarrow> nat \<Rightarrow> llama_pos \<Rightarrow> llama_pos \<Rightarrow> llama_pos \<Rightarrow> llama_pos \<Rightarrow> bool option" where
  "kq_masked_causal is_2d c j p0 p1 p1_x p1_y =
     (if p0 > p1 then Some True
      else if is_2d \<and> p0 = p1 then do { e \<leftarrow> kc_ext_get j c; Some (is_2d_gt e p1_x p1_y) }
      else Some False)"

text \<open>The entry of cell \<open>j\<close> for a token of \<open>seq_id\<close>; \<open>goto skip\<close> is the value \<open>NegInf\<close>.\<close>

definition kq_entry :: "bool \<Rightarrow> bool \<Rightarrow> bool \<Rightarrow> bool \<Rightarrow> nat \<Rightarrow> llama_swa_type \<Rightarrow> llama_kv_cells \<Rightarrow> llama_seq_id \<Rightarrow>
    llama_pos \<Rightarrow> llama_pos \<Rightarrow> llama_pos \<Rightarrow> nat \<Rightarrow> mask_val option" where
  "kq_entry causal swa is_2d alibi n_swa swa_type c seq_id p1 p1_x p1_y j = do {
     e \<leftarrow> kc_is_empty j c;
     if e then Some NegInf
     else do {
       h \<leftarrow> kc_seq_has j seq_id c;
       if \<not> h then Some NegInf
       else do {
         p0 \<leftarrow> kc_pos_get j c;
         m1 \<leftarrow> (if causal then kq_masked_causal is_2d c j p0 p1 p1_x p1_y else Some False);
         if m1 then Some NegInf
         else do {
           m2 \<leftarrow> (if swa then is_masked_swa n_swa swa_type p0 p1 else Some False);
           if m2 then Some NegInf
           else if alibi then do { d \<leftarrow> i32_sub p0 p1; Some (Num (- \<bar>d\<bar>)) }
           else Some (Num 0) } } } }"

text \<open>Whether the first row of the sequence records cell \<open>j\<close>.\<close>

definition kq_record :: "nat \<Rightarrow> llama_pos \<Rightarrow> llama_kv_cells \<Rightarrow> llama_seq_id \<Rightarrow> nat \<Rightarrow> bool option" where
  "kq_record n_swa pos_min c seq_id j = do {
     e \<leftarrow> kc_is_empty j c;
     if e then Some False
     else do {
       h \<leftarrow> kc_seq_has j seq_id c;
       if \<not> h then Some False
       else do {
         p0 \<leftarrow> kc_pos_get j c;
         x \<leftarrow> i32_add p0 (to_i32 (u32 (n_swa + 32)));
         Some (x \<ge> pos_min) } } }"

definition kq_store :: "nat \<Rightarrow> mask_val \<Rightarrow> mask_val list \<Rightarrow> mask_val list option" where
  "kq_store k v data = (if k < length data then Some (data[k := v]) else None)"

text \<open>\<open>std::copy\<close> of a row of \<open>n\<close> entries.\<close>

definition kq_copy_row :: "nat \<Rightarrow> nat \<Rightarrow> nat \<Rightarrow> mask_val list \<Rightarrow> mask_val list option" where
  "kq_copy_row src dst n data =
     (if src + n \<le> length data \<and> dst + n \<le> length data
      then Some (take dst data @ take n (drop src data) @ drop (dst + n) data) else None)"

text \<open>The state of the loops: the buffer and the bookkeeping \<open>seq_srct\<close>, \<open>seq_idxs\<close> of a stream.\<close>

type_synonym kq_state = "mask_val list \<times> (llama_seq_id \<Rightarrow> nat option) \<times> (llama_seq_id \<Rightarrow> nat list)"

definition kq_full_row :: "bool \<Rightarrow> (nat \<Rightarrow> mask_val option) \<Rightarrow> (nat \<Rightarrow> bool option) \<Rightarrow> nat \<Rightarrow> nat \<Rightarrow> mask_val list \<Rightarrow>
    nat list \<Rightarrow> (mask_val list \<times> nat list) option" where
  "kq_full_row alibi ent rcd n_kv idst data idxs =
     for_each (\<lambda>j (data, idxs). do {
         r \<leftarrow> (if alibi then Some False else rcd j);
         v \<leftarrow> ent j;
         data \<leftarrow> kq_store (idst + j) v data;
         Some (data, if r then idxs @ [j] else idxs) }) [0..<n_kv] (data, idxs)"

definition kq_patch_row :: "(nat \<Rightarrow> mask_val option) \<Rightarrow> nat \<Rightarrow> nat \<Rightarrow> nat list \<Rightarrow> mask_val list \<Rightarrow> mask_val list option" where
  "kq_patch_row ent n_kv idst idxs data =
     for_each (\<lambda>j data. do { v \<leftarrow> ent j; kq_store (idst + j) v data }) (take n_kv idxs) data"

definition kq_row :: "bool \<Rightarrow> (nat \<Rightarrow> mask_val option) \<Rightarrow> (nat \<Rightarrow> bool option) \<Rightarrow> nat \<Rightarrow> llama_seq_id \<Rightarrow> nat \<Rightarrow> kq_state \<Rightarrow> kq_state option" where
  "kq_row alibi ent rcd n_kv seq_id i = (\<lambda>(data, srct, idxs).
     (case (if alibi then None else srct seq_id) of
        Some r \<Rightarrow> do {
          data \<leftarrow> kq_copy_row (n_kv * r) (n_kv * i) n_kv data;
          data \<leftarrow> kq_patch_row ent n_kv (n_kv * i) (idxs seq_id) data;
          Some (data, srct, idxs) }
      | None \<Rightarrow> do {
          let (srct, idxs) = (if alibi then (srct, idxs) else (srct(seq_id \<mapsto> i), idxs(seq_id := [])));
          (data, l) \<leftarrow> kq_full_row alibi ent rcd n_kv (n_kv * i) data (idxs seq_id);
          Some (data, srct, idxs(seq_id := l)) }))"

definition kq_token :: "bool \<Rightarrow> bool \<Rightarrow> bool \<Rightarrow> bool \<Rightarrow> kq_args \<Rightarrow> (llama_seq_id \<Rightarrow> llama_pos) \<Rightarrow> nat \<Rightarrow> kq_state \<Rightarrow> kq_state option" where
  "kq_token causal swa is_2d alibi a seq_pos_min i st = do {
     let ub = ka_ubatch a;
     ids \<leftarrow> at (ub_seq_id ub) i;
     seq_id \<leftarrow> at ids 0;
     ggml_assert (seq_id \<ge> 0);
     strm \<leftarrow> at (ka_seq_to_stream a) (nat seq_id);
     c \<leftarrow> at (ka_v_cells a) strm;
     p1 \<leftarrow> at (ub_pos ub) i;
     p1_x \<leftarrow> (if is_2d then at (ub_pos ub) (i + ub_n_tokens ub * 2) else Some 0);
     p1_y \<leftarrow> (if is_2d then at (ub_pos ub) (i + ub_n_tokens ub) else Some 0);
     kq_row alibi (kq_entry causal swa is_2d alibi (ka_n_swa a) (ka_swa_type a) c seq_id p1 p1_x p1_y)
       (kq_record (ka_n_swa a) (seq_pos_min seq_id) c seq_id) (ka_n_kv a) seq_id i st }"

definition kq_stream :: "bool \<Rightarrow> bool \<Rightarrow> bool \<Rightarrow> bool \<Rightarrow> kq_args \<Rightarrow> (llama_seq_id \<Rightarrow> llama_pos) \<Rightarrow> nat \<Rightarrow> mask_val list \<Rightarrow> mask_val list option" where
  "kq_stream causal swa is_2d alibi a seq_pos_min s data =
     map_option fst (for_each (\<lambda>ii. kq_token causal swa is_2d alibi a seq_pos_min (s * ka_n_tps a + ii))
       [0..<ka_n_tps a] (data, \<lambda>_. None, \<lambda>_. []))"

definition set_input_kq_mask_impl :: "bool \<Rightarrow> bool \<Rightarrow> bool \<Rightarrow> bool \<Rightarrow> kq_args \<Rightarrow> mask_val list \<Rightarrow> mask_val list option" where
  "set_input_kq_mask_impl causal swa is_2d alibi a data = do {
     seq_pos_min \<leftarrow> kq_seq_pos_min (ka_ubatch a);
     for_each (kq_stream causal swa is_2d alibi a seq_pos_min) [0..<ka_n_stream a] data }"

text \<open>The dispatch on the template arguments.\<close>

definition set_input_kq_mask_dispatch :: "bool \<Rightarrow> bool \<Rightarrow> kq_args \<Rightarrow> mask_val list \<Rightarrow> mask_val list option" where
  "set_input_kq_mask_dispatch causal alibi a data =
     set_input_kq_mask_impl causal (ka_swa_type a \<noteq> LLAMA_SWA_TYPE_NONE) (is_pos_2d (ka_ubatch a)) alibi a data"

definition set_input_kq_mask :: "nat \<Rightarrow> nat \<Rightarrow> llama_ubatch \<Rightarrow> bool \<Rightarrow> llama_kv_cache \<Rightarrow> mask_val list \<Rightarrow> mask_val list option" where
  "set_input_kq_mask n_kv n_stream ub causal_attn kv data = do {
     ggml_assert (n_stream \<noteq> 0 \<and> ub_n_tokens ub mod n_stream = 0);
     let n_tps = ub_n_tokens ub div n_stream;
     set_input_kq_mask_dispatch causal_attn (hp_use_alibi (kv_hparams kv))
       \<lparr>ka_ubatch = ub, ka_v_cells = kv_v_cells kv, ka_seq_to_stream = kv_seq_to_stream kv, ka_n_swa = kv_n_swa kv,
        ka_swa_type = kv_swa_type kv, ka_n_kv = n_kv, ka_n_stream = n_stream, ka_n_tps = n_tps\<rparr> data }"

section \<open>The specification\<close>

text \<open>What the entry of a cell must be: every rule of the mask on the content of the cell.\<close>

definition kq_value :: "bool \<Rightarrow> bool \<Rightarrow> bool \<Rightarrow> nat \<Rightarrow> llama_swa_type \<Rightarrow> cell \<Rightarrow> llama_seq_id \<Rightarrow> llama_pos \<Rightarrow> llama_pos \<Rightarrow> llama_pos \<Rightarrow> mask_val" where
  "kq_value causal is_2d alibi n_swa swa_type x seq_id p1 p1_x p1_y =
     (if seq_id \<notin> cl_seq x
        \<or> causal \<and> (cl_pos x > p1 \<or> is_2d \<and> cl_pos x = p1 \<and> is_2d_gt (cl_ext x) p1_x p1_y)
        \<or> is_masked_swa n_swa swa_type (cl_pos x) p1 = Some True
      then NegInf else if alibi then Num (- \<bar>cl_pos x - p1\<bar>) else Num 0)"

text \<open>Token \<open>i\<close> of the ubatch: its sequence and its positions.\<close>

definition tok_seq :: "llama_ubatch \<Rightarrow> nat \<Rightarrow> llama_seq_id" where
  "tok_seq ub i = ub_seq_id ub ! i ! 0"

definition tok_x :: "llama_ubatch \<Rightarrow> nat \<Rightarrow> llama_pos" where
  "tok_x ub i = (if is_pos_2d ub then ub_pos ub ! (i + ub_n_tokens ub * 2) else 0)"

definition tok_y :: "llama_ubatch \<Rightarrow> nat \<Rightarrow> llama_pos" where
  "tok_y ub i = (if is_pos_2d ub then ub_pos ub ! (i + ub_n_tokens ub) else 0)"

definition kq_expected :: "bool \<Rightarrow> llama_ubatch \<Rightarrow> llama_kv_cache \<Rightarrow> nat \<Rightarrow> nat \<Rightarrow> mask_val" where
  "kq_expected causal ub kv i j =
     kq_value causal (is_pos_2d ub) (hp_use_alibi (kv_hparams kv)) (kv_n_swa kv) (kv_swa_type kv)
       (stream_cells kv (kv_seq_to_stream kv ! nat (tok_seq ub i)) ! j) (tok_seq ub i) (ub_pos ub ! i) (tok_x ub i) (tok_y ub i)"

text \<open>The tokens of the ubatch have a sequence of the cache and a position that is not negative.\<close>

definition kq_tokens_ok :: "llama_ubatch \<Rightarrow> llama_kv_cache \<Rightarrow> bool" where
  "kq_tokens_ok ub kv \<longleftrightarrow> (is_pos_2d ub \<longrightarrow> ub_n_tokens ub * 3 \<le> length (ub_pos ub)) \<and>
     (\<forall>i<ub_n_tokens ub. i < length (ub_seq_id ub) \<and> ub_seq_id ub ! i \<noteq> [] \<and> valid_seq kv (tok_seq ub i) \<and>
        i < length (ub_pos ub) \<and> 0 \<le> ub_pos ub ! i \<and> ub_pos ub ! i \<le> INT32_MAX)"

text \<open>The sum that decides which cells are recorded does not overflow.\<close>

definition kq_window_ok :: "llama_kv_cache \<Rightarrow> bool" where
  "kq_window_ok kv \<longleftrightarrow> (kv_swa_type kv = LLAMA_SWA_TYPE_CHUNKED \<longrightarrow> kv_n_swa kv \<noteq> 0) \<and> int (kv_n_swa kv) + 32 \<le> INT32_MAX \<and>
     (\<forall>st<kv_n_stream kv. \<forall>x\<in>set (stream_cells kv st). cl_pos x + int (kv_n_swa kv) + 32 \<le> INT32_MAX)"

section \<open>Correctness\<close>

lemma to_i32_window:
  assumes "int n + 32 \<le> INT32_MAX"
  shows "to_i32 (u32 (n + 32)) = int n + 32" "to_i32 n = int n"
proof -
  have "n + 32 < 2147483648" using assms unfolding INT32_MAX_def by linarith
  then show "to_i32 (u32 (n + 32)) = int n + 32" "to_i32 n = int n" by (auto simp: to_i32_def u32_def)
qed

lemma kq_seq_pos_min_spec:
  assumes "kv_inv kv" and "kq_tokens_ok ub kv"
  shows "\<exists>m. kq_seq_pos_min ub = Some m \<and> (\<forall>i<ub_n_tokens ub. m (tok_seq ub i) \<le> ub_pos ub ! i)"
  unfolding kq_seq_pos_min_def
proof (rule for_upto_rule)
  fix i m
  assume i: "i < ub_n_tokens ub" and I: "\<forall>k<i. m (tok_seq ub k) \<le> ub_pos ub ! k"
  have "bitset_idx (tok_seq ub i)"
    using assms(2) i valid_seq_stream(3) [OF assms(1)] by (auto simp: kq_tokens_ok_def)
  then show "\<exists>m'. (do {
         ids \<leftarrow> at (ub_seq_id ub) i;
         seq_id \<leftarrow> at ids 0;
         ggml_assert (bitset_idx seq_id);
         p \<leftarrow> at (ub_pos ub) i;
         Some (m(seq_id := min (m seq_id) p)) }) = Some m' \<and> (\<forall>k<Suc i. m' (tok_seq ub k) \<le> ub_pos ub ! k)"
    using assms(2) i I by (auto simp: kq_tokens_ok_def tok_seq_def less_Suc_eq intro: min.coboundedI1)
qed simp

lemma kq_entry_spec:
  assumes inv: "kv_cells_inv c" and j: "j < length (kc_pos c)" and s: "bitset_idx s" and p1: "0 \<le> p1" "p1 \<le> INT32_MAX"
    and n: "swa_type = LLAMA_SWA_TYPE_CHUNKED \<longrightarrow> n_swa \<noteq> 0" "int n_swa + 32 \<le> INT32_MAX"
  shows "kq_entry causal (swa_type \<noteq> LLAMA_SWA_TYPE_NONE) is_2d alibi n_swa swa_type c s p1 px py j =
    Some (kq_value causal is_2d alibi n_swa swa_type (cells_of c ! j) s p1 px py)"
proof (cases "s \<in> kc_seq c ! j")
  case False
  then show ?thesis
    using kc_is_empty_spec [OF inv j] s j
    by (simp add: kq_entry_def kq_value_def kc_seq_has_def bitset_test_def bitset_idx_def)
next
  case True
  have wf: "cell_wf (cells_of c ! j)" by (rule kv_cells_inv_wf [OF inv j])
  then have p0: "0 \<le> kc_pos c ! j" "i32_ok (kc_pos c ! j)" "kc_pos c ! j \<noteq> - 1" using True j by (auto simp: cell_wf_def)
  have "n_swa < 4294967296" using n(2) unfolding INT32_MAX_def by linarith
  with is_masked_swa_total [OF p0(1) p1(1) n(1)] obtain b where b: "is_masked_swa n_swa swa_type (kc_pos c ! j) p1 = Some b" by blast
  have nb: "swa_type = LLAMA_SWA_TYPE_NONE \<Longrightarrow> \<not> b" using b by (auto simp: is_masked_swa_def split: if_splits)
  have "i32_ok (kc_pos c ! j - p1)" using p0 p1 by (auto simp: i32_ok_def INT32_MAX_def)
  then show ?thesis
    using True kc_is_empty_spec [OF inv j] s j p0 b nb
    by (auto simp: kq_entry_def kq_value_def kc_seq_has_def bitset_test_def bitset_idx_def kc_pos_get_def kq_masked_causal_def
        kc_ext_get_def i32_sub_def)
qed

definition kq_near :: "nat \<Rightarrow> llama_pos \<Rightarrow> cell \<Rightarrow> llama_seq_id \<Rightarrow> bool" where
  "kq_near n_swa pos_min x s \<longleftrightarrow> s \<in> cl_seq x \<and> pos_min \<le> cl_pos x + int n_swa + 32"

lemma kq_record_spec:
  assumes inv: "kv_cells_inv c" and j: "j < length (kc_pos c)" and s: "bitset_idx s"
    and n: "int n_swa + 32 \<le> INT32_MAX" "cl_pos (cells_of c ! j) + int n_swa + 32 \<le> INT32_MAX"
  shows "kq_record n_swa pos_min c s j = Some (kq_near n_swa pos_min (cells_of c ! j) s)"
proof (cases "s \<in> kc_seq c ! j")
  case False
  then show ?thesis
    using kc_is_empty_spec [OF inv j] s j
    by (simp add: kq_record_def kq_near_def kc_seq_has_def bitset_test_def bitset_idx_def)
next
  case True
  have wf: "cell_wf (cells_of c ! j)" by (rule kv_cells_inv_wf [OF inv j])
  then have p0: "0 \<le> kc_pos c ! j" "kc_pos c ! j \<noteq> - 1" using True j by (auto simp: cell_wf_def)
  then have "i32_ok (kc_pos c ! j + (int n_swa + 32))" using n(2) j by (auto simp: i32_ok_def INT32_MAX_def)
  then show ?thesis
    using True kc_is_empty_spec [OF inv j] s j p0
    by (simp add: kq_record_def kq_near_def kc_seq_has_def bitset_test_def bitset_idx_def kc_pos_get_def i32_add_def
        to_i32_window [OF n(1)] add.assoc)
qed

text \<open>
  The reason why the optimisation is right: a cell of the sequence that is not recorded lies so
  far before every position of the batch that all rules give the same answer for all tokens.
\<close>

lemma is_masked_swa_far:
  assumes "0 \<le> p0" and "p0 + int n_swa + 32 < p1" and "int n_swa + 32 \<le> INT32_MAX"
    and "t = LLAMA_SWA_TYPE_CHUNKED \<longrightarrow> n_swa \<noteq> 0"
  shows "is_masked_swa n_swa t p0 p1 = Some (t \<noteq> LLAMA_SWA_TYPE_NONE)"
proof (cases t)
  case LLAMA_SWA_TYPE_CHUNKED
  then have "0 < int n_swa" using assms(4) by simp
  then have "p1 mod int n_swa < int n_swa" by simp
  moreover have "p1 div int n_swa * int n_swa + p1 mod int n_swa = p1" by simp
  ultimately have "p0 < p1 div int n_swa * int n_swa" using assms(2) by linarith
  then show ?thesis using LLAMA_SWA_TYPE_CHUNKED assms by (simp add: is_masked_swa_def)
next
  case LLAMA_SWA_TYPE_SYMMETRIC
  have "i32_div (int n_swa) 2 = Some (int n_swa div 2)"
    using assms(3) by (intro i32_div_pos) (auto simp: i32_ok_def INT32_MAX_def)
  moreover have "int n_swa div 2 \<le> int n_swa" by simp
  ultimately show ?thesis
    using LLAMA_SWA_TYPE_SYMMETRIC assms by (simp add: is_masked_swa_def to_i32_window [OF assms(3)])
qed (use assms in \<open>simp_all add: is_masked_swa_def to_i32_window [OF assms(3)]\<close>)

lemma kq_value_far:
  assumes "\<not> kq_near n_swa pos_min x s" and "pos_min \<le> p1" and "pos_min \<le> q1" and "s \<in> cl_seq x \<Longrightarrow> 0 \<le> cl_pos x"
    and "int n_swa + 32 \<le> INT32_MAX" and "t = LLAMA_SWA_TYPE_CHUNKED \<longrightarrow> n_swa \<noteq> 0"
  shows "kq_value causal is_2d False n_swa t x s p1 px py = kq_value causal is_2d False n_swa t x s q1 qx qy"
proof (cases "s \<in> cl_seq x")
  case True
  then have "cl_pos x + int n_swa + 32 < p1" "cl_pos x + int n_swa + 32 < q1" "0 \<le> cl_pos x" using assms(1-4) by (auto simp: kq_near_def)
  with is_masked_swa_far [OF _ _ assms(5,6)] True show ?thesis by (simp add: kq_value_def)
qed (simp add: kq_value_def)

lemma kq_store_in [simp]: "k < length data \<Longrightarrow> kq_store k v data = Some (data[k := v])"
  by (simp add: kq_store_def)

lemma kq_full_row_spec:
  assumes e: "\<forall>j<n. ent j = Some (v j)" and r: "\<not> alibi \<longrightarrow> (\<forall>j<n. rcd j = Some (r j))" and len: "idst + n \<le> length data"
  shows "\<exists>data'. kq_full_row alibi ent rcd n idst data idxs = Some (data', if alibi then idxs else idxs @ filter r [0..<n]) \<and>
    length data' = length data \<and>
    (\<forall>k<length data. data' ! k = (if idst \<le> k \<and> k < idst + n then v (k - idst) else data ! k))"
proof -
  let ?I = "\<lambda>m (d, l). l = (if alibi then idxs else idxs @ filter r [0..<m]) \<and> length d = length data \<and>
    (\<forall>k<length data. d ! k = (if idst \<le> k \<and> k < idst + m then v (k - idst) else data ! k))"
  have "\<exists>t. kq_full_row alibi ent rcd n idst data idxs = Some t \<and> ?I n t"
    unfolding kq_full_row_def
  proof (rule for_upto_rule)
    fix m t
    assume m: "m < n" and I: "?I m t"
    obtain d l where t: "t = (d, l)" by (cases t)
    have "idst + m < length d" using I t m len by simp
    then show "\<exists>t'. (case t of (data, idxs) \<Rightarrow> do {
         r \<leftarrow> (if alibi then Some False else rcd m);
         v \<leftarrow> ent m;
         data \<leftarrow> kq_store (idst + m) v data;
         Some (data, if r then idxs @ [m] else idxs) }) = Some t' \<and> ?I (Suc m) t'"
      using e r m I t by (auto simp: nth_list_update)
  qed auto
  then show ?thesis by auto
qed

lemma kq_copy_row_spec:
  assumes "src + n \<le> length data" and "dst + n \<le> length data"
  shows "\<exists>data'. kq_copy_row src dst n data = Some data' \<and> length data' = length data \<and>
    (\<forall>k<length data. data' ! k = (if dst \<le> k \<and> k < dst + n then data ! (src + (k - dst)) else data ! k))"
proof -
  let ?d = "take dst data @ take n (drop src data) @ drop (dst + n) data"
  have l: "length (take n (drop src data)) = n" "length (take dst data) = dst" using assms by simp_all
  have "?d ! k = (if dst \<le> k \<and> k < dst + n then data ! (src + (k - dst)) else data ! k)" if "k < length data" for k
    using assms that l by (auto simp: nth_append simp del: length_take)
  then show ?thesis using assms by (auto simp: kq_copy_row_def min_def)
qed

lemma kq_patch_row_spec:
  assumes e: "\<forall>j\<in>set idxs. ent j = Some (v j)" and i: "\<forall>j\<in>set idxs. j < n" and l: "length idxs \<le> n" and len: "idst + n \<le> length data"
  shows "\<exists>data'. kq_patch_row ent n idst idxs data = Some data' \<and> length data' = length data \<and>
    (\<forall>k<length data. data' ! k = (if idst \<le> k \<and> k - idst \<in> set idxs then v (k - idst) else data ! k))"
proof -
  let ?I = "\<lambda>ys d. length d = length data \<and>
    (\<forall>k<length data. d ! k = (if idst \<le> k \<and> k - idst \<in> set ys then v (k - idst) else data ! k))"
  have "\<exists>d. for_each (\<lambda>j data. do { v \<leftarrow> ent j; kq_store (idst + j) v data }) idxs data = Some d \<and> ?I idxs d"
  proof (rule for_each_rule)
    fix ys x zs d
    assume s: "idxs = ys @ x # zs" and I: "?I ys d"
    then have "idst + x < length d" "ent x = Some (v x)" using i e len by (auto simp: less_le_trans)
    then show "\<exists>d'. (do { v \<leftarrow> ent x; kq_store (idst + x) v d }) = Some d' \<and> ?I (ys @ [x]) d'"
      using I by (auto simp: nth_list_update)
  qed simp
  then show ?thesis using l by (simp add: kq_patch_row_def)
qed

text \<open>The loop over the tokens of a stream.\<close>

definition kq_rows_done :: "(nat \<Rightarrow> nat \<Rightarrow> mask_val) \<Rightarrow> nat \<Rightarrow> nat \<Rightarrow> mask_val list \<Rightarrow> bool" where
  "kq_rows_done v n m d \<longleftrightarrow> (\<forall>i<m. \<forall>j<n. d ! (n * i + j) = v i j)"

lemma row_index: "j < n \<Longrightarrow> i < m \<Longrightarrow> n * i + j < n * (m::nat)"
proof -
  assume "j < n" "i < m"
  then have "n * i + j < n * Suc i" by simp
  also have "\<dots> \<le> n * m" using \<open>i < m\<close> by (intro mult_le_mono2) simp
  finally show ?thesis .
qed

lemma kq_rows_done_Suc:
  assumes d: "kq_rows_done v n m d" and len: "n * Suc m \<le> length d" "length d' = length d"
    and up: "\<forall>k<length d. d' ! k = (if n * m \<le> k \<and> k < n * m + n then v m (k - n * m) else d ! k)"
  shows "kq_rows_done v n (Suc m) d'"
  unfolding kq_rows_done_def
proof (intro allI impI)
  fix i j
  assume i: "i < Suc m" and j: "j < n"
  have k: "n * i + j < length d" using row_index [OF j i] len(1) by simp
  show "d' ! (n * i + j) = v i j"
  proof (cases "i = m")
    case False
    then have "i < m" using i by simp
    then have "\<not> n * m \<le> n * i + j" using row_index [OF j] by (simp add: not_le)
    with up k d \<open>i < m\<close> j show ?thesis by (auto simp: kq_rows_done_def)
  qed (use up k j in simp)
qed

text \<open>The arguments that \<open>set_input_kq_mask\<close> passes on, and the invariant of its loops.\<close>

definition kq_args_of :: "nat \<Rightarrow> nat \<Rightarrow> llama_ubatch \<Rightarrow> llama_kv_cache \<Rightarrow> kq_args" where
  "kq_args_of n_kv n_stream ub kv =
     \<lparr>ka_ubatch = ub, ka_v_cells = kv_v_cells kv, ka_seq_to_stream = kv_seq_to_stream kv, ka_n_swa = kv_n_swa kv,
      ka_swa_type = kv_swa_type kv, ka_n_kv = n_kv, ka_n_stream = n_stream, ka_n_tps = ub_n_tokens ub div n_stream\<rparr>"

abbreviation tok_stream :: "llama_kv_cache \<Rightarrow> llama_seq_id \<Rightarrow> nat" where
  "tok_stream kv s \<equiv> kv_seq_to_stream kv ! nat s"

text \<open>
  The rows before \<open>i\<close> hold the values \<open>v\<close>, and every recorded row \<open>r\<close> is one of them, of the same
  sequence \<open>sq r\<close>, with the list of its near cells.
\<close>

definition kq_inv :: "bool \<Rightarrow> (nat \<Rightarrow> llama_seq_id) \<Rightarrow> (nat \<Rightarrow> nat \<Rightarrow> mask_val) \<Rightarrow> (llama_seq_id \<Rightarrow> nat \<Rightarrow> bool) \<Rightarrow> nat \<Rightarrow> nat \<Rightarrow> nat \<Rightarrow> kq_state \<Rightarrow> bool" where
  "kq_inv alibi sq v near n L i = (\<lambda>(data, srct, idxs). length data = L \<and> kq_rows_done v n i data \<and>
     (\<not> alibi \<longrightarrow> (\<forall>s r. srct s = Some r \<longrightarrow> r < i \<and> sq r = s \<and> idxs s = filter (near s) [0..<n])))"

lemma kq_reuse_row:
  assumes rows: "kq_rows_done v n i data" and r: "r < i" and L: "n * Suc i \<le> length data"
    and ent: "\<And>j. j < n \<Longrightarrow> ent j = Some (v i j)"
    and far: "\<And>j. j < n \<Longrightarrow> \<not> near j \<Longrightarrow> v r j = v i j"
  shows "\<exists>d1 d2. kq_copy_row (n * r) (n * i) n data = Some d1 \<and> kq_patch_row ent n (n * i) (filter near [0..<n]) d1 = Some d2 \<and>
    length d2 = length data \<and> kq_rows_done v n (Suc i) d2"
proof -
  have "n * Suc r \<le> n * i" using mult_le_mono2 [OF Suc_leI [OF r]] .
  then have rn: "n * r + n \<le> length data" "n * i + n \<le> length data" using L by auto
  from kq_copy_row_spec [OF rn] obtain d1 where d1: "kq_copy_row (n * r) (n * i) n data = Some d1" "length d1 = length data"
      "\<forall>k<length data. d1 ! k = (if n * i \<le> k \<and> k < n * i + n then data ! (n * r + (k - n * i)) else data ! k)" by blast
  let ?l = "filter near [0..<n]"
  have l: "length ?l \<le> n" using length_filter_le [of near "[0..<n]"] by simp
  have nl: "n * i + n \<le> length d1" using rn d1(2) by simp
  have e: "\<forall>j\<in>set ?l. ent j = Some (v i j)" "\<forall>j\<in>set ?l. j < n" using ent by auto
  from kq_patch_row_spec [OF e l nl] obtain d2 where d2: "kq_patch_row ent n (n * i) ?l d1 = Some d2" "length d2 = length d1"
      "\<forall>k<length d1. d2 ! k = (if n * i \<le> k \<and> k - n * i \<in> set ?l then v i (k - n * i) else d1 ! k)" by blast
  have "d2 ! k = (if n * i \<le> k \<and> k < n * i + n then v i (k - n * i) else data ! k)" if k: "k < length data" for k
  proof (cases "n * i \<le> k \<and> k < n * i + n")
    case True
    then have kn: "k - n * i < n" by auto
    then have "data ! (n * r + (k - n * i)) = v r (k - n * i)" using rows r unfolding kq_rows_done_def by blast
    then show ?thesis using True k d1 d2 far [of "k - n * i"] by auto
  qed (use k d1 d2 in auto)
  then have "kq_rows_done v n (Suc i) d2" using kq_rows_done_Suc [OF rows L] d1(2) d2(2) by simp
  with d1 d2 show ?thesis by auto
qed

lemma kq_row_spec:
  assumes L: "n * Suc i \<le> L" and I: "kq_inv alibi sq v near n L i st"
    and ent: "\<And>j. j < n \<Longrightarrow> ent j = Some (v i j)" and rcd: "\<And>j. j < n \<Longrightarrow> rcd j = Some (near (sq i) j)"
    and far: "\<And>r j. \<not> alibi \<Longrightarrow> r < i \<Longrightarrow> sq r = sq i \<Longrightarrow> j < n \<Longrightarrow> \<not> near (sq i) j \<Longrightarrow> v r j = v i j"
  shows "\<exists>st'. kq_row alibi ent rcd n (sq i) i st = Some st' \<and> kq_inv alibi sq v near n L (Suc i) st'"
proof -
  obtain data srct idxs where st: "st = (data, srct, idxs)" by (cases st)
  have len: "length data = L" and rows: "kq_rows_done v n i data"
    and bk: "\<not> alibi \<longrightarrow> (\<forall>s r. srct s = Some r \<longrightarrow> r < i \<and> sq r = s \<and> idxs s = filter (near s) [0..<n])"
    using I st by (auto simp: kq_inv_def)
  show ?thesis
  proof (cases "if alibi then None else srct (sq i)")
    case None
    let ?idxs = "if alibi then idxs (sq i) else []"
    have "n * i + n \<le> length data" using L len by simp
    with kq_full_row_spec [of n ent "v i" alibi rcd "near (sq i)" "n * i" data ?idxs] ent rcd obtain data' where
      d: "kq_full_row alibi ent rcd n (n * i) data ?idxs = Some (data', if alibi then ?idxs else ?idxs @ filter (near (sq i)) [0..<n])"
        "length data' = length data"
        "\<forall>k<length data. data' ! k = (if n * i \<le> k \<and> k < n * i + n then v i (k - n * i) else data ! k)" by blast
    have "kq_rows_done v n (Suc i) data'" using kq_rows_done_Suc [OF rows _ d(2,3)] L len by simp
    then show ?thesis
      using d(1,2) len bk None by (cases alibi) (auto simp: st kq_row_def kq_inv_def less_Suc_eq)
  next
    case (Some r)
    then have al: "\<not> alibi" and r: "srct (sq i) = Some r" by (auto split: if_splits)
    then have B: "r < i" "sq r = sq i" "idxs (sq i) = filter (near (sq i)) [0..<n]" using bk by auto
    from kq_reuse_row [where near = "near (sq i)", OF rows B(1) _ ent far [OF al B(1,2)]] L len obtain d1 d2 where
      "kq_copy_row (n * r) (n * i) n data = Some d1" "kq_patch_row ent n (n * i) (idxs (sq i)) d1 = Some d2"
      "length d2 = length data" "kq_rows_done v n (Suc i) d2" by (auto simp: B(3))
    then show ?thesis using al r len bk by (auto simp: st kq_row_def kq_inv_def less_Suc_eq)
  qed
qed


lemma kq_token_spec:
  assumes inv: "kv_inv kv" and tok: "kq_tokens_ok ub kv" and win: "kq_window_ok kv"
    and mn: "\<forall>i<ub_n_tokens ub. mn (tok_seq ub i) \<le> ub_pos ub ! i"
    and n: "n \<le> length (kc_pos (kv_v_cells kv ! 0))" and L: "n * ub_n_tokens ub \<le> L" and i: "i < ub_n_tokens ub"
    and near: "near = (\<lambda>s j. kq_near (kv_n_swa kv) (mn s) (stream_cells kv (tok_stream kv s) ! j) s)"
    and I: "kq_inv (hp_use_alibi (kv_hparams kv)) (tok_seq ub) (kq_expected causal ub kv) near n L i st"
  shows "\<exists>st'. kq_token causal (kv_swa_type kv \<noteq> LLAMA_SWA_TYPE_NONE) (is_pos_2d ub) (hp_use_alibi (kv_hparams kv))
    (kq_args_of n ns ub kv) mn i st = Some st' \<and> kq_inv (hp_use_alibi (kv_hparams kv)) (tok_seq ub) (kq_expected causal ub kv) near n L (Suc i) st'"
proof -
  let ?s = "tok_seq ub i" and ?al = "hp_use_alibi (kv_hparams kv)" and ?v = "kq_expected causal ub kv"
  have vs: "valid_seq kv ?s" and p: "0 \<le> ub_pos ub ! i" "ub_pos ub ! i \<le> INT32_MAX"
    and a: "i < length (ub_seq_id ub)" "ub_seq_id ub ! i \<noteq> []" "i < length (ub_pos ub)" using tok i by (auto simp: kq_tokens_ok_def)
  have 2: "i + ub_n_tokens ub * 2 < length (ub_pos ub) \<and> i + ub_n_tokens ub < length (ub_pos ub)" if "is_pos_2d ub"
    using tok i that by (auto simp: kq_tokens_ok_def)
  note S = valid_seq_stream [OF inv vs]
  define c where "c = kv_v_cells kv ! tok_stream kv ?s"
  note D = kv_invD [OF inv S(2), folded c_def]
  have nc: "j < length (kc_pos c)" if "j < n" for j using that n D(4) by simp
  have w: "kv_swa_type kv = LLAMA_SWA_TYPE_CHUNKED \<longrightarrow> kv_n_swa kv \<noteq> 0" "int (kv_n_swa kv) + 32 \<le> INT32_MAX"
    "\<forall>x\<in>set (cells_of c). cl_pos x + int (kv_n_swa kv) + 32 \<le> INT32_MAX"
    using win S(2) by (auto simp: kq_window_ok_def c_def)
  define ent where "ent = kq_entry causal (kv_swa_type kv \<noteq> LLAMA_SWA_TYPE_NONE) (is_pos_2d ub) ?al (kv_n_swa kv) (kv_swa_type kv) c ?s
    (ub_pos ub ! i) (tok_x ub i) (tok_y ub i)"
  define rcd where "rcd = kq_record (kv_n_swa kv) (mn ?s) c ?s"
  have ent: "ent j = Some (?v i j)" if "j < n" for j
    using kq_entry_spec [OF D(1) nc [OF that] S(3) p w(1,2)] by (simp add: ent_def kq_expected_def c_def)
  have rcd: "rcd j = Some (near ?s j)" if "j < n" for j
    using kq_record_spec [OF D(1) nc [OF that] S(3) w(2) w(3) [rule_format, OF cell_fields(5) [OF nc [OF that]]]]
    by (simp add: rcd_def near c_def)
  have far: "?v r j = ?v i j" if "\<not> ?al" "r < i" "tok_seq ub r = ?s" "j < n" "\<not> near ?s j" for r j
  proof -
    have "mn ?s \<le> ub_pos ub ! r" using mn that i by (metis less_trans)
    moreover have "?s \<in> cl_seq (cells_of c ! j) \<Longrightarrow> 0 \<le> cl_pos (cells_of c ! j)"
      using kv_cells_inv_wf [OF D(1) nc [OF that(4)]] by (force simp: cell_wf_def)
    ultimately have "kq_value causal (is_pos_2d ub) False (kv_n_swa kv) (kv_swa_type kv) (cells_of c ! j) ?s (ub_pos ub ! r) (tok_x ub r) (tok_y ub r) =
        kq_value causal (is_pos_2d ub) False (kv_n_swa kv) (kv_swa_type kv) (cells_of c ! j) ?s (ub_pos ub ! i) (tok_x ub i) (tok_y ub i)"
      by (intro kq_value_far [OF that(5) [unfolded near, folded c_def] _ mn [rule_format, OF i] _ w(2,1)])
    then show ?thesis using that(1,3) by (simp add: kq_expected_def c_def)
  qed
  have ni: "n * Suc i \<le> L" using mult_le_mono2 [OF Suc_leI [OF i], of n] L by simp
  have run: "kq_token causal (kv_swa_type kv \<noteq> LLAMA_SWA_TYPE_NONE) (is_pos_2d ub) ?al (kq_args_of n ns ub kv) mn i st =
    kq_row ?al ent rcd n ?s i st"
    using S a 2 D(2) vs unfolding valid_seq_def
    by (simp add: kq_token_def kq_args_of_def tok_seq_def ent_def rcd_def c_def tok_x_def tok_y_def Let_def cong: if_cong)
  show ?thesis unfolding run by (rule kq_row_spec [OF ni I ent rcd far])
qed

lemma kq_mask_spec:
  assumes inv: "kv_inv kv" and tok: "kq_tokens_ok ub kv" and win: "kq_window_ok kv"
    and n: "n \<le> length (kc_pos (kv_v_cells kv ! 0))" and L: "n * ub_n_tokens ub \<le> length data"
    and ns: "ns \<noteq> 0" "ub_n_tokens ub mod ns = 0"
  shows "\<exists>data'. set_input_kq_mask n ns ub causal kv data = Some data' \<and> length data' = length data \<and>
    kq_rows_done (kq_expected causal ub kv) n (ub_n_tokens ub) data'"
proof -
  let ?t = "ub_n_tokens ub div ns" and ?v = "kq_expected causal ub kv"
  have nt: "ns * ?t = ub_n_tokens ub" using ns by auto
  obtain mn where mn: "kq_seq_pos_min ub = Some mn" "\<forall>i<ub_n_tokens ub. mn (tok_seq ub i) \<le> ub_pos ub ! i"
    using kq_seq_pos_min_spec [OF inv tok] by blast
  define near where near: "near = (\<lambda>s j. kq_near (kv_n_swa kv) (mn s) (stream_cells kv (tok_stream kv s) ! j) s)"
  define tk where "tk = kq_token causal (kv_swa_type kv \<noteq> LLAMA_SWA_TYPE_NONE) (is_pos_2d ub) (hp_use_alibi (kv_hparams kv))
    (kq_args_of n ns ub kv) mn"
  define J where "J = kq_inv (hp_use_alibi (kv_hparams kv)) (tok_seq ub) ?v near n (length data)"
  have step: "\<exists>st'. tk i st = Some st' \<and> J (Suc i) st'" if "i < ub_n_tokens ub" "J i st" for i st
    using kq_token_spec [OF inv tok win mn(2) n L that(1) near, of causal st ns] that(2) by (simp add: tk_def J_def)
  have stream: "\<exists>d'. kq_stream causal (kv_swa_type kv \<noteq> LLAMA_SWA_TYPE_NONE) (is_pos_2d ub) (hp_use_alibi (kv_hparams kv))
      (kq_args_of n ns ub kv) mn s d = Some d' \<and> length d' = length data \<and> kq_rows_done ?v n (Suc s * ?t) d'"
    if s: "s < ns" and d: "length d = length data" "kq_rows_done ?v n (s * ?t) d" for s d
  proof -
    have "\<exists>st. for_each (\<lambda>ii. tk (s * ?t + ii)) [0..<?t] (d, \<lambda>_. None, \<lambda>_. []) = Some st \<and> J (s * ?t + ?t) st"
    proof (rule for_upto_rule [where I = "\<lambda>m. J (s * ?t + m)"])
      show "J (s * ?t + 0) (d, \<lambda>_. None, \<lambda>_. [])" using d by (simp add: J_def kq_inv_def)
      fix ii st
      assume "ii < ?t" and J: "J (s * ?t + ii) st"
      then have "s * ?t + ii < ub_n_tokens ub" using row_index [of ii ?t s ns] s nt by (simp add: mult.commute)
      then show "\<exists>st'. tk (s * ?t + ii) st = Some st' \<and> J (s * ?t + Suc ii) st'" using step J by simp
    qed
    then show ?thesis
      by (auto simp: kq_stream_def kq_args_of_def tk_def J_def kq_inv_def add.commute)
  qed
  have "\<exists>d'. for_each (kq_stream causal (kv_swa_type kv \<noteq> LLAMA_SWA_TYPE_NONE) (is_pos_2d ub) (hp_use_alibi (kv_hparams kv))
      (kq_args_of n ns ub kv) mn) [0..<ns] data = Some d' \<and> (length d' = length data \<and> kq_rows_done ?v n (ns * ?t) d')"
    by (rule for_upto_rule [where I = "\<lambda>s d'. length d' = length data \<and> kq_rows_done ?v n (s * ?t) d'"])
      (use stream in \<open>auto simp: kq_rows_done_def\<close>)
  then show ?thesis
    using ns mn(1) nt
    by (simp add: set_input_kq_mask_def set_input_kq_mask_dispatch_def set_input_kq_mask_impl_def kq_args_of_def Let_def)
qed

section \<open>Properties\<close>

text \<open>
  C8: The optimised mask is the naive mask: \<open>set_input_kq_mask\<close> returns, and the entry of every
  token and cell is the one that the rules of the mask give for the content of the cell, although
  the rows of later tokens of a sequence are copied from the first and patched; the window
  arithmetic must not overflow (\<open>kq_window_ok\<close>).
\<close>

theorem kq_mask_correct:
  assumes "kv_inv kv" and "kq_tokens_ok ub kv" and "kq_window_ok kv"
    and "n_kv \<le> length (kc_pos (kv_v_cells kv ! 0))" and "n_kv * ub_n_tokens ub \<le> length data"
    and "n_stream \<noteq> 0" and "ub_n_tokens ub mod n_stream = 0"
  shows "\<exists>data'. set_input_kq_mask n_kv n_stream ub causal kv data = Some data' \<and> length data' = length data \<and>
    (\<forall>i<ub_n_tokens ub. \<forall>j<n_kv. data' ! (n_kv * i + j) = kq_expected causal ub kv i j)"
  using kq_mask_spec [OF assms] by (auto simp: kq_rows_done_def)

theorem kq_mask_correct_witness:
  "\<exists>data'. set_input_kq_mask 4 1 ex_ub True ex_kv (replicate 4 NegInf) = Some data' \<and>
     data' ! 0 = Num 0 \<and> data' ! 1 = Num 0 \<and> data' ! 2 = NegInf \<and> data' ! 3 = NegInf"
proof -
  have ok: "kq_tokens_ok ex_ub ex_kv" "kq_window_ok ex_kv"
    using ex_valid by (auto simp: kq_tokens_ok_def kq_window_ok_def tok_seq_def ex_ub_def is_pos_2d_def ex_facts ex_kv_swa
        ex_cells_eval empty_cell_def INT32_MAX_def)
  have n: "4 \<le> length (kc_pos (kv_v_cells ex_kv ! 0))" "ub_n_tokens ex_ub = 1"
    using arg_cong [OF ex_kv_inv(4), of length] by (simp_all add: ex_cells_eval ex_ub_def)
  from kq_mask_correct [OF ex_kv_inv(1) ok n(1), of "replicate 4 NegInf" 1 True] n(2) obtain data' where
    r: "set_input_kq_mask 4 1 ex_ub True ex_kv (replicate 4 NegInf) = Some data'"
      "\<forall>j<4. data' ! j = kq_expected True ex_ub ex_kv 0 j" by auto
  have "kq_expected True ex_ub ex_kv 0 0 = Num 0" "kq_expected True ex_ub ex_kv 0 1 = Num 0"
    "kq_expected True ex_ub ex_kv 0 2 = NegInf" "kq_expected True ex_ub ex_kv 0 3 = NegInf"
    by (simp_all add: kq_expected_def kq_value_def tok_seq_def ex_ub_def is_pos_2d_def ex_facts ex_kv_swa ex_cells_eval
        empty_cell_def is_masked_swa_def ex_hp_def)
  with r show ?thesis by auto
qed

end
