(* ===== verification/KV_Batch.thy ===== *)
theory KV_Batch
  imports KV_Mask
begin

text \<open>
  The batch allocator and the KV cache together: the way of a batch from
  \<open>llama_batch_allocr::init\<close> (with the cache as the memory module that \<open>init\<close> queries) through
  \<open>llama_kv_cache::init_batch\<close> to slots that can be applied.
\<close>

text \<open>The memory interface that \<open>init\<close> queries, answered by the cache.\<close>

definition kv_memory :: "llama_kv_cache \<Rightarrow> llama_memory" where
  "kv_memory kv = \<lparr>mem_seq_pos_min = (\<lambda>s. the (kv_seq_pos_min s kv)), mem_seq_pos_max = (\<lambda>s. the (kv_seq_pos_max s kv))\<rparr>"

text \<open>What the cells need of a sanitised batch: positions below the limit, no token twice in a sequence.\<close>

definition tokens_placeable :: "llama_batch \<Rightarrow> bool" where
  "tokens_placeable b \<longleftrightarrow> (\<forall>i<nat (b_n_tokens b). 0 \<le> the (b_pos b) ! i \<and> the (b_pos b) ! i < INT32_MAX \<and> distinct (tok_ids b i))"

lemma ubatch_of_token:
  assumes wf: "batch_wf ba" and ub: "ubatch_of ba idxs ub" and one: "ba_n_pos_per_embd ba = 1"
    and k: "k < length idxs" and i: "idxs ! k < get_n_tokens ba"
  shows "k < length (ub_pos ub)" "ub_pos ub ! k = the (b_pos (ba_batch ba)) ! (idxs ! k)"
    "k < length (ub_n_seq_id ub)" "k < length (ub_seq_id ub)" "ub_n_tokens ub = length idxs"
    "tok_seqs ub k = tok_ids (ba_batch ba) (idxs ! k)" "1 \<le> ub_n_seq_id ub ! k"
    "nat (ub_n_seq_id ub ! k) \<le> length (ub_seq_id ub ! k)"
    "tok_ids (ba_batch ba) (idxs ! k) \<noteq> []"
proof -
  let ?b = "ba_batch ba"
  obtain s ids where ids: "tok_seq_ids (idxs ! k) ?b = Some (s # ids)" using wf i unfolding batch_wf_def Let_def by blast
  then have t: "tok_ids ?b (idxs ! k) = s # ids" by (simp add: tok_ids_def)
  obtain ns where ns: "b_n_seq_id ?b = Some ns" "get_n_tokens ba \<le> length ns" using wf unfolding batch_wf_def Let_def by blast
  have n: "nat (ns ! (idxs ! k)) = length (s # ids)"
    using ids ns i by (auto simp: tok_seq_ids_def split: Option.bind_splits if_splits dest!: arg_cong [where f = length])
  have f: "ub_n_tokens ub = length idxs" "ub_seq_id ub = map (tok_ids ?b) idxs" "ub_n_seq_id ub = map ((!) ns) idxs"
    "ub_pos ub = map (\<lambda>i. the (b_pos ?b) ! i) idxs"
    using ub one by (simp_all add: ubatch_of_def Let_def ns)
  then show "k < length (ub_pos ub)" "ub_pos ub ! k = the (b_pos ?b) ! (idxs ! k)"
    "k < length (ub_n_seq_id ub)" "k < length (ub_seq_id ub)" "ub_n_tokens ub = length idxs" "tok_ids ?b (idxs ! k) \<noteq> []"
    using k t by simp_all
  show "tok_seqs ub k = tok_ids ?b (idxs ! k)" "1 \<le> ub_n_seq_id ub ! k" "nat (ub_n_seq_id ub ! k) \<le> length (ub_seq_id ub ! k)"
    using f k t n by (auto simp: tok_seqs_def)
qed

lemma ubatch_placeable:
  assumes wf: "batch_wf ba" and ub: "ubatch_of ba idxs ub" and one: "ba_n_pos_per_embd ba = 1"
    and idxs: "idxs \<noteq> []" "\<forall>i\<in>set idxs. i < get_n_tokens ba"
    and pl: "tokens_placeable (ba_batch ba)"
    and rng: "\<forall>i<get_n_tokens ba. \<forall>s\<in>set (tok_ids (ba_batch ba) i). 0 \<le> s \<and> s < int (ba_n_seq_max ba)" and mx: "ba_n_seq_max ba \<le> max_seq"
    and kv: "kv_inv kv" "kv_n_stream kv = 1"
  shows "placeable kv ub"
proof -
  let ?b = "ba_batch ba"
  have T: "k < length (ub_pos ub) \<and> ub_pos ub ! k = the (b_pos ?b) ! (idxs ! k) \<and> k < length (ub_n_seq_id ub) \<and> k < length (ub_seq_id ub) \<and>
      tok_seqs ub k = tok_ids ?b (idxs ! k) \<and> 1 \<le> ub_n_seq_id ub ! k \<and> nat (ub_n_seq_id ub ! k) \<le> length (ub_seq_id ub ! k) \<and>
      tok_ids ?b (idxs ! k) \<noteq> [] \<and> idxs ! k < get_n_tokens ba"
    if "k < length idxs" for k
    using ubatch_of_token [OF wf ub one that] idxs(2) that by auto
  have n: "ub_n_tokens ub = length idxs" "ub_n_pos ub = 1" using ub one by (simp_all add: ubatch_of_def Let_def)
  have len: "length (kv_seq_to_stream kv) = 256" using kv by (simp add: kv_inv_def LLAMA_MAX_SEQ_def)
  have vs: "valid_seq kv s \<and> bitset_idx s" if "s \<in> set (tok_ids ?b i)" "i < get_n_tokens ba" for s i
  proof -
    have "0 \<le> s" "s < 256" using rng mx that by (fastforce simp: max_seq_def LLAMA_MAX_SEQ_def)+
    then show ?thesis using len by (simp add: valid_seq_def bitset_idx_def LLAMA_MAX_SEQ_def nat_less_iff)
  qed
  have wfu: "ub_wf ub"
    unfolding ub_wf_def is_pos_2d_def n
  proof (intro conjI allI impI)
    fix k
    assume k: "k < length idxs"
    note T [OF k]
    moreover have "0 \<le> the (b_pos ?b) ! (idxs ! k) \<and> the (b_pos ?b) ! (idxs ! k) < INT32_MAX \<and> distinct (tok_ids ?b (idxs ! k))"
      using pl T [OF k] by (simp add: tokens_placeable_def get_n_tokens_def)
    ultimately show "k < length (ub_pos ub)" "0 \<le> ub_pos ub ! k" "ub_pos ub ! k < INT32_MAX" "k < length (ub_n_seq_id ub)"
      "k < length (ub_seq_id ub)" "1 \<le> ub_n_seq_id ub ! k" "nat (ub_n_seq_id ub ! k) \<le> length (ub_seq_id ub ! k)"
      "distinct (tok_seqs ub k)" "\<forall>s\<in>set (tok_seqs ub k). bitset_idx s"
      using vs by auto
  qed simp
  have "tok_ids ?b (hd idxs) \<noteq> []" "hd idxs < get_n_tokens ba" using T [of 0] idxs(1) by (simp_all add: hd_conv_nth)
  then obtain s where s: "s \<in> set (tok_ids ?b (hd idxs))" by (cases "tok_ids ?b (hd idxs)") auto
  have unq: "ub_seq_id_unq ub = map int (filter (\<lambda>s. \<exists>i\<in>set idxs. int s \<in> set (tok_ids ?b i)) [0..<ba_n_seq_max ba])"
    using ub by (simp add: ubatch_of_def Let_def)
  have "nat s \<in> set (filter (\<lambda>s. \<exists>i\<in>set idxs. int s \<in> set (tok_ids ?b i)) [0..<ba_n_seq_max ba])"
    using s rng \<open>hd idxs < get_n_tokens ba\<close> idxs(1) by (fastforce intro: hd_in_set)
  from length_pos_if_in_set [OF this] have ne: "ub_seq_id_unq ub \<noteq> []"
    unfolding unq length_greater_0_conv map_is_Nil_conv .
  then have "ub_seq_id_unq ub ! 0 \<in> set (ub_seq_id_unq ub)" by (simp add: nth_mem)
  then obtain i where "i \<in> set idxs" "ub_seq_id_unq ub ! 0 \<in> set (tok_ids ?b i)" unfolding unq by auto
  then have v0: "valid_seq kv (ub_seq_id_unq ub ! 0)" using vs idxs(2) by auto
  have "ubatch_fits kv ub" using kv(2) n idxs(1) ne v0 by (simp add: ubatch_fits_def ub_seqs_def ub_per_seq_def)
  with wfu show ?thesis using kv(2) n T vs by (auto simp: placeable_def ub_seqs_def)
qed

lemma split_reset_init:
  assumes "ba_init batch n_vocab mem n_embd n_seq_max output_all ba0 = Some (True, ba)"
  shows "split_reset ba = ba"
  using ba_init_result(2,22,23,24) [OF assms] by (simp add: split_reset_def)

lemma init_batch_unified:
  assumes init: "ba_init batch n_vocab mem n_embd n_seq_max output_all (batch_allocr_new 1) = Some (True, ba)"
    and inp: "input_ok batch n_embd 1" and pos: "0 < n_seq_max" and pl: "tokens_placeable (ba_batch ba)"
    and kv: "kv_inv kv" "kv_n_stream kv = 1" "kv_pos_ok kv" "kv_swa_type kv = LLAMA_SWA_TYPE_NONE"
  shows "\<exists>cx ba' kv'. init_batch n_ubatch ba kv = Some (cx, ba', kv') \<and> kv_inv kv' \<and> cells_eq kv kv' \<and>
    (cx_status cx = LLAMA_MEMORY_STATUS_SUCCESS \<and> ba_n_used ba' = nat (b_n_tokens batch) \<and>
       sum_list (map ub_n_tokens (cx_ubatches cx)) = nat (b_n_tokens batch) \<and>
       (\<exists>ky. apply_all (cx_sinfos cx) (cx_ubatches cx) kv' = Some ky \<and> kv_inv ky) \<or>
     cx_status cx = LLAMA_MEMORY_STATUS_FAILED_PREPARE \<and> card (slots_of kv 0) < nat (b_n_tokens batch))"
proof -
  let ?n = "nat (b_n_tokens batch)"
  have p1: "ba_n_pos_per_embd (batch_allocr_new 1) = 1" by (simp add: batch_allocr_new_def)
  have inp': "input_ok batch n_embd (ba_n_pos_per_embd (batch_allocr_new 1))" using inp p1 by simp
  note R = init_ready [OF init inp'] and I = ba_init_result [OF init]
  have c: "card (unused ba) < Suc ?n" using R(5) by simp
  obtain idxss ubs ba' where col: "collect_ubatches (Suc ?n) (split_simple n_ubatch) ba = Some (ubs, ba')"
      "length idxss = length ubs"
      "\<forall>k<length ubs. ub_n_tokens (ubs ! k) = length (idxss ! k) \<and> idxss ! k \<noteq> [] \<and> ubatch_of ba (idxss ! k) (ubs ! k)"
      "distinct (concat idxss)" "set (concat idxss) = unused ba" "ba_n_used ba' = ba_n_used ba + card (unused ba)" "get_n_tokens ba' = get_n_tokens ba"
    using simple.collect_all [OF R(2) c] by blast
  have used: "ba_n_used ba' = ?n" using col(6) R(5) I(23) by simp
  have idx: "\<forall>i\<in>set (concat idxss). i < ?n" using col(5) R(5) by auto
  have plc: "placeable kv ub" if "ub \<in> set ubs" for ub
  proof -
    from that obtain k where k: "k < length ubs" "ub = ubs ! k" by (auto simp: in_set_conv_nth)
    have sub: "set (idxss ! k) \<subseteq> set (concat idxss)" unfolding set_concat by (rule UN_upper) (simp add: k col(2))
    show ?thesis
      using ubatch_placeable [of ba "idxss ! k" ub kv] R(1) p1 col(3) k I(2,4,17,19) sub idx pl kv
        tok_ids_range [OF init pos] by auto
  qed
  have sum: "sum_list (map ub_n_tokens ubs) = ?n"
  proof -
    have "map ub_n_tokens ubs = map length idxss" using col(2,3) by (intro nth_equalityI) auto
    then have "sum_list (map ub_n_tokens ubs) = length (concat idxss)" by (simp add: length_concat)
    also have "\<dots> = card (unused ba)" using distinct_card [OF col(4)] col(5) by simp
    finally show ?thesis using R(5) by simp
  qed
  then have ne: "ubs \<noteq> []" using I(3) by auto
  obtain sis kv' where pr: "prepare ubs kv = Some (sis, kv')" "kv_inv kv'" "cells_eq kv kv'"
      "sis \<noteq> [] \<longrightarrow> length sis = length ubs \<and> (\<exists>ky. apply_all sis ubs kv' = Some ky \<and> kv_inv ky)"
      "sum_list (map ub_n_tokens ubs) \<le> card (slots_of kv 0) \<longrightarrow> sis \<noteq> []"
    using prepare_spec [OF kv(1,3) homed_unified [OF kv(1,2)] kv(4) _ ne] plc kv(2) by blast
  have gn: "get_n_tokens ba' = ?n"
    using col(7) I(2) by simp
  have "init_batch n_ubatch ba kv = Some (if sis = [] then context_fail LLAMA_MEMORY_STATUS_FAILED_PREPARE
      else (context_fail LLAMA_MEMORY_STATUS_SUCCESS)\<lparr>cx_sinfos := sis, cx_ubatches := ubs\<rparr>, ba', kv')"
    using pr(1) used gn col(1) I(2) kv(2)
    by (simp add: init_batch_def split_reset_init [OF init] Let_def del: collect_ubatches.simps)
  then show ?thesis using pr sum used by (cases "sis = []") (auto simp: context_fail_def not_le)
qed

lemma batch_continues_cache:
  assumes init: "ba_init batch n_vocab (Some (kv_memory kv)) n_embd n_seq_max output_all (batch_allocr_new 1) = Some (True, ba)"
    and pos: "0 < n_seq_max" and kv: "kv_inv kv" "kv_n_stream kv = 1"
    and i: "i < nat (b_n_tokens batch)" and s: "s \<in> set (tok_ids (ba_batch ba) i)" and ne: "seq_view kv s \<noteq> {}"
  shows "ba_seq_pos_min s ba = Max (snd ` seq_view kv s) + 1"
proof -
  note R = ba_init_result [OF init]
  have rng: "0 \<le> s" "s < int n_seq_max" using tok_ids_range [OF init pos i s] by auto
  then have v: "valid_seq kv s"
    using kv R(4) by (auto simp: valid_seq_def kv_inv_def max_seq_def LLAMA_MAX_SEQ_def nat_less_iff)
  from kv_seq_pos_spec(2) [OF kv(1) v] ne have mx: "mem_seq_pos_max (kv_memory kv) s = Max (snd ` seq_view kv s)"
    by (simp add: kv_memory_def)
  have e: "snd ` seq_view kv s = seq_positions (stream_cells kv (tok_stream kv s)) s"
    by (simp add: seq_positions_view seq_view_def)
  have "Max (snd ` seq_view kv s) \<in> snd ` seq_view kv s" using ne by (intro Max_in) (simp add: e, simp)
  then obtain x where x: "x \<in> set (stream_cells kv (tok_stream kv s))" "s \<in> cl_seq x" "Max (snd ` seq_view kv s) = cl_pos x"
    unfolding e by (auto simp: seq_positions_def)
  then have "cell_wf x"
    using kv_cells_inv_wf [OF kv_invD(1) [OF kv(1) valid_seq_stream(2) [OF kv(1) v]]] by (auto simp: in_set_conv_nth)
  then have "0 \<le> Max (snd ` seq_view kv s)" using x by (auto simp: cell_wf_def)
  moreover have "the (b_pos (ba_batch ba)) ! i \<in> ba_seq_pos ba s" using R(12) i s by auto
  then have "ba_seq_pos ba s \<noteq> {}" by auto
  ultimately show ?thesis
    using init_contiguous(2) [OF init _ rng _ refl] mx by (simp add: batch_allocr_new_def)
qed

section \<open>Properties\<close>

text \<open>
  C0: From an accepted batch to slots, in the unified cache without a sliding window: \<open>init_batch\<close>
  returns and leaves all cells as they were; either the context it returns holds ubatches with
  all tokens of the batch and slots that can be applied one after the other, or the cache has
  fewer free cells than the batch has tokens.  The tokens of each sequence start right after the
  last position that the cache holds for it.
\<close>

theorem accepted_batch_gets_slots:
  assumes "ba_init batch n_vocab (Some (kv_memory kv)) n_embd n_seq_max output_all (batch_allocr_new 1) = Some (True, ba)"
    and "input_ok batch n_embd 1" and "0 < n_seq_max" and "tokens_placeable (ba_batch ba)"
    and "kv_inv kv" and "kv_n_stream kv = 1" and "kv_pos_ok kv" and "kv_swa_type kv = LLAMA_SWA_TYPE_NONE"
  shows "(\<exists>cx ba' kv'. init_batch n_ubatch ba kv = Some (cx, ba', kv') \<and> kv_inv kv' \<and> cells_eq kv kv' \<and>
    (cx_status cx = LLAMA_MEMORY_STATUS_SUCCESS \<and> ba_n_used ba' = nat (b_n_tokens batch) \<and>
       sum_list (map ub_n_tokens (cx_ubatches cx)) = nat (b_n_tokens batch) \<and>
       (\<exists>ky. apply_all (cx_sinfos cx) (cx_ubatches cx) kv' = Some ky \<and> kv_inv ky) \<or>
     cx_status cx = LLAMA_MEMORY_STATUS_FAILED_PREPARE \<and> card (slots_of kv 0) < nat (b_n_tokens batch))) \<and>
    (\<forall>i<nat (b_n_tokens batch). \<forall>s\<in>set (tok_ids (ba_batch ba) i).
       seq_view kv s \<noteq> {} \<longrightarrow> ba_seq_pos_min s ba = Max (snd ` seq_view kv s) + 1)"
  using init_batch_unified [OF assms] batch_continues_cache [OF assms(1,3,5,6)] by blast

theorem accepted_batch_gets_slots_witness:
  "\<exists>ba cx ba' kv'. ba_init (llama_batch_get_one [7] 1) 10 (Some (kv_memory ex_kv)) 4 2 False (batch_allocr_new 1) = Some (True, ba) \<and>
     init_batch 1 ba ex_kv = Some (cx, ba', kv') \<and> cx_status cx = LLAMA_MEMORY_STATUS_SUCCESS \<and> kv_inv kv'"
proof -
  have "mem_seq_pos_max (kv_memory ex_kv) 0 = 1"
    using kv_seq_pos_spec(2) [OF ex_kv_inv(1), of 0] by (simp add: kv_memory_def ex_facts)
  then have "start_pos 2 (Some (kv_memory ex_kv)) 0 = Some 2" by (simp add: start_pos_def i32_ok_def)
  from batch_get_one_init [OF _ _ _ _ this, of "[7]" 10 4] obtain ba where
    ba: "ba_init (llama_batch_get_one [7] 1) 10 (Some (kv_memory ex_kv)) 4 2 False (batch_allocr_new 1) = Some (True, ba)"
      "b_pos (ba_batch ba) = Some [2]"
    by (auto simp: max_seq_def LLAMA_MAX_SEQ_def i32_ok_def)
  note I = ba_init_result [OF ba(1)]
  have "tok_ids (ba_batch ba) 0 = [0]"
    using I(7,8) by (simp add: tok_ids_def tok_seq_ids_def llama_batch_get_one_def null_batch_def at_def)
  then have pl: "tokens_placeable (ba_batch ba)"
    using I(1) ba(2) by (simp add: tokens_placeable_def llama_batch_get_one_def null_batch_def INT32_MAX_def)
  have inp: "input_ok (llama_batch_get_one [7] 1) 4 1" by (simp add: input_ok_def llama_batch_get_one_def null_batch_def)
  have "card (slots_of ex_kv 0) = 2" "nat (b_n_tokens (llama_batch_get_one [7] 1)) = 1"
    by (simp_all add: ex_slots llama_batch_get_one_def null_batch_def)
  with accepted_batch_gets_slots [OF ba(1) inp _ pl ex_kv_inv(1,2) ex_pos_ok(1) ex_kv_swa(1), of 1] ba(1) show ?thesis by auto
qed

end
