(* ===== verification/Grammar.thy ===== *)
theory Grammar
  imports Prelude
begin

text \<open>
  Grammar-constrained sampling: \<open>src/src/llama-grammar.cpp\<close> and \<open>src/src/llama-grammar.h\<close>,
  without the parser of grammar texts.

  A grammar is a vector of rules; a rule is a vector of elements that ends with an \<open>END\<close>
  element and whose alternates are separated by \<open>ALT\<close> elements.  A pointer to an element is
  a pair of a rule index and an element index.  A stack is a list of pointers whose head is
  the top, \<open>stack.back()\<close> of the code.  \<open>None\<close> is an abort, an access out of range, or
  (for the recursive functions, which are \<open>partial_function\<close>s) a computation that does not
  return.  \<open>uint32_t\<close> values are non-negative \<open>int\<close>s, with the wrap-around written out.
\<close>

section \<open>Data\<close>

datatype llama_gretype =
  LLAMA_GRETYPE_END | LLAMA_GRETYPE_ALT | LLAMA_GRETYPE_RULE_REF | LLAMA_GRETYPE_CHAR | LLAMA_GRETYPE_CHAR_NOT
| LLAMA_GRETYPE_CHAR_RNG_UPPER | LLAMA_GRETYPE_CHAR_ALT | LLAMA_GRETYPE_CHAR_ANY | LLAMA_GRETYPE_TOKEN | LLAMA_GRETYPE_TOKEN_NOT

record llama_grammar_element =
  ge_type :: llama_gretype
  ge_value :: int

record llama_partial_utf8 =
  pu_value :: int
  pu_n_remain :: int

type_synonym llama_grammar_rule = "llama_grammar_element list"
type_synonym llama_grammar_rules = "llama_grammar_rule list"
type_synonym gpos = "nat \<times> nat"
type_synonym llama_grammar_stack = "gpos list"
type_synonym llama_grammar_stacks = "llama_grammar_stack list"

text \<open>\<open>code_points\<close> is a pointer into the decoded text: the text and an offset.\<close>

record llama_grammar_candidate =
  gc_index :: nat
  gc_code_points :: "int list"
  gc_off :: nat
  gc_partial_utf8 :: llama_partial_utf8
  gc_id :: llama_token

type_synonym llama_grammar_candidates = "llama_grammar_candidate list"

definition elem_at :: "llama_grammar_rules \<Rightarrow> gpos \<Rightarrow> llama_grammar_element option" where
  "elem_at rules = (\<lambda>(r, i). do { rule \<leftarrow> at rules r; at rule i })"

definition next_pos :: "gpos \<Rightarrow> gpos" where
  "next_pos = (\<lambda>(r, i). (r, i + 1))"

section \<open>Matching\<close>

definition is_char_element :: "llama_grammar_element \<Rightarrow> bool" where
  "is_char_element e \<longleftrightarrow> ge_type e \<in> {LLAMA_GRETYPE_CHAR, LLAMA_GRETYPE_CHAR_NOT, LLAMA_GRETYPE_CHAR_ALT,
     LLAMA_GRETYPE_CHAR_RNG_UPPER, LLAMA_GRETYPE_CHAR_ANY}"

definition llama_grammar_is_end_of_sequence :: "llama_grammar_element \<Rightarrow> bool" where
  "llama_grammar_is_end_of_sequence e =
     (case ge_type e of LLAMA_GRETYPE_END \<Rightarrow> True | LLAMA_GRETYPE_ALT \<Rightarrow> True | _ \<Rightarrow> False)"

definition is_positive_char :: "llama_grammar_element \<Rightarrow> bool" where
  "is_positive_char e \<longleftrightarrow> ge_type e = LLAMA_GRETYPE_CHAR \<or> ge_type e = LLAMA_GRETYPE_CHAR_ANY"

text \<open>
  The \<open>do ... while\<close> loop over a char range: \<open>pos\<close> is the list of elements from the pointer
  on, \<open>n\<close> how far the pointer has moved.
\<close>

fun match_char_loop :: "llama_grammar_element list \<Rightarrow> int \<Rightarrow> bool \<Rightarrow> nat \<Rightarrow> (bool \<times> nat) option" where
  "match_char_loop (e0 # e1 # es) chr found n =
     (if ge_type e1 = LLAMA_GRETYPE_CHAR_RNG_UPPER then
        (let found = (found \<or> (ge_value e0 \<le> chr \<and> chr \<le> ge_value e1)) in
         case es of [] \<Rightarrow> None
         | e2 # _ \<Rightarrow> if ge_type e2 = LLAMA_GRETYPE_CHAR_ALT then match_char_loop es chr found (n + 2) else Some (found, n + 2))
      else
        (let found = (if ge_type e0 = LLAMA_GRETYPE_CHAR_ANY then True else found \<or> ge_value e0 = chr) in
         if ge_type e1 = LLAMA_GRETYPE_CHAR_ALT then match_char_loop (e1 # es) chr found (n + 1) else Some (found, n + 1)))"
| "match_char_loop _ chr found n = None"

definition llama_grammar_match_char :: "llama_grammar_rules \<Rightarrow> gpos \<Rightarrow> int \<Rightarrow> (bool \<times> gpos) option" where
  "llama_grammar_match_char rules = (\<lambda>(r, i) chr. do {
     e \<leftarrow> elem_at rules (r, i);
     ggml_assert (is_positive_char e \<or> ge_type e = LLAMA_GRETYPE_CHAR_NOT);
     (found, n) \<leftarrow> match_char_loop (drop i (rules ! r)) chr False 0;
     Some (found = is_positive_char e, (r, i + n)) })"

text \<open>The loop of \<open>llama_grammar_match_partial_char\<close>.\<close>

fun match_partial_loop :: "bool \<Rightarrow> llama_grammar_element list \<Rightarrow> int \<Rightarrow> int \<Rightarrow> bool option" where
  "match_partial_loop positive (e0 # e1 # es) low high =
     (if ge_type e1 = LLAMA_GRETYPE_CHAR_RNG_UPPER then
        (if ge_value e0 \<le> high \<and> low \<le> ge_value e1 then Some positive
         else case es of [] \<Rightarrow> None
         | e2 # _ \<Rightarrow> if ge_type e2 = LLAMA_GRETYPE_CHAR_ALT then match_partial_loop positive es low high else Some (\<not> positive))
      else if ge_type e0 = LLAMA_GRETYPE_CHAR_ANY then Some True
      else if low \<le> ge_value e0 \<and> ge_value e0 \<le> high then Some positive
      else if ge_type e1 = LLAMA_GRETYPE_CHAR_ALT then match_partial_loop positive (e1 # es) low high
      else Some (\<not> positive))"
| "match_partial_loop positive _ low high = None"

text \<open>\<open>low\<close> and \<open>high\<close>: the range of code points that the partial sequence can complete to.\<close>

definition partial_range :: "llama_partial_utf8 \<Rightarrow> int \<times> int" where
  "partial_range pu =
     (let k = nat (pu_n_remain pu) * 6;
          low = pu_value pu * 2 ^ k mod 4294967296;
          high = low OR (2 ^ k - 1);
          low = (if low = 0 then (if pu_n_remain pu = 2 then 2 ^ 11 else if pu_n_remain pu = 3 then 2 ^ 16 else low) else low)
      in (low, high))"

definition llama_grammar_match_partial_char :: "llama_grammar_rules \<Rightarrow> gpos \<Rightarrow> llama_partial_utf8 \<Rightarrow> bool option" where
  "llama_grammar_match_partial_char rules = (\<lambda>(r, i) pu. do {
     e \<leftarrow> elem_at rules (r, i);
     ggml_assert (is_positive_char e \<or> ge_type e = LLAMA_GRETYPE_CHAR_NOT);
     if pu_n_remain pu < 0 \<or> (pu_n_remain pu = 1 \<and> pu_value pu < 2) then Some False
     else case partial_range pu of (low, high) \<Rightarrow> match_partial_loop (is_positive_char e) (drop i (rules ! r)) low high })"

definition is_token_element :: "llama_grammar_element \<Rightarrow> bool" where
  "is_token_element e \<longleftrightarrow> ge_type e = LLAMA_GRETYPE_TOKEN \<or> ge_type e = LLAMA_GRETYPE_TOKEN_NOT"

definition llama_grammar_match_token :: "llama_grammar_rules \<Rightarrow> gpos \<Rightarrow> llama_token \<Rightarrow> bool option" where
  "llama_grammar_match_token rules pos token = do {
     e \<leftarrow> elem_at rules pos;
     ggml_assert (is_token_element e);
     if ge_type e = LLAMA_GRETYPE_TOKEN then Some (ge_value e = token mod 4294967296)
     else Some (ge_value e \<noteq> token mod 4294967296) }"

section \<open>Stacks\<close>

text \<open>Add the stack if it is not a duplicate of one we already have.\<close>

definition add_stack :: "llama_grammar_stack \<Rightarrow> llama_grammar_stacks \<Rightarrow> llama_grammar_stacks" where
  "add_stack stack new_stacks = (if stack \<in> set new_stacks then new_stacks else new_stacks @ [stack])"

text \<open>Push a pointer unless it is at the end of an alternate.\<close>

definition push_pos :: "llama_grammar_rules \<Rightarrow> gpos \<Rightarrow> llama_grammar_stack \<Rightarrow> llama_grammar_stack option" where
  "push_pos rules pos stack = do {
     e \<leftarrow> elem_at rules pos;
     Some (if llama_grammar_is_end_of_sequence e then stack else pos # stack) }"

text \<open>
  The scan over a rule: where its alternates start.  The code interleaves the scan with the
  work on each alternate; the rules are constant, so the positions are the same.
\<close>

fun alt_starts :: "nat \<Rightarrow> nat \<Rightarrow> llama_grammar_rule \<Rightarrow> nat list option" where
  "alt_starts start i [] = None"
| "alt_starts start i (e # es) =
     (if ge_type e = LLAMA_GRETYPE_END then Some [start]
      else if ge_type e = LLAMA_GRETYPE_ALT then do { ss \<leftarrow> alt_starts (i + 1) (i + 1) es; Some (start # ss) }
      else alt_starts start (i + 1) es)"

lemma for_each_mono [partial_function_mono]:
  assumes "\<And>x s. monotone option.le_fun option_ord (\<lambda>f. B f x s)"
  shows "monotone option.le_fun option_ord (\<lambda>f. for_each (B f) xs s)"
proof (induction xs arbitrary: s)
  case Nil
  show ?case by (simp add: monotone_def option.leq_refl)
next
  case (Cons x xs)
  have "monotone option.le_fun option_ord (\<lambda>f. Option.bind (B f x s) (\<lambda>s'. for_each (B f) xs s'))"
    by (rule bind_mono [OF assms Cons])
  then show ?case by simp
qed

partial_function (option) llama_grammar_advance_stack ::
    "llama_grammar_rules \<Rightarrow> llama_grammar_stack \<Rightarrow> llama_grammar_stacks \<Rightarrow> llama_grammar_stacks option" where
  "llama_grammar_advance_stack rules stack new_stacks =
     (case stack of
        [] \<Rightarrow> Some (add_stack [] new_stacks)
      | pos # rest \<Rightarrow> do {
          e \<leftarrow> elem_at rules pos;
          if ge_type e = LLAMA_GRETYPE_RULE_REF then do {
            rule \<leftarrow> at rules (nat (ge_value e));
            starts \<leftarrow> alt_starts 0 0 rule;
            for_each (\<lambda>j new_stacks. do {
                new_stack \<leftarrow> push_pos rules (next_pos pos) rest;
                new_stack \<leftarrow> push_pos rules (nat (ge_value e), j) new_stack;
                llama_grammar_advance_stack rules new_stack new_stacks }) starts new_stacks }
          else if ge_type e = LLAMA_GRETYPE_CHAR \<or> ge_type e = LLAMA_GRETYPE_CHAR_NOT \<or> ge_type e = LLAMA_GRETYPE_CHAR_ANY \<or>
            is_token_element e then Some (add_stack stack new_stacks)
          else None })"

definition llama_grammar_accept_chr :: "llama_grammar_rules \<Rightarrow> llama_grammar_stack \<Rightarrow> int \<Rightarrow> llama_grammar_stacks \<Rightarrow>
    llama_grammar_stacks option" where
  "llama_grammar_accept_chr rules stack chr new_stacks =
     (case stack of
        [] \<Rightarrow> Some new_stacks
      | pos # rest \<Rightarrow> do {
          e \<leftarrow> elem_at rules pos;
          if is_token_element e then Some new_stacks
          else do {
            (m, after) \<leftarrow> llama_grammar_match_char rules pos chr;
            if m then do {
              new_stack \<leftarrow> push_pos rules after rest;
              llama_grammar_advance_stack rules new_stack new_stacks }
            else Some new_stacks } })"

text \<open>\<open>llama_grammar_accept\<close> on the stacks of a grammar.\<close>

definition llama_grammar_accept :: "llama_grammar_rules \<Rightarrow> int \<Rightarrow> llama_grammar_stacks \<Rightarrow> llama_grammar_stacks option" where
  "llama_grammar_accept rules chr stacks =
     for_each (\<lambda>stack stacks_new. llama_grammar_accept_chr rules stack chr stacks_new) stacks []"

section \<open>Left recursion\<close>

text \<open>The first loop: whether an alternate of the rule is empty.\<close>

fun has_empty_alt :: "bool \<Rightarrow> llama_grammar_rule \<Rightarrow> bool" where
  "has_empty_alt at_rule_start [] = False"
| "has_empty_alt at_rule_start (e # es) =
     (if llama_grammar_is_end_of_sequence e then at_rule_start \<or> has_empty_alt True es
      else has_empty_alt False es)"

record lr_state =
  lr_visited :: "bool list"
  lr_in_progress :: "bool list"
  lr_may_be_empty :: "bool list"

text \<open>
  The second loop, with the recursive call as an argument; the result \<open>True\<close> is left
  recursion.  An index out of range has no result.
\<close>

fun lr_scan :: "(nat \<Rightarrow> lr_state \<Rightarrow> (bool \<times> lr_state) option) \<Rightarrow> bool \<Rightarrow> llama_grammar_rule \<Rightarrow> lr_state \<Rightarrow> (bool \<times> lr_state) option" where
  "lr_scan rec go [] st = Some (False, st)"
| "lr_scan rec go (e # es) st =
     (if ge_type e = LLAMA_GRETYPE_RULE_REF \<and> go then do {
        (b, st) \<leftarrow> rec (nat (ge_value e)) st;
        if b then Some (True, st)
        else do {
          m \<leftarrow> at (lr_may_be_empty st) (nat (ge_value e));
          lr_scan rec m es st } }
      else lr_scan rec (llama_grammar_is_end_of_sequence e) es st)"

text \<open>
  The recursion marks one more rule as in progress at every level, so it is at most as deep as
  there are rules (plus one for the call that finds the mark): the first argument.
\<close>

fun llama_grammar_detect_left_recursion :: "nat \<Rightarrow> llama_grammar_rules \<Rightarrow> nat \<Rightarrow> lr_state \<Rightarrow> (bool \<times> lr_state) option" where
  "llama_grammar_detect_left_recursion 0 rules r st = None"
| "llama_grammar_detect_left_recursion (Suc fuel) rules r st = do {
     p \<leftarrow> at (lr_in_progress st) r;
     if p then Some (True, st)
     else do {
       let st = st\<lparr>lr_in_progress := (lr_in_progress st)[r := True]\<rparr>;
       rule \<leftarrow> at rules r;
       let st = (if has_empty_alt True rule then st\<lparr>lr_may_be_empty := (lr_may_be_empty st)[r := True]\<rparr> else st);
       (b, st) \<leftarrow> lr_scan (llama_grammar_detect_left_recursion fuel rules) True rule st;
       if b then Some (True, st)
       else Some (False, st\<lparr>lr_in_progress := (lr_in_progress st)[r := False], lr_visited := (lr_visited st)[r := True]\<rparr>) } }"

text \<open>The loop over all rules in \<open>llama_grammar_init_impl\<close>.\<close>

definition check_left_recursion :: "llama_grammar_rules \<Rightarrow> bool option" where
  "check_left_recursion rules = do {
     let n = length rules;
     (b, _) \<leftarrow> for_each (\<lambda>i (b, st). if b then Some (b, st) else do {
         v \<leftarrow> at (lr_visited st) i;
         if v then Some (False, st) else llama_grammar_detect_left_recursion (n + 2) rules i st })
       [0..<n] (False, \<lparr>lr_visited = replicate n False, lr_in_progress = replicate n False, lr_may_be_empty = replicate n False\<rparr>);
     Some b }"

section \<open>Initial stacks\<close>

definition initial_stacks :: "llama_grammar_rules \<Rightarrow> nat \<Rightarrow> llama_grammar_stacks option" where
  "initial_stacks rules start_rule_index = do {
     rule \<leftarrow> at rules start_rule_index;
     starts \<leftarrow> alt_starts 0 0 rule;
     for_each (\<lambda>j stacks. do {
         stack \<leftarrow> push_pos rules (start_rule_index, j) [];
         llama_grammar_advance_stack rules stack stacks }) starts [] }"

text \<open>The copy of a rule: the elements up to the first \<open>END\<close>, and a fresh \<open>END\<close>.\<close>

definition copy_rule :: "llama_grammar_rule \<Rightarrow> llama_grammar_rule option" where
  "copy_rule rule =
     (if \<exists>e\<in>set rule. ge_type e = LLAMA_GRETYPE_END
      then Some (takeWhile (\<lambda>e. ge_type e \<noteq> LLAMA_GRETYPE_END) rule @ [\<lparr>ge_type = LLAMA_GRETYPE_END, ge_value = 0\<rparr>])
      else None)"

end
