(* ===== verification/Grammar_Lang.thy ===== *)
theory Grammar_Lang
  imports Grammar
begin

text \<open>
  The language of a grammar, and that the pushdown stacks recognise it.

  \<open>syms_of\<close> and \<open>alts\<close> read a rule as a list of alternates, each a list of symbols: references
  to rules, character classes and tokens.  \<open>yields\<close> is derivation in this context-free grammar,
  without any notion of a stack.  \<open>expand\<close> is one step of \<open>llama_grammar_advance_stack\<close> as a
  relation on stacks; whenever the function returns, it has collected exactly the terminal
  stacks that \<open>expand\<close> reaches (\<open>advance_stack_spec\<close>), and these derive the same texts as the
  stack it started from.
\<close>

section \<open>Well-formed rules\<close>

text \<open>Continuation of a character class.\<close>

definition cont :: "llama_grammar_element \<Rightarrow> bool" where
  "cont e \<longleftrightarrow> ge_type e = LLAMA_GRETYPE_CHAR_ALT \<or> ge_type e = LLAMA_GRETYPE_CHAR_RNG_UPPER"

text \<open>
  \<open>rule_ok n p es\<close>: the elements end with the only \<open>END\<close>, references are below \<open>n\<close>, an upper bound
  follows a character without one (\<open>p = 1\<close>), and an alternate character follows a character or a
  range (\<open>p = 2\<close>).
\<close>

fun rule_ok :: "nat \<Rightarrow> nat \<Rightarrow> llama_grammar_rule \<Rightarrow> bool" where
  "rule_ok n p [] = False"
| "rule_ok n p (e # es) =
     (case ge_type e of
        LLAMA_GRETYPE_END \<Rightarrow> es = []
      | LLAMA_GRETYPE_ALT \<Rightarrow> rule_ok n 0 es
      | LLAMA_GRETYPE_RULE_REF \<Rightarrow> nat (ge_value e) < n \<and> rule_ok n 0 es
      | LLAMA_GRETYPE_CHAR \<Rightarrow> rule_ok n 1 es
      | LLAMA_GRETYPE_CHAR_NOT \<Rightarrow> rule_ok n 1 es
      | LLAMA_GRETYPE_CHAR_RNG_UPPER \<Rightarrow> p = 1 \<and> rule_ok n 2 es
      | LLAMA_GRETYPE_CHAR_ALT \<Rightarrow> (p = 1 \<or> p = 2) \<and> rule_ok n 1 es
      | LLAMA_GRETYPE_CHAR_ANY \<Rightarrow> rule_ok n 0 es
      | LLAMA_GRETYPE_TOKEN \<Rightarrow> rule_ok n 0 es
      | LLAMA_GRETYPE_TOKEN_NOT \<Rightarrow> rule_ok n 0 es)"

definition grammar_ok :: "llama_grammar_rules \<Rightarrow> bool" where
  "grammar_ok rules \<longleftrightarrow> (\<forall>rule\<in>set rules. rule_ok (length rules) 0 rule)"

lemma rule_ok_nonempty: "rule_ok n p es \<Longrightarrow> es \<noteq> []"
  by (cases es) auto

lemma rule_ok_0: "rule_ok n p (e # es) \<Longrightarrow> \<not> cont e \<Longrightarrow> rule_ok n q (e # es)"
  by (auto simp: cont_def split: llama_gretype.splits)

lemma rule_ok_dropWhile: "rule_ok n p es \<Longrightarrow> rule_ok n q (dropWhile cont es)"
proof (induction es arbitrary: p)
  case (Cons e es)
  show ?case
  proof (cases "cont e")
    case True
    with Cons.prems have "\<exists>p'. rule_ok n p' es" by (auto simp: cont_def split: llama_gretype.splits)
    with Cons.IH True show ?thesis by auto
  qed (use Cons.prems rule_ok_0 in auto)
qed simp

section \<open>Symbols, alternates and derivation\<close>

datatype gsym = SRef nat | SChar "llama_grammar_element list" | STok llama_grammar_element

function syms_of :: "llama_grammar_rule \<Rightarrow> gsym list" where
  "syms_of [] = []"
| "syms_of (e # es) =
     (if llama_grammar_is_end_of_sequence e then []
      else if ge_type e = LLAMA_GRETYPE_RULE_REF then SRef (nat (ge_value e)) # syms_of es
      else if is_token_element e then STok e # syms_of es
      else SChar (e # takeWhile cont es) # syms_of (dropWhile cont es))"
  by pat_completeness auto
termination
  by (relation "measure length") (auto simp: le_imp_less_Suc length_dropWhile_le)

abbreviation nonend :: "llama_grammar_element \<Rightarrow> bool" where
  "nonend e \<equiv> \<not> llama_grammar_is_end_of_sequence e"

text \<open>The alternates after the first \<open>ALT\<close>, and all of them.\<close>

fun rest_alts :: "llama_grammar_rule \<Rightarrow> gsym list list" where
  "rest_alts [] = []"
| "rest_alts (e # es) =
     (if nonend e then rest_alts es
      else if ge_type e = LLAMA_GRETYPE_ALT then syms_of es # rest_alts es else [])"

definition alts :: "llama_grammar_rule \<Rightarrow> gsym list list" where
  "alts es = syms_of es # rest_alts es"


fun class_ranges :: "llama_grammar_element list \<Rightarrow> (int \<times> int) list" where
  "class_ranges (e0 # e1 # es) =
     (if ge_type e1 = LLAMA_GRETYPE_CHAR_RNG_UPPER then (ge_value e0, ge_value e1) # class_ranges es
      else (ge_value e0, ge_value e0) # class_ranges (e1 # es))"
| "class_ranges [e] = [(ge_value e, ge_value e)]"
| "class_ranges [] = []"

text \<open>The characters that a class accepts.\<close>

definition in_class :: "llama_grammar_element list \<Rightarrow> int \<Rightarrow> bool" where
  "in_class cls c \<longleftrightarrow> ge_type (hd cls) = LLAMA_GRETYPE_CHAR_ANY \<or> (\<exists>(l, h)\<in>set (class_ranges cls). l \<le> c \<and> c \<le> h)"

definition class_match :: "llama_grammar_element list \<Rightarrow> int \<Rightarrow> bool" where
  "class_match cls c \<longleftrightarrow> in_class cls c = is_positive_char (hd cls)"

inductive yields :: "llama_grammar_rules \<Rightarrow> gsym list \<Rightarrow> int list \<Rightarrow> bool" for rules where
  yields_Nil: "yields rules [] []"
| yields_Char: "class_match cls c \<Longrightarrow> yields rules ss w \<Longrightarrow> yields rules (SChar cls # ss) (c # w)"
| yields_Ref: "r < length rules \<Longrightarrow> a \<in> set (alts (rules ! r)) \<Longrightarrow> yields rules a u \<Longrightarrow> yields rules ss v \<Longrightarrow>
    yields rules (SRef r # ss) (u @ v)"

inductive_cases yields_NilE: "yields rules [] w"
inductive_cases yields_CharE: "yields rules (SChar cls # ss) w"
inductive_cases yields_RefE: "yields rules (SRef r # ss) w"
inductive_cases yields_TokE: "yields rules (STok e # ss) w"

lemma yields_Nil_iff [simp]: "yields rules [] w \<longleftrightarrow> w = []"
  by (auto elim: yields_NilE intro: yields_Nil)

lemma yields_Tok_iff [simp]: "\<not> yields rules (STok e # ss) w"
  by (auto elim: yields_TokE)

lemma yields_Char_iff [simp]: "yields rules (SChar cls # ss) w \<longleftrightarrow> (\<exists>c w'. w = c # w' \<and> class_match cls c \<and> yields rules ss w')"
  by (auto elim: yields_CharE intro: yields_Char)

lemma yields_append: "yields rules (a @ b) w \<longleftrightarrow> (\<exists>u v. w = u @ v \<and> yields rules a u \<and> yields rules b v)"
proof
  assume "\<exists>u v. w = u @ v \<and> yields rules a u \<and> yields rules b v"
  then obtain u v where "w = u @ v" "yields rules a u" "yields rules b v" by blast
  from this(2,3) have "yields rules (a @ b) (u @ v)"
  proof (induction rule: yields.induct)
    case (yields_Ref r a u ss v')
    then show ?case using yields.yields_Ref [of r rules a u "ss @ b" "v' @ v"] by simp
  qed auto
  with \<open>w = u @ v\<close> show "yields rules (a @ b) w" by simp
next
  show "yields rules (a @ b) w \<Longrightarrow> \<exists>u v. w = u @ v \<and> yields rules a u \<and> yields rules b v"
  proof (induction a arbitrary: w)
    case (Cons s a)
    from Cons.prems have y: "yields rules (s # a @ b) w" by simp
    show ?case
    proof (cases s)
      case (SRef r)
      with y obtain x u v where "r < length rules" "x \<in> set (alts (rules ! r))" "yields rules x u" "yields rules (a @ b) v" "w = u @ v"
        by (auto elim: yields_RefE)
      moreover from this(4) Cons.IH obtain v1 v2 where "v = v1 @ v2" "yields rules a v1" "yields rules b v2" by blast
      ultimately show ?thesis using SRef yields_Ref by (metis append_assoc)
    next
      case (SChar cls)
      with y obtain c w' where w: "w = c # w'" "class_match cls c" "yields rules (a @ b) w'" by auto
      from Cons.IH [OF w(3)] obtain u v where "w' = u @ v" "yields rules a u" "yields rules b v" by blast
      with w SChar show ?thesis by (intro exI [of _ "c # u"] exI [of _ v]) auto
    qed (use y in simp)
  qed simp
qed

lemma yields_Ref_iff: "yields rules (SRef r # ss) w \<longleftrightarrow> r < length rules \<and> (\<exists>a\<in>set (alts (rules ! r)). yields rules (a @ ss) w)"
  by (auto elim!: yields_RefE simp: yields_append intro: yields_Ref)

section \<open>Matching a character\<close>

lemma match_char_loop_spec:
  assumes "rule_ok n 1 es" and "ge_type e0 \<noteq> LLAMA_GRETYPE_CHAR_ANY"
  shows "match_char_loop (e0 # es) c f k = Some (f \<or> (\<exists>(l, h)\<in>set (class_ranges (e0 # takeWhile cont es)). l \<le> c \<and> c \<le> h),
    k + 1 + length (takeWhile cont es))"
  using assms
proof (induction "e0 # es" c f k arbitrary: e0 es rule: match_char_loop.induct)
  case (1 e0 e1 es c f k)
  show ?case
  proof (cases "ge_type e1 = LLAMA_GRETYPE_CHAR_RNG_UPPER")
    case True
    with 1(3) have ok: "rule_ok n 2 es" by simp
    then obtain e2 es' where es: "es = e2 # es'" using rule_ok_nonempty by (cases es) auto
    have no: "ge_type e2 \<noteq> LLAMA_GRETYPE_CHAR_RNG_UPPER" using ok es by auto
    show ?thesis
    proof (cases "ge_type e2 = LLAMA_GRETYPE_CHAR_ALT")
      case alt: True
      with ok es have "rule_ok n 1 es'" by simp
      with 1(1) [OF True refl es alt] True alt es show ?thesis by (auto simp: cont_def)
    qed (use True es no in \<open>auto simp: cont_def\<close>)
  next
    case False
    show ?thesis
    proof (cases "ge_type e1 = LLAMA_GRETYPE_CHAR_ALT")
      case True
      with 1(3) have "rule_ok n 1 es" by simp
      with 1(2) [OF False refl True] True False 1(4) show ?thesis by (auto simp: cont_def)
    qed (use False 1(4) in \<open>auto simp: cont_def\<close>)
  qed
qed auto

text \<open>Pointers that a stack may hold: at the start of a symbol.\<close>

definition pos_ok :: "llama_grammar_rules \<Rightarrow> gpos \<Rightarrow> bool" where
  "pos_ok rules = (\<lambda>(r, i). r < length rules \<and> i < length (rules ! r) \<and> rule_ok (length rules) 0 (drop i (rules ! r)) \<and>
     nonend (rules ! r ! i))"

definition pos_syms :: "llama_grammar_rules \<Rightarrow> gpos \<Rightarrow> gsym list" where
  "pos_syms rules = (\<lambda>(r, i). syms_of (drop i (rules ! r)))"

definition stack_syms :: "llama_grammar_rules \<Rightarrow> llama_grammar_stack \<Rightarrow> gsym list" where
  "stack_syms rules stk = concat (map (pos_syms rules) stk)"

lemma stack_syms_simps [simp]: "stack_syms rules [] = []" "stack_syms rules (p # stk) = pos_syms rules p @ stack_syms rules stk"
  by (simp_all add: stack_syms_def)

definition stack_ok :: "llama_grammar_rules \<Rightarrow> llama_grammar_stack \<Rightarrow> bool" where
  "stack_ok rules stk \<longleftrightarrow> (\<forall>p\<in>set stk. pos_ok rules p)"

lemma stack_ok_simps [simp]: "stack_ok rules []" "stack_ok rules (p # stk) \<longleftrightarrow> pos_ok rules p \<and> stack_ok rules stk"
  by (simp_all add: stack_ok_def)

text \<open>A pointer to the rest of a rule, at the end of an alternate or not: what \<open>push_pos\<close> does with it.\<close>

lemma push_pos_spec:
  assumes "r < length rules" and "i < length (rules ! r)" and "rule_ok (length rules) 0 (drop i (rules ! r))" and "stack_ok rules stk"
  shows "\<exists>stk'. push_pos rules (r, i) stk = Some stk' \<and> stack_ok rules stk' \<and>
    stack_syms rules stk' = syms_of (drop i (rules ! r)) @ stack_syms rules stk"
proof -
  have d: "drop i (rules ! r) = rules ! r ! i # drop (Suc i) (rules ! r)" using assms(2) by (simp add: Cons_nth_drop_Suc)
  show ?thesis
  proof (cases "llama_grammar_is_end_of_sequence (rules ! r ! i)")
    case True
    with assms d show ?thesis by (simp add: push_pos_def elem_at_def)
  next
    case False
    with assms show ?thesis by (simp add: push_pos_def elem_at_def pos_ok_def pos_syms_def)
  qed
qed

lemma match_char_spec:
  assumes ok: "pos_ok rules (r, i)" and ty: "ge_type (rules ! r ! i) \<in> {LLAMA_GRETYPE_CHAR, LLAMA_GRETYPE_CHAR_NOT, LLAMA_GRETYPE_CHAR_ANY}"
  shows "\<exists>cls j. syms_of (drop i (rules ! r)) = SChar cls # syms_of (drop j (rules ! r)) \<and>
    (\<forall>c. llama_grammar_match_char rules (r, i) c = Some (class_match cls c, (r, j))) \<and>
    j < length (rules ! r) \<and> rule_ok (length rules) 0 (drop j (rules ! r))"
proof -
  let ?e = "rules ! r ! i" and ?es = "drop (Suc i) (rules ! r)"
  have r: "r < length rules" "i < length (rules ! r)" using ok by (auto simp: pos_ok_def)
  have d: "drop i (rules ! r) = ?e # ?es" using r by (simp add: Cons_nth_drop_Suc)
  let ?cls = "?e # takeWhile cont ?es" and ?j = "Suc i + length (takeWhile cont ?es)"
  have dj: "drop ?j (rules ! r) = dropWhile cont ?es" by (simp add: dropWhile_eq_drop add.commute)
  have ok1: "\<exists>p. rule_ok (length rules) p ?es" using ok ty unfolding pos_ok_def case_prod_conv d by auto
  then have okj: "rule_ok (length rules) 0 (drop ?j (rules ! r))" unfolding dj using rule_ok_dropWhile by blast
  then have j: "?j < length (rules ! r)" using rule_ok_nonempty by (metis drop_all not_le)
  have syms: "syms_of (drop i (rules ! r)) = SChar ?cls # syms_of (drop ?j (rules ! r))"
    unfolding d dj using ty by (auto simp: llama_grammar_is_end_of_sequence_def is_token_element_def)
  have "match_char_loop (?e # ?es) c False 0 = Some (in_class ?cls c, Suc (length (takeWhile cont ?es)))" for c
  proof (cases "ge_type ?e = LLAMA_GRETYPE_CHAR_ANY")
    case True
    with ok have "rule_ok (length rules) 0 ?es" unfolding pos_ok_def case_prod_conv d by simp
    then obtain e1 es' where "?es = e1 # es'" "\<not> cont e1" by (cases ?es) (auto simp: cont_def split: llama_gretype.splits)
    with True show ?thesis by (simp add: in_class_def cont_def)
  next
    case False
    with ty ok have "rule_ok (length rules) 1 ?es" unfolding pos_ok_def case_prod_conv d by auto
    from match_char_loop_spec [OF this False] False show ?thesis by (simp add: in_class_def)
  qed
  then have "llama_grammar_match_char rules (r, i) c = Some (class_match ?cls c, (r, ?j))" for c
    using r ty by (auto simp: llama_grammar_match_char_def elem_at_def d class_match_def is_positive_char_def)
  with syms j okj show ?thesis by blast
qed


section \<open>The alternates of a rule\<close>

lemma rule_ok_tl: "rule_ok n p (e # es) \<Longrightarrow> ge_type e \<noteq> LLAMA_GRETYPE_END \<Longrightarrow> \<exists>q. rule_ok n q es"
  by (auto split: llama_gretype.splits)

lemma alt_starts_scan:
  assumes "rule_ok n p es" and "es = drop i rule"
  shows "\<exists>js. alt_starts s i es = Some (s # js) \<and> rest_alts es = map (\<lambda>j. syms_of (drop j rule)) js \<and>
    (\<forall>j\<in>set js. j < length rule \<and> rule_ok n 0 (drop j rule))"
  using assms
proof (induction es arbitrary: p i s)
  case (Cons e es)
  then have i: "es = drop (Suc i) rule" by (metis drop_Suc list.sel(3) tl_drop)
  consider (End) "ge_type e = LLAMA_GRETYPE_END" | (Alt) "ge_type e = LLAMA_GRETYPE_ALT" | (Mid) "nonend e"
    by (cases "ge_type e") (auto simp: llama_grammar_is_end_of_sequence_def)
  then show ?case
  proof cases
    case End
    then show ?thesis by (simp add: llama_grammar_is_end_of_sequence_def)
  next
    case Alt
    with Cons.prems(1) have ok: "rule_ok n 0 es" by simp
    then have "Suc i < length rule" using i rule_ok_nonempty by (metis drop_all not_le)
    with Cons.IH [OF ok i, of "Suc i"] ok Alt i show ?thesis
      by (auto simp: llama_grammar_is_end_of_sequence_def alts_def)
  next
    case Mid
    then have ne: "ge_type e \<noteq> LLAMA_GRETYPE_END" "ge_type e \<noteq> LLAMA_GRETYPE_ALT" by (auto simp: llama_grammar_is_end_of_sequence_def)
    from rule_ok_tl [OF Cons.prems(1) ne(1)] obtain q where "rule_ok n q es" by blast
    from Cons.IH [OF this i, of s] ne Mid show ?thesis by auto
  qed
qed simp

lemma alt_starts_spec:
  assumes "rule_ok n 0 rule"
  shows "\<exists>js. alt_starts 0 0 rule = Some js \<and> js \<noteq> [] \<and> alts rule = map (\<lambda>j. syms_of (drop j rule)) js \<and>
    (\<forall>j\<in>set js. j < length rule \<and> rule_ok n 0 (drop j rule))"
  using alt_starts_scan [OF assms, of 0 rule 0] rule_ok_nonempty [OF assms] assms by (auto simp: alts_def)

section \<open>Expansion of stacks\<close>

definition at_terminal :: "llama_grammar_rules \<Rightarrow> llama_grammar_stack \<Rightarrow> bool" where
  "at_terminal rules stk \<longleftrightarrow> stk = [] \<or> (\<exists>e. elem_at rules (hd stk) = Some e \<and> ge_type e \<noteq> LLAMA_GRETYPE_RULE_REF)"

inductive expand :: "llama_grammar_rules \<Rightarrow> llama_grammar_stack \<Rightarrow> llama_grammar_stack \<Rightarrow> bool" for rules where
  expandI: "elem_at rules pos = Some e \<Longrightarrow> ge_type e = LLAMA_GRETYPE_RULE_REF \<Longrightarrow> at rules (nat (ge_value e)) = Some rule \<Longrightarrow>
    alt_starts 0 0 rule = Some starts \<Longrightarrow> j \<in> set starts \<Longrightarrow> push_pos rules (next_pos pos) rest = Some s1 \<Longrightarrow>
    push_pos rules (nat (ge_value e), j) s1 = Some s2 \<Longrightarrow> expand rules (pos # rest) s2"

inductive_simps expand_Nil [simp]: "expand rules [] s"
inductive_simps expand_Cons: "expand rules (pos # rest) s"

text \<open>The terminal stacks that a stack expands to.\<close>

definition adv_set :: "llama_grammar_rules \<Rightarrow> llama_grammar_stack \<Rightarrow> llama_grammar_stack set" where
  "adv_set rules stk = {s. (expand rules)\<^sup>*\<^sup>* stk s \<and> at_terminal rules s}"

lemma expand_not_terminal: "expand rules stk s \<Longrightarrow> \<not> at_terminal rules stk"
  by (auto simp: at_terminal_def elim!: expand.cases)

lemma adv_set_terminal: "at_terminal rules stk \<Longrightarrow> adv_set rules stk = {stk}"
  by (auto simp: adv_set_def elim: converse_rtranclpE dest: expand_not_terminal)

lemma adv_set_step: "\<not> at_terminal rules stk \<Longrightarrow> adv_set rules stk = (\<Union>s\<in>{s. expand rules stk s}. adv_set rules s)"
  by (auto simp: adv_set_def elim: converse_rtranclpE intro: converse_rtranclp_into_rtranclp)

text \<open>A pointer at a reference: the stacks it expands to, one for each alternate of the rule.\<close>

lemma ref_step:
  assumes ok: "grammar_ok rules" "stack_ok rules ((r, i) # rest)" and e: "rules ! r ! i = e" "ge_type e = LLAMA_GRETYPE_RULE_REF"
  defines "q \<equiv> nat (ge_value e)"
  shows "\<exists>K starts. q < length rules \<and> push_pos rules (r, Suc i) rest = Some K \<and> stack_ok rules K \<and>
    stack_syms rules K = syms_of (drop (Suc i) (rules ! r)) @ stack_syms rules rest \<and>
    pos_syms rules (r, i) = SRef q # syms_of (drop (Suc i) (rules ! r)) \<and>
    alt_starts 0 0 (rules ! q) = Some starts \<and> starts \<noteq> [] \<and> alts (rules ! q) = map (\<lambda>j. syms_of (drop j (rules ! q))) starts \<and>
    (\<forall>j\<in>set starts. \<exists>s. push_pos rules (q, j) K = Some s \<and> stack_ok rules s \<and>
       stack_syms rules s = syms_of (drop j (rules ! q)) @ stack_syms rules K)"
proof -
  have ri: "r < length rules" "i < length (rules ! r)" using ok(2) by (auto simp: pos_ok_def)
  have d: "drop i (rules ! r) = e # drop (Suc i) (rules ! r)" using ri e(1) by (metis Cons_nth_drop_Suc)
  have p: "q < length rules" "rule_ok (length rules) 0 (drop (Suc i) (rules ! r))"
    using ok(2) e(2) unfolding stack_ok_simps pos_ok_def case_prod_conv d q_def by auto
  then have si: "Suc i < length (rules ! r)" using rule_ok_nonempty by (metis drop_all not_le)
  have syms: "pos_syms rules (r, i) = SRef q # syms_of (drop (Suc i) (rules ! r))"
    unfolding pos_syms_def case_prod_conv d using e(2) by (simp add: llama_grammar_is_end_of_sequence_def q_def)
  obtain K where K: "push_pos rules (r, Suc i) rest = Some K" "stack_ok rules K"
      "stack_syms rules K = syms_of (drop (Suc i) (rules ! r)) @ stack_syms rules rest"
    using push_pos_spec [OF ri(1) si p(2)] ok(2) by auto
  have "rule_ok (length rules) 0 (rules ! q)" using ok(1) p(1) by (simp add: grammar_ok_def)
  from alt_starts_spec [OF this] obtain starts where st: "alt_starts 0 0 (rules ! q) = Some starts" "starts \<noteq> []"
      "alts (rules ! q) = map (\<lambda>j. syms_of (drop j (rules ! q))) starts"
      "\<forall>j\<in>set starts. j < length (rules ! q) \<and> rule_ok (length rules) 0 (drop j (rules ! q))" by blast
  have "\<forall>j\<in>set starts. \<exists>s. push_pos rules (q, j) K = Some s \<and> stack_ok rules s \<and>
       stack_syms rules s = syms_of (drop j (rules ! q)) @ stack_syms rules K"
    using push_pos_spec [OF p(1) _ _ K(2)] st(4) by auto
  with p(1) K syms st(1-3) show ?thesis by blast
qed

section \<open>llama_grammar_advance_stack\<close>

lemma for_each_collect:
  assumes "for_each f xs s = Some t"
    and "\<And>x s t. x \<in> set xs \<Longrightarrow> f x s = Some t \<Longrightarrow> set t = set s \<union> A x"
  shows "set t = set s \<union> (\<Union>x\<in>set xs. A x)"
  using assms by (induction xs arbitrary: s) (fastforce split: Option.bind_splits)+

lemma set_add_stack [simp]: "set (add_stack s ss) = insert s (set ss)"
  by (auto simp: add_stack_def)

lemmas advance_stack_induct = llama_grammar_advance_stack.raw_induct [rotated, consumes 1, case_names step]

text \<open>Whenever the function returns, it has added exactly the terminal stacks.\<close>

lemma advance_stack_adv_set:
  assumes "llama_grammar_advance_stack rules stk new = Some new'"
  shows "set new' = set new \<union> adv_set rules stk"
  using assms
proof (induction rules stk new new' rule: advance_stack_induct)
  case 1: (step adv rules stk new new')
  show ?case
  proof (cases stk)
    case Nil
    moreover have "adv_set rules [] = {[]}" by (rule adv_set_terminal) (simp add: at_terminal_def)
    moreover have "new' = add_stack [] new" using 1(2) Nil by simp
    ultimately show ?thesis using Nil by simp
  next
    case (Cons pos rest)
    with 1(2) obtain e where e: "elem_at rules pos = Some e" by (auto split: Option.bind_splits)
    show ?thesis
    proof (cases "ge_type e = LLAMA_GRETYPE_RULE_REF")
      case False
      with 1(2) Cons e have "new' = add_stack stk new" by (auto split: if_splits)
      moreover have "at_terminal rules stk" using Cons e False by (simp add: at_terminal_def)
      ultimately show ?thesis by (auto simp: adv_set_terminal)
    next
      case True
      with 1(2) Cons e obtain rule starts where r: "at rules (nat (ge_value e)) = Some rule" "alt_starts 0 0 rule = Some starts"
        and loop: "for_each (\<lambda>j new_stacks. do {
                new_stack \<leftarrow> push_pos rules (next_pos pos) rest;
                new_stack \<leftarrow> push_pos rules (nat (ge_value e), j) new_stack;
                adv rules new_stack new_stacks }) starts new = Some new'"
        by (auto split: Option.bind_splits)
      let ?A = "\<lambda>j. \<Union>s1\<in>{s1. push_pos rules (next_pos pos) rest = Some s1}.
        \<Union>s2\<in>{s2. push_pos rules (nat (ge_value e), j) s1 = Some s2}. adv_set rules s2"
      have "set new' = set new \<union> (\<Union>j\<in>set starts. ?A j)"
        by (rule for_each_collect [OF loop]) (auto split: Option.bind_splits dest: 1(1))
      moreover have nt: "\<not> at_terminal rules (pos # rest)" using e True by (simp add: at_terminal_def)
      have "(\<Union>j\<in>set starts. ?A j) = adv_set rules stk"
        using e True r unfolding Cons adv_set_step [OF nt] by (auto simp: expand_Cons) blast+
      ultimately show ?thesis by simp
    qed
  qed
qed


text \<open>One step of the expansion keeps stacks well-formed, and derives the same texts.\<close>

lemma ref_pos_conv:
  assumes "pos_ok rules (r, i)" and "elem_at rules (r, i) = Some e"
  shows "rules ! r ! i = e"
  using assms by (auto simp: pos_ok_def elem_at_def)

lemma expand_lang:
  assumes g: "grammar_ok rules" and ok: "stack_ok rules stk" and nt: "\<not> at_terminal rules stk"
  shows "\<forall>s. expand rules stk s \<longrightarrow> stack_ok rules s"
    and "yields rules (stack_syms rules stk) w \<longleftrightarrow> (\<exists>s. expand rules stk s \<and> yields rules (stack_syms rules s) w)"
    and "\<exists>s. expand rules stk s"
proof -
  from nt obtain r i rest where stk: "stk = (r, i) # rest" by (cases stk) (auto simp: at_terminal_def)
  let ?e = "rules ! r ! i" and ?q = "nat (ge_value (rules ! r ! i))"
  have ri: "r < length rules" "i < length (rules ! r)" using ok stk by (auto simp: pos_ok_def)
  then have el: "elem_at rules (r, i) = Some ?e" by (simp add: elem_at_def)
  have ref: "ge_type ?e = LLAMA_GRETYPE_RULE_REF" using nt stk el by (auto simp: at_terminal_def)
  obtain K starts where S: "?q < length rules" "push_pos rules (r, Suc i) rest = Some K" "stack_ok rules K"
    "stack_syms rules K = syms_of (drop (Suc i) (rules ! r)) @ stack_syms rules rest"
    "pos_syms rules (r, i) = SRef ?q # syms_of (drop (Suc i) (rules ! r))"
    "alt_starts 0 0 (rules ! ?q) = Some starts" "starts \<noteq> []" "alts (rules ! ?q) = map (\<lambda>j. syms_of (drop j (rules ! ?q))) starts"
    "\<forall>j\<in>set starts. \<exists>s. push_pos rules (?q, j) K = Some s \<and> stack_ok rules s \<and>
       stack_syms rules s = syms_of (drop j (rules ! ?q)) @ stack_syms rules K"
    using ref_step [OF g ok [unfolded stk] refl ref] by blast
  have ex: "expand rules stk s \<longleftrightarrow> (\<exists>j\<in>set starts. push_pos rules (?q, j) K = Some s)" for s
    using el ref S(1,2,6) unfolding stk expand_Cons by (auto simp: next_pos_def)
  show "\<forall>s. expand rules stk s \<longrightarrow> stack_ok rules s" "\<exists>s. expand rules stk s"
    using S(7,9) unfolding ex by (fastforce, metis list.set_intros(1) neq_Nil_conv)
  have "yields rules (stack_syms rules stk) w \<longleftrightarrow> (\<exists>j\<in>set starts. yields rules (syms_of (drop j (rules ! ?q)) @ stack_syms rules K) w)"
    using S(1,4,5,8) by (simp add: stk yields_Ref_iff)
  also have "\<dots> \<longleftrightarrow> (\<exists>s. expand rules stk s \<and> yields rules (stack_syms rules s) w)"
    unfolding ex using S(9) by (metis option.inject)
  finally show "yields rules (stack_syms rules stk) w \<longleftrightarrow> (\<exists>s. expand rules stk s \<and> yields rules (stack_syms rules s) w)" .
qed

lemma adv_set_ok:
  assumes "grammar_ok rules" and "stack_ok rules stk" and "s \<in> adv_set rules stk"
  shows "stack_ok rules s" and "at_terminal rules s"
proof -
  from assms(3) have r: "(expand rules)\<^sup>*\<^sup>* stk s" and t: "at_terminal rules s" by (auto simp: adv_set_def)
  from r show "stack_ok rules s"
  proof (induction rule: rtranclp_induct)
    case base
    show ?case by (rule assms(2))
  next
    case (step t u)
    from expand_lang(1) [OF assms(1) step(3) expand_not_terminal [OF step(2)]] step(2) show ?case by blast
  qed
  show "at_terminal rules s" by (rule t)
qed

section \<open>Total correctness on stacks that expand finitely\<close>

text \<open>The stacks on which the expansion ends: every chain of steps is finite.\<close>

definition expands_finitely :: "llama_grammar_rules \<Rightarrow> llama_grammar_stack \<Rightarrow> bool" where
  "expands_finitely rules stk \<longleftrightarrow> Wellfounded.accp (\<lambda>s t. expand rules t s) stk"

lemma expands_finitely_terminal: "at_terminal rules stk \<Longrightarrow> expands_finitely rules stk"
  unfolding expands_finitely_def by (rule accp.accI) (drule expand_not_terminal, simp)

lemma expands_finitely_step: "(\<And>s. expand rules stk s \<Longrightarrow> expands_finitely rules s) \<Longrightarrow> expands_finitely rules stk"
  unfolding expands_finitely_def by (rule accp.accI)

lemma terminal_type:
  assumes "stack_ok rules (p # rest)" and "elem_at rules p = Some e" and "ge_type e \<noteq> LLAMA_GRETYPE_RULE_REF"
  shows "ge_type e \<in> {LLAMA_GRETYPE_CHAR, LLAMA_GRETYPE_CHAR_NOT, LLAMA_GRETYPE_CHAR_ANY} \<or> is_token_element e"
proof -
  obtain r i where p: "p = (r, i)" by (cases p)
  have d: "drop i (rules ! r) = e # drop (Suc i) (rules ! r)" and ne: "nonend e" and ok: "rule_ok (length rules) 0 (drop i (rules ! r))"
    using assms(1,2) p by (auto simp: pos_ok_def elem_at_def Cons_nth_drop_Suc)
  from ok d have "rule_ok (length rules) 0 (e # drop (Suc i) (rules ! r))" by simp
  with ne assms(3) show ?thesis
    by (cases "ge_type e") (auto simp: llama_grammar_is_end_of_sequence_def is_token_element_def)
qed

lemma advance_stack_total:
  assumes g: "grammar_ok rules" and "expands_finitely rules stk" and "stack_ok rules stk"
  shows "\<exists>new'. llama_grammar_advance_stack rules stk new = Some new'"
  using assms(2) [unfolded expands_finitely_def] assms(3)
proof (induction stk arbitrary: new rule: accp.induct)
  case 1: (accI stk)
  show ?case
  proof (cases "at_terminal rules stk")
    case True
    show ?thesis
    proof (cases stk)
      case Nil
      then show ?thesis by (subst llama_grammar_advance_stack.simps) simp
    next
      case (Cons p rest)
      with True obtain e where e: "elem_at rules p = Some e" "ge_type e \<noteq> LLAMA_GRETYPE_RULE_REF" by (auto simp: at_terminal_def)
      with terminal_type [OF 1(3) [unfolded Cons]] Cons show ?thesis by (subst llama_grammar_advance_stack.simps) auto
    qed
  next
    case False
    then obtain r i rest where stk: "stk = (r, i) # rest" by (cases stk) (auto simp: at_terminal_def)
    let ?e = "rules ! r ! i" and ?q = "nat (ge_value (rules ! r ! i))"
    have "r < length rules" "i < length (rules ! r)" using 1(3) stk by (auto simp: pos_ok_def)
    then have el: "elem_at rules (r, i) = Some ?e" by (simp add: elem_at_def)
    have ref: "ge_type ?e = LLAMA_GRETYPE_RULE_REF" using False stk el by (auto simp: at_terminal_def)
    obtain K starts where S: "?q < length rules" "push_pos rules (r, Suc i) rest = Some K"
      "alt_starts 0 0 (rules ! ?q) = Some starts"
      "\<forall>j\<in>set starts. \<exists>s. push_pos rules (?q, j) K = Some s \<and> stack_ok rules s"
      using ref_step [OF g 1(3) [unfolded stk] refl ref] by blast
    have step: "\<exists>t. (do {
                new_stack \<leftarrow> push_pos rules (next_pos (r, i)) rest;
                new_stack \<leftarrow> push_pos rules (?q, j) new_stack;
                llama_grammar_advance_stack rules new_stack s }) = Some t" if j: "j \<in> set starts" for j s
    proof -
      from S(4) j obtain s2 where s2: "push_pos rules (?q, j) K = Some s2" "stack_ok rules s2" by blast
      have "expand rules stk s2"
        unfolding stk by (rule expandI [OF el ref _ S(3) j]) (use S(1,2) s2 in \<open>simp_all add: next_pos_def\<close>)
      from 1(2) [OF this s2(2)] S(2) s2(1) show ?thesis by (simp add: next_pos_def)
    qed
    have "\<exists>t. for_each (\<lambda>j new_stacks. do {
                new_stack \<leftarrow> push_pos rules (next_pos (r, i)) rest;
                new_stack \<leftarrow> push_pos rules (?q, j) new_stack;
                llama_grammar_advance_stack rules new_stack new_stacks }) starts new = Some t \<and> True"
      by (rule for_each_rule) (use step in auto)
    then show ?thesis
      using el ref S(1,3) by (subst llama_grammar_advance_stack.simps) (simp add: stk)
  qed
qed

text \<open>
  The summary: on such a stack the function returns, adds exactly the terminal stacks, and these
  derive the texts that the stack derives.
\<close>

lemma adv_set_lang:
  assumes g: "grammar_ok rules" and "expands_finitely rules stk" and "stack_ok rules stk"
  shows "yields rules (stack_syms rules stk) w \<longleftrightarrow> (\<exists>s\<in>adv_set rules stk. yields rules (stack_syms rules s) w)"
    and "adv_set rules stk \<noteq> {}"
proof -
  have "(yields rules (stack_syms rules stk) w \<longleftrightarrow> (\<exists>s\<in>adv_set rules stk. yields rules (stack_syms rules s) w)) \<and> adv_set rules stk \<noteq> {}"
    using assms(2) [unfolded expands_finitely_def] assms(3)
  proof (induction stk rule: accp.induct)
    case 1: (accI stk)
    show ?case
    proof (cases "at_terminal rules stk")
      case True
      then show ?thesis by (simp add: adv_set_terminal)
    next
      case False
      note L = expand_lang [OF g 1(3) False]
      have IH: "(yields rules (stack_syms rules s) w \<longleftrightarrow> (\<exists>t\<in>adv_set rules s. yields rules (stack_syms rules t) w)) \<and> adv_set rules s \<noteq> {}"
        if "expand rules stk s" for s
        using 1(2) [OF that] L(1) that by simp
      have "(\<exists>s. expand rules stk s \<and> yields rules (stack_syms rules s) w) \<longleftrightarrow>
          (\<exists>s. expand rules stk s \<and> (\<exists>t\<in>adv_set rules s. yields rules (stack_syms rules t) w))"
        using IH by meson
      moreover from L(3) obtain s where "expand rules stk s" by blast
      ultimately show ?thesis
        unfolding L(2) adv_set_step [OF False] using IH by auto
    qed
  qed
  then show "yields rules (stack_syms rules stk) w \<longleftrightarrow> (\<exists>s\<in>adv_set rules stk. yields rules (stack_syms rules s) w)"
    and "adv_set rules stk \<noteq> {}" by auto
qed


section \<open>Accepting text\<close>

text \<open>A grammar on which the expansion of every well-formed stack ends.\<close>

definition left_safe :: "llama_grammar_rules \<Rightarrow> bool" where
  "left_safe rules \<longleftrightarrow> (\<forall>stk. stack_ok rules stk \<longrightarrow> expands_finitely rules stk)"

definition stacks_ok :: "llama_grammar_rules \<Rightarrow> llama_grammar_stacks \<Rightarrow> bool" where
  "stacks_ok rules stks \<longleftrightarrow> (\<forall>s\<in>set stks. stack_ok rules s \<and> at_terminal rules s)"

definition stacks_lang :: "llama_grammar_rules \<Rightarrow> llama_grammar_stacks \<Rightarrow> int list \<Rightarrow> bool" where
  "stacks_lang rules stks w \<longleftrightarrow> (\<exists>s\<in>set stks. yields rules (stack_syms rules s) w)"

lemma advance_stack_correct:
  assumes "grammar_ok rules" and "left_safe rules" and "stack_ok rules stk"
  shows "\<exists>new'. llama_grammar_advance_stack rules stk new = Some new' \<and> set new' = set new \<union> adv_set rules stk"
  using advance_stack_total [OF assms(1) _ assms(3)] advance_stack_adv_set assms(2,3) unfolding left_safe_def by metis

text \<open>What one stack contributes for a character: the terminal stacks of the rest, if its top matches.\<close>

definition chr_set :: "llama_grammar_rules \<Rightarrow> int \<Rightarrow> llama_grammar_stack \<Rightarrow> llama_grammar_stack set" where
  "chr_set rules c stk = (case stk of [] \<Rightarrow> {} | pos # rest \<Rightarrow>
     (case elem_at rules pos of None \<Rightarrow> {} | Some e \<Rightarrow> if is_token_element e then {} else
        (case llama_grammar_match_char rules pos c of None \<Rightarrow> {} | Some (m, after) \<Rightarrow>
           if m then (case push_pos rules after rest of None \<Rightarrow> {} | Some s \<Rightarrow> adv_set rules s) else {})))"

lemma accept_chr_step:
  assumes g: "grammar_ok rules" "left_safe rules" and ok: "stack_ok rules stk" "at_terminal rules stk"
  shows "\<exists>new'. llama_grammar_accept_chr rules stk c new = Some new' \<and> set new' = set new \<union> chr_set rules c stk"
    and "\<forall>s\<in>chr_set rules c stk. stack_ok rules s \<and> at_terminal rules s"
    and "(\<exists>s\<in>chr_set rules c stk. yields rules (stack_syms rules s) w) \<longleftrightarrow> yields rules (stack_syms rules stk) (c # w)"
proof -
  have "(\<exists>new'. llama_grammar_accept_chr rules stk c new = Some new' \<and> set new' = set new \<union> chr_set rules c stk) \<and>
    (\<forall>s\<in>chr_set rules c stk. stack_ok rules s \<and> at_terminal rules s) \<and>
    ((\<exists>s\<in>chr_set rules c stk. yields rules (stack_syms rules s) w) \<longleftrightarrow> yields rules (stack_syms rules stk) (c # w))"
  proof (cases stk)
    case Nil
    then show ?thesis by (simp add: llama_grammar_accept_chr_def chr_set_def)
  next
    case (Cons p rest)
    obtain r i where p: "p = (r, i)" by (cases p)
    let ?e = "rules ! r ! i"
    have ri: "r < length rules" "i < length (rules ! r)" using ok Cons p by (auto simp: pos_ok_def)
    then have el: "elem_at rules (r, i) = Some ?e" by (simp add: elem_at_def)
    have nr: "ge_type ?e \<noteq> LLAMA_GRETYPE_RULE_REF" using ok(2) Cons p el by (simp add: at_terminal_def)
    have d: "drop i (rules ! r) = ?e # drop (Suc i) (rules ! r)" using ri by (simp add: Cons_nth_drop_Suc)
    have ty: "ge_type ?e \<in> {LLAMA_GRETYPE_CHAR, LLAMA_GRETYPE_CHAR_NOT, LLAMA_GRETYPE_CHAR_ANY} \<or> is_token_element ?e"
      using terminal_type ok(1) Cons p el nr by blast
    show ?thesis
    proof (cases "is_token_element ?e")
      case True
      then have "pos_syms rules (r, i) = STok ?e # syms_of (drop (Suc i) (rules ! r))"
        unfolding pos_syms_def case_prod_conv d by (auto simp: llama_grammar_is_end_of_sequence_def is_token_element_def)
      with True el Cons p show ?thesis by (simp add: llama_grammar_accept_chr_def chr_set_def)
    next
      case False
      with ty have "ge_type ?e \<in> {LLAMA_GRETYPE_CHAR, LLAMA_GRETYPE_CHAR_NOT, LLAMA_GRETYPE_CHAR_ANY}" by simp
      from match_char_spec [OF _ this] ok(1) Cons p obtain cls j where
        m: "syms_of (drop i (rules ! r)) = SChar cls # syms_of (drop j (rules ! r))"
           "\<forall>c. llama_grammar_match_char rules (r, i) c = Some (class_match cls c, (r, j))"
           "j < length (rules ! r)" "rule_ok (length rules) 0 (drop j (rules ! r))" by auto
      from push_pos_spec [OF ri(1) m(3,4), of rest] ok(1) Cons obtain s where
        s: "push_pos rules (r, j) rest = Some s" "stack_ok rules s" "stack_syms rules s = syms_of (drop j (rules ! r)) @ stack_syms rules rest" by auto
      have sy: "stack_syms rules stk = SChar cls # stack_syms rules s" using Cons p m(1) s(3) by (simp add: pos_syms_def)
      show ?thesis
      proof (cases "class_match cls c")
        case match: True
        have cs: "chr_set rules c stk = adv_set rules s" using Cons p el False m(2) match s(1) by (simp add: chr_set_def)
        have "\<exists>new'. llama_grammar_accept_chr rules stk c new = Some new' \<and> set new' = set new \<union> adv_set rules s"
          using advance_stack_correct [OF g s(2)] Cons p el False m(2) match s(1) by (simp add: llama_grammar_accept_chr_def)
        moreover have "expands_finitely rules s" using g(2) s(2) by (simp add: left_safe_def)
        ultimately show ?thesis
          unfolding cs sy using adv_set_ok [OF g(1) s(2)] adv_set_lang(1) [OF g(1) _ s(2), of w] match by simp
      next
        case no: False
        then show ?thesis unfolding sy using Cons p el False m(2) by (simp add: llama_grammar_accept_chr_def chr_set_def)
      qed
    qed
  qed
  then show "\<exists>new'. llama_grammar_accept_chr rules stk c new = Some new' \<and> set new' = set new \<union> chr_set rules c stk"
    and "\<forall>s\<in>chr_set rules c stk. stack_ok rules s \<and> at_terminal rules s"
    and "(\<exists>s\<in>chr_set rules c stk. yields rules (stack_syms rules s) w) \<longleftrightarrow> yields rules (stack_syms rules stk) (c # w)"
    by blast+
qed

lemma for_each_union:
  assumes "\<And>x s. x \<in> set xs \<Longrightarrow> \<exists>t. f x s = Some t \<and> set t = set s \<union> A x"
  shows "\<exists>t. for_each f xs s = Some t \<and> set t = set s \<union> (\<Union>x\<in>set xs. A x)"
  using assms
proof (induction xs arbitrary: s)
  case (Cons x xs)
  from Cons.prems [of x s] obtain t where t: "f x s = Some t" "set t = set s \<union> A x" by auto
  from Cons.IH [of t] Cons.prems obtain u where "for_each f xs t = Some u" "set u = set t \<union> (\<Union>x\<in>set xs. A x)" by auto
  with t show ?case by auto
qed simp

lemma accept_correct:
  assumes g: "grammar_ok rules" "left_safe rules" and ok: "stacks_ok rules stks"
  shows "\<exists>stks'. llama_grammar_accept rules c stks = Some stks' \<and> set stks' = (\<Union>s\<in>set stks. chr_set rules c s) \<and>
    stacks_ok rules stks' \<and> (\<forall>w. stacks_lang rules stks' w \<longleftrightarrow> stacks_lang rules stks (c # w))"
proof -
  have "\<exists>stks'. llama_grammar_accept rules c stks = Some stks' \<and> set stks' = set [] \<union> (\<Union>s\<in>set stks. chr_set rules c s)"
    unfolding llama_grammar_accept_def using accept_chr_step(1) [OF g] ok
    by (intro for_each_union) (auto simp: stacks_ok_def)
  then obtain stks' where s: "llama_grammar_accept rules c stks = Some stks'" "set stks' = (\<Union>s\<in>set stks. chr_set rules c s)" by auto
  have "stacks_ok rules stks'" using accept_chr_step(2) [OF g] ok s(2) by (auto simp: stacks_ok_def)
  moreover have "stacks_lang rules stks' w \<longleftrightarrow> stacks_lang rules stks (c # w)" for w
    using accept_chr_step(3) [OF g, of _ c w] ok s(2) by (fastforce simp: stacks_ok_def stacks_lang_def)
  ultimately show ?thesis using s by blast
qed

text \<open>The loop of \<open>llama_grammar_accept_str\<close> over the code points of a text.\<close>

definition accept_chars :: "llama_grammar_rules \<Rightarrow> int list \<Rightarrow> llama_grammar_stacks \<Rightarrow> llama_grammar_stacks option" where
  "accept_chars rules = for_each (llama_grammar_accept rules)"

lemma accept_chars_correct:
  assumes g: "grammar_ok rules" "left_safe rules" and ok: "stacks_ok rules stks"
  shows "\<exists>stks'. accept_chars rules cs stks = Some stks' \<and> stacks_ok rules stks' \<and>
    (\<forall>w. stacks_lang rules stks' w \<longleftrightarrow> stacks_lang rules stks (cs @ w))"
  using ok
proof (induction cs arbitrary: stks)
  case (Cons c cs)
  from accept_correct [OF g Cons.prems] obtain t where t: "llama_grammar_accept rules c stks = Some t" "stacks_ok rules t"
    "\<forall>w. stacks_lang rules t w \<longleftrightarrow> stacks_lang rules stks (c # w)" by blast
  from Cons.IH [OF t(2)] t show ?case by (auto simp: accept_chars_def)
qed (simp add: accept_chars_def)

lemma initial_stacks_correct:
  assumes g: "grammar_ok rules" "left_safe rules" and r: "r < length rules"
  shows "\<exists>stks. initial_stacks rules r = Some stks \<and> stacks_ok rules stks \<and> stks \<noteq> [] \<and>
    (\<forall>w. stacks_lang rules stks w \<longleftrightarrow> yields rules [SRef r] w)"
proof -
  have "rule_ok (length rules) 0 (rules ! r)" using g r by (simp add: grammar_ok_def)
  from alt_starts_spec [OF this] obtain js where js: "alt_starts 0 0 (rules ! r) = Some js" "js \<noteq> []"
    "alts (rules ! r) = map (\<lambda>j. syms_of (drop j (rules ! r))) js"
    "\<forall>j\<in>set js. j < length (rules ! r) \<and> rule_ok (length rules) 0 (drop j (rules ! r))" by blast
  define S where "S j = the (push_pos rules (r, j) [])" for j
  have S: "push_pos rules (r, j) [] = Some (S j)" "stack_ok rules (S j)" "stack_syms rules (S j) = syms_of (drop j (rules ! r))"
    if "j \<in> set js" for j
    using push_pos_spec [OF r, of j "[]"] js(4) that by (auto simp: S_def)
  have fin: "expands_finitely rules (S j)" if "j \<in> set js" for j using S(2) [OF that] g(2) by (simp add: left_safe_def)
  have "\<exists>stks. for_each (\<lambda>j stacks. do { stack \<leftarrow> push_pos rules (r, j) []; llama_grammar_advance_stack rules stack stacks }) js [] = Some stks \<and>
      set stks = set [] \<union> (\<Union>j\<in>set js. adv_set rules (S j))"
    using S advance_stack_correct [OF g] by (intro for_each_union) simp
  then obtain stks where st: "initial_stacks rules r = Some stks" "set stks = (\<Union>j\<in>set js. adv_set rules (S j))"
    using r js(1) by (auto simp: initial_stacks_def)
  have "stacks_ok rules stks" using st(2) adv_set_ok [OF g(1) S(2)] by (auto simp: stacks_ok_def)
  moreover have "stks \<noteq> []" using st(2) js(2) adv_set_lang(2) [OF g(1) fin S(2)] by (cases js) auto
  moreover have "stacks_lang rules stks w \<longleftrightarrow> yields rules [SRef r] w" for w
    using adv_set_lang(1) [OF g(1) fin S(2), of _ w] S(3) r unfolding stacks_lang_def st(2) yields_Ref_iff js(3) by auto
  ultimately show ?thesis using st(1) by blast
qed

text \<open>The empty stack among stacks at terminals: the text read so far is complete.\<close>

lemma stacks_lang_Nil:
  assumes "stacks_ok rules stks"
  shows "stacks_lang rules stks [] \<longleftrightarrow> [] \<in> set stks"
proof
  assume "stacks_lang rules stks []"
  then obtain s where s: "s \<in> set stks" "yields rules (stack_syms rules s) []" by (auto simp: stacks_lang_def)
  have "s = []"
  proof (cases s)
    case (Cons p rest)
    obtain r i where p: "p = (r, i)" by (cases p)
    have ok: "stack_ok rules s" "at_terminal rules s" using assms s(1) by (auto simp: stacks_ok_def)
    have ri: "r < length rules" "i < length (rules ! r)" "nonend (rules ! r ! i)" using ok Cons p by (auto simp: pos_ok_def)
    then have "ge_type (rules ! r ! i) \<noteq> LLAMA_GRETYPE_RULE_REF" using ok(2) Cons p by (simp add: at_terminal_def elem_at_def)
    moreover have "drop i (rules ! r) = rules ! r ! i # drop (Suc i) (rules ! r)" using ri by (simp add: Cons_nth_drop_Suc)
    ultimately show ?thesis using s(2) ri(3) by (auto simp: Cons p pos_syms_def split: if_splits)
  qed simp
  with s(1) show "[] \<in> set stks" by simp
qed (force simp: stacks_lang_def)


end
