(* ===== verification/Grammar_Rec.thy ===== *)
theory Grammar_Rec
  imports Grammar_Lang
begin

text \<open>
  Left recursion: the relation \<open>left_ref\<close> on the rules of a grammar, that its absence makes the expansion of
  every stack end, and what \<open>llama_grammar_detect_left_recursion\<close> decides of it.  \<open>scan_ref\<close> is the part
  of \<open>left_ref\<close> that the code follows: it passes over a reference only when the rule has an empty
  alternate of its own.
\<close>

section \<open>Expansion ends without left recursion\<close>

text \<open>
  \<open>left_ref rules r q\<close>: an alternate of rule \<open>r\<close> refers to rule \<open>q\<close> behind symbols that derive the
  empty text.  Left recursion is a cycle of this relation.
\<close>

definition left_ref :: "llama_grammar_rules \<Rightarrow> nat \<Rightarrow> nat \<Rightarrow> bool" where
  "left_ref rules r q \<longleftrightarrow> r < length rules \<and>
     (\<exists>a\<in>set (alts (rules ! r)). \<exists>xs ys. a = xs @ SRef q # ys \<and> yields rules xs [])"

definition rule_safe :: "llama_grammar_rules \<Rightarrow> nat \<Rightarrow> bool" where
  "rule_safe rules q \<longleftrightarrow> (\<forall>K starts. stack_ok rules K \<longrightarrow> (yields rules [SRef q] [] \<longrightarrow> expands_finitely rules K) \<longrightarrow>
     alt_starts 0 0 (rules ! q) = Some starts \<longrightarrow>
     (\<forall>j\<in>set starts. \<forall>s. push_pos rules (q, j) K = Some s \<longrightarrow> expands_finitely rules s))"

text \<open>A pointer in front of a stack, when the rules it can reach first are safe.\<close>

lemma push_finite:
  assumes g: "grammar_ok rules" and r: "r < length rules"
  shows "i < length (rules ! r) \<Longrightarrow> rule_ok (length rules) 0 (drop i (rules ! r)) \<Longrightarrow> stack_ok rules K \<Longrightarrow>
    push_pos rules (r, i) K = Some s \<Longrightarrow> (yields rules (syms_of (drop i (rules ! r))) [] \<Longrightarrow> expands_finitely rules K) \<Longrightarrow>
    (\<And>xs q ys. syms_of (drop i (rules ! r)) = xs @ SRef q # ys \<Longrightarrow> yields rules xs [] \<Longrightarrow> rule_safe rules q) \<Longrightarrow>
    expands_finitely rules s"
proof (induction "length (rules ! r) - i" arbitrary: i s)
  case (Suc m)
  let ?e = "rules ! r ! i" and ?q = "nat (ge_value (rules ! r ! i))"
  have el: "elem_at rules (r, i) = Some ?e" using r Suc.prems(1) by (simp add: elem_at_def)
  have d: "drop i (rules ! r) = ?e # drop (Suc i) (rules ! r)" using Suc.prems(1) by (simp add: Cons_nth_drop_Suc)
  show ?case
  proof (cases "llama_grammar_is_end_of_sequence ?e")
    case True
    with Suc.prems(4,5) el d show ?thesis by (simp add: push_pos_def)
  next
    case ne: False
    with Suc.prems(4) el have s: "s = (r, i) # K" by (simp add: push_pos_def)
    show ?thesis
    proof (cases "ge_type ?e = LLAMA_GRETYPE_RULE_REF")
      case False
      then show ?thesis using el unfolding s by (intro expands_finitely_terminal) (simp add: at_terminal_def)
    next
      case ref: True
      have ok: "stack_ok rules ((r, i) # K)" using r Suc.prems(1,2,3) ne by (simp add: pos_ok_def)
      from ref_step [OF g ok refl ref] obtain K' starts where S: "?q < length rules" "push_pos rules (r, Suc i) K = Some K'"
        "stack_ok rules K'" "alt_starts 0 0 (rules ! ?q) = Some starts" by blast
      have okS: "rule_ok (length rules) 0 (drop (Suc i) (rules ! r))" using Suc.prems(2) ref unfolding d by simp
      then have si: "Suc i < length (rules ! r)" using rule_ok_nonempty by (metis drop_all not_le)
      have sy: "syms_of (drop i (rules ! r)) = SRef ?q # syms_of (drop (Suc i) (rules ! r))" using ref ne unfolding d by simp
      have fin: "expands_finitely rules K'" if n: "yields rules [SRef ?q] []"
      proof (rule Suc.hyps(1) [OF _ si okS Suc.prems(3) S(2)])
        show "m = length (rules ! r) - Suc i" using Suc.hyps(2) by simp
        show "expands_finitely rules K" if "yields rules (syms_of (drop (Suc i) (rules ! r))) []"
          using Suc.prems(5) n that yields_append [of rules "[SRef ?q]" "syms_of (drop (Suc i) (rules ! r))" "[]"] by (simp add: sy)
        show "rule_safe rules q" if "syms_of (drop (Suc i) (rules ! r)) = xs @ SRef q # ys" "yields rules xs []" for xs q ys
          using Suc.prems(6) [of "SRef ?q # xs" q ys] n that yields_append [of rules "[SRef ?q]" xs "[]"] by (simp add: sy)
      qed
      have safe: "rule_safe rules ?q" by (rule Suc.prems(6) [of "[]"]) (simp_all add: sy)
      show ?thesis
      proof (rule expands_finitely_step)
        fix t assume "expand rules s t"
        then obtain j where "j \<in> set starts" "push_pos rules (?q, j) K' = Some t"
          using el S(1,2,4) unfolding s expand_Cons by (auto simp: next_pos_def)
        with safe fin S(3,4) show "expands_finitely rules t" unfolding rule_safe_def by blast
      qed
    qed
  qed
qed simp

lemma rule_safe_step:
  assumes g: "grammar_ok rules" and q: "q < length rules" and IH: "\<And>p. left_ref rules q p \<Longrightarrow> rule_safe rules p"
  shows "rule_safe rules q"
  unfolding rule_safe_def
proof (intro allI impI ballI)
  fix K starts j s
  assume K: "stack_ok rules K" "yields rules [SRef q] [] \<longrightarrow> expands_finitely rules K"
    and st: "alt_starts 0 0 (rules ! q) = Some starts" and j: "j \<in> set starts" and s: "push_pos rules (q, j) K = Some s"
  have "rule_ok (length rules) 0 (rules ! q)" using g q by (simp add: grammar_ok_def)
  from alt_starts_spec [OF this] st have A: "alts (rules ! q) = map (\<lambda>j. syms_of (drop j (rules ! q))) starts"
    "\<forall>j\<in>set starts. j < length (rules ! q) \<and> rule_ok (length rules) 0 (drop j (rules ! q))" by auto
  have mem: "syms_of (drop j (rules ! q)) \<in> set (alts (rules ! q))" using A(1) j by simp
  show "expands_finitely rules s"
  proof (rule push_finite [OF g q _ _ K(1) s])
    show "expands_finitely rules K" if "yields rules (syms_of (drop j (rules ! q))) []"
      using K(2) that mem q by (auto simp: yields_Ref_iff)
    show "rule_safe rules p" if "syms_of (drop j (rules ! q)) = xs @ SRef p # ys" "yields rules xs []" for xs p ys
      using IH mem q that unfolding left_ref_def by blast
  qed (use A(2) j in auto)
qed

definition no_left_recursion :: "llama_grammar_rules \<Rightarrow> bool" where
  "no_left_recursion rules \<longleftrightarrow> (\<forall>r. \<not> (left_ref rules)\<^sup>+\<^sup>+ r r)"

lemma syms_refs: "SRef q \<in> set (syms_of es) \<Longrightarrow> rule_ok n p es \<Longrightarrow> q < n"
proof (induction es arbitrary: p rule: syms_of.induct)
  case (2 e es)
  from 2(5) have "ge_type e = LLAMA_GRETYPE_END \<or> (\<exists>p'. rule_ok n p' es)" using rule_ok_tl by blast
  moreover have "rule_ok n p' es \<Longrightarrow> rule_ok n 0 (dropWhile cont es)" for p' by (rule rule_ok_dropWhile)
  ultimately show ?case using 2
    by (auto simp: llama_grammar_is_end_of_sequence_def split: if_splits)
qed simp

lemma alts_refs:
  assumes "rule_ok n 0 rule" and "a \<in> set (alts rule)" and "SRef q \<in> set a"
  shows "q < n"
proof -
  from alt_starts_spec [OF assms(1)] assms(2) obtain j where "a = syms_of (drop j rule)" "rule_ok n 0 (drop j rule)" by auto
  with assms(3) syms_refs show ?thesis by metis
qed

lemma left_ref_less:
  assumes "grammar_ok rules" and "left_ref rules r q"
  shows "r < length rules" "q < length rules"
  using assms alts_refs [of "length rules" "rules ! r" _ q] by (auto simp: left_ref_def grammar_ok_def)

lemma no_left_recursion_wf:
  assumes "grammar_ok rules" and "no_left_recursion rules"
  shows "wf {(q, r). left_ref rules r q}"
proof (rule finite_acyclic_wf)
  show "finite {(q, r). left_ref rules r q}"
    by (rule finite_subset [of _ "{..<length rules} \<times> {..<length rules}"]) (use left_ref_less [OF assms(1)] in auto)
  have "(r, r) \<notin> {(q, r). left_ref rules r q}\<^sup>+" for r
  proof
    assume "(r, r) \<in> {(q, r). left_ref rules r q}\<^sup>+"
    moreover have "(a, b) \<in> {(q, r). left_ref rules r q}\<^sup>+ \<Longrightarrow> (left_ref rules)\<^sup>+\<^sup>+ b a" for a b
      by (induction rule: trancl_induct) (auto intro: tranclp.intros tranclp_into_tranclp2)
    ultimately show False using assms(2) by (auto simp: no_left_recursion_def)
  qed
  then show "acyclic {(q, r). left_ref rules r q}" by (simp add: acyclic_def)
qed

theorem no_left_recursion_safe:
  assumes g: "grammar_ok rules" and n: "no_left_recursion rules"
  shows "left_safe rules"
proof -
  have safe: "q < length rules \<Longrightarrow> rule_safe rules q" for q
  proof (induction q rule: wf_induct_rule [OF no_left_recursion_wf [OF g n]])
    case (1 q)
    show ?case by (rule rule_safe_step [OF g 1(2)]) (use 1(1) left_ref_less [OF g] in blast)
  qed
  have "stack_ok rules stk \<Longrightarrow> expands_finitely rules stk" for stk
  proof (induction stk)
    case Nil
    show ?case by (rule expands_finitely_terminal) (simp add: at_terminal_def)
  next
    case (Cons p rest)
    obtain r i where p: "p = (r, i)" by (cases p)
    from Cons.prems p have ok: "r < length rules" "i < length (rules ! r)" "rule_ok (length rules) 0 (drop i (rules ! r))"
      "nonend (rules ! r ! i)" "stack_ok rules rest" by (auto simp: pos_ok_def)
    have refs: "q < length rules" if "SRef q \<in> set (syms_of (drop i (rules ! r)))" for q
      using syms_refs [OF that ok(3)] .
    show ?case
    proof (rule push_finite [OF g ok(1-3,5)])
      show "push_pos rules (r, i) rest = Some (p # rest)" using ok p by (simp add: push_pos_def elem_at_def)
    qed (use Cons.IH ok refs safe in auto)
  qed
  then show ?thesis by (simp add: left_safe_def)
qed


section \<open>What the check for left recursion computes\<close>

abbreviation empty_alt :: "llama_grammar_rules \<Rightarrow> nat \<Rightarrow> bool" where
  "empty_alt rules r \<equiv> has_empty_alt True (rules ! r)"

text \<open>The references that the scan of a rule follows.\<close>

fun scan_refs :: "(nat \<Rightarrow> bool) \<Rightarrow> bool \<Rightarrow> llama_grammar_rule \<Rightarrow> nat list" where
  "scan_refs m go [] = []"
| "scan_refs m go (e # es) =
     (if ge_type e = LLAMA_GRETYPE_RULE_REF \<and> go then nat (ge_value e) # scan_refs m (m (nat (ge_value e))) es
      else scan_refs m (llama_grammar_is_end_of_sequence e) es)"

definition scan_ref :: "llama_grammar_rules \<Rightarrow> nat \<Rightarrow> nat \<Rightarrow> bool" where
  "scan_ref rules r q \<longleftrightarrow> r < length rules \<and> q \<in> set (scan_refs (empty_alt rules) True (rules ! r))"

fun leading_refs :: "(nat \<Rightarrow> bool) \<Rightarrow> gsym list \<Rightarrow> nat list" where
  "leading_refs m (SRef v # ss) = v # (if m v then leading_refs m ss else [])"
| "leading_refs m _ = []"

lemma scan_refs_alts:
  assumes "rule_ok n p es"
  shows "set (scan_refs m go es) = (if go then set (leading_refs m (syms_of es)) else {}) \<union> (\<Union>a\<in>set (rest_alts es). set (leading_refs m a))"
  using assms
proof (induction es arbitrary: p go)
  case (Cons e es)
  consider (End) "ge_type e = LLAMA_GRETYPE_END" | (Alt) "ge_type e = LLAMA_GRETYPE_ALT" | (Ref) "ge_type e = LLAMA_GRETYPE_RULE_REF"
    | (Other) "nonend e" "ge_type e \<noteq> LLAMA_GRETYPE_RULE_REF"
    by (cases "ge_type e") (auto simp: llama_grammar_is_end_of_sequence_def)
  then show ?case
  proof cases
    case End
    with Cons.prems have "es = []" by simp
    with End show ?thesis by (simp add: llama_grammar_is_end_of_sequence_def)
  next
    case Alt
    with Cons.prems have "rule_ok n 0 es" by simp
    from Cons.IH [OF this, of True] Alt show ?thesis by (simp add: llama_grammar_is_end_of_sequence_def alts_def)
  next
    case Ref
    with Cons.prems have "rule_ok n 0 es" by simp
    from Cons.IH [OF this] Ref show ?thesis by (simp add: llama_grammar_is_end_of_sequence_def)
  next
    case Other
    then have "ge_type e \<noteq> LLAMA_GRETYPE_END" by (auto simp: llama_grammar_is_end_of_sequence_def)
    with rule_ok_tl Cons.prems obtain q where "rule_ok n q es" by blast
    from Cons.IH [OF this, of False] Other show ?thesis by simp
  qed
qed simp

lemma has_empty_alt_alts:
  assumes "rule_ok n p es"
  shows "has_empty_alt go es \<longleftrightarrow> (go \<and> syms_of es = []) \<or> [] \<in> set (rest_alts es)"
  using assms
proof (induction es arbitrary: p go)
  case (Cons e es)
  consider (End) "ge_type e = LLAMA_GRETYPE_END" | (Alt) "ge_type e = LLAMA_GRETYPE_ALT" | (Other) "nonend e"
    by (cases "ge_type e") (auto simp: llama_grammar_is_end_of_sequence_def)
  then show ?case
  proof cases
    case End
    with Cons.prems show ?thesis by (simp add: llama_grammar_is_end_of_sequence_def)
  next
    case Alt
    with Cons.prems have "rule_ok n 0 es" by simp
    from Cons.IH [OF this, of True] Alt show ?thesis by (auto simp: llama_grammar_is_end_of_sequence_def alts_def)
  next
    case Other
    then have "ge_type e \<noteq> LLAMA_GRETYPE_END" by (auto simp: llama_grammar_is_end_of_sequence_def)
    with rule_ok_tl Cons.prems obtain q where "rule_ok n q es" by blast
    from Cons.IH [OF this, of False] Other show ?thesis by simp
  qed
qed simp

lemma grammar_rule_ok: "grammar_ok rules \<Longrightarrow> r < length rules \<Longrightarrow> rule_ok (length rules) 0 (rules ! r)"
  by (simp add: grammar_ok_def)

lemma empty_alt_iff:
  assumes "grammar_ok rules" and "r < length rules"
  shows "empty_alt rules r \<longleftrightarrow> [] \<in> set (alts (rules ! r))"
  using has_empty_alt_alts [OF grammar_rule_ok [OF assms], of True] by (auto simp: alts_def)

lemma empty_alt_yields: "grammar_ok rules \<Longrightarrow> r < length rules \<Longrightarrow> empty_alt rules r \<Longrightarrow> yields rules [SRef r] []"
  by (auto simp: yields_Ref_iff empty_alt_iff intro: bexI [of _ "[]"])

lemma scan_ref_iff:
  assumes "grammar_ok rules"
  shows "scan_ref rules r q \<longleftrightarrow> r < length rules \<and> (\<exists>a\<in>set (alts (rules ! r)). q \<in> set (leading_refs (empty_alt rules) a))"
proof (cases "r < length rules")
  case True
  let ?m = "empty_alt rules"
  have "set (scan_refs ?m True (rules ! r)) = (\<Union>a\<in>set (syms_of (rules ! r) # rest_alts (rules ! r)). set (leading_refs ?m a))"
    using scan_refs_alts [OF grammar_rule_ok [OF assms True], of ?m True] by (simp only: if_True list.set UN_insert)
  then show ?thesis using True by (simp only: scan_ref_def alts_def UN_iff)
qed (simp add: scan_ref_def)

lemma leading_refs_split:
  "q \<in> set (leading_refs m a) \<longleftrightarrow> (\<exists>xs ys. a = map SRef xs @ SRef q # ys \<and> (\<forall>v\<in>set xs. m v))"
proof (induction m a rule: leading_refs.induct)
  case (1 m v ss)
  show ?case
  proof
    assume "q \<in> set (leading_refs m (SRef v # ss))"
    then consider "q = v" | "m v" "q \<in> set (leading_refs m ss)" by (auto split: if_splits)
    then show "\<exists>xs ys. SRef v # ss = map SRef xs @ SRef q # ys \<and> (\<forall>v\<in>set xs. m v)"
    proof cases
      case 2
      with 1 obtain xs ys where "ss = map SRef xs @ SRef q # ys" "\<forall>v\<in>set xs. m v" by blast
      with 2 show ?thesis by (intro exI [of _ "v # xs"]) auto
    qed (auto intro: exI [of _ "[]"])
  next
    assume "\<exists>xs ys. SRef v # ss = map SRef xs @ SRef q # ys \<and> (\<forall>v\<in>set xs. m v)"
    then obtain xs ys where x: "SRef v # ss = map SRef xs @ SRef q # ys" "\<forall>v\<in>set xs. m v" by blast
    then show "q \<in> set (leading_refs m (SRef v # ss))" using 1 by (cases xs) auto
  qed
qed (auto simp: Cons_eq_append_conv)

text \<open>Every reference the scan follows is a left reference; the converse needs that a rule which derives the
  empty text has an empty alternate.\<close>

definition empty_rules_direct :: "llama_grammar_rules \<Rightarrow> bool" where
  "empty_rules_direct rules \<longleftrightarrow> (\<forall>r<length rules. yields rules [SRef r] [] \<longrightarrow> empty_alt rules r)"

lemma yields_Nil_refs: "yields rules xs [] \<Longrightarrow> \<exists>vs. xs = map SRef vs \<and> (\<forall>v\<in>set vs. yields rules [SRef v] [] \<and> v < length rules)"
proof (induction xs)
  case (Cons x xs)
  then obtain v where x: "x = SRef v" by (cases x) auto
  from Cons.prems x have y: "yields rules [SRef v] []" "yields rules xs []" using yields_append [of rules "[SRef v]" xs "[]"] by auto
  then have "v < length rules" by (simp add: yields_Ref_iff)
  with Cons.IH [OF y(2)] y(1) x show ?case by (metis (no_types, lifting) list.simps(9) set_ConsD)
qed simp

lemma yields_map_refs: "(\<And>v. v \<in> set vs \<Longrightarrow> yields rules [SRef v] []) \<Longrightarrow> yields rules (map SRef vs) []"
proof (induction vs)
  case (Cons v vs)
  then show ?case using yields_append [of rules "[SRef v]" "map SRef vs" "[]"] by simp
qed simp

lemma scan_ref_left_ref:
  assumes g: "grammar_ok rules" and "scan_ref rules r q"
  shows "left_ref rules r q"
proof -
  from assms(2) obtain a xs ys where a: "r < length rules" "a \<in> set (alts (rules ! r))" "a = map SRef xs @ SRef q # ys" "\<forall>v\<in>set xs. empty_alt rules v"
    unfolding scan_ref_iff [OF g] leading_refs_split by blast
  have "v < length rules" if "v \<in> set xs" for v
    using alts_refs [OF grammar_rule_ok [OF g a(1)] a(2), of v] a(3) that by auto
  then have "yields rules (map SRef xs) []" using a(4) empty_alt_yields [OF g] by (intro yields_map_refs) blast
  with a show ?thesis unfolding left_ref_def by blast
qed

lemma left_ref_scan_ref:
  assumes g: "grammar_ok rules" and d: "empty_rules_direct rules" and "left_ref rules r q"
  shows "scan_ref rules r q"
proof -
  from assms(3) obtain a xs ys where a: "r < length rules" "a \<in> set (alts (rules ! r))" "a = xs @ SRef q # ys" "yields rules xs []"
    unfolding left_ref_def by blast
  from yields_Nil_refs [OF a(4)] d obtain vs where "xs = map SRef vs" "\<forall>v\<in>set vs. empty_alt rules v"
    unfolding empty_rules_direct_def by blast
  with a show ?thesis unfolding scan_ref_iff [OF g] leading_refs_split by blast
qed


definition scan_safe :: "llama_grammar_rules \<Rightarrow> nat \<Rightarrow> bool" where
  "scan_safe rules r \<longleftrightarrow> Wellfounded.accp (\<lambda>q r. scan_ref rules r q) r"

definition lr_inv :: "llama_grammar_rules \<Rightarrow> lr_state \<Rightarrow> bool" where
  "lr_inv rules st \<longleftrightarrow> length (lr_visited st) = length rules \<and> length (lr_in_progress st) = length rules \<and>
     length (lr_may_be_empty st) = length rules \<and>
     (\<forall>r<length rules. (lr_visited st ! r \<longrightarrow> scan_safe rules r) \<and> (lr_may_be_empty st ! r \<longrightarrow> empty_alt rules r))"

text \<open>What a call for some rules may do to the state, and what its result means: \<open>S\<close> are the rules visited.\<close>

definition lr_result :: "llama_grammar_rules \<Rightarrow> nat set \<Rightarrow> lr_state \<Rightarrow> bool \<times> lr_state \<Rightarrow> bool" where
  "lr_result rules S st = (\<lambda>(b, st').
     if b then \<exists>v\<in>S. \<exists>q. (scan_ref rules)\<^sup>*\<^sup>* v q \<and> (q < length rules \<and> lr_in_progress st ! q \<or> (scan_ref rules)\<^sup>+\<^sup>+ q q)
     else lr_inv rules st' \<and> lr_in_progress st' = lr_in_progress st \<and> (\<forall>v\<in>S. scan_safe rules v) \<and>
       (\<forall>q<length rules. lr_may_be_empty st ! q \<longrightarrow> lr_may_be_empty st' ! q))"

definition lr_call_ok :: "llama_grammar_rules \<Rightarrow> (nat \<Rightarrow> lr_state \<Rightarrow> (bool \<times> lr_state) option) \<Rightarrow> bool list \<Rightarrow> bool" where
  "lr_call_ok rules rec P \<longleftrightarrow> (\<forall>v st. v < length rules \<longrightarrow> lr_inv rules st \<longrightarrow> lr_in_progress st = P \<longrightarrow>
     (\<exists>res. rec v st = Some res \<and> lr_result rules {v} st res \<and> (fst res \<or> lr_may_be_empty (snd res) ! v = empty_alt rules v)))"

lemma lr_scan_spec:
  assumes "lr_call_ok rules rec P" and "rule_ok (length rules) p es" and "lr_inv rules st" and "lr_in_progress st = P"
  shows "\<exists>res. lr_scan rec go es st = Some res \<and> lr_result rules (set (scan_refs (empty_alt rules) go es)) st res"
  using assms(2-)
proof (induction es arbitrary: go st p)
  case (Cons e es)
  let ?v = "nat (ge_value e)"
  show ?case
  proof (cases "ge_type e = LLAMA_GRETYPE_RULE_REF \<and> go")
    case True
    with Cons.prems(1) have v: "?v < length rules" "rule_ok (length rules) 0 es" by auto
    from assms(1) v(1) Cons.prems(2,3) obtain res where "rec ?v st = Some res" "lr_result rules {?v} st res"
      "fst res \<or> lr_may_be_empty (snd res) ! ?v = empty_alt rules ?v"
      unfolding lr_call_ok_def by blast
    moreover obtain b st1 where "res = (b, st1)" by (cases res)
    ultimately have r: "rec ?v st = Some (b, st1)" "lr_result rules {?v} st (b, st1)"
      "b \<or> lr_may_be_empty st1 ! ?v = empty_alt rules ?v" by auto
    show ?thesis
    proof (cases b)
      case b: True
      with r True show ?thesis by (auto simp: lr_result_def)
    next
      case b: False
      with r have st1: "lr_inv rules st1" "lr_in_progress st1 = lr_in_progress st" "scan_safe rules ?v"
        "\<forall>q<length rules. lr_may_be_empty st ! q \<longrightarrow> lr_may_be_empty st1 ! q" "lr_may_be_empty st1 ! ?v = empty_alt rules ?v"
        by (auto simp: lr_result_def)
      then have "at (lr_may_be_empty st1) ?v = Some (empty_alt rules ?v)" using v(1) by (simp add: lr_inv_def)
      moreover obtain b' st' where "lr_scan rec (empty_alt rules ?v) es st1 = Some (b', st')"
          "lr_result rules (set (scan_refs (empty_alt rules) (empty_alt rules ?v) es)) st1 (b', st')"
        using Cons.IH [OF v(2) st1(1)] st1(2) Cons.prems(3) by force
      ultimately show ?thesis
        using r(1) b True st1 by (auto simp: lr_result_def)
    qed
  next
    case False
    then have eq: "lr_scan rec go (e # es) st = lr_scan rec (llama_grammar_is_end_of_sequence e) es st"
      "scan_refs (empty_alt rules) go (e # es) = scan_refs (empty_alt rules) (llama_grammar_is_end_of_sequence e) es" by auto
    show ?thesis
    proof (cases "ge_type e = LLAMA_GRETYPE_END")
      case True
      with Cons.prems show ?thesis by (simp add: lr_result_def)
    next
      case False
      with rule_ok_tl Cons.prems(1) obtain p' where "rule_ok (length rules) p' es" by blast
      from Cons.IH [OF this Cons.prems(2,3)] show ?thesis unfolding eq by blast
    qed
  qed
qed (simp add: lr_result_def)

abbreviation free_rules :: "bool list \<Rightarrow> nat" where
  "free_rules P \<equiv> length (filter Not P)"

lemma free_rules_mark: "r < length P \<Longrightarrow> \<not> P ! r \<Longrightarrow> free_rules P = Suc (free_rules (P[r := True]))"
proof (induction P arbitrary: r)
  case (Cons p P)
  then show ?case by (cases r) auto
qed simp

lemma detect_spec:
  assumes g: "grammar_ok rules" and "free_rules P < fuel"
  shows "lr_call_ok rules (llama_grammar_detect_left_recursion fuel rules) P"
  using assms(2)
proof (induction fuel arbitrary: P)
  case (Suc fuel)
  show ?case
    unfolding lr_call_ok_def
  proof (intro allI impI)
    fix r st assume r: "r < length rules" and inv: "lr_inv rules st" and P: "lr_in_progress st = P"
    have at: "at (lr_in_progress st) r = Some (P ! r)" "at rules r = Some (rules ! r)" using r inv P by (simp_all add: lr_inv_def)
    show "\<exists>res. llama_grammar_detect_left_recursion (Suc fuel) rules r st = Some res \<and> lr_result rules {r} st res \<and>
      (fst res \<or> lr_may_be_empty (snd res) ! r = empty_alt rules r)"
    proof (cases "P ! r")
      case True
      then show ?thesis using at P r by (auto simp: lr_result_def)
    next
      case False
      define st1 where "st1 = (if empty_alt rules r then st\<lparr>lr_in_progress := P[r := True], lr_may_be_empty := (lr_may_be_empty st)[r := True]\<rparr>
        else st\<lparr>lr_in_progress := P[r := True]\<rparr>)"
      have inv1: "lr_inv rules st1" "lr_in_progress st1 = P[r := True]" "lr_may_be_empty st1 ! r = empty_alt rules r"
        "\<forall>q<length rules. lr_may_be_empty st ! q \<longrightarrow> lr_may_be_empty st1 ! q"
        using inv P r by (auto simp: st1_def lr_inv_def nth_list_update)
      have "free_rules (P[r := True]) < fuel" using free_rules_mark [of r P] Suc.prems False inv P r by (simp add: lr_inv_def)
      from lr_scan_spec [OF Suc.IH [OF this] grammar_rule_ok [OF g r] inv1(1,2), of True] obtain b st2 where
        s: "lr_scan (llama_grammar_detect_left_recursion fuel rules) True (rules ! r) st1 = Some (b, st2)"
          "lr_result rules (set (scan_refs (empty_alt rules) True (rules ! r))) st1 (b, st2)" by force
      have run: "llama_grammar_detect_left_recursion (Suc fuel) rules r st = (if b then Some (True, st2)
          else Some (False, st2\<lparr>lr_in_progress := (lr_in_progress st2)[r := False], lr_visited := (lr_visited st2)[r := True]\<rparr>))"
        using at False s(1) P by (cases "empty_alt rules r"; cases b) (simp_all add: st1_def Let_def)
      show ?thesis
      proof (cases b)
        case True
        with s(2) inv1(2) obtain v q where v: "scan_ref rules r v" "(scan_ref rules)\<^sup>*\<^sup>* v q"
            "q < length rules \<and> P[r := True] ! q \<or> (scan_ref rules)\<^sup>+\<^sup>+ q q"
          using r by (auto simp: lr_result_def scan_ref_def)
        then have "(scan_ref rules)\<^sup>*\<^sup>* r q" by (meson converse_rtranclp_into_rtranclp)
        moreover have "q < length rules \<and> P ! q \<or> (scan_ref rules)\<^sup>+\<^sup>+ q q"
          using v by (cases "q = r") (auto dest: rtranclp_into_tranclp2)
        ultimately show ?thesis using run True P by (auto simp: lr_result_def)
      next
        case b: False
        with s(2) have st2: "lr_inv rules st2" "lr_in_progress st2 = P[r := True]" "\<And>v. scan_ref rules r v \<Longrightarrow> scan_safe rules v"
          "\<forall>q<length rules. lr_may_be_empty st1 ! q \<longrightarrow> lr_may_be_empty st2 ! q" using inv1(2) by (auto simp: lr_result_def scan_ref_def)
        have safe: "scan_safe rules r" unfolding scan_safe_def by (rule accp.accI) (use st2(3) in \<open>simp add: scan_safe_def\<close>)
        have may: "lr_may_be_empty st2 ! r = empty_alt rules r" using inv1(3) st2(1,4) r by (auto simp: lr_inv_def)
        have PF: "P[r := False] = P" using False by (metis list_update_id)
        let ?st3 = "st2\<lparr>lr_in_progress := P, lr_visited := (lr_visited st2)[r := True]\<rparr>"
        have "lr_inv rules ?st3"
          using st2(1) safe r inv P by (auto simp: lr_inv_def nth_list_update)
        moreover have "\<forall>q<length rules. lr_may_be_empty st ! q \<longrightarrow> lr_may_be_empty ?st3 ! q" using st2(4) inv1(4) by simp
        moreover have "llama_grammar_detect_left_recursion (Suc fuel) rules r st = Some (False, ?st3)" using run b st2(2) PF by simp
        ultimately show ?thesis using safe may P by (simp add: lr_result_def)
      qed
    qed
  qed
qed simp

text \<open>A rule from which the scan never comes back to a rule is on no cycle.\<close>

lemma scan_safe_no_cycle: "scan_safe rules r \<Longrightarrow> \<not> (scan_ref rules)\<^sup>+\<^sup>+ r r"
proof -
  assume "scan_safe rules r"
  then have "Wellfounded.accp (\<lambda>q r. scan_ref rules r q) r" by (simp add: scan_safe_def)
  then show ?thesis
  proof (induction r rule: accp.induct)
    case (accI r)
    show ?case
    proof
      assume "(scan_ref rules)\<^sup>+\<^sup>+ r r"
      then obtain q where "scan_ref rules r q" "(scan_ref rules)\<^sup>*\<^sup>* q r" by (meson tranclpD)
      moreover from this have "(scan_ref rules)\<^sup>+\<^sup>+ q q" by (meson rtranclp_into_tranclp1)
      ultimately show False using accI(2) by blast
    qed
  qed
qed

lemma check_left_recursion_cycle:
  assumes g: "grammar_ok rules"
  shows "check_left_recursion rules = Some (\<exists>r. (scan_ref rules)\<^sup>+\<^sup>+ r r)"
proof -
  let ?n = "length rules"
  let ?st0 = "\<lparr>lr_visited = replicate ?n False, lr_in_progress = replicate ?n False, lr_may_be_empty = replicate ?n False\<rparr>"
  let ?f = "\<lambda>i (b, st). if b then Some (b, st) else do {
         v \<leftarrow> at (lr_visited st) i;
         if v then Some (False, st) else llama_grammar_detect_left_recursion (?n + 2) rules i st }"
  define I where "I k = (\<lambda>(b, st). if b then \<exists>q. (scan_ref rules)\<^sup>+\<^sup>+ q q
     else lr_inv rules st \<and> lr_in_progress st = replicate ?n False \<and> (\<forall>i<k. scan_safe rules i))" for k :: nat
  have ok: "lr_call_ok rules (llama_grammar_detect_left_recursion (?n + 2) rules) (replicate ?n False)"
    by (rule detect_spec [OF g]) (simp add: le_imp_less_Suc [THEN less_SucI])
  have step: "\<exists>t. ?f i s = Some t \<and> I (Suc i) t" if i: "i < ?n" and I: "I i s" for i s
  proof -
    obtain b st where s: "s = (b, st)" by (cases s)
    show ?thesis
    proof (cases b)
      case True
      with I s show ?thesis by (simp add: I_def)
    next
      case False
      with I s have inv: "lr_inv rules st" "lr_in_progress st = replicate ?n False" "\<forall>j<i. scan_safe rules j" by (auto simp: I_def)
      then have at: "at (lr_visited st) i = Some (lr_visited st ! i)" using i by (simp add: lr_inv_def)
      show ?thesis
      proof (cases "lr_visited st ! i")
        case True
        with inv i have "scan_safe rules i" by (simp add: lr_inv_def)
        with inv at True False s show ?thesis by (auto simp: I_def less_Suc_eq)
      next
        case nv: False
        from ok i inv(1,2) obtain res where "llama_grammar_detect_left_recursion (?n + 2) rules i st = Some res" "lr_result rules {i} st res"
          unfolding lr_call_ok_def by blast
        with at nv False s inv i show ?thesis by (cases res) (auto simp: I_def lr_result_def less_Suc_eq)
      qed
    qed
  qed
  have "\<exists>t. for_each ?f [0..<?n] (False, ?st0) = Some t \<and> I ?n t"
    by (rule for_upto_rule [where I = I]) (use step in \<open>auto simp: I_def lr_inv_def\<close>)
  then obtain b st where t: "for_each ?f [0..<?n] (False, ?st0) = Some (b, st)" "I ?n (b, st)" by auto
  have "b = (\<exists>r. (scan_ref rules)\<^sup>+\<^sup>+ r r)"
  proof (cases b)
    case True
    with t(2) show ?thesis by (simp add: I_def)
  next
    case False
    with t(2) have safe: "\<forall>i<?n. scan_safe rules i" by (simp add: I_def)
    have "r < ?n" if "(scan_ref rules)\<^sup>+\<^sup>+ r r" for r using that by (meson scan_ref_def tranclpD)
    with safe scan_safe_no_cycle False show ?thesis by blast
  qed
  with t(1) show ?thesis unfolding check_left_recursion_def by simp
qed


section \<open>When the expansion returns\<close>

lemma for_each_ran: "for_each f xs s = Some t \<Longrightarrow> x \<in> set xs \<Longrightarrow> \<exists>u v. f x u = Some v"
  by (induction xs arbitrary: s) (auto split: Option.bind_splits)

lemma advance_stack_finite:
  assumes "llama_grammar_advance_stack rules stk new = Some new'"
  shows "expands_finitely rules stk"
  using assms
proof (induction rules stk new new' rule: advance_stack_induct)
  case 1: (step adv rules stk new new')
  show ?case
  proof (cases "at_terminal rules stk")
    case True
    then show ?thesis by (rule expands_finitely_terminal)
  next
    case False
    then obtain pos rest where stk: "stk = pos # rest" by (cases stk) (auto simp: at_terminal_def)
    with 1(2) obtain e where e: "elem_at rules pos = Some e" by (auto split: Option.bind_splits)
    with False stk have ref: "ge_type e = LLAMA_GRETYPE_RULE_REF" by (auto simp: at_terminal_def)
    with 1(2) stk e obtain rule starts where r: "at rules (nat (ge_value e)) = Some rule" "alt_starts 0 0 rule = Some starts"
        and loop: "for_each (\<lambda>j new_stacks. do {
                new_stack \<leftarrow> push_pos rules (next_pos pos) rest;
                new_stack \<leftarrow> push_pos rules (nat (ge_value e), j) new_stack;
                adv rules new_stack new_stacks }) starts new = Some new'"
      by (auto split: Option.bind_splits)
    show ?thesis
    proof (rule expands_finitely_step)
      fix s assume "expand rules stk s"
      with e r obtain j s1 where j: "j \<in> set starts" "push_pos rules (next_pos pos) rest = Some s1"
          "push_pos rules (nat (ge_value e), j) s1 = Some s"
        unfolding stk expand_Cons by auto
      from for_each_ran [OF loop j(1)] j(2,3) obtain t u where "adv rules s t = Some u" by auto
      then show "expands_finitely rules s" by (rule 1(1))
    qed
  qed
qed

lemma expand_cycle_infinite:
  assumes "(expand rules)\<^sup>+\<^sup>+ stk stk"
  shows "\<not> expands_finitely rules stk"
proof
  assume "expands_finitely rules stk"
  then have "Wellfounded.accp (\<lambda>s t. expand rules t s) stk" by (simp add: expands_finitely_def)
  then show False using assms
  proof (induction stk rule: accp.induct)
    case (accI stk)
    from accI(3) obtain s where "expand rules stk s" "(expand rules)\<^sup>*\<^sup>* s stk" by (meson tranclpD)
    moreover from this have "(expand rules)\<^sup>+\<^sup>+ s s" by (meson rtranclp_into_tranclp1)
    ultimately show False using accI(2) by blast
  qed
qed

lemma tranclp_weaken: "(\<And>x y. R x y \<Longrightarrow> S x y) \<Longrightarrow> R\<^sup>+\<^sup>+ a b \<Longrightarrow> S\<^sup>+\<^sup>+ a b"
  by (erule tranclp_induct) (auto intro: tranclp.intros)

section \<open>Properties\<close>

abbreviation ge :: "llama_gretype \<Rightarrow> int \<Rightarrow> llama_grammar_element" where
  "ge t v \<equiv> \<lparr>ge_type = t, ge_value = v\<rparr>"

text \<open>\<open>root ::= "(" root ")" root | [a-c]\<close>\<close>

definition ex_grammar :: llama_grammar_rules where
  "ex_grammar = [[ge LLAMA_GRETYPE_CHAR 40, ge LLAMA_GRETYPE_RULE_REF 0, ge LLAMA_GRETYPE_CHAR 41, ge LLAMA_GRETYPE_RULE_REF 0,
     ge LLAMA_GRETYPE_ALT 0, ge LLAMA_GRETYPE_CHAR 97, ge LLAMA_GRETYPE_CHAR_RNG_UPPER 99, ge LLAMA_GRETYPE_END 0]]"

text \<open>
  C6: On a grammar without left recursion, \<open>llama_grammar_init_impl\<close>'s initial stacks and the loop of
  \<open>llama_grammar_accept\<close> over the code points of a text return, and the stacks recognise the language of the
  grammar: the empty stack is there (the grammar may end) exactly when the start rule derives the text read so
  far, and when no stack is left the text is no prefix of a sentence.
\<close>

theorem grammar_recognises_language:
  assumes "grammar_ok rules" and "no_left_recursion rules" and "r < length rules"
  shows "\<exists>stks stks'. initial_stacks rules r = Some stks \<and> accept_chars rules cs stks = Some stks' \<and>
    ([] \<in> set stks' \<longleftrightarrow> yields rules [SRef r] cs) \<and> (stks' = [] \<longrightarrow> (\<forall>w. \<not> yields rules [SRef r] (cs @ w)))"
proof -
  note safe = no_left_recursion_safe [OF assms(1,2)]
  from initial_stacks_correct [OF assms(1) safe assms(3)] obtain stks where s: "initial_stacks rules r = Some stks"
    "stacks_ok rules stks" "\<forall>w. stacks_lang rules stks w \<longleftrightarrow> yields rules [SRef r] w" by blast
  from accept_chars_correct [OF assms(1) safe s(2)] obtain stks' where t: "accept_chars rules cs stks = Some stks'"
    "stacks_ok rules stks'" "\<forall>w. stacks_lang rules stks' w \<longleftrightarrow> stacks_lang rules stks (cs @ w)" by blast
  have "[] \<in> set stks' \<longleftrightarrow> yields rules [SRef r] cs" using stacks_lang_Nil [OF t(2)] t(3) s(3) by (metis append_Nil2)
  moreover have "\<not> yields rules [SRef r] (cs @ w)" if "stks' = []" for w
    using that t(3) s(3) by (metis stacks_lang_def empty_iff list.set(1))
  ultimately show ?thesis using s(1) t(1) by blast
qed

text \<open>
  C30: The check for left recursion returns on every well-formed grammar; a grammar that it rejects is left
  recursive, and when every rule that derives the empty text has an empty alternate of its own, it rejects all
  left recursive grammars.
\<close>

theorem left_recursion_check:
  assumes "grammar_ok rules"
  shows "\<exists>b. check_left_recursion rules = Some b \<and> (b \<longrightarrow> \<not> no_left_recursion rules) \<and>
    (empty_rules_direct rules \<longrightarrow> \<not> no_left_recursion rules \<longrightarrow> b)"
proof -
  let ?b = "\<exists>r. (scan_ref rules)\<^sup>+\<^sup>+ r r"
  have "\<not> no_left_recursion rules" if c: ?b
  proof -
    from c obtain r where "(scan_ref rules)\<^sup>+\<^sup>+ r r" by blast
    then have "(left_ref rules)\<^sup>+\<^sup>+ r r" by (rule tranclp_weaken [rotated]) (rule scan_ref_left_ref [OF assms])
    then show ?thesis unfolding no_left_recursion_def by (auto intro: exI [of _ r])
  qed
  moreover have ?b if d: "empty_rules_direct rules" and n: "\<not> no_left_recursion rules"
  proof -
    from n obtain r where "(left_ref rules)\<^sup>+\<^sup>+ r r" unfolding no_left_recursion_def by auto
    then have "(scan_ref rules)\<^sup>+\<^sup>+ r r" by (rule tranclp_weaken [rotated]) (rule left_ref_scan_ref [OF assms d])
    then show ?thesis by (rule exI)
  qed
  ultimately show ?thesis
    unfolding check_left_recursion_cycle [OF assms] by (intro exI [of _ ?b]) simp
qed

lemma ex_grammar_ok: "grammar_ok ex_grammar"
  by code_simp

lemma ex_grammar_alts: "alts (ex_grammar ! 0) = [
    [SChar [ge LLAMA_GRETYPE_CHAR 40], SRef 0, SChar [ge LLAMA_GRETYPE_CHAR 41], SRef 0],
    [SChar [ge LLAMA_GRETYPE_CHAR 97, ge LLAMA_GRETYPE_CHAR_RNG_UPPER 99]]]"
  by code_simp

lemma ex_grammar_direct: "empty_rules_direct ex_grammar"
proof -
  have "\<not> yields ex_grammar [SRef 0] []"
    unfolding yields_Ref_iff [of _ 0 "[]" "[]"] ex_grammar_alts by simp
  then show ?thesis by (auto simp: empty_rules_direct_def ex_grammar_def)
qed

lemma ex_grammar_no_rec: "no_left_recursion ex_grammar"
proof -
  have "check_left_recursion ex_grammar = Some False" by code_simp
  then have "\<not> (\<exists>r. (scan_ref ex_grammar)\<^sup>+\<^sup>+ r r)" using check_left_recursion_cycle [OF ex_grammar_ok] by simp
  moreover have "left_ref ex_grammar = scan_ref ex_grammar"
    by (intro ext) (rule iffI, erule left_ref_scan_ref [OF ex_grammar_ok ex_grammar_direct], erule scan_ref_left_ref [OF ex_grammar_ok])
  ultimately show ?thesis by (simp add: no_left_recursion_def)
qed

text \<open>The grammar above reads \<open>(a)b\<close>.\<close>

theorem grammar_recognises_language_witness:
  "\<exists>stks stks'. initial_stacks ex_grammar 0 = Some stks \<and> accept_chars ex_grammar [40, 97, 41, 98] stks = Some stks' \<and>
    ([] \<in> set stks' \<longleftrightarrow> yields ex_grammar [SRef 0] [40, 97, 41, 98])"
  using grammar_recognises_language [OF ex_grammar_ok ex_grammar_no_rec, of 0 "[40, 97, 41, 98]"] by (auto simp: ex_grammar_def)

theorem left_recursion_check_witness:
  "grammar_ok ex_grammar \<and> (\<exists>b. check_left_recursion ex_grammar = Some b \<and> \<not> b)"
  using left_recursion_check [OF ex_grammar_ok] ex_grammar_ok ex_grammar_no_rec by blast

text \<open>\<open>root ::= a root | "x"\<close>, \<open>a ::= b\<close> and \<open>b ::= | "b"\<close>: \<open>root\<close> is left recursive behind \<open>a\<close>, which is empty through \<open>b\<close>.\<close>

definition hidden_rules :: llama_grammar_rules where
  "hidden_rules = [
     [ge LLAMA_GRETYPE_RULE_REF 1, ge LLAMA_GRETYPE_RULE_REF 0, ge LLAMA_GRETYPE_ALT 0, ge LLAMA_GRETYPE_CHAR 120, ge LLAMA_GRETYPE_END 0],
     [ge LLAMA_GRETYPE_RULE_REF 2, ge LLAMA_GRETYPE_END 0],
     [ge LLAMA_GRETYPE_ALT 0, ge LLAMA_GRETYPE_CHAR 98, ge LLAMA_GRETYPE_END 0]]"

lemma hidden_cycle: "(expand hidden_rules)\<^sup>+\<^sup>+ [(0, 0)] [(0, 0)]"
proof -
  have "expand hidden_rules [(0, 0)] [(1, 0), (0, 1)]"
    by (rule expandI [of hidden_rules _ "ge LLAMA_GRETYPE_RULE_REF 1" "hidden_rules ! 1" "[0]" 0 _ "[(0, 1)]"]) code_simp+
  moreover have "expand hidden_rules [(1, 0), (0, 1)] [(0, 1)]"
    by (rule expandI [of hidden_rules _ "ge LLAMA_GRETYPE_RULE_REF 2" "hidden_rules ! 2" "[0, 1]" 0 _ "[(0, 1)]"]) code_simp+
  moreover have "expand hidden_rules [(0, 1)] [(0, 0)]"
    by (rule expandI [of hidden_rules _ "ge LLAMA_GRETYPE_RULE_REF 0" "hidden_rules ! 0" "[0, 3]" 0 _ "[]"]) code_simp+
  ultimately show ?thesis by (meson tranclp.intros)
qed

text \<open>
  C31: Left recursion behind a rule that is empty only through another rule escapes the check, and the
  construction of the initial stacks does not return on such a grammar.
\<close>

theorem hidden_left_recursion:
  "grammar_ok hidden_rules \<and> check_left_recursion hidden_rules = Some False \<and> initial_stacks hidden_rules 0 = None"
proof -
  have "llama_grammar_advance_stack hidden_rules [(0, 0)] [] = None"
    using expand_cycle_infinite [OF hidden_cycle] advance_stack_finite by (metis not_Some_eq)
  moreover have "push_pos hidden_rules (0, 0) [] = Some [(0, 0)]" by code_simp
  moreover have "at hidden_rules 0 = Some (hidden_rules ! 0)" "alt_starts 0 0 (hidden_rules ! 0) = Some [0, 3]" by code_simp+
  ultimately have "initial_stacks hidden_rules 0 = None" by (simp add: initial_stacks_def)
  moreover have "grammar_ok hidden_rules" "check_left_recursion hidden_rules = Some False" by code_simp+
  ultimately show ?thesis by simp
qed


end
