(* ===== verification/Unicode.thy ===== *)
theory Unicode
  imports Prelude
begin

text \<open>
  UTF-8 in \<open>src/src/unicode.cpp\<close>: encoding and decoding of code points and the byte alphabet of the BPE
  tokenizers.

  A \<open>std::string\<close> is a \<open>string\<close>; \<open>ub\<close> reads a \<open>char\<close> as \<open>uint8_t\<close>.  Code points are \<open>uint32_t\<close>: non-negative \<open>int\<close>s.
  Masks of low bits, shifts and the union of disjoint bits are written with \<open>mod\<close>, \<open>div\<close> and \<open>+\<close>.  \<open>None\<close> is a thrown
  \<open>std::invalid_argument\<close> (or \<open>std::out_of_range\<close> of \<open>map.at\<close>).
\<close>

section \<open>Bytes\<close>

definition ub :: "char \<Rightarrow> int" where
  "ub c = of_char c"

definition chr_of :: "int \<Rightarrow> char" where
  "chr_of n = char_of n"

text \<open>\<open>s[i]\<close>: the byte at \<open>size()\<close> is 0.\<close>

definition byte_at :: "string \<Rightarrow> nat \<Rightarrow> int" where
  "byte_at s i = (if i < length s then ub (s ! i) else 0)"

abbreviation bit_set :: "int \<Rightarrow> int \<Rightarrow> bool" where
  "bit_set b m \<equiv> b div m mod 2 = 1"

abbreviation is_cont_byte :: "int \<Rightarrow> bool" where
  "is_cont_byte b \<equiv> b div 64 = 2"

lemma ub_range [simp]: "0 \<le> ub c" "ub c < 256"
  by (simp_all add: ub_def of_char_def)

lemma ub_chr_of: "ub (chr_of n) = n mod 256"
  by (simp add: ub_def chr_of_def)

lemma ub_chr_of_id [simp]: "0 \<le> n \<Longrightarrow> n < 256 \<Longrightarrow> ub (chr_of n) = n"
  by (simp add: ub_chr_of)

lemma ub_inj: "ub c = ub d \<longleftrightarrow> c = d"
  by (simp add: ub_def)

section \<open>Code points\<close>

definition utf8_lookup :: "nat list" where
  "utf8_lookup = [1, 1, 1, 1, 1, 1, 1, 1, 1, 1, 1, 1, 2, 2, 3, 4]"

definition unicode_len_utf8 :: "char \<Rightarrow> nat" where
  "unicode_len_utf8 src = utf8_lookup ! nat (ub src div 16)"

text \<open>The result is the code point and the new offset.\<close>

definition unicode_cpt_from_utf8 :: "string \<Rightarrow> nat \<Rightarrow> (int \<times> nat) option" where
  "unicode_cpt_from_utf8 utf8 offset =
     (let b0 = byte_at utf8 offset; b1 = byte_at utf8 (offset + 1); b2 = byte_at utf8 (offset + 2); b3 = byte_at utf8 (offset + 3) in
      if \<not> bit_set b0 128 then Some (b0, offset + 1)
      else if \<not> bit_set b0 64 then None
      else if \<not> bit_set b0 32 then
        (if offset + 1 \<ge> length utf8 \<or> \<not> is_cont_byte b1 then None
         else Some (b0 mod 32 * 64 + b1 mod 64, offset + 2))
      else if \<not> bit_set b0 16 then
        (if offset + 2 \<ge> length utf8 \<or> \<not> is_cont_byte b1 \<or> \<not> is_cont_byte b2 then None
         else Some (b0 mod 16 * 4096 + b1 mod 64 * 64 + b2 mod 64, offset + 3))
      else if \<not> bit_set b0 8 then
        (if offset + 3 \<ge> length utf8 \<or> \<not> is_cont_byte b1 \<or> \<not> is_cont_byte b2 \<or> \<not> is_cont_byte b3 then None
         else Some (b0 mod 8 * 262144 + b1 mod 64 * 4096 + b2 mod 64 * 64 + b3 mod 64, offset + 4))
      else None)"

definition unicode_cpt_to_utf8 :: "int \<Rightarrow> string option" where
  "unicode_cpt_to_utf8 cpt =
     (if cpt \<le> 127 then Some [chr_of cpt]
      else if 128 \<le> cpt \<and> cpt \<le> 2047 then Some [chr_of (192 + cpt div 64 mod 32), chr_of (128 + cpt mod 64)]
      else if 2048 \<le> cpt \<and> cpt \<le> 65535 then
        Some [chr_of (224 + cpt div 4096 mod 16), chr_of (128 + cpt div 64 mod 64), chr_of (128 + cpt mod 64)]
      else if 65536 \<le> cpt \<and> cpt \<le> 1114111 then
        Some [chr_of (240 + cpt div 262144 mod 8), chr_of (128 + cpt div 4096 mod 64), chr_of (128 + cpt div 64 mod 64), chr_of (128 + cpt mod 64)]
      else None)"

definition unicode_cpts_to_utf8 :: "int list \<Rightarrow> string option" where
  "unicode_cpts_to_utf8 cps = for_each (\<lambda>c result. do { s \<leftarrow> unicode_cpt_to_utf8 c; Some (result @ s) }) cps []"

lemma unicode_cpt_from_utf8_advance: "unicode_cpt_from_utf8 utf8 offset = Some (c, offset') \<Longrightarrow> offset < offset'"
  unfolding unicode_cpt_from_utf8_def Let_def by (simp only: option.inject option.distinct prod.inject simp_thms split: if_split_asm; elim conjE; hypsubst; simp only: less_add_same_cancel1 zero_less_numeral zero_less_one)

text \<open>An invalid sequence counts as one replacement character, and one byte is skipped.\<close>

function cpts_from_utf8_loop :: "string \<Rightarrow> nat \<Rightarrow> int list \<Rightarrow> int list" where
  "cpts_from_utf8_loop utf8 offset result =
     (if offset < length utf8 then
        (case unicode_cpt_from_utf8 utf8 offset of
           Some (c, offset) \<Rightarrow> cpts_from_utf8_loop utf8 offset (result @ [c])
         | None \<Rightarrow> cpts_from_utf8_loop utf8 (offset + 1) (result @ [65533]))
      else result)"
  by pat_completeness auto
termination
  by (relation "measure (\<lambda>(utf8, offset, result). length utf8 - offset)")
    (auto intro!: diff_less_mono2 dest: unicode_cpt_from_utf8_advance)

declare cpts_from_utf8_loop.simps [simp del]

definition unicode_cpts_from_utf8 :: "string \<Rightarrow> int list" where
  "unicode_cpts_from_utf8 utf8 = cpts_from_utf8_loop utf8 0 []"

section \<open>Encoding and decoding\<close>

text \<open>The code points that the encoder accepts.\<close>

abbreviation is_cpt :: "int \<Rightarrow> bool" where
  "is_cpt c \<equiv> 0 \<le> c \<and> c \<le> 1114111"

text \<open>The bytes of a code point, by its length.\<close>

lemma encode_cases:
  assumes "is_cpt c"
  obtains (B1) "c \<le> 127" "unicode_cpt_to_utf8 c = Some [chr_of c]"
  | (B2) x y where "0 \<le> x" "x < 32" "0 \<le> y" "y < 64" "c = x * 64 + y" "c \<ge> 128"
      "unicode_cpt_to_utf8 c = Some [chr_of (192 + x), chr_of (128 + y)]"
  | (B3) x y z where "0 \<le> x" "x < 16" "0 \<le> y" "y < 64" "0 \<le> z" "z < 64" "c = x * 4096 + y * 64 + z" "c \<ge> 2048"
      "unicode_cpt_to_utf8 c = Some [chr_of (224 + x), chr_of (128 + y), chr_of (128 + z)]"
  | (B4) x y z w where "0 \<le> x" "x < 5" "0 \<le> y" "y < 64" "0 \<le> z" "z < 64" "0 \<le> w" "w < 64"
      "c = x * 262144 + y * 4096 + z * 64 + w" "c \<ge> 65536"
      "unicode_cpt_to_utf8 c = Some [chr_of (240 + x), chr_of (128 + y), chr_of (128 + z), chr_of (128 + w)]"
proof -
  consider "c \<le> 127" | "128 \<le> c" "c \<le> 2047" | "2048 \<le> c" "c \<le> 65535" | "65536 \<le> c" by linarith
  then show ?thesis
  proof cases
    case 1
    then show ?thesis by (intro B1) (simp_all add: unicode_cpt_to_utf8_def)
  next
    case 2
    then have f: "0 \<le> c div 64" "c div 64 < 32" by linarith+
    then have m: "c div 64 mod 32 = c div 64" by (rule mod_pos_pos_trivial)
    show ?thesis by (rule B2 [of "c div 64" "c mod 64"]) (use 2 f m in \<open>simp_all add: unicode_cpt_to_utf8_def\<close>)
  next
    case 3
    then have f: "0 \<le> c div 4096" "c div 4096 < 16" by linarith+
    then have m: "c div 4096 mod 16 = c div 4096" by (rule mod_pos_pos_trivial)
    have "c div 4096 = c div 64 div 64" using zdiv_zmult2_eq [of 64 c 64] by simp
    then have e: "c = c div 4096 * 4096 + c div 64 mod 64 * 64 + c mod 64"
      using div_mult_mod_eq [of c 64] div_mult_mod_eq [of "c div 64" 64] by linarith
    show ?thesis
      by (rule B3 [of "c div 4096" "c div 64 mod 64" "c mod 64"]) ((rule e | use 3 f m in \<open>simp add: unicode_cpt_to_utf8_def\<close>)+)
  next
    case 4
    with assms have f: "0 \<le> c div 262144" "c div 262144 < 5" by linarith+
    then have m: "c div 262144 mod 8 = c div 262144" by (intro mod_pos_pos_trivial) simp_all
    have "c div 4096 = c div 64 div 64" "c div 262144 = c div 4096 div 64"
      using zdiv_zmult2_eq [of 64 c 64] zdiv_zmult2_eq [of 64 c 4096] by simp_all
    then have e: "c = c div 262144 * 262144 + c div 4096 mod 64 * 4096 + c div 64 mod 64 * 64 + c mod 64"
      using div_mult_mod_eq [of c 64] div_mult_mod_eq [of "c div 64" 64] div_mult_mod_eq [of "c div 4096" 64] by linarith
    show ?thesis
      by (rule B4 [of "c div 262144" "c div 4096 mod 64" "c div 64 mod 64" "c mod 64"])
        ((rule e | use 4 assms f m in \<open>simp add: unicode_cpt_to_utf8_def\<close>)+)
  qed
qed

lemma byte_at_append:
  "byte_at (xs @ ys) (length xs + k) = byte_at ys k" "byte_at (xs @ ys) (length xs) = byte_at ys 0"
  by (simp_all add: byte_at_def nth_append)

lemma byte_at_Cons [simp]: "byte_at (c # cs) 0 = ub c" "byte_at (c # cs) (Suc k) = byte_at cs k"
  by (simp_all add: byte_at_def)

text \<open>Reading at the start of an encoded code point.\<close>

lemma cpt_from_utf8_append: "unicode_cpt_from_utf8 (xs @ ys) (length xs) = map_option (\<lambda>(c, n). (c, length xs + n)) (unicode_cpt_from_utf8 ys 0)"
proof -
  have l: "length xs + k \<ge> length (xs @ ys) \<longleftrightarrow> 0 + k \<ge> length ys" for k by simp
  have f: "map_option f (if b then x else y) = (if b then map_option f x else map_option f y)" for f :: "int \<times> nat \<Rightarrow> int \<times> nat" and b x y by simp
  have z: "byte_at ys (0 + k) = byte_at ys k" for k by simp
  show ?thesis
    unfolding unicode_cpt_from_utf8_def Let_def byte_at_append l z f by (simp only: option.map case_prod_conv add_0)
qed

lemma cpt_from_1: "b0 = byte_at s 0 \<Longrightarrow> \<not> bit_set b0 128 \<Longrightarrow> unicode_cpt_from_utf8 s 0 = Some (b0, 1)"
  unfolding unicode_cpt_from_utf8_def Let_def by (simp only: if_True simp_thms add_0)

lemma cpt_from_2: "b0 = byte_at s 0 \<Longrightarrow> b1 = byte_at s 1 \<Longrightarrow> bit_set b0 128 \<Longrightarrow> bit_set b0 64 \<Longrightarrow> \<not> bit_set b0 32 \<Longrightarrow>
    \<not> length s \<le> 1 \<Longrightarrow> is_cont_byte b1 \<Longrightarrow> unicode_cpt_from_utf8 s 0 = Some (b0 mod 32 * 64 + b1 mod 64, 2)"
  unfolding unicode_cpt_from_utf8_def Let_def by (simp only: if_True if_False simp_thms add_0)

lemma cpt_from_3: "b0 = byte_at s 0 \<Longrightarrow> b1 = byte_at s 1 \<Longrightarrow> b2 = byte_at s 2 \<Longrightarrow> bit_set b0 128 \<Longrightarrow> bit_set b0 64 \<Longrightarrow> bit_set b0 32 \<Longrightarrow>
    \<not> bit_set b0 16 \<Longrightarrow> \<not> length s \<le> 2 \<Longrightarrow> is_cont_byte b1 \<Longrightarrow> is_cont_byte b2 \<Longrightarrow>
    unicode_cpt_from_utf8 s 0 = Some (b0 mod 16 * 4096 + b1 mod 64 * 64 + b2 mod 64, 3)"
  unfolding unicode_cpt_from_utf8_def Let_def by (simp only: if_True if_False simp_thms add_0)

lemma cpt_from_4: "b0 = byte_at s 0 \<Longrightarrow> b1 = byte_at s 1 \<Longrightarrow> b2 = byte_at s 2 \<Longrightarrow> b3 = byte_at s 3 \<Longrightarrow> bit_set b0 128 \<Longrightarrow> bit_set b0 64 \<Longrightarrow>
    bit_set b0 32 \<Longrightarrow> bit_set b0 16 \<Longrightarrow> \<not> bit_set b0 8 \<Longrightarrow> \<not> length s \<le> 3 \<Longrightarrow> is_cont_byte b1 \<Longrightarrow> is_cont_byte b2 \<Longrightarrow> is_cont_byte b3 \<Longrightarrow>
    unicode_cpt_from_utf8 s 0 = Some (b0 mod 8 * 262144 + b1 mod 64 * 4096 + b2 mod 64 * 64 + b3 mod 64, 4)"
  unfolding unicode_cpt_from_utf8_def Let_def by (simp only: if_True if_False simp_thms add_0)

lemma mod_from_div: "a div m = q \<Longrightarrow> a mod m = a - m * q" for a m :: int
  by (simp add: minus_mult_div_eq_mod [symmetric])

lemma cont_byte: "0 \<le> y \<Longrightarrow> y < 64 \<Longrightarrow> (128 + y) div 64 = 2 \<and> (128 + y) mod 64 = (y :: int)"
  using mod_from_div [of "128 + y" 64 2] by linarith

lemma byte_at_nth [simp]: "byte_at (a # b # s) 1 = ub b" "byte_at (a # b # c # s) 2 = ub c" "byte_at (a # b # c # d # s) 3 = ub d"
  by (simp_all add: byte_at_def)

lemma cpt_from_utf8_encode:
  assumes "is_cpt c" and "unicode_cpt_to_utf8 c = Some s"
  shows "unicode_cpt_from_utf8 (s @ post) 0 = Some (c, length s)"
  using assms(1)
proof (cases rule: encode_cases)
  case B1
  have "c div 128 = 0" using B1(1) assms(1) by (intro div_pos_pos_trivial) simp_all
  then show ?thesis using B1 assms by (subst cpt_from_1 [of c]) simp_all
next
  case (B2 x y)
  have d: "(192 + x) div 128 = 1" "(192 + x) div 64 = 3" "(192 + x) div 32 = 6" using B2(1,2) by linarith+
  have u: "ub (chr_of (192 + x)) = 192 + x" "ub (chr_of (128 + y)) = 128 + y" using B2(1-4) by simp_all
  have s: "s = [chr_of (192 + x), chr_of (128 + y)]" using assms(2) B2(7) by simp
  have "unicode_cpt_from_utf8 (s @ post) 0 = Some ((192 + x) mod 32 * 64 + (128 + y) mod 64, 2)"
    by (rule cpt_from_2) (simp_all add: s d u cont_byte B2(1-4))
  then show ?thesis by (simp only: s mod_from_div [OF d(3)] cont_byte [OF B2(3,4)] B2(5)) simp
next
  case (B3 x y z)
  have d: "(224 + x) div 128 = 1" "(224 + x) div 64 = 3" "(224 + x) div 32 = 7" "(224 + x) div 16 = 14" using B3(1,2) by linarith+
  have u: "ub (chr_of (224 + x)) = 224 + x" "ub (chr_of (128 + y)) = 128 + y" "ub (chr_of (128 + z)) = 128 + z" using B3(1-6) by simp_all
  have s: "s = [chr_of (224 + x), chr_of (128 + y), chr_of (128 + z)]" using assms(2) B3(9) by simp
  have "unicode_cpt_from_utf8 (s @ post) 0 = Some ((224 + x) mod 16 * 4096 + (128 + y) mod 64 * 64 + (128 + z) mod 64, 3)"
    by (rule cpt_from_3) (simp_all add: s d u cont_byte B3(1-6))
  then show ?thesis by (simp only: s mod_from_div [OF d(4)] cont_byte [OF B3(3,4)] cont_byte [OF B3(5,6)] B3(7)) simp
next
  case (B4 x y z w)
  have d: "(240 + x) div 128 = 1" "(240 + x) div 64 = 3" "(240 + x) div 32 = 7" "(240 + x) div 16 = 15" "(240 + x) div 8 = 30"
    using B4(1,2) by linarith+
  have u: "ub (chr_of (240 + x)) = 240 + x" "ub (chr_of (128 + y)) = 128 + y" "ub (chr_of (128 + z)) = 128 + z" "ub (chr_of (128 + w)) = 128 + w" using B4(1-8) by simp_all
  have s: "s = [chr_of (240 + x), chr_of (128 + y), chr_of (128 + z), chr_of (128 + w)]" using assms(2) B4(11) by simp
  have "unicode_cpt_from_utf8 (s @ post) 0 =
      Some ((240 + x) mod 8 * 262144 + (128 + y) mod 64 * 4096 + (128 + z) mod 64 * 64 + (128 + w) mod 64, 4)"
    by (rule cpt_from_4) (simp_all add: s d u cont_byte B4(1-8))
  then show ?thesis
    by (simp only: s mod_from_div [OF d(5)] cont_byte [OF B4(3,4)] cont_byte [OF B4(5,6)] cont_byte [OF B4(7,8)] B4(9)) simp
qed

definition enc :: "int \<Rightarrow> string" where
  "enc c = the (unicode_cpt_to_utf8 c)"

definition encode :: "int list \<Rightarrow> string" where
  "encode cps = concat (map enc cps)"

lemma encode_Some: "is_cpt c \<Longrightarrow> unicode_cpt_to_utf8 c = Some (enc c) \<and> enc c \<noteq> []"
  by (erule encode_cases) (auto simp: enc_def)

lemma cpts_to_utf8_encode:
  assumes "\<forall>c\<in>set cps. is_cpt c"
  shows "unicode_cpts_to_utf8 cps = Some (encode cps)"
proof -
  have "for_each (\<lambda>c result. do { s \<leftarrow> unicode_cpt_to_utf8 c; Some (result @ s) }) cps r = Some (r @ encode cps)" for r
    using assms
  proof (induction cps arbitrary: r)
    case (Cons c cps)
    with encode_Some [of c] have "unicode_cpt_to_utf8 c = Some (enc c)" by auto
    with Cons show ?case by (simp add: encode_def)
  qed (simp add: encode_def)
  then show ?thesis by (simp add: unicode_cpts_to_utf8_def)
qed

lemma cpts_from_utf8_encode:
  assumes "\<forall>c\<in>set cps. is_cpt c"
  shows "cpts_from_utf8_loop (pre @ encode cps) (length pre) result = result @ cps"
  using assms
proof (induction cps arbitrary: pre result)
  case Nil
  show ?case by (subst cpts_from_utf8_loop.simps) (simp add: encode_def)
next
  case (Cons c cps)
  then obtain s where s: "unicode_cpt_to_utf8 c = Some s" "s \<noteq> []" "enc c = s" using encode_Some [of c] by auto
  have e: "encode (c # cps) = s @ encode cps" using s by (simp add: encode_def)
  have "unicode_cpt_from_utf8 (pre @ s @ encode cps) (length pre) = Some (c, length (pre @ s))"
    using cpt_from_utf8_encode [of c s "encode cps"] Cons.prems s by (simp add: cpt_from_utf8_append)
  moreover have "cpts_from_utf8_loop ((pre @ s) @ encode cps) (length (pre @ s)) (result @ [c]) = (result @ [c]) @ cps"
    by (rule Cons.IH) (use Cons.prems in simp)
  ultimately show ?case unfolding e using s by (subst cpts_from_utf8_loop.simps) simp
qed

text \<open>
  Decoding the UTF-8 encoding of any code points up to \<open>0x10FFFF\<close> gives these code points back.
\<close>

theorem utf8_roundtrip:
  assumes "\<forall>c\<in>set cps. is_cpt c"
  shows "\<exists>s. unicode_cpts_to_utf8 cps = Some s \<and> unicode_cpts_from_utf8 s = cps"
  using cpts_to_utf8_encode [OF assms] cpts_from_utf8_encode [OF assms, of "[]" "[]"] by (simp add: unicode_cpts_from_utf8_def)

theorem utf8_roundtrip_witness: "\<exists>s. unicode_cpts_to_utf8 [97, 233, 8364, 128512] = Some s \<and> unicode_cpts_from_utf8 s = [97, 233, 8364, 128512]"
  using utf8_roundtrip [of "[97, 233, 8364, 128512]"] by simp


section \<open>The byte alphabet\<close>

text \<open>
  The tokenizers write every byte as a printable code point.  The maps are built by the same loops; the keys of the
  second one are the values of the first.
\<close>

definition printable_loops :: "(int \<Rightarrow> 'm \<Rightarrow> 'm option) \<Rightarrow> 'm \<Rightarrow> 'm option" where
  "printable_loops f m = do {
     m \<leftarrow> for_each f [0x21..0x7E] m;
     m \<leftarrow> for_each f [0xA1..0xAC] m;
     for_each f [0xAE..0xFF] m }"

definition unicode_byte_to_utf8_map :: "(int \<rightharpoonup> string) option" where
  "unicode_byte_to_utf8_map = do {
     m \<leftarrow> printable_loops (\<lambda>ch m. do { s \<leftarrow> unicode_cpt_to_utf8 ch; Some (m(ch \<mapsto> s)) }) Map.empty;
     (m, n) \<leftarrow> for_each (\<lambda>ch (m, n).
         if m ch = None then do { s \<leftarrow> unicode_cpt_to_utf8 (256 + n); Some (m(ch \<mapsto> s), n + 1) } else Some (m, n))
       (map int [0..<256]) (m, 0);
     Some m }"

definition unicode_utf8_to_byte_map :: "(string \<rightharpoonup> int) option" where
  "unicode_utf8_to_byte_map = do {
     m \<leftarrow> printable_loops (\<lambda>ch m. do { s \<leftarrow> unicode_cpt_to_utf8 ch; Some (m(s \<mapsto> ch)) }) Map.empty;
     (m, n) \<leftarrow> for_each (\<lambda>ch (m, n). do {
         t \<leftarrow> unicode_cpt_to_utf8 ch;
         if m t = None then do { s \<leftarrow> unicode_cpt_to_utf8 (256 + n); Some (m(s \<mapsto> ch), n + 1) } else Some (m, n) })
       (map int [0..<256]) (m, 0);
     Some m }"

definition unicode_byte_to_utf8 :: "int \<Rightarrow> string option" where
  "unicode_byte_to_utf8 byte = do { m \<leftarrow> unicode_byte_to_utf8_map; m byte }"

definition unicode_utf8_to_byte :: "string \<Rightarrow> int option" where
  "unicode_utf8_to_byte utf8 = do { m \<leftarrow> unicode_utf8_to_byte_map; m utf8 }"

text \<open>\<open>unicode_byte_encoding_process\<close> on one word and on all.\<close>

definition encode_word :: "string \<Rightarrow> string option" where
  "encode_word word = do {
     text_utf \<leftarrow> for_each (\<lambda>c text_utf. do { s \<leftarrow> unicode_cpt_to_utf8 c; Some (text_utf @ s) }) (unicode_cpts_from_utf8 word) [];
     for_each (\<lambda>c encoded_token. do { s \<leftarrow> unicode_byte_to_utf8 (ub c); Some (encoded_token @ s) }) text_utf [] }"

definition unicode_byte_encoding_process :: "string list \<Rightarrow> string list option" where
  "unicode_byte_encoding_process bpe_words =
     for_each (\<lambda>word words. do { w \<leftarrow> encode_word word; Some (words @ [w]) }) bpe_words []"

definition printable :: "int \<Rightarrow> bool" where
  "printable ch \<longleftrightarrow> 0x21 \<le> ch \<and> ch \<le> 0x7E \<or> 0xA1 \<le> ch \<and> ch \<le> 0xAC \<or> 0xAE \<le> ch \<and> ch \<le> 0xFF"

definition rank_below :: "nat \<Rightarrow> int" where
  "rank_below k = int (card {i. i < k \<and> \<not> printable (int i)})"

definition byte_cpt :: "int \<Rightarrow> int" where
  "byte_cpt ch = (if printable ch then ch else 256 + rank_below (nat ch))"

lemma enc_Some: "is_cpt c \<Longrightarrow> unicode_cpt_to_utf8 c = Some (enc c)"
  using encode_Some by blast

lemma enc_inj: "is_cpt c \<Longrightarrow> is_cpt d \<Longrightarrow> enc c = enc d \<longleftrightarrow> c = d"
  using cpt_from_utf8_encode [of c "enc c" "[]"] cpt_from_utf8_encode [of d "enc d" "[]"] enc_Some by (metis option.inject prod.inject)

lemma rank_below_Suc: "rank_below (Suc k) = rank_below k + (if printable (int k) then 0 else 1)"
proof -
  have "{i. i < Suc k \<and> \<not> printable (int i)} = {i. i < k \<and> \<not> printable (int i)} \<union> (if printable (int k) then {} else {k})"
    by (auto simp: less_Suc_eq)
  then show ?thesis by (simp add: rank_below_def)
qed

lemma rank_below_bounds: "0 \<le> rank_below k" "rank_below k \<le> int k"
proof -
  have "card {i. i < k \<and> \<not> printable (int i)} \<le> card {..<k}" by (rule card_mono) auto
  then show "0 \<le> rank_below k" "rank_below k \<le> int k" by (simp_all add: rank_below_def)
qed

lemma rank_below_mono: "j < k \<Longrightarrow> \<not> printable (int j) \<Longrightarrow> rank_below j < rank_below k"
proof (induction k)
  case (Suc k)
  then show ?case by (cases "j = k") (auto simp: rank_below_Suc)
qed simp

lemma byte_cpt_is_cpt: "0 \<le> ch \<Longrightarrow> ch < 256 \<Longrightarrow> is_cpt (byte_cpt ch)"
  using rank_below_bounds [of "nat ch"] by (auto simp: byte_cpt_def printable_def)

lemma printable_byte: "printable ch \<Longrightarrow> 0 \<le> ch \<and> ch < 256"
  by (auto simp: printable_def)

lemma byte_cpt_inj:
  assumes "0 \<le> a" "a < 256" "0 \<le> b" "b < 256" "byte_cpt a = byte_cpt b"
  shows "a = b"
proof (cases "printable a \<or> printable b")
  case True
  then show ?thesis using assms rank_below_bounds [of "nat a"] rank_below_bounds [of "nat b"] printable_byte [of a] printable_byte [of b]
    by (auto simp: byte_cpt_def split: if_splits)
next
  case False
  then have "rank_below (nat a) = rank_below (nat b)" using assms(5) by (simp add: byte_cpt_def)
  with False assms show ?thesis
    using rank_below_mono [of "nat a" "nat b"] rank_below_mono [of "nat b" "nat a"] by (cases "nat a" "nat b" rule: linorder_cases) auto
qed

lemma printable_set: "{0x21..0x7E} \<union> {0xA1..0xAC} \<union> {0xAE..0xFF} = {ch. printable ch}"
  by (auto simp: printable_def)

lemma for_each_snoc: "for_each f (xs @ [x]) s = Option.bind (for_each f xs s) (f x)"
proof -
  have "for_each f [] = Some" by (rule ext) simp
  then show ?thesis by (simp add: for_each_append)
qed

lemma map_int_upt_Suc: "map int [0..<Suc k] = map int [0..<k] @ [int k]"
  by simp

text \<open>The printable part of a map whose keys and values are given by functions.\<close>

lemma for_each_update:
  assumes "\<And>x. x \<in> set xs \<Longrightarrow> is_cpt x"
  shows "for_each (\<lambda>ch m. do { s \<leftarrow> unicode_cpt_to_utf8 ch; Some (m(ch \<mapsto> s)) }) xs m = Some (\<lambda>c. if c \<in> set xs then Some (enc c) else m c)"
  using assms
proof (induction xs arbitrary: m)
  case (Cons x xs)
  then show ?case using enc_Some [of x] by (simp add: fun_eq_iff)
qed simp

definition printables :: "int list" where
  "printables = [0x21..0x7E] @ [0xA1..0xAC] @ [0xAE..0xFF]"

lemma set_printables [simp]: "set printables = {ch. printable ch}"
  unfolding printables_def set_append set_upto printable_set [symmetric] by (simp only: Un_assoc)

lemma printable_loops_eq: "printable_loops f m = for_each f printables m"
  unfolding printable_loops_def printables_def by (simp only: for_each_append)

lemma printable_byte_map:
  "printable_loops (\<lambda>ch m. do { s \<leftarrow> unicode_cpt_to_utf8 ch; Some (m(ch \<mapsto> s)) }) Map.empty = Some (\<lambda>c. if printable c then Some (enc c) else None)"
  unfolding printable_loops_eq by (subst for_each_update) (auto dest: printable_byte)

lemma byte_map_eq: "unicode_byte_to_utf8_map = Some (\<lambda>c. if 0 \<le> c \<and> c < 256 then Some (enc (byte_cpt c)) else None)"
proof -
  let ?f = "\<lambda>ch (m, n). if m ch = None then do { s \<leftarrow> unicode_cpt_to_utf8 (256 + n); Some (m(ch \<mapsto> s), n + 1) } else Some (m, n)"
  let ?m = "\<lambda>k c. if printable c \<or> 0 \<le> c \<and> c < int k then Some (enc (byte_cpt c)) else None"
  have loop: "for_each ?f (map int [0..<k]) (?m 0, 0) = Some (?m k, rank_below k)" if "k \<le> 256" for k
    using that
  proof (induction k)
    case 0
    show ?case by (auto simp: rank_below_def)
  next
    case (Suc k)
    have c: "is_cpt (256 + rank_below k)" using rank_below_bounds [of k] Suc.prems by simp
    have "?f (int k) (?m k, rank_below k) = Some (?m (Suc k), rank_below (Suc k))"
    proof (cases "printable (int k)")
      case True
      then show ?thesis by (auto simp: rank_below_Suc fun_eq_iff less_le)
    next
      case False
      then have "byte_cpt (int k) = 256 + rank_below k" by (simp add: byte_cpt_def)
      with False enc_Some [OF c] show ?thesis by (simp add: rank_below_Suc fun_eq_iff)
    qed
    with Suc show ?case by (simp add: for_each_append)
  qed
  have e0: "?m 0 = (\<lambda>c. if printable c then Some (enc c) else None)" by (auto simp: fun_eq_iff byte_cpt_def)
  have e1: "?m 256 = (\<lambda>c. if 0 \<le> c \<and> c < 256 then Some (enc (byte_cpt c)) else None)"
    using printable_byte by (auto simp: fun_eq_iff)
  have "for_each ?f (map int [0..<256]) (\<lambda>c. if printable c then Some (enc c) else None, 0) =
      Some (\<lambda>c. if 0 \<le> c \<and> c < 256 then Some (enc (byte_cpt c)) else None, rank_below 256)"
    using loop [OF order_refl] unfolding e0 e1 .
  then show ?thesis unfolding unicode_byte_to_utf8_map_def printable_byte_map by simp
qed

lemma enc_byte_inj: "0 \<le> a \<Longrightarrow> a < 256 \<Longrightarrow> 0 \<le> b \<Longrightarrow> b < 256 \<Longrightarrow> enc (byte_cpt a) = enc (byte_cpt b) \<longleftrightarrow> a = b"
  using enc_inj [OF byte_cpt_is_cpt byte_cpt_is_cpt] byte_cpt_inj by blast

text \<open>The keys that the second map has after the bytes in \<open>D\<close> were entered.\<close>

definition inverts :: "int set \<Rightarrow> (string \<rightharpoonup> int) \<Rightarrow> bool" where
  "inverts D m \<longleftrightarrow> (\<forall>c\<in>D. m (enc (byte_cpt c)) = Some c) \<and> (\<forall>s. (\<forall>c\<in>D. s \<noteq> enc (byte_cpt c)) \<longrightarrow> m s = None)"

lemma inverts_insert:
  assumes "inverts D m" and "D \<subseteq> {0..<256}" and "0 \<le> c" "c < 256"
  shows "inverts (insert c D) (m(enc (byte_cpt c) \<mapsto> c))"
proof -
  have "enc (byte_cpt d) = enc (byte_cpt c) \<longleftrightarrow> d = c" if d: "d \<in> D" for d
  proof -
    have "0 \<le> d" "d < 256" using d assms(2) by auto
    then show ?thesis using enc_byte_inj assms(3,4) by blast
  qed
  then show ?thesis using assms(1) by (auto simp: inverts_def)
qed

lemma printable_utf8_map:
  "\<exists>m. printable_loops (\<lambda>ch m. do { s \<leftarrow> unicode_cpt_to_utf8 ch; Some (m(s \<mapsto> ch)) }) Map.empty = Some m \<and> inverts {c. printable c} m"
proof -
  have "\<exists>m. for_each (\<lambda>ch m. do { s \<leftarrow> unicode_cpt_to_utf8 ch; Some (m(s \<mapsto> ch)) }) printables Map.empty = Some m \<and> inverts (set printables) m"
  proof (rule for_each_rule [where I = "\<lambda>ys. inverts (set ys)"])
    show "inverts (set []) Map.empty" by (simp add: inverts_def)
    fix ys x zs m assume p: "printables = ys @ x # zs" and I: "inverts (set ys) m"
    then have "set ys \<subseteq> {c. printable c}" "printable x" using set_printables by (metis Un_iff list.set_intros(1) mem_Collect_eq set_append subsetI)+
    then have ys: "set ys \<subseteq> {0..<256}" and x: "0 \<le> x" "x < 256" "byte_cpt x = x" using printable_byte by (auto simp: byte_cpt_def)
    from inverts_insert [OF I ys x(1,2)] enc_Some [of x] x
    show "\<exists>m'. (do { s \<leftarrow> unicode_cpt_to_utf8 x; Some (m(s \<mapsto> x)) }) = Some m' \<and> inverts (set (ys @ [x])) m'" by simp
  qed
  then show ?thesis by (simp add: printable_loops_eq)
qed

lemma utf8_map_inverts: "\<exists>m. unicode_utf8_to_byte_map = Some m \<and> inverts {0..<256} m"
proof -
  let ?f = "\<lambda>ch (m, n). do { t \<leftarrow> unicode_cpt_to_utf8 ch;
    if m t = None then do { s \<leftarrow> unicode_cpt_to_utf8 (256 + n); Some (m(s \<mapsto> ch), n + 1) } else Some (m, n) }"
  from printable_utf8_map obtain m0 where m0: "printable_loops (\<lambda>ch m. do { s \<leftarrow> unicode_cpt_to_utf8 ch; Some (m(s \<mapsto> ch)) }) Map.empty = Some m0"
    "inverts {c. printable c} m0" by blast
  let ?D = "\<lambda>k. {c. printable c} \<union> {0..<int k}"
  have "\<exists>m. for_each ?f (map int [0..<k]) (m0, 0) = Some (m, rank_below k) \<and> inverts (?D k) m" if "k \<le> 256" for k
    using that
  proof (induction k)
    case 0
    show ?case using m0(2) by (simp add: rank_below_def)
  next
    case (Suc k)
    then obtain m where m: "for_each ?f (map int [0..<k]) (m0, 0) = Some (m, rank_below k)" "inverts (?D k) m" by auto
    have sub: "?D k \<subseteq> {0..<256}" using printable_byte Suc.prems by auto
    have D: "?D (Suc k) = insert (int k) (?D k)" by auto
    have c: "is_cpt (256 + rank_below k)" "is_cpt (int k)" using rank_below_bounds [of k] Suc.prems by simp_all
    have "\<exists>m'. ?f (int k) (m, rank_below k) = Some (m', rank_below (Suc k)) \<and> inverts (?D (Suc k)) m'"
    proof (cases "printable (int k)")
      case True
      then have k: "int k \<in> ?D k" "byte_cpt (int k) = int k" by (simp_all add: byte_cpt_def)
      with m(2) have "m (enc (int k)) = Some (int k)" unfolding inverts_def by metis
      moreover have "?D (Suc k) = ?D k" using D k(1) by auto
      ultimately show ?thesis using True enc_Some [OF c(2)] m(2) by (simp add: rank_below_Suc)
    next
      case False
      have "enc (int k) \<noteq> enc (byte_cpt d)" if "d \<in> ?D k" for d
      proof -
        have "int k \<noteq> byte_cpt d" using False rank_below_bounds [of "nat d"] Suc.prems by (auto simp: byte_cpt_def)
        moreover have "is_cpt (byte_cpt d)" using sub that byte_cpt_is_cpt by fastforce
        ultimately show ?thesis using enc_inj [OF c(2)] by blast
      qed
      then have "m (enc (int k)) = None" using m(2) by (simp add: inverts_def)
      moreover have "byte_cpt (int k) = 256 + rank_below k" using False by (simp add: byte_cpt_def)
      ultimately show ?thesis
        using inverts_insert [OF m(2) sub, of "int k"] D False enc_Some [OF c(1)] enc_Some [OF c(2)] Suc.prems by (simp add: rank_below_Suc)
    qed
    then obtain m' where m': "?f (int k) (m, rank_below k) = Some (m', rank_below (Suc k))" "inverts (?D (Suc k)) m'" by blast
    have "for_each ?f (map int [0..<Suc k]) (m0, 0) = Some (m', rank_below (Suc k))"
      by (simp only: map_int_upt_Suc for_each_snoc m(1) Option.bind.bind_lunit m'(1))
    with m'(2) show ?case by blast
  qed
  from this [of 256] obtain m where "for_each ?f (map int [0..<256]) (m0, 0) = Some (m, rank_below 256)" "inverts (?D 256) m" by auto
  moreover have "?D 256 = {0..<256}" using printable_byte by auto
  ultimately show ?thesis unfolding unicode_utf8_to_byte_map_def m0(1) by simp
qed

lemma byte_to_utf8_enc: "0 \<le> b \<Longrightarrow> b < 256 \<Longrightarrow> unicode_byte_to_utf8 b = Some (enc (byte_cpt b))"
  by (simp add: unicode_byte_to_utf8_def byte_map_eq)

lemma utf8_to_byte_enc:
  assumes "0 \<le> b" and "b < 256"
  shows "unicode_utf8_to_byte (enc (byte_cpt b)) = Some b"
proof -
  from utf8_map_inverts obtain m where m: "unicode_utf8_to_byte_map = Some m" "inverts {0..<256} m" by blast
  then have "m (enc (byte_cpt b)) = Some b" using assms by (simp add: inverts_def)
  then show ?thesis unfolding unicode_utf8_to_byte_def m(1) by simp
qed

lemma spell_bytes:
  "for_each (\<lambda>c encoded_token. do { s \<leftarrow> unicode_byte_to_utf8 (ub c); Some (encoded_token @ s) }) bs e = Some (e @ encode (map (byte_cpt \<circ> ub) bs))"
  by (induction bs arbitrary: e) (simp_all add: byte_to_utf8_enc encode_def)

lemma cpts_from_encode: "\<forall>c\<in>set cps. is_cpt c \<Longrightarrow> unicode_cpts_from_utf8 (encode cps) = cps"
  using cpts_from_utf8_encode [of cps "[]" "[]"] by (simp add: unicode_cpts_from_utf8_def)

text \<open>
  A word of valid UTF-8 is spelled in the byte alphabet of the tokenizers with one code point for each of its
  bytes, and \<open>unicode_utf8_to_byte\<close> maps these code points back to the bytes of the word.
\<close>

theorem byte_encoding_roundtrip:
  assumes "unicode_cpts_to_utf8 cps = Some word" and "\<forall>c\<in>set cps. is_cpt c"
  shows "\<exists>e cs. unicode_byte_encoding_process [word] = Some [e] \<and> unicode_cpts_from_utf8 e = cs \<and>
    map (\<lambda>c. do { s \<leftarrow> unicode_cpt_to_utf8 c; unicode_utf8_to_byte s }) cs = map (\<lambda>b. Some (ub b)) word"
proof -
  have w: "word = encode cps" using assms cpts_to_utf8_encode by auto
  let ?cs = "map (byte_cpt \<circ> ub) word"
  have ok: "\<forall>c\<in>set ?cs. is_cpt c" using byte_cpt_is_cpt by auto
  have "encode_word word = Some (encode ?cs)"
    using spell_bytes [of word "[]"] cpts_to_utf8_encode [OF assms(2)] cpts_from_encode [OF assms(2)]
    by (simp add: encode_word_def unicode_cpts_to_utf8_def w)
  moreover have "map (\<lambda>c. do { s \<leftarrow> unicode_cpt_to_utf8 c; unicode_utf8_to_byte s }) ?cs = map (\<lambda>b. Some (ub b)) word"
    using enc_Some [OF byte_cpt_is_cpt] by (simp add: utf8_to_byte_enc)
  ultimately show ?thesis using cpts_from_encode [OF ok] by (simp add: unicode_byte_encoding_process_def)
qed

theorem byte_encoding_roundtrip_witness:
  "\<exists>e cs. unicode_byte_encoding_process [[CHR ''a'', chr_of 195, chr_of 169]] = Some [e] \<and> unicode_cpts_from_utf8 e = cs \<and>
    map (\<lambda>c. do { s \<leftarrow> unicode_cpt_to_utf8 c; unicode_utf8_to_byte s }) cs = [Some 97, Some 195, Some 169]"
proof -
  have "unicode_cpts_to_utf8 [97, 233] = Some [CHR ''a'', chr_of 195, chr_of 169]" by code_simp
  moreover have "ub (CHR ''a'') = 97" "ub (chr_of 195) = 195" "ub (chr_of 169) = 169" by code_simp+
  ultimately show ?thesis using byte_encoding_roundtrip [of "[97, 233]"] by simp
qed

text \<open>
  The decoder does not reject four-byte sequences above \<open>0x10FFFF\<close>, so a word with such a sequence makes the
  encoder throw: the exception that \<open>unicode_cpts_from_utf8\<close> is written to contain leaves the tokenizer.
\<close>

theorem byte_encoding_throws: "unicode_byte_encoding_process [[chr_of 247, chr_of 191, chr_of 191, chr_of 191]] = None"
proof -
  have "unicode_cpts_from_utf8 [chr_of 247, chr_of 191, chr_of 191, chr_of 191] = [2097151]" "unicode_cpt_to_utf8 2097151 = None"
    by code_simp+
  then show ?thesis by (simp add: unicode_byte_encoding_process_def encode_word_def)
qed

end
