(* ===== verification/Grammar_Tokens.thy ===== *)
theory Grammar_Tokens
  imports Grammar_Rec Unicode
begin

text \<open>
  Tokens and grammars: the second half of \<open>src/src/llama-grammar.cpp\<close>.

  The incremental UTF-8 decoder, the rejection of candidate tokens, and the operations on a grammar object that a
  sampler calls: \<open>llama_grammar_apply_impl\<close> before a token is sampled and \<open>llama_grammar_accept_impl\<close> after.  A
  vocabulary is the two functions that the code calls; a trigger pattern is its text and the two searches of
  \<open>std::regex\<close>.  \<open>None\<close> is an exception, an abort or a computation that does not return.
\<close>

section \<open>Incremental decoding\<close>

definition utf8_len_lookup :: "int list" where
  "utf8_len_lookup = [1, 1, 1, 1, 1, 1, 1, 1, 0, 0, 0, 0, 2, 2, 3, 4]"

definition NUL :: char where
  "NUL = chr_of 0"

abbreviation shift_in :: "int \<Rightarrow> char \<Rightarrow> int" where
  "shift_in value c \<equiv> (value * 64 + ub c mod 64) mod 4294967296"

text \<open>The first loop; \<open>None\<close> when a continuation byte is missing.\<close>

fun utf8_continue :: "string \<Rightarrow> int \<Rightarrow> int \<Rightarrow> (string \<times> int \<times> int) option" where
  "utf8_continue [] value n_remain = Some ([], value, n_remain)"
| "utf8_continue (c # cs) value n_remain =
     (if c = NUL \<or> n_remain \<le> 0 then Some (c # cs, value, n_remain)
      else if ub c div 64 \<noteq> 2 then None
      else utf8_continue cs (shift_in value c) (n_remain - 1))"

text \<open>The inner loop of the second one, which does not look at the high bits.\<close>

fun utf8_rest :: "string \<Rightarrow> int \<Rightarrow> int \<Rightarrow> string \<times> int \<times> int" where
  "utf8_rest [] value n_remain = ([], value, n_remain)"
| "utf8_rest (c # cs) value n_remain =
     (if c = NUL \<or> n_remain \<le> 0 then (c # cs, value, n_remain)
      else utf8_rest cs (shift_in value c) (n_remain - 1))"

lemma length_utf8_rest: "utf8_rest cs v n = (cs', v', n') \<Longrightarrow> length cs' \<le> length cs"
  by (induction cs v n rule: utf8_rest.induct) (auto split: if_splits)

function decode_loop :: "string \<Rightarrow> int list \<Rightarrow> int \<Rightarrow> int \<Rightarrow> int list \<times> llama_partial_utf8" where
  "decode_loop [] code_points value n_remain = (code_points @ [0], \<lparr>pu_value = value, pu_n_remain = n_remain\<rparr>)"
| "decode_loop (c # cs) code_points value n_remain =
     (if c = NUL then (code_points @ [0], \<lparr>pu_value = value, pu_n_remain = n_remain\<rparr>)
      else let n_remain = utf8_len_lookup ! nat (ub c div 16) - 1 in
        if n_remain < 0 then ([0], \<lparr>pu_value = 0, pu_n_remain = n_remain\<rparr>)
        else case utf8_rest cs (ub c mod 2 ^ nat (7 - n_remain)) n_remain of (cs', value, n_remain) \<Rightarrow>
          decode_loop cs' (if n_remain = 0 then code_points @ [value] else code_points) value n_remain)"
  by pat_completeness auto
termination
  by (relation "measure (\<lambda>(cs, _). length cs)") (auto dest: length_utf8_rest [OF sym])

definition decode_utf8 :: "string \<Rightarrow> llama_partial_utf8 \<Rightarrow> int list \<times> llama_partial_utf8" where
  "decode_utf8 src partial_start =
     (case utf8_continue src (pu_value partial_start) (pu_n_remain partial_start) of
        None \<Rightarrow> ([0], \<lparr>pu_value = 0, pu_n_remain = - 1\<rparr>)
      | Some (cs, value, n_remain) \<Rightarrow>
          decode_loop cs (if pu_n_remain partial_start > 0 \<and> n_remain = 0 then [value] else []) value n_remain)"

section \<open>Rejection of candidates\<close>

text \<open>\<open>*tok.code_points\<close>\<close>

definition cp_at :: "llama_grammar_candidate \<Rightarrow> int option" where
  "cp_at tok = at (gc_code_points tok) (gc_off tok)"

text \<open>The candidates that a stack whose top is a token rule rejects.\<close>

definition reject_token_rule :: "llama_grammar_rules \<Rightarrow> gpos \<Rightarrow> llama_grammar_candidate \<Rightarrow> llama_grammar_candidates \<Rightarrow>
    llama_grammar_candidates option" where
  "reject_token_rule rules stack_pos tok rejects = do {
     c \<leftarrow> cp_at tok;
     if c = 0 then Some (if pu_n_remain (gc_partial_utf8 tok) \<noteq> 0 then rejects @ [tok] else rejects)
     else do {
       m \<leftarrow> llama_grammar_match_token rules stack_pos (gc_id tok);
       Some (if \<not> m then rejects @ [tok] else rejects) } }"

text \<open>One candidate at a character rule: rejected, kept, or passed on to the next position.\<close>

definition reject_char_rule :: "llama_grammar_rules \<Rightarrow> gpos \<Rightarrow> llama_grammar_candidate \<Rightarrow> llama_grammar_candidates \<times> llama_grammar_candidates \<Rightarrow>
    (llama_grammar_candidates \<times> llama_grammar_candidates) option" where
  "reject_char_rule rules stack_pos tok = (\<lambda>(rejects, next_candidates). do {
     c \<leftarrow> cp_at tok;
     if c = 0 then
       (if pu_n_remain (gc_partial_utf8 tok) \<noteq> 0 then do {
          m \<leftarrow> llama_grammar_match_partial_char rules stack_pos (gc_partial_utf8 tok);
          Some (if \<not> m then rejects @ [tok] else rejects, next_candidates) }
        else Some (rejects, next_candidates))
     else do {
       (m, _) \<leftarrow> llama_grammar_match_char rules stack_pos c;
       Some (if m then (rejects, next_candidates @ [tok\<lparr>gc_off := gc_off tok + 1\<rparr>])
             else (rejects @ [tok], next_candidates)) } })"

definition reject_empty_stack :: "llama_grammar_candidate \<Rightarrow> llama_grammar_candidates \<Rightarrow> llama_grammar_candidates option" where
  "reject_empty_stack tok rejects = do {
     c \<leftarrow> cp_at tok;
     Some (if c \<noteq> 0 \<or> pu_n_remain (gc_partial_utf8 tok) \<noteq> 0 then rejects @ [tok] else rejects) }"

text \<open>
  \<open>llama_grammar_reject_candidates_for_stack\<close>, with the recursive \<open>llama_grammar_reject_candidates\<close> on the stacks
  after the character as an argument.
\<close>

definition llama_grammar_reject_candidates_for_stack ::
    "(llama_grammar_rules \<Rightarrow> llama_grammar_stacks \<Rightarrow> llama_grammar_candidates \<Rightarrow> llama_grammar_candidates option) \<Rightarrow>
     llama_grammar_rules \<Rightarrow> llama_grammar_stack \<Rightarrow> llama_grammar_candidates \<Rightarrow> llama_grammar_candidates option" where
  "llama_grammar_reject_candidates_for_stack rec rules stack candidates =
     (case stack of
        [] \<Rightarrow> for_each reject_empty_stack candidates []
      | stack_pos # rest \<Rightarrow> do {
          e \<leftarrow> elem_at rules stack_pos;
          if is_token_element e then for_each (reject_token_rule rules stack_pos) candidates []
          else do {
            (rejects, next_candidates) \<leftarrow> for_each (reject_char_rule rules stack_pos) candidates ([], []);
            (_, stack_pos_after) \<leftarrow> llama_grammar_match_char rules stack_pos 0;
            stack_after \<leftarrow> push_pos rules stack_pos_after rest;
            next_stacks \<leftarrow> llama_grammar_advance_stack rules stack_after [];
            next_rejects \<leftarrow> rec rules next_stacks next_candidates;
            Some (rejects @ map (\<lambda>tok. tok\<lparr>gc_off := gc_off tok - 1\<rparr>) next_rejects) } })"

lemma reject_for_stack_mono [partial_function_mono]:
  assumes "\<And>r s c. monotone option.le_fun option_ord (\<lambda>f. R f r s c)"
  shows "monotone option.le_fun option_ord (\<lambda>f. llama_grammar_reject_candidates_for_stack (R f) rules stack candidates)"
  unfolding llama_grammar_reject_candidates_for_stack_def
  by (cases stack; simp only: list.case case_prod_unfold; intro partial_function_mono assms)

partial_function (option) llama_grammar_reject_candidates ::
    "llama_grammar_rules \<Rightarrow> llama_grammar_stacks \<Rightarrow> llama_grammar_candidates \<Rightarrow> llama_grammar_candidates option" where
  "llama_grammar_reject_candidates rules stacks candidates =
     (if stacks = [] then None
      else if candidates = [] then Some []
      else for_each (\<lambda>stack rejects. llama_grammar_reject_candidates_for_stack
             (\<lambda>r s c. llama_grammar_reject_candidates r s c) rules stack rejects) stacks candidates)"

declare llama_grammar_advance_stack.simps [code] llama_grammar_reject_candidates.simps [code]

section \<open>The grammar object\<close>

record llama_vocab =
  vocab_token_to_piece :: "llama_token \<Rightarrow> string"
  vocab_is_eog :: "llama_token \<Rightarrow> bool"

text \<open>\<open>std::smatch\<close>: position and length of the match and of its groups.  The last two fields are \<open>std::regex_match\<close> and
  \<open>std::regex_search\<close> for the compiled pattern.\<close>

type_synonym smatch = "(nat \<times> nat) list"

record llama_grammar_trigger_pattern =
  tp_pattern :: string
  tp_regex_match :: "string \<Rightarrow> smatch option"
  tp_regex_search :: "string \<Rightarrow> smatch option"

definition find_start_pos :: "smatch \<Rightarrow> nat" where
  "find_start_pos m = (case find (\<lambda>(pos, len). len > 0) (tl m) of Some (pos, _) \<Rightarrow> pos | None \<Rightarrow> fst (hd m))"

definition trigger_find :: "llama_grammar_trigger_pattern \<Rightarrow> string \<Rightarrow> nat option" where
  "trigger_find tp input =
     (let full = (if tp_pattern tp \<noteq> [] \<and> hd (tp_pattern tp) = CHR ''^'' \<and> last (tp_pattern tp) = CHR ''$''
                  then tp_regex_match tp input else None) in
      case full of Some m \<Rightarrow> Some (find_start_pos m)
      | None \<Rightarrow> (case tp_regex_search tp input of Some m \<Rightarrow> Some (find_start_pos m) | None \<Rightarrow> None))"

type_synonym token_pos = "llama_token \<times> nat \<times> nat"

record llama_grammar =
  g_vocab :: "llama_vocab option"
  g_rules :: llama_grammar_rules
  g_stacks :: llama_grammar_stacks
  g_partial_utf8 :: llama_partial_utf8
  g_lazy :: bool
  g_awaiting_trigger :: bool
  g_trigger_buffer :: string
  g_trigger_buffer_positions :: "token_pos list"
  g_trigger_tokens :: "llama_token list"
  g_trigger_patterns :: "llama_grammar_trigger_pattern list"

text \<open>The constructor from rules; \<open>Some None\<close> is the null pointer for a left-recursive grammar.\<close>

definition llama_grammar_init_impl :: "llama_vocab option \<Rightarrow> llama_grammar_rules \<Rightarrow> nat \<Rightarrow> llama_grammar option option" where
  "llama_grammar_init_impl vocab rules start_rule_index = do {
     vec_rules \<leftarrow> for_each (\<lambda>rule vec. do { r \<leftarrow> copy_rule rule; Some (vec @ [r]) }) rules [];
     lr \<leftarrow> check_left_recursion vec_rules;
     if lr then Some None
     else do {
       stacks \<leftarrow> initial_stacks vec_rules start_rule_index;
       Some (Some \<lparr>g_vocab = vocab, g_rules = vec_rules, g_stacks = stacks, g_partial_utf8 = \<lparr>pu_value = 0, pu_n_remain = 0\<rparr>,
         g_lazy = False, g_awaiting_trigger = False, g_trigger_buffer = [], g_trigger_buffer_positions = [],
         g_trigger_tokens = [], g_trigger_patterns = []\<rparr>) } }"

section \<open>Applying a grammar to the candidates\<close>

text \<open>A logit is \<open>-INFINITY\<close> or a number that the code does not look at.\<close>

datatype 'f logit = LogitNegInf | Logit 'f

record 'f llama_token_data =
  td_id :: llama_token
  td_logit :: "'f logit"

definition mask_logit :: "nat \<Rightarrow> 'f llama_token_data list \<Rightarrow> 'f llama_token_data list" where
  "mask_logit i data = data[i := (data ! i)\<lparr>td_logit := LogitNegInf\<rparr>]"

text \<open>The loop over the candidates: tokens that are decided at once, and those for the grammar.\<close>

definition collect_candidate :: "llama_vocab \<Rightarrow> llama_partial_utf8 \<Rightarrow> bool \<Rightarrow> nat \<Rightarrow>
    'f llama_token_data list \<times> llama_grammar_candidates \<Rightarrow> ('f llama_token_data list \<times> llama_grammar_candidates) option" where
  "collect_candidate vocab partial_utf8 allow_eog i = (\<lambda>(data, candidates_grammar). do {
     d \<leftarrow> at data i;
     let id = td_id d;
     let piece = vocab_token_to_piece vocab id;
     Some (if vocab_is_eog vocab id then (if \<not> allow_eog then mask_logit i data else data, candidates_grammar)
       else if piece = [] \<or> hd piece = NUL then (mask_logit i data, candidates_grammar)
       else (data, candidates_grammar @ [\<lparr>gc_index = i, gc_code_points = fst (decode_utf8 piece partial_utf8), gc_off = 0,
               gc_partial_utf8 = snd (decode_utf8 piece partial_utf8), gc_id = id\<rparr>])) })"

definition llama_grammar_apply_impl :: "llama_grammar \<Rightarrow> 'f llama_token_data list \<Rightarrow> 'f llama_token_data list option" where
  "llama_grammar_apply_impl grammar cur_p = do {
     vocab \<leftarrow> g_vocab grammar;
     if g_awaiting_trigger grammar then Some cur_p
     else do {
       let allow_eog = ([] \<in> set (g_stacks grammar));
       (data, candidates_grammar) \<leftarrow> for_each (collect_candidate vocab (g_partial_utf8 grammar) allow_eog) [0..<length cur_p] (cur_p, []);
       rejects \<leftarrow> llama_grammar_reject_candidates (g_rules grammar) (g_stacks grammar) candidates_grammar;
       Some (fold (\<lambda>reject data. mask_logit (gc_index reject) data) rejects data) } }"

section \<open>Accepting a token\<close>

text \<open>The loop over the code points of a piece, from one stack; it ends when no stack is left.\<close>

fun accept_piece :: "llama_grammar_rules \<Rightarrow> int list \<Rightarrow> llama_grammar_stacks \<Rightarrow> llama_grammar_stacks option" where
  "accept_piece rules [] current_stacks = Some current_stacks"
| "accept_piece rules (c # cs) current_stacks = do {
     next_stacks \<leftarrow> llama_grammar_accept rules c current_stacks;
     if next_stacks = [] then Some [] else accept_piece rules cs next_stacks }"

definition accept_token_stack :: "llama_grammar_rules \<Rightarrow> llama_token \<Rightarrow> int list \<Rightarrow> llama_grammar_stack \<Rightarrow> llama_grammar_stacks \<Rightarrow>
    llama_grammar_stacks option" where
  "accept_token_stack rules token code_points stack stacks_new =
     (case stack of
        [] \<Rightarrow> Some stacks_new
      | pos # rest \<Rightarrow> do {
          e \<leftarrow> elem_at rules pos;
          if is_token_element e then do {
            m \<leftarrow> llama_grammar_match_token rules pos token;
            if m then do {
              new_stack \<leftarrow> push_pos rules (next_pos pos) rest;
              llama_grammar_advance_stack rules new_stack stacks_new }
            else Some stacks_new }
          else do {
            current_stacks \<leftarrow> accept_piece rules code_points [stack];
            Some (fold add_stack current_stacks stacks_new) } })"

text \<open>The decoded text ends with a 0, which the loops leave out.  No stack left is an exception.\<close>

definition llama_grammar_accept_token :: "llama_token \<Rightarrow> string \<Rightarrow> llama_grammar \<Rightarrow> llama_grammar option" where
  "llama_grammar_accept_token token piece grammar = do {
     let (code_points, partial) = decode_utf8 piece (g_partial_utf8 grammar);
     stacks_new \<leftarrow> for_each (accept_token_stack (g_rules grammar) token (butlast code_points)) (g_stacks grammar) [];
     let grammar = grammar\<lparr>g_stacks := stacks_new, g_partial_utf8 := partial\<rparr>;
     if g_stacks grammar = [] then None else Some grammar }"

definition llama_grammar_accept_str :: "string \<Rightarrow> llama_grammar \<Rightarrow> llama_grammar option" where
  "llama_grammar_accept_str piece grammar = do {
     let (code_points, partial) = decode_utf8 piece (g_partial_utf8 grammar);
     stacks \<leftarrow> accept_chars (g_rules grammar) (butlast code_points) (g_stacks grammar);
     let grammar = grammar\<lparr>g_stacks := stacks, g_partial_utf8 := partial\<rparr>;
     if g_stacks grammar = [] then None else Some grammar }"

text \<open>The replay of the buffered tokens that overlap the triggered text.\<close>

definition replay_token :: "nat \<Rightarrow> token_pos \<Rightarrow> llama_grammar \<Rightarrow> llama_grammar option" where
  "replay_token start = (\<lambda>(tok, tok_start, tok_end) grammar.
     if tok_end \<le> start then Some grammar
     else
       (let piece_start = (if tok_start < start then start else tok_start);
            piece_len = tok_end - piece_start;
            tok_piece = take piece_len (drop piece_start (g_trigger_buffer grammar))
        in llama_grammar_accept_token tok tok_piece grammar))"

fun try_patterns :: "llama_grammar_trigger_pattern list \<Rightarrow> llama_grammar \<Rightarrow> llama_grammar option" where
  "try_patterns [] grammar = Some grammar"
| "try_patterns (tp # tps) grammar =
     (case trigger_find tp (g_trigger_buffer grammar) of
        Some start \<Rightarrow> do {
          let grammar = grammar\<lparr>g_awaiting_trigger := False\<rparr>;
          grammar \<leftarrow> for_each (replay_token start) (g_trigger_buffer_positions grammar) grammar;
          Some (grammar\<lparr>g_trigger_buffer := [], g_trigger_buffer_positions := []\<rparr>) }
      | None \<Rightarrow> try_patterns tps grammar)"

definition llama_grammar_accept_impl :: "llama_token \<Rightarrow> llama_grammar \<Rightarrow> llama_grammar option" where
  "llama_grammar_accept_impl token grammar = do {
     vocab \<leftarrow> g_vocab grammar;
     let piece = vocab_token_to_piece vocab token;
     if g_awaiting_trigger grammar then
       (if token \<in> set (g_trigger_tokens grammar) then
          llama_grammar_accept_token token piece (grammar\<lparr>g_awaiting_trigger := False, g_trigger_buffer := []\<rparr>)
        else
          (let n = length (g_trigger_buffer grammar);
               grammar = grammar\<lparr>g_trigger_buffer_positions := g_trigger_buffer_positions grammar @ [(token, n, n + length piece)],
                 g_trigger_buffer := g_trigger_buffer grammar @ piece\<rparr>
           in try_patterns (g_trigger_patterns grammar) grammar))
     else if vocab_is_eog vocab token then (if [] \<in> set (g_stacks grammar) then Some grammar else None)
     else llama_grammar_accept_token token piece grammar }"


end
