(* ===== verification/Grammar_Utf8.thy ===== *)
theory Grammar_Utf8
  imports Grammar_Tokens
begin

text \<open>
  The incremental decoder of \<open>src/src/llama-grammar.cpp\<close> against the encoder of \<open>src/src/unicode.cpp\<close>.  \<open>utf8_run\<close> is the
  decoder one byte at a time, which composes over concatenation; on valid input the loops of \<open>decode_utf8\<close> compute it.
\<close>

section \<open>Incremental decoding\<close>

text \<open>
  The decoder one byte at a time: the state is the value and the number of bytes that are missing.  \<open>None\<close> is an
  invalid sequence.
\<close>

definition utf8_step :: "llama_partial_utf8 \<Rightarrow> char \<Rightarrow> (int list \<times> llama_partial_utf8) option" where
  "utf8_step s c =
     (let (n, v) = (if pu_n_remain s > 0 then (if ub c div 64 = 2 then pu_n_remain s - 1 else - 1, shift_in (pu_value s) c)
                    else (utf8_len_lookup ! nat (ub c div 16) - 1, ub c mod 2 ^ nat (7 - (utf8_len_lookup ! nat (ub c div 16) - 1)))) in
      if n < 0 then None else Some (if n = 0 then [v] else [], \<lparr>pu_value = v, pu_n_remain = n\<rparr>))"

fun utf8_run :: "llama_partial_utf8 \<Rightarrow> string \<Rightarrow> (int list \<times> llama_partial_utf8) option" where
  "utf8_run s [] = Some ([], s)"
| "utf8_run s (c # cs) = do { (a, s) \<leftarrow> utf8_step s c; (b, s) \<leftarrow> utf8_run s cs; Some (a @ b, s) }"

lemma utf8_run_append: "utf8_run s (xs @ ys) = do { (a, s) \<leftarrow> utf8_run s xs; (b, s) \<leftarrow> utf8_run s ys; Some (a @ b, s) }"
proof (induction xs arbitrary: s)
  case (Cons c xs)
  show ?case
  proof (cases "utf8_step s c")
    case (Some a)
    obtain a1 s1 where a: "a = (a1, s1)" by (cases a)
    show ?thesis
    proof (cases "utf8_run s1 xs")
      case None
      with Some a Cons [of s1] show ?thesis by simp
    next
      case r: (Some b)
      obtain b1 s2 where "b = (b1, s2)" by (cases b)
      with Some a r Cons [of s1] show ?thesis by (cases "utf8_run s2 ys") auto
    qed
  qed simp
qed (simp split: Option.bind_splits)

text \<open>The rest of the current sequence, and the sequences after it.\<close>

definition decode_from :: "int list \<Rightarrow> string \<Rightarrow> llama_partial_utf8 \<Rightarrow> int list \<times> llama_partial_utf8" where
  "decode_from acc bs s = (case utf8_rest bs (pu_value s) (pu_n_remain s) of (bs', v', n') \<Rightarrow>
     decode_loop bs' (if n' = 0 \<and> pu_n_remain s > 0 then acc @ [v'] else acc) v' n')"

lemma utf8_rest_zero: "utf8_rest bs v 0 = (bs, v, 0)"
  by (cases bs) auto

lemma decode_from_zero: "pu_n_remain s = 0 \<Longrightarrow> decode_from acc bs s = decode_loop bs acc (pu_value s) 0"
  by (simp add: decode_from_def utf8_rest_zero)

lemma decode_from_run:
  assumes "utf8_run s bs = Some (cs, s')" and "0 \<le> pu_n_remain s" and "NUL \<notin> set bs"
  shows "decode_from acc bs s = (acc @ cs @ [0], s')"
  using assms
proof (induction bs arbitrary: acc s cs)
  case Nil
  then show ?case by (simp add: decode_from_def)
next
  case (Cons c bs)
  from Cons.prems(1) obtain a s1 b where st: "utf8_step s c = Some (a, s1)" and r: "utf8_run s1 bs = Some (b, s')" "cs = a @ b"
    by (auto split: Option.bind_splits)
  have s1: "0 \<le> pu_n_remain s1" "a = (if pu_n_remain s1 = 0 then [pu_value s1] else [])"
    using st by (auto simp: utf8_step_def Let_def split: if_splits)
  have IH: "decode_from (acc @ a) bs s1 = ((acc @ a) @ b @ [0], s')" by (rule Cons.IH [OF r(1) s1(1)]) (use Cons.prems(3) in simp)
  have nn: "c \<noteq> NUL" using Cons.prems(3) by auto
  have "decode_from acc (c # bs) s = decode_from (acc @ a) bs s1"
  proof (cases "pu_n_remain s = 0")
    case True
    let ?n = "utf8_len_lookup ! nat (ub c div 16) - 1" and ?v = "ub c mod 2 ^ nat (7 - (utf8_len_lookup ! nat (ub c div 16) - 1))"
    have n: "\<not> ?n < 0" "s1 = \<lparr>pu_value = ?v, pu_n_remain = ?n\<rparr>" using st True by (auto simp: utf8_step_def Let_def split: if_splits)
    have "decode_from acc (c # bs) s = (case utf8_rest bs ?v ?n of (cs', v, n) \<Rightarrow> decode_loop cs' (if n = 0 then acc @ [v] else acc) v n)"
      using True nn n(1) by (simp add: decode_from_zero Let_def)
    also have "\<dots> = decode_from (acc @ a) bs s1"
      using n s1 by (cases "?n = 0") (auto simp: decode_from_def utf8_rest_zero split: prod.splits)
    finally show ?thesis .
  next
    case False
    with Cons.prems(2) have pos: "pu_n_remain s > 0" by simp
    then have n: "s1 = \<lparr>pu_value = shift_in (pu_value s) c, pu_n_remain = pu_n_remain s - 1\<rparr>"
      using st by (auto simp: utf8_step_def Let_def split: if_splits)
    with pos nn s1(2) show ?thesis
      by (cases "pu_n_remain s = 1") (auto simp: decode_from_def utf8_rest_zero split: prod.splits)
  qed
  then show ?case using IH r(2) by simp
qed

lemma utf8_continue_run:
  assumes "utf8_run \<lparr>pu_value = v, pu_n_remain = n\<rparr> bs = Some (cs, s')" and "0 \<le> n"
  shows "utf8_continue bs v n = Some (utf8_rest bs v n)"
  using assms
proof (induction bs v n arbitrary: cs rule: utf8_rest.induct)
  case (2 c bs v n)
  show ?case
  proof (cases "c = NUL \<or> n \<le> 0")
    case False
    from 2(2) obtain a s1 b where st: "utf8_step \<lparr>pu_value = v, pu_n_remain = n\<rparr> c = Some (a, s1)" "utf8_run s1 bs = Some (b, s')"
      by (auto split: Option.bind_splits)
    with False have "ub c div 64 = 2" "s1 = \<lparr>pu_value = shift_in v c, pu_n_remain = n - 1\<rparr>"
      by (auto simp: utf8_step_def Let_def split: if_splits)
    with 2(1) [OF False, of b] st(2) False show ?thesis by auto
  qed auto
qed simp

lemma decode_utf8_run:
  assumes "utf8_run s bs = Some (cs, s')" and "0 \<le> pu_n_remain s" and "NUL \<notin> set bs"
  shows "decode_utf8 bs s = (cs @ [0], s')"
proof -
  have "utf8_continue bs (pu_value s) (pu_n_remain s) = Some (utf8_rest bs (pu_value s) (pu_n_remain s))"
    using utf8_continue_run [of "pu_value s" "pu_n_remain s" bs cs s'] assms by (cases s) simp
  then have "decode_utf8 bs s = decode_from [] bs s"
    by (auto simp: decode_utf8_def decode_from_def conj_commute split: prod.splits)
  with decode_from_run [OF assms, of "[]"] show ?thesis by simp
qed

lemma utf8_step_lead:
  assumes "pu_n_remain s = 0" and "utf8_len_lookup ! nat (ub c div 16) = n" and "1 \<le> n"
  shows "utf8_step s c = Some (if n = 1 then [ub c mod 2 ^ nat (8 - n)] else [], \<lparr>pu_value = ub c mod 2 ^ nat (8 - n), pu_n_remain = n - 1\<rparr>)"
  using assms by (simp add: utf8_step_def Let_def)

lemma utf8_step_cont:
  assumes "pu_n_remain s > 0" and "0 \<le> y" and "y < 64" and "0 \<le> pu_value s" and "pu_value s < 67108864"
  shows "utf8_step s (chr_of (128 + y)) = Some (if pu_n_remain s = 1 then [pu_value s * 64 + y] else [],
    \<lparr>pu_value = pu_value s * 64 + y, pu_n_remain = pu_n_remain s - 1\<rparr>)"
proof -
  have u: "ub (chr_of (128 + y)) = 128 + y" using assms by simp
  have "(pu_value s * 64 + y) mod 4294967296 = pu_value s * 64 + y" using assms by (intro mod_pos_pos_trivial) simp_all
  then show ?thesis using assms cont_byte [of y] by (simp add: utf8_step_def Let_def u)
qed

text \<open>One code point.\<close>

lemma utf8_run_enc:
  assumes "is_cpt c" and "c \<noteq> 0" and "pu_n_remain s = 0"
  shows "utf8_run s (enc c) = Some ([c], \<lparr>pu_value = c, pu_n_remain = 0\<rparr>) \<and> NUL \<notin> set (enc c)"
  using assms(1)
proof (cases rule: encode_cases)
  case B1
  have u: "ub (chr_of c) = c" "c mod 128 = c" using B1 assms by simp_all
  have "utf8_len_lookup ! nat (ub (chr_of c) div 16) = 1"
  proof -
    have "0 \<le> c div 16" "c div 16 < 8" using B1(1) assms(1) by linarith+
    then have "nat (c div 16) \<in> set [0..<8]" by simp
    moreover have "\<forall>i\<in>set [0..<8]. utf8_len_lookup ! i = 1" by code_simp
    ultimately show ?thesis unfolding u by blast
  qed
  from utf8_step_lead [OF assms(3) this] u B1 assms show ?thesis by (auto simp: enc_def NUL_def ub_inj [symmetric])
next
  case (B2 x y)
  have u: "ub (chr_of (192 + x)) = 192 + x" "ub (chr_of (128 + y)) = 128 + y" using B2 by simp_all
  have "nat ((192 + x) div 16) \<in> {12, 13}" using B2(1,2) by auto
  then have l: "utf8_len_lookup ! nat (ub (chr_of (192 + x)) div 16) = 2" by (auto simp: utf8_len_lookup_def u)
  have m: "(192 + x) mod 64 = x" using B2(1,2) by (simp add: mod_from_div [of "192 + x" 64 3])
  have e: "enc c = [chr_of (192 + x), chr_of (128 + y)]" using B2 by (simp add: enc_def)
  have s1: "utf8_step s (chr_of (192 + x)) = Some ([], \<lparr>pu_value = x, pu_n_remain = 1\<rparr>)"
    using utf8_step_lead [OF assms(3) l] u m by simp
  have s2: "utf8_step \<lparr>pu_value = x, pu_n_remain = 1\<rparr> (chr_of (128 + y)) = Some ([c], \<lparr>pu_value = c, pu_n_remain = 0\<rparr>)"
    using utf8_step_cont [of "\<lparr>pu_value = x, pu_n_remain = 1\<rparr>" y] B2 by simp
  show ?thesis using s1 s2 u B2(1-4) by (auto simp: e NUL_def ub_inj [symmetric])
next
  case (B3 x y z)
  have u: "ub (chr_of (224 + x)) = 224 + x" "ub (chr_of (128 + y)) = 128 + y" "ub (chr_of (128 + z)) = 128 + z" using B3 by simp_all
  have "nat ((224 + x) div 16) = 14" using B3(1,2) by auto
  then have l: "utf8_len_lookup ! nat (ub (chr_of (224 + x)) div 16) = 3" by (simp add: utf8_len_lookup_def u)
  have m: "(224 + x) mod 32 = x" using B3(1,2) by (simp add: mod_from_div [of "224 + x" 32 7])
  have e: "enc c = [chr_of (224 + x), chr_of (128 + y), chr_of (128 + z)]" using B3 by (simp add: enc_def)
  have s1: "utf8_step s (chr_of (224 + x)) = Some ([], \<lparr>pu_value = x, pu_n_remain = 2\<rparr>)"
    using utf8_step_lead [OF assms(3) l] u m by simp
  have s2: "utf8_step \<lparr>pu_value = x, pu_n_remain = 2\<rparr> (chr_of (128 + y)) = Some ([], \<lparr>pu_value = x * 64 + y, pu_n_remain = 1\<rparr>)"
    using utf8_step_cont [of "\<lparr>pu_value = x, pu_n_remain = 2\<rparr>" y] B3 by simp
  have s3: "utf8_step \<lparr>pu_value = x * 64 + y, pu_n_remain = 1\<rparr> (chr_of (128 + z)) = Some ([c], \<lparr>pu_value = c, pu_n_remain = 0\<rparr>)"
    using utf8_step_cont [of "\<lparr>pu_value = x * 64 + y, pu_n_remain = 1\<rparr>" z] B3 by simp
  show ?thesis using s1 s2 s3 u B3(1-6) by (auto simp: e NUL_def ub_inj [symmetric])
next
  case (B4 x y z w)
  have u: "ub (chr_of (240 + x)) = 240 + x" "ub (chr_of (128 + y)) = 128 + y" "ub (chr_of (128 + z)) = 128 + z" "ub (chr_of (128 + w)) = 128 + w"
    using B4 by simp_all
  have "nat ((240 + x) div 16) = 15" using B4(1,2) by auto
  then have l: "utf8_len_lookup ! nat (ub (chr_of (240 + x)) div 16) = 4" by (simp add: utf8_len_lookup_def u)
  have m: "(240 + x) mod 16 = x" using B4(1,2) by (simp add: mod_from_div [of "240 + x" 16 15])
  have e: "enc c = [chr_of (240 + x), chr_of (128 + y), chr_of (128 + z), chr_of (128 + w)]" using B4 by (simp add: enc_def)
  have s1: "utf8_step s (chr_of (240 + x)) = Some ([], \<lparr>pu_value = x, pu_n_remain = 3\<rparr>)"
    using utf8_step_lead [OF assms(3) l] u m by simp
  have s2: "utf8_step \<lparr>pu_value = x, pu_n_remain = 3\<rparr> (chr_of (128 + y)) = Some ([], \<lparr>pu_value = x * 64 + y, pu_n_remain = 2\<rparr>)"
    using utf8_step_cont [of "\<lparr>pu_value = x, pu_n_remain = 3\<rparr>" y] B4 by simp
  have s3: "utf8_step \<lparr>pu_value = x * 64 + y, pu_n_remain = 2\<rparr> (chr_of (128 + z)) = Some ([], \<lparr>pu_value = x * 4096 + y * 64 + z, pu_n_remain = 1\<rparr>)"
    using utf8_step_cont [of "\<lparr>pu_value = x * 64 + y, pu_n_remain = 2\<rparr>" z] B4 by simp
  have s4: "utf8_step \<lparr>pu_value = x * 4096 + y * 64 + z, pu_n_remain = 1\<rparr> (chr_of (128 + w)) = Some ([c], \<lparr>pu_value = c, pu_n_remain = 0\<rparr>)"
    using utf8_step_cont [of "\<lparr>pu_value = x * 4096 + y * 64 + z, pu_n_remain = 1\<rparr>" w] B4 by simp
  show ?thesis using s1 s2 s3 s4 u B4(1-8) by (auto simp: e NUL_def ub_inj [symmetric])
qed

lemma utf8_run_encode:
  "\<forall>c\<in>set cps. is_cpt c \<and> c \<noteq> 0 \<Longrightarrow> pu_n_remain s = 0 \<Longrightarrow>
    (\<exists>s'. utf8_run s (encode cps) = Some (cps, s') \<and> pu_n_remain s' = 0) \<and> NUL \<notin> set (encode cps)"
proof (induction cps arbitrary: s)
  case (Cons c cps)
  have e: "encode (c # cps) = enc c @ encode cps" by (simp add: encode_def)
  from utf8_run_enc [of c s] Cons.prems have c: "utf8_run s (enc c) = Some ([c], \<lparr>pu_value = c, pu_n_remain = 0\<rparr>)" "NUL \<notin> set (enc c)" by simp_all
  from Cons.IH [of "\<lparr>pu_value = c, pu_n_remain = 0\<rparr>"] Cons.prems(1) obtain s' where
    "utf8_run \<lparr>pu_value = c, pu_n_remain = 0\<rparr> (encode cps) = Some (cps, s')" "pu_n_remain s' = 0" "NUL \<notin> set (encode cps)" by auto
  with c show ?case by (simp add: e utf8_run_append)
qed (simp add: encode_def)

text \<open>The decoder on a text that arrives in pieces, as \<open>llama_grammar_accept_token\<close> uses it.\<close>

fun decode_pieces :: "string list \<Rightarrow> llama_partial_utf8 \<Rightarrow> int list \<times> llama_partial_utf8" where
  "decode_pieces [] s = ([], s)"
| "decode_pieces (p # ps) s = (case decode_utf8 p s of (cps, s) \<Rightarrow> case decode_pieces ps s of (cps', s) \<Rightarrow> (butlast cps @ cps', s))"

lemma utf8_run_remain: "utf8_run s bs = Some (cs, s') \<Longrightarrow> 0 \<le> pu_n_remain s \<Longrightarrow> 0 \<le> pu_n_remain s'"
proof (induction bs arbitrary: s cs)
  case (Cons c bs)
  from Cons.prems(1) obtain a s1 b where st: "utf8_step s c = Some (a, s1)" "utf8_run s1 bs = Some (b, s')" by (auto split: Option.bind_splits)
  have "0 \<le> pu_n_remain s1" using st(1) by (auto simp: utf8_step_def Let_def split: if_splits)
  with Cons.IH st(2) show ?case by blast
qed simp

lemma decode_pieces_run:
  "utf8_run s (concat ps) = Some (cs, s') \<Longrightarrow> 0 \<le> pu_n_remain s \<Longrightarrow> NUL \<notin> set (concat ps) \<Longrightarrow> decode_pieces ps s = (cs, s')"
proof (induction ps arbitrary: s cs)
  case (Cons p ps)
  from Cons.prems(1) obtain a s1 b where r: "utf8_run s p = Some (a, s1)" "utf8_run s1 (concat ps) = Some (b, s')" "cs = a @ b"
    by (auto simp: utf8_run_append split: Option.bind_splits)
  with decode_utf8_run [OF r(1)] Cons.IH [OF r(2)] utf8_run_remain [OF r(1)] Cons.prems(2,3) show ?case by simp
qed simp

text \<open>
  However the UTF-8 encoding of a text (without the code point 0) is cut into pieces, also inside a character,
  decoding the pieces one after the other gives the code points of the text, and no partial character at its end.
\<close>

theorem decode_in_pieces:
  assumes "unicode_cpts_to_utf8 cps = Some (concat pieces)" and "\<forall>c\<in>set cps. is_cpt c \<and> c \<noteq> 0"
  shows "\<exists>s. decode_pieces pieces \<lparr>pu_value = 0, pu_n_remain = 0\<rparr> = (cps, s) \<and> pu_n_remain s = 0"
proof -
  have "concat pieces = encode cps" using assms cpts_to_utf8_encode [of cps] by auto
  with utf8_run_encode [OF assms(2), of "\<lparr>pu_value = 0, pu_n_remain = 0\<rparr>"] decode_pieces_run [of "\<lparr>pu_value = 0, pu_n_remain = 0\<rparr>" pieces]
  show ?thesis by fastforce
qed

theorem decode_in_pieces_witness:
  "\<exists>s. decode_pieces [[CHR ''a'', chr_of 195], [chr_of 169]] \<lparr>pu_value = 0, pu_n_remain = 0\<rparr> = ([97, 233], s) \<and> pu_n_remain s = 0"
proof -
  have "unicode_cpts_to_utf8 [97, 233] = Some (concat [[CHR ''a'', chr_of 195], [chr_of 169]])" by code_simp
  from decode_in_pieces [OF this] show ?thesis by simp
qed


end
