(* ===== verification/Grammar_Apply.thy ===== *)
theory Grammar_Apply
  imports Grammar_Tokens
begin

text \<open>
  Rejecting and accepting tokens.  \<open>cand_ok\<close> says when the rest of a candidate can be read from a stack; the rejection
  computes its complement (\<open>reject_candidates_correct\<close>), and \<open>llama_grammar_apply_impl\<close> masks accordingly.  \<open>grammar_inv\<close> is
  the invariant of a grammar object between calls.
\<close>

section \<open>Partial characters\<close>

lemma match_partial_loop_total:
  assumes "rule_ok n 1 es"
  shows "\<exists>b. match_partial_loop pos (e0 # es) low high = Some b"
  using assms
proof (induction pos "e0 # es" low high arbitrary: e0 es rule: match_partial_loop.induct)
  case (1 pos e0 e1 es low high)
  show ?case
  proof (cases "ge_type e1 = LLAMA_GRETYPE_CHAR_RNG_UPPER")
    case True
    with 1(3) have ok: "rule_ok n 2 es" by simp
    then obtain e2 es' where es: "es = e2 # es'" using rule_ok_nonempty by (cases es) auto
    show ?thesis
    proof (cases "ge_type e2 = LLAMA_GRETYPE_CHAR_ALT")
      case alt: True
      with ok es have "rule_ok n 1 es'" by simp
      with 1(1) [OF True _ es alt] True alt es show ?thesis by auto
    qed (use True es in auto)
  next
    case False
    show ?thesis
    proof (cases "ge_type e1 = LLAMA_GRETYPE_CHAR_ALT")
      case True
      with 1(3) have "rule_ok n 1 es" by simp
      with 1(2) [OF False _ _ True] False True show ?thesis by auto
    qed (use False in auto)
  qed
qed auto

lemma match_partial_total:
  assumes ok: "pos_ok rules (r, i)" and ty: "ge_type (rules ! r ! i) \<in> {LLAMA_GRETYPE_CHAR, LLAMA_GRETYPE_CHAR_NOT, LLAMA_GRETYPE_CHAR_ANY}"
  shows "\<exists>b. llama_grammar_match_partial_char rules (r, i) pu = Some b"
proof -
  let ?e = "rules ! r ! i" and ?es = "drop (Suc i) (rules ! r)"
  have r: "r < length rules" "i < length (rules ! r)" using ok by (auto simp: pos_ok_def)
  have d: "drop i (rules ! r) = ?e # ?es" using r by (simp add: Cons_nth_drop_Suc)
  have "\<exists>b. match_partial_loop p (?e # ?es) low high = Some b" for p low high
  proof (cases "ge_type ?e = LLAMA_GRETYPE_CHAR_ANY")
    case True
    with ok have "rule_ok (length rules) 0 ?es" unfolding pos_ok_def case_prod_conv d by simp
    then obtain e1 es' where "?es = e1 # es'" "\<not> cont e1" by (cases ?es) (auto simp: cont_def split: llama_gretype.splits)
    with True show ?thesis by (auto simp: cont_def)
  next
    case False
    with ty ok have "rule_ok (length rules) 1 ?es" unfolding pos_ok_def case_prod_conv d by auto
    then show ?thesis by (rule match_partial_loop_total)
  qed
  then show ?thesis
    using r ty by (auto simp: llama_grammar_match_partial_char_def elem_at_def d is_positive_char_def split: prod.splits)
qed

section \<open>What the rejection computes\<close>

text \<open>
  \<open>cand_ok rules pu tk cs stk\<close>: the rest \<open>cs\<close> of the code points of token \<open>tk\<close>, followed by the partial character \<open>pu\<close>,
  can be read from the stack.
\<close>

fun cand_ok :: "llama_grammar_rules \<Rightarrow> llama_partial_utf8 \<Rightarrow> llama_token \<Rightarrow> int list \<Rightarrow> llama_grammar_stack \<Rightarrow> bool" where
  "cand_ok rules pu tk [] stk = (case stk of [] \<Rightarrow> pu_n_remain pu = 0 | pos # _ \<Rightarrow>
     (pu_n_remain pu = 0 \<or> (\<exists>e. elem_at rules pos = Some e \<and> \<not> is_token_element e) \<and> llama_grammar_match_partial_char rules pos pu = Some True))"
| "cand_ok rules pu tk (c # cs) stk = (case stk of [] \<Rightarrow> False | pos # _ \<Rightarrow>
     (if \<exists>e. elem_at rules pos = Some e \<and> is_token_element e then llama_grammar_match_token rules pos tk = Some True
      else \<exists>s\<in>chr_set rules c stk. cand_ok rules pu tk cs s))"

definition cand_rest :: "llama_grammar_candidate \<Rightarrow> int list" where
  "cand_rest tok = takeWhile (\<lambda>c. c \<noteq> 0) (drop (gc_off tok) (gc_code_points tok))"

definition cand_wf :: "llama_grammar_candidate \<Rightarrow> bool" where
  "cand_wf tok \<longleftrightarrow> 0 \<in> set (drop (gc_off tok) (gc_code_points tok))"

abbreviation tok_ok :: "llama_grammar_rules \<Rightarrow> llama_grammar_stack \<Rightarrow> llama_grammar_candidate \<Rightarrow> bool" where
  "tok_ok rules stk tok \<equiv> cand_ok rules (gc_partial_utf8 tok) (gc_id tok) (cand_rest tok) stk"

text \<open>A well-formed candidate is at the end of its code points or before one of them.\<close>

lemma cand_cases:
  assumes "cand_wf tok"
  obtains (End) "cp_at tok = Some 0" "cand_rest tok = []"
  | (Char) c where "cp_at tok = Some c" "c \<noteq> 0" "cand_rest tok = c # cand_rest (tok\<lparr>gc_off := gc_off tok + 1\<rparr>)"
      "cand_wf (tok\<lparr>gc_off := gc_off tok + 1\<rparr>)"
proof -
  from assms have l: "gc_off tok < length (gc_code_points tok)" by (auto simp: cand_wf_def) (metis drop_all empty_iff list.set(1) not_less)
  let ?c = "gc_code_points tok ! gc_off tok"
  have d: "drop (gc_off tok) (gc_code_points tok) = ?c # drop (Suc (gc_off tok)) (gc_code_points tok)" using l by (simp add: Cons_nth_drop_Suc)
  show ?thesis
  proof (cases "?c = 0")
    case True
    with l d show ?thesis by (intro End) (simp_all add: cp_at_def cand_rest_def)
  next
    case False
    with l d assms show ?thesis by (intro Char [of ?c]) (simp_all add: cp_at_def cand_rest_def cand_wf_def)
  qed
qed

lemma for_each_filter:
  assumes "\<And>x acc. x \<in> set xs \<Longrightarrow> f x acc = Some (if P x then acc @ [x] else acc)"
  shows "for_each f xs acc = Some (acc @ filter P xs)"
  using assms by (induction xs arbitrary: acc) auto

lemma for_each_partition:
  assumes "\<And>x a b. x \<in> set xs \<Longrightarrow> f x (a, b) = Some (if P x then a @ [x] else a, if Q x then b @ [h x] else b)"
  shows "for_each f xs (a, b) = Some (a @ filter P xs, b @ map h (filter Q xs))"
  using assms by (induction xs arbitrary: a b) auto

abbreviation step_tok :: "llama_grammar_candidate \<Rightarrow> llama_grammar_candidate" where
  "step_tok tok \<equiv> tok\<lparr>gc_off := gc_off tok + 1\<rparr>"

text \<open>What a recursive call has to do.\<close>

definition reject_spec :: "llama_grammar_rules \<Rightarrow> nat \<Rightarrow>
    (llama_grammar_rules \<Rightarrow> llama_grammar_stacks \<Rightarrow> llama_grammar_candidates \<Rightarrow> llama_grammar_candidates option) \<Rightarrow> bool" where
  "reject_spec rules n rec \<longleftrightarrow> (\<forall>stks toks. stacks_ok rules stks \<longrightarrow> stks \<noteq> [] \<longrightarrow>
     (\<forall>t\<in>set toks. cand_wf t \<and> length (cand_rest t) < n) \<longrightarrow>
     (\<exists>rej. rec rules stks toks = Some rej \<and> set rej = {t\<in>set toks. \<forall>s\<in>set stks. \<not> tok_ok rules s t}))"

lemma match_token_total:
  "elem_at rules pos = Some e \<Longrightarrow> is_token_element e \<Longrightarrow> \<exists>b. llama_grammar_match_token rules pos tk = Some b"
  by (auto simp: llama_grammar_match_token_def)

lemma reject_for_stack_spec:
  assumes g: "grammar_ok rules" "left_safe rules" and ok: "stack_ok rules stk" "at_terminal rules stk"
    and rec: "reject_spec rules n rec" and toks: "\<forall>t\<in>set toks. cand_wf t \<and> length (cand_rest t) \<le> n"
  shows "\<exists>rej. llama_grammar_reject_candidates_for_stack rec rules stk toks = Some rej \<and>
    set rej = {t\<in>set toks. \<not> tok_ok rules stk t}"
proof (cases stk)
  case Nil
  let ?P = "\<lambda>t. \<not> tok_ok rules [] t"
  have "for_each reject_empty_stack toks [] = Some ([] @ filter ?P toks)"
  proof (rule for_each_filter)
    fix t acc assume "t \<in> set toks"
    then have "cand_wf t" using toks by simp
    then show "reject_empty_stack t acc = Some (if ?P t then acc @ [t] else acc)"
      by (cases rule: cand_cases) (simp_all add: reject_empty_stack_def)
  qed
  then show ?thesis using Nil by (simp add: llama_grammar_reject_candidates_for_stack_def)
next
  case (Cons p rest)
  obtain r i where p: "p = (r, i)" by (cases p)
  let ?e = "rules ! r ! i"
  have ri: "r < length rules" "i < length (rules ! r)" using ok Cons p by (auto simp: pos_ok_def)
  then have el: "elem_at rules (r, i) = Some ?e" by (simp add: elem_at_def)
  have nr: "ge_type ?e \<noteq> LLAMA_GRETYPE_RULE_REF" using ok(2) Cons p el by (simp add: at_terminal_def)
  have ty: "ge_type ?e \<in> {LLAMA_GRETYPE_CHAR, LLAMA_GRETYPE_CHAR_NOT, LLAMA_GRETYPE_CHAR_ANY} \<or> is_token_element ?e"
    using terminal_type ok(1) Cons p el nr by blast
  show ?thesis
  proof (cases "is_token_element ?e")
    case True
    let ?P = "\<lambda>t. \<not> tok_ok rules stk t"
    have "for_each (reject_token_rule rules (r, i)) toks [] = Some ([] @ filter ?P toks)"
    proof (rule for_each_filter)
      fix t acc assume "t \<in> set toks"
      then have "cand_wf t" using toks by simp
      then show "reject_token_rule rules (r, i) t acc = Some (if ?P t then acc @ [t] else acc)"
      proof (cases rule: cand_cases)
        case (Char c)
        from match_token_total [OF el True] obtain b where "llama_grammar_match_token rules (r, i) (gc_id t) = Some b" by blast
        with Char el True show ?thesis by (simp add: reject_token_rule_def Cons p)
      qed (use el True in \<open>simp add: reject_token_rule_def Cons p\<close>)
    qed
    then show ?thesis using Cons p el True by (simp add: llama_grammar_reject_candidates_for_stack_def)
  next
    case False
    with ty have ch: "ge_type ?e \<in> {LLAMA_GRETYPE_CHAR, LLAMA_GRETYPE_CHAR_NOT, LLAMA_GRETYPE_CHAR_ANY}" by simp
    have pos: "pos_ok rules (r, i)" using ok(1) Cons p by simp
    from match_char_spec [OF pos ch] obtain cls j where
      m: "\<forall>c. llama_grammar_match_char rules (r, i) c = Some (class_match cls c, (r, j))"
         "j < length (rules ! r)" "rule_ok (length rules) 0 (drop j (rules ! r))" by auto
    from push_pos_spec [OF ri(1) m(2,3), of rest] ok(1) Cons obtain s where
      s: "push_pos rules (r, j) rest = Some s" "stack_ok rules s" by auto
    from advance_stack_correct [OF g s(2)] obtain nxt where nxt: "llama_grammar_advance_stack rules s [] = Some nxt" "set nxt = adv_set rules s"
      by (metis Un_empty_left list.set(1))
    have fin: "expands_finitely rules s" using g(2) s(2) by (simp add: left_safe_def)
    have nxt_ok: "stacks_ok rules nxt" "nxt \<noteq> []"
      using adv_set_ok [OF g(1) s(2)] adv_set_lang(2) [OF g(1) fin s(2)] nxt(2) by (auto simp: stacks_ok_def)
    have cs: "chr_set rules c stk = (if class_match cls c then set nxt else {})" for c
      using el False m(1) s(1) nxt(2) by (simp add: chr_set_def Cons p)
    define Q where "Q t \<longleftrightarrow> (\<exists>c. cp_at t = Some c \<and> c \<noteq> 0 \<and> class_match cls c)" for t
    define P where "P t \<longleftrightarrow> \<not> Q t \<and> \<not> tok_ok rules stk t" for t
    have "for_each (reject_char_rule rules (r, i)) toks ([], []) = Some ([] @ filter P toks, [] @ map step_tok (filter Q toks))"
    proof (rule for_each_partition)
      fix t a b assume "t \<in> set toks"
      then have "cand_wf t" using toks by simp
      then show "reject_char_rule rules (r, i) t (a, b) = Some (if P t then a @ [t] else a, if Q t then b @ [step_tok t] else b)"
      proof (cases rule: cand_cases)
        case End
        from match_partial_total [OF pos ch] obtain x where "llama_grammar_match_partial_char rules (r, i) (gc_partial_utf8 t) = Some x" by blast
        with End el False show ?thesis by (auto simp: reject_char_rule_def P_def Q_def Cons p)
      next
        case (Char c)
        with el False m(1) show ?thesis by (auto simp: reject_char_rule_def P_def Q_def Cons p cs [unfolded Cons p])
      qed
    qed
    moreover obtain rej where rej: "rec rules nxt (map step_tok (filter Q toks)) = Some rej"
      "set rej = {t\<in>set (map step_tok (filter Q toks)). \<forall>s\<in>set nxt. \<not> tok_ok rules s t}"
    proof -
      have "\<forall>t\<in>set (map step_tok (filter Q toks)). cand_wf t \<and> length (cand_rest t) < n"
      proof
        fix u assume "u \<in> set (map step_tok (filter Q toks))"
        then obtain t where t: "t \<in> set toks" "Q t" "u = step_tok t" by auto
        with toks have "cand_wf t" "length (cand_rest t) \<le> n" by auto
        from this(1) show "cand_wf u \<and> length (cand_rest u) < n"
          by (cases rule: cand_cases) (use t \<open>length (cand_rest t) \<le> n\<close> in \<open>auto simp: Q_def\<close>)
      qed
      with rec nxt_ok that show ?thesis unfolding reject_spec_def by blast
    qed
    ultimately have run: "llama_grammar_reject_candidates_for_stack rec rules stk toks =
        Some (filter P toks @ map (\<lambda>tok. tok\<lparr>gc_off := gc_off tok - 1\<rparr>) rej)"
      using el False m(1) s(1) nxt(1) by (simp add: llama_grammar_reject_candidates_for_stack_def Cons p)
    have next_eq: "tok_ok rules stk t \<longleftrightarrow> (\<exists>s\<in>set nxt. tok_ok rules s (step_tok t))" if "t \<in> set toks" "Q t" for t
    proof -
      have "cand_wf t" using toks that by simp
      then show ?thesis
      proof (cases rule: cand_cases)
        case (Char c)
        then show ?thesis using that(2) el False by (simp add: Q_def Cons p cs [unfolded Cons p])
      qed (use that(2) in \<open>simp add: Q_def\<close>)
    qed
    have "(\<lambda>tok. tok\<lparr>gc_off := gc_off tok - 1\<rparr>) ` set rej = {t\<in>set toks. Q t \<and> \<not> tok_ok rules stk t}" (is "?L = ?R")
    proof (rule set_eqI)
      fix t
      have "t \<in> ?L \<longleftrightarrow> (\<exists>u\<in>set toks. Q u \<and> (\<forall>s\<in>set nxt. \<not> tok_ok rules s (step_tok u)) \<and> t = u)"
        unfolding rej(2) by (auto simp: image_iff)
      also have "\<dots> \<longleftrightarrow> t \<in> ?R" using next_eq by blast
      finally show "t \<in> ?L \<longleftrightarrow> t \<in> ?R" .
    qed
    then show ?thesis using run by (auto simp: P_def)
  qed
qed

lemma reject_candidates_spec:
  assumes g: "grammar_ok rules" "left_safe rules"
  shows "reject_spec rules n llama_grammar_reject_candidates"
proof (induction n)
  case 0
  show ?case unfolding reject_spec_def
  proof (intro allI impI)
    fix stks :: llama_grammar_stacks and toks assume "stks \<noteq> []" "\<forall>t\<in>set toks. cand_wf t \<and> length (cand_rest t) < 0"
    then have "toks = []" by (cases toks) auto
    with \<open>stks \<noteq> []\<close> show "\<exists>rej. llama_grammar_reject_candidates rules stks toks = Some rej \<and>
        set rej = {t \<in> set toks. \<forall>s\<in>set stks. \<not> tok_ok rules s t}"
      by (subst llama_grammar_reject_candidates.simps) simp
  qed
next
  case (Suc n)
  show ?case unfolding reject_spec_def
  proof (intro allI impI)
    fix stks toks assume ok: "stacks_ok rules stks" "stks \<noteq> []" and toks: "\<forall>t\<in>set toks. cand_wf t \<and> length (cand_rest t) < Suc n"
    let ?f = "\<lambda>stack rejects. llama_grammar_reject_candidates_for_stack llama_grammar_reject_candidates rules stack rejects"
    have "\<exists>rej. for_each ?f stks toks = Some rej \<and> set rej = {t \<in> set toks. \<forall>s\<in>set stks. \<not> tok_ok rules s t}"
    proof (rule for_each_rule [where I = "\<lambda>ss rej. set rej = {t \<in> set toks. \<forall>s\<in>set ss. \<not> tok_ok rules s t}"])
      fix ys s zs rej assume st: "stks = ys @ s # zs" and I: "set rej = {t \<in> set toks. \<forall>s\<in>set ys. \<not> tok_ok rules s t}"
      have "stack_ok rules s" "at_terminal rules s" using ok(1) st by (auto simp: stacks_ok_def)
      moreover have "\<forall>t\<in>set rej. cand_wf t \<and> length (cand_rest t) \<le> n" using I toks by auto
      ultimately obtain rej' where "?f s rej = Some rej'" "set rej' = {t\<in>set rej. \<not> tok_ok rules s t}"
        using reject_for_stack_spec [OF g _ _ Suc.IH] by blast
      with I show "\<exists>t'. ?f s rej = Some t' \<and> set t' = {t \<in> set toks. \<forall>s\<in>set (ys @ [s]). \<not> tok_ok rules s t}" by auto
    qed simp
    then show "\<exists>rej. llama_grammar_reject_candidates rules stks toks = Some rej \<and>
        set rej = {t \<in> set toks. \<forall>s\<in>set stks. \<not> tok_ok rules s t}"
      using ok(2) by (subst llama_grammar_reject_candidates.simps) auto
  qed
qed

lemma reject_candidates_correct:
  assumes "grammar_ok rules" "left_safe rules" "stacks_ok rules stks" "stks \<noteq> []" "\<forall>t\<in>set toks. cand_wf t"
  shows "\<exists>rej. llama_grammar_reject_candidates rules stks toks = Some rej \<and> set rej = {t\<in>set toks. \<forall>s\<in>set stks. \<not> tok_ok rules s t}"
proof -
  have "\<forall>t\<in>set toks. cand_wf t \<and> length (cand_rest t) < Suc (sum_list (map (length \<circ> cand_rest) toks))"
    using assms(5) member_le_sum_list [of _ "map (length \<circ> cand_rest) toks"] by (auto simp: less_Suc_eq_le)
  with reject_candidates_spec [OF assms(1,2)] assms(3,4) show ?thesis unfolding reject_spec_def by blast
qed


section \<open>Decoded pieces\<close>

lemma decode_loop_last: "\<exists>xs. fst (decode_loop cs cps v n) = xs @ [0]"
  by (induction cs cps v n rule: decode_loop.induct) (auto simp: Let_def split: prod.splits)

lemma decode_last: "\<exists>xs. fst (decode_utf8 piece ps) = xs @ [0]"
  using decode_loop_last by (auto simp: decode_utf8_def split: option.splits prod.splits)

text \<open>A piece that decodes without a partial character at its end has a code point.\<close>

lemma decode_loop_complete:
  "c \<noteq> NUL \<Longrightarrow> pu_n_remain (snd (decode_loop (c # cs) cps v n)) = 0 \<Longrightarrow> butlast (fst (decode_loop (c # cs) cps v n)) \<noteq> []"
proof (induction "length cs" arbitrary: c cs cps v n rule: less_induct)
  case less
  let ?n = "utf8_len_lookup ! nat (ub c div 16) - 1"
  have mono: "cps \<noteq> [] \<Longrightarrow> fst (decode_loop cs cps v n) = [0] \<and> pu_n_remain (snd (decode_loop cs cps v n)) < 0 \<or> butlast (fst (decode_loop cs cps v n)) \<noteq> []" for cs cps v n
    by (induction cs cps v n rule: decode_loop.induct) (auto simp: Let_def split: prod.splits)
  show ?case
  proof (cases "?n < 0")
    case True
    with less.prems show ?thesis by (simp add: Let_def)
  next
    case False
    obtain cs' v' n' where r: "utf8_rest cs (ub c mod 2 ^ nat (7 - ?n)) ?n = (cs', v', n')" by (metis prod_cases3)
    have eq: "decode_loop (c # cs) cps v n = decode_loop cs' (if n' = 0 then cps @ [v'] else cps) v' n'"
      using False less.prems(1) r by (simp add: Let_def)
    show ?thesis
    proof (cases "n' = 0")
      case True
      then show ?thesis using mono [of "cps @ [v']" cs' v' n'] less.prems(2) eq by auto
    next
      case n': False
      with less.prems(2) eq obtain d ds where d: "cs' = d # ds" "d \<noteq> NUL" by (cases cs') (auto split: if_splits)
      have "length ds < length cs" using length_utf8_rest [OF r] d by simp
      from less.hyps [OF this d(2)] less.prems(2) show ?thesis unfolding eq d by simp
    qed
  qed
qed

lemma utf8_continue_zero: "utf8_continue cs v n = Some (cs', v', n') \<Longrightarrow> n \<le> 0 \<Longrightarrow> cs' = cs \<and> v' = v \<and> n' = n"
  by (cases cs) (auto split: if_splits)

lemma utf8_continue_end: "utf8_continue cs v n = Some (cs', v', n') \<Longrightarrow> 0 < n \<Longrightarrow> cs \<noteq> [] \<Longrightarrow> n' = 0 \<or> cs' = [] \<or> hd cs' = NUL"
proof (induction cs v n rule: utf8_continue.induct)
  case (2 c cs v n)
  show ?case
  proof (cases "c = NUL")
    case True
    with 2(2) show ?thesis by auto
  next
    case False
    with 2 have ih: "utf8_continue cs (shift_in v c) (n - 1) = Some (cs', v', n')" by (auto split: if_splits)
    show ?thesis
    proof (cases "n - 1 > 0 \<and> cs \<noteq> []")
      case True
      with 2(1) [OF _ _ ih] False 2(2,3) show ?thesis by (auto split: if_splits)
    next
      case n: False
      then show ?thesis
      proof (cases "cs = []")
        case True
        with ih show ?thesis by simp
      next
        case False
        with n have "n - 1 \<le> 0" by auto
        from utf8_continue_zero [OF ih this] 2(3) \<open>n - 1 \<le> 0\<close> show ?thesis by simp
      qed
    qed
  qed
qed simp

lemma decode_complete:
  assumes "piece \<noteq> []" "hd piece \<noteq> NUL" "pu_n_remain (snd (decode_utf8 piece ps)) = 0"
  shows "butlast (fst (decode_utf8 piece ps)) \<noteq> []"
proof (cases "utf8_continue piece (pu_value ps) (pu_n_remain ps)")
  case None
  with assms(3) show ?thesis by (simp add: decode_utf8_def)
next
  case (Some a)
  obtain cs v n where a: "a = (cs, v, n)" by (metis prod_cases3)
  let ?cps = "if pu_n_remain ps > 0 \<and> n = 0 then [v] else []"
  have eq: "decode_utf8 piece ps = decode_loop cs ?cps v n" using Some a by (simp add: decode_utf8_def)
  show ?thesis
  proof (cases "cs = [] \<or> hd cs = NUL")
    case True
    then have e: "decode_loop cs ?cps v n = (?cps @ [0], \<lparr>pu_value = v, pu_n_remain = n\<rparr>)" by (cases cs) auto
    with assms(3) eq have n: "n = 0" by simp
    have "pu_n_remain ps > 0"
    proof (rule ccontr)
      assume "\<not> pu_n_remain ps > 0"
      with utf8_continue_zero Some a have "cs = piece" by fastforce
      with True assms(1,2) show False by simp
    qed
    with n e eq show ?thesis by simp
  next
    case False
    then obtain d ds where "cs = d # ds" "d \<noteq> NUL" by (cases cs) auto
    with decode_loop_complete [of d ds ?cps v n] assms(3) show ?thesis unfolding eq by simp
  qed
qed

section \<open>Accepting a piece\<close>

lemma accept_Nil [simp]: "llama_grammar_accept rules c [] = Some []"
  by (simp add: llama_grammar_accept_def)

lemma accept_chars_Nil [simp]: "accept_chars rules cs [] = Some []"
  by (induction cs) (simp_all add: accept_chars_def)

lemma accept_piece_eq: "accept_piece rules cs stks = accept_chars rules cs stks"
proof (induction cs arbitrary: stks)
  case (Cons c cs)
  then show ?case by (cases "llama_grammar_accept rules c stks") (auto simp: accept_chars_def accept_chars_Nil [unfolded accept_chars_def])
qed (simp add: accept_chars_def)

definition token_free :: "llama_grammar_rules \<Rightarrow> bool" where
  "token_free rules \<longleftrightarrow> (\<forall>rule\<in>set rules. \<forall>e\<in>set rule. \<not> is_token_element e)"

lemma token_free_elem:
  assumes "token_free rules" and "elem_at rules pos = Some e"
  shows "\<not> is_token_element e"
proof -
  obtain r i where "pos = (r, i)" by (cases pos)
  with assms(2) have "rules ! r \<in> set rules" "e \<in> set (rules ! r)" by (auto simp: elem_at_def split: Option.bind_splits)
  with assms(1) show ?thesis by (auto simp: token_free_def)
qed

lemma accept_set:
  assumes "grammar_ok rules" "left_safe rules" "stacks_ok rules stks"
  obtains t where "llama_grammar_accept rules c stks = Some t" "set t = (\<Union>s\<in>set stks. chr_set rules c s)" "stacks_ok rules t"
  using accept_correct [OF assms, of c] by (elim exE conjE) (rule that)

lemma cand_ok_survives:
  assumes g: "grammar_ok rules" "left_safe rules" "token_free rules"
  shows "stacks_ok rules stks \<Longrightarrow> s \<in> set stks \<Longrightarrow> cand_ok rules pu tk cs s \<Longrightarrow> \<exists>stks'. accept_chars rules cs stks = Some stks' \<and> stks' \<noteq> []"
proof (induction cs arbitrary: stks s)
  case Nil
  then show ?case by (auto simp: accept_chars_def)
next
  case (Cons c cs)
  obtain t where t: "llama_grammar_accept rules c stks = Some t" "set t = (\<Union>s\<in>set stks. chr_set rules c s)" "stacks_ok rules t"
    using accept_set [OF g(1,2) Cons.prems(1)] .
  from Cons.prems(3) token_free_elem [OF g(3)] obtain u where "u \<in> chr_set rules c s" "cand_ok rules pu tk cs u"
    by (auto split: list.splits if_splits)
  with Cons.IH [OF t(3)] Cons.prems(2) t show ?case by (auto simp: accept_chars_def)
qed

lemma survives_cand_ok:
  assumes g: "grammar_ok rules" "left_safe rules" and "pu_n_remain pu = 0"
  shows "stacks_ok rules stks \<Longrightarrow> accept_chars rules cs stks = Some stks' \<Longrightarrow> stks' \<noteq> [] \<Longrightarrow> \<exists>s\<in>set stks. cand_ok rules pu tk cs s"
proof (induction cs arbitrary: stks)
  case Nil
  then show ?case using assms(3) by (cases stks) (auto simp: accept_chars_def split: list.splits)
next
  case (Cons c cs)
  obtain t where t: "llama_grammar_accept rules c stks = Some t" "set t = (\<Union>s\<in>set stks. chr_set rules c s)" "stacks_ok rules t"
    using accept_set [OF g Cons.prems(1)] .
  with Cons.prems(2) have "accept_chars rules cs t = Some stks'" by (simp add: accept_chars_def)
  from Cons.IH [OF t(3) this Cons.prems(3)] t(2) obtain s u where su: "s \<in> set stks" "u \<in> chr_set rules c s" "cand_ok rules pu tk cs u" by auto
  then have "cand_ok rules pu tk (c # cs) s" by (auto simp: chr_set_def split: list.splits option.splits if_splits prod.splits)
  with su(1) show ?case by blast
qed

section \<open>The invariant of a grammar\<close>

definition grammar_inv :: "llama_grammar \<Rightarrow> bool" where
  "grammar_inv g \<longleftrightarrow> grammar_ok (g_rules g) \<and> left_safe (g_rules g) \<and> stacks_ok (g_rules g) (g_stacks g) \<and> g_stacks g \<noteq> []"

lemma set_fold_add_stack [simp]: "set (fold add_stack xs ys) = set xs \<union> set ys"
  by (induction xs arbitrary: ys) auto

text \<open>What a stack contributes when a token is accepted.\<close>

lemma accept_token_stack_spec:
  assumes g: "grammar_ok rules" "left_safe rules" and ok: "stack_ok rules stk" "at_terminal rules stk"
  obtains S where "\<And>new. \<exists>new'. accept_token_stack rules tk cs stk new = Some new' \<and> set new' = set new \<union> S"
    and "\<forall>s\<in>S. stack_ok rules s \<and> at_terminal rules s"
    and "stk = [] \<Longrightarrow> S = {}"
    and "token_free rules \<Longrightarrow> stk \<noteq> [] \<Longrightarrow> \<exists>t. accept_chars rules cs [stk] = Some t \<and> S = set t"
proof (cases stk)
  case Nil
  then show ?thesis using that [of "{}"] by (simp add: accept_token_stack_def)
next
  case (Cons p rest)
  obtain r i where p: "p = (r, i)" by (cases p)
  let ?e = "rules ! r ! i"
  have ri: "r < length rules" "i < length (rules ! r)" using ok Cons p by (auto simp: pos_ok_def)
  then have el: "elem_at rules (r, i) = Some ?e" by (simp add: elem_at_def)
  show ?thesis
  proof (cases "is_token_element ?e")
    case True
    from match_token_total [OF el True] obtain b where b: "llama_grammar_match_token rules (r, i) tk = Some b" by blast
    have d: "drop i (rules ! r) = ?e # drop (Suc i) (rules ! r)" using ri by (simp add: Cons_nth_drop_Suc)
    have nx: "rule_ok (length rules) 0 (drop (Suc i) (rules ! r))"
      using ok(1) True unfolding Cons p stack_ok_simps pos_ok_def case_prod_conv d by (auto simp: is_token_element_def)
    then have si: "Suc i < length (rules ! r)" using rule_ok_nonempty by (metis drop_all not_le)
    from push_pos_spec [OF ri(1) si nx, of rest] ok(1) Cons obtain s where s: "push_pos rules (r, Suc i) rest = Some s" "stack_ok rules s" by auto
    have tf: "\<not> token_free rules" using token_free_elem el True by blast
    show ?thesis
      by (rule that [of "if b then adv_set rules s else {}"])
        (use Cons p el True b s advance_stack_correct [OF g s(2)] adv_set_ok [OF g(1) s(2)] tf in
          \<open>auto simp: accept_token_stack_def next_pos_def\<close>)
  next
    case False
    have "stacks_ok rules [stk]" using ok by (simp add: stacks_ok_def)
    from accept_chars_correct [OF g this] obtain t where t: "accept_chars rules cs [stk] = Some t" "stacks_ok rules t" by blast
    show ?thesis
      by (rule that [of "set t"]) (use Cons p el False t in \<open>auto simp: accept_token_stack_def accept_piece_eq stacks_ok_def\<close>)
  qed
qed


definition the_piece_set :: "llama_grammar_rules \<Rightarrow> llama_token \<Rightarrow> int list \<Rightarrow> llama_grammar_stack \<Rightarrow> llama_grammar_stack set" where
  "the_piece_set rules tk cs stk = set (the (accept_token_stack rules tk cs stk []))"

lemma accept_token_stack_set:
  assumes g: "grammar_ok rules" "left_safe rules" and ok: "stack_ok rules stk" "at_terminal rules stk"
  shows "\<exists>new'. accept_token_stack rules tk cs stk new = Some new' \<and> set new' = set new \<union> the_piece_set rules tk cs stk"
    and "\<forall>s\<in>the_piece_set rules tk cs stk. stack_ok rules s \<and> at_terminal rules s"
    and "stk = [] \<Longrightarrow> the_piece_set rules tk cs stk = {}"
    and "token_free rules \<Longrightarrow> stk \<noteq> [] \<Longrightarrow> \<exists>t. accept_chars rules cs [stk] = Some t \<and> the_piece_set rules tk cs stk = set t"
proof -
  obtain S where S: "\<And>new. \<exists>new'. accept_token_stack rules tk cs stk new = Some new' \<and> set new' = set new \<union> S"
    "\<forall>s\<in>S. stack_ok rules s \<and> at_terminal rules s" "stk = [] \<Longrightarrow> S = {}"
    "token_free rules \<Longrightarrow> stk \<noteq> [] \<Longrightarrow> \<exists>t. accept_chars rules cs [stk] = Some t \<and> S = set t"
    using accept_token_stack_spec [OF g ok, of tk cs] by blast
  from S(1) [of "[]"] have eq: "the_piece_set rules tk cs stk = S" by (auto simp: the_piece_set_def)
  show "\<exists>new'. accept_token_stack rules tk cs stk new = Some new' \<and> set new' = set new \<union> the_piece_set rules tk cs stk"
    and "\<forall>s\<in>the_piece_set rules tk cs stk. stack_ok rules s \<and> at_terminal rules s"
    and "stk = [] \<Longrightarrow> the_piece_set rules tk cs stk = {}"
    and "token_free rules \<Longrightarrow> stk \<noteq> [] \<Longrightarrow> \<exists>t. accept_chars rules cs [stk] = Some t \<and> the_piece_set rules tk cs stk = set t"
    unfolding eq using S by blast+
qed

lemma accept_token_run:
  assumes inv: "grammar_inv g" and d: "decode_utf8 piece (g_partial_utf8 g) = (cps, pu)"
  obtains stks where "set stks = (\<Union>s\<in>set (g_stacks g). the_piece_set (g_rules g) tk (butlast cps) s)" "stacks_ok (g_rules g) stks"
    "llama_grammar_accept_token tk piece g = (if stks = [] then None else Some (g\<lparr>g_stacks := stks, g_partial_utf8 := pu\<rparr>))"
proof -
  let ?r = "g_rules g" and ?f = "accept_token_stack (g_rules g) tk (butlast cps)"
  from inv have g: "grammar_ok ?r" "left_safe ?r" and ok: "stacks_ok ?r (g_stacks g)" by (auto simp: grammar_inv_def)
  have "\<exists>stks. for_each ?f (g_stacks g) [] = Some stks \<and> set stks = set [] \<union> (\<Union>s\<in>set (g_stacks g). the_piece_set ?r tk (butlast cps) s)"
    by (rule for_each_union) (use accept_token_stack_set(1) [OF g] ok in \<open>simp add: stacks_ok_def\<close>)
  then obtain stks where s: "for_each ?f (g_stacks g) [] = Some stks" "set stks = (\<Union>s\<in>set (g_stacks g). the_piece_set ?r tk (butlast cps) s)" by auto
  have "stacks_ok ?r stks"
    unfolding stacks_ok_def s(2) using accept_token_stack_set(2) [OF g] ok by (auto simp: stacks_ok_def)
  with s d that [of stks] show ?thesis by (simp add: llama_grammar_accept_token_def)
qed

lemma accept_token_inv:
  assumes "grammar_inv g" and "llama_grammar_accept_token tk piece g = Some g'"
  shows "grammar_inv g'" and "g_rules g' = g_rules g" and "g_vocab g' = g_vocab g"
proof -
  obtain cps pu where d: "decode_utf8 piece (g_partial_utf8 g) = (cps, pu)" by fastforce
  from accept_token_run [OF assms(1) d, of tk] obtain stks where "stacks_ok (g_rules g) stks"
    "llama_grammar_accept_token tk piece g = (if stks = [] then None else Some (g\<lparr>g_stacks := stks, g_partial_utf8 := pu\<rparr>))" by metis
  with assms show "grammar_inv g'" "g_rules g' = g_rules g" "g_vocab g' = g_vocab g" by (auto simp: grammar_inv_def split: if_splits)
qed

lemma accept_str_inv:
  assumes "grammar_inv g" and "llama_grammar_accept_str piece g = Some g'"
  shows "grammar_inv g'" and "g_rules g' = g_rules g"
proof -
  obtain cps pu where d: "decode_utf8 piece (g_partial_utf8 g) = (cps, pu)" by fastforce
  from assms(1) have g: "grammar_ok (g_rules g)" "left_safe (g_rules g)" "stacks_ok (g_rules g) (g_stacks g)" by (auto simp: grammar_inv_def)
  from accept_chars_correct [OF g, of "butlast cps"] obtain stks where s: "accept_chars (g_rules g) (butlast cps) (g_stacks g) = Some stks"
    "stacks_ok (g_rules g) stks" by (elim exE conjE) (rule that)
  with assms d show "grammar_inv g'" "g_rules g' = g_rules g"
    by (auto simp: grammar_inv_def llama_grammar_accept_str_def split: if_splits)
qed

lemma grammar_inv_cong: "grammar_inv (g\<lparr>g_awaiting_trigger := a\<rparr>) = grammar_inv g" "grammar_inv (g\<lparr>g_trigger_buffer := b\<rparr>) = grammar_inv g"
  "grammar_inv (g\<lparr>g_trigger_buffer_positions := c\<rparr>) = grammar_inv g"
  by (simp_all add: grammar_inv_def)

lemma replay_inv: "grammar_inv g \<Longrightarrow> replay_token start tp g = Some g' \<Longrightarrow> grammar_inv g' \<and> g_rules g' = g_rules g"
  by (cases tp) (auto simp: replay_token_def Let_def split: if_splits dest: accept_token_inv)

lemma replays_inv: "for_each (replay_token start) tps g = Some g' \<Longrightarrow> grammar_inv g \<Longrightarrow> grammar_inv g' \<and> g_rules g' = g_rules g"
proof (induction tps arbitrary: g)
  case (Cons tp tps)
  from Cons.prems(1) obtain h where h: "replay_token start tp g = Some h" "for_each (replay_token start) tps h = Some g'" by (auto split: Option.bind_splits)
  from replay_inv [OF Cons.prems(2) h(1)] Cons.IH [OF h(2)] show ?case by simp
qed simp

lemma try_patterns_inv: "try_patterns tps g = Some g' \<Longrightarrow> grammar_inv g \<Longrightarrow> grammar_inv g' \<and> g_rules g' = g_rules g"
proof (induction tps arbitrary: g)
  case (Cons tp tps)
  show ?case
  proof (cases "trigger_find tp (g_trigger_buffer g)")
    case None
    with Cons show ?thesis by simp
  next
    case (Some start)
    let ?g = "g\<lparr>g_awaiting_trigger := False\<rparr>"
    from Some Cons.prems(1) obtain h where h: "for_each (replay_token start) (g_trigger_buffer_positions g) ?g = Some h"
      "g' = h\<lparr>g_trigger_buffer := [], g_trigger_buffer_positions := []\<rparr>" by (auto simp: Let_def split: Option.bind_splits)
    have "grammar_inv ?g" using Cons.prems(2) by (simp add: grammar_inv_cong)
    from replays_inv [OF h(1) this] h(2) show ?thesis by (simp add: grammar_inv_cong)
  qed
qed simp

lemma accept_impl_inv:
  assumes "grammar_inv g" and "llama_grammar_accept_impl tk g = Some g'"
  shows "grammar_inv g' \<and> g_rules g' = g_rules g"
proof -
  obtain vocab where v: "g_vocab g = Some vocab" using assms(2) by (cases "g_vocab g") (auto simp: llama_grammar_accept_impl_def)
  show ?thesis
  proof (cases "g_awaiting_trigger g")
    case False
    with assms v accept_token_inv [OF assms(1)] show ?thesis by (auto simp: llama_grammar_accept_impl_def Let_def split: if_splits)
  next
    case True
    show ?thesis
    proof (cases "tk \<in> set (g_trigger_tokens g)")
      case t: True
      let ?g = "g\<lparr>g_awaiting_trigger := False, g_trigger_buffer := []\<rparr>"
      have "llama_grammar_accept_token tk (vocab_token_to_piece vocab tk) ?g = Some g'"
        using assms(2) v True t by (simp add: llama_grammar_accept_impl_def Let_def)
      moreover have "grammar_inv ?g" using assms(1) by (simp add: grammar_inv_cong)
      ultimately show ?thesis using accept_token_inv by fastforce
    next
      case False
      let ?g = "g\<lparr>g_trigger_buffer_positions := g_trigger_buffer_positions g @
        [(tk, length (g_trigger_buffer g), length (g_trigger_buffer g) + length (vocab_token_to_piece vocab tk))],
        g_trigger_buffer := g_trigger_buffer g @ vocab_token_to_piece vocab tk\<rparr>"
      have "try_patterns (g_trigger_patterns g) ?g = Some g'"
        using assms(2) v True False by (simp add: llama_grammar_accept_impl_def Let_def)
      moreover have "grammar_inv ?g" using assms(1) by (simp add: grammar_inv_cong)
      ultimately show ?thesis using try_patterns_inv by fastforce
    qed
  qed
qed


section \<open>llama_grammar_apply_impl\<close>

text \<open>The candidate that the loop makes of a token, and the tokens that reach the grammar.\<close>

definition mk_candidate :: "llama_vocab \<Rightarrow> llama_partial_utf8 \<Rightarrow> nat \<Rightarrow> llama_token \<Rightarrow> llama_grammar_candidate" where
  "mk_candidate vocab pu i tk = \<lparr>gc_index = i, gc_code_points = fst (decode_utf8 (vocab_token_to_piece vocab tk) pu), gc_off = 0,
     gc_partial_utf8 = snd (decode_utf8 (vocab_token_to_piece vocab tk) pu), gc_id = tk\<rparr>"

definition textual :: "llama_vocab \<Rightarrow> llama_token \<Rightarrow> bool" where
  "textual vocab tk \<longleftrightarrow> vocab_token_to_piece vocab tk \<noteq> [] \<and> hd (vocab_token_to_piece vocab tk) \<noteq> NUL"

text \<open>What the grammar allows next.\<close>

definition allowed :: "llama_vocab \<Rightarrow> llama_grammar \<Rightarrow> llama_token \<Rightarrow> bool" where
  "allowed vocab g tk =
     (if vocab_is_eog vocab tk then [] \<in> set (g_stacks g)
      else textual vocab tk \<and> (\<exists>s\<in>set (g_stacks g). tok_ok (g_rules g) s (mk_candidate vocab (g_partial_utf8 g) 0 tk)))"

lemma tok_ok_index: "tok_ok rules s (mk_candidate vocab pu i tk) = tok_ok rules s (mk_candidate vocab pu 0 tk)"
  by (simp add: mk_candidate_def cand_rest_def)

lemma mk_candidate_wf: "cand_wf (mk_candidate vocab pu i tk)"
  using decode_last [of "vocab_token_to_piece vocab tk" pu] by (auto simp: cand_wf_def mk_candidate_def)

lemma mask_logit_nth: "length (mask_logit i d) = length d" "j < length d \<Longrightarrow>
    mask_logit i d ! j = (if j = i then (d ! j)\<lparr>td_logit := LogitNegInf\<rparr> else d ! j)"
  by (auto simp: mask_logit_def nth_list_update)

lemma fold_mask_nth:
  fixes d :: "'f llama_token_data list"
  shows "length (fold (\<lambda>r d. mask_logit (gc_index r) d) rs d) = length d"
    and "j < length d \<Longrightarrow> fold (\<lambda>r d. mask_logit (gc_index r) d) rs d ! j =
      (if j \<in> gc_index ` set rs then (d ! j)\<lparr>td_logit := LogitNegInf\<rparr> else d ! j)"
proof -
  show "length (fold (\<lambda>r d. mask_logit (gc_index r) d) rs d) = length d"
    by (induction rs arbitrary: d) (simp_all add: mask_logit_nth)
  show "j < length d \<Longrightarrow> fold (\<lambda>r d. mask_logit (gc_index r) d) rs d ! j =
      (if j \<in> gc_index ` set rs then (d ! j)\<lparr>td_logit := LogitNegInf\<rparr> else d ! j)"
    by (induction rs arbitrary: d) (auto simp: mask_logit_nth)
qed

definition masked_at_once :: "llama_vocab \<Rightarrow> bool \<Rightarrow> llama_token \<Rightarrow> bool" where
  "masked_at_once vocab allow_eog tk = (if vocab_is_eog vocab tk then \<not> allow_eog else \<not> textual vocab tk)"

lemma collect_candidates_spec:
  fixes cur :: "'f llama_token_data list"
  shows "\<exists>data. for_each (collect_candidate vocab pu allow_eog) [0..<length cur] (cur, []) =
     Some (data, map (\<lambda>i. mk_candidate vocab pu i (td_id (cur ! i)))
       (filter (\<lambda>i. \<not> vocab_is_eog vocab (td_id (cur ! i)) \<and> textual vocab (td_id (cur ! i))) [0..<length cur])) \<and>
     length data = length cur \<and> (\<forall>j<length cur. data ! j =
       (if masked_at_once vocab allow_eog (td_id (cur ! j)) then (cur ! j)\<lparr>td_logit := LogitNegInf\<rparr> else cur ! j))"
proof -
  let ?M = "\<lambda>j. masked_at_once vocab allow_eog (td_id (cur ! j))"
  let ?C = "\<lambda>i. \<not> vocab_is_eog vocab (td_id (cur ! i)) \<and> textual vocab (td_id (cur ! i))"
  define I :: "nat \<Rightarrow> 'f llama_token_data list \<times> llama_grammar_candidates \<Rightarrow> bool" where
    "I k = (\<lambda>(data, cs). cs = map (\<lambda>i. mk_candidate vocab pu i (td_id (cur ! i))) (filter ?C [0..<k]) \<and> length data = length cur \<and>
      (\<forall>j<length cur. data ! j = (if j < k \<and> ?M j then (cur ! j)\<lparr>td_logit := LogitNegInf\<rparr> else cur ! j)))" for k
  have "\<exists>t. for_each (collect_candidate vocab pu allow_eog) [0..<length cur] (cur, []) = Some t \<and> I (length cur) t"
  proof (rule for_upto_rule [where I = I])
    show "I 0 (cur, [])" by (simp add: I_def)
    fix i t assume i: "i < length cur" and "I i t"
    then obtain data cs where t: "t = (data, cs)" and D: "length data = length cur"
      "\<And>j. j < length cur \<Longrightarrow> data ! j = (if j < i \<and> ?M j then (cur ! j)\<lparr>td_logit := LogitNegInf\<rparr> else cur ! j)"
      and cs: "cs = map (\<lambda>i. mk_candidate vocab pu i (td_id (cur ! i))) (filter ?C [0..<i])" by (auto simp: I_def)
    have id: "data ! i = cur ! i" using D(2) [OF i] by simp
    have at: "at data i = Some (cur ! i)" using i D(1) id by simp
    consider (Mask) "?M i" "\<not> ?C i" | (Keep) "\<not> ?M i" "\<not> ?C i" | (Cand) "\<not> ?M i" "?C i" by (auto simp: masked_at_once_def)
    then show "\<exists>t'. collect_candidate vocab pu allow_eog i t = Some t' \<and> I (Suc i) t'"
    proof cases
      case Mask
      then have "collect_candidate vocab pu allow_eog i t = Some (mask_logit i data, cs)"
        by (auto simp: t at collect_candidate_def Let_def masked_at_once_def textual_def split: if_splits)
      then show ?thesis using Mask D cs id by (auto simp: I_def mask_logit_nth less_Suc_eq)
    next
      case Keep
      then have "collect_candidate vocab pu allow_eog i t = Some (data, cs)"
        by (auto simp: t at collect_candidate_def Let_def masked_at_once_def textual_def split: if_splits)
      then show ?thesis using Keep D cs by (auto simp: I_def less_Suc_eq)
    next
      case Cand
      then have "collect_candidate vocab pu allow_eog i t = Some (data, cs @ [mk_candidate vocab pu i (td_id (cur ! i))])"
        by (auto simp: t at collect_candidate_def Let_def mk_candidate_def textual_def)
      then show ?thesis using Cand D cs by (auto simp: I_def less_Suc_eq)
    qed
  qed
  then show ?thesis by (auto simp: I_def)
qed

lemma apply_spec:
  fixes cur :: "'f llama_token_data list"
  assumes inv: "grammar_inv g" and v: "g_vocab g = Some vocab" and a: "\<not> g_awaiting_trigger g"
  shows "\<exists>data. llama_grammar_apply_impl g cur = Some data \<and> length data = length cur \<and>
    (\<forall>j<length cur. data ! j = (if allowed vocab g (td_id (cur ! j)) then cur ! j else (cur ! j)\<lparr>td_logit := LogitNegInf\<rparr>))"
proof -
  let ?pu = "g_partial_utf8 g" and ?S = "g_stacks g"
  let ?C = "\<lambda>i. \<not> vocab_is_eog vocab (td_id (cur ! i)) \<and> textual vocab (td_id (cur ! i))"
  let ?toks = "map (\<lambda>i. mk_candidate vocab ?pu i (td_id (cur ! i))) (filter ?C [0..<length cur])"
  from collect_candidates_spec [of vocab ?pu "[] \<in> set ?S" cur] obtain data where
    D: "for_each (collect_candidate vocab ?pu ([] \<in> set ?S)) [0..<length cur] (cur, []) = Some (data, ?toks)" "length data = length cur"
      "\<And>j. j < length cur \<Longrightarrow> data ! j =
         (if masked_at_once vocab ([] \<in> set ?S) (td_id (cur ! j)) then (cur ! j)\<lparr>td_logit := LogitNegInf\<rparr> else cur ! j)" by blast
  obtain rej where rej: "llama_grammar_reject_candidates (g_rules g) ?S ?toks = Some rej"
      "set rej = {t\<in>set ?toks. \<forall>s\<in>set ?S. \<not> tok_ok (g_rules g) s t}"
    using reject_candidates_correct [of "g_rules g" ?S ?toks] inv mk_candidate_wf by (auto simp: grammar_inv_def)
  let ?out = "fold (\<lambda>reject data. mask_logit (gc_index reject) data) rej data"
  have run: "llama_grammar_apply_impl g cur = Some ?out" using v a D(1) rej(1) by (simp add: llama_grammar_apply_impl_def Let_def)
  have idx: "j \<in> gc_index ` set rej \<longleftrightarrow> ?C j \<and> \<not> (\<exists>s\<in>set ?S. tok_ok (g_rules g) s (mk_candidate vocab ?pu 0 (td_id (cur ! j))))"
    if j: "j < length cur" for j
  proof -
    have ix: "gc_index (mk_candidate vocab ?pu i tk) = i" for i tk by (simp add: mk_candidate_def)
    have "j \<in> gc_index ` set rej \<longleftrightarrow> (\<exists>i<length cur. ?C i \<and> (\<forall>s\<in>set ?S. \<not> tok_ok (g_rules g) s (mk_candidate vocab ?pu i (td_id (cur ! i)))) \<and> j = i)"
      unfolding rej(2) by (auto simp: image_iff ix)
    then show ?thesis using j tok_ok_index by blast
  qed
  have "?out ! j = (if allowed vocab g (td_id (cur ! j)) then cur ! j else (cur ! j)\<lparr>td_logit := LogitNegInf\<rparr>)" if j: "j < length cur" for j
    using fold_mask_nth(2) [of j data rej] D(2) D(3) [OF j] j idx [OF j] by (auto simp: masked_at_once_def allowed_def)
  then show ?thesis using run D(2) fold_mask_nth(1) [of rej data] by simp
qed

section \<open>Sampling and accepting\<close>

text \<open>Pieces without a code point 0 (an overlong encoding of it ends the candidate for the rejection).\<close>

definition zero_free :: "llama_vocab \<Rightarrow> llama_grammar \<Rightarrow> llama_token \<Rightarrow> bool" where
  "zero_free vocab g tk \<longleftrightarrow> 0 \<notin> set (butlast (fst (decode_utf8 (vocab_token_to_piece vocab tk) (g_partial_utf8 g))))"

lemma zero_free_rest:
  assumes "zero_free vocab g tk"
  shows "cand_rest (mk_candidate vocab (g_partial_utf8 g) 0 tk) = butlast (fst (decode_utf8 (vocab_token_to_piece vocab tk) (g_partial_utf8 g)))"
proof -
  obtain xs where x: "fst (decode_utf8 (vocab_token_to_piece vocab tk) (g_partial_utf8 g)) = xs @ [0]" using decode_last by blast
  with assms have "0 \<notin> set xs" by (simp add: zero_free_def)
  then have "takeWhile (\<lambda>c. c \<noteq> 0) (xs @ [0]) = xs" by (simp add: takeWhile_tail) (metis takeWhile_eq_all_conv)
  with x show ?thesis by (simp add: cand_rest_def mk_candidate_def)
qed

lemma accept_impl_iff:
  assumes inv: "grammar_inv g" and v: "g_vocab g = Some vocab" and a: "\<not> g_awaiting_trigger g" and tf: "token_free (g_rules g)"
    and z: "zero_free vocab g tk" and n: "\<not> vocab_is_eog vocab tk" "textual vocab tk"
  shows "allowed vocab g tk \<Longrightarrow> \<exists>g'. llama_grammar_accept_impl tk g = Some g'"
    and "\<not> allowed vocab g tk \<Longrightarrow> pu_n_remain (snd (decode_utf8 (vocab_token_to_piece vocab tk) (g_partial_utf8 g))) = 0 \<Longrightarrow>
      llama_grammar_accept_impl tk g = None"
proof -
  let ?r = "g_rules g" and ?piece = "vocab_token_to_piece vocab tk"
  obtain cps pu where d: "decode_utf8 ?piece (g_partial_utf8 g) = (cps, pu)" by fastforce
  from inv have g: "grammar_ok ?r" "left_safe ?r" "stacks_ok ?r (g_stacks g)" by (auto simp: grammar_inv_def)
  obtain stks where s: "set stks = (\<Union>s\<in>set (g_stacks g). the_piece_set ?r tk (butlast cps) s)"
    "llama_grammar_accept_token tk ?piece g = (if stks = [] then None else Some (g\<lparr>g_stacks := stks, g_partial_utf8 := pu\<rparr>))"
    using accept_token_run [OF inv d, of tk] by metis
  have run: "llama_grammar_accept_impl tk g = (if stks = [] then None else Some (g\<lparr>g_stacks := stks, g_partial_utf8 := pu\<rparr>))"
    using v a n(1) s(2) by (simp add: llama_grammar_accept_impl_def Let_def)
  have al: "allowed vocab g tk \<longleftrightarrow> (\<exists>s\<in>set (g_stacks g). cand_ok ?r pu tk (butlast cps) s)"
    using zero_free_rest [OF z] n d by (simp add: allowed_def) (simp add: mk_candidate_def)
  have piece: "\<exists>t. accept_chars ?r (butlast cps) [s] = Some t \<and> the_piece_set ?r tk (butlast cps) s = set t" if "s \<in> set (g_stacks g)" "s \<noteq> []" for s
    using accept_token_stack_set(4) [OF g(1,2) _ _ tf that(2)] g(3) that(1) by (auto simp: stacks_ok_def)
  have one: "stacks_ok ?r [s]" if "s \<in> set (g_stacks g)" for s using g(3) that by (simp add: stacks_ok_def)
  show "\<exists>g'. llama_grammar_accept_impl tk g = Some g'" if "allowed vocab g tk"
  proof -
    from that al obtain u where u: "u \<in> set (g_stacks g)" "cand_ok ?r pu tk (butlast cps) u" by blast
    have "u \<noteq> []"
    proof
      assume "u = []"
      with u(2) have "butlast cps = []" "pu_n_remain pu = 0" by (cases "butlast cps"; simp)+
      with decode_complete [of ?piece "g_partial_utf8 g"] n(2) d show False by (simp add: textual_def)
    qed
    from cand_ok_survives [OF g(1,2) tf one [OF u(1)] _ u(2)] piece [OF u(1) this] have "the_piece_set ?r tk (butlast cps) u \<noteq> {}" by auto
    with s(1) u(1) have "stks \<noteq> []" by auto
    with run show ?thesis by simp
  qed
  show "llama_grammar_accept_impl tk g = None"
    if na: "\<not> allowed vocab g tk" and rem: "pu_n_remain (snd (decode_utf8 ?piece (g_partial_utf8 g))) = 0"
  proof -
    have "the_piece_set ?r tk (butlast cps) u = {}" if u: "u \<in> set (g_stacks g)" for u
    proof (cases "u = []")
      case True
      then show ?thesis using accept_token_stack_set(3) [OF g(1,2)] g(3) u by (auto simp: stacks_ok_def)
    next
      case False
      from piece [OF u False] obtain t where t: "accept_chars ?r (butlast cps) [u] = Some t" "the_piece_set ?r tk (butlast cps) u = set t" by blast
      from survives_cand_ok [OF g(1,2) _ one [OF u] t(1), of pu tk] rem d na al u t(2) show ?thesis by auto
    qed
    with s(1) have "stks = []" by auto
    with run show ?thesis by simp
  qed
qed


lemma check_decides:
  assumes "grammar_ok rules" and "empty_rules_direct rules"
  shows "check_left_recursion rules = Some (\<not> no_left_recursion rules)"
proof -
  have "scan_ref rules = left_ref rules"
    by (intro ext) (rule iffI, erule scan_ref_left_ref [OF assms(1)], erule left_ref_scan_ref [OF assms])
  then show ?thesis using check_left_recursion_cycle [OF assms(1)] by (simp add: no_left_recursion_def)
qed

section \<open>Properties\<close>

text \<open>\<open>root ::= "a" <[5]>\<close>, where the text of token 5 is \<open>ab\<close>.\<close>

definition ex_token_vocab :: llama_vocab where
  "ex_token_vocab = \<lparr>vocab_token_to_piece = (\<lambda>tk. if tk = 5 then ''ab'' else ''a''), vocab_is_eog = (\<lambda>tk. tk = 0)\<rparr>"

definition ex_token_rules :: llama_grammar_rules where
  "ex_token_rules = [[ge LLAMA_GRETYPE_CHAR 97, ge LLAMA_GRETYPE_TOKEN 5, ge LLAMA_GRETYPE_END 0]]"

definition ex_state :: "llama_vocab \<Rightarrow> llama_grammar_rules \<Rightarrow> llama_grammar_stacks \<Rightarrow> llama_grammar" where
  "ex_state vocab rules stacks = \<lparr>g_vocab = Some vocab, g_rules = rules, g_stacks = stacks,
     g_partial_utf8 = \<lparr>pu_value = 0, pu_n_remain = 0\<rparr>, g_lazy = False, g_awaiting_trigger = False, g_trigger_buffer = [],
     g_trigger_buffer_positions = [], g_trigger_tokens = [], g_trigger_patterns = []\<rparr>"

text \<open>The grammar of balanced parentheses with a small vocabulary, and its initial state.\<close>

definition ex_paren_vocab :: llama_vocab where
  "ex_paren_vocab = \<lparr>vocab_token_to_piece = (\<lambda>tk. if tk = 1 then ''(('' else if tk = 2 then ''a'' else '')''), vocab_is_eog = (\<lambda>tk. tk = 0)\<rparr>"

definition ex_paren :: llama_grammar where
  "ex_paren = ex_state ex_paren_vocab ex_grammar [[(0, 0)], [(0, 5)]]"

lemma ex_paren_fields: "g_rules ex_paren = ex_grammar" "g_stacks ex_paren = [[(0, 0)], [(0, 5)]]" "g_vocab ex_paren = Some ex_paren_vocab"
  "\<not> g_awaiting_trigger ex_paren"
  by (simp_all add: ex_paren_def ex_state_def)

lemma ex_initial: "initial_stacks ex_grammar 0 = Some [[(0, 0)], [(0, 5)]]"
  by code_simp

lemma ex_paren_inv: "grammar_inv ex_paren"
proof -
  have "0 < length ex_grammar" by code_simp
  from initial_stacks_correct [OF ex_grammar_ok no_left_recursion_safe [OF ex_grammar_ok ex_grammar_no_rec] this]
  show ?thesis using ex_grammar_ok no_left_recursion_safe [OF ex_grammar_ok ex_grammar_no_rec] ex_initial
    by (auto simp: grammar_inv_def ex_paren_fields)
qed

lemma ex_token_free: "token_free ex_grammar"
  by code_simp

text \<open>
  The constructor returns on well-formed rules: a null pointer exactly when they are left recursive (each rule
  that derives the empty text having an empty alternate), and otherwise a grammar that satisfies the invariant and
  whose stacks derive the sentences of the start rule.
\<close>

theorem init_impl_correct:
  assumes "for_each (\<lambda>rule vec. do { r \<leftarrow> copy_rule rule; Some (vec @ [r]) }) rules [] = Some vec_rules"
    and "grammar_ok vec_rules" and "empty_rules_direct vec_rules" and "start_rule_index < length vec_rules"
  shows "\<exists>res. llama_grammar_init_impl vocab rules start_rule_index = Some res \<and> (res = None \<longleftrightarrow> \<not> no_left_recursion vec_rules) \<and>
    (\<forall>g. res = Some g \<longrightarrow> grammar_inv g \<and> g_rules g = vec_rules \<and>
       (\<forall>w. stacks_lang vec_rules (g_stacks g) w \<longleftrightarrow> yields vec_rules [SRef start_rule_index] w))"
proof -
  have lr: "check_left_recursion vec_rules = Some (\<not> no_left_recursion vec_rules)"
    using check_decides [OF assms(2,3)] .
  show ?thesis
  proof (cases "no_left_recursion vec_rules")
    case False
    with assms(1) lr show ?thesis by (auto simp: llama_grammar_init_impl_def)
  next
    case True
    note safe = no_left_recursion_safe [OF assms(2) True]
    from initial_stacks_correct [OF assms(2) safe assms(4)] obtain stks where "initial_stacks vec_rules start_rule_index = Some stks"
      "stacks_ok vec_rules stks" "stks \<noteq> []" "\<forall>w. stacks_lang vec_rules stks w \<longleftrightarrow> yields vec_rules [SRef start_rule_index] w" by blast
    with assms(1,2) lr True safe show ?thesis by (simp add: llama_grammar_init_impl_def grammar_inv_def)
  qed
qed

lemma ex_copy: "for_each (\<lambda>rule vec. do { r \<leftarrow> copy_rule rule; Some (vec @ [r]) }) ex_grammar [] = Some ex_grammar"
  by code_simp

theorem init_impl_correct_witness:
  "\<exists>g. llama_grammar_init_impl None ex_grammar 0 = Some (Some g) \<and> grammar_inv g"
proof -
  have "0 < length ex_grammar" by code_simp
  from init_impl_correct [OF ex_copy ex_grammar_ok ex_grammar_direct this, of None] ex_grammar_no_rec show ?thesis by auto
qed

text \<open>
  C33: Accepting a token (also while a lazy grammar waits for its trigger, and when buffered tokens are replayed) and
  accepting a text keep the invariant: the rules stay, and there is always a stack, each of them well-formed and at
  a terminal.
\<close>

theorem accept_keeps_invariant:
  assumes "grammar_inv g" and "llama_grammar_accept_impl token g = Some g' \<or> llama_grammar_accept_str piece g = Some g'"
  shows "grammar_inv g' \<and> g_rules g' = g_rules g"
  using accept_impl_inv [OF assms(1)] accept_str_inv [OF assms(1)] assms(2) by blast

theorem accept_keeps_invariant_witness:
  "\<exists>g'. llama_grammar_accept_impl 2 ex_paren = Some g' \<and> grammar_inv g' \<and> g_rules g' = g_rules ex_paren"
proof -
  have "\<not> Option.is_none (llama_grammar_accept_impl 2 ex_paren)" by code_simp
  then obtain g' where "llama_grammar_accept_impl 2 ex_paren = Some g'" by (auto simp: Option.is_none_def)
  with accept_keeps_invariant [OF ex_paren_inv, of 2 g' "[]"] show ?thesis by blast
qed


definition ex_cur :: "unit llama_token_data list" where
  "ex_cur = [\<lparr>td_id = 0, td_logit = Logit ()\<rparr>, \<lparr>td_id = 1, td_logit = Logit ()\<rparr>, \<lparr>td_id = 3, td_logit = Logit ()\<rparr>]"

definition ex_masked :: "unit llama_token_data list" where
  "ex_masked = [\<lparr>td_id = 0, td_logit = LogitNegInf\<rparr>, \<lparr>td_id = 1, td_logit = Logit ()\<rparr>, \<lparr>td_id = 3, td_logit = LogitNegInf\<rparr>]"

lemma ex_apply: "llama_grammar_apply_impl ex_paren ex_cur = Some ex_masked"
  by code_simp





text \<open>
  On an inverse class the match of a partial character returns false although a continuation matches: for
  \<open>[^\<close>U+E9\<open>]\<close> and the first byte of U+E8.
\<close>

lemma partial_char_inverse_class:
  "llama_grammar_match_partial_char [[ge LLAMA_GRETYPE_CHAR_NOT 0xE9, ge LLAMA_GRETYPE_END 0]] (0, 0)
     (snd (decode_utf8 [chr_of 0xC3] \<lparr>pu_value = 0, pu_n_remain = 0\<rparr>)) = Some False \<and>
   fst (decode_utf8 [chr_of 0xA8] (snd (decode_utf8 [chr_of 0xC3] \<lparr>pu_value = 0, pu_n_remain = 0\<rparr>))) = [0xE8, 0] \<and>
   llama_grammar_match_char [[ge LLAMA_GRETYPE_CHAR_NOT 0xE9, ge LLAMA_GRETYPE_END 0]] (0, 0) 0xE8 = Some (True, (0, 1))"
proof -
  have "llama_grammar_match_partial_char [[ge LLAMA_GRETYPE_CHAR_NOT 0xE9, ge LLAMA_GRETYPE_END 0]] (0, 0)
     (snd (decode_utf8 [chr_of 0xC3] \<lparr>pu_value = 0, pu_n_remain = 0\<rparr>)) = Some False" by code_simp
  moreover have "fst (decode_utf8 [chr_of 0xA8] (snd (decode_utf8 [chr_of 0xC3] \<lparr>pu_value = 0, pu_n_remain = 0\<rparr>))) = [0xE8, 0]" by code_simp
  moreover have "llama_grammar_match_char [[ge LLAMA_GRETYPE_CHAR_NOT 0xE9, ge LLAMA_GRETYPE_END 0]] (0, 0) 0xE8 = Some (True, (0, 1))" by code_simp
  ultimately show ?thesis by blast
qed


end
