(* ===== verification/Grammar_Parser.thy ===== *)
theory Grammar_Parser
  imports Grammar_Tokens
begin

text \<open>
  The parser of grammar texts: \<open>llama_grammar_parser\<close> of \<open>src/src/llama-grammar.cpp\<close>.

  A \<open>const char *\<close> into the text is the rest of the text, without its terminating NUL; \<open>peek\<close> reads \<open>*pos\<close>.  A
  function that may throw returns a \<open>parsed\<close>; \<open>NoFuel\<close> is the result of the recursive functions when their first argument is
  exhausted, which \<open>parse_enough_fuel\<close> excludes.
\<close>

section \<open>Results\<close>

datatype parse_error =
  Expecting_hex | Expecting_name | Expecting_integer | Unknown_escape | Unexpected_end | Expecting_less | Expecting_bracket
| Expecting_greater | No_vocab | Invalid_token | Out_of_range | No_preceding_item | Expecting_paren | Expecting_brace | Expecting_comma
| Too_many_repetitions | Expecting_define | Expecting_newline | Undefined_rule | Undefined_identifier

datatype 'a parsed = Parsed 'a | Thrown parse_error | NoFuel

fun pbind :: "'a parsed \<Rightarrow> ('a \<Rightarrow> 'b parsed) \<Rightarrow> 'b parsed" where
  "pbind (Parsed x) f = f x"
| "pbind (Thrown e) f = Thrown e"
| "pbind NoFuel f = NoFuel"

lemma pbind_Parsed [simp]: "pbind m f = Parsed y \<longleftrightarrow> (\<exists>x. m = Parsed x \<and> f x = Parsed y)"
  by (cases m) auto

lemma pbind_NoFuel [simp]: "pbind m f = NoFuel \<longleftrightarrow> m = NoFuel \<or> (\<exists>x. m = Parsed x \<and> f x = NoFuel)"
  by (cases m) auto

section \<open>Characters\<close>

abbreviation DQ :: char where "DQ \<equiv> CHR 0x22"
abbreviation TAB :: char where "TAB \<equiv> CHR 0x09"
abbreviation LF :: char where "LF \<equiv> CHR 0x0A"
abbreviation CR :: char where "CR \<equiv> CHR 0x0D"
abbreviation BACKSLASH :: char where "BACKSLASH \<equiv> CHR 0x5C"

definition peek :: "string \<Rightarrow> char" where
  "peek pos = (case pos of [] \<Rightarrow> NUL | c # _ \<Rightarrow> c)"

lemma NUL_CHR: "NUL = CHR 0x00"
  by code_simp

lemma peek_simps [simp]: "peek [] = NUL" "peek (c # cs) = c"
  by (simp_all add: peek_def)

definition is_digit_char :: "char \<Rightarrow> bool" where
  "is_digit_char c \<longleftrightarrow> ub (CHR ''0'') \<le> ub c \<and> ub c \<le> ub (CHR ''9'')"

definition is_word_char :: "char \<Rightarrow> bool" where
  "is_word_char c \<longleftrightarrow> (ub (CHR ''a'') \<le> ub c \<and> ub c \<le> ub (CHR ''z'')) \<or> (ub (CHR ''A'') \<le> ub c \<and> ub c \<le> ub (CHR ''Z'')) \<or>
     c = CHR ''-'' \<or> is_digit_char c"

text \<open>The value of a hex digit.\<close>

definition hex_digit :: "char \<Rightarrow> int option" where
  "hex_digit c =
     (if ub (CHR ''a'') \<le> ub c \<and> ub c \<le> ub (CHR ''f'') then Some (ub c - ub (CHR ''a'') + 10)
      else if ub (CHR ''A'') \<le> ub c \<and> ub c \<le> ub (CHR ''F'') then Some (ub c - ub (CHR ''A'') + 10)
      else if is_digit_char c then Some (ub c - ub (CHR ''0''))
      else None)"

text \<open>The loop of \<open>parse_hex\<close>: how many of the digits are missing, the value and the rest.\<close>

fun parse_hex_loop :: "nat \<Rightarrow> string \<Rightarrow> int \<Rightarrow> nat \<times> int \<times> string" where
  "parse_hex_loop (Suc n) (c # cs) value =
     (case hex_digit c of Some d \<Rightarrow> parse_hex_loop n cs ((value * 16 + d) mod 4294967296) | None \<Rightarrow> (Suc n, value, c # cs))"
| "parse_hex_loop n cs value = (n, value, cs)"

definition parse_hex :: "string \<Rightarrow> nat \<Rightarrow> (int \<times> string) parsed" where
  "parse_hex src sz = (case parse_hex_loop sz src 0 of (n, value, pos) \<Rightarrow> if n \<noteq> 0 then Thrown Expecting_hex else Parsed (value, pos))"

function parse_space :: "string \<Rightarrow> bool \<Rightarrow> string" where
  "parse_space [] newline_ok = []"
| "parse_space (c # cs) newline_ok =
     (if c = CHR '' '' \<or> c = TAB \<or> c = CHR ''#'' \<or> (newline_ok \<and> (c = CR \<or> c = LF)) then
        (if c = CHR ''#'' then parse_space (dropWhile (\<lambda>c. c \<noteq> CR \<and> c \<noteq> LF) cs) newline_ok else parse_space cs newline_ok)
      else c # cs)"
  by pat_completeness auto
termination
  by (relation "measure (length \<circ> fst)") (auto simp: le_imp_less_Suc length_dropWhile_le)

text \<open>\<open>parse_name\<close> and \<open>parse_int\<close> return the end of what they read; here also the text in between.\<close>

definition parse_name :: "string \<Rightarrow> (string \<times> string) parsed" where
  "parse_name src = (if takeWhile is_word_char src = [] then Thrown Expecting_name
     else Parsed (takeWhile is_word_char src, dropWhile is_word_char src))"

definition parse_int :: "string \<Rightarrow> (string \<times> string) parsed" where
  "parse_int src = (if takeWhile is_digit_char src = [] then Thrown Expecting_integer
     else Parsed (takeWhile is_digit_char src, dropWhile is_digit_char src))"

text \<open>\<open>std::stoul\<close> of a text of digits, with a 64-bit \<open>unsigned long\<close>.\<close>

definition digits_value :: "string \<Rightarrow> int" where
  "digits_value ds = foldl (\<lambda>v c. v * 10 + (ub c - ub (CHR ''0''))) 0 ds"

definition stoul :: "string \<Rightarrow> int parsed" where
  "stoul ds = (if digits_value ds \<ge> 2 ^ 64 then Thrown Out_of_range else Parsed (digits_value ds))"

text \<open>The first \<open>decode_utf8\<close> of the file, for one code point of a valid text; it stops at the end of the text.\<close>

fun utf8_take :: "nat \<Rightarrow> string \<Rightarrow> int \<Rightarrow> int \<times> string" where
  "utf8_take (Suc n) (c # cs) value = utf8_take n cs (shift_in value c)"
| "utf8_take n cs value = (value, cs)"

definition decode_utf8_char :: "string \<Rightarrow> int \<times> string" where
  "decode_utf8_char src =
     (case src of [] \<Rightarrow> (0, [])
      | c # cs \<Rightarrow> (let len = utf8_lookup ! nat (ub c div 16) in utf8_take (len - 1) cs (ub c mod 2 ^ (8 - len))))"

definition parse_char :: "string \<Rightarrow> (int \<times> string) parsed" where
  "parse_char src =
     (if peek src = BACKSLASH then
        (let c = peek (tl src); rest = tl (tl src) in
         if c = CHR ''x'' then parse_hex rest 2
         else if c = CHR ''u'' then parse_hex rest 4
         else if c = CHR ''U'' then parse_hex rest 8
         else if c = CHR ''t'' then Parsed (9, rest)
         else if c = CHR ''r'' then Parsed (13, rest)
         else if c = CHR ''n'' then Parsed (10, rest)
         else if c = BACKSLASH \<or> c = DQ \<or> c = CHR ''['' \<or> c = CHR '']'' then Parsed (ub c, rest)
         else Thrown Unknown_escape)
      else if src \<noteq> [] then Parsed (decode_utf8_char src)
      else Thrown Unexpected_end)"

text \<open>
  The vocabulary of the parser is the text-to-tokens function (\<open>vocab->tokenize\<close> with special tokens parsed and none added).
\<close>

type_synonym tokenize_fn = "string \<Rightarrow> llama_token list"

definition parse_token :: "tokenize_fn option \<Rightarrow> string \<Rightarrow> (int \<times> string) parsed" where
  "parse_token vocab src =
     (if peek src \<noteq> CHR ''<'' then Thrown Expecting_less
      else let pos = tl src in
      if peek pos = CHR ''['' then
        pbind (parse_int (tl pos)) (\<lambda>(ds, pos).
        pbind (stoul ds) (\<lambda>v.
        if peek pos \<noteq> CHR '']'' then Thrown Expecting_bracket
        else if peek (tl pos) \<noteq> CHR ''>'' then Thrown Expecting_greater
        else Parsed (v mod 4294967296, tl (tl pos))))
      else case vocab of
        None \<Rightarrow> Thrown No_vocab
      | Some tokenize \<Rightarrow>
          (let name = takeWhile (\<lambda>c. c \<noteq> CHR ''>'') pos; pos = dropWhile (\<lambda>c. c \<noteq> CHR ''>'') pos in
           if peek pos \<noteq> CHR ''>'' then Thrown Expecting_greater
           else let tokens = tokenize (CHR ''<'' # name @ [CHR ''>'']) in
             if length tokens \<noteq> 1 then Thrown Invalid_token else Parsed (hd tokens mod 4294967296, tl pos)))"

section \<open>Symbols and rules\<close>

record llama_grammar_parser =
  gp_vocab :: "tokenize_fn option"
  gp_symbol_ids :: "(string \<times> nat) list"
  gp_rules :: llama_grammar_rules

definition get_symbol_id :: "string \<Rightarrow> llama_grammar_parser \<Rightarrow> nat \<times> llama_grammar_parser" where
  "get_symbol_id name st =
     (let next_id = u32 (length (gp_symbol_ids st)) in
      case map_of (gp_symbol_ids st) name of
        Some i \<Rightarrow> (i, st)
      | None \<Rightarrow> (next_id, st\<lparr>gp_symbol_ids := gp_symbol_ids st @ [(name, next_id)]\<rparr>))"

text \<open>\<open>std::to_string\<close>\<close>

fun to_string :: "nat \<Rightarrow> string" where
  "to_string n = (if n < 10 then [chr_of (48 + int n)] else to_string (n div 10) @ [chr_of (48 + int (n mod 10))])"

declare to_string.simps [simp del]

definition generate_symbol_id :: "string \<Rightarrow> llama_grammar_parser \<Rightarrow> nat \<times> llama_grammar_parser" where
  "generate_symbol_id base_name st =
     (let next_id = u32 (length (gp_symbol_ids st)) in
      (next_id, st\<lparr>gp_symbol_ids := AList.update (base_name @ CHR ''_'' # to_string next_id) next_id (gp_symbol_ids st)\<rparr>))"

definition add_rule :: "nat \<Rightarrow> llama_grammar_rule \<Rightarrow> llama_grammar_parser \<Rightarrow> llama_grammar_parser" where
  "add_rule rule_id rule st =
     (let rules = gp_rules st;
          rules = (if length rules \<le> rule_id then rules @ replicate (rule_id + 1 - length rules) [] else rules)
      in st\<lparr>gp_rules := rules[rule_id := rule]\<rparr>)"

abbreviation el :: "llama_gretype \<Rightarrow> int \<Rightarrow> llama_grammar_element" where
  "el t v \<equiv> \<lparr>ge_type = t, ge_value = v\<rparr>"

section \<open>Repetitions\<close>

abbreviation UINT64_MAX :: int where
  "UINT64_MAX \<equiv> 18446744073709551615"

text \<open>The loop that makes the optional rules; \<open>i\<close> counts up to \<open>n_opt\<close>.\<close>

fun rep_loop :: "nat \<Rightarrow> bool \<Rightarrow> bool \<Rightarrow> string \<Rightarrow> llama_grammar_rule \<Rightarrow> nat \<Rightarrow> llama_grammar_parser \<Rightarrow> nat \<times> llama_grammar_parser" where
  "rep_loop 0 first no_max rule_name prev_rule last_rec_rule_id st = (last_rec_rule_id, st)"
| "rep_loop (Suc n) first no_max rule_name prev_rule last_rec_rule_id st =
     (case generate_symbol_id rule_name st of (rec_rule_id, st) \<Rightarrow>
        let rec_rule = prev_rule @
              (if \<not> first \<or> no_max then [el LLAMA_GRETYPE_RULE_REF (int (if no_max then rec_rule_id else last_rec_rule_id))] else []) @
              [el LLAMA_GRETYPE_ALT 0, el LLAMA_GRETYPE_END 0]
        in rep_loop n False no_max rule_name prev_rule rec_rule_id (add_rule rec_rule_id rec_rule st))"

definition handle_repetitions :: "int \<Rightarrow> int \<Rightarrow> string \<Rightarrow> nat \<Rightarrow> llama_grammar_rule \<Rightarrow> llama_grammar_parser \<Rightarrow>
    (llama_grammar_rule \<times> llama_grammar_parser) parsed" where
  "handle_repetitions min_times max_times rule_name last_sym_start rule st =
     (let no_max = (max_times = UINT64_MAX) in
      if last_sym_start = length rule then Thrown No_preceding_item
      else
        let prev_rule = drop last_sym_start rule;
            rule = (if min_times = 0 then take last_sym_start rule
                    else rule @ concat (replicate (nat (min_times - 1)) prev_rule));
            n_opt = (if no_max then 1 else nat ((max_times - min_times) mod 18446744073709551616))
        in case rep_loop n_opt True no_max rule_name prev_rule 0 st of (last_rec_rule_id, st) \<Rightarrow>
          Parsed (if n_opt > 0 then rule @ [el LLAMA_GRETYPE_RULE_REF (int last_rec_rule_id)] else rule, st))"

section \<open>Sequences\<close>

lemma parse_hex_loop_length: "parse_hex_loop n cs v = (n', v', cs') \<Longrightarrow> length cs' \<le> length cs"
  by (induction n cs v rule: parse_hex_loop.induct) (auto split: option.splits)

lemma utf8_take_length: "utf8_take n cs v = (v', cs') \<Longrightarrow> length cs' \<le> length cs"
  by (induction n cs v rule: utf8_take.induct) auto

lemma parse_hex_length: "parse_hex src n = Parsed (v, pos) \<Longrightarrow> length pos \<le> length src"
  by (auto simp: parse_hex_def dest: parse_hex_loop_length split: prod.splits if_splits)

lemma parse_char_length: "parse_char src = Parsed (v, pos) \<Longrightarrow> length pos < length src"
proof -
  assume p: "parse_char src = Parsed (v, pos)"
  then obtain c cs where src: "src = c # cs" by (cases src) (auto simp: parse_char_def NUL_CHR)
  show ?thesis
  proof (cases "c = BACKSLASH")
    case True
    then have "length pos \<le> length (tl cs)"
      using p src by (auto simp: parse_char_def Let_def dest!: parse_hex_length split: if_splits)
    then show ?thesis using src by simp
  next
    case False
    with p src have "decode_utf8_char src = (v, pos)" by (simp add: parse_char_def)
    with src show ?thesis by (auto simp: decode_utf8_char_def Let_def dest: utf8_take_length)
  qed
qed

text \<open>The characters of a literal, and the classes of a range; the position stays at the closing quote or bracket.\<close>

function literal_loop :: "string \<Rightarrow> llama_grammar_rule \<Rightarrow> (string \<times> llama_grammar_rule) parsed" where
  "literal_loop pos rule =
     (if peek pos = DQ then Parsed (pos, rule)
      else if pos = [] then Thrown Unexpected_end
      else case parse_char pos of
        Parsed (c, pos) \<Rightarrow> literal_loop pos (rule @ [el LLAMA_GRETYPE_CHAR c])
      | Thrown e \<Rightarrow> Thrown e
      | NoFuel \<Rightarrow> NoFuel)"
  by pat_completeness auto
termination
  by (relation "measure (length \<circ> fst)") (auto dest: parse_char_length)

declare literal_loop.simps [simp del]

text \<open>The upper bound of a range, if there is one.\<close>

definition range_upper :: "string \<Rightarrow> llama_grammar_rule \<Rightarrow> (string \<times> llama_grammar_rule) parsed" where
  "range_upper pos rule =
     (if peek pos = CHR ''-'' \<and> peek (tl pos) \<noteq> CHR '']'' then
        (if tl pos = [] then Thrown Unexpected_end
         else pbind (parse_char (tl pos)) (\<lambda>(c, pos). Parsed (pos, rule @ [el LLAMA_GRETYPE_CHAR_RNG_UPPER c])))
      else Parsed (pos, rule))"

lemma range_upper_length: "range_upper pos rule = Parsed (pos', rule') \<Longrightarrow> length pos' \<le> length pos"
  by (auto simp: range_upper_def dest!: parse_char_length split: if_splits)

function range_loop :: "llama_gretype \<Rightarrow> nat \<Rightarrow> string \<Rightarrow> llama_grammar_rule \<Rightarrow> (string \<times> llama_grammar_rule) parsed" where
  "range_loop start_type last_sym_start pos rule =
     (if peek pos = CHR '']'' then Parsed (pos, rule)
      else if pos = [] then Thrown Unexpected_end
      else case parse_char pos of
        Parsed (c, pos) \<Rightarrow>
          (case range_upper pos (rule @ [el (if last_sym_start < length rule then LLAMA_GRETYPE_CHAR_ALT else start_type) c]) of
             Parsed (pos, rule) \<Rightarrow> range_loop start_type last_sym_start pos rule
           | Thrown e \<Rightarrow> Thrown e
           | NoFuel \<Rightarrow> NoFuel)
      | Thrown e \<Rightarrow> Thrown e
      | NoFuel \<Rightarrow> NoFuel)"
  by pat_completeness auto
termination
  by (relation "measure (\<lambda>(t, n, pos, rule). length pos)") (auto dest!: parse_char_length range_upper_length)

declare range_loop.simps [simp del]

text \<open>The bounds of \<open>{m}\<close>, \<open>{m,}\<close> and \<open>{m,n}\<close>; the position is behind the brace.\<close>

definition parse_bounds :: "string \<Rightarrow> bool \<Rightarrow> (int \<times> int \<times> string) parsed" where
  "parse_bounds pos is_nested =
     (if \<not> is_digit_char (peek pos) then Thrown Expecting_integer
      else
        pbind (parse_int pos) (\<lambda>(ds, pos).
        pbind (stoul ds) (\<lambda>min_times.
        let pos = parse_space pos is_nested in
        pbind
          (if peek pos = CHR ''}'' then Parsed (min_times, parse_space (tl pos) is_nested)
           else if peek pos = CHR '','' then
             (let pos = parse_space (tl pos) is_nested in
              pbind
                (if is_digit_char (peek pos) then
                   pbind (parse_int pos) (\<lambda>(ds, pos). pbind (stoul ds) (\<lambda>m. Parsed (m, parse_space pos is_nested)))
                 else Parsed (UINT64_MAX, pos)) (\<lambda>(max_times, pos).
              if peek pos \<noteq> CHR ''}'' then Thrown Expecting_brace
              else Parsed (max_times, parse_space (tl pos) is_nested)))
           else Thrown Expecting_comma) (\<lambda>(max_times, pos).
        if min_times > 2000 \<or> (max_times \<noteq> UINT64_MAX \<and> max_times > 2000) then Thrown Too_many_repetitions
        else Parsed (min_times, max_times, pos)))))"

text \<open>
  One item of a sequence other than a group: the new position, rule, start of the last symbol and parser.  \<open>None\<close> is the
  \<open>break\<close> at the end of the sequence.
\<close>

type_synonym seq_state = "string \<times> llama_grammar_rule \<times> nat \<times> llama_grammar_parser"

definition parse_item :: "string \<Rightarrow> bool \<Rightarrow> string \<Rightarrow> llama_grammar_rule \<Rightarrow> nat \<Rightarrow> llama_grammar_parser \<Rightarrow> seq_state option parsed" where
  "parse_item rule_name is_nested pos rule last_sym_start st =
     (let c = peek pos in
      if c = DQ then
        pbind (literal_loop (tl pos) rule) (\<lambda>(pos, rule'). Parsed (Some (parse_space (tl pos) is_nested, rule', length rule, st)))
      else if c = CHR ''['' then
        (let pos = tl pos;
             start_type = (if peek pos = CHR ''^'' then LLAMA_GRETYPE_CHAR_NOT else LLAMA_GRETYPE_CHAR);
             pos = (if peek pos = CHR ''^'' then tl pos else pos)
         in pbind (range_loop start_type (length rule) pos rule) (\<lambda>(pos, rule').
              Parsed (Some (parse_space (tl pos) is_nested, rule', length rule, st))))
      else if c = CHR ''<'' \<or> c = CHR ''!'' then
        (let type = (if c = CHR ''!'' then LLAMA_GRETYPE_TOKEN_NOT else LLAMA_GRETYPE_TOKEN);
             pos = (if c = CHR ''!'' then tl pos else pos)
         in pbind (parse_token (gp_vocab st) pos) (\<lambda>(tok, token_end).
              Parsed (Some (parse_space token_end is_nested, rule @ [el type tok], length rule, st))))
      else if is_word_char c then
        pbind (parse_name pos) (\<lambda>(name, name_end).
          case get_symbol_id name st of (ref_rule_id, st) \<Rightarrow>
            Parsed (Some (parse_space name_end is_nested, rule @ [el LLAMA_GRETYPE_RULE_REF (int ref_rule_id)], length rule, st)))
      else if c = CHR ''.'' then
        Parsed (Some (parse_space (tl pos) is_nested, rule @ [el LLAMA_GRETYPE_CHAR_ANY 0], length rule, st))
      else if c = CHR ''*'' then
        pbind (handle_repetitions 0 UINT64_MAX rule_name last_sym_start rule st) (\<lambda>(rule, st).
          Parsed (Some (parse_space (tl pos) is_nested, rule, last_sym_start, st)))
      else if c = CHR ''+'' then
        pbind (handle_repetitions 1 UINT64_MAX rule_name last_sym_start rule st) (\<lambda>(rule, st).
          Parsed (Some (parse_space (tl pos) is_nested, rule, last_sym_start, st)))
      else if c = CHR ''?'' then
        pbind (handle_repetitions 0 1 rule_name last_sym_start rule st) (\<lambda>(rule, st).
          Parsed (Some (parse_space (tl pos) is_nested, rule, last_sym_start, st)))
      else if c = CHR ''{'' then
        pbind (parse_bounds (parse_space (tl pos) is_nested) is_nested) (\<lambda>(min_times, max_times, pos).
        pbind (handle_repetitions min_times max_times rule_name last_sym_start rule st) (\<lambda>(rule, st).
          Parsed (Some (pos, rule, last_sym_start, st))))
      else Parsed None)"

text \<open>The two functions call each other at a group; \<open>alternates_loop\<close> is the loop of \<open>parse_alternates\<close>.\<close>

fun parse_sequence :: "nat \<Rightarrow> string \<Rightarrow> bool \<Rightarrow> string \<Rightarrow> llama_grammar_rule \<Rightarrow> nat \<Rightarrow> llama_grammar_parser \<Rightarrow>
      (string \<times> llama_grammar_rule \<times> llama_grammar_parser) parsed"
  and parse_alternates :: "nat \<Rightarrow> string \<Rightarrow> string \<Rightarrow> nat \<Rightarrow> bool \<Rightarrow> llama_grammar_parser \<Rightarrow> (string \<times> llama_grammar_parser) parsed"
  and alternates_loop :: "nat \<Rightarrow> string \<Rightarrow> bool \<Rightarrow> string \<Rightarrow> llama_grammar_rule \<Rightarrow> llama_grammar_parser \<Rightarrow>
      (string \<times> llama_grammar_rule \<times> llama_grammar_parser) parsed" where
  "parse_sequence 0 rule_name is_nested pos rule last_sym_start st = NoFuel"
| "parse_sequence (Suc f) rule_name is_nested pos rule last_sym_start st =
     (if pos = [] then Parsed (pos, rule, st)
      else if peek pos = CHR ''('' then
        (case generate_symbol_id rule_name st of (sub_rule_id, st) \<Rightarrow>
         pbind (parse_alternates f (parse_space (tl pos) True) rule_name sub_rule_id True st) (\<lambda>(pos, st).
         if peek pos \<noteq> CHR '')'' then Thrown Expecting_paren
         else parse_sequence f rule_name is_nested (parse_space (tl pos) is_nested)
                (rule @ [el LLAMA_GRETYPE_RULE_REF (int sub_rule_id)]) (length rule) st))
      else
        pbind (parse_item rule_name is_nested pos rule last_sym_start st) (\<lambda>r.
        case r of None \<Rightarrow> Parsed (pos, rule, st)
        | Some (pos, rule, last_sym_start, st) \<Rightarrow> parse_sequence f rule_name is_nested pos rule last_sym_start st))"
| "parse_alternates 0 src rule_name rule_id is_nested st = NoFuel"
| "parse_alternates (Suc f) src rule_name rule_id is_nested st =
     pbind (parse_sequence f rule_name is_nested src [] 0 st) (\<lambda>(pos, rule, st).
     pbind (alternates_loop f rule_name is_nested pos rule st) (\<lambda>(pos, rule, st).
     Parsed (pos, add_rule rule_id (rule @ [el LLAMA_GRETYPE_END 0]) st)))"
| "alternates_loop 0 rule_name is_nested pos rule st = NoFuel"
| "alternates_loop (Suc f) rule_name is_nested pos rule st =
     (if peek pos = CHR ''|'' then
        (let rule = rule @ [el LLAMA_GRETYPE_ALT 0] in
         pbind (parse_sequence f rule_name is_nested (parse_space (tl pos) True) rule (length rule) st) (\<lambda>(pos, rule, st).
         alternates_loop f rule_name is_nested pos rule st))
      else Parsed (pos, rule, st))"

section \<open>Rules and grammars\<close>

definition parse_rule :: "nat \<Rightarrow> string \<Rightarrow> llama_grammar_parser \<Rightarrow> (string \<times> llama_grammar_parser) parsed" where
  "parse_rule f src st =
     pbind (parse_name src) (\<lambda>(name, name_end).
     let pos = parse_space name_end False in
     case get_symbol_id name st of (rule_id, st) \<Rightarrow>
       if take 3 pos \<noteq> ''::='' then Thrown Expecting_define
       else
         pbind (parse_alternates f (parse_space (drop 3 pos) True) name rule_id False st) (\<lambda>(pos, st).
         if peek pos = CR then Parsed (parse_space (if peek (tl pos) = LF then tl (tl pos) else tl pos) True, st)
         else if peek pos = LF then Parsed (parse_space (tl pos) True, st)
         else if pos \<noteq> [] then Thrown Expecting_newline
         else Parsed (parse_space pos True, st)))"

fun parse_rules :: "nat \<Rightarrow> string \<Rightarrow> llama_grammar_parser \<Rightarrow> llama_grammar_parser parsed" where
  "parse_rules 0 pos st = NoFuel"
| "parse_rules (Suc f) pos st =
     (if pos = [] then Parsed st
      else pbind (parse_rule (3 * length pos + 2) pos st) (\<lambda>(pos, st). parse_rules f pos st))"

text \<open>The validation at the end: an empty rule, or a reference to a missing rule that has a name.\<close>

definition undefined_ref :: "llama_grammar_parser \<Rightarrow> llama_grammar_element \<Rightarrow> bool" where
  "undefined_ref st e \<longleftrightarrow> ge_type e = LLAMA_GRETYPE_RULE_REF \<and>
     (nat (ge_value e) \<ge> length (gp_rules st) \<or> gp_rules st ! nat (ge_value e) = []) \<and>
     (\<exists>kv\<in>set (gp_symbol_ids st). snd kv = nat (ge_value e))"

fun validate_loop :: "llama_grammar_parser \<Rightarrow> llama_grammar_rules \<Rightarrow> llama_grammar_parser parsed" where
  "validate_loop st [] = Parsed st"
| "validate_loop st (rule # rules) =
     (if rule = [] then Thrown Undefined_rule
      else if \<exists>e\<in>set rule. undefined_ref st e then Thrown Undefined_identifier
      else validate_loop st rules)"

definition validate_rules :: "llama_grammar_parser \<Rightarrow> llama_grammar_parser parsed" where
  "validate_rules st = validate_loop st (gp_rules st)"

text \<open>\<open>parse\<close>: whether it succeeded, and the parser.  After an exception there are no rules.\<close>

definition parse_text :: "string \<Rightarrow> llama_grammar_parser \<Rightarrow> llama_grammar_parser parsed" where
  "parse_text src st =
     (let pos = parse_space (takeWhile (\<lambda>c. c \<noteq> NUL) src) True in
      pbind (parse_rules (length pos + 1) pos st) validate_rules)"

definition parser_new :: "tokenize_fn option \<Rightarrow> llama_grammar_parser" where
  "parser_new vocab = \<lparr>gp_vocab = vocab, gp_symbol_ids = [], gp_rules = []\<rparr>"

end
