(* ===== verification/Grammar_Parse.thy ===== *)
theory Grammar_Parse
  imports Grammar_Parser Grammar_Rec
begin

text \<open>
  The parser of grammar texts returns on every text, and the rules it returns are well-formed.

  \<open>parser_inv\<close> is the invariant of the parser's tables, \<open>seq_inv\<close> that of the rule under construction, and \<open>parser_step\<close> what every
  operation does to the tables.  The main induction is on the fuel of the mutually recursive functions: a text of length \<open>n\<close> needs no more
  than \<open>3 * n + 2\<close>.
\<close>

section \<open>Lengths\<close>

lemma parse_space_length: "length (parse_space s b) \<le> length s"
proof (induction s b rule: parse_space.induct)
  case (2 c cs b)
  have "length (dropWhile (\<lambda>c. c \<noteq> CR \<and> c \<noteq> LF) cs) \<le> length cs" by (rule length_dropWhile_le)
  with 2 show ?case by (auto intro: le_SucI order_trans)
qed simp

lemma dropWhile_less: "takeWhile P s \<noteq> [] \<Longrightarrow> length (dropWhile P s) < length s"
  by (cases s) (auto simp: le_imp_less_Suc length_dropWhile_le split: if_splits)

lemma parse_name_spec: "parse_name src = Parsed (name, pos) \<Longrightarrow> length pos < length src \<and> (\<forall>c\<in>set name. is_word_char c)"
  by (auto simp: parse_name_def dropWhile_less dest: set_takeWhileD split: if_splits)

lemma parse_int_length: "parse_int src = Parsed (ds, pos) \<Longrightarrow> length pos < length src"
  by (auto simp: parse_int_def dropWhile_less split: if_splits)

lemma no_fuel [simp]: "parse_hex s n \<noteq> NoFuel" "parse_name s \<noteq> NoFuel" "parse_int s \<noteq> NoFuel" "stoul s \<noteq> NoFuel" "parse_char s \<noteq> NoFuel"
  by (auto simp: parse_hex_def parse_name_def parse_int_def stoul_def parse_char_def Let_def split: prod.splits)

lemma parse_token_no_fuel [simp]: "parse_token v s \<noteq> NoFuel"
  by (auto simp: parse_token_def Let_def split: option.splits if_splits)

lemma tl_length: "length (tl s) \<le> length s"
  by (cases s) auto

lemma parse_token_length: "parse_token v src = Parsed (t, pos) \<Longrightarrow> length pos < length src"
proof -
  assume p: "parse_token v src = Parsed (t, pos)"
  then have "peek src = CHR ''<''" by (auto simp: parse_token_def split: if_splits)
  then obtain cs where src: "src = CHR ''<'' # cs" by (cases src) (auto simp: NUL_CHR)
  show ?thesis
  proof (cases "peek cs = CHR ''[''")
    case True
    with p src obtain ds rest where r: "parse_int (tl cs) = Parsed (ds, rest)" "pos = tl (tl rest)"
      by (auto simp: parse_token_def Let_def split: if_splits)
    with parse_int_length [OF r(1)] tl_length [of cs] show ?thesis using src by simp
  next
    case False
    with p src have "pos = tl (dropWhile (\<lambda>c. c \<noteq> CHR ''>'') cs)"
      by (auto simp: parse_token_def Let_def split: if_splits option.splits)
    with src length_dropWhile_le [of "\<lambda>c. c \<noteq> CHR ''>''" cs] show ?thesis by simp
  qed
qed

lemma parse_bounds_no_fuel [simp]: "parse_bounds s b \<noteq> NoFuel"
  by (auto simp: parse_bounds_def Let_def)

lemma space_tl_length: "length (parse_space (tl s) b) \<le> length s"
  using parse_space_length [of "tl s" b] tl_length [of s] by linarith

lemma parse_bounds_length:
  assumes "parse_bounds s b = Parsed (mn, mx, pos)"
  shows "length pos \<le> length s"
proof -
  from assms obtain ds p1 where p1: "parse_int s = Parsed (ds, p1)" by (auto simp: parse_bounds_def split: if_splits)
  let ?p2 = "parse_space p1 b"
  have l2: "length ?p2 \<le> length s" using parse_int_length [OF p1] parse_space_length [of p1 b] by simp
  show ?thesis
  proof (cases "peek ?p2 = CHR ''}''")
    case True
    with assms p1 have "pos = parse_space (tl ?p2) b" by (auto simp: parse_bounds_def Let_def split: if_splits)
    with space_tl_length [of ?p2 b] l2 show ?thesis by simp
  next
    case False
    let ?p3 = "parse_space (tl ?p2) b"
    have l3: "length ?p3 \<le> length s" using space_tl_length [of ?p2 b] l2 by simp
    from False assms p1 obtain p4 where p4: "pos = parse_space (tl p4) b"
      "p4 = ?p3 \<or> (\<exists>ds p. parse_int ?p3 = Parsed (ds, p) \<and> p4 = parse_space p b)"
      by (auto simp: parse_bounds_def Let_def split: if_splits)
    from p4(2) have "length p4 \<le> length s"
    proof
      assume "\<exists>ds p. parse_int ?p3 = Parsed (ds, p) \<and> p4 = parse_space p b"
      then obtain ds p where "parse_int ?p3 = Parsed (ds, p)" "p4 = parse_space p b" by blast
      with parse_int_length [of ?p3 ds p] parse_space_length [of p b] l3 show ?thesis by simp
    qed (use l3 in simp)
    with p4(1) space_tl_length [of p4 b] show ?thesis by simp
  qed
qed

section \<open>The shape of a sequence\<close>

text \<open>The state of \<open>rule_ok\<close> after an element of an unfinished rule.\<close>

definition el_state :: "nat \<Rightarrow> llama_grammar_element \<Rightarrow> nat option" where
  "el_state p e = (case ge_type e of
     LLAMA_GRETYPE_END \<Rightarrow> None | LLAMA_GRETYPE_CHAR \<Rightarrow> Some 1 | LLAMA_GRETYPE_CHAR_NOT \<Rightarrow> Some 1
   | LLAMA_GRETYPE_CHAR_RNG_UPPER \<Rightarrow> if p = 1 then Some 2 else None
   | LLAMA_GRETYPE_CHAR_ALT \<Rightarrow> if p = 1 \<or> p = 2 then Some 1 else None
   | _ \<Rightarrow> Some 0)"

fun shape :: "nat \<Rightarrow> llama_grammar_rule \<Rightarrow> nat option" where
  "shape p [] = Some p"
| "shape p (e # es) = do { q \<leftarrow> el_state p e; shape q es }"

lemma shape_append: "shape p (a @ b) = do { q \<leftarrow> shape p a; shape q b }"
  by (induction a arbitrary: p) (auto split: Option.bind_splits)

abbreviation okseq :: "llama_grammar_rule \<Rightarrow> bool" where
  "okseq es \<equiv> \<exists>q. shape 0 es = Some q"

lemma el_state_0: "el_state 0 e = Some q \<Longrightarrow> el_state p e = Some q"
  by (auto simp: el_state_def split: llama_gretype.splits)

lemma okseq_any:
  assumes "okseq es"
  shows "\<exists>q. shape p es = Some q"
proof (cases es)
  case (Cons e es')
  with assms obtain q r where q: "el_state 0 e = Some q" "shape q es' = Some r" by (auto split: Option.bind_splits)
  from el_state_0 [OF q(1), of p] q(2) Cons show ?thesis by simp
qed simp

lemma okseq_append: "okseq a \<Longrightarrow> okseq b \<Longrightarrow> okseq (a @ b)"
  using okseq_any [of b] by (auto simp: shape_append)

lemma okseq_take: "okseq (a @ b) \<Longrightarrow> okseq a"
  by (auto simp: shape_append split: Option.bind_splits)

lemma okseq_single: "ge_type e \<notin> {LLAMA_GRETYPE_END, LLAMA_GRETYPE_CHAR_RNG_UPPER, LLAMA_GRETYPE_CHAR_ALT} \<Longrightarrow> okseq [e]"
  by (cases "ge_type e") (auto simp: el_state_def)

lemma okseq_replicate: "okseq s \<Longrightarrow> okseq (concat (replicate k s))"
  by (induction k) (auto intro: okseq_append)

lemma shape_rule_ok:
  "shape p es = Some q \<Longrightarrow> \<forall>e\<in>set es. ge_type e = LLAMA_GRETYPE_RULE_REF \<longrightarrow> nat (ge_value e) < n \<Longrightarrow>
    rule_ok n p (es @ [el LLAMA_GRETYPE_END v])"
proof (induction es arbitrary: p)
  case (Cons e es)
  then show ?case by (cases "ge_type e") (auto simp: el_state_def split: if_splits)
qed simp

lemma shape_no_end: "shape p es = Some q \<Longrightarrow> \<forall>e\<in>set es. ge_type e \<noteq> LLAMA_GRETYPE_END"
  by (induction es arbitrary: p) (auto simp: el_state_def split: Option.bind_splits)

section \<open>Symbol identifiers\<close>

lemma digits_value_snoc: "digits_value (ds @ [c]) = digits_value ds * 10 + (ub c - 48)"
  by (simp add: digits_value_def ub_def)

lemma to_string_value: "digits_value (to_string n) = int n"
proof (induction n rule: to_string.induct)
  case (1 n)
  show ?case
  proof (cases "n < 10")
    case True
    then show ?thesis using digits_value_snoc [of "[]"] by (subst to_string.simps) (simp add: digits_value_def)
  next
    case False
    have "int (n div 10) * 10 + int (n mod 10) = int n" by (metis div_mult_mod_eq of_nat_add of_nat_mult of_nat_numeral)
    with 1 [OF False] False show ?thesis by (subst to_string.simps) (simp add: digits_value_snoc)
  qed
qed

lemma to_string_inj: "to_string a = to_string b \<Longrightarrow> a = b"
  by (metis of_nat_eq_iff to_string_value)

definition ids_ok :: "(string \<times> nat) list \<Rightarrow> bool" where
  "ids_ok ids \<longleftrightarrow> (\<forall>(k, v)\<in>set ids. v < length ids) \<and> (\<forall>(k, v)\<in>set ids. CHR ''_'' \<in> set k \<longrightarrow> (\<exists>b. CHR ''_'' \<notin> set b \<and> k = b @ CHR ''_'' # to_string v))"

abbreviation id_set :: "llama_grammar_parser \<Rightarrow> nat set" where
  "id_set st \<equiv> snd ` set (gp_symbol_ids st)"

lemma AList_update_keeps: "(\<And>v'. (k, v') \<in> set al \<Longrightarrow> v' = v) \<Longrightarrow> set al \<subseteq> set (AList.update k v al)"
  by (induction al) auto

lemma AList_update_in: "(k, v) \<in> set (AList.update k v al)"
  by (induction al) auto

lemma AList_update_sub: "set (AList.update k v al) \<subseteq> insert (k, v) (set al)"
  by (induction al) auto

lemma split_unique: "x \<notin> set a \<Longrightarrow> x \<notin> set b \<Longrightarrow> a @ x # s = b @ x # t \<Longrightarrow> a = b \<and> s = t"
proof (induction a arbitrary: b)
  case Nil
  then show ?case by (cases b) auto
next
  case (Cons c a)
  then obtain b' where b: "b = c # b'" by (cases b) auto
  with Cons show ?case by auto
qed

lemma u32_le: "u32 n \<le> n"
  by (simp add: u32_def)

lemma AList_update_length: "length (AList.update k v al) = (if k \<in> fst ` set al then length al else Suc (length al))"
  by (induction al) auto

text \<open>A generated name can only be known with the same identifier.\<close>

lemma generated_key:
  assumes "ids_ok ids" and "CHR ''_'' \<notin> set name" and "(name @ CHR ''_'' # to_string i, v) \<in> set ids"
  shows "v = i"
proof -
  from assms(1,3) obtain b where b: "CHR ''_'' \<notin> set b" "name @ CHR ''_'' # to_string i = b @ CHR ''_'' # to_string v" by (fastforce simp: ids_ok_def)
  from split_unique [OF assms(2) b] show ?thesis using to_string_inj by metis
qed

lemma generate_spec:
  assumes "generate_symbol_id name st = (i, st')" and "ids_ok (gp_symbol_ids st)" and "CHR ''_'' \<notin> set name"
  shows "ids_ok (gp_symbol_ids st') \<and> id_set st \<subseteq> id_set st' \<and> i \<in> id_set st' \<and> gp_rules st' = gp_rules st"
proof -
  let ?k = "name @ CHR ''_'' # to_string i" and ?ids = "gp_symbol_ids st"
  have st': "st' = st\<lparr>gp_symbol_ids := AList.update ?k i ?ids\<rparr>" and i: "i = u32 (length ?ids)"
    using assms(1) by (auto simp: generate_symbol_id_def Let_def)
  note key = generated_key [OF assms(2,3), of i]
  then have "set ?ids \<subseteq> set (gp_symbol_ids st')" unfolding st' by (simp add: AList_update_keeps)
  moreover have il: "i < length (gp_symbol_ids st')"
  proof (cases "?k \<in> fst ` set ?ids")
    case True
    then obtain v where "(?k, v) \<in> set ?ids" by auto
    with key have "(?k, i) \<in> set ?ids" by blast
    then have "i < length ?ids" using assms(2) by (auto simp: ids_ok_def)
    then show ?thesis by (simp add: st' AList_update_length)
  qed (use i u32_le [of "length ?ids"] in \<open>simp add: st' AList_update_length\<close>)
  have "v < length (gp_symbol_ids st') \<and> (CHR ''_'' \<in> set k \<longrightarrow> (\<exists>b. CHR ''_'' \<notin> set b \<and> k = b @ CHR ''_'' # to_string v))"
    if "(k, v) \<in> set (gp_symbol_ids st')" for k v
  proof (cases "(k, v) \<in> set ?ids")
    case True
    have "length ?ids \<le> length (gp_symbol_ids st')" by (simp add: st' AList_update_length)
    with True assms(2) show ?thesis by (fastforce simp: ids_ok_def)
  next
    case False
    with that AList_update_sub [of ?k i ?ids] have "k = ?k" "v = i" by (auto simp: st')
    with il assms(3) show ?thesis by blast
  qed
  then have "ids_ok (gp_symbol_ids st')" by (auto simp: ids_ok_def)
  moreover have "i \<in> id_set st'" using AList_update_in [of ?k i ?ids] by (force simp: st')
  ultimately show ?thesis by (auto simp: st')
qed

text \<open>Below $2^{32}$ symbols, every generated identifier is new.\<close>

lemma generate_length:
  assumes "generate_symbol_id name st = (i, st')" and "ids_ok (gp_symbol_ids st)" and "CHR ''_'' \<notin> set name"
  shows "length (gp_symbol_ids st') \<ge> length (gp_symbol_ids st)"
    and "length (gp_symbol_ids st) < 4294967296 \<Longrightarrow> i = length (gp_symbol_ids st) \<and> length (gp_symbol_ids st') = Suc (length (gp_symbol_ids st))"
proof -
  let ?k = "name @ CHR ''_'' # to_string i" and ?ids = "gp_symbol_ids st"
  have st': "st' = st\<lparr>gp_symbol_ids := AList.update ?k i ?ids\<rparr>" and i: "i = u32 (length ?ids)"
    using assms(1) by (auto simp: generate_symbol_id_def Let_def)
  show "length (gp_symbol_ids st') \<ge> length ?ids" by (simp add: st' AList_update_length)
  assume "length ?ids < 4294967296"
  with i have "i = length ?ids" by simp
  moreover have "?k \<notin> fst ` set ?ids"
  proof
    assume "?k \<in> fst ` set ?ids"
    then obtain v where v: "(?k, v) \<in> set ?ids" by auto
    with generated_key [OF assms(2,3) v] assms(2) \<open>i = length ?ids\<close> show False by (auto simp: ids_ok_def)
  qed
  ultimately show "i = length ?ids \<and> length (gp_symbol_ids st') = Suc (length ?ids)" by (simp add: st' AList_update_length)
qed

lemma word_char_no_underscore: "is_word_char c \<Longrightarrow> c \<noteq> CHR ''_''"
  by (auto simp: is_word_char_def is_digit_char_def ub_def)

lemma get_symbol_spec:
  assumes "get_symbol_id name st = (i, st')" and "ids_ok (gp_symbol_ids st)" and "CHR ''_'' \<notin> set name"
  shows "ids_ok (gp_symbol_ids st') \<and> id_set st \<subseteq> id_set st' \<and> i \<in> id_set st' \<and> gp_rules st' = gp_rules st"
proof (cases "map_of (gp_symbol_ids st) name")
  case None
  with assms have st': "st' = st\<lparr>gp_symbol_ids := gp_symbol_ids st @ [(name, i)]\<rparr>" "i = u32 (length (gp_symbol_ids st))"
    by (auto simp: get_symbol_id_def Let_def)
  then have "i \<le> length (gp_symbol_ids st)" using u32_le by simp
  with assms(2,3) show ?thesis by (fastforce simp: st'(1) ids_ok_def)
next
  case (Some j)
  with assms have "st' = st" "i = j" by (auto simp: get_symbol_id_def Let_def)
  with assms(2) map_of_SomeD [OF Some] show ?thesis by force
qed

section \<open>The invariant of the parser\<close>

definition refs_in :: "nat set \<Rightarrow> llama_grammar_rule \<Rightarrow> bool" where
  "refs_in I es \<longleftrightarrow> (\<forall>e\<in>set es. ge_type e = LLAMA_GRETYPE_RULE_REF \<longrightarrow> nat (ge_value e) \<in> I)"

lemma refs_in_simps [simp]: "refs_in I []" "refs_in I (e # es) \<longleftrightarrow> (ge_type e = LLAMA_GRETYPE_RULE_REF \<longrightarrow> nat (ge_value e) \<in> I) \<and> refs_in I es"
  "refs_in I (a @ b) \<longleftrightarrow> refs_in I a \<and> refs_in I b"
  by (auto simp: refs_in_def)

lemma refs_in_mono: "refs_in I es \<Longrightarrow> I \<subseteq> J \<Longrightarrow> refs_in J es"
  by (auto simp: refs_in_def)

lemma refs_in_sub: "refs_in I es \<Longrightarrow> set fs \<subseteq> set es \<Longrightarrow> refs_in I fs"
  by (auto simp: refs_in_def)

definition finished :: "nat set \<Rightarrow> llama_grammar_rule \<Rightarrow> bool" where
  "finished I rule \<longleftrightarrow> rule = [] \<or> (\<exists>es. rule = es @ [el LLAMA_GRETYPE_END 0] \<and> okseq es \<and> refs_in I es)"

definition parser_inv :: "llama_grammar_parser \<Rightarrow> bool" where
  "parser_inv st \<longleftrightarrow> ids_ok (gp_symbol_ids st) \<and> (\<forall>rule\<in>set (gp_rules st). finished (id_set st) rule)"

text \<open>An unfinished sequence: it and its last symbol are well-shaped.\<close>

definition seq_inv :: "llama_grammar_parser \<Rightarrow> llama_grammar_rule \<Rightarrow> nat \<Rightarrow> bool" where
  "seq_inv st rule n \<longleftrightarrow> okseq rule \<and> okseq (drop n rule) \<and> n \<le> length rule \<and> refs_in (id_set st) rule"

text \<open>A step of the parser: the invariant holds afterwards, and identifiers stay.\<close>

definition parser_step :: "llama_grammar_parser \<Rightarrow> llama_grammar_parser \<Rightarrow> bool" where
  "parser_step st st' \<longleftrightarrow> parser_inv st' \<and> id_set st \<subseteq> id_set st'"

lemma parser_step_refl: "parser_inv st \<Longrightarrow> parser_step st st"
  by (simp add: parser_step_def)

lemma parser_step_trans: "parser_step a b \<Longrightarrow> parser_step b c \<Longrightarrow> parser_step a c"
  by (auto simp: parser_step_def)

lemma finished_mono: "finished I rule \<Longrightarrow> I \<subseteq> J \<Longrightarrow> finished J rule"
  unfolding finished_def using refs_in_mono by blast

lemma refs_in_step: "refs_in (id_set st) es \<Longrightarrow> parser_step st st' \<Longrightarrow> refs_in (id_set st') es"
  by (auto simp: parser_step_def intro: refs_in_mono)

lemma new_id_step:
  assumes "generate_symbol_id name st = (i, st') \<or> get_symbol_id name st = (i, st')" and "parser_inv st" and "CHR ''_'' \<notin> set name"
  shows "parser_step st st' \<and> i \<in> id_set st'"
proof -
  have ids: "ids_ok (gp_symbol_ids st)" using assms(2) by (simp add: parser_inv_def)
  have "ids_ok (gp_symbol_ids st') \<and> id_set st \<subseteq> id_set st' \<and> i \<in> id_set st' \<and> gp_rules st' = gp_rules st"
    using assms(1) generate_spec [OF _ ids assms(3)] get_symbol_spec [OF _ ids assms(3)] by blast
  with assms(2) finished_mono show ?thesis by (auto simp: parser_step_def parser_inv_def)
qed

lemma set_update_sub: "set (xs[i := x]) \<subseteq> insert x (set xs)"
  by (rule set_update_subset_insert)

lemma add_rule_step:
  assumes "parser_inv st" and "okseq es" and "refs_in (id_set st) es"
  shows "parser_step st (add_rule i (es @ [el LLAMA_GRETYPE_END 0]) st)"
proof -
  let ?r = "es @ [el LLAMA_GRETYPE_END 0]"
  have "finished (id_set st) ?r" using assms(2,3) by (auto simp: finished_def)
  moreover have "set (gp_rules (add_rule i ?r st)) \<subseteq> insert ?r (insert [] (set (gp_rules st)))"
  proof -
    define rs where "rs = (if length (gp_rules st) \<le> i then gp_rules st @ replicate (i + 1 - length (gp_rules st)) [] else gp_rules st)"
    have "gp_rules (add_rule i ?r st) = rs[i := ?r]" by (simp add: add_rule_def Let_def rs_def)
    moreover have "set rs \<subseteq> insert [] (set (gp_rules st))" by (auto simp: rs_def)
    ultimately show ?thesis using set_update_sub [of rs i ?r] by (simp only:) blast
  qed
  moreover have "gp_symbol_ids (add_rule i ?r st) = gp_symbol_ids st" by (simp add: add_rule_def Let_def)
  moreover have "finished (id_set st) []" by (simp add: finished_def)
  ultimately show ?thesis using assms(1) by (auto simp: parser_step_def parser_inv_def)
qed

section \<open>Items\<close>

lemma literal_spec:
  "literal_loop pos rule \<noteq> NoFuel"
  "literal_loop pos rule = Parsed (pos', rule') \<Longrightarrow> length pos' \<le> length pos \<and> (\<exists>seg. rule' = rule @ seg \<and> okseq seg \<and> refs_in I seg)"
proof -
  have "literal_loop pos rule \<noteq> NoFuel \<and> (\<forall>pos' rule'. literal_loop pos rule = Parsed (pos', rule') \<longrightarrow>
    length pos' \<le> length pos \<and> (\<exists>seg. rule' = rule @ seg \<and> okseq seg \<and> refs_in I seg))"
  proof (induction pos rule rule: literal_loop.induct)
    case (1 pos rule)
    consider (Stop) "peek pos = DQ" | (Empty) "peek pos \<noteq> DQ" "pos = []" | (Err) e where "peek pos \<noteq> DQ" "pos \<noteq> []" "parse_char pos = Thrown e"
      | (Char) c pos1 where "peek pos \<noteq> DQ" "pos \<noteq> []" "parse_char pos = Parsed (c, pos1)"
    proof (cases "parse_char pos")
      case (Parsed a)
      with that show ?thesis by (cases a) blast
    next
      case (Thrown e)
      with that show ?thesis by blast
    qed simp
    then show ?case
    proof cases
      case Stop
      then have "literal_loop pos rule = Parsed (pos, rule)" by (subst literal_loop.simps) simp
      then show ?thesis by simp
    next
      case Empty
      then have "literal_loop pos rule = Thrown Unexpected_end" by (subst literal_loop.simps) simp
      then show ?thesis by simp
    next
      case (Err e)
      then have "literal_loop pos rule = Thrown e" by (subst literal_loop.simps) simp
      then show ?thesis by simp
    next
      case (Char c pos1)
      let ?e = "el LLAMA_GRETYPE_CHAR c"
      have eq: "literal_loop pos rule = literal_loop pos1 (rule @ [?e])" using Char by (subst literal_loop.simps) simp
      from 1 [OF Char(1,2,3) refl] have IH: "literal_loop pos1 (rule @ [?e]) \<noteq> NoFuel"
        "\<And>p r. literal_loop pos1 (rule @ [?e]) = Parsed (p, r) \<Longrightarrow> length p \<le> length pos1 \<and>
          (\<exists>seg. r = (rule @ [?e]) @ seg \<and> okseq seg \<and> refs_in I seg)" by auto
      have "length p \<le> length pos \<and> (\<exists>seg. r = rule @ seg \<and> okseq seg \<and> refs_in I seg)" if "literal_loop pos1 (rule @ [?e]) = Parsed (p, r)" for p r
      proof -
        from IH(2) [OF that] obtain seg where s: "length p \<le> length pos1" "r = (rule @ [?e]) @ seg" "okseq seg" "refs_in I seg" by blast
        have "okseq ([?e] @ seg)" by (rule okseq_append [OF okseq_single s(3)]) simp
        with s parse_char_length [OF Char(3)] show ?thesis by (intro conjI exI [of _ "?e # seg"]) auto
      qed
      with IH(1) eq show ?thesis by auto
    qed
  qed
  then show "literal_loop pos rule \<noteq> NoFuel"
    and "literal_loop pos rule = Parsed (pos', rule') \<Longrightarrow> length pos' \<le> length pos \<and> (\<exists>seg. rule' = rule @ seg \<and> okseq seg \<and> refs_in I seg)"
    by auto
qed

lemma range_upper_no_fuel [simp]: "range_upper pos rule \<noteq> NoFuel"
  by (auto simp: range_upper_def)

text \<open>The classes of a range so far: none, or a well-shaped class.\<close>

definition class_seg :: "nat set \<Rightarrow> llama_grammar_rule \<Rightarrow> bool" where
  "class_seg I seg \<longleftrightarrow> (seg = [] \<or> (\<exists>q\<in>{1, 2}. shape 0 seg = Some q)) \<and> refs_in I seg"

lemma class_seg_snoc:
  assumes "class_seg I seg" and "t = LLAMA_GRETYPE_CHAR \<or> t = LLAMA_GRETYPE_CHAR_NOT"
    and "range_upper pos (base @ seg @ [el (if seg \<noteq> [] then LLAMA_GRETYPE_CHAR_ALT else t) c]) = Parsed (pos', rule')"
  shows "\<exists>seg'. rule' = base @ seg' \<and> seg' \<noteq> [] \<and> class_seg I seg'"
proof -
  let ?e = "el (if seg \<noteq> [] then LLAMA_GRETYPE_CHAR_ALT else t) c"
  have s1: "shape 0 (seg @ [?e]) = Some 1" using assms(1,2) by (auto simp: class_seg_def shape_append el_state_def)
  have r1: "refs_in I (seg @ [?e])" using assms(1,2) by (auto simp: class_seg_def)
  show ?thesis
  proof (cases "rule' = base @ seg @ [?e]")
    case True
    with s1 r1 show ?thesis by (intro exI [of _ "seg @ [?e]"]) (simp add: class_seg_def)
  next
    case False
    with assms(3) obtain d where "rule' = base @ (seg @ [?e]) @ [el LLAMA_GRETYPE_CHAR_RNG_UPPER d]"
      by (auto simp: range_upper_def split: if_splits)
    moreover have "shape 0 ((seg @ [?e]) @ [el LLAMA_GRETYPE_CHAR_RNG_UPPER d]) = Some 2"
      unfolding shape_append [of 0 "seg @ [?e]"] s1 by (simp add: el_state_def)
    ultimately show ?thesis using r1 by (intro exI [of _ "(seg @ [?e]) @ [el LLAMA_GRETYPE_CHAR_RNG_UPPER d]"]) (simp add: class_seg_def)
  qed
qed

lemma range_spec:
  assumes "t = LLAMA_GRETYPE_CHAR \<or> t = LLAMA_GRETYPE_CHAR_NOT"
  shows "class_seg I seg \<Longrightarrow> range_loop t (length base) pos (base @ seg) \<noteq> NoFuel \<and>
    (\<forall>pos' rule'. range_loop t (length base) pos (base @ seg) = Parsed (pos', rule') \<longrightarrow>
      length pos' \<le> length pos \<and> (\<exists>seg'. rule' = base @ seg' \<and> class_seg I seg'))"
proof (induction "length pos" arbitrary: pos seg rule: less_induct)
  case less
  let ?r = "base @ seg" and ?t = "if seg \<noteq> [] then LLAMA_GRETYPE_CHAR_ALT else t"
  consider (Stop) "peek pos = CHR '']''" | (Empty) "peek pos \<noteq> CHR '']''" "pos = []"
    | (Err) e where "range_loop t (length base) pos ?r = Thrown e"
    | (Char) c pos1 pos2 rule2 where "peek pos \<noteq> CHR '']''" "pos \<noteq> []" "parse_char pos = Parsed (c, pos1)"
        "range_upper pos1 (base @ seg @ [el ?t c]) = Parsed (pos2, rule2)"
  proof (cases "parse_char pos")
    case (Parsed a)
    obtain c pos1 where a: "a = (c, pos1)" by (cases a)
    show ?thesis
    proof (cases "range_upper pos1 (base @ seg @ [el ?t c])")
      case P2: (Parsed b)
      obtain pos2 rule2 where "b = (pos2, rule2)" by (cases b)
      with Parsed a P2 that show ?thesis by blast
    next
      case (Thrown e)
      then have "range_loop t (length base) pos ?r = Thrown e \<or> peek pos = CHR '']'' \<or> pos = []"
        using Parsed a by (subst range_loop.simps) auto
      with that show ?thesis by blast
    qed simp
  next
    case (Thrown e)
    then have "range_loop t (length base) pos ?r = Thrown e \<or> peek pos = CHR '']'' \<or> pos = []" by (subst range_loop.simps) auto
    with that show ?thesis by blast
  qed simp
  then show ?case
  proof cases
    case Stop
    then have "range_loop t (length base) pos ?r = Parsed (pos, ?r)" by (subst range_loop.simps) simp
    with less.prems show ?thesis by auto
  next
    case Empty
    then have "range_loop t (length base) pos ?r = Thrown Unexpected_end" by (subst range_loop.simps) simp
    then show ?thesis by simp
  next
    case (Err e)
    then show ?thesis by simp
  next
    case (Char c pos1 pos2 rule2)
    from class_seg_snoc [OF less.prems assms Char(4)] obtain seg2 where s: "rule2 = base @ seg2" "class_seg I seg2" by blast
    have "range_loop t (length base) pos ?r = range_loop t (length base) pos2 (base @ seg2)"
      using Char s(1) by (subst range_loop.simps) auto
    moreover have l: "length pos2 < length pos" using parse_char_length [OF Char(3)] range_upper_length [OF Char(4)] by simp
    ultimately show ?thesis using less.hyps [OF l s(2)] by auto
  qed
qed

lemma class_seg_okseq: "class_seg I seg \<Longrightarrow> okseq seg \<and> refs_in I seg"
  by (auto simp: class_seg_def)

section \<open>Repetitions\<close>

lemma rep_loop_step:
  assumes "rep_loop n first no_max name prev l st = (l', st')" and "parser_inv st" and "okseq prev" and "refs_in (id_set st) prev"
    and "CHR ''_'' \<notin> set name" and "first \<or> l \<in> id_set st"
  shows "parser_step st st' \<and> (n > 0 \<or> \<not> first \<longrightarrow> l' \<in> id_set st')"
  using assms
proof (induction n arbitrary: first l st)
  case 0
  then show ?case by (auto intro: parser_step_refl)
next
  case (Suc n)
  obtain i st1 where g: "generate_symbol_id name st = (i, st1)" by (cases "generate_symbol_id name st")
  from new_id_step [OF disjI1 [OF g] Suc.prems(2,5)] have st1: "parser_step st st1" "i \<in> id_set st1" by auto
  define r where "r = prev @ (if \<not> first \<or> no_max then [el LLAMA_GRETYPE_RULE_REF (int (if no_max then i else l))] else []) @ [el LLAMA_GRETYPE_ALT 0]"
  have "okseq r" unfolding r_def by (intro okseq_append Suc.prems(3)) (auto simp: el_state_def)
  moreover have "refs_in (id_set st1) r"
    using refs_in_step [OF Suc.prems(4) st1(1)] st1 Suc.prems(6) by (auto simp: r_def parser_step_def)
  moreover have "parser_inv st1" using st1(1) by (simp add: parser_step_def)
  ultimately have st2: "parser_step st1 (add_rule i (r @ [el LLAMA_GRETYPE_END 0]) st1)" by (intro add_rule_step)
  let ?st2 = "add_rule i (r @ [el LLAMA_GRETYPE_END 0]) st1"
  have st12: "parser_step st ?st2" by (rule parser_step_trans [OF st1(1) st2])
  from Suc.prems(1) g have "rep_loop n False no_max name prev i ?st2 = (l', st')" by (simp add: r_def)
  from Suc.IH [OF this _ Suc.prems(3) refs_in_step [OF Suc.prems(4) st12] Suc.prems(5)] st12 st2 st1(2)
  have "parser_step ?st2 st' \<and> l' \<in> id_set st'" by (auto simp: parser_step_def)
  with parser_step_trans [OF st12] show ?case by blast
qed

lemma handle_repetitions_no_fuel [simp]: "handle_repetitions mn mx name n rule st \<noteq> NoFuel"
  by (auto simp: handle_repetitions_def Let_def split: prod.splits)

lemma refs_in_copies: "refs_in I s \<Longrightarrow> refs_in I (concat (replicate k s))"
  by (induction k) auto

lemma seq_inv_grow: "seq_inv st rule n \<Longrightarrow> okseq seg \<Longrightarrow> refs_in (id_set st) seg \<Longrightarrow> seq_inv st (rule @ seg) n"
  unfolding seq_inv_def using okseq_append by auto

lemma seq_inv_step: "seq_inv st rule n \<Longrightarrow> parser_step st st' \<Longrightarrow> seq_inv st' rule n"
  unfolding seq_inv_def using refs_in_step by blast

lemma seq_inv_take: "seq_inv st rule n \<Longrightarrow> seq_inv st (take n rule) n"
  unfolding seq_inv_def using okseq_take [of "take n rule" "drop n rule"] refs_in_sub [OF _ set_take_subset] by simp

lemma handle_repetitions_step:
  assumes "handle_repetitions mn mx name n rule st = Parsed (rule', st')" and "parser_inv st" and "seq_inv st rule n" and "CHR ''_'' \<notin> set name"
  shows "parser_step st st' \<and> seq_inv st' rule' n"
proof -
  let ?prev = "drop n rule" and ?no_max = "mx = UINT64_MAX"
  let ?base = "if mn = 0 then take n rule else rule @ concat (replicate (nat (mn - 1)) ?prev)"
  let ?n_opt = "if ?no_max then 1 else nat ((mx - mn) mod 18446744073709551616)"
  obtain l st1 where r: "rep_loop ?n_opt True ?no_max name ?prev 0 st = (l, st1)" by (cases "rep_loop ?n_opt True ?no_max name ?prev 0 st")
  have st': "st' = st1" and rule': "rule' = (if ?n_opt > 0 then ?base @ [el LLAMA_GRETYPE_RULE_REF (int l)] else ?base)"
    using assms(1) r by (auto simp: handle_repetitions_def Let_def split: if_splits prod.splits)
  have prev: "okseq ?prev" "refs_in (id_set st) ?prev"
    using assms(3) refs_in_sub [OF _ set_drop_subset] by (auto simp: seq_inv_def)
  from rep_loop_step [OF r assms(2) prev assms(4)] have step: "parser_step st st1" "?n_opt > 0 \<longrightarrow> l \<in> id_set st1" by blast+
  have "seq_inv st ?base n"
    using seq_inv_take [OF assms(3)] seq_inv_grow [OF assms(3) okseq_replicate [OF prev(1)] refs_in_copies [OF prev(2)]] by simp
  then have base: "seq_inv st1 ?base n" by (rule seq_inv_step [OF _ step(1)])
  have "seq_inv st1 (?base @ [el LLAMA_GRETYPE_RULE_REF (int l)]) n" if "?n_opt > 0"
    using step(2) that by (intro seq_inv_grow [OF base] okseq_single) auto
  with base step(1) show ?thesis unfolding st' rule' by (auto simp del: append_assoc)
qed

section \<open>Items\<close>

lemma seq_inv_new: "seq_inv st rule n \<Longrightarrow> okseq seg \<Longrightarrow> refs_in (id_set st) seg \<Longrightarrow> seq_inv st (rule @ seg) (length rule)"
  unfolding seq_inv_def using okseq_append by auto

lemma parse_item_no_fuel [simp]: "parse_item name nested pos rule n st \<noteq> NoFuel"
proof -
  have "range_loop t (length rule) p rule \<noteq> NoFuel" if "t = LLAMA_GRETYPE_CHAR \<or> t = LLAMA_GRETYPE_CHAR_NOT" for t p
    using range_spec [OF that, of UNIV "[]" rule p] by (simp add: class_seg_def)
  then show ?thesis using literal_spec(1) by (auto simp: parse_item_def Let_def split: prod.splits)
qed

text \<open>What an item does to the sequence it belongs to.\<close>

definition item_ok :: "string \<Rightarrow> llama_grammar_parser \<Rightarrow> seq_state \<Rightarrow> bool" where
  "item_ok pos st s = (case s of (pos', rule', n', st') \<Rightarrow> length pos' < length pos \<and> parser_step st st' \<and> seq_inv st' rule' n')"

lemma peek_tl_space: "peek pos \<noteq> NUL \<Longrightarrow> length p \<le> length (tl pos) \<Longrightarrow> length (parse_space p b) < length pos"
  using parse_space_length [of p b] by (cases pos) auto

lemma item_new:
  assumes "parser_inv st" and "seq_inv st rule n" and "okseq seg" and "refs_in (id_set st) seg" and "length pos' < length pos"
  shows "item_ok pos st (pos', rule @ seg, length rule, st)"
  using assms seq_inv_new parser_step_refl by (simp add: item_ok_def)

lemma item_literal:
  assumes "parser_inv st" "seq_inv st rule n" "peek pos = DQ" "literal_loop (tl pos) rule = Parsed (p, rule')"
  shows "item_ok pos st (parse_space (tl p) nested, rule', length rule, st)"
proof -
  from literal_spec(2) [OF assms(4)] obtain seg where s: "length p \<le> length (tl pos)" "rule' = rule @ seg" "okseq seg" "refs_in (id_set st) seg" by blast
  have "length (parse_space (tl p) nested) < length pos"
    using s(1) tl_length [of p] assms(3) by (intro peek_tl_space) (auto simp: NUL_CHR)
  with item_new [OF assms(1,2) s(3,4)] s(2) show ?thesis by blast
qed

lemma item_range:
  assumes "parser_inv st" "seq_inv st rule n" "peek pos = CHR ''[''" "t = LLAMA_GRETYPE_CHAR \<or> t = LLAMA_GRETYPE_CHAR_NOT"
    "length q \<le> length (tl pos)" "range_loop t (length rule) q rule = Parsed (p, rule')"
  shows "item_ok pos st (parse_space (tl p) nested, rule', length rule, st)"
proof -
  have "class_seg (id_set st) []" by (simp add: class_seg_def)
  from range_spec [OF assms(4) this, of rule q] assms(6) obtain seg
    where s: "length p \<le> length q" "rule' = rule @ seg" "class_seg (id_set st) seg" by auto
  have "length (parse_space (tl p) nested) < length pos"
    using s(1) tl_length [of p] assms(3,5) by (intro peek_tl_space) (auto simp: NUL_CHR)
  moreover have "okseq seg" "refs_in (id_set st) seg" using class_seg_okseq [OF s(3)] by auto
  ultimately show ?thesis unfolding s(2) using item_new [OF assms(1,2)] by blast
qed

lemma item_token:
  assumes "parser_inv st" "seq_inv st rule n" "length q \<le> length pos" "parse_token v q = Parsed (tok, p)"
    "t = LLAMA_GRETYPE_TOKEN \<or> t = LLAMA_GRETYPE_TOKEN_NOT"
  shows "item_ok pos st (parse_space p nested, rule @ [el t tok], length rule, st)"
  using assms(3,5) parse_token_length [OF assms(4)] parse_space_length [of p nested]
  by (intro item_new [OF assms(1,2)] okseq_single) auto

lemma item_name:
  assumes "parser_inv st" "seq_inv st rule n" "parse_name pos = Parsed (name, p)" "get_symbol_id name st = (i, st')"
  shows "item_ok pos st (parse_space p nested, rule @ [el LLAMA_GRETYPE_RULE_REF (int i)], length rule, st')"
proof -
  from parse_name_spec [OF assms(3)] have n: "length p < length pos" "CHR ''_'' \<notin> set name" using word_char_no_underscore by auto
  from new_id_step [OF disjI2 [OF assms(4)] assms(1) n(2)] have st: "parser_step st st'" "i \<in> id_set st'" by auto
  have "seq_inv st' (rule @ [el LLAMA_GRETYPE_RULE_REF (int i)]) (length rule)"
    by (rule seq_inv_new [OF seq_inv_step [OF assms(2) st(1)] okseq_single]) (use st(2) in auto)
  with st(1) n(1) parse_space_length [of p nested] show ?thesis by (simp add: item_ok_def)
qed

lemma item_repeat:
  assumes "parser_inv st" "seq_inv st rule n" "CHR ''_'' \<notin> set name" "handle_repetitions mn mx name n rule st = Parsed (rule', st')" "length p < length pos"
  shows "item_ok pos st (p, rule', n, st')"
  using handle_repetitions_step [OF assms(4,1,2,3)] assms(5) by (simp add: item_ok_def)

lemma item_any:
  assumes "parser_inv st" "seq_inv st rule n" "length p < length pos"
  shows "item_ok pos st (p, rule @ [el LLAMA_GRETYPE_CHAR_ANY 0], length rule, st)"
  by (rule item_new [OF assms(1,2) okseq_single _ assms(3)]) auto

lemma nonword: "\<not> is_word_char (CHR ''.'')" "\<not> is_word_char (CHR ''*'')" "\<not> is_word_char (CHR ''+'')" "\<not> is_word_char (CHR ''?'')"
  "\<not> is_word_char (CHR ''{'')"
  by (simp_all add: is_word_char_def is_digit_char_def ub_def)

lemma parse_item_spec:
  assumes "parse_item name nested pos rule n st = Parsed (Some s)" and inv: "parser_inv st" "seq_inv st rule n" and name: "CHR ''_'' \<notin> set name"
  shows "item_ok pos st s"
proof -
  let ?c = "peek pos"
  have tl: "length (parse_space (tl pos) nested) < length pos" if "?c \<noteq> NUL" using that by (intro peek_tl_space) auto
  consider "?c = DQ" | "?c = CHR ''[''" | "?c = CHR ''<'' \<or> ?c = CHR ''!''" | "?c \<noteq> DQ" "?c \<noteq> CHR ''[''" "?c \<noteq> CHR ''<''" "?c \<noteq> CHR ''!''" "is_word_char ?c"
    | "?c = CHR ''.''" | "?c = CHR ''*''" | "?c = CHR ''+''" | "?c = CHR ''?''" | "?c = CHR ''{''"
    using assms(1) by (auto simp: parse_item_def Let_def split: if_splits)
  then show ?thesis
  proof cases
    case 1
    with assms(1) item_literal [OF inv 1] show ?thesis by (auto simp: parse_item_def)
  next
    case 2
    let ?t = "if peek (tl pos) = CHR ''^'' then LLAMA_GRETYPE_CHAR_NOT else LLAMA_GRETYPE_CHAR"
    let ?q = "if peek (tl pos) = CHR ''^'' then tl (tl pos) else tl pos"
    from assms(1) 2 obtain p rule' where "range_loop ?t (length rule) ?q rule = Parsed (p, rule')" "s = (parse_space (tl p) nested, rule', length rule, st)"
      by (auto simp: parse_item_def Let_def)
    moreover have "length ?q \<le> length (tl pos)" using tl_length [of "tl pos"] by simp
    ultimately show ?thesis using item_range [OF inv 2, of ?t ?q] by simp
  next
    case 3
    let ?t = "if ?c = CHR ''!'' then LLAMA_GRETYPE_TOKEN_NOT else LLAMA_GRETYPE_TOKEN" and ?q = "if ?c = CHR ''!'' then tl pos else pos"
    from assms(1) 3 obtain tok p where "parse_token (gp_vocab st) ?q = Parsed (tok, p)" "s = (parse_space p nested, rule @ [el ?t tok], length rule, st)"
      by (auto simp: parse_item_def Let_def)
    moreover have "length ?q \<le> length pos" by simp
    ultimately show ?thesis using item_token [OF inv, of ?q] by simp
  next
    case 4
    with assms(1) obtain nm p where p: "parse_name pos = Parsed (nm, p)" by (auto simp: parse_item_def)
    obtain i st' where i: "get_symbol_id nm st = (i, st')" by (cases "get_symbol_id nm st")
    from assms(1) 4 p i have "s = (parse_space p nested, rule @ [el LLAMA_GRETYPE_RULE_REF (int i)], length rule, st')"
      by (simp add: parse_item_def)
    then show ?thesis using item_name [OF inv p i] by simp
  next
    case 5
    with assms(1) item_any [OF inv tl] show ?thesis by (auto simp: parse_item_def NUL_CHR nonword)
  next
    case 6
    with assms(1) item_repeat [OF inv name _ tl] show ?thesis by (auto simp: parse_item_def NUL_CHR nonword)
  next
    case 7
    with assms(1) item_repeat [OF inv name _ tl] show ?thesis by (auto simp: parse_item_def NUL_CHR nonword)
  next
    case 8
    with assms(1) item_repeat [OF inv name _ tl] show ?thesis by (auto simp: parse_item_def NUL_CHR nonword)
  next
    case 9
    with assms(1) obtain mn mx p rule' st' where b: "parse_bounds (parse_space (tl pos) nested) nested = Parsed (mn, mx, p)"
      "handle_repetitions mn mx name n rule st = Parsed (rule', st')" "s = (p, rule', n, st')"
      by (auto simp: parse_item_def nonword)
    have "length p < length pos" using parse_bounds_length [OF b(1)] tl 9 by (auto simp: NUL_CHR)
    with item_repeat [OF inv name b(2)] b(3) show ?thesis by simp
  qed
qed

section \<open>Sequences and alternatives\<close>

text \<open>A run with a postcondition, which also returns if \<open>b\<close> holds.\<close>

definition runs :: "bool \<Rightarrow> 'a parsed \<Rightarrow> ('a \<Rightarrow> bool) \<Rightarrow> bool" where
  "runs b m P \<longleftrightarrow> (b \<longrightarrow> m \<noteq> NoFuel) \<and> (\<forall>x. m = Parsed x \<longrightarrow> P x)"

lemma runs_simps [simp]: "runs b (Parsed x) P = P x" "runs b (Thrown e) P" "runs b NoFuel P = (\<not> b)"
  by (auto simp: runs_def)

lemma runs_bind: "runs b m P \<Longrightarrow> (\<And>x. P x \<Longrightarrow> runs b (f x) Q) \<Longrightarrow> runs b (pbind m f) Q"
  by (cases m) (auto simp: runs_def)

lemma runs_bind2: "runs b m P \<Longrightarrow> (\<And>x y. P (x, y) \<Longrightarrow> runs b (f x y) Q) \<Longrightarrow> runs b (pbind m (\<lambda>(x, y). f x y)) Q"
  by (erule runs_bind) auto

lemma runs_bind3: "runs b m P \<Longrightarrow> (\<And>x y z. P (x, y, z) \<Longrightarrow> runs b (f x y z) Q) \<Longrightarrow> runs b (pbind m (\<lambda>(x, y, z). f x y z)) Q"
  by (erule runs_bind) auto

lemma runs_mono: "runs b m P \<Longrightarrow> (c \<Longrightarrow> b) \<Longrightarrow> (\<And>x. P x \<Longrightarrow> Q x) \<Longrightarrow> runs c m Q"
  by (auto simp: runs_def)

definition seq_post :: "string \<Rightarrow> llama_grammar_parser \<Rightarrow> string \<times> llama_grammar_rule \<times> llama_grammar_parser \<Rightarrow> bool" where
  "seq_post pos st r = (case r of (pos', rule', st') \<Rightarrow> length pos' \<le> length pos \<and> parser_step st st' \<and> okseq rule' \<and> refs_in (id_set st') rule')"

definition alt_post :: "string \<Rightarrow> llama_grammar_parser \<Rightarrow> string \<times> llama_grammar_parser \<Rightarrow> bool" where
  "alt_post pos st r = (case r of (pos', st') \<Rightarrow> length pos' \<le> length pos \<and> parser_step st st')"

lemma seq_post_trans:
  assumes "seq_post pos' st' r" and "length pos' \<le> length pos" and "parser_step st st'"
  shows "seq_post pos st r"
  using assms by (auto simp: seq_post_def intro: parser_step_trans)

lemma step_inv: "parser_step st st' \<Longrightarrow> parser_inv st'"
  by (simp add: parser_step_def)

lemma seq_runs_trans:
  assumes "runs b m (seq_post pos' st')" and "length pos' \<le> length pos" and "parser_step st st'" and "c \<Longrightarrow> b"
  shows "runs c m (seq_post pos st)"
  by (rule runs_mono [OF assms(1)]) (use assms(2-4) seq_post_trans in blast)+

definition sequence_spec :: "nat \<Rightarrow> bool" where
  "sequence_spec f \<longleftrightarrow> (\<forall>name nested pos rule n st. parser_inv st \<longrightarrow> seq_inv st rule n \<longrightarrow> CHR ''_'' \<notin> set name \<longrightarrow>
     runs (3 * length pos + 1 \<le> f) (parse_sequence f name nested pos rule n st) (seq_post pos st))"

definition alternates_spec :: "nat \<Rightarrow> bool" where
  "alternates_spec f \<longleftrightarrow> (\<forall>src name i nested st. parser_inv st \<longrightarrow> CHR ''_'' \<notin> set name \<longrightarrow>
     runs (3 * length src + 2 \<le> f) (parse_alternates f src name i nested st) (alt_post src st))"

definition loop_spec :: "nat \<Rightarrow> bool" where
  "loop_spec f \<longleftrightarrow> (\<forall>name nested pos rule st. parser_inv st \<longrightarrow> okseq rule \<longrightarrow> refs_in (id_set st) rule \<longrightarrow> CHR ''_'' \<notin> set name \<longrightarrow>
     runs (3 * length pos + 1 \<le> f) (alternates_loop f name nested pos rule st) (seq_post pos st))"

lemma sequenceD: "sequence_spec f \<Longrightarrow> parser_inv st \<Longrightarrow> seq_inv st rule n \<Longrightarrow> CHR ''_'' \<notin> set name \<Longrightarrow>
    runs (3 * length pos + 1 \<le> f) (parse_sequence f name nested pos rule n st) (seq_post pos st)"
  by (simp add: sequence_spec_def)

lemma alternatesD: "alternates_spec f \<Longrightarrow> parser_inv st \<Longrightarrow> CHR ''_'' \<notin> set name \<Longrightarrow>
    runs (3 * length src + 2 \<le> f) (parse_alternates f src name i nested st) (alt_post src st)"
  by (simp add: alternates_spec_def)

lemma loopD: "loop_spec f \<Longrightarrow> parser_inv st \<Longrightarrow> okseq rule \<Longrightarrow> refs_in (id_set st) rule \<Longrightarrow> CHR ''_'' \<notin> set name \<Longrightarrow>
    runs (3 * length pos + 1 \<le> f) (alternates_loop f name nested pos rule st) (seq_post pos st)"
  by (simp add: loop_spec_def)

lemma loop_spec_Suc:
  assumes "sequence_spec f" and "loop_spec f"
  shows "loop_spec (Suc f)"
  unfolding loop_spec_def
proof (intro allI impI)
  fix name nested and pos :: string and rule and st :: llama_grammar_parser
  assume inv: "parser_inv st" "okseq rule" "refs_in (id_set st) rule" and name: "CHR ''_'' \<notin> set name"
  let ?b = "3 * length pos + 1 \<le> Suc f"
  show "runs ?b (alternates_loop (Suc f) name nested pos rule st) (seq_post pos st)"
  proof (cases "peek pos = CHR ''|''")
    case True
    let ?rule = "rule @ [el LLAMA_GRETYPE_ALT 0]" and ?pos = "parse_space (tl pos) True"
    have "seq_inv st ?rule (length ?rule)" using okseq_append [OF inv(2) okseq_single, of "el LLAMA_GRETYPE_ALT 0"] inv(3) by (auto simp: seq_inv_def)
    note 1 = sequenceD [OF assms(1) inv(1) this name, of ?pos nested]
    have l: "length ?pos < length pos" using True by (intro peek_tl_space) (auto simp: NUL_CHR)
    have "runs ?b (parse_sequence f name nested ?pos ?rule (length ?rule) st) (seq_post ?pos st)"
      by (rule runs_mono [OF 1]) (use l in auto)
    moreover have "runs ?b (alternates_loop f name nested p r s) (seq_post pos st)" if "seq_post ?pos st (p, r, s)" for p r s
    proof -
      have s: "length p \<le> length ?pos" "parser_step st s" "okseq r" "refs_in (id_set s) r" using that by (simp_all add: seq_post_def)
      have "runs (3 * length p + 1 \<le> f) (alternates_loop f name nested p r s) (seq_post p s)"
        by (rule loopD [OF assms(2) step_inv [OF s(2)] s(3,4) name])
      then show ?thesis by (rule seq_runs_trans [OF _ _ s(2)]) (use s(1) l in auto)
    qed
    ultimately show ?thesis using True by (auto simp: Let_def intro: runs_bind)
  next
    case False
    then show ?thesis using inv by (simp add: seq_post_def parser_step_refl)
  qed
qed

lemma alternates_spec_Suc:
  assumes "sequence_spec f" and "loop_spec f"
  shows "alternates_spec (Suc f)"
  unfolding alternates_spec_def
proof (intro allI impI)
  fix src :: string and name i nested and st :: llama_grammar_parser
  assume inv: "parser_inv st" and name: "CHR ''_'' \<notin> set name"
  let ?b = "3 * length src + 2 \<le> Suc f"
  have "seq_inv st [] 0" by (simp add: seq_inv_def)
  from sequenceD [OF assms(1) inv this name] have 1: "runs ?b (parse_sequence f name nested src [] 0 st) (seq_post src st)"
    by (rule runs_mono) auto
  have 2: "runs ?b (alternates_loop f name nested p r s) (seq_post src st)" if "seq_post src st (p, r, s)" for p r s
  proof -
    have s: "length p \<le> length src" "parser_step st s" "okseq r" "refs_in (id_set s) r" using that by (simp_all add: seq_post_def)
    have "runs (3 * length p + 1 \<le> f) (alternates_loop f name nested p r s) (seq_post p s)"
      by (rule loopD [OF assms(2) step_inv [OF s(2)] s(3,4) name])
    then show ?thesis by (rule seq_runs_trans [OF _ _ s(2)]) (use s(1) in auto)
  qed
  have 3: "alt_post src st (p, add_rule i (r @ [el LLAMA_GRETYPE_END 0]) s)" if "seq_post src st (p, r, s)" for p r s
    using that add_rule_step [of s r i] by (auto simp: seq_post_def alt_post_def step_inv intro: parser_step_trans)
  show "runs ?b (parse_alternates (Suc f) src name i nested st) (alt_post src st)"
    unfolding parse_alternates.simps by (rule runs_bind3 [OF 1], erule runs_bind3 [OF 2]) (simp add: 3)
qed

lemma sequence_spec_Suc:
  assumes "sequence_spec f" and "alternates_spec f"
  shows "sequence_spec (Suc f)"
  unfolding sequence_spec_def
proof (intro allI impI)
  fix name nested and pos :: string and rule n and st :: llama_grammar_parser
  assume inv: "parser_inv st" "seq_inv st rule n" and name: "CHR ''_'' \<notin> set name"
  let ?b = "3 * length pos + 1 \<le> Suc f"
  have rec: "runs ?b (parse_sequence f name nested p r k s) (seq_post pos st)" if "item_ok pos st (p, r, k, s)" for p r k s
  proof -
    have s: "length p < length pos" "parser_step st s" "seq_inv s r k" using that by (simp_all add: item_ok_def)
    have "runs (3 * length p + 1 \<le> f) (parse_sequence f name nested p r k s) (seq_post p s)"
      by (rule sequenceD [OF assms(1) step_inv [OF s(2)] s(3) name])
    then show ?thesis by (rule seq_runs_trans [OF _ _ s(2)]) (use s(1) in auto)
  qed
  have stop: "seq_post pos st (pos, rule, st)" using inv by (auto simp: seq_post_def seq_inv_def parser_step_refl)
  show "runs ?b (parse_sequence (Suc f) name nested pos rule n st) (seq_post pos st)"
  proof (cases "peek pos = CHR ''(''")
    case True
    obtain i st1 where g: "generate_symbol_id name st = (i, st1)" by (cases "generate_symbol_id name st")
    from new_id_step [OF disjI1 [OF g] inv(1) name] have st1: "parser_step st st1" "i \<in> id_set st1" by auto
    let ?pos = "parse_space (tl pos) True"
    have l: "length ?pos < length pos" using True by (intro peek_tl_space) (auto simp: NUL_CHR)
    have 1: "runs ?b (parse_alternates f ?pos name i True st1) (alt_post ?pos st1)"
      by (rule runs_mono [OF alternatesD [OF assms(2) step_inv [OF st1(1)] name]]) (use l in auto)
    have 2: "item_ok pos st (parse_space (tl p) nested, rule @ [el LLAMA_GRETYPE_RULE_REF (int i)], length rule, s)" if "alt_post ?pos st1 (p, s)" for p s
    proof -
      have s: "length p \<le> length ?pos" "parser_step st1 s" using that by (simp_all add: alt_post_def)
      have st: "parser_step st s" by (rule parser_step_trans [OF st1(1) s(2)])
      have "seq_inv s (rule @ [el LLAMA_GRETYPE_RULE_REF (int i)]) (length rule)"
        by (rule seq_inv_new [OF seq_inv_step [OF inv(2) st] okseq_single]) (use st1(2) s(2) in \<open>auto simp: parser_step_def\<close>)
      with st s(1) l space_tl_length [of p nested] show ?thesis by (simp add: item_ok_def)
    qed
    have "pos \<noteq> []" using True by (auto simp: NUL_CHR)
    with True g have eq: "parse_sequence (Suc f) name nested pos rule n st = pbind (parse_alternates f ?pos name i True st1) (\<lambda>(pos, st).
         if peek pos \<noteq> CHR '')'' then Thrown Expecting_paren
         else parse_sequence f name nested (parse_space (tl pos) nested) (rule @ [el LLAMA_GRETYPE_RULE_REF (int i)]) (length rule) st)"
      by simp
    show ?thesis unfolding eq by (rule runs_bind2 [OF 1]) (simp only: runs_simps rec 2 simp_thms split: if_split)
  next
    case False
    have "runs ?b (parse_item name nested pos rule n st) (\<lambda>r. case r of None \<Rightarrow> True | Some s \<Rightarrow> item_ok pos st s)"
      using parse_item_spec [OF _ inv name] by (auto simp: runs_def split: option.splits)
    with False stop rec show ?thesis by (auto intro!: runs_bind split: option.splits)
  qed
qed

lemma parser_specs: "sequence_spec f \<and> alternates_spec f \<and> loop_spec f"
proof (induction f)
  case 0
  show ?case by (simp add: sequence_spec_def alternates_spec_def loop_spec_def)
next
  case (Suc f)
  then show ?case by (simp add: sequence_spec_Suc alternates_spec_Suc loop_spec_Suc)
qed

section \<open>Rules and texts\<close>

lemma parse_rule_runs:
  assumes "parser_inv st" and f: "3 * length src + 2 \<le> f"
  shows "runs True (parse_rule f src st) (\<lambda>(pos, st'). length pos < length src \<and> parser_step st st')"
proof -
  have main: "runs True (parse_alternates f (parse_space (drop 3 p) True) name i False st1) (\<lambda>(pos, st'). length pos < length src \<and> parser_step st st')"
    if p: "length p < length src" and name: "CHR ''_'' \<notin> set name" and st1: "parser_step st st1" for p name i st1
  proof -
    let ?p = "parse_space (drop 3 p) True"
    have l: "length ?p < length src" using parse_space_length [of "drop 3 p" True] p by simp
    have "runs (3 * length ?p + 2 \<le> f) (parse_alternates f ?p name i False st1) (alt_post ?p st1)"
      by (rule alternatesD [OF _ step_inv [OF st1] name]) (simp add: parser_specs)
    then show ?thesis by (rule runs_mono) (use l st1 f in \<open>auto simp: alt_post_def intro: parser_step_trans\<close>)
  qed
  show ?thesis
  proof (cases "parse_name src")
    case (Parsed a)
    obtain name p where a: "a = (name, p)" by (cases a)
    from parse_name_spec [of src name p] Parsed a have n: "length p < length src" "CHR ''_'' \<notin> set name" using word_char_no_underscore by auto
    obtain i st1 where i: "get_symbol_id name st = (i, st1)" by (cases "get_symbol_id name st")
    from new_id_step [OF disjI2 [OF i] assms(1) n(2)] have st1: "parser_step st st1" by blast
    have "length (parse_space p False) < length src" using parse_space_length [of p False] n(1) by simp
    from main [OF this n(2) st1] have m: "runs True (parse_alternates f (parse_space (drop 3 (parse_space p False)) True) name i False st1)
      (\<lambda>(pos, st'). length pos < length src \<and> parser_step st st')" .
    have sp: "length (parse_space (if peek (tl q) = LF then tl (tl q) else tl q) True) < length src" "length (parse_space (tl q) True) < length src"
      "length (parse_space q True) < length src" if "length q < length src" for q
      using that space_tl_length [of q True] space_tl_length [of "tl q" True] tl_length [of q] parse_space_length [of q True] by auto
    show ?thesis unfolding parse_rule_def Parsed a
      by (auto simp: Let_def i intro!: runs_bind [OF m] sp)
  next
    case (Thrown e)
    then show ?thesis by (simp add: parse_rule_def)
  qed simp
qed

lemma parse_rules_runs: "parser_inv st \<Longrightarrow> runs (length pos < f) (parse_rules f pos st) (\<lambda>st'. parser_step st st')"
proof (induction f arbitrary: pos st)
  case (Suc f)
  have "runs (length pos < Suc f) (parse_rules f p s) (\<lambda>st'. parser_step st st')" if "length p < length pos" "parser_step st s" for p s
    using that by (intro runs_mono [OF Suc.IH [OF step_inv [OF that(2)], of p]]) (auto intro: parser_step_trans)
  moreover have "runs (length pos < Suc f) (parse_rule (3 * length pos + 2) pos st) (\<lambda>(pos', st'). length pos' < length pos \<and> parser_step st st')"
    by (rule runs_mono [OF parse_rule_runs [OF Suc.prems order_refl]]) auto
  ultimately show ?case using Suc.prems by (auto intro!: runs_bind simp: parser_step_refl)
qed simp

lemma parser_new_inv: "parser_inv (parser_new v)"
  by (simp add: parser_inv_def parser_new_def ids_ok_def)

lemma validate_loop_runs:
  "runs True (validate_loop st rules) (\<lambda>st'. st' = st \<and> (\<forall>rule\<in>set rules. rule \<noteq> [] \<and> (\<forall>e\<in>set rule. \<not> undefined_ref st e)))"
  by (induction rules) (auto simp: runs_def)

lemma validate_runs: "runs True (validate_rules st) (\<lambda>st'. st' = st \<and> (\<forall>rule\<in>set (gp_rules st). rule \<noteq> [] \<and> (\<forall>e\<in>set rule. \<not> undefined_ref st e)))"
  unfolding validate_rules_def by (rule validate_loop_runs)

lemma parse_text_runs: "runs True (parse_text src (parser_new v)) (\<lambda>st. parser_inv st \<and> (\<forall>rule\<in>set (gp_rules st). rule \<noteq> [] \<and> (\<forall>e\<in>set rule. \<not> undefined_ref st e)))"
proof -
  let ?pos = "parse_space (takeWhile (\<lambda>c. c \<noteq> NUL) src) True"
  have r: "runs True (parse_rules (length ?pos + 1) ?pos (parser_new v)) parser_inv"
    by (rule runs_mono [OF parse_rules_runs [OF parser_new_inv]]) (auto simp: step_inv)
  have "runs True (validate_rules st) (\<lambda>st. parser_inv st \<and> (\<forall>rule\<in>set (gp_rules st). rule \<noteq> [] \<and> (\<forall>e\<in>set rule. \<not> undefined_ref st e)))" if "parser_inv st" for st
    using that validate_runs [of st] by (auto simp: runs_def)
  then show ?thesis unfolding parse_text_def Let_def by (rule runs_bind [OF r])
qed

lemma finished_rule_ok:
  assumes "finished I rule" and "rule \<noteq> []" and "\<And>e. e \<in> set rule \<Longrightarrow> ge_type e = LLAMA_GRETYPE_RULE_REF \<Longrightarrow> nat (ge_value e) \<in> I \<Longrightarrow> nat (ge_value e) < n"
  shows "rule_ok n 0 rule \<and> copy_rule rule = Some rule"
proof -
  from assms(1,2) obtain es where es: "rule = es @ [el LLAMA_GRETYPE_END 0]" "okseq es" "refs_in I es" by (auto simp: finished_def)
  from es(2) obtain q where q: "shape 0 es = Some q" by blast
  have "rule_ok n 0 (es @ [el LLAMA_GRETYPE_END 0])"
    by (rule shape_rule_ok [OF q]) (use assms(3) es in \<open>auto simp: refs_in_def\<close>)
  moreover have "\<forall>e\<in>set es. ge_type e \<noteq> LLAMA_GRETYPE_END"
    using q by (rule shape_no_end)
  then have "copy_rule (es @ [el LLAMA_GRETYPE_END 0]) = Some (es @ [el LLAMA_GRETYPE_END 0])"
    by (simp add: copy_rule_def)
  ultimately show ?thesis using es(1) by simp
qed

lemma copy_all:
  assumes "\<forall>rule\<in>set rules. copy_rule rule = Some rule"
  shows "for_each (\<lambda>rule vec. do { r \<leftarrow> copy_rule rule; Some (vec @ [r]) }) rules acc = Some (acc @ rules)"
  using assms by (induction rules arbitrary: acc) auto

lemma parsed_rules:
  assumes "parse_text src (parser_new v) = Parsed st"
  shows "grammar_ok (gp_rules st) \<and> (\<forall>rule\<in>set (gp_rules st). copy_rule rule = Some rule)"
proof -
  from parse_text_runs [of src v] assms have st: "parser_inv st" "\<forall>rule\<in>set (gp_rules st). rule \<noteq> [] \<and> (\<forall>e\<in>set rule. \<not> undefined_ref st e)"
    by (auto simp: runs_def)
  have "rule_ok (length (gp_rules st)) 0 rule \<and> copy_rule rule = Some rule" if r: "rule \<in> set (gp_rules st)" for rule
  proof (rule finished_rule_ok)
    show "finished (id_set st) rule" using st(1) r by (simp add: parser_inv_def)
    show "rule \<noteq> []" using st(2) r by blast
    show "nat (ge_value e) < length (gp_rules st)" if "e \<in> set rule" "ge_type e = LLAMA_GRETYPE_RULE_REF" "nat (ge_value e) \<in> id_set st" for e
      using st(2) r that by (fastforce simp: undefined_ref_def not_le)
  qed
  then show ?thesis by (simp add: grammar_ok_def)
qed

lemma u32_code [code]: "u32 n = nat (int n mod 4294967296)"
  by (simp add: u32_def nat_mod_as_int)

text \<open>The tables after parsing a text without a vocabulary.\<close>

definition parsed_tables :: "string \<Rightarrow> ((string \<times> nat) list \<times> llama_grammar_rules) option" where
  "parsed_tables src = (case parse_text src (parser_new None) of Parsed st \<Rightarrow> Some (gp_symbol_ids st, gp_rules st) | _ \<Rightarrow> None)"

lemma parsed_tablesD:
  assumes "parsed_tables src = Some (ids, rules)"
  obtains st where "parse_text src (parser_new None) = Parsed st" "gp_symbol_ids st = ids" "gp_rules st = rules"
  using assms by (auto simp: parsed_tables_def split: parsed.splits)

text \<open>\<open>root ::= "x" [^a-c] root?\<close>\<close>

definition ex_text :: string where
  "ex_text = ''root ::= '' @ [DQ] @ ''x'' @ [DQ] @ '' [^a-c] root?''"

lemma ex_text_tables: "parsed_tables ex_text = Some ([(''root'', 0), (''root_1'', 1)],
    [[el LLAMA_GRETYPE_CHAR 120, el LLAMA_GRETYPE_CHAR_NOT 97, el LLAMA_GRETYPE_CHAR_RNG_UPPER 99, el LLAMA_GRETYPE_RULE_REF 1, el LLAMA_GRETYPE_END 0],
     [el LLAMA_GRETYPE_RULE_REF 0, el LLAMA_GRETYPE_ALT 0, el LLAMA_GRETYPE_END 0]])"
  by code_simp

text \<open>
  C35: The parser returns on every text, with the rules or with an error: the recursion over groups and alternatives and the
  loops over items, characters and rules all end, since every item and every rule consumes a part of the text.
\<close>

theorem parse_terminates:
  "parse_text src (parser_new vocab) \<noteq> NoFuel"
  using parse_text_runs [of src vocab] by (simp add: runs_def)

text \<open>
  C9: The rules of a text that the parser accepts are well-formed: each is one list of elements with its only \<open>END\<close> at the end, every
  upper bound and alternate character follows a character class, and every reference is to a rule; the copy that
  \<open>llama_grammar_init_impl\<close> makes of them is the same.
\<close>

theorem parsed_rules_ok:
  assumes "parse_text src (parser_new vocab) = Parsed st"
  shows "grammar_ok (gp_rules st) \<and>
    for_each (\<lambda>rule vec. do { r \<leftarrow> copy_rule rule; Some (vec @ [r]) }) (gp_rules st) [] = Some (gp_rules st)"
  using parsed_rules [OF assms] copy_all [of "gp_rules st" "[]"] by simp

theorem parsed_rules_ok_witness:
  "\<exists>st. parse_text ex_text (parser_new None) = Parsed st \<and> length (gp_rules st) = 2 \<and> grammar_ok (gp_rules st)"
proof -
  obtain st where st: "parse_text ex_text (parser_new None) = Parsed st"
    "gp_rules st = [[el LLAMA_GRETYPE_CHAR 120, el LLAMA_GRETYPE_CHAR_NOT 97, el LLAMA_GRETYPE_CHAR_RNG_UPPER 99, el LLAMA_GRETYPE_RULE_REF 1,
        el LLAMA_GRETYPE_END 0], [el LLAMA_GRETYPE_RULE_REF 0, el LLAMA_GRETYPE_ALT 0, el LLAMA_GRETYPE_END 0]]"
    using parsed_tablesD [OF ex_text_tables] by blast
  with parsed_rules_ok [OF st(1)] show ?thesis by auto
qed

end
