(* ===== verification/Grammar_Repeat.thy ===== *)
theory Grammar_Repeat
  imports Grammar_Parse
begin

text \<open>
  The rules that the parser generates for \<open>*\<close>, \<open>+\<close>, \<open>?\<close> and \<open>{m,n}\<close> derive the repetitions of the item before them.
\<close>

section \<open>The language of a repetition\<close>

abbreviation copies :: "nat \<Rightarrow> gsym list \<Rightarrow> gsym list" where
  "copies k ss \<equiv> concat (replicate k ss)"

lemma takeWhile_stop:
  assumes "b = [] \<or> \<not> P (hd b)"
  shows "takeWhile P (es @ b) = takeWhile P es \<and> dropWhile P (es @ b) = dropWhile P es @ b"
proof (induction es)
  case Nil
  with assms show ?case by (cases b) auto
qed simp

lemma ex_le_Suc: "(\<exists>k\<le>Suc m. P k) \<longleftrightarrow> P 0 \<or> (\<exists>k\<le>m. P (Suc k))"
  by (metis Suc_le_mono le0 not0_implies_Suc)

lemma syms_of_append:
  assumes "\<forall>e\<in>set a. nonend e" and "b = [] \<or> \<not> cont (hd b)"
  shows "syms_of (a @ b) = syms_of a @ syms_of b"
  using assms
proof (induction a rule: syms_of.induct)
  case (2 e es)
  have ne: "nonend e" "\<forall>x\<in>set es. nonend x" using 2(4) by auto
  show ?case
  proof (cases "ge_type e = LLAMA_GRETYPE_RULE_REF \<or> is_token_element e")
    case True
    with 2 ne show ?thesis by auto
  next
    case False
    have nd: "\<forall>x\<in>set (dropWhile cont es). nonend x" using ne(2) by (auto dest: set_dropWhileD)
    have tw: "takeWhile cont (es @ b) = takeWhile cont es" "dropWhile cont (es @ b) = dropWhile cont es @ b"
      using takeWhile_stop [where P = cont, OF 2(5)] by simp_all
    from 2(3) [OF _ _ _ nd 2(5)] ne False tw show ?thesis by auto
  qed
qed simp

lemma okseq_hd: "okseq es \<Longrightarrow> es = [] \<or> \<not> cont (hd es)"
  by (cases es) (auto simp: cont_def el_state_def split: Option.bind_splits)

lemma syms_of_copies:
  assumes "okseq s" and "\<forall>e\<in>set s. nonend e"
  shows "syms_of (concat (replicate k s)) = copies k (syms_of s)"
proof (induction k)
  case (Suc k)
  have "syms_of (s @ concat (replicate k s)) = syms_of s @ syms_of (concat (replicate k s))"
    by (rule syms_of_append [OF assms(2) okseq_hd [OF okseq_replicate [OF assms(1)]]])
  with Suc show ?case by simp
qed simp

lemma rest_alts_prefix: "\<forall>e\<in>set a. nonend e \<Longrightarrow> rest_alts (a @ b) = rest_alts b"
  by (induction a) auto

text \<open>The rules that a repetition generates: \<open>S T |\<close>, where \<open>T\<close> is nothing or a reference.\<close>

definition ref_syms :: "llama_grammar_rule \<Rightarrow> nat option \<Rightarrow> gsym list" where
  "ref_syms s t = syms_of s @ (case t of None \<Rightarrow> [] | Some i \<Rightarrow> [SRef i])"

definition rec_rule :: "llama_grammar_rule \<Rightarrow> nat option \<Rightarrow> llama_grammar_rule" where
  "rec_rule s t = s @ (case t of None \<Rightarrow> [] | Some i \<Rightarrow> [el LLAMA_GRETYPE_RULE_REF (int i)]) @ [el LLAMA_GRETYPE_ALT 0, el LLAMA_GRETYPE_END 0]"

lemma alts_rec_rule:
  assumes "\<forall>e\<in>set s. nonend e"
  shows "set (alts (rec_rule s t)) = {ref_syms s t, []}"
proof -
  let ?r = "case t of None \<Rightarrow> [] | Some i \<Rightarrow> [el LLAMA_GRETYPE_RULE_REF (int i)]" and ?e = "[el LLAMA_GRETYPE_ALT 0, el LLAMA_GRETYPE_END 0]"
  have r: "\<forall>e\<in>set (s @ ?r). nonend e" using assms by (auto simp: llama_grammar_is_end_of_sequence_def split: option.splits)
  have e: "rest_alts ?e = [[]]" "syms_of ?e = []" by (simp_all add: llama_grammar_is_end_of_sequence_def)
  have "syms_of (s @ ?r @ ?e) = syms_of s @ syms_of (?r @ ?e)"
    by (rule syms_of_append [OF assms]) (auto simp: cont_def split: option.splits)
  also have "syms_of (?r @ ?e) = (case t of None \<Rightarrow> [] | Some i \<Rightarrow> [SRef i])"
    using e(2) by (auto simp: llama_grammar_is_end_of_sequence_def split: option.splits)
  finally have "alts (rec_rule s t) = [ref_syms s t, []]"
    using rest_alts_prefix [OF r, of ?e] e by (simp add: alts_def rec_rule_def ref_syms_def)
  then show ?thesis by simp
qed

text \<open>A bounded repetition adds one more optional item.\<close>

lemma yields_times_Suc: "yields rules (copies (Suc k) ss) w \<longleftrightarrow> (\<exists>u v. w = u @ v \<and> yields rules ss u \<and> yields rules (copies k ss) v)"
  by (simp add: yields_append)

lemma yields_bounded:
  assumes rule: "r < length rules" "rules ! r = rec_rule s t" and s: "\<forall>e\<in>set s. nonend e"
    and tail: "\<And>w. yields rules (case t of None \<Rightarrow> [] | Some i \<Rightarrow> [SRef i]) w \<longleftrightarrow> (\<exists>k\<le>m. yields rules (copies k (syms_of s)) w)"
  shows "yields rules [SRef r] w \<longleftrightarrow> (\<exists>k\<le>Suc m. yields rules (copies k (syms_of s)) w)"
proof -
  have "yields rules [SRef r] w \<longleftrightarrow> w = [] \<or> yields rules (ref_syms s t) w"
    using rule by (auto simp: yields_Ref_iff alts_rec_rule [OF s])
  also have "yields rules (ref_syms s t) w \<longleftrightarrow> (\<exists>k\<le>m. yields rules (copies (Suc k) (syms_of s)) w)"
    unfolding ref_syms_def yields_append tail yields_times_Suc by blast
  finally show ?thesis unfolding ex_le_Suc by simp
qed

text \<open>An unbounded one refers to itself.\<close>

lemma yields_unbounded_split:
  assumes "yields rules ss w" and "ss = a @ [SRef r]" and rule: "rules ! r = rec_rule s (Some r)" and s: "\<forall>e\<in>set s. nonend e"
  shows "\<exists>u v k. w = u @ v \<and> yields rules a u \<and> yields rules (copies k (syms_of s)) v"
  using assms(1,2)
proof (induction arbitrary: a rule: yields.induct)
  case (yields_Char cls c ss w)
  then obtain a' where a: "a = SChar cls # a'" "ss = a' @ [SRef r]" by (cases a) auto
  from yields_Char.IH [OF a(2)] obtain u v k where "w = u @ v" "yields rules a' u" "yields rules (copies k (syms_of s)) v" by blast
  with yields_Char(1) a(1) show ?case by (intro exI [of _ "c # u"] exI [of _ v]) auto
next
  case (yields_Ref q b u ss v)
  show ?case
  proof (cases a)
    case Nil
    with yields_Ref have q: "q = r" "ss = []" "v = []" by auto
    with yields_Ref(2) rule alts_rec_rule [OF s] have "b = ref_syms s (Some r) \<or> b = []" by auto
    then show ?thesis
    proof
      assume b: "b = ref_syms s (Some r)"
      with yields_Ref.IH(1) [of "syms_of s"] obtain x y k where "u = x @ y" "yields rules (syms_of s) x" "yields rules (copies k (syms_of s)) y"
        by (auto simp: ref_syms_def)
      then have "yields rules (copies (Suc k) (syms_of s)) u" unfolding yields_times_Suc by blast
      with q Nil show ?thesis by (intro exI [of _ "[]"] exI [of _ u] exI [of _ "Suc k"]) simp
    next
      assume "b = []"
      with yields_Ref(3) q Nil show ?thesis by (intro exI [of _ "[]"] exI [of _ "0::nat"]) simp
    qed
  next
    case (Cons x a')
    with yields_Ref have a: "x = SRef q" "ss = a' @ [SRef r]" by auto
    from yields_Ref.IH(2) [OF a(2)] obtain y z k where "v = y @ z" "yields rules a' y" "yields rules (copies k (syms_of s)) z" by blast
    with yields_Ref(1,2,3) Cons a(1) show ?thesis
      by (intro exI [of _ "u @ y"] exI [of _ z] exI [of _ k]) (auto intro: yields.yields_Ref)
  qed
qed simp

lemma yields_unbounded:
  assumes rule: "r < length rules" "rules ! r = rec_rule s (Some r)" and s: "\<forall>e\<in>set s. nonend e"
  shows "yields rules [SRef r] w \<longleftrightarrow> (\<exists>k. yields rules (copies k (syms_of s)) w)"
proof
  assume "yields rules [SRef r] w"
  from yields_unbounded_split [OF this _ rule(2) s, of "[]"] show "\<exists>k. yields rules (copies k (syms_of s)) w" by auto
next
  have "yields rules (copies k (syms_of s)) w \<Longrightarrow> yields rules [SRef r] w" for k
  proof (induction k arbitrary: w)
    case 0
    then show ?case using rule by (simp add: yields_Ref_iff alts_rec_rule [OF s])
  next
    case (Suc k)
    then obtain u v where "w = u @ v" "yields rules (syms_of s) u" "yields rules [SRef r] v" unfolding yields_times_Suc by blast
    then have "yields rules (ref_syms s (Some r)) w" by (auto simp: ref_syms_def yields_append)
    then show ?case using rule by (simp add: yields_Ref_iff alts_rec_rule [OF s])
  qed
  then show "\<exists>k. yields rules (copies k (syms_of s)) w \<Longrightarrow> yields rules [SRef r] w" by blast
qed

section \<open>The rules of a repetition\<close>

lemma add_rule_nth:
  "i < length (gp_rules (add_rule i rule st)) \<and> gp_rules (add_rule i rule st) ! i = rule"
  by (simp add: add_rule_def Let_def)

lemma add_rule_other:
  assumes "j \<noteq> i" and "j < length (gp_rules st)"
  shows "j < length (gp_rules (add_rule i rule st)) \<and> gp_rules (add_rule i rule st) ! j = gp_rules st ! j"
  using assms by (auto simp: add_rule_def Let_def nth_append)

lemma add_rule_ids [simp]: "gp_symbol_ids (add_rule i rule st) = gp_symbol_ids st"
  by (simp add: add_rule_def Let_def)

text \<open>One iteration: a new identifier and its rule.\<close>

definition rep_next :: "string \<Rightarrow> llama_grammar_rule \<Rightarrow> bool \<Rightarrow> bool \<Rightarrow> nat \<Rightarrow> llama_grammar_parser \<Rightarrow> llama_grammar_parser \<Rightarrow> bool" where
  "rep_next name prev first no_max l st st' \<longleftrightarrow> (\<exists>i st1. generate_symbol_id name st = (i, st1) \<and>
     st' = add_rule i (rec_rule prev (if no_max then Some i else if first then None else Some l)) st1)"

lemma rep_loop_next:
  assumes "generate_symbol_id name st = (i, st1)"
  shows "rep_loop (Suc n) first no_max name prev l st = rep_loop n False no_max name prev i
    (add_rule i (rec_rule prev (if no_max then Some i else if first then None else Some l)) st1)"
  using assms by (simp add: rec_rule_def Let_def)

lemma rep_loop_ids:
  assumes "ids_ok (gp_symbol_ids st)" and "CHR ''_'' \<notin> set name" and "rep_loop n first no_max name prev l st = (l', st')"
  shows "length (gp_symbol_ids st) \<le> length (gp_symbol_ids st') \<and> min 4294967296 (length (gp_symbol_ids st) + n) \<le> length (gp_symbol_ids st')"
  using assms
proof (induction n arbitrary: first l st)
  case (Suc n)
  obtain i st1 where g: "generate_symbol_id name st = (i, st1)" by (cases "generate_symbol_id name st")
  note rep = rep_loop_next [OF g, of n first no_max prev l]
  have "ids_ok (gp_symbol_ids st1)" using generate_spec [OF g Suc.prems(1,2)] by blast
  from Suc.IH [OF _ Suc.prems(2) Suc.prems(3) [unfolded rep]] this
  have "length (gp_symbol_ids st1) \<le> length (gp_symbol_ids st') \<and> min 4294967296 (length (gp_symbol_ids st1) + n) \<le> length (gp_symbol_ids st')" by simp
  moreover note generate_length [OF g Suc.prems(1,2)]
  ultimately show ?case by (cases "length (gp_symbol_ids st) < 4294967296") auto
qed simp

text \<open>Rules that exist already stay as they are.\<close>

lemma rep_loop_keeps:
  assumes "ids_ok (gp_symbol_ids st)" and "CHR ''_'' \<notin> set name" and "rep_loop n first no_max name prev l st = (l', st')"
    and "length (gp_symbol_ids st) + n \<le> 4294967296" and "j < length (gp_symbol_ids st)" and "j < length (gp_rules st)"
  shows "j < length (gp_rules st') \<and> gp_rules st' ! j = gp_rules st ! j"
  using assms
proof (induction n arbitrary: first l st)
  case (Suc n)
  obtain i st1 where g: "generate_symbol_id name st = (i, st1)" by (cases "generate_symbol_id name st")
  note rep = rep_loop_next [OF g, of n first no_max prev l]
  let ?st2 = "add_rule i (rec_rule prev (if no_max then Some i else if first then None else Some l)) st1"
  have ids: "ids_ok (gp_symbol_ids st1)" "gp_rules st1 = gp_rules st" using generate_spec [OF g Suc.prems(1,2)] by blast+
  have i: "i = length (gp_symbol_ids st)" "length (gp_symbol_ids st1) = Suc (length (gp_symbol_ids st))"
    using generate_length(2) [OF g Suc.prems(1,2)] Suc.prems(4) by auto
  have j: "j < length (gp_rules ?st2) \<and> gp_rules ?st2 ! j = gp_rules st1 ! j"
    using add_rule_other [of j i st1] i(1) ids(2) Suc.prems(5,6) by simp
  with Suc.IH [OF _ Suc.prems(2) Suc.prems(3) [unfolded rep]] ids i Suc.prems(4,5) show ?case by simp
qed simp

text \<open>The rules of the identifiers from \<open>lo\<close> on are those of the parser.\<close>

definition agrees :: "llama_grammar_rules \<Rightarrow> llama_grammar_parser \<Rightarrow> nat \<Rightarrow> bool" where
  "agrees rules st lo \<longleftrightarrow> (\<forall>i. lo \<le> i \<and> i < length (gp_symbol_ids st) \<longrightarrow> i < length rules \<and> rules ! i = gp_rules st ! i)"

lemma rep_loop_bounded:
  assumes "ids_ok (gp_symbol_ids st)" and "CHR ''_'' \<notin> set name" and "rep_loop n first False name prev l st = (l', st')"
    and "length (gp_symbol_ids st) + n \<le> 4294967296" and "agrees rules st' (length (gp_symbol_ids st))" and s: "\<forall>e\<in>set prev. nonend e"
    and "\<And>w. yields rules (if first then [] else [SRef l]) w \<longleftrightarrow> (\<exists>k\<le>m. yields rules (copies k (syms_of prev)) w)"
  shows "yields rules (if first \<and> n = 0 then [] else [SRef l']) w \<longleftrightarrow> (\<exists>k\<le>m + n. yields rules (copies k (syms_of prev)) w)"
  using assms(1-5,7)
proof (induction n arbitrary: first l st m)
  case (Suc n)
  obtain i st1 where g: "generate_symbol_id name st = (i, st1)" by (cases "generate_symbol_id name st")
  let ?t = "if first then None else Some l"
  let ?st2 = "add_rule i (rec_rule prev ?t) st1"
  have rep: "rep_loop n False False name prev i ?st2 = (l', st')" using Suc.prems(3) unfolding rep_loop_next [OF g] by simp
  have ids: "ids_ok (gp_symbol_ids st1)" using generate_spec [OF g Suc.prems(1,2)] by blast
  have i: "i = length (gp_symbol_ids st)" "length (gp_symbol_ids st1) = Suc (length (gp_symbol_ids st))"
    using generate_length(2) [OF g Suc.prems(1,2)] Suc.prems(4) by auto
  have k: "gp_rules st' ! i = rec_rule prev ?t"
    using rep_loop_keeps [OF _ Suc.prems(2) rep, of i] ids i Suc.prems(4) add_rule_nth [of i "rec_rule prev ?t" st1] by simp
  have "length (gp_symbol_ids ?st2) \<le> length (gp_symbol_ids st')" using rep_loop_ids [OF _ Suc.prems(2) rep] ids by simp
  then have r: "i < length rules" "rules ! i = rec_rule prev ?t" using Suc.prems(5) i k by (simp_all add: agrees_def)
  have tail: "yields rules (case ?t of None \<Rightarrow> [] | Some j \<Rightarrow> [SRef j]) w \<longleftrightarrow> (\<exists>k\<le>m. yields rules (copies k (syms_of prev)) w)" for w
    using Suc.prems(6) [of w] by (cases first) simp_all
  from Suc.IH [OF _ Suc.prems(2) rep, of "Suc m"] yields_bounded [OF r s tail] ids i Suc.prems(4,5) show ?case
    by (simp add: agrees_def)
next
  case 0
  then show ?case by (cases first) simp_all
qed

lemma rep_loop_unbounded:
  assumes "ids_ok (gp_symbol_ids st)" and "CHR ''_'' \<notin> set name" and "rep_loop 1 True True name prev l st = (l', st')"
    and "length (gp_symbol_ids st) < 4294967296" and "agrees rules st' (length (gp_symbol_ids st))" and s: "\<forall>e\<in>set prev. nonend e"
  shows "yields rules [SRef l'] w \<longleftrightarrow> (\<exists>k. yields rules (copies k (syms_of prev)) w)"
proof -
  obtain i st1 where g: "generate_symbol_id name st = (i, st1)" by (cases "generate_symbol_id name st")
  have i: "i = length (gp_symbol_ids st)" "length (gp_symbol_ids st1) = Suc (length (gp_symbol_ids st))"
    using generate_length(2) [OF g assms(1,2,4)] by auto
  from assms(3) g have l: "l' = i" "st' = add_rule i (rec_rule prev (Some i)) st1" by (auto simp: rec_rule_def Let_def)
  then have "i < length rules" "rules ! i = rec_rule prev (Some i)"
    using assms(5) i add_rule_nth [of i "rec_rule prev (Some i)" st1] by (simp_all add: agrees_def)
  from yields_unbounded [OF this s] l(1) show ?thesis by simp
qed

lemma shift_ex:
  assumes "0 \<le> (mn :: int)"
  shows "(\<exists>j. (b \<or> int j \<le> mx - mn) \<and> P (nat mn + j)) \<longleftrightarrow> (\<exists>k. mn \<le> int k \<and> (b \<or> int k \<le> mx) \<and> P k)"
proof
  assume "\<exists>j. (b \<or> int j \<le> mx - mn) \<and> P (nat mn + j)"
  then obtain j where "b \<or> int j \<le> mx - mn" "P (nat mn + j)" by blast
  with assms show "\<exists>k. mn \<le> int k \<and> (b \<or> int k \<le> mx) \<and> P k" by (intro exI [of _ "nat mn + j"]) auto
next
  assume "\<exists>k. mn \<le> int k \<and> (b \<or> int k \<le> mx) \<and> P k"
  then obtain k where "mn \<le> int k" "b \<or> int k \<le> mx" "P k" by blast
  with assms show "\<exists>j. (b \<or> int j \<le> mx - mn) \<and> P (nat mn + j)" by (intro exI [of _ "k - nat mn"]) (auto simp: of_nat_diff)
qed

lemma repetition_language:
  assumes h: "handle_repetitions mn mx name n rule st = Parsed (rule', st')" and inv: "parser_inv st" "seq_inv st rule n" "CHR ''_'' \<notin> set name"
    and prev: "\<forall>e\<in>set (drop n rule). nonend e" and b: "0 \<le> mn" "mn \<le> mx" "mx \<le> UINT64_MAX"
    and small: "length (gp_symbol_ids st) + nat (if mx = UINT64_MAX then 1 else mx - mn) \<le> 4294967296"
    and ag: "agrees rules st' (length (gp_symbol_ids st))"
  shows "\<exists>seg. rule' = take n rule @ seg \<and> (\<forall>w. yields rules (syms_of seg) w \<longleftrightarrow>
    (\<exists>k. mn \<le> int k \<and> (mx = UINT64_MAX \<or> int k \<le> mx) \<and> yields rules (copies k (syms_of (drop n rule))) w))"
proof -
  define s where "s = drop n rule"
  define N where "N = (if mx = UINT64_MAX then 1 else nat (mx - mn))"
  have N: "(if mx = UINT64_MAX then 1 else nat ((mx - mn) mod 18446744073709551616)) = N" using b by (simp add: N_def)
  have ids: "ids_ok (gp_symbol_ids st)" using inv(1) by (simp add: parser_inv_def)
  have s: "okseq s" "\<forall>e\<in>set s. nonend e" using inv(2) prev by (auto simp: s_def seq_inv_def)
  obtain l st1 where r: "rep_loop N True (mx = UINT64_MAX) name s 0 st = (l, st1)" by (cases "rep_loop N True (mx = UINT64_MAX) name s 0 st")
  let ?tl = "if N > 0 then [el LLAMA_GRETYPE_RULE_REF (int l)] else []"
  have res: "st' = st1" "rule' = (if mn = 0 then take n rule else rule @ concat (replicate (nat (mn - 1)) s)) @ ?tl"
    using h r unfolding handle_repetitions_def Let_def N s_def [symmetric] by (auto split: if_splits)
  have rule': "rule' = take n rule @ concat (replicate (nat mn) s) @ ?tl"
  proof (cases "mn = 0")
    case False
    with b(1) have m: "nat mn = Suc (nat (mn - 1))" by simp
    have "rule @ x = take n rule @ s @ x" for x by (simp add: s_def flip: append_assoc)
    with False show ?thesis unfolding res(2) m by simp
  qed (use res(2) in simp)
  have "syms_of (concat (replicate (nat mn) s) @ ?tl) = copies (nat mn) (syms_of s) @ syms_of ?tl"
    using s by (subst syms_of_append) (auto simp: cont_def syms_of_copies)
  moreover have "syms_of ?tl = (if N = 0 then [] else [SRef l])" by (simp add: llama_grammar_is_end_of_sequence_def)
  ultimately have lang: "yields rules (syms_of (concat (replicate (nat mn) s) @ ?tl)) w \<longleftrightarrow>
    (\<exists>u v. w = u @ v \<and> yields rules (copies (nat mn) (syms_of s)) u \<and> yields rules (if N = 0 then [] else [SRef l]) v)" for w
    by (simp add: yields_append)
  have opt: "yields rules (if N = 0 then [] else [SRef l]) v \<longleftrightarrow> (\<exists>j. (mx = UINT64_MAX \<or> int j \<le> mx - mn) \<and> yields rules (copies j (syms_of s)) v)" for v
  proof (cases "mx = UINT64_MAX")
    case True
    with rep_loop_unbounded [OF ids inv(3) _ _ _ s(2), of 0 l st1] r small ag res(1) show ?thesis by (simp add: N_def)
  next
    case False
    with rep_loop_bounded [OF ids inv(3) _ _ _ s(2), of N True 0 l st1 rules 0 v] r small ag res(1) b show ?thesis
      by (simp add: N_def le_nat_iff)
  qed
  have "yields rules (syms_of (concat (replicate (nat mn) s) @ ?tl)) w \<longleftrightarrow>
      (\<exists>k. mn \<le> int k \<and> (mx = UINT64_MAX \<or> int k \<le> mx) \<and> yields rules (copies k (syms_of s)) w)" for w
  proof -
    have "yields rules (syms_of (concat (replicate (nat mn) s) @ ?tl)) w \<longleftrightarrow>
      (\<exists>j. (mx = UINT64_MAX \<or> int j \<le> mx - mn) \<and> yields rules (copies (nat mn + j) (syms_of s)) w)"
      unfolding lang opt replicate_add concat_append yields_append by blast
    also have "\<dots> \<longleftrightarrow> (\<exists>k. mn \<le> int k \<and> (mx = UINT64_MAX \<or> int k \<le> mx) \<and> yields rules (copies k (syms_of s)) w)"
      by (rule shift_ex [OF b(1)])
    finally show ?thesis .
  qed
  with rule' show ?thesis unfolding s_def by blast
qed

text \<open>
  C10: A repetition of the item from \<open>last_sym_start\<close> on with bounds \<open>min_times\<close> and \<open>max_times\<close> (or none) replaces the item by elements
  that derive exactly the texts of \<open>k\<close> copies of it, \<open>min_times \<le> k \<le> max_times\<close>, in every grammar that contains the rules
  generated for it; what is before the item stays.
\<close>

theorem repetition_correct:
  assumes "handle_repetitions min_times max_times rule_name last_sym_start rule st = Parsed (rule', st')"
    and "parser_inv st" and "seq_inv st rule last_sym_start" and "CHR ''_'' \<notin> set rule_name"
    and "\<forall>e\<in>set (drop last_sym_start rule). nonend e" and "0 \<le> min_times" and "min_times \<le> max_times" and "max_times \<le> UINT64_MAX"
    and "length (gp_symbol_ids st) + nat (if max_times = UINT64_MAX then 1 else max_times - min_times) \<le> 4294967296"
    and "agrees rules st' (length (gp_symbol_ids st))"
  shows "\<exists>seg. rule' = take last_sym_start rule @ seg \<and> (\<forall>w. yields rules (syms_of seg) w \<longleftrightarrow>
    (\<exists>k. min_times \<le> int k \<and> (max_times = UINT64_MAX \<or> int k \<le> max_times) \<and>
       yields rules (concat (replicate k (syms_of (drop last_sym_start rule)))) w))"
  by (rule repetition_language [OF assms])

text \<open>\<open>a{1,2}\<close>\<close>

theorem repetition_correct_witness:
  "\<exists>rule' st'. handle_repetitions 1 2 ''r'' 0 [el LLAMA_GRETYPE_CHAR 97] (parser_new None) = Parsed (rule', st') \<and>
     (\<forall>w. yields (gp_rules st') (syms_of rule') w \<longleftrightarrow> (\<exists>k. 1 \<le> int k \<and> int k \<le> 2 \<and>
       yields (gp_rules st') (concat (replicate k (syms_of [el LLAMA_GRETYPE_CHAR 97]))) w))"
proof -
  let ?rule = "[el LLAMA_GRETYPE_CHAR 97]" and ?st = "parser_new None"
  obtain rule' st' where h: "handle_repetitions 1 2 ''r'' 0 ?rule ?st = Parsed (rule', st')"
    by (cases "generate_symbol_id ''r'' ?st") (auto simp: handle_repetitions_def Let_def)
  then have st': "gp_symbol_ids st' = [(''r_'' @ to_string 0, 0)]" "gp_rules st' = [rec_rule ?rule None]"
    by (auto simp: handle_repetitions_def Let_def parser_new_def generate_symbol_id_def add_rule_def rec_rule_def)
  have "seq_inv ?st ?rule 0" "CHR ''_'' \<notin> set ''r''" "\<forall>e\<in>set (drop 0 ?rule). nonend e"
    by (auto simp: seq_inv_def el_state_def llama_grammar_is_end_of_sequence_def)
  moreover have "agrees (gp_rules st') st' (length (gp_symbol_ids ?st))" by (simp add: agrees_def st')
  ultimately have "\<exists>seg. rule' = take 0 ?rule @ seg \<and> (\<forall>w. yields (gp_rules st') (syms_of seg) w \<longleftrightarrow>
    (\<exists>k. 1 \<le> int k \<and> ((2 :: int) = UINT64_MAX \<or> int k \<le> 2) \<and> yields (gp_rules st') (concat (replicate k (syms_of (drop 0 ?rule)))) w))"
    by (intro repetition_correct [OF h parser_new_inv]) (simp_all add: parser_new_def)
  with h show ?thesis by auto
qed



end
