(* ===== verification/Grammar_Text.thy ===== *)
theory Grammar_Text
  imports Grammar_Apply Grammar_Parse
begin

text \<open>
  The constructor of a grammar from its text: the second \<open>llama_grammar_init_impl\<close> of \<open>src/src/llama-grammar.cpp\<close>, which composes the
  parser, the check for left recursion and the initial stacks.
\<close>

section \<open>The constructor\<close>

text \<open>
  It returns a grammar or the null pointer; \<open>Init_throws\<close> is the exception of \<open>symbol_ids.at\<close>, and \<open>Init_undefined\<close> an access
  outside the rules or a recursion without end.
\<close>

datatype init_result = Init llama_grammar | Init_null | Init_throws | Init_undefined

text \<open>
  The vocabulary enters as \<open>tokenize\<close> for the parser.  \<open>trigger_patterns\<close> are the compiled patterns.
\<close>

definition llama_grammar_init_text :: "tokenize_fn \<Rightarrow> llama_vocab option \<Rightarrow> string \<Rightarrow> string \<Rightarrow> bool \<Rightarrow>
    llama_grammar_trigger_pattern list \<Rightarrow> llama_token list \<Rightarrow> init_result" where
  "llama_grammar_init_text tokenize vocab grammar_str grammar_root lazy trigger_patterns trigger_tokens =
     (case parse_text grammar_str (parser_new (map_option (\<lambda>_. tokenize) vocab)) of
        NoFuel \<Rightarrow> Init_undefined
      | Thrown _ \<Rightarrow> Init_null
      | Parsed parser \<Rightarrow>
          if gp_rules parser = [] then Init_null
          else if map_of (gp_symbol_ids parser) ''root'' = None then Init_null
          else case map_of (gp_symbol_ids parser) grammar_root of
            None \<Rightarrow> Init_throws
          | Some start_rule_index \<Rightarrow>
              case for_each (\<lambda>rule vec. do { r \<leftarrow> copy_rule rule; Some (vec @ [r]) }) (gp_rules parser) [] of
                None \<Rightarrow> Init_undefined
              | Some vec_rules \<Rightarrow>
                  case check_left_recursion vec_rules of
                    None \<Rightarrow> Init_undefined
                  | Some True \<Rightarrow> Init_null
                  | Some False \<Rightarrow>
                      case initial_stacks vec_rules start_rule_index of
                        None \<Rightarrow> Init_undefined
                      | Some stacks \<Rightarrow>
                          Init \<lparr>g_vocab = vocab, g_rules = vec_rules, g_stacks = stacks, g_partial_utf8 = \<lparr>pu_value = 0, pu_n_remain = 0\<rparr>,
                            g_lazy = lazy, g_awaiting_trigger = lazy, g_trigger_buffer = [], g_trigger_buffer_positions = [],
                            g_trigger_tokens = trigger_tokens, g_trigger_patterns = trigger_patterns\<rparr>)"

section \<open>Correctness\<close>

lemma init_text_eval:
  assumes "parse_text grammar_str (parser_new (map_option (\<lambda>_. tokenize) vocab)) = Parsed parser"
    and "map_of (gp_symbol_ids parser) ''root'' \<noteq> None" and "map_of (gp_symbol_ids parser) grammar_root = Some i" and "gp_rules parser \<noteq> []"
    and "check_left_recursion (gp_rules parser) = Some lr"
  shows "llama_grammar_init_text tokenize vocab grammar_str grammar_root lazy pats toks =
    (if lr then Init_null else case initial_stacks (gp_rules parser) i of None \<Rightarrow> Init_undefined
     | Some stacks \<Rightarrow> Init \<lparr>g_vocab = vocab, g_rules = gp_rules parser, g_stacks = stacks, g_partial_utf8 = \<lparr>pu_value = 0, pu_n_remain = 0\<rparr>,
         g_lazy = lazy, g_awaiting_trigger = lazy, g_trigger_buffer = [], g_trigger_buffer_positions = [],
         g_trigger_tokens = toks, g_trigger_patterns = pats\<rparr>)"
proof -
  have "for_each (\<lambda>rule vec. do { r \<leftarrow> copy_rule rule; Some (vec @ [r]) }) (gp_rules parser) [] = Some (gp_rules parser)"
    using parsed_rules [OF assms(1)] copy_all [of "gp_rules parser" "[]"] by simp
  with assms show ?thesis by (auto simp: llama_grammar_init_text_def split: bool.splits)
qed


text \<open>\<open>root ::= "x"\<close>\<close>

definition x_text :: string where
  "x_text = ''root ::= '' @ [DQ] @ ''x'' @ [DQ]"

definition x_rules :: llama_grammar_rules where
  "x_rules = [[el LLAMA_GRETYPE_CHAR 120, el LLAMA_GRETYPE_END 0]]"

lemma x_text_tables: "parsed_tables x_text = Some ([(''root'', 0)], x_rules)"
  by code_simp

lemma x_rules_direct: "empty_rules_direct x_rules"
proof -
  have "alts (x_rules ! 0) = [[SChar [el LLAMA_GRETYPE_CHAR 120]]]" by code_simp
  then have "\<not> yields x_rules [SRef 0] []" unfolding yields_Ref_iff [of _ 0 "[]" "[]"] by simp
  then show ?thesis by (auto simp: empty_rules_direct_def x_rules_def)
qed


text \<open>\<open>a ::= root\<close> and then \<open>a ::= "x"\<close>: the only reference to \<open>root\<close> is overwritten.\<close>

definition overwritten_text :: string where
  "overwritten_text = ''a ::= root'' @ [LF] @ ''a ::= '' @ [DQ] @ ''x'' @ [DQ]"

lemma overwritten_tables: "parsed_tables overwritten_text = Some ([(''a'', 0), (''root'', 1)], [[el LLAMA_GRETYPE_CHAR 120, el LLAMA_GRETYPE_END 0]])"
  by code_simp


end
