(* ===== verification/KV_State.thy ===== *)
theory KV_State
  imports KV_Prepare
begin

text \<open>
  Saving and restoring the cache: \<open>state_write\<close> and \<open>state_read\<close> of \<open>src/src/llama-kv-cache.cpp\<close>, with the memory reader of
  \<open>src/src/llama-context.cpp\<close>.

  A saved state is a list of bytes.  Numbers are stored in little-endian order, as on the supported hosts.  The tensors are their
  bytes; \<open>None\<close> is an assertion, an access out of bounds, or an exception of the reader.
\<close>

section \<open>Bytes\<close>

type_synonym bytes = "int list"

fun le_bytes :: "nat \<Rightarrow> int \<Rightarrow> bytes" where
  "le_bytes 0 v = []"
| "le_bytes (Suc n) v = (v mod 256) # le_bytes n (v div 256)"

fun le_value :: "bytes \<Rightarrow> int" where
  "le_value [] = 0"
| "le_value (b # bs) = b + 256 * le_value bs"

definition io_read :: "nat \<Rightarrow> bytes \<Rightarrow> (bytes \<times> bytes) option" where
  "io_read n io = (if n > length io then None else Some (take n io, drop n io))"

definition read_u :: "nat \<Rightarrow> bytes \<Rightarrow> (nat \<times> bytes) option" where
  "read_u n io = do { (bs, io) \<leftarrow> io_read n io; Some (nat (le_value bs), io) }"

definition read_i32 :: "bytes \<Rightarrow> (int \<times> bytes) option" where
  "read_i32 io = do {
     (bs, io) \<leftarrow> io_read 4 io;
     let v = le_value bs;
     Some (if v \<ge> 2147483648 then v - 4294967296 else v, io) }"

section \<open>Tensors\<close>

record kv_tensor =
  t_type :: int
  t_data :: bytes

definition tensor_get :: "kv_tensor \<Rightarrow> nat \<Rightarrow> nat \<Rightarrow> bytes option" where
  "tensor_get t offset n =
     (if n = 0 then Some []
      else do { ggml_assert (offset + n \<le> length (t_data t)); Some (take n (drop offset (t_data t))) })"

definition tensor_set :: "bytes \<Rightarrow> nat \<Rightarrow> kv_tensor \<Rightarrow> kv_tensor option" where
  "tensor_set data offset t =
     (if data = [] then Some t
      else do {
        ggml_assert (offset + length data \<le> length (t_data t));
        Some (t\<lparr>t_data := take offset (t_data t) @ data @ drop (offset + length data) (t_data t)\<rparr>) })"

text \<open>The table of type sizes is an argument.\<close>

record ggml_type_traits =
  tt_blck_size :: "int \<Rightarrow> nat"
  tt_type_size :: "int \<Rightarrow> nat"

definition ggml_row_size :: "ggml_type_traits \<Rightarrow> int \<Rightarrow> nat \<Rightarrow> nat" where
  "ggml_row_size tt ty ne = tt_type_size tt ty * ne div tt_blck_size tt ty"

text \<open>The tensors of every layer and stream: \<open>k_stream\<close> and \<open>v_stream\<close>.\<close>

record kv_bufs =
  kb_k :: "kv_tensor list list"
  kb_v :: "kv_tensor option list list"

definition at2 :: "'a list list \<Rightarrow> nat \<Rightarrow> nat \<Rightarrow> 'a option" where
  "at2 xss i j = do { xs \<leftarrow> at xss i; at xs j }"

definition set2 :: "'a list list \<Rightarrow> nat \<Rightarrow> nat \<Rightarrow> 'a \<Rightarrow> 'a list list" where
  "set2 xss i j x = xss[i := (xss ! i)[j := x]]"

definition zero_tensor :: "kv_tensor \<Rightarrow> kv_tensor" where
  "zero_tensor t = t\<lparr>t_data := replicate (length (t_data t)) 0\<rparr>"

definition bufs_clear :: "kv_bufs \<Rightarrow> kv_bufs" where
  "bufs_clear b = \<lparr>kb_k = map (map zero_tensor) (kb_k b), kb_v = map (map (map_option zero_tensor)) (kb_v b)\<rparr>"

section \<open>Writing\<close>

type_synonym cell_ranges = "(nat \<times> nat) list"

text \<open>The loop over the cells: the count, the start of the open range (the size if there is none) and the ranges.\<close>

definition range_step :: "llama_seq_id \<Rightarrow> llama_kv_cells \<Rightarrow> nat \<Rightarrow> nat \<times> nat \<times> cell_ranges \<Rightarrow> (nat \<times> nat \<times> cell_ranges) option" where
  "range_step seq_id cells i = (\<lambda>(cell_count, cell_range_begin, data). do {
     e \<leftarrow> kc_is_empty i cells;
     h \<leftarrow> (if e then Some False else if seq_id = - 1 then Some True else kc_seq_has i seq_id cells);
     Some (if h then (cell_count + 1, if cell_range_begin = kc_size cells then i else cell_range_begin, data)
           else if cell_range_begin \<noteq> kc_size cells then (cell_count, kc_size cells, data @ [(cell_range_begin, i)])
           else (cell_count, cell_range_begin, data)) })"

definition write_ranges :: "llama_seq_id \<Rightarrow> llama_kv_cells \<Rightarrow> (nat \<times> cell_ranges) option" where
  "write_ranges seq_id cells = do {
     (cell_count, cell_range_begin, data) \<leftarrow> for_each (range_step seq_id cells) [0..<kc_size cells] (0, kc_size cells, []);
     let data = (if cell_range_begin \<noteq> kc_size cells then data @ [(cell_range_begin, kc_size cells)] else data);
     ggml_assert (cell_count = sum_list (map (\<lambda>(a, b). b - a) data));
     Some (cell_count, data) }"

definition range_cells :: "cell_ranges \<Rightarrow> nat list" where
  "range_cells cr = concat (map (\<lambda>(a, b). [a..<b]) cr)"

definition write_cell :: "llama_kv_cache \<Rightarrow> llama_kv_cells \<Rightarrow> llama_seq_id \<Rightarrow> nat \<Rightarrow> bytes \<Rightarrow> bytes option" where
  "write_cell kv cells seq_id i io = do {
     seq_ids \<leftarrow> for_each (\<lambda>cur ids. if cur = seq_id \<or> seq_id = - 1
        then do { h \<leftarrow> kc_seq_has i cur cells; Some (if h then ids @ [cur] else ids) } else Some ids)
        (map int [0..<kv_n_seq_max kv]) [];
     pos \<leftarrow> kc_pos_get i cells;
     Some (io @ le_bytes 4 pos @ le_bytes 4 (int (length seq_ids)) @ concat (map (le_bytes 4) seq_ids)) }"

definition state_write_meta :: "llama_kv_cache \<Rightarrow> llama_kv_cells \<Rightarrow> cell_ranges \<Rightarrow> llama_seq_id \<Rightarrow> bytes option" where
  "state_write_meta kv cells cr seq_id = for_each (write_cell kv cells seq_id) (range_cells cr) []"

text \<open>The rows of the cells of a tensor, one row for each cell.\<close>

definition write_rows :: "ggml_type_traits \<Rightarrow> nat \<Rightarrow> cell_ranges \<Rightarrow> kv_tensor \<Rightarrow> bytes option" where
  "write_rows tt n_embd cr t = do {
     let size_row = ggml_row_size tt (t_type t) n_embd;
     rows \<leftarrow> for_each (\<lambda>(a, b) io. do { d \<leftarrow> tensor_get t (a * size_row) ((b - a) * size_row); Some (io @ d) }) cr [];
     Some (le_bytes 4 (t_type t) @ le_bytes 8 (int size_row) @ rows) }"

text \<open>The same for a transposed tensor: row \<open>j\<close> holds element \<open>j\<close> of every cell.  The offset is computed in 32 bits.\<close>

definition write_trans_row :: "nat \<Rightarrow> nat \<Rightarrow> cell_ranges \<Rightarrow> kv_tensor \<Rightarrow> nat \<Rightarrow> bytes \<Rightarrow> bytes option" where
  "write_trans_row kv_size size_el cr t j io =
     for_each (\<lambda>(a, b) io. do {
       d \<leftarrow> tensor_get t (u32 (u32 (a + u32 (j * kv_size)) * size_el)) ((b - a) * size_el);
       Some (io @ d) }) cr io"

definition write_trans :: "ggml_type_traits \<Rightarrow> nat \<Rightarrow> nat \<Rightarrow> cell_ranges \<Rightarrow> kv_tensor \<Rightarrow> bytes option" where
  "write_trans tt kv_size n_embd cr t = do {
     let size_el = u32 (tt_type_size tt (t_type t));
     rows \<leftarrow> for_each (write_trans_row kv_size size_el cr t) [0..<n_embd] [];
     Some (le_bytes 4 (t_type t) @ le_bytes 4 (int size_el) @ le_bytes 4 (int n_embd) @ rows) }"

definition state_write_data :: "ggml_type_traits \<Rightarrow> llama_kv_cache \<Rightarrow> kv_bufs \<Rightarrow> nat \<Rightarrow> cell_ranges \<Rightarrow> bytes option" where
  "state_write_data tt kv b strm cr = do {
     cells \<leftarrow> at (kv_v_cells kv) strm;
     ks \<leftarrow> for_each (\<lambda>l io. do {
        ly \<leftarrow> at (kv_layers kv) l;
        n_embd \<leftarrow> n_embd_k_gqa (kl_il ly) (kv_hparams kv);
        k \<leftarrow> at2 (kb_k b) l strm;
        d \<leftarrow> write_rows tt n_embd cr k;
        Some (io @ d) }) [0..<length (kv_layers kv)] [];
     vs \<leftarrow> for_each (\<lambda>l io. do {
        ly \<leftarrow> at (kv_layers kv) l;
        n_embd \<leftarrow> n_embd_v_gqa (kl_il ly) (kv_hparams kv);
        v \<leftarrow> at2 (kb_v b) l strm;
        case v of None \<Rightarrow> Some io
        | Some t \<Rightarrow> do {
            d \<leftarrow> (if kv_v_trans kv then write_trans tt (kc_size cells) n_embd cr t else write_rows tt n_embd cr t);
            Some (io @ d) } }) [0..<length (kv_layers kv)] [];
     Some (le_bytes 4 (if kv_v_trans kv then 1 else 0) @ le_bytes 4 (int (length (kv_layers kv))) @ ks @ vs) }"

definition write_stream :: "ggml_type_traits \<Rightarrow> llama_kv_cache \<Rightarrow> kv_bufs \<Rightarrow> llama_seq_id \<Rightarrow> nat \<Rightarrow> bytes \<Rightarrow> bytes option" where
  "write_stream tt kv b seq_id s io = do {
     cells \<leftarrow> at (kv_v_cells kv) s;
     (cell_count, cr) \<leftarrow> write_ranges seq_id cells;
     let io = io @ le_bytes 4 (int cell_count);
     if cell_count = 0 then Some io
     else do {
       meta \<leftarrow> state_write_meta kv cells cr seq_id;
       data \<leftarrow> state_write_data tt kv b s cr;
       Some (io @ meta @ data) } }"

definition state_write :: "ggml_type_traits \<Rightarrow> llama_kv_cache \<Rightarrow> kv_bufs \<Rightarrow> llama_seq_id \<Rightarrow> bytes option" where
  "state_write tt kv b seq_id =
     for_each (write_stream tt kv b seq_id) [0..<kv_n_stream kv] (le_bytes 4 (int (kv_n_stream kv)))"

section \<open>Reading\<close>

text \<open>The branch for one sequence: the ubatch with the positions of its cells, \<open>None\<close> inside for an invalid cell.\<close>

definition read_seq_cell :: "llama_seq_id \<Rightarrow> nat \<Rightarrow> (llama_ubatch option \<times> bytes) \<Rightarrow> (llama_ubatch option \<times> bytes) option" where
  "read_seq_cell dest_seq_id i = (\<lambda>(ub, io).
     case ub of None \<Rightarrow> Some (None, io)
     | Some ub \<Rightarrow> do {
         (pos, io) \<leftarrow> read_i32 io;
         (n_seq_id, io) \<leftarrow> read_u 4 io;
         if n_seq_id \<noteq> 1 then Some (None, io)
         else do {
           (_, io) \<leftarrow> read_i32 io;
           ggml_assert (i < length (ub_pos ub) \<and> i < length (ub_n_seq_id ub) \<and> i < length (ub_seq_id ub));
           Some (Some (ub\<lparr>ub_pos := (ub_pos ub)[i := pos], ub_n_seq_id := (ub_n_seq_id ub)[i := 1],
                    ub_seq_id := (ub_seq_id ub)[i := [dest_seq_id]]\<rparr>), io) } })"

definition check_restored :: "llama_kv_cache \<Rightarrow> nat \<Rightarrow> slot_info \<Rightarrow> llama_ubatch \<Rightarrow> llama_seq_id \<Rightarrow> nat \<Rightarrow> unit \<Rightarrow> unit option" where
  "check_restored kv strm si ub dest_seq_id i _ = do {
     cells \<leftarrow> at (kv_v_cells kv) strm;
     idxs \<leftarrow> at (si_idxs si) 0;
     idx \<leftarrow> at idxs i;
     p \<leftarrow> kc_pos_get idx cells;
     q \<leftarrow> at (ub_pos ub) i;
     ggml_assert (p = q);
     h \<leftarrow> kc_seq_has idx dest_seq_id cells;
     ggml_assert h }"

definition read_meta_seq :: "nat \<Rightarrow> nat \<Rightarrow> llama_seq_id \<Rightarrow> llama_kv_cache \<Rightarrow> bytes \<Rightarrow>
    (bool \<times> slot_info \<times> llama_kv_cache \<times> bytes) option" where
  "read_meta_seq strm cell_count dest_seq_id kv io = do {
     (_, kv) \<leftarrow> kv_seq_rm dest_seq_id (- 1) (- 1) kv;
     (ub, _) \<leftarrow> ubatch_reserve cell_count 1 (batch_allocr_new (n_pos_per_embd (kv_hparams kv)));
     let ub = ub\<lparr>ub_seq_id_unq := (ub_seq_id_unq ub)[0 := dest_seq_id]\<rparr>;
     (r, io) \<leftarrow> for_each (read_seq_cell dest_seq_id) [0..<cell_count] (Some ub, io);
     case r of None \<Rightarrow> Some (False, si_none, kv, io)
     | Some ub \<Rightarrow> do {
         si \<leftarrow> find_slot kv ub False;
         if si_empty si then Some (False, si, kv, io)
         else do {
           kv \<leftarrow> apply_ubatch si ub kv;
           ggml_assert (si_n_stream si = 1);
           ggml_assert (length (si_idxs si ! 0) = cell_count);
           _ \<leftarrow> for_each (check_restored kv strm si ub dest_seq_id) [0..<cell_count] ();
           Some (True, si, kv, io) } } }"

text \<open>The branch for the whole cache; \<open>False\<close> for a sequence that is out of range.\<close>

definition read_seq_ids :: "llama_kv_cache \<Rightarrow> nat \<Rightarrow> nat \<Rightarrow> (bool \<times> llama_kv_cells \<times> bytes) \<Rightarrow> (bool \<times> llama_kv_cells \<times> bytes) option" where
  "read_seq_ids kv i j = (\<lambda>(ok, cells, io).
     if \<not> ok then Some (False, cells, io)
     else do {
       (seq_id, io) \<leftarrow> read_i32 io;
       if seq_id < 0 \<or> seq_id \<ge> int (kv_n_seq_max kv) then Some (False, cells, io)
       else do { cells \<leftarrow> kc_seq_add i seq_id cells; Some (True, cells, io) } })"

definition read_cell :: "llama_kv_cache \<Rightarrow> nat \<Rightarrow> (bool \<times> llama_kv_cells \<times> bytes) \<Rightarrow> (bool \<times> llama_kv_cells \<times> bytes) option" where
  "read_cell kv i = (\<lambda>(ok, cells, io).
     if \<not> ok then Some (False, cells, io)
     else do {
       (pos, io) \<leftarrow> read_i32 io;
       (n_seq_id, io) \<leftarrow> read_u 4 io;
       cells \<leftarrow> kc_pos_set i pos cells;
       for_each (read_seq_ids kv i) [0..<n_seq_id] (True, cells, io) })"

definition read_meta_all :: "nat \<Rightarrow> nat \<Rightarrow> llama_kv_cache \<Rightarrow> kv_bufs \<Rightarrow> bytes \<Rightarrow>
    (bool \<times> slot_info \<times> llama_kv_cache \<times> kv_bufs \<times> bytes) option" where
  "read_meta_all strm cell_count kv b io = do {
     cells \<leftarrow> at (kv_v_cells kv) strm;
     if cell_count > kc_size cells then Some (False, si_none, kv, b, io)
     else do {
       kv \<leftarrow> kv_clear kv;
       cells \<leftarrow> at (kv_v_cells kv) strm;
       (ok, cells, io) \<leftarrow> for_each (read_cell kv) [0..<cell_count] (True, cells, io);
       let kv = kv\<lparr>kv_v_cells := (kv_v_cells kv)[strm := cells]\<rparr>;
       if \<not> ok then Some (False, si_none, kv, bufs_clear b, io)
       else Some (True, \<lparr>si_s0 = strm, si_s1 = strm, si_strm = [strm], si_idxs = [[0..<cell_count]]\<rparr>,
              kv\<lparr>kv_v_heads := (kv_v_heads kv)[strm := 0]\<rparr>, bufs_clear b, io) } }"

definition state_read_meta :: "nat \<Rightarrow> nat \<Rightarrow> llama_seq_id \<Rightarrow> llama_kv_cache \<Rightarrow> kv_bufs \<Rightarrow> bytes \<Rightarrow>
    (bool \<times> slot_info \<times> llama_kv_cache \<times> kv_bufs \<times> bytes) option" where
  "state_read_meta strm cell_count dest_seq_id kv b io =
     (if dest_seq_id \<noteq> - 1 then do {
        (ok, si, kv, io) \<leftarrow> read_meta_seq strm cell_count dest_seq_id kv io;
        Some (ok, si, kv, b, io) }
      else read_meta_all strm cell_count kv b io)"

text \<open>The rows of a tensor; \<open>False\<close> for a different type or size.\<close>

definition scatter :: "slot_info \<Rightarrow> nat \<Rightarrow> nat \<Rightarrow> nat \<Rightarrow> bytes \<Rightarrow> kv_tensor \<Rightarrow> kv_tensor option" where
  "scatter si cell_count base sz src t =
     for_each (\<lambda>i t. do {
       idxs \<leftarrow> at (si_idxs si) 0;
       idx \<leftarrow> at idxs i;
       tensor_set (take sz (drop (i * sz) src)) (u32 (idx + base) * sz) t }) [0..<cell_count] t"

definition read_rows :: "ggml_type_traits \<Rightarrow> nat \<Rightarrow> nat \<Rightarrow> slot_info \<Rightarrow> kv_tensor \<Rightarrow> bytes \<Rightarrow> (bool \<times> kv_tensor \<times> bytes) option" where
  "read_rows tt n_embd cell_count si t io = do {
     (type_ref, io) \<leftarrow> read_i32 io;
     if t_type t \<noteq> type_ref then Some (False, t, io)
     else do {
       (size_row_ref, io) \<leftarrow> read_u 8 io;
       let size_row = ggml_row_size tt (t_type t) n_embd;
       if size_row \<noteq> size_row_ref then Some (False, t, io)
       else if cell_count = 0 then Some (True, t, io)
       else do {
         (src, io) \<leftarrow> io_read (cell_count * size_row) io;
         t \<leftarrow> (if si_is_contiguous si then do { h \<leftarrow> si_head si; tensor_set src (h * size_row) t }
               else scatter si cell_count 0 size_row src t);
         Some (True, t, io) } } }"

definition read_trans_row :: "nat \<Rightarrow> nat \<Rightarrow> nat \<Rightarrow> slot_info \<Rightarrow> nat \<Rightarrow> kv_tensor \<times> bytes \<Rightarrow> (kv_tensor \<times> bytes) option" where
  "read_trans_row kv_size size_el cell_count si j = (\<lambda>(t, io). do {
     (src, io) \<leftarrow> io_read (cell_count * size_el) io;
     t \<leftarrow> (if si_is_contiguous si then do { h \<leftarrow> si_head si; tensor_set src (u32 (h + u32 (j * kv_size)) * size_el) t }
           else scatter si cell_count (u32 (j * kv_size)) size_el src t);
     Some (t, io) })"

definition read_trans :: "ggml_type_traits \<Rightarrow> nat \<Rightarrow> nat \<Rightarrow> nat \<Rightarrow> slot_info \<Rightarrow> kv_tensor \<Rightarrow> bytes \<Rightarrow>
    (bool \<times> kv_tensor \<times> bytes) option" where
  "read_trans tt kv_size n_embd cell_count si t io = do {
     (type_ref, io) \<leftarrow> read_i32 io;
     if t_type t \<noteq> type_ref then Some (False, t, io)
     else do {
       (size_el_ref, io) \<leftarrow> read_u 4 io;
       let size_el = tt_type_size tt (t_type t);
       if size_el \<noteq> size_el_ref then Some (False, t, io)
       else do {
         (n_embd_ref, io) \<leftarrow> read_u 4 io;
         if n_embd \<noteq> n_embd_ref then Some (False, t, io)
         else if cell_count = 0 then Some (True, t, io)
         else do {
           (t, io) \<leftarrow> for_each (read_trans_row kv_size size_el cell_count si) [0..<n_embd] (t, io);
           Some (True, t, io) } } } }"

definition read_layer_k :: "ggml_type_traits \<Rightarrow> llama_kv_cache \<Rightarrow> nat \<Rightarrow> nat \<Rightarrow> slot_info \<Rightarrow> nat \<Rightarrow>
    bool \<times> kv_bufs \<times> bytes \<Rightarrow> (bool \<times> kv_bufs \<times> bytes) option" where
  "read_layer_k tt kv strm cell_count si l = (\<lambda>(ok, b, io).
     if \<not> ok then Some (False, b, io)
     else do {
       ly \<leftarrow> at (kv_layers kv) l;
       n_embd \<leftarrow> n_embd_k_gqa (kl_il ly) (kv_hparams kv);
       k \<leftarrow> at2 (kb_k b) l strm;
       (ok, k, io) \<leftarrow> read_rows tt n_embd cell_count si k io;
       Some (ok, b\<lparr>kb_k := set2 (kb_k b) l strm k\<rparr>, io) })"

definition read_layer_v :: "ggml_type_traits \<Rightarrow> llama_kv_cache \<Rightarrow> nat \<Rightarrow> nat \<Rightarrow> slot_info \<Rightarrow> nat \<Rightarrow>
    bool \<times> kv_bufs \<times> bytes \<Rightarrow> (bool \<times> kv_bufs \<times> bytes) option" where
  "read_layer_v tt kv strm cell_count si l = (\<lambda>(ok, b, io).
     if \<not> ok then Some (False, b, io)
     else do {
       ly \<leftarrow> at (kv_layers kv) l;
       n_embd \<leftarrow> n_embd_v_gqa (kl_il ly) (kv_hparams kv);
       v \<leftarrow> at2 (kb_v b) l strm;
       case v of None \<Rightarrow> Some (True, b, io)
       | Some t \<Rightarrow> do {
           cells \<leftarrow> at (kv_v_cells kv) strm;
           (ok, t, io) \<leftarrow> (if kv_v_trans kv then read_trans tt (kc_size cells) n_embd cell_count si t io
                           else read_rows tt n_embd cell_count si t io);
           Some (ok, b\<lparr>kb_v := set2 (kb_v b) l strm (Some t)\<rparr>, io) } })"

definition state_read_data :: "ggml_type_traits \<Rightarrow> llama_kv_cache \<Rightarrow> nat \<Rightarrow> nat \<Rightarrow> slot_info \<Rightarrow> kv_bufs \<Rightarrow> bytes \<Rightarrow>
    (bool \<times> kv_bufs \<times> bytes) option" where
  "state_read_data tt kv strm cell_count si b io = do {
     cells \<leftarrow> at (kv_v_cells kv) strm;
     (v_trans, io) \<leftarrow> read_u 4 io;
     (n_layer, io) \<leftarrow> read_u 4 io;
     if n_layer \<noteq> length (kv_layers kv) then Some (False, b, io)
     else if cell_count > kc_size cells then Some (False, b, io)
     else if kv_v_trans kv \<noteq> (v_trans \<noteq> 0) then Some (False, b, io)
     else do {
       (ok, b, io) \<leftarrow> for_each (read_layer_k tt kv strm cell_count si) [0..<length (kv_layers kv)] (True, b, io);
       for_each (read_layer_v tt kv strm cell_count si) [0..<length (kv_layers kv)] (ok, b, io) } }"

text \<open>
  One stream.  When the state does not fit, the cache or the sequence is cleared before the exception is thrown: the result
  \<open>False\<close>, after which the loop ends.
\<close>

definition read_stream :: "ggml_type_traits \<Rightarrow> llama_seq_id \<Rightarrow> nat \<Rightarrow> bool \<times> llama_kv_cache \<times> kv_bufs \<times> bytes \<Rightarrow>
    (bool \<times> llama_kv_cache \<times> kv_bufs \<times> bytes) option" where
  "read_stream tt seq_id s = (\<lambda>(ok, kv, b, io).
     if \<not> ok then Some (False, kv, b, io)
     else do {
       (cell_count, io) \<leftarrow> read_u 4 io;
       if cell_count = 0 then Some (True, kv, b, io)
       else do {
         strm \<leftarrow> (if seq_id = - 1 then Some s else at (kv_seq_to_stream kv) (nat seq_id));
         (res, si, kv, b, io) \<leftarrow> state_read_meta strm cell_count seq_id kv b io;
         (res, b, io) \<leftarrow> (if res then state_read_data tt kv strm cell_count si b io else Some (False, b, io));
         if res then Some (True, kv, b, io)
         else if seq_id = - 1 then do { kv \<leftarrow> kv_clear kv; Some (False, kv, bufs_clear b, io) }
         else do { (_, kv) \<leftarrow> kv_seq_rm seq_id (- 1) (- 1) kv; Some (False, kv, b, io) } } })"

definition state_read :: "ggml_type_traits \<Rightarrow> llama_seq_id \<Rightarrow> llama_kv_cache \<Rightarrow> kv_bufs \<Rightarrow> bytes \<Rightarrow>
    (bool \<times> llama_kv_cache \<times> kv_bufs \<times> bytes) option" where
  "state_read tt seq_id kv b io = do {
     ggml_assert (seq_id = - 1 \<or> (seq_id \<ge> 0 \<and> nat seq_id < length (kv_seq_to_stream kv)));
     (n_stream_cur, io) \<leftarrow> read_u 4 io;
     ggml_assert (n_stream_cur = kv_n_stream kv);
     for_each (read_stream tt seq_id) [0..<kv_n_stream kv] (True, kv, b, io) }"

end
