(* ===== verification/KV_Restore.thy ===== *)
theory KV_Restore
  imports KV_State
begin

text \<open>
  What the saved bytes are, and that reading them gives back what was written: numbers, the ranges of cells, the metadata of
  cells, and the rows of tensors, transposed or not.
\<close>

section \<open>Numbers\<close>

lemma length_le_bytes [simp]: "length (le_bytes n v) = n"
  by (induction n arbitrary: v) auto

lemma le_value_bytes: "le_value (le_bytes n v) = v mod 256 ^ n"
proof (induction n arbitrary: v)
  case (Suc n)
  have "v mod (256 * 256 ^ n) = 256 * (v div 256 mod 256 ^ n) + v mod 256" by (rule zmod_zmult2_eq) simp
  with Suc show ?case by simp
qed simp

lemma io_read_append [simp]: "n = length bs \<Longrightarrow> io_read n (bs @ io) = Some (bs, io)"
  by (simp add: io_read_def)

lemma read_u_bytes [simp]: "int v < 256 ^ n \<Longrightarrow> read_u n (le_bytes n (int v) @ io) = Some (v, io)"
  by (simp add: read_u_def le_value_bytes)

lemma read_i32_bytes [simp]: 
  assumes "i32_ok v"
  shows "read_i32 (le_bytes 4 v @ io) = Some (v, io)"
proof -
  have v: "- 2147483648 \<le> v" "v < 2147483648" using assms by (auto simp: i32_ok_def)
  show ?thesis
  proof (cases "0 \<le> v")
    case True
    with v have "v mod 4294967296 = v" by (intro mod_pos_pos_trivial) auto
    with v show ?thesis by (simp add: read_i32_def le_value_bytes)
  next
    case False
    with v have "v mod 4294967296 = v + 4294967296" by (subst mod_add_self2 [symmetric]) (intro mod_pos_pos_trivial, auto)
    with v False show ?thesis by (simp add: read_i32_def le_value_bytes)
  qed
qed

section \<open>Loops that write and read\<close>

lemma write_loop:
  assumes "\<And>x io. x \<in> set xs \<Longrightarrow> f x io = Some (io @ g x)"
  shows "for_each f xs io = Some (io @ concat (map g xs))"
  using assms by (induction xs arbitrary: io) auto

lemma read_loop:
  assumes step: "\<And>k s io. k < length xs \<Longrightarrow> I k s \<Longrightarrow> \<exists>s'. f k (mk s (g (xs ! k) @ io)) = Some (mk s' io) \<and> I (Suc k) s'"
    and init: "I 0 s0"
  shows "\<exists>s. for_each f [0..<length xs] (mk s0 (concat (map g xs) @ rest)) = Some (mk s rest) \<and> I (length xs) s"
proof -
  let ?J = "\<lambda>k t. \<exists>s. t = mk s (concat (map g (drop k xs)) @ rest) \<and> I k s"
  have "\<exists>t. for_each f [0..<length xs] (mk s0 (concat (map g xs) @ rest)) = Some t \<and> ?J (length xs) t"
  proof (rule for_upto_rule [where I = ?J])
    show "?J 0 (mk s0 (concat (map g xs) @ rest))" using init by auto
  next
    fix k t assume k: "k < length xs" and "?J k t"
    then obtain s where s: "t = mk s (concat (map g (drop k xs)) @ rest)" "I k s" by blast
    have "drop k xs = xs ! k # drop (Suc k) xs" using k by (simp add: Cons_nth_drop_Suc)
    then have "t = mk s (g (xs ! k) @ concat (map g (drop (Suc k) xs)) @ rest)" using s(1) by simp
    with step [OF k s(2)] show "\<exists>t'. f k t = Some t' \<and> ?J (Suc k) t'" by blast
  qed
  then show ?thesis by auto
qed

section \<open>The ranges of cells\<close>

definition sel :: "llama_seq_id \<Rightarrow> llama_kv_cells \<Rightarrow> nat \<Rightarrow> bool" where
  "sel seq_id c i \<longleftrightarrow> kc_pos c ! i \<noteq> - 1 \<and> (seq_id = - 1 \<or> seq_id \<in> kc_seq c ! i)"

definition sel_cells :: "llama_seq_id \<Rightarrow> llama_kv_cells \<Rightarrow> nat list" where
  "sel_cells seq_id c = filter (sel seq_id c) [0..<length (kc_pos c)]"

lemma range_cells_snoc [simp]: "range_cells [] = []" "range_cells (cr @ [(a, b)]) = range_cells cr @ [a..<b]"
  by (simp_all add: range_cells_def)

definition ranges_wf :: "nat \<Rightarrow> cell_ranges \<Rightarrow> bool" where
  "ranges_wf n cr \<longleftrightarrow> (\<forall>(a, b)\<in>set cr. a \<le> b \<and> b \<le> n)"

lemma sum_ranges: "ranges_wf n cr \<Longrightarrow> sum_list (map (\<lambda>(a, b). b - a) cr) = length (range_cells cr)"
  by (induction cr) (auto simp: ranges_wf_def range_cells_def)

lemma write_ranges_spec:
  assumes "kv_cells_inv c" and "seq_id = - 1 \<or> bitset_idx seq_id"
  shows "\<exists>cr. write_ranges seq_id c = Some (length (sel_cells seq_id c), cr) \<and> range_cells cr = sel_cells seq_id c \<and> ranges_wf (length (kc_pos c)) cr"
proof -
  let ?n = "length (kc_pos c)"
  let ?opn = "\<lambda>b i. if b = ?n then [] else [b..<i]"
  let ?I = "\<lambda>i (m, b, data). m = length (filter (sel seq_id c) [0..<i]) \<and> range_cells data @ ?opn b i = filter (sel seq_id c) [0..<i] \<and>
    ranges_wf ?n data \<and> (b = ?n \<or> b < i)"
  have "\<exists>t. for_each (range_step seq_id c) [0..<?n] (0, ?n, []) = Some t \<and> ?I ?n t"
  proof (rule for_upto_rule [where I = ?I])
    fix i t assume i: "i < ?n" and "?I i t"
    then obtain m b data where t: "t = (m, b, data)" and I: "m = length (filter (sel seq_id c) [0..<i])"
      "range_cells data @ ?opn b i = filter (sel seq_id c) [0..<i]" "ranges_wf ?n data" "b = ?n \<or> b < i" by (cases t) auto
    have "range_step seq_id c i t = Some (if sel seq_id c i then (m + 1, if b = ?n then i else b, data)
        else if b \<noteq> ?n then (m, ?n, data @ [(b, i)]) else (m, b, data))"
      using kc_is_empty_spec [OF assms(1) i] kc_seq_has_in [OF i, of seq_id] assms(2)
      by (auto simp: range_step_def t sel_def kc_size_def)
    moreover have "?I (Suc i) (if sel seq_id c i then (m + 1, if b = ?n then i else b, data)
        else if b \<noteq> ?n then (m, ?n, data @ [(b, i)]) else (m, b, data))"
    proof (cases "sel seq_id c i")
      case True
      with I i show ?thesis by (cases "b = ?n") (simp_all flip: append_assoc)
    next
      case False
      with I i show ?thesis by (cases "b = ?n") (simp_all add: ranges_wf_def)
    qed
    ultimately show "\<exists>t'. range_step seq_id c i t = Some t' \<and> ?I (Suc i) t'" by (intro exI conjI)
  qed (simp add: ranges_wf_def)
  then obtain t where t: "for_each (range_step seq_id c) [0..<?n] (0, ?n, []) = Some t" "?I ?n t" by blast
  obtain m b data where mb: "t = (m, b, data)" by (cases t)
  have r: "m = length (sel_cells seq_id c)" "range_cells data @ ?opn b ?n = sel_cells seq_id c" "ranges_wf ?n data" "b = ?n \<or> b < ?n"
    using t(2) unfolding mb sel_cells_def by (simp_all only: case_prod_conv)
  define cr where "cr = (if b \<noteq> ?n then data @ [(b, ?n)] else data)"
  have cr: "range_cells cr = sel_cells seq_id c" "ranges_wf ?n cr" using r(2-4) by (cases "b = ?n"; simp add: ranges_wf_def cr_def)+
  have m: "m = sum_list (map (\<lambda>(a, b). b - a) cr)" using sum_ranges [OF cr(2)] cr(1) r(1) by simp
  have "write_ranges seq_id c = Some (m, cr)"
    unfolding write_ranges_def kc_size_def t(1) mb by (simp only: Option.bind_lunit case_prod_conv Let_def cr_def [symmetric] m [symmetric] ggml_assert_simps simp_thms)
  with cr r(1) show ?thesis by simp
qed

section \<open>Cells\<close>

definition cell_ids :: "llama_kv_cache \<Rightarrow> llama_seq_id \<Rightarrow> llama_kv_cells \<Rightarrow> nat \<Rightarrow> llama_seq_id list" where
  "cell_ids kv seq_id c i = filter (\<lambda>s. (s = seq_id \<or> seq_id = - 1) \<and> s \<in> kc_seq c ! i) (map int [0..<kv_n_seq_max kv])"

definition cell_bytes :: "llama_kv_cache \<Rightarrow> llama_seq_id \<Rightarrow> llama_kv_cells \<Rightarrow> nat \<Rightarrow> bytes" where
  "cell_bytes kv seq_id c i = le_bytes 4 (kc_pos c ! i) @ le_bytes 4 (int (length (cell_ids kv seq_id c i))) @
     concat (map (le_bytes 4) (cell_ids kv seq_id c i))"

definition seqs_fit :: "llama_kv_cache \<Rightarrow> bool" where
  "seqs_fit kv \<longleftrightarrow> int (kv_n_seq_max kv) \<le> LLAMA_MAX_SEQ"

lemma collect_loop:
  assumes "\<And>x. x \<in> set xs \<Longrightarrow> Q x \<Longrightarrow> f x = Some (P x)"
  shows "for_each (\<lambda>x ys. if Q x then do { h \<leftarrow> f x; Some (if h then ys @ [x] else ys) } else Some ys) xs ys = Some (ys @ filter (\<lambda>x. Q x \<and> P x) xs)"
  using assms by (induction xs arbitrary: ys) auto

lemma write_cell_spec:
  assumes "kv_cells_inv c" and "i < length (kc_pos c)" and "kc_pos c ! i \<noteq> - 1" and "seqs_fit kv"
  shows "write_cell kv c seq_id i io = Some (io @ cell_bytes kv seq_id c i)"
proof -
  have "kc_seq_has i s c = Some (s \<in> kc_seq c ! i)" if "s \<in> set (map int [0..<kv_n_seq_max kv])" for s
    by (rule kc_seq_has_in [OF assms(2)]) (use that assms(4) in \<open>auto simp: bitset_idx_def seqs_fit_def\<close>)
  from collect_loop [of "map int [0..<kv_n_seq_max kv]" "\<lambda>s. s = seq_id \<or> seq_id = - 1" "\<lambda>s. kc_seq_has i s c" "\<lambda>s. s \<in> kc_seq c ! i" "[]", OF this]
  have "for_each (\<lambda>cur ids. if cur = seq_id \<or> seq_id = - 1 then do { h \<leftarrow> kc_seq_has i cur c; Some (if h then ids @ [cur] else ids) } else Some ids)
      (map int [0..<kv_n_seq_max kv]) [] = Some (cell_ids kv seq_id c i)" by (simp add: cell_ids_def)
  moreover have "kc_pos_get i c = Some (kc_pos c ! i)" using assms(2,3) by (simp add: kc_pos_get_def)
  ultimately show ?thesis by (simp add: write_cell_def cell_bytes_def)
qed

lemma sel_cells_D: "i \<in> set (sel_cells seq_id c) \<Longrightarrow> i < length (kc_pos c) \<and> kc_pos c ! i \<noteq> - 1 \<and> (seq_id \<noteq> - 1 \<longrightarrow> seq_id \<in> kc_seq c ! i)"
  by (auto simp: sel_cells_def sel_def)

lemma state_write_meta_spec:
  assumes "kv_cells_inv c" and "seqs_fit kv" and "range_cells cr = sel_cells seq_id c"
  shows "state_write_meta kv c cr seq_id = Some (concat (map (cell_bytes kv seq_id c) (sel_cells seq_id c)))"
  unfolding state_write_meta_def assms(3)
  using write_loop [of "sel_cells seq_id c" "write_cell kv c seq_id" "cell_bytes kv seq_id c" "[]"] write_cell_spec [OF assms(1) _ _ assms(2)] sel_cells_D
  by fastforce

text \<open>What a restored cell holds: the pending shift and the two-dimensional position are not saved.\<close>

definition restored :: "llama_kv_cache \<Rightarrow> llama_kv_cells \<Rightarrow> nat \<Rightarrow> cell" where
  "restored kv c i = empty_cell\<lparr>cl_pos := kc_pos c ! i, cl_seq := set (cell_ids kv (- 1) c i)\<rparr>"

lemma cells_of_nth_fields: "i < length (kc_pos c) \<Longrightarrow> cells_of c ! i = x \<Longrightarrow> kc_pos c ! i = cl_pos x \<and> kc_seq c ! i = cl_seq x"
  by (auto simp: nth_cells_of)

lemma read_seq_ids_spec:
  assumes inv: "kv_cells_inv d" and k: "k < length (kc_pos d)" and ne: "kc_pos d ! k \<noteq> - 1" and e: "kc_seq d ! k = {}"
    and ids: "distinct ids" "\<forall>s\<in>set ids. 0 \<le> s \<and> s < int (kv_n_seq_max kv)" and fit: "seqs_fit kv"
  shows "\<exists>d'. for_each (read_seq_ids kv k) [0..<length ids] (True, d, concat (map (le_bytes 4) ids) @ io) = Some (True, d', io) \<and>
    kv_cells_inv d' \<and> cells_of d' = (cells_of d)[k := (cells_of d ! k)\<lparr>cl_seq := set ids\<rparr>] \<and> length (kc_pos d') = length (kc_pos d)"
proof -
  let ?I = "\<lambda>j d'. kv_cells_inv d' \<and> cells_of d' = (cells_of d)[k := (cells_of d ! k)\<lparr>cl_seq := set (take j ids)\<rparr>] \<and> length (kc_pos d') = length (kc_pos d)"
  have "\<exists>d'. for_each (read_seq_ids kv k) [0..<length ids] ((\<lambda>d io. (True, d, io)) d (concat (map (le_bytes 4) ids) @ io)) = Some ((\<lambda>d io. (True, d, io)) d' io) \<and> ?I (length ids) d'"
  proof (rule read_loop [where I = ?I])
    fix j d1 io assume j: "j < length ids" and I: "?I j d1"
    let ?s = "ids ! j"
    have s: "0 \<le> ?s" "?s < int (kv_n_seq_max kv)" using ids(2) j nth_mem by blast+
    then have b: "bitset_idx ?s" "i32_ok ?s" using fit by (auto simp: bitset_idx_def seqs_fit_def i32_ok_def LLAMA_MAX_SEQ_def)
    have k1: "k < length (kc_pos d1)" using I k by simp
    have c1: "cells_of d1 ! k = (cells_of d ! k)\<lparr>cl_seq := set (take j ids)\<rparr>" using I k by simp
    have f: "kc_pos d1 ! k = kc_pos d ! k" "kc_seq d1 ! k = set (take j ids)"
      using cells_of_nth_fields [OF k1 c1] cells_of_nth_fields [OF k refl] by simp_all
    have "?s \<notin> set (take j ids)" using ids(1) j by (auto simp: in_set_conv_nth nth_eq_iff_index_eq)
    with kc_seq_add_spec [OF _ k1, of ?s] I f ne b obtain d2 where d2: "kc_seq_add k ?s d1 = Some d2" "kv_cells_inv d2"
      "cells_of d2 = (cells_of d1)[k := (cells_of d1 ! k)\<lparr>cl_seq := insert ?s (kc_seq d1 ! k)\<rparr>]" by auto
    have "cells_of d2 = (cells_of d)[k := (cells_of d ! k)\<lparr>cl_seq := set (take (Suc j) ids)\<rparr>]"
      unfolding d2(3) c1 f(2) using I j by (simp add: take_Suc_conv_app_nth)
    moreover from this have "length (kc_pos d2) = length (kc_pos d)" by (metis length_cells_of length_list_update)
    moreover have "read_seq_ids kv k j (True, d1, le_bytes 4 ?s @ io) = Some (True, d2, io)"
      using s b d2(1) by (simp add: read_seq_ids_def)
    ultimately show "\<exists>d'. read_seq_ids kv k j (True, d1, le_bytes 4 (ids ! j) @ io) = Some (True, d', io) \<and> ?I (Suc j) d'"
      using d2(2) by blast
  next
    have "(cells_of d ! k)\<lparr>cl_seq := {}\<rparr> = cells_of d ! k" using cells_of_nth_fields [OF k refl] e by simp
    then show "?I 0 d" using inv by (simp only: take_0 set_simps list_update_id simp_thms)
  qed
  then show ?thesis by simp
qed

lemma read_cell_spec:
  assumes inv: "kv_cells_inv d" and k: "k < length (kc_pos d)" and e: "cells_of d ! k = empty_cell"
    and p: "0 \<le> kc_pos c ! i" "i32_ok (kc_pos c ! i)" and fit: "seqs_fit kv" and max: "kv_n_seq_max kv' = kv_n_seq_max kv"
  shows "\<exists>d'. read_cell kv' k (True, d, cell_bytes kv (- 1) c i @ io) = Some (True, d', io) \<and>
    kv_cells_inv d' \<and> cells_of d' = (cells_of d)[k := restored kv c i] \<and> length (kc_pos d') = length (kc_pos d)"
proof -
  let ?ids = "cell_ids kv (- 1) c i" and ?p = "kc_pos c ! i"
  have f: "kc_pos d ! k = - 1" "kc_seq d ! k = {}" using cells_of_nth_fields [OF k e] by (simp_all add: empty_cell_def)
  from kc_pos_set_spec [OF inv k f(1) p] obtain d1 where d1: "kc_pos_set k ?p d = Some d1" "kv_cells_inv d1"
    "cells_of d1 = (cells_of d)[k := (cells_of d ! k)\<lparr>cl_pos := ?p\<rparr>]" by blast
  have l1: "length (kc_pos d1) = length (kc_pos d)" using d1(3) by (metis length_cells_of length_list_update)
  then have k1: "k < length (kc_pos d1)" using k by simp
  have c1: "cells_of d1 ! k = empty_cell\<lparr>cl_pos := ?p\<rparr>" using d1(3) k e by simp
  have f1: "kc_pos d1 ! k \<noteq> - 1" "kc_seq d1 ! k = {}" using cells_of_nth_fields [OF k1 c1] p(1) by (simp_all add: empty_cell_def)
  have "length ?ids \<le> kv_n_seq_max kv" by (simp add: cell_ids_def) (metis length_filter_le length_map length_upt minus_nat.diff_0)
  then have l: "int (length ?ids) < 256 ^ 4" using fit by (simp add: seqs_fit_def LLAMA_MAX_SEQ_def)
  have "distinct ?ids" "\<forall>s\<in>set ?ids. 0 \<le> s \<and> s < int (kv_n_seq_max kv')" unfolding max by (auto simp: cell_ids_def distinct_map)
  from read_seq_ids_spec [OF d1(2) k1 f1 this, of io] fit max obtain d2 where d2:
    "for_each (read_seq_ids kv' k) [0..<length ?ids] (True, d1, concat (map (le_bytes 4) ?ids) @ io) = Some (True, d2, io)"
    "kv_cells_inv d2" "cells_of d2 = (cells_of d1)[k := (cells_of d1 ! k)\<lparr>cl_seq := set ?ids\<rparr>]" "length (kc_pos d2) = length (kc_pos d1)"
    by (auto simp: seqs_fit_def)
  have "cells_of d2 = (cells_of d)[k := restored kv c i]" unfolding d2(3) c1 unfolding d1(3) by (simp add: restored_def)
  moreover have "read_cell kv' k (True, d, cell_bytes kv (- 1) c i @ io) = Some (True, d2, io)"
    using p(2) l d1(1) d2(1) by (simp add: read_cell_def cell_bytes_def)
  ultimately show ?thesis using d2(2,4) l1 by (intro exI [of _ d2]) simp
qed

lemma read_cells_spec:
  assumes inv: "kv_cells_inv c" "kv_cells_inv d" and d: "cells_of d = replicate n empty_cell" and n: "length (sel_cells (- 1) c) \<le> n"
    and fit: "seqs_fit kv" and max: "kv_n_seq_max kv' = kv_n_seq_max kv"
  shows "\<exists>d'. for_each (read_cell kv') [0..<length (sel_cells (- 1) c)] (True, d, concat (map (cell_bytes kv (- 1) c) (sel_cells (- 1) c)) @ io) = Some (True, d', io) \<and>
    kv_cells_inv d' \<and> cells_of d' = map (restored kv c) (sel_cells (- 1) c) @ replicate (n - length (sel_cells (- 1) c)) empty_cell"
proof -
  let ?is = "sel_cells (- 1) c"
  let ?I = "\<lambda>k d'. kv_cells_inv d' \<and> cells_of d' = map (restored kv c) (take k ?is) @ replicate (n - k) empty_cell"
  have "\<exists>d'. for_each (read_cell kv') [0..<length ?is] ((\<lambda>d io. (True, d, io)) d (concat (map (cell_bytes kv (- 1) c) ?is) @ io)) = Some ((\<lambda>d io. (True, d, io)) d' io) \<and> ?I (length ?is) d'"
  proof (rule read_loop [where I = ?I])
    fix k d1 io assume k: "k < length ?is" and I: "?I k d1"
    have i: "?is ! k < length (kc_pos c)" "kc_pos c ! (?is ! k) \<noteq> - 1" using sel_cells_D [OF nth_mem [OF k]] by auto
    have len: "length (kc_pos d1) = n" using I k n by (metis length_append length_cells_of length_map length_replicate length_take less_imp_le min.absorb2 le_add_diff_inverse order.trans)
    then have k1: "k < length (kc_pos d1)" using k n by simp
    have c1: "cells_of d1 ! k = empty_cell" using I k n by (simp add: nth_append)
    have p: "0 \<le> kc_pos c ! (?is ! k)" "i32_ok (kc_pos c ! (?is ! k))" using kv_cells_inv_cell [OF inv(1) i(1)] i(2) by auto
    from read_cell_spec [OF _ k1 c1 p fit max, of io] I obtain d2 where d2: "read_cell kv' k (True, d1, cell_bytes kv (- 1) c (?is ! k) @ io) = Some (True, d2, io)"
      "kv_cells_inv d2" "cells_of d2 = (cells_of d1)[k := restored kv c (?is ! k)]" by blast
    have "replicate (n - k) empty_cell = empty_cell # replicate (n - Suc k) empty_cell" using k n by (metis Suc_diff_Suc less_le_trans replicate_Suc)
    then have "cells_of d2 = map (restored kv c) (take (Suc k) ?is) @ replicate (n - Suc k) empty_cell"
      using d2(3) I k by (simp add: take_Suc_conv_app_nth list_update_append)
    with d2 show "\<exists>d'. read_cell kv' k (True, d1, cell_bytes kv (- 1) c (?is ! k) @ io) = Some (True, d', io) \<and> ?I (Suc k) d'" by blast
  qed (use inv d in simp)
  then show ?thesis by simp
qed

section \<open>Tensors\<close>

text \<open>Row \<open>i\<close> of a tensor with rows of \<open>sz\<close> bytes.\<close>

definition t_row :: "nat \<Rightarrow> kv_tensor \<Rightarrow> nat \<Rightarrow> bytes" where
  "t_row sz t i = take sz (drop (i * sz) (t_data t))"

lemma length_t_row: "Suc i * sz \<le> length (t_data t) \<Longrightarrow> length (t_row sz t i) = sz"
  by (simp add: t_row_def)

lemma t_row_nth: "x < sz \<Longrightarrow> Suc i * sz \<le> length (t_data t) \<Longrightarrow> t_row sz t i ! x = t_data t ! (i * sz + x)"
  by (simp add: t_row_def)

lemma rows_concat:
  assumes "b * sz \<le> length (t_data t)" and "a \<le> b"
  shows "take ((b - a) * sz) (drop (a * sz) (t_data t)) = concat (map (t_row sz t) [a..<b])"
  using assms
proof (induction "b - a" arbitrary: a)
  case (Suc n)
  then have a: "a < b" "n = b - Suc a" by auto
  have "(b - a) * sz = sz + (b - Suc a) * sz" using a by (metis Suc_diff_Suc mult_Suc)
  then have "take ((b - a) * sz) (drop (a * sz) (t_data t)) = t_row sz t a @ take ((b - Suc a) * sz) (drop (Suc a * sz) (t_data t))"
    by (simp add: t_row_def take_add add.commute)
  also have "take ((b - Suc a) * sz) (drop (Suc a * sz) (t_data t)) = concat (map (t_row sz t) [Suc a..<b])"
    using Suc.hyps(1) [OF a(2)] Suc.prems a by simp
  finally show ?case using a(1) by (simp add: upt_conv_Cons)
qed simp

lemma tensor_get_rows:
  assumes "b * sz \<le> length (t_data t)" and "a \<le> b"
  shows "tensor_get t (a * sz) ((b - a) * sz) = Some (concat (map (t_row sz t) [a..<b]))"
proof -
  have "a * sz + (b - a) * sz = b * sz" using assms(2) by (metis add_mult_distrib le_add_diff_inverse)
  then have "tensor_get t (a * sz) ((b - a) * sz) = Some (take ((b - a) * sz) (drop (a * sz) (t_data t)))"
    using assms(1) by (auto simp: tensor_get_def)
  then show ?thesis unfolding rows_concat [OF assms] .
qed

lemma length_rows: "(\<And>x. x \<in> set xs \<Longrightarrow> length (f x) = sz) \<Longrightarrow> length (concat (map f xs)) = length xs * sz"
  by (induction xs) auto

lemma nth_rows: "(\<And>x. x \<in> set xs \<Longrightarrow> length (f x) = sz) \<Longrightarrow> k < length xs \<Longrightarrow> take sz (drop (k * sz) (concat (map f xs))) = f (xs ! k)"
proof (induction xs arbitrary: k)
  case (Cons x xs)
  show ?case
  proof (cases k)
    case (Suc j)
    have "take sz (drop (j * sz) (concat (map f xs))) = f (xs ! j)" using Cons Suc by simp
    with Cons.prems(1) Suc show ?thesis by simp
  qed (use Cons in simp)
qed simp

text \<open>Storing whole rows.\<close>

lemma tensor_set_rows:
  assumes r: "\<And>x. x \<in> set xs \<Longrightarrow> length (f x) = sz" and h: "(h + length xs) * sz \<le> length (t_data t)"
  shows "\<exists>t'. tensor_set (concat (map f xs)) (h * sz) t = Some t' \<and> t_type t' = t_type t \<and> length (t_data t') = length (t_data t) \<and>
    (\<forall>k<length xs. t_row sz t' (h + k) = f (xs ! k)) \<and>
    (\<forall>i. i < h \<or> h + length xs \<le> i \<longrightarrow> t_row sz t' i = t_row sz t i)"
proof (cases "concat (map f xs) = []")
  case True
  have "length xs * sz = 0" using length_rows [of xs f sz, OF r] unfolding True by simp
  then have l: "xs = [] \<or> sz = 0" by simp
  have "t_row sz t (h + k) = f (xs ! k)" if "k < length xs" for k
    using l that r [of "xs ! k"] by (auto simp: t_row_def)
  with True show ?thesis by (simp add: tensor_set_def)
next
  case False
  let ?s = "concat (map f xs)" and ?D = "t_data t"
  let ?D' = "take (h * sz) ?D @ ?s @ drop (h * sz + length ?s) ?D"
  let ?t = "t\<lparr>t_data := ?D'\<rparr>"
  have ls: "length ?s = length xs * sz" by (rule length_rows [OF r])
  have h1: "h * sz + length xs * sz \<le> length ?D" using h by (simp add: add_mult_distrib)
  have set: "tensor_set ?s (h * sz) t = Some ?t" unfolding tensor_set_def if_not_P [OF False] using h1 ls by simp
  have in_rows: "t_row sz ?t (h + k) = f (xs ! k)" if k: "k < length xs" for k
  proof -
    have "Suc k * sz \<le> length xs * sz" using k by (intro mult_le_mono1) simp
    then have k2: "k * sz + sz \<le> length ?s" using ls by simp
    have "(h + k) * sz = h * sz + k * sz" by (rule add_mult_distrib)
    then have "t_row sz ?t (h + k) = take sz (drop (k * sz) ?s)" using h1 k2 by (simp add: t_row_def)
    then show ?thesis using nth_rows [of xs f sz k, OF r k] by simp
  qed
  have before: "t_row sz ?t i = t_row sz t i" if i: "i < h" for i
  proof -
    have "Suc i * sz \<le> h * sz" using i by (intro mult_le_mono1) simp
    then have "i * sz + sz \<le> h * sz" by simp
    then show ?thesis using h1 by (simp add: t_row_def drop_take min_absorb1)
  qed
  have after: "t_row sz ?t i = t_row sz t i" if i: "h + length xs \<le> i" for i
  proof -
    have "(h + length xs) * sz \<le> i * sz" using i by (rule mult_le_mono1)
    then have i2: "h * sz + length ?s \<le> i * sz" using ls by (simp add: add_mult_distrib)
    then have "drop (i * sz) ?D' = drop (i * sz) ?D" using h1 ls i by simp
    then show ?thesis by (simp add: t_row_def)
  qed
  show ?thesis using set in_rows before after h1 ls by (intro exI [of _ ?t]) auto
qed

abbreviation all_slot :: "nat \<Rightarrow> nat \<Rightarrow> slot_info" where
  "all_slot strm m \<equiv> \<lparr>si_s0 = strm, si_s1 = strm, si_strm = [strm], si_idxs = [[0..<m]]\<rparr>"

lemma all_slot_simps: "si_is_contiguous (all_slot strm m)" "0 < m \<Longrightarrow> si_head (all_slot strm m) = Some 0"
  by (auto simp: si_is_contiguous_def si_head_def)

section \<open>Rows of cells\<close>

definition rows_wf :: "ggml_type_traits \<Rightarrow> nat \<Rightarrow> nat \<Rightarrow> kv_tensor \<Rightarrow> bool" where
  "rows_wf tt n n_embd t \<longleftrightarrow> i32_ok (t_type t) \<and> ggml_row_size tt (t_type t) n_embd < 18446744073709551616 \<and>
     n * ggml_row_size tt (t_type t) n_embd \<le> length (t_data t)"

definition rows_bytes :: "ggml_type_traits \<Rightarrow> nat \<Rightarrow> nat list \<Rightarrow> kv_tensor \<Rightarrow> bytes" where
  "rows_bytes tt n_embd idxs t = (let sz = ggml_row_size tt (t_type t) n_embd in
     le_bytes 4 (t_type t) @ le_bytes 8 (int sz) @ concat (map (t_row sz t) idxs))"

lemma range_rows:
  "concat (map (\<lambda>(a, b). concat (map f [a..<b])) cr) = concat (map f (range_cells cr))"
  by (induction cr) (auto simp: range_cells_def)

lemma range_cells_less: "ranges_wf n cr \<Longrightarrow> i \<in> set (range_cells cr) \<Longrightarrow> i < n"
  by (auto simp: range_cells_def ranges_wf_def)

lemma row_in: "i < n \<Longrightarrow> n * sz \<le> len \<Longrightarrow> Suc i * sz \<le> (len :: nat)"
  by (metis Suc_leI mult_le_mono1 order_trans)

lemma write_rows_spec:
  assumes "rows_wf tt n n_embd t" and "ranges_wf n cr"
  shows "write_rows tt n_embd cr t = Some (rows_bytes tt n_embd (range_cells cr) t)"
proof -
  let ?sz = "ggml_row_size tt (t_type t) n_embd"
  let ?f = "\<lambda>(a, b) io. do { d \<leftarrow> tensor_get t (a * ?sz) ((b - a) * ?sz); Some (io @ d) }"
  have "?f ab io = Some (io @ (case ab of (a, b) \<Rightarrow> concat (map (t_row ?sz t) [a..<b])))" if "ab \<in> set cr" for ab io
  proof -
    obtain a b where ab: "ab = (a, b)" by (cases ab)
    with that assms(2) have "a \<le> b" "b \<le> n" by (auto simp: ranges_wf_def)
    moreover from this(2) have "b * ?sz \<le> length (t_data t)" using assms(1) unfolding rows_wf_def by (metis mult_le_mono1 order_trans)
    ultimately show ?thesis using tensor_get_rows [of b ?sz t a] ab by simp
  qed
  from write_loop [of cr ?f, OF this] have "for_each ?f cr [] = Some (concat (map (t_row ?sz t) (range_cells cr)))"
    by (simp add: range_rows)
  then show ?thesis by (simp add: write_rows_def rows_bytes_def Let_def)
qed

definition same_rows :: "nat \<Rightarrow> nat list \<Rightarrow> kv_tensor \<Rightarrow> kv_tensor \<Rightarrow> bool" where
  "same_rows sz idxs t t' \<longleftrightarrow> (\<forall>k<length idxs. t_row sz t' k = t_row sz t (idxs ! k))"

lemma read_rows_spec:
  assumes t: "rows_wf tt n n_embd t" "rows_wf tt n n_embd t1" "t_type t1 = t_type t"
    and idxs: "\<forall>i\<in>set idxs. i < n" "0 < length idxs" "length idxs \<le> n"
  shows "\<exists>t'. read_rows tt n_embd (length idxs) (all_slot strm (length idxs)) t1 (rows_bytes tt n_embd idxs t @ io) = Some (True, t', io) \<and>
    t_type t' = t_type t \<and> length (t_data t') = length (t_data t1) \<and> same_rows (ggml_row_size tt (t_type t) n_embd) idxs t t'"
proof -
  let ?sz = "ggml_row_size tt (t_type t) n_embd"
  have len: "length (t_row ?sz t i) = ?sz" if "i \<in> set idxs" for i
    using row_in [of i n ?sz] t(1) idxs(1) that by (intro length_t_row) (auto simp: rows_wf_def)
  have "(0 + length idxs) * ?sz \<le> length (t_data t1)"
    using t(2,3) idxs(3) unfolding rows_wf_def by (metis add_0 mult_le_mono1 order_trans)
  from tensor_set_rows [of idxs "t_row ?sz t" ?sz 0 t1, OF len this] obtain t' where t':
    "tensor_set (concat (map (t_row ?sz t) idxs)) 0 t1 = Some t'" "t_type t' = t_type t1" "length (t_data t') = length (t_data t1)"
    "\<forall>k<length idxs. t_row ?sz t' k = t_row ?sz t (idxs ! k)" by auto
  have "read_rows tt n_embd (length idxs) (all_slot strm (length idxs)) t1 (rows_bytes tt n_embd idxs t @ io) = Some (True, t', io)"
    using t t'(1) idxs(2) all_slot_simps(1) [of strm "length idxs"] all_slot_simps(2) [of "length idxs" strm] length_rows [of idxs "t_row ?sz t" ?sz, OF len]
    by (simp add: read_rows_def rows_bytes_def Let_def rows_wf_def)
  with t' t(3) show ?thesis by (simp add: same_rows_def)
qed

section \<open>Transposed rows\<close>

definition trans_wf :: "ggml_type_traits \<Rightarrow> nat \<Rightarrow> nat \<Rightarrow> kv_tensor \<Rightarrow> bool" where
  "trans_wf tt n n_embd t \<longleftrightarrow> i32_ok (t_type t) \<and> tt_type_size tt (t_type t) < 4294967296 \<and> n_embd < 4294967296 \<and> n_embd * n < 4294967296 \<and>
     n_embd * n * tt_type_size tt (t_type t) < 4294967296 \<and> n_embd * n * tt_type_size tt (t_type t) \<le> length (t_data t)"

definition trans_bytes :: "ggml_type_traits \<Rightarrow> nat \<Rightarrow> nat \<Rightarrow> nat list \<Rightarrow> kv_tensor \<Rightarrow> bytes" where
  "trans_bytes tt n n_embd idxs t = (let sz = tt_type_size tt (t_type t) in
     le_bytes 4 (t_type t) @ le_bytes 4 (int sz) @ le_bytes 4 (int n_embd) @
     concat (map (\<lambda>j. concat (map (\<lambda>i. t_row sz t (j * n + i)) idxs)) [0..<n_embd]))"

lemma trans_bound: "j < m \<Longrightarrow> b \<le> n \<Longrightarrow> j * n + b \<le> m * (n :: nat)"
proof -
  assume "j < m" "b \<le> n"
  then have "Suc j * n \<le> m * n" "j * n + b \<le> Suc j * n" by (intro mult_le_mono1, simp, simp)
  then show ?thesis by (rule order_trans [rotated])
qed

lemma map_add_upt: "map (\<lambda>i. f (c + i)) [a..<b] = map f [c + a..<c + (b :: nat)]"
  by (rule nth_equalityI) (auto simp: add.assoc)

lemma write_trans_spec:
  assumes t: "trans_wf tt n n_embd t" and cr: "ranges_wf n cr"
  shows "write_trans tt n n_embd cr t = Some (trans_bytes tt n n_embd (range_cells cr) t)"
proof -
  let ?sz = "tt_type_size tt (t_type t)"
  let ?g = "\<lambda>j. concat (map (\<lambda>i. t_row ?sz t (j * n + i)) (range_cells cr))"
  have row: "write_trans_row n ?sz cr t j io = Some (io @ ?g j)" if j: "j < n_embd" for j io
  proof -
    let ?f = "\<lambda>(a, b) io. do { d \<leftarrow> tensor_get t (u32 (u32 (a + u32 (j * n)) * ?sz)) ((b - a) * ?sz); Some (io @ d) }"
    have "?f ab io = Some (io @ (case ab of (a, b) \<Rightarrow> concat (map (\<lambda>i. t_row ?sz t (j * n + i)) [a..<b])))" if "ab \<in> set cr" for ab io
    proof -
      obtain a b where ab: "ab = (a, b)" by (cases ab)
      with that cr have le: "a \<le> b" "b \<le> n" by (auto simp: ranges_wf_def)
      have bound: "j * n + b \<le> n_embd * n" by (rule trans_bound [OF j le(2)])
      then have "(j * n + b) * ?sz \<le> n_embd * n * ?sz" by (rule mult_le_mono1)
      then have len: "(j * n + b) * ?sz \<le> length (t_data t)" "(j * n + a) * ?sz < 4294967296"
        using t le(1) mult_le_mono1 [of "j * n + a" "j * n + b" ?sz] unfolding trans_wf_def by linarith+
      have "j * n < 4294967296" "a + j * n < 4294967296" using bound le(1) t unfolding trans_wf_def by linarith+
      then have off: "u32 (u32 (a + u32 (j * n)) * ?sz) = (j * n + a) * ?sz" using len(2) by (simp add: add.commute)
      have "tensor_get t ((j * n + a) * ?sz) ((j * n + b - (j * n + a)) * ?sz) = Some (concat (map (t_row ?sz t) [j * n + a..<j * n + b]))"
        by (rule tensor_get_rows [OF len(1)]) (use le(1) in simp)
      then show ?thesis unfolding ab case_prod_conv off map_add_upt by simp
    qed
    from write_loop [of cr ?f, OF this] show ?thesis by (simp add: write_trans_row_def range_rows)
  qed
  have "for_each (write_trans_row n ?sz cr t) [0..<n_embd] [] = Some (concat (map ?g [0..<n_embd]))"
    using write_loop [of "[0..<n_embd]" "write_trans_row n ?sz cr t" ?g "[]"] row by simp
  moreover have "u32 ?sz = ?sz" using t by (simp add: trans_wf_def)
  ultimately show ?thesis by (simp add: write_trans_def trans_bytes_def Let_def)
qed

definition same_trans :: "nat \<Rightarrow> nat \<Rightarrow> nat \<Rightarrow> nat list \<Rightarrow> kv_tensor \<Rightarrow> kv_tensor \<Rightarrow> bool" where
  "same_trans n n_embd sz idxs t t' \<longleftrightarrow> (\<forall>j<n_embd. \<forall>k<length idxs. t_row sz t' (j * n + k) = t_row sz t (j * n + idxs ! k))"

lemma read_trans_spec:
  assumes t: "trans_wf tt n n_embd t" "trans_wf tt n n_embd t1" "t_type t1 = t_type t"
    and idxs: "\<forall>i\<in>set idxs. i < n" "0 < length idxs" "length idxs \<le> n"
  shows "\<exists>t'. read_trans tt n n_embd (length idxs) (all_slot strm (length idxs)) t1 (trans_bytes tt n n_embd idxs t @ io) = Some (True, t', io) \<and>
    t_type t' = t_type t \<and> length (t_data t') = length (t_data t1) \<and> same_trans n n_embd (tt_type_size tt (t_type t)) idxs t t'"
proof -
  let ?sz = "tt_type_size tt (t_type t)" and ?m = "length idxs"
  let ?g = "\<lambda>j. concat (map (\<lambda>i. t_row ?sz t (j * n + i)) idxs)"
  let ?I = "\<lambda>m t'. t_type t' = t_type t \<and> length (t_data t') = length (t_data t1) \<and> same_trans n m ?sz idxs t t'"
  have "\<exists>t'. for_each (read_trans_row n ?sz ?m (all_slot strm ?m)) [0..<length [0..<n_embd]] (Pair t1 (concat (map ?g [0..<n_embd]) @ io)) = Some (Pair t' io) \<and> ?I (length [0..<n_embd]) t'"
  proof (rule read_loop [where I = ?I])
    fix j t2 io assume "j < length [0..<n_embd]" and I: "?I j t2"
    then have j: "j < n_embd" by simp
    have len: "length (t_row ?sz t (j * n + i)) = ?sz" if "i \<in> set idxs" for i
    proof -
      have "j * n + Suc i \<le> n_embd * n" using idxs(1) that by (intro trans_bound [OF j]) auto
      then have "Suc (j * n + i) * ?sz \<le> n_embd * n * ?sz" by (intro mult_le_mono1) simp
      then show ?thesis using t(1) by (intro length_t_row) (simp add: trans_wf_def)
    qed
    have bound: "j * n + ?m \<le> n_embd * n" by (rule trans_bound [OF j idxs(3)])
    then have "(j * n + ?m) * ?sz \<le> n_embd * n * ?sz" by (rule mult_le_mono1)
    moreover have "n_embd * n * ?sz \<le> length (t_data t2)" using t(2,3) I unfolding trans_wf_def by simp
    ultimately have "(j * n + ?m) * ?sz \<le> length (t_data t2)" by (rule order_trans)
    from tensor_set_rows [of idxs "\<lambda>i. t_row ?sz t (j * n + i)" ?sz "j * n" t2, OF len this] obtain t3 where t3:
      "tensor_set (?g j) (j * n * ?sz) t2 = Some t3" "t_type t3 = t_type t2" "length (t_data t3) = length (t_data t2)"
      "\<forall>k<?m. t_row ?sz t3 (j * n + k) = t_row ?sz t (j * n + idxs ! k)" "\<forall>i. i < j * n \<longrightarrow> t_row ?sz t3 i = t_row ?sz t2 i" by blast
    have "j * n < 4294967296" using bound t(1) unfolding trans_wf_def by linarith
    then have "read_trans_row n ?sz ?m (all_slot strm ?m) j (t2, ?g j @ io) = Some (t3, io)"
      using t3(1) idxs(2) all_slot_simps(1) [of strm ?m] all_slot_simps(2) [of ?m strm] length_rows [of idxs "\<lambda>i. t_row ?sz t (j * n + i)" ?sz, OF len]
      by (simp add: read_trans_row_def)
    moreover have "same_trans n (Suc j) ?sz idxs t t3" unfolding same_trans_def
    proof (intro allI impI)
      fix j' k assume j': "j' < Suc j" and k: "k < ?m"
      show "t_row ?sz t3 (j' * n + k) = t_row ?sz t (j' * n + idxs ! k)"
      proof (cases "j' = j")
        case False
        with j' have "j' < j" by simp
        then have "j' * n + Suc k \<le> j * n" using k idxs(3) by (intro trans_bound) auto
        with t3(5) I k \<open>j' < j\<close> show ?thesis by (simp add: same_trans_def)
      qed (use t3(4) k in simp)
    qed
    ultimately show "\<exists>t'. read_trans_row n ?sz ?m (all_slot strm ?m) j (t2, ?g ([0..<n_embd] ! j) @ io) = Some (t', io) \<and> ?I (Suc j) t'"
      using I t3(2,3) j by (intro exI [of _ t3]) simp
  qed (use t(3) in \<open>simp add: same_trans_def\<close>)
  then obtain t' where t': "for_each (read_trans_row n ?sz ?m (all_slot strm ?m)) [0..<n_embd] (t1, concat (map ?g [0..<n_embd]) @ io) = Some (t', io)"
    "?I n_embd t'" by auto
  have "read_trans tt n n_embd ?m (all_slot strm ?m) t1 (trans_bytes tt n n_embd idxs t @ io) = Some (True, t', io)"
    using t t'(1) idxs(2) by (simp add: read_trans_def trans_bytes_def Let_def trans_wf_def)
  with t'(2) show ?thesis by simp
qed

end
