(* ===== verification/KV_Roundtrip.thy ===== *)
theory KV_Roundtrip
  imports KV_Restore
begin

text \<open>
  Saving a cache and restoring it: the layers of a stream, the streams, and the whole state.
\<close>

section \<open>The tensors of a cache\<close>

abbreviation k_at :: "kv_bufs \<Rightarrow> nat \<Rightarrow> nat \<Rightarrow> kv_tensor" where
  "k_at b l s \<equiv> kb_k b ! l ! s"

abbreviation v_at :: "kv_bufs \<Rightarrow> nat \<Rightarrow> nat \<Rightarrow> kv_tensor option" where
  "v_at b l s \<equiv> kb_v b ! l ! s"

definition k_embd :: "llama_kv_cache \<Rightarrow> nat \<Rightarrow> nat" where
  "k_embd kv l = the (n_embd_k_gqa (kl_il (kv_layers kv ! l)) (kv_hparams kv))"

definition v_embd :: "llama_kv_cache \<Rightarrow> nat \<Rightarrow> nat" where
  "v_embd kv l = the (n_embd_v_gqa (kl_il (kv_layers kv ! l)) (kv_hparams kv))"

abbreviation kv_cells_n :: "llama_kv_cache \<Rightarrow> nat" where
  "kv_cells_n kv \<equiv> length (kc_pos (kv_v_cells kv ! 0))"

definition v_wf :: "ggml_type_traits \<Rightarrow> llama_kv_cache \<Rightarrow> nat \<Rightarrow> kv_tensor \<Rightarrow> bool" where
  "v_wf tt kv l t \<longleftrightarrow> (if kv_v_trans kv then trans_wf tt (kv_cells_n kv) (v_embd kv l) t else rows_wf tt (kv_cells_n kv) (v_embd kv l) t)"

definition bufs_wf :: "ggml_type_traits \<Rightarrow> llama_kv_cache \<Rightarrow> kv_bufs \<Rightarrow> bool" where
  "bufs_wf tt kv b \<longleftrightarrow> length (kv_layers kv) < 4294967296 \<and> length (kb_k b) = length (kv_layers kv) \<and> length (kb_v b) = length (kv_layers kv) \<and>
     (\<forall>l<length (kv_layers kv). length (kb_k b ! l) = kv_n_stream kv \<and> length (kb_v b ! l) = kv_n_stream kv \<and>
        n_embd_k_gqa (kl_il (kv_layers kv ! l)) (kv_hparams kv) = Some (k_embd kv l) \<and>
        n_embd_v_gqa (kl_il (kv_layers kv ! l)) (kv_hparams kv) = Some (v_embd kv l) \<and>
        (\<forall>s<kv_n_stream kv. rows_wf tt (kv_cells_n kv) (k_embd kv l) (k_at b l s) \<and> (\<forall>t. v_at b l s = Some t \<longrightarrow> v_wf tt kv l t)))"

lemma bufs_wfD:
  assumes "bufs_wf tt kv b" and "l < length (kv_layers kv)" and "s < kv_n_stream kv"
  shows "l < length (kb_k b)" "l < length (kb_v b)" "s < length (kb_k b ! l)" "s < length (kb_v b ! l)"
    "n_embd_k_gqa (kl_il (kv_layers kv ! l)) (kv_hparams kv) = Some (k_embd kv l)"
    "n_embd_v_gqa (kl_il (kv_layers kv ! l)) (kv_hparams kv) = Some (v_embd kv l)"
    "rows_wf tt (kv_cells_n kv) (k_embd kv l) (k_at b l s)" "v_at b l s = Some t \<Longrightarrow> v_wf tt kv l t"
  using assms unfolding bufs_wf_def by auto

definition same_types :: "llama_kv_cache \<Rightarrow> kv_bufs \<Rightarrow> kv_bufs \<Rightarrow> bool" where
  "same_types kv b b' \<longleftrightarrow> (\<forall>l<length (kv_layers kv). \<forall>s<kv_n_stream kv. t_type (k_at b' l s) = t_type (k_at b l s) \<and>
     map_option t_type (v_at b' l s) = map_option t_type (v_at b l s))"

lemma at2_in: "l < length xss \<Longrightarrow> s < length (xss ! l) \<Longrightarrow> at2 xss l s = Some (xss ! l ! s)"
  by (simp add: at2_def at_def)

lemma set2_nth: "l < length xss \<Longrightarrow> s < length (xss ! l) \<Longrightarrow> set2 xss l s x ! l' ! s' = (if l' = l \<and> s' = s then x else xss ! l' ! s')"
  by (auto simp: set2_def nth_list_update)

lemma set2_length [simp]: "length (set2 xss l s x) = length xss" "length (set2 xss l s x ! l') = length (xss ! l')"
  by (auto simp: set2_def) (metis length_list_update list_update_beyond not_le nth_list_update)

lemma rows_wf_cong: "rows_wf tt n m t \<Longrightarrow> t_type t' = t_type t \<Longrightarrow> length (t_data t') = length (t_data t) \<Longrightarrow> rows_wf tt n m t'"
  by (simp add: rows_wf_def)

lemma v_wf_cong: "v_wf tt kv l t \<Longrightarrow> t_type t' = t_type t \<Longrightarrow> length (t_data t') = length (t_data t) \<Longrightarrow> v_wf tt kv l t'"
  by (auto simp: v_wf_def rows_wf_def trans_wf_def)

lemma set_k:
  assumes wf: "bufs_wf tt kv b1" "same_types kv b b1" and ls: "l < length (kv_layers kv)" "s < kv_n_stream kv"
    and k: "t_type k = t_type (k_at b1 l s)" "length (t_data k) = length (t_data (k_at b1 l s))"
  shows "bufs_wf tt kv (b1\<lparr>kb_k := set2 (kb_k b1) l s k\<rparr>) \<and> same_types kv b (b1\<lparr>kb_k := set2 (kb_k b1) l s k\<rparr>)"
proof -
  note D = bufs_wfD [OF wf(1) ls]
  note nth = set2_nth [OF D(1,3), of k]
  have "rows_wf tt (kv_cells_n kv) (k_embd kv l') (set2 (kb_k b1) l s k ! l' ! s')" if "l' < length (kv_layers kv)" "s' < kv_n_stream kv" for l' s'
    using bufs_wfD(7) [OF wf(1) that] rows_wf_cong [OF D(7) k] by (simp add: nth)
  then have "bufs_wf tt kv (b1\<lparr>kb_k := set2 (kb_k b1) l s k\<rparr>)" using wf(1) by (simp add: bufs_wf_def)
  moreover have "same_types kv b (b1\<lparr>kb_k := set2 (kb_k b1) l s k\<rparr>)" using wf(2) k(1) ls by (auto simp: same_types_def nth)
  ultimately show ?thesis by blast
qed

lemma set_v:
  assumes wf: "bufs_wf tt kv b1" "same_types kv b b1" and ls: "l < length (kv_layers kv)" "s < kv_n_stream kv"
    and v: "v_at b1 l s = Some t" "t_type t' = t_type t" "length (t_data t') = length (t_data t)"
  shows "bufs_wf tt kv (b1\<lparr>kb_v := set2 (kb_v b1) l s (Some t')\<rparr>) \<and> same_types kv b (b1\<lparr>kb_v := set2 (kb_v b1) l s (Some t')\<rparr>)"
proof -
  note D = bufs_wfD [OF wf(1) ls]
  note nth = set2_nth [OF D(2,4), of "Some t'"]
  have "v_wf tt kv l' u" if "l' < length (kv_layers kv)" "s' < kv_n_stream kv" "set2 (kb_v b1) l s (Some t') ! l' ! s' = Some u" for l' s' u
    using bufs_wfD(8) [OF wf(1) that(1,2)] v_wf_cong [OF D(8) [OF v(1)] v(2,3)] that(3) by (auto simp: nth split: if_splits)
  then have "bufs_wf tt kv (b1\<lparr>kb_v := set2 (kb_v b1) l s (Some t')\<rparr>)" using wf(1) by (simp add: bufs_wf_def)
  moreover have "same_types kv b (b1\<lparr>kb_v := set2 (kb_v b1) l s (Some t')\<rparr>)" using wf(2) v ls by (fastforce simp: same_types_def nth)
  ultimately show ?thesis by blast
qed

text \<open>What is written for the layers of a stream.\<close>

definition k_bytes :: "ggml_type_traits \<Rightarrow> llama_kv_cache \<Rightarrow> kv_bufs \<Rightarrow> nat \<Rightarrow> nat list \<Rightarrow> nat \<Rightarrow> bytes" where
  "k_bytes tt kv b s idxs l = rows_bytes tt (k_embd kv l) idxs (k_at b l s)"

definition v_bytes :: "ggml_type_traits \<Rightarrow> llama_kv_cache \<Rightarrow> kv_bufs \<Rightarrow> nat \<Rightarrow> nat list \<Rightarrow> nat \<Rightarrow> bytes" where
  "v_bytes tt kv b s idxs l = (case v_at b l s of None \<Rightarrow> [] | Some t \<Rightarrow>
     if kv_v_trans kv then trans_bytes tt (kv_cells_n kv) (v_embd kv l) idxs t else rows_bytes tt (v_embd kv l) idxs t)"

definition data_bytes :: "ggml_type_traits \<Rightarrow> llama_kv_cache \<Rightarrow> kv_bufs \<Rightarrow> nat \<Rightarrow> nat list \<Rightarrow> bytes" where
  "data_bytes tt kv b s idxs = le_bytes 4 (if kv_v_trans kv then 1 else 0) @ le_bytes 4 (int (length (kv_layers kv))) @
     concat (map (k_bytes tt kv b s idxs) [0..<length (kv_layers kv)]) @ concat (map (v_bytes tt kv b s idxs) [0..<length (kv_layers kv)])"

lemma state_write_data_spec:
  assumes inv: "kv_inv kv" and wf: "bufs_wf tt kv b" and s: "s < kv_n_stream kv" and cr: "ranges_wf (kv_cells_n kv) cr"
  shows "state_write_data tt kv b s cr = Some (data_bytes tt kv b s (range_cells cr))"
proof -
  let ?L = "length (kv_layers kv)" and ?c = "kv_v_cells kv ! s"
  have c: "at (kv_v_cells kv) s = Some ?c" "kc_size ?c = kv_cells_n kv" using kv_invD [OF inv s] by (auto simp: at_def kc_size_def)
  note D = bufs_wfD [OF wf _ s]
  let ?fk = "\<lambda>l io. do { ly \<leftarrow> at (kv_layers kv) l; n_embd \<leftarrow> n_embd_k_gqa (kl_il ly) (kv_hparams kv); k \<leftarrow> at2 (kb_k b) l s;
        d \<leftarrow> write_rows tt n_embd cr k; Some (io @ d) }"
  have "?fk l io = Some (io @ k_bytes tt kv b s (range_cells cr) l)" if "l \<in> set [0..<?L]" for l io
    using that D [of l] write_rows_spec [OF D(7) [of l] cr] by (simp add: at_def at2_in k_bytes_def)
  from write_loop [of "[0..<?L]" ?fk, OF this] have k: "for_each ?fk [0..<?L] [] = Some (concat (map (k_bytes tt kv b s (range_cells cr)) [0..<?L]))" by simp
  let ?fv = "\<lambda>l io. do { ly \<leftarrow> at (kv_layers kv) l; n_embd \<leftarrow> n_embd_v_gqa (kl_il ly) (kv_hparams kv); v \<leftarrow> at2 (kb_v b) l s;
        case v of None \<Rightarrow> Some io
        | Some t \<Rightarrow> do {
            d \<leftarrow> (if kv_v_trans kv then write_trans tt (kv_cells_n kv) n_embd cr t else write_rows tt n_embd cr t);
            Some (io @ d) } }"
  have "?fv l io = Some (io @ v_bytes tt kv b s (range_cells cr) l)" if "l \<in> set [0..<?L]" for l io
  proof (cases "v_at b l s")
    case None
    with that D [of l] show ?thesis by (simp add: at_def at2_in v_bytes_def)
  next
    case (Some t)
    from that D(8) [of l, OF _ Some] have "v_wf tt kv l t" by simp
    with that D [of l] Some show ?thesis
      by (auto simp: at_def at2_in v_bytes_def v_wf_def write_trans_spec [OF _ cr] write_rows_spec [OF _ cr] split: if_splits)
  qed
  from write_loop [of "[0..<?L]" ?fv, OF this] have v: "for_each ?fv [0..<?L] [] = Some (concat (map (v_bytes tt kv b s (range_cells cr)) [0..<?L]))" by simp
  show ?thesis unfolding state_write_data_def c(1) Option.bind_lunit c(2) k v by (simp add: data_bytes_def)
qed

definition k_same :: "ggml_type_traits \<Rightarrow> llama_kv_cache \<Rightarrow> nat list \<Rightarrow> nat \<Rightarrow> kv_tensor \<Rightarrow> kv_tensor \<Rightarrow> bool" where
  "k_same tt kv idxs l t t' \<longleftrightarrow> same_rows (ggml_row_size tt (t_type t) (k_embd kv l)) idxs t t'"

definition v_same :: "ggml_type_traits \<Rightarrow> llama_kv_cache \<Rightarrow> nat list \<Rightarrow> nat \<Rightarrow> kv_tensor option \<Rightarrow> kv_tensor option \<Rightarrow> bool" where
  "v_same tt kv idxs l v v' = (case v of None \<Rightarrow> v' = None | Some t \<Rightarrow> \<exists>t'. v' = Some t' \<and>
     (if kv_v_trans kv then same_trans (kv_cells_n kv) (v_embd kv l) (tt_type_size tt (t_type t)) idxs t t'
      else same_rows (ggml_row_size tt (t_type t) (v_embd kv l)) idxs t t'))"

definition data_restored :: "ggml_type_traits \<Rightarrow> llama_kv_cache \<Rightarrow> nat list \<Rightarrow> nat \<Rightarrow> kv_bufs \<Rightarrow> kv_bufs \<Rightarrow> bool" where
  "data_restored tt kv idxs s b b' \<longleftrightarrow> (\<forall>l<length (kv_layers kv). k_same tt kv idxs l (k_at b l s) (k_at b' l s) \<and> v_same tt kv idxs l (v_at b l s) (v_at b' l s))"

lemma same_typesD:
  assumes "same_types kv b b1" and "l < length (kv_layers kv)" and "s < kv_n_stream kv"
  shows "t_type (k_at b1 l s) = t_type (k_at b l s)" "v_at b l s = None \<longleftrightarrow> v_at b1 l s = None"
    "v_at b l s = Some t \<Longrightarrow> v_at b1 l s = Some t1 \<Longrightarrow> t_type t1 = t_type t"
proof -
  have D: "t_type (k_at b1 l s) = t_type (k_at b l s)" "map_option t_type (v_at b1 l s) = map_option t_type (v_at b l s)"
    using assms unfolding same_types_def by blast+
  show "t_type (k_at b1 l s) = t_type (k_at b l s)" by (rule D(1))
  show "v_at b l s = None \<longleftrightarrow> v_at b1 l s = None" using D(2) by (metis map_option_is_None)
  show "t_type t1 = t_type t" if "v_at b l s = Some t" "v_at b1 l s = Some t1" using D(2) that by simp
qed

lemma read_layers_k:
  assumes wf: "bufs_wf tt kv b" and s: "s < kv_n_stream kv" and conf: "same_config kv kv1"
    and idxs: "\<forall>i\<in>set idxs. i < kv_cells_n kv" "0 < length idxs" "length idxs \<le> kv_cells_n kv"
    and b1: "bufs_wf tt kv b1" "same_types kv b b1"
  shows "\<exists>b2. for_each (read_layer_k tt kv1 s (length idxs) (all_slot s (length idxs))) [0..<length (kv_layers kv)]
      (True, b1, concat (map (k_bytes tt kv b s idxs) [0..<length (kv_layers kv)]) @ io) = Some (True, b2, io) \<and>
    bufs_wf tt kv b2 \<and> same_types kv b b2 \<and> kb_v b2 = kb_v b1 \<and>
    (\<forall>l<length (kv_layers kv). k_same tt kv idxs l (k_at b l s) (k_at b2 l s))"
proof -
  let ?L = "length (kv_layers kv)" and ?m = "length idxs"
  let ?I = "\<lambda>m b2. bufs_wf tt kv b2 \<and> same_types kv b b2 \<and> kb_v b2 = kb_v b1 \<and> (\<forall>l<m. k_same tt kv idxs l (k_at b l s) (k_at b2 l s))"
  let ?mk = "\<lambda>b io. (True, b, io)"
  have "\<exists>b2. for_each (read_layer_k tt kv1 s ?m (all_slot s ?m)) [0..<length [0..<?L]]
      (?mk b1 (concat (map (k_bytes tt kv b s idxs) [0..<?L]) @ io)) = Some (?mk b2 io) \<and> ?I (length [0..<?L]) b2"
  proof (rule read_loop [where I = ?I])
    fix l b2 io assume "l < length [0..<?L]" and I: "?I l b2"
    then have l: "l < ?L" by simp
    note D = bufs_wfD [OF wf l s] and D2 = bufs_wfD [OF conjunct1 [OF I] l s]
    have ty: "t_type (k_at b2 l s) = t_type (k_at b l s)" using I same_typesD(1) [OF _ l s] by blast
    from read_rows_spec [OF D(7) D2(7) ty idxs, of s io] obtain k where k:
      "read_rows tt (k_embd kv l) ?m (all_slot s ?m) (k_at b2 l s) (k_bytes tt kv b s idxs l @ io) = Some (True, k, io)"
      "t_type k = t_type (k_at b2 l s)" "length (t_data k) = length (t_data (k_at b2 l s))" "k_same tt kv idxs l (k_at b l s) k"
      unfolding k_bytes_def k_same_def using ty by auto
    let ?b3 = "b2\<lparr>kb_k := set2 (kb_k b2) l s k\<rparr>"
    have b3: "bufs_wf tt kv ?b3 \<and> same_types kv b ?b3" using set_k [OF _ _ l s k(2,3)] I by blast
    have ly: "at (kv_layers kv1) l = Some (kv_layers kv ! l)" "kv_hparams kv1 = kv_hparams kv" using conf l by (auto simp: same_config_def at_def)
    have "read_layer_k tt kv1 s ?m (all_slot s ?m) l (True, b2, k_bytes tt kv b s idxs l @ io) = Some (True, ?b3, io)"
      using k(1) ly D2(5) at2_in [OF D2(1,3)] by (simp add: read_layer_k_def)
    moreover have "\<forall>l'<Suc l. k_same tt kv idxs l' (k_at b l' s) (k_at ?b3 l' s)"
      using I k(4) by (auto simp: set2_nth [OF D2(1,3)] less_Suc_eq)
    ultimately show "\<exists>b3. read_layer_k tt kv1 s ?m (all_slot s ?m) l (True, b2, k_bytes tt kv b s idxs ([0..<?L] ! l) @ io) = Some (True, b3, io) \<and> ?I (Suc l) b3"
      using I b3 l by (intro exI [of _ ?b3]) simp
  qed (use b1 in simp)
  then show ?thesis by simp
qed

lemma read_v:
  assumes t: "v_wf tt kv l t" "v_wf tt kv l t1" "t_type t1 = t_type t"
    and idxs: "\<forall>i\<in>set idxs. i < kv_cells_n kv" "0 < length idxs" "length idxs \<le> kv_cells_n kv" and v: "v_at b l s = Some t"
  shows "\<exists>t'. (if kv_v_trans kv then read_trans tt (kv_cells_n kv) (v_embd kv l) (length idxs) (all_slot s (length idxs)) t1 (v_bytes tt kv b s idxs l @ io)
      else read_rows tt (v_embd kv l) (length idxs) (all_slot s (length idxs)) t1 (v_bytes tt kv b s idxs l @ io)) = Some (True, t', io) \<and>
    t_type t' = t_type t1 \<and> length (t_data t') = length (t_data t1) \<and> v_same tt kv idxs l (Some t) (Some t')"
proof (cases "kv_v_trans kv")
  case True
  with t have "trans_wf tt (kv_cells_n kv) (v_embd kv l) t" "trans_wf tt (kv_cells_n kv) (v_embd kv l) t1" by (simp_all add: v_wf_def)
  from read_trans_spec [OF this t(3) idxs, of s io] True t(3) v show ?thesis by (simp add: v_bytes_def v_same_def)
next
  case False
  with t have "rows_wf tt (kv_cells_n kv) (v_embd kv l) t" "rows_wf tt (kv_cells_n kv) (v_embd kv l) t1" by (simp_all add: v_wf_def)
  from read_rows_spec [OF this t(3) idxs, of s io] False t(3) v show ?thesis by (simp add: v_bytes_def v_same_def)
qed

lemma read_layers_v:
  assumes wf: "bufs_wf tt kv b" and s: "s < kv_n_stream kv" and conf: "same_config kv kv1"
    and idxs: "\<forall>i\<in>set idxs. i < kv_cells_n kv" "0 < length idxs" "length idxs \<le> kv_cells_n kv"
    and c1: "at (kv_v_cells kv1) s = Some c1" "kc_size c1 = kv_cells_n kv"
    and b1: "bufs_wf tt kv b1" "same_types kv b b1"
  shows "\<exists>b2. for_each (read_layer_v tt kv1 s (length idxs) (all_slot s (length idxs))) [0..<length (kv_layers kv)]
      (True, b1, concat (map (v_bytes tt kv b s idxs) [0..<length (kv_layers kv)]) @ io) = Some (True, b2, io) \<and>
    bufs_wf tt kv b2 \<and> same_types kv b b2 \<and> kb_k b2 = kb_k b1 \<and>
    (\<forall>l<length (kv_layers kv). v_same tt kv idxs l (v_at b l s) (v_at b2 l s))"
proof -
  let ?L = "length (kv_layers kv)" and ?m = "length idxs"
  let ?I = "\<lambda>m b2. bufs_wf tt kv b2 \<and> same_types kv b b2 \<and> kb_k b2 = kb_k b1 \<and> (\<forall>l<m. v_same tt kv idxs l (v_at b l s) (v_at b2 l s))"
  let ?mk = "\<lambda>b io. (True, b, io)"
  have "\<exists>b2. for_each (read_layer_v tt kv1 s ?m (all_slot s ?m)) [0..<length [0..<?L]]
      (?mk b1 (concat (map (v_bytes tt kv b s idxs) [0..<?L]) @ io)) = Some (?mk b2 io) \<and> ?I (length [0..<?L]) b2"
  proof (rule read_loop [where I = ?I])
    fix l b2 io assume "l < length [0..<?L]" and I: "?I l b2"
    then have l: "l < ?L" by simp
    note D = bufs_wfD [OF wf l s] and D2 = bufs_wfD [OF conjunct1 [OF I] l s]
    note ty = same_typesD [OF conjunct1 [OF conjunct2 [OF I]] l s]
    have ly: "at (kv_layers kv1) l = Some (kv_layers kv ! l)" "kv_hparams kv1 = kv_hparams kv" "kv_v_trans kv1 = kv_v_trans kv"
      using conf l by (auto simp: same_config_def at_def)
    show "\<exists>b3. read_layer_v tt kv1 s ?m (all_slot s ?m) l (True, b2, v_bytes tt kv b s idxs ([0..<?L] ! l) @ io) = Some (True, b3, io) \<and> ?I (Suc l) b3"
    proof (cases "v_at b l s")
      case None
      with ty(2) have "v_at b2 l s = None" by blast
      with None have "read_layer_v tt kv1 s ?m (all_slot s ?m) l (True, b2, v_bytes tt kv b s idxs l @ io) = Some (True, b2, io)"
        using ly D2(6) at2_in [OF D2(2,4)] by (simp add: read_layer_v_def v_bytes_def)
      moreover have "\<forall>l'<Suc l. v_same tt kv idxs l' (v_at b l' s) (v_at b2 l' s)" using I None \<open>v_at b2 l s = None\<close> by (auto simp: less_Suc_eq v_same_def)
      ultimately show ?thesis using I l by (intro exI [of _ b2]) simp
    next
      case (Some t)
      with ty(2) obtain t1 where t1: "v_at b2 l s = Some t1" by (cases "v_at b2 l s") auto
      from read_v [OF D(8) [OF Some] D2(8) [OF t1] ty(3) [OF Some t1] idxs Some, of io] obtain t' where t':
        "(if kv_v_trans kv then read_trans tt (kv_cells_n kv) (v_embd kv l) ?m (all_slot s ?m) t1 (v_bytes tt kv b s idxs l @ io)
          else read_rows tt (v_embd kv l) ?m (all_slot s ?m) t1 (v_bytes tt kv b s idxs l @ io)) = Some (True, t', io)"
        "t_type t' = t_type t1" "length (t_data t') = length (t_data t1)" "v_same tt kv idxs l (Some t) (Some t')" by blast
      let ?b3 = "b2\<lparr>kb_v := set2 (kb_v b2) l s (Some t')\<rparr>"
      have b3: "bufs_wf tt kv ?b3 \<and> same_types kv b ?b3" using set_v [OF _ _ l s t1 t'(2,3)] I by blast
      have "read_layer_v tt kv1 s ?m (all_slot s ?m) l (True, b2, v_bytes tt kv b s idxs l @ io) = Some (True, ?b3, io)"
        using t'(1) ly D2(6) at2_in [OF D2(2,4)] t1 c1 by (cases "kv_v_trans kv") (simp_all add: read_layer_v_def)
      moreover have "\<forall>l'<Suc l. v_same tt kv idxs l' (v_at b l' s) (v_at ?b3 l' s)"
        using I t'(4) Some by (auto simp: set2_nth [OF D2(2,4)] less_Suc_eq)
      ultimately show ?thesis using I b3 l by (intro exI [of _ ?b3]) simp
    qed
  qed (use b1 in simp)
  then show ?thesis by simp
qed

lemma state_read_data_spec:
  assumes wf: "bufs_wf tt kv b" and s: "s < kv_n_stream kv" and conf: "same_config kv kv1"
    and idxs: "\<forall>i\<in>set idxs. i < kv_cells_n kv" "0 < length idxs" "length idxs \<le> kv_cells_n kv"
    and c1: "at (kv_v_cells kv1) s = Some c1" "kc_size c1 = kv_cells_n kv"
    and b1: "bufs_wf tt kv b1" "same_types kv b b1"
  shows "\<exists>b2. state_read_data tt kv1 s (length idxs) (all_slot s (length idxs)) b1 (data_bytes tt kv b s idxs @ io) = Some (True, b2, io) \<and>
    bufs_wf tt kv b2 \<and> same_types kv b b2 \<and> data_restored tt kv idxs s b b2"
proof -
  let ?L = "length (kv_layers kv)"
  let ?vb = "concat (map (v_bytes tt kv b s idxs) [0..<?L])"
  from read_layers_k [OF wf s conf idxs b1, of "?vb @ io"] obtain b2 where b2:
    "for_each (read_layer_k tt kv1 s (length idxs) (all_slot s (length idxs))) [0..<?L] (True, b1, concat (map (k_bytes tt kv b s idxs) [0..<?L]) @ ?vb @ io) = Some (True, b2, ?vb @ io)"
    "bufs_wf tt kv b2" "same_types kv b b2" "\<forall>l<?L. k_same tt kv idxs l (k_at b l s) (k_at b2 l s)" by blast
  from read_layers_v [OF wf s conf idxs c1 b2(2,3), of io] obtain b3 where b3:
    "for_each (read_layer_v tt kv1 s (length idxs) (all_slot s (length idxs))) [0..<?L] (True, b2, ?vb @ io) = Some (True, b3, io)"
    "bufs_wf tt kv b3" "same_types kv b b3" "kb_k b3 = kb_k b2" "\<forall>l<?L. v_same tt kv idxs l (v_at b l s) (v_at b3 l s)" by blast
  have cf: "kv_layers kv1 = kv_layers kv" "kv_v_trans kv1 = kv_v_trans kv" using conf by (auto simp: same_config_def)
  have "int ?L < 256 ^ 4" using wf by (simp add: bufs_wf_def)
  moreover have "(if kv_v_trans kv then 1 else 0) = int (if kv_v_trans kv then 1 else 0)" by simp
  moreover have "int (if kv_v_trans kv then 1 else 0) < 256 ^ 4" by simp
  ultimately have "state_read_data tt kv1 s (length idxs) (all_slot s (length idxs)) b1 (data_bytes tt kv b s idxs @ io) = Some (True, b3, io)"
    unfolding state_read_data_def data_bytes_def c1(1) cf using b2(1) b3(1) idxs(3) c1(2)
    by (simp only: append_assoc read_u_bytes Option.bind_lunit case_prod_conv) simp
  with b2(4) b3 show ?thesis by (auto simp: data_restored_def)
qed

section \<open>Streams\<close>

text \<open>What a saved cell keeps.\<close>

definition kept_cell :: "cell \<Rightarrow> cell" where
  "kept_cell x = empty_cell\<lparr>cl_pos := cl_pos x, cl_seq := cl_seq x\<rparr>"

text \<open>A cache that can be saved as a whole.\<close>

definition saveable :: "llama_kv_cache \<Rightarrow> bool" where
  "saveable kv \<longleftrightarrow> kv_inv kv \<and> seqs_fit kv \<and> kv_cells_n kv < 4294967296 \<and>
     (\<forall>s<kv_n_stream kv. \<forall>x\<in>set (stream_cells kv s). cl_seq x \<subseteq> {0..<int (kv_n_seq_max kv)})"

abbreviation used_idxs :: "llama_kv_cache \<Rightarrow> nat \<Rightarrow> nat list" where
  "used_idxs kv s \<equiv> sel_cells (- 1) (kv_v_cells kv ! s)"

abbreviation used_cells :: "llama_kv_cache \<Rightarrow> nat \<Rightarrow> cell list" where
  "used_cells kv s \<equiv> filter (\<lambda>x. cl_pos x \<noteq> - 1) (stream_cells kv s)"

lemma used_cells_idxs: "used_cells kv s = map ((!) (stream_cells kv s)) (used_idxs kv s)"
proof -
  let ?c = "kv_v_cells kv ! s"
  have "stream_cells kv s = map ((!) (stream_cells kv s)) [0..<length (kc_pos ?c)]" by (metis length_cells_of map_nth)
  then have "used_cells kv s = map ((!) (stream_cells kv s)) (filter (\<lambda>i. cl_pos (stream_cells kv s ! i) \<noteq> - 1) [0..<length (kc_pos ?c)])"
    by (metis (no_types, lifting) comp_apply filter_cong filter_map)
  also have "filter (\<lambda>i. cl_pos (stream_cells kv s ! i) \<noteq> - 1) [0..<length (kc_pos ?c)] = used_idxs kv s"
    unfolding sel_cells_def by (rule filter_cong) (auto simp: sel_def)
  finally show ?thesis .
qed

lemma restored_kept:
  assumes "saveable kv" and "s < kv_n_stream kv"
  shows "map (restored kv (kv_v_cells kv ! s)) (used_idxs kv s) = map kept_cell (used_cells kv s)"
proof -
  have "restored kv (kv_v_cells kv ! s) i = kept_cell (stream_cells kv s ! i)" if "i \<in> set (used_idxs kv s)" for i
  proof -
    have i: "i < length (kc_pos (kv_v_cells kv ! s))" using sel_cells_D [OF that] by blast
    then have "stream_cells kv s ! i \<in> set (stream_cells kv s)" by simp
    then have "cl_seq (stream_cells kv s ! i) \<subseteq> {0..<int (kv_n_seq_max kv)}" using assms unfolding saveable_def by blast
    then have sub: "kc_seq (kv_v_cells kv ! s) ! i \<subseteq> {0..<int (kv_n_seq_max kv)}" using i by simp
    have "set (cell_ids kv (- 1) (kv_v_cells kv ! s) i) = kc_seq (kv_v_cells kv ! s) ! i"
    proof
      show "kc_seq (kv_v_cells kv ! s) ! i \<subseteq> set (cell_ids kv (- 1) (kv_v_cells kv ! s) i)"
      proof
        fix x assume x: "x \<in> kc_seq (kv_v_cells kv ! s) ! i"
        with sub have "0 \<le> x" "x < int (kv_n_seq_max kv)" by auto
        then have "x = int (nat x)" "nat x < kv_n_seq_max kv" by auto
        then have "x \<in> int ` {0..<kv_n_seq_max kv}" by (metis atLeastLessThan_iff image_eqI le0)
        with x show "x \<in> set (cell_ids kv (- 1) (kv_v_cells kv ! s) i)" by (simp add: cell_ids_def)
      qed
    qed (auto simp: cell_ids_def)
    then show ?thesis using i by (simp add: restored_def kept_cell_def)
  qed
  then show ?thesis by (simp add: used_cells_idxs)
qed

definition stream_bytes :: "ggml_type_traits \<Rightarrow> llama_kv_cache \<Rightarrow> kv_bufs \<Rightarrow> nat \<Rightarrow> bytes" where
  "stream_bytes tt kv b s = le_bytes 4 (int (length (used_idxs kv s))) @ (if used_idxs kv s = [] then []
     else concat (map (cell_bytes kv (- 1) (kv_v_cells kv ! s)) (used_idxs kv s)) @ data_bytes tt kv b s (used_idxs kv s))"

lemma write_stream_spec:
  assumes sv: "saveable kv" and wf: "bufs_wf tt kv b" and s: "s < kv_n_stream kv"
  shows "write_stream tt kv b (- 1) s io = Some (io @ stream_bytes tt kv b s)"
proof -
  let ?c = "kv_v_cells kv ! s"
  have inv: "kv_inv kv" and fit: "seqs_fit kv" using sv by (auto simp: saveable_def)
  note D = kv_invD [OF inv s]
  from write_ranges_spec [OF D(1), of "- 1"] obtain cr where cr: "write_ranges (- 1) ?c = Some (length (used_idxs kv s), cr)"
    "range_cells cr = used_idxs kv s" "ranges_wf (length (kc_pos ?c)) cr" by blast
  from state_write_data_spec [OF inv wf s] cr(2,3) D(4) have "state_write_data tt kv b s cr = Some (data_bytes tt kv b s (used_idxs kv s))" by simp
  with cr state_write_meta_spec [OF D(1) fit cr(2)] D(2) show ?thesis by (simp add: write_stream_def stream_bytes_def at_def)
qed

lemma state_write_spec:
  assumes "saveable kv" and "bufs_wf tt kv b"
  shows "state_write tt kv b (- 1) = Some (le_bytes 4 (int (kv_n_stream kv)) @ concat (map (stream_bytes tt kv b) [0..<kv_n_stream kv]))"
  unfolding state_write_def by (rule write_loop) (simp add: write_stream_spec [OF assms])

section \<open>Restoring a stream\<close>

lemma zero_tensor_simps [simp]: "t_type (zero_tensor t) = t_type t" "length (t_data (zero_tensor t)) = length (t_data t)"
  by (simp_all add: zero_tensor_def)

lemma bufs_clear_wf:
  assumes wf: "bufs_wf tt kv b1" and ty: "same_types kv b b1"
  shows "bufs_wf tt kv (bufs_clear b1) \<and> same_types kv b (bufs_clear b1)"
proof -
  have k: "k_at (bufs_clear b1) l s = zero_tensor (k_at b1 l s)" and v: "v_at (bufs_clear b1) l s = map_option zero_tensor (v_at b1 l s)"
    if "l < length (kv_layers kv)" "s < kv_n_stream kv" for l s
    using bufs_wfD [OF wf that] by (auto simp: bufs_clear_def)
  have "map_option t_type (map_option zero_tensor x) = map_option t_type x" for x by (cases x) auto
  then have "same_types kv b (bufs_clear b1)" using ty k v by (simp add: same_types_def)
  moreover have "length (kb_k (bufs_clear b1)) = length (kb_k b1)" "length (kb_v (bufs_clear b1)) = length (kb_v b1)" by (simp_all add: bufs_clear_def)
  moreover have "length (kb_k (bufs_clear b1) ! l) = length (kb_k b1 ! l)" "length (kb_v (bufs_clear b1) ! l) = length (kb_v b1 ! l)" if "l < length (kv_layers kv)" for l
    using that wf by (auto simp: bufs_clear_def bufs_wf_def)
  moreover have "rows_wf tt (kv_cells_n kv) (k_embd kv l) (k_at (bufs_clear b1) l s)" if "l < length (kv_layers kv)" "s < kv_n_stream kv" for l s
    using rows_wf_cong [OF bufs_wfD(7) [OF wf that]] k [OF that] by simp
  moreover have "v_wf tt kv l t" if "l < length (kv_layers kv)" "s < kv_n_stream kv" "v_at (bufs_clear b1) l s = Some t" for l s t
  proof -
    from that(3) v [OF that(1,2)] obtain u where u: "v_at b1 l s = Some u" "t = zero_tensor u" by auto
    from v_wf_cong [OF bufs_wfD(8) [OF wf that(1,2) u(1)], of t] u(2) show ?thesis by simp
  qed
  ultimately show ?thesis using wf by (simp add: bufs_wf_def)
qed

lemma occupied_kept: "occupied_ok x \<Longrightarrow> occupied_ok (kept_cell x)"
  by (simp add: occupied_ok_def kept_cell_def empty_cell_def)

lemma restored_cells_ok:
  assumes "saveable kv" and "s < kv_n_stream kv"
  shows "\<forall>x\<in>set (map kept_cell (used_cells kv s) @ replicate n empty_cell). occupied_ok x"
proof -
  have "\<forall>x\<in>set (stream_cells kv s). occupied_ok x" using kv_invD(6) [OF _ assms(2)] assms(1) by (simp add: saveable_def)
  then have "\<forall>x\<in>set (used_cells kv s). occupied_ok (kept_cell x)" using occupied_kept by auto
  moreover have "occupied_ok empty_cell" by (simp add: occupied_ok_def empty_cell_def)
  ultimately show ?thesis by auto
qed

lemma read_meta_all_spec:
  assumes sv: "saveable kv" and s: "s < kv_n_stream kv" and inv1: "kv_inv kv1" and conf: "same_config kv kv1" and n1: "kv_cells_n kv1 = kv_cells_n kv"
    and m: "used_idxs kv s \<noteq> []"
  shows "\<exists>kv2. state_read_meta s (length (used_idxs kv s)) (- 1) kv1 b1 (concat (map (cell_bytes kv (- 1) (kv_v_cells kv ! s)) (used_idxs kv s)) @ io) =
      Some (True, all_slot s (length (used_idxs kv s)), kv2, bufs_clear b1, io) \<and>
    kv_inv kv2 \<and> same_config kv kv2 \<and> kv_cells_n kv2 = kv_cells_n kv \<and>
    stream_cells kv2 s = map kept_cell (used_cells kv s) @ replicate (kv_cells_n kv - length (used_cells kv s)) empty_cell \<and>
    (\<forall>t<kv_n_stream kv. t \<noteq> s \<longrightarrow> stream_cells kv2 t = replicate (kv_cells_n kv) empty_cell)"
proof -
  let ?c = "kv_v_cells kv ! s" and ?is = "used_idxs kv s" and ?n = "kv_cells_n kv"
  have inv: "kv_inv kv" and fit: "seqs_fit kv" using sv by (auto simp: saveable_def)
  note D = kv_invD [OF inv s]
  have s1: "s < kv_n_stream kv1" using conf s by (simp add: same_config_def)
  note D1 = kv_invD [OF inv1 s1]
  from kv_clear_spec [OF inv1] obtain kvc where kvc: "kv_clear kv1 = Some kvc" "kv_inv kvc" "same_config kv1 kvc"
    "\<forall>st<kv_n_stream kv1. stream_cells kvc st = replicate (kv_cells_n kv1) empty_cell \<and> kv_v_heads kvc ! st = 0" by blast
  have cc: "same_config kv kvc" by (rule same_config_trans [OF conf kvc(3)])
  have sc: "s < kv_n_stream kvc" using cc s by (simp add: same_config_def)
  note Dc = kv_invD [OF kvc(2) sc]
  let ?d = "kv_v_cells kvc ! s"
  have d: "cells_of ?d = replicate ?n empty_cell" using kvc(4) s1 n1 by simp
  then have nd: "length (kc_pos ?d) = ?n" by (metis length_cells_of length_replicate)
  have len: "length ?is \<le> ?n" using D(4) by (simp add: sel_cells_def) (metis length_filter_le length_upt minus_nat.diff_0)
  from read_cells_spec [OF D(1) Dc(1) d len fit, of kvc io] cc obtain d' where d':
    "for_each (read_cell kvc) [0..<length ?is] (True, ?d, concat (map (cell_bytes kv (- 1) ?c) ?is) @ io) = Some (True, d', io)"
    "kv_cells_inv d'" "cells_of d' = map kept_cell (used_cells kv s) @ replicate (?n - length ?is) empty_cell"
    by (auto simp: same_config_def restored_kept [OF sv s])
  have lu: "length (used_cells kv s) = length ?is" by (simp add: used_cells_idxs)
  have nd': "length (kc_pos d') = ?n" using d'(3) len lu by (metis length_append length_cells_of length_map length_replicate le_add_diff_inverse)
  let ?kv2 = "kvc\<lparr>kv_v_cells := (kv_v_cells kvc)[s := d'], kv_v_heads := (kv_v_heads kvc)[s := 0]\<rparr>"
  have inv2: "kv_inv ?kv2"
    by (rule kv_inv_update [OF kvc(2) sc d'(2)]) (use nd nd' restored_cells_ok [OF sv s] Dc in \<open>auto simp: d'(3)\<close>)
  have conf2: "same_config kv ?kv2" using cc by (simp add: same_config_def)
  have s0: "0 < kv_n_stream kvc" using kvc(2) by (simp add: kv_inv_def)
  then have n2: "kv_cells_n ?kv2 = ?n" using kvc(4) cc conf n1 nd' kv_invD(2,4) [OF kvc(2) s0] nd Dc(4) by (cases "s = 0") (simp_all add: same_config_def)
  have others: "\<forall>t<kv_n_stream kv. t \<noteq> s \<longrightarrow> stream_cells ?kv2 t = replicate ?n empty_cell"
    using kvc(4) conf n1 by (auto simp: same_config_def)
  have "state_read_meta s (length ?is) (- 1) kv1 b1 (concat (map (cell_bytes kv (- 1) ?c) ?is) @ io) = Some (True, all_slot s (length ?is), ?kv2, bufs_clear b1, io)"
    using D1 n1 len kvc(1) d'(1) Dc(2) by (simp add: state_read_meta_def read_meta_all_def at_def kc_size_def Let_def)
  moreover have "stream_cells ?kv2 s = map kept_cell (used_cells kv s) @ replicate (?n - length (used_cells kv s)) empty_cell"
    using d'(3) Dc(2) lu by simp
  ultimately show ?thesis using inv2 conf2 n2 others by blast
qed

lemma used_idxs_empty: "used_idxs kv s = [] \<longleftrightarrow> used_cells kv s = []"
  by (metis Nil_is_map_conv used_cells_idxs)

lemma used_idxs_bounds:
  assumes "saveable kv" and "s < kv_n_stream kv"
  shows "\<forall>i\<in>set (used_idxs kv s). i < kv_cells_n kv" and "length (used_idxs kv s) \<le> kv_cells_n kv" and "int (length (used_idxs kv s)) < 256 ^ 4"
proof -
  have n: "length (kc_pos (kv_v_cells kv ! s)) = kv_cells_n kv" "kv_cells_n kv < 4294967296"
    using assms kv_invD(4) [OF _ assms(2)] by (auto simp: saveable_def)
  show "\<forall>i\<in>set (used_idxs kv s). i < kv_cells_n kv" using n(1) by (auto simp: sel_cells_def)
  have "length (used_idxs kv s) \<le> length [0..<kv_cells_n kv]" unfolding sel_cells_def n(1) by (rule length_filter_le)
  then show "length (used_idxs kv s) \<le> kv_cells_n kv" by simp
  with n(2) show "int (length (used_idxs kv s)) < 256 ^ 4" by simp
qed

definition stream_restored :: "ggml_type_traits \<Rightarrow> llama_kv_cache \<Rightarrow> kv_bufs \<Rightarrow> nat \<Rightarrow> llama_kv_cache \<Rightarrow> kv_bufs \<Rightarrow> bool" where
  "stream_restored tt kv b s kv' b' \<longleftrightarrow>
     stream_cells kv' s = map kept_cell (used_cells kv s) @ replicate (kv_cells_n kv - length (used_cells kv s)) empty_cell \<and>
     data_restored tt kv (used_idxs kv s) s b b'"

definition streams_empty :: "llama_kv_cache \<Rightarrow> nat \<Rightarrow> bool" where
  "streams_empty kv s \<longleftrightarrow> (\<forall>t<kv_n_stream kv. t \<noteq> s \<longrightarrow> stream_cells kv t = replicate (kv_cells_n kv) empty_cell)"

text \<open>A cache into which a saved state of \<open>kv\<close> fits.\<close>

definition fits :: "ggml_type_traits \<Rightarrow> llama_kv_cache \<Rightarrow> kv_bufs \<Rightarrow> llama_kv_cache \<Rightarrow> kv_bufs \<Rightarrow> bool" where
  "fits tt kv b kv1 b1 \<longleftrightarrow> kv_inv kv1 \<and> same_config kv kv1 \<and> kv_cells_n kv1 = kv_cells_n kv \<and> bufs_wf tt kv b1 \<and> same_types kv b b1"

lemma read_stream_skip:
  assumes "used_idxs kv s = []"
  shows "read_stream tt (- 1) s (True, kv1, b1, stream_bytes tt kv b s @ io) = Some (True, kv1, b1, io)"
  using read_u_bytes [of 0 4 io] assms by (simp add: read_stream_def stream_bytes_def)

lemma read_stream_spec:
  assumes sv: "saveable kv" and wf: "bufs_wf tt kv b" and s: "s < kv_n_stream kv" and fit: "fits tt kv b kv1 b1" and m: "used_idxs kv s \<noteq> []"
  shows "\<exists>kv2 b2. read_stream tt (- 1) s (True, kv1, b1, stream_bytes tt kv b s @ io) = Some (True, kv2, b2, io) \<and>
    fits tt kv b kv2 b2 \<and> stream_restored tt kv b s kv2 b2 \<and> streams_empty kv2 s"
proof -
  let ?is = "used_idxs kv s"
  have f: "kv_inv kv1" "same_config kv kv1" "kv_cells_n kv1 = kv_cells_n kv" "bufs_wf tt kv b1" "same_types kv b b1" using fit by (auto simp: fits_def)
  from read_meta_all_spec [OF sv s f(1-3) m, of b1 "data_bytes tt kv b s ?is @ io"] obtain kv2 where kv2:
    "state_read_meta s (length ?is) (- 1) kv1 b1 (concat (map (cell_bytes kv (- 1) (kv_v_cells kv ! s)) ?is) @ data_bytes tt kv b s ?is @ io) =
      Some (True, all_slot s (length ?is), kv2, bufs_clear b1, data_bytes tt kv b s ?is @ io)"
    "kv_inv kv2" "same_config kv kv2" "kv_cells_n kv2 = kv_cells_n kv"
    "stream_cells kv2 s = map kept_cell (used_cells kv s) @ replicate (kv_cells_n kv - length (used_cells kv s)) empty_cell"
    "\<forall>t<kv_n_stream kv. t \<noteq> s \<longrightarrow> stream_cells kv2 t = replicate (kv_cells_n kv) empty_cell" by blast
  have s2: "s < kv_n_stream kv2" using kv2(3) s by (simp add: same_config_def)
  have c2: "at (kv_v_cells kv2) s = Some (kv_v_cells kv2 ! s)" "kc_size (kv_v_cells kv2 ! s) = kv_cells_n kv"
    using kv_invD(2,4) [OF kv2(2) s2] kv2(4) by (auto simp: at_def kc_size_def)
  note B = used_idxs_bounds [OF sv s]
  have m0: "0 < length ?is" using m by simp
  from bufs_clear_wf [OF f(4,5)] have bc: "bufs_wf tt kv (bufs_clear b1)" "same_types kv b (bufs_clear b1)" by auto
  from state_read_data_spec [OF wf s kv2(3) B(1) m0 B(2) c2 bc, of io] obtain b2 where b2:
    "state_read_data tt kv2 s (length ?is) (all_slot s (length ?is)) (bufs_clear b1) (data_bytes tt kv b s ?is @ io) = Some (True, b2, io)"
    "bufs_wf tt kv b2" "same_types kv b b2" "data_restored tt kv ?is s b b2" by blast
  have "read_stream tt (- 1) s (True, kv1, b1, stream_bytes tt kv b s @ io) = Some (True, kv2, b2, io)"
    using m B(3) kv2(1) b2(1) by (simp add: read_stream_def stream_bytes_def)
  moreover have "fits tt kv b kv2 b2" using kv2 b2 by (simp add: fits_def)
  moreover have "streams_empty kv2 s" using kv2(3,4,6) by (simp add: streams_empty_def same_config_def)
  ultimately show ?thesis using kv2(5) b2(4) by (auto simp: stream_restored_def)
qed

lemma read_streams_spec:
  assumes sv: "saveable kv" and wf: "bufs_wf tt kv b" and fit: "fits tt kv b kv1 b1"
  shows "\<exists>kv2 b2. for_each (read_stream tt (- 1)) [0..<kv_n_stream kv] (True, kv1, b1, concat (map (stream_bytes tt kv b) [0..<kv_n_stream kv]) @ io) =
      Some (True, kv2, b2, io) \<and> fits tt kv b kv2 b2 \<and> ((\<forall>s<kv_n_stream kv. used_cells kv s = []) \<longrightarrow> kv2 = kv1 \<and> b2 = b1) \<and>
    (\<forall>t<kv_n_stream kv. used_cells kv t \<noteq> [] \<and> (\<forall>s<kv_n_stream kv. t < s \<longrightarrow> used_cells kv s = []) \<longrightarrow>
       stream_restored tt kv b t kv2 b2 \<and> streams_empty kv2 t)"
proof -
  let ?S = "kv_n_stream kv"
  let ?I = "\<lambda>k (kv2, b2). fits tt kv b kv2 b2 \<and> ((\<forall>s<k. used_cells kv s = []) \<longrightarrow> kv2 = kv1 \<and> b2 = b1) \<and>
    (\<forall>t<k. used_cells kv t \<noteq> [] \<and> (\<forall>s<k. t < s \<longrightarrow> used_cells kv s = []) \<longrightarrow> stream_restored tt kv b t kv2 b2 \<and> streams_empty kv2 t)"
  let ?mk = "\<lambda>(kv2, b2) io. (True, kv2, b2, io)"
  have "\<exists>r. for_each (read_stream tt (- 1)) [0..<length [0..<?S]] (?mk (kv1, b1) (concat (map (stream_bytes tt kv b) [0..<?S]) @ io)) = Some (?mk r io) \<and>
    ?I (length [0..<?S]) r"
  proof (rule read_loop [where I = ?I])
    fix k r io assume "k < length [0..<?S]" and I: "?I k r"
    then have k: "k < ?S" by simp
    obtain kv2 b2 where r: "r = (kv2, b2)" by (cases r)
    have nth: "[0..<?S] ! k = k" using k by simp
    show "\<exists>r'. read_stream tt (- 1) k (?mk r (stream_bytes tt kv b ([0..<?S] ! k) @ io)) = Some (?mk r' io) \<and> ?I (Suc k) r'"
    proof (cases "used_cells kv k = []")
      case True
      then have "read_stream tt (- 1) k (?mk r (stream_bytes tt kv b k @ io)) = Some (?mk r io)"
        using read_stream_skip [of kv k] used_idxs_empty [of kv k] by (simp add: r)
      moreover have "?I (Suc k) r" using I True by (auto simp: r less_Suc_eq)
      ultimately show ?thesis unfolding nth by (intro exI conjI)
    next
      case False
      then have m: "used_idxs kv k \<noteq> []" using used_idxs_empty by blast
      have "fits tt kv b kv2 b2" using I by (simp add: r)
      from read_stream_spec [OF sv wf k this m, of io] obtain kv3 b3 where s3:
        "read_stream tt (- 1) k (True, kv2, b2, stream_bytes tt kv b k @ io) = Some (True, kv3, b3, io)" "fits tt kv b kv3 b3"
        "stream_restored tt kv b k kv3 b3" "streams_empty kv3 k" by blast
      have "?I (Suc k) (kv3, b3)" using s3(2-4) False by (auto simp: less_Suc_eq)
      with s3(1) show ?thesis unfolding nth r by (intro exI [of _ "(kv3, b3)"] conjI) simp_all
    qed
  qed (use fit in simp)
  then show ?thesis by (auto simp: case_prod_beta)
qed

lemma state_restore:
  assumes sv: "saveable kv" and wf: "bufs_wf tt kv b" and fit: "fits tt kv b kv1 b1"
  shows "\<exists>io kv2 b2. state_write tt kv b (- 1) = Some io \<and> state_read tt (- 1) kv1 b1 (io @ rest) = Some (True, kv2, b2, rest) \<and>
    fits tt kv b kv2 b2 \<and> ((\<forall>s<kv_n_stream kv. used_cells kv s = []) \<longrightarrow> kv2 = kv1 \<and> b2 = b1) \<and>
    (\<forall>t<kv_n_stream kv. used_cells kv t \<noteq> [] \<and> (\<forall>s<kv_n_stream kv. t < s \<longrightarrow> used_cells kv s = []) \<longrightarrow>
       stream_restored tt kv b t kv2 b2 \<and> streams_empty kv2 t)"
proof -
  let ?bs = "concat (map (stream_bytes tt kv b) [0..<kv_n_stream kv])"
  have n: "kv_n_stream kv1 = kv_n_stream kv" "kv_n_stream kv \<le> nat LLAMA_MAX_SEQ" using fit sv by (auto simp: fits_def same_config_def saveable_def kv_inv_def)
  then have "int (kv_n_stream kv) < 256 ^ 4" by (simp add: LLAMA_MAX_SEQ_def)
  then have "state_read tt (- 1) kv1 b1 ((le_bytes 4 (int (kv_n_stream kv)) @ ?bs) @ rest) = for_each (read_stream tt (- 1)) [0..<kv_n_stream kv] (True, kv1, b1, ?bs @ rest)"
    by (simp add: state_read_def n)
  with read_streams_spec [OF assms, of rest] state_write_spec [OF sv wf] show ?thesis by (intro exI [of _ "le_bytes 4 (int (kv_n_stream kv)) @ ?bs"]) simp
qed

text \<open>
  C11: Saving a cache with one stream and restoring it, into any cache of the same configuration, gives the used cells in their order,
  with their positions and sequences, in the first cells and empty cells behind, and for every layer the same key and value
  rows (also when values are transposed); exactly the saved bytes are read.  Only a cache without used cells is not restored: the
  old contents stay.
\<close>

theorem state_roundtrip:
  assumes "saveable kv" and "kv_n_stream kv = 1" and "bufs_wf tt kv b" and "fits tt kv b kv1 b1"
  shows "\<exists>io kv2 b2. state_write tt kv b (- 1) = Some io \<and> state_read tt (- 1) kv1 b1 (io @ rest) = Some (True, kv2, b2, rest) \<and> kv_inv kv2 \<and>
    (if used_cells kv 0 = [] then kv2 = kv1 \<and> b2 = b1
     else stream_cells kv2 0 = map kept_cell (used_cells kv 0) @ replicate (kv_cells_n kv - length (used_cells kv 0)) empty_cell \<and>
       data_restored tt kv (used_idxs kv 0) 0 b b2)"
proof -
  obtain io kv2 b2 where r: "state_write tt kv b (- 1) = Some io" "state_read tt (- 1) kv1 b1 (io @ rest) = Some (True, kv2, b2, rest)" "fits tt kv b kv2 b2"
    "(\<forall>s<kv_n_stream kv. used_cells kv s = []) \<longrightarrow> kv2 = kv1 \<and> b2 = b1"
    "\<forall>t<kv_n_stream kv. used_cells kv t \<noteq> [] \<and> (\<forall>s<kv_n_stream kv. t < s \<longrightarrow> used_cells kv s = []) \<longrightarrow>
       stream_restored tt kv b t kv2 b2 \<and> streams_empty kv2 t"
    using state_restore [OF assms(1,3,4), of rest] by blast
  have "stream_restored tt kv b 0 kv2 b2" if "used_cells kv 0 \<noteq> []" using r(5) that assms(2) by simp
  moreover have "kv2 = kv1 \<and> b2 = b1" if "used_cells kv 0 = []" using r(4) that assms(2) by simp
  moreover have "kv_inv kv2" using r(3) by (simp add: fits_def)
  ultimately show ?thesis using r(1,2) by (intro exI conjI) (auto simp: stream_restored_def)
qed

text \<open>
  C40: With several streams, restoring loses all of them but the last one that has used cells: each stream that is read clears the
  whole cache first.  The restore still reports success.
\<close>

theorem streams_lost:
  assumes "saveable kv" and "bufs_wf tt kv b" and "fits tt kv b kv1 b1"
    and "s < t" and "t < kv_n_stream kv" and "used_cells kv s \<noteq> []" and "used_cells kv t \<noteq> []"
  shows "\<exists>io kv2 b2. state_write tt kv b (- 1) = Some io \<and> state_read tt (- 1) kv1 b1 io = Some (True, kv2, b2, []) \<and>
    stream_cells kv2 s = replicate (kv_cells_n kv) empty_cell"
proof -
  let ?T = "{t. t < kv_n_stream kv \<and> used_cells kv t \<noteq> []}"
  have fin: "finite ?T" "t \<in> ?T" using assms(5,7) by auto
  have m: "Max ?T \<in> ?T" by (rule Max_in) (use fin in auto)
  have tm: "t \<le> Max ?T" by (rule Max_ge) (use fin in auto)
  have last: "\<forall>u<kv_n_stream kv. Max ?T < u \<longrightarrow> used_cells kv u = []" using Max_ge [OF fin(1)] by (metis (mono_tags, lifting) mem_Collect_eq not_le)
  obtain io kv2 b2 where r: "state_write tt kv b (- 1) = Some io" "state_read tt (- 1) kv1 b1 (io @ []) = Some (True, kv2, b2, [])" "fits tt kv b kv2 b2"
    "\<forall>t<kv_n_stream kv. used_cells kv t \<noteq> [] \<and> (\<forall>s<kv_n_stream kv. t < s \<longrightarrow> used_cells kv s = []) \<longrightarrow>
       stream_restored tt kv b t kv2 b2 \<and> streams_empty kv2 t"
    using state_restore [OF assms(1-3), of "[]"] by blast
  have "streams_empty kv2 (Max ?T)" using r(4) m last by blast
  moreover have "kv_n_stream kv2 = kv_n_stream kv" "kv_cells_n kv2 = kv_cells_n kv" using r(3) by (auto simp: fits_def same_config_def)
  moreover have "s \<noteq> Max ?T" "s < kv_n_stream kv" using assms(4,5) tm by linarith+
  ultimately have "stream_cells kv2 s = replicate (kv_cells_n kv) empty_cell" by (simp add: streams_empty_def)
  with r(1,2) show ?thesis by auto
qed

section \<open>Examples\<close>

definition f16 :: ggml_type_traits where
  "f16 = \<lparr>tt_blck_size = \<lambda>_. 1, tt_type_size = \<lambda>_. 2\<rparr>"

definition ex_tensor :: kv_tensor where
  "ex_tensor = \<lparr>t_type = 1, t_data = map int [0..<32]\<rparr>"

definition ex_bufs :: "nat \<Rightarrow> kv_bufs" where
  "ex_bufs n = \<lparr>kb_k = [replicate n ex_tensor], kb_v = [replicate n (Some ex_tensor)]\<rparr>"

lemma ex_layer:
  "kv_layers (ex_kv_new u) = [\<lparr>kl_il = 0, kl_n_embd_k = 4, kl_n_embd_v = 4, kl_has_v = True\<rparr>]" "kv_n_seq_max (ex_kv_new u) = 2" "\<not> kv_v_trans (ex_kv_new u)"
proof -
  have e: "is_mla ex_hp = Some False" "has_kv 0 ex_hp" "n_embd_k_gqa 0 ex_hp = Some 4" "n_embd_v_gqa 0 ex_hp = Some 4" "hp_n_layer ex_hp = 1"
    by (simp_all add: is_mla_def has_kv_def n_embd_k_gqa_def n_embd_v_gqa_def n_head_kv_def ex_hp_def u32_def)
  have "kv_layers k = [\<lparr>kl_il = 0, kl_n_embd_k = 4, kl_n_embd_v = 4, kl_has_v = True\<rparr>] \<and> kv_n_seq_max k = 2 \<and> \<not> kv_v_trans k"
    if "kv_cache_new ex_hp False False u 4 2 1 0 LLAMA_SWA_TYPE_NONE None None = Some k" for k
    using e that by (cases u) (auto simp: kv_cache_new_def kv_add_layer_def Let_def split: prod.splits)
  from this [OF ex_kv_new_Some]
  show "kv_layers (ex_kv_new u) = [\<lparr>kl_il = 0, kl_n_embd_k = 4, kl_n_embd_v = 4, kl_has_v = True\<rparr>]" "kv_n_seq_max (ex_kv_new u) = 2" "\<not> kv_v_trans (ex_kv_new u)"
    by blast+
qed

lemma ex_bufs_wf:
  assumes "same_config (ex_kv_new u) kv" and "kv_cells_n kv = 4"
  shows "bufs_wf f16 kv (ex_bufs (kv_n_stream kv))"
proof -
  have e: "n_embd_k_gqa 0 ex_hp = Some 4" "n_embd_v_gqa 0 ex_hp = Some 4"
    by (simp_all add: n_embd_k_gqa_def n_embd_v_gqa_def n_head_kv_def ex_hp_def u32_def)
  have c: "kv_layers kv = kv_layers (ex_kv_new u)" "kv_hparams kv = ex_hp" "\<not> kv_v_trans kv" using assms(1) ex_kv_new_inv(3) ex_layer(3) by (auto simp: same_config_def)
  then have emb: "k_embd kv 0 = 4" "v_embd kv 0 = 4" using e by (simp_all add: k_embd_def v_embd_def ex_layer)
  have "rows_wf f16 4 4 ex_tensor" by (simp add: rows_wf_def ggml_row_size_def f16_def ex_tensor_def i32_ok_def)
  with c e emb assms(2) show ?thesis by (simp add: bufs_wf_def ex_bufs_def v_wf_def ex_layer)
qed

lemma same_types_refl: "same_types kv b b"
  by (simp add: same_types_def)

lemma ex_config: "same_config (ex_kv_new True) ex_kv" "kv_cells_n ex_kv = 4" "kv_cells_n (ex_kv_new True) = 4"
  using ex_kv_inv(4) ex_cells_eval(2) by (auto simp: ex_kv_def same_config_def ex_kv_new_inv) (metis length_cells_of)

lemma ex_saveable: "saveable ex_kv"
proof -
  have "kv_n_seq_max ex_kv = 2" by (simp add: ex_kv_def ex_layer)
  moreover have "\<forall>x\<in>set (stream_cells ex_kv 0). cl_seq x \<subseteq> {0..<2}" by (simp add: ex_kv_inv(4) ex_cells_eval(3) empty_cell_def)
  ultimately show ?thesis using ex_kv_inv(1,2) ex_config(2) by (simp add: saveable_def seqs_fit_def LLAMA_MAX_SEQ_def)
qed

text \<open>The cache of the examples, restored into a new one.\<close>

theorem state_roundtrip_witness:
  "\<exists>io kv2 b2. state_write f16 ex_kv (ex_bufs 1) (- 1) = Some io \<and> state_read f16 (- 1) (ex_kv_new True) (ex_bufs 1) (io @ [7]) = Some (True, kv2, b2, [7]) \<and>
     stream_cells kv2 0 = stream_cells ex_kv 0"
proof -
  have wf: "bufs_wf f16 ex_kv (ex_bufs 1)" using ex_bufs_wf [OF ex_config(1,2)] by (simp add: ex_kv_inv)
  have "fits f16 ex_kv (ex_bufs 1) (ex_kv_new True) (ex_bufs 1)"
    using wf same_types_refl ex_config ex_kv_new_inv(1) by (simp add: fits_def same_config_def)
  from state_roundtrip [OF ex_saveable ex_kv_inv(2) wf this, of "[7]"] show ?thesis
    by (auto simp: ex_kv_inv(4) ex_cells_eval(3) ex_config kept_cell_def empty_cell_def numeral_2_eq_2)
qed

text \<open>Two streams, each with a used cell.\<close>

definition ex_kv3 :: llama_kv_cache where
  "ex_kv3 = ex_kv2\<lparr>kv_v_cells := (kv_v_cells ex_kv2)[1 := ex_cells2]\<rparr>"

lemma ex_kv3_facts:
  "kv_inv ex_kv3" "kv_n_stream ex_kv3 = 2" "kv_cells_n ex_kv3 = 4" "same_config (ex_kv_new False) ex_kv3"
  "stream_cells ex_kv3 0 = cells_of ex_cells2" "stream_cells ex_kv3 1 = cells_of ex_cells2"
proof -
  have l: "1 < length (kv_v_cells ex_kv2)" "length (kc_pos (kv_v_cells ex_kv2 ! 1)) = 4"
    using kv_invD(2,4) [OF ex_kv2_inv(1), of 1] by (simp_all add: ex_kv2_inv)
  show "kv_inv ex_kv3" unfolding ex_kv3_def
    by (rule kv_inv_update_cells) (simp_all add: ex_kv2_inv ex_cells2_eval kv_cells_check_inv occupied_ok_def empty_cell_def l(2) [simplified])
  show "kv_n_stream ex_kv3 = 2" "kv_cells_n ex_kv3 = 4" "stream_cells ex_kv3 0 = cells_of ex_cells2" by (simp_all add: ex_kv3_def ex_kv2_inv)
  show "same_config (ex_kv_new False) ex_kv3" by (simp add: ex_kv3_def ex_kv2_def same_config_def)
  show "stream_cells ex_kv3 1 = cells_of ex_cells2" using l(1) by (simp add: ex_kv3_def)
qed

theorem streams_lost_witness:
  "\<exists>io kv2 b2. state_write f16 ex_kv3 (ex_bufs 2) (- 1) = Some io \<and> state_read f16 (- 1) (ex_kv_new False) (ex_bufs 2) io = Some (True, kv2, b2, []) \<and>
     stream_cells kv2 0 \<noteq> stream_cells ex_kv3 0"
proof -
  have wf: "bufs_wf f16 ex_kv3 (ex_bufs 2)" using ex_bufs_wf [OF ex_kv3_facts(4,3)] by (simp add: ex_kv3_facts)
  have u: "used_cells ex_kv3 0 \<noteq> []" "used_cells ex_kv3 1 \<noteq> []" by (simp_all add: ex_kv3_facts ex_kv3_facts(6) [simplified] ex_cells2_eval(3) empty_cell_def)
  have "kv_n_seq_max ex_kv3 = 2" by (simp add: ex_kv3_def ex_kv2_def ex_layer)
  moreover have "\<forall>s<kv_n_stream ex_kv3. \<forall>x\<in>set (stream_cells ex_kv3 s). cl_seq x \<subseteq> {0..<2}"
    using ex_kv3_facts(5,6) by (auto simp: ex_kv3_facts(2) ex_cells2_eval(3) empty_cell_def less_2_cases_iff)
  ultimately have sv: "saveable ex_kv3" using ex_kv3_facts(1-3) by (simp add: saveable_def seqs_fit_def LLAMA_MAX_SEQ_def)
  have "fits f16 ex_kv3 (ex_bufs 2) (ex_kv_new False) (ex_bufs 2)"
    using wf same_types_refl ex_kv3_facts ex_kv_new_inv(1,4) by (simp add: fits_def same_config_def)
  from streams_lost [OF sv wf this _ _ u] show ?thesis
    by (auto simp: ex_kv3_facts ex_cells2_eval(3) empty_cell_def numeral_eq_Suc)
qed

section \<open>Sequences with two-dimensional positions\<close>

lemma for_each_first: "xs \<noteq> [] \<Longrightarrow> f (hd xs) s = None \<Longrightarrow> for_each f xs s = None"
  by (cases xs) auto

lemma apply_ubatch_short:
  assumes "is_pos_2d ub" and "length (ub_pos ub) = ub_n_tokens ub" and "0 < ub_n_tokens ub"
  shows "apply_ubatch si ub kv = None"
proof (rule ccontr)
  assume "apply_ubatch si ub kv \<noteq> None"
  then obtain n r where n: "si_size si = Some n" "ub_n_tokens ub = si_n_stream si * n"
    "for_each (apply_token si ub) [(s, ii). s \<leftarrow> [0..<si_n_stream si], ii \<leftarrow> [0..<n]] (kv, \<lambda>_. - 1) = Some r"
    by (auto simp: apply_ubatch_def split: Option.bind_splits if_splits)
  have pos: "0 < si_n_stream si" "0 < n" using n(2) assms(3) by auto
  let ?xs = "[(s, ii). s \<leftarrow> [0..<si_n_stream si], ii \<leftarrow> [0..<n]]"
  have xs: "?xs \<noteq> [] \<and> hd ?xs = (0, 0)" using pos by (simp add: upt_conv_Cons)
  have "at (ub_pos ub) (0 + ub_n_tokens ub * 2) = None" using assms(2,3) by (simp add: at_def)
  then have "apply_token si ub (0, 0) (kv, \<lambda>_. - 1) = None"
    using assms(1) n(1) by (auto simp: apply_token_def bind_eq_None_conv split: if_splits)
  with for_each_first [of ?xs "apply_token si ub"] xs n(3) show False by simp
qed

lemma read_seq_cells_shape:
  assumes "for_each (read_seq_cell dest) xs (Some ub, io) = Some (Some ub', io')"
  shows "ub_n_pos ub' = ub_n_pos ub \<and> length (ub_pos ub') = length (ub_pos ub) \<and> ub_n_tokens ub' = ub_n_tokens ub"
proof -
  have None: "for_each (read_seq_cell dest) xs (None, io) = Some (None, io)" for xs io
    by (induction xs) (auto simp: read_seq_cell_def)
  show ?thesis using assms
  proof (induction xs arbitrary: ub io)
    case (Cons x xs)
    then obtain r io1 where r: "read_seq_cell dest x (Some ub, io) = Some (r, io1)" "for_each (read_seq_cell dest) xs (r, io1) = Some (Some ub', io')"
      by (auto split: Option.bind_splits)
    show ?case
    proof (cases r)
      case (Some ub1)
      with r(1) have "ub_n_pos ub1 = ub_n_pos ub \<and> length (ub_pos ub1) = length (ub_pos ub) \<and> ub_n_tokens ub1 = ub_n_tokens ub"
        by (auto simp: read_seq_cell_def split: Option.bind_splits if_splits)
      with Cons.IH [of ub1 io1] r(2) Some show ?thesis by simp
    qed (use r(2) None in simp)
  qed simp
qed



end
