(* ===== verification/Unicode_Split.thy ===== *)
theory Unicode_Split
  imports Unicode
begin

text \<open>
  The hand-written splitters of the pre-tokenizer in \<open>src/src/unicode.cpp\<close>, for the regular expressions of GPT-2, Llama 3,
  Kimi K2 and AFMoE, and the flags of code points under them.  The generated tables of \<open>src/src/unicode-data.cpp\<close> are the
  record \<open>unicode_tables\<close>, an argument of the definitions.

  Positions are \<open>size_t\<close> below the length of the text: \<open>nat\<close>.  The result \<open>None\<close> is a failed \<open>assert\<close>, an exception or a
  loop that does not end.
\<close>

section \<open>Flags of code points\<close>

record unicode_cpt_flags =
  is_undefined :: bool
  is_number :: bool
  is_letter :: bool
  is_separator :: bool
  is_accent_mark :: bool
  is_punctuation :: bool
  is_symbol :: bool
  is_control :: bool
  is_whitespace :: bool
  is_lowercase :: bool
  is_uppercase :: bool
  is_nfd :: bool

definition cpt_flags_of_uint :: "int \<Rightarrow> unicode_cpt_flags" where
  "cpt_flags_of_uint flags =
     \<lparr>is_undefined = bit_set flags 0x0001, is_number = bit_set flags 0x0002, is_letter = bit_set flags 0x0004,
      is_separator = bit_set flags 0x0008, is_accent_mark = bit_set flags 0x0010, is_punctuation = bit_set flags 0x0020,
      is_symbol = bit_set flags 0x0040, is_control = bit_set flags 0x0080, is_whitespace = bit_set flags 0x0100,
      is_lowercase = bit_set flags 0x0200, is_uppercase = bit_set flags 0x0400, is_nfd = bit_set flags 0x0800\<rparr>"

definition as_uint :: "unicode_cpt_flags \<Rightarrow> int" where
  "as_uint f =
     of_bool (is_undefined f) * 0x0001 + of_bool (is_number f) * 0x0002 + of_bool (is_letter f) * 0x0004
     + of_bool (is_separator f) * 0x0008 + of_bool (is_accent_mark f) * 0x0010 + of_bool (is_punctuation f) * 0x0020
     + of_bool (is_symbol f) * 0x0040 + of_bool (is_control f) * 0x0080 + of_bool (is_whitespace f) * 0x0100
     + of_bool (is_lowercase f) * 0x0200 + of_bool (is_uppercase f) * 0x0400 + of_bool (is_nfd f) * 0x0800"

definition category_flag :: "unicode_cpt_flags \<Rightarrow> int" where
  "category_flag f = as_uint f mod 0x0100"

record unicode_tables =
  unicode_ranges_flags :: "(int \<times> int) list"
  unicode_set_whitespace :: "int list"
  unicode_map_lowercase :: "(int \<times> int) list"
  unicode_map_uppercase :: "(int \<times> int) list"
  unicode_ranges_nfd :: "(int \<times> int \<times> int) list"

definition MAX_CODEPOINTS :: int where
  "MAX_CODEPOINTS = 0x110000"

text \<open>The array that \<open>unicode_cpt_flags_array\<close> fills, by its entry for a code point.\<close>

definition unicode_cpt_flags_array :: "unicode_tables \<Rightarrow> int \<Rightarrow> unicode_cpt_flags" where
  "unicode_cpt_flags_array tb cpt =
     (let rs = unicode_ranges_flags tb;
          f = fold (\<lambda>(range_ini, range_end) f. if fst range_ini \<le> cpt \<and> cpt < fst range_end then cpt_flags_of_uint (snd range_ini) else f)
                (zip rs (tl rs)) (cpt_flags_of_uint 0x0001);
          f = (if cpt \<in> set (unicode_set_whitespace tb) then f\<lparr>is_whitespace := True\<rparr> else f);
          f = (if cpt \<in> snd ` set (unicode_map_lowercase tb) then f\<lparr>is_lowercase := True\<rparr> else f);
          f = (if cpt \<in> snd ` set (unicode_map_uppercase tb) then f\<lparr>is_uppercase := True\<rparr> else f)
      in if cpt \<in> (\<lambda>(first, lst, nfd). nfd) ` set (unicode_ranges_nfd tb) then f\<lparr>is_nfd := True\<rparr> else f)"

definition unicode_cpt_flags_from_cpt :: "unicode_tables \<Rightarrow> int \<Rightarrow> unicode_cpt_flags" where
  "unicode_cpt_flags_from_cpt tb cpt =
     (if cpt < MAX_CODEPOINTS then unicode_cpt_flags_array tb cpt else cpt_flags_of_uint 0x0001)"

definition unicode_cpt_flags_from_utf8 :: "unicode_tables \<Rightarrow> string \<Rightarrow> unicode_cpt_flags option" where
  "unicode_cpt_flags_from_utf8 tb utf8 =
     (if utf8 = [] then Some (cpt_flags_of_uint 0x0001)
      else map_option (\<lambda>(cpt, offset). unicode_cpt_flags_from_cpt tb cpt) (unicode_cpt_from_utf8 utf8 0))"

text \<open>\<open>std::lower_bound\<close> on the sorted table.\<close>

definition unicode_tolower :: "unicode_tables \<Rightarrow> int \<Rightarrow> int" where
  "unicode_tolower tb cpt =
     (case dropWhile (\<lambda>p. fst p < cpt) (unicode_map_lowercase tb) of
        [] \<Rightarrow> cpt
      | p # ps \<Rightarrow> if fst p = cpt then snd p else cpt)"

text \<open>
  \<open>std::upper_bound\<close> on the table sorted by first code point, and one step back; \<open>None\<close> is a read before the table.
\<close>

definition unicode_cpts_normalize_nfd :: "unicode_tables \<Rightarrow> int list \<Rightarrow> int list option" where
  "unicode_cpts_normalize_nfd tb cpts =
     for_each (\<lambda>cpt result.
       case rev (takeWhile (\<lambda>(first, lst, nfd). \<not> cpt < first) (unicode_ranges_nfd tb)) of
         [] \<Rightarrow> None
       | (first, lst, nfd) # _ \<Rightarrow> Some (result @ [if first \<le> cpt \<and> cpt \<le> lst then nfd else cpt])) cpts []"

definition unicode_cpt_is_han :: "int \<Rightarrow> bool" where
  "unicode_cpt_is_han cpt \<longleftrightarrow>
     cpt \<ge> 0x4E00 \<and> cpt \<le> 0x9FFF \<or>
     cpt \<ge> 0x3400 \<and> cpt \<le> 0x4DBF \<or>
     cpt \<ge> 0x20000 \<and> cpt \<le> 0x2A6DF \<or>
     cpt \<ge> 0x2A700 \<and> cpt \<le> 0x2B73F \<or>
     cpt \<ge> 0x2B740 \<and> cpt \<le> 0x2B81F \<or>
     cpt \<ge> 0x2B820 \<and> cpt \<le> 0x2CEAF \<or>
     cpt \<ge> 0x2CEB0 \<and> cpt \<le> 0x2EBEF \<or>
     cpt \<ge> 0xF900 \<and> cpt \<le> 0xFAFF \<or>
     cpt \<ge> 0x2F800 \<and> cpt \<le> 0x2FA1F"

section \<open>Windows\<close>

text \<open>The state of the loop over one window: the position, the end of the last word and the lengths of the words.\<close>

record split_state =
  spos :: nat
  prev_end :: nat
  bpe_offs :: "nat list"

type_synonym cpt_getter = "nat \<Rightarrow> int"
type_synonym flags_getter = "nat \<Rightarrow> unicode_cpt_flags"
type_synonym split_step = "cpt_getter \<Rightarrow> flags_getter \<Rightarrow> nat \<Rightarrow> split_state \<Rightarrow> split_state option"

definition OUT_OF_RANGE :: int where
  "OUT_OF_RANGE = 0xFFFFFFFF"

definition no_flags :: unicode_cpt_flags where
  "no_flags = cpt_flags_of_uint 0"

definition get_cpt :: "int list \<Rightarrow> nat \<Rightarrow> nat \<Rightarrow> cpt_getter" where
  "get_cpt cpts offset_ini offset_end pos = (if offset_ini \<le> pos \<and> pos < offset_end then cpts ! pos else OUT_OF_RANGE)"

definition get_flags :: "unicode_tables \<Rightarrow> int list \<Rightarrow> nat \<Rightarrow> nat \<Rightarrow> flags_getter" where
  "get_flags tb cpts offset_ini offset_end pos =
     (if offset_ini \<le> pos \<and> pos < offset_end then unicode_cpt_flags_from_cpt tb (cpts ! pos) else no_flags)"

text \<open>\<open>_add_token\<close> returns the length of the word.\<close>

definition add_token :: "nat \<Rightarrow> nat \<Rightarrow> split_state \<Rightarrow> (nat \<times> split_state) option" where
  "add_token offset_end end st = do {
     ggml_assert (prev_end st \<le> end \<and> end \<le> offset_end);
     let len = end - prev_end st;
     Some (len, st\<lparr>bpe_offs := (if len > 0 then bpe_offs st @ [len] else bpe_offs st), prev_end := end\<rparr>) }"

text \<open>\<open>pos = end; _add_token(pos)\<close>.\<close>

definition move_token :: "nat \<Rightarrow> nat \<Rightarrow> split_state \<Rightarrow> split_state option" where
  "move_token offset_end end st = do { (len, st) \<leftarrow> add_token offset_end end st; Some (st\<lparr>spos := end\<rparr>) }"

text \<open>\<open>while (P(pos)) ++pos\<close>.\<close>

partial_function (option) advance :: "(nat \<Rightarrow> bool) \<Rightarrow> nat \<Rightarrow> nat option" where
  "advance P pos = (if P pos then advance P (pos + 1) else Some pos)"

partial_function (option) window_loop :: "(split_state \<Rightarrow> split_state option) \<Rightarrow> nat \<Rightarrow> split_state \<Rightarrow> split_state option" where
  "window_loop step offset_end st =
     (if spos st < offset_end then Option.bind (step st) (window_loop step offset_end) else Some st)"

text \<open>The loop over the windows, with the body of the inner loop and what follows it as arguments.\<close>

definition split_window ::
  "split_step \<Rightarrow> (nat \<Rightarrow> split_state \<Rightarrow> split_state option) \<Rightarrow> unicode_tables \<Rightarrow> int list \<Rightarrow> nat \<Rightarrow> nat \<times> nat list \<Rightarrow> (nat \<times> nat list) option" where
  "split_window step finish tb cpts offset = (\<lambda>(start, bpe_offsets). do {
     let offset_ini = start;
     let offset_end = start + offset;
     ggml_assert (offset_end \<le> length cpts);
     st \<leftarrow> window_loop (step (get_cpt cpts offset_ini offset_end) (get_flags tb cpts offset_ini offset_end) offset_end) offset_end
            \<lparr>spos = offset_ini, prev_end = offset_ini, bpe_offs = bpe_offsets\<rparr>;
     st \<leftarrow> finish offset_end st;
     Some (offset_end, bpe_offs st) })"

definition split_windows ::
  "split_step \<Rightarrow> (nat \<Rightarrow> split_state \<Rightarrow> split_state option) \<Rightarrow> unicode_tables \<Rightarrow> string \<Rightarrow> nat list \<Rightarrow> nat list option" where
  "split_windows step finish tb text offsets =
     map_option snd (for_each (split_window step finish tb (unicode_cpts_from_utf8 text)) offsets (0, []))"

section \<open>The splitters\<close>

text \<open>The length of a contraction \<open>'s\<close>, \<open>'t\<close>, \<open>'re\<close>, \<open>'ve\<close>, \<open>'m\<close>, \<open>'ll\<close>, \<open>'d\<close> at a position, and 0 if there is none.\<close>

abbreviation cp :: "char \<Rightarrow> int" where
  "cp c \<equiv> of_char c"

definition contraction :: "(int \<Rightarrow> int) \<Rightarrow> cpt_getter \<Rightarrow> nat \<Rightarrow> nat \<Rightarrow> nat" where
  "contraction lower C offset_end pos =
     (if C pos = 39 \<and> pos + 1 < offset_end then
        let cpt_next = lower (C (pos + 1)) in
        if cpt_next = cp CHR ''s'' \<or> cpt_next = cp CHR ''t'' \<or> cpt_next = cp CHR ''m'' \<or> cpt_next = cp CHR ''d'' then 2
        else if pos + 2 < offset_end then
          let cpt_next_next = lower (C (pos + 2)) in
          if cpt_next = cp CHR ''r'' \<and> cpt_next_next = cp CHR ''e'' \<or>
             cpt_next = cp CHR ''v'' \<and> cpt_next_next = cp CHR ''e'' \<or>
             cpt_next = cp CHR ''l'' \<and> cpt_next_next = cp CHR ''l'' then 3
          else 0
        else 0
      else 0)"

definition is_other :: "unicode_cpt_flags \<Rightarrow> bool" where
  "is_other f \<longleftrightarrow> \<not> (is_whitespace f \<or> is_letter f \<or> is_number f) \<and> as_uint f \<noteq> 0"

definition is_rn :: "int \<Rightarrow> bool" where
  "is_rn cpt \<longleftrightarrow> cpt = 13 \<or> cpt = 10"

text \<open>The last cases of the loops: \<open>\s+(?!\S)\<close>, \<open>\s+\<close> and one code point.\<close>

definition split_whitespace :: "cpt_getter \<Rightarrow> nat \<Rightarrow> nat \<Rightarrow> split_state \<Rightarrow> split_state option" where
  "split_whitespace C offset_end num_whitespaces st =
     (let pos = spos st in
      if num_whitespaces > 1 \<and> C (pos + num_whitespaces) \<noteq> OUT_OF_RANGE then move_token offset_end (pos + (num_whitespaces - 1)) st
      else if num_whitespaces > 0 then move_token offset_end (pos + num_whitespaces) st
      else move_token offset_end (pos + 1) st)"

definition gpt2_step :: split_step where
  "gpt2_step C F offset_end st =
     (let pos = spos st; cpt = C pos; flags = F pos; k = contraction id C offset_end pos in
      if k > 0 then do {
        (len, st) \<leftarrow> add_token offset_end (pos + k) st;
        Some (st\<lparr>spos := pos + len\<rparr>) }
      else
        let sp = (if cpt = 32 then 1 else 0); flags2 = (if cpt = 32 then F (pos + 1) else flags) in
        if is_letter flags2 then do {
          pos \<leftarrow> advance (\<lambda>p. is_letter (F p)) (pos + sp);
          move_token offset_end pos st }
        else if is_number flags2 then do {
          pos \<leftarrow> advance (\<lambda>p. is_number (F p)) (pos + sp);
          move_token offset_end pos st }
        else if is_other flags2 then do {
          pos \<leftarrow> advance (\<lambda>p. is_other (F p)) (pos + sp);
          move_token offset_end pos st }
        else do {
          e \<leftarrow> advance (\<lambda>p. is_whitespace (F p)) pos;
          split_whitespace C offset_end (e - pos) st })"

definition unicode_regex_split_custom_gpt2 :: "unicode_tables \<Rightarrow> string \<Rightarrow> nat list \<Rightarrow> nat list option" where
  "unicode_regex_split_custom_gpt2 = split_windows gpt2_step (\<lambda>_. Some)"

text \<open>\<open>\p{N}{1,3}\<close>: the digits from \<open>pos\<close> in groups of three, the last group closed by the caller.\<close>

partial_function (option) number_loop :: "flags_getter \<Rightarrow> nat \<Rightarrow> nat \<Rightarrow> split_state \<Rightarrow> split_state option" where
  "number_loop F offset_end ini st =
     (if is_number (F (spos st)) then
        let st = st\<lparr>spos := spos st + 1\<rparr> in
        if spos st - ini \<ge> 3 then
          Option.bind (add_token offset_end (spos st) st) (\<lambda>(len, st). number_loop F offset_end (spos st) st)
        else number_loop F offset_end ini st
      else map_option snd (add_token offset_end (spos st) st))"

text \<open>The number of whitespace code points, and the end of the last line break among them or 0.\<close>

partial_function (option) whitespace_loop :: "cpt_getter \<Rightarrow> flags_getter \<Rightarrow> nat \<Rightarrow> nat \<Rightarrow> nat \<Rightarrow> (nat \<times> nat) option" where
  "whitespace_loop C F pos num_whitespaces last_end_r_or_n =
     (if is_whitespace (F (pos + num_whitespaces)) then
        whitespace_loop C F pos (num_whitespaces + 1)
          (if is_rn (C (pos + num_whitespaces)) then pos + num_whitespaces + 1 else last_end_r_or_n)
      else Some (num_whitespaces, last_end_r_or_n))"

text \<open>\<open>\s*[\r\n]+\<close> and what follows it.\<close>

definition split_line_breaks :: "cpt_getter \<Rightarrow> flags_getter \<Rightarrow> nat \<Rightarrow> split_state \<Rightarrow> split_state option" where
  "split_line_breaks C F offset_end st = do {
     (num_whitespaces, last_end_r_or_n) \<leftarrow> whitespace_loop C F (spos st) 0 0;
     if last_end_r_or_n > 0 then move_token offset_end last_end_r_or_n st
     else split_whitespace C offset_end num_whitespaces st }"

text \<open>The run of other code points from \<open>pos\<close> and the line breaks behind it.\<close>

definition other_run :: "cpt_getter \<Rightarrow> flags_getter \<Rightarrow> nat \<Rightarrow> nat option" where
  "other_run C F pos = do { pos \<leftarrow> advance (\<lambda>p. is_other (F p)) pos; advance (\<lambda>p. is_rn (C p)) pos }"

definition llama3_step :: "(int \<Rightarrow> int) \<Rightarrow> split_step" where
  "llama3_step lower C F offset_end st =
     (let pos = spos st; cpt = C pos; flags = F pos; k = contraction lower C offset_end pos in
      if k > 0 then do {
        (len, st) \<leftarrow> add_token offset_end (pos + k) st;
        Some (st\<lparr>spos := pos + len\<rparr>) }
      else if \<not> (is_rn cpt \<or> is_number flags) \<and> (is_letter flags \<or> is_letter (F (pos + 1))) then do {
        pos \<leftarrow> advance (\<lambda>p. is_letter (F p)) (pos + 1);
        move_token offset_end pos st }
      else if is_number flags then number_loop F offset_end pos st
      else
        let sp = (if cpt = 32 then 1 else 0); flags2 = (if cpt = 32 then F (pos + 1) else flags) in
        if \<not> (is_whitespace flags2 \<or> is_letter flags2 \<or> is_number flags2) \<and> as_uint flags \<noteq> 0 then do {
          pos \<leftarrow> other_run C F (pos + sp);
          move_token offset_end pos st }
        else split_line_breaks C F offset_end st)"

definition unicode_regex_split_custom_llama3 :: "unicode_tables \<Rightarrow> string \<Rightarrow> nat list \<Rightarrow> nat list option" where
  "unicode_regex_split_custom_llama3 tb = split_windows (llama3_step (unicode_tolower tb)) (\<lambda>_. Some) tb"

text \<open>A letter that is not Han, and a code point that may precede the letters of a word.\<close>

definition is_word_letter :: "cpt_getter \<Rightarrow> flags_getter \<Rightarrow> nat \<Rightarrow> bool" where
  "is_word_letter C F p \<longleftrightarrow> is_letter (F p) \<and> \<not> unicode_cpt_is_han (C p)"

definition is_leading :: "cpt_getter \<Rightarrow> flags_getter \<Rightarrow> nat \<Rightarrow> bool" where
  "is_leading C F p \<longleftrightarrow> \<not> (is_rn (C p) \<or> is_letter (F p) \<or> is_number (F p))"

text \<open>
  The letter patterns of Kimi K2 from \<open>pos\<close>: \<open>Inl\<close> is the end of the word, \<open>Inr\<close> the position with which the following
  patterns go on.
\<close>

definition kimi_letters :: "(int \<Rightarrow> int) \<Rightarrow> cpt_getter \<Rightarrow> flags_getter \<Rightarrow> nat \<Rightarrow> nat \<Rightarrow> (nat + nat) option" where
  "kimi_letters lower C F offset_end pos =
     (if is_word_letter C F pos \<or> is_leading C F pos \<and> is_word_letter C F (pos + 1) then
        let has_leading_char = is_leading C F pos; pos = (if has_leading_char then pos + 1 else pos) in do {
        e \<leftarrow> advance (is_word_letter C F) pos;
        let has_letters = (e > pos);
        let pos = e;
        if has_letters \<or> \<not> has_leading_char \<and> is_word_letter C F pos then do {
          pos \<leftarrow> advance (is_word_letter C F) (if has_letters then pos else pos + 1);
          Some (Inl (pos + contraction lower C offset_end pos)) }
        else Some (Inr (if has_leading_char then pos - 1 else pos)) }
      else Some (Inr pos))"

definition kimi_k2_step :: "(int \<Rightarrow> int) \<Rightarrow> split_step" where
  "kimi_k2_step lower C F offset_end st =
     (let cpt = C (spos st); flags = F (spos st) in
      if unicode_cpt_is_han cpt then do {
        pos \<leftarrow> advance (\<lambda>p. unicode_cpt_is_han (C p)) (spos st);
        move_token offset_end pos st }
      else do {
        r \<leftarrow> kimi_letters lower C F offset_end (spos st);
        case r of
          Inl pos \<Rightarrow> move_token offset_end pos st
        | Inr pos \<Rightarrow>
            let st = st\<lparr>spos := pos\<rparr> in
            if is_number flags then number_loop F offset_end pos st
            else
              let sp = (if cpt = 32 then 1 else 0); flags2 = (if cpt = 32 then F (pos + 1) else flags) in
              if is_other flags2 then do {
                pos \<leftarrow> other_run C F (pos + sp);
                move_token offset_end pos st }
              else split_line_breaks C F offset_end st })"

definition unicode_regex_split_custom_kimi_k2 :: "unicode_tables \<Rightarrow> string \<Rightarrow> nat list \<Rightarrow> nat list option" where
  "unicode_regex_split_custom_kimi_k2 tb = split_windows (kimi_k2_step (unicode_tolower tb)) (\<lambda>_. Some) tb"

text \<open>AFMoE: \<open>while (current < limit) { _add_token(current + 3); current += 3; }\<close>.\<close>

partial_function (option) groups_loop :: "nat \<Rightarrow> nat \<Rightarrow> nat \<Rightarrow> split_state \<Rightarrow> split_state option" where
  "groups_loop offset_end limit current st =
     (if current < limit then
        Option.bind (add_token offset_end (current + 3) st) (\<lambda>(len, st). groups_loop offset_end limit (current + 3) st)
      else Some st)"

definition afmoe_step :: split_step where
  "afmoe_step C F offset_end st =
     (let digit_start = spos st in
      if is_number (F digit_start) then do {
        pos \<leftarrow> advance (\<lambda>p. is_number (F p) \<and> p < offset_end) digit_start;
        let st = st\<lparr>spos := pos\<rparr>;
        let digit_count = pos - digit_start;
        let remainder = digit_count mod 3;
        st \<leftarrow> (if remainder > 0 then map_option snd (add_token offset_end (digit_start + remainder) st) else Some st);
        groups_loop offset_end (digit_start + digit_count) (digit_start + remainder) st }
      else Some (st\<lparr>spos := spos st + 1\<rparr>))"

definition afmoe_finish :: "nat \<Rightarrow> split_state \<Rightarrow> split_state option" where
  "afmoe_finish offset_end st =
     (if prev_end st < offset_end then map_option snd (add_token offset_end offset_end st) else Some st)"

definition unicode_regex_split_custom_afmoe :: "unicode_tables \<Rightarrow> string \<Rightarrow> nat list \<Rightarrow> nat list option" where
  "unicode_regex_split_custom_afmoe = split_windows afmoe_step afmoe_finish"

text \<open>The expressions of the source; \<open>#\<close> stands for the backslash.\<close>

definition cstr :: "string \<Rightarrow> string" where
  "cstr s = map (\<lambda>c. if c = CHR ''#'' then CHR 0x5C else c) s"

definition gpt2_regex :: string where
  "gpt2_regex = cstr '''s|'t|'re|'ve|'m|'ll|'d| ?#p{L}+| ?#p{N}+| ?[^#s#p{L}#p{N}]+|#s+(?!#S)''"

definition llama3_regex_i :: string where
  "llama3_regex_i = cstr ''(?i:'s|'t|'re|'ve|'m|'ll|'d)|[^#r#n#p{L}#p{N}]?#p{L}+|#p{N}{1,3}| ?[^#s#p{L}#p{N}]+[#r#n]*|#s*[#r#n]+|#s+(?!#S)|#s+''"

definition llama3_regex :: string where
  "llama3_regex = cstr ''(?:'[sS]|'[tT]|'[rR][eE]|'[vV][eE]|'[mM]|'[lL][lL]|'[dD])|[^#r#n#p{L}#p{N}]?#p{L}+|#p{N}{1,3}| ?[^#s#p{L}#p{N}]+[#r#n]*|#s*[#r#n]+|#s+(?!#S)|#s+''"

definition kimi_regex :: string where
  "kimi_regex = cstr ''#p{Han}+''"

definition afmoe_regex :: string where
  "afmoe_regex = cstr ''#p{AFMoE_digits}''"

definition tiny_aya_regex :: string where
  "tiny_aya_regex = cstr ''#d{1,3}(?=(?:#d{3})*#b)''"

definition unicode_regex_split_custom :: "unicode_tables \<Rightarrow> string \<Rightarrow> string \<Rightarrow> nat list \<Rightarrow> nat list option" where
  "unicode_regex_split_custom tb text regex_expr offsets =
     (if regex_expr = gpt2_regex then unicode_regex_split_custom_gpt2 tb text offsets
      else if regex_expr = llama3_regex_i \<or> regex_expr = llama3_regex then unicode_regex_split_custom_llama3 tb text offsets
      else if regex_expr = kimi_regex then unicode_regex_split_custom_kimi_k2 tb text offsets
      else if regex_expr = afmoe_regex then unicode_regex_split_custom_afmoe tb text offsets
      else if regex_expr = tiny_aya_regex then unicode_regex_split_custom_afmoe tb text offsets
      else Some [])"

text \<open>The loops compute by their equations.\<close>

declare advance.simps [code] window_loop.simps [code] number_loop.simps [code] whitespace_loop.simps [code] groups_loop.simps [code]

end
