(* ===== verification/Unicode_Partition.thy ===== *)
theory Unicode_Partition
  imports Unicode_Split
begin

text \<open>
  The splitters end, none of their assertions fails, and the words they find subdivide the windows they are given.  The
  loop over the windows is verified once, in a locale that states what one pass of the inner loop promises; the four
  splitters of the source interpret it.
\<close>

section \<open>Words of one window\<close>

text \<open>The words added between two states fill the text between their ends.\<close>

definition emitted :: "split_state \<Rightarrow> split_state \<Rightarrow> bool" where
  "emitted st st' \<longleftrightarrow> (\<exists>ls. bpe_offs st' = bpe_offs st @ ls \<and> (\<forall>l\<in>set ls. 0 < l) \<and> prev_end st + sum_list ls = prev_end st')"

lemma emitted_refl [simp]: "emitted st st" "emitted st (st\<lparr>spos := p\<rparr>)"
  by (auto simp: emitted_def intro: exI [of _ "[]"])

lemma emitted_spos [simp]: "emitted (st\<lparr>spos := p\<rparr>) st' = emitted st st'" "emitted st (st'\<lparr>spos := p\<rparr>) = emitted st st'"
  by (simp_all add: emitted_def)

lemma emitted_trans [trans]: "emitted a b \<Longrightarrow> emitted b c \<Longrightarrow> emitted a c"
  unfolding emitted_def by (elim exE, rename_tac ls ls', rule_tac x = "ls @ ls'" in exI) auto

lemma add_token_ok:
  assumes "prev_end st \<le> e" and "e \<le> offset_end"
  shows "\<exists>st'. add_token offset_end e st = Some (e - prev_end st, st') \<and> emitted st st' \<and> prev_end st' = e \<and> spos st' = spos st"
proof (cases "prev_end st < e")
  case True
  then show ?thesis using assms by (simp add: add_token_def emitted_def Let_def)
next
  case False
  then show ?thesis using assms by (simp add: add_token_def emitted_def)
qed

lemma move_token_ok:
  assumes "prev_end st \<le> e" and "e \<le> offset_end"
  shows "\<exists>st'. move_token offset_end e st = Some st' \<and> emitted st st' \<and> prev_end st' = e \<and> spos st' = e"
  using add_token_ok [OF assms] by (auto simp: move_token_def)

section \<open>Runs\<close>

text \<open>Outside the window every code point is \<open>OUT_OF_RANGE\<close> and every flag is clear.\<close>

definition quiet :: "cpt_getter \<Rightarrow> flags_getter \<Rightarrow> nat \<Rightarrow> bool" where
  "quiet C F e \<longleftrightarrow> (\<forall>p\<ge>e. C p = OUT_OF_RANGE \<and> F p = no_flags)"

lemma no_flags_simps [simp]:
  "\<not> is_letter no_flags" "\<not> is_number no_flags" "\<not> is_whitespace no_flags" "\<not> is_other no_flags"
  by (simp_all add: no_flags_def cpt_flags_of_uint_def is_other_def as_uint_def)

lemma OUT_OF_RANGE_simps [simp]: "\<not> is_rn OUT_OF_RANGE" "\<not> unicode_cpt_is_han OUT_OF_RANGE" "OUT_OF_RANGE \<noteq> 32" "OUT_OF_RANGE \<noteq> 39"
  by (simp_all add: OUT_OF_RANGE_def is_rn_def unicode_cpt_is_han_def)

lemma quietD: "quiet C F e \<Longrightarrow> e \<le> p \<Longrightarrow> C p = OUT_OF_RANGE \<and> F p = no_flags"
  by (simp add: quiet_def)

lemma quiet_get: "quiet (get_cpt cpts ini e) (get_flags tb cpts ini e) e"
  by (simp add: quiet_def get_cpt_def get_flags_def)

text \<open>A predicate that fails from a position on.\<close>

definition ends_by :: "(nat \<Rightarrow> bool) \<Rightarrow> nat \<Rightarrow> bool" where
  "ends_by P e \<longleftrightarrow> (\<forall>i\<ge>e. \<not> P i)"

lemma ends_by_flags: "quiet C F e \<Longrightarrow> \<not> Q no_flags \<Longrightarrow> ends_by (\<lambda>p. Q (F p)) e"
  by (simp add: ends_by_def quiet_def)

lemma ends_by_cpts: "quiet C F e \<Longrightarrow> \<not> Q OUT_OF_RANGE \<Longrightarrow> ends_by (\<lambda>p. Q (C p)) e"
  by (simp add: ends_by_def quiet_def)

definition run :: "(nat \<Rightarrow> bool) \<Rightarrow> nat \<Rightarrow> nat \<Rightarrow> bool" where
  "run P p q \<longleftrightarrow> p \<le> q \<and> \<not> P q \<and> (\<forall>i. p \<le> i \<and> i < q \<longrightarrow> P i)"

lemma run_start: "\<not> P p \<Longrightarrow> run P p p"
  by (auto simp: run_def)

lemma run_Suc: "P p \<Longrightarrow> run P (Suc p) q \<Longrightarrow> run P p q"
  by (auto simp: run_def) (metis le_neq_implies_less Suc_leI)

lemma run_nonempty: "run P p q \<Longrightarrow> P p \<Longrightarrow> p < q"
  by (metis le_neq_implies_less run_def)

lemma run_bound: "run P p q \<Longrightarrow> ends_by P e \<Longrightarrow> p \<le> e \<Longrightarrow> q \<le> e"
  by (metis ends_by_def linorder_not_le order_refl run_def)

lemma run_unique: "run P p q \<Longrightarrow> run P p q' \<Longrightarrow> q = q'"
  by (metis linorder_neqE_nat run_def)

lemma run_exists:
  assumes "ends_by P e"
  shows "\<exists>q. run P p q"
proof (induction "e - p" arbitrary: p)
  case 0
  then show ?case using assms run_start [of P p] by (auto simp: ends_by_def)
next
  case (Suc k)
  then obtain q where "run P (Suc p) q" using Suc.hyps(1) [of "Suc p"] by (metis Suc.hyps(2) diff_Suc diff_Suc_Suc Suc_diff_Suc nat.inject zero_less_Suc zero_less_diff)
  then show ?case using run_Suc [of P p q] run_start [of P p] by blast
qed

lemma advance_run: "run P p q \<Longrightarrow> advance P p = Some q"
proof (induction "q - p" arbitrary: p)
  case 0
  then have "p = q" by (simp add: run_def)
  with 0 show ?case by (subst advance.simps) (simp add: run_def)
next
  case (Suc k)
  then have "P p" "run P (Suc p) q" by (auto simp: run_def)
  with Suc show ?case by (subst advance.simps) simp
qed

lemma advance_ok:
  assumes "ends_by P e" and "p \<le> e"
  shows "\<exists>q. advance P p = Some q \<and> run P p q \<and> p \<le> q \<and> q \<le> e"
proof -
  obtain q where q: "run P p q" using run_exists [OF assms(1)] by blast
  then show ?thesis using advance_run [OF q] run_bound [OF q assms] by (auto simp: run_def)
qed

text \<open>One pass that moves the position and closes the word there.\<close>

definition pass_ok :: "nat \<Rightarrow> split_state \<Rightarrow> split_state option \<Rightarrow> bool" where
  "pass_ok e st r \<longleftrightarrow> (\<exists>st'. r = Some st' \<and> emitted st st' \<and> prev_end st' = spos st' \<and> spos st < spos st' \<and> spos st' \<le> e)"

lemma pass_if: "(b \<Longrightarrow> pass_ok e st x) \<Longrightarrow> (\<not> b \<Longrightarrow> pass_ok e st y) \<Longrightarrow> pass_ok e st (if b then x else y)"
  by simp

lemma pass_move:
  assumes "prev_end st = spos st" and "spos st < q" and "q \<le> e"
  shows "pass_ok e st (move_token e q st)"
  using move_token_ok [of st q e] assms by (fastforce simp: pass_ok_def)

lemma pass_advance:
  assumes "prev_end st = spos st" and "ends_by P e" and "spos st \<le> p" and "p \<le> e" and "p = spos st \<Longrightarrow> P p"
  shows "pass_ok e st (Option.bind (advance P p) (\<lambda>q. move_token e q st))"
proof -
  obtain q where q: "advance P p = Some q" "run P p q" "p \<le> q" "q \<le> e" using advance_ok [OF assms(2,4)] by blast
  have "spos st < q" using q(2,3) assms(3,5) run_nonempty [of P p q] by (cases "p = spos st") auto
  then show ?thesis using pass_move [OF assms(1)] q by simp
qed

lemma pass_add:
  assumes "prev_end st = spos st" and "0 < k" and "spos st + k \<le> e"
  shows "pass_ok e st (Option.bind (add_token e (spos st + k) st) (\<lambda>(len, st'). Some (st'\<lparr>spos := spos st + len\<rparr>)))"
  using add_token_ok [of st "spos st + k" e] assms by (fastforce simp: pass_ok_def)

lemma contraction_bound: "p < e \<Longrightarrow> p + contraction lower C e p \<le> e"
  by (auto simp: contraction_def Let_def)

lemma contraction_bound_le: "p \<le> e \<Longrightarrow> p + contraction lower C e p \<le> e"
  by (auto simp: contraction_def Let_def)

lemma pass_whitespace:
  assumes "prev_end st = spos st" and "spos st < e" and "spos st + n \<le> e"
  shows "pass_ok e st (split_whitespace C e n st)"
  using assms by (auto simp: split_whitespace_def Let_def intro!: pass_move)

lemma number_loop_ok:
  assumes "quiet C F e" and "spos st \<le> e" and "prev_end st \<le> spos st" and "spos st < e \<or> \<not> is_number (F (spos st))"
  shows "\<exists>st'. number_loop F e ini st = Some st' \<and> emitted st st' \<and> prev_end st' = spos st' \<and> spos st \<le> spos st' \<and>
    (is_number (F (spos st)) \<longrightarrow> spos st < spos st') \<and> spos st' \<le> e"
  using assms(2-)
proof (induction "e - spos st" arbitrary: ini st rule: less_induct)
  case less
  show ?case
  proof (cases "is_number (F (spos st))")
    case True
    then have lt: "spos st < e" using less.prems by simp
    let ?st = "st\<lparr>spos := spos st + 1\<rparr>"
    have IH: "\<exists>st'. number_loop F e i s = Some st' \<and> emitted s st' \<and> prev_end st' = spos st' \<and> spos s \<le> spos st' \<and> spos st' \<le> e"
      if "spos s = spos st + 1" "prev_end s \<le> spos s" for i s
      using less.hyps [of s i] that lt quietD [OF assms(1), of "spos s"] by fastforce
    obtain s where s: "add_token e (spos st + 1) ?st = Some (spos st + 1 - prev_end st, s)" "emitted st s" "prev_end s = spos st + 1" "spos s = spos st + 1"
      using add_token_ok [of ?st "spos st + 1" e] less.prems lt by auto
    show ?thesis
    proof (cases "3 \<le> spos ?st - ini")
      case big: True
      obtain st' where "number_loop F e (spos s) s = Some st'" "emitted s st'" "prev_end st' = spos st'" "spos s \<le> spos st'" "spos st' \<le> e"
        using IH [of s "spos s"] s by auto
      then show ?thesis using True big s emitted_trans [OF s(2)] by (subst number_loop.simps) (auto simp: Let_def)
    next
      case small: False
      then show ?thesis using True IH [of ?st ini] less.prems by (subst number_loop.simps) (fastforce simp: Let_def)
    qed
  next
    case False
    then show ?thesis using add_token_ok [of st "spos st" e] less.prems by (subst number_loop.simps) auto
  qed
qed

lemma pass_numbers:
  assumes "quiet C F e" and "spos st < e" and "prev_end st = spos st" and "is_number (F (spos st))"
  shows "pass_ok e st (number_loop F e ini st)"
  using number_loop_ok [OF assms(1), of st ini] assms by (auto simp: pass_ok_def)

lemma whitespace_loop_ok:
  assumes "quiet C F e" and "run (\<lambda>p. is_whitespace (F p)) (pos + n) q"
  shows "\<exists>l'. whitespace_loop C F pos n l = Some (q - pos, l') \<and>
    (l' = l \<and> (\<forall>i. pos + n \<le> i \<and> i < q \<longrightarrow> \<not> is_rn (C i)) \<or>
     (\<exists>i. pos + n \<le> i \<and> i < q \<and> is_rn (C i) \<and> l' = i + 1 \<and> (\<forall>j. i < j \<and> j < q \<longrightarrow> \<not> is_rn (C j))))"
  using assms(2)
proof (induction "q - (pos + n)" arbitrary: n l)
  case 0
  then have "q = pos + n" by (simp add: run_def)
  with 0 show ?case by (subst whitespace_loop.simps) (auto simp: run_def)
next
  case (Suc k)
  then have w: "is_whitespace (F (pos + n))" and r: "run (\<lambda>p. is_whitespace (F p)) (pos + (n + 1)) q" by (auto simp: run_def)
  have k: "k = q - (pos + (n + 1))" using Suc.hyps(2) by simp
  let ?l = "if is_rn (C (pos + n)) then pos + n + 1 else l"
  obtain l' where l': "whitespace_loop C F pos (n + 1) ?l = Some (q - pos, l')"
    "l' = ?l \<and> (\<forall>i. pos + (n + 1) \<le> i \<and> i < q \<longrightarrow> \<not> is_rn (C i)) \<or>
     (\<exists>i. pos + (n + 1) \<le> i \<and> i < q \<and> is_rn (C i) \<and> l' = i + 1 \<and> (\<forall>j. i < j \<and> j < q \<longrightarrow> \<not> is_rn (C j)))"
    using Suc.hyps(1) [OF k r, of ?l] by auto
  have lt: "pos + n < q" using Suc.hyps(2) by simp
  show ?case
  proof (rule exI [of _ l'], rule conjI)
    show "whitespace_loop C F pos n l = Some (q - pos, l')" using l'(1) w by (subst whitespace_loop.simps) simp
    show "l' = l \<and> (\<forall>i. pos + n \<le> i \<and> i < q \<longrightarrow> \<not> is_rn (C i)) \<or>
     (\<exists>i. pos + n \<le> i \<and> i < q \<and> is_rn (C i) \<and> l' = i + 1 \<and> (\<forall>j. i < j \<and> j < q \<longrightarrow> \<not> is_rn (C j)))"
      using l'(2)
    proof
      assume "\<exists>i. pos + (n + 1) \<le> i \<and> i < q \<and> is_rn (C i) \<and> l' = i + 1 \<and> (\<forall>j. i < j \<and> j < q \<longrightarrow> \<not> is_rn (C j))"
      then obtain i where "pos + (n + 1) \<le> i" "i < q \<and> is_rn (C i) \<and> l' = i + 1 \<and> (\<forall>j. i < j \<and> j < q \<longrightarrow> \<not> is_rn (C j))"
        by blast
      then show ?thesis by (intro disjI2 exI [of _ i]) simp
    next
      assume a: "l' = ?l \<and> (\<forall>i. pos + (n + 1) \<le> i \<and> i < q \<longrightarrow> \<not> is_rn (C i))"
      have "pos + (n + 1) \<le> i" if "pos + n < i" for i using that by simp
      then have later: "\<forall>j. pos + n < j \<and> j < q \<longrightarrow> \<not> is_rn (C j)" using a by blast
      show ?thesis
      proof (cases "is_rn (C (pos + n))")
        case True
        then show ?thesis using a lt later by (intro disjI2 exI [of _ "pos + n"]) simp
      next
        case False
        have "\<not> is_rn (C i)" if "pos + n \<le> i \<and> i < q" for i
          using that False later by (cases "i = pos + n") auto
        then show ?thesis using a False by simp
      qed
    qed
  qed
qed

lemma pass_line_breaks:
  assumes "quiet C F e" and "spos st < e" and "prev_end st = spos st"
  shows "pass_ok e st (split_line_breaks C F e st)"
proof -
  let ?p = "spos st" and ?W = "\<lambda>p. is_whitespace (F p)"
  have q0: "ends_by ?W e" using assms(1) by (rule ends_by_flags) simp
  obtain q where q: "run ?W (?p + 0) q" using run_exists [OF q0] by auto
  have "q \<le> e" using run_bound [OF q q0] assms(2) by simp
  moreover obtain l where l: "whitespace_loop C F ?p 0 0 = Some (q - ?p, l)" "l = 0 \<or> (\<exists>i. ?p \<le> i \<and> i < q \<and> l = i + 1)"
    using whitespace_loop_ok [OF assms(1) q, of 0] by auto
  moreover have "?p \<le> q" using q by (simp add: run_def)
  ultimately show ?thesis using assms
    by (auto simp: split_line_breaks_def intro!: pass_whitespace pass_move)
qed

lemma pass_other_run:
  assumes "quiet C F e" and "prev_end st = spos st" and "spos st \<le> p" and "p \<le> e" and "p = spos st \<Longrightarrow> is_other (F p)"
  shows "pass_ok e st (Option.bind (other_run C F p) (\<lambda>q. move_token e q st))"
proof -
  let ?P = "\<lambda>p. is_other (F p)" and ?R = "\<lambda>p. is_rn (C p)"
  have quiet_P: "ends_by ?P e" and quiet_R: "ends_by ?R e"
    using ends_by_flags [OF assms(1), of is_other] ends_by_cpts [OF assms(1), of is_rn] by simp_all
  obtain q where q: "advance ?P p = Some q" "run ?P p q" "p \<le> q" "q \<le> e"
    using advance_ok [OF quiet_P assms(4)] by blast
  obtain r where r: "advance ?R q = Some r" "q \<le> r" "r \<le> e" using advance_ok [OF quiet_R q(4)] by blast
  have "spos st < q" using q(2,3) assms(3,5) run_nonempty [of ?P p q] by (cases "p = spos st") auto
  then have "pass_ok e st (move_token e r st)" using r by (intro pass_move [OF assms(2)]) auto
  then show ?thesis using q r by (simp add: other_run_def)
qed

section \<open>The splitters\<close>

lemma space_inside: "quiet C F e \<Longrightarrow> p < e \<Longrightarrow> F (p + 1) \<noteq> no_flags \<Longrightarrow> p + 1 < e"
  using quietD [of C F e "p + 1"] by fastforce

lemma gpt2_pass:
  assumes "quiet C F e" and "spos st < e" and "prev_end st = spos st"
  shows "pass_ok e st (gpt2_step C F e st)"
proof -
  let ?p = "spos st"
  let ?sp = "if C ?p = 32 then 1 else 0" and ?f = "if C ?p = 32 then F (?p + 1) else F ?p"
  have run: "pass_ok e st (Option.bind (advance (\<lambda>p. Q (F p)) (?p + ?sp)) (\<lambda>q. move_token e q st))"
    if "Q ?f" "\<not> Q no_flags" for Q
    using that(1) assms(2) by (intro pass_advance [OF assms(3) ends_by_flags [where Q = Q, OF assms(1) that(2)]]) (auto split: if_splits)
  have ws: "pass_ok e st (Option.bind (advance (\<lambda>p. is_whitespace (F p)) ?p) (\<lambda>q. split_whitespace C e (q - ?p) st))"
  proof -
    obtain q where "advance (\<lambda>p. is_whitespace (F p)) ?p = Some q" "?p \<le> q" "q \<le> e"
      using advance_ok [OF ends_by_flags [OF assms(1), of is_whitespace], of ?p] assms(2) by auto
    then show ?thesis using pass_whitespace [OF assms(3,2)] by simp
  qed
  show ?thesis unfolding gpt2_step_def Let_def
    by (intro pass_if run [of is_letter] run [of is_number] run [of is_other] ws
        pass_add [OF assms(3) _ contraction_bound [OF assms(2)]]) simp_all
qed

lemma llama3_pass:
  assumes "quiet C F e" and "spos st < e" and "prev_end st = spos st"
  shows "pass_ok e st (llama3_step lower C F e st)"
proof -
  let ?p = "spos st"
  let ?sp = "if C ?p = 32 then 1 else 0" and ?f = "if C ?p = 32 then F (?p + 1) else F ?p"
  have letters: "pass_ok e st (Option.bind (advance (\<lambda>p. is_letter (F p)) (?p + 1)) (\<lambda>q. move_token e q st))"
    using assms(2) by (intro pass_advance [OF assms(3) ends_by_flags [OF assms(1)]]) auto
  have others: "pass_ok e st (Option.bind (other_run C F (?p + ?sp)) (\<lambda>q. move_token e q st))"
    if "\<not> (is_whitespace ?f \<or> is_letter ?f \<or> is_number ?f) \<and> as_uint (F ?p) \<noteq> 0"
    using that assms by (intro pass_other_run [OF assms(1,3)]) (auto simp: is_other_def split: if_splits)
  show ?thesis unfolding llama3_step_def Let_def
    by (intro pass_if letters others pass_numbers [OF assms] pass_line_breaks [OF assms]
        pass_add [OF assms(3) _ contraction_bound [OF assms(2)]])
qed

text \<open>
  The fall-back of the letter patterns of Kimi K2 is never needed: when the test before them holds, letters follow.
\<close>

lemma kimi_letters_ok:
  assumes "quiet C F e" and "p < e"
  shows "kimi_letters lower C F e p = Some (Inr p) \<or> (\<exists>q. kimi_letters lower C F e p = Some (Inl q) \<and> p < q \<and> q \<le> e)"
proof (cases "is_word_letter C F p \<or> is_leading C F p \<and> is_word_letter C F (p + 1)")
  case False
  then show ?thesis unfolding kimi_letters_def if_not_P [OF False] by simp
next
  case True
  let ?W = "is_word_letter C F" and ?p = "if is_leading C F p then p + 1 else p"
  have W: "ends_by ?W e" using quietD [OF assms(1)] by (simp add: is_word_letter_def ends_by_def)
  have "?W ?p" using True by (auto simp: is_leading_def is_word_letter_def)
  then have "?p < e" using W unfolding ends_by_def by (meson linorder_not_le)
  then obtain q where q: "advance ?W ?p = Some q" "run ?W ?p q" "q \<le> e" using advance_ok [OF W, of ?p] by auto
  have pq: "?p < q" using run_nonempty [OF q(2)] \<open>?W ?p\<close> by simp
  have "advance ?W q = Some q" using q(2) by (intro advance_run run_start) (simp add: run_def)
  then have "kimi_letters lower C F e p = Some (Inl (q + contraction lower C e q))"
    using True q(1) pq unfolding kimi_letters_def Let_def by simp
  moreover have "p < q" using pq by (simp split: if_splits)
  ultimately show ?thesis using contraction_bound_le [OF q(3), of lower C] by auto
qed

lemma kimi_k2_pass:
  assumes "quiet C F e" and "spos st < e" and "prev_end st = spos st"
  shows "pass_ok e st (kimi_k2_step lower C F e st)"
proof -
  let ?p = "spos st"
  let ?sp = "if C ?p = 32 then 1 else 0" and ?f = "if C ?p = 32 then F (?p + 1) else F ?p"
  have han: "pass_ok e st (Option.bind (advance (\<lambda>p. unicode_cpt_is_han (C p)) ?p) (\<lambda>q. move_token e q st))" if "unicode_cpt_is_han (C ?p)"
    using that assms(2) by (intro pass_advance [OF assms(3) ends_by_cpts [OF assms(1)]]) auto
  have others: "pass_ok e st (Option.bind (other_run C F (?p + ?sp)) (\<lambda>q. move_token e q st))" if "is_other ?f"
    using that assms by (intro pass_other_run [OF assms(1,3)]) (auto split: if_splits)
  have spos: "st\<lparr>spos := spos st\<rparr> = st" by simp
  from kimi_letters_ok [OF assms(1,2), of lower] show ?thesis
  proof (elim disjE exE conjE)
    assume "kimi_letters lower C F e ?p = Some (Inr ?p)"
    then show ?thesis unfolding kimi_k2_step_def Let_def
      by (simp only: bind.bind_lunit sum.case spos)
        (intro pass_if han others pass_numbers [OF assms] pass_line_breaks [OF assms])
  next
    fix q assume "kimi_letters lower C F e ?p = Some (Inl q)" "?p < q" "q \<le> e"
    then show ?thesis unfolding kimi_k2_step_def Let_def
      by (simp only: bind.bind_lunit sum.case) (intro pass_if han pass_move [OF assms(3)])
  qed
qed

lemma groups_loop_ok:
  assumes "prev_end st \<le> c" and "c \<le> limit" and "limit \<le> e" and "3 dvd limit - c" and "c = limit \<Longrightarrow> prev_end st = c"
  shows "\<exists>st'. groups_loop e limit c st = Some st' \<and> emitted st st' \<and> prev_end st' = limit \<and> spos st' = spos st"
  using assms
proof (induction "limit - c" arbitrary: c st rule: less_induct)
  case less
  show ?case
  proof (cases "c < limit")
    case True
    then have le: "c + 3 \<le> limit" using less.prems(4) dvd_imp_le [of 3 "limit - c"] by simp
    then obtain s where s: "add_token e (c + 3) st = Some (c + 3 - prev_end st, s)" "emitted st s" "prev_end s = c + 3" "spos s = spos st"
      using add_token_ok [of st "c + 3" e] less.prems by auto
    have "3 dvd limit - (c + 3)" using dvd_diff_nat [OF less.prems(4), of 3] by (simp add: diff_diff_left)
    then obtain st' where "groups_loop e limit (c + 3) s = Some st'" "emitted s st'" "prev_end st' = limit" "spos st' = spos s"
      using less.hyps [of "c + 3" s] diff_less_mono2 [of c "c + 3" limit] le s True less.prems by auto
    then show ?thesis using True s emitted_trans [OF s(2)] by (subst groups_loop.simps) auto
  next
    case False
    then show ?thesis using less.prems by (subst groups_loop.simps) auto
  qed
qed

lemma afmoe_pass:
  assumes "quiet C F e" and "spos st < e" and "prev_end st \<le> spos st"
  shows "\<exists>st'. afmoe_step C F e st = Some st' \<and> emitted st st' \<and> prev_end st' \<le> spos st' \<and> spos st < spos st' \<and> spos st' \<le> e"
proof (cases "is_number (F (spos st))")
  case False
  then show ?thesis using assms unfolding afmoe_step_def Let_def by simp
next
  case True
  let ?P = "\<lambda>p. is_number (F p) \<and> p < e" and ?p = "spos st"
  have "ends_by ?P e" by (simp add: ends_by_def)
  then obtain q where q: "advance ?P ?p = Some q" "run ?P ?p q" "q \<le> e"
    using advance_ok [of ?P e ?p] assms(2) by auto
  have pq: "?p < q" using run_nonempty [OF q(2)] True assms by simp
  let ?st = "st\<lparr>spos := q\<rparr>" and ?r = "(q - ?p) mod 3"
  have rle: "?p + ?r \<le> q" using pq mod_less_eq_dividend [of "q - ?p" 3] by linarith
  obtain s where s: "(if ?r > 0 then map_option snd (add_token e (?p + ?r) ?st) else Some ?st) = Some s"
    "emitted st s" "prev_end s \<le> ?p + ?r" "spos s = q" "?r > 0 \<longrightarrow> prev_end s = ?p + ?r"
    using add_token_ok [of ?st "?p + ?r" e] rle q(3) assms by (cases "?r > 0") auto
  have "3 dvd q - (?p + ?r)" using dvd_minus_mod [of 3 "q - ?p"] by (simp add: diff_diff_left)
  moreover have "?p + ?r = q \<Longrightarrow> prev_end s = ?p + ?r" using pq s(5) by auto
  ultimately obtain st' where "groups_loop e q (?p + ?r) s = Some st'" "emitted s st'" "prev_end st' = q" "spos st' = q"
    using groups_loop_ok [of s "?p + ?r" q e] s rle q by auto
  then show ?thesis using True q(1,3) pq s(1) emitted_trans [OF s(2)]
    unfolding afmoe_step_def Let_def by simp
qed


section \<open>The loop over the windows\<close>

text \<open>The lengths of a split subdivide the windows: each window is the sum of the words in it, and no word is empty.\<close>

definition subdivides :: "nat list \<Rightarrow> nat list \<Rightarrow> bool" where
  "subdivides ls offsets \<longleftrightarrow> (\<forall>l\<in>set ls. 0 < l) \<and> (\<exists>lss. ls = concat lss \<and> map sum_list lss = offsets)"

lemma subdivides_snoc:
  assumes "subdivides ls offsets" and "\<forall>l\<in>set ks. 0 < l" and "sum_list ks = offset"
  shows "subdivides (ls @ ks) (offsets @ [offset])"
proof -
  obtain lss where "ls = concat lss" "map sum_list lss = offsets" using assms(1) by (auto simp: subdivides_def)
  then have "ls @ ks = concat (lss @ [ks])" "map sum_list (lss @ [ks]) = offsets @ [offset]" using assms(3) by simp_all
  then show ?thesis using assms(1,2) unfolding subdivides_def by (metis UnE set_append)
qed

lemma sum_list_concat: "sum_list (concat lss) = sum_list (map sum_list lss)" for lss :: "nat list list"
  by (induction lss) simp_all

lemma subdivides_sum: "subdivides ls offsets \<Longrightarrow> sum_list ls = sum_list offsets"
  by (auto simp: subdivides_def sum_list_concat)

lemma subdivides_empty: "subdivides [] offsets \<Longrightarrow> sum_list offsets = 0"
  using subdivides_sum by fastforce

text \<open>
  What the loop needs: a pass from an admissible state inside the window moves on, stays in the window and adds words
  that fill the text up to the new end; the code behind the loop closes the window.
\<close>

locale pre_tokenizer =
  fixes step :: split_step
    and finish :: "nat \<Rightarrow> split_state \<Rightarrow> split_state option"
    and ok :: "split_state \<Rightarrow> bool"
  assumes start_ok: "prev_end st = spos st \<Longrightarrow> ok st"
    and step_ok: "quiet C F e \<Longrightarrow> spos st < e \<Longrightarrow> ok st \<Longrightarrow>
      \<exists>st'. step C F e st = Some st' \<and> emitted st st' \<and> ok st' \<and> spos st < spos st' \<and> spos st' \<le> e"
    and finish_ok: "ok st \<Longrightarrow> spos st = e \<Longrightarrow> \<exists>st'. finish e st = Some st' \<and> emitted st st' \<and> prev_end st' = e"
begin

lemma window_loop_ok:
  assumes "quiet C F e" and "spos st \<le> e" and "ok st"
  shows "\<exists>st'. window_loop (step C F e) e st = Some st' \<and> emitted st st' \<and> ok st' \<and> spos st' = e"
  using assms(2,3)
proof (induction "e - spos st" arbitrary: st rule: less_induct)
  case less
  show ?case
  proof (cases "spos st < e")
    case True
    then obtain s where s: "step C F e st = Some s" "emitted st s" "ok s" "spos st < spos s" "spos s \<le> e"
      using step_ok [OF assms(1)] less.prems by blast
    then obtain st' where "window_loop (step C F e) e s = Some st'" "emitted s st'" "ok st'" "spos st' = e"
      using less.hyps [of s] diff_less_mono2 [of "spos st" "spos s" e] True by auto
    then show ?thesis using True s emitted_trans [OF s(2)] by (subst window_loop.simps) auto
  next
    case False
    then show ?thesis using less.prems by (subst window_loop.simps) auto
  qed
qed

lemma split_window_ok:
  assumes "start + offset \<le> length cpts"
  shows "\<exists>ls. split_window step finish tb cpts offset (start, offs) = Some (start + offset, offs @ ls) \<and>
    (\<forall>l\<in>set ls. 0 < l) \<and> sum_list ls = offset"
proof -
  let ?e = "start + offset" and ?st = "\<lparr>spos = start, prev_end = start, bpe_offs = offs\<rparr>"
  let ?C = "get_cpt cpts start ?e" and ?F = "get_flags tb cpts start ?e"
  have st: "spos ?st \<le> ?e" "ok ?st" using start_ok by simp_all
  obtain st1 where st1: "window_loop (step ?C ?F ?e) ?e ?st = Some st1" "emitted ?st st1" "ok st1" "spos st1 = ?e"
    using window_loop_ok [OF quiet_get st] by blast
  obtain st2 where st2: "finish ?e st1 = Some st2" "emitted st1 st2" "prev_end st2 = ?e" using finish_ok [OF st1(3,4)] by blast
  have "emitted ?st st2" using emitted_trans [OF st1(2) st2(2)] .
  then obtain ls where "bpe_offs st2 = offs @ ls" "\<forall>l\<in>set ls. 0 < l" "start + sum_list ls = ?e"
    using st2(3) by (auto simp: emitted_def)
  then show ?thesis using assms st1(1) st2(1) by (simp add: split_window_def Let_def)
qed

lemma for_windows_ok:
  assumes "start + sum_list offsets \<le> length cpts"
  shows "\<exists>ls. for_each (split_window step finish tb cpts) offsets (start, offs) = Some (start + sum_list offsets, offs @ ls) \<and> subdivides ls offsets"
  using assms
proof (induction offsets rule: rev_induct)
  case Nil
  then show ?case by (auto simp: subdivides_def)
next
  case (snoc offset offsets)
  then obtain ls where ls: "for_each (split_window step finish tb cpts) offsets (start, offs) = Some (start + sum_list offsets, offs @ ls)"
    "subdivides ls offsets" by auto
  obtain ks where ks: "split_window step finish tb cpts offset (start + sum_list offsets, offs @ ls) = Some (start + sum_list offsets + offset, (offs @ ls) @ ks)"
    "\<forall>l\<in>set ks. 0 < l" "sum_list ks = offset"
    using split_window_ok [of "start + sum_list offsets" offset cpts tb "offs @ ls"] snoc.prems by auto
  show ?case using ls(1) ks(1) subdivides_snoc [OF ls(2) ks(2,3)]
    by (intro exI [of _ "ls @ ks"]) (simp add: for_each_snoc add.assoc)
qed

lemma split_windows_ok:
  assumes "sum_list offsets \<le> length (unicode_cpts_from_utf8 text)"
  shows "\<exists>ls. split_windows step finish tb text offsets = Some ls \<and> subdivides ls offsets"
  using for_windows_ok [of 0 offsets "unicode_cpts_from_utf8 text" tb "[]"] assms by (auto simp: split_windows_def)

end

interpretation gpt2: pre_tokenizer gpt2_step "\<lambda>_. Some" "\<lambda>st. prev_end st = spos st"
  using gpt2_pass by unfold_locales (fastforce simp: pass_ok_def)+

interpretation llama3: pre_tokenizer "llama3_step lower" "\<lambda>_. Some" "\<lambda>st. prev_end st = spos st"
  for lower using llama3_pass by unfold_locales (fastforce simp: pass_ok_def)+

interpretation kimi_k2: pre_tokenizer "kimi_k2_step lower" "\<lambda>_. Some" "\<lambda>st. prev_end st = spos st"
  for lower using kimi_k2_pass by unfold_locales (fastforce simp: pass_ok_def)+

interpretation afmoe: pre_tokenizer afmoe_step afmoe_finish "\<lambda>st. prev_end st \<le> spos st"
proof unfold_locales
  fix st :: split_state and e
  assume "prev_end st \<le> spos st" "spos st = e"
  then show "\<exists>st'. afmoe_finish e st = Some st' \<and> emitted st st' \<and> prev_end st' = e"
    using add_token_ok [of st e e] by (auto simp: afmoe_finish_def)
next
  fix C :: cpt_getter and F e and st :: split_state
  assume "quiet C F e" "spos st < e" "prev_end st \<le> spos st"
  then show "\<exists>st'. afmoe_step C F e st = Some st' \<and> emitted st st' \<and> prev_end st' \<le> spos st' \<and> spos st < spos st' \<and> spos st' \<le> e"
    by (rule afmoe_pass)
qed simp

lemmas split_windows_subdivide = gpt2.split_windows_ok llama3.split_windows_ok kimi_k2.split_windows_ok afmoe.split_windows_ok

lemmas custom_splitter_defs =
  unicode_regex_split_custom_gpt2_def unicode_regex_split_custom_llama3_def unicode_regex_split_custom_kimi_k2_def
  unicode_regex_split_custom_afmoe_def

definition custom_regexes :: "string set" where
  "custom_regexes = {gpt2_regex, llama3_regex_i, llama3_regex, kimi_regex, afmoe_regex, tiny_aya_regex}"

lemma custom_split_subdivides:
  assumes "regex_expr \<in> custom_regexes" and "sum_list offsets \<le> length (unicode_cpts_from_utf8 text)"
  shows "\<exists>ls. unicode_regex_split_custom tb text regex_expr offsets = Some ls \<and> subdivides ls offsets"
  using assms(1) split_windows_subdivide [OF assms(2)] unfolding custom_regexes_def unicode_regex_split_custom_def custom_splitter_defs
  by (auto split: if_splits)

lemma custom_split_other: "regex_expr \<notin> custom_regexes \<Longrightarrow> unicode_regex_split_custom tb text regex_expr offsets = Some []"
  by (simp add: custom_regexes_def unicode_regex_split_custom_def)


text \<open>
  C15: Each of the hand-written splitters returns on every text and every list of windows within it, none of its assertions
  fails, and the word lengths it returns subdivide the windows: they are positive, and each window is the sum of its
  consecutive words.
\<close>

theorem custom_split_correct:
  assumes "regex_expr \<in> custom_regexes" and "sum_list offsets \<le> length (unicode_cpts_from_utf8 text)"
  shows "\<exists>lss. unicode_regex_split_custom tb text regex_expr offsets = Some (concat lss) \<and> map sum_list lss = offsets \<and>
    (\<forall>ls\<in>set lss. \<forall>l\<in>set ls. 0 < l)"
  using custom_split_subdivides [OF assms, of tb] unfolding subdivides_def by (metis UN_I set_concat)

theorem custom_split_correct_witness:
  "\<exists>lss. unicode_regex_split_custom \<lparr>unicode_ranges_flags = [], unicode_set_whitespace = [32], unicode_map_lowercase = [],
       unicode_map_uppercase = [], unicode_ranges_nfd = []\<rparr> ''a 1'' afmoe_regex [2, 1] = Some (concat lss) \<and>
     map sum_list lss = [2, 1] \<and> (\<forall>ls\<in>set lss. \<forall>l\<in>set ls. 0 < l)"
proof (rule custom_split_correct)
  show "afmoe_regex \<in> custom_regexes" by (simp add: custom_regexes_def)
  show "sum_list [2, 1] \<le> length (unicode_cpts_from_utf8 ''a 1'')" by code_simp
qed

end
