(* ===== verification/Unicode_Regex.thy ===== *)
theory Unicode_Regex
  imports Unicode_Partition
begin

text \<open>
  The hand-written splitters of GPT-2 and Llama 3 against the regular expressions that \<open>src/src/unicode.cpp\<close> gives above
  them.  The expressions have the semantics of a backtracking matcher: an expression maps a position to the ends of its
  matches, in the order in which the matcher tries them, and the first one is taken.
\<close>

section \<open>A backtracking matcher\<close>

type_synonym cls = "int \<Rightarrow> unicode_cpt_flags \<Rightarrow> bool"

datatype re =
    Class cls
  | Cat re re
  | Alt re re
  | Opt re
  | Star cls
  | UpTo nat cls
  | NotAhead cls

text \<open>A code point of the class stands at a position of the window that ends at \<open>e\<close>.\<close>

definition here :: "cpt_getter \<Rightarrow> flags_getter \<Rightarrow> nat \<Rightarrow> cls \<Rightarrow> nat \<Rightarrow> bool" where
  "here C F e P p \<longleftrightarrow> p < e \<and> P (C p) (F p)"

function star_ends :: "(nat \<Rightarrow> bool) \<Rightarrow> nat \<Rightarrow> nat \<Rightarrow> nat list" where
  "star_ends H e p = (if p < e \<and> H p then star_ends H e (p + 1) @ [p] else [p])"
  by pat_completeness auto
termination by (relation "measure (\<lambda>(H, e, p). e - p)") auto

declare star_ends.simps [simp del]

primrec upto_ends :: "nat \<Rightarrow> (nat \<Rightarrow> bool) \<Rightarrow> nat \<Rightarrow> nat list" where
  "upto_ends 0 H p = [p]"
| "upto_ends (Suc k) H p = (if H p then upto_ends k H (p + 1) @ [p] else [p])"

primrec ends :: "cpt_getter \<Rightarrow> flags_getter \<Rightarrow> nat \<Rightarrow> re \<Rightarrow> nat \<Rightarrow> nat list" where
  "ends C F e (Class P) p = (if here C F e P p then [p + 1] else [])"
| "ends C F e (Cat r s) p = concat (map (ends C F e s) (ends C F e r p))"
| "ends C F e (Alt r s) p = ends C F e r p @ ends C F e s p"
| "ends C F e (Opt r) p = ends C F e r p @ [p]"
| "ends C F e (Star P) p = star_ends (here C F e P) e p"
| "ends C F e (UpTo k P) p = upto_ends k (here C F e P) p"
| "ends C F e (NotAhead P) p = (if here C F e P p then [] else [p])"

abbreviation Plus :: "cls \<Rightarrow> re" where
  "Plus P \<equiv> Cat (Class P) (Star P)"

definition first_match :: "cpt_getter \<Rightarrow> flags_getter \<Rightarrow> nat \<Rightarrow> re \<Rightarrow> nat \<Rightarrow> nat option" where
  "first_match C F e r p = (case ends C F e r p of [] \<Rightarrow> None | q # _ \<Rightarrow> Some q)"

text \<open>The lengths of the successive matches; a code point at which nothing matches is a word of its own.\<close>

function regex_words :: "cpt_getter \<Rightarrow> flags_getter \<Rightarrow> nat \<Rightarrow> re \<Rightarrow> nat \<Rightarrow> nat list" where
  "regex_words C F e r p =
     (if p < e then
        (case first_match C F e r p of
           Some q \<Rightarrow> if p < q then (q - p) # regex_words C F e r q else 1 # regex_words C F e r (p + 1)
         | None \<Rightarrow> 1 # regex_words C F e r (p + 1))
      else [])"
  by pat_completeness auto
termination by (relation "measure (\<lambda>(C, F, e, r, p). e - p)") auto

declare regex_words.simps [simp del]

section \<open>The expressions\<close>

definition letter_cls :: cls where "letter_cls c f \<longleftrightarrow> is_letter f"
definition number_cls :: cls where "number_cls c f \<longleftrightarrow> is_number f"
definition space_cls :: cls where "space_cls c f \<longleftrightarrow> is_whitespace f"
definition nonspace_cls :: cls where "nonspace_cls c f \<longleftrightarrow> \<not> is_whitespace f"
definition other_cls :: cls where "other_cls c f \<longleftrightarrow> \<not> (is_whitespace f \<or> is_letter f \<or> is_number f)"
definition blank_cls :: cls where "blank_cls c f \<longleftrightarrow> c = 32"
definition rn_cls :: cls where "rn_cls c f \<longleftrightarrow> is_rn c"
definition lead_cls :: cls where "lead_cls c f \<longleftrightarrow> \<not> (is_rn c \<or> is_letter f \<or> is_number f)"
definition char_cls :: "(int \<Rightarrow> int) \<Rightarrow> char \<Rightarrow> cls" where "char_cls lower x c f \<longleftrightarrow> lower c = cp x"

lemmas cls_defs = letter_cls_def number_cls_def space_cls_def nonspace_cls_def other_cls_def blank_cls_def rn_cls_def lead_cls_def char_cls_def

text \<open>\<open>'s|'t|'re|'ve|'m|'ll|'d\<close>, with the case folding of the expression.\<close>

definition contraction_re :: "(int \<Rightarrow> int) \<Rightarrow> re" where
  "contraction_re lower =
     (let q = Class (\<lambda>c f. c = 39); ch = (\<lambda>x. Class (char_cls lower x)) in
      Alt (Cat q (ch CHR ''s'')) (Alt (Cat q (ch CHR ''t'')) (Alt (Cat q (Cat (ch CHR ''r'') (ch CHR ''e'')))
        (Alt (Cat q (Cat (ch CHR ''v'') (ch CHR ''e''))) (Alt (Cat q (ch CHR ''m''))
          (Alt (Cat q (Cat (ch CHR ''l'') (ch CHR ''l''))) (Cat q (ch CHR ''d''))))))))"

text \<open>\<open>\s+(?!\S)|\s+\<close>\<close>

definition space_re :: re where
  "space_re = Alt (Cat (Plus space_cls) (NotAhead nonspace_cls)) (Plus space_cls)"

text \<open>\<open>'s|'t|'re|'ve|'m|'ll|'d| ?\p{L}+| ?\p{N}+| ?[^\s\p{L}\p{N}]+|\s+(?!\S)|\s+\<close>\<close>

definition gpt2_re :: re where
  "gpt2_re =
     Alt (contraction_re id)
     (Alt (Cat (Opt (Class blank_cls)) (Plus letter_cls))
     (Alt (Cat (Opt (Class blank_cls)) (Plus number_cls))
     (Alt (Cat (Opt (Class blank_cls)) (Plus other_cls))
          space_re)))"

text \<open>\<open>(?i:'s|'t|'re|'ve|'m|'ll|'d)|[^\r\n\p{L}\p{N}]?\p{L}+|\p{N}{1,3}| ?[^\s\p{L}\p{N}]+[\r\n]*|\s*[\r\n]+|\s+(?!\S)|\s+\<close>\<close>

definition llama3_re :: "(int \<Rightarrow> int) \<Rightarrow> re" where
  "llama3_re lower =
     Alt (contraction_re lower)
     (Alt (Cat (Opt (Class lead_cls)) (Plus letter_cls))
     (Alt (Cat (Class number_cls) (UpTo 2 number_cls))
     (Alt (Cat (Cat (Opt (Class blank_cls)) (Plus other_cls)) (Star rn_cls))
     (Alt (Cat (Star space_cls) (Plus rn_cls))
          space_re))))"

section \<open>First matches\<close>

text \<open>The end of the run of a class from a position.\<close>

lemma star_ends_run: "run (\<lambda>i. i < e \<and> H i) p q \<Longrightarrow> star_ends H e p = rev [p..<Suc q]"
proof (induction "q - p" arbitrary: p)
  case 0
  then have "p = q" by (simp add: run_def)
  with 0 show ?case by (subst star_ends.simps) (auto simp: run_def)
next
  case (Suc k)
  then have h: "p < e \<and> H p" "run (\<lambda>i. i < e \<and> H i) (Suc p) q" "p < q" by (auto simp: run_def)
  then have "star_ends H e (Suc p) = rev [Suc p..<Suc q]" using Suc by simp
  then show ?case using h by (subst star_ends.simps) (simp add: upt_conv_Cons)
qed

text \<open>The run of a class, as the loops of the splitters find it.\<close>

definition stop :: "cpt_getter \<Rightarrow> flags_getter \<Rightarrow> nat \<Rightarrow> cls \<Rightarrow> nat \<Rightarrow> nat" where
  "stop C F e P p = the (advance (here C F e P) p)"

lemma run_stop: "run (here C F e P) p (stop C F e P p)"
proof -
  have "ends_by (here C F e P) e" by (simp add: ends_by_def here_def)
  then obtain q where "run (here C F e P) p q" using run_exists by blast
  then show ?thesis using advance_run by (force simp: stop_def)
qed

lemma here_conj: "(\<lambda>i. i < e \<and> here C F e P i) = here C F e P"
  by (auto simp: here_def)

lemma ends_Star: "ends C F e (Star P) p = rev [p..<Suc (stop C F e P p)]"
  using star_ends_run [of e "here C F e P" p] run_stop [of C F e P p] by (simp add: here_conj)

lemma ends_Plus: "ends C F e (Plus P) p = (if here C F e P p then rev [p + 1..<Suc (stop C F e P (p + 1))] else [])"
  by (simp add: ends_Star del: ends.simps(5))

lemma stop_step: "here C F e P p \<Longrightarrow> stop C F e P p = stop C F e P (p + 1)"
  using run_Suc [of "here C F e P" p] run_stop [of C F e P "p + 1"] run_stop [of C F e P p] run_unique by fastforce

lemma stop_ge: "p \<le> stop C F e P p"
  using run_stop [of C F e P p] by (simp add: run_def)

lemma stop_le: "p \<le> e \<Longrightarrow> stop C F e P p \<le> e"
  using run_bound [OF run_stop] by (simp add: ends_by_def here_def)

lemma stop_eqI: "run (here C F e P) p q \<Longrightarrow> stop C F e P p = q"
  using run_unique run_stop by blast

lemma first_match_Alt:
  "first_match C F e (Alt r s) p = (case first_match C F e r p of Some q \<Rightarrow> Some q | None \<Rightarrow> first_match C F e s p)"
  by (simp add: first_match_def split: list.splits)

lemma rev_upt_Cons: "p < Suc q \<Longrightarrow> rev [p..<Suc q] = q # rev [p..<q]"
  by simp

lemma first_Plus: "first_match C F e (Plus P) p = (if here C F e P p then Some (stop C F e P p) else None)"
  using stop_ge [of "p + 1" C F e P] stop_step [of C F e P p]
  by (simp add: first_match_def ends_Plus rev_upt_Cons del: ends.simps upt_Suc)

lemma first_OptPlus:
  "first_match C F e (Cat (Opt (Class Q)) (Plus P)) p =
     (if here C F e Q p \<and> here C F e P (p + 1) then Some (stop C F e P (p + 1)) else first_match C F e (Plus P) p)"
proof -
  have "ends C F e (Cat (Opt (Class Q)) (Plus P)) p =
    (if here C F e Q p then ends C F e (Plus P) (p + 1) else []) @ ends C F e (Plus P) p" by simp
  moreover have "here C F e P (p + 1) \<Longrightarrow> \<exists>x xs. ends C F e (Plus P) (p + 1) = x # xs \<and> x = stop C F e P (p + 1)"
    using stop_ge [of "p + 1 + 1" C F e P] stop_step [of C F e P "p + 1"]
    by (simp add: ends_Plus rev_upt_Cons del: ends.simps upt_Suc)
  moreover have "\<not> here C F e P (p + 1) \<Longrightarrow> ends C F e (Plus P) (p + 1) = []" by simp
  ultimately show ?thesis by (auto simp: first_match_def simp del: ends.simps)
qed

text \<open>\<open>\s+(?!\S)\<close>: all of the run at the end of the window, all but the last code point otherwise.\<close>

lemma first_trailing:
  "first_match C F e (Cat (Plus space_cls) (NotAhead nonspace_cls)) p =
     (if here C F e space_cls p then
        let q = stop C F e space_cls p in
        if q = e then Some q else if p + 1 < q then Some (q - 1) else None
      else None)"
proof (cases "here C F e space_cls p")
  case True
  let ?q = "stop C F e space_cls p"
  have q: "run (here C F e space_cls) p ?q" by (rule run_stop)
  have pq: "p < ?q" using run_nonempty [OF q True] .
  have qe: "?q \<le> e" using stop_le True by (simp add: here_def)
  have st: "stop C F e space_cls (p + 1) = ?q" using stop_step [OF True] by simp
  have at_q: "ends C F e (NotAhead nonspace_cls) ?q = (if ?q = e then [?q] else [])"
    using q qe by (auto simp: run_def here_def cls_defs)
  have below: "ends C F e (NotAhead nonspace_cls) i = [i]" if "p \<le> i" "i < ?q" for i
    using q that by (auto simp: run_def here_def cls_defs)
  have all: "ends C F e (Cat (Plus space_cls) (NotAhead nonspace_cls)) p = concat (map (ends C F e (NotAhead nonspace_cls)) (rev [p + 1..<Suc ?q]))"
    by (subst ends.simps(2)) (simp only: ends_Plus st True if_True)
  have split: "rev [p + 1..<Suc ?q] = ?q # rev [p + 1..<?q]" using pq by simp
  show ?thesis
  proof (cases "p + 1 < ?q")
    case True
    then obtain k where k: "?q = Suc k" "p + 1 \<le> k" by (cases ?q) auto
    then have "rev [p + 1..<?q] = k # rev [p + 1..<k]" by simp
    then show ?thesis using all split at_q below [of k] True k \<open>here C F e space_cls p\<close>
      by (simp add: first_match_def Let_def del: ends.simps upt_Suc)
  next
    case False
    then have "[p + 1..<?q] = []" by simp
    then show ?thesis using all split at_q False True by (simp add: first_match_def Let_def del: ends.simps upt_Suc)
  qed
next
  case False
  then show ?thesis by (simp add: first_match_def)
qed

text \<open>The contractions agree with the test of the splitters.\<close>

lemma first_contraction:
  "p < e \<Longrightarrow> first_match C F e (contraction_re lower) p =
     (let k = contraction lower C e p in if k > 0 then Some (p + k) else None)"
  by (auto simp: first_match_def contraction_re_def contraction_def Let_def here_def char_cls_def)


section \<open>The splitters take the first match\<close>

text \<open>
  What the equivalence needs of the tables: every code point has a flag, the categories letter, number and whitespace
  exclude each other, the blank and the line breaks are whitespace, and the apostrophe is not a number.
\<close>

definition sane :: "int \<Rightarrow> unicode_cpt_flags \<Rightarrow> bool" where
  "sane c f \<longleftrightarrow> as_uint f \<noteq> 0 \<and> \<not> (is_letter f \<and> is_number f) \<and> \<not> (is_whitespace f \<and> (is_letter f \<or> is_number f)) \<and>
     (c = 32 \<or> is_rn c \<longrightarrow> is_whitespace f) \<and> (c = 39 \<longrightarrow> \<not> is_number f) \<and> c \<noteq> OUT_OF_RANGE"

definition sane_window :: "cpt_getter \<Rightarrow> flags_getter \<Rightarrow> nat \<Rightarrow> nat \<Rightarrow> bool" where
  "sane_window C F p e \<longleftrightarrow> quiet C F e \<and> (\<forall>i. p \<le> i \<and> i < e \<longrightarrow> sane (C i) (F i))"

lemma sane_is_other: "sane c f \<Longrightarrow> is_other f \<longleftrightarrow> \<not> (is_whitespace f \<or> is_letter f \<or> is_number f)"
  by (simp add: sane_def is_other_def)

lemma sane_window_later: "sane_window C F p e \<Longrightarrow> p \<le> q \<Longrightarrow> sane_window C F q e"
  by (auto simp: sane_window_def)

lemma sane_windowD: "sane_window C F p e \<Longrightarrow> p \<le> i \<Longrightarrow> i < e \<Longrightarrow> sane (C i) (F i)"
  by (simp add: sane_window_def)

lemma sane_window_quiet: "sane_window C F p e \<Longrightarrow> quiet C F e"
  by (simp add: sane_window_def)

lemma run_cong: "(\<And>i. p \<le> i \<Longrightarrow> P i = Q i) \<Longrightarrow> run P p q = run Q p q"
  unfolding run_def by (metis)

lemma advance_stop:
  assumes "sane_window C F p e" and "\<And>i. sane (C i) (F i) \<Longrightarrow> Q i = P (C i) (F i)" and "ends_by Q e"
  shows "advance Q p = Some (stop C F e P p)"
proof -
  have "Q i = here C F e P i" if "p \<le> i" for i
    using assms that sane_windowD [OF assms(1) that] by (cases "i < e") (auto simp: here_def ends_by_def)
  then show ?thesis using run_cong [of p Q "here C F e P"] run_stop [of C F e P p] advance_run by blast
qed

lemma advance_classes:
  assumes "sane_window C F p e"
  shows "advance (\<lambda>i. is_letter (F i)) p = Some (stop C F e letter_cls p)"
    and "advance (\<lambda>i. is_number (F i)) p = Some (stop C F e number_cls p)"
    and "advance (\<lambda>i. is_whitespace (F i)) p = Some (stop C F e space_cls p)"
    and "advance (\<lambda>i. is_other (F i)) p = Some (stop C F e other_cls p)"
    and "advance (\<lambda>i. is_rn (C i)) p = Some (stop C F e rn_cls p)"
proof -
  note q = sane_window_quiet [OF assms]
  note eb = ends_by_flags [OF q, of is_letter, simplified] ends_by_flags [OF q, of is_number, simplified]
    ends_by_flags [OF q, of is_whitespace, simplified] ends_by_flags [OF q, of is_other, simplified] ends_by_cpts [OF q, of is_rn, simplified]
  show "advance (\<lambda>i. is_letter (F i)) p = Some (stop C F e letter_cls p)"
    and "advance (\<lambda>i. is_number (F i)) p = Some (stop C F e number_cls p)"
    and "advance (\<lambda>i. is_whitespace (F i)) p = Some (stop C F e space_cls p)"
    and "advance (\<lambda>i. is_other (F i)) p = Some (stop C F e other_cls p)"
    and "advance (\<lambda>i. is_rn (C i)) p = Some (stop C F e rn_cls p)"
    by (rule advance_stop [OF assms]; simp add: eb cls_defs sane_is_other)+
qed

text \<open>The whitespace cases of the splitters, from a position at which no other alternative matches.\<close>

lemma split_whitespace_first:
  assumes "sane_window C F (spos st) e" and "spos st < e" and "here C F e space_cls (spos st)"
  shows "\<exists>q. first_match C F e space_re (spos st) = Some q \<and> spos st < q \<and> q \<le> e \<and>
    split_whitespace C e (stop C F e space_cls (spos st) - spos st) st = move_token e q st"
proof -
  let ?p = "spos st" and ?q = "stop C F e space_cls (spos st)"
  have pq: "?p < ?q" using run_nonempty [OF run_stop assms(3)] .
  have qe: "?q \<le> e" using stop_le assms(2) by simp
  have "C ?q \<noteq> OUT_OF_RANGE \<longleftrightarrow> ?q < e"
  proof (cases "?q < e")
    case True
    then show ?thesis using sane_windowD [OF assms(1)] pq by (auto simp: sane_def)
  next
    case False
    then show ?thesis using quietD [OF sane_window_quiet [OF assms(1)]] by simp
  qed
  then show ?thesis using pq qe assms(3)
    unfolding space_re_def first_match_Alt first_trailing first_Plus split_whitespace_def Let_def by auto
qed

lemma here_iff:
  assumes "sane_window C F p e" and "p \<le> i"
  shows "here C F e letter_cls i = is_letter (F i)" "here C F e number_cls i = is_number (F i)"
    "here C F e space_cls i = is_whitespace (F i)" "here C F e other_cls i = is_other (F i)"
    "here C F e rn_cls i = is_rn (C i)" "here C F e blank_cls i \<longleftrightarrow> C i = 32"
proof -
  have "here C F e letter_cls i = is_letter (F i) \<and> here C F e number_cls i = is_number (F i) \<and>
    here C F e space_cls i = is_whitespace (F i) \<and> here C F e other_cls i = is_other (F i) \<and>
    here C F e rn_cls i = is_rn (C i) \<and> (here C F e blank_cls i \<longleftrightarrow> C i = 32)"
  proof (cases "i < e")
    case True
    then show ?thesis using sane_windowD [OF assms True] by (simp add: here_def cls_defs sane_is_other)
  next
    case False
    then show ?thesis using quietD [OF sane_window_quiet [OF assms(1)], of i] by (simp add: here_def)
  qed
  then show "here C F e letter_cls i = is_letter (F i)" "here C F e number_cls i = is_number (F i)"
    "here C F e space_cls i = is_whitespace (F i)" "here C F e other_cls i = is_other (F i)"
    "here C F e rn_cls i = is_rn (C i)" "here C F e blank_cls i \<longleftrightarrow> C i = 32" by simp_all
qed

text \<open>\<open>flags2\<close> of the splitters: behind a blank the flags of the next code point.\<close>

abbreviation blank :: "cpt_getter \<Rightarrow> nat \<Rightarrow> nat" where
  "blank C p \<equiv> if C p = 32 then 1 else 0"

lemma first_blank:
  assumes "p < e" and "C p = 32 \<Longrightarrow> \<not> here C F e P p"
  shows "first_match C F e (Cat (Opt (Class blank_cls)) (Plus P)) p =
    (if here C F e P (p + blank C p) then Some (stop C F e P (p + blank C p)) else None)"
  unfolding first_OptPlus first_Plus using assms by (cases "C p = 32") (auto simp: here_def [of C F e blank_cls] blank_cls_def)

lemma gpt2_first_match:
  assumes "sane_window C F p e" and "p < e"
  shows "first_match C F e gpt2_re p =
    (let k = contraction id C e p; q = p + blank C p in
     if k > 0 then Some (p + k)
     else if is_letter (F q) then Some (stop C F e letter_cls q)
     else if is_number (F q) then Some (stop C F e number_cls q)
     else if is_other (F q) then Some (stop C F e other_cls q)
     else first_match C F e space_re p)"
proof -
  have b: "C p = 32 \<Longrightarrow> is_whitespace (F p) \<and> \<not> is_letter (F p) \<and> \<not> is_number (F p) \<and> \<not> is_other (F p)"
    using sane_windowD [OF assms(1) order_refl assms(2)] by (auto simp: sane_def is_other_def)
  have "C p = 32 \<Longrightarrow> \<not> here C F e letter_cls p" "C p = 32 \<Longrightarrow> \<not> here C F e number_cls p" "C p = 32 \<Longrightarrow> \<not> here C F e other_cls p"
    using b here_iff [OF assms(1) order_refl] by simp_all
  note fb = this [THEN first_blank [OF assms(2)]]
  have "p \<le> p + blank C p" by simp
  note hi = here_iff [OF assms(1) this]
  show ?thesis unfolding gpt2_re_def by (simp add: first_match_Alt first_contraction [OF assms(2)] fb hi Let_def)
qed

lemma move_contraction:
  assumes "prev_end st = spos st"
  shows "Option.bind (add_token e (spos st + k) st) (\<lambda>(len, st'). Some (st'\<lparr>spos := spos st + len\<rparr>)) = move_token e (spos st + k) st"
  using assms by (simp add: move_token_def add_token_def Let_def)

lemma gpt2_step_code:
  assumes "sane_window C F (spos st) e" and "spos st < e" and "prev_end st = spos st"
  shows "gpt2_step C F e st =
    (let p = spos st; k = contraction id C e p; q = p + blank C p in
     if k > 0 then move_token e (p + k) st
     else if is_letter (F q) then move_token e (stop C F e letter_cls q) st
     else if is_number (F q) then move_token e (stop C F e number_cls q) st
     else if is_other (F q) then move_token e (stop C F e other_cls q) st
     else split_whitespace C e (stop C F e space_cls p - p) st)"
proof -
  have "sane_window C F (spos st + blank C (spos st)) e" by (rule sane_window_later [OF assms(1)]) simp
  note adv = advance_classes [OF this] advance_classes(3) [OF assms(1)]
  have f: "(if C (spos st) = 32 then F (spos st + 1) else F (spos st)) = F (spos st + blank C (spos st))" by simp
  show ?thesis unfolding gpt2_step_def Let_def move_contraction [OF assms(3)] f adv bind.bind_lunit ..
qed

text \<open>A pass whose words are the next matches of an expression.\<close>

definition follows :: "cpt_getter \<Rightarrow> flags_getter \<Rightarrow> nat \<Rightarrow> re \<Rightarrow> split_state \<Rightarrow> split_state option \<Rightarrow> bool" where
  "follows C F e r st res \<longleftrightarrow> (\<exists>st' ls. res = Some st' \<and> bpe_offs st' = bpe_offs st @ ls \<and> prev_end st' = spos st' \<and>
     spos st < spos st' \<and> spos st' \<le> e \<and> regex_words C F e r (spos st) = ls @ regex_words C F e r (spos st'))"

lemma follows_move:
  assumes "prev_end st = spos st" and "first_match C F e r (spos st) = Some q" and "spos st < q" and "q \<le> e"
  shows "follows C F e r st (move_token e q st)"
proof -
  have "regex_words C F e r (spos st) = (q - spos st) # regex_words C F e r q"
    using assms by (subst regex_words.simps) simp
  then show ?thesis using assms by (simp add: follows_def move_token_def add_token_def Let_def)
qed

lemma stop_gt: "here C F e P p \<Longrightarrow> p < stop C F e P p"
  using run_nonempty [OF run_stop] .

lemma flags_inside: "sane_window C F p e \<Longrightarrow> F i \<noteq> no_flags \<Longrightarrow> i < e"
  using quietD [OF sane_window_quiet] linorder_not_le by blast

lemma gpt2_follows:
  assumes "sane_window C F (spos st) e" and "spos st < e" and "prev_end st = spos st"
  shows "follows C F e gpt2_re st (gpt2_step C F e st)"
proof -
  let ?p = "spos st" and ?k = "contraction id C e (spos st)" and ?q = "spos st + blank C (spos st)"
  have "?p \<le> ?q" by simp
  note hi = here_iff [OF assms(1) this]
  have stop: "?p < stop C F e P ?q \<and> stop C F e P ?q \<le> e" if "here C F e P ?q" for P
    using stop_gt [OF that] stop_le [of ?q e C F P] that by (auto simp: here_def)
  note fm = gpt2_first_match [OF assms(1,2)]
  note move = follows_move [OF assms(3), where C = C and F = F and e = e and r = gpt2_re]
  consider (k) "?k > 0" | (l) "?k = 0" "is_letter (F ?q)" | (n) "?k = 0" "\<not> is_letter (F ?q)" "is_number (F ?q)"
    | (o) "?k = 0" "\<not> is_letter (F ?q)" "\<not> is_number (F ?q)" "is_other (F ?q)"
    | (s) "?k = 0" "\<not> is_letter (F ?q)" "\<not> is_number (F ?q)" "\<not> is_other (F ?q)" by auto
  then show ?thesis
  proof cases
    case k
    then show ?thesis unfolding gpt2_step_code [OF assms] Let_def
      using fm contraction_bound [OF assms(2), of id C] by (simp add: move Let_def)
  next
    case l
    then show ?thesis unfolding gpt2_step_code [OF assms] Let_def using fm stop hi by (simp add: move Let_def del: add_Suc_right)
  next
    case n
    then show ?thesis unfolding gpt2_step_code [OF assms] Let_def using fm stop hi by (simp add: move Let_def)
  next
    case o
    then show ?thesis unfolding gpt2_step_code [OF assms] Let_def using fm stop hi by (simp add: move Let_def)
  next
    case s
    have "is_whitespace (F ?p)" using s sane_windowD [OF assms(1) order_refl assms(2)]
      by (cases "C ?p = 32") (auto simp: sane_def is_other_def)
    then show ?thesis unfolding gpt2_step_code [OF assms] Let_def
      using fm s split_whitespace_first [OF assms(1,2)] here_iff [OF assms(1) order_refl] by (auto simp: Let_def intro: move)
  qed
qed


section \<open>The expression of Llama 3\<close>

lemma first_lead:
  assumes "sane_window C F p e" and "p < e"
  shows "first_match C F e (Cat (Opt (Class lead_cls)) (Plus letter_cls)) p =
    (if \<not> (is_rn (C p) \<or> is_number (F p)) \<and> (is_letter (F p) \<or> is_letter (F (p + 1))) then Some (stop C F e letter_cls (p + 1)) else None)"
proof -
  have l: "here C F e letter_cls (p + 1) = is_letter (F (p + 1))" "here C F e letter_cls p = is_letter (F p)"
    using here_iff(1) [OF assms(1)] by simp_all
  have s: "is_letter (F p) \<Longrightarrow> \<not> is_rn (C p) \<and> \<not> is_number (F p) \<and> stop C F e letter_cls p = stop C F e letter_cls (p + 1)"
    using sane_windowD [OF assms(1) order_refl assms(2)] stop_step [of C F e letter_cls p] l by (auto simp: sane_def)
  have h: "here C F e lead_cls p \<longleftrightarrow> \<not> (is_rn (C p) \<or> is_letter (F p) \<or> is_number (F p))"
    using assms(2) by (simp add: here_def lead_cls_def)
  show ?thesis unfolding first_OptPlus first_Plus l h using s by auto
qed

definition digits :: "flags_getter \<Rightarrow> nat \<Rightarrow> nat" where
  "digits F p = (if is_number (F (p + 1)) then if is_number (F (p + 2)) then 3 else 2 else 1)"

lemma first_number:
  assumes "sane_window C F p e"
  shows "first_match C F e (Cat (Class number_cls) (UpTo 2 number_cls)) p = (if is_number (F p) then Some (p + digits F p) else None)"
  using here_iff(2) [OF assms, of p] here_iff(2) [OF assms, of "p + 1"] here_iff(2) [OF assms, of "p + 2"]
  by (simp add: first_match_def digits_def numeral_2_eq_2)

lemma first_Cat_Star: "first_match C F e (Cat r (Star P)) p = map_option (stop C F e P) (first_match C F e r p)"
proof (cases "ends C F e r p")
  case (Cons q qs)
  then have "ends C F e (Cat r (Star P)) p = rev [q..<Suc (stop C F e P q)] @ concat (map (ends C F e (Star P)) qs)"
    by (simp only: ends.simps(2) list.map concat.simps ends_Star)
  then show ?thesis using Cons stop_ge [of q C F e P] by (simp add: first_match_def rev_upt_Cons del: ends.simps upt_Suc)
qed (simp add: first_match_def)

text \<open>\<open>\s*[\r\n]+\<close> ends behind the last line break of the whitespace.\<close>

lemma first_breaks_None:
  assumes "sane_window C F p e" and "p \<le> e" and "\<And>i. p \<le> i \<Longrightarrow> i < stop C F e space_cls p \<Longrightarrow> \<not> is_rn (C i)"
  shows "first_match C F e (Cat (Star space_cls) (Plus rn_cls)) p = None"
proof -
  let ?q = "stop C F e space_cls p"
  have "\<not> here C F e rn_cls ?q"
    using run_stop [of C F e space_cls p] sane_windowD [OF assms(1)] stop_ge [of p C F e space_cls]
    by (auto simp: run_def here_def cls_defs sane_def)
  then have "\<not> here C F e rn_cls i" if "p \<le> i" "i \<le> ?q" for i
    using assms(3) [of i] that by (cases "i = ?q") (auto simp: here_def rn_cls_def)
  then have "\<forall>i\<in>set (rev [p..<Suc ?q]). ends C F e (Plus rn_cls) i = []" by (auto simp: ends_Plus simp del: ends.simps)
  then have "concat (map (ends C F e (Plus rn_cls)) (rev [p..<Suc ?q])) = []" by (simp only: concat_eq_Nil_conv set_map) blast
  then show ?thesis by (simp only: first_match_def ends.simps(2) [of _ _ _ "Star space_cls"] ends_Star list.case)
qed

lemma first_breaks_Some:
  assumes "sane_window C F p e" and "p \<le> e" and "p \<le> i" and "i < stop C F e space_cls p" and "is_rn (C i)"
    and "\<And>j. i < j \<Longrightarrow> j < stop C F e space_cls p \<Longrightarrow> \<not> is_rn (C j)"
  shows "first_match C F e (Cat (Star space_cls) (Plus rn_cls)) p = Some (i + 1)"
proof -
  let ?q = "stop C F e space_cls p" and ?f = "ends C F e (Plus rn_cls)"
  have "\<not> here C F e rn_cls ?q"
    using run_stop [of C F e space_cls p] sane_windowD [OF assms(1)] stop_ge [of p C F e space_cls]
    by (auto simp: run_def here_def cls_defs sane_def)
  then have none: "\<not> here C F e rn_cls j" if "i < j" "j \<le> ?q" for j
    using assms(6) [of j] that by (cases "j = ?q") (auto simp: here_def rn_cls_def)
  have "?q \<le> e" using stop_le assms(2) .
  then have i: "here C F e rn_cls i" using assms(4,5) by (simp add: here_def rn_cls_def)
  have "stop C F e rn_cls (i + 1) = i + 1" using none [of "i + 1"] assms(4) by (intro stop_eqI run_start) simp
  then have fi: "?f i = [i + 1]" using i by (simp add: ends_Plus del: ends.simps)
  have "[p..<Suc ?q] = [p..<i] @ i # [Suc i..<Suc ?q]"
    using assms(3,4) upt_add_eq_append [of p i "Suc ?q - i"] upt_conv_Cons [of i "Suc ?q"] by simp
  then have "rev [p..<Suc ?q] = rev [Suc i..<Suc ?q] @ i # rev [p..<i]" by simp
  moreover have "concat (map ?f (rev [Suc i..<Suc ?q])) = []" using none by (auto simp: ends_Plus simp del: ends.simps)
  ultimately have "concat (map ?f (rev [p..<Suc ?q])) = (i + 1) # concat (map ?f (rev [p..<i]))"
    using fi by (simp only: map_append concat_append list.map concat.simps append_Nil append_Cons)
  then show ?thesis by (simp only: first_match_def ends.simps(2) [of _ _ _ "Star space_cls"] ends_Star list.case)
qed

lemma llama3_first_match:
  assumes "sane_window C F p e" and "p < e"
  shows "first_match C F e (llama3_re lower) p =
    (let k = contraction lower C e p; q = p + blank C p in
     if k > 0 then Some (p + k)
     else if \<not> (is_rn (C p) \<or> is_number (F p)) \<and> (is_letter (F p) \<or> is_letter (F (p + 1))) then Some (stop C F e letter_cls (p + 1))
     else if is_number (F p) then Some (p + digits F p)
     else if is_other (F q) then Some (stop C F e rn_cls (stop C F e other_cls q))
     else case first_match C F e (Cat (Star space_cls) (Plus rn_cls)) p of Some q \<Rightarrow> Some q | None \<Rightarrow> first_match C F e space_re p)"
proof -
  have "C p = 32 \<Longrightarrow> \<not> here C F e other_cls p"
    using sane_windowD [OF assms(1) order_refl assms(2)] by (auto simp: sane_def here_def other_cls_def)
  note fb = first_blank [OF assms(2) this]
  have "p \<le> p + blank C p" by simp
  note hi = here_iff(4) [OF assms(1) this]
  show ?thesis unfolding llama3_re_def
    by (simp add: first_match_Alt first_contraction [OF assms(2)] first_lead [OF assms] first_number [OF assms(1)] first_Cat_Star fb hi Let_def)
qed

lemma number_first:
  assumes "sane_window C F p e" and "is_number (F p)"
  shows "first_match C F e (llama3_re lower) p = Some (p + digits F p)"
proof -
  have "p < e" using assms quietD [OF sane_window_quiet] by (metis linorder_not_le no_flags_simps(2))
  moreover have "C p \<noteq> 39" using sane_windowD [OF assms(1) order_refl \<open>p < e\<close>] assms(2) by (auto simp: sane_def)
  ultimately show ?thesis using assms by (simp add: llama3_first_match contraction_def Let_def)
qed

lemma number_loop_follows:
  assumes "sane_window C F (prev_end st) e" and "prev_end st \<le> spos st" and "spos st - prev_end st < 3" and "spos st \<le> e"
    and "\<forall>i. prev_end st \<le> i \<and> i < spos st \<longrightarrow> is_number (F i)"
  shows "\<exists>st' ls. number_loop F e (prev_end st) st = Some st' \<and> bpe_offs st' = bpe_offs st @ ls \<and> prev_end st' = spos st' \<and>
    spos st \<le> spos st' \<and> spos st' \<le> e \<and> (is_number (F (spos st)) \<longrightarrow> spos st < spos st') \<and>
    regex_words C F e (llama3_re lower) (prev_end st) = ls @ regex_words C F e (llama3_re lower) (spos st')"
  using assms
proof (induction "e - spos st" arbitrary: st rule: less_induct)
  case less
  let ?w = "regex_words C F e (llama3_re lower)" and ?i = "prev_end st" and ?p = "spos st"
  have words: "?w ?i = d # ?w (?i + d)" if "is_number (F ?i)" "digits F ?i = d" "0 < d" for d
  proof -
    have "?i < e" using that(1) quietD [OF sane_window_quiet [OF less.prems(1)], of ?i] by (metis linorder_not_le no_flags_simps(2))
    then show ?thesis using number_first [OF less.prems(1) that(1), of lower] that(2,3) by (subst regex_words.simps) simp
  qed
  show ?case
  proof (cases "is_number (F ?p)")
    case True
    then have pe: "?p < e" using quietD [OF sane_window_quiet [OF less.prems(1)], of ?p] by (metis linorder_not_le no_flags_simps(2))
    have num: "is_number (F i)" if "?i \<le> i" "i < ?p + 1" for i using less.prems(5) True that by (cases "i = ?p") auto
    show ?thesis
    proof (cases "3 \<le> ?p + 1 - ?i")
      case big: True
      then have p3: "?p + 1 = ?i + 3" using less.prems(2,3) by simp
      let ?st = "st\<lparr>spos := ?p + 1, bpe_offs := bpe_offs st @ [3], prev_end := ?p + 1\<rparr>"
      have "digits F ?i = 3" using num [of "?i + 1"] num [of "?i + 2"] p3 by (simp add: digits_def)
      then have w: "?w ?i = 3 # ?w (?p + 1)" unfolding p3 using words [of 3] num [of ?i] less.prems(2) by simp
      have "add_token e (?p + 1) (st\<lparr>spos := ?p + 1\<rparr>) = Some (3, ?st)" using pe less.prems(2) p3 by (simp add: add_token_def Let_def)
      then have step: "number_loop F e ?i st = number_loop F e (?p + 1) ?st"
        using True big by (subst number_loop.simps) (simp add: Let_def)
      have "sane_window C F (?p + 1) e" using sane_window_later [OF less.prems(1)] less.prems(2) by simp
      moreover have "\<forall>i. ?p + 1 \<le> i \<and> i < ?p + 1 \<longrightarrow> is_number (F i)" "e - (?p + 1) < e - ?p" using pe by auto
      ultimately obtain st' ls where "number_loop F e (?p + 1) ?st = Some st'" "bpe_offs st' = bpe_offs st @ [3] @ ls" "prev_end st' = spos st'"
        "?p + 1 \<le> spos st'" "spos st' \<le> e" "?w (?p + 1) = ls @ ?w (spos st')"
        using less.hyps [of ?st] pe by auto
      then show ?thesis using step w by (intro exI [of _ st'] exI [of _ "3 # ls"]) simp
    next
      case small: False
      then have step: "number_loop F e ?i st = number_loop F e ?i (st\<lparr>spos := ?p + 1\<rparr>)"
        using True by (subst number_loop.simps) (simp add: Let_def)
      have "e - (?p + 1) < e - ?p" using pe by simp
      then obtain st' ls where "number_loop F e ?i (st\<lparr>spos := ?p + 1\<rparr>) = Some st'" "bpe_offs st' = bpe_offs st @ ls" "prev_end st' = spos st'"
        "?p + 1 \<le> spos st'" "spos st' \<le> e" "?w ?i = ls @ ?w (spos st')"
        using less.hyps [of "st\<lparr>spos := ?p + 1\<rparr>"] pe small num less.prems by (auto simp: less_Suc_eq_le)
      then show ?thesis using step by (intro exI [of _ st'] exI [of _ ls]) simp
    qed
  next
    case False
    let ?st = "st\<lparr>bpe_offs := (if ?p - ?i > 0 then bpe_offs st @ [?p - ?i] else bpe_offs st), prev_end := ?p\<rparr>"
    have step: "number_loop F e ?i st = Some ?st"
      using False less.prems by (subst number_loop.simps) (simp add: add_token_def Let_def)
    show ?thesis
    proof (cases "?p = ?i")
      case True
      then show ?thesis using step less.prems False by (intro exI [of _ ?st] exI [of _ "[]"]) simp
    next
      case ne: False
      then have "?p = ?i + 1 \<or> ?p = ?i + 2" using less.prems(2,3) by linarith
      then have "digits F ?i = ?p - ?i" using False less.prems(5) by (auto simp: digits_def)
      then have "?w ?i = (?p - ?i) # ?w ?p" using words [of "?p - ?i"] ne less.prems(2,5) by simp
      then show ?thesis using step ne less.prems False by (intro exI [of _ ?st] exI [of _ "[?p - ?i]"]) simp
    qed
  qed
qed


lemma number_follows:
  assumes "sane_window C F (spos st) e" and "prev_end st = spos st" and "is_number (F (spos st))"
  shows "follows C F e (llama3_re lower) st (number_loop F e (spos st) st)"
proof -
  have "spos st < e" using assms quietD [OF sane_window_quiet [OF assms(1)]] by (metis linorder_not_le no_flags_simps(2))
  moreover have "\<forall>i. prev_end st \<le> i \<and> i < spos st \<longrightarrow> is_number (F i)" using assms(2) by auto
  ultimately show ?thesis using number_loop_follows [of C F st e lower] assms by (auto simp: follows_def)
qed

lemma line_breaks_first:
  assumes "sane_window C F (spos st) e" and "spos st < e" and "is_whitespace (F (spos st))"
  shows "\<exists>q. (case first_match C F e (Cat (Star space_cls) (Plus rn_cls)) (spos st) of Some q \<Rightarrow> Some q | None \<Rightarrow> first_match C F e space_re (spos st)) = Some q \<and>
    spos st < q \<and> q \<le> e \<and> split_line_breaks C F e st = move_token e q st"
proof -
  let ?p = "spos st" and ?q = "stop C F e space_cls (spos st)"
  have h: "here C F e space_cls ?p" using here_iff(3) [OF assms(1)] assms(3) by simp
  have qe: "?q \<le> e" using stop_le assms(2) by simp
  have "run (\<lambda>p. is_whitespace (F p)) (?p + 0) ?q"
    using run_stop [of C F e space_cls ?p] run_cong [of ?p "here C F e space_cls" "\<lambda>p. is_whitespace (F p)"] here_iff(3) [OF assms(1)] by simp
  then obtain l where l: "whitespace_loop C F ?p 0 0 = Some (?q - ?p, l)"
    "l = 0 \<and> (\<forall>i. ?p \<le> i \<and> i < ?q \<longrightarrow> \<not> is_rn (C i)) \<or>
     (\<exists>i. ?p \<le> i \<and> i < ?q \<and> is_rn (C i) \<and> l = i + 1 \<and> (\<forall>j. i < j \<and> j < ?q \<longrightarrow> \<not> is_rn (C j)))"
    using whitespace_loop_ok [OF sane_window_quiet [OF assms(1)], of ?p 0 ?q 0] by auto
  from l(2) show ?thesis
  proof (elim disjE exE conjE)
    assume "l = 0" "\<forall>i. ?p \<le> i \<and> i < ?q \<longrightarrow> \<not> is_rn (C i)"
    then show ?thesis using first_breaks_None [OF assms(1)] assms(2) l(1) split_whitespace_first [OF assms(1,2) h]
      by (simp add: split_line_breaks_def)
  next
    fix i assume i: "?p \<le> i" "i < ?q" "is_rn (C i)" "l = i + 1" "\<forall>j. i < j \<and> j < ?q \<longrightarrow> \<not> is_rn (C j)"
    then have "first_match C F e (Cat (Star space_cls) (Plus rn_cls)) ?p = Some (i + 1)"
      using assms(2) by (intro first_breaks_Some [OF assms(1)]) auto
    then show ?thesis using l(1) i qe by (simp add: split_line_breaks_def)
  qed
qed

text \<open>
  A blank at the end of the window passes the test for other code points, because the code tests the flags of the blank
  and not those behind it; the word is the blank all the same.
\<close>

lemma other_run_end:
  assumes "quiet C F e"
  shows "other_run C F e = Some e"
proof -
  have "advance (\<lambda>p. is_other (F p)) e = Some e" "advance (\<lambda>p. is_rn (C p)) e = Some e"
    using quietD [OF assms, of e] by (auto intro!: advance_run run_start)
  then show ?thesis by (simp add: other_run_def)
qed

lemma llama3_follows:
  assumes "sane_window C F (spos st) e" and "spos st < e" and "prev_end st = spos st"
  shows "follows C F e (llama3_re lower) st (llama3_step lower C F e st)"
proof -
  let ?p = "spos st" and ?k = "contraction lower C e (spos st)" and ?q = "spos st + blank C (spos st)"
  let ?l = "\<not> (is_rn (C ?p) \<or> is_number (F ?p)) \<and> (is_letter (F ?p) \<or> is_letter (F (?p + 1)))"
  have "?p \<le> ?q" by simp
  note hi = here_iff [OF assms(1) this] and sw = sane_window_later [OF assms(1) this]
  have f: "(if C ?p = 32 then F (?p + 1) else F ?p) = F ?q" by simp
  have sp: "sane (C ?p) (F ?p)" using sane_windowD [OF assms(1) order_refl assms(2)] .
  note fm = llama3_first_match [OF assms(1,2), of lower]
  note move = follows_move [OF assms(3), where C = C and F = F and e = e and r = "llama3_re lower"]
  have code: "llama3_step lower C F e st =
    (if ?k > 0 then move_token e (?p + ?k) st
     else if ?l then move_token e (stop C F e letter_cls (?p + 1)) st
     else if is_number (F ?p) then number_loop F e ?p st
     else if \<not> (is_whitespace (F ?q) \<or> is_letter (F ?q) \<or> is_number (F ?q)) \<and> as_uint (F ?p) \<noteq> 0
       then Option.bind (other_run C F ?q) (\<lambda>q. move_token e q st)
     else split_line_breaks C F e st)"
    using advance_classes(1) [OF sane_window_later [OF assms(1)], of "?p + 1"]
    unfolding llama3_step_def Let_def move_contraction [OF assms(3)] f by simp
  consider (k) "?k > 0" | (l) "?k = 0" ?l | (n) "?k = 0" "\<not> ?l" "is_number (F ?p)"
    | (o) "?k = 0" "\<not> ?l" "\<not> is_number (F ?p)" "is_other (F ?q)"
    | (s) "?k = 0" "\<not> ?l" "\<not> is_number (F ?p)" "\<not> is_other (F ?q)" by blast
  then show ?thesis
  proof cases
    case k
    then show ?thesis unfolding code using fm contraction_bound [OF assms(2), of lower C] by (simp add: move Let_def)
  next
    case l
    then have "follows C F e (llama3_re lower) st (move_token e (stop C F e letter_cls (?p + 1)) st)"
      using fm stop_ge [of "?p + 1" C F e letter_cls] stop_le [of "?p + 1" e C F letter_cls] assms(2)
      by (intro move) (simp_all add: Let_def)
    then show ?thesis unfolding code using l by simp
  next
    case n
    then show ?thesis unfolding code using number_follows [OF assms(1,3)] by simp
  next
    case o
    have run: "other_run C F ?q = Some (stop C F e rn_cls (stop C F e other_cls ?q))"
      using advance_classes(4) [OF sw] advance_classes(5) [OF sane_window_later [OF sw stop_ge]] by (simp add: other_run_def)
    have "?p < stop C F e other_cls ?q" "stop C F e other_cls ?q \<le> e"
      using stop_gt [of C F e other_cls ?q] stop_le [of ?q e C F other_cls] hi(4) o(4) by (auto simp: here_def)
    then have "?p < stop C F e rn_cls (stop C F e other_cls ?q)" "stop C F e rn_cls (stop C F e other_cls ?q) \<le> e"
      using stop_ge [of "stop C F e other_cls ?q" C F e rn_cls] stop_le [of "stop C F e other_cls ?q" e C F rn_cls] by auto
    moreover have "first_match C F e (llama3_re lower) ?p = Some (stop C F e rn_cls (stop C F e other_cls ?q))"
      using fm o by (simp only: Let_def if_False if_True simp_thms less_numeral_extra)
    ultimately have "follows C F e (llama3_re lower) st (move_token e (stop C F e rn_cls (stop C F e other_cls ?q)) st)"
      by (intro move)
    moreover have "\<not> (is_whitespace (F ?q) \<or> is_letter (F ?q) \<or> is_number (F ?q)) \<and> as_uint (F ?p) \<noteq> 0"
      using o(4) sp by (simp add: is_other_def sane_def)
    ultimately show ?thesis unfolding code using o run by (simp only: if_True if_False bind.bind_lunit simp_thms less_numeral_extra)
  next
    case s
    have ws: "is_whitespace (F ?p)" using s sp by (cases "C ?p = 32") (auto simp: sane_def is_other_def)
    obtain q where q: "first_match C F e (llama3_re lower) ?p = Some q" "?p < q" "q \<le> e" "split_line_breaks C F e st = move_token e q st"
      using line_breaks_first [OF assms(1,2) ws] fm s by (simp only: Let_def if_False simp_thms less_numeral_extra) blast
    show ?thesis
    proof (cases "?q < e")
      case True
      then have "is_whitespace (F ?q) \<or> is_letter (F ?q) \<or> is_number (F ?q)"
        using s(4) sane_windowD [OF sw order_refl True] by (auto simp: is_other_def sane_def)
      then show ?thesis unfolding code using s move [OF q(1-3)] q(4) by (simp only: if_False simp_thms less_numeral_extra)
    next
      case False
      then have "C ?p = 32" "?q = e" using assms(2) by (auto split: if_splits)
      then have e: "e = ?p + 1" by simp
      then have "q = e" using q(2,3) by simp
      moreover have "F ?q = no_flags" using quietD [OF sane_window_quiet [OF assms(1)], of ?q] \<open>?q = e\<close> by simp
      then have "\<not> (is_whitespace (F ?q) \<or> is_letter (F ?q) \<or> is_number (F ?q)) \<and> as_uint (F ?p) \<noteq> 0"
        using sp by (simp add: sane_def)
      moreover have "Option.bind (other_run C F ?q) (\<lambda>q. move_token e q st) = move_token e q st"
        unfolding \<open>?q = e\<close> \<open>q = e\<close> other_run_end [OF sane_window_quiet [OF assms(1)]] by simp
      ultimately show ?thesis unfolding code using s(1-3) move [OF q(1-3)] by (simp only: if_False if_True simp_thms less_numeral_extra)
    qed
  qed
qed


section \<open>Whole texts\<close>

text \<open>The words of the consecutive windows from \<open>start\<close> on.\<close>

primrec window_words :: "unicode_tables \<Rightarrow> int list \<Rightarrow> re \<Rightarrow> nat \<Rightarrow> nat list \<Rightarrow> nat list" where
  "window_words tb cpts r start [] = []"
| "window_words tb cpts r start (offset # offsets) =
     (let e = start + offset in regex_words (get_cpt cpts start e) (get_flags tb cpts start e) e r start @ window_words tb cpts r e offsets)"

definition sane_text :: "unicode_tables \<Rightarrow> int list \<Rightarrow> bool" where
  "sane_text tb cpts \<longleftrightarrow> (\<forall>c\<in>set cpts. sane c (unicode_cpt_flags_from_cpt tb c))"

lemma sane_window_get:
  assumes "sane_text tb cpts" and "e \<le> length cpts"
  shows "sane_window (get_cpt cpts ini e) (get_flags tb cpts ini e) ini e"
  using assms quiet_get by (simp add: sane_window_def sane_text_def get_cpt_def get_flags_def)

text \<open>A splitter whose passes take the next matches of an expression takes all its matches.\<close>

locale regex_splitter =
  fixes step :: split_step and r :: re
  assumes step_follows: "sane_window C F (spos st) e \<Longrightarrow> spos st < e \<Longrightarrow> prev_end st = spos st \<Longrightarrow> follows C F e r st (step C F e st)"
begin

lemma window_loop_words:
  assumes "sane_window C F (spos st) e" and "spos st \<le> e" and "prev_end st = spos st"
  shows "\<exists>st'. window_loop (step C F e) e st = Some st' \<and> bpe_offs st' = bpe_offs st @ regex_words C F e r (spos st)"
  using assms
proof (induction "e - spos st" arbitrary: st rule: less_induct)
  case less
  show ?case
  proof (cases "spos st < e")
    case True
    then obtain s ls where s: "step C F e st = Some s" "bpe_offs s = bpe_offs st @ ls" "prev_end s = spos s" "spos st < spos s" "spos s \<le> e"
      "regex_words C F e r (spos st) = ls @ regex_words C F e r (spos s)"
      using step_follows [OF less.prems(1) True less.prems(3)] by (auto simp: follows_def)
    moreover have "e - spos s < e - spos st" using True s(4) by simp
    moreover have "sane_window C F (spos s) e" using sane_window_later [OF less.prems(1)] s(4) by simp
    ultimately obtain st' where "window_loop (step C F e) e s = Some st'" "bpe_offs st' = bpe_offs s @ regex_words C F e r (spos s)"
      using less.hyps [of s] by auto
    then show ?thesis using True s by (subst window_loop.simps) auto
  next
    case False
    then show ?thesis by (subst window_loop.simps, subst regex_words.simps) simp
  qed
qed

lemma for_windows_words:
  assumes "sane_text tb cpts" and "start + sum_list offsets \<le> length cpts"
  shows "map_option snd (for_each (split_window step (\<lambda>_. Some) tb cpts) offsets (start, offs)) = Some (offs @ window_words tb cpts r start offsets)"
  using assms(2)
proof (induction offsets arbitrary: start offs)
  case (Cons offset offsets)
  let ?e = "start + offset" and ?st = "\<lparr>spos = start, prev_end = start, bpe_offs = offs\<rparr>"
  let ?C = "get_cpt cpts start ?e" and ?F = "get_flags tb cpts start ?e"
  have e: "?e \<le> length cpts" using Cons.prems by simp
  obtain st' where "window_loop (step ?C ?F ?e) ?e ?st = Some st'" "bpe_offs st' = offs @ regex_words ?C ?F ?e r start"
    using window_loop_words [of ?C ?F ?st ?e] sane_window_get [OF assms(1) e] by auto
  then have "split_window step (\<lambda>_. Some) tb cpts offset (start, offs) = Some (?e, offs @ regex_words ?C ?F ?e r start)"
    using e by (simp add: split_window_def Let_def)
  then show ?case using Cons.IH [of ?e "offs @ regex_words ?C ?F ?e r start"] Cons.prems by (simp add: Let_def)
qed simp

lemma split_windows_words:
  assumes "sane_text tb (unicode_cpts_from_utf8 text)" and "sum_list offsets \<le> length (unicode_cpts_from_utf8 text)"
  shows "split_windows step (\<lambda>_. Some) tb text offsets = Some (window_words tb (unicode_cpts_from_utf8 text) r 0 offsets)"
  using for_windows_words [OF assms(1), of 0 offsets "[]"] assms(2) by (simp add: split_windows_def)

end

interpretation gpt2_rx: regex_splitter gpt2_step gpt2_re
  by unfold_locales (rule gpt2_follows)

interpretation llama3_rx: regex_splitter "llama3_step lower" "llama3_re lower" for lower
  by unfold_locales (rule llama3_follows)

text \<open>
  C16: On texts whose code points have consistent flags the hand-written splitters of GPT-2 and Llama 3 compute what their
  regular expressions say: the words of every window are the successive first matches of a backtracking matcher.
\<close>

theorem splitters_match_regex:
  assumes "sane_text tb (unicode_cpts_from_utf8 text)" and "sum_list offsets \<le> length (unicode_cpts_from_utf8 text)"
  shows "unicode_regex_split_custom_gpt2 tb text offsets = Some (window_words tb (unicode_cpts_from_utf8 text) gpt2_re 0 offsets) \<and>
    unicode_regex_split_custom_llama3 tb text offsets = Some (window_words tb (unicode_cpts_from_utf8 text) (llama3_re (unicode_tolower tb)) 0 offsets)"
  using gpt2_rx.split_windows_words [OF assms] llama3_rx.split_windows_words [OF assms]
  by (simp add: unicode_regex_split_custom_gpt2_def unicode_regex_split_custom_llama3_def)

definition small_tables :: unicode_tables where
  "small_tables =
     \<lparr>unicode_ranges_flags = [(0, 0x80), (0x20, 0x08), (0x21, 0x20), (0x30, 0x02), (0x3A, 0x20), (0x61, 0x04), (0x80, 0x01)],
      unicode_set_whitespace = [9, 10, 11, 12, 13, 32], unicode_map_lowercase = [], unicode_map_uppercase = [], unicode_ranges_nfd = []\<rparr>"

theorem splitters_match_regex_witness:
  "unicode_regex_split_custom_gpt2 small_tables ''it's 12  ok'' [11] = Some (window_words small_tables (map of_char ''it's 12  ok'') gpt2_re 0 [11]) \<and>
   unicode_regex_split_custom_llama3 small_tables ''it's 12  ok'' [11] =
     Some (window_words small_tables (map of_char ''it's 12  ok'') (llama3_re (unicode_tolower small_tables)) 0 [11])"
proof -
  have c: "unicode_cpts_from_utf8 ''it's 12  ok'' = map of_char ''it's 12  ok''" by code_simp
  have "sane_text small_tables (map of_char ''it's 12  ok'')" by code_simp
  then show ?thesis using splitters_match_regex [of small_tables "''it's 12  ok''" "[11]"] unfolding c by simp
qed

end
