(* ===== verification/Unicode_Sync.thy ===== *)
theory Unicode_Sync
  imports Unicode
begin

text \<open>
  UTF-8 synchronises itself: the first byte of a code point is not a continuation byte, so an encoded string occurs in an
  encoded text only at the boundaries of code points.
\<close>

definition cont :: "char \<Rightarrow> bool" where
  "cont x \<longleftrightarrow> 128 \<le> ub x \<and> ub x < 192"

lemma enc_cont:
  assumes "is_cpt c"
  shows "\<exists>x xs. enc c = x # xs \<and> \<not> cont x \<and> (\<forall>y\<in>set xs. cont y) \<and> length (enc c) = unicode_len_utf8 x"
  using assms
proof (cases rule: encode_cases)
  case B1
  have "nat (c div 16) < 8" using B1 assms by linarith
  then show ?thesis using B1 assms by (auto simp: enc_def cont_def unicode_len_utf8_def utf8_lookup_def nth_Cons split: nat.splits)
next
  case (B2 a b)
  have "(192 + a) div 16 = 12 \<or> (192 + a) div 16 = 13" using B2(1,2) by linarith
  then show ?thesis using B2 by (auto simp: enc_def cont_def unicode_len_utf8_def utf8_lookup_def)
next
  case (B3 a b d)
  have "(224 + a) div 16 = 14" using B3(1,2) by linarith
  then show ?thesis using B3 by (simp add: enc_def cont_def unicode_len_utf8_def utf8_lookup_def)
next
  case (B4 a b d e)
  have "(240 + a) div 16 = 15" using B4(1,2) by linarith
  then show ?thesis using B4 by (simp add: enc_def cont_def unicode_len_utf8_def utf8_lookup_def)
qed

lemma encode_Nil [simp]: "encode [] = []"
  by (simp add: encode_def)

lemma encode_Cons: "encode (c # cs) = enc c @ encode cs"
  by (simp add: encode_def)

lemma encode_append: "encode (as @ bs) = encode as @ encode bs"
  by (simp add: encode_def)

lemma encode_nonempty: "\<forall>c\<in>set cs. is_cpt c \<Longrightarrow> cs \<noteq> [] \<Longrightarrow> encode cs \<noteq> []"
  using encode_Some by (cases cs) (auto simp: encode_Cons)

lemma enc_prefix_free:
  assumes "is_cpt c" and "is_cpt d" and "enc c @ r = enc d @ s"
  shows "c = d \<and> r = s"
proof -
  obtain x xs where x: "enc c = x # xs" "length (enc c) = unicode_len_utf8 x" using enc_cont [OF assms(1)] by blast
  obtain y ys where y: "enc d = y # ys" "length (enc d) = unicode_len_utf8 y" using enc_cont [OF assms(2)] by blast
  have "length (enc c) = length (enc d)" using x y assms(3) by simp
  then have "enc c = enc d" "r = s" using assms(3) by auto
  then show ?thesis using enc_inj [OF assms(1,2)] by blast
qed

text \<open>A byte that is not a continuation byte starts a code point.\<close>

lemma encode_boundary:
  assumes "\<forall>c\<in>set cs. is_cpt c" and "encode cs = a @ x # r" and "\<not> cont x"
  shows "\<exists>as bs. cs = as @ bs \<and> a = encode as \<and> encode bs = x # r"
  using assms
proof (induction cs arbitrary: a)
  case (Cons c cs)
  have c: "is_cpt c" "\<forall>c\<in>set cs. is_cpt c" using Cons.prems(1) by simp_all
  show ?case
  proof (cases "a = []")
    case True
    then show ?thesis using Cons.prems(2) by (intro exI [of _ "[]"] exI [of _ "c # cs"]) simp
  next
    case False
    obtain y ys where y: "enc c = y # ys" "\<forall>z\<in>set ys. cont z" using enc_cont [OF c(1)] by blast
    obtain a' where a: "a = y # a'" and eq: "ys @ encode cs = a' @ x # r"
      using False Cons.prems(2) y(1) by (cases a) (auto simp: encode_Cons)
    from eq obtain a2 where "a' = ys @ a2" "encode cs = a2 @ x # r"
      using y(2) assms(3) by (auto simp: append_eq_append_conv2 append_eq_Cons_conv)
    with Cons.IH [OF c(2) this(2) assms(3)] obtain as bs where "cs = as @ bs" "a2 = encode as" "encode bs = x # r" by blast
    then show ?thesis using a y(1) \<open>a' = ys @ a2\<close> by (intro exI [of _ "c # as"] exI [of _ bs]) (simp add: encode_Cons)
  qed
qed simp

lemma encode_prefix:
  assumes "\<forall>c\<in>set cs. is_cpt c" and "\<forall>c\<in>set ts. is_cpt c" and "encode cs = encode ts @ b"
  shows "\<exists>bs. cs = ts @ bs \<and> b = encode bs"
  using assms
proof (induction ts arbitrary: cs)
  case (Cons t ts)
  then have t: "is_cpt t" by simp
  then have "encode cs \<noteq> []" using Cons.prems(3) encode_Some [of t] by (simp add: encode_Cons)
  then obtain c cs' where cs: "cs = c # cs'" by (cases cs) auto
  then have "c = t \<and> encode cs' = encode ts @ b" using enc_prefix_free [of c t] t Cons.prems by (simp add: encode_Cons)
  then show ?case using Cons.IH [of cs'] Cons.prems cs by auto
qed simp

text \<open>An encoded string occurs only where its code points do.\<close>

lemma encode_occurrence:
  assumes "\<forall>c\<in>set cs. is_cpt c" and "\<forall>c\<in>set ts. is_cpt c" and "ts \<noteq> []" and "encode cs = a @ encode ts @ b"
  shows "\<exists>as bs. cs = as @ ts @ bs \<and> a = encode as \<and> b = encode bs"
proof -
  obtain t ts' where ts: "ts = t # ts'" using assms(3) by (cases ts) auto
  obtain x xs where x: "enc t = x # xs" "\<not> cont x" using enc_cont [of t] assms(2) ts by auto
  then have "encode cs = a @ x # (xs @ encode ts' @ b)" using assms(4) ts by (simp add: encode_Cons)
  from encode_boundary [OF assms(1) this x(2)] obtain as cs2 where as: "cs = as @ cs2" "a = encode as" "encode cs2 = encode ts @ b"
    using ts x(1) by (auto simp: encode_Cons)
  from encode_prefix [OF _ assms(2) as(3)] obtain bs where "cs2 = ts @ bs" "b = encode bs" using assms(1) as(1) by auto
  then show ?thesis using as by auto
qed

end
