(* ===== verification/Unicode_Words.thy ===== *)
theory Unicode_Words
  imports Unicode_Partition
begin

text \<open>
  \<open>unicode_regex_split\<close> of \<open>src/src/unicode.cpp\<close>: the expressions of a vocabulary are applied one after the other, by a
  hand-written splitter or by \<open>std::regex\<close> on a collapsed text, and the words are spelled in the byte alphabet.  The
  words lose nothing of the text: read back byte by byte they spell it.
\<close>

section \<open>The fallback to \<open>std::regex\<close>\<close>

text \<open>
  A compiled expression lists the positions and lengths of its matches in a text (\<open>None\<close>: \<open>std::regex_error\<close>).
  \<open>std_regex wide expr\<close> is the constructor of \<open>std::regex\<close> or \<open>std::wregex\<close>.
\<close>

type_synonym regex_iterator = "int list \<Rightarrow> (nat \<times> nat) list option"
type_synonym std_regex = "bool \<Rightarrow> int list \<Rightarrow> regex_iterator option"

definition stl_match :: "nat \<times> nat \<Rightarrow> nat \<times> nat list \<Rightarrow> nat \<times> nat list" where
  "stl_match = (\<lambda>(position, len) (start_idx, bpe_offsets).
     (position + len, (if position > start_idx then bpe_offsets @ [position - start_idx] else bpe_offsets) @ [len]))"

definition stl_window :: "regex_iterator \<Rightarrow> int list \<Rightarrow> nat \<Rightarrow> nat \<times> nat list \<Rightarrow> (nat \<times> nat list) option" where
  "stl_window it text offset = (\<lambda>(start, bpe_offsets). do {
     ggml_assert (start + offset \<le> length text);
     matches \<leftarrow> it (take offset (drop start text));
     let (start_idx, bpe_offsets) = fold stl_match matches (0, bpe_offsets);
     Some (start + offset, if start_idx < offset then bpe_offsets @ [offset - start_idx] else bpe_offsets) })"

definition unicode_regex_split_stl :: "std_regex \<Rightarrow> bool \<Rightarrow> int list \<Rightarrow> int list \<Rightarrow> nat list \<Rightarrow> nat list option" where
  "unicode_regex_split_stl rx wide text regex offsets = do {
     it \<leftarrow> rx wide regex;
     map_option snd (for_each (stl_window it text) offsets (0, [])) }"

section \<open>Collapsed text and expression\<close>

definition NUMBER :: int where "NUMBER = 0x0002"
definition LETTER :: int where "LETTER = 0x0004"
definition ACCENT_MARK :: int where "ACCENT_MARK = 0x0010"
definition PUNCTUATION :: int where "PUNCTUATION = 0x0020"
definition SYMBOL :: int where "SYMBOL = 0x0040"

definition k_ucat_enum :: "(string \<times> int) list" where
  "k_ucat_enum =
     [(cstr ''#p{N}'', NUMBER), (cstr ''#p{L}'', LETTER), (cstr ''#p{P}'', PUNCTUATION), (cstr ''#p{M}'', ACCENT_MARK),
      (cstr ''#p{S}'', SYMBOL), (cstr ''#p{Lu}'', LETTER), (cstr ''#p{Ll}'', LETTER), (cstr ''#p{Lt}'', LETTER),
      (cstr ''#p{Lm}'', LETTER), (cstr ''#p{Lo}'', LETTER)]"

definition k_ucat_cpt :: "(int \<times> int) list" where
  "k_ucat_cpt = [(NUMBER, 0xD1), (LETTER, 0xD2), (PUNCTUATION, 0xD3), (ACCENT_MARK, 0xD4), (SYMBOL, 0xD5)]"

definition k_ucat_map :: "(int \<times> string) list" where
  "k_ucat_map =
     [(NUMBER, ''0-9''), (LETTER, ''A-Za-z''), (PUNCTUATION, ''!-#'' @ cstr ''%-*,-/:-;?-@#[-#]_#{#}''), (ACCENT_MARK, ''''),
      (SYMBOL, cstr ''#$#+<->^`#|'')]"

definition has_ucat :: "string \<Rightarrow> bool" where
  "has_ucat regex_expr \<longleftrightarrow>
     list_ex (\<lambda>(ucat, _). list_ex (\<lambda>i. take (length ucat) (drop i regex_expr) = ucat) [0..<length regex_expr]) k_ucat_enum"

definition collapse_cpt :: "unicode_tables \<Rightarrow> int \<Rightarrow> int" where
  "collapse_cpt tb c =
     (if c < 128 then c
      else
        let flags = unicode_cpt_flags_from_cpt tb c in
        if is_whitespace flags then 0x0B
        else case map_of k_ucat_cpt (category_flag flags) of Some b \<Rightarrow> b | None \<Rightarrow> 0xD0)"

text \<open>The category that starts at position \<open>i\<close> of the expression, and the position of its closing brace.\<close>

definition category_at :: "string \<Rightarrow> nat \<Rightarrow> (int \<times> nat) option" where
  "category_at regex_expr i =
     (if regex_expr ! i = CHR 0x5C \<and> i + 3 < length regex_expr \<and> regex_expr ! (i + 1) = CHR ''p'' \<and> regex_expr ! (i + 2) = CHR ''{'' then do {
        closing_brace \<leftarrow> List.find (\<lambda>j. regex_expr ! j = CHR ''}'') [i + 3..<length regex_expr];
        if closing_brace \<le> i + 10 then
          map_option (\<lambda>ucat. (ucat, closing_brace)) (map_of k_ucat_enum (take (closing_brace - i + 1) (drop i regex_expr)))
        else None }
      else None)"

definition collapsed_category :: "bool \<Rightarrow> int \<Rightarrow> int list" where
  "collapsed_category inside ucat =
     (if inside then [] else [91]) @ [the (map_of k_ucat_cpt ucat)] @ map ub (the (map_of k_ucat_map ucat)) @ (if inside then [] else [93])"

lemma category_at_closing: "category_at regex_expr i = Some (ucat, j) \<Longrightarrow> i < j \<and> j < length regex_expr"
  by (auto simp: category_at_def find_Some_iff split: if_splits option.splits bind_splits)

function collapse_regex :: "string \<Rightarrow> nat \<Rightarrow> bool \<Rightarrow> int list \<Rightarrow> int list" where
  "collapse_regex regex_expr i inside collapsed =
     (if i < length regex_expr then
        let c = regex_expr ! i in
        if c = CHR ''['' \<and> (i = 0 \<or> regex_expr ! (i - 1) \<noteq> CHR 0x5C) then
          collapse_regex regex_expr (i + 1) True (collapsed @ [91])
        else if inside \<and> c = CHR '']'' \<and> regex_expr ! (i - 1) \<noteq> CHR 0x5C then
          collapse_regex regex_expr (i + 1) False (collapsed @ [93])
        else (case category_at regex_expr i of
            Some (ucat, closing_brace) \<Rightarrow> collapse_regex regex_expr (closing_brace + 1) inside (collapsed @ collapsed_category inside ucat)
          | None \<Rightarrow> collapse_regex regex_expr (i + 1) inside (collapsed @ [ub c]))
      else collapsed)"
  by pat_completeness auto
termination
  by (relation "measure (\<lambda>(r, i, inside, c). length r - i)") (auto intro!: diff_less_mono2 dest!: category_at_closing)

declare collapse_regex.simps [simp del]

section \<open>Splitting a text\<close>

definition wide_cpt :: "unicode_tables \<Rightarrow> int \<Rightarrow> int" where
  "wide_cpt tb c = (if c > 0x7F \<and> is_whitespace (unicode_cpt_flags_from_cpt tb c) then 0x0B else c)"

text \<open>One expression: a custom splitter when it returns words, otherwise \<open>std::regex\<close>.\<close>

definition split_by_regex :: "std_regex \<Rightarrow> unicode_tables \<Rightarrow> string \<Rightarrow> int list \<Rightarrow> string \<Rightarrow> nat list \<Rightarrow> nat list option" where
  "split_by_regex rx tb text text_collapsed regex_expr bpe_offsets = do {
     tmp \<leftarrow> unicode_regex_split_custom tb text regex_expr bpe_offsets;
     if tmp \<noteq> [] then Some tmp
     else
       let cpts_regex = unicode_cpts_from_utf8 regex_expr in
       if has_ucat regex_expr then
         (if list_ex (\<lambda>c. c \<ge> 128) cpts_regex then None
          else unicode_regex_split_stl rx False text_collapsed (collapse_regex regex_expr 0 False []) bpe_offsets)
       else unicode_regex_split_stl rx True (map (wide_cpt tb) (unicode_cpts_from_utf8 text)) cpts_regex bpe_offsets }"

definition bpe_word :: "int list \<Rightarrow> nat \<Rightarrow> nat \<times> string list \<Rightarrow> (nat \<times> string list) option" where
  "bpe_word cpts offset = (\<lambda>(start, bpe_words). do {
     ggml_assert (start + offset \<le> length cpts);
     word \<leftarrow> unicode_cpts_to_utf8 (take offset (drop start cpts));
     Some (start + offset, bpe_words @ [word]) })"

definition unicode_regex_split :: "std_regex \<Rightarrow> unicode_tables \<Rightarrow> string \<Rightarrow> string list \<Rightarrow> string list option" where
  "unicode_regex_split rx tb text regex_exprs = do {
     let need_collapse = list_ex has_ucat regex_exprs;
     let cpts = unicode_cpts_from_utf8 text;
     let text_collapsed = (if need_collapse then map (collapse_cpt tb) cpts else []);
     bpe_offsets \<leftarrow> for_each (split_by_regex rx tb text text_collapsed) regex_exprs [length cpts];
     (start, bpe_words) \<leftarrow> for_each (bpe_word cpts) bpe_offsets (0, []);
     unicode_byte_encoding_process bpe_words }"

section \<open>Nothing is lost\<close>

text \<open>What the standard says of \<open>std::regex_iterator\<close>: the matches lie in the text, in order and without overlap.\<close>

fun matches_ok :: "nat \<Rightarrow> (nat \<times> nat) list \<Rightarrow> nat \<Rightarrow> bool" where
  "matches_ok start [] n \<longleftrightarrow> start \<le> n"
| "matches_ok start ((position, len) # ms) n \<longleftrightarrow> start \<le> position \<and> matches_ok (position + len) ms n"

definition regex_law :: "std_regex \<Rightarrow> bool" where
  "regex_law rx \<longleftrightarrow> (\<forall>wide regex it text ms. rx wide regex = Some it \<longrightarrow> it text = Some ms \<longrightarrow> matches_ok 0 ms (length text))"

lemma stl_match_sum:
  assumes "matches_ok s ms n" and "sum_list offs = k + s" and "fold stl_match ms (s, offs) = (s', offs')"
  shows "sum_list offs' = k + s' \<and> s' \<le> n"
  using assms
proof (induction s ms n arbitrary: offs rule: matches_ok.induct)
  case (2 s p l ms n)
  let ?offs = "(if p > s then offs @ [p - s] else offs) @ [l]"
  have "sum_list ?offs = k + (p + l)" "fold stl_match ms (p + l, ?offs) = (s', offs')" using 2 by (auto simp: stl_match_def)
  then show ?case using 2 by (simp del: sum_list_append)
qed simp

lemma stl_windows_sum:
  assumes "regex_law rx" and "rx wide regex = Some it" and "for_each (stl_window it text) offsets (start, offs) = Some (start', offs')"
    and "sum_list offs = start"
  shows "sum_list offs' = start + sum_list offsets"
  using assms(3,4)
proof (induction offsets arbitrary: start offs)
  case (Cons offset offsets)
  obtain m where m: "start + offset \<le> length text" "it (take offset (drop start text)) = Some m"
    using Cons.prems by (auto simp: stl_window_def split: if_splits bind_splits)
  obtain s o1 where f: "fold stl_match m (0, offs) = (s, o1)" by fastforce
  have "matches_ok 0 m offset" using assms(1,2) m unfolding regex_law_def by (metis length_drop length_take min.absorb2 le_diff_conv2 add.commute le_add1 le_trans)
  then have s: "sum_list o1 = start + s \<and> s \<le> offset" using stl_match_sum [OF _ _ f, of offset start] Cons.prems(2) by simp
  let ?o = "if s < offset then o1 @ [offset - s] else o1"
  have "stl_window it text offset (start, offs) = Some (start + offset, ?o)" using m f by (simp add: stl_window_def)
  then have "sum_list offs' = start + offset + sum_list offsets" using Cons.IH [of "start + offset" ?o] Cons.prems(1) s by (auto split: if_splits)
  then show ?case by simp
qed simp

lemma stl_sum:
  assumes "regex_law rx" and "unicode_regex_split_stl rx wide text regex offsets = Some ls"
  shows "sum_list ls = sum_list offsets"
  using assms stl_windows_sum [OF assms(1), of wide regex _ "text" offsets 0 "[]"]
  by (auto simp: unicode_regex_split_stl_def split: bind_splits)

lemma split_by_regex_sum:
  assumes "regex_law rx" and "split_by_regex rx tb text col regex offsets = Some ls"
    and "sum_list offsets = length (unicode_cpts_from_utf8 text)"
  shows "sum_list ls = sum_list offsets"
proof (cases "\<exists>tmp. tmp \<noteq> [] \<and> unicode_regex_split_custom tb text regex offsets = Some tmp")
  case True
  then obtain tmp where t: "tmp \<noteq> []" "unicode_regex_split_custom tb text regex offsets = Some tmp" by blast
  then have "ls = tmp" using assms(2) by (simp add: split_by_regex_def)
  moreover have "regex \<in> custom_regexes" using t custom_split_other by force
  ultimately show ?thesis using custom_split_subdivides [of regex offsets "text" tb] t subdivides_sum assms(3) by force
next
  case False
  then show ?thesis using assms(2) stl_sum [OF assms(1)]
    unfolding split_by_regex_def by (auto simp: Let_def split: bind_splits if_splits)
qed

lemma split_by_regexes_sum:
  assumes "regex_law rx" and "for_each (split_by_regex rx tb text col) regexes offsets = Some ls"
    and "sum_list offsets = length (unicode_cpts_from_utf8 text)"
  shows "sum_list ls = length (unicode_cpts_from_utf8 text)"
  using assms(2,3)
proof (induction regexes arbitrary: offsets)
  case (Cons regex regexes)
  then show ?case using split_by_regex_sum [OF assms(1)] by (auto split: bind_splits)
qed simp

text \<open>The words of the code points, as lists of code points.\<close>

fun cut_at :: "nat list \<Rightarrow> 'a list \<Rightarrow> 'a list list" where
  "cut_at [] xs = []"
| "cut_at (l # ls) xs = take l xs # cut_at ls (drop l xs)"

lemma concat_cut_at: "sum_list ls = length xs \<Longrightarrow> concat (cut_at ls xs) = xs"
  by (induction ls arbitrary: xs) (auto simp: append_take_drop_id)

lemma set_cut_at: "p \<in> set (cut_at ls xs) \<Longrightarrow> set p \<subseteq> set xs"
  by (induction ls arbitrary: xs) (auto dest: in_set_takeD in_set_dropD)

lemma bpe_words_cut_at:
  assumes "\<forall>c\<in>set cpts. is_cpt c" and "start + sum_list ls = length cpts"
  shows "for_each (bpe_word cpts) ls (start, ws) = Some (length cpts, ws @ map encode (cut_at ls (drop start cpts)))"
  using assms(2)
proof (induction ls arbitrary: start ws)
  case (Cons l ls)
  have "\<forall>c\<in>set (take l (drop start cpts)). is_cpt c" using assms(1) by (meson in_set_dropD in_set_takeD)
  then have "bpe_word cpts l (start, ws) = Some (start + l, ws @ [encode (take l (drop start cpts))])"
    using Cons.prems cpts_to_utf8_encode by (simp add: bpe_word_def)
  then show ?case using Cons.IH [of "start + l"] Cons.prems by (simp add: add.commute)
qed simp

definition spell :: "string \<Rightarrow> string" where
  "spell w = encode (map (byte_cpt \<circ> ub) w)"

lemma encode_word_spell:
  assumes "\<forall>c\<in>set cps. is_cpt c"
  shows "encode_word (encode cps) = Some (spell (encode cps))"
  using spell_bytes [of "encode cps" "[]"] cpts_to_utf8_encode [OF assms] cpts_from_encode [OF assms]
  by (simp add: encode_word_def unicode_cpts_to_utf8_def spell_def)


lemma encoding_process_spell:
  assumes "\<forall>cps\<in>set cpss. \<forall>c\<in>set cps. is_cpt c"
  shows "unicode_byte_encoding_process (map encode cpss) = Some (map (spell \<circ> encode) cpss)"
proof -
  have "for_each (\<lambda>word words. do { w \<leftarrow> encode_word word; Some (words @ [w]) }) (map encode cpss) ws = Some (ws @ map (spell \<circ> encode) cpss)" for ws
    using assms by (induction cpss arbitrary: ws) (simp_all add: encode_word_spell)
  then show ?thesis by (simp add: unicode_byte_encoding_process_def)
qed

lemma regex_split_eq:
  assumes "regex_law rx" and "\<forall>c\<in>set (unicode_cpts_from_utf8 text). is_cpt c" and "unicode_regex_split rx tb text regex_exprs = Some words"
  shows "\<exists>ls. sum_list ls = length (unicode_cpts_from_utf8 text) \<and> words = map (spell \<circ> encode) (cut_at ls (unicode_cpts_from_utf8 text))"
proof -
  let ?c = "unicode_cpts_from_utf8 text" and ?col = "if list_ex has_ucat regex_exprs then map (collapse_cpt tb) (unicode_cpts_from_utf8 text) else []"
  obtain ls where ls: "for_each (split_by_regex rx tb text ?col) regex_exprs [length ?c] = Some ls"
    using assms(3) unfolding unicode_regex_split_def Let_def by (auto split: bind_splits)
  have sum: "sum_list ls = length ?c" using split_by_regexes_sum [OF assms(1) ls] by simp
  have "\<forall>cps\<in>set (cut_at ls ?c). \<forall>c\<in>set cps. is_cpt c" using assms(2) set_cut_at by blast
  then have "words = map (spell \<circ> encode) (cut_at ls ?c)"
    using assms(3) ls bpe_words_cut_at [OF assms(2), of 0 ls "[]"] sum encoding_process_spell
    unfolding unicode_regex_split_def Let_def by simp
  with sum show ?thesis by blast
qed

section \<open>Reading the words back\<close>

definition hex_lower :: "int \<Rightarrow> char" where
  "hex_lower n = ''0123456789abcdef'' ! nat n"

text \<open>\<open>llama_decode_text\<close> of \<open>src/src/llama-vocab.cpp\<close>.\<close>

definition llama_decode_text :: "string \<Rightarrow> string option" where
  "llama_decode_text text =
     for_each (\<lambda>cpt decoded_text. do {
       utf8 \<leftarrow> unicode_cpt_to_utf8 cpt;
       case unicode_utf8_to_byte utf8 of
         Some b \<Rightarrow> Some (decoded_text @ [chr_of b])
       | None \<Rightarrow> Some (decoded_text @ ''[UNK_BYTE_0x'' @ concat (map (\<lambda>c. [hex_lower (ub c div 16), hex_lower (ub c mod 16)]) utf8) @ text @ '']'') })
     (unicode_cpts_from_utf8 text) []"

lemma chr_of_ub [simp]: "chr_of (ub c) = c"
  by (simp add: chr_of_def ub_def)

lemma spell_cpts: "unicode_cpts_from_utf8 (spell w) = map (byte_cpt \<circ> ub) w"
  unfolding spell_def by (rule cpts_from_encode) (use byte_cpt_is_cpt in auto)

lemma decode_spell: "llama_decode_text (spell w) = Some w"
proof -
  have "for_each (\<lambda>cpt decoded_text. do {
       utf8 \<leftarrow> unicode_cpt_to_utf8 cpt;
       case unicode_utf8_to_byte utf8 of
         Some b \<Rightarrow> Some (decoded_text @ [chr_of b])
       | None \<Rightarrow> Some (decoded_text @ ''[UNK_BYTE_0x'' @ concat (map (\<lambda>c. [hex_lower (ub c div 16), hex_lower (ub c mod 16)]) utf8) @ t @ '']'') })
     (map (byte_cpt \<circ> ub) v) d = Some (d @ v)" for v d t
    using enc_Some [OF byte_cpt_is_cpt] by (induction v arbitrary: d) (simp_all add: utf8_to_byte_enc)
  then show ?thesis unfolding llama_decode_text_def spell_cpts by simp
qed

lemma spell_append: "spell (u @ v) = spell u @ spell v"
  by (simp add: spell_def encode_def)

lemma split_custom_total:
  assumes "set regex_exprs \<subseteq> custom_regexes" and "offsets \<noteq> []" and "sum_list offsets = length (unicode_cpts_from_utf8 text)" and "sum_list offsets > 0"
  shows "\<exists>ls. (\<forall>rx. for_each (split_by_regex rx tb text col) regex_exprs offsets = Some ls) \<and> sum_list ls = length (unicode_cpts_from_utf8 text)"
  using assms
proof (induction regex_exprs arbitrary: offsets)
  case (Cons regex regexes)
  obtain ls where ls: "unicode_regex_split_custom tb text regex offsets = Some ls" "subdivides ls offsets"
    using custom_split_subdivides [of regex offsets "text" tb] Cons.prems by auto
  then have sum: "sum_list ls = sum_list offsets" by (rule_tac subdivides_sum)
  then have "ls \<noteq> []" using Cons.prems(4) by (metis less_numeral_extra(3) sum_list.Nil)
  moreover have "split_by_regex rx tb text col regex offsets = Some ls" for rx using ls(1) \<open>ls \<noteq> []\<close> by (simp add: split_by_regex_def)
  ultimately show ?case using Cons.IH [of ls] Cons.prems sum by simp
qed simp

lemma cpts_nonempty: "text \<noteq> [] \<Longrightarrow> unicode_cpts_from_utf8 text \<noteq> []"
proof -
  have "length r \<le> length (cpts_from_utf8_loop t i r)" for t i r
    by (induction t i r rule: cpts_from_utf8_loop.induct) (subst cpts_from_utf8_loop.simps, fastforce split: option.splits)
  note ge = this
  assume "text \<noteq> []"
  then obtain i c where "unicode_cpts_from_utf8 text = cpts_from_utf8_loop text i [c]"
    unfolding unicode_cpts_from_utf8_def cpts_from_utf8_loop.simps [of "text" 0 "[]"]
    by (cases "unicode_cpt_from_utf8 text 0") auto
  then show ?thesis using ge [of "[c]" "text" i] by force
qed

lemma regex_split_custom:
  assumes "set regex_exprs \<subseteq> custom_regexes" and "text \<noteq> []" and "\<forall>c\<in>set (unicode_cpts_from_utf8 text). is_cpt c"
  shows "\<exists>words. \<forall>rx. unicode_regex_split rx tb text regex_exprs = Some words"
proof -
  let ?c = "unicode_cpts_from_utf8 text" and ?col = "if list_ex has_ucat regex_exprs then map (collapse_cpt tb) (unicode_cpts_from_utf8 text) else []"
  obtain ls where ls: "\<And>rx. for_each (split_by_regex rx tb text ?col) regex_exprs [length ?c] = Some ls" "sum_list ls = length ?c"
    using split_custom_total [OF assms(1), of "[length ?c]" "text" tb ?col] cpts_nonempty [OF assms(2)] by auto
  have "\<forall>cps\<in>set (cut_at ls ?c). \<forall>c\<in>set cps. is_cpt c" using assms(3) set_cut_at by blast
  then show ?thesis
    using ls bpe_words_cut_at [OF assms(3), of 0 ls "[]"] encoding_process_spell
    unfolding unicode_regex_split_def Let_def by simp
qed

lemma regex_split_total:
  assumes "set regex_exprs \<subseteq> custom_regexes" and "text \<noteq> []" and "\<forall>c\<in>set (unicode_cpts_from_utf8 text). is_cpt c"
  shows "\<exists>words. unicode_regex_split rx tb text regex_exprs = Some words"
  using regex_split_custom [OF assms] by blast

lemma decode_words: "map llama_decode_text (map (spell \<circ> encode) ps) = map Some (map encode ps)"
  by (simp add: decode_spell)

lemma concat_encode: "concat (map encode ps) = encode (concat ps)"
  by (induction ps) (simp_all add: encode_def)

text \<open>
  C17: Pre-tokenization loses nothing.  For a text of valid UTF-8, \<open>unicode_regex_split\<close> with expressions that have a custom
  splitter returns words, whatever \<open>std::regex\<close> does; and with any list of expressions the words it returns, read back by
  \<open>llama_decode_text\<close> and joined, are the text.
\<close>

theorem words_spell_text:
  assumes "regex_law rx" and "unicode_cpts_to_utf8 cps = Some text" and "\<forall>c\<in>set cps. is_cpt c"
  shows "(set regex_exprs \<subseteq> custom_regexes \<and> text \<noteq> [] \<longrightarrow> (\<exists>words. unicode_regex_split rx tb text regex_exprs = Some words)) \<and>
    (\<forall>words. unicode_regex_split rx tb text regex_exprs = Some words \<longrightarrow>
      (\<exists>ds. map llama_decode_text words = map Some ds \<and> concat ds = text))"
proof -
  have t: "text = encode cps" using assms(2,3) cpts_to_utf8_encode by auto
  then have c: "unicode_cpts_from_utf8 text = cps" using cpts_from_encode [OF assms(3)] by simp
  have "\<exists>ds. map llama_decode_text words = map Some ds \<and> concat ds = text"
    if words: "unicode_regex_split rx tb text regex_exprs = Some words" for words
  proof -
    obtain ls where "sum_list ls = length cps" "words = map (spell \<circ> encode) (cut_at ls cps)"
      using regex_split_eq [OF assms(1) _ words] assms(3) c by auto
    then show ?thesis using decode_words concat_encode concat_cut_at t by metis
  qed
  then show ?thesis using regex_split_total [of regex_exprs "text" rx tb] assms(3) c by blast
qed

text \<open>An instance of \<open>std::regex\<close> for the witnesses: every window is one match.\<close>

definition whole_match :: std_regex where
  "whole_match wide regex = Some (\<lambda>t. Some [(0, length t)])"

definition ascii_tables :: unicode_tables where
  "ascii_tables =
     \<lparr>unicode_ranges_flags = [(0, 0x80), (0x20, 0x08), (0x21, 0x20), (0x30, 0x02), (0x3A, 0x20), (0x41, 0x04), (0x5B, 0x20), (0x61, 0x04), (0x7B, 0x20), (0x80, 0x01)],
      unicode_set_whitespace = [9, 10, 11, 12, 13, 32], unicode_map_lowercase = [(0x53, 0x73), (0x54, 0x74)],
      unicode_map_uppercase = [(0x73, 0x53), (0x74, 0x54)], unicode_ranges_nfd = [(0, 0, 0)]\<rparr>"

theorem words_spell_text_witness:
  "\<exists>words ds. unicode_regex_split whole_match ascii_tables ''It's 12345'' [llama3_regex] = Some words \<and>
     map llama_decode_text words = map Some ds \<and> concat ds = ''It's 12345''"
proof -
  have law: "regex_law whole_match" by (simp add: regex_law_def whole_match_def)
  let ?cps = "[73, 116, 39, 115, 32, 49, 50, 51, 52, 53]"
  have u: "unicode_cpts_to_utf8 ?cps = Some ''It's 12345''" by code_simp
  have ok: "\<forall>c\<in>set ?cps. is_cpt c" by simp
  have "set [llama3_regex] \<subseteq> custom_regexes" by (simp add: custom_regexes_def)
  then show ?thesis using words_spell_text [OF law u ok, of "[llama3_regex]" ascii_tables] by blast
qed

end
