(* ===== verification/Vocab.thy ===== *)
theory Vocab
  imports Unicode_Words
begin

text \<open>
  The vocabulary of \<open>src/src/llama-vocab.cpp\<close> and its lookups.  Scores are \<open>float\<close>s that the code only compares: values of
  a linear order.  \<open>None\<close> is a failed \<open>GGML_ASSERT\<close>, \<open>GGML_ABORT\<close> or \<open>std::out_of_range\<close>.
\<close>

datatype llama_vocab_type = VOCAB_NONE | VOCAB_SPM | VOCAB_BPE | VOCAB_WPM | VOCAB_UGM | VOCAB_RWKV | VOCAB_PLAMO2

record 's token_data =
  tok_text :: string
  tok_score :: 's
  tok_attr :: int

record 's vocab_impl =
  vocab_type :: llama_vocab_type
  token_to_id :: "string \<rightharpoonup> int"
  id_to_token :: "'s token_data list"
  bpe_ranks :: "string \<times> string \<rightharpoonup> int"
  add_space_prefix :: bool
  add_bos :: bool
  add_eos :: bool
  ignore_merges :: bool
  clean_spaces :: bool
  cache_token_to_piece :: "string list"
  special_bos_id :: int
  special_eos_id :: int
  special_unk_id :: int
  special_sep_id :: int
  cache_special_tokens :: "int list"

definition LLAMA_TOKEN_NULL :: int where
  "LLAMA_TOKEN_NULL = -1"

definition n_tokens :: "'s vocab_impl \<Rightarrow> nat" where
  "n_tokens v = length (id_to_token v)"

definition get_token_data :: "'s vocab_impl \<Rightarrow> int \<Rightarrow> 's token_data option" where
  "get_token_data v token = do {
     ggml_assert (vocab_type v \<noteq> VOCAB_NONE);
     if 0 \<le> token then at (id_to_token v) (nat token) else None }"

definition text_to_token :: "'s vocab_impl \<Rightarrow> string \<Rightarrow> int option" where
  "text_to_token v text = do {
     ggml_assert (vocab_type v \<noteq> VOCAB_NONE);
     Some (case token_to_id v text of Some i \<Rightarrow> i | None \<Rightarrow> LLAMA_TOKEN_NULL) }"

definition hex_upper :: "int \<Rightarrow> char" where
  "hex_upper n = ''0123456789ABCDEF'' ! nat n"

definition byte_to_token :: "'s vocab_impl \<Rightarrow> int \<Rightarrow> int option" where
  "byte_to_token v ch =
     (case vocab_type v of
        VOCAB_NONE \<Rightarrow> None
      | VOCAB_SPM \<Rightarrow>
          (case token_to_id v (''<0x'' @ [hex_upper (ch div 16), hex_upper (ch mod 16)] @ ''>'') of
             Some i \<Rightarrow> Some i
           | None \<Rightarrow> token_to_id v (if ch = 0 then [] else [chr_of ch]))
      | VOCAB_UGM \<Rightarrow>
          (case token_to_id v (''<0x'' @ [hex_upper (ch div 16), hex_upper (ch mod 16)] @ ''>'') of
             Some i \<Rightarrow> Some i
           | None \<Rightarrow> token_to_id v (if ch = 0 then [] else [chr_of ch]))
      | VOCAB_WPM \<Rightarrow> Option.bind (unicode_byte_to_utf8 ch) (token_to_id v)
      | VOCAB_BPE \<Rightarrow> Option.bind (unicode_byte_to_utf8 ch) (token_to_id v)
      | VOCAB_PLAMO2 \<Rightarrow> token_to_id v (''<0x'' @ [hex_upper (ch div 16), hex_upper (ch mod 16)] @ ''>'')
      | VOCAB_RWKV \<Rightarrow> None)"

definition find_bpe_rank :: "'s vocab_impl \<Rightarrow> string \<Rightarrow> string \<Rightarrow> int option" where
  "find_bpe_rank v token_left token_right = do {
     ggml_assert (CHR '' '' \<notin> set token_left);
     ggml_assert (CHR 0x0A \<notin> set token_left);
     ggml_assert (CHR '' '' \<notin> set token_right);
     ggml_assert (CHR 0x0A \<notin> set token_right);
     Some (case bpe_ranks v (token_left, token_right) of Some rank \<Rightarrow> rank | None \<Rightarrow> -1) }"

lemma text_to_token_eq [simp]:
  "vocab_type v \<noteq> VOCAB_NONE \<Longrightarrow> text_to_token v t = Some (case token_to_id v t of Some i \<Rightarrow> i | None \<Rightarrow> LLAMA_TOKEN_NULL)"
  by (simp add: text_to_token_def)

text \<open>The token of a string, if it has one.\<close>

definition known_token :: "'s vocab_impl \<Rightarrow> string \<Rightarrow> int option" where
  "known_token v s = (case token_to_id v s of Some i \<Rightarrow> if i = LLAMA_TOKEN_NULL then None else Some i | None \<Rightarrow> None)"

lemma text_to_token_known:
  "vocab_type v \<noteq> VOCAB_NONE \<Longrightarrow> text_to_token v s = Some (case known_token v s of Some i \<Rightarrow> i | None \<Rightarrow> LLAMA_TOKEN_NULL)"
  by (simp add: known_token_def split: option.splits)

lemma known_token_not_null: "known_token v s = Some i \<Longrightarrow> i \<noteq> LLAMA_TOKEN_NULL"
  by (auto simp: known_token_def split: option.splits if_splits)

end
