(* ===== verification/Vocab_Merge.thy ===== *)
theory Vocab_Merge
  imports Unicode "HOL-Library.Multiset"
begin

text \<open>
  The merge loop that the SPM and BPE tokenizers of \<open>src/src/llama-vocab.cpp\<close> share: the characters of a text form a doubly
  linked list inside a vector, a priority queue holds candidate pairs of neighbours, and the best pair is merged until the
  queue is empty.  Pairs that an earlier merge has changed stay in the queue and are skipped when they are popped.

  \<open>Vocab_Greedy\<close> shows that this lazy scheme is the textbook algorithm: it merges, again and again, the pair of neighbours
  with the best priority, the leftmost one among equals, until no pair can be merged.

  A \<open>const char *\<close> into the text is the suffix of the text that starts there.  \<open>std::priority_queue\<close> is the argument \<open>pop\<close>;
  which of several maximal elements it returns is not specified, and no result depends on it.  \<open>None\<close> is an access outside
  the vector, a failed assertion or a loop that does not end.
\<close>

section \<open>Symbols\<close>

record llm_symbol =
  sym_prev :: int
  sym_next :: int
  sym_text :: string
  sym_n :: nat

definition sym_str :: "llm_symbol \<Rightarrow> string" where
  "sym_str s = take (sym_n s) (sym_text s)"

definition sym_at :: "llm_symbol list \<Rightarrow> int \<Rightarrow> llm_symbol option" where
  "sym_at symbols i = (if 0 \<le> i then at symbols (nat i) else None)"

lemma unicode_len_utf8_pos: "0 < unicode_len_utf8 c"
proof -
  have "nat (ub c div 16) < 16" using ub_range [of c] by linarith
  then have "utf8_lookup ! nat (ub c div 16) \<in> set utf8_lookup" by (intro nth_mem) (simp add: utf8_lookup_def)
  then show ?thesis by (auto simp: unicode_len_utf8_def utf8_lookup_def)
qed

text \<open>The loop that splits a word into UTF-8 characters.\<close>

function split_symbols :: "string \<Rightarrow> nat \<Rightarrow> int \<Rightarrow> llm_symbol list \<Rightarrow> llm_symbol list" where
  "split_symbols word offset index symbols =
     (if offset < length word then
        let n = min (length word - offset) (unicode_len_utf8 (word ! offset)) in
        split_symbols word (offset + n) (index + 1)
          (symbols @ [\<lparr>sym_prev = index - 1, sym_next = (if offset + n = length word then -1 else index + 1), sym_text = drop offset word, sym_n = n\<rparr>])
      else symbols)"
  by pat_completeness auto
termination
  by (relation "measure (\<lambda>(word, offset, index, symbols). length word - offset)") (auto intro!: diff_less_mono2 simp: unicode_len_utf8_pos)

declare split_symbols.simps [simp del]

text \<open>The right symbol is merged into the left one and leaves the chain.\<close>

definition merge_symbols :: "llm_symbol list \<Rightarrow> int \<Rightarrow> int \<Rightarrow> llm_symbol list option" where
  "merge_symbols symbols left right = do {
     l \<leftarrow> sym_at symbols left;
     r \<leftarrow> sym_at symbols right;
     let symbols = symbols[nat left := l\<lparr>sym_n := sym_n l + sym_n r\<rparr>];
     r \<leftarrow> sym_at symbols right;
     let symbols = symbols[nat right := r\<lparr>sym_n := 0\<rparr>];
     l \<leftarrow> sym_at symbols left;
     r \<leftarrow> sym_at symbols right;
     let symbols = symbols[nat left := l\<lparr>sym_next := sym_next r\<rparr>];
     if sym_next r \<ge> 0 then do {
       s \<leftarrow> sym_at symbols (sym_next r);
       Some (symbols[nat (sym_next r) := s\<lparr>sym_prev := left\<rparr>]) }
     else Some symbols }"

section \<open>The loop\<close>

record 'b merge_session =
  symbols :: "llm_symbol list"
  work_queue :: "'b list"

text \<open>The candidates of the first chain: all pairs of neighbours.\<close>

definition seed_queue ::
  "(('b, 'z) merge_session_scheme \<Rightarrow> int \<Rightarrow> int \<Rightarrow> ('b, 'z) merge_session_scheme option) \<Rightarrow> ('b, 'z) merge_session_scheme \<Rightarrow> ('b, 'z) merge_session_scheme option" where
  "seed_queue add_bigram st = for_each (\<lambda>i st. add_bigram st (int i - 1) (int i)) [1..<length (symbols st)] st"

text \<open>One round of the loop: a candidate whose symbols have changed is skipped.\<close>

definition merge_step ::
  "(('b, 'z) merge_session_scheme \<Rightarrow> int \<Rightarrow> int \<Rightarrow> ('b, 'z) merge_session_scheme option) \<Rightarrow> ('b \<Rightarrow> llm_symbol \<Rightarrow> llm_symbol \<Rightarrow> bool) \<Rightarrow>
   int \<Rightarrow> int \<Rightarrow> 'b \<Rightarrow> ('b, 'z) merge_session_scheme \<Rightarrow> ('b, 'z) merge_session_scheme option" where
  "merge_step add_bigram stale left right bigram st = do {
     l \<leftarrow> sym_at (symbols st) left;
     r \<leftarrow> sym_at (symbols st) right;
     if sym_n l = 0 \<or> sym_n r = 0 \<or> stale bigram l r then Some st
     else do {
       syms \<leftarrow> merge_symbols (symbols st) left right;
       let st = st\<lparr>symbols := syms\<rparr>;
       l \<leftarrow> sym_at (symbols st) left;
       st \<leftarrow> add_bigram st (sym_prev l) left;
       l \<leftarrow> sym_at (symbols st) left;
       add_bigram st left (sym_next l) } }"

partial_function (option) merge_loop ::
  "(('b, 'z) merge_session_scheme \<Rightarrow> int \<Rightarrow> int \<Rightarrow> ('b, 'z) merge_session_scheme option) \<Rightarrow> ('b \<Rightarrow> llm_symbol \<Rightarrow> llm_symbol \<Rightarrow> bool) \<Rightarrow>
   ('b \<Rightarrow> int) \<Rightarrow> ('b \<Rightarrow> int) \<Rightarrow> ('b list \<Rightarrow> ('b \<times> 'b list) option) \<Rightarrow> ('b, 'z) merge_session_scheme \<Rightarrow> ('b, 'z) merge_session_scheme option" where
  "merge_loop add_bigram stale left right pop st =
     (case pop (work_queue st) of
        None \<Rightarrow> Some st
      | Some (bigram, q) \<Rightarrow>
          Option.bind (merge_step add_bigram stale (left bigram) (right bigram) bigram (st\<lparr>work_queue := q\<rparr>)) (merge_loop add_bigram stale left right pop))"

declare merge_loop.simps [code]

text \<open>
  The contract of \<open>std::priority_queue\<close>: \<open>lower\<close> is its comparator, and an element is taken than which none is higher.
\<close>

definition pq_law :: "('b \<Rightarrow> 'b \<Rightarrow> bool) \<Rightarrow> ('b list \<Rightarrow> ('b \<times> 'b list) option) \<Rightarrow> bool" where
  "pq_law lower pop \<longleftrightarrow> pop [] = None \<and>
     (\<forall>q. q \<noteq> [] \<longrightarrow> (\<exists>b q'. pop q = Some (b, q') \<and> mset q = add_mset b (mset q') \<and> (\<forall>c\<in>set q. \<not> lower b c)))"

text \<open>One implementation, for the witnesses: the first element that no element exceeds.\<close>

fun pq_top :: "('b \<Rightarrow> 'b \<Rightarrow> bool) \<Rightarrow> 'b \<Rightarrow> 'b list \<Rightarrow> 'b" where
  "pq_top lower x [] = x"
| "pq_top lower x (y # ys) = pq_top lower (if lower x y then y else x) ys"

definition pq_pop :: "('b \<Rightarrow> 'b \<Rightarrow> bool) \<Rightarrow> 'b list \<Rightarrow> ('b \<times> 'b list) option" where
  "pq_pop lower q = (case q of [] \<Rightarrow> None | x # xs \<Rightarrow> let t = pq_top lower x xs in Some (t, remove1 t q))"

lemma pq_top_max:
  assumes "\<And>x y. lower x y \<Longrightarrow> \<not> lower y x" and "\<And>x y z. \<not> lower x y \<Longrightarrow> \<not> lower y z \<Longrightarrow> \<not> lower x z"
  shows "pq_top lower x ys \<in> insert x (set ys) \<and> (\<forall>c\<in>insert x (set ys). \<not> lower (pq_top lower x ys) c)"
proof (induction ys arbitrary: x)
  case (Cons y ys)
  have irr: "\<not> lower a a" for a using assms(1) by blast
  let ?z = "if lower x y then y else x"
  have "pq_top lower x (y # ys) = pq_top lower ?z ys" by simp
  moreover have "\<not> lower ?z x \<and> \<not> lower ?z y" using irr assms(1) [of x y] by simp
  moreover have "pq_top lower ?z ys \<in> insert x (set (y # ys))" using Cons.IH [of ?z] by auto
  moreover have "\<not> lower (pq_top lower ?z ys) c" if "c \<in> insert x (set (y # ys))" for c
  proof (cases "c \<in> set ys")
    case False
    then have "\<not> lower ?z c" using that calculation(2) by auto
    then show ?thesis using Cons.IH [of ?z] assms(2) by blast
  qed (use Cons.IH [of ?z] in blast)
  ultimately show ?case by simp
qed (use assms(1) in auto)

lemma pq_pop_law:
  assumes "\<And>x y. lower x y \<Longrightarrow> \<not> lower y x" and "\<And>x y z. \<not> lower x y \<Longrightarrow> \<not> lower y z \<Longrightarrow> \<not> lower x z"
  shows "pq_law lower (pq_pop lower)"
  unfolding pq_law_def
proof (intro conjI allI impI)
  fix q :: "'a list" assume "q \<noteq> []"
  then obtain x xs where q: "q = x # xs" by (cases q) auto
  let ?t = "pq_top lower x xs"
  have "?t \<in> set q" "\<forall>c\<in>set q. \<not> lower ?t c" using pq_top_max [where lower = lower and x = x and ys = xs, OF assms] q by auto
  then show "\<exists>b q'. pq_pop lower q = Some (b, q') \<and> mset q = add_mset b (mset q') \<and> (\<forall>c\<in>set q. \<not> lower b c)"
    using q by (intro exI [of _ ?t] exI [of _ "remove1 ?t q"]) (auto simp: pq_pop_def Let_def)
qed (simp add: pq_pop_def)

section \<open>The textbook algorithm\<close>

text \<open>The priority of a pair of neighbours, if it can be merged; \<open>better\<close> compares priorities.\<close>

definition mergeable :: "(string \<Rightarrow> string \<Rightarrow> 'p option) \<Rightarrow> string list \<Rightarrow> nat \<Rightarrow> bool" where
  "mergeable prio ps k \<longleftrightarrow> Suc k < length ps \<and> prio (ps ! k) (ps ! Suc k) \<noteq> None"

definition best_pair :: "('p \<Rightarrow> 'p \<Rightarrow> bool) \<Rightarrow> (string \<Rightarrow> string \<Rightarrow> 'p option) \<Rightarrow> string list \<Rightarrow> nat option" where
  "best_pair better prio ps =
     List.find (\<lambda>k. mergeable prio ps k \<and>
       list_all (\<lambda>j. mergeable prio ps j \<longrightarrow> \<not> better (the (prio (ps ! j) (ps ! Suc j))) (the (prio (ps ! k) (ps ! Suc k)))) [0..<length ps])
     [0..<length ps]"

definition merge_at :: "nat \<Rightarrow> string list \<Rightarrow> string list" where
  "merge_at k ps = take k ps @ (ps ! k @ ps ! Suc k) # drop (Suc (Suc k)) ps"

lemma best_pair_mergeable: "best_pair better prio ps = Some k \<Longrightarrow> mergeable prio ps k"
  by (auto simp: best_pair_def find_Some_iff)

function greedy_merge :: "('p \<Rightarrow> 'p \<Rightarrow> bool) \<Rightarrow> (string \<Rightarrow> string \<Rightarrow> 'p option) \<Rightarrow> string list \<Rightarrow> string list" where
  "greedy_merge better prio ps =
     (case best_pair better prio ps of None \<Rightarrow> ps | Some k \<Rightarrow> greedy_merge better prio (merge_at k ps))"
  by pat_completeness auto
termination
  by (relation "measure (\<lambda>(better, prio, ps). length ps)") (auto dest!: best_pair_mergeable simp: mergeable_def merge_at_def)

declare greedy_merge.simps [simp del]

lemma concat_merge_at: "Suc k < length ps \<Longrightarrow> concat (merge_at k ps) = concat ps"
  unfolding merge_at_def by (metis Cons_nth_drop_Suc Suc_lessD append_assoc append_take_drop_id concat.simps(2) concat_append)

lemma concat_greedy_merge: "concat (greedy_merge better prio ps) = concat ps"
proof (induction better prio ps rule: greedy_merge.induct)
  case (1 better prio ps)
  then show ?case
    by (subst greedy_merge.simps) (auto split: option.split dest!: best_pair_mergeable simp: mergeable_def concat_merge_at)
qed

text \<open>Every piece that the algorithm leaves is an initial piece or the result of a merge.\<close>

lemma greedy_merge_pieces:
  assumes "\<forall>p\<in>set ps. P p" and "\<And>x y. P x \<Longrightarrow> P y \<Longrightarrow> prio x y \<noteq> None \<Longrightarrow> P (x @ y)"
  shows "\<forall>p\<in>set (greedy_merge better prio ps). P p"
  using assms
proof (induction better prio ps rule: greedy_merge.induct)
  case (1 better prio ps)
  show ?case
  proof (cases "best_pair better prio ps")
    case (Some k)
    then have "Suc k < length ps" "prio (ps ! k) (ps ! Suc k) \<noteq> None" using best_pair_mergeable [OF Some] by (auto simp: mergeable_def)
    then have "\<forall>p\<in>set (merge_at k ps). P p" using 1(2,3) unfolding merge_at_def by (auto dest: in_set_takeD in_set_dropD)
    then show ?thesis using 1(1) [OF Some] 1(3) Some by (subst greedy_merge.simps) simp
  next
    case None
    then show ?thesis using 1(2) by (subst greedy_merge.simps) simp
  qed
qed

end
