(* ===== verification/Vocab_Chain.thy ===== *)
theory Vocab_Chain
  imports Vocab_Merge Unicode_Sync
begin

text \<open>
  The chain of symbols and the refinement of the textbook algorithm by the merge loop.
\<close>

section \<open>The chain\<close>

text \<open>
  The live symbols, in the order of the text: each is linked to its neighbours, and the text of the next one starts where
  its own ends.
\<close>

definition link :: "nat list \<Rightarrow> int" where
  "link is = (case is of [] \<Rightarrow> -1 | i # _ \<Rightarrow> int i)"

definition rest_text :: "llm_symbol list \<Rightarrow> nat list \<Rightarrow> string" where
  "rest_text syms is = (case is of [] \<Rightarrow> [] | i # _ \<Rightarrow> sym_text (syms ! i))"

fun chained :: "llm_symbol list \<Rightarrow> int \<Rightarrow> nat list \<Rightarrow> bool" where
  "chained syms p [] \<longleftrightarrow> True"
| "chained syms p (i # is) \<longleftrightarrow>
     i < length syms \<and> 0 < sym_n (syms ! i) \<and> sym_n (syms ! i) \<le> length (sym_text (syms ! i)) \<and> sym_prev (syms ! i) = p \<and>
     sym_next (syms ! i) = link is \<and> sym_text (syms ! i) = sym_str (syms ! i) @ rest_text syms is \<and> chained syms (int i) is"

definition chain :: "llm_symbol list \<Rightarrow> nat list \<Rightarrow> bool" where
  "chain syms L \<longleftrightarrow> chained syms (-1) L \<and> sorted_wrt (<) L \<and> (\<forall>i<length syms. 0 < sym_n (syms ! i) \<longleftrightarrow> i \<in> set L) \<and>
     (L \<noteq> [] \<longrightarrow> hd L = 0)"

definition pieces :: "llm_symbol list \<Rightarrow> nat list \<Rightarrow> string list" where
  "pieces syms L = map (\<lambda>i. sym_str (syms ! i)) L"

lemma link_simps [simp]: "link [] = -1" "link (i # is) = int i"
  by (simp_all add: link_def)

lemma rest_text_simps [simp]: "rest_text syms [] = []" "rest_text syms (i # is) = sym_text (syms ! i)"
  by (simp_all add: rest_text_def)

lemma sym_at_int [simp]: "i < length syms \<Longrightarrow> sym_at syms (int i) = Some (syms ! i)"
  by (simp add: sym_at_def)

lemma chained_length: "chained syms p L \<Longrightarrow> i \<in> set L \<Longrightarrow> i < length syms"
  by (induction L arbitrary: p) auto

lemma chained_n: "chained syms p (i # is) \<Longrightarrow> sym_n (syms ! i) \<le> length (sym_text (syms ! i))"
  unfolding chained.simps(2) by (elim conjE)

declare chained.simps(2) [simp del]

lemma chainedD:
  assumes "chained syms p (i # is)"
  shows "i < length syms" "0 < sym_n (syms ! i)" "length (sym_str (syms ! i)) = sym_n (syms ! i)" "sym_prev (syms ! i) = p"
    "sym_next (syms ! i) = link is" "sym_text (syms ! i) = sym_str (syms ! i) @ rest_text syms is" "chained syms (int i) is"
    "\<forall>k\<in>set is. k < length syms"
proof -
  show "length (sym_str (syms ! i)) = sym_n (syms ! i)" unfolding sym_str_def length_take by (rule min_absorb2 [OF chained_n [OF assms]])
  show t: "chained syms (int i) is" using assms unfolding chained.simps(2) by (elim conjE)
  show "\<forall>k\<in>set is. k < length syms" using chained_length [OF t] by blast
  show "i < length syms" "0 < sym_n (syms ! i)" "sym_prev (syms ! i) = p" "sym_next (syms ! i) = link is"
    "sym_text (syms ! i) = sym_str (syms ! i) @ rest_text syms is"
    using assms unfolding chained.simps(2) by blast+
qed

lemma chained_suffix: "chained syms q (us @ is) \<Longrightarrow> \<exists>p. chained syms p is"
  by (induction us arbitrary: q) (auto dest: chainedD(7))

lemma chained_ConsI:
  assumes "i < length syms" "0 < sym_n (syms ! i)" "sym_n (syms ! i) \<le> length (sym_text (syms ! i))" "sym_prev (syms ! i) = p"
    "sym_next (syms ! i) = link is" "sym_text (syms ! i) = sym_str (syms ! i) @ rest_text syms is" "chained syms (int i) is"
  shows "chained syms p (i # is)"
  unfolding chained.simps(2) by (intro conjI assms)

lemma sorted_distinct: "sorted_wrt (<) L \<Longrightarrow> distinct L" for L :: "nat list"
  by (simp only: strict_sorted_iff)

lemma chained_frame:
  assumes "length syms' = length syms" and "\<forall>i\<in>set L. syms' ! i = syms ! i"
  shows "chained syms' p L = chained syms p L"
  using assms(2)
proof (induction L arbitrary: p)
  case (Cons i L)
  have "rest_text syms' L = rest_text syms L" using Cons.prems by (cases L) simp_all
  then show ?case using Cons assms(1) by (simp add: chained.simps(2))
qed simp

lemma pieces_frame: "\<forall>i\<in>set L. syms' ! i = syms ! i \<Longrightarrow> pieces syms' L = pieces syms L"
  by (simp add: pieces_def)

lemma concat_pieces_chain: "chained syms p L \<Longrightarrow> concat (pieces syms L) = rest_text syms L"
proof (induction L arbitrary: p)
  case (Cons i L)
  then show ?case using chainedD(6,7) [OF Cons.prems] by (simp add: pieces_def)
qed (simp add: pieces_def)

text \<open>The symbols after a merge.\<close>

definition merged :: "llm_symbol list \<Rightarrow> nat \<Rightarrow> nat \<Rightarrow> nat list \<Rightarrow> llm_symbol list" where
  "merged syms i j vs =
     (let s = syms[i := (syms ! i)\<lparr>sym_n := sym_n (syms ! i) + sym_n (syms ! j), sym_next := link vs\<rparr>, j := (syms ! j)\<lparr>sym_n := 0\<rparr>] in
      case vs of [] \<Rightarrow> s | v # _ \<Rightarrow> s[v := (syms ! v)\<lparr>sym_prev := int i\<rparr>])"

lemma merged_nth:
  assumes "distinct (i # j # vs)" and "i < length syms" and "j < length syms" and "\<forall>v\<in>set vs. v < length syms"
  shows "merged syms i j vs ! m =
    (if m = i then (syms ! i)\<lparr>sym_n := sym_n (syms ! i) + sym_n (syms ! j), sym_next := link vs\<rparr>
     else if m = j then (syms ! j)\<lparr>sym_n := 0\<rparr>
     else if vs \<noteq> [] \<and> m = hd vs then (syms ! m)\<lparr>sym_prev := int i\<rparr> else syms ! m)"
  using assms by (cases vs) (auto simp: merged_def Let_def nth_list_update)

lemma length_merged [simp]: "length (merged syms i j vs) = length syms"
  by (cases vs) (simp_all add: merged_def Let_def)

lemma merge_symbols_merged:
  assumes "distinct (i # j # vs)" and "i < length syms" and "j < length syms" and "\<forall>v\<in>set vs. v < length syms" and "sym_next (syms ! j) = link vs"
  shows "merge_symbols syms (int i) (int j) = Some (merged syms i j vs)"
proof -
  have ij: "i \<noteq> j" using assms(1) by simp
  let ?s1 = "syms[i := (syms ! i)\<lparr>sym_n := sym_n (syms ! i) + sym_n (syms ! j)\<rparr>, j := (syms ! j)\<lparr>sym_n := 0\<rparr>]"
  have s2: "?s1[i := (?s1 ! i)\<lparr>sym_next := link vs\<rparr>] =
    syms[i := (syms ! i)\<lparr>sym_n := sym_n (syms ! i) + sym_n (syms ! j), sym_next := link vs\<rparr>, j := (syms ! j)\<lparr>sym_n := 0\<rparr>]"
    using ij assms(2,3) by (auto intro!: nth_equalityI simp: nth_list_update)
  show ?thesis
  proof (cases vs)
    case Nil
    then show ?thesis using ij assms s2 unfolding merge_symbols_def merged_def Let_def by (simp add: nth_list_update)
  next
    case (Cons v vs')
    then have "v \<noteq> i" "v \<noteq> j" "v < length syms" using assms by auto
    then show ?thesis using Cons ij assms s2 unfolding merge_symbols_def merged_def Let_def by (simp add: nth_list_update)
  qed
qed

lemma merged_str:
  assumes "chained syms p (i # j # vs)" and "distinct (i # j # vs)"
  shows "sym_str (merged syms i j vs ! i) = sym_str (syms ! i) @ sym_str (syms ! j)"
proof -
  note ci = chainedD [OF assms(1)]
  note cj = chainedD [OF ci(7)]
  have "merged syms i j vs ! i = (syms ! i)\<lparr>sym_n := sym_n (syms ! i) + sym_n (syms ! j), sym_next := link vs\<rparr>"
    using merged_nth [OF assms(2) ci(1) cj(1,8), of i] by simp
  then have "sym_str (merged syms i j vs ! i) = take (sym_n (syms ! i) + sym_n (syms ! j)) (sym_str (syms ! i) @ sym_text (syms ! j))"
    using ci(6) by (simp add: sym_str_def)
  then show ?thesis using ci(3) by (simp add: sym_str_def [of "syms ! j"])
qed

lemma merged_chained_tail:
  assumes "chained syms p (i # j # vs)" and "distinct (i # j # vs)"
  shows "chained (merged syms i j vs) p (i # vs)"
proof (rule chained_ConsI)
  let ?m = "merged syms i j vs"
  note ci = chainedD [OF assms(1)]
  note cj = chainedD [OF ci(7)]
  note nth = merged_nth [OF assms(2) ci(1) cj(1,8)]
  have mi: "?m ! i = (syms ! i)\<lparr>sym_n := sym_n (syms ! i) + sym_n (syms ! j), sym_next := link vs\<rparr>" using nth [of i] by simp
  have rt: "rest_text ?m vs = rest_text syms vs" using assms(2) nth [of "hd vs"] by (cases vs) auto
  have tj: "length (sym_text (syms ! j)) = sym_n (syms ! j) + length (rest_text syms vs)" using arg_cong [OF cj(6), of length] cj(3) by simp
  have ti: "length (sym_text (syms ! i)) = sym_n (syms ! i) + length (sym_text (syms ! j))" using arg_cong [OF ci(6), of length] ci(3) by simp
  show "i < length ?m" "0 < sym_n (?m ! i)" "sym_prev (?m ! i) = p" "sym_next (?m ! i) = link vs" using ci mi by simp_all
  show "sym_n (?m ! i) \<le> length (sym_text (?m ! i))" using mi ti tj by simp
  show "sym_text (?m ! i) = sym_str (?m ! i) @ rest_text ?m vs"
    unfolding merged_str [OF assms] rt using mi ci(6) cj(6) by simp
  show "chained ?m (int i) vs"
  proof (cases vs)
    case (Cons v vs')
    have cv: "chained syms (int j) (v # vs')" using cj(7) Cons by simp
    have mv: "?m ! v = (syms ! v)\<lparr>sym_prev := int i\<rparr>" using assms(2) Cons nth [of v] by auto
    have same: "?m ! k = syms ! k" if "k \<in> set vs'" for k using that assms(2) Cons nth [of k] by auto
    then have "chained ?m (int v) vs' = chained syms (int v) vs'" by (intro chained_frame) auto
    moreover have "rest_text ?m vs' = rest_text syms vs'" using same by (cases vs') auto
    moreover have "sym_str (?m ! v) = sym_str (syms ! v)" using mv by (simp add: sym_str_def)
    ultimately show ?thesis using chainedD [OF cv] chained_n [OF cv] mv unfolding Cons by (intro chained_ConsI) simp_all
  qed simp
qed

lemma merged_chained:
  assumes "chained syms p (us @ i # j # vs)" and "distinct (us @ i # j # vs)"
  shows "chained (merged syms i j vs) p (us @ i # vs)"
  using assms
proof (induction us arbitrary: p)
  case Nil
  then show ?case using merged_chained_tail [of syms p i j vs] by simp
next
  case (Cons u us)
  have v: "i < length syms" "j < length syms" "\<forall>v\<in>set vs. v < length syms"
    using Cons.prems(1) chained_length [of syms p "(u # us) @ i # j # vs"] by auto
  have d: "distinct (i # j # vs)" "u \<noteq> i" "u \<noteq> j" "u \<notin> set vs" using Cons.prems(2) by auto
  let ?m = "merged syms i j vs"
  have "?m ! u = syms ! u" using merged_nth [OF d(1) v] d(2-4) by (cases vs) auto
  moreover have "rest_text ?m (us @ i # vs) = rest_text syms (us @ i # j # vs)"
  proof (cases us)
    case Nil
    then show ?thesis using merged_nth [OF d(1) v, of i] by simp
  next
    case (Cons a us')
    then have "a \<noteq> i" "a \<noteq> j" "a \<notin> set vs" using Cons.prems(2) by auto
    then show ?thesis using Cons merged_nth [OF d(1) v, of a] by (cases vs) auto
  qed
  moreover have "link (us @ i # vs) = link (us @ i # j # vs)" by (cases us) simp_all
  moreover have "chained ?m (int u) (us @ i # vs)" using Cons.IH [of "int u"] Cons.prems chainedD(7) [of syms p u "us @ i # j # vs"] by simp
  moreover have c: "chained syms p (u # us @ i # j # vs)" using Cons.prems(1) by simp
  ultimately show ?case using chainedD [OF c] chained_n [OF c] unfolding append_Cons by (intro chained_ConsI) simp_all
qed

lemma merged_chain:
  assumes "chain syms (us @ i # j # vs)"
  shows "chain (merged syms i j vs) (us @ i # vs)"
proof -
  let ?L = "us @ i # j # vs"
  have c: "chained syms (-1) ?L" and s: "sorted_wrt (<) ?L" and l: "\<forall>k<length syms. 0 < sym_n (syms ! k) \<longleftrightarrow> k \<in> set ?L"
    using assms by (auto simp: chain_def)
  have d: "distinct ?L" using sorted_distinct [OF s] .
  have v: "i < length syms" "j < length syms" "\<forall>v\<in>set vs. v < length syms" using chained_length [OF c] by auto
  have "distinct (i # j # vs)" using d by simp
  note nth = merged_nth [OF this v]
  have "0 < sym_n (merged syms i j vs ! k) \<longleftrightarrow> k \<in> set (us @ i # vs)" if "k < length syms" for k
  proof -
    have "0 < sym_n (syms ! i)" using l v(1) by simp
    then show ?thesis using l that d unfolding nth by auto
  qed
  moreover have "sorted_wrt (<) (us @ i # vs)" using s by (auto simp: sorted_wrt_append)
  moreover have "hd (us @ i # vs) = 0" using assms by (cases us) (auto simp: chain_def)
  ultimately show ?thesis using merged_chained [OF c d] by (simp add: chain_def)
qed

lemma merged_pieces:
  assumes "chain syms (us @ i # j # vs)"
  shows "pieces (merged syms i j vs) (us @ i # vs) = merge_at (length us) (pieces syms (us @ i # j # vs))"
proof -
  have c: "chained syms (-1) (us @ i # j # vs)" and s: "sorted_wrt (<) (us @ i # j # vs)" using assms by (auto simp: chain_def)
  have d: "distinct (us @ i # j # vs)" using sorted_distinct [OF s] .
  have v: "i < length syms" "j < length syms" "\<forall>v\<in>set vs. v < length syms" using chained_length [OF c] by auto
  have d': "distinct (i # j # vs)" using d by simp
  have "sym_str (merged syms i j vs ! k) = sym_str (syms ! k)" if "k \<in> set us \<union> set vs" for k
    using that d merged_nth [OF d' v, of k] by (auto simp: sym_str_def)
  moreover have "sym_str (merged syms i j vs ! i) = sym_str (syms ! i) @ sym_str (syms ! j)"
    using merged_str d' chained_suffix [OF c] by blast
  ultimately show ?thesis by (simp add: pieces_def merge_at_def nth_append)
qed


lemma chain_distinct: "chain syms L \<Longrightarrow> distinct L"
  using sorted_distinct by (simp add: chain_def)

lemma chain_first: "chain syms L \<Longrightarrow> L \<noteq> [] \<Longrightarrow> link L = 0"
  by (cases L) (auto simp: chain_def)

lemma chain_chained: "chain syms L \<Longrightarrow> chained syms (-1) L"
  by (simp add: chain_def)

section \<open>The first chain\<close>

text \<open>The characters of a text, and the symbols that the first loop makes of them.\<close>

function utf8_chars :: "string \<Rightarrow> string list" where
  "utf8_chars w =
     (if w = [] then [] else let n = min (length w) (unicode_len_utf8 (hd w)) in take n w # utf8_chars (drop n w))"
  by pat_completeness auto
termination
  by (relation "measure length") (auto simp: unicode_len_utf8_pos)

declare utf8_chars.simps [simp del]

function suffix_symbols :: "string \<Rightarrow> int \<Rightarrow> llm_symbol list" where
  "suffix_symbols w index =
     (if w = [] then []
      else
        let n = min (length w) (unicode_len_utf8 (hd w)) in
        \<lparr>sym_prev = index - 1, sym_next = (if n = length w then -1 else index + 1), sym_text = w, sym_n = n\<rparr> # suffix_symbols (drop n w) (index + 1))"
  by pat_completeness auto
termination
  by (relation "measure (length \<circ> fst)") (auto simp: unicode_len_utf8_pos)

declare suffix_symbols.simps [simp del]

lemma split_symbols_eq: "split_symbols word offset index syms = syms @ suffix_symbols (drop offset word) index"
proof (induction word offset index syms rule: split_symbols.induct)
  case (1 word offset index syms)
  show ?case
  proof (cases "offset < length word")
    case True
    let ?n = "min (length word - offset) (unicode_len_utf8 (word ! offset))"
    have "hd (drop offset word) = word ! offset" using True by (simp add: hd_drop_conv_nth)
    moreover have "(?n = length word - offset) = (offset + ?n = length word)" using True by linarith
    moreover have "drop ?n (drop offset word) = drop (offset + ?n) word" by (simp add: add.commute)
    ultimately show ?thesis using 1 [OF True refl] True
      by (subst split_symbols.simps, subst suffix_symbols.simps) (simp add: Let_def)
  next
    case False
    then show ?thesis by (subst split_symbols.simps, subst suffix_symbols.simps) simp
  qed
qed

lemma suffix_symbols_empty: "suffix_symbols w k = [] \<longleftrightarrow> w = []"
  by (subst suffix_symbols.simps) (simp add: Let_def)

lemma suffix_symbols_text: "w \<noteq> [] \<Longrightarrow> sym_text (hd (suffix_symbols w k)) = w"
  by (subst suffix_symbols.simps) (simp add: Let_def)

lemma suffix_symbols_chained:
  assumes "drop k syms = suffix_symbols w (int k)" and "k \<le> length syms"
  shows "chained syms (int k - 1) [k..<length syms] \<and> pieces syms [k..<length syms] = utf8_chars w"
  using assms
proof (induction w arbitrary: k rule: utf8_chars.induct)
  case (1 w)
  show ?case
  proof (cases "w = []")
    case True
    then have "k = length syms" using 1(2,3) by (simp add: suffix_symbols.simps)
    then show ?thesis using True by (simp add: pieces_def utf8_chars.simps)
  next
    case False
    let ?n = "min (length w) (unicode_len_utf8 (hd w))"
    let ?s = "\<lparr>sym_prev = int k - 1, sym_next = (if ?n = length w then -1 else int k + 1), sym_text = w, sym_n = ?n\<rparr>"
    have n: "0 < ?n" using False unicode_len_utf8_pos by simp
    have d: "drop k syms = ?s # suffix_symbols (drop ?n w) (int (Suc k))"
      using 1(2) False by (subst (asm) suffix_symbols.simps) (simp add: Let_def add.commute)
    then have k: "k < length syms" by (metis drop_all linorder_not_le list.distinct(1))
    have sk: "syms ! k = ?s" and dk: "drop (Suc k) syms = suffix_symbols (drop ?n w) (int (Suc k))"
      using d Cons_nth_drop_Suc [OF k] by auto
    have IH: "chained syms (int (Suc k) - 1) [Suc k..<length syms]" "pieces syms [Suc k..<length syms] = utf8_chars (drop ?n w)"
      using 1(1) [OF False refl dk] k by simp_all
    have str: "sym_str (syms ! k) = take ?n w" using sk by (simp add: sym_str_def)
    have rest: "link [Suc k..<length syms] = (if ?n = length w then -1 else int k + 1) \<and> rest_text syms [Suc k..<length syms] = drop ?n w"
    proof (cases "Suc k < length syms")
      case True
      then have "suffix_symbols (drop ?n w) (int (Suc k)) \<noteq> []" using dk by auto
      then have ne: "drop ?n w \<noteq> []" using suffix_symbols_empty by simp
      moreover have "syms ! Suc k = hd (suffix_symbols (drop ?n w) (int (Suc k)))" using dk True by (metis hd_drop_conv_nth)
      ultimately show ?thesis using True suffix_symbols_text [OF ne] by (simp add: upt_conv_Cons)
    next
      case False
      then have "drop ?n w = []" using dk suffix_symbols_empty by (metis drop_all linorder_not_le)
      then show ?thesis using False by auto
    qed
    have "chained syms (int k - 1) (k # [Suc k..<length syms])"
      using k sk n IH(1) rest str by (intro chained_ConsI) simp_all
    moreover have "pieces syms (k # [Suc k..<length syms]) = utf8_chars w"
      using IH(2) str False by (subst utf8_chars.simps) (simp add: pieces_def Let_def)
    ultimately show ?thesis using k by (simp add: upt_conv_Cons)
  qed
qed

lemma split_symbols_chain:
  assumes "syms = split_symbols word 0 0 []"
  shows "chain syms [0..<length syms] \<and> pieces syms [0..<length syms] = utf8_chars word"
proof -
  have "drop 0 syms = suffix_symbols word (int 0)" using assms split_symbols_eq [of word 0 0 "[]"] by simp
  from suffix_symbols_chained [OF this] have c: "chained syms (-1) [0..<length syms]" "pieces syms [0..<length syms] = utf8_chars word" by simp_all
  have "0 < sym_n (syms ! i)" if "i < length syms" for i
  proof -
    have "[0..<length syms] = [0..<i] @ i # [Suc i..<length syms]" using that by (metis upt_conv_Cons upt_add_eq_append le_add_diff_inverse less_imp_le zero_le)
    then show ?thesis using chained_suffix c(1) chainedD(2) by metis
  qed
  then show ?thesis using c by (simp add: chain_def)
qed

lemma concat_utf8_chars: "concat (utf8_chars w) = w"
  by (induction w rule: utf8_chars.induct) (subst utf8_chars.simps, simp add: Let_def)

text \<open>The characters of encoded code points.\<close>

lemma utf8_chars_enc: "is_cpt c \<Longrightarrow> utf8_chars (enc c @ w) = enc c # utf8_chars w"
  using enc_cont [of c] by (subst utf8_chars.simps) (auto simp: Let_def)

lemma utf8_chars_encode: "\<forall>c\<in>set cs. is_cpt c \<Longrightarrow> utf8_chars (encode cs) = map enc cs"
proof (induction cs)
  case Nil
  then show ?case by (simp add: encode_def utf8_chars.simps)
next
  case (Cons c cs)
  have "encode (c # cs) = enc c @ encode cs" by (simp add: encode_def)
  then show ?case using Cons utf8_chars_enc by simp
qed

end
