(* ===== verification/Vocab_Greedy.thy ===== *)
theory Vocab_Greedy
  imports Vocab_Chain
begin

text \<open>
  The merge loop refines the textbook algorithm.  The locale \<open>merger\<close> is the interface between the loop and the two
  tokenizers that run it: how a candidate pair is queued, when a popped one is out of date, and which pair is better.
\<close>

section \<open>Neighbours\<close>

fun adj :: "nat list \<Rightarrow> nat \<Rightarrow> nat \<Rightarrow> bool" where
  "adj (x # y # zs) a b \<longleftrightarrow> x = a \<and> y = b \<or> adj (y # zs) a b"
| "adj _ a b \<longleftrightarrow> False"

lemma adj_Cons: "adj (i # vs) a b \<longleftrightarrow> vs \<noteq> [] \<and> a = i \<and> b = hd vs \<or> adj vs a b"
  by (cases vs) auto

lemma adj_append: "adj (us @ i # vs) a b \<longleftrightarrow> adj (us @ [i]) a b \<or> adj (i # vs) a b"
proof (induction us)
  case (Cons u us)
  then show ?case by (cases us) auto
qed simp

lemma adj_mem: "adj L a b \<Longrightarrow> a \<in> set L \<and> b \<in> set L"
  by (induction L a b rule: adj.induct) auto

lemma adj_obtain: "adj L a b \<Longrightarrow> \<exists>us vs. L = us @ a # b # vs"
proof (induction L)
  case (Cons x L)
  show ?case
  proof (cases "adj L a b")
    case True
    then obtain us vs where "L = us @ a # b # vs" using Cons.IH by blast
    then show ?thesis by (metis append_Cons)
  next
    case False
    then have "a = x" "L \<noteq> []" "b = hd L" using Cons.prems by (auto simp: adj_Cons)
    then show ?thesis by (intro exI [of _ "[]"] exI [of _ "tl L"]) simp
  qed
qed simp

lemma adj_unique: "distinct L \<Longrightarrow> adj L a b \<Longrightarrow> adj L a c \<Longrightarrow> b = c"
  by (induction L) (auto simp: adj_Cons dest: adj_mem)

lemma adj_nth: "Suc k < length L \<Longrightarrow> adj L (L ! k) (L ! Suc k)"
proof (induction L arbitrary: k)
  case (Cons x L)
  then show ?case by (cases k) (auto simp: adj_Cons hd_conv_nth)
qed simp

lemma adj_kept: "adj (us @ i # j # vs) a b \<Longrightarrow> a \<noteq> j \<Longrightarrow> b \<noteq> j \<Longrightarrow> adj (us @ i # vs) a b"
  using adj_append [of us i "j # vs" a b] adj_append [of us i vs a b] adj_Cons [of i vs a b] adj_Cons [of j vs a b] by auto

lemma adj_new: "adj (us @ i # vs) a b \<Longrightarrow> adj (us @ i # j # vs) a b \<or> vs \<noteq> [] \<and> a = i \<and> b = hd vs"
  using adj_append [of us i "j # vs" a b] adj_append [of us i vs a b] adj_Cons [of i vs a b] adj_Cons [of j vs a b] by auto

lemma adj_snoc: "adj (us @ [i]) a i \<Longrightarrow> i \<notin> set us \<Longrightarrow> us \<noteq> [] \<and> a = last us"
proof (induction us)
  case (Cons u us)
  then show ?case using adj_mem by (cases us) auto
qed simp

lemma chained_link:
  assumes "chained syms p (us @ i # vs)"
  shows "sym_prev (syms ! i) = (if us = [] then p else int (last us)) \<and> sym_next (syms ! i) = link vs \<and> i < length syms"
  using assms
proof (induction us arbitrary: p)
  case (Cons u us)
  then have "chained syms (int u) (us @ i # vs)" using chainedD(7) by fastforce
  then show ?case using Cons.IH by simp
qed (auto dest: chainedD)

lemma chained_adj:
  assumes "chained syms p L" and "adj L a b"
  shows "a < length syms \<and> b < length syms \<and> sym_text (syms ! a) = sym_str (syms ! a) @ sym_text (syms ! b) \<and>
    sym_n (syms ! a) = length (sym_str (syms ! a)) \<and> sym_n (syms ! b) = length (sym_str (syms ! b))"
proof -
  obtain us vs where L: "L = us @ a # b # vs" using adj_obtain [OF assms(2)] by blast
  then obtain q where q: "chained syms q (a # b # vs)" using chained_suffix assms(1) by blast
  note ca = chainedD [OF q]
  note cb = chainedD [OF ca(7)]
  show ?thesis using ca cb by simp
qed

section \<open>Candidates in the queue\<close>

text \<open>
  A candidate was made for two strings.  While both of its symbols live they are neighbours, the left one is unchanged and
  the right one can only have grown.
\<close>

definition sound_queue ::
  "(string \<Rightarrow> string \<Rightarrow> 'p option) \<Rightarrow> ('b \<Rightarrow> string \<Rightarrow> string \<Rightarrow> bool) \<Rightarrow> ('b \<Rightarrow> int) \<Rightarrow> ('b \<Rightarrow> int) \<Rightarrow> ('b \<Rightarrow> 'p) \<Rightarrow> llm_symbol list \<Rightarrow> nat list \<Rightarrow> 'b list \<Rightarrow> bool" where
  "sound_queue prio made lf rf bprio syms L q \<longleftrightarrow>
     (\<forall>b\<in>set q. \<exists>i j x y. lf b = int i \<and> rf b = int j \<and> i < length syms \<and> j < length syms \<and> made b x y \<and> prio x y = Some (bprio b) \<and>
       (i \<in> set L \<and> j \<in> set L \<longrightarrow> adj L i j \<and> sym_str (syms ! i) = x \<and> (\<exists>z. sym_str (syms ! j) = y @ z)))"

text \<open>Every pair of neighbours that can be merged has a candidate, except for the pairs in \<open>S\<close>.\<close>

definition complete_queue ::
  "(string \<Rightarrow> string \<Rightarrow> 'p option) \<Rightarrow> ('b \<Rightarrow> string \<Rightarrow> string \<Rightarrow> bool) \<Rightarrow> ('b \<Rightarrow> int) \<Rightarrow> ('b \<Rightarrow> int) \<Rightarrow> ('b \<Rightarrow> 'p) \<Rightarrow> (nat \<times> nat) set \<Rightarrow> llm_symbol list \<Rightarrow> nat list \<Rightarrow> 'b list \<Rightarrow> bool" where
  "complete_queue prio made lf rf bprio S syms L q \<longleftrightarrow>
     (\<forall>a b p. adj L a b \<longrightarrow> (a, b) \<notin> S \<longrightarrow> prio (sym_str (syms ! a)) (sym_str (syms ! b)) = Some p \<longrightarrow>
       (\<exists>c\<in>set q. lf c = int a \<and> rf c = int b \<and> bprio c = p \<and> made c (sym_str (syms ! a)) (sym_str (syms ! b))))"

lemma merged_str_other:
  assumes "chain syms (us @ i # j # vs)" and "k \<noteq> i" and "k \<noteq> j"
  shows "sym_str (merged syms i j vs ! k) = sym_str (syms ! k)"
proof -
  note c = chain_chained [OF assms(1)] and d = chain_distinct [OF assms(1)]
  have "i < length syms" "j < length syms" "\<forall>v\<in>set vs. v < length syms" using chained_length [OF c] by auto
  from merged_nth [OF _ this, of k] show ?thesis using d assms(2,3) by (auto simp: sym_str_def)
qed

lemma sound_merged:
  assumes "chain syms (us @ i # j # vs)" and "sound_queue prio made lf rf bprio syms (us @ i # j # vs) q"
  shows "sound_queue prio made lf rf bprio (merged syms i j vs) (us @ i # vs) q"
  unfolding sound_queue_def
proof
  let ?L = "us @ i # j # vs" and ?m = "merged syms i j vs"
  note c = chain_chained [OF assms(1)] and d = chain_distinct [OF assms(1)]
  fix b assume "b \<in> set q"
  then obtain a e x y where b: "lf b = int a" "rf b = int e" "a < length syms" "e < length syms" "made b x y" "prio x y = Some (bprio b)"
    "a \<in> set ?L \<and> e \<in> set ?L \<longrightarrow> adj ?L a e \<and> sym_str (syms ! a) = x \<and> (\<exists>z. sym_str (syms ! e) = y @ z)"
    using assms(2) unfolding sound_queue_def by blast
  have "adj (us @ i # vs) a e \<and> sym_str (?m ! a) = x \<and> (\<exists>z. sym_str (?m ! e) = y @ z)"
    if live: "a \<in> set (us @ i # vs) \<and> e \<in> set (us @ i # vs)"
  proof -
    have old: "adj ?L a e" "sym_str (syms ! a) = x" "\<exists>z. sym_str (syms ! e) = y @ z" using b(7) live by auto
    have "a \<noteq> j" "e \<noteq> j" using live d by auto
    moreover have "adj ?L i j" using adj_append [of us i "j # vs" i j] by simp
    ultimately have "a \<noteq> i" using adj_unique [OF d] old(1) by blast
    have "\<exists>z. sym_str (?m ! e) = y @ z"
    proof (cases "e = i")
      case True
      obtain p where "chained syms p (i # j # vs)" using chained_suffix [OF c] by blast
      then have "sym_str (?m ! i) = sym_str (syms ! i) @ sym_str (syms ! j)" using merged_str d by auto
      then show ?thesis using True old(3) by auto
    next
      case False
      then show ?thesis using merged_str_other [OF assms(1)] \<open>e \<noteq> j\<close> old(3) by simp
    qed
    then show ?thesis
      using adj_kept [OF old(1) \<open>a \<noteq> j\<close> \<open>e \<noteq> j\<close>] merged_str_other [OF assms(1) \<open>a \<noteq> i\<close> \<open>a \<noteq> j\<close>] old(2) by simp
  qed
  then show "\<exists>a e x y. lf b = int a \<and> rf b = int e \<and> a < length ?m \<and> e < length ?m \<and> made b x y \<and> prio x y = Some (bprio b) \<and>
       (a \<in> set (us @ i # vs) \<and> e \<in> set (us @ i # vs) \<longrightarrow> adj (us @ i # vs) a e \<and> sym_str (?m ! a) = x \<and> (\<exists>z. sym_str (?m ! e) = y @ z))"
    using b(1-6) unfolding length_merged by blast
qed

lemma complete_merged:
  assumes "chain syms (us @ i # j # vs)" and "complete_queue prio made lf rf bprio {} syms (us @ i # j # vs) q"
    and "\<And>c. c \<in> set q \<Longrightarrow> lf c \<noteq> int i \<Longrightarrow> c \<in> set q'"
  shows "complete_queue prio made lf rf bprio {(a, b). a = i \<or> b = i} (merged syms i j vs) (us @ i # vs) q'"
  unfolding complete_queue_def
proof (intro allI impI)
  note d = chain_distinct [OF assms(1)]
  fix a b p
  assume ab: "adj (us @ i # vs) a b" "(a, b) \<notin> {(a, b). a = i \<or> b = i}"
    and p: "prio (sym_str (merged syms i j vs ! a)) (sym_str (merged syms i j vs ! b)) = Some p"
  have ne: "a \<noteq> i" "b \<noteq> i" "a \<noteq> j" "b \<noteq> j" using ab adj_mem [OF ab(1)] d by auto
  then have "adj (us @ i # j # vs) a b" using adj_new [OF ab(1)] by blast
  moreover have str: "sym_str (merged syms i j vs ! a) = sym_str (syms ! a)" "sym_str (merged syms i j vs ! b) = sym_str (syms ! b)"
    using merged_str_other [OF assms(1)] ne by simp_all
  ultimately obtain c where "c \<in> set q" "lf c = int a" "rf c = int b" "bprio c = p" "made c (sym_str (syms ! a)) (sym_str (syms ! b))"
    using assms(2) p unfolding complete_queue_def str by blast
  then show "\<exists>c\<in>set q'. lf c = int a \<and> rf c = int b \<and> bprio c = p \<and> made c (sym_str (merged syms i j vs ! a)) (sym_str (merged syms i j vs ! b))"
    using assms(3) ne(1) unfolding str by force
qed


section \<open>The loop\<close>

text \<open>
  What a tokenizer promises.  \<open>prio x y\<close> is the priority of merging the strings \<open>x\<close> and \<open>y\<close>, \<open>made c x y\<close> says that the
  candidate \<open>c\<close> was queued for them, \<open>clean\<close> is what the lookup of a pair demands of the strings, and \<open>keep\<close> is an invariant
  of the rest of the session.
\<close>

locale merger =
  fixes add_bigram :: "('b, 'z) merge_session_scheme \<Rightarrow> int \<Rightarrow> int \<Rightarrow> ('b, 'z) merge_session_scheme option"
    and stale :: "'b \<Rightarrow> llm_symbol \<Rightarrow> llm_symbol \<Rightarrow> bool"
    and lf :: "'b \<Rightarrow> int" and rf :: "'b \<Rightarrow> int"
    and pop :: "'b list \<Rightarrow> ('b \<times> 'b list) option"
    and prio :: "string \<Rightarrow> string \<Rightarrow> 'p option" and better :: "'p \<Rightarrow> 'p \<Rightarrow> bool" and bprio :: "'b \<Rightarrow> 'p"
    and made :: "'b \<Rightarrow> string \<Rightarrow> string \<Rightarrow> bool" and clean :: "string \<Rightarrow> bool"
    and keep :: "('b, 'z) merge_session_scheme \<Rightarrow> bool"
  assumes pop_law: "pq_law (\<lambda>b c. better (bprio c) (bprio b) \<or> bprio c = bprio b \<and> lf b > lf c) pop"
    and better_total: "\<not> better p q \<Longrightarrow> \<not> better q p \<Longrightarrow> p = q"
    and clean_append: "clean x \<Longrightarrow> clean y \<Longrightarrow> clean (x @ y)"
    and keep_update: "keep st \<Longrightarrow> keep (st\<lparr>symbols := syms\<rparr>)" "keep st \<Longrightarrow> keep (st\<lparr>work_queue := ws\<rparr>)"
    and add_none: "left = -1 \<or> right = -1 \<Longrightarrow> add_bigram st left right = Some st"
    and add_some: "a < length (symbols st) \<Longrightarrow> b < length (symbols st) \<Longrightarrow> keep st \<Longrightarrow>
      x = sym_str (symbols st ! a) \<Longrightarrow> y = sym_str (symbols st ! b) \<Longrightarrow> clean x \<Longrightarrow> clean y \<Longrightarrow>
      sym_text (symbols st ! a) = x @ sym_text (symbols st ! b) \<Longrightarrow> sym_n (symbols st ! a) = length x \<Longrightarrow> sym_n (symbols st ! b) = length y \<Longrightarrow>
      \<exists>st'. add_bigram st (int a) (int b) = Some st' \<and> symbols st' = symbols st \<and> keep st' \<and>
        (case prio x y of None \<Rightarrow> work_queue st' = work_queue st
         | Some p \<Rightarrow> \<exists>c. work_queue st' = work_queue st @ [c] \<and> lf c = int a \<and> rf c = int b \<and> bprio c = p \<and> made c x y)"
    and stale_iff: "made c x y \<Longrightarrow> sym_str l = x \<Longrightarrow> sym_str r = y @ z \<Longrightarrow> sym_n l = length x \<Longrightarrow> sym_n r = length (y @ z) \<Longrightarrow>
      stale c l r \<longleftrightarrow> z \<noteq> []"
begin

definition session_ok :: "('b, 'z) merge_session_scheme \<Rightarrow> nat list \<Rightarrow> (nat \<times> nat) set \<Rightarrow> bool" where
  "session_ok st L S \<longleftrightarrow> chain (symbols st) L \<and> (\<forall>p\<in>set (pieces (symbols st) L). clean p) \<and> keep st \<and>
     sound_queue prio made lf rf bprio (symbols st) L (work_queue st) \<and> complete_queue prio made lf rf bprio S (symbols st) L (work_queue st)"

lemma session_okD:
  assumes "session_ok st L S"
  shows "chain (symbols st) L" "keep st" "sound_queue prio made lf rf bprio (symbols st) L (work_queue st)"
    "complete_queue prio made lf rf bprio S (symbols st) L (work_queue st)" "\<And>i. i \<in> set L \<Longrightarrow> clean (sym_str (symbols st ! i))"
  using assms by (auto simp: session_ok_def pieces_def)

lemma add_pair:
  assumes "session_ok st L S" and "adj L a b"
  shows "\<exists>st'. add_bigram st (int a) (int b) = Some st' \<and> symbols st' = symbols st \<and> session_ok st' L (S - {(a, b)}) \<and>
    length (work_queue st') \<le> length (work_queue st) + 1"
proof -
  note ok = session_okD [OF assms(1)]
  let ?x = "sym_str (symbols st ! a)" and ?y = "sym_str (symbols st ! b)"
  have ab: "a \<in> set L" "b \<in> set L" using adj_mem [OF assms(2)] by auto
  note c = chained_adj [OF chain_chained [OF ok(1)] assms(2)]
  obtain st' where st': "add_bigram st (int a) (int b) = Some st'" "symbols st' = symbols st" "keep st'"
    "case prio ?x ?y of None \<Rightarrow> work_queue st' = work_queue st
     | Some p \<Rightarrow> \<exists>c. work_queue st' = work_queue st @ [c] \<and> lf c = int a \<and> rf c = int b \<and> bprio c = p \<and> made c ?x ?y"
    using add_some [of a st b ?x ?y] c ok(2) ok(5) [OF ab(1)] ok(5) [OF ab(2)] by blast
  show ?thesis
  proof (cases "prio ?x ?y")
    case None
    then have q: "work_queue st' = work_queue st" using st'(4) by simp
    have "complete_queue prio made lf rf bprio (S - {(a, b)}) (symbols st) L (work_queue st)"
      using ok(4) None unfolding complete_queue_def by (metis DiffI insertE option.distinct(1) prod.inject singletonD)
    then show ?thesis using st' q assms(1) by (auto simp: session_ok_def)
  next
    case (Some p)
    then obtain c' where c': "work_queue st' = work_queue st @ [c']" "lf c' = int a" "rf c' = int b" "bprio c' = p" "made c' ?x ?y" using st'(4) by auto
    have "sound_queue prio made lf rf bprio (symbols st) L [c']"
      using c'(2-5) conjunct1 [OF c] conjunct1 [OF conjunct2 [OF c]] assms(2) Some unfolding sound_queue_def by (simp, metis append_Nil2)
    then have "sound_queue prio made lf rf bprio (symbols st) L (work_queue st @ [c'])" using ok(3) by (auto simp: sound_queue_def)
    moreover have "complete_queue prio made lf rf bprio (S - {(a, b)}) (symbols st) L (work_queue st @ [c'])"
      unfolding complete_queue_def
    proof (intro allI impI)
      fix u v q assume uv: "adj L u v" "(u, v) \<notin> S - {(a, b)}" "prio (sym_str (symbols st ! u)) (sym_str (symbols st ! v)) = Some q"
      show "\<exists>c\<in>set (work_queue st @ [c']). lf c = int u \<and> rf c = int v \<and> bprio c = q \<and> made c (sym_str (symbols st ! u)) (sym_str (symbols st ! v))"
      proof (cases "(u, v) = (a, b)")
        case True
        then show ?thesis using c' uv(3) Some by simp
      next
        case False
        then show ?thesis using ok(4) uv unfolding complete_queue_def by fastforce
      qed
    qed
    ultimately show ?thesis using st' c' assms(1) by (auto simp: session_ok_def)
  qed
qed

text \<open>The candidates queued after a merge complete the queue.\<close>

lemma add_neighbours:
  assumes "session_ok st (us @ i # vs) {(a, b). a = i \<or> b = i}"
  shows "\<exists>st1 st2. add_bigram st (sym_prev (symbols st ! i)) (int i) = Some st1 \<and> symbols st1 = symbols st \<and>
    add_bigram st1 (int i) (sym_next (symbols st ! i)) = Some st2 \<and> symbols st2 = symbols st \<and> session_ok st2 (us @ i # vs) {} \<and>
    length (work_queue st2) \<le> length (work_queue st) + 2"
proof -
  let ?L = "us @ i # vs" and ?S = "{(a, b). a = i \<or> b = i}"
  note ch = session_okD(1) [OF assms]
  note l = chained_link [OF chain_chained [OF ch]]
  have i: "i \<notin> set us" "i \<notin> set vs" using chain_distinct [OF ch] by auto
  define P where "P = (if us = [] then {} else {(last us, i)})"
  define N where "N = (if vs = [] then {} else {(i, hd vs)})"
  obtain st1 where st1: "add_bigram st (sym_prev (symbols st ! i)) (int i) = Some st1" "symbols st1 = symbols st"
    "session_ok st1 ?L (?S - P)" "length (work_queue st1) \<le> length (work_queue st) + 1"
  proof (cases "us = []")
    case True
    then have "add_bigram st (sym_prev (symbols st ! i)) (int i) = Some st" "?S - P = ?S" using add_none l by (simp_all add: P_def)
    then show ?thesis using assms by (intro that [of st]) simp_all
  next
    case False
    then have "adj ?L (last us) i" using adj_nth [of "length us - 1" ?L] by (simp add: nth_append last_conv_nth)
    moreover have "sym_prev (symbols st ! i) = int (last us)" "P = {(last us, i)}" using l False by (simp_all add: P_def)
    ultimately show ?thesis using add_pair [OF assms, of "last us" i] that by metis
  qed
  obtain st2 where st2: "add_bigram st1 (int i) (sym_next (symbols st ! i)) = Some st2" "symbols st2 = symbols st1"
    "session_ok st2 ?L (?S - P - N)" "length (work_queue st2) \<le> length (work_queue st1) + 1"
  proof (cases vs)
    case Nil
    then have "add_bigram st1 (int i) (sym_next (symbols st ! i)) = Some st1" "?S - P - N = ?S - P" using add_none l by (simp_all add: N_def)
    then show ?thesis using st1(3) by (intro that [of st1]) simp_all
  next
    case (Cons v vs')
    then have "adj ?L i v" using adj_append [of us i vs i v] by simp
    moreover have "sym_next (symbols st ! i) = int v" "N = {(i, v)}" using l Cons by (simp_all add: N_def)
    ultimately show ?thesis using add_pair [OF st1(3), of i v] that by metis
  qed
  have none: "(a, b) \<notin> ?S - P - N" if "adj ?L a b" for a b
  proof -
    have "(a, b) \<in> P" if "b = i"
      using that \<open>adj ?L a b\<close> adj_append [of us i vs a b] adj_snoc [of us i a] adj_Cons [of i vs a b] adj_mem [of vs a b] i hd_in_set [of vs]
      by (auto simp: P_def)
    moreover have "(a, b) \<in> N" if "a = i"
    proof -
      have "\<not> adj (us @ [i]) i b" using adj_obtain [of "us @ [i]" i b] i(1) by (auto simp: append_eq_append_conv2 append_eq_Cons_conv Cons_eq_append_conv)
      then show ?thesis using that \<open>adj ?L a b\<close> adj_append [of us i vs a b] adj_Cons [of i vs a b] adj_mem [of vs a b] i by (auto simp: N_def)
    qed
    ultimately show ?thesis by auto
  qed
  have "session_ok st2 ?L {}"
    using st2(3) none unfolding session_ok_def complete_queue_def by blast
  then show ?thesis using st1 st2 by (intro exI [of _ st1] exI [of _ st2]) simp
qed

text \<open>A candidate that is up to date and not exceeded by any other is the best pair.\<close>

lemma popped_is_best:
  assumes "session_ok st (us @ i # j # vs) {}" and "lf b = int i" and "prio (sym_str (symbols st ! i)) (sym_str (symbols st ! j)) = Some (bprio b)"
    and "\<forall>c\<in>set (work_queue st). \<not> (better (bprio c) (bprio b) \<or> bprio c = bprio b \<and> lf b > lf c)"
  shows "best_pair better prio (pieces (symbols st) (us @ i # j # vs)) = Some (length us)"
proof -
  let ?L = "us @ i # j # vs" and ?k = "length us"
  let ?ps = "pieces (symbols st) ?L"
  let ?key = "\<lambda>k. the (prio (?ps ! k) (?ps ! Suc k))"
  note ok = session_okD [OF assms(1)]
  have ps: "?ps ! k = sym_str (symbols st ! (?L ! k))" if "k < length ?L" for k unfolding pieces_def by (rule nth_map [OF that])
  have len: "length ?ps = length ?L" by (simp add: pieces_def)
  have Lk: "?L ! ?k = i" "?L ! Suc ?k = j" by (simp_all add: nth_append)
  have k: "mergeable prio ?ps ?k" "?key ?k = bprio b" using assms(3) ps [of ?k] ps [of "Suc ?k"] Lk len by (simp_all add: mergeable_def)
  have other: "\<exists>c\<in>set (work_queue st). lf c = int (?L ! m) \<and> bprio c = ?key m" if "mergeable prio ?ps m" for m
  proof -
    have m: "Suc m < length ?L" "prio (?ps ! m) (?ps ! Suc m) = Some (?key m)" using that len by (auto simp: mergeable_def)
    have "prio (sym_str (symbols st ! (?L ! m))) (sym_str (symbols st ! (?L ! Suc m))) = Some (?key m)"
      using m(2) ps [of m] ps [of "Suc m"] m(1) by (metis Suc_lessD)
    then show ?thesis using ok(4) adj_nth [OF m(1)] unfolding complete_queue_def by blast
  qed
  have unbeaten: "\<not> better (?key m) (?key ?k)" if "mergeable prio ?ps m" for m
    using other [OF that] assms(4) k(2) by (metis (no_types, lifting))
  have first: "\<not> (mergeable prio ?ps m \<and> (\<forall>n. mergeable prio ?ps n \<longrightarrow> \<not> better (?key n) (?key m)))" if "m < ?k" for m
  proof
    assume a: "mergeable prio ?ps m \<and> (\<forall>n. mergeable prio ?ps n \<longrightarrow> \<not> better (?key n) (?key m))"
    then have "?key m = ?key ?k" using better_total unbeaten k(1) by blast
    moreover obtain c where "c \<in> set (work_queue st)" "lf c = int (?L ! m)" "bprio c = ?key m" using other a by blast
    moreover have "?L ! m < ?L ! ?k" using ok(1) that by (intro sorted_wrt_nth_less [of "(<)"]) (simp_all add: chain_def)
    ultimately show False using assms(2,4) k(2) Lk(1) by force
  qed
  have bound: "mergeable prio ?ps m \<Longrightarrow> m < length ?ps" for m by (simp add: mergeable_def)
  let ?Q = "\<lambda>k. mergeable prio ?ps k \<and> list_all (\<lambda>m. mergeable prio ?ps m \<longrightarrow> \<not> better (?key m) (?key k)) [0..<length ?ps]"
  have Qk: "?Q ?k" using k(1) unbeaten by (simp only: list_all_iff) blast
  have Qm: "\<not> ?Q m" if "m < ?k" for m
  proof
    assume "?Q m"
    then have "mergeable prio ?ps m \<and> (\<forall>n. mergeable prio ?ps n \<longrightarrow> \<not> better (?key n) (?key m))"
      using bound unfolding list_all_iff by (metis atLeastLessThan_iff atLeastLessThan_upt le0)
    then show False using first [OF that] by blast
  qed
  have nth: "[0..<length ?ps] ! m = m" if "m \<le> ?k" for m using that bound [OF k(1)] by simp
  show ?thesis unfolding best_pair_def find_Some_iff
  proof (intro exI [of _ ?k] conjI allI impI)
    show "?k < length [0..<length ?ps]" using bound [OF k(1)] by simp
    show "?k = [0..<length ?ps] ! ?k" using nth by simp
    show "mergeable prio ?ps ([0..<length ?ps] ! ?k)" unfolding nth [OF order_refl] using Qk by (rule conjunct1)
    show "list_all (\<lambda>m. mergeable prio ?ps m \<longrightarrow> \<not> better (?key m) (?key ([0..<length ?ps] ! ?k))) [0..<length ?ps]"
      unfolding nth [OF order_refl] using Qk by (rule conjunct2)
    fix m assume "m < ?k"
    then show "\<not> ?Q ([0..<length ?ps] ! m)" using Qm nth [of m] by simp
  qed
qed

lemma merge_step_ok:
  assumes ok: "session_ok st L {}" and p: "pop (work_queue st) = Some (b, q)"
  shows "\<exists>st' L'. merge_step add_bigram stale (lf b) (rf b) b (st\<lparr>work_queue := q\<rparr>) = Some st' \<and> session_ok st' L' {} \<and>
    3 * length L' + length (work_queue st') < 3 * length L + length (work_queue st) \<and>
    greedy_merge better prio (pieces (symbols st') L') = greedy_merge better prio (pieces (symbols st) L)"
proof -
  note okD = session_okD [OF ok]
  let ?s = "symbols st" and ?w = "work_queue st"
  have ne: "?w \<noteq> []" using p pop_law by (auto simp: pq_law_def)
  then have ms: "mset ?w = add_mset b (mset q)" and max: "\<forall>c\<in>set ?w. \<not> (better (bprio c) (bprio b) \<or> bprio c = bprio b \<and> lf b > lf c)"
    using p pop_law unfolding pq_law_def by fastforce+
  have w: "set ?w = insert b (set q)" using arg_cong [OF ms, of set_mset] by simp
  have lenq: "length ?w = length q + 1" using arg_cong [OF ms, of size] by simp
  obtain i j x y where b: "lf b = int i" "rf b = int j" "i < length ?s" "j < length ?s" "made b x y" "prio x y = Some (bprio b)"
    "i \<in> set L \<and> j \<in> set L \<longrightarrow> adj L i j \<and> sym_str (?s ! i) = x \<and> (\<exists>z. sym_str (?s ! j) = y @ z)"
    using okD(3) w unfolding sound_queue_def by blast
  have live: "k \<in> set L \<longleftrightarrow> 0 < sym_n (?s ! k)" if "k < length ?s" for k using okD(1) that by (simp add: chain_def)
  show ?thesis
  proof (cases "sym_n (?s ! i) = 0 \<or> sym_n (?s ! j) = 0 \<or> stale b (?s ! i) (?s ! j)")
    case True
    have "complete_queue prio made lf rf bprio {} ?s L q" unfolding complete_queue_def
    proof (intro allI impI)
      fix u v r assume uv: "adj L u v" "prio (sym_str (?s ! u)) (sym_str (?s ! v)) = Some r"
      then obtain c where c: "c \<in> set ?w" "lf c = int u" "rf c = int v" "bprio c = r" "made c (sym_str (?s ! u)) (sym_str (?s ! v))"
        using okD(4) unfolding complete_queue_def by blast
      have "c \<noteq> b"
      proof
        assume "c = b"
        then have eq: "u = i" "v = j" using c b by auto
        then have "0 < sym_n (?s ! i)" "0 < sym_n (?s ! j)" using adj_mem [OF uv(1)] live b by auto
        moreover have "\<not> stale b (?s ! i) (?s ! j)"
          using stale_iff [of b "sym_str (?s ! i)" "sym_str (?s ! j)" "?s ! i" "?s ! j" "[]"] c(5) \<open>c = b\<close> eq
            chained_adj [OF chain_chained [OF okD(1)] uv(1)] by simp
        ultimately show False using True by simp
      qed
      then show "\<exists>c\<in>set q. lf c = int u \<and> rf c = int v \<and> bprio c = r \<and> made c (sym_str (?s ! u)) (sym_str (?s ! v))" using c w by auto
    qed
    moreover have "sound_queue prio made lf rf bprio ?s L q" using okD(3) w unfolding sound_queue_def by auto
    ultimately have "session_ok (st\<lparr>work_queue := q\<rparr>) L {}" using ok keep_update(2) by (auto simp: session_ok_def)
    moreover have "merge_step add_bigram stale (lf b) (rf b) b (st\<lparr>work_queue := q\<rparr>) = Some (st\<lparr>work_queue := q\<rparr>)"
      using True b by (simp add: merge_step_def)
    ultimately show ?thesis using lenq by (intro exI [of _ "st\<lparr>work_queue := q\<rparr>"] exI [of _ L]) simp
  next
    case False
    then have "i \<in> set L" "j \<in> set L" using live b by auto
    then obtain z where old: "adj L i j" "sym_str (?s ! i) = x" "sym_str (?s ! j) = y @ z" using b(7) by blast
    note ch = chained_adj [OF chain_chained [OF okD(1)] old(1)]
    have "z = []" using stale_iff [OF b(5) old(2,3)] ch old False by simp
    obtain us vs where L: "L = us @ i # j # vs" using adj_obtain [OF old(1)] by blast
    note chL = okD(1) [unfolded L]
    let ?m = "merged ?s i j vs" and ?L = "us @ i # vs"
    have best: "best_pair better prio (pieces ?s L) = Some (length us)"
      unfolding L using popped_is_best [OF ok [unfolded L] b(1)] b(6) old \<open>z = []\<close> max by simp
    have v: "\<forall>v\<in>set vs. v < length ?s" using chained_length [OF chain_chained [OF chL]] by auto
    obtain r where "chained ?s r ((us @ [i]) @ j # vs)" using chain_chained [OF chL] by auto
    then have "sym_next (?s ! j) = link vs" using chained_link by blast
    then have mm: "merge_symbols ?s (int i) (int j) = Some ?m"
      using merge_symbols_merged [OF _ b(3,4) v] chain_distinct [OF chL] by auto
    let ?st = "st\<lparr>work_queue := q, symbols := ?m\<rparr>"
    have clean: "\<forall>p\<in>set (pieces ?m ?L). clean p"
    proof -
      obtain p where "chained ?s p (i # j # vs)" using chained_suffix [OF chain_chained [OF chL]] by blast
      then have "sym_str (?m ! i) = sym_str (?s ! i) @ sym_str (?s ! j)" using merged_str chain_distinct [OF chL] by auto
      then have "clean (sym_str (?m ! k))" if "k \<in> set ?L" for k
      proof (cases "k = i")
        case True
        then show ?thesis using \<open>sym_str (?m ! i) = _\<close> clean_append okD(5) L by simp
      next
        case False
        moreover have "k \<noteq> j" using that chain_distinct [OF chL] by auto
        ultimately show ?thesis using merged_str_other [OF chL] okD(5) [of k] that L by auto
      qed
      then show ?thesis by (auto simp: pieces_def)
    qed
    have "\<And>c. c \<in> set ?w \<Longrightarrow> lf c \<noteq> int i \<Longrightarrow> c \<in> set q" using w b(1) by auto
    note cq = complete_merged [OF chL okD(4) [unfolded L] this]
    have "sound_queue prio made lf rf bprio ?s (us @ i # j # vs) q" using okD(3) w unfolding sound_queue_def L by blast
    note sq = sound_merged [OF chL this]
    have "keep ?st" by (intro keep_update okD(2))
    then have "session_ok ?st ?L {(a, b). a = i \<or> b = i}" using cq sq merged_chain [OF chL] clean by (simp add: session_ok_def)
    from add_neighbours [OF this] obtain st1 st2 where st12:
      "add_bigram ?st (sym_prev (?m ! i)) (int i) = Some st1" "symbols st1 = ?m" "add_bigram st1 (int i) (sym_next (?m ! i)) = Some st2"
      "symbols st2 = ?m" "session_ok st2 ?L {}" "length (work_queue st2) \<le> length q + 2" by auto
    have "merge_step add_bigram stale (lf b) (rf b) b (st\<lparr>work_queue := q\<rparr>) = Some st2"
      using False b(1-4) mm st12(1-3) unfolding merge_step_def by (simp add: Let_def)
    moreover have "greedy_merge better prio (pieces (symbols st2) ?L) = greedy_merge better prio (pieces ?s L)"
      using best merged_pieces [OF chL] st12(4) unfolding L by (subst (2) greedy_merge.simps) simp
    ultimately show ?thesis using st12(5,6) lenq L by (intro exI [of _ st2] exI [of _ ?L]) simp
  qed
qed

lemma merge_loop_greedy:
  assumes "session_ok st L {}"
  shows "\<exists>st' L'. merge_loop add_bigram stale lf rf pop st = Some st' \<and> chain (symbols st') L' \<and> keep st' \<and>
    pieces (symbols st') L' = greedy_merge better prio (pieces (symbols st) L)"
  using assms
proof (induction "3 * length L + length (work_queue st)" arbitrary: st L rule: less_induct)
  case less
  note ok = session_okD [OF less.prems]
  show ?case
  proof (cases "work_queue st = []")
    case True
    have "\<not> mergeable prio (pieces (symbols st) L) k" for k
      using ok(4) True adj_nth [of k L] unfolding complete_queue_def mergeable_def pieces_def by fastforce
    then have "best_pair better prio (pieces (symbols st) L) = None" by (simp add: best_pair_def find_None_iff)
    then have "greedy_merge better prio (pieces (symbols st) L) = pieces (symbols st) L" by (subst greedy_merge.simps) simp
    moreover have "merge_loop add_bigram stale lf rf pop st = Some st" using True pop_law by (subst merge_loop.simps) (simp add: pq_law_def)
    ultimately show ?thesis using ok by (intro exI [of _ st] exI [of _ L]) simp
  next
    case False
    then obtain b q where p: "pop (work_queue st) = Some (b, q)" using pop_law unfolding pq_law_def by blast
    from merge_step_ok [OF less.prems p] obtain s M where s: "merge_step add_bigram stale (lf b) (rf b) b (st\<lparr>work_queue := q\<rparr>) = Some s"
      "session_ok s M {}" "3 * length M + length (work_queue s) < 3 * length L + length (work_queue st)"
      "greedy_merge better prio (pieces (symbols s) M) = greedy_merge better prio (pieces (symbols st) L)" by blast
    from less.hyps [OF s(3) s(2)] s(4) show ?thesis using p s(1) by (subst merge_loop.simps) simp
  qed
qed

lemma session_ok_mono: "session_ok st L S \<Longrightarrow> (\<And>a b. adj L a b \<Longrightarrow> (a, b) \<in> S \<Longrightarrow> (a, b) \<in> S') \<Longrightarrow> session_ok st L S'"
  unfolding session_ok_def complete_queue_def by blast

lemma seed_queue_ok:
  assumes "session_ok st [0..<n] {(a, b). 1 \<le> b}" and "n = length (symbols st)"
  shows "\<exists>st'. seed_queue add_bigram st = Some st' \<and> symbols st' = symbols st \<and> session_ok st' [0..<n] {}"
proof -
  have succ: "b = Suc a" if "adj [0..<n] a b" for a b
  proof -
    obtain us vs where "[0..<n] = us @ a # b # vs" using adj_obtain [OF \<open>adj [0..<n] a b\<close>] by blast
    then have "[0..<n] ! length us = a" "[0..<n] ! Suc (length us) = b" "Suc (length us) < n"
      by (simp_all add: nth_append) (metis add_Suc_right diff_zero length_append length_upt length_Cons less_add_Suc1 add_Suc_shift)
    then show ?thesis by simp
  qed
  have "\<exists>st'. for_each (\<lambda>i st. add_bigram st (int i - 1) (int i)) [1..<Suc m] st = Some st' \<and> symbols st' = symbols st \<and> session_ok st' [0..<n] {(a, b). m < b}"
    if "m < n" for m
    using that
  proof (induction m)
    case 0
    then show ?case using assms(1) by (simp add: Suc_le_eq)
  next
    case (Suc m)
    then obtain s where s: "for_each (\<lambda>i st. add_bigram st (int i - 1) (int i)) [1..<Suc m] st = Some s" "symbols s = symbols st"
      "session_ok s [0..<n] {(a, b). m < b}" by auto
    have "adj [0..<n] m (Suc m)" using adj_nth [of m "[0..<n]"] Suc.prems by simp
    from add_pair [OF s(3) this] obtain s' where s': "add_bigram s (int m) (int (Suc m)) = Some s'" "symbols s' = symbols s"
      "session_ok s' [0..<n] ({(a, b). m < b} - {(m, Suc m)})" by blast
    have "session_ok s' [0..<n] {(a, b). Suc m < b}" by (rule session_ok_mono [OF s'(3)]) (use succ in force)
    moreover have "[1..<Suc (Suc m)] = [1..<Suc m] @ [Suc m]" by simp
    ultimately show ?case using s s' by (simp only: for_each_snoc bind.bind_lunit) (simp add: int_Suc)
  qed
  note loop = this
  show ?thesis
  proof (cases "n = 0")
    case True
    then have "session_ok st [0..<n] {}" using session_ok_mono [OF assms(1)] by simp
    then show ?thesis using True assms(2) by (simp add: seed_queue_def)
  next
    case False
    then obtain st' where "for_each (\<lambda>i st. add_bigram st (int i - 1) (int i)) [1..<n] st = Some st'" "symbols st' = symbols st"
      "session_ok st' [0..<n] {(a, b). n - 1 < b}" using loop [of "n - 1"] by auto
    moreover from this(3) have "session_ok st' [0..<n] {}" by (rule session_ok_mono) (use adj_mem in force)
    ultimately show ?thesis using assms(2) by (simp add: seed_queue_def)
  qed
qed

text \<open>From the characters of a text to the pieces that the textbook algorithm leaves.\<close>

lemma merge_text:
  assumes "symbols st = split_symbols word 0 0 []" and "work_queue st = []" and "keep st" and "\<forall>p\<in>set (utf8_chars word). clean p"
  shows "\<exists>st1 st2 L. seed_queue add_bigram st = Some st1 \<and> merge_loop add_bigram stale lf rf pop st1 = Some st2 \<and>
    chain (symbols st2) L \<and> keep st2 \<and> pieces (symbols st2) L = greedy_merge better prio (utf8_chars word)"
proof -
  let ?L = "[0..<length (symbols st)]"
  note c = split_symbols_chain [OF assms(1)]
  have "complete_queue prio made lf rf bprio {(a, b). 1 \<le> b} (symbols st) ?L (work_queue st)"
    unfolding complete_queue_def
  proof (intro allI impI)
    fix a b p assume ab: "adj ?L a b" "(a, b) \<notin> {(a, b). 1 \<le> b}"
    then have "b = 0" by simp
    then obtain us vs where "?L = us @ a # 0 # vs" using adj_obtain [OF ab(1)] by blast
    then have "sorted_wrt (<) (us @ a # 0 # vs)" by (metis sorted_wrt_upt)
    then show "\<exists>c\<in>set (work_queue st). lf c = int a \<and> rf c = int b \<and> bprio c = p \<and> made c (sym_str (symbols st ! a)) (sym_str (symbols st ! b))"
      by (simp add: sorted_wrt_append)
  qed
  then have "session_ok st ?L {(a, b). 1 \<le> b}" using c assms by (simp add: session_ok_def sound_queue_def)
  from seed_queue_ok [OF this refl] obtain st1 where st1: "seed_queue add_bigram st = Some st1" "symbols st1 = symbols st" "session_ok st1 ?L {}" by blast
  from merge_loop_greedy [OF st1(3)] show ?thesis using st1 c by auto
qed

end

end
