(* ===== verification/Vocab_BPE.thy ===== *)
theory Vocab_BPE
  imports Vocab Vocab_Greedy
begin

text \<open>
  The BPE tokenizer of \<open>src/src/llama-vocab.cpp\<close>: \<open>llm_tokenizer_bpe_session\<close>.  The words of the pre-tokenizer are merged
  one by one; the symbols that remain are collected in one chain and looked up in the vocabulary.
\<close>

section \<open>The session\<close>

record llm_bigram_bpe =
  bpe_left :: int
  bpe_right :: int
  bpe_text :: string
  bpe_rank :: int
  bpe_size :: nat

text \<open>The comparator of the queue: \<open>l\<close> comes after \<open>r\<close>.\<close>

definition bpe_lower :: "llm_bigram_bpe \<Rightarrow> llm_bigram_bpe \<Rightarrow> bool" where
  "bpe_lower l r \<longleftrightarrow> bpe_rank l > bpe_rank r \<or> bpe_rank l = bpe_rank r \<and> bpe_left l > bpe_left r"

definition add_new_bigram :: "'s vocab_impl \<Rightarrow> llm_bigram_bpe merge_session \<Rightarrow> int \<Rightarrow> int \<Rightarrow> llm_bigram_bpe merge_session option" where
  "add_new_bigram v st left right =
     (if left = -1 \<or> right = -1 then Some st
      else do {
        l \<leftarrow> sym_at (symbols st) left;
        r \<leftarrow> sym_at (symbols st) right;
        let left_token = sym_str l;
        let right_token = sym_str r;
        rank_found \<leftarrow> find_bpe_rank v left_token right_token;
        if rank_found < 0 then Some st
        else Some (st\<lparr>work_queue := work_queue st @
          [\<lparr>bpe_left = left, bpe_right = right, bpe_text = left_token @ right_token, bpe_rank = rank_found,
            bpe_size = length left_token + length right_token\<rparr>]\<rparr>) })"

definition bpe_stale :: "llm_bigram_bpe \<Rightarrow> llm_symbol \<Rightarrow> llm_symbol \<Rightarrow> bool" where
  "bpe_stale bigram l r \<longleftrightarrow> sym_str l @ sym_str r \<noteq> bpe_text bigram"

type_synonym bpe_pop = "llm_bigram_bpe list \<Rightarrow> (llm_bigram_bpe \<times> llm_bigram_bpe list) option"

text \<open>The symbols of one word after its merges.\<close>

definition bpe_merge_word :: "'s vocab_impl \<Rightarrow> bpe_pop \<Rightarrow> string \<Rightarrow> llm_symbol list option" where
  "bpe_merge_word v pop word = do {
     token \<leftarrow> text_to_token v word;
     let (syms, offset) =
       (if ignore_merges v \<and> token \<noteq> LLAMA_TOKEN_NULL then ([\<lparr>sym_prev = -1, sym_next = -1, sym_text = word, sym_n = length word\<rparr>], length word)
        else ([], 0));
     let syms = split_symbols word offset 0 syms;
     st \<leftarrow> seed_queue (add_new_bigram v) \<lparr>symbols = syms, work_queue = []\<rparr>;
     st \<leftarrow> merge_loop (add_new_bigram v) bpe_stale bpe_left bpe_right pop st;
     Some (symbols st) }"

text \<open>The finished symbols of a word join the final chain; the pair is \<open>symbols_final\<close> and \<open>final_prev_index\<close>.\<close>

definition append_symbol :: "llm_symbol \<Rightarrow> llm_symbol list \<times> int \<Rightarrow> (llm_symbol list \<times> int) option" where
  "append_symbol symbol = (\<lambda>(symbols_final, final_prev_index).
     if sym_n symbol > 0 then
       let symbol = symbol\<lparr>sym_prev := final_prev_index, sym_next := -1\<rparr> in do {
       symbols_final \<leftarrow> (if final_prev_index \<noteq> -1 then do {
           s \<leftarrow> sym_at symbols_final final_prev_index;
           Some (symbols_final[nat final_prev_index := s\<lparr>sym_next := int (length symbols_final)\<rparr>]) }
         else Some symbols_final);
       Some (symbols_final @ [symbol], int (length symbols_final)) }
     else Some (symbols_final, final_prev_index))"

definition bpe_word_step :: "'s vocab_impl \<Rightarrow> bpe_pop \<Rightarrow> string \<Rightarrow> llm_symbol list \<times> int \<Rightarrow> (llm_symbol list \<times> int) option" where
  "bpe_word_step v pop word fin = do {
     syms \<leftarrow> bpe_merge_word v pop word;
     for_each append_symbol syms fin }"

text \<open>The tokens of a finished symbol: its token, or those of its bytes that the vocabulary has.\<close>

definition bpe_output_symbol :: "'s vocab_impl \<Rightarrow> string \<Rightarrow> int list \<Rightarrow> int list option" where
  "bpe_output_symbol v str output = do {
     token \<leftarrow> text_to_token v str;
     if token = LLAMA_TOKEN_NULL then
       for_each (\<lambda>c output. do {
         token_multibyte \<leftarrow> text_to_token v [c];
         Some (if token_multibyte \<noteq> LLAMA_TOKEN_NULL then output @ [token_multibyte] else output) }) str output
     else Some (output @ [token]) }"

partial_function (option) bpe_output_loop :: "'s vocab_impl \<Rightarrow> llm_symbol list \<Rightarrow> int \<Rightarrow> int list \<Rightarrow> int list option" where
  "bpe_output_loop v syms i output =
     (if i \<noteq> -1 then do {
        symbol \<leftarrow> sym_at syms i;
        output \<leftarrow> (if sym_n symbol = 0 then Some output else bpe_output_symbol v (sym_str symbol) output);
        bpe_output_loop v syms (sym_next symbol) output }
      else Some output)"

declare bpe_output_loop.simps [code]

definition bpe_tokenize :: "std_regex \<Rightarrow> unicode_tables \<Rightarrow> 's vocab_impl \<Rightarrow> bpe_pop \<Rightarrow> string list \<Rightarrow> string \<Rightarrow> int list \<Rightarrow> int list option" where
  "bpe_tokenize rx tb v pop regex_exprs text output = do {
     word_collection \<leftarrow> unicode_regex_split rx tb text regex_exprs;
     (symbols_final, final_prev_index) \<leftarrow> for_each (bpe_word_step v pop) word_collection ([], -1);
     if symbols_final \<noteq> [] then bpe_output_loop v symbols_final 0 output else Some output }"

section \<open>The merges of a word\<close>

text \<open>The rank of a pair, lower ranks first.\<close>

definition bpe_prio :: "'s vocab_impl \<Rightarrow> string \<Rightarrow> string \<Rightarrow> int option" where
  "bpe_prio v x y = (case bpe_ranks v (x, y) of Some rank \<Rightarrow> if rank < 0 then None else Some rank | None \<Rightarrow> None)"

definition bpe_clean :: "string \<Rightarrow> bool" where
  "bpe_clean s \<longleftrightarrow> CHR '' '' \<notin> set s \<and> CHR 0x0A \<notin> set s"

definition bpe_made :: "llm_bigram_bpe \<Rightarrow> string \<Rightarrow> string \<Rightarrow> bool" where
  "bpe_made c x y \<longleftrightarrow> bpe_text c = x @ y"

lemma bpe_merger:
  assumes "pq_law bpe_lower pop"
  shows "merger (add_new_bigram v) bpe_stale bpe_left bpe_right pop (bpe_prio v) (<) bpe_rank bpe_made bpe_clean (\<lambda>_. True)"
proof
  have "(\<lambda>b c. bpe_rank c < bpe_rank b \<or> bpe_rank c = bpe_rank b \<and> bpe_left b > bpe_left c) = bpe_lower"
    by (auto simp: bpe_lower_def fun_eq_iff)
  then show "pq_law (\<lambda>b c. bpe_rank c < bpe_rank b \<or> bpe_rank c = bpe_rank b \<and> bpe_left b > bpe_left c) pop" using assms by simp
next
  fix st :: "llm_bigram_bpe merge_session" and a b x y
  assume "a < length (symbols st)" "b < length (symbols st)" "x = sym_str (symbols st ! a)" "y = sym_str (symbols st ! b)" "bpe_clean x" "bpe_clean y"
  then show "\<exists>st'. add_new_bigram v st (int a) (int b) = Some st' \<and> symbols st' = symbols st \<and> True \<and>
    (case bpe_prio v x y of None \<Rightarrow> work_queue st' = work_queue st
     | Some p \<Rightarrow> \<exists>c. work_queue st' = work_queue st @ [c] \<and> bpe_left c = int a \<and> bpe_right c = int b \<and> bpe_rank c = p \<and> bpe_made c x y)"
    by (simp add: add_new_bigram_def find_bpe_rank_def bpe_clean_def bpe_prio_def bpe_made_def Let_def split: option.splits)
qed (auto simp: bpe_clean_def bpe_stale_def bpe_made_def add_new_bigram_def)

lemma bpe_pop_law: "pq_law bpe_lower (pq_pop bpe_lower)"
  by (rule pq_pop_law) (auto simp: bpe_lower_def)

interpretation bpe_queue: merger "add_new_bigram v" bpe_stale bpe_left bpe_right "pq_pop bpe_lower" "bpe_prio v" "(<)" bpe_rank bpe_made bpe_clean "\<lambda>_. True"
  for v by (rule bpe_merger [OF bpe_pop_law])

text \<open>The strings of the live symbols of a chain, in the order of the vector.\<close>

definition live_strs :: "llm_symbol list \<Rightarrow> string list" where
  "live_strs syms = map sym_str (filter (\<lambda>s. 0 < sym_n s) syms)"

lemma chain_live_strs:
  assumes "chain syms L"
  shows "live_strs syms = pieces syms L"
proof -
  have c: "chained syms (-1) L" and s: "sorted_wrt (<) L" and l: "\<forall>i<length syms. 0 < sym_n (syms ! i) \<longleftrightarrow> i \<in> set L"
    using assms by (auto simp: chain_def)
  have "set L = set (filter (\<lambda>i. 0 < sym_n (syms ! i)) [0..<length syms])" using chained_length [OF c] l by auto
  moreover have "sorted_wrt (<) (filter (\<lambda>i. 0 < sym_n (syms ! i)) [0..<length syms])" by (intro sorted_wrt_filter) simp
  ultimately have L: "L = filter (\<lambda>i. 0 < sym_n (syms ! i)) [0..<length syms]"
    using s by (metis strict_sorted_equal)
  have "syms = map (nth syms) [0..<length syms]" by (simp add: map_nth)
  then have "filter (\<lambda>s. 0 < sym_n s) syms = map (nth syms) L" unfolding L by (metis (no_types, lifting) comp_apply filter_cong filter_map)
  then show ?thesis by (simp add: live_strs_def pieces_def comp_def)
qed

text \<open>The pieces of a word: the whole word, or what the textbook algorithm leaves.\<close>

definition bpe_pieces :: "'s vocab_impl \<Rightarrow> string \<Rightarrow> string list" where
  "bpe_pieces v word =
     (if ignore_merges v \<and> (\<exists>i. token_to_id v word = Some i \<and> i \<noteq> LLAMA_TOKEN_NULL) then (if word = [] then [] else [word])
      else greedy_merge (<) (bpe_prio v) (utf8_chars word))"

lemma set_utf8_chars: "p \<in> set (utf8_chars w) \<Longrightarrow> set p \<subseteq> set w"
  using concat_utf8_chars [of w] by (metis UN_upper set_concat)

lemma bpe_merge_word_pieces:
  assumes "pq_law bpe_lower pop" and "vocab_type v \<noteq> VOCAB_NONE" and "bpe_clean word"
  shows "\<exists>syms. bpe_merge_word v pop word = Some syms \<and> live_strs syms = bpe_pieces v word"
proof (cases "ignore_merges v \<and> (\<exists>i. token_to_id v word = Some i \<and> i \<noteq> LLAMA_TOKEN_NULL)")
  case True
  let ?s = "[\<lparr>sym_prev = -1, sym_next = -1, sym_text = word, sym_n = length word\<rparr>]"
  have "split_symbols word (length word) 0 ?s = ?s" by (subst split_symbols.simps) simp
  moreover have "seed_queue (add_new_bigram v) \<lparr>symbols = ?s, work_queue = []\<rparr> = Some \<lparr>symbols = ?s, work_queue = []\<rparr>" by (simp add: seed_queue_def)
  moreover have "merge_loop (add_new_bigram v) bpe_stale bpe_left bpe_right pop \<lparr>symbols = ?s, work_queue = []\<rparr> = Some \<lparr>symbols = ?s, work_queue = []\<rparr>"
    using assms(1) by (subst merge_loop.simps) (simp add: pq_law_def)
  ultimately have "bpe_merge_word v pop word = Some ?s" using True assms(2) by (auto simp: bpe_merge_word_def)
  then show ?thesis using True by (auto simp: live_strs_def bpe_pieces_def sym_str_def)
next
  case False
  let ?st = "\<lparr>symbols = split_symbols word 0 0 [], work_queue = []\<rparr>"
  have "\<forall>p\<in>set (utf8_chars word). bpe_clean p" using assms(3) set_utf8_chars unfolding bpe_clean_def by blast
  then obtain st1 st2 L where "seed_queue (add_new_bigram v) ?st = Some st1"
    "merge_loop (add_new_bigram v) bpe_stale bpe_left bpe_right pop st1 = Some st2" "chain (symbols st2) L"
    "pieces (symbols st2) L = greedy_merge (<) (bpe_prio v) (utf8_chars word)"
    using merger.merge_text [OF bpe_merger [OF assms(1)], of ?st word v] by auto
  then show ?thesis using False assms(2) chain_live_strs by (auto simp: bpe_merge_word_def bpe_pieces_def split: option.splits)
qed

section \<open>The final chain\<close>

text \<open>The final chain is linked in the order of the vector.\<close>

definition final_ok :: "llm_symbol list \<times> int \<Rightarrow> string list \<Rightarrow> bool" where
  "final_ok = (\<lambda>(fin, last_index) strs. map sym_str fin = strs \<and> last_index = int (length fin) - 1 \<and>
     (\<forall>k<length fin. 0 < sym_n (fin ! k) \<and> sym_next (fin ! k) = (if Suc k < length fin then int (Suc k) else -1)))"

lemma append_symbol_ok:
  assumes "final_ok (fin, p) strs"
  shows "\<exists>fin' p'. append_symbol s (fin, p) = Some (fin', p') \<and> final_ok (fin', p') (strs @ live_strs [s])"
proof (cases "0 < sym_n s")
  case True
  let ?s = "s\<lparr>sym_prev := p, sym_next := -1\<rparr>"
  have str: "sym_str ?s = sym_str s" by (simp add: sym_str_def)
  show ?thesis
  proof (cases "fin = []")
    case True
    then show ?thesis using assms \<open>0 < sym_n s\<close> str by (auto simp: append_symbol_def final_ok_def live_strs_def Let_def)
  next
    case False
    then obtain k where k': "length fin = Suc k" by (cases fin) auto
    let ?k = k
    let ?fin = "fin[?k := (fin ! ?k)\<lparr>sym_next := int (length fin)\<rparr>]"
    have p: "p = int ?k" using assms k' by (simp add: final_ok_def)
    have k: "?k < length fin" using k' by simp
    have "append_symbol s (fin, p) = Some (?fin @ [?s], int (length fin))"
      using True p k by (simp add: append_symbol_def Let_def)
    moreover have "map sym_str ?fin = strs"
    proof -
      have eq: "sym_str ((fin ! ?k)\<lparr>sym_next := int (length fin)\<rparr>) = map sym_str fin ! ?k" using k by (simp add: sym_str_def)
      have "map sym_str fin = strs" using assms by (simp add: final_ok_def)
      then show ?thesis unfolding map_update eq by simp
    qed
    moreover have "length fin = Suc ?k" by (rule k')
    moreover have "0 < sym_n ((?fin @ [?s]) ! m) \<and> sym_next ((?fin @ [?s]) ! m) = (if Suc m < length (?fin @ [?s]) then int (Suc m) else -1)"
      if "m < length (?fin @ [?s])" for m
      using that assms True k k' by (auto simp: nth_append nth_list_update final_ok_def less_Suc_eq)
    ultimately show ?thesis using True str by (auto simp: final_ok_def live_strs_def)
  qed
next
  case False
  then show ?thesis using assms by (simp add: append_symbol_def live_strs_def)
qed

lemma append_symbols_ok:
  assumes "final_ok fin strs"
  shows "\<exists>fin'. for_each append_symbol syms fin = Some fin' \<and> final_ok fin' (strs @ live_strs syms)"
  using assms
proof (induction syms arbitrary: fin strs)
  case (Cons s syms)
  obtain f p where f: "fin = (f, p)" by fastforce
  obtain f' p' where f': "append_symbol s (f, p) = Some (f', p')" "final_ok (f', p') (strs @ live_strs [s])"
    using append_symbol_ok Cons.prems f by blast
  then show ?case using Cons.IH [OF f'(2)] f by (simp add: live_strs_def split: if_splits)
qed (simp add: live_strs_def)

lemma bpe_words_ok:
  assumes "pq_law bpe_lower pop" and "vocab_type v \<noteq> VOCAB_NONE" and "\<forall>w\<in>set words. bpe_clean w" and "final_ok fin strs"
  shows "\<exists>fin'. for_each (bpe_word_step v pop) words fin = Some fin' \<and> final_ok fin' (strs @ concat (map (bpe_pieces v) words))"
  using assms(3,4)
proof (induction words arbitrary: fin strs)
  case (Cons w words)
  obtain syms where syms: "bpe_merge_word v pop w = Some syms" "live_strs syms = bpe_pieces v w"
    using bpe_merge_word_pieces [OF assms(1,2), of w] Cons.prems(1) by auto
  obtain f where f: "for_each append_symbol syms fin = Some f" "final_ok f (strs @ bpe_pieces v w)"
    using append_symbols_ok [OF Cons.prems(2), of syms] syms(2) by auto
  then show ?case using Cons.IH [of f "strs @ bpe_pieces v w"] Cons.prems(1) syms(1) by (simp add: bpe_word_step_def)
qed simp

section \<open>Tokens\<close>

text \<open>The tokens of a piece: its own, or those of its bytes that the vocabulary has.\<close>

definition piece_tokens :: "'s vocab_impl \<Rightarrow> string \<Rightarrow> int list" where
  "piece_tokens v s = (case known_token v s of Some i \<Rightarrow> [i] | None \<Rightarrow> List.map_filter (\<lambda>c. known_token v [c]) s)"

lemma bpe_output_symbol_eq:
  assumes "vocab_type v \<noteq> VOCAB_NONE"
  shows "bpe_output_symbol v s out = Some (out @ piece_tokens v s)"
proof -
  have "for_each (\<lambda>c output. do {
         token_multibyte \<leftarrow> text_to_token v [c];
         Some (if token_multibyte \<noteq> LLAMA_TOKEN_NULL then output @ [token_multibyte] else output) }) t o' =
    Some (o' @ List.map_filter (\<lambda>c. known_token v [c]) t)" for t o'
  proof (induction t arbitrary: o')
    case (Cons c t)
    then show ?case using known_token_not_null [of v "[c]"]
      by (cases "known_token v [c]") (simp_all add: text_to_token_known [OF assms] map_filter_simps del: text_to_token_eq)
  qed (simp add: map_filter_simps)
  then show ?thesis using known_token_not_null [of v s]
    by (cases "known_token v s") (simp_all add: bpe_output_symbol_def text_to_token_known [OF assms] piece_tokens_def del: text_to_token_eq)
qed

lemma bpe_output_loop_eq:
  assumes "vocab_type v \<noteq> VOCAB_NONE" and "final_ok (fin, p) strs" and "k \<le> length fin"
  shows "bpe_output_loop v fin (if k < length fin then int k else -1) out = Some (out @ concat (map (piece_tokens v) (drop k strs)))"
  using assms(3)
proof (induction "length fin - k" arbitrary: k out)
  case 0
  then show ?case using assms(2) by (subst bpe_output_loop.simps) (auto simp: final_ok_def)
next
  case (Suc n)
  then have k: "k < length fin" by simp
  have fk: "0 < sym_n (fin ! k)" "sym_next (fin ! k) = (if Suc k < length fin then int (Suc k) else -1)" and strs: "strs = map sym_str fin"
    using assms(2) k by (auto simp: final_ok_def)
  have "drop k strs = sym_str (fin ! k) # drop (Suc k) strs" using k strs by (simp add: Cons_nth_drop_Suc [symmetric] drop_map)
  then show ?case using Suc.hyps(1) [of "Suc k" "out @ piece_tokens v (sym_str (fin ! k))"] Suc.hyps(2) k fk
    by (subst bpe_output_loop.simps) (simp add: bpe_output_symbol_eq [OF assms(1)])
qed

lemma bpe_tokenize_pieces:
  assumes "pq_law bpe_lower pop" and "vocab_type v \<noteq> VOCAB_NONE" and "unicode_regex_split rx tb text regex_exprs = Some words" and "\<forall>w\<in>set words. bpe_clean w"
  shows "bpe_tokenize rx tb v pop regex_exprs text out = Some (out @ concat (map (piece_tokens v) (concat (map (bpe_pieces v) words))))"
proof -
  have "final_ok ([], -1) []" by (simp add: final_ok_def)
  from bpe_words_ok [OF assms(1,2,4) this] obtain fin p where f: "for_each (bpe_word_step v pop) words ([], -1) = Some (fin, p)"
    "final_ok (fin, p) (concat (map (bpe_pieces v) words))" by fastforce
  show ?thesis
  proof (cases "fin = []")
    case True
    then have "concat (map (bpe_pieces v) words) = []" using f(2) by (simp add: final_ok_def)
    then show ?thesis using assms(3) f(1) True by (simp add: bpe_tokenize_def)
  next
    case False
    then show ?thesis using assms(3) f(1) bpe_output_loop_eq [OF assms(2) f(2), of 0 out] by (simp add: bpe_tokenize_def)
  qed
qed

section \<open>Words of the pre-tokenizer\<close>

text \<open>The letters of the byte alphabet: no blank and no line break among their bytes, and one UTF-8 character each.\<close>

lemma byte_cpt_ge: "0 \<le> b \<Longrightarrow> b < 256 \<Longrightarrow> 33 \<le> byte_cpt b"
  using rank_below_bounds by (auto simp: byte_cpt_def printable_def)

lemma enc_bytes:
  assumes "is_cpt c" and "33 \<le> c" and "x \<in> set (enc c)"
  shows "33 \<le> ub x"
  using assms(1)
proof (cases rule: encode_cases)
  case B1
  then show ?thesis using assms by (simp add: enc_def)
next
  case (B2 a b)
  then show ?thesis using assms(3) by (auto simp: enc_def)
next
  case (B3 a b d)
  then show ?thesis using assms(3) by (auto simp: enc_def)
next
  case (B4 a b d e)
  then show ?thesis using assms(3) by (auto simp: enc_def)
qed


lemma utf8_chars_spell: "utf8_chars (spell w) = map (\<lambda>b. spell [b]) w"
proof -
  have "\<forall>c\<in>set (map (byte_cpt \<circ> ub) w). is_cpt c" using byte_cpt_is_cpt by auto
  then show ?thesis unfolding spell_def by (simp add: utf8_chars_encode) (simp add: encode_def)
qed

lemma spell_clean: "bpe_clean (spell w)"
proof -
  have "33 \<le> ub x" if "x \<in> set (spell w)" for x
  proof -
    have "\<exists>b\<in>set w. x \<in> set (enc (byte_cpt (ub b)))" using that by (auto simp: spell_def encode_def)
    then obtain b where "b \<in> set w" "x \<in> set (enc (byte_cpt (ub b)))" by blast
    then show ?thesis using enc_bytes [of "byte_cpt (ub b)" x] byte_cpt_is_cpt [of "ub b"] byte_cpt_ge [of "ub b"] by simp
  qed
  moreover have "ub (CHR '' '') = 32" "ub (CHR 0x0A) = 10" by code_simp+
  ultimately show ?thesis unfolding bpe_clean_def by force
qed

lemma split_words_clean:
  assumes "regex_law rx" and "unicode_cpts_to_utf8 cps = Some text" and "\<forall>c\<in>set cps. is_cpt c" and "unicode_regex_split rx tb text regex_exprs = Some words"
  shows "\<exists>ws. words = map spell ws \<and> concat ws = text"
proof -
  have t: "text = encode cps" using assms(2,3) cpts_to_utf8_encode by auto
  then have c: "unicode_cpts_from_utf8 text = cps" using cpts_from_encode [OF assms(3)] by simp
  obtain ls where "sum_list ls = length cps" "words = map (spell \<circ> encode) (cut_at ls cps)"
    using regex_split_eq [OF assms(1) _ assms(4)] assms(3) c by auto
  then show ?thesis using concat_cut_at [of ls cps] t by (intro exI [of _ "map encode (cut_at ls cps)"]) (simp add: concat_encode)
qed

text \<open>
  C4: On valid UTF-8 the BPE session computes the textbook algorithm.  Whatever the order in which the priority queue returns
  candidates of equal rank, the tokens of a text are those of the pieces that are left when, in each word of the
  pre-tokenizer, the neighbours of lowest rank are merged again and again, the leftmost pair first.  No assertion on the
  merged strings fails and no symbol outside the vector is read.
\<close>

theorem bpe_tokenize_greedy:
  assumes "regex_law rx" and "pq_law bpe_lower pop" and "vocab_type v = VOCAB_BPE"
    and "unicode_cpts_to_utf8 cps = Some text" and "\<forall>c\<in>set cps. is_cpt c" and "unicode_regex_split rx tb text regex_exprs = Some words"
  shows "bpe_tokenize rx tb v pop regex_exprs text out = Some (out @ concat (map (piece_tokens v) (concat (map (bpe_pieces v) words))))"
proof -
  obtain ws where "words = map spell ws" using split_words_clean [OF assms(1,4,5,6)] by blast
  then have "\<forall>w\<in>set words. bpe_clean w" using spell_clean by auto
  moreover have "vocab_type v \<noteq> VOCAB_NONE" using assms(3) by simp
  ultimately show ?thesis using bpe_tokenize_pieces [OF assms(2) _ assms(6)] by blast
qed

definition tiny_bpe_vocab :: "nat vocab_impl" where
  "tiny_bpe_vocab =
     \<lparr>vocab_type = VOCAB_BPE, token_to_id = map_of [(''a'', 0), (''b'', 1), (''ab'', 2), (''ba'', 3)],
      id_to_token = map (\<lambda>t. \<lparr>tok_text = t, tok_score = 0, tok_attr = 4\<rparr>) [''a'', ''b'', ''ab'', ''ba''],
      bpe_ranks = map_of [((''a'', ''b''), 1), ((''b'', ''a''), 0)], add_space_prefix = False, add_bos = False, add_eos = False,
      ignore_merges = False, clean_spaces = False, cache_token_to_piece = [], special_bos_id = -1, special_eos_id = -1, special_unk_id = -1, special_sep_id = -1, cache_special_tokens = []\<rparr>"

theorem bpe_tokenize_greedy_witness:
  "\<exists>words. unicode_regex_split whole_match ascii_tables ''abab'' [llama3_regex] = Some words \<and>
     bpe_tokenize whole_match ascii_tables tiny_bpe_vocab (pq_pop bpe_lower) [llama3_regex] ''abab'' [] =
       Some ([] @ concat (map (piece_tokens tiny_bpe_vocab) (concat (map (bpe_pieces tiny_bpe_vocab) words))))"
proof -
  have law: "regex_law whole_match" by (simp add: regex_law_def whole_match_def)
  have u: "unicode_cpts_to_utf8 [97, 98, 97, 98] = Some ''abab''" by code_simp
  have c: "\<forall>c\<in>set [97, 98, 97, 98]. is_cpt c" by simp
  then have "unicode_cpts_from_utf8 ''abab'' = [97, 98, 97, 98]" using u cpts_to_utf8_encode [OF c] cpts_from_encode [OF c] by simp
  then obtain words where w: "unicode_regex_split whole_match ascii_tables ''abab'' [llama3_regex] = Some words"
    using regex_split_total [of "[llama3_regex]" "''abab''" whole_match ascii_tables] c by (auto simp: custom_regexes_def)
  have "vocab_type tiny_bpe_vocab = VOCAB_BPE" by (simp add: tiny_bpe_vocab_def)
  from bpe_tokenize_greedy [OF law bpe_pop_law this u c w] show ?thesis using w by blast
qed

end
