(* ===== verification/Vocab_SPM.thy ===== *)
theory Vocab_SPM
  imports Vocab Vocab_Greedy
begin

text \<open>
  The SPM tokenizer of \<open>src/src/llama-vocab.cpp\<close>: \<open>llm_tokenizer_spm_session\<close>.  The merge loop is that of \<open>Vocab_Merge\<close>, with
  the scores of the tokens as priorities; what is left is looked up, and a piece without a token becomes its bytes.  The
  branch of \<open>resegment\<close> that takes a merge back is never reached.
\<close>

section \<open>The session\<close>

record 's llm_bigram_spm =
  spm_left :: int
  spm_right :: int
  spm_score :: 's
  spm_size :: nat

text \<open>The comparator of the queue: \<open>l\<close> comes after \<open>r\<close>.  Scores are ordered, that is, none of them is a NaN.\<close>

definition spm_lower :: "'s::linorder llm_bigram_spm \<Rightarrow> 's llm_bigram_spm \<Rightarrow> bool" where
  "spm_lower l r \<longleftrightarrow> spm_score l < spm_score r \<or> spm_score l = spm_score r \<and> spm_left l > spm_left r"

record 's spm_session = "'s llm_bigram_spm merge_session" +
  rev_merge :: "string \<rightharpoonup> int \<times> int"

definition try_add_bigram :: "'s vocab_impl \<Rightarrow> 's spm_session \<Rightarrow> int \<Rightarrow> int \<Rightarrow> 's spm_session option" where
  "try_add_bigram v st left right =
     (if left = -1 \<or> right = -1 then Some st
      else do {
        l \<leftarrow> sym_at (symbols st) left;
        r \<leftarrow> sym_at (symbols st) right;
        ggml_assert (sym_n l + sym_n r \<le> length (sym_text l));
        let text = take (sym_n l + sym_n r) (sym_text l);
        token \<leftarrow> text_to_token v text;
        if token = LLAMA_TOKEN_NULL then Some st
        else if token mod 4294967296 \<ge> int (n_tokens v) then Some st
        else do {
          tok_data \<leftarrow> get_token_data v token;
          Some (st\<lparr>work_queue := work_queue st @ [\<lparr>spm_left = left, spm_right = right, spm_score = tok_score tok_data, spm_size = length text\<rparr>],
                   rev_merge := (rev_merge st)(text \<mapsto> (left, right))\<rparr>) } })"

definition spm_stale :: "'s llm_bigram_spm \<Rightarrow> llm_symbol \<Rightarrow> llm_symbol \<Rightarrow> bool" where
  "spm_stale bigram l r \<longleftrightarrow> sym_n l + sym_n r \<noteq> spm_size bigram"

text \<open>The symbols and the table of merges are those at the end of the loop.\<close>

partial_function (option) resegment :: "'s vocab_impl \<Rightarrow> 's spm_session \<Rightarrow> llm_symbol \<Rightarrow> int list \<Rightarrow> int list option" where
  "resegment v st symbol output = do {
     let text = sym_str symbol;
     token \<leftarrow> text_to_token v text;
     if token \<noteq> LLAMA_TOKEN_NULL then Some (output @ [token])
     else (case rev_merge st text of
         None \<Rightarrow> for_each (\<lambda>c output. do { token \<leftarrow> byte_to_token v (ub c); Some (output @ [token]) }) text output
       | Some p \<Rightarrow> do {
           l \<leftarrow> sym_at (symbols st) (fst p);
           output \<leftarrow> resegment v st l output;
           r \<leftarrow> sym_at (symbols st) (snd p);
           resegment v st r output }) }"

partial_function (option) spm_output_loop :: "'s vocab_impl \<Rightarrow> 's spm_session \<Rightarrow> int \<Rightarrow> int list \<Rightarrow> int list option" where
  "spm_output_loop v st i output =
     (if i \<noteq> -1 then do {
        symbol \<leftarrow> sym_at (symbols st) i;
        output \<leftarrow> resegment v st symbol output;
        spm_output_loop v st (sym_next symbol) output }
      else Some output)"

declare resegment.simps [code] spm_output_loop.simps [code]

definition spm_tokenize ::
  "'s vocab_impl \<Rightarrow> ('s llm_bigram_spm list \<Rightarrow> ('s llm_bigram_spm \<times> 's llm_bigram_spm list) option) \<Rightarrow> string \<Rightarrow> int list \<Rightarrow> int list option" where
  "spm_tokenize v pop text output = do {
     st \<leftarrow> seed_queue (try_add_bigram v) \<lparr>symbols = split_symbols text 0 0 [], work_queue = [], rev_merge = Map.empty\<rparr>;
     st \<leftarrow> merge_loop (try_add_bigram v) spm_stale spm_left spm_right pop st;
     spm_output_loop v st 0 output }"

section \<open>The merges\<close>

text \<open>The score of the token that a merge makes, higher scores first.\<close>

definition spm_prio :: "'s vocab_impl \<Rightarrow> string \<Rightarrow> string \<Rightarrow> 's option" where
  "spm_prio v x y =
     (case known_token v (x @ y) of
        Some i \<Rightarrow> if 0 \<le> i \<and> i < int (n_tokens v) then Some (tok_score (id_to_token v ! nat i)) else None
      | None \<Rightarrow> None)"

definition spm_made :: "'s llm_bigram_spm \<Rightarrow> string \<Rightarrow> string \<Rightarrow> bool" where
  "spm_made c x y \<longleftrightarrow> spm_size c = length x + length y"

text \<open>Only strings with a token enter the table of merges.\<close>

definition rev_known :: "'s vocab_impl \<Rightarrow> 's spm_session \<Rightarrow> bool" where
  "rev_known v st \<longleftrightarrow> (\<forall>t\<in>dom (rev_merge st). known_token v t \<noteq> None)"

text \<open>What the lookups rely on: the ids of the table are token ids, of which there are less than \<open>2 ^ 31\<close>.\<close>

definition ids_int32 :: "'s vocab_impl \<Rightarrow> bool" where
  "ids_int32 v \<longleftrightarrow> vocab_type v = VOCAB_SPM \<and> int (n_tokens v) \<le> INT32_MAX \<and> (\<forall>t i. token_to_id v t = Some i \<longrightarrow> i32_ok i)"

lemma try_add_bigram_eq:
  assumes "ids_int32 v" and "rev_known v st" and "a < length (symbols st)" and "b < length (symbols st)"
    and "sym_text (symbols st ! a) = x @ sym_text (symbols st ! b)" and "sym_n (symbols st ! a) = length x"
    and "y = sym_str (symbols st ! b)" and "sym_n (symbols st ! b) = length y"
  shows "\<exists>st'. try_add_bigram v st (int a) (int b) = Some st' \<and> symbols st' = symbols st \<and> rev_known v st' \<and>
    (case spm_prio v x y of None \<Rightarrow> work_queue st' = work_queue st
     | Some p \<Rightarrow> \<exists>c. work_queue st' = work_queue st @ [c] \<and> spm_left c = int a \<and> spm_right c = int b \<and> spm_score c = p \<and> spm_made c x y)"
proof -
  let ?l = "symbols st ! a" and ?r = "symbols st ! b"
  have y: "y = take (length y) (sym_text ?r)" using assms(7,8) by (simp add: sym_str_def)
  then have len: "length y \<le> length (sym_text ?r)" by (metis length_take min.cobounded1 min_def)
  have "take (sym_n ?l + sym_n ?r) (sym_text ?l) = x @ y" using assms(5,6,8) y by simp
  moreover have "sym_n ?l + sym_n ?r \<le> length (sym_text ?l)" using assms(5,6,8) len by simp
  moreover have vt: "vocab_type v \<noteq> VOCAB_NONE" using assms(1) by (simp add: ids_int32_def)
  ultimately have eq: "try_add_bigram v st (int a) (int b) = (case known_token v (x @ y) of None \<Rightarrow> Some st
      | Some i \<Rightarrow> if i mod 4294967296 \<ge> int (n_tokens v) then Some st
          else do { tok_data \<leftarrow> get_token_data v i;
            Some (st\<lparr>work_queue := work_queue st @ [\<lparr>spm_left = int a, spm_right = int b, spm_score = tok_score tok_data, spm_size = length (x @ y)\<rparr>],
              rev_merge := (rev_merge st)(x @ y \<mapsto> (int a, int b))\<rparr>) })"
    using assms(3,4) known_token_not_null [of v "x @ y"]
    by (simp add: try_add_bigram_def text_to_token_known Let_def del: text_to_token_eq split: option.splits)
  show ?thesis
  proof (cases "known_token v (x @ y)")
    case None
    then show ?thesis using eq assms(2) by (simp add: spm_prio_def)
  next
    case (Some i)
    have "i32_ok i" using Some assms(1) by (auto simp: known_token_def ids_int32_def split: option.splits if_splits)
    then have i: "-2147483648 \<le> i" "i \<le> 2147483647" by (auto simp: i32_ok_def INT32_MAX_def)
    have n: "int (n_tokens v) \<le> 2147483647" using assms(1) by (simp add: ids_int32_def INT32_MAX_def)
    show ?thesis
    proof (cases "0 \<le> i \<and> i < int (n_tokens v)")
      case True
      then have "get_token_data v i = Some (id_to_token v ! nat i)" "i mod 4294967296 = i"
        using vt i by (auto simp: get_token_data_def n_tokens_def nat_less_iff)
      then show ?thesis using eq Some True assms(2) by (simp add: spm_prio_def spm_made_def rev_known_def)
    next
      case False
      then have "i mod 4294967296 \<ge> int (n_tokens v)"
      proof (cases "0 \<le> i")
        case False
        then have "i mod 4294967296 = i + 4294967296" using i(1) mod_add_self2 [of i "4294967296"] mod_pos_pos_trivial [of "i + 4294967296" 4294967296] by simp
        then show ?thesis using i(1) n by simp
      qed (use i False in simp)
      then show ?thesis using eq Some False assms(2) by (simp add: spm_prio_def)
    qed
  qed
qed

lemma spm_merger:
  fixes v :: "'s::linorder vocab_impl"
  assumes "pq_law spm_lower pop" and "ids_int32 v"
  shows "merger (try_add_bigram v) spm_stale spm_left spm_right pop (spm_prio v) (>) spm_score spm_made (\<lambda>_. True) (rev_known v)"
proof
  have "(\<lambda>b c. spm_score c > spm_score b \<or> spm_score c = spm_score b \<and> spm_left b > spm_left c) = (spm_lower :: 's llm_bigram_spm \<Rightarrow> _)"
    by (auto simp: spm_lower_def fun_eq_iff)
  then show "pq_law (\<lambda>b c. spm_score c > spm_score b \<or> spm_score c = spm_score b \<and> spm_left b > spm_left c) pop" using assms(1) by simp
next
  fix st :: "'s spm_session" and a b x y
  assume "a < length (symbols st)" "b < length (symbols st)" "rev_known v st" "sym_text (symbols st ! a) = x @ sym_text (symbols st ! b)"
    "sym_n (symbols st ! a) = length x" "y = sym_str (symbols st ! b)" "sym_n (symbols st ! b) = length y"
  then show "\<exists>st'. try_add_bigram v st (int a) (int b) = Some st' \<and> symbols st' = symbols st \<and> rev_known v st' \<and>
    (case spm_prio v x y of None \<Rightarrow> work_queue st' = work_queue st
     | Some p \<Rightarrow> \<exists>c. work_queue st' = work_queue st @ [c] \<and> spm_left c = int a \<and> spm_right c = int b \<and> spm_score c = p \<and> spm_made c x y)"
    using try_add_bigram_eq [OF assms(2)] by blast
qed (auto simp: spm_stale_def spm_made_def try_add_bigram_def rev_known_def)

lemma spm_pop_law: "pq_law spm_lower (pq_pop spm_lower)"
  by (rule pq_pop_law) (auto simp: spm_lower_def)

section \<open>Output\<close>

text \<open>The tokens of a piece: its own, or those of its bytes.\<close>

definition spm_emit :: "'s vocab_impl \<Rightarrow> string \<Rightarrow> int list \<Rightarrow> int list option" where
  "spm_emit v piece output =
     (case known_token v piece of
        Some i \<Rightarrow> Some (output @ [i])
      | None \<Rightarrow> for_each (\<lambda>c output. do { token \<leftarrow> byte_to_token v (ub c); Some (output @ [token]) }) piece output)"

text \<open>No merge is taken back: a string in the table of merges has a token.\<close>

lemma resegment_emit:
  assumes "vocab_type v = VOCAB_SPM" and "rev_known v st"
  shows "resegment v st symbol out = spm_emit v (sym_str symbol) out"
proof (cases "known_token v (sym_str symbol)")
  case None
  then have "rev_merge st (sym_str symbol) = None" using assms(2) unfolding rev_known_def by (metis domIff)
  then show ?thesis using None assms(1) by (subst resegment.simps) (simp add: text_to_token_known spm_emit_def Let_def del: text_to_token_eq)
next
  case (Some i)
  then show ?thesis using assms(1) known_token_not_null [OF Some]
    by (subst resegment.simps) (simp add: text_to_token_known spm_emit_def Let_def del: text_to_token_eq)
qed

lemma spm_output_loop_emit:
  assumes "vocab_type v = VOCAB_SPM" and "rev_known v st" and "chained (symbols st) p L"
  shows "spm_output_loop v st (link L) out = for_each (spm_emit v) (pieces (symbols st) L) out"
  using assms(3)
proof (induction L arbitrary: p out)
  case Nil
  then show ?case by (subst spm_output_loop.simps) (simp add: pieces_def)
next
  case (Cons i L)
  note d = chainedD [OF Cons.prems]
  then show ?case using Cons.IH
    by (subst spm_output_loop.simps) (auto simp: pieces_def resegment_emit [OF assms(1,2)] split: bind_splits)
qed

lemma for_each_greedy:
  assumes "pq_law spm_lower pop" and "ids_int32 v" and "text \<noteq> []"
  shows "spm_tokenize v pop text out = for_each (spm_emit v) (greedy_merge (>) (spm_prio v) (utf8_chars text)) out"
proof -
  let ?st = "\<lparr>symbols = split_symbols text 0 0 [], work_queue = [], rev_merge = Map.empty\<rparr>"
  have "rev_known v ?st" by (simp add: rev_known_def)
  with merger.merge_text [OF spm_merger [OF assms(1,2)], of ?st "text"] obtain st1 st2 L where st: "seed_queue (try_add_bigram v) ?st = Some st1"
    "merge_loop (try_add_bigram v) spm_stale spm_left spm_right pop st1 = Some st2" "chain (symbols st2) L" "rev_known v st2"
    "pieces (symbols st2) L = greedy_merge (>) (spm_prio v) (utf8_chars text)"
    by auto
  have c: "chained (symbols st2) (-1) L" using chain_chained [OF st(3)] .
  have "concat (pieces (symbols st2) L) = text" by (simp add: st(5) concat_greedy_merge concat_utf8_chars)
  then have "L \<noteq> []" using assms(3) by (auto simp: pieces_def)
  then have "link L = 0" by (rule chain_first [OF st(3)])
  then have "spm_output_loop v st2 0 out = for_each (spm_emit v) (pieces (symbols st2) L) out"
    using spm_output_loop_emit [OF _ st(4) c, of out] assms(2) by (simp add: ids_int32_def)
  then show ?thesis using st by (simp add: spm_tokenize_def)
qed

text \<open>
  C12: The SPM session computes the textbook algorithm.  For every text that is not empty and whatever the order in which the
  priority queue returns candidates of equal score, the result is that of merging, again and again, the neighbours whose
  union has the token of highest score, the leftmost first, and of putting out what is left piece by piece: the token of the
  piece, or the tokens of its bytes.  In particular the recursion of \<open>resegment\<close> is never entered, and the only failure is
  a byte without a token.
\<close>

theorem spm_tokenize_greedy:
  assumes "pq_law spm_lower pop" and "ids_int32 v" and "text \<noteq> []"
  shows "spm_tokenize v pop text out = for_each (spm_emit v) (greedy_merge (>) (spm_prio v) (utf8_chars text)) out"
  by (rule for_each_greedy [OF assms])

definition tiny_spm_vocab :: "nat vocab_impl" where
  "tiny_spm_vocab =
     \<lparr>vocab_type = VOCAB_SPM, token_to_id = map_of [(''a'', 0), (''b'', 1), (''ab'', 2), (''ba'', 3), (''<0x63>'', 4)],
      id_to_token = map (\<lambda>(t, s, a). \<lparr>tok_text = t, tok_score = s, tok_attr = a\<rparr>)
        [(''a'', 0, 4), (''b'', 0, 4), (''ab'', 1, 4), (''ba'', 2, 4), (''<0x63>'', 0, 32)],
      bpe_ranks = Map.empty, add_space_prefix = False, add_bos = False, add_eos = False,
      ignore_merges = False, clean_spaces = False, cache_token_to_piece = [], special_bos_id = -1, special_eos_id = -1, special_unk_id = -1, special_sep_id = -1, cache_special_tokens = []\<rparr>"

theorem spm_tokenize_greedy_witness:
  "greedy_merge (>) (spm_prio tiny_spm_vocab) (utf8_chars ''abac'') = [''a'', ''ba'', ''c''] \<and>
   spm_tokenize tiny_spm_vocab (pq_pop spm_lower) ''abac'' [] = Some [0, 3, 4]"
proof
  show g: "greedy_merge (>) (spm_prio tiny_spm_vocab) (utf8_chars ''abac'') = [''a'', ''ba'', ''c'']" by code_simp
  have "ids_int32 tiny_spm_vocab"
    by (auto simp: ids_int32_def tiny_spm_vocab_def n_tokens_def INT32_MAX_def i32_ok_def split: if_splits)
  from spm_tokenize_greedy [OF spm_pop_law this, of "''abac''" "[]"]
  have "spm_tokenize tiny_spm_vocab (pq_pop spm_lower) ''abac'' [] = for_each (spm_emit tiny_spm_vocab) [''a'', ''ba'', ''c''] []" using g by simp
  also have "\<dots> = Some [0, 3, 4]" by code_simp
  finally show "spm_tokenize tiny_spm_vocab (pq_pop spm_lower) ''abac'' [] = Some [0, 3, 4]" .
qed

end
