(* ===== verification/Vocab_Piece.thy ===== *)
theory Vocab_Piece
  imports Vocab
begin

text \<open>
  From tokens back to text in \<open>src/src/llama-vocab.cpp\<close>: \<open>token_to_piece\<close> and \<open>detokenize\<close>.

  A caller's buffer of \<open>length\<close> bytes is modelled by what is written to it: \<open>token_to_piece\<close> returns its result and the
  bytes it copies.  Results and lengths are \<open>int32_t\<close>; a sum outside the type is \<open>None\<close>, like a failed assertion.
\<close>

section \<open>Pieces\<close>

definition ATTR_UNKNOWN :: int where "ATTR_UNKNOWN = 1"
definition ATTR_NORMAL :: int where "ATTR_NORMAL = 4"
definition ATTR_CONTROL :: int where "ATTR_CONTROL = 8"
definition ATTR_USER_DEFINED :: int where "ATTR_USER_DEFINED = 16"
definition ATTR_BYTE :: int where "ATTR_BYTE = 32"

definition has_attr :: "int \<Rightarrow> int \<Rightarrow> bool" where
  "has_attr attr m \<longleftrightarrow> bit_set attr m"

definition token_get_attr :: "'s vocab_impl \<Rightarrow> int \<Rightarrow> int option" where
  "token_get_attr v token = do {
     ggml_assert (vocab_type v \<noteq> VOCAB_NONE);
     if 0 \<le> token then map_option tok_attr (at (id_to_token v) (nat token)) else None }"

definition is_byte :: "'s vocab_impl \<Rightarrow> int \<Rightarrow> bool option" where
  "is_byte v token = map_option (\<lambda>attr. has_attr attr ATTR_BYTE) (token_get_attr v token)"

text \<open>\<open>strtol(buf, NULL, 16)\<close> for a string of at most two characters, and its conversion to \<open>uint8_t\<close>.\<close>

definition hex_value :: "char \<Rightarrow> int option" where
  "hex_value c =
     (let b = ub c in
      if 48 \<le> b \<and> b \<le> 57 then Some (b - 48) else if 97 \<le> b \<and> b \<le> 102 then Some (b - 87) else if 65 \<le> b \<and> b \<le> 70 then Some (b - 55) else None)"

definition is_space :: "char \<Rightarrow> bool" where
  "is_space c \<longleftrightarrow> ub c = 32 \<or> 9 \<le> ub c \<and> ub c \<le> 13"

definition strtol_scan :: "string \<Rightarrow> bool \<times> string" where
  "strtol_scan buf =
     (let s = dropWhile is_space buf in
      (s \<noteq> [] \<and> hd s = CHR ''-'',
       takeWhile (\<lambda>c. hex_value c \<noteq> None) (if s \<noteq> [] \<and> (hd s = CHR ''-'' \<or> hd s = CHR ''+'') then tl s else s)))"

definition strtol16 :: "string \<Rightarrow> int" where
  "strtol16 buf =
     (let (neg, digits) = strtol_scan buf; n = fold (\<lambda>c acc. acc * 16 + the (hex_value c)) digits 0 in if neg then - n else n)"

definition token_to_byte :: "'s vocab_impl \<Rightarrow> int \<Rightarrow> int option" where
  "token_to_byte v token = do {
     byte \<leftarrow> is_byte v token;
     ggml_assert byte;
     data \<leftarrow> get_token_data v token;
     if vocab_type v = VOCAB_SPM \<or> vocab_type v = VOCAB_UGM then do {
       ggml_assert (3 \<le> length (tok_text data));
       Some (strtol16 (take 2 (drop 3 (tok_text data))) mod 256) }
     else None }"

text \<open>\<open>replace_all\<close> of \<open>src/src/llama-impl.cpp\<close>: the occurrences from left to right.\<close>

function replace_all :: "string \<Rightarrow> string \<Rightarrow> string \<Rightarrow> string" where
  "replace_all s search replace =
     (if search = [] \<or> s = [] then s
      else if take (length search) s = search then replace @ replace_all (drop (length search) s) search replace
      else hd s # replace_all (tl s) search replace)"
  by pat_completeness auto
termination
  by (relation "measure (\<lambda>(s, search, replace). length s)") auto

declare replace_all.simps [simp del]

definition phantom_space :: string where
  "phantom_space = [chr_of 0xE2, chr_of 0x96, chr_of 0x81]"

definition llama_escape_whitespace :: "string \<Rightarrow> string" where
  "llama_escape_whitespace text = replace_all text '' '' phantom_space"

definition llama_unescape_whitespace :: "string \<Rightarrow> string" where
  "llama_unescape_whitespace word = replace_all word phantom_space '' ''"

text \<open>\<open>llama_unescape_rwkv_token\<close>: the state is the output, \<open>escaping\<close>, \<open>hex_remaining\<close> and \<open>hex_acc\<close>.\<close>

definition rwkv_unescape_step :: "char \<Rightarrow> string \<times> bool \<times> nat \<times> int \<Rightarrow> string \<times> bool \<times> nat \<times> int" where
  "rwkv_unescape_step c = (\<lambda>(output, escaping, hex_remaining, hex_acc).
     if hex_remaining \<noteq> 0 then
       let b = (if ub c \<ge> 128 then ub c - 256 else ub c);
           value = (if b \<ge> 97 then b - 97 + 10 else b - 48) mod 256;
           hex_acc = (hex_acc * 16 + value) mod 256
       in if hex_remaining - 1 = 0 then (output @ [chr_of hex_acc], escaping, 0, 0) else (output, escaping, hex_remaining - 1, hex_acc)
     else if escaping then
       (if c = CHR ''t'' then (output @ [CHR 0x09], False, hex_remaining, hex_acc)
        else if c = CHR ''n'' then (output @ [CHR 0x0A], False, hex_remaining, hex_acc)
        else if c = CHR ''r'' then (output @ [CHR 0x0D], False, hex_remaining, hex_acc)
        else if c = CHR ''x'' then (output, False, 2, hex_acc)
        else (output @ [c], False, hex_remaining, hex_acc))
     else if c = CHR 0x5C then (output, True, hex_remaining, hex_acc)
     else (output @ [c], escaping, hex_remaining, hex_acc))"

definition llama_unescape_rwkv_token :: "string \<Rightarrow> string" where
  "llama_unescape_rwkv_token escaped = fst (fold rwkv_unescape_step escaped ([], False, 0, 0))"

text \<open>\<open>_try_copy\<close>: up to \<open>lstrip\<close> leading blanks are skipped; too small a buffer gives the negated size.\<close>

fun skip_blanks :: "nat \<Rightarrow> string \<Rightarrow> string" where
  "skip_blanks (Suc k) (c # s) = (if c = CHR '' '' then skip_blanks k s else c # s)"
| "skip_blanks _ s = s"

definition try_copy :: "int \<Rightarrow> int \<Rightarrow> string \<Rightarrow> (int \<times> string) option" where
  "try_copy len lstrip token =
     (if int (length token) \<ge> INT32_MAX then None
      else
        let token = skip_blanks (nat lstrip) token in
        if len < int (length token) then Some (- int (length token), []) else Some (int (length token), token))"

text \<open>\<open>std::stoi(token_text.substr(3, 2), nullptr, 16)\<close> throws when there is no digit.\<close>

definition stoi16 :: "string \<Rightarrow> int option" where
  "stoi16 s = (if snd (strtol_scan s) = [] then None else Some (strtol16 s))"

definition token_to_piece :: "'s vocab_impl \<Rightarrow> int \<Rightarrow> int \<Rightarrow> int \<Rightarrow> bool \<Rightarrow> (int \<times> string) option" where
  "token_to_piece v token len lstrip special = do {
     attr \<leftarrow> token_get_attr v token;
     let attr_special = (has_attr attr ATTR_UNKNOWN \<or> has_attr attr ATTR_CONTROL);
     if \<not> special \<and> attr_special then Some (0, [])
     else if cache_token_to_piece v \<noteq> [] then do {
       result \<leftarrow> at (cache_token_to_piece v) (nat token);
       try_copy len lstrip result }
     else do {
       data \<leftarrow> get_token_data v token;
       let token_text = tok_text data;
       if vocab_type v = VOCAB_WPM \<or> vocab_type v = VOCAB_SPM \<or> vocab_type v = VOCAB_UGM then
         (if attr_special \<or> has_attr attr ATTR_USER_DEFINED then try_copy len lstrip token_text
          else if has_attr attr ATTR_NORMAL then try_copy len lstrip (llama_unescape_whitespace token_text)
          else if has_attr attr ATTR_BYTE then do {
            byte \<leftarrow> token_to_byte v token;
            try_copy len lstrip [chr_of byte] }
          else Some (0, []))
       else if vocab_type v = VOCAB_BPE then
         (if attr_special \<or> has_attr attr ATTR_USER_DEFINED then try_copy len lstrip token_text
          else if has_attr attr ATTR_NORMAL then do {
            result \<leftarrow> llama_decode_text token_text;
            try_copy len lstrip result }
          else Some (0, []))
       else if vocab_type v = VOCAB_RWKV then
         (let result = llama_unescape_rwkv_token token_text in
          if 0 \<le> len \<and> int (length result) > len then Some (- int (length result), []) else Some (int (length result), result))
       else if vocab_type v = VOCAB_PLAMO2 then
         (if has_attr attr ATTR_BYTE \<and> length token_text = 6 \<and> take 3 token_text = ''<0x'' \<and> last token_text = CHR ''>'' then do {
            hex_val \<leftarrow> stoi16 (take 2 (drop 3 token_text));
            if len < 1 then Some (-1, []) else Some (1, [chr_of (hex_val mod 256)]) }
          else try_copy len lstrip token_text)
       else None } }"


section \<open>Detokenization\<close>

text \<open>
  The loop over the tokens.  The buffer holds what has been written so far; \<open>avail\<close> is the room behind it and \<open>total\<close> the
  number of bytes needed.
\<close>

record detok_state =
  dt_buf :: string
  dt_avail :: int
  dt_total :: int
  dt_remove_space :: bool

definition detok_token :: "'s vocab_impl \<Rightarrow> bool \<Rightarrow> int \<Rightarrow> detok_state \<Rightarrow> detok_state option" where
  "detok_token v unparse_special token st = do {
     ggml_assert (dt_avail st \<ge> 0);
     (n_chars, piece) \<leftarrow> token_to_piece v token (dt_avail st) (if dt_remove_space st then 1 else 0) unparse_special;
     let st = st\<lparr>dt_remove_space := False\<rparr>;
     if n_chars < 0 then do {
       total \<leftarrow> i32_sub (dt_total st) n_chars;
       Some (st\<lparr>dt_avail := 0, dt_total := total\<rparr>) }
     else if n_chars > 0 then do {
       avail \<leftarrow> i32_sub (dt_avail st) n_chars;
       total \<leftarrow> i32_add (dt_total st) n_chars;
       Some (st\<lparr>dt_buf := dt_buf st @ piece, dt_avail := avail, dt_total := total\<rparr>) }
     else Some st }"

text \<open>
  The three passes of \<open>clean_spaces\<close> move the text to the left inside the buffer; the state is the buffer and \<open>total\<close>.
\<close>

definition is_stop :: "char \<Rightarrow> bool" where
  "is_stop x \<longleftrightarrow> x = CHR ''?'' \<or> x = CHR ''!'' \<or> x = CHR ''.'' \<or> x = CHR '',''"

definition clean_pass1 :: "nat \<Rightarrow> string \<times> nat \<Rightarrow> string \<times> nat" where
  "clean_pass1 i = (\<lambda>(text, total).
     let x = text ! i; total = (if text ! (i - 1) = CHR '' '' \<and> is_stop x then total - 1 else total) in (text[total := x], total + 1))"

function clean_pass2 :: "nat \<Rightarrow> nat \<Rightarrow> string \<times> nat \<Rightarrow> string \<times> nat" where
  "clean_pass2 total2 i st =
     (if i < total2 then
        let (text, total) = st; x = text ! i in
        if ub x = 39 \<and> i + 1 < total2 \<and> text ! (i - 1) = CHR '' '' \<and> text ! (i + 1) = CHR '' '' then
          clean_pass2 total2 (i + 2) (text[i + 1 := CHR 0x00, total - 1 := x], total - 1 + 1)
        else clean_pass2 total2 (i + 1) (text[total := x], total + 1)
      else st)"
  by pat_completeness auto
termination by (relation "measure (\<lambda>(total2, i, st). total2 - i)") auto

declare clean_pass2.simps [simp del]

definition clean_pass3 :: "nat \<Rightarrow> nat \<Rightarrow> string \<times> nat \<Rightarrow> string \<times> nat" where
  "clean_pass3 total3 i = (\<lambda>(text, total).
     let x = text ! i;
         drop_space =
           (text ! (i - 1) = CHR '' '' \<and> ub x = 39 \<and> i + 1 < total3 \<and>
            (let x1 = text ! (i + 1) in
             if x1 = CHR ''t'' \<or> x1 = CHR ''d'' then False
             else if x1 = CHR ''s'' \<or> x1 = CHR ''m'' then True
             else if i + 2 < total3 then
               (let x2 = text ! (i + 2) in
                if x1 = CHR ''l'' \<and> x2 = CHR ''l'' then False
                else x1 = CHR ''r'' \<and> x2 = CHR ''e'' \<or> x1 = CHR ''v'' \<and> x2 = CHR ''e'')
             else False));
         total = (if drop_space then total - 1 else total)
     in (text[total := x], total + 1))"

definition clean_up :: "string \<Rightarrow> nat \<Rightarrow> string \<times> nat" where
  "clean_up text total1 =
     (let (text, total) = fold clean_pass1 [1..<total1] (text, if total1 > 0 then 1 else 0);
          total2 = total;
          (text, total) = clean_pass2 total2 1 (text, if total2 > 0 then 1 else 0);
          total3 = total
      in fold (clean_pass3 total3) [1..<total3] (text, if total3 > 0 then 1 else 0))"

text \<open>The result is the returned value and the contents of the buffer.\<close>

definition detokenize :: "'s vocab_impl \<Rightarrow> int list \<Rightarrow> int \<Rightarrow> bool \<Rightarrow> bool \<Rightarrow> (int \<times> string) option" where
  "detokenize v tokens text_len_max remove_special unparse_special =
     (if vocab_type v = VOCAB_NONE then Some (0, [])
      else
        let strip_bos = (remove_special \<and> add_bos v \<and> tokens \<noteq> [] \<and> hd tokens = special_bos_id v);
            remove_space = (if strip_bos then False else add_space_prefix v);
            tokens = (if strip_bos then tl tokens else tokens);
            tokens = (if remove_special \<and> add_eos v \<and> tokens \<noteq> [] \<and> last tokens = special_eos_id v then butlast tokens else tokens) in do {
        st \<leftarrow> for_each (detok_token v unparse_special) tokens \<lparr>dt_buf = [], dt_avail = text_len_max, dt_total = 0, dt_remove_space = remove_space\<rparr>;
        if dt_total st > text_len_max then Some (- dt_total st, dt_buf st)
        else if clean_spaces v then
          let (text, total) = clean_up (dt_buf st) (nat (dt_total st)) in
          Some (if int total \<le> text_len_max then int total else - int total, text)
        else Some (if dt_total st \<le> text_len_max then dt_total st else - dt_total st, dt_buf st) })"


section \<open>Pieces and buffers\<close>

text \<open>What a call with a buffer of \<open>len\<close> bytes makes of a piece.\<close>

definition fit :: "int \<Rightarrow> string \<Rightarrow> int \<times> string" where
  "fit len p = (if len < int (length p) then (- int (length p), []) else (int (length p), p))"

lemma try_copy_fit: "(\<forall>len. try_copy len lstrip s = None) \<or> (\<exists>p. \<forall>len. try_copy len lstrip s = Some (fit len p))"
  by (auto simp: try_copy_def fit_def Let_def)

text \<open>A call fails for every size of the buffer, or it has a piece and copies it when there is room.\<close>

definition piece_shape :: "(int \<Rightarrow> (int \<times> string) option) \<Rightarrow> bool" where
  "piece_shape f \<longleftrightarrow> (\<forall>len\<ge>0. f len = None) \<or> (\<exists>p. \<forall>len\<ge>0. f len = Some (fit len p))"

lemma piece_shape_try_copy: "piece_shape (\<lambda>len. try_copy len lstrip s)"
  using try_copy_fit [of lstrip s] by (auto simp: piece_shape_def)

lemma piece_shape_None: "piece_shape (\<lambda>len. None)"
  by (simp add: piece_shape_def)

lemma piece_shape_empty: "piece_shape (\<lambda>len. Some (0, []))"
  by (auto simp: piece_shape_def fit_def intro: exI [of _ "[]"])

lemma piece_shape_if: "piece_shape f \<Longrightarrow> piece_shape g \<Longrightarrow> piece_shape (\<lambda>len. if b then f len else g len)"
  by (cases b) simp_all

lemma piece_shape_bind: "(\<And>x. piece_shape (\<lambda>len. f x len)) \<Longrightarrow> piece_shape (\<lambda>len. Option.bind m (\<lambda>x. f x len))"
  by (cases m) (simp_all add: piece_shape_def)

lemma piece_shape_copy: "piece_shape (\<lambda>len. if 0 \<le> len \<and> len < int (length p) then Some (- int (length p), []) else Some (int (length p), p))"
  unfolding piece_shape_def by (rule disjI2, rule exI [of _ p]) (simp add: fit_def)

lemma piece_shape_byte: "piece_shape (\<lambda>len. if len < 1 then Some (-1, []) else Some (1, [c]))"
  unfolding piece_shape_def by (rule disjI2, rule exI [of _ "[c]"]) (simp add: fit_def)

lemma token_to_piece_shape: "piece_shape (\<lambda>len. token_to_piece v token len lstrip special)"
  unfolding token_to_piece_def Let_def
  by (intro piece_shape_bind piece_shape_if piece_shape_try_copy piece_shape_None piece_shape_empty piece_shape_copy piece_shape_byte)

text \<open>The piece of a token, found by asking for its size first.\<close>

definition piece_of :: "'s vocab_impl \<Rightarrow> int \<Rightarrow> int \<Rightarrow> bool \<Rightarrow> string option" where
  "piece_of v token lstrip special = do {
     (n, _) \<leftarrow> token_to_piece v token 0 lstrip special;
     map_option snd (token_to_piece v token (- n) lstrip special) }"

lemma token_to_piece_fit:
  assumes "0 \<le> len"
  shows "token_to_piece v token len lstrip special = map_option (fit len) (piece_of v token lstrip special)"
  using token_to_piece_shape [of v token lstrip special] unfolding piece_shape_def
proof (elim disjE exE)
  assume "\<forall>len\<ge>0. token_to_piece v token len lstrip special = None"
  then show ?thesis using assms by (simp add: piece_of_def)
next
  fix p assume p: "\<forall>len\<ge>0. token_to_piece v token len lstrip special = Some (fit len p)"
  have "piece_of v token lstrip special = Some p" unfolding piece_of_def using p by (cases p) (simp_all add: fit_def)
  then show ?thesis using p assms by simp
qed

text \<open>The pieces of a list of tokens; only the first one may lose a leading blank.\<close>

primrec pieces_of :: "'s vocab_impl \<Rightarrow> bool \<Rightarrow> bool \<Rightarrow> int list \<Rightarrow> string list option" where
  "pieces_of v special remove_space [] = Some []"
| "pieces_of v special remove_space (t # ts) = do {
     p \<leftarrow> piece_of v t (if remove_space then 1 else 0) special;
     ps \<leftarrow> pieces_of v special False ts;
     Some (p # ps) }"

definition detok_ok :: "int \<Rightarrow> detok_state \<Rightarrow> bool" where
  "detok_ok len st \<longleftrightarrow> 0 \<le> dt_avail st \<and> int (length (dt_buf st)) \<le> dt_total st \<and> int (length (dt_buf st)) + dt_avail st \<le> len \<and>
     (if dt_total st \<le> len then int (length (dt_buf st)) = dt_total st \<and> dt_avail st = len - dt_total st else dt_avail st = 0)"

lemma detok_tokens:
  assumes "pieces_of v special (dt_remove_space st) ts = Some ps" and "detok_ok len st" and "0 \<le> len" and "len \<le> INT32_MAX"
    and "dt_total st + int (length (concat ps)) \<le> INT32_MAX"
  shows "\<exists>st'. for_each (detok_token v special) ts st = Some st' \<and> detok_ok len st' \<and> dt_total st' = dt_total st + int (length (concat ps)) \<and>
    (dt_total st' \<le> len \<longrightarrow> dt_buf st' = dt_buf st @ concat ps)"
  using assms
proof (induction ts arbitrary: st ps)
  case (Cons t ts)
  obtain p qs where p: "piece_of v t (if dt_remove_space st then 1 else 0) special = Some p" "pieces_of v special False ts = Some qs" "ps = p # qs"
    using Cons.prems(1) by (auto split: bind_splits)
  have ok: "0 \<le> dt_avail st" "0 \<le> dt_total st" using Cons.prems(2) by (auto simp: detok_ok_def)
  let ?s = "if dt_avail st < int (length p) then st\<lparr>dt_remove_space := False, dt_avail := 0, dt_total := dt_total st + int (length p)\<rparr>
    else st\<lparr>dt_remove_space := False, dt_buf := dt_buf st @ p, dt_avail := dt_avail st - int (length p), dt_total := dt_total st + int (length p)\<rparr>"
  have bound: "dt_total st + int (length p) \<le> INT32_MAX" "dt_avail st \<le> INT32_MAX"
    using Cons.prems(2,4,5) p(3) by (auto simp: detok_ok_def)
  have tp: "token_to_piece v t (dt_avail st) (if dt_remove_space st then 1 else 0) special = Some (fit (dt_avail st) p)"
    unfolding token_to_piece_fit [OF ok(1)] p(1) by simp
  have "detok_token v special t st = Some ?s"
    unfolding detok_token_def tp using ok bound by (auto simp: fit_def i32_ok_def i32_add_def i32_sub_def INT32_MAX_def Let_def)
  moreover have "detok_ok len ?s" using Cons.prems(2) ok by (auto simp: detok_ok_def split: if_splits)
  moreover have "dt_total ?s + int (length (concat qs)) \<le> INT32_MAX" using Cons.prems(5) p(3) by simp
  moreover have "pieces_of v special (dt_remove_space ?s) ts = Some qs" using p(2) by simp
  ultimately obtain st' where st': "for_each (detok_token v special) ts ?s = Some st'" "detok_ok len st'"
    "dt_total st' = dt_total ?s + int (length (concat qs))" "dt_total st' \<le> len \<longrightarrow> dt_buf st' = dt_buf ?s @ concat qs"
    using Cons.IH [of ?s qs] Cons.prems(3,4) by blast
  have "dt_total st' \<le> len \<longrightarrow> dt_avail st \<ge> int (length p)" using st'(3) Cons.prems(2) by (auto simp: detok_ok_def split: if_splits)
  then show ?case using \<open>detok_token v special t st = Some ?s\<close> st' p(3) by auto
qed auto


lemma detokenize_call:
  assumes "vocab_type v \<noteq> VOCAB_NONE" and "\<not> clean_spaces v" and "0 \<le> len" and "len \<le> INT32_MAX"
    and "pieces_of v special (add_space_prefix v) tokens = Some ps" and "int (length (concat ps)) \<le> INT32_MAX"
  shows "(len < int (length (concat ps)) \<longrightarrow>
      (\<exists>buf. detokenize v tokens len False special = Some (- int (length (concat ps)), buf) \<and> int (length buf) \<le> len)) \<and>
    (int (length (concat ps)) \<le> len \<longrightarrow> detokenize v tokens len False special = Some (int (length (concat ps)), concat ps))"
proof -
  let ?st = "\<lparr>dt_buf = [], dt_avail = len, dt_total = 0, dt_remove_space = add_space_prefix v\<rparr>"
  have "detok_ok len ?st" using assms(3) by (simp add: detok_ok_def)
  then obtain st' where "for_each (detok_token v special) tokens ?st = Some st'" "detok_ok len st'" "dt_total st' = int (length (concat ps))"
    "int (length (concat ps)) \<le> len \<longrightarrow> dt_buf st' = concat ps"
    using detok_tokens [of v special ?st tokens ps len] assms by auto
  then show ?thesis using assms(1,2) by (auto simp: detokenize_def detok_ok_def Let_def)
qed


definition tiny_vocab :: "nat vocab_impl" where
  "tiny_vocab =
     \<lparr>vocab_type = VOCAB_SPM, token_to_id = map_of [(''ab'', 0)], id_to_token = [\<lparr>tok_text = ''ab'', tok_score = 0, tok_attr = 4\<rparr>],
      bpe_ranks = Map.empty, add_space_prefix = False, add_bos = False, add_eos = False, ignore_merges = False, clean_spaces = False,
      cache_token_to_piece = [], special_bos_id = -1, special_eos_id = -1, special_unk_id = -1, special_sep_id = -1, cache_special_tokens = []\<rparr>"


end
