(* ===== verification/Vocab_RWKV.thy ===== *)
theory Vocab_RWKV
  imports Vocab_Piece "HOL-Library.Sublist"
begin

text \<open>
  The tries of \<open>src/src/llama-vocab.cpp\<close> (\<open>naive_trie\<close>) and the RWKV tokenizer on them (\<open>llm_tokenizer_rwkv\<close>,
  \<open>llm_tokenizer_rwkv_session\<close>), which takes the longest token at every position.
\<close>

section \<open>Tries\<close>

datatype naive_trie = Naive_trie (children: "char \<rightharpoonup> naive_trie") (has_value: bool) (trie_value: int)

definition empty_trie :: naive_trie where
  "empty_trie = Naive_trie Map.empty False 0"

fun trie_insert :: "string \<Rightarrow> int \<Rightarrow> naive_trie \<Rightarrow> naive_trie" where
  "trie_insert [] value t = Naive_trie (children t) True value"
| "trie_insert (c # key) value t =
     Naive_trie ((children t)(c \<mapsto> trie_insert key value (case children t c of Some res \<Rightarrow> res | None \<Rightarrow> empty_trie))) (has_value t) (trie_value t)"

text \<open>The length of the longest prefix of \<open>key\<close> that leads to a node; the pointer that the code returns with it is \<open>key\<close>.
  The offset starts at 0 and grows by one, so that it never exceeds \<open>len\<close>.\<close>

function get_longest_prefix :: "naive_trie \<Rightarrow> string \<Rightarrow> nat \<Rightarrow> nat \<Rightarrow> nat" where
  "get_longest_prefix t key len offset =
     (if len = 0 \<or> offset \<ge> len then offset
      else case children t (key ! offset) of Some res \<Rightarrow> get_longest_prefix res key len (offset + 1) | None \<Rightarrow> offset)"
  by pat_completeness auto
termination
  by (relation "measure (\<lambda>(t, key, len, offset). len - offset)") auto

declare get_longest_prefix.simps [simp del]

definition traverse :: "naive_trie \<Rightarrow> char \<Rightarrow> naive_trie option" where
  "traverse t c = children t c"

section \<open>The tokenizer\<close>

definition token_matcher :: "'s vocab_impl \<Rightarrow> naive_trie" where
  "token_matcher v =
     fold (\<lambda>id. trie_insert (llama_unescape_rwkv_token (tok_text (id_to_token v ! id))) (int id)) [0..<n_tokens v] empty_trie"

text \<open>\<open>text[pos]\<close> of a \<open>std::string\<close>: a NUL at the end, undefined behind it.\<close>

definition string_at :: "string \<Rightarrow> nat \<Rightarrow> char option" where
  "string_at text pos = (if pos < length text then Some (text ! pos) else if pos = length text then Some (CHR 0x00) else None)"

text \<open>The inner loop, from a node that is not null; the result is \<open>token_id\<close> and \<open>token_length\<close>.\<close>

function rwkv_match :: "string \<Rightarrow> naive_trie \<Rightarrow> nat \<Rightarrow> int \<Rightarrow> nat \<Rightarrow> (int \<times> nat) option" where
  "rwkv_match text node position token_id token_length =
     (let (token_id, token_length) = (if has_value node then (trie_value node, position + 1) else (token_id, token_length)) in
      if position + 1 \<le> length text then
        (case traverse node (the (string_at text (position + 1))) of
           Some node \<Rightarrow> rwkv_match text node (position + 1) token_id token_length
         | None \<Rightarrow> Some (token_id, token_length))
      else None)"
  by pat_completeness auto
termination
  by (relation "measure (\<lambda>(text, node, position, token_id, token_length). Suc (length text) - position)") auto

declare rwkv_match.simps [simp del]

partial_function (option) rwkv_loop :: "'s vocab_impl \<Rightarrow> naive_trie \<Rightarrow> string \<Rightarrow> nat \<Rightarrow> int list \<Rightarrow> int list option" where
  "rwkv_loop v matcher text position output =
     (if position < length text then
        (case traverse matcher (text ! position) of
           None \<Rightarrow> rwkv_loop v matcher text (position + 1) (output @ [special_unk_id v])
         | Some node \<Rightarrow> do {
             p \<leftarrow> rwkv_match text node position 0 0;
             rwkv_loop v matcher text (snd p) (output @ [fst p]) })
      else Some output)"

declare rwkv_loop.simps [code]

definition rwkv_tokenize :: "'s vocab_impl \<Rightarrow> string \<Rightarrow> int list \<Rightarrow> int list option" where
  "rwkv_tokenize v text output = rwkv_loop v (token_matcher v) text 0 output"

section \<open>What a trie holds\<close>

fun trie_node :: "naive_trie \<Rightarrow> string \<Rightarrow> naive_trie option" where
  "trie_node t [] = Some t"
| "trie_node t (c # key) = (case children t c of Some t' \<Rightarrow> trie_node t' key | None \<Rightarrow> None)"

definition trie_lookup :: "naive_trie \<Rightarrow> string \<Rightarrow> int option" where
  "trie_lookup t key = (case trie_node t key of Some n \<Rightarrow> if has_value n then Some (trie_value n) else None | None \<Rightarrow> None)"

lemma trie_lookup_Cons: "trie_lookup t (c # key) = (case children t c of Some t' \<Rightarrow> trie_lookup t' key | None \<Rightarrow> None)"
  by (simp add: trie_lookup_def split: option.splits)

lemma empty_trie_node: "trie_node empty_trie key = (if key = [] then Some empty_trie else None)"
  by (cases key) (simp_all add: empty_trie_def)

lemma trie_lookup_empty [simp]: "trie_lookup empty_trie key = None"
  by (simp add: trie_lookup_def empty_trie_node) (simp add: empty_trie_def)

lemma trie_lookup_insert: "trie_lookup (trie_insert key value t) k = (if k = key then Some value else trie_lookup t k)"
proof (induction key arbitrary: t k)
  case Nil
  then show ?case by (cases k) (simp_all add: trie_lookup_def)
next
  case (Cons c key)
  show ?case
  proof (cases k)
    case Nil
    then show ?thesis by (simp add: trie_lookup_def)
  next
    case (Cons d k')
    then show ?thesis using Cons.IH by (simp add: trie_lookup_Cons split: option.splits)
  qed
qed

lemma trie_node_insert: "trie_node (trie_insert key value t) k \<noteq> None \<longleftrightarrow> trie_node t k \<noteq> None \<or> prefix k key"
proof (induction key arbitrary: t k)
  case Nil
  then show ?case by (cases k) simp_all
next
  case (Cons c key)
  show ?case
  proof (cases k)
    case (Cons d k')
    then show ?thesis using Cons.IH [of empty_trie k'] Cons.IH [of "the (children t c)" k'] empty_trie_node [of k'] by (auto split: option.splits)
  qed simp
qed

text \<open>The longest prefix that leads to a node is found from every node on the way.\<close>

lemma trie_node_append: "trie_node t (a @ b) = (case trie_node t a of Some n \<Rightarrow> trie_node n b | None \<Rightarrow> None)"
  by (induction a arbitrary: t) (simp_all split: option.splits)

lemma trie_node_take: "trie_node t k \<noteq> None \<Longrightarrow> trie_node t (take n k) \<noteq> None"
  using trie_node_append [of t "take n k" "drop n k"] by (auto split: option.splits)

lemma get_longest_prefix_spec:
  assumes "offset \<le> length key" and "trie_node t (take offset key) = Some n" and "m = get_longest_prefix n key (length key) offset"
  shows "offset \<le> m \<and> m \<le> length key \<and> trie_node t (take m key) \<noteq> None \<and> (m < length key \<longrightarrow> trie_node t (take (Suc m) key) = None)"
  using assms
proof (induction "length key - offset" arbitrary: offset n)
  case 0
  then show ?case by (subst (asm) get_longest_prefix.simps) auto
next
  case (Suc k)
  then have o: "offset < length key" by simp
  have nxt: "trie_node t (take (Suc offset) key) = children n (key ! offset)"
    using Suc.prems(2) o trie_node_append [of t "take offset key" "[key ! offset]"] by (simp add: take_Suc_conv_app_nth split: option.splits)
  show ?case
  proof (cases "children n (key ! offset)")
    case None
    then have "m = offset" using Suc.prems(3) o by (subst (asm) get_longest_prefix.simps) auto
    then show ?thesis using Suc.prems(2) nxt None o by simp
  next
    case (Some n')
    then have "m = get_longest_prefix n' key (length key) (Suc offset)" using Suc.prems(3) o by (subst (asm) get_longest_prefix.simps) auto
    then show ?thesis using Suc.hyps(1) [of "Suc offset" n'] Suc.hyps(2) o nxt Some by (metis Suc_leD Suc_diff_Suc Suc_leI nat.inject)
  qed
qed

section \<open>The longest token\<close>

definition rwkv_text :: "'s vocab_impl \<Rightarrow> nat \<Rightarrow> string" where
  "rwkv_text v i = llama_unescape_rwkv_token (tok_text (id_to_token v ! i))"

text \<open>The token with a given text: the last one, if several have it.\<close>

definition rwkv_token :: "'s vocab_impl \<Rightarrow> string \<Rightarrow> nat option" where
  "rwkv_token v s = List.find (\<lambda>i. rwkv_text v i = s) (rev [0..<n_tokens v])"

definition matcher_upto :: "'s vocab_impl \<Rightarrow> nat \<Rightarrow> naive_trie" where
  "matcher_upto v n = fold (\<lambda>i. trie_insert (rwkv_text v i) (int i)) [0..<n] empty_trie"

lemma matcher_upto_0: "matcher_upto v 0 = empty_trie"
  by (simp add: matcher_upto_def)

lemma matcher_upto_Suc: "matcher_upto v (Suc n) = trie_insert (rwkv_text v n) (int n) (matcher_upto v n)"
  by (simp add: matcher_upto_def)

lemma matcher_eq: "token_matcher v = matcher_upto v (n_tokens v)"
  by (simp add: token_matcher_def matcher_upto_def rwkv_text_def)

lemma matcher_lookup: "trie_lookup (token_matcher v) s = map_option int (rwkv_token v s)"
proof -
  have "trie_lookup (matcher_upto v n) s = map_option int (List.find (\<lambda>i. rwkv_text v i = s) (rev [0..<n]))" for n
    by (induction n) (simp_all add: matcher_upto_0 matcher_upto_Suc trie_lookup_insert)
  then show ?thesis by (simp add: matcher_eq rwkv_token_def)
qed

lemma matcher_node: "trie_node (token_matcher v) s \<noteq> None \<longleftrightarrow> s = [] \<or> (\<exists>i<n_tokens v. prefix s (rwkv_text v i))"
proof -
  have "trie_node (matcher_upto v n) s \<noteq> None \<longleftrightarrow> s = [] \<or> (\<exists>i<n. prefix s (rwkv_text v i))" for n
  proof (induction n)
    case 0
    then show ?case by (simp add: matcher_upto_0 empty_trie_node)
  next
    case (Suc n)
    then show ?case unfolding matcher_upto_Suc trie_node_insert using less_Suc_eq by blast
  qed
  then show ?thesis by (simp add: matcher_eq)
qed

lemma matcher_value:
  assumes "trie_node (token_matcher v) s = Some node"
  shows "has_value node \<longleftrightarrow> rwkv_token v s \<noteq> None" "has_value node \<Longrightarrow> trie_value node = int (the (rwkv_token v s))"
  using matcher_lookup [of v s] assms by (cases "rwkv_token v s"; auto simp: trie_lookup_def split: if_splits)+

lemma rwkv_token_text: "rwkv_token v s = Some i \<Longrightarrow> i < n_tokens v \<and> rwkv_text v i = s"
  by (auto simp: rwkv_token_def find_Some_iff rev_nth)

lemma rwkv_token_None: "rwkv_token v s = None \<longleftrightarrow> (\<forall>i<n_tokens v. rwkv_text v i \<noteq> s)"
  by (auto simp: rwkv_token_def find_None_iff)

text \<open>The lengths of the tokens at the start of \<open>s\<close>, from \<open>d\<close> on.\<close>

definition match_lengths :: "'s vocab_impl \<Rightarrow> string \<Rightarrow> nat \<Rightarrow> nat list" where
  "match_lengths v s d = filter (\<lambda>n. rwkv_token v (take n s) \<noteq> None) [d..<Suc (length s)]"

text \<open>No token continues behind a NUL, which stands at the end of every \<open>std::string\<close>.\<close>

definition nul_free :: "'s vocab_impl \<Rightarrow> bool" where
  "nul_free v \<longleftrightarrow> (\<forall>i<n_tokens v. CHR 0x00 \<notin> set (tl (rwkv_text v i)))"

lemma nul_free_node:
  assumes "nul_free v" and "s \<noteq> []"
  shows "trie_node (token_matcher v) (s @ [CHR 0x00]) = None"
proof (rule ccontr)
  assume "trie_node (token_matcher v) (s @ [CHR 0x00]) \<noteq> None"
  then obtain i where i: "i < n_tokens v" "prefix (s @ [CHR 0x00]) (rwkv_text v i)" using matcher_node [of v "s @ [CHR 0x00]"] by auto
  then obtain z where "rwkv_text v i = s @ [CHR 0x00] @ z" by (auto simp: prefix_def)
  then have "CHR 0x00 \<in> set (tl (rwkv_text v i))" using assms(2) by simp
  then show False using assms(1) i(1) by (simp add: nul_free_def)
qed

lemma rwkv_match_longest:
  assumes "nul_free v" and "s = drop start text" and "1 \<le> d" and "d \<le> length s" and "trie_node (token_matcher v) (take d s) = Some node"
  shows "rwkv_match text node (start + d - 1) token_id token_length =
    Some (if match_lengths v s d = [] then (token_id, token_length)
          else (int (the (rwkv_token v (take (last (match_lengths v s d)) s))), start + last (match_lengths v s d)))"
  using assms(3-)
proof (induction "length s - d" arbitrary: d node token_id token_length)
  case 0
  then have d: "d = length s" by simp
  have v: "has_value node \<longleftrightarrow> rwkv_token v s \<noteq> None" "has_value node \<Longrightarrow> trie_value node = int (the (rwkv_token v s))"
    using matcher_value [of v s node] 0(4) d by simp_all
  have len: "start + d = length text" using assms(2) 0(2) d by auto
  have "trie_node (token_matcher v) (s @ [CHR 0x00]) = None" using nul_free_node [OF assms(1), of s] 0(2) d by force
  then have "traverse node (CHR 0x00) = None" using 0(4) d trie_node_append [of "token_matcher v" s "[CHR 0x00]"]
    by (simp add: traverse_def split: option.splits)
  moreover have p: "start + d - 1 + 1 = length text" using len 0(2) by simp
  moreover have "string_at text (length text) = Some (CHR 0x00)" by (simp add: string_at_def)
  moreover have "match_lengths v s d = (if has_value node then [length s] else [])" using v d by (simp add: match_lengths_def)
  ultimately show ?case using v d len by (subst rwkv_match.simps) (simp add: Let_def del: One_nat_def)
next
  case (Suc k)
  then have d: "d < length s" by simp
  have v: "has_value node \<longleftrightarrow> rwkv_token v (take d s) \<noteq> None" "has_value node \<Longrightarrow> trie_value node = int (the (rwkv_token v (take d s)))"
    using matcher_value [OF Suc.prems(3)] by simp_all
  let ?i = "if has_value node then trie_value node else token_id" and ?len = "if has_value node then start + d else token_length"
  have split: "match_lengths v s d = (if has_value node then [d] else []) @ match_lengths v s (Suc d)"
    using v(1) d by (simp add: match_lengths_def upt_conv_Cons)
  have c: "string_at text (start + d) = Some (s ! d)" "start + d \<le> length text" using assms(2) d by (auto simp: string_at_def)
  have step: "rwkv_match text node (start + d - 1) token_id token_length =
    (case children node (s ! d) of Some n \<Rightarrow> rwkv_match text n (start + d) ?i ?len | None \<Rightarrow> Some (?i, ?len))"
  proof -
    have p: "start + d - 1 + 1 = start + d" using Suc.prems(1) by simp
    show ?thesis using c by (subst rwkv_match.simps) (simp only: p traverse_def Let_def split: option.splits prod.splits if_splits, auto)
  qed
  have nxt: "trie_node (token_matcher v) (take (Suc d) s) = children node (s ! d)"
    using Suc.prems(3) d trie_node_append [of "token_matcher v" "take d s" "[s ! d]"]
    by (simp add: take_Suc_conv_app_nth split: option.splits)
  show ?case
  proof (cases "children node (s ! d)")
    case None
    have "match_lengths v s (Suc d) = []"
    proof -
      have "rwkv_token v (take n s) = None" if "Suc d \<le> n" "n \<le> length s" for n
      proof (rule ccontr)
        assume "rwkv_token v (take n s) \<noteq> None"
        then have "trie_node (token_matcher v) (take n s) \<noteq> None"
          using matcher_lookup [of v "take n s"] by (auto simp: trie_lookup_def split: option.splits)
        from trie_node_take [OF this, of "Suc d"] show False using nxt None that by (simp add: min_absorb1)
      qed
      then show ?thesis by (auto simp: match_lengths_def filter_empty_conv)
    qed
    then show ?thesis using step None split v(2) by auto
  next
    case (Some n)
    have "rwkv_match text n (start + d) ?i ?len = Some (if match_lengths v s (Suc d) = [] then (?i, ?len)
       else (int (the (rwkv_token v (take (last (match_lengths v s (Suc d))) s))), start + last (match_lengths v s (Suc d))))"
      using Suc.hyps(1) [of "Suc d" n ?i ?len] Suc.hyps(2) d nxt Some by simp
    then show ?thesis using step Some split v(2) by auto
  qed
qed

text \<open>The reference algorithm: the longest token, or the unknown token for one byte.\<close>

function longest_tokens :: "'s vocab_impl \<Rightarrow> string \<Rightarrow> int list" where
  "longest_tokens v s =
     (if s = [] then []
      else case match_lengths v s 1 of
          [] \<Rightarrow> special_unk_id v # longest_tokens v (tl s)
        | ns \<Rightarrow> int (the (rwkv_token v (take (last ns) s))) # longest_tokens v (drop (last ns) s))"
  by pat_completeness auto

lemma match_lengths_last: "match_lengths v s 1 \<noteq> [] \<Longrightarrow> 1 \<le> last (match_lengths v s 1) \<and> last (match_lengths v s 1) \<le> length s \<and>
    rwkv_token v (take (last (match_lengths v s 1)) s) \<noteq> None"
proof -
  assume "match_lengths v s 1 \<noteq> []"
  from last_in_set [OF this] show ?thesis unfolding match_lengths_def set_filter by (auto simp del: upt_Suc)
qed

termination longest_tokens
proof (relation "measure (\<lambda>(v, s). length s)")
  fix v :: "'s vocab_impl" and s n ns
  assume "s \<noteq> []" "match_lengths v s 1 = n # ns"
  then show "((v, drop (last (n # ns)) s), v, s) \<in> measure (\<lambda>(v, s). length s)" using match_lengths_last [of v s] by auto
qed auto

declare longest_tokens.simps [simp del]

text \<open>A byte that starts a token is a token.\<close>

definition head_closed :: "'s vocab_impl \<Rightarrow> bool" where
  "head_closed v \<longleftrightarrow> (\<forall>i<n_tokens v. rwkv_text v i \<noteq> [] \<longrightarrow> rwkv_token v [hd (rwkv_text v i)] \<noteq> None)"

lemma rwkv_step:
  assumes "nul_free v" and "pos < length text" and "s = drop pos text"
  shows "rwkv_loop v (token_matcher v) text pos out =
    (if trie_node (token_matcher v) [hd s] = None then rwkv_loop v (token_matcher v) text (pos + 1) (out @ [special_unk_id v])
     else if match_lengths v s 1 = [] then rwkv_loop v (token_matcher v) text 0 (out @ [0])
     else rwkv_loop v (token_matcher v) text (pos + last (match_lengths v s 1)) (out @ [int (the (rwkv_token v (take (last (match_lengths v s 1)) s)))]))"
proof -
  have hd: "hd s = text ! pos" "s \<noteq> []" using assms(2,3) by (auto simp: hd_drop_conv_nth)
  then have "take 1 s = [hd s]" by (cases s) auto
  then have "rwkv_match text node pos 0 0 = Some (if match_lengths v s 1 = [] then (0, 0)
      else (int (the (rwkv_token v (take (last (match_lengths v s 1)) s))), pos + last (match_lengths v s 1)))"
    if "trie_node (token_matcher v) [hd s] = Some node" for node
    using rwkv_match_longest [OF assms(1,3), of 1 node 0 0] that hd(2) by (cases s) simp_all
  moreover have "trie_node (token_matcher v) [hd s] = traverse (token_matcher v) (text ! pos)"
    using hd(1) by (simp add: traverse_def split: option.splits)
  ultimately show ?thesis using assms(2) by (subst rwkv_loop.simps) (auto split: option.splits)
qed

lemma rwkv_loop_longest:
  assumes "nul_free v" and "head_closed v" and "pos \<le> length text"
  shows "rwkv_loop v (token_matcher v) text pos out = Some (out @ longest_tokens v (drop pos text))"
  using assms(3)
proof (induction "length text - pos" arbitrary: pos out rule: less_induct)
  case less
  let ?s = "drop pos text"
  show ?case
  proof (cases "pos < length text")
    case False
    then show ?thesis using less.prems by (subst rwkv_loop.simps) (simp add: longest_tokens.simps)
  next
    case True
    then have s: "?s \<noteq> []" "tl ?s = drop (pos + 1) text" by (simp_all add: drop_Suc tl_drop)
    note step = rwkv_step [OF assms(1) True refl, of out]
    show ?thesis
    proof (cases "match_lengths v ?s 1 = []")
      case none: True
      have "trie_node (token_matcher v) [hd ?s] = None"
      proof (rule ccontr)
        assume "trie_node (token_matcher v) [hd ?s] \<noteq> None"
        then obtain i where i: "i < n_tokens v" "prefix [hd ?s] (rwkv_text v i)" using matcher_node [of v "[hd ?s]"] by auto
        then have "rwkv_text v i \<noteq> []" "hd (rwkv_text v i) = hd ?s" by (auto simp: prefix_def)
        then have "rwkv_token v [hd ?s] \<noteq> None" using assms(2) i(1) unfolding head_closed_def by metis
        moreover have "[hd ?s] = take 1 ?s" using s(1) by (cases ?s) auto
        ultimately have "1 \<in> set (match_lengths v ?s 1)" using True by (auto simp: match_lengths_def Suc_le_eq simp del: upt_Suc)
        then show False using none by simp
      qed
      then have "rwkv_loop v (token_matcher v) text pos out = rwkv_loop v (token_matcher v) text (pos + 1) (out @ [special_unk_id v])" using step by simp
      also have "\<dots> = Some (out @ special_unk_id v # longest_tokens v (drop (pos + 1) text))" using less.hyps [of "pos + 1"] True by simp
      finally show ?thesis using none s by (subst longest_tokens.simps) simp
    next
      case some: False
      let ?n = "last (match_lengths v ?s 1)"
      have n: "1 \<le> ?n" "?n \<le> length ?s" "rwkv_token v (take ?n ?s) \<noteq> None" using match_lengths_last [OF some] by auto
      have "trie_node (token_matcher v) [hd ?s] \<noteq> None"
      proof -
        obtain i where "i < n_tokens v" "rwkv_text v i = take ?n ?s" using n(3) rwkv_token_text by fastforce
        moreover have "prefix [hd ?s] (take ?n ?s)" using n(1) s(1) by (cases ?s; cases ?n) auto
        ultimately show ?thesis using matcher_node [of v "[hd ?s]"] by auto
      qed
      then have "rwkv_loop v (token_matcher v) text pos out = rwkv_loop v (token_matcher v) text (pos + ?n) (out @ [int (the (rwkv_token v (take ?n ?s)))])"
        using step some by (auto simp del: trie_node.simps One_nat_def)
      also have "\<dots> = Some (out @ int (the (rwkv_token v (take ?n ?s))) # longest_tokens v (drop (pos + ?n) text))"
        using less.hyps [of "pos + ?n"] n True by simp
      finally show ?thesis using some s by (subst longest_tokens.simps) (auto simp: add.commute split: list.splits)
    qed
  qed
qed

text \<open>
  The RWKV session returns, with the longest token at every position, or the unknown token where no token starts, if every
  byte that starts a token is a token by itself and no token continues behind a NUL.
\<close>

theorem rwkv_tokenize_longest:
  assumes "nul_free v" and "head_closed v"
  shows "rwkv_tokenize v text out = Some (out @ longest_tokens v text)"
  using rwkv_loop_longest [OF assms, of 0 "text" out] by (simp add: rwkv_tokenize_def)

definition rwkv_vocab :: "string list \<Rightarrow> nat vocab_impl" where
  "rwkv_vocab texts =
     \<lparr>vocab_type = VOCAB_RWKV, token_to_id = Map.empty, id_to_token = map (\<lambda>t. \<lparr>tok_text = t, tok_score = 0, tok_attr = ATTR_NORMAL\<rparr>) texts,
      bpe_ranks = Map.empty, add_space_prefix = False, add_bos = False, add_eos = False, ignore_merges = False, clean_spaces = False,
      cache_token_to_piece = [], special_bos_id = -1, special_eos_id = -1, special_unk_id = 7, special_sep_id = -1, cache_special_tokens = []\<rparr>"

lemma rwkv_vocab_simps [simp]: "n_tokens (rwkv_vocab texts) = length texts"
  "i < length texts \<Longrightarrow> rwkv_text (rwkv_vocab texts) i = llama_unescape_rwkv_token (texts ! i)"
  by (simp_all add: rwkv_vocab_def n_tokens_def rwkv_text_def)

theorem rwkv_tokenize_longest_witness:
  "rwkv_tokenize (rwkv_vocab [''a'', ''b'', ''aba'', ''bc'']) ''ababcx'' [] = Some [2, 3, 7]"
proof -
  let ?v = "rwkv_vocab [''a'', ''b'', ''aba'', ''bc'']"
  have "nul_free ?v" "head_closed ?v" by code_simp+
  from rwkv_tokenize_longest [OF this, of "''ababcx''" "[]"]
  have "rwkv_tokenize ?v ''ababcx'' [] = Some (longest_tokens ?v ''ababcx'')" by simp
  also have "\<dots> = Some [2, 3, 7]" by code_simp
  finally show ?thesis .
qed

section \<open>Round trip\<close>

lemma longest_tokens_pieces:
  assumes "vocab_type v = VOCAB_RWKV" and "cache_token_to_piece v = []" and "\<forall>t\<in>set (id_to_token v). tok_attr t = ATTR_NORMAL" and "\<forall>c. rwkv_token v [c] \<noteq> None"
  shows "\<exists>ps. pieces_of v special remove_space (longest_tokens v s) = Some ps \<and> concat ps = s"
proof (induction s arbitrary: remove_space rule: length_induct)
  case (1 s)
  show ?case
  proof (cases s)
    case Nil
    then show ?thesis by (simp add: longest_tokens.simps)
  next
    case (Cons c s')
    have "take 1 s = [c]" using Cons by simp
    then have "1 \<in> set (match_lengths v s 1)" using assms(4) Cons by (auto simp: match_lengths_def simp del: upt_Suc)
    then have ne: "match_lengths v s 1 \<noteq> []" by auto
    let ?n = "last (match_lengths v s 1)"
    note n = match_lengths_last [OF ne]
    then obtain i where i: "rwkv_token v (take ?n s) = Some i" by blast
    then have t: "i < n_tokens v" "llama_unescape_rwkv_token (tok_text (id_to_token v ! i)) = take ?n s"
      using rwkv_token_text unfolding rwkv_text_def by blast+
    then have "tok_attr (id_to_token v ! i) = ATTR_NORMAL" using assms(3) by (simp add: n_tokens_def)
    moreover define w where "w = take ?n s"
    ultimately have "token_to_piece v (int i) len lstrip special = Some (if 0 \<le> len \<and> int (length w) > len then (- int (length w), []) else (int (length w), w))" for len lstrip
      using t assms(1,2) by (simp add: token_to_piece_def token_get_attr_def get_token_data_def n_tokens_def has_attr_def ATTR_UNKNOWN_def
          ATTR_CONTROL_def ATTR_NORMAL_def Let_def)
    then have "piece_of v (int i) lstrip special = Some w" for lstrip by (cases w) (simp_all add: piece_of_def)
    then have p: "piece_of v (int i) lstrip special = Some (take ?n s)" for lstrip by (simp add: w_def)
    obtain ps where ps: "pieces_of v special False (longest_tokens v (drop ?n s)) = Some ps" "concat ps = drop ?n s"
      using 1 [rule_format, of "drop ?n s" False] n Cons by auto
    have "longest_tokens v s = int i # longest_tokens v (drop ?n s)"
      using Cons ne i by (subst longest_tokens.simps) (auto split: list.splits)
    then show ?thesis using p ps by simp
  qed
qed


text \<open>The vocabulary of the 256 bytes; the backslash is escaped.\<close>

definition byte_texts :: "string list" where
  "byte_texts = map (\<lambda>b. if b = 92 then [CHR 0x5C, CHR 0x5C] else [char_of b]) [0..<256]"

lemma byte_texts_unescape: "llama_unescape_rwkv_token (if b = 92 then [CHR 0x5C, CHR 0x5C] else [char_of b]) = [char_of b]" if "b < 256" for b :: nat
proof (cases "b = 92")
  case True
  have "llama_unescape_rwkv_token [CHR 0x5C, CHR 0x5C] = [char_of (92 :: nat)]" by code_simp
  then show ?thesis using True by simp
next
  case False
  have "char_of b \<noteq> CHR 0x5C"
  proof
    assume "char_of b = CHR 0x5C"
    then have "of_char (char_of b) = (of_char (CHR 0x5C) :: nat)" by simp
    then show False using False that by (simp only: of_char_of) simp
  qed
  then show ?thesis using False by (simp add: llama_unescape_rwkv_token_def rwkv_unescape_step_def)
qed

lemma byte_texts_text: "b < 256 \<Longrightarrow> rwkv_text (rwkv_vocab byte_texts) b = [char_of b]"
  using byte_texts_unescape [of b] by (auto simp: byte_texts_def split: if_splits)


section \<open>A token without its first byte\<close>

text \<open>
  C20: When the first byte of the text starts some token, but no token is a prefix of the text, \<open>token_length\<close> stays 0 and the
  session goes back to the start of the text, for ever: it puts out token 0 without end.
\<close>

theorem rwkv_hangs:
  assumes "nul_free v" and "text \<noteq> []" and "i < n_tokens v" and "rwkv_text v i \<noteq> []" and "hd (rwkv_text v i) = hd text"
    and "\<forall>n. 1 \<le> n \<longrightarrow> n \<le> length text \<longrightarrow> rwkv_token v (take n text) = None"
  shows "rwkv_tokenize v text out = None"
proof -
  have "prefix [hd text] (rwkv_text v i)" using assms(4,5) by (cases "rwkv_text v i") simp_all
  then have "trie_node (token_matcher v) [hd text] \<noteq> None" using matcher_node [of v "[hd text]"] assms(3) by blast
  then obtain node where node: "trie_node (token_matcher v) (take 1 text) = Some node" using assms(2) by (cases "text") auto
  have "match_lengths v text 1 = []" using assms(6) by (auto simp: match_lengths_def filter_empty_conv)
  then have m: "rwkv_match text node 0 0 0 = Some (0, 0)" using rwkv_match_longest [OF assms(1) _ _ _ node, of 0 "text" 0 0] assms(2) by (cases "text") simp_all
  have tr: "traverse (token_matcher v) (text ! 0) = Some node" using node assms(2) by (cases "text") (simp_all add: traverse_def split: option.splits)
  have "\<not> (v' = v \<and> t = token_matcher v \<and> text' = text \<and> pos = 0)" if "rwkv_loop v' t text' pos out' = Some y" for v' t text' pos out' y
    using that
  proof (induction rule: rwkv_loop.raw_induct [rotated, consumes 1])
    case (1 f v' t text' pos out' y)
    show ?case
    proof
      assume e: "v' = v \<and> t = token_matcher v \<and> text' = text \<and> pos = 0"
      then have "f v (token_matcher v) text 0 (out' @ [0]) = Some y" using 1(2) tr m assms(2) by simp
      from 1(1) [OF this] show False by simp
    qed
  qed
  then show ?thesis unfolding rwkv_tokenize_def by (metis not_Some_eq)
qed

theorem rwkv_hangs_witness: "rwkv_tokenize (rwkv_vocab [''ab'', ''c'']) ''ac'' [] = None"
proof -
  let ?v = "rwkv_vocab [''ab'', ''c'']"
  have f: "nul_free ?v" "rwkv_text ?v 0 = ''ab''" "rwkv_token ?v ''a'' = None" "rwkv_token ?v ''ac'' = None" by code_simp+
  have "rwkv_token ?v (take n ''ac'') = None" if "1 \<le> n" "n \<le> length ''ac''" for n
  proof -
    have "n = 1 \<or> n = 2" using that by auto
    then show ?thesis using f by auto
  qed
  then show ?thesis using rwkv_hangs [OF f(1), of "''ac''" 0 "[]"] f(2) by simp
qed

end
