(* ===== verification/Vocab_Pretok.thy ===== *)
theory Vocab_Pretok
  imports Unicode_Words Unicode_Sync
begin
text \<open>
  The pre-tokenizers of the BPE vocabularies: the table of regular expressions in the constructor of \<open>llm_tokenizer_bpe\<close>
  (\<open>src/src/llama-vocab.cpp\<close>), with the pre-tokenizer types of \<open>src/src/llama-vocab.h\<close>.  In \<open>cstr\<close> the character \<open>#\<close> stands for
  the backslash; characters outside ASCII are given by their code points.
\<close>

datatype llama_vocab_pre_type =
  PRE_DEFAULT | PRE_LLAMA3 | PRE_DEEPSEEK_LLM | PRE_DEEPSEEK_CODER | PRE_FALCON | PRE_MPT | PRE_STARCODER | PRE_GPT2
  | PRE_REFACT | PRE_COMMAND_R | PRE_STABLELM2 | PRE_QWEN2 | PRE_OLMO | PRE_DBRX | PRE_SMAUG | PRE_PORO | PRE_CHATGLM3
  | PRE_CHATGLM4 | PRE_VIKING | PRE_JAIS | PRE_TEKKEN | PRE_SMOLLM | PRE_CODESHELL | PRE_BLOOM | PRE_GPT3_FINNISH
  | PRE_EXAONE | PRE_CHAMELEON | PRE_MINERVA | PRE_DEEPSEEK3_LLM | PRE_GPT4O | PRE_SUPERBPE | PRE_TRILLION
  | PRE_BAILINGMOE | PRE_LLAMA4 | PRE_PIXTRAL | PRE_SEED_CODER | PRE_HUNYUAN | PRE_KIMI_K2 | PRE_HUNYUAN_DENSE
  | PRE_GROK_2 | PRE_GRANITE_DOCLING | PRE_MINIMAX_M2 | PRE_AFMOE | PRE_SOLAR_OPEN | PRE_YOUTU | PRE_EXAONE_MOE
  | PRE_QWEN35 | PRE_TINY_AYA | PRE_JOYAI_LLM | PRE_JAIS2

definition deepseek3_llm_exprs :: "string list" where
  "deepseek3_llm_exprs =
          [cstr ''#p{N}{1,3}'',
           ''['' @ encode [0x4E00, 0x2D, 0x9FA5, 0x3040, 0x2D, 0x309F, 0x30A0, 0x2D, 0x30FF] @ '']+'',
           ''[!'' @ [CHR 0x22] @ [CHR 0x23] @ cstr ''$%&'()*+,#-./:;<=>?@#[###]^_'' @ [CHR 0x60] @ ''{|}~][A-Za-z]+|[^'' @ [CHR 0x0D] @ [CHR 0x0A] @ cstr ''#p{L}#p{P}#p{S}]?[#p{L}#p{M}]+| ?[#p{P}#p{S}]+['' @ [CHR 0x0D] @ [CHR 0x0A] @ cstr '']*|#s*['' @ [CHR 0x0D] @ [CHR 0x0A] @ cstr '']+|#s+(?!#S)|#s+'']"

definition starcoder_exprs :: "string list" where
  "starcoder_exprs =
          [cstr ''#p{N}'',
           gpt2_regex]"

definition stablelm2_exprs :: "string list" where
  "stablelm2_exprs =
          [cstr ''(?:'[sS]|'[tT]|'[rR][eE]|'[vV][eE]|'[mM]|'[lL][lL]|'[dD])|[^#r#n#p{L}#p{N}]?#p{L}+|#p{N}| ?[^#s#p{L}#p{N}]+[#r#n]*|#s*[#r#n]+|#s+(?!#S)|#s+'']"

definition poro_exprs :: "string list" where
  "poro_exprs =
          [cstr '' ?[^(#s|.,!?'' @ encode [0x2026, 0x3002, 0xFF0C, 0x3001, 0x964, 0x6D4, 0x60C] @ '')]+'']"

definition gpt4o_exprs :: "string list" where
  "gpt4o_exprs =
          [cstr ''[^#r#n#p{L}#p{N}]?((?=[#p{L}])([^a-z]))*((?=[#p{L}])([^A-Z]))+(?:'[sS]|'[tT]|'[rR][eE]|'[vV][eE]|'[mM]|'[lL][lL]|'[dD])?|[^#r#n#p{L}#p{N}]?((?=[#p{L}])([^a-z]))+((?=[#p{L}])([^A-Z]))*(?:'[sS]|'[tT]|'[rR][eE]|'[vV][eE]|'[mM]|'[lL][lL]|'[dD])?|#p{N}{1,3}| ?[^#s#p{L}#p{N}]+[#r#n/]*|#s*[#r#n]+|#s+(?!#S)|#s+'']"

definition llm_tokenizer_bpe :: "llama_vocab_pre_type \<Rightarrow> string list" where
  "llm_tokenizer_bpe pre_type =
     (case pre_type of
        PRE_LLAMA3 \<Rightarrow> [llama3_regex]
        | PRE_JAIS2 \<Rightarrow>
          [cstr ''(?:'[sS]|'[tT]|'[rR][eE]|'[vV][eE]|'[mM]|'[lL][lL]|'[dD])|[^#r#n#p{L}#p{N}]?#p{L}+|#p{N}{1,3}| ?[^#s#p{L}#p{N}]+[#r#n]*|#s*[#r#n]+|#s{512}(?!#S)|#s{256}(?!#S)|#s{128}(?!#S)|#s{64}(?!#S)|#s{32}(?!#S)|#s{16}(?!#S)|#s{8}(?!#S)|#s{4}(?!#S)|#s{1,2}(?!#S)|#s{1}'']
        | PRE_DBRX \<Rightarrow> [llama3_regex]
        | PRE_SMAUG \<Rightarrow> [llama3_regex]
        | PRE_DEEPSEEK_LLM \<Rightarrow>
          [''['' @ [CHR 0x0D] @ [CHR 0x0A] @ '']'',
           cstr ''#s?[A-Za-z'' @ encode [0xB5, 0xC0, 0x2D, 0xD6, 0xD8, 0x2D, 0xF6, 0xF8, 0x2D, 0x1BA, 0x1BC, 0x2D, 0x1BF, 0x1C4,
             0x2D, 0x293, 0x295, 0x2D, 0x2AF, 0x370, 0x2D, 0x373, 0x376, 0x377, 0x37B, 0x2D, 0x37D, 0x37F, 0x386, 0x388,
             0x2D, 0x38A, 0x38C, 0x38E, 0x2D, 0x3A1, 0x3A3, 0x2D, 0x3F5, 0x3F7, 0x2D, 0x481, 0x48A, 0x2D, 0x52F, 0x531,
             0x2D, 0x556, 0x10A0, 0x2D, 0x10C5, 0x13A0, 0x2D, 0x13F5, 0x13F8, 0x2D, 0x13FD, 0x1C90, 0x2D, 0x1CBA, 0x1CBD,
             0x2D, 0x1CBF, 0x1D00, 0x2D, 0x1D2B, 0x1D6B, 0x2D, 0x1D77, 0x1D79, 0x2D, 0x1D9A, 0x1E00, 0x2D, 0x1F15, 0x1F18,
             0x2D, 0x1F1D, 0x1F20, 0x2D, 0x1F45, 0x1F48, 0x2D, 0x1F4D, 0x1F50, 0x2D, 0x1F57, 0x1F59, 0x1F5B, 0x1F5D, 0x1F5F,
             0x2D, 0x1F7D, 0x1F80, 0x2D, 0x1FB4, 0x1FB6, 0x2D, 0x1FBC, 0x1FBE, 0x1FC2, 0x2D, 0x1FC4, 0x1FC6, 0x2D, 0x1FCC,
             0x1FD0, 0x2D, 0x1FD3, 0x1FD6, 0x2D, 0x1FDB, 0x1FE0, 0x2D, 0x1FEC, 0x1FF2, 0x2D, 0x1FF4, 0x1FF6, 0x2D, 0x1FFC,
             0x2102, 0x2107, 0x210A, 0x2D, 0x2113, 0x2115, 0x2119, 0x2D, 0x211D, 0x2124, 0x2126, 0x2128, 0x212A, 0x2D,
             0x212D, 0x212F, 0x2D, 0x2134, 0x2139, 0x213C, 0x2D, 0x213F, 0x2145, 0x2D, 0x2149, 0x214E, 0x2183, 0x2184,
             0x2C00, 0x2D, 0x2C7B, 0x2C7E, 0x2D, 0x2CE4, 0x2CEB, 0x2D, 0x2CEE, 0x2CF2, 0x2CF3, 0xA640, 0x2D, 0xA66D, 0xA680,
             0x2D, 0xA69B, 0xA722, 0x2D, 0xA76F, 0xA771, 0x2D, 0xA787, 0xA78B, 0x2D, 0xA78E, 0xAB70, 0x2D, 0xABBF, 0xFB00,
             0x2D, 0xFB06, 0xFB13, 0x2D, 0xFB17, 0xFF21, 0x2D, 0xFF3A, 0xFF41, 0x2D, 0xFF5A, 0x10400, 0x2D, 0x1044F, 0x104B0,
             0x2D, 0x104D3, 0x104D8, 0x2D, 0x104FB, 0x10C80, 0x2D, 0x10CB2, 0x10CC0, 0x2D, 0x10CF2, 0x118A0, 0x2D, 0x118DF,
             0x1E900, 0x2D, 0x1E943] @ '']+'',
           cstr ''#s?[!-/:-~'' @ encode [0xFF01, 0x2D, 0xFF0F, 0xFF1A, 0x2D, 0xFF5E, 0x2018, 0x2D, 0x201F, 0x3000, 0x2D, 0x3002] @ '']+'',
           cstr ''#s+$'',
           ''['' @ encode [0x4E00, 0x2D, 0x9FA5, 0x800, 0x2D, 0x4E00, 0xAC00, 0x2D, 0xD7FF] @ '']+'',
           cstr ''#p{N}+'']
        | PRE_DEEPSEEK3_LLM \<Rightarrow> deepseek3_llm_exprs
        | PRE_HUNYUAN_DENSE \<Rightarrow> deepseek3_llm_exprs
        | PRE_JOYAI_LLM \<Rightarrow> deepseek3_llm_exprs
        | PRE_YOUTU \<Rightarrow>
          [''['' @ encode [0xAC00, 0x2D, 0xD7A3, 0x3131, 0x2D, 0x318E] @ '']+|['' @ encode [0xFF01, 0x2026, 0x201C, 0x201D, 0x2018,
             0x2019, 0x2014, 0xFF1A, 0xFF1B, 0xFF0C, 0x3001, 0x2D, 0x303F, 0xFE30, 0x2D, 0xFE4F] @ '']+|['' @ encode [0x3105,
             0x2D, 0x312F] @ '']+|['' @ encode [0x4E00, 0x2D, 0x9FA5, 0x3040, 0x2D, 0x309F, 0x30A0, 0x2D, 0x30FF] @ '']+'',
           cstr ''[^#r#n#p{L}#p{N}]?[#p{Lu}#p{Lt}#p{Lm}#p{Lo}#p{M}]*[#p{Ll}#p{Lm}#p{Lo}#p{M}]+(?:'[sS]|'[tT]|'[rR][eE]|'[vV][eE]|'[mM]|'[lL][lL]|'[dD])?|[^#r#n#p{L}#p{N}]?[#p{Lu}#p{Lt}#p{Lm}#p{Lo}#p{M}]+[#p{Ll}#p{Lm}#p{Lo}#p{M}]*(?:'[sS]|'[tT]|'[rR][eE]|'[vV][eE]|'[mM]|'[lL][lL]|'[dD])?|#p{N}| ?[^#s#p{L}#p{N}]+[#r#n/]*|#s*[#r#n]+|#s+(?!#S)|#s+'']
        | PRE_DEEPSEEK_CODER \<Rightarrow>
          [''['' @ [CHR 0x0D] @ [CHR 0x0A] @ '']'',
           cstr ''#s?#p{L}+'',
           cstr ''#s?#p{P}+'',
           ''['' @ encode [0x4E00, 0x2D, 0x9FA5, 0x800, 0x2D, 0x4E00, 0xAC00, 0x2D, 0xD7FF] @ '']+'',
           cstr ''#p{N}'']
        | PRE_FALCON \<Rightarrow>
          [cstr ''[#p{P}#$#+<=>#^~#|'' @ [CHR 0x60] @ '']+'',
           gpt2_regex,
           ''[0-9][0-9][0-9]'']
        | PRE_STARCODER \<Rightarrow> starcoder_exprs
        | PRE_REFACT \<Rightarrow> starcoder_exprs
        | PRE_COMMAND_R \<Rightarrow> starcoder_exprs
        | PRE_SMOLLM \<Rightarrow> starcoder_exprs
        | PRE_CODESHELL \<Rightarrow> starcoder_exprs
        | PRE_EXAONE \<Rightarrow> starcoder_exprs
        | PRE_MINERVA \<Rightarrow> starcoder_exprs
        | PRE_GPT2 \<Rightarrow> [gpt2_regex]
        | PRE_MPT \<Rightarrow> [gpt2_regex]
        | PRE_OLMO \<Rightarrow> [gpt2_regex]
        | PRE_JAIS \<Rightarrow> [gpt2_regex]
        | PRE_TRILLION \<Rightarrow> [gpt2_regex]
        | PRE_GRANITE_DOCLING \<Rightarrow> [gpt2_regex]
        | PRE_STABLELM2 \<Rightarrow> stablelm2_exprs
        | PRE_QWEN2 \<Rightarrow> stablelm2_exprs
        | PRE_HUNYUAN \<Rightarrow> stablelm2_exprs
        | PRE_SOLAR_OPEN \<Rightarrow> stablelm2_exprs
        | PRE_QWEN35 \<Rightarrow>
          [cstr ''(?:'[sS]|'[tT]|'[rR][eE]|'[vV][eE]|'[mM]|'[lL][lL]|'[dD])|[^#r#n#p{L}#p{N}]?[#p{L}#p{M}]+|#p{N}| ?[^#s#p{L}#p{M}#p{N}]+[#r#n]*|#s*[#r#n]+|#s+(?!#S)|#s+'']
        | PRE_PORO \<Rightarrow> poro_exprs
        | PRE_BLOOM \<Rightarrow> poro_exprs
        | PRE_GPT3_FINNISH \<Rightarrow> poro_exprs
        | PRE_CHATGLM4 \<Rightarrow> [llama3_regex]
        | PRE_VIKING \<Rightarrow>
          [cstr '' ?[^(#s|.,!?'' @ encode [0x2026, 0x3002, 0xFF0C, 0x3001, 0x964, 0x6D4, 0x60C] @ '')]+'',
           cstr ''#p{N}'']
        | PRE_TEKKEN \<Rightarrow>
          [cstr ''[^#r#n#p{L}#p{N}]?((?=[#p{L}])([^a-z]))*((?=[#p{L}])([^A-Z]))+|[^#r#n#p{L}#p{N}]?((?=[#p{L}])([^a-z]))+((?=[#p{L}])([^A-Z]))*|#p{N}| ?[^#s#p{L}#p{N}]+[#r#n/]*|#s*[#r#n]+|#s+(?!#S)|#s+'']
        | PRE_CHAMELEON \<Rightarrow>
          [''<sentinel:[0-9]+>'',
           ''(IMGIMG)((A|B|C|D|E|F|G|H|I){1,4})Z'',
           cstr ''([#t#n]|    |  )'',
           cstr ''#p{N}'',
           cstr ''[#p{P}!-/:-@#[-'' @ [CHR 0x60] @ ''{-~]'',
           gpt2_regex]
        | PRE_GPT4O \<Rightarrow> gpt4o_exprs
        | PRE_MINIMAX_M2 \<Rightarrow> gpt4o_exprs
        | PRE_TINY_AYA \<Rightarrow>
          [tiny_aya_regex,
           cstr ''[^#r#n#p{L}#p{N}]?[#p{Lu}#p{Lt}#p{Lm}#p{Lo}#p{M}]*[#p{Ll}#p{Lm}#p{Lo}#p{M}]+(?:'[sS]|'[tT]|'[rR][eE]|'[vV][eE]|'[mM]|'[lL][lL]|'[dD])?|[^#r#n#p{L}#p{N}]?[#p{Lu}#p{Lt}#p{Lm}#p{Lo}#p{M}]+[#p{Ll}#p{Lm}#p{Lo}#p{M}]*(?:'[sS]|'[tT]|'[rR][eE]|'[vV][eE]|'[mM]|'[lL][lL]|'[dD])?|#p{N}{1,3}| ?[^#s#p{L}#p{N}]+[#r#n/]*|#s*[#r#n]+|#s+(?!#S)|#s+'']
        | PRE_KIMI_K2 \<Rightarrow> [kimi_regex]
        | PRE_SUPERBPE \<Rightarrow>
          [cstr ''#p{N}+'',
           cstr ''(?=(#d{3})+(?!#d))'']
        | PRE_BAILINGMOE \<Rightarrow>
          [cstr '''(?:[sSdDmMtT]|[lL][lL]|[vV][eE]|[rR][eE])|[^#r#n#p{L}#p{N}]?#p{L}+|#p{N}| ?[^#s#p{L}#p{N}]+[#r#n]*|#s*[#r#n]|#s+(?!#S)|#s+'']
        | PRE_SEED_CODER \<Rightarrow>
          [cstr ''(?:'[sS]|'[tT]|'[rR][eE]|'[vV][eE]|'[mM]|'[lL][lL]|'[dD])|[^#r#n#p{L}#p{N}]?#p{L}+|#p{N}{1}| ?[^#s#p{L}#p{N}#r#n]+|#s*[#r#n]+|#s+(?!#S)|#s+'']
        | PRE_GROK_2 \<Rightarrow>
          [cstr ''(?:'[sS]|'[tT]|'[rR][eE]|'[vV][eE]|'[mM]|'[lL][lL]|'[dD])|[^#r#n#p{L}#p{N}]?#p{L}+|#p{N}| ?[^#s#p{L}#p{N}]+[#r#n]*|#s*[#r#n]+|#s+(?!#S)|#s+'']
        | PRE_AFMOE \<Rightarrow>
          [afmoe_regex,
           ''['' @ encode [0x4E00, 0x2D, 0x9FFF, 0x3400, 0x2D, 0x4DBF, 0x8C48, 0x2D, 0xFAFF, 0x3040, 0x2D, 0x309F, 0x30A0, 0x2D,
             0x30FF, 0xFF65, 0x2D, 0xFF9F, 0x2F00, 0x2D, 0x2FDF, 0xE40, 0x2D, 0xE7F, 0xE80, 0x2D, 0xEFF, 0x1780, 0x2D,
             0x17FF, 0x1000, 0x2D, 0x109F, 0xAA60, 0x2D, 0xAA7F, 0xA9E0, 0x2D, 0xA9FF, 0xAC00, 0x2D, 0xD7AF, 0x1100, 0x2D,
             0x11FF] @ '']+'',
           ''[!'' @ [CHR 0x22] @ [CHR 0x23] @ cstr ''$%&'()*+,#-./:;<=>?@#[###]^_'' @ [CHR 0x60] @ cstr ''{|}~][A-Za-z]+|[^#r#n#p{L}#p{P}#p{S}]?[#p{L}#p{M}]+| ?[#p{P}#p{S}]+[#r#n]*|#s*[#r#n]+|#s+(?!#S)|#s+'']
        | PRE_EXAONE_MOE \<Rightarrow>
          [cstr ''(?:'[sS]|'[tT]|'[rR][eE]|'[vV][eE]|'[mM]|'[lL][lL]|'[dD])|[^#r#n#p{L}#p{N}]?(?:#p{L}#p{M}*(?: #p{L}#p{M}*)*)+|#p{N}| ?[^#s#p{L}#p{N}]+[#r#n/]?|#s*[#r#n]|#s+(?!#S)|#s+'']
        | _ \<Rightarrow>
          [cstr ''[#p{P}#$#+<=>#^~#|]+'',
           gpt2_regex,
           cstr ''#p{N}+'',
           ''[0-9][0-9][0-9]''])"

section \<open>The expressions are supported\<close>

text \<open>No backslash is followed by \<open>p\<close>.\<close>

fun no_category :: "string \<Rightarrow> bool" where
  "no_category (a # b # s) \<longleftrightarrow> \<not> (a = CHR 0x5C \<and> b = CHR ''p'') \<and> no_category (b # s)"
| "no_category _ \<longleftrightarrow> True"

lemma no_category_drop: "no_category s \<Longrightarrow> take 2 (drop i s) \<noteq> [CHR 0x5C, CHR ''p'']"
proof (induction s arbitrary: i rule: no_category.induct)
  fix a b s i
  assume "\<And>i. no_category (b # s) \<Longrightarrow> take 2 (drop i (b # s)) \<noteq> [CHR 0x5C, CHR ''p'']" and "no_category (a # b # s)"
  then show "take 2 (drop i (a # b # s)) \<noteq> [CHR 0x5C, CHR ''p'']" by (cases i) auto
next
  fix v :: char and i
  show "take 2 (drop i [v]) \<noteq> [CHR 0x5C, CHR ''p'']" by (cases i) auto
qed simp

lemma no_category_has_ucat: "no_category s \<Longrightarrow> \<not> has_ucat s"
proof
  assume s: "no_category s" "has_ucat s"
  then obtain i ucat c where u: "(ucat, c) \<in> set k_ucat_enum" "take (length ucat) (drop i s) = ucat"
    unfolding has_ucat_def list_ex_iff by auto
  have "take 2 ucat = [CHR 0x5C, CHR ''p''] \<and> 2 \<le> length ucat" using u(1) by (auto simp: k_ucat_enum_def cstr_def)
  then have "take 2 (drop i s) = [CHR 0x5C, CHR ''p'']" using u(2) by (metis min.absorb1 take_take)
  then show False using no_category_drop [OF s(1)] by blast
qed

definition ascii :: "string \<Rightarrow> bool" where
  "ascii s \<longleftrightarrow> list_all (\<lambda>c. ub c < 128) s"

lemma ascii_cpts: "ascii s \<Longrightarrow> unicode_cpts_from_utf8 s = map ub s"
proof -
  assume a: "ascii s"
  then have c: "\<forall>c\<in>set (map ub s). is_cpt c" using ub_range by (auto simp: ascii_def list_all_iff)
  have "encode (map ub s) = s" using a
  proof (induction s)
    case (Cons c s)
    then have "enc (ub c) = [c]" using ub_range [of c] by (simp add: ascii_def enc_def unicode_cpt_to_utf8_def ub_def chr_of_def)
    then show ?case using Cons by (simp add: encode_Cons ascii_def)
  qed simp
  then show ?thesis using cpts_from_encode [OF c] by simp
qed

lemma pre_tokenizer_expr: "list_all (\<lambda>e. ascii e \<or> no_category e) (llm_tokenizer_bpe pre_type)"
  by (induction pre_type) code_simp+

text \<open>
  No pre-tokenizer has an expression that \<open>unicode_regex_split\<close> refuses: an expression with a Unicode category has only ASCII
  characters, so that the exception for the mixture is never thrown.
\<close>

theorem pre_tokenizers_supported:
  "list_all (\<lambda>e. \<not> (has_ucat e \<and> list_ex (\<lambda>c. c \<ge> 128) (unicode_cpts_from_utf8 e))) (llm_tokenizer_bpe pre_type)"
  unfolding list_all_iff
proof
  fix e assume "e \<in> set (llm_tokenizer_bpe pre_type)"
  then consider "ascii e" | "no_category e" using pre_tokenizer_expr [of pre_type] by (auto simp: list_all_iff)
  then show "\<not> (has_ucat e \<and> list_ex (\<lambda>c. c \<ge> 128) (unicode_cpts_from_utf8 e))"
  proof cases
    case 1
    then have "\<forall>c\<in>set (unicode_cpts_from_utf8 e). c < 128" using ascii_cpts [OF 1] by (simp add: ascii_def list_all_iff)
    then show ?thesis by (auto simp: list_ex_iff)
  next
    case 2
    then show ?thesis using no_category_has_ucat by blast
  qed
qed

end
