(* ===== verification/Vocab_Tokenize.thy ===== *)
theory Vocab_Tokenize
  imports Vocab_BPE Vocab_SPM Vocab_RWKV "HOL-Library.Sublist"
begin

text \<open>
  \<open>llama_vocab::impl::tokenize\<close> of \<open>src/src/llama-vocab.cpp\<close>: the text is first partitioned at the special tokens it contains
  (\<open>tokenizer_st_partition\<close>), and the session of the vocabulary tokenizes what lies between them.
\<close>

section \<open>Fragments\<close>

datatype fragment_buffer_variant = Raw_text nat nat | Special_token int

definition raw_fragment :: "string \<Rightarrow> nat \<Rightarrow> nat \<Rightarrow> fragment_buffer_variant option" where
  "raw_fragment raw_text offset len = do {
     ggml_assert (len \<ge> 1);
     ggml_assert (offset + len \<le> length raw_text);
     Some (Raw_text offset len) }"

text \<open>
  The \<open>std::forward_list\<close> and its iterator \<open>it\<close>, as a list and an index.  Erasing an element before the one \<open>it\<close> points to
  moves the index, not the iterator.
\<close>

definition emplace_after :: "'a list \<Rightarrow> nat \<Rightarrow> 'a \<Rightarrow> 'a list" where
  "emplace_after buffer it x = take (it + 1) buffer @ x # drop (it + 1) buffer"

definition erase_at :: "'a list \<Rightarrow> nat \<Rightarrow> 'a list" where
  "erase_at buffer k = take k buffer @ drop (k + 1) buffer"

text \<open>\<open>std::string_view::find\<close>.\<close>

definition view_find :: "string \<Rightarrow> string \<Rightarrow> nat \<Rightarrow> nat option" where
  "view_find view pat pos = List.find (\<lambda>i. take (length pat) (drop i view) = pat) [pos..<Suc (length view)]"

definition ATTR_LSTRIP :: int where "ATTR_LSTRIP = 128"
definition ATTR_RSTRIP :: int where "ATTR_RSTRIP = 256"

text \<open>\<open>isspace\<close> of a \<open>char\<close>: undefined for a negative one.\<close>

definition isspace :: "char \<Rightarrow> bool option" where
  "isspace c = (if ub c < 128 then Some (is_space c) else None)"

fun strip_end :: "string \<Rightarrow> nat \<Rightarrow> nat \<Rightarrow> nat option" where
  "strip_end raw_text offset 0 = Some 0"
| "strip_end raw_text offset (Suc n) = do {
     space \<leftarrow> isspace (raw_text ! (offset + n));
     if space then strip_end raw_text offset n else Some (Suc n) }"

fun strip_front :: "string \<Rightarrow> nat \<Rightarrow> nat \<Rightarrow> (nat \<times> nat) option" where
  "strip_front raw_text offset 0 = Some (offset, 0)"
| "strip_front raw_text offset (Suc n) = do {
     space \<leftarrow> isspace (raw_text ! offset);
     if space then strip_front raw_text (offset + 1) n else Some (offset, Suc n) }"

text \<open>The loop over one fragment; \<open>it\<close> points to it, or to what is left of it.\<close>

partial_function (option) partition_text ::
  "string \<Rightarrow> int \<Rightarrow> int \<Rightarrow> string \<Rightarrow> fragment_buffer_variant list \<Rightarrow> nat \<Rightarrow> nat \<Rightarrow> nat \<Rightarrow> (fragment_buffer_variant list \<times> nat) option" where
  "partition_text raw_text special_id attr text buffer it base_offset base_length =
     (case view_find (take (base_offset + base_length) raw_text) text base_offset of
        None \<Rightarrow> Some (buffer, it)
      | Some match \<Rightarrow> do {
          left \<leftarrow> (if match > base_offset then
              if has_attr attr ATTR_LSTRIP then strip_end raw_text base_offset (match - base_offset) else Some (match - base_offset)
            else Some 0);
          st \<leftarrow> (if left > 0 then do {
              f \<leftarrow> raw_fragment raw_text base_offset left;
              Some (emplace_after buffer it f, it + 1) }
            else Some (buffer, it));
          let st = (emplace_after (fst st) (snd st) (Special_token special_id), snd st + 1);
          if match + length text < base_offset + base_length then do {
            let right_offset = match + length text;
            let right_length = base_length - ((match - base_offset) + length text);
            right \<leftarrow> (if has_attr attr ATTR_RSTRIP then strip_front raw_text right_offset right_length else Some (right_offset, right_length));
            st \<leftarrow> (if snd right > 0 then do {
                f \<leftarrow> raw_fragment raw_text (fst right) (snd right);
                Some (emplace_after (fst st) (snd st) f, snd st + 1) }
              else Some st);
            partition_text raw_text special_id attr text (erase_at (fst st) it) (snd st - 1) (fst right) (snd right) }
          else Some (erase_at (fst st) it, snd st - 1) })"

partial_function (option) partition_fragments ::
  "string \<Rightarrow> int \<Rightarrow> int \<Rightarrow> string \<Rightarrow> fragment_buffer_variant list \<Rightarrow> nat \<Rightarrow> fragment_buffer_variant list option" where
  "partition_fragments raw_text special_id attr text buffer it =
     (if it < length buffer then
        (case buffer ! it of
           Special_token _ \<Rightarrow> partition_fragments raw_text special_id attr text buffer (it + 1)
         | Raw_text base_offset base_length \<Rightarrow> do {
             st \<leftarrow> partition_text raw_text special_id attr text buffer it base_offset base_length;
             partition_fragments raw_text special_id attr text (fst st) (snd st + 1) })
      else Some buffer)"

declare partition_text.simps [code] partition_fragments.simps [code]

definition ignored_special :: "bool \<Rightarrow> 's token_data \<Rightarrow> bool" where
  "ignored_special parse_special data \<longleftrightarrow> \<not> parse_special \<and> (has_attr (tok_attr data) ATTR_CONTROL \<or> has_attr (tok_attr data) ATTR_UNKNOWN)"

definition tokenizer_st_partition ::
  "'s vocab_impl \<Rightarrow> string \<Rightarrow> bool \<Rightarrow> fragment_buffer_variant list \<Rightarrow> fragment_buffer_variant list option" where
  "tokenizer_st_partition v raw_text parse_special buffer =
     for_each (\<lambda>special_id buffer. do {
       data \<leftarrow> get_token_data v special_id;
       if ignored_special parse_special data then Some buffer
       else partition_fragments raw_text special_id (tok_attr data) (tok_text data) buffer 0 }) (cache_special_tokens v) buffer"

section \<open>The sessions\<close>

definition fragments_of :: "'s vocab_impl \<Rightarrow> string \<Rightarrow> bool \<Rightarrow> fragment_buffer_variant list option" where
  "fragments_of v raw_text parse_special =
     (if raw_text \<noteq> [] then do {
        f \<leftarrow> raw_fragment raw_text 0 (length raw_text);
        tokenizer_st_partition v raw_text parse_special [f] }
      else Some [])"

text \<open>\<open>append_bos\<close> and \<open>append_eos\<close>; the other sessions have the same code in line.\<close>

definition append_bos :: "'s vocab_impl \<Rightarrow> int list \<Rightarrow> int list option" where
  "append_bos v output =
     (if add_bos v then do { ggml_assert (special_bos_id v \<noteq> LLAMA_TOKEN_NULL); Some (output @ [special_bos_id v]) } else Some output)"

definition append_eos :: "'s vocab_impl \<Rightarrow> int list \<Rightarrow> int list option" where
  "append_eos v output =
     (if add_eos v then do { ggml_assert (special_eos_id v \<noteq> LLAMA_TOKEN_NULL); Some (output @ [special_eos_id v]) } else Some output)"

definition session_fragment :: "(string \<Rightarrow> int list \<Rightarrow> int list option) \<Rightarrow> string \<Rightarrow> fragment_buffer_variant \<Rightarrow> int list \<Rightarrow> int list option" where
  "session_fragment session raw_text fragment output =
     (case fragment of
        Raw_text offset len \<Rightarrow> session (take len (drop offset raw_text)) output
      | Special_token token \<Rightarrow> Some (output @ [token]))"

text \<open>The case \<open>LLAMA_VOCAB_TYPE_BPE\<close>.\<close>

definition tokenize_bpe ::
  "std_regex \<Rightarrow> unicode_tables \<Rightarrow> bpe_pop \<Rightarrow> string list \<Rightarrow> 's vocab_impl \<Rightarrow> string \<Rightarrow> bool \<Rightarrow> bool \<Rightarrow> int list option" where
  "tokenize_bpe rx tb pop regex_exprs v raw_text add_special parse_special = do {
     fragment_buffer \<leftarrow> fragments_of v raw_text parse_special;
     output \<leftarrow> (if add_special then append_bos v [] else Some []);
     output \<leftarrow> for_each (session_fragment (bpe_tokenize rx tb v pop regex_exprs) raw_text) fragment_buffer output;
     if add_special then append_eos v output else Some output }"

text \<open>The case \<open>LLAMA_VOCAB_TYPE_SPM\<close>: the loop carries \<open>output\<close> and \<open>is_prev_special\<close>.\<close>

definition spm_fragment ::
  "'s vocab_impl \<Rightarrow> ('s llm_bigram_spm list \<Rightarrow> ('s llm_bigram_spm \<times> 's llm_bigram_spm list) option) \<Rightarrow> string \<Rightarrow> fragment_buffer_variant \<Rightarrow> int list \<times> bool \<Rightarrow> (int list \<times> bool) option" where
  "spm_fragment v pop raw_text fragment = (\<lambda>(output, is_prev_special).
     case fragment of
       Raw_text offset len \<Rightarrow> do {
         let text = (if add_space_prefix v \<and> is_prev_special then '' '' else []) @ take len (drop offset raw_text);
         output \<leftarrow> spm_tokenize v pop (llama_escape_whitespace text) output;
         Some (output, False) }
     | Special_token token \<Rightarrow> Some (output @ [token], True))"

definition tokenize_spm ::
  "('s llm_bigram_spm list \<Rightarrow> ('s llm_bigram_spm \<times> 's llm_bigram_spm list) option) \<Rightarrow> 's vocab_impl \<Rightarrow> string \<Rightarrow> bool \<Rightarrow> bool \<Rightarrow> int list option" where
  "tokenize_spm pop v raw_text add_special parse_special = do {
     fragment_buffer \<leftarrow> fragments_of v raw_text parse_special;
     output \<leftarrow> (if add_special then append_bos v [] else Some []);
     st \<leftarrow> for_each (spm_fragment v pop raw_text) fragment_buffer (output, True);
     if add_special then append_eos v (fst st) else Some (fst st) }"

text \<open>The case \<open>LLAMA_VOCAB_TYPE_RWKV\<close>.\<close>

definition tokenize_rwkv :: "'s vocab_impl \<Rightarrow> string \<Rightarrow> bool \<Rightarrow> int list option" where
  "tokenize_rwkv v raw_text parse_special = do {
     fragment_buffer \<leftarrow> fragments_of v raw_text parse_special;
     for_each (session_fragment (rwkv_tokenize v) raw_text) fragment_buffer [] }"

section \<open>The partition\<close>

text \<open>The string of a fragment, and what is known of the text between special tokens.\<close>

definition fragment_str :: "'s vocab_impl \<Rightarrow> string \<Rightarrow> fragment_buffer_variant \<Rightarrow> string" where
  "fragment_str v raw_text f =
     (case f of Raw_text offset len \<Rightarrow> take len (drop offset raw_text) | Special_token i \<Rightarrow> tok_text (id_to_token v ! nat i))"

lemma fragment_str_simps [simp]:
  "fragment_str v raw_text (Raw_text offset len) = take len (drop offset raw_text)"
  "fragment_str v raw_text (Special_token i) = tok_text (id_to_token v ! nat i)"
  by (simp_all add: fragment_str_def)

definition fragment_ok :: "'s vocab_impl \<Rightarrow> (string \<Rightarrow> bool) \<Rightarrow> string \<Rightarrow> fragment_buffer_variant \<Rightarrow> bool" where
  "fragment_ok v P raw_text f \<longleftrightarrow>
     (case f of Raw_text offset len \<Rightarrow> 1 \<le> len \<and> offset + len \<le> length raw_text \<and> P (take len (drop offset raw_text)) | Special_token i \<Rightarrow> i \<in> set (cache_special_tokens v))"

lemma drop_view: "drop (off + j) (take (off + len) raw) = drop j (take len (drop off raw))"
  by (simp add: drop_take add.commute)

lemma view_find_None:
  assumes "view_find (take (off + len) raw) t off = None" and "t \<noteq> []"
  shows "\<not> sublist t (take len (drop off raw))"
proof
  assume "sublist t (take len (drop off raw))"
  then obtain a b where ab: "take len (drop off raw) = a @ t @ b" by (auto simp: sublist_def)
  have "length a + length t + length b = min len (length raw - off)" using arg_cong [OF ab, of length] by simp
  then have "off + length a < Suc (length (take (off + len) raw))" using assms(2) by (cases t) auto
  moreover have "take (length t) (drop (off + length a) (take (off + len) raw)) = t" using ab by (simp add: drop_view)
  ultimately show False using assms(1) by (auto simp: view_find_def find_None_iff simp del: upt_Suc)
qed

lemma view_find_Some:
  assumes "view_find (take (off + len) raw) t off = Some m" and "t \<noteq> []" and "off + len \<le> length raw"
  shows "off \<le> m" "m + length t \<le> off + len" "\<not> sublist t (take (m - off) (drop off raw))"
    "take len (drop off raw) = take (m - off) (drop off raw) @ t @ take (off + len - (m + length t)) (drop (m + length t) raw)"
proof -
  obtain k where k: "k < Suc (length (take (off + len) raw)) - off" "m = off + k" "take (length t) (drop (off + k) (take (off + len) raw)) = t"
    and first: "\<And>j. j < k \<Longrightarrow> take (length t) (drop (off + j) (take (off + len) raw)) \<noteq> t"
    using assms(1) by (auto simp: view_find_def find_Some_iff simp del: upt_Suc)
  let ?w = "take len (drop off raw)"
  have t: "take (length t) (drop k ?w) = t" using k(3) by (simp add: drop_view)
  then have "length t \<le> length (drop k ?w)" by (metis length_take min.cobounded1 min_def)
  then have len: "k + length t \<le> len" using assms(2,3) by (cases t) (simp_all add: min_def split: if_splits)
  show "off \<le> m" "m + length t \<le> off + len" using k(2) len by simp_all
  show "?w = take (m - off) (drop off raw) @ t @ take (off + len - (m + length t)) (drop (m + length t) raw)"
  proof -
    have "?w = take k ?w @ take (length t) (drop k ?w) @ drop (length t) (drop k ?w)" by (metis append_take_drop_id)
    moreover have "take k ?w = take (m - off) (drop off raw)" using k(2) len by (simp add: min_def)
    moreover have "drop (length t) (drop k ?w) = take (off + len - (m + length t)) (drop (m + length t) raw)"
      using k(2) len by (simp add: drop_take add.commute add.left_commute)
    ultimately show ?thesis using t by simp
  qed
  show "\<not> sublist t (take (m - off) (drop off raw))"
  proof
    assume "sublist t (take (m - off) (drop off raw))"
    then obtain a b where ab: "take k (drop off raw) = a @ t @ b" using k(2) by (auto simp: sublist_def)
    have "length (a @ t @ b) \<le> k" unfolding ab [symmetric] by simp
    then have "length a < k" using assms(2) by (cases t) auto
    moreover have "take k ?w = take k (drop off raw)" using len by (simp add: min_def)
    then have "?w = a @ t @ b @ drop k ?w" using ab by (metis append.assoc append_take_drop_id)
    then have "take (length t) (drop (length a) ?w) = t" by (metis append_eq_conv_conj)
    ultimately show False using first [of "length a"] by (simp add: drop_view)
  qed
qed

lemma emplace_erase:
  "length pre = it \<Longrightarrow> emplace_after (pre @ x # post) it y = pre @ x # y # post"
  "length pre = it \<Longrightarrow> erase_at (pre @ x # post) it = pre @ post"
  by (auto simp: emplace_after_def erase_at_def)

text \<open>A fragment is replaced by the fragments between the occurrences of the special token.\<close>

lemma partition_text_ok:
  assumes "t \<noteq> []" and "\<not> has_attr attr ATTR_LSTRIP" and "\<not> has_attr attr ATTR_RSTRIP" and "tok_text (id_to_token v ! nat i) = t" and "i \<in> set (cache_special_tokens v)"
    and "\<And>a b. P (a @ t @ b) \<Longrightarrow> P a \<and> P b" and "fragment_ok v P raw (Raw_text off len)"
  shows "\<exists>out. partition_text raw i attr t (pre @ Raw_text off len # post) (length pre) off len = Some (pre @ out @ post, length pre + length out - 1) \<and>
    out \<noteq> [] \<and> (\<forall>f\<in>set out. fragment_ok v (\<lambda>s. P s \<and> \<not> sublist t s) raw f) \<and> concat (map (fragment_str v raw) out) = take len (drop off raw)"
  using assms(7)
proof (induction len arbitrary: off pre rule: less_induct)
  case (less len)
  have ok: "1 \<le> len" "off + len \<le> length raw" "P (take len (drop off raw))" using less.prems by (auto simp: fragment_ok_def)
  let ?r = "Raw_text off len"
  show ?case
  proof (cases "view_find (take (off + len) raw) t off")
    case None
    then have "partition_text raw i attr t (pre @ ?r # post) (length pre) off len = Some (pre @ ?r # post, length pre)"
      by (subst partition_text.simps) simp
    then show ?thesis using view_find_None [OF None assms(1)] ok by (intro exI [of _ "[?r]"]) (simp add: fragment_ok_def)
  next
    case (Some m)
    note m = view_find_Some [OF Some assms(1) ok(2)]
    let ?l = "if m > off then [Raw_text off (m - off)] else []" and ?ro = "m + length t" and ?rl = "off + len - (m + length t)"
    have Pl: "P (take (m - off) (drop off raw))" "P (take ?rl (drop ?ro raw))" using assms(6) ok(3) m(4) by metis+
    have lok: "\<forall>f\<in>set ?l. fragment_ok v (\<lambda>s. P s \<and> \<not> sublist t s) raw f" using m Pl(1) ok(2) by (auto simp: fragment_ok_def)
    have lstr: "concat (map (fragment_str v raw) ?l) = take (m - off) (drop off raw)" using m(1) by simp
    have rl: "len - (m - off + length t) = ?rl" using m(1,2) by simp
    show ?thesis
    proof (cases "m + length t < off + len")
      case False
      then have "?rl = 0" by simp
      then have w: "take len (drop off raw) = concat (map (fragment_str v raw) (?l @ [Special_token i]))"
        using m(4) lstr assms(4) by simp
      have "partition_text raw i attr t (pre @ ?r # post) (length pre) off len =
        Some (pre @ (?l @ [Special_token i]) @ post, length pre + length (?l @ [Special_token i]) - 1)"
        using Some False m(1,2) ok assms(2)
        by (subst partition_text.simps) (auto simp: raw_fragment_def emplace_after_def erase_at_def)
      then show ?thesis using w lok by (intro exI [of _ "?l @ [Special_token i]"]) (simp add: fragment_ok_def assms(5))
    next
      case True
      let ?pre = "pre @ ?l @ [Special_token i]"
      have rok: "fragment_ok v P raw (Raw_text ?ro ?rl)" using Pl(2) True ok(2) by (simp add: fragment_ok_def)
      have "?rl < len" using m(1) assms(1) ok(1) by (cases t) auto
      from less.IH [OF this rok, of ?pre] obtain out where out:
        "partition_text raw i attr t (?pre @ Raw_text ?ro ?rl # post) (length ?pre) ?ro ?rl = Some (?pre @ out @ post, length ?pre + length out - 1)"
        "out \<noteq> []" "\<forall>f\<in>set out. fragment_ok v (\<lambda>s. P s \<and> \<not> sublist t s) raw f" "concat (map (fragment_str v raw) out) = take ?rl (drop ?ro raw)" by blast
      have "partition_text raw i attr t (pre @ ?r # post) (length pre) off len =
        partition_text raw i attr t (?pre @ Raw_text ?ro ?rl # post) (length ?pre) ?ro ?rl"
        using Some True m(1,2) ok assms(2,3) rl
        by (subst partition_text.simps) (auto simp: raw_fragment_def emplace_after_def erase_at_def Let_def)
      moreover have "take len (drop off raw) = concat (map (fragment_str v raw) (?l @ Special_token i # out))"
        using m(4) lstr assms(4) out(4) by simp
      ultimately show ?thesis using out lok by (intro exI [of _ "?l @ Special_token i # out"]) (auto simp: fragment_ok_def assms(5))
    qed
  qed
qed

lemma partition_fragments_ok:
  assumes "t \<noteq> []" and "\<not> has_attr attr ATTR_LSTRIP" and "\<not> has_attr attr ATTR_RSTRIP" and "tok_text (id_to_token v ! nat i) = t" and "i \<in> set (cache_special_tokens v)"
    and "\<And>a b. P (a @ t @ b) \<Longrightarrow> P a \<and> P b" and "\<forall>f\<in>set buf. fragment_ok v P raw f"
  shows "\<exists>out. partition_fragments raw i attr t (pre @ buf) (length pre) = Some (pre @ out) \<and>
    (\<forall>f\<in>set out. fragment_ok v (\<lambda>s. P s \<and> \<not> sublist t s) raw f) \<and> concat (map (fragment_str v raw) out) = concat (map (fragment_str v raw) buf)"
  using assms(7)
proof (induction buf arbitrary: pre)
  case Nil
  then show ?case by (subst partition_fragments.simps) simp
next
  case (Cons f buf)
  then have f: "fragment_ok v P raw f" "\<forall>f\<in>set buf. fragment_ok v P raw f" by simp_all
  show ?case
  proof (cases f)
    case (Special_token k)
    from Cons.IH [OF f(2), of "pre @ [f]"] obtain out where out: "partition_fragments raw i attr t (pre @ f # buf) (length pre + 1) = Some (pre @ f # out)"
      "\<forall>f\<in>set out. fragment_ok v (\<lambda>s. P s \<and> \<not> sublist t s) raw f" "concat (map (fragment_str v raw) out) = concat (map (fragment_str v raw) buf)" by auto
    then show ?thesis using Special_token f(1) by (subst partition_fragments.simps) (auto simp: fragment_ok_def intro!: exI [of _ "f # out"])
  next
    case (Raw_text off len)
    from partition_text_ok [OF assms(1-6) f(1) [unfolded Raw_text], where pre = pre and post = buf] obtain o1 where o1:
      "partition_text raw i attr t (pre @ f # buf) (length pre) off len = Some (pre @ o1 @ buf, length pre + length o1 - 1)" "o1 \<noteq> []"
      "\<forall>f\<in>set o1. fragment_ok v (\<lambda>s. P s \<and> \<not> sublist t s) raw f" "concat (map (fragment_str v raw) o1) = take len (drop off raw)"
      unfolding Raw_text by blast
    have idx: "length pre + length o1 - 1 + 1 = length (pre @ o1)" using o1(2) by (cases o1) auto
    from Cons.IH [OF f(2), of "pre @ o1"] obtain out where out: "partition_fragments raw i attr t (pre @ o1 @ buf) (length (pre @ o1)) = Some (pre @ o1 @ out)"
      "\<forall>f\<in>set out. fragment_ok v (\<lambda>s. P s \<and> \<not> sublist t s) raw f" "concat (map (fragment_str v raw) out) = concat (map (fragment_str v raw) buf)" by auto
    have "partition_fragments raw i attr t (pre @ f # buf) (length pre) = Some (pre @ o1 @ out)"
      using o1(1) out(1) idx Raw_text by (subst partition_fragments.simps) simp
    then show ?thesis using o1(3,4) out(2,3) Raw_text by (intro exI [of _ "o1 @ out"]) auto
  qed
qed

text \<open>What the partition relies on: the ids are tokens, with a text and without an attribute that strips blanks.\<close>

definition plain_specials :: "'s vocab_impl \<Rightarrow> bool" where
  "plain_specials v \<longleftrightarrow> vocab_type v \<noteq> VOCAB_NONE \<and> (\<forall>i\<in>set (cache_special_tokens v). 0 \<le> i \<and> nat i < n_tokens v \<and>
     (let d = id_to_token v ! nat i in tok_text d \<noteq> [] \<and> \<not> has_attr (tok_attr d) ATTR_LSTRIP \<and> \<not> has_attr (tok_attr d) ATTR_RSTRIP))"

text \<open>The texts at which the partition cuts.\<close>

definition special_texts :: "'s vocab_impl \<Rightarrow> bool \<Rightarrow> string list" where
  "special_texts v parse_special =
     map tok_text (filter (\<lambda>d. \<not> ignored_special parse_special d) (map (\<lambda>i. id_to_token v ! nat i) (cache_special_tokens v)))"

text \<open>A property of strings that survives cutting at the given texts.\<close>

definition cuts :: "string list \<Rightarrow> (string \<Rightarrow> bool) \<Rightarrow> bool" where
  "cuts ts P \<longleftrightarrow> (\<forall>t\<in>set ts. \<forall>a b. P (a @ t @ b) \<longrightarrow> P a \<and> P b)"

lemma cuts_sublist: "cuts ts P \<Longrightarrow> cuts ts (\<lambda>s. P s \<and> \<not> sublist d s)"
  unfolding cuts_def
proof (intro ballI allI impI)
  fix t a b assume P: "\<forall>t\<in>set ts. \<forall>a b. P (a @ t @ b) \<longrightarrow> P a \<and> P b" "t \<in> set ts" "P (a @ t @ b) \<and> \<not> sublist d (a @ t @ b)"
  have "sublist a (a @ t @ b)" "sublist b (a @ t @ b)" unfolding sublist_def by (metis append_Nil, metis append.assoc append_Nil2)
  then have "\<not> sublist d a" "\<not> sublist d b" using P(3) sublist_order.order_trans by blast+
  then show "(P a \<and> \<not> sublist d a) \<and> (P b \<and> \<not> sublist d b)" using P by blast
qed

lemma st_partition_ok:
  assumes "plain_specials v" and "cuts (special_texts v parse_special) P"
    and "\<forall>f\<in>set buf. fragment_ok v P raw f"
  shows "\<exists>out. tokenizer_st_partition v raw parse_special buf = Some out \<and>
    (\<forall>f\<in>set out. fragment_ok v (\<lambda>s. P s \<and> (\<forall>t\<in>set (special_texts v parse_special). \<not> sublist t s)) raw f) \<and>
    concat (map (fragment_str v raw) out) = concat (map (fragment_str v raw) buf)"
proof -
  let ?body = "\<lambda>special_id buffer. do {
       data \<leftarrow> get_token_data v special_id;
       if ignored_special parse_special data then Some buffer
       else partition_fragments raw special_id (tok_attr data) (tok_text data) buffer 0 }"
  let ?texts = "\<lambda>is. map tok_text (filter (\<lambda>d. \<not> ignored_special parse_special d) (map (\<lambda>i. id_to_token v ! nat i) is))"
  have "\<exists>out. for_each ?body is buf = Some out \<and> (\<forall>f\<in>set out. fragment_ok v (\<lambda>s. P s \<and> (\<forall>t\<in>set (?texts is). \<not> sublist t s)) raw f) \<and>
      concat (map (fragment_str v raw) out) = concat (map (fragment_str v raw) buf)"
    if "set is \<subseteq> set (cache_special_tokens v)" "cuts (?texts is) P" "\<forall>f\<in>set buf. fragment_ok v P raw f" for "is" P buf
    using that
  proof (induction "is" arbitrary: P buf)
    case (Cons i "is")
    let ?d = "id_to_token v ! nat i"
    have i: "0 \<le> i" "nat i < n_tokens v" "tok_text ?d \<noteq> []" "\<not> has_attr (tok_attr ?d) ATTR_LSTRIP" "\<not> has_attr (tok_attr ?d) ATTR_RSTRIP"
      using assms(1) Cons.prems(1) by (auto simp: plain_specials_def Let_def)
    have d: "get_token_data v i = Some ?d" using i(1,2) assms(1) by (simp add: get_token_data_def n_tokens_def plain_specials_def)
    have sub: "set is \<subseteq> set (cache_special_tokens v)" and mem: "i \<in> set (cache_special_tokens v)" using Cons.prems(1) by simp_all
    show ?case
    proof (cases "ignored_special parse_special ?d")
      case True
      then have tx: "?texts (i # is) = ?texts is" and "for_each ?body (i # is) buf = for_each ?body is buf" using d by simp_all
      with Cons.IH [OF sub Cons.prems(2) [unfolded tx] Cons.prems(3)] show ?thesis unfolding tx by presburger
    next
      case False
      have tx: "set (?texts (i # is)) = insert (tok_text ?d) (set (?texts is))" using False by simp
      have cl: "P (a @ tok_text ?d @ b) \<Longrightarrow> P a \<and> P b" for a b using Cons.prems(2) unfolding cuts_def tx by blast
      have "cuts (?texts is) P" using Cons.prems(2) unfolding cuts_def tx by blast
      note cl2 = cuts_sublist [OF this, of "tok_text ?d"]
      obtain o1 where o1: "partition_fragments raw i (tok_attr ?d) (tok_text ?d) buf 0 = Some o1"
        "\<forall>f\<in>set o1. fragment_ok v (\<lambda>s. P s \<and> \<not> sublist (tok_text ?d) s) raw f" "concat (map (fragment_str v raw) o1) = concat (map (fragment_str v raw) buf)"
        using partition_fragments_ok [OF i(3,4,5) refl mem, where P = P, OF cl Cons.prems(3), of "[]"] by auto
      let ?P = "\<lambda>s. P s \<and> \<not> sublist (tok_text ?d) s"
      from Cons.IH [OF sub cl2 o1(2)] obtain out where "for_each ?body is o1 = Some out"
        "\<forall>f\<in>set out. fragment_ok v (\<lambda>s. ?P s \<and> (\<forall>t\<in>set (?texts is). \<not> sublist t s)) raw f" "concat (map (fragment_str v raw) out) = concat (map (fragment_str v raw) o1)" by blast
      then show ?thesis using o1 d False by (intro exI [of _ out]) (auto simp: fragment_ok_def split: fragment_buffer_variant.splits)
    qed
  qed simp
  from this [OF subset_refl, of P buf] assms(2,3) show ?thesis unfolding tokenizer_st_partition_def special_texts_def by blast
qed


definition special_vocab :: "nat vocab_impl" where
  "special_vocab = tiny_bpe_vocab\<lparr>cache_special_tokens := [4], id_to_token := id_to_token tiny_bpe_vocab @ [\<lparr>tok_text = ''<s>'', tok_score = 0, tok_attr = ATTR_CONTROL\<rparr>]\<rparr>"


end
