(* ===== verification/Vocab_Roundtrip.thy ===== *)
theory Vocab_Roundtrip
  imports Vocab_Tokenize Vocab_Pretok
begin

text \<open>
  Tokenizing and detokenizing with a byte-level BPE vocabulary: pre-tokenizer, byte alphabet, merges, lookup, pieces and the
  caller's buffer together.
\<close>

section \<open>Byte-level vocabularies\<close>

text \<open>A string with a token of its own, marked as normal text.\<close>

definition ordinary :: "'s vocab_impl \<Rightarrow> string \<Rightarrow> bool" where
  "ordinary v t \<longleftrightarrow> (\<exists>i. token_to_id v t = Some i \<and> 0 \<le> i \<and> nat i < n_tokens v \<and>
     tok_text (id_to_token v ! nat i) = t \<and> tok_attr (id_to_token v ! nat i) = ATTR_NORMAL)"

text \<open>
  What a byte-level vocabulary has: a token for every letter of the byte alphabet and for the result of every merge, and no
  special treatment of blanks.
\<close>

definition byte_level :: "'s vocab_impl \<Rightarrow> bool" where
  "byte_level v \<longleftrightarrow> vocab_type v = VOCAB_BPE \<and> \<not> clean_spaces v \<and> \<not> add_space_prefix v \<and> cache_token_to_piece v = [] \<and>
     (\<forall>b s. 0 \<le> b \<longrightarrow> b < 256 \<longrightarrow> unicode_byte_to_utf8 b = Some s \<longrightarrow> ordinary v s) \<and>
     (\<forall>x y r. bpe_ranks v (x, y) = Some r \<longrightarrow> ordinary v (x @ y)) \<and>
     (\<forall>w. ignore_merges v \<longrightarrow> known_token v w \<noteq> None \<longrightarrow> ordinary v w)"

lemma ordinary_token:
  assumes "ordinary v t"
  obtains i where "piece_tokens v t = [i]" "0 \<le> i" "nat i < n_tokens v" "tok_text (id_to_token v ! nat i) = t" "tok_attr (id_to_token v ! nat i) = ATTR_NORMAL"
proof -
  obtain i where i: "token_to_id v t = Some i" "0 \<le> i" "nat i < n_tokens v" "tok_text (id_to_token v ! nat i) = t" "tok_attr (id_to_token v ! nat i) = ATTR_NORMAL"
    using assms by (auto simp: ordinary_def)
  then have "piece_tokens v t = [i]" by (simp add: piece_tokens_def known_token_def LLAMA_TOKEN_NULL_def)
  with i show ?thesis using that by blast
qed

lemma spelled_piece:
  assumes "byte_level v" and "ordinary v (spell u)" and "int (length u) < INT32_MAX"
  shows "\<exists>i. piece_tokens v (spell u) = [i] \<and> piece_of v i 0 special = Some u"
proof -
  obtain i where i: "piece_tokens v (spell u) = [i]" "0 \<le> i" "nat i < n_tokens v" "tok_text (id_to_token v ! nat i) = spell u"
    "tok_attr (id_to_token v ! nat i) = ATTR_NORMAL" using ordinary_token [OF assms(2)] by blast
  have v: "vocab_type v = VOCAB_BPE" "cache_token_to_piece v = []" using assms(1) by (auto simp: byte_level_def)
  have skip: "skip_blanks 0 s = s" for s by (cases s) simp_all
  have "token_to_piece v i len 0 special = Some (fit len u)" for len
    using i v assms(3) by (simp add: token_to_piece_def token_get_attr_def get_token_data_def n_tokens_def has_attr_def ATTR_UNKNOWN_def
        ATTR_CONTROL_def ATTR_USER_DEFINED_def ATTR_NORMAL_def decode_spell try_copy_def fit_def skip Let_def)
  then have "piece_of v i 0 special = Some u" by (cases u) (simp_all add: piece_of_def fit_def)
  with i show ?thesis by blast
qed

lemma spell_inj: "spell u = spell w \<Longrightarrow> u = w"
  by (metis decode_spell option.inject)

lemma concat_spell: "concat (map spell us) = spell (concat us)"
proof (induction us)
  case Nil
  show ?case by (simp add: spell_def encode_def)
next
  case (Cons u us)
  then show ?case by (simp add: spell_append)
qed

text \<open>The pieces of a spelled word spell a partition of the word.\<close>

lemma bpe_pieces_spell:
  assumes "byte_level v"
  shows "\<exists>us. bpe_pieces v (spell w) = map spell us \<and> concat us = w \<and> (\<forall>u\<in>set us. ordinary v (spell u))"
proof (cases "ignore_merges v \<and> (\<exists>i. token_to_id v (spell w) = Some i \<and> i \<noteq> LLAMA_TOKEN_NULL)")
  case True
  show ?thesis
  proof (cases "spell w = []")
    case False
    have "known_token v (spell w) \<noteq> None" using True by (auto simp: known_token_def)
    then have "ordinary v (spell w)" using True assms by (auto simp: byte_level_def)
    then show ?thesis using True False by (intro exI [of _ "[w]"]) (simp add: bpe_pieces_def)
  next
    case nil: True
    then have "w = []" using spell_inj [of w "[]"] by (simp add: spell_def encode_def)
    then show ?thesis using True nil by (intro exI [of _ "[]"]) (simp add: bpe_pieces_def)
  qed
next
  case False
  let ?ps = "greedy_merge (<) (bpe_prio v) (utf8_chars (spell w))"
  let ?P = "\<lambda>p. \<exists>u. p = spell u \<and> ordinary v p"
  have letter: "ordinary v (spell [b])" for b
  proof -
    have "unicode_byte_to_utf8 (ub b) = Some (spell [b])" using byte_to_utf8_enc [of "ub b"] ub_range [of b] by (simp add: spell_def encode_def)
    moreover have "\<forall>b s. 0 \<le> b \<longrightarrow> b < 256 \<longrightarrow> unicode_byte_to_utf8 b = Some s \<longrightarrow> ordinary v s" using assms by (simp add: byte_level_def)
    ultimately show ?thesis using ub_range [of b] by blast
  qed
  have "\<forall>p\<in>set ?ps. ?P p"
  proof (rule greedy_merge_pieces)
    show "\<forall>p\<in>set (utf8_chars (spell w)). ?P p" using letter by (auto simp: utf8_chars_spell)
    show "?P (x @ y)" if "?P x" "?P y" "bpe_prio v x y \<noteq> None" for x y
    proof -
      from \<open>?P x\<close> \<open>?P y\<close> obtain a b where "x = spell a" "y = spell b" by blast
      moreover have "ordinary v (x @ y)" using that(3) assms by (auto simp: bpe_prio_def byte_level_def split: option.splits)
      ultimately show ?thesis using spell_append by metis
    qed
  qed
  then obtain f where f: "\<forall>p\<in>set ?ps. p = spell (f p) \<and> ordinary v p" by metis
  let ?us = "map f ?ps"
  have ps: "?ps = map spell ?us" using f by (simp add: map_idI)
  have "spell (concat ?us) = concat ?ps" using concat_spell [of ?us] ps by simp
  also have "\<dots> = spell w" by (simp add: concat_greedy_merge concat_utf8_chars)
  finally have "concat ?us = w" by (rule spell_inj)
  moreover have "\<forall>u\<in>set ?us. ordinary v (spell u)" using f by auto
  ultimately show ?thesis using ps False unfolding bpe_pieces_def by (intro exI [of _ ?us]) auto
qed

lemma pieces_of_spelled:
  assumes "byte_level v" and "\<forall>u\<in>set us. ordinary v (spell u) \<and> int (length u) < INT32_MAX"
  shows "pieces_of v special False (concat (map (piece_tokens v) (map spell us))) = Some us"
  using assms(2)
proof (induction us)
  case (Cons u us)
  obtain i where "piece_tokens v (spell u) = [i]" "piece_of v i 0 special = Some u" using spelled_piece [OF assms(1), of u special] Cons.prems by (meson list.set_intros(1))
  then show ?case using Cons by simp
qed simp

lemma bpe_words_spell:
  assumes "byte_level v"
  shows "\<exists>us. concat (map (bpe_pieces v) (map spell ws)) = map spell us \<and> concat us = concat ws \<and> (\<forall>u\<in>set us. ordinary v (spell u))"
proof (induction ws)
  case (Cons w ws)
  then obtain us where us: "concat (map (bpe_pieces v) (map spell ws)) = map spell us" "concat us = concat ws" "\<forall>u\<in>set us. ordinary v (spell u)" by blast
  obtain vs where vs: "bpe_pieces v (spell w) = map spell vs" "concat vs = w" "\<forall>u\<in>set vs. ordinary v (spell u)" using bpe_pieces_spell [OF assms] by blast
  show ?case by (rule exI [of _ "vs @ us"]) (use us vs in auto)
qed simp

lemma length_concat_mem: "u \<in> set us \<Longrightarrow> length u \<le> length (concat us)"
  by (induction us) auto

section \<open>Fragments\<close>

definition valid_utf8 :: "string \<Rightarrow> bool" where
  "valid_utf8 s \<longleftrightarrow> (\<exists>cps. (\<forall>c\<in>set cps. is_cpt c) \<and> s = encode cps)"

lemma cuts_valid: "list_all valid_utf8 ts \<Longrightarrow> list_all (\<lambda>t. t \<noteq> []) ts \<Longrightarrow> cuts ts valid_utf8"
  unfolding cuts_def
proof (intro ballI allI impI)
  fix t a b assume ts: "list_all valid_utf8 ts" "list_all (\<lambda>t. t \<noteq> []) ts" "t \<in> set ts" "valid_utf8 (a @ t @ b)"
  then have "valid_utf8 t" "t \<noteq> []" by (auto simp: list_all_iff)
  then obtain us where us: "\<forall>c\<in>set us. is_cpt c" "t = encode us" "us \<noteq> []" unfolding valid_utf8_def by (metis encode_Nil)
  obtain cps where cps: "\<forall>c\<in>set cps. is_cpt c" "a @ t @ b = encode cps" using ts(4) unfolding valid_utf8_def by blast
  from encode_occurrence [OF cps(1) us(1,3)] cps(2) us(2) obtain as bs where "cps = as @ us @ bs" "a = encode as" "b = encode bs" by metis
  then show "valid_utf8 a \<and> valid_utf8 b" using cps(1) unfolding valid_utf8_def by auto
qed

lemma pieces_of_append:
  "pieces_of v special False (a @ b) = do { p \<leftarrow> pieces_of v special False a; q \<leftarrow> pieces_of v special False b; Some (p @ q) }"
  by (induction a) (simp_all split: bind_splits)

text \<open>Tokens that read back as the string \<open>s\<close>.\<close>

definition reads_as :: "'s vocab_impl \<Rightarrow> int list \<Rightarrow> string \<Rightarrow> bool" where
  "reads_as v tokens s \<longleftrightarrow> (\<exists>ps. pieces_of v True False tokens = Some ps \<and> concat ps = s)"

lemma reads_as_append: "reads_as v a s \<Longrightarrow> reads_as v b t \<Longrightarrow> reads_as v (a @ b) (s @ t)"
  unfolding reads_as_def by (auto simp: pieces_of_append)

text \<open>With custom splitters \<open>std::regex\<close> plays no part, so that any function may stand for it.\<close>

lemma whole_match_law: "regex_law whole_match"
  by (simp add: regex_law_def whole_match_def)

lemma bpe_reads_as:
  assumes "byte_level v" and "pq_law bpe_lower pop" and "set regex_exprs \<subseteq> custom_regexes" and "valid_utf8 text" and "text \<noteq> []" and "int (length text) < INT32_MAX"
  shows "\<exists>ts. bpe_tokenize rx tb v pop regex_exprs text out = Some (out @ ts) \<and> reads_as v ts text"
proof -
  obtain cps where cps: "\<forall>c\<in>set cps. is_cpt c" "text = encode cps" using assms(4) unfolding valid_utf8_def by blast
  then have u: "unicode_cpts_to_utf8 cps = Some text" using cpts_to_utf8_encode by simp
  have c: "unicode_cpts_from_utf8 text = cps" using cps cpts_from_encode [OF cps(1)] by simp
  obtain words where w: "\<And>rx. unicode_regex_split rx tb text regex_exprs = Some words"
    using regex_split_custom [OF assms(3,5), of tb] c cps(1) by auto
  obtain ws where ws: "words = map spell ws" "concat ws = text" using split_words_clean [OF whole_match_law u cps(1) w] by blast
  obtain us where us: "concat (map (bpe_pieces v) (map spell ws)) = map spell us" "concat us = text" "\<forall>u\<in>set us. ordinary v (spell u)"
    using bpe_words_spell [OF assms(1), of ws] ws(2) by auto
  have vt: "vocab_type v \<noteq> VOCAB_NONE" using assms(1) by (auto simp: byte_level_def)
  have "\<forall>w\<in>set words. bpe_clean w" using ws(1) spell_clean by auto
  from bpe_tokenize_pieces [OF assms(2) vt w this]
  have tok: "bpe_tokenize rx tb v pop regex_exprs text out = Some (out @ concat (map (piece_tokens v) (map spell us)))" using us(1) ws(1) by simp
  have "int (length u) < INT32_MAX" if "u \<in> set us" for u
    using length_concat_mem [OF that] us(2) assms(6) by simp
  then have "pieces_of v True False (concat (map (piece_tokens v) (map spell us))) = Some us"
    using pieces_of_spelled [OF assms(1)] us(3) by simp
  then show ?thesis using tok us(2) unfolding reads_as_def by blast
qed

text \<open>The special tokens read as their texts: they have a text of valid UTF-8 and one of the attributes that mark them.\<close>

definition printed_specials :: "'s vocab_impl \<Rightarrow> bool" where
  "printed_specials v \<longleftrightarrow> plain_specials v \<and> (\<forall>i\<in>set (cache_special_tokens v). let d = id_to_token v ! nat i in
     valid_utf8 (tok_text d) \<and> int (length (tok_text d)) < INT32_MAX \<and>
     (has_attr (tok_attr d) ATTR_UNKNOWN \<or> has_attr (tok_attr d) ATTR_CONTROL \<or> has_attr (tok_attr d) ATTR_USER_DEFINED))"

lemma special_reads_as:
  assumes "byte_level v" and "printed_specials v" and "i \<in> set (cache_special_tokens v)"
  shows "reads_as v [i] (tok_text (id_to_token v ! nat i))"
proof -
  let ?d = "id_to_token v ! nat i"
  have v: "vocab_type v = VOCAB_BPE" "cache_token_to_piece v = []" using assms(1) by (auto simp: byte_level_def)
  have i: "0 \<le> i" "nat i < n_tokens v" "int (length (tok_text ?d)) < INT32_MAX"
    "has_attr (tok_attr ?d) ATTR_UNKNOWN \<or> has_attr (tok_attr ?d) ATTR_CONTROL \<or> has_attr (tok_attr ?d) ATTR_USER_DEFINED"
    using assms(2,3) by (auto simp: printed_specials_def plain_specials_def Let_def)
  have skip: "skip_blanks 0 s = s" for s by (cases s) simp_all
  have "token_to_piece v i len 0 True = Some (fit len (tok_text ?d))" for len
    using i v by (auto simp: token_to_piece_def token_get_attr_def get_token_data_def n_tokens_def try_copy_def fit_def skip Let_def)
  then have "piece_of v i 0 True = Some (tok_text ?d)" by (cases "tok_text ?d") (simp_all add: piece_of_def fit_def)
  then show ?thesis by (simp add: reads_as_def)
qed

lemma fragments_read_as:
  assumes "byte_level v" and "pq_law bpe_lower pop" and "set regex_exprs \<subseteq> custom_regexes" and "printed_specials v" and "int (length raw) < INT32_MAX"
    and "\<forall>f\<in>set fs. fragment_ok v valid_utf8 raw f"
  shows "\<exists>ts. for_each (session_fragment (bpe_tokenize rx tb v pop regex_exprs) raw) fs out = Some (out @ ts) \<and> reads_as v ts (concat (map (fragment_str v raw) fs))"
  using assms(6)
proof (induction fs arbitrary: out)
  case Nil
  then show ?case by (simp add: reads_as_def)
next
  case (Cons f fs)
  have "\<exists>ts. session_fragment (bpe_tokenize rx tb v pop regex_exprs) raw f out = Some (out @ ts) \<and> reads_as v ts (fragment_str v raw f)"
  proof (cases f)
    case (Raw_text off len)
    then have f: "1 \<le> len" "off + len \<le> length raw" "valid_utf8 (take len (drop off raw))" using Cons.prems by (auto simp: fragment_ok_def)
    then have "take len (drop off raw) \<noteq> []" "int (length (take len (drop off raw))) < INT32_MAX" using assms(5) by auto
    from bpe_reads_as [OF assms(1,2,3) f(3) this] show ?thesis using Raw_text by (simp add: session_fragment_def)
  next
    case (Special_token i)
    then show ?thesis using special_reads_as [OF assms(1,4), of i] Cons.prems by (simp add: session_fragment_def fragment_ok_def)
  qed
  then obtain ts where ts: "session_fragment (bpe_tokenize rx tb v pop regex_exprs) raw f out = Some (out @ ts)" "reads_as v ts (fragment_str v raw f)" by blast
  obtain us where us: "for_each (session_fragment (bpe_tokenize rx tb v pop regex_exprs) raw) fs (out @ ts) = Some ((out @ ts) @ us)"
    "reads_as v us (concat (map (fragment_str v raw) fs))" using Cons by (metis list.set_intros(2))
  then show ?case using ts reads_as_append by (intro exI [of _ "ts @ us"]) simp
qed

text \<open>The vocabulary of the 256 byte letters alone.\<close>

definition byte_letter :: "nat \<Rightarrow> string" where
  "byte_letter b = the (unicode_byte_to_utf8 (int b))"

definition byte_vocab :: "nat vocab_impl" where
  "byte_vocab =
     \<lparr>vocab_type = VOCAB_BPE, token_to_id = map_of (map (\<lambda>b. (byte_letter b, int b)) [0..<256]),
      id_to_token = map (\<lambda>b. \<lparr>tok_text = byte_letter b, tok_score = 0, tok_attr = ATTR_NORMAL\<rparr>) [0..<256], bpe_ranks = Map.empty,
      add_space_prefix = False, add_bos = False, add_eos = False, ignore_merges = False, clean_spaces = False,
      cache_token_to_piece = [], special_bos_id = LLAMA_TOKEN_NULL, special_eos_id = LLAMA_TOKEN_NULL, special_unk_id = LLAMA_TOKEN_NULL,
      special_sep_id = LLAMA_TOKEN_NULL, cache_special_tokens = []\<rparr>"

lemma byte_letter_inj: "inj_on byte_letter {0..<256}"
  by (rule inj_onI) (simp add: byte_letter_def byte_to_utf8_enc enc_byte_inj)

lemma byte_letter_token: "b < 256 \<Longrightarrow> ordinary byte_vocab (byte_letter b)"
proof -
  assume b: "b < 256"
  have "distinct (map fst (map (\<lambda>b. (byte_letter b, int b)) [0..<256]))"
    using byte_letter_inj by (simp add: distinct_map o_def)
  then have "token_to_id byte_vocab (byte_letter b) = Some (int b)"
    using b by (auto simp: byte_vocab_def map_of_eq_Some_iff)
  then show ?thesis using b by (auto simp: ordinary_def byte_vocab_def n_tokens_def)
qed

lemma byte_vocab_level: "byte_level byte_vocab"
proof -
  have "ordinary byte_vocab s" if "0 \<le> b" "b < 256" "unicode_byte_to_utf8 b = Some s" for b s
    using byte_letter_token [of "nat b"] that by (simp add: byte_letter_def nat_less_iff)
  then show ?thesis by (auto simp: byte_level_def byte_vocab_def)
qed

section \<open>Tokenizing and detokenizing\<close>

text \<open>The types whose expressions all have a hand-written splitter.\<close>

definition custom_pre_types :: "llama_vocab_pre_type list" where
  "custom_pre_types =
     [PRE_LLAMA3, PRE_DBRX, PRE_SMAUG, PRE_GPT2, PRE_MPT, PRE_OLMO, PRE_JAIS, PRE_TRILLION, PRE_GRANITE_DOCLING, PRE_CHATGLM4, PRE_KIMI_K2]"

lemma custom_pre_type: "pre_type \<in> set custom_pre_types \<Longrightarrow> set (llm_tokenizer_bpe pre_type) \<subseteq> custom_regexes"
  by (auto simp: custom_pre_types_def llm_tokenizer_bpe_def custom_regexes_def)

lemma fragments_valid:
  assumes "printed_specials v" and "valid_utf8 raw"
  shows "\<exists>fs. fragments_of v raw parse_special = Some fs \<and> (\<forall>f\<in>set fs. fragment_ok v valid_utf8 raw f) \<and> concat (map (fragment_str v raw) fs) = raw"
proof (cases "raw = []")
  case False
  have p: "plain_specials v" using assms(1) by (simp add: printed_specials_def)
  have "list_all valid_utf8 (special_texts v parse_special)" "list_all (\<lambda>t. t \<noteq> []) (special_texts v parse_special)"
    using assms(1) by (auto simp: special_texts_def printed_specials_def plain_specials_def list_all_iff Let_def)
  note c = cuts_valid [OF this]
  have "raw_fragment raw 0 (length raw) = Some (Raw_text 0 (length raw))" using False by (cases raw) (simp_all add: raw_fragment_def)
  moreover have "\<forall>f\<in>set [Raw_text 0 (length raw)]. fragment_ok v valid_utf8 raw f"
    using False assms(2) by (cases raw) (simp_all add: fragment_ok_def)
  from st_partition_ok [OF p c this] obtain fs where "tokenizer_st_partition v raw parse_special [Raw_text 0 (length raw)] = Some fs"
    "\<forall>f\<in>set fs. fragment_ok v (\<lambda>s. valid_utf8 s \<and> (\<forall>t\<in>set (special_texts v parse_special). \<not> sublist t s)) raw f"
    "concat (map (fragment_str v raw) fs) = raw" by auto
  moreover from this(2) have "\<forall>f\<in>set fs. fragment_ok v valid_utf8 raw f" by (auto simp: fragment_ok_def split: fragment_buffer_variant.splits)
  ultimately show ?thesis using False by (simp add: fragments_of_def)
qed (simp add: fragments_of_def)


text \<open>The byte letters and an end-of-text token.\<close>

definition special_byte_vocab :: "nat vocab_impl" where
  "special_byte_vocab = byte_vocab\<lparr>id_to_token := id_to_token byte_vocab @ [\<lparr>tok_text = ''<e>'', tok_score = 0, tok_attr = ATTR_CONTROL\<rparr>],
     cache_special_tokens := [256]\<rparr>"

lemma special_byte_vocab_level: "byte_level special_byte_vocab"
proof -
  have "ordinary special_byte_vocab s" if "ordinary byte_vocab s" for s
    using that by (auto simp: ordinary_def special_byte_vocab_def n_tokens_def nth_append)
  then show ?thesis using byte_vocab_level by (auto simp: byte_level_def special_byte_vocab_def byte_vocab_def)
qed

lemma special_byte_vocab_specials: "printed_specials special_byte_vocab"
proof -
  have "valid_utf8 ''<e>''" unfolding valid_utf8_def by (rule exI [of _ "[60, 101, 62]"]) code_simp
  then show ?thesis by (simp add: printed_specials_def plain_specials_def special_byte_vocab_def byte_vocab_def n_tokens_def nth_append
      has_attr_def ATTR_CONTROL_def ATTR_LSTRIP_def ATTR_RSTRIP_def INT32_MAX_def Let_def)
qed


end
