(* ===== verification/Vocab_SPM_Roundtrip.thy ===== *)
theory Vocab_SPM_Roundtrip
  imports Vocab_Roundtrip
begin

text \<open>
  Tokenizing and detokenizing with an SPM vocabulary: blanks are written as the character U+2581, the space prefix is added
  and removed again, and characters without a token become byte tokens.
\<close>

section \<open>Blanks\<close>

lemma replace_all_skip:
  assumes "search \<noteq> []" and "hd search \<notin> set xs"
  shows "replace_all (xs @ r) search rep = xs @ replace_all r search rep"
  using assms(2)
proof (induction xs)
  case (Cons x xs)
  have "take (length search) (x # xs @ r) \<noteq> search" using assms(1) Cons.prems by (cases search) auto
  then show ?case using Cons assms(1) by (subst replace_all.simps) simp
qed simp

lemma replace_all_hit: "search \<noteq> [] \<Longrightarrow> replace_all (search @ r) search rep = rep @ replace_all r search rep"
  by (subst replace_all.simps) simp

lemma enc_phantom: "enc 0x2581 = phantom_space"
  by code_simp

lemma enc_blank: "enc 32 = '' ''"
  by code_simp

lemma enc_no_blank: "is_cpt c \<Longrightarrow> c \<noteq> 32 \<Longrightarrow> CHR '' '' \<notin> set (enc c)"
proof -
  assume c: "is_cpt c" "c \<noteq> 32"
  have b: "ub (CHR '' '') = 32" by code_simp
  have "\<forall>x\<in>set (enc c). ub x \<noteq> 32"
    using c(1) by (cases rule: encode_cases) (use c in \<open>simp_all add: enc_def\<close>)
  then show ?thesis using b by force
qed

lemma escape_encode:
  assumes "\<forall>c\<in>set cs. is_cpt c"
  shows "llama_escape_whitespace (encode cs) = encode (map (\<lambda>c. if c = 32 then 0x2581 else c) cs)"
  using assms
proof (induction cs)
  case Nil
  then show ?case by (simp add: llama_escape_whitespace_def replace_all.simps)
next
  case (Cons c cs)
  show ?case
  proof (cases "c = 32")
    case True
    have "llama_escape_whitespace ('' '' @ encode cs) = phantom_space @ llama_escape_whitespace (encode cs)"
      unfolding llama_escape_whitespace_def by (rule replace_all_hit) simp
    then show ?thesis using Cons True by (simp add: encode_Cons enc_blank enc_phantom)
  next
    case False
    have "llama_escape_whitespace (enc c @ encode cs) = enc c @ llama_escape_whitespace (encode cs)"
      unfolding llama_escape_whitespace_def by (rule replace_all_skip) (use enc_no_blank [of c] False Cons.prems in auto)
    then show ?thesis using Cons False by (simp add: encode_Cons)
  qed
qed

lemma unescape_encode:
  assumes "\<forall>c\<in>set cs. is_cpt c"
  shows "llama_unescape_whitespace (encode cs) = encode (map (\<lambda>c. if c = 0x2581 then 32 else c) cs)"
  using assms
proof (induction cs)
  case Nil
  then show ?case by (simp add: llama_unescape_whitespace_def replace_all.simps)
next
  case (Cons c cs)
  have ne: "phantom_space \<noteq> []" by (simp add: phantom_space_def)
  show ?case
  proof (cases "c = 0x2581")
    case True
    have "llama_unescape_whitespace (phantom_space @ encode cs) = '' '' @ llama_unescape_whitespace (encode cs)"
      unfolding llama_unescape_whitespace_def by (rule replace_all_hit [OF ne])
    then show ?thesis using Cons True by (simp add: encode_Cons enc_blank enc_phantom)
  next
    case False
    obtain x xs where x: "enc c = x # xs" "\<forall>y\<in>set xs. cont y" using enc_cont [of c] Cons.prems by auto
    have "take (length phantom_space) (encode (c # cs)) \<noteq> phantom_space"
    proof
      assume "take (length phantom_space) (encode (c # cs)) = phantom_space"
      then have "encode (c # cs) = encode [0x2581] @ drop (length phantom_space) (encode (c # cs))"
        by (metis append_take_drop_id encode_Cons encode_Nil append_Nil2 enc_phantom)
      from encode_prefix [OF Cons.prems _ this] show False using False by auto
    qed
    then have "replace_all (encode (c # cs)) phantom_space '' '' = x # replace_all (xs @ encode cs) phantom_space '' ''"
      using ne x(1) by (subst replace_all.simps) (simp add: encode_Cons)
    also have "replace_all (xs @ encode cs) phantom_space '' '' = xs @ replace_all (encode cs) phantom_space '' ''"
    proof (rule replace_all_skip [OF ne])
      have "\<not> cont (hd phantom_space)" by code_simp
      then show "hd phantom_space \<notin> set xs" using x(2) by blast
    qed
    finally show ?thesis using Cons False x(1) by (simp add: llama_unescape_whitespace_def encode_Cons)
  qed
qed

text \<open>A text without U+2581 survives.\<close>

lemma unescape_escape:
  assumes "\<forall>c\<in>set cs. is_cpt c" and "0x2581 \<notin> set cs"
  shows "llama_unescape_whitespace (llama_escape_whitespace (encode cs)) = encode cs"
proof -
  have "map ((\<lambda>c. if c = 0x2581 then 32 else c) \<circ> (\<lambda>c. if c = 32 then 0x2581 else c)) cs = cs"
    using assms(2) by (induction cs) auto
  moreover have "\<forall>c\<in>set (map (\<lambda>c. if c = 32 then 0x2581 else c) cs). is_cpt c" using assms(1) by auto
  ultimately show ?thesis using assms(1) by (simp add: escape_encode unescape_encode)
qed

section \<open>Pieces\<close>

definition byte_name :: "int \<Rightarrow> string" where
  "byte_name b = ''<0x'' @ [hex_upper (b div 16), hex_upper (b mod 16)] @ ''>''"

text \<open>What an SPM vocabulary has: a token for U+2581, and a byte token for every byte.\<close>

definition spm_level :: "'s vocab_impl \<Rightarrow> bool" where
  "spm_level v \<longleftrightarrow> ids_int32 v \<and> \<not> clean_spaces v \<and> cache_token_to_piece v = [] \<and> ordinary v phantom_space \<and>
     (\<forall>b. 0 \<le> b \<longrightarrow> b < 256 \<longrightarrow> (\<exists>i. token_to_id v (byte_name b) = Some i \<and> 0 \<le> i \<and> nat i < n_tokens v \<and>
        tok_text (id_to_token v ! nat i) = byte_name b \<and> tok_attr (id_to_token v ! nat i) = ATTR_BYTE))"

text \<open>No byte token and no special token is spelled out in the text.\<close>

definition ordinary_in :: "'s vocab_impl \<Rightarrow> string \<Rightarrow> bool" where
  "ordinary_in v s \<longleftrightarrow> (\<forall>m. sublist m s \<longrightarrow> m \<noteq> [] \<longrightarrow> known_token v m \<noteq> None \<longrightarrow> ordinary v m)"

lemma byte_name_value:
  assumes "0 \<le> b" and "b < 256"
  shows "strtol16 (take 2 (drop 3 (byte_name b))) = b"
proof -
  have "list_all (\<lambda>b. strtol16 (take 2 (drop 3 (byte_name b))) = b) [0..255]" by code_simp
  then show ?thesis using assms by (simp add: list_all_iff)
qed

lemma byte_piece:
  assumes "spm_level v"
  shows "\<exists>i. byte_to_token v (ub c) = Some i \<and> piece_of v i 0 special = Some [c]"
proof -
  have v: "vocab_type v = VOCAB_SPM" "cache_token_to_piece v = []" using assms by (auto simp: spm_level_def ids_int32_def)
  obtain i where i: "token_to_id v (byte_name (ub c)) = Some i" "0 \<le> i" "nat i < n_tokens v" "tok_text (id_to_token v ! nat i) = byte_name (ub c)"
    "tok_attr (id_to_token v ! nat i) = ATTR_BYTE" using assms ub_range [of c] unfolding spm_level_def by blast
  have "byte_to_token v (ub c) = Some i" using i(1) v(1) by (simp add: byte_to_token_def byte_name_def)
  moreover have d: "get_token_data v i = Some (id_to_token v ! nat i)" using i(2,3) v(1) by (simp add: get_token_data_def n_tokens_def)
  have "chr_of (ub c) = c" by (simp add: chr_of_def ub_def)
  then have "token_to_byte v i = Some (ub c)"
    using d i(2-5) v(1) byte_name_value [of "ub c"] ub_range [of c]
    by (simp add: token_to_byte_def is_byte_def token_get_attr_def n_tokens_def has_attr_def ATTR_BYTE_def byte_name_def)
  then have "token_to_piece v i len 0 special = Some (fit len [c])" for len
    using d i(2,3,5) v \<open>chr_of (ub c) = c\<close>
    by (simp add: token_to_piece_def token_get_attr_def n_tokens_def has_attr_def ATTR_UNKNOWN_def ATTR_CONTROL_def ATTR_USER_DEFINED_def ATTR_NORMAL_def ATTR_BYTE_def
        try_copy_def fit_def INT32_MAX_def Let_def)
  then have "piece_of v i 0 special = Some [c]" by (simp add: piece_of_def fit_def)
  ultimately show ?thesis by blast
qed

lemma length_replace_all:
  "rep \<noteq> [] \<Longrightarrow> length rep \<le> length search \<Longrightarrow> length (replace_all s search rep) \<le> length s"
proof (induction s search rep rule: replace_all.induct)
  case (1 s search rep)
  show ?case
  proof (cases "search = [] \<or> s = []")
    case True
    then show ?thesis by (subst replace_all.simps) simp
  next
    case False
    show ?thesis
    proof (cases "take (length search) s = search")
      case True
      then have "length search \<le> length s" by (metis length_take min.cobounded1 min_def)
      moreover have "length (replace_all (drop (length search) s) search rep) \<le> length (drop (length search) s)" using 1 False True by blast
      ultimately show ?thesis using 1 False True by (subst replace_all.simps) simp
    next
      case no: False
      then show ?thesis using 1 False by (cases s) (subst replace_all.simps, simp)+
    qed
  qed
qed

lemma length_unescape: "length (llama_unescape_whitespace s) \<le> length s"
  unfolding llama_unescape_whitespace_def by (rule length_replace_all) (simp_all add: phantom_space_def)

lemma ordinary_spm:
  assumes "spm_level v" and "ordinary v p" and "int (length p) < INT32_MAX"
  shows "\<exists>i. known_token v p = Some i \<and> (\<forall>k. piece_of v i (int k) special = Some (skip_blanks k (llama_unescape_whitespace p)))"
proof -
  have v: "vocab_type v = VOCAB_SPM" "cache_token_to_piece v = []" using assms by (auto simp: spm_level_def ids_int32_def)
  obtain i where i: "token_to_id v p = Some i" "0 \<le> i" "nat i < n_tokens v" "tok_text (id_to_token v ! nat i) = p"
    "tok_attr (id_to_token v ! nat i) = ATTR_NORMAL" using assms(2) by (auto simp: ordinary_def)
  have "token_to_piece v i len (int k) special = Some (fit len (skip_blanks k (llama_unescape_whitespace p)))" for len k
    using i v assms(3) length_unescape [of p]
    by (auto simp: token_to_piece_def token_get_attr_def get_token_data_def n_tokens_def has_attr_def ATTR_UNKNOWN_def ATTR_CONTROL_def
        ATTR_USER_DEFINED_def ATTR_NORMAL_def try_copy_def fit_def Let_def)
  then have "piece_of v i (int k) special = Some (skip_blanks k (llama_unescape_whitespace p))" for k
    by (cases "skip_blanks k (llama_unescape_whitespace p)") (simp_all add: piece_of_def fit_def)
  moreover have "known_token v p = Some i" using i(1,2) by (simp add: known_token_def LLAMA_TOKEN_NULL_def)
  ultimately show ?thesis by blast
qed

text \<open>The pieces that the merges leave: encoded code points, with a token or a single character.\<close>

definition spm_piece :: "'s vocab_impl \<Rightarrow> string \<Rightarrow> bool" where
  "spm_piece v p \<longleftrightarrow> valid_utf8 p \<and> p \<noteq> [] \<and> (known_token v p \<noteq> None \<or> (\<exists>c. is_cpt c \<and> p = enc c))"

lemma valid_utf8_append: "valid_utf8 a \<Longrightarrow> valid_utf8 b \<Longrightarrow> valid_utf8 (a @ b)"
  unfolding valid_utf8_def by (metis Un_iff encode_append set_append)

lemma spm_pieces:
  assumes "\<forall>c\<in>set cs. is_cpt c"
  shows "\<forall>p\<in>set (greedy_merge (>) (spm_prio v) (utf8_chars (encode cs))). spm_piece v p"
proof (rule greedy_merge_pieces)
  have "spm_piece v (enc c)" if "c \<in> set cs" for c
  proof -
    have c: "is_cpt c" using assms that by blast
    then have "valid_utf8 (enc c)" unfolding valid_utf8_def by (intro exI [of _ "[c]"]) (simp add: encode_Cons)
    then show ?thesis using c encode_Some [OF c] unfolding spm_piece_def by blast
  qed
  then show "\<forall>p\<in>set (utf8_chars (encode cs)). spm_piece v p" using utf8_chars_encode [OF assms] by auto
  show "spm_piece v (x @ y)" if "spm_piece v x" "spm_piece v y" "spm_prio v x y \<noteq> None" for x y
  proof -
    have "known_token v (x @ y) \<noteq> None" using that(3) by (auto simp: spm_prio_def split: option.splits)
    then show ?thesis using that(1,2) valid_utf8_append by (simp add: spm_piece_def)
  qed
qed

lemma bytes_read_as:
  assumes "spm_level v"
  shows "\<exists>ts. for_each (\<lambda>c output. do { token \<leftarrow> byte_to_token v (ub c); Some (output @ [token]) }) s out = Some (out @ ts) \<and> reads_as v ts s"
proof (induction s arbitrary: out)
  case Nil
  then show ?case by (simp add: reads_as_def)
next
  case (Cons c s)
  obtain i where i: "byte_to_token v (ub c) = Some i" "piece_of v i 0 True = Some [c]" using byte_piece [OF assms] by blast
  obtain ts where ts: "for_each (\<lambda>c output. do { token \<leftarrow> byte_to_token v (ub c); Some (output @ [token]) }) s (out @ [i]) = Some ((out @ [i]) @ ts)" "reads_as v ts s"
    using Cons by blast
  have "reads_as v [i] [c]" using i(2) by (simp add: reads_as_def)
  from reads_as_append [OF this ts(2)] show ?case using i(1) ts(1) by (intro exI [of _ "i # ts"]) simp
qed

lemma emit_reads_as:
  assumes "spm_level v" and "spm_piece v p" and "known_token v p \<noteq> None \<Longrightarrow> ordinary v p" and "int (length p) < INT32_MAX"
  shows "\<exists>ts. spm_emit v p out = Some (out @ ts) \<and> reads_as v ts (llama_unescape_whitespace p)"
proof (cases "known_token v p")
  case (Some i)
  have skip: "skip_blanks 0 s = s" for s by (cases s) simp_all
  from ordinary_spm [OF assms(1,3,4), of True] Some have "\<forall>k. piece_of v i (int k) True = Some (skip_blanks k (llama_unescape_whitespace p))" by auto
  from spec [OF this, of 0] have "reads_as v [i] (llama_unescape_whitespace p)" by (simp add: reads_as_def skip)
  then show ?thesis using Some by (intro exI [of _ "[i]"]) (simp add: spm_emit_def)
next
  case None
  then obtain c where c: "is_cpt c" "p = enc c" using assms(2) by (auto simp: spm_piece_def)
  have "known_token v phantom_space \<noteq> None" using assms(1) by (auto simp: spm_level_def ordinary_def known_token_def LLAMA_TOKEN_NULL_def)
  then have "c \<noteq> 0x2581" using c(2) enc_phantom None by auto
  then have "llama_unescape_whitespace p = p" using unescape_encode [of "[c]"] c by (simp add: encode_Cons)
  then show ?thesis using bytes_read_as [OF assms(1), of p out] None by (simp add: spm_emit_def)
qed

lemma emits_read_as:
  assumes "spm_level v" and "\<forall>p\<in>set ps. spm_piece v p \<and> (known_token v p \<noteq> None \<longrightarrow> ordinary v p) \<and> int (length p) < INT32_MAX"
  shows "\<exists>ts. for_each (spm_emit v) ps out = Some (out @ ts) \<and> reads_as v ts (concat (map llama_unescape_whitespace ps))"
  using assms(2)
proof (induction ps arbitrary: out)
  case Nil
  then show ?case by (simp add: reads_as_def)
next
  case (Cons p ps)
  have p: "spm_piece v p" "known_token v p \<noteq> None \<Longrightarrow> ordinary v p" "int (length p) < INT32_MAX" using Cons.prems by simp_all
  obtain ts where ts: "spm_emit v p out = Some (out @ ts)" "reads_as v ts (llama_unescape_whitespace p)" using emit_reads_as [OF assms(1) p] by blast
  obtain us where us: "for_each (spm_emit v) ps (out @ ts) = Some ((out @ ts) @ us)" "reads_as v us (concat (map llama_unescape_whitespace ps))"
    using Cons by (metis list.set_intros(2))
  from reads_as_append [OF ts(2) us(2)] show ?case using ts(1) us(1) by (intro exI [of _ "ts @ us"]) simp
qed

lemma unescape_pieces:
  assumes "\<forall>p\<in>set ps. valid_utf8 p"
  shows "concat (map llama_unescape_whitespace ps) = llama_unescape_whitespace (concat ps)"
  using assms
proof (induction ps)
  case Nil
  then show ?case by (simp add: llama_unescape_whitespace_def replace_all.simps)
next
  case (Cons p ps)
  obtain a where a: "\<forall>c\<in>set a. is_cpt c" "p = encode a" using Cons.prems unfolding valid_utf8_def by auto
  have "valid_utf8 (concat qs)" if "\<forall>q\<in>set qs. valid_utf8 q" for qs
    using that
  proof (induction qs)
    case Nil
    then show ?case unfolding valid_utf8_def by (intro exI [of _ "[]"]) simp
  qed (auto intro: valid_utf8_append)
  then have "valid_utf8 (concat ps)" using Cons.prems by simp
  then obtain b where b: "\<forall>c\<in>set b. is_cpt c" "concat ps = encode b" unfolding valid_utf8_def by blast
  have "llama_unescape_whitespace (encode (a @ b)) = llama_unescape_whitespace (encode a) @ llama_unescape_whitespace (encode b)"
    using unescape_encode [of "a @ b"] unescape_encode [OF a(1)] unescape_encode [OF b(1)] a(1) b(1) by (simp add: ball_Un encode_append)
  then show ?case using Cons a b by (simp add: encode_append)
qed

section \<open>Tokenizing and detokenizing\<close>

text \<open>A text in which no special token occurs is one fragment.\<close>

lemma fragments_untouched:
  assumes "plain_specials v" and "\<forall>t\<in>set (special_texts v parse_special). \<not> sublist t raw" and "raw \<noteq> []"
  shows "fragments_of v raw parse_special = Some [Raw_text 0 (length raw)]"
proof -
  let ?f = "[Raw_text 0 (length raw)]"
  have "partition_fragments raw i attr t ?f 0 = Some ?f" if t: "\<not> sublist t raw" "t \<noteq> []" for i attr t
  proof -
    have "view_find (take (0 + length raw) raw) t 0 = None"
    proof (rule ccontr)
      assume "view_find (take (0 + length raw) raw) t 0 \<noteq> None"
      then obtain m where m: "view_find (take (0 + length raw) raw) t 0 = Some m" by blast
      from view_find_Some(4) [OF m t(2)] have "sublist t raw" unfolding sublist_def by auto
      then show False using t(1) by simp
    qed
    then have "partition_text raw i attr t ?f 0 0 (length raw) = Some (?f, 0)" by (subst partition_text.simps) simp
    moreover have "partition_fragments raw i attr t ?f (Suc 0) = Some ?f" by (subst partition_fragments.simps) simp
    ultimately show ?thesis by (subst partition_fragments.simps) simp
  qed
  note one = this
  have "for_each (\<lambda>special_id buffer. do {
       data \<leftarrow> get_token_data v special_id;
       if ignored_special parse_special data then Some buffer
       else partition_fragments raw special_id (tok_attr data) (tok_text data) buffer 0 }) is ?f = Some ?f"
    if "set is \<subseteq> set (cache_special_tokens v)" for "is"
    using that
  proof (induction "is")
    case (Cons i "is")
    let ?d = "id_to_token v ! nat i"
    have i: "0 \<le> i" "nat i < n_tokens v" "tok_text ?d \<noteq> []" using assms(1) Cons.prems by (auto simp: plain_specials_def Let_def)
    then have d: "get_token_data v i = Some ?d" using assms(1) by (simp add: get_token_data_def n_tokens_def plain_specials_def)
    have "\<not> sublist (tok_text ?d) raw" if "\<not> ignored_special parse_special ?d" using assms(2) that Cons.prems by (auto simp: special_texts_def)
    then show ?case using Cons one [OF _ i(3)] d by auto
  qed simp
  note this [OF subset_refl]
  moreover have "1 \<le> length raw" using assms(3) by (cases raw) auto
  ultimately show ?thesis using assms(3) by (simp add: fragments_of_def raw_fragment_def tokenizer_st_partition_def)
qed

lemma concat_sublist: "p \<in> set ps \<Longrightarrow> sublist p (concat ps)"
  unfolding sublist_def by (metis concat.simps(2) concat_append split_list)

text \<open>The first piece of a text with a space prefix loses its blank.\<close>

lemma first_piece:
  assumes "spm_level v" and "spm_piece v p" and "known_token v p \<noteq> None \<Longrightarrow> ordinary v p" and "int (length p) < INT32_MAX"
    and "\<forall>c\<in>set cs. is_cpt c" and "p @ r = encode (0x2581 # cs)"
  shows "\<exists>i q. spm_emit v p out = Some (out @ [i]) \<and> piece_of v i 1 True = Some q \<and> llama_unescape_whitespace p = CHR '' '' # q"
proof -
  obtain a where a: "\<forall>c\<in>set a. is_cpt c" "p = encode a" "a \<noteq> []" using assms(2) unfolding spm_piece_def valid_utf8_def by (metis encode_Nil)
  obtain c a' where ca: "a = c # a'" using a(3) by (cases a) auto
  have "enc c @ (encode a' @ r) = enc 0x2581 @ encode cs" using assms(6) a(2) ca by (simp add: encode_Cons)
  then have c: "c = 0x2581" using enc_prefix_free [of c "0x2581"] a(1) ca by simp
  have un: "llama_unescape_whitespace p = CHR '' '' # encode (map (\<lambda>c. if c = 0x2581 then 32 else c) a')"
    using unescape_encode [OF a(1)] a(2) ca c by (simp add: encode_Cons enc_blank)
  have "known_token v p \<noteq> None"
  proof
    assume n: "known_token v p = None"
    then obtain d where d: "is_cpt d" "p = enc d" using assms(2) by (auto simp: spm_piece_def)
    then have "enc d @ [] = enc 0x2581 @ encode a'" using a(2) ca c by (simp add: encode_Cons)
    then have "p = phantom_space" using enc_prefix_free [of d "0x2581"] d enc_phantom by simp
    moreover have "known_token v phantom_space \<noteq> None" using assms(1) by (auto simp: spm_level_def ordinary_def known_token_def LLAMA_TOKEN_NULL_def)
    ultimately show False using n by simp
  qed
  then obtain i where i: "known_token v p = Some i" "\<forall>k. piece_of v i (int k) True = Some (skip_blanks k (llama_unescape_whitespace p))"
    using ordinary_spm [OF assms(1) assms(3) assms(4), of True] by blast
  have skip: "skip_blanks 0 s = s" for s by (cases s) simp_all
  from spec [OF i(2), of 1] have "piece_of v i 1 True = Some (encode (map (\<lambda>c. if c = 0x2581 then 32 else c) a'))" by (simp add: un skip)
  then show ?thesis using i(1) un by (simp add: spm_emit_def)
qed

lemma length_escape:
  assumes "\<forall>c\<in>set cs. is_cpt c"
  shows "length (encode (map (\<lambda>c. if c = 32 then 0x2581 else c) cs)) \<le> 3 * length (encode cs)"
  using assms
proof (induction cs)
  case (Cons c cs)
  have "length (enc 0x2581) = 3" "length (enc 32) = 1" by code_simp+
  then show ?case using Cons by (auto simp: encode_Cons)
qed simp

text \<open>The pieces of the escaped text, with what is known of each.\<close>

lemma escaped_pieces:
  assumes "\<forall>c\<in>set cs. is_cpt c" and "E = encode cs" and "ordinary_in v E" and "int (length E) < INT32_MAX" and "ps = greedy_merge (>) (spm_prio v) (utf8_chars E)"
  shows "concat ps = E" "\<forall>p\<in>set ps. spm_piece v p \<and> (known_token v p \<noteq> None \<longrightarrow> ordinary v p) \<and> int (length p) < INT32_MAX"
proof -
  show c: "concat ps = E" using assms(5) by (simp add: concat_greedy_merge concat_utf8_chars)
  show "\<forall>p\<in>set ps. spm_piece v p \<and> (known_token v p \<noteq> None \<longrightarrow> ordinary v p) \<and> int (length p) < INT32_MAX"
  proof
    fix p assume p: "p \<in> set ps"
    have sp: "spm_piece v p" using spm_pieces [OF assms(1)] assms(2,5) p by blast
    have "sublist p E" using concat_sublist [OF p] c by simp
    moreover from this have "length p \<le> length E" by (auto simp: sublist_def)
    ultimately show "spm_piece v p \<and> (known_token v p \<noteq> None \<longrightarrow> ordinary v p) \<and> int (length p) < INT32_MAX"
      using sp assms(3,4) unfolding ordinary_in_def spm_piece_def by auto
  qed
qed

text \<open>The tokens of a text, read by \<open>detokenize\<close>.\<close>

lemma spm_text_reads:
  assumes "spm_level v" and "\<forall>c\<in>set cps. is_cpt c" and "0x2581 \<notin> set cps" and "cps \<noteq> []"
    and "E = llama_escape_whitespace ((if add_space_prefix v then '' '' else []) @ encode cps)" and "ordinary_in v E" and "int (length E) < INT32_MAX"
  shows "\<exists>ts ps. for_each (spm_emit v) (greedy_merge (>) (spm_prio v) (utf8_chars E)) [] = Some ts \<and>
    pieces_of v True (add_space_prefix v) ts = Some ps \<and> concat ps = encode cps"
proof -
  let ?cs = "if add_space_prefix v then 32 # cps else cps" and ?esc = "\<lambda>c. if c = 32 then 0x2581 else c"
  let ?ps = "greedy_merge (>) (spm_prio v) (utf8_chars E)"
  have cs: "\<forall>c\<in>set ?cs. is_cpt c" "0x2581 \<notin> set ?cs" using assms(2,3) by auto
  have enc: "(if add_space_prefix v then '' '' else []) @ encode cps = encode ?cs" by (simp add: encode_Cons enc_blank)
  have E: "E = encode (map ?esc ?cs)" and v: "\<forall>c\<in>set (map ?esc ?cs). is_cpt c" using assms(5) escape_encode [OF cs(1)] enc cs(1) by auto
  note ps = escaped_pieces [OF v E assms(6,7) refl]
  have un: "llama_unescape_whitespace E = encode ?cs" using unescape_escape [OF cs] assms(5) enc by simp
  have all: "concat (map llama_unescape_whitespace ?ps) = encode ?cs" using unescape_pieces [of ?ps] ps un by (auto simp: spm_piece_def)
  show ?thesis
  proof (cases "add_space_prefix v")
    case False
    obtain ts where "for_each (spm_emit v) ?ps [] = Some ts" "reads_as v ts (encode cps)" using emits_read_as [OF assms(1) ps(2), of "[]"] all False by auto
    then show ?thesis using False unfolding reads_as_def by auto
  next
    case True
    have E': "E = encode (0x2581 # map ?esc cps)" using E True by simp
    then have "?ps \<noteq> []" using ps(1) encode_Some [of "0x2581"] by (auto simp: encode_Cons)
    then obtain p qs where pq: "?ps = p # qs" by (cases ?ps) auto
    have p: "spm_piece v p" "known_token v p \<noteq> None \<Longrightarrow> ordinary v p" "int (length p) < INT32_MAX" using ps(2) pq by auto
    have "p @ concat qs = encode (0x2581 # map ?esc cps)" using ps(1) pq E' by simp
    moreover have "\<forall>c\<in>set (map ?esc cps). is_cpt c" using assms(2) by auto
    ultimately obtain i q where i: "spm_emit v p [] = Some [i]" "piece_of v i 1 True = Some q" "llama_unescape_whitespace p = CHR '' '' # q"
      using first_piece [OF assms(1) p, of "map ?esc cps" "concat qs" "[]"] by auto
    obtain ts where ts: "for_each (spm_emit v) qs [i] = Some ([i] @ ts)" "reads_as v ts (concat (map llama_unescape_whitespace qs))"
      using emits_read_as [OF assms(1), of qs "[i]"] ps(2) pq by auto
    obtain rs where rs: "pieces_of v True False ts = Some rs" "concat rs = concat (map llama_unescape_whitespace qs)" using ts(2) unfolding reads_as_def by blast
    have "q @ concat rs = encode cps" using all pq i(3) rs(2) True by (simp add: encode_Cons enc_blank)
    then show ?thesis using i(1,2) ts(1) rs(1) pq True by (intro exI [of _ "i # ts"] exI [of _ "q # rs"]) simp
  qed
qed


text \<open>A vocabulary of the bytes, U+2581 and a few words.\<close>

definition spm_words :: "string list" where
  "spm_words = [phantom_space, phantom_space @ ''a'', ''a'', ''b'']"

definition all_bytes :: "int list" where
  "all_bytes = [0..255]"

lemma set_all_bytes: "set all_bytes = {0..255}"
  unfolding all_bytes_def by (rule set_upto)

lemma length_all_bytes [simp]: "length all_bytes = 256"
  unfolding all_bytes_def length_upto by simp

lemma distinct_all_bytes: "distinct all_bytes"
  unfolding all_bytes_def by (rule distinct_upto)

lemma nth_all_bytes: "n < 256 \<Longrightarrow> all_bytes ! n = int n"
  unfolding all_bytes_def by (subst nth_upto) simp_all

definition spm_vocab :: "nat vocab_impl" where
  "spm_vocab =
     \<lparr>vocab_type = VOCAB_SPM,
      token_to_id = map_of (zip spm_words [256..259]) ++ map_of (map (\<lambda>b. (byte_name b, b)) all_bytes),
      id_to_token = map (\<lambda>b. \<lparr>tok_text = byte_name b, tok_score = 0, tok_attr = ATTR_BYTE\<rparr>) all_bytes @
        map (\<lambda>t. \<lparr>tok_text = t, tok_score = length t, tok_attr = ATTR_NORMAL\<rparr>) spm_words,
      bpe_ranks = Map.empty, add_space_prefix = True, add_bos = False, add_eos = False, ignore_merges = False, clean_spaces = False,
      cache_token_to_piece = [], special_bos_id = -1, special_eos_id = -1, special_unk_id = -1, special_sep_id = -1, cache_special_tokens = []\<rparr>"

lemma spm_vocab_tokens: "n_tokens spm_vocab = 260"
  by (simp add: spm_vocab_def spm_words_def n_tokens_def)

lemma spm_vocab_byte:
  assumes "0 \<le> b" and "b < 256"
  shows "token_to_id spm_vocab (byte_name b) = Some b" "id_to_token spm_vocab ! nat b = \<lparr>tok_text = byte_name b, tok_score = 0, tok_attr = ATTR_BYTE\<rparr>"
proof -
  have "inj_on byte_name (set all_bytes)"
  proof (rule inj_onI)
    fix x y assume xy: "x \<in> set all_bytes" "y \<in> set all_bytes" and eq: "byte_name x = byte_name y"
    have "0 \<le> x" "x < 256" "0 \<le> y" "y < 256" using xy unfolding set_all_bytes by simp_all
    then have "strtol16 (take 2 (drop 3 (byte_name x))) = x" "strtol16 (take 2 (drop 3 (byte_name y))) = y" using byte_name_value by blast+
    then show "x = y" unfolding eq by (rule trans [OF sym])
  qed
  then have "distinct (map fst (map (\<lambda>b. (byte_name b, b)) all_bytes))" by (simp add: distinct_map o_def distinct_all_bytes)
  then have "map_of (map (\<lambda>b. (byte_name b, b)) all_bytes) (byte_name b) = Some b" using assms by (auto simp: map_of_eq_Some_iff set_all_bytes)
  then show "token_to_id spm_vocab (byte_name b) = Some b" by (simp add: spm_vocab_def map_add_def)
  show "id_to_token spm_vocab ! nat b = \<lparr>tok_text = byte_name b, tok_score = 0, tok_attr = ATTR_BYTE\<rparr>"
    using assms by (simp add: spm_vocab_def nth_append nat_less_iff nth_all_bytes)
qed

lemma spm_vocab_known: "token_to_id spm_vocab m = Some i \<Longrightarrow> (0 \<le> i \<and> i < 256 \<and> m = byte_name i) \<or> (m, i) \<in> set (zip spm_words [256..259])"
  by (auto simp: spm_vocab_def map_add_Some_iff set_all_bytes dest!: map_of_SomeD)

lemma spm_vocab_word:
  assumes "(m, i) \<in> set (zip spm_words [256..259])"
  shows "ordinary spm_vocab m"
proof -
  have "list_all (\<lambda>(m, i). m \<noteq> [] \<and> hd m \<noteq> CHR ''<'' \<and> map_of (zip spm_words [256..259]) m = Some i \<and> 256 \<le> i \<and> i < 260 \<and> spm_words ! nat (i - 256) = m)
      (zip spm_words [256..259])" by code_simp
  then have m: "hd m \<noteq> CHR ''<''" "map_of (zip spm_words [256..259]) m = Some i" "256 \<le> i" "i < 260" "spm_words ! nat (i - 256) = m"
    using assms by (auto simp: list_all_iff)
  have "map_of (map (\<lambda>b. (byte_name b, b)) all_bytes) m = None"
    using m(1) by (auto simp: map_of_eq_None_iff byte_name_def)
  then have "token_to_id spm_vocab m = Some i" using m(2) by (simp add: spm_vocab_def map_add_def)
  moreover have "id_to_token spm_vocab ! nat i = \<lparr>tok_text = m, tok_score = length m, tok_attr = ATTR_NORMAL\<rparr>"
  proof -
    have "nat i - 256 = nat (i - 256)" "\<not> nat i < 256" "nat (i - 256) < length spm_words" using m(3,4) by (auto simp: spm_words_def)
    then show ?thesis using m(5) by (simp add: spm_vocab_def nth_append)
  qed
  ultimately show ?thesis using m(3,4) spm_vocab_tokens unfolding ordinary_def by (intro exI [of _ i]) (simp add: nat_less_iff)
qed

lemma spm_vocab_level: "spm_level spm_vocab"
proof -
  have "(phantom_space, 256) \<in> set (zip spm_words [256..259])" by code_simp
  note sp = spm_vocab_word [OF this]
  have "i32_ok i" if "token_to_id spm_vocab t = Some i" for t i
  proof -
    have "list_all (\<lambda>(m, i). i32_ok i) (zip spm_words [256..259])" by code_simp
    then show ?thesis using spm_vocab_known [OF that] by (auto simp: i32_ok_def list_all_iff)
  qed
  moreover have "vocab_type spm_vocab = VOCAB_SPM" "\<not> clean_spaces spm_vocab" "cache_token_to_piece spm_vocab = []" by (simp_all add: spm_vocab_def)
  ultimately show ?thesis using sp spm_vocab_tokens spm_vocab_byte by (auto simp: spm_level_def ids_int32_def INT32_MAX_def nat_less_iff)
qed

lemma spm_vocab_ordinary_in: "CHR ''<'' \<notin> set s \<Longrightarrow> ordinary_in spm_vocab s"
  unfolding ordinary_in_def
proof (intro allI impI)
  fix m assume s: "CHR ''<'' \<notin> set s" "sublist m s" "known_token spm_vocab m \<noteq> None"
  then obtain i where "token_to_id spm_vocab m = Some i" by (auto simp: known_token_def split: option.splits)
  moreover have "CHR ''<'' \<notin> set m" using s(1,2) by (auto simp: sublist_def)
  then have "m \<noteq> byte_name i" by (auto simp: byte_name_def)
  ultimately show "ordinary spm_vocab m" using spm_vocab_known spm_vocab_word by blast
qed

lemma spm_vocab_plain: "plain_specials spm_vocab" "special_texts spm_vocab parse_special = []" "add_space_prefix spm_vocab"
  by (simp_all add: plain_specials_def special_texts_def spm_vocab_def)


end
