(* ===== verification/Spec2Isabelle.thy ===== *)
theory Spec2Isabelle
  imports Prelude Hparams Batch KV_Cells KV_Cache KV_Slots KV_Prepare KV_Mask KV_Batch
    Grammar Grammar_Lang Grammar_Rec Unicode
    Grammar_Tokens Grammar_Utf8 Grammar_Apply
    Grammar_Parser Grammar_Parse Grammar_Repeat Grammar_Text KV_State KV_Restore KV_Roundtrip Unicode_Split Unicode_Partition Unicode_Regex Unicode_Sync Unicode_Words
    Vocab Vocab_Merge Vocab_Chain Vocab_Greedy Vocab_BPE Vocab_SPM Vocab_Piece Vocab_RWKV Vocab_Pretok Vocab_Tokenize
    Vocab_Roundtrip Vocab_SPM_Roundtrip
begin

text \<open>
  This development verifies the part of the inference library that turns a text into tokens and back, and decides which
  tokens see which and which may follow: the tokenizers with the Unicode code under them, the batch allocator, the
  metadata of the key-value cache, the attention mask and the grammar-constrained sampler.  The sources are the C++ files
  under \<open>src/src/\<close>, with a few types and constants of \<open>src/include/llama.h\<close> and \<open>src/ggml/src/\<close>.

  \<^bold>\<open>The program\<close>

  \<^item> \<open>llama_vocab::impl::tokenize\<close> (\<open>llama-vocab.cpp\<close>) cuts a text at its special tokens (\<open>tokenizer_st_partition\<close>) and
    hands every remaining fragment to a session of the vocabulary's tokenizer.  The BPE session splits the fragment into
    words by regular expressions (\<open>unicode_regex_split\<close>, \<open>unicode.cpp\<close>: hand-written splitters for some of them, \<open>std::regex\<close> for
    the others), writes every word in the byte alphabet and merges symbols by rank; the SPM session merges symbols by
    score and falls back on byte tokens; the RWKV session takes longest matches from a trie.  \<open>token_to_piece\<close> and
    \<open>detokenize\<close> give the text of tokens.
  \<^item> A caller hands a \<open>llama_batch\<close> to \<open>llama_batch_allocr::init\<close> (\<open>llama-batch.cpp\<close>), which fills in missing fields,
    validates the batch against the memory, and is then cut into ubatches by \<open>split_simple\<close>, \<open>split_equal\<close> or \<open>split_seq\<close>.
  \<^item> The key-value cache (\<open>llama-kv-cache.cpp\<close>, \<open>llama-kv-cells.h\<close>) keeps, for every cell of every stream, a position, a
    pending shift and the set of sequences that own the cell, with an index of the positions of every sequence.
    \<open>prepare\<close> looks for slots for all ubatches of a batch, \<open>apply_ubatch\<close> writes one ubatch into its slot, the \<open>seq_*\<close>
    operations edit sequences, \<open>state_write\<close> and \<open>state_read\<close> save and restore a cache, and \<open>set_input_kq_mask\<close> computes from the cells which of them a token attends to.
    \<open>llama-hparams.cpp\<close> gives the sizes and the sliding-window rule.
  \<^item> A sampler calls \<open>llama_grammar_apply_impl\<close> (\<open>llama-grammar.cpp\<close>) to mask the tokens that a grammar does not allow next,
    and \<open>llama_grammar_accept_impl\<close> with the token it has chosen.  A grammar is a set of rules and a set of pushdown
    stacks; texts of tokens are decoded incrementally from UTF-8.

  \<^bold>\<open>The theories\<close>

  \<^item> \<open>Prelude\<close>: \<open>int32_t\<close> and \<open>uint32_t\<close> arithmetic, checked access, assertions, and the loop combinator \<open>for_each\<close>
    with its total-correctness rules.  A result \<open>None\<close> is an abort, an exception, undefined behaviour, or a computation
    that does not return.
  \<^item> \<open>Hparams\<close>: \<open>llama_hparams\<close> and its derived quantities, \<open>is_masked_swa\<close>.
  \<^item> \<open>Batch\<close>: \<open>llama_batch_allocr\<close>.  The locales \<open>splitter\<close> and \<open>complete_splitter\<close> are the contract of a split function; the
    three split functions interpret them, and that the ubatches partition the batch is proved once.
  \<^item> \<open>KV_Cells\<close>: \<open>llama_kv_cells\<close>, the invariant \<open>kv_cells_inv\<close> (the used set and the index describe the cells) and one lemma
    for each operation.  The locale \<open>cell_sweep\<close> is a loop over all cells with its effect on one cell.
  \<^item> \<open>KV_Cache\<close>: construction and the sequence operations, as interpretations of \<open>cell_sweep\<close> and \<open>kv_sweep\<close>, refining
    operations on \<open>seq_view\<close>, the set of positions of a sequence.
  \<^item> \<open>KV_Slots\<close>, \<open>KV_Prepare\<close>: \<open>slot_info\<close>, \<open>find_slot\<close>, \<open>apply_ubatch\<close>, \<open>prepare\<close>, \<open>init_batch\<close>, \<open>update\<close>, the contexts and the graph
    inputs; slots are usable, applying changes exactly the slot, preparing changes nothing.
  \<^item> \<open>KV_Mask\<close>: the attention mask; the version that copies the row of an earlier token of the sequence and patches it is
    equal to the definition by entries.
  \<^item> \<open>KV_Batch\<close>: an accepted batch finds its slots (\<open>Batch\<close> and \<open>KV_Prepare\<close> together).
  \<^item> \<open>KV_State\<close>: saving and restoring a cache as bytes, with the tensors of every layer.  \<open>KV_Restore\<close>: reading gives back what
    was written, for numbers, cells and rows.  \<open>KV_Roundtrip\<close>: the same for streams and whole states, and what is lost.
  \<^item> \<open>Grammar\<close>: elements, matching, stacks, the left-recursion check.  \<open>Grammar_Lang\<close>: the context-free language of the rules
    (\<open>yields\<close>), \<open>llama_grammar_advance_stack\<close> as a relation \<open>expand\<close>, and that accepting characters follows the language.
    \<open>Grammar_Rec\<close>: without left recursion every expansion ends; what the check decides.
  \<^item> \<open>Unicode\<close>: UTF-8 and the byte alphabet.  \<open>Grammar_Tokens\<close>: the incremental decoder, rejection of candidates, the
    grammar object and its operations.  \<open>Grammar_Utf8\<close>: decoding in pieces.  \<open>Grammar_Apply\<close>: rejection computes
    \<open>cand_ok\<close>, the invariant \<open>grammar_inv\<close>, and that masking and accepting agree.
  \<^item> \<open>Grammar_Parser\<close>: \<open>llama_grammar_parser\<close>, from characters to the tables of rules.  \<open>Grammar_Parse\<close>: it returns on every text, and
    the rules are well-formed.  \<open>Grammar_Repeat\<close>: the rules generated for repetitions.  \<open>Grammar_Text\<close>: the constructor of a
    grammar from its text.
  \<^item> \<open>Unicode_Split\<close>: the flags of code points and the four hand-written splitters.  \<open>Unicode_Partition\<close>: the splitters
    return and subdivide the text; what one pass of their loop promises is the locale \<open>pre_tokenizer\<close>, which the four
    splitters interpret.  \<open>Unicode_Regex\<close>: the splitters of GPT-2 and Llama 3 find the words of their regular expressions.
    \<open>Unicode_Words\<close>: \<open>unicode_regex_split\<close>, and that the words lose nothing of the text.  \<open>Unicode_Sync\<close>: an encoded
    string occurs in an encoded text only at the boundaries of code points.
  \<^item> \<open>Vocab\<close>: the vocabulary, its attributes and lookups.  \<open>Vocab_Merge\<close>: the chain of symbols and the loop that merges them.
    \<open>Vocab_Chain\<close>: the invariant of the chain, and that the loop ends.  \<open>Vocab_Greedy\<close>: the loop with a queue refines the
    greedy rule that always merges the leftmost best pair of neighbours (locale \<open>merger\<close>).  \<open>Vocab_BPE\<close>, \<open>Vocab_SPM\<close>, \<open>Vocab_RWKV\<close>: the sessions;
    the first two satisfy \<open>merger\<close>.  \<open>Vocab_Pretok\<close>: the regular expressions of every pre-tokenizer type.
  \<^item> \<open>Vocab_Piece\<close>: \<open>token_to_piece\<close> and \<open>detokenize\<close>.  \<open>Vocab_Tokenize\<close>: partitioning by special tokens and \<open>tokenize\<close>.
    \<open>Vocab_Roundtrip\<close>, \<open>Vocab_SPM_Roundtrip\<close>: the text of the tokens of a text is the text.

  \<^bold>\<open>Bounds and fuel\<close>

  \<open>int32_t\<close> overflow is \<open>None\<close> and \<open>uint32_t\<close> values wrap.  \<open>llama_grammar_advance_stack\<close> and
  \<open>llama_grammar_reject_candidates\<close> are \<open>partial_function\<close>s, since the code does not return on hidden left recursion; that they
  return is proved where the properties need it.  \<open>llama_grammar_detect_left_recursion\<close> has a depth argument:
  every level marks one more rule, so the number of rules plus two is enough (\<open>detect_spec\<close>).
  The functions of the parser that call each other at a group have a depth argument; a text of length \<open>n\<close> needs at most
  \<open>3 * n + 2\<close>, and the model passes that much (\<open>parse_text_runs\<close>).
  The loops of the splitters, of the merging, of the RWKV session and of the partition are \<open>partial_function\<close>s as well.
  The properties on them prove that they return; the RWKV session does not when a byte starts no token of the
  vocabulary (\<open>rwkv_hangs\<close>).

  \<^bold>\<open>Not modelled\<close>

  Backend buffers and the compute graph (the numeric kernels under \<open>ggml\<close> and the model graphs): floating-point
  code and device drivers, which the modelled code only sizes, indexes and copies; a tensor is its bytes, and the table of type sizes is an argument.  Logits are opaque, except that they may be set
  to minus infinity.  Printing, logging and file access.  \<open>std::regex\<close> is a parameter (search functions of a
  pattern), as are \<open>std::priority_queue\<close> in the choice among equal elements, the tables of \<open>unicode-data.cpp\<close> and, for the grammar, the text and the end-of-generation flag of a token.
  Loading of a vocabulary from a file, and the WPM, UGM and PLaMo-2 sessions.
  Recurrent and hybrid memories, samplers other than the grammar, model loading, quantisation, chat templates, the
  server and the tools.
\<close>

end
